(* ===== verification/Prelude.thy ===== *)
theory Prelude
  imports Main "HOL-Library.Word" "HOL-Library.Signed_Division"
begin

unbundle bit_operations_syntax

text \<open>
  Shared vocabulary of the development: the error results of the Go code, the arithmetic of
  \<open>math/big\<close> and of Go's fixed width integers, and the generic lemmas that the component
  theories use through the simplifier or through the collections declared here.

  A Go function \<open>f(...) (T, error)\<close> is a function into \<open>'a res\<close>. An error is one of

  \<^item> \<open>Fail reason\<close>: an error made with \<open>fmt.Errorf\<close>; the reason is the \<open>key=value\<close> tail of
    its text, and the "failed to ..." prefixes that callers put in front of it are left out;
  \<^item> \<open>Sentinel name\<close>: an error that wraps a package variable which callers test with
    \<open>errors.Is\<close> (wrapping keeps the sentinel visible, so prefixes are left out here as well);
  \<^item> \<open>Panic reason\<close>: a run time panic of Go, which no caller in this repository recovers from.
\<close>

section \<open>Collections\<close>

named_theorems bigint_simps \<open>arithmetic of math/big on the values the code reaches\<close>
named_theorems u64_simps \<open>reading guarded uint64 arithmetic as integers\<close>
named_theorems step_defs \<open>definitions unfolded to look inside one step of a loop\<close>

section \<open>Results\<close>

datatype failure = Fail string | Sentinel string | Panic string

type_synonym 'a res = "failure + 'a"

definition ebind :: "'e + 'a \<Rightarrow> ('a \<Rightarrow> 'e + 'b) \<Rightarrow> 'e + 'b" where
  "ebind m f = (case m of Inl e \<Rightarrow> Inl e | Inr x \<Rightarrow> f x)"

definition ensure :: "bool \<Rightarrow> 'e \<Rightarrow> 'e + 'a \<Rightarrow> 'e + 'a" where
  "ensure c e m = (if c then m else Inl e)"

definition panics :: "'a res \<Rightarrow> bool" where
  "panics m \<longleftrightarrow> (case m of Inl (Panic _) \<Rightarrow> True | _ \<Rightarrow> False)"

lemma ebind_simps [simp]:
  "ebind (Inl e) f = Inl e"
  "ebind (Inr x) f = f x"
  by (simp_all add: ebind_def)

lemma ebind_cong [fundef_cong]:
  "m = m' \<Longrightarrow> (\<And>x. m' = Inr x \<Longrightarrow> f x = g x) \<Longrightarrow> ebind m f = ebind m' g"
  by (simp add: ebind_def split: sum.splits)

lemma ebind_eq_Inr: "ebind m f = Inr y \<longleftrightarrow> (\<exists>x. m = Inr x \<and> f x = Inr y)"
  by (simp add: ebind_def split: sum.splits)

lemma ebind_eq_InrE [elim!]:
  assumes "ebind m f = Inr y"
  obtains x where "m = Inr x" and "f x = Inr y"
  using assms by (auto simp: ebind_eq_Inr)

lemma ensure_eq_Inr [simp]: "ensure c e m = Inr y \<longleftrightarrow> c \<and> m = Inr y"
  by (simp add: ensure_def)

lemma ensure_True [simp]: "ensure True e m = m"
  by (simp add: ensure_def)

lemma ensure_False [simp]: "ensure False e m = Inl e"
  by (simp add: ensure_def)

lemma panics_simps [simp]:
  "\<not> panics (Inl (Fail r))"
  "\<not> panics (Inl (Sentinel r))"
  "panics (Inl (Panic r))"
  "\<not> panics (Inr x)"
  by (simp_all add: panics_def)

lemma panics_ebind: "panics (ebind m f) \<longleftrightarrow> panics m \<or> (\<exists>x. m = Inr x \<and> panics (f x))"
  by (cases m) (simp_all add: panics_def)

lemma panics_ensure [simp]:
  "\<not> panics (Inl e :: 'a res) \<Longrightarrow> panics (ensure c e (m :: 'a res)) \<longleftrightarrow> c \<and> panics m"
  by (simp add: ensure_def)

section \<open>Signed machine integers\<close>

text \<open>
  Ticks, bitmap positions and bin identifiers are \<open>int32\<close> values. They are integers here,
  and every operation of the code that can leave the width is wrapped with \<open>i32\<close>.
  Go's \<open>/\<close> and \<open>%\<close> round towards zero, as \<open>sdiv\<close> and \<open>smod\<close> do.
\<close>

definition i32 :: "int \<Rightarrow> int" where
  "i32 n = (n + 2 ^ 31) mod 2 ^ 32 - 2 ^ 31"

definition in_i32 :: "int \<Rightarrow> bool" where
  "in_i32 n \<longleftrightarrow> - (2 ^ 31) \<le> n \<and> n < 2 ^ 31"

lemma i32_id [simp]: "- 2147483648 \<le> n \<Longrightarrow> n < 2147483648 \<Longrightarrow> i32 n = n"
  by (simp add: i32_def)

lemma i32_range: "- 2147483648 \<le> i32 n \<and> i32 n < 2147483648"
proof -
  have "0 \<le> (n + 2 ^ 31) mod (2 ^ 32 :: int)" and "(n + 2 ^ 31) mod (2 ^ 32 :: int) < 2 ^ 32"
    by (rule pos_mod_sign, simp) (rule pos_mod_bound, simp)
  then show ?thesis by (simp add: i32_def)
qed

lemma sdiv_nonneg: "0 \<le> n \<Longrightarrow> 0 < d \<Longrightarrow> n sdiv d = n div (d::int)"
  by (cases "n = 0") (simp_all add: signed_divide_int_def)

lemma smod_nonneg: "0 \<le> n \<Longrightarrow> 0 < d \<Longrightarrow> n smod d = n mod (d::int)"
  by (cases "n = 0") (simp_all add: signed_modulo_int_def)

lemma smod_eq_0_iff: "0 < d \<Longrightarrow> n smod d = 0 \<longleftrightarrow> d dvd (n::int)"
proof (cases "0 \<le> n")
  case True
  then show "0 < d \<Longrightarrow> ?thesis" by (simp add: smod_nonneg mod_eq_0_iff_dvd)
next
  case False
  assume d: "0 < d"
  have "n smod d = - ((- n) mod d)"
    using False d by (simp add: signed_modulo_int_def signed_divide_int_def minus_mult_div_eq_mod [symmetric])
  then show ?thesis by (simp add: mod_eq_0_iff_dvd)
qed

text \<open>The floor division that the code spells out on top of Go's truncating operators.\<close>

definition go_floor_div :: "int \<Rightarrow> int \<Rightarrow> int" where
  "go_floor_div v d = (if v < 0 \<and> v smod d \<noteq> 0 then v sdiv d - 1 else v sdiv d)"

lemma go_floor_div_eq: "0 < d \<Longrightarrow> go_floor_div v d = v div d"
proof (cases "0 \<le> v")
  case True
  then show "0 < d \<Longrightarrow> ?thesis" by (simp add: go_floor_div_def sdiv_nonneg)
next
  case False
  assume d: "0 < d"
  have s: "v sdiv d = - ((- v) div d)"
    using False d by (simp add: signed_divide_int_def)
  have m: "v smod d = 0 \<longleftrightarrow> d dvd v" using d by (rule smod_eq_0_iff)
  have "v div d = - ((- v) div d) - (if d dvd v then 0 else 1)"
    using zdiv_zminus1_eq_if [of d "- v"] d by (simp add: mod_eq_0_iff_dvd)
  then show ?thesis using False s m by (simp add: go_floor_div_def)
qed

section \<open>Integers of math/big\<close>

text \<open>
  A \<open>*big.Int\<close> is an \<open>int\<close> (an \<open>int option\<close> where the code tests it for nil). \<open>Quo\<close> and
  \<open>QuoRem\<close> round towards zero, \<open>Div\<close> is Euclidean, and both panic on a zero divisor.
\<close>

definition BitLen_gt :: "int \<Rightarrow> nat \<Rightarrow> bool" where
  "BitLen_gt n k \<longleftrightarrow> 2 ^ k \<le> \<bar>n\<bar>"

definition IsUint64 :: "int \<Rightarrow> bool" where
  "IsUint64 n \<longleftrightarrow> 0 \<le> n \<and> n < 2 ^ 64"

definition big_Quo :: "int \<Rightarrow> int \<Rightarrow> int res" where
  "big_Quo n d = (if d = 0 then Inl (Panic ''division by zero'') else Inr (n sdiv d))"

definition big_Div :: "int \<Rightarrow> int \<Rightarrow> int res" where
  "big_Div n d =
     (if d = 0 then Inl (Panic ''division by zero'')
      else Inr (if d < 0 then - (n div (- d)) else n div d))"

text \<open>\<open>QuoRem\<close> followed by an increment on a nonzero remainder: the shape of every rounding
  helper of the repository (\<open>ceilDiv\<close>, \<open>divCeil\<close>, \<open>localDiv\<close>).\<close>

definition quo_rem_up :: "int \<Rightarrow> int \<Rightarrow> int res" where
  "quo_rem_up n d =
     (if d = 0 then Inl (Panic ''division by zero'')
      else Inr (if n smod d \<noteq> 0 then n sdiv d + 1 else n sdiv d))"

definition cdiv :: "int \<Rightarrow> int \<Rightarrow> int" where
  "cdiv n d = - ((- n) div d)"

lemma big_Quo_pos [bigint_simps]: "0 \<le> n \<Longrightarrow> 0 < d \<Longrightarrow> big_Quo n d = Inr (n div d)"
  by (simp add: big_Quo_def sdiv_nonneg)

lemma big_Div_pos [bigint_simps]: "0 < d \<Longrightarrow> big_Div n d = Inr (n div d)"
  by (simp add: big_Div_def)

lemma cdiv_alt: "0 < d \<Longrightarrow> cdiv n d = (if n mod d = 0 then n div d else n div d + 1)"
  using zdiv_zminus1_eq_if [of d n] by (auto simp: cdiv_def)

lemma quo_rem_up_pos [bigint_simps]: "0 \<le> n \<Longrightarrow> 0 < d \<Longrightarrow> quo_rem_up n d = Inr (cdiv n d)"
  by (simp add: quo_rem_up_def cdiv_alt sdiv_nonneg smod_nonneg)

lemma le_div_iff_mult_le: "0 < d \<Longrightarrow> q \<le> n div d \<longleftrightarrow> q * d \<le> (n::int)"
proof
  assume d: "0 < d" and "q \<le> n div d"
  then have "q * d \<le> n div d * d" by (simp add: mult_right_mono)
  also have "\<dots> \<le> n" using d by (metis div_mult_mod_eq le_add_same_cancel1 pos_mod_sign)
  finally show "q * d \<le> n" .
next
  assume d: "0 < d" and "q * d \<le> n"
  then have "q * d div d \<le> n div d" by (intro zdiv_mono1)
  then show "q \<le> n div d" using d by simp
qed

lemma div_less_iff_less_mult: "0 < d \<Longrightarrow> n div d < q \<longleftrightarrow> (n::int) < q * d"
  using le_div_iff_mult_le [of d q n] by linarith

lemma cdiv_le_iff: "0 < d \<Longrightarrow> cdiv n d \<le> q \<longleftrightarrow> n \<le> q * d"
  using le_div_iff_mult_le [of d "- q" "- n"] by (auto simp: cdiv_def)

lemma less_cdiv_iff: "0 < d \<Longrightarrow> q < cdiv n d \<longleftrightarrow> q * d < n"
  using cdiv_le_iff [of d n q] by linarith

lemma cdiv_mult_ge: "0 < d \<Longrightarrow> n \<le> cdiv n d * d"
  using cdiv_le_iff [of d n "cdiv n d"] by simp

lemma div_mult_le: "0 < d \<Longrightarrow> n div d * d \<le> (n::int)"
  using le_div_iff_mult_le [of d "n div d" n] by simp

lemma less_div_mult: "0 < d \<Longrightarrow> (n::int) < (n div d + 1) * d"
  using div_less_iff_less_mult [of d n "n div d + 1"] by simp

lemma cdiv_mult_less: "0 < d \<Longrightarrow> (cdiv n d - 1) * d < n"
  using less_cdiv_iff [of d "cdiv n d - 1" n] by simp

lemma cdiv_nonneg: "0 \<le> n \<Longrightarrow> 0 < d \<Longrightarrow> 0 \<le> cdiv n d"
  using less_cdiv_iff [of d "- 1" n] by linarith

lemma div_le_cdiv: "0 < d \<Longrightarrow> n div d \<le> cdiv n d"
  by (simp add: cdiv_alt)

lemma cdiv_mono: "0 < d \<Longrightarrow> m \<le> n \<Longrightarrow> cdiv m d \<le> cdiv n d"
  by (meson cdiv_le_iff cdiv_mult_ge order_trans)

lemma cdiv_pos: "0 < n \<Longrightarrow> 0 < d \<Longrightarrow> 0 < cdiv n d"
  by (simp add: less_cdiv_iff)

lemma cdiv_0 [simp]: "cdiv 0 d = 0"
  by (simp add: cdiv_def)

section \<open>Guarded unsigned arithmetic\<close>

type_synonym u8 = "8 word"
type_synonym u16 = "16 word"
type_synonym u32 = "32 word"
type_synonym u64 = "64 word"

text \<open>\<open>a > ^uint64(0) - b\<close> is how the code tests that \<open>a + b\<close> would wrap.\<close>

definition u64_add_overflows :: "u64 \<Rightarrow> u64 \<Rightarrow> bool" where
  "u64_add_overflows a b \<longleftrightarrow> a > NOT 0 - b"

definition u64_of :: "int \<Rightarrow> u64" where
  "u64_of n = word_of_int n"

lemma uint64_bounds: "0 \<le> uint (a::u64)" "uint (a::u64) < 18446744073709551616"
  using uint_bounded [of a] by simp_all

lemma u64_add_overflows_iff [u64_simps]:
  "u64_add_overflows a b \<longleftrightarrow> 2 ^ 64 \<le> uint a + uint b"
proof -
  have top: "uint (- 1 :: u64) = 2 ^ 64 - 1"
    by (simp add: unsigned_minus_1_eq_mask mask_eq_exp_minus_1)
  have "uint (NOT 0 - b :: u64) = 2 ^ 64 - 1 - uint b"
    using uint64_bounds [of b] top by (simp add: uint_sub_if' word_le_def)
  then show ?thesis by (simp add: u64_add_overflows_def word_less_def) linarith
qed

lemma uint_add_u64 [u64_simps]:
  "\<not> u64_add_overflows a b \<Longrightarrow> uint (a + b) = uint a + uint b"
  by (simp add: u64_add_overflows_iff uint_plus_if')

lemma uint_sub_u64 [u64_simps]: "b \<le> a \<Longrightarrow> uint (a - b :: u64) = uint a - uint b"
  by (simp add: uint_sub_if' word_le_def)

lemma uint_u64_of [u64_simps]: "IsUint64 n \<Longrightarrow> uint (u64_of n) = n"
  by (simp add: u64_of_def IsUint64_def uint_word_of_int)

lemma IsUint64_uint [simp]: "IsUint64 (uint (a::u64))"
  using uint64_bounds [of a] by (simp add: IsUint64_def)

end
