(* ===== verification/Tick_Ratio.thy ===== *)
theory Tick_Ratio
  imports Prelude
begin

text \<open>
  Every concentrated liquidity package of the repository turns a tick into a square root price
  with the same loop: start from one in fixed point, and for each set bit of the tick's
  magnitude multiply by that bit's factor and shift the product back. The packages differ in
  the width of the fixed point and in the table of factors. This theory models the loop once
  and proves, for any table whose entries pass a finite check, that the result moves strictly
  with the tick by a relative gap that survives the rounding of every later step.

  The two locales are the interface of such a table: \<open>falling_ticks\<close> for tables of factors
  below one, \<open>rising_ticks\<close> for factors above one. The theories of the venues interpret them
  on the tables of the code.
\<close>

section \<open>The loop\<close>

text \<open>
  \<open>for bit, f := range factors { if abs&(1<<bit) != 0 { ratio = ratio * f >> sh } }\<close>
\<close>

fun factor_loop :: "nat \<Rightarrow> nat \<Rightarrow> int \<Rightarrow> int list \<Rightarrow> int \<Rightarrow> int" where
  "factor_loop sh k n [] r = r"
| "factor_loop sh k n (f # fs) r =
     factor_loop sh (Suc k) n fs (if bit n k then drop_bit sh (r * f) else r)"

text \<open>The same loop, consuming the bits of the magnitude by halving it.\<close>

fun apply_factors :: "nat \<Rightarrow> int list \<Rightarrow> int \<Rightarrow> int \<Rightarrow> int" where
  "apply_factors sh [] n r = r"
| "apply_factors sh (f # fs) n r =
     apply_factors sh fs (n div 2) (if odd n then r * f div 2 ^ sh else r)"

lemma factor_loop_apply: "factor_loop sh k n fs r = apply_factors sh fs (drop_bit k n) r"
proof (induction fs arbitrary: k r)
  case Nil
  then show ?case by simp
next
  case (Cons f fs)
  have "drop_bit (Suc k) n = drop_bit k n div 2"
    using drop_bit_drop_bit [of 1 k n] by (simp add: drop_bit_eq_div add.commute)
  then show ?case
    using Cons by (simp add: bit_iff_odd_drop_bit drop_bit_eq_div)
qed

section \<open>Bounds and gaps\<close>

text \<open>The least value the loop can pass through, whatever the bits of the tick are.\<close>

fun least_ratio :: "nat \<Rightarrow> int list \<Rightarrow> int \<Rightarrow> int" where
  "least_ratio sh [] r = r"
| "least_ratio sh (f # fs) r = least_ratio sh fs (min r (r * f div 2 ^ sh))"

text \<open>\<open>a\<close> exceeds \<open>b\<close> by at least the fraction \<open>c / K\<close> of \<open>b\<close>.\<close>

definition gap :: "int \<Rightarrow> int \<Rightarrow> int \<Rightarrow> int \<Rightarrow> bool" where
  "gap K c a b \<longleftrightarrow> (K + c) * b \<le> K * a"

text \<open>
  Between \<open>m\<close> and \<open>m + 1\<close> a block of low ones turns into a single higher one. The check
  compares, for each bit, the product of all lower factors with the factor of the bit.
\<close>

fun falling_check :: "int \<Rightarrow> int \<Rightarrow> nat \<Rightarrow> int list \<Rightarrow> int \<Rightarrow> bool" where
  "falling_check K c sh [] A \<longleftrightarrow> True"
| "falling_check K c sh (f # fs) A \<longleftrightarrow>
     0 < f \<and> gap K c A f \<and> falling_check K c sh fs (A * f div 2 ^ sh)"

fun rising_check :: "int \<Rightarrow> int \<Rightarrow> nat \<Rightarrow> int list \<Rightarrow> int \<Rightarrow> bool" where
  "rising_check K c sh [] A \<longleftrightarrow> True"
| "rising_check K c sh (f # fs) A \<longleftrightarrow>
     0 < f \<and> gap K c f A \<and> rising_check K c sh fs (A * f div 2 ^ sh)"

text \<open>Shifting evaluates faster than dividing when a table is checked.\<close>

lemma least_ratio_code [code]:
  "least_ratio sh [] r = r"
  "least_ratio sh (f # fs) r = least_ratio sh fs (min r (drop_bit sh (r * f)))"
  by (simp_all add: drop_bit_eq_div)

lemma falling_check_code [code]:
  "falling_check K c sh [] A \<longleftrightarrow> True"
  "falling_check K c sh (f # fs) A \<longleftrightarrow>
     0 < f \<and> gap K c A f \<and> falling_check K c sh fs (drop_bit sh (A * f))"
  by (simp_all add: drop_bit_eq_div)

lemma rising_check_code [code]:
  "rising_check K c sh [] A \<longleftrightarrow> True"
  "rising_check K c sh (f # fs) A \<longleftrightarrow>
     0 < f \<and> gap K c f A \<and> rising_check K c sh fs (drop_bit sh (A * f))"
  by (simp_all add: drop_bit_eq_div)

lemma least_ratio_mono:
  "\<forall>f \<in> set fs. 0 < f \<Longrightarrow> a \<le> b \<Longrightarrow> least_ratio sh fs a \<le> least_ratio sh fs b"
proof (induction fs arbitrary: a b)
  case Nil
  then show ?case by simp
next
  case (Cons f fs)
  have "a * f div 2 ^ sh \<le> b * f div 2 ^ sh"
    using Cons.prems by (intro zdiv_mono1 mult_right_mono) auto
  then show ?case using Cons.prems by (auto intro!: Cons.IH)
qed

lemma least_ratio_le: "\<forall>f \<in> set fs. 0 < f \<Longrightarrow> least_ratio sh fs r \<le> r"
proof (induction fs arbitrary: r)
  case Nil
  then show ?case by simp
next
  case (Cons f fs)
  then have "least_ratio sh fs (min r (r * f div 2 ^ sh)) \<le> min r (r * f div 2 ^ sh)"
    by (intro Cons.IH) simp
  then show ?case by simp
qed

lemma apply_factors_ge:
  "\<forall>f \<in> set fs. 0 < f \<Longrightarrow> least_ratio sh fs r \<le> apply_factors sh fs n r"
proof (induction fs arbitrary: n r)
  case Nil
  then show ?case by simp
next
  case (Cons f fs)
  let ?r = "if odd n then r * f div 2 ^ sh else r"
  have "least_ratio sh fs (min r (r * f div 2 ^ sh)) \<le> least_ratio sh fs ?r"
    using Cons.prems by (intro least_ratio_mono) auto
  also have "\<dots> \<le> apply_factors sh fs (n div 2) ?r"
    using Cons.prems by (intro Cons.IH) auto
  finally show ?case by simp
qed

lemma apply_factors_nonneg:
  "\<forall>f \<in> set fs. 0 < f \<Longrightarrow> 0 \<le> r \<Longrightarrow> 0 \<le> apply_factors sh fs n r"
  by (induction fs arbitrary: n r) (auto simp: pos_imp_zdiv_nonneg_iff)

lemma apply_factors_le:
  "\<forall>f \<in> set fs. 0 < f \<and> f \<le> 2 ^ sh \<Longrightarrow> 0 \<le> r \<Longrightarrow> apply_factors sh fs n r \<le> r"
proof (induction fs arbitrary: n r)
  case Nil
  then show ?case by simp
next
  case (Cons f fs)
  let ?r = "if odd n then r * f div 2 ^ sh else r"
  have "r * f div 2 ^ sh \<le> r * 2 ^ sh div 2 ^ sh"
    using Cons.prems by (intro zdiv_mono1 mult_left_mono) auto
  then have r: "?r \<le> r" by simp
  have "0 \<le> ?r" using Cons.prems by (simp add: pos_imp_zdiv_nonneg_iff)
  then have "apply_factors sh fs (n div 2) ?r \<le> ?r" using Cons by auto
  with r show ?case by simp
qed

lemma gap_weaken: "gap K c a b \<Longrightarrow> 0 \<le> b \<Longrightarrow> gap K (c - 1) a b"
  by (simp add: gap_def algebra_simps)

lemma gap_step:
  assumes g: "gap K c a b" and f: "0 < f" and K: "0 < K" "K \<le> b * f div 2 ^ sh"
    and c: "0 < c"
  shows "gap K (c - 1) (a * f div 2 ^ sh) (b * f div 2 ^ sh)"
proof -
  let ?Q = "2 ^ sh :: int" let ?a = "a * f div ?Q" let ?b = "b * f div ?Q"
  have "(K + c) * (?b * ?Q) \<le> (K + c) * (b * f)"
    using K c by (intro mult_left_mono div_mult_le) auto
  also have "\<dots> = ((K + c) * b) * f" by (simp add: algebra_simps)
  also have "\<dots> \<le> (K * a) * f"
    using g f by (intro mult_right_mono) (auto simp: gap_def)
  also have "\<dots> = K * (a * f)" by (simp add: algebra_simps)
  also have "\<dots> \<le> K * ((?a + 1) * ?Q)"
    using K less_div_mult [of ?Q "a * f"] by (intro mult_left_mono) auto
  finally have "((K + c) * ?b) * ?Q \<le> (K * ?a + K) * ?Q" by (simp add: algebra_simps)
  then have "(K + c) * ?b \<le> K * ?a + K" by simp
  moreover have "K \<le> ?b" by (rule K)
  ultimately show ?thesis by (simp add: gap_def algebra_simps)
qed

lemma gap_apply_factors:
  assumes "\<forall>f \<in> set fs. 0 < f" and "gap K c a b" and "0 < K" and "K \<le> least_ratio sh fs b"
    and "int (length fs) < c"
  shows "gap K (c - int (length fs)) (apply_factors sh fs n a) (apply_factors sh fs n b)"
  using assms
proof (induction fs arbitrary: n a b c)
  case Nil
  then show ?case by simp
next
  case (Cons f fs)
  let ?b = "min b (b * f div 2 ^ sh)"
  have pos: "\<forall>g \<in> set fs. 0 < g" using Cons.prems by simp
  have "K \<le> ?b" using Cons.prems least_ratio_le [OF pos, of sh ?b] by simp
  then have Kb: "K \<le> b" "K \<le> b * f div 2 ^ sh" by simp_all
  have low: "K \<le> least_ratio sh fs (if odd n then b * f div 2 ^ sh else b)"
    using Cons.prems(4) least_ratio_mono [OF pos, of ?b "if odd n then b * f div 2 ^ sh else b" sh]
    by (auto split: if_splits)
  have "gap K (c - 1) (if odd n then a * f div 2 ^ sh else a) (if odd n then b * f div 2 ^ sh else b)"
  proof (cases "odd n")
    case True
    then show ?thesis using gap_step [OF Cons.prems(2) _ Cons.prems(3) Kb(2)] Cons.prems by simp
  next
    case False
    then show ?thesis using gap_weaken [OF Cons.prems(2)] Cons.prems(3) Kb by simp
  qed
  from Cons.IH [OF pos this Cons.prems(3) low, of "n div 2"] show ?case
    using Cons.prems by (simp add: algebra_simps)
qed

lemma falling_check_pos: "falling_check K c sh fs A \<Longrightarrow> \<forall>f \<in> set fs. 0 < f"
  by (induction fs arbitrary: A) auto

lemma rising_check_pos: "rising_check K c sh fs A \<Longrightarrow> \<forall>f \<in> set fs. 0 < f"
  by (induction fs arbitrary: A) auto

text \<open>The carry: \<open>A\<close> is the product of the factors of the low ones of \<open>m\<close> seen so far.\<close>

lemma falling_carry:
  assumes "falling_check K c sh fs A" and "0 < K" and "K \<le> least_ratio sh fs (2 ^ sh)" and "int (length fs) < c"
    and "0 \<le> m" and "m + 1 < 2 ^ length fs"
  shows "gap K (c - int (length fs)) (apply_factors sh fs m A) (apply_factors sh fs (m + 1) (2 ^ sh))"
  using assms
proof (induction fs arbitrary: m A)
  case Nil
  then show ?case by simp
next
  case (Cons f fs)
  have pos: "\<forall>g \<in> set fs. 0 < g" using falling_check_pos [OF Cons.prems(1)] by simp
  have low: "K \<le> least_ratio sh fs (2 ^ sh)" "K \<le> least_ratio sh fs f"
    using Cons.prems(3) least_ratio_mono [OF pos, of "min (2 ^ sh) f" "2 ^ sh" sh]
      least_ratio_mono [OF pos, of "min (2 ^ sh) f" f sh] by auto
  show ?case
  proof (cases "odd m")
    case True
    then have half: "(m + 1) div 2 = m div 2 + 1" and even: "even (m + 1)" by presburger+
    have chk: "falling_check K c sh fs (A * f div 2 ^ sh)" using Cons.prems(1) by simp
    have bound: "m div 2 + 1 < 2 ^ length fs" using Cons.prems(6) True by (auto elim!: oddE)
    have "gap K (c - int (length fs)) (apply_factors sh fs (m div 2) (A * f div 2 ^ sh))
            (apply_factors sh fs (m div 2 + 1) (2 ^ sh))"
      by (rule Cons.IH [OF chk Cons.prems(2) low(1) _ _ bound]) (use Cons.prems in auto)
    then have "gap K (c - int (length fs) - 1) (apply_factors sh fs (m div 2) (A * f div 2 ^ sh))
            (apply_factors sh fs (m div 2 + 1) (2 ^ sh))"
      by (rule gap_weaken) (simp add: apply_factors_nonneg pos)
    then show ?thesis using True half even by (simp add: algebra_simps)
  next
    case False
    then have half: "(m + 1) div 2 = m div 2" and odd: "odd (m + 1)" by presburger+
    have "gap K (c - int (length fs)) (apply_factors sh fs (m div 2) A) (apply_factors sh fs (m div 2) f)"
      by (rule gap_apply_factors [OF pos]) (use Cons.prems low in auto)
    then have "gap K (c - int (length fs) - 1) (apply_factors sh fs (m div 2) A)
            (apply_factors sh fs (m div 2) f)"
      by (rule gap_weaken) (use Cons.prems pos in \<open>simp add: apply_factors_nonneg\<close>)
    then show ?thesis using False half odd by (simp add: algebra_simps)
  qed
qed

text \<open>The mirror image, for factors above one.\<close>

lemma rising_carry:
  assumes "rising_check K c sh fs A" and "0 < K" and "K \<le> least_ratio sh fs A" and "int (length fs) < c" and "0 \<le> A"
    and "0 \<le> m" and "m + 1 < 2 ^ length fs"
  shows "gap K (c - int (length fs)) (apply_factors sh fs (m + 1) (2 ^ sh)) (apply_factors sh fs m A)"
  using assms
proof (induction fs arbitrary: m A)
  case Nil
  then show ?case by simp
next
  case (Cons f fs)
  have pos: "\<forall>g \<in> set fs. 0 < g" and f: "0 < f" using rising_check_pos [OF Cons.prems(1)] by simp_all
  have low: "K \<le> least_ratio sh fs A" "K \<le> least_ratio sh fs (A * f div 2 ^ sh)"
    using Cons.prems(3) least_ratio_mono [OF pos, of "min A (A * f div 2 ^ sh)" A sh]
      least_ratio_mono [OF pos, of "min A (A * f div 2 ^ sh)" "A * f div 2 ^ sh" sh] by auto
  show ?case
  proof (cases "odd m")
    case True
    then have half: "(m + 1) div 2 = m div 2 + 1" and even: "even (m + 1)" by presburger+
    have chk: "rising_check K c sh fs (A * f div 2 ^ sh)" using Cons.prems(1) by simp
    have A: "0 \<le> A * f div 2 ^ sh" using Cons.prems(5) f by (simp add: pos_imp_zdiv_nonneg_iff)
    have bound: "m div 2 + 1 < 2 ^ length fs" using Cons.prems(7) True by (auto elim!: oddE)
    have "gap K (c - int (length fs)) (apply_factors sh fs (m div 2 + 1) (2 ^ sh))
            (apply_factors sh fs (m div 2) (A * f div 2 ^ sh))"
      by (rule Cons.IH [OF chk Cons.prems(2) low(2) _ A _ bound]) (use Cons.prems in auto)
    then have "gap K (c - int (length fs) - 1) (apply_factors sh fs (m div 2 + 1) (2 ^ sh))
            (apply_factors sh fs (m div 2) (A * f div 2 ^ sh))"
      by (rule gap_weaken) (simp add: apply_factors_nonneg pos A)
    then show ?thesis using True half even by (simp add: algebra_simps)
  next
    case False
    then have half: "(m + 1) div 2 = m div 2" and odd: "odd (m + 1)" by presburger+
    have "gap K (c - int (length fs)) (apply_factors sh fs (m div 2) f) (apply_factors sh fs (m div 2) A)"
      by (rule gap_apply_factors [OF pos]) (use Cons.prems low in auto)
    then have "gap K (c - int (length fs) - 1) (apply_factors sh fs (m div 2) f)
            (apply_factors sh fs (m div 2) A)"
      by (rule gap_weaken) (use Cons.prems pos in \<open>simp add: apply_factors_nonneg\<close>)
    then show ?thesis using False half odd by (simp add: algebra_simps)
  qed
qed

lemma gap_diff:
  assumes "gap K c a b" and "0 < K" and "0 < c" and "d * K \<le> c * b"
  shows "b + d \<le> a"
proof -
  have "K * (b + d) \<le> (K + c) * b" using assms(4) by (simp add: algebra_simps)
  also have "\<dots> \<le> K * a" using assms(1) by (simp add: gap_def)
  finally show ?thesis using assms(2) by simp
qed

text \<open>Strict growth from one step to the next gives strict growth on an interval.\<close>

lemma int_step_strict_mono:
  fixes f :: "int \<Rightarrow> int"
  assumes step: "\<And>t. lo \<le> t \<Longrightarrow> t < hi \<Longrightarrow> f t < f (t + 1)"
    and "lo \<le> a" and "a < b" and "b \<le> hi"
  shows "f a < f b"
  using assms(3,4)
proof (induction b rule: int_gr_induct)
  case base
  then show ?case using step [of a] assms(2) by simp
next
  case (step i)
  then show ?case using assms(1) [of i] assms(2) by force
qed

section \<open>The interface of a factor table\<close>

locale tick_table =
  fixes sh :: nat and fs :: "int list" and K :: int and c :: int
  assumes K_pos: "0 < K"
    and c_large: "int (length fs) < c"
    and K_least: "K \<le> least_ratio sh fs (2 ^ sh)"
begin

lemma slack_pos: "0 < c - int (length fs)"
  using c_large by simp

end

locale falling_ticks = tick_table +
  assumes check: "falling_check K c sh fs (2 ^ sh)"
begin

lemma ratio_ge: "least_ratio sh fs (2 ^ sh) \<le> factor_loop sh 0 n fs (2 ^ sh)"
  using apply_factors_ge [OF falling_check_pos [OF check]] by (simp add: factor_loop_apply)

lemma ratio_gap:
  assumes "0 \<le> m" and "m + 1 < 2 ^ length fs"
  shows "gap K (c - int (length fs)) (factor_loop sh 0 m fs (2 ^ sh)) (factor_loop sh 0 (m + 1) fs (2 ^ sh))"
  using falling_carry [OF check K_pos K_least c_large assms] by (simp add: factor_loop_apply)

lemma ratio_diff:
  assumes "0 \<le> m" and "m + 1 < 2 ^ length fs"
    and "d * K \<le> (c - int (length fs)) * least_ratio sh fs (2 ^ sh)"
  shows "factor_loop sh 0 (m + 1) fs (2 ^ sh) + d \<le> factor_loop sh 0 m fs (2 ^ sh)"
proof (rule gap_diff [OF ratio_gap [OF assms(1,2)] K_pos slack_pos])
  have "(c - int (length fs)) * least_ratio sh fs (2 ^ sh)
      \<le> (c - int (length fs)) * factor_loop sh 0 (m + 1) fs (2 ^ sh)"
    using ratio_ge slack_pos by (intro mult_left_mono) auto
  then show "d * K \<le> (c - int (length fs)) * factor_loop sh 0 (m + 1) fs (2 ^ sh)"
    using assms(3) by linarith
qed

lemma ratio_le: "\<forall>f \<in> set fs. f \<le> 2 ^ sh \<Longrightarrow> factor_loop sh 0 n fs (2 ^ sh) \<le> 2 ^ sh"
  using falling_check_pos [OF check] by (auto simp: factor_loop_apply intro!: apply_factors_le)

text \<open>For positive ticks the code inverts the ratio: \<open>M / ratio\<close>.\<close>

lemma inverse_diff:
  assumes m: "0 \<le> m" "m + 1 < 2 ^ length fs"
    and pos: "0 < least_ratio sh fs (2 ^ sh)" and M: "0 \<le> M"
    and d: "(d + 1) * (K + c - int (length fs)) * factor_loop sh 0 (m + 1) fs (2 ^ sh)
              \<le> (c - int (length fs)) * M"
  shows "M div factor_loop sh 0 m fs (2 ^ sh) + d \<le> M div factor_loop sh 0 (m + 1) fs (2 ^ sh)"
proof -
  let ?a = "factor_loop sh 0 m fs (2 ^ sh)" let ?b = "factor_loop sh 0 (m + 1) fs (2 ^ sh)"
  let ?c = "c - int (length fs)"
  let ?q = "M div ?a"
  have b: "0 < ?b" using ratio_ge [of "m + 1"] pos by linarith
  have a: "0 < ?a" using ratio_ge [of m] pos by linarith
  have Kc: "0 < K + ?c" using K_pos slack_pos by linarith
  have "0 \<le> ?q" using M a by (simp add: pos_imp_zdiv_nonneg_iff)
  then have "?q * ((K + ?c) * ?b) \<le> ?q * (K * ?a)"
    using ratio_gap [OF m] by (intro mult_left_mono) (auto simp: gap_def)
  also have "\<dots> = K * (?q * ?a)" by (simp add: algebra_simps)
  also have "\<dots> \<le> K * M" using K_pos a by (intro mult_left_mono div_mult_le) auto
  finally have q: "?q * ((K + ?c) * ?b) \<le> K * M" .
  have "(?q + d) * ?b * (K + ?c) \<le> K * M + ?c * M - (K + ?c) * ?b"
    using q d by (simp add: algebra_simps)
  also have "\<dots> \<le> K * M + ?c * M" using Kc b by simp
  also have "\<dots> = M * (K + ?c)" by (simp add: algebra_simps)
  finally have "(?q + d) * ?b \<le> M" using Kc by simp
  then show ?thesis using b by (simp add: le_div_iff_mult_le)
qed

end

locale rising_ticks = tick_table +
  assumes check: "rising_check K c sh fs (2 ^ sh)"
begin

lemma ratio_ge: "least_ratio sh fs (2 ^ sh) \<le> factor_loop sh 0 n fs (2 ^ sh)"
  using apply_factors_ge [OF rising_check_pos [OF check]] by (simp add: factor_loop_apply)

lemma ratio_gap:
  assumes "0 \<le> m" and "m + 1 < 2 ^ length fs"
  shows "gap K (c - int (length fs)) (factor_loop sh 0 (m + 1) fs (2 ^ sh)) (factor_loop sh 0 m fs (2 ^ sh))"
  using rising_carry [OF check K_pos K_least c_large _ assms] by (simp add: factor_loop_apply)

lemma ratio_diff:
  assumes "0 \<le> m" and "m + 1 < 2 ^ length fs"
    and "d * K \<le> (c - int (length fs)) * least_ratio sh fs (2 ^ sh)"
  shows "factor_loop sh 0 m fs (2 ^ sh) + d \<le> factor_loop sh 0 (m + 1) fs (2 ^ sh)"
proof (rule gap_diff [OF ratio_gap [OF assms(1,2)] K_pos slack_pos])
  have "(c - int (length fs)) * least_ratio sh fs (2 ^ sh)
      \<le> (c - int (length fs)) * factor_loop sh 0 m fs (2 ^ sh)"
    using ratio_ge slack_pos by (intro mult_left_mono) auto
  then show "d * K \<le> (c - int (length fs)) * factor_loop sh 0 m fs (2 ^ sh)"
    using assms(3) by linarith
qed

end

end
