(* ===== verification/CL_Math.thy ===== *)
theory CL_Math
  imports Tick_Ratio
begin

text \<open>
  \<open>go/evm/clliquidity/math.go\<close>: the Q96 integer arithmetic of Uniswap (tick to square root
  price, and the token amounts between two prices). Packages \<open>venues/uniswap/v3\<close> and
  \<open>venues/uniswap/v4\<close> and \<open>venues/aerodrome/slipstream\<close> each carry a copy of these three
  functions; the quoting theories use the definitions given here.
\<close>

section \<open>Definitions\<close>

definition power2 :: "nat \<Rightarrow> int" where
  "power2 n = push_bit n 1"

definition ceilDiv :: "int \<Rightarrow> int \<Rightarrow> int res" where
  "ceilDiv n d = quo_rem_up n d"

definition q128_factors :: "int list" where
  "q128_factors =
     [0xfffcb933bd6fad37aa2d162d1a594001, 0xfff97272373d413259a46990580e213a,
      0xfff2e50f5f656932ef12357cf3c7fdcc, 0xffe5caca7e10e4e61c3624eaa0941cd0,
      0xffcb9843d60f6159c9db58835c926644, 0xff973b41fa98c081472e6896dfb254c0,
      0xff2ea16466c96a3843ec78b326b52861, 0xfe5dee046a99a2a811c461f1969c3053,
      0xfcbe86c7900a88aedcffc83b479aa3a4, 0xf987a7253ac413176f2b074cf7815e54,
      0xf3392b0822b70005940c7a398e4b70f3, 0xe7159475a2c29b7443b29c7fa6e889d9,
      0xd097f3bdfd2022b8845ad8f792aa5825, 0xa9f746462d870fdf8a65dc1f90e061e5,
      0x70d869a156d2a1b890bb3df62baf32f7, 0x31be135f97d08fd981231505542fcfa6,
      0x9aa508b5b7a84e1c677de54f3e99bc9, 0x5d6af8dedb81196699c329225ee604,
      0x2216e584f5fa1ea926041bedfe98, 0x48a170391f7dc42444e8fa2]"

definition tick_ratio :: "int \<Rightarrow> int" where
  "tick_ratio n = factor_loop 128 0 n q128_factors (power2 128)"

text \<open>
  The divisions below cannot panic: their divisors are the constant \<open>2 ^ 32\<close> and, for
  positive ticks, the ratio, which is positive for every tick (\<open>tick_ratio_pos\<close>).
\<close>

definition sqrtAtTick :: "int \<Rightarrow> int" where
  "sqrtAtTick tick =
     (let abs = (if tick < 0 then i32 (- tick) else tick);
          ratio = tick_ratio abs;
          ratio' = (if tick > 0 then (power2 256 - 1) sdiv ratio else ratio)
      in if ratio' smod power2 32 \<noteq> 0 then ratio' sdiv power2 32 + 1 else ratio' sdiv power2 32)"

definition amountDelta :: "int \<Rightarrow> int \<Rightarrow> int \<Rightarrow> bool \<Rightarrow> bool \<Rightarrow> int res" where
  "amountDelta a b l token0 up =
     (let (a, b) = (if a > b then (b, a) else (a, b));
          n = l * (b - a);
          n = (if token0 then push_bit 96 n else n);
          d = (if token0 then a * b else power2 96)
      in if up then ceilDiv n d else big_Quo n d)"

abbreviation minTick :: int where "minTick \<equiv> - 887272"
abbreviation maxTick :: int where "maxTick \<equiv> 887272"

section \<open>The tick table\<close>

lemma power2_eq: "power2 n = 2 ^ n"
  by (simp add: power2_def)

lemma q128_check: "falling_check 1000000 49 128 q128_factors (2 ^ 128)"
  by code_simp

lemma q128_least: "least_ratio 128 q128_factors (2 ^ 128) = 5800441176149320"
  by code_simp

lemma q128_small: "\<forall>f \<in> set q128_factors. f \<le> 2 ^ 128"
  by (simp add: q128_factors_def)

lemma q128_length: "length q128_factors = 20"
  by (simp add: q128_factors_def)

interpretation q128: falling_ticks 128 q128_factors 1000000 49
  by unfold_locales (simp_all add: q128_check [simplified] q128_least [simplified] q128_length)

lemma tick_ratio_eq: "tick_ratio n = factor_loop 128 0 n q128_factors (2 ^ 128)"
  by (simp add: tick_ratio_def power2_eq)

lemma tick_ratio_bounds: "5800441176149320 \<le> tick_ratio n" "tick_ratio n \<le> 2 ^ 128"
  using q128.ratio_ge [of n] q128.ratio_le [OF q128_small, of n]
  by (simp_all add: tick_ratio_eq q128_least [simplified])

lemma tick_ratio_pos: "0 < tick_ratio n"
  using tick_ratio_bounds(1) [of n] by linarith

lemma tick_ratio_step:
  "0 \<le> m \<Longrightarrow> m < 887272 \<Longrightarrow> tick_ratio (m + 1) + 2 ^ 32 \<le> tick_ratio m"
  using q128.ratio_diff [of m "2 ^ 32"] by (simp add: tick_ratio_eq q128_length q128_least [simplified])

lemma inverse_ratio_step:
  assumes "0 \<le> m" and "m < 887272"
  shows "(2 ^ 256 - 1) div tick_ratio m + 2 ^ 32 \<le> (2 ^ 256 - 1) div tick_ratio (m + 1)"
proof -
  have "(2 ^ 32 + 1) * (1000000 + 49 - 20) * tick_ratio (m + 1) \<le> (2 ^ 32 + 1) * (1000000 + 49 - 20) * 2 ^ 128"
    using tick_ratio_bounds(2) by (intro mult_left_mono) auto
  also have "\<dots> \<le> (49 - 20) * (2 ^ 256 - 1 :: int)" by simp
  finally show ?thesis
    using q128.inverse_diff [of m "2 ^ 256 - 1" "2 ^ 32"] assms
    by (simp add: tick_ratio_eq q128_length q128_least [simplified])
qed

lemma sqrtAtTick_neg: "- 2147483648 < t \<Longrightarrow> t \<le> 0 \<Longrightarrow> sqrtAtTick t = cdiv (tick_ratio (- t)) (2 ^ 32)"
  using tick_ratio_pos [of "- t"]
  by (auto simp: sqrtAtTick_def Let_def power2_eq sdiv_nonneg smod_nonneg cdiv_alt)

lemma sqrtAtTick_pos: "0 < t \<Longrightarrow> sqrtAtTick t = cdiv ((2 ^ 256 - 1) div tick_ratio t) (2 ^ 32)"
proof -
  have "0 \<le> (2 ^ 256 - 1) div tick_ratio t"
    using tick_ratio_pos [of t] by (simp add: pos_imp_zdiv_nonneg_iff)
  then show "0 < t \<Longrightarrow> ?thesis"
    using tick_ratio_pos [of t]
    by (simp add: sqrtAtTick_def Let_def power2_eq sdiv_nonneg smod_nonneg cdiv_alt)
qed

lemma cdiv_add_self: "0 < d \<Longrightarrow> cdiv (n + d) d = cdiv n d + 1"
  using div_add_self2 [of d "- n - d"] by (simp add: cdiv_def)

lemma cdiv_step_less: "0 < d \<Longrightarrow> m + d \<le> n \<Longrightarrow> cdiv m d < cdiv n d"
  using cdiv_mono [of d "m + d" n] cdiv_add_self [of d m] by linarith

lemma sqrtAtTick_0: "sqrtAtTick 0 = 79228162514264337593543950336"
  by code_simp

lemma sqrtAtTick_1: "sqrtAtTick 1 = 79232123823359799118286999568"
  by code_simp

lemma sqrtAtTick_min: "sqrtAtTick minTick = 4295128739"
  by code_simp

lemma sqrtAtTick_max: "sqrtAtTick maxTick = 1461446703485210103287273052203988822378723970342"
  by code_simp

lemma sqrtAtTick_step:
  assumes "minTick \<le> t" and "t < maxTick"
  shows "sqrtAtTick t < sqrtAtTick (t + 1)"
proof (cases t "0::int" rule: linorder_cases)
  case less
  then have "tick_ratio (- t) + 2 ^ 32 \<le> tick_ratio (- (t + 1))"
    using tick_ratio_step [of "- t - 1"] assms by simp
  then have "cdiv (tick_ratio (- t)) (2 ^ 32) < cdiv (tick_ratio (- (t + 1))) (2 ^ 32)"
    by (intro cdiv_step_less) auto
  with less assms show ?thesis by (simp add: sqrtAtTick_neg)
next
  case equal
  then show ?thesis by (simp add: sqrtAtTick_0 sqrtAtTick_1)
next
  case greater
  then have "cdiv ((2 ^ 256 - 1) div tick_ratio t) (2 ^ 32) < cdiv ((2 ^ 256 - 1) div tick_ratio (t + 1)) (2 ^ 32)"
    using inverse_ratio_step [of t] assms by (intro cdiv_step_less) auto
  with greater show ?thesis by (simp add: sqrtAtTick_pos)
qed

lemma sqrtAtTick_less:
  assumes "minTick \<le> a" and "a < b" and "b \<le> maxTick"
  shows "sqrtAtTick a < sqrtAtTick b"
  using int_step_strict_mono [of minTick maxTick sqrtAtTick a b] sqrtAtTick_step assms by blast

lemma sqrtAtTick_le:
  "minTick \<le> a \<Longrightarrow> a \<le> b \<Longrightarrow> b \<le> maxTick \<Longrightarrow> sqrtAtTick a \<le> sqrtAtTick b"
  by (cases "a = b") (auto dest: sqrtAtTick_less [of a b])

lemma sqrtAtTick_range:
  assumes "minTick \<le> t" and "t \<le> maxTick"
  shows "4295128739 \<le> sqrtAtTick t" and "sqrtAtTick t < 2 ^ 160"
  using sqrtAtTick_le [of minTick t] sqrtAtTick_le [of t maxTick] assms
  by (simp_all add: sqrtAtTick_min sqrtAtTick_max)

text \<open>
  C1. Tick to price (\<open>sqrtAtTick\<close>): over the whole legal range of ticks the computed square root
  price is strictly increasing, in spite of the rounding of each of up to twenty fixed point
  products, the inversion for positive ticks and the final rounding to Q96; its values run
  from Uniswap's \<open>MIN_SQRT_RATIO\<close> to \<open>MAX_SQRT_RATIO\<close>.
\<close>

theorem sqrtAtTick_strict_mono:
  assumes "minTick \<le> a" and "a < b" and "b \<le> maxTick"
  shows "4295128739 \<le> sqrtAtTick a \<and> sqrtAtTick a < sqrtAtTick b
    \<and> sqrtAtTick b \<le> 1461446703485210103287273052203988822378723970342"
  using sqrtAtTick_less [OF assms] sqrtAtTick_range(1) [of a] sqrtAtTick_le [of b maxTick] assms
  by (simp add: sqrtAtTick_max)

theorem sqrtAtTick_strict_mono_witness:
  "sqrtAtTick (- 887272) < sqrtAtTick 887272 \<and> 4295128739 \<le> sqrtAtTick (- 887272)"
  using sqrtAtTick_strict_mono [of "- 887272" 887272] by simp

section \<open>Token amounts between two prices\<close>

lemma ceilDiv_pos [bigint_simps]: "0 \<le> n \<Longrightarrow> 0 < d \<Longrightarrow> ceilDiv n d = Inr (cdiv n d)"
  by (simp add: ceilDiv_def quo_rem_up_pos)

text \<open>The exact amount, as a quotient: numerator and denominator.\<close>

definition delta_num :: "int \<Rightarrow> int \<Rightarrow> int \<Rightarrow> bool \<Rightarrow> int" where
  "delta_num a b l token0 = (if token0 then 2 ^ 96 * (l * \<bar>b - a\<bar>) else l * \<bar>b - a\<bar>)"

definition delta_den :: "int \<Rightarrow> int \<Rightarrow> bool \<Rightarrow> int" where
  "delta_den a b token0 = (if token0 then a * b else 2 ^ 96)"

definition delta_val :: "int \<Rightarrow> int \<Rightarrow> int \<Rightarrow> bool \<Rightarrow> bool \<Rightarrow> int" where
  "delta_val a b l token0 up =
     (if up then cdiv (delta_num a b l token0) (delta_den a b token0)
      else delta_num a b l token0 div delta_den a b token0)"

lemma delta_den_pos: "0 < a \<Longrightarrow> 0 < b \<Longrightarrow> 0 < delta_den a b token0"
  by (simp add: delta_den_def)

lemma delta_num_nonneg: "0 \<le> l \<Longrightarrow> 0 \<le> delta_num a b l token0"
  by (simp add: delta_num_def)

lemma amountDelta_eq [bigint_simps]:
  "0 < a \<Longrightarrow> 0 < b \<Longrightarrow> 0 \<le> l \<Longrightarrow> amountDelta a b l token0 up = Inr (delta_val a b l token0 up)"
  by (auto simp: amountDelta_def delta_val_def delta_num_def delta_den_def Let_def power2_eq
      push_bit_eq_mult bigint_simps mult.commute abs_if)

lemma delta_val_nonneg: "0 < a \<Longrightarrow> 0 < b \<Longrightarrow> 0 \<le> l \<Longrightarrow> 0 \<le> delta_val a b l token0 up"
  using delta_den_pos [of a b token0] delta_num_nonneg [of l a b token0]
  by (simp add: delta_val_def cdiv_nonneg pos_imp_zdiv_nonneg_iff)

lemma delta_val_sym: "delta_val a b l token0 up = delta_val b a l token0 up"
  by (simp add: delta_val_def delta_num_def delta_den_def abs_minus_commute mult.commute)

text \<open>Splitting an interval at \<open>c\<close> only loses what rounding loses.\<close>

lemma delta_split_frac:
  assumes "0 < a" and "a \<le> c" and "c \<le> b"
  shows "delta_num a c l t * (delta_den c b t * delta_den a b t) + delta_num c b l t * (delta_den a c t * delta_den a b t)
    = delta_num a b l t * (delta_den a c t * delta_den c b t)"
  using assms by (cases t) (simp_all add: delta_num_def delta_den_def algebra_simps)

lemma frac_floor_superadd:
  fixes n1 n2 n d1 d2 d :: int
  assumes pos: "0 < d1" "0 < d2" "0 < d"
    and eq: "n1 * (d2 * d) + n2 * (d1 * d) = n * (d1 * d2)"
  shows "n1 div d1 + n2 div d2 \<le> n div d"
proof -
  have "(n1 div d1 * d1) * (d2 * d) \<le> n1 * (d2 * d)"
    using pos by (intro mult_right_mono div_mult_le) auto
  moreover have "(n2 div d2 * d2) * (d1 * d) \<le> n2 * (d1 * d)"
    using pos by (intro mult_right_mono div_mult_le) auto
  ultimately have "((n1 div d1 + n2 div d2) * d) * (d1 * d2) \<le> n * (d1 * d2)"
    unfolding eq [symmetric] by (simp add: algebra_simps)
  then have "(n1 div d1 + n2 div d2) * d \<le> n"
    using pos by (simp add: mult_le_cancel_right)
  then show ?thesis using pos by (simp add: le_div_iff_mult_le)
qed

lemma frac_ceil_subadd:
  fixes n1 n2 n d1 d2 d :: int
  assumes pos: "0 < d1" "0 < d2" "0 < d"
    and eq: "n1 * (d2 * d) + n2 * (d1 * d) = n * (d1 * d2)"
  shows "cdiv n d \<le> cdiv n1 d1 + cdiv n2 d2"
  using frac_floor_superadd [OF pos, of "- n1" "- n2" "- n"] eq
  by (simp add: cdiv_def algebra_simps)

text \<open>
  Amounts over adjacent intervals (\<open>amountDelta\<close>): cutting a price interval in two never
  creates tokens when amounts are rounded down, and never loses any when they are rounded up.
\<close>

lemma amountDelta_split:
  assumes "0 < a" and "a \<le> c" and "c \<le> b" and "0 \<le> l"
    and "amountDelta a c l t up = Inr x" and "amountDelta c b l t up = Inr y"
    and "amountDelta a b l t up = Inr z"
  shows "if up then z \<le> x + y else x + y \<le> z"
proof -
  have pos: "0 < delta_den a c t" "0 < delta_den c b t" "0 < delta_den a b t"
    using assms by (simp_all add: delta_den_pos)
  note eq = delta_split_frac [OF assms(1-3), of l t]
  show ?thesis
    using assms frac_floor_superadd [OF pos eq] frac_ceil_subadd [OF pos eq]
    by (auto simp: bigint_simps delta_val_def)
qed

lemma amountDelta_split_witness:
  "\<exists>x y z. amountDelta (2 ^ 96) (3 * 2 ^ 95) 1000 True False = Inr x
     \<and> amountDelta (3 * 2 ^ 95) (2 ^ 97) 1000 True False = Inr y
     \<and> amountDelta (2 ^ 96) (2 ^ 97) 1000 True False = Inr z \<and> x + y \<le> z"
  using amountDelta_split [of "2 ^ 96" "3 * 2 ^ 95" "2 ^ 97" 1000 True False]
  by (simp add: bigint_simps)

end
