(* ===== verification/Go_Slices.thy ===== *)
theory Go_Slices
  imports Prelude
begin

text \<open>
  What the code uses of Go's \<open>sort\<close> package and of slices: \<open>sort.Search\<close> (a binary search for
  the least index with a property), and insertion and removal at an index.
\<close>

section \<open>Binary search\<close>

function search_loop :: "(nat \<Rightarrow> bool) \<Rightarrow> nat \<Rightarrow> nat \<Rightarrow> nat" where
  "search_loop f i j =
     (if i < j then
        (let h = (i + j) div 2
         in if \<not> f h then search_loop f (h + 1) j else search_loop f i h)
      else i)"
  by pat_completeness auto
termination
  by (relation "measure (\<lambda>(f, i, j). j - i)") (auto simp: Let_def)

declare search_loop.simps [simp del]

definition sort_search :: "nat \<Rightarrow> (nat \<Rightarrow> bool) \<Rightarrow> nat" where
  "sort_search n f = search_loop f 0 n"

lemma search_loop_correct:
  assumes "\<forall>k < i. \<not> f k" and "\<forall>k. j \<le> k \<and> k < n \<longrightarrow> f k" and "i \<le> j" and "j \<le> n"
    and "\<forall>k m. k \<le> m \<and> m < n \<and> f k \<longrightarrow> f m"
  shows "search_loop f i j \<le> n \<and> (\<forall>k < search_loop f i j. \<not> f k)
    \<and> (\<forall>k. search_loop f i j \<le> k \<and> k < n \<longrightarrow> f k)"
  using assms
proof (induction f i j rule: search_loop.induct)
  case (1 f i j)
  note mono = "1.prems"(5)
  show ?case
  proof (cases "i < j")
    case False
    then have stop: "search_loop f i j = i" by (subst search_loop.simps) simp
    have "i = j" using False "1.prems"(3) by simp
    then show ?thesis unfolding stop using "1.prems" by auto
  next
    case True
    let ?h = "(i + j) div 2"
    have h: "i \<le> ?h" "?h < j" using True by auto
    show ?thesis
    proof (cases "f ?h")
      case fh: True
      have eq: "search_loop f i j = search_loop f i ?h"
        using True fh by (subst search_loop.simps) (simp add: Let_def)
      have "\<forall>k. ?h \<le> k \<and> k < n \<longrightarrow> f k" using fh mono by blast
      then show ?thesis unfolding eq using "1.prems" h fh
        by (intro "1.IH"(2) [OF True refl]) auto
    next
      case fh: False
      have eq: "search_loop f i j = search_loop f (?h + 1) j"
        using True fh by (subst search_loop.simps) (simp add: Let_def)
      have "?h < n" using h "1.prems"(4) by simp
      then have "\<forall>k < ?h + 1. \<not> f k" using fh mono by (metis Suc_eq_plus1 less_Suc_eq_le)
      then show ?thesis unfolding eq using "1.prems" h fh
        by (intro "1.IH"(1) [OF True refl]) auto
    qed
  qed
qed

lemma sort_search_least:
  assumes mono: "\<forall>k m. k \<le> m \<and> m < n \<and> f k \<longrightarrow> f m"
  shows "sort_search n f \<le> n" and "k < sort_search n f \<Longrightarrow> \<not> f k"
    and "sort_search n f \<le> k \<Longrightarrow> k < n \<Longrightarrow> f k"
proof -
  have "sort_search n f \<le> n \<and> (\<forall>k < sort_search n f. \<not> f k)
    \<and> (\<forall>k. sort_search n f \<le> k \<and> k < n \<longrightarrow> f k)"
    unfolding sort_search_def by (rule search_loop_correct [OF _ _ _ _ mono]) auto
  then show "sort_search n f \<le> n" and "k < sort_search n f \<Longrightarrow> \<not> f k"
    and "sort_search n f \<le> k \<Longrightarrow> k < n \<Longrightarrow> f k" by blast+
qed

text \<open>On a list sorted by a key, the search finds the length of the prefix of smaller keys.\<close>

lemma sort_search_takeWhile:
  fixes key :: "'a \<Rightarrow> int"
  assumes "sorted (map key xs)"
  shows "sort_search (length xs) (\<lambda>i. x \<le> key (xs ! i)) = length (takeWhile (\<lambda>t. key t < x) xs)"
proof -
  let ?f = "\<lambda>i. x \<le> key (xs ! i)" and ?m = "length (takeWhile (\<lambda>t. key t < x) xs)"
  have mono: "\<forall>k m. k \<le> m \<and> m < length xs \<and> ?f k \<longrightarrow> ?f m"
  proof (intro allI impI)
    fix k m assume km: "k \<le> m \<and> m < length xs \<and> ?f k"
    then have "key (xs ! k) \<le> key (xs ! m)" using sorted_nth_mono [OF assms, of k m] by simp
    with km show "?f m" by linarith
  qed
  note least = sort_search_least [OF mono]
  have le: "?m \<le> length xs" by (rule length_takeWhile_le)
  have before: "\<not> ?f k" if "k < ?m" for k
    using that nth_mem [OF that] by (auto simp: takeWhile_nth dest: set_takeWhileD)
  have at: "?m < length xs \<Longrightarrow> ?f ?m"
    using nth_length_takeWhile [of "\<lambda>t. key t < x" xs] by simp
  show ?thesis
  proof (cases "sort_search (length xs) ?f" ?m rule: linorder_cases)
    case less
    then show ?thesis using before least(3) [of "sort_search (length xs) ?f"] le by fastforce
  next
    case greater
    then show ?thesis using at least(1) least(2) [of ?m] by fastforce
  qed simp
qed

section \<open>Insertion and removal\<close>

text \<open>\<open>xs = append(xs, zero); copy(xs[at+1:], xs[at:]); xs[at] = x\<close>\<close>

definition insert_at :: "nat \<Rightarrow> 'a \<Rightarrow> 'a list \<Rightarrow> 'a list" where
  "insert_at at x xs = take at xs @ x # drop at xs"

text \<open>\<open>append(xs[:at], xs[at+1:]...)\<close>\<close>

definition remove_at :: "nat \<Rightarrow> 'a list \<Rightarrow> 'a list" where
  "remove_at at xs = take at xs @ drop (Suc at) xs"

lemma insert_at_prefix [simp]: "insert_at (length xs) x (xs @ ys) = xs @ x # ys"
  by (simp add: insert_at_def)

lemma remove_at_prefix [simp]: "remove_at (length xs) (xs @ y # ys) = xs @ ys"
  by (simp add: remove_at_def)

end
