(* ===== verification/CL_State.thy ===== *)
theory CL_State
  imports CL_Math Go_Slices Complex_Main
begin

text \<open>
  \<open>go/evm/clliquidity\<close> (\<open>principal.go\<close>, \<open>position.go\<close>, \<open>update.go\<close>): the complete tick
  distribution of a concentrated liquidity pool, the principal amounts derived from it, and
  the updates (a swap's terminal state, or a signed liquidity change over a range).

  Pointers that the code tests for nil are options. Ticks are \<open>int32\<close> values.
  \<open>Clone\<close> has no counterpart: values of the model are immutable.
\<close>

section \<open>The data\<close>

record Tick =
  tIndex :: int
  tGross :: "int option"
  tNet :: "int option"

record State =
  SqrtPriceX96 :: "int option"
  sTick :: int
  Spacing :: int
  ActiveLiquidity :: "int option"
  Ticks :: "Tick list"
  Complete :: bool

record Amounts =
  Token0 :: "int option"
  Token1 :: "int option"

section \<open>Calculate\<close>

text \<open>The first loop of \<open>calculate\<close>: every tick is in range, aligned, in order and plausible.\<close>

fun check_ticks :: "int \<Rightarrow> int option \<Rightarrow> Tick list \<Rightarrow> unit res" where
  "check_ticks spacing prev [] = Inr ()"
| "check_ticks spacing prev (t # ts) =
     (if tIndex t < minTick \<or> tIndex t > maxTick \<or> tIndex t smod spacing \<noteq> 0
         \<or> (case prev of None \<Rightarrow> False | Some p \<Rightarrow> tIndex t \<le> p)
      then Inl (Fail ''ticks=invalid'')
      else case tGross t of None \<Rightarrow> Inl (Fail ''tick_liquidity=null'')
      | Some g \<Rightarrow> (case tNet t of None \<Rightarrow> Inl (Fail ''tick_liquidity=null'')
      | Some n \<Rightarrow>
          if g \<le> 0 \<or> BitLen_gt g 128 \<or> n < - power2 127 \<or> n \<ge> power2 127 \<or> \<bar>n\<bar> > g
          then Inl (Fail ''tick_liquidity=invalid'')
          else check_ticks spacing (Some (tIndex t)) ts))"

text \<open>The price clamped to an interval, as \<open>calculate\<close> and \<open>PositionPrincipal\<close> do it.\<close>

definition clamp :: "int \<Rightarrow> int \<Rightarrow> int \<Rightarrow> int" where
  "clamp a b price =
     (let c = (if price < a then a else price) in if c > b then b else c)"

text \<open>
  The second loop: \<open>l\<close> is the cumulative liquidity, \<open>active\<close> its value at the current tick;
  each interval between neighbouring ticks adds its amounts. A missing net would be a nil
  dereference; the first loop has excluded it.
\<close>

fun sum_ticks :: "bool \<Rightarrow> int \<Rightarrow> int \<Rightarrow> Tick list \<Rightarrow> int \<Rightarrow> int \<Rightarrow> int \<Rightarrow> int \<Rightarrow> (int \<times> int \<times> int \<times> int) res"
where
  "sum_ticks value price tick [] l active amt0 amt1 = Inr (l, active, amt0, amt1)"
| "sum_ticks value price tick (t # ts) l active amt0 amt1 =
     (case tNet t of None \<Rightarrow> Inl (Panic ''nil dereference'')
      | Some n \<Rightarrow>
          (let l = l + n
           in if l < 0 \<or> BitLen_gt l 128 then Inl (Fail ''cumulative_liquidity=out_of_range'')
              else
                (let active = (if tIndex t \<le> tick then l else active)
                 in case ts of
                      [] \<Rightarrow> sum_ticks value price tick ts l active amt0 amt1
                    | u # _ \<Rightarrow>
                        if \<not> value then sum_ticks value price tick ts l active amt0 amt1
                        else
                          (let a = sqrtAtTick (tIndex t); b = sqrtAtTick (tIndex u);
                               c = clamp a b price
                           in ebind (amountDelta c b l True False) (\<lambda>d0.
                              ebind (amountDelta a c l False False) (\<lambda>d1.
                              sum_ticks value price tick ts l active (amt0 + d0) (amt1 + d1)))))))"

definition calculate :: "State \<Rightarrow> bool \<Rightarrow> Amounts res" where
  "calculate s value =
     ensure (Complete s) (Fail ''state=incomplete'') (
     ensure (\<not> (Spacing s < 1 \<or> Spacing s > 32767 \<or> sTick s < minTick \<or> sTick s \<ge> maxTick))
       (Fail ''coordinates=out_of_range'') (
     case SqrtPriceX96 s of None \<Rightarrow> Inl (Fail ''state=null'')
     | Some price \<Rightarrow> (case ActiveLiquidity s of None \<Rightarrow> Inl (Fail ''state=null'')
     | Some act \<Rightarrow>
       ensure (\<not> (price < sqrtAtTick minTick \<or> price \<ge> sqrtAtTick maxTick \<or> act < 0 \<or> BitLen_gt act 128))
         (Fail ''state=out_of_range'') (
       ensure (\<not> (price < sqrtAtTick (sTick s) \<or> price > sqrtAtTick (i32 (sTick s + 1))))
         (Fail ''price_tick=mismatch'') (
       ebind (check_ticks (Spacing s) None (Ticks s)) (\<lambda>_.
       ebind (sum_ticks value price (sTick s) (Ticks s) 0 0 0 0) (\<lambda>(l, active, amt0, amt1).
       ensure (\<not> (l \<noteq> 0 \<or> active \<noteq> act)) (Fail ''liquidity=mismatch'')
         (Inr \<lparr>Token0 = Some amt0, Token1 = Some amt1\<rparr>))))))))"

definition Calculate :: "State \<Rightarrow> Amounts res" where
  "Calculate s = calculate s True"

section \<open>Valuation\<close>

text \<open>\<open>*big.Rat\<close> values are rationals.\<close>

definition Value :: "Amounts \<Rightarrow> u8 \<Rightarrow> u8 \<Rightarrow> rat option \<Rightarrow> rat option \<Rightarrow> rat res" where
  "Value a decimals0 decimals1 price0 price1 =
     (case (Token0 a, Token1 a, price0, price1) of
        (Some t0, Some t1, Some p0, Some p1) \<Rightarrow>
          if t0 < 0 \<or> t1 < 0 \<or> p0 \<le> 0 \<or> p1 \<le> 0 then Inl (Fail ''input=out_of_range'')
          else
            (let unit = (\<lambda>amount dec price. of_int amount / of_int (10 ^ unat (dec :: u8)) * price)
             in Inr (unit t0 decimals0 p0 + unit t1 decimals1 p1))
      | _ \<Rightarrow> Inl (Fail ''input=null''))"

definition PriceRatio :: "int option \<Rightarrow> u8 \<Rightarrow> u8 \<Rightarrow> rat res" where
  "PriceRatio price decimals0 decimals1 =
     (case price of None \<Rightarrow> Inl (Fail ''sqrt_price=out_of_range'')
      | Some p \<Rightarrow>
          if p < sqrtAtTick minTick \<or> p \<ge> sqrtAtTick maxTick then Inl (Fail ''sqrt_price=out_of_range'')
          else Inr (of_int (p * p * 10 ^ unat decimals0) / of_int (power2 192 * 10 ^ unat decimals1)))"

definition PositionPrincipal :: "int option \<Rightarrow> int option \<Rightarrow> int \<Rightarrow> int \<Rightarrow> (rat \<times> rat) res" where
  "PositionPrincipal price liquidity lower upper =
     (case (price, liquidity) of
        (Some price, Some liquidity) \<Rightarrow>
          if lower < minTick \<or> upper > maxTick \<or> lower \<ge> upper \<or> liquidity < 0 \<or> BitLen_gt liquidity 128
             \<or> price < sqrtAtTick minTick \<or> price \<ge> sqrtAtTick maxTick
          then Inl (Fail ''input=out_of_range'')
          else
            (let a = sqrtAtTick lower; b = sqrtAtTick upper; c = clamp a b price;
                 n0 = push_bit 96 (liquidity * (b - c));
                 n1 = liquidity * (c - a)
             in Inr (of_int n0 / of_int (c * b), of_int n1 / of_int (power2 96)))
      | _ \<Rightarrow> Inl (Fail ''input=null''))"

section \<open>Updates\<close>

record Update =
  uSqrtPriceX96 :: "int option"
  uTick :: int
  uActiveLiquidity :: "int option"
  uLower :: int
  uUpper :: int
  uLiquidityDelta :: "int option"

text \<open>One boundary of a liquidity change: find or insert the tick, adjust it, drop it when empty.\<close>

definition bump_tick :: "int \<Rightarrow> bool \<Rightarrow> nat \<Rightarrow> Tick list \<Rightarrow> Tick list res" where
  "bump_tick delta isLower pos ts =
     (let t = ts ! pos
      in case tGross t of None \<Rightarrow> Inl (Panic ''nil dereference'')
         | Some g \<Rightarrow> (case tNet t of None \<Rightarrow> Inl (Panic ''nil dereference'')
         | Some n \<Rightarrow>
             (let g = g + delta;
                  n = (if isLower then n + delta else n - delta);
                  ts = ts[pos := t\<lparr>tGross := Some g, tNet := Some n\<rparr>]
              in if g = 0 then
                   (if n \<noteq> 0 then Inl (Fail ''tick_liquidity=mismatch'') else Inr (remove_at pos ts))
                 else Inr ts)))"

definition apply_boundary :: "int \<Rightarrow> bool \<Rightarrow> int \<Rightarrow> Tick list \<Rightarrow> Tick list res" where
  "apply_boundary delta isLower index ts =
     (let pos = sort_search (length ts) (\<lambda>i. tIndex (ts ! i) \<ge> index)
      in if pos = length ts \<or> tIndex (ts ! pos) \<noteq> index then
           (if delta < 0 then Inl (Fail ''tick=missing'')
            else if delta = 0 then Inr ts
            else bump_tick delta isLower pos
                   (insert_at pos \<lparr>tIndex = index, tGross = Some 0, tNet = Some 0\<rparr> ts))
         else bump_tick delta isLower pos ts)"

definition apply_body :: "State \<Rightarrow> Update \<Rightarrow> State res" where
  "apply_body s u =
     (case uSqrtPriceX96 u of
        Some price \<Rightarrow>
          (case uActiveLiquidity u of None \<Rightarrow> Inl (Fail ''active_liquidity=null'')
           | Some act \<Rightarrow> Inr (s\<lparr>SqrtPriceX96 := Some price, sTick := uTick u, ActiveLiquidity := Some act\<rparr>))
      | None \<Rightarrow>
          (case uLiquidityDelta u of None \<Rightarrow> Inl (Panic ''nil dereference'')
           | Some delta \<Rightarrow>
              ensure (\<not> (uLower u \<ge> uUpper u \<or> uLower u < minTick \<or> uUpper u > maxTick
                        \<or> uLower u smod Spacing s \<noteq> 0 \<or> uUpper u smod Spacing s \<noteq> 0 \<or> BitLen_gt delta 128))
                (Fail ''range=invalid'') (
              ebind (apply_boundary delta True (uLower u) (Ticks s)) (\<lambda>ts.
              ebind (apply_boundary delta False (uUpper u) ts) (\<lambda>ts.
              let s = s\<lparr>Ticks := ts\<rparr>
              in if sTick s \<ge> uLower u \<and> sTick s < uUpper u
                 then (case ActiveLiquidity s of None \<Rightarrow> Inl (Panic ''nil dereference'')
                       | Some act \<Rightarrow> Inr (s\<lparr>ActiveLiquidity := Some (act + delta)\<rparr>))
                 else Inr s)))))"

definition Apply :: "State \<Rightarrow> Update \<Rightarrow> int \<Rightarrow> State res" where
  "Apply s u maxTicks =
     ensure (\<not> (maxTicks < 1 \<or> int (length (Ticks s)) > maxTicks)) (Fail ''ticks=too_long'') (
     ebind (calculate s False) (\<lambda>_.
     ensure ((uSqrtPriceX96 u = None) \<noteq> (uLiquidityDelta u = None)) (Fail ''update=invalid'') (
     ebind (apply_body s u) (\<lambda>next.
     ensure (\<not> int (length (Ticks next)) > maxTicks) (Fail ''ticks=too_long'') (
     ebind (calculate next False) (\<lambda>_. Inr next))))))"

section \<open>What a consistent state is\<close>

text \<open>The abstraction of a tick list: the liquidity that is active at a tick.\<close>

definition net :: "Tick \<Rightarrow> int" where
  "net t = (case tNet t of None \<Rightarrow> 0 | Some n \<Rightarrow> n)"

definition liq_at :: "Tick list \<Rightarrow> int \<Rightarrow> int" where
  "liq_at ts x = sum_list (map net (filter (\<lambda>t. tIndex t \<le> x) ts))"

abbreviation ordered :: "Tick list \<Rightarrow> bool" where
  "ordered ts \<equiv> sorted_wrt (<) (map tIndex ts)"

definition tick_ok :: "int \<Rightarrow> Tick \<Rightarrow> bool" where
  "tick_ok spacing t \<longleftrightarrow> minTick \<le> tIndex t \<and> tIndex t \<le> maxTick \<and> spacing dvd tIndex t \<and>
     (case (tGross t, tNet t) of
        (Some g, Some n) \<Rightarrow> 0 < g \<and> g < 2 ^ 128 \<and> - (2 ^ 127) \<le> n \<and> n < 2 ^ 127 \<and> \<bar>n\<bar> \<le> g
      | _ \<Rightarrow> False)"

definition in_u128 :: "int \<Rightarrow> bool" where
  "in_u128 n \<longleftrightarrow> 0 \<le> n \<and> n < 2 ^ 128"

definition wf_state :: "State \<Rightarrow> bool" where
  "wf_state s \<longleftrightarrow> Complete s \<and> 1 \<le> Spacing s \<and> Spacing s \<le> 32767
     \<and> minTick \<le> sTick s \<and> sTick s < maxTick
     \<and> (case SqrtPriceX96 s of None \<Rightarrow> False
        | Some p \<Rightarrow> sqrtAtTick minTick \<le> p \<and> p < sqrtAtTick maxTick
            \<and> sqrtAtTick (sTick s) \<le> p \<and> p \<le> sqrtAtTick (sTick s + 1))
     \<and> (\<forall>t \<in> set (Ticks s). tick_ok (Spacing s) t) \<and> ordered (Ticks s)
     \<and> (\<forall>x. in_u128 (liq_at (Ticks s) x))
     \<and> sum_list (map net (Ticks s)) = 0
     \<and> ActiveLiquidity s = Some (liq_at (Ticks s) (sTick s))"

lemma tick_ok_iff: "tick_ok spacing t \<longleftrightarrow> minTick \<le> tIndex t \<and> tIndex t \<le> maxTick \<and> spacing dvd tIndex t \<and>
  (\<exists>g n. tGross t = Some g \<and> tNet t = Some n \<and> 0 < g \<and> g < 2 ^ 128 \<and> - (2 ^ 127) \<le> n \<and> n < 2 ^ 127 \<and> \<bar>n\<bar> \<le> g)"
  by (auto simp: tick_ok_def split: option.splits)

lemma tick_ok_net: "tick_ok spacing t \<Longrightarrow> tNet t = Some (net t)"
  by (auto simp: tick_ok_iff net_def)

lemma tick_ok_price: "tick_ok spacing t \<Longrightarrow> 0 < sqrtAtTick (tIndex t)"
  using sqrtAtTick_range(1) [of "tIndex t"] by (simp add: tick_ok_def)

lemma liq_at_Nil [simp]: "liq_at [] x = 0"
  by (simp add: liq_at_def)

lemma liq_at_Cons [simp]: "liq_at (t # ts) x = (if tIndex t \<le> x then net t else 0) + liq_at ts x"
  by (simp add: liq_at_def)

lemma liq_at_append [simp]: "liq_at (ts @ us) x = liq_at ts x + liq_at us x"
  by (simp add: liq_at_def)

lemma liq_at_before: "\<forall>t \<in> set ts. x < tIndex t \<Longrightarrow> liq_at ts x = 0"
  by (induction ts) auto

lemma liq_at_after: "\<forall>t \<in> set ts. tIndex t \<le> x \<Longrightarrow> liq_at ts x = sum_list (map net ts)"
  by (induction ts) auto

lemma check_ticks_ok:
  "0 < sp \<Longrightarrow> check_ticks sp prev ts = Inr () \<longleftrightarrow>
     (\<forall>t \<in> set ts. tick_ok sp t) \<and> ordered ts \<and> (\<forall>p. prev = Some p \<longrightarrow> (\<forall>t \<in> set ts. p < tIndex t))"
proof (induction ts arbitrary: prev)
  case Nil
  then show ?case by simp
next
  case (Cons t ts)
  show ?case
    using Cons.prems
    by (auto simp: Cons.IH tick_ok_iff smod_eq_0_iff BitLen_gt_def power2_eq
        split: option.splits if_splits)
qed

lemma check_ticks_no_panic: "\<not> panics (check_ticks sp prev ts)"
  by (induction ts arbitrary: prev) (auto split: option.splits)

section \<open>The cumulative sum\<close>

fun prefix_ok :: "int \<Rightarrow> Tick list \<Rightarrow> bool" where
  "prefix_ok l [] \<longleftrightarrow> True"
| "prefix_ok l (t # ts) \<longleftrightarrow> in_u128 (l + net t) \<and> prefix_ok (l + net t) ts"

lemma prefix_ok_iff:
  "ordered ts \<Longrightarrow> in_u128 l \<and> prefix_ok l ts \<longleftrightarrow> (\<forall>x. in_u128 (l + liq_at ts x))"
proof (induction ts arbitrary: l)
  case Nil
  then show ?case by simp
next
  case (Cons t ts)
  have later: "x \<le> tIndex t \<Longrightarrow> liq_at ts x = 0" for x
    using Cons.prems by (intro liq_at_before) auto
  have IH: "in_u128 (l + net t) \<and> prefix_ok (l + net t) ts \<longleftrightarrow> (\<forall>x. in_u128 (l + net t + liq_at ts x))"
    using Cons by simp
  have "(\<forall>x. in_u128 (l + liq_at (t # ts) x)) \<longleftrightarrow> in_u128 l \<and> (\<forall>x. in_u128 (l + net t + liq_at ts x))"
  proof (intro iffI conjI allI)
    assume all: "\<forall>x. in_u128 (l + liq_at (t # ts) x)"
    show "in_u128 l" using all [rule_format, of "tIndex t - 1"] later [of "tIndex t - 1"] by simp
    fix x
    show "in_u128 (l + net t + liq_at ts x)"
      using all [rule_format, of "max x (tIndex t)"] later [of x] later [of "tIndex t"]
      by (cases "x \<le> tIndex t") (auto simp: max_def add.assoc split: if_splits)
  next
    fix x
    assume "in_u128 l \<and> (\<forall>x. in_u128 (l + net t + liq_at ts x))"
    then show "in_u128 (l + liq_at (t # ts) x)"
      using later [of x] by (auto simp: add.assoc)
  qed
  with IH show ?case by auto
qed

text \<open>The amounts, interval by interval, from the abstraction instead of from accumulators.\<close>

lemma clamp_pos: "0 < a \<Longrightarrow> 0 < b \<Longrightarrow> 0 < clamp a b price"
  by (simp add: clamp_def Let_def)

definition interval_amount :: "bool \<Rightarrow> int \<Rightarrow> Tick \<Rightarrow> Tick \<Rightarrow> int \<Rightarrow> int" where
  "interval_amount token0 price t u l =
     (let a = sqrtAtTick (tIndex t); b = sqrtAtTick (tIndex u); c = clamp a b price
      in if token0 then delta_val c b l True False else delta_val a c l False False)"

definition principal :: "bool \<Rightarrow> Tick list \<Rightarrow> int \<Rightarrow> int" where
  "principal token0 ts price =
     sum_list (map (\<lambda>(t, u). interval_amount token0 price t u (liq_at ts (tIndex t))) (zip ts (tl ts)))"

fun running_amount :: "bool \<Rightarrow> int \<Rightarrow> int \<Rightarrow> Tick list \<Rightarrow> int" where
  "running_amount token0 price l [] = 0"
| "running_amount token0 price l [t] = 0"
| "running_amount token0 price l (t # u # ts) =
     interval_amount token0 price t u (l + net t) + running_amount token0 price (l + net t) (u # ts)"

lemma running_amount_zip:
  "ordered ts \<Longrightarrow> running_amount token0 price l ts =
     sum_list (map (\<lambda>(t, u). interval_amount token0 price t u (l + liq_at ts (tIndex t))) (zip ts (tl ts)))"
proof (induction token0 price l ts rule: running_amount.induct)
  case (3 token0 price l t u ts)
  have head: "liq_at (t # u # ts) (tIndex t) = net t"
    using "3.prems" by (auto intro: liq_at_before)
  have shift: "l + liq_at (t # u # ts) (tIndex x) = l + net t + liq_at (u # ts) (tIndex x)"
    if "x \<in> set (u # ts)" for x
    using "3.prems" that by auto
  have maps: "map (\<lambda>(x, y). interval_amount token0 price x y (l + liq_at (t # u # ts) (tIndex x))) (zip (u # ts) ts)
      = map (\<lambda>(x, y). interval_amount token0 price x y (l + net t + liq_at (u # ts) (tIndex x))) (zip (u # ts) ts)"
  proof (rule map_cong [OF refl])
    fix z assume "z \<in> set (zip (u # ts) ts)"
    then have "fst z \<in> set (u # ts)" by (metis prod.collapse set_zip_leftD)
    then show "(\<lambda>(x, y). interval_amount token0 price x y (l + liq_at (t # u # ts) (tIndex x))) z
        = (\<lambda>(x, y). interval_amount token0 price x y (l + net t + liq_at (u # ts) (tIndex x))) z"
      by (simp only: shift case_prod_beta)
  qed
  have "ordered (u # ts)" using "3.prems" by simp
  note IH = "3.IH" [OF this]
  show ?case
    by (simp only: running_amount.simps(3) IH head maps list.sel zip_Cons_Cons list.map sum_list.Cons prod.case)
qed simp_all

lemma principal_running: "ordered ts \<Longrightarrow> principal token0 ts price = running_amount token0 price 0 ts"
  by (simp add: principal_def running_amount_zip)

text \<open>One turn of the second loop, on a tick that has passed the first loop.\<close>

declare sum_ticks.simps(2) [simp del]

lemma sum_ticks_last:
  "tick_ok sp t \<Longrightarrow> sum_ticks v p tick [t] l act a0 a1 =
     (if in_u128 (l + net t) then Inr (l + net t, (if tIndex t \<le> tick then l + net t else act), a0, a1)
      else Inl (Fail ''cumulative_liquidity=out_of_range''))"
  by (auto simp: sum_ticks.simps(2) tick_ok_net in_u128_def BitLen_gt_def Let_def)

lemma sum_ticks_next:
  assumes "tick_ok sp t" and "tick_ok sp u"
  shows "sum_ticks v p tick (t # u # us) l act a0 a1 =
     (if in_u128 (l + net t)
      then sum_ticks v p tick (u # us) (l + net t) (if tIndex t \<le> tick then l + net t else act)
             (if v then a0 + interval_amount True p t u (l + net t) else a0)
             (if v then a1 + interval_amount False p t u (l + net t) else a1)
      else Inl (Fail ''cumulative_liquidity=out_of_range''))"
proof (cases "in_u128 (l + net t)")
  case False
  then show ?thesis
    using assms by (auto simp: sum_ticks.simps(2) [of _ _ _ t] tick_ok_net in_u128_def BitLen_gt_def Let_def)
next
  case True
  then have good: "0 \<le> l + net t" "\<not> BitLen_gt (l + net t) 128"
    by (auto simp: in_u128_def BitLen_gt_def)
  note pos = tick_ok_price [OF assms(1)] tick_ok_price [OF assms(2)]
  show ?thesis
    using assms good True pos clamp_pos [OF pos, of p]
    by (simp add: sum_ticks.simps(2) [of _ _ _ t] tick_ok_net amountDelta_eq interval_amount_def Let_def)
qed

text \<open>What the loop computes on checked ticks.\<close>

lemma sum_ticks_ok:
  assumes "\<forall>t \<in> set ts. tick_ok sp t" and "ordered ts"
  shows "sum_ticks v p tick ts l act a0 a1 =
     (if prefix_ok l ts then
        Inr (l + sum_list (map net ts),
           (if \<exists>t \<in> set ts. tIndex t \<le> tick then l + liq_at ts tick else act),
           (if v then a0 + running_amount True p l ts else a0),
           (if v then a1 + running_amount False p l ts else a1))
      else Inl (Fail ''cumulative_liquidity=out_of_range''))"
  using assms
proof (induction True p l ts arbitrary: act a0 a1 rule: running_amount.induct)
  case (1 p l)
  then show ?case by simp
next
  case (2 p l t)
  then show ?case by (simp add: sum_ticks_last)
next
  case (3 p l t u us)
  have ok: "tick_ok sp t" "tick_ok sp u" using "3.prems" by simp_all
  have active: "(if \<exists>x \<in> set (u # us). tIndex x \<le> tick then l + net t + liq_at (u # us) tick
        else (if tIndex t \<le> tick then l + net t else act))
      = (if \<exists>x \<in> set (t # u # us). tIndex x \<le> tick then l + liq_at (t # u # us) tick else act)"
    using "3.prems" by (auto simp: liq_at_before not_le)
  have "\<forall>t \<in> set (u # us). tick_ok sp t" and "ordered (u # us)" using "3.prems" by simp_all
  note IH = "3.hyps" [OF this]
  show ?case
    unfolding sum_ticks_next [OF ok] IH active by (simp add: add.assoc del: liq_at_Cons)
qed

section \<open>Correctness of Calculate\<close>

lemma some_before: "ordered ts \<Longrightarrow> \<not> (\<exists>t \<in> set ts. tIndex t \<le> x) \<Longrightarrow> liq_at ts x = 0"
  by (auto intro: liq_at_before simp: not_le)

lemma sum_ticks_start:
  assumes "\<forall>t \<in> set ts. tick_ok sp t" and "ordered ts"
  shows "sum_ticks v p tick ts 0 0 0 0 =
     (if \<forall>x. in_u128 (liq_at ts x) then
        Inr (sum_list (map net ts), liq_at ts tick,
           (if v then principal True ts p else 0), (if v then principal False ts p else 0))
      else Inl (Fail ''cumulative_liquidity=out_of_range''))"
  using prefix_ok_iff [OF assms(2), of 0] some_before [OF assms(2), of tick]
  by (auto simp: sum_ticks_ok [OF assms] principal_running [OF assms(2)] in_u128_def)

lemma calculate_wf:
  assumes "wf_state s" and "SqrtPriceX96 s = Some p"
  shows "calculate s v = Inr \<lparr>Token0 = Some (if v then principal True (Ticks s) p else 0),
                             Token1 = Some (if v then principal False (Ticks s) p else 0)\<rparr>"
proof -
  have ticks: "\<forall>t \<in> set (Ticks s). tick_ok (Spacing s) t" "ordered (Ticks s)"
    using assms by (simp_all add: wf_state_def)
  have "check_ticks (Spacing s) None (Ticks s) = Inr ()"
    using assms ticks by (simp add: check_ticks_ok wf_state_def)
  moreover have "in_u128 (liq_at (Ticks s) (sTick s))" using assms by (simp add: wf_state_def)
  ultimately show ?thesis
    using assms unfolding calculate_def wf_state_def
    by (auto simp: sum_ticks_start [OF ticks] in_u128_def BitLen_gt_def ensure_def not_less not_le)
qed

lemma calculate_ok_wf: "calculate s v = Inr A \<Longrightarrow> wf_state s"
proof -
  assume ok: "calculate s v = Inr A"
  then obtain p act where p: "SqrtPriceX96 s = Some p" "ActiveLiquidity s = Some act"
    by (auto simp: calculate_def split: option.splits)
  from ok p have sp: "0 < Spacing s" and chk: "check_ticks (Spacing s) None (Ticks s) = Inr ()"
    by (auto simp: calculate_def)
  then have ticks: "\<forall>t \<in> set (Ticks s). tick_ok (Spacing s) t" "ordered (Ticks s)"
    by (simp_all add: check_ticks_ok)
  from ok p chk show ?thesis
    by (auto simp: calculate_def sum_ticks_start [OF ticks] ticks wf_state_def BitLen_gt_def
        split: if_splits)
qed

text \<open>
  C2. \<open>Calculate\<close> accepts exactly the consistent states: a complete tick list, in strict order
  and aligned, whose cumulative liquidity stays within 128 bits at every tick of the line,
  returns to zero, and equals the active liquidity at the current tick, with a price inside the
  current tick. The outcome is the same whether or not amounts are valued. On acceptance, the
  amounts are the sums over neighbouring ticks of the rounded down amounts at the liquidity
  active there.
\<close>

theorem Calculate_accepts:
  "case calculate s v of
     Inl e \<Rightarrow> \<not> wf_state s
   | Inr A \<Rightarrow> wf_state s \<and>
       Token0 A = Some (if v then principal True (Ticks s) (the (SqrtPriceX96 s)) else 0) \<and>
       Token1 A = Some (if v then principal False (Ticks s) (the (SqrtPriceX96 s)) else 0)"
proof (cases "wf_state s")
  case True
  then obtain p where "SqrtPriceX96 s = Some p" by (auto simp: wf_state_def split: option.splits)
  then show ?thesis using True by (simp add: calculate_wf)
next
  case False
  then show ?thesis using calculate_ok_wf [of s v] by (cases "calculate s v") auto
qed

lemma sum_ticks_no_panic:
  "\<forall>t \<in> set ts. tick_ok sp t \<Longrightarrow> ordered ts \<Longrightarrow> \<not> panics (sum_ticks v p tick ts l act a0 a1)"
  by (simp add: sum_ticks_ok)

text \<open>
  \<open>Calculate\<close> never panics: no state, however malformed, makes it divide by zero or
  dereference a nil integer; every rejection is an error value.
\<close>

lemma calculate_no_panic: "\<not> panics (calculate s v)"
proof -
  have "\<not> panics (ebind (check_ticks (Spacing s) None (Ticks s)) (\<lambda>_.
       ebind (sum_ticks v price (sTick s) (Ticks s) 0 0 0 0) (\<lambda>(l, active, amt0, amt1).
       ensure (\<not> (l \<noteq> 0 \<or> active \<noteq> act)) (Fail ''liquidity=mismatch'')
         (Inr \<lparr>Token0 = Some amt0, Token1 = Some amt1\<rparr>))))" if "0 < Spacing s" for price act
  proof (cases "check_ticks (Spacing s) None (Ticks s)")
    case (Inl e)
    then show ?thesis using check_ticks_no_panic [of "Spacing s" None "Ticks s"] by (cases e) simp_all
  next
    case (Inr u)
    then have "\<forall>t \<in> set (Ticks s). tick_ok (Spacing s) t" "ordered (Ticks s)"
      using check_ticks_ok [OF that, of None "Ticks s"] by simp_all
    then show ?thesis
      using Inr sum_ticks_no_panic by (auto simp: panics_ebind split: prod.splits)
  qed
  then show ?thesis
    by (auto simp: calculate_def ensure_def split: option.splits)
qed

section \<open>Updates\<close>

text \<open>
  A tick list in order implements a finite map from tick indices to gross and net liquidity.
  A boundary update is specified on the map; the code's search, insertion and removal refine it.
\<close>

definition entry :: "Tick \<Rightarrow> int option \<times> int option" where
  "entry t = (tGross t, tNet t)"

definition tmap :: "Tick list \<Rightarrow> int \<rightharpoonup> int option \<times> int option" where
  "tmap ts = map_of (map (\<lambda>t. (tIndex t, entry t)) ts)"

lemma tmap_Nil [simp]: "tmap [] = Map.empty"
  by (simp add: tmap_def)

lemma tmap_Cons [simp]: "tmap (t # ts) = (tmap ts)(tIndex t \<mapsto> entry t)"
  by (simp add: tmap_def)

lemma tmap_append [simp]: "tmap (xs @ ys) = tmap ys ++ tmap xs"
  by (simp add: tmap_def)

lemma dom_tmap: "dom (tmap ts) = tIndex ` set ts"
  by (force simp: tmap_def dom_map_of_conv_image_fst)

lemma tmap_None: "i \<notin> tIndex ` set ts \<Longrightarrow> tmap ts i = None"
  using dom_tmap [of ts] by blast

lemma Tick_eqI: "tIndex t = tIndex u \<Longrightarrow> entry t = entry u \<Longrightarrow> t = (u :: Tick)"
  by (simp add: entry_def)

text \<open>In order, the map determines the list.\<close>

lemma tmap_inject: "ordered ts \<Longrightarrow> ordered us \<Longrightarrow> tmap ts = tmap us \<Longrightarrow> ts = us"
proof (induction ts arbitrary: us)
  case Nil
  then show ?case by (cases us) (auto simp: fun_eq_iff split: if_splits)
next
  case (Cons t ts)
  from Cons.prems(3) have "tIndex ` set (t # ts) = tIndex ` set us" by (metis dom_tmap)
  moreover obtain u us' where us: "us = u # us'"
    using Cons.prems(3) by (cases us) (auto simp: fun_eq_iff split: if_splits)
  ultimately have "tIndex t \<in> tIndex ` set us" and "tIndex u \<in> tIndex ` set (t # ts)" by auto
  moreover have "\<forall>x \<in> set (t # ts). tIndex t \<le> tIndex x" and "\<forall>x \<in> set us. tIndex u \<le> tIndex x"
    using Cons.prems(1,2) us by auto
  ultimately have "tIndex u \<le> tIndex t" and "tIndex t \<le> tIndex u" by (metis imageE)+
  then have idx: "tIndex t = tIndex u" by simp
  have fresh: "tmap ts (tIndex t) = None" "tmap us' (tIndex u) = None"
    using Cons.prems(1,2) us by (auto intro!: tmap_None)
  have "entry t = entry u" using Cons.prems(3) us idx by (metis map_upd_Some_unfold option.inject tmap_Cons)
  moreover have "tmap ts = tmap us'"
    using Cons.prems(3) us idx fresh by (metis fun_upd_triv fun_upd_upd tmap_Cons)
  ultimately show ?case using Cons us idx by (auto intro: Tick_eqI)
qed

definition boundary_entry :: "int \<Rightarrow> bool \<Rightarrow> int option \<times> int option \<Rightarrow> (int option \<times> int option) option res" where
  "boundary_entry delta isLower e =
     (case e of
        (Some g, Some n) \<Rightarrow>
          (let g = g + delta; n = (if isLower then n + delta else n - delta)
           in if g = 0 then (if n \<noteq> 0 then Inl (Fail ''tick_liquidity=mismatch'') else Inr None)
              else Inr (Some (Some g, Some n)))
      | _ \<Rightarrow> Inl (Panic ''nil dereference''))"

definition boundary_map ::
  "int \<Rightarrow> bool \<Rightarrow> int \<Rightarrow> (int \<rightharpoonup> int option \<times> int option) \<Rightarrow> (int \<rightharpoonup> int option \<times> int option) res" where
  "boundary_map delta isLower index m =
     (case m index of
        None \<Rightarrow>
          if delta < 0 then Inl (Fail ''tick=missing'')
          else if delta = 0 then Inr m
          else ebind (boundary_entry delta isLower (Some 0, Some 0)) (\<lambda>e. Inr (m(index := e)))
      | Some e \<Rightarrow> ebind (boundary_entry delta isLower e) (\<lambda>e. Inr (m(index := e))))"

definition at_index :: "int \<Rightarrow> (int option \<times> int option) option \<Rightarrow> Tick list" where
  "at_index index e =
     (case e of None \<Rightarrow> [] | Some (g, n) \<Rightarrow> [\<lparr>tIndex = index, tGross = g, tNet = n\<rparr>])"

lemma bump_tick_prefix:
  "bump_tick delta isLower (length pre) (pre @ t # post) =
     ebind (boundary_entry delta isLower (entry t)) (\<lambda>e. Inr (pre @ at_index (tIndex t) e @ post))"
  by (cases t)
    (auto simp: bump_tick_def boundary_entry_def entry_def at_index_def Let_def split: option.splits)

lemma split_ordered:
  fixes ts :: "Tick list" and i :: int
  assumes "ordered ts"
  defines "pre \<equiv> takeWhile (\<lambda>t. tIndex t < i) ts" and "post \<equiv> dropWhile (\<lambda>t. tIndex t < i) ts"
  shows "ts = pre @ post" and "\<forall>t \<in> set pre. tIndex t < i" and "ordered pre" and "ordered post"
    and "post = [] \<or> (\<exists>t rest. post = t # rest \<and> i \<le> tIndex t \<and> (\<forall>u \<in> set rest. i < tIndex u))"
    and "sort_search (length ts) (\<lambda>k. i \<le> tIndex (ts ! k)) = length pre"
proof -
  show eq: "ts = pre @ post" by (simp add: pre_def post_def)
  show "\<forall>t \<in> set pre. tIndex t < i" unfolding pre_def by (auto dest: set_takeWhileD)
  from assms(1) eq have ord: "ordered (pre @ post)" by metis
  then show "ordered pre" and "ordered post" by (auto simp: sorted_wrt_append)
  show "sort_search (length ts) (\<lambda>k. i \<le> tIndex (ts ! k)) = length pre"
    using assms(1) unfolding pre_def
    by (intro sort_search_takeWhile) (auto intro: strict_sorted_imp_sorted)
  show "post = [] \<or> (\<exists>t rest. post = t # rest \<and> i \<le> tIndex t \<and> (\<forall>u \<in> set rest. i < tIndex u))"
  proof (cases post)
    case (Cons t rest)
    then have "i \<le> tIndex t" using hd_dropWhile [of "\<lambda>t. tIndex t < i" ts] unfolding post_def by fastforce
    then show ?thesis using Cons \<open>ordered post\<close> by auto
  qed simp
qed

lemma insert_at_end [simp]: "insert_at (length xs) x xs = xs @ [x]"
  by (simp add: insert_at_def)

lemma apply_boundary_split:
  assumes "ts = pre @ post" and "sort_search (length ts) (\<lambda>k. i \<le> tIndex (ts ! k)) = length pre"
  shows "apply_boundary delta isLower i ts =
     (if post = [] \<or> tIndex (hd post) \<noteq> i then
        (if delta < 0 then Inl (Fail ''tick=missing'') else if delta = 0 then Inr ts
         else ebind (boundary_entry delta isLower (Some 0, Some 0)) (\<lambda>e. Inr (pre @ at_index i e @ post)))
      else ebind (boundary_entry delta isLower (entry (hd post))) (\<lambda>e. Inr (pre @ at_index i e @ tl post)))"
proof -
  have miss: "length pre = length ts \<or> tIndex (ts ! length pre) \<noteq> i \<longleftrightarrow> post = [] \<or> tIndex (hd post) \<noteq> i"
    using assms(1) by (cases post) (auto simp: nth_append)
  show ?thesis
    unfolding apply_boundary_def assms(2) Let_def miss
    by (cases post) (auto simp: assms(1) bump_tick_prefix entry_def)
qed

text \<open>Each boundary update keeps the order and refines the update of the map.\<close>

lemma apply_boundary_refines:
  assumes "ordered ts"
  shows "case apply_boundary delta isLower i ts of
           Inl e \<Rightarrow> boundary_map delta isLower i (tmap ts) = Inl e
         | Inr ts' \<Rightarrow> ordered ts' \<and> boundary_map delta isLower i (tmap ts) = Inr (tmap ts')"
proof -
  obtain pre post where ts: "ts = pre @ post" and pre: "\<forall>t \<in> set pre. tIndex t < i" "ordered pre"
    and post: "ordered post"
      "post = [] \<or> (\<exists>t rest. post = t # rest \<and> i \<le> tIndex t \<and> (\<forall>u \<in> set rest. i < tIndex u))"
    and srch: "sort_search (length ts) (\<lambda>k. i \<le> tIndex (ts ! k)) = length pre"
    using split_ordered [OF assms, of i] by blast
  have no_pre: "tmap pre i = None" using pre by (intro tmap_None) auto
  note split = apply_boundary_split [OF ts srch, of delta isLower]
  show ?thesis
  proof (cases "post = [] \<or> tIndex (hd post) \<noteq> i")
    case True
    then have later: "\<forall>u \<in> set post. i < tIndex u" using post by (auto simp: sorted_wrt_map)
    then have no_post: "tmap post i = None" by (intro tmap_None) auto
    have none: "tmap ts i = None" using no_pre no_post ts by (simp add: map_add_def)
    have "tmap (pre @ at_index i e @ post) = (tmap ts)(i := e)" for e
      using ts no_pre no_post by (auto simp: at_index_def fun_eq_iff map_add_def entry_def split: option.splits)
    moreover have "ordered (pre @ at_index i e @ post)" for e
      using pre post later by (fastforce simp: at_index_def sorted_wrt_append split: option.splits)
    ultimately show ?thesis
      unfolding split boundary_map_def none
      using True assms by (cases "boundary_entry delta isLower (Some 0, Some 0)") auto
  next
    case False
    then obtain t rest where t: "post = t # rest" "tIndex t = i" by (cases post) auto
    moreover from this post(2) have "\<forall>u \<in> set rest. i < tIndex u" by simp
    ultimately have t: "post = t # rest" "tIndex t = i" "\<forall>u \<in> set rest. i < tIndex u" by simp_all
    then have no_rest: "tmap rest i = None" by (intro tmap_None) auto
    have some: "tmap ts i = Some (entry t)" using no_pre ts t by (simp add: map_add_def)
    have "tmap (pre @ at_index i e @ rest) = (tmap ts)(i := e)" for e
      using ts t no_pre no_rest by (auto simp: at_index_def fun_eq_iff map_add_def entry_def split: option.splits)
    moreover have "ordered (pre @ at_index i e @ rest)" for e
      using pre post t by (fastforce simp: at_index_def sorted_wrt_append split: option.splits)
    ultimately show ?thesis
      unfolding split boundary_map_def some
      using False t by (cases "boundary_entry delta isLower (entry t)") auto
  qed
qed

lemma boundary_entry_liq:
  "boundary_entry delta isLower (g, n) = Inr e \<Longrightarrow>
     liq_at (at_index i e) x = (if i \<le> x then the n + (if isLower then delta else - delta) else 0)"
  by (auto simp: boundary_entry_def at_index_def net_def Let_def split: option.splits if_splits)

lemma apply_boundary_liq:
  assumes "ordered ts" and ok: "apply_boundary delta isLower i ts = Inr ts'"
  shows "liq_at ts' x = liq_at ts x + (if i \<le> x then (if isLower then delta else - delta) else 0)"
proof -
  obtain pre post where ts: "ts = pre @ post"
    and srch: "sort_search (length ts) (\<lambda>k. i \<le> tIndex (ts ! k)) = length pre"
    using split_ordered [OF assms(1), of i] by blast
  note split = apply_boundary_split [OF ts srch, of delta isLower]
  show ?thesis
  proof (cases "post = [] \<or> tIndex (hd post) \<noteq> i")
    case True
    then show ?thesis
      using ok unfolding split by (auto simp: ts boundary_entry_liq split: if_splits)
  next
    case False
    then obtain t rest where t: "post = t # rest" "tIndex t = i" by (cases post) auto
    with ok split obtain e where e: "boundary_entry delta isLower (entry t) = Inr e"
      and ts': "ts' = pre @ at_index i e @ rest" by auto
    then have "tNet t \<noteq> None" by (auto simp: boundary_entry_def entry_def split: option.splits)
    then have "the (tNet t) = net t" by (auto simp: net_def)
    then show ?thesis
      using boundary_entry_liq [of delta isLower "tGross t" "tNet t" e i x] e t
      by (auto simp: ts ts' entry_def)
  qed
qed

lemma boundary_map_undo:
  assumes "boundary_map delta isLower i m = Inr m1" and "0 < delta"
    and "\<forall>e. m i = Some e \<longrightarrow> (\<exists>g n. e = (Some g, Some n) \<and> 0 < g)"
  shows "\<exists>a. m1 = m(i \<mapsto> a) \<and> boundary_entry (- delta) isLower a = Inr (m i)"
proof (cases "m i")
  case None
  then have "m1 = m(i \<mapsto> (Some delta, Some (if isLower then delta else - delta)))"
    using assms(1,2) by (auto simp: boundary_map_def boundary_entry_def)
  then show ?thesis
    using None
    by (intro exI [of _ "(Some delta, Some (if isLower then delta else - delta))"])
      (simp add: boundary_entry_def Let_def)
next
  case (Some e)
  with assms(3) obtain g n where e: "e = (Some g, Some n)" "0 < g" by blast
  then have "m1 = m(i \<mapsto> (Some (g + delta), Some (if isLower then n + delta else n - delta)))"
    using Some assms(1,2) by (auto simp: boundary_map_def boundary_entry_def)
  then show ?thesis
    using Some e
    by (intro exI [of _ "(Some (g + delta), Some (if isLower then n + delta else n - delta))"])
      (simp add: boundary_entry_def Let_def)
qed

lemma boundary_map_some:
  "m i = Some a \<Longrightarrow> boundary_entry delta isLower a = Inr e \<Longrightarrow> boundary_map delta isLower i m = Inr (m(i := e))"
  by (simp add: boundary_map_def)

lemma apply_boundary_map:
  assumes "ordered ts" and "boundary_map delta isLower i (tmap ts) = Inr m"
  obtains ts' where "apply_boundary delta isLower i ts = Inr ts'" and "ordered ts'" and "tmap ts' = m"
  using apply_boundary_refines [OF assms(1), of delta isLower i] assms(2)
  by (cases "apply_boundary delta isLower i ts") auto

lemma tmap_SomeD: "tmap ts i = Some e \<Longrightarrow> \<exists>t \<in> set ts. tIndex t = i \<and> entry t = e"
  by (auto simp: tmap_def dest!: map_of_SomeD)

text \<open>Adding liquidity to a range and taking it back restores the tick list.\<close>

lemma boundaries_undo:
  assumes ord: "ordered ts" and pos: "\<forall>t \<in> set ts. \<exists>g n. entry t = (Some g, Some n) \<and> 0 < g"
    and d: "0 < delta" and lu: "l \<noteq> u"
    and 1: "apply_boundary delta True l ts = Inr ts1" and 2: "apply_boundary delta False u ts1 = Inr ts2"
  obtains ts3 where "apply_boundary (- delta) True l ts2 = Inr ts3"
    and "apply_boundary (- delta) False u ts3 = Inr ts"
proof -
  have pos': "\<forall>e. tmap ts i = Some e \<longrightarrow> (\<exists>g n. e = (Some g, Some n) \<and> 0 < g)" for i
    using pos by (metis tmap_SomeD)
  have r1: "ordered ts1" "boundary_map delta True l (tmap ts) = Inr (tmap ts1)"
    using apply_boundary_refines [OF ord, of delta True l] 1 by auto
  have r2: "ordered ts2" "boundary_map delta False u (tmap ts1) = Inr (tmap ts2)"
    using apply_boundary_refines [OF r1(1), of delta False u] 2 by auto
  obtain a where a: "tmap ts1 = (tmap ts)(l \<mapsto> a)" "boundary_entry (- delta) True a = Inr (tmap ts l)"
    using boundary_map_undo [OF r1(2) d pos'] by blast
  have "\<forall>e. tmap ts1 u = Some e \<longrightarrow> (\<exists>g n. e = (Some g, Some n) \<and> 0 < g)"
    using a(1) lu pos' [of u] by simp
  from boundary_map_undo [OF r2(2) d this] obtain b
    where b: "tmap ts2 = (tmap ts1)(u \<mapsto> b)" "boundary_entry (- delta) False b = Inr (tmap ts1 u)" by blast
  have "boundary_map (- delta) True l (tmap ts2) = Inr ((tmap ts2)(l := tmap ts l))"
    using a b lu by (intro boundary_map_some [of _ _ a]) simp_all
  then obtain ts3 where ts3: "apply_boundary (- delta) True l ts2 = Inr ts3" "ordered ts3"
    "tmap ts3 = (tmap ts2)(l := tmap ts l)" by (rule apply_boundary_map [OF r2(1)])
  have "boundary_map (- delta) False u (tmap ts3) = Inr ((tmap ts3)(u := tmap ts1 u))"
    using b ts3(3) lu by (intro boundary_map_some [of _ _ b]) simp_all
  then obtain ts4 where ts4: "apply_boundary (- delta) False u ts3 = Inr ts4" "ordered ts4"
    "tmap ts4 = (tmap ts3)(u := tmap ts1 u)" by (rule apply_boundary_map [OF ts3(2)])
  have "tmap ts4 = tmap ts" using a b ts3(3) ts4(3) lu by (auto simp: fun_eq_iff)
  then have "ts4 = ts" by (rule tmap_inject [OF ts4(2) ord])
  with ts3(1) ts4(1) show thesis by (intro that) simp_all
qed

section \<open>Correctness of Apply\<close>

lemma Apply_InrD:
  assumes "Apply s u maxTicks = Inr s'"
  shows "wf_state s" and "wf_state s'" and "apply_body s u = Inr s'"
    and "int (length (Ticks s)) \<le> maxTicks" and "int (length (Ticks s')) \<le> maxTicks"
    and "1 \<le> maxTicks" and "(uSqrtPriceX96 u = None) \<noteq> (uLiquidityDelta u = None)"
proof -
  from assms obtain A B where 1: "calculate s False = Inr A" and 2: "apply_body s u = Inr s'"
    and 3: "calculate s' False = Inr B"
    by (auto simp: Apply_def)
  show "wf_state s" "wf_state s'" by (fact calculate_ok_wf [OF 1], fact calculate_ok_wf [OF 3])
  show "apply_body s u = Inr s'" by (fact 2)
  show "int (length (Ticks s)) \<le> maxTicks" "int (length (Ticks s')) \<le> maxTicks" "1 \<le> maxTicks"
    "(uSqrtPriceX96 u = None) \<noteq> (uLiquidityDelta u = None)"
    using assms by (auto simp: Apply_def)
qed

lemma calculate_of_wf: "wf_state s \<Longrightarrow> \<exists>A. calculate s v = Inr A"
proof -
  assume wf: "wf_state s"
  then obtain p where "SqrtPriceX96 s = Some p" by (auto simp: wf_state_def split: option.splits)
  then show ?thesis using wf calculate_wf by blast
qed

lemma Apply_InrI:
  assumes "wf_state s" and "wf_state s'" and "apply_body s u = Inr s'"
    and "int (length (Ticks s)) \<le> maxTicks" and "int (length (Ticks s')) \<le> maxTicks"
    and "1 \<le> maxTicks" and "(uSqrtPriceX96 u = None) \<noteq> (uLiquidityDelta u = None)"
  shows "Apply s u maxTicks = Inr s'"
  using assms calculate_of_wf [of s False] calculate_of_wf [of s' False] by (auto simp: Apply_def)

text \<open>
  C3. A successful \<open>Apply\<close> of a liquidity change is exactly a range addition: the liquidity
  active at every tick of the line grows by the delta inside the half open range and stays the
  same outside; the current active liquidity follows; price and tick are untouched; the new
  state is consistent and within the caller's bound on ticks.
\<close>

theorem Apply_liquidity:
  assumes "Apply s u maxTicks = Inr s'" and "uLiquidityDelta u = Some delta"
  shows "wf_state s' \<and> int (length (Ticks s')) \<le> maxTicks
    \<and> SqrtPriceX96 s' = SqrtPriceX96 s \<and> sTick s' = sTick s
    \<and> (\<forall>x. liq_at (Ticks s') x = liq_at (Ticks s) x + (if uLower u \<le> x \<and> x < uUpper u then delta else 0))
    \<and> ActiveLiquidity s' = Some (liq_at (Ticks s) (sTick s)
         + (if uLower u \<le> sTick s \<and> sTick s < uUpper u then delta else 0))"
proof -
  note ok = Apply_InrD [OF assms(1)]
  have none: "uSqrtPriceX96 u = None" using ok(7) assms(2) by simp
  have ord: "ordered (Ticks s)" using ok(1) by (simp add: wf_state_def)
  obtain ts1 ts2 where 1: "apply_boundary delta True (uLower u) (Ticks s) = Inr ts1"
    and 2: "apply_boundary delta False (uUpper u) ts1 = Inr ts2" and lu: "uLower u < uUpper u"
    and frame: "SqrtPriceX96 s' = SqrtPriceX96 s" "sTick s' = sTick s" "Ticks s' = ts2"
    using ok(3) by (auto simp: apply_body_def none assms(2) Let_def split: if_splits option.splits)
  have "ordered ts1" using apply_boundary_refines [OF ord, of delta True "uLower u"] 1 by simp
  then have liq: "liq_at ts2 x = liq_at (Ticks s) x + (if uLower u \<le> x \<and> x < uUpper u then delta else 0)" for x
    using apply_boundary_liq [OF ord 1, of x] apply_boundary_liq [OF _ 2, of x] lu by auto
  have "ActiveLiquidity s' = Some (liq_at (Ticks s') (sTick s'))" using ok(2) by (simp add: wf_state_def)
  with ok frame liq show ?thesis by simp
qed

definition sample_state :: State where
  "sample_state = \<lparr>SqrtPriceX96 = Some (2 ^ 96), sTick = 0, Spacing = 10, ActiveLiquidity = Some 7,
     Ticks = [\<lparr>tIndex = - 20, tGross = Some 7, tNet = Some 7\<rparr>, \<lparr>tIndex = 30, tGross = Some 7, tNet = Some (- 7)\<rparr>],
     Complete = True\<rparr>"

definition sample_mint :: Update where
  "sample_mint = \<lparr>uSqrtPriceX96 = None, uTick = 0, uActiveLiquidity = None, uLower = - 20, uUpper = 10,
     uLiquidityDelta = Some 1000\<rparr>"

definition sample_minted :: State where
  "sample_minted = sample_state\<lparr>ActiveLiquidity := Some 1007,
     Ticks := [\<lparr>tIndex = - 20, tGross = Some 1007, tNet = Some 1007\<rparr>,
       \<lparr>tIndex = 10, tGross = Some 1000, tNet = Some (- 1000)\<rparr>,
       \<lparr>tIndex = 30, tGross = Some 7, tNet = Some (- 7)\<rparr>]\<rparr>"

lemma sample_Apply: "Apply sample_state sample_mint 5 = Inr sample_minted"
  by code_simp

theorem Apply_liquidity_witness:
  "liq_at (Ticks sample_minted) 3 = liq_at (Ticks sample_state) 3 + 1000"
  using Apply_liquidity [OF sample_Apply, of 1000] by (simp add: sample_mint_def)

text \<open>
  Minting liquidity over a range and burning the same amount again gives back the
  state it started from, tick list included: boundary ticks that the mint inserted are removed,
  the others get their old liquidity back.
\<close>

lemma Apply_mint_burn:
  assumes "Apply s u maxTicks = Inr s'" and "uLiquidityDelta u = Some delta" and "0 < delta"
  shows "Apply s' (u\<lparr>uLiquidityDelta := Some (- delta)\<rparr>) maxTicks = Inr s"
proof -
  note ok = Apply_InrD [OF assms(1)]
  have none: "uSqrtPriceX96 u = None" using ok(7) assms(2) by simp
  have ord: "ordered (Ticks s)" and act: "ActiveLiquidity s = Some (liq_at (Ticks s) (sTick s))"
    using ok(1) by (simp_all add: wf_state_def)
  have pos: "\<forall>t \<in> set (Ticks s). \<exists>g n. entry t = (Some g, Some n) \<and> 0 < g"
    using ok(1) by (auto simp: wf_state_def tick_ok_iff entry_def)
  obtain ts1 ts2 where 1: "apply_boundary delta True (uLower u) (Ticks s) = Inr ts1"
    and 2: "apply_boundary delta False (uUpper u) ts1 = Inr ts2"
    and range: "\<not> (uLower u \<ge> uUpper u \<or> uLower u < minTick \<or> uUpper u > maxTick
         \<or> uLower u smod Spacing s \<noteq> 0 \<or> uUpper u smod Spacing s \<noteq> 0 \<or> BitLen_gt delta 128)"
    and s': "s' = s\<lparr>Ticks := ts2, ActiveLiquidity := Some (liq_at (Ticks s) (sTick s)
         + (if uLower u \<le> sTick s \<and> sTick s < uUpper u then delta else 0))\<rparr>"
    using ok(3) act by (auto simp: apply_body_def none assms(2) Let_def split: if_splits option.splits)
  obtain ts3 where 3: "apply_boundary (- delta) True (uLower u) ts2 = Inr ts3"
    and 4: "apply_boundary (- delta) False (uUpper u) ts3 = Inr (Ticks s)"
    using boundaries_undo [OF ord pos assms(3) _ 1 2] range by auto
  have "s = s\<lparr>ActiveLiquidity := Some (liq_at (Ticks s) (sTick s))\<rparr>" using act by simp
  then have "apply_body s' (u\<lparr>uLiquidityDelta := Some (- delta)\<rparr>) = Inr s"
    using range 3 4 act by (auto simp: apply_body_def none s' Let_def BitLen_gt_def)
  then show ?thesis
    using ok none by (intro Apply_InrI) simp_all
qed

lemma Apply_mint_burn_witness:
  "Apply sample_minted (sample_mint\<lparr>uLiquidityDelta := Some (- 1000)\<rparr>) 5 = Inr sample_state"
  using Apply_mint_burn [OF sample_Apply, of 1000] by (simp add: sample_mint_def)

end
