(* ===== verification/Swap_Curve.thy ===== *)
theory Swap_Curve
  imports Prelude
begin

text \<open>
  The arithmetic of one step along a concentrated liquidity curve, shared by every venue that
  quotes locally. Prices are square roots in fixed point with scale \<open>Q\<close> (\<open>2 ^ 96\<close> on the EVM,
  \<open>2 ^ 64\<close> on Sui and Solana). \<open>zero\<close> is the direction that sells token 0 and lowers the price.

  The locale \<open>swap_step\<close> is the contract between a venue's step function and the loops that
  fold it over ticks; every venue's step is an interpretation of it.
\<close>

section \<open>One step, by direction and kind\<close>

lemma mult_div_less_bound:
  fixes a n d :: int
  assumes "0 < d" and "a < cdiv n d"
  shows "a * d < n"
  using assms by (simp add: less_cdiv_iff)

text \<open>Selling token 0, exact input.\<close>

lemma next_zero_input:
  fixes N p t a :: int
  assumes pos: "0 < N" "0 < p" "0 < t" "0 \<le> a" and a: "a * (t * p) < N * (p - t)"
    and lo: "N * p \<le> q * (N + a * p)" and hi: "q \<le> p"
  shows "t < q \<and> q \<le> p \<and> N * (p - q) \<le> a * (p * q)"
proof -
  have "t * (N + a * p) < N * p" using a by (simp add: algebra_simps)
  then have "t * (N + a * p) < q * (N + a * p)" using lo by linarith
  moreover have "0 < N + a * p" using pos by (simp add: add_pos_nonneg)
  ultimately have "t < q" by (simp add: mult_less_cancel_right)
  with lo hi show ?thesis by (simp add: algebra_simps)
qed

lemma next_zero_input_main:
  fixes N p a :: int
  assumes "0 < N" "0 < p" "0 \<le> a"
  shows "N * p \<le> cdiv (N * p) (N + a * p) * (N + a * p)" and "cdiv (N * p) (N + a * p) \<le> p"
proof -
  have d: "0 < N + a * p" using assms by (simp add: add_pos_nonneg)
  then show "N * p \<le> cdiv (N * p) (N + a * p) * (N + a * p)" by (rule cdiv_mult_ge)
  show "cdiv (N * p) (N + a * p) \<le> p" using d assms by (simp add: cdiv_le_iff algebra_simps)
qed

lemma next_zero_input_fallback:
  fixes N p a :: int
  assumes "0 < N" "0 < p" "0 < a"
  shows "N * p \<le> cdiv N (N div p + a) * (N + a * p)" and "cdiv N (N div p + a) \<le> p"
proof -
  have nn: "0 \<le> N div p" using assms by (simp add: pos_imp_zdiv_nonneg_iff)
  then have d: "0 < N div p + a" using assms by linarith
  have "N \<le> cdiv N (N div p + a) * (N div p + a)" using d by (rule cdiv_mult_ge)
  then have "N * p \<le> cdiv N (N div p + a) * (N div p + a) * p"
    using assms by (intro mult_right_mono) auto
  also have "\<dots> = cdiv N (N div p + a) * (N div p * p + a * p)" by (simp add: algebra_simps)
  also have "\<dots> \<le> cdiv N (N div p + a) * (N + a * p)"
    using assms d by (intro mult_left_mono add_mono div_mult_le cdiv_nonneg) auto
  finally show "N * p \<le> cdiv N (N div p + a) * (N + a * p)" .
  have "(N div p + 1) * p \<le> (N div p + a) * p" using assms by (intro mult_right_mono) auto
  then have "N \<le> (N div p + a) * p" using less_div_mult [OF assms(2), of N] by linarith
  then have "N \<le> p * (N div p + a)" by (simp add: mult.commute)
  then show "cdiv N (N div p + a) \<le> p" using d by (simp add: cdiv_le_iff)
qed

text \<open>Selling token 1, exact input.\<close>

lemma next_one_input:
  fixes Q l p t a :: int
  assumes pos: "0 < Q" "0 < l" "0 \<le> a" and a: "a * Q < l * (t - p)"
  shows "p \<le> p + a * Q div l" and "p + a * Q div l < t" and "l * ((p + a * Q div l) - p) \<le> a * Q"
proof -
  have "a * Q < (t - p) * l" using a by (simp add: mult.commute)
  then have "a * Q div l < t - p" using pos by (simp add: div_less_iff_less_mult)
  then show "p + a * Q div l < t" by linarith
  show "p \<le> p + a * Q div l" using pos by (simp add: pos_imp_zdiv_nonneg_iff)
  show "l * ((p + a * Q div l) - p) \<le> a * Q"
    using div_mult_le [OF pos(2), of "a * Q"] by (simp add: mult.commute)
qed

text \<open>Selling token 0, exact output.\<close>

lemma next_zero_output:
  fixes Q l p t a :: int
  assumes pos: "0 < Q" "0 < l" "0 \<le> a" and a: "a * Q \<le> l * (p - t)"
  shows "t \<le> p - cdiv (a * Q) l" and "p - cdiv (a * Q) l \<le> p" and "a * Q \<le> l * (p - (p - cdiv (a * Q) l))"
proof -
  have "cdiv (a * Q) l \<le> p - t" using a pos by (simp add: cdiv_le_iff mult.commute)
  then show "t \<le> p - cdiv (a * Q) l" by linarith
  show "p - cdiv (a * Q) l \<le> p" using pos by (simp add: cdiv_nonneg)
  show "a * Q \<le> l * (p - (p - cdiv (a * Q) l))"
    using cdiv_mult_ge [OF pos(2), of "a * Q"] by (simp add: mult.commute)
qed

text \<open>Selling token 1, exact output.\<close>

lemma next_one_output:
  fixes N p t a :: int
  assumes pos: "0 < N" "0 < p" "0 < t" "0 \<le> a" and a: "a * (p * t) < N * (t - p)" and le: "p \<le> t"
  shows "0 < N - a * p" and "p \<le> cdiv (N * p) (N - a * p)" and "cdiv (N * p) (N - a * p) \<le> t"
    and "a * (p * cdiv (N * p) (N - a * p)) \<le> N * (cdiv (N * p) (N - a * p) - p)"
proof -
  have "N * p < t * (N - a * p)" using a by (simp add: algebra_simps)
  moreover have "0 < N * p" using pos by simp
  ultimately have "0 < t * (N - a * p)" by linarith
  then show d: "0 < N - a * p" using pos by (simp add: zero_less_mult_iff)
  show "cdiv (N * p) (N - a * p) \<le> t" using d \<open>N * p < t * (N - a * p)\<close> by (simp add: cdiv_le_iff)
  have c: "N * p \<le> cdiv (N * p) (N - a * p) * (N - a * p)" using d by (rule cdiv_mult_ge)
  then show "a * (p * cdiv (N * p) (N - a * p)) \<le> N * (cdiv (N * p) (N - a * p) - p)"
    by (simp add: algebra_simps)
  have "p * (N - a * p) \<le> N * p" using pos by (simp add: algebra_simps)
  then have "p * (N - a * p) \<le> cdiv (N * p) (N - a * p) * (N - a * p)" using c by linarith
  then show "p \<le> cdiv (N * p) (N - a * p)" using d by (simp add: mult_le_cancel_right)
qed

section \<open>Exact amounts along the curve\<close>

text \<open>
  Between prices \<open>a\<close> and \<open>b\<close> at liquidity \<open>l\<close>, the curve exchanges the fraction
  \<open>cnum / cden\<close> of each token.
\<close>

definition cnum :: "int \<Rightarrow> int \<Rightarrow> int \<Rightarrow> int \<Rightarrow> bool \<Rightarrow> int" where
  "cnum Q a b l token0 = (if token0 then Q * (l * \<bar>b - a\<bar>) else l * \<bar>b - a\<bar>)"

definition cden :: "int \<Rightarrow> int \<Rightarrow> int \<Rightarrow> bool \<Rightarrow> int" where
  "cden Q a b token0 = (if token0 then a * b else Q)"

definition amt :: "int \<Rightarrow> int \<Rightarrow> int \<Rightarrow> int \<Rightarrow> bool \<Rightarrow> bool \<Rightarrow> int" where
  "amt Q a b l token0 up =
     (if up then cdiv (cnum Q a b l token0) (cden Q a b token0) else cnum Q a b l token0 div cden Q a b token0)"

lemma cden_pos: "0 < Q \<Longrightarrow> 0 < a \<Longrightarrow> 0 < b \<Longrightarrow> 0 < cden Q a b t"
  by (simp add: cden_def)

lemma cnum_nonneg: "0 < Q \<Longrightarrow> 0 \<le> l \<Longrightarrow> 0 \<le> cnum Q a b l t"
  by (simp add: cnum_def)

lemma amt_nonneg: "0 < Q \<Longrightarrow> 0 < a \<Longrightarrow> 0 < b \<Longrightarrow> 0 \<le> l \<Longrightarrow> 0 \<le> amt Q a b l t up"
  using cden_pos [of Q a b t] cnum_nonneg [of Q l a b t]
  by (simp add: amt_def cdiv_nonneg pos_imp_zdiv_nonneg_iff)

lemma amt_same [simp]: "amt Q a a l t up = 0"
  by (simp add: amt_def cnum_def)

lemma amt_0 [simp]: "amt Q a b 0 t up = 0"
  by (simp add: amt_def cnum_def)

lemma amt_up_ge: "0 < Q \<Longrightarrow> 0 < a \<Longrightarrow> 0 < b \<Longrightarrow> cnum Q a b l t \<le> amt Q a b l t True * cden Q a b t"
  using cden_pos [of Q a b t] by (simp add: amt_def cdiv_mult_ge)

lemma amt_down_le: "0 < Q \<Longrightarrow> 0 < a \<Longrightarrow> 0 < b \<Longrightarrow> amt Q a b l t False * cden Q a b t \<le> cnum Q a b l t"
  using cden_pos [of Q a b t] by (simp add: amt_def div_mult_le)

lemma less_amt_up: "0 < Q \<Longrightarrow> 0 < a \<Longrightarrow> 0 < b \<Longrightarrow> x < amt Q a b l t True \<longleftrightarrow> x * cden Q a b t < cnum Q a b l t"
  using cden_pos [of Q a b t] by (simp add: amt_def less_cdiv_iff)

lemma amt_up_le: "0 < Q \<Longrightarrow> 0 < a \<Longrightarrow> 0 < b \<Longrightarrow> amt Q a b l t True \<le> x \<longleftrightarrow> cnum Q a b l t \<le> x * cden Q a b t"
  using cden_pos [of Q a b t] by (simp add: amt_def cdiv_le_iff)

lemma le_amt_down: "0 < Q \<Longrightarrow> 0 < a \<Longrightarrow> 0 < b \<Longrightarrow> x \<le> amt Q a b l t False \<longleftrightarrow> x * cden Q a b t \<le> cnum Q a b l t"
  using cden_pos [of Q a b t] by (simp add: amt_def le_div_iff_mult_le)

section \<open>Prices and totals of a swap\<close>

text \<open>\<open>toward\<close>: the price moved in the right direction and not past the target.\<close>

definition toward :: "bool \<Rightarrow> int \<Rightarrow> int \<Rightarrow> int \<Rightarrow> bool" where
  "toward zero p t q \<longleftrightarrow> (if zero then t \<le> q \<and> q \<le> p else p \<le> q \<and> q \<le> t)"

text \<open>
  \<open>fair\<close>: what came out, valued at the starting price, is not more than what went in. The spot
  price of token 0 in token 1 is \<open>(p / Q)\<^sup>2\<close>.
\<close>

definition fair :: "int \<Rightarrow> bool \<Rightarrow> int \<Rightarrow> int \<Rightarrow> int \<Rightarrow> bool" where
  "fair Q zero p i out \<longleftrightarrow> (if zero then out * Q\<^sup>2 \<le> i * p\<^sup>2 else out * p\<^sup>2 \<le> i * Q\<^sup>2)"

lemma fair_0 [simp]: "fair Q zero p 0 0"
  by (simp add: fair_def)

lemma fair_le: "fair Q zero p i out \<Longrightarrow> i \<le> i' \<Longrightarrow> out' \<le> out \<Longrightarrow> fair Q zero p i' out'"
  unfolding fair_def
  by (smt (verit) mult_right_mono zero_le_power2)

lemma fair_add: "fair Q zero p i out \<Longrightarrow> fair Q zero p i' out' \<Longrightarrow> fair Q zero p (i + i') (out + out')"
  by (simp add: fair_def distrib_right split: if_splits)

text \<open>A later price in the direction of the swap is worse than the starting price.\<close>

lemma fair_later:
  assumes "fair Q zero q i out" and "0 < q" and "0 \<le> i" and "0 \<le> out" and "if zero then q \<le> p else 0 < p \<and> p \<le> q"
  shows "fair Q zero p i out"
proof (cases zero)
  case True
  then have "q\<^sup>2 \<le> p\<^sup>2" using assms by (intro power_mono) auto
  then have "i * q\<^sup>2 \<le> i * p\<^sup>2" using assms by (intro mult_left_mono) auto
  then show ?thesis using assms True by (simp add: fair_def)
next
  case False
  then have "p\<^sup>2 \<le> q\<^sup>2" using assms by (intro power_mono) auto
  then have "out * p\<^sup>2 \<le> out * q\<^sup>2" using assms by (intro mult_left_mono) auto
  then show ?thesis using assms False by (simp add: fair_def)
qed

text \<open>The amounts of the curve itself, rounded against the trader, are fair.\<close>

lemma amt_fair:
  assumes "0 < Q" "0 < p" "0 < q" "0 \<le> l" and dir: "if zero then q \<le> p else p \<le> q"
  shows "fair Q zero p (amt Q p q l zero True) (amt Q p q l (\<not> zero) False)"
proof (cases zero)
  case True
  have i: "Q * (l * \<bar>q - p\<bar>) \<le> amt Q p q l True True * (p * q)"
    using amt_up_ge [OF assms(1-3), of l True] by (simp add: cnum_def cden_def)
  have out: "amt Q p q l False False * Q \<le> l * \<bar>q - p\<bar>"
    using amt_down_le [OF assms(1-3), of l False] by (simp add: cnum_def cden_def)
  have "amt Q p q l False False * Q\<^sup>2 = (amt Q p q l False False * Q) * Q" by (simp add: power2_eq_square)
  also have "\<dots> \<le> l * \<bar>q - p\<bar> * Q" using out assms by (intro mult_right_mono) auto
  also have "\<dots> \<le> amt Q p q l True True * (p * q)" using i by (simp add: mult_ac)
  also have "\<dots> \<le> amt Q p q l True True * (p * p)"
    using assms True by (intro mult_left_mono amt_nonneg) auto
  finally show ?thesis using True by (simp add: fair_def power2_eq_square)
next
  case False
  have i: "l * \<bar>q - p\<bar> \<le> amt Q p q l False True * Q"
    using amt_up_ge [OF assms(1-3), of l False] by (simp add: cnum_def cden_def)
  have out: "amt Q p q l True False * (p * q) \<le> Q * (l * \<bar>q - p\<bar>)"
    using amt_down_le [OF assms(1-3), of l True] by (simp add: cnum_def cden_def)
  have "amt Q p q l True False * p\<^sup>2 \<le> amt Q p q l True False * (p * q)"
    using assms False by (auto intro!: mult_left_mono amt_nonneg simp: power2_eq_square)
  also have "\<dots> \<le> Q * (l * \<bar>q - p\<bar>)" by (fact out)
  also have "\<dots> \<le> Q * (amt Q p q l False True * Q)" using i assms by (intro mult_left_mono) auto
  finally show ?thesis using False by (simp add: fair_def power2_eq_square mult_ac)
qed

section \<open>Where an exact amount moves the price\<close>

text \<open>The common form of the price update, without the overflow fallback of Uniswap's.\<close>

definition move_in :: "int \<Rightarrow> int \<Rightarrow> int \<Rightarrow> int \<Rightarrow> bool \<Rightarrow> int" where
  "move_in Q p l a zero = (if zero then cdiv (Q * l * p) (Q * l + a * p) else p + a * Q div l)"

definition move_out :: "int \<Rightarrow> int \<Rightarrow> int \<Rightarrow> int \<Rightarrow> bool \<Rightarrow> int" where
  "move_out Q p l a zero = (if zero then p - cdiv (a * Q) l else cdiv (Q * l * p) (Q * l - a * p))"

lemma amt_sym: "amt Q a b l t up = amt Q b a l t up"
  by (simp add: amt_def cnum_def cden_def abs_minus_commute mult.commute)

lemma move_in_amt:
  assumes "0 < Q" "0 < p" "0 < l" "0 \<le> a"
  shows "0 < move_in Q p l a zero" and "if zero then move_in Q p l a zero \<le> p else p \<le> move_in Q p l a zero"
    and "amt Q p (move_in Q p l a zero) l zero True \<le> a"
proof -
  have N: "0 < Q * l" "0 < Q * l * p" "0 < Q * l + a * p" using assms by (simp_all add: add_pos_nonneg)
  have q: "0 \<le> a * Q div l" using assms by (simp add: pos_imp_zdiv_nonneg_iff)
  show pos: "0 < move_in Q p l a zero"
    using N q assms by (auto simp: move_in_def intro: cdiv_pos)
  show dir: "if zero then move_in Q p l a zero \<le> p else p \<le> move_in Q p l a zero"
    using q next_zero_input_main(2) [OF N(1) assms(2,4)] by (simp add: move_in_def)
  show "amt Q p (move_in Q p l a zero) l zero True \<le> a"
  proof (cases zero)
    case True
    have "Q * l * p \<le> move_in Q p l a zero * (Q * l + a * p)"
      using next_zero_input_main(1) [OF N(1) assms(2,4)] True by (simp add: move_in_def)
    then have "Q * (l * (p - move_in Q p l a zero)) \<le> a * (p * move_in Q p l a zero)"
      by (simp add: algebra_simps)
    then show ?thesis using True pos dir assms by (simp add: amt_up_le cnum_def cden_def)
  next
    case False
    have "a * Q div l * l \<le> a * Q" using assms(3) by (rule div_mult_le)
    then have "l * (move_in Q p l a zero - p) \<le> a * Q" using False by (simp add: move_in_def mult.commute)
    then show ?thesis using False pos dir assms by (simp add: amt_up_le cnum_def cden_def)
  qed
qed

lemma move_in_less:
  assumes pos: "0 < Q" "0 < p" "0 < l" "0 \<le> a" "0 < t" and dir: "if zero then t \<le> p else p \<le> t"
    and less: "a < amt Q p t l zero True"
  shows "toward zero p t (move_in Q p l a zero)" and "move_in Q p l a zero \<noteq> t"
proof -
  have "if zero then t < move_in Q p l a zero else move_in Q p l a zero < t"
  proof (cases zero)
    case True
    have "a * (p * t) < Q * (l * (p - t))" using less True dir pos by (simp add: less_amt_up cnum_def cden_def)
    then have "t * (Q * l + a * p) < Q * l * p" by (simp add: algebra_simps)
    moreover have "0 < Q * l + a * p" using pos by (simp add: add_pos_nonneg)
    ultimately show ?thesis using True by (simp add: move_in_def less_cdiv_iff)
  next
    case False
    have "a * Q < l * (t - p)" using less False dir pos by (simp add: less_amt_up cnum_def cden_def)
    then show ?thesis using next_one_input(2) [OF pos(1,3,4)] False by (simp add: move_in_def)
  qed
  then show "toward zero p t (move_in Q p l a zero)" "move_in Q p l a zero \<noteq> t"
    using move_in_amt(2) [OF pos(1-4), of zero] by (auto simp: toward_def split: if_splits)
qed

lemma move_in_past:
  assumes pos: "0 < Q" "0 < p" "0 < l" "0 \<le> a" "0 < t" and dir: "if zero then t \<le> p else p \<le> t"
    and le: "amt Q p t l zero True \<le> a"
  shows "if zero then move_in Q p l a zero \<le> t else t \<le> move_in Q p l a zero"
proof (cases zero)
  case True
  have "Q * (l * (p - t)) \<le> a * (p * t)" using le True dir pos by (simp add: amt_up_le cnum_def cden_def)
  then have "Q * l * p \<le> t * (Q * l + a * p)" by (simp add: algebra_simps)
  moreover have "0 < Q * l + a * p" using pos by (simp add: add_pos_nonneg)
  ultimately show ?thesis using True by (simp add: move_in_def cdiv_le_iff)
next
  case False
  have "l * (t - p) \<le> a * Q" using le False dir pos by (simp add: amt_up_le cnum_def cden_def)
  then have "t - p \<le> a * Q div l" using pos by (simp add: le_div_iff_mult_le mult.commute)
  then show ?thesis using False by (simp add: move_in_def)
qed

text \<open>A price further away yields at least as much.\<close>

lemma amt_down_further:
  assumes pos: "0 < Q" "0 < p" "0 < q" "0 < t" "0 \<le> l"
    and dir: "if zero then q \<le> t \<and> t \<le> p else p \<le> t \<and> t \<le> q"
  shows "amt Q p t l u False \<le> amt Q p q l u False"
proof -
  define x where "x = amt Q p t l u False"
  have x: "0 \<le> x" using pos by (simp add: x_def amt_nonneg)
  have le: "x * cden Q p t u \<le> cnum Q p t l u" unfolding x_def using pos by (intro amt_down_le)
  have "x * cden Q p q u \<le> cnum Q p q l u"
  proof (cases u)
    case False
    have "\<bar>t - p\<bar> \<le> \<bar>q - p\<bar>" using dir by (cases zero) simp_all
    then have "l * \<bar>t - p\<bar> \<le> l * \<bar>q - p\<bar>" using pos by (intro mult_left_mono) auto
    then show ?thesis using le False by (simp add: cden_def cnum_def)
  next
    case u: True
    show ?thesis
    proof (cases zero)
      case True
      have "t * (x * p + Q * l) \<le> Q * l * p" using le u True dir by (simp add: cden_def cnum_def algebra_simps)
      moreover have "q * (x * p + Q * l) \<le> t * (x * p + Q * l)"
        using True dir pos x by (intro mult_right_mono) auto
      ultimately have "q * (x * p + Q * l) \<le> Q * l * p" by linarith
      then show ?thesis using u True dir by (simp add: cden_def cnum_def algebra_simps)
    next
      case False
      have "t * (x * p - Q * l) \<le> - (Q * l * p)" using le u False dir by (simp add: cden_def cnum_def algebra_simps)
      moreover have "0 < Q * l * p \<or> l = 0" using pos by auto
      ultimately have "l = 0 \<or> x * p - Q * l < 0"
        using pos by (smt (verit) mult_nonneg_nonneg)
      then have "l = 0 \<or> q * (x * p - Q * l) \<le> t * (x * p - Q * l)"
        using False dir by (auto intro!: mult_right_mono_neg)
      then show ?thesis
      proof
        assume "l = 0"
        then show ?thesis by (simp add: x_def cnum_def)
      next
        assume "q * (x * p - Q * l) \<le> t * (x * p - Q * l)"
        with \<open>t * (x * p - Q * l) \<le> - (Q * l * p)\<close> have "q * (x * p - Q * l) \<le> - (Q * l * p)" by linarith
        then show ?thesis using u False dir by (simp add: cden_def cnum_def algebra_simps)
      qed
    qed
  qed
  then show ?thesis using pos by (simp add: le_amt_down x_def)
qed

lemma move_out_amt:
  assumes pos: "0 < Q" "0 < p" "0 < l" "0 \<le> a" "0 < t" and dir: "if zero then t \<le> p else p \<le> t"
    and less: "a < amt Q p t l (\<not> zero) False"
  shows "0 < move_out Q p l a zero" and "toward zero p t (move_out Q p l a zero)"
    and "a \<le> amt Q p (move_out Q p l a zero) l (\<not> zero) False"
    and "zero \<or> 0 < Q * l - a * p"
proof -
  have *: "0 < move_out Q p l a zero \<and> toward zero p t (move_out Q p l a zero)
    \<and> a \<le> amt Q p (move_out Q p l a zero) l (\<not> zero) False \<and> (zero \<or> 0 < Q * l - a * p)"
  proof (cases zero)
    case True
    have "a + 1 \<le> amt Q p t l False False" using less True by simp
    then have "(a + 1) * Q \<le> l * (p - t)" using True dir pos by (simp add: le_amt_down cnum_def cden_def)
    moreover have "(a + 1) * Q = a * Q + Q" by (simp add: algebra_simps)
    ultimately have a: "a * Q \<le> l * (p - t)" using pos by linarith
    note r = next_zero_output [OF pos(1,3,4) a]
    then have "a \<le> amt Q p (p - cdiv (a * Q) l) l False False"
      using pos by (simp add: le_amt_down cnum_def cden_def)
    then show ?thesis using True r pos by (auto simp: toward_def move_out_def)
  next
    case False
    have N: "0 < Q * l" using pos by simp
    have "a + 1 \<le> amt Q p t l True False" using less False by simp
    then have "(a + 1) * (p * t) \<le> Q * l * (t - p)"
      using False dir pos by (simp add: le_amt_down cnum_def cden_def mult_ac)
    moreover have "0 < p * t" using pos by simp
    ultimately have a: "a * (p * t) < Q * l * (t - p)" by (simp add: algebra_simps)
    have le: "p \<le> t" using dir False by simp
    note r = next_one_output [OF N pos(2,5,4) a le]
    have "a \<le> amt Q p (cdiv (Q * l * p) (Q * l - a * p)) l True False"
      using r pos by (simp add: le_amt_down cnum_def cden_def mult_ac)
    then show ?thesis using False r pos by (auto simp: toward_def move_out_def)
  qed
  then show "0 < move_out Q p l a zero" "toward zero p t (move_out Q p l a zero)"
    "a \<le> amt Q p (move_out Q p l a zero) l (\<not> zero) False" "zero \<or> 0 < Q * l - a * p" by simp_all
qed

lemma cdiv_mult_self: "0 < d \<Longrightarrow> cdiv (d * p) d = p"
  using nonzero_mult_div_cancel_left [of "d" "- p"] by (simp add: cdiv_def del: nonzero_mult_div_cancel_left)

text \<open>A fee on top of an amount that the rest after the fee allows fits in the amount.\<close>

lemma fee_total_le:
  fixes i r f :: int
  assumes "0 \<le> f" "f < 1000000" "i \<le> r * (1000000 - f) div 1000000"
  shows "i + cdiv (i * f) (1000000 - f) \<le> r"
proof -
  have "i * 1000000 \<le> r * (1000000 - f)" using assms by (simp add: le_div_iff_mult_le)
  then have "i * f \<le> (r - i) * (1000000 - f)" by (simp add: algebra_simps)
  then have "cdiv (i * f) (1000000 - f) \<le> r - i" using assms by (simp add: cdiv_le_iff)
  then show ?thesis by simp
qed

section \<open>The contract of a step function\<close>

text \<open>
  A step goes from price \<open>p\<close> toward \<open>t\<close> at liquidity \<open>l\<close>, with \<open>r\<close> of the amount left and
  the fee \<open>f\<close>; it returns input, output, the price reached and the fee.
\<close>

definition step_pre :: "int \<Rightarrow> int \<Rightarrow> int \<Rightarrow> int \<Rightarrow> bool \<Rightarrow> bool" where
  "step_pre p t l r zero \<longleftrightarrow> 0 < p \<and> 0 < t \<and> 0 \<le> l \<and> l < 2 ^ 128 \<and> 0 \<le> r \<and> (if zero then t \<le> p else p \<le> t)"

definition step_post :: "int \<Rightarrow> int \<Rightarrow> int \<Rightarrow> int \<Rightarrow> bool \<Rightarrow> bool \<Rightarrow> int \<times> int \<times> int \<times> int \<Rightarrow> bool" where
  "step_post Q p t r zero input = (\<lambda>(i, out, q, fee).
     0 \<le> i \<and> 0 \<le> out \<and> 0 \<le> fee \<and> toward zero p t q \<and> fair Q zero p i out
     \<and> (if input then i + fee \<le> r else out \<le> r)
     \<and> (q \<noteq> t \<longrightarrow> (if input then i + fee = r else out = r)))"

text \<open>The running totals of a swap that began at \<open>p0\<close> with \<open>amount\<close> to consume.\<close>

definition totals :: "int \<Rightarrow> bool \<Rightarrow> bool \<Rightarrow> int \<Rightarrow> int \<Rightarrow> int \<Rightarrow> int \<Rightarrow> int \<Rightarrow> int \<Rightarrow> int \<Rightarrow> bool" where
  "totals Q zero input p0 amount p r tin tout tfee \<longleftrightarrow>
     0 < p \<and> (if zero then p \<le> p0 else p0 \<le> p) \<and> 0 \<le> r \<and> 0 \<le> tin \<and> 0 \<le> tout \<and> 0 \<le> tfee
     \<and> r = amount - (if input then tin + tfee else tout) \<and> fair Q zero p0 tin tout"

lemma totals_start: "0 < p \<Longrightarrow> 0 \<le> amount \<Longrightarrow> totals Q zero input p amount p amount 0 0 0"
  by (simp add: totals_def)

text \<open>An exchange at the price reached, on top of what was exchanged on the way to it.\<close>

lemma totals_exchange:
  assumes tot: "totals Q zero True p0 amount p r tin tout tfee" and "0 < p0"
    and i: "0 \<le> i" "0 \<le> out" "0 \<le> fee" "i + fee \<le> r" and f: "fair Q zero p i out"
  shows "totals Q zero True p0 amount p (r - (i + fee)) (tin + i) (tout + out) (tfee + fee)"
proof -
  have "fair Q zero p0 i out"
    using tot assms(2) f i by (intro fair_later [OF f]) (auto simp: totals_def split: if_splits)
  then show ?thesis using tot i unfolding totals_def by (auto intro: fair_add)
qed

locale swap_step =
  fixes Q :: int
    and rate_ok :: "'f \<Rightarrow> bool"
    and step :: "int \<Rightarrow> int \<Rightarrow> int \<Rightarrow> int \<Rightarrow> 'f \<Rightarrow> bool \<Rightarrow> bool \<Rightarrow> (int \<times> int \<times> int \<times> int) res"
  assumes scale: "0 < Q"
    and post: "rate_ok f \<Longrightarrow> step_pre p t l r zero \<Longrightarrow> step p t l r f zero input = Inr res
                 \<Longrightarrow> step_post Q p t r zero input res"
begin

text \<open>The client's lemma: a step carries the totals of a swap along.\<close>

lemma totals_step:
  assumes tot: "totals Q zero input p0 amount p r tin tout tfee" and p0: "0 < p0"
    and ok: "rate_ok f" and pre: "step_pre p t l r zero"
    and run: "step p t l r f zero input = Inr (i, out, q, fee)"
  shows "totals Q zero input p0 amount q (if input then r - (i + fee) else r - out)
           (tin + i) (tout + out) (tfee + fee)"
    and "q \<noteq> t \<Longrightarrow> (if input then r - (i + fee) else r - out) = 0"
    and "toward zero p t q"
proof -
  have P: "0 \<le> i" "0 \<le> out" "0 \<le> fee" "toward zero p t q" "fair Q zero p i out"
    "if input then i + fee \<le> r else out \<le> r" "q \<noteq> t \<longrightarrow> (if input then i + fee = r else out = r)"
    using post [OF ok pre run] unfolding step_post_def prod.case by blast+
  have T: "if zero then p \<le> p0 else p0 \<le> p" "0 \<le> tin" "0 \<le> tout" "0 \<le> tfee"
    "r = amount - (if input then tin + tfee else tout)" "fair Q zero p0 tin tout"
    using tot unfolding totals_def by blast+
  have p: "0 < p" "0 < t" "if zero then t \<le> p else p \<le> t" using pre unfolding step_pre_def by blast+
  have q: "0 < q" "if zero then q \<le> p0 else p0 \<le> q"
    using P(4) p T(1) unfolding toward_def by (simp_all split: if_splits)
  have "if zero then p \<le> p0 else 0 < p0 \<and> p0 \<le> p" using T(1) p0 by (cases zero) simp_all
  then have "fair Q zero p0 i out" by (rule fair_later [OF P(5) p(1) P(1,2)])
  with T(6) have fair: "fair Q zero p0 (tin + i) (tout + out)" by (rule fair_add)
  have "0 \<le> (if input then r - (i + fee) else r - out)" using P(6) by (cases input) simp_all
  moreover have "(if input then r - (i + fee) else r - out)
       = amount - (if input then (tin + i) + (tfee + fee) else tout + out)"
    using T(5) by (cases input) simp_all
  moreover have "0 \<le> tin + i" "0 \<le> tout + out" "0 \<le> tfee + fee" using P T by simp_all
  ultimately show "totals Q zero input p0 amount q (if input then r - (i + fee) else r - out)
           (tin + i) (tout + out) (tfee + fee)"
    using q fair unfolding totals_def by blast
  show "q \<noteq> t \<Longrightarrow> (if input then r - (i + fee) else r - out) = 0"
    using P(7) by (cases input) simp_all
  show "toward zero p t q" by (fact P(4))
qed

lemma totals_done:
  assumes "totals Q zero input p0 amount p 0 tin tout tfee"
  shows "(if input then tin + tfee else tout) = amount" and "fair Q zero p0 tin tout"
    and "0 \<le> tin \<and> 0 \<le> tout \<and> 0 \<le> tfee"
  using assms by (auto simp: totals_def)

end

end
