(* ===== verification/V3_Step.thy ===== *)
theory V3_Step
  imports CL_Math Swap_Curve
begin

text \<open>
  \<open>go/venues/uniswap/v3/local_math.go\<close>: one step of a swap inside one liquidity interval
  (\<open>nextPrice\<close>, \<open>calculateStep\<close>). \<open>sqrtAtTick\<close>, \<open>amountDelta\<close> and \<open>ceilDiv\<close> of that file
  are, character by character, the ones of \<open>go/evm/clliquidity/math.go\<close> in \<open>CL_Math\<close>.
\<close>

section \<open>Definitions\<close>

definition nextPrice :: "int \<Rightarrow> int \<Rightarrow> int \<Rightarrow> bool \<Rightarrow> bool \<Rightarrow> int res" where
  "nextPrice p l a zero input =
     (if l = 0 then Inl (Fail ''liquidity=empty'')
      else if zero = input then
        (let n = push_bit 96 l;
             product = a * p;
             d = (if input then n + product else n - product)
         in if d \<le> 0 then Inl (Fail ''denominator=out_of_range'')
            else if input \<and> (BitLen_gt product 256 \<or> BitLen_gt d 256)
              then ebind (big_Quo n p) (\<lambda>q. ceilDiv n (q + a))
            else ceilDiv (n * p) d)
      else
        (let n = push_bit 96 a
         in if input then ebind (big_Quo n l) (\<lambda>q. Inr (p + q))
            else ebind (ceilDiv n l) (\<lambda>q.
              let result = p - q
              in if result \<le> 0 then Inl (Fail ''sqrt_price=out_of_range'') else Inr result)))"

record localStep =
  price :: int
  in_amount :: int
  out_amount :: int
  fee_amount :: int

definition calculateStep :: "int \<Rightarrow> int \<Rightarrow> int \<Rightarrow> int \<Rightarrow> u32 \<Rightarrow> bool \<Rightarrow> bool \<Rightarrow> localStep res" where
  "calculateStep p target l remaining fee input zero =
     ebind (if input then big_Quo (remaining * uint (1000000 - fee)) 1000000 else Inr remaining) (\<lambda>available.
     ebind (amountDelta p target l (zero = input) input) (\<lambda>needed.
     ebind (if available < needed then nextPrice p l available zero input else Inr target) (\<lambda>next.
     ebind (amountDelta p next l zero True) (\<lambda>i.
     ebind (amountDelta p next l (\<not> zero) False) (\<lambda>out.
     let out = (if \<not> input \<and> out > remaining then remaining else out)
     in ebind (if input \<and> next \<noteq> target then Inr (remaining - i)
               else ceilDiv (i * uint fee) (uint (1000000 - fee))) (\<lambda>charged.
        Inr \<lparr>price = next, in_amount = i, out_amount = out, fee_amount = charged\<rparr>))))))"

section \<open>The step stays on the curve\<close>

abbreviation Q96 :: int where "Q96 \<equiv> 2 ^ 96"

lemma amountDelta_amt:
  "0 < a \<Longrightarrow> 0 < b \<Longrightarrow> 0 \<le> l \<Longrightarrow> amountDelta a b l t up = Inr (amt Q96 a b l t up)"
  by (simp add: amountDelta_eq delta_val_def amt_def delta_num_def delta_den_def cnum_def cden_def)

definition fee_ok :: "u32 \<Rightarrow> bool" where
  "fee_ok fee \<longleftrightarrow> fee < 1000000"

lemma fee_ok_uint:
  "fee_ok fee \<Longrightarrow> 0 \<le> uint fee \<and> uint fee < 1000000 \<and> uint (1000000 - fee) = 1000000 - uint fee"
  by (simp add: fee_ok_def word_less_def uint_sub_if')

text \<open>What the price does when the amount does not reach the target.\<close>

lemma nextPrice_input:
  assumes pos: "0 < p" "0 < t" "0 < l" "0 \<le> a" and l: "l < 2 ^ 128"
    and dir: "if zero then t \<le> p else p \<le> t" and less: "a < amt Q96 p t l zero True"
  shows "\<exists>q. nextPrice p l a zero True = Inr q \<and> 0 < q \<and> q \<noteq> t \<and> toward zero p t q \<and> amt Q96 p q l zero True \<le> a"
proof (cases zero)
  case True
  define N where "N = Q96 * l"
  have N: "0 < N" "N < 2 ^ 256" using pos l by (simp_all add: N_def)
  have a: "a * (t * p) < N * (p - t)"
    using less True dir pos by (simp add: less_amt_up cnum_def cden_def N_def mult_ac)
  have nn: "0 \<le> a * p" using pos by simp
  have nP: "nextPrice p l a zero True = (if BitLen_gt (a * p) 256 \<or> BitLen_gt (N + a * p) 256
      then ebind (big_Quo N p) (\<lambda>q. ceilDiv N (q + a)) else ceilDiv (N * p) (N + a * p))"
  proof -
    have "push_bit 96 l = N" by (simp add: N_def push_bit_eq_mult)
    moreover have "\<not> N + a * p \<le> 0" using nn N by simp
    ultimately show ?thesis using True pos by (simp add: nextPrice_def Let_def)
  qed
  consider (main) "nextPrice p l a zero True = ceilDiv (N * p) (N + a * p)"
    | (fallback) "nextPrice p l a zero True = ebind (big_Quo N p) (\<lambda>q. ceilDiv N (q + a))" "0 < a"
  proof (cases "a = 0")
    case True
    then show ?thesis using nP N main by (simp add: BitLen_gt_def)
  next
    case False
    then show ?thesis using nP pos main fallback by (auto split: if_splits)
  qed
  then obtain q where q: "nextPrice p l a zero True = Inr q" "N * p \<le> q * (N + a * p)" "q \<le> p"
  proof cases
    case main
    then have "nextPrice p l a zero True = Inr (cdiv (N * p) (N + a * p))"
      using N nn pos by (simp add: ceilDiv_pos)
    then show ?thesis using next_zero_input_main [OF N(1) pos(1) pos(4)] that by blast
  next
    case fallback
    have "0 \<le> N div p" using N pos by (simp add: pos_imp_zdiv_nonneg_iff)
    then have "nextPrice p l a zero True = Inr (cdiv N (N div p + a))"
      using fallback N pos by (simp add: big_Quo_pos ceilDiv_pos)
    then show ?thesis using next_zero_input_fallback [OF N(1) pos(1) fallback(2)] that by blast
  qed
  have r: "t < q" "q \<le> p" "N * (p - q) \<le> a * (p * q)"
    using next_zero_input [OF N(1) pos(1,2,4) a q(2,3)] by simp_all
  then have "amt Q96 p q l True True \<le> a"
    using pos by (simp add: amt_up_le cnum_def cden_def N_def mult_ac)
  with q r pos True show ?thesis by (auto simp: toward_def)
next
  case False
  have a: "a * Q96 < l * (t - p)"
    using less False dir pos by (simp add: less_amt_up cnum_def cden_def)
  note r = next_one_input [OF _ pos(3,4) a]
  have "nextPrice p l a zero True = Inr (p + a * Q96 div l)"
    using False pos by (simp add: nextPrice_def Let_def push_bit_eq_mult big_Quo_pos)
  moreover have "amt Q96 p (p + a * Q96 div l) l False True \<le> a"
    using r pos by (simp add: amt_up_le cnum_def cden_def)
  ultimately show ?thesis using False r pos by (auto simp: toward_def)
qed

lemma nextPrice_output:
  assumes pos: "0 < p" "0 < t" "0 < l" "0 \<le> a"
    and dir: "if zero then t \<le> p else p \<le> t" and less: "a < amt Q96 p t l (\<not> zero) False"
  shows "\<exists>q. nextPrice p l a zero False = Inr q \<and> 0 < q \<and> toward zero p t q \<and> a \<le> amt Q96 p q l (\<not> zero) False"
proof (cases zero)
  case True
  have "a + 1 \<le> amt Q96 p t l False False" using less True by simp
  then have "(a + 1) * Q96 \<le> l * (p - t)" using True dir pos by (simp add: le_amt_down cnum_def cden_def)
  then have a: "a * Q96 \<le> l * (p - t)" by simp
  note r = next_zero_output [OF _ pos(3,4) a]
  have "nextPrice p l a zero False = Inr (p - cdiv (a * Q96) l)"
    using True pos r by (simp add: nextPrice_def Let_def push_bit_eq_mult ceilDiv_pos)
  moreover have "a \<le> amt Q96 p (p - cdiv (a * Q96) l) l False False"
    using r pos by (simp add: le_amt_down cnum_def cden_def)
  ultimately show ?thesis using True r pos by (auto simp: toward_def)
next
  case False
  define N where "N = Q96 * l"
  have N: "0 < N" using pos by (simp add: N_def)
  have "a + 1 \<le> amt Q96 p t l True False" using less False by simp
  then have "(a + 1) * (p * t) \<le> N * (t - p)"
    using False dir pos by (simp add: le_amt_down cnum_def cden_def N_def mult_ac)
  moreover have "0 < p * t" using pos by simp
  ultimately have a: "a * (p * t) < N * (t - p)" by (simp add: algebra_simps)
  have le: "p \<le> t" using dir False by simp
  note r = next_one_output [OF N pos(1,2,4) a le]
  have "push_bit 96 l = N" by (simp add: N_def push_bit_eq_mult)
  then have "nextPrice p l a zero False = ceilDiv (N * p) (N - a * p)"
    using False pos r(1) by (simp add: nextPrice_def Let_def)
  then have "nextPrice p l a zero False = Inr (cdiv (N * p) (N - a * p))"
    using N pos r(1) by (simp add: ceilDiv_pos)
  moreover have "a \<le> amt Q96 p (cdiv (N * p) (N - a * p)) l True False"
    using r pos by (simp add: le_amt_down cnum_def cden_def N_def mult_ac)
  ultimately show ?thesis using False r pos by (auto simp: toward_def)
qed

section \<open>The whole step\<close>

lemma reached_fee:
  assumes "fee_ok f" and "0 \<le> i"
  shows "ceilDiv (i * uint f) (uint (1000000 - f)) = Inr (cdiv (i * uint f) (1000000 - uint f))"
    and "0 \<le> cdiv (i * uint f) (1000000 - uint f)"
    and "(i + cdiv (i * uint f) (1000000 - uint f)) * uint f \<le> cdiv (i * uint f) (1000000 - uint f) * 1000000"
proof -
  note f = fee_ok_uint [OF assms(1)]
  then have d: "0 < 1000000 - uint f" by simp
  show "ceilDiv (i * uint f) (uint (1000000 - f)) = Inr (cdiv (i * uint f) (1000000 - uint f))"
    using f assms(2) by (simp add: ceilDiv_pos)
  show "0 \<le> cdiv (i * uint f) (1000000 - uint f)"
    using f assms(2) d by (intro cdiv_nonneg) simp_all
  show "(i + cdiv (i * uint f) (1000000 - uint f)) * uint f \<le> cdiv (i * uint f) (1000000 - uint f) * 1000000"
    using cdiv_mult_ge [OF d, of "i * uint f"] by (simp add: algebra_simps)
qed

text \<open>What is shown of one step, in each of its four cases.\<close>

definition step_facts :: "int \<Rightarrow> int \<Rightarrow> int \<Rightarrow> u32 \<Rightarrow> bool \<Rightarrow> bool \<Rightarrow> localStep \<Rightarrow> bool" where
  "step_facts p t r f zero input st \<longleftrightarrow>
     step_post Q96 p t r zero input (in_amount st, out_amount st, price st, fee_amount st)
     \<and> (in_amount st + fee_amount st) * uint f \<le> fee_amount st * 1000000"

lemma step_input_reached:
  assumes f: "fee_ok f" and pre: "step_pre p t l r zero"
    and le: "amt Q96 p t l zero True \<le> r * (1000000 - uint f) div 1000000"
  shows "\<exists>st. calculateStep p t l r f True zero = Inr st \<and> step_facts p t r f zero True st"
proof -
  have pos: "0 < p" "0 < t" "0 \<le> l" "0 \<le> r" "if zero then t \<le> p else p \<le> t"
    using pre by (simp_all add: step_pre_def)
  define i where "i = amt Q96 p t l zero True"
  have i: "0 \<le> i" using pos by (simp add: i_def amt_nonneg)
  note fee = reached_fee [OF f i] and u = fee_ok_uint [OF f]
  have av: "big_Quo (r * uint (1000000 - f)) 1000000 = Inr (r * (1000000 - uint f) div 1000000)"
    using u pos by (simp add: big_Quo_pos)
  have "calculateStep p t l r f True zero
      = Inr \<lparr>price = t, in_amount = i, out_amount = amt Q96 p t l (\<not> zero) False,
             fee_amount = cdiv (i * uint f) (1000000 - uint f)\<rparr>"
    using pos le av fee(1) by (simp add: calculateStep_def amountDelta_amt i_def Let_def)
  moreover have "i + cdiv (i * uint f) (1000000 - uint f) \<le> r"
    using le u by (intro fee_total_le) (simp_all add: i_def)
  moreover have "fair Q96 zero p i (amt Q96 p t l (\<not> zero) False)"
    unfolding i_def using pos by (intro amt_fair) simp_all
  ultimately show ?thesis
    using fee i pos by (simp add: step_facts_def step_post_def amt_nonneg toward_def)
qed

lemma step_input_partial:
  assumes f: "fee_ok f" and pre: "step_pre p t l r zero"
    and less: "r * (1000000 - uint f) div 1000000 < amt Q96 p t l zero True"
  shows "\<exists>st. calculateStep p t l r f True zero = Inr st \<and> step_facts p t r f zero True st"
proof -
  have pos: "0 < p" "0 < t" "0 \<le> l" "0 \<le> r" "if zero then t \<le> p else p \<le> t" "l < 2 ^ 128"
    using pre by (simp_all add: step_pre_def)
  define a where "a = r * (1000000 - uint f) div 1000000"
  note u = fee_ok_uint [OF f]
  have a: "0 \<le> a" using u pos by (simp add: a_def pos_imp_zdiv_nonneg_iff)
  have l: "0 < l" using less a pos by (cases "l = 0") (auto simp: a_def)
  obtain q where q: "nextPrice p l a zero True = Inr q" "0 < q" "q \<noteq> t" "toward zero p t q"
    "amt Q96 p q l zero True \<le> a"
    using nextPrice_input [OF pos(1,2) l a pos(6,5)] less by (auto simp: a_def)
  define i where "i = amt Q96 p q l zero True"
  have i: "0 \<le> i" "i \<le> a" using pos q by (simp_all add: i_def amt_nonneg)
  then have i6: "i * 1000000 \<le> r * (1000000 - uint f)" by (simp add: a_def le_div_iff_mult_le)
  have av: "big_Quo (r * uint (1000000 - f)) 1000000 = Inr a"
    using u pos by (simp add: big_Quo_pos a_def)
  have "calculateStep p t l r f True zero
      = Inr \<lparr>price = q, in_amount = i, out_amount = amt Q96 p q l (\<not> zero) False, fee_amount = r - i\<rparr>"
    using pos less av q by (simp add: calculateStep_def amountDelta_amt i_def a_def Let_def)
  moreover have dir: "if zero then q \<le> p else p \<le> q" using q(4) by (simp add: toward_def split: if_splits)
  have "fair Q96 zero p i (amt Q96 p q l (\<not> zero) False)"
    unfolding i_def using pos q(2) dir by (intro amt_fair) simp_all
  moreover have "r * uint f \<le> (r - i) * 1000000" using i6 by (simp add: algebra_simps)
  moreover have "0 \<le> r * uint f" using pos u by simp
  then have "i \<le> r" using i6 by (simp add: algebra_simps)
  ultimately show ?thesis
    using i pos q(2-4) by (simp add: step_facts_def step_post_def amt_nonneg)
qed

lemma step_output_reached:
  assumes f: "fee_ok f" and pre: "step_pre p t l r zero"
    and le: "amt Q96 p t l (\<not> zero) False \<le> r"
  shows "\<exists>st. calculateStep p t l r f False zero = Inr st \<and> step_facts p t r f zero False st"
proof -
  have pos: "0 < p" "0 < t" "0 \<le> l" "0 \<le> r" "if zero then t \<le> p else p \<le> t"
    using pre by (simp_all add: step_pre_def)
  define i where "i = amt Q96 p t l zero True"
  have i: "0 \<le> i" using pos by (simp add: i_def amt_nonneg)
  note fee = reached_fee [OF f i]
  have "calculateStep p t l r f False zero
      = Inr \<lparr>price = t, in_amount = i, out_amount = amt Q96 p t l (\<not> zero) False,
             fee_amount = cdiv (i * uint f) (1000000 - uint f)\<rparr>"
    using pos le fee(1) by (simp add: calculateStep_def amountDelta_amt i_def Let_def)
  moreover have "fair Q96 zero p i (amt Q96 p t l (\<not> zero) False)"
    unfolding i_def using pos by (intro amt_fair) simp_all
  ultimately show ?thesis
    using fee i pos le by (simp add: step_facts_def step_post_def amt_nonneg toward_def)
qed

lemma step_output_partial:
  assumes f: "fee_ok f" and pre: "step_pre p t l r zero"
    and less: "r < amt Q96 p t l (\<not> zero) False"
  shows "\<exists>st. calculateStep p t l r f False zero = Inr st \<and> step_facts p t r f zero False st"
proof -
  have pos: "0 < p" "0 < t" "0 \<le> l" "0 \<le> r" "if zero then t \<le> p else p \<le> t"
    using pre by (simp_all add: step_pre_def)
  have l: "0 < l" using less pos by (cases "l = 0") auto
  obtain q where q: "nextPrice p l r zero False = Inr q" "0 < q" "toward zero p t q"
    "r \<le> amt Q96 p q l (\<not> zero) False"
    using nextPrice_output [OF pos(1,2) l pos(4,5) less] by auto
  define i where "i = amt Q96 p q l zero True"
  have i: "0 \<le> i" using pos q by (simp add: i_def amt_nonneg)
  note fee = reached_fee [OF f i]
  have "calculateStep p t l r f False zero
      = Inr \<lparr>price = q, in_amount = i, out_amount = r, fee_amount = cdiv (i * uint f) (1000000 - uint f)\<rparr>"
    using pos less fee(1) q by (auto simp: calculateStep_def amountDelta_amt i_def Let_def)
  moreover have dir: "if zero then q \<le> p else p \<le> q" using q(3) by (simp add: toward_def split: if_splits)
  have "fair Q96 zero p i (amt Q96 p q l (\<not> zero) False)"
    unfolding i_def using pos q(2) dir by (intro amt_fair) simp_all
  then have "fair Q96 zero p i r" using q(4) by (rule fair_le [OF _ order_refl])
  ultimately show ?thesis
    using fee i pos q(3) by (simp add: step_facts_def step_post_def)
qed

lemma calculateStep_facts:
  assumes "fee_ok f" and "step_pre p t l r zero"
  shows "\<exists>st. calculateStep p t l r f input zero = Inr st \<and> step_facts p t r f zero input st"
proof (cases "if input then amt Q96 p t l zero True \<le> r * (1000000 - uint f) div 1000000
              else amt Q96 p t l (\<not> zero) False \<le> r")
  case True
  then show ?thesis
    using step_input_reached [OF assms] step_output_reached [OF assms] by (cases input) simp_all
next
  case False
  then show ?thesis
    using step_input_partial [OF assms] step_output_partial [OF assms] by (cases input) simp_all
qed

text \<open>The venue's step meets the contract that the swap loops rely on.\<close>

definition v3_step :: "int \<Rightarrow> int \<Rightarrow> int \<Rightarrow> int \<Rightarrow> u32 \<Rightarrow> bool \<Rightarrow> bool \<Rightarrow> (int \<times> int \<times> int \<times> int) res" where
  "v3_step p t l r f zero input =
     ebind (calculateStep p t l r f input zero) (\<lambda>st. Inr (in_amount st, out_amount st, price st, fee_amount st))"

interpretation v3: swap_step "2 ^ 96" fee_ok v3_step
proof
  show "(0::int) < 2 ^ 96" by simp
  fix f p t l r zero input res
  assume "fee_ok f" and "step_pre p t l r zero" and run: "v3_step p t l r f zero input = Inr res"
  then obtain st where "calculateStep p t l r f input zero = Inr st" "step_facts p t r f zero input st"
    using calculateStep_facts by blast
  then show "step_post (2 ^ 96) p t r zero input res"
    using run by (auto simp: v3_step_def step_facts_def)
qed

text \<open>
  C4. One swap step (\<open>calculateStep\<close>): for every fee below 100% and every target on the right
  side of a positive price, it succeeds: no division by zero, no spurious error. The
  price moves toward the target and never past it; input and fee stay within what is left of
  an exact input, output within what is left of an exact output, and if the target is not
  reached then what was left is consumed exactly. The output is never worth more than the input
  at the price before the step, and the fee is at least the pool's share of what was paid.
\<close>

theorem calculateStep_correct:
  assumes "f < 1000000" and "0 < p" and "0 < t" and "0 \<le> l" and "l < 2 ^ 128" and "0 \<le> r"
    and "if zero then t \<le> p else p \<le> t"
  shows "\<exists>st. calculateStep p t l r f input zero = Inr st
    \<and> (if zero then t \<le> price st \<and> price st \<le> p else p \<le> price st \<and> price st \<le> t)
    \<and> 0 \<le> in_amount st \<and> 0 \<le> out_amount st \<and> 0 \<le> fee_amount st
    \<and> (if input then in_amount st + fee_amount st \<le> r else out_amount st \<le> r)
    \<and> (price st \<noteq> t \<longrightarrow> (if input then in_amount st + fee_amount st = r else out_amount st = r))
    \<and> (if zero then out_amount st * (2 ^ 96)\<^sup>2 \<le> in_amount st * p\<^sup>2
       else out_amount st * p\<^sup>2 \<le> in_amount st * (2 ^ 96)\<^sup>2)
    \<and> (in_amount st + fee_amount st) * uint f \<le> fee_amount st * 1000000"
  using calculateStep_facts [of f p t l r zero input] assms
  unfolding fee_ok_def step_pre_def step_facts_def step_post_def fair_def toward_def prod.case by blast

theorem calculateStep_correct_witness:
  "\<exists>st. calculateStep (2 ^ 96) (2 ^ 96 - 2 ^ 80) (10 ^ 18) (10 ^ 12) 3000 True True = Inr st
     \<and> in_amount st + fee_amount st \<le> 10 ^ 12"
  using calculateStep_correct [of 3000 "2 ^ 96" "2 ^ 96 - 2 ^ 80" "10 ^ 18" "10 ^ 12" True True] by auto

end
