(* ===== verification/Proc.thy ===== *)
theory Proc
  imports Prelude
begin

text \<open>
  Shared forms of effectful code. A Go function that mutates objects behind pointers and may
  fail is a \<open>proc\<close>: the state survives the error, as it does in Go. Byte slices are lists of
  \<open>8 word\<close>; \<open>SetBytes\<close>, \<open>FillBytes\<close> and the little endian readers of the Solana and Sui
  code are functions on them.
\<close>

section \<open>Stateful procedures\<close>

type_synonym ('s, 'a) proc = "'s \<Rightarrow> 'a res \<times> 's"

definition ret :: "'a \<Rightarrow> ('s, 'a) proc" where
  "ret x = (\<lambda>s. (Inr x, s))"

definition throw :: "failure \<Rightarrow> ('s, 'a) proc" where
  "throw e = (\<lambda>s. (Inl e, s))"

definition lift :: "'a res \<Rightarrow> ('s, 'a) proc" where
  "lift r = (\<lambda>s. (r, s))"

definition andthen :: "('s, 'a) proc \<Rightarrow> ('a \<Rightarrow> ('s, 'b) proc) \<Rightarrow> ('s, 'b) proc" where
  "andthen m f = (\<lambda>s. case m s of (Inl e, s') \<Rightarrow> (Inl e, s') | (Inr x, s') \<Rightarrow> f x s')"

definition reading :: "('s \<Rightarrow> ('s, 'a) proc) \<Rightarrow> ('s, 'a) proc" where
  "reading f = (\<lambda>s. f s s)"

definition update :: "('s \<Rightarrow> 's) \<Rightarrow> ('s, unit) proc" where
  "update f = (\<lambda>s. (Inr (), f s))"

lemma proc_simps [simp]:
  "ret x s = (Inr x, s)"
  "throw e s = (Inl e, s)"
  "lift r s = (r, s)"
  "reading g s = g s s"
  by (simp_all add: ret_def throw_def lift_def reading_def)

lemma update_apply [simp]: "update f s = (Inr (), f s)"
  by (simp add: update_def)

lemma andthen_cases: "andthen m f s = (case m s of (Inl e, s') \<Rightarrow> (Inl e, s') | (Inr x, s') \<Rightarrow> f x s')"
  by (simp add: andthen_def)

lemma andthen_Inr: "m s = (Inr x, s') \<Longrightarrow> andthen m f s = f x s'"
  by (simp add: andthen_def)

lemma andthen_Inl: "m s = (Inl e, s') \<Longrightarrow> andthen m f s = (Inl e, s')"
  by (simp add: andthen_def)

lemma andthen_simps [simp]:
  "andthen (ret x) f = f x"
  "andthen (throw e) f = throw e"
  "andthen (lift (Inr x)) f = f x"
  "andthen (lift (Inl e)) f = throw e"
  "andthen (reading g) f s = andthen (g s) f s"
  by (auto simp: andthen_def fun_eq_iff split: sum.splits)

lemma andthen_update [simp]: "andthen (update u) f s = f () (u s)"
  by (simp add: andthen_def)

lemma andthen_eq_Inr:
  "andthen m f s = (Inr y, s'') \<longleftrightarrow> (\<exists>x s'. m s = (Inr x, s') \<and> f x s' = (Inr y, s''))"
  by (auto simp: andthen_def split: prod.splits sum.splits)

lemma andthen_InrE [elim!]:
  assumes "andthen m f s = (Inr y, s'')"
  obtains x s' where "m s = (Inr x, s')" and "f x s' = (Inr y, s'')"
  using assms by (auto simp: andthen_eq_Inr)

text \<open>Weakest preconditions: what holds of the result and state, and of the error.\<close>

definition outcome :: "('s, 'a) proc \<Rightarrow> 's \<Rightarrow> ('a \<Rightarrow> 's \<Rightarrow> bool) \<Rightarrow> (failure \<Rightarrow> bool) \<Rightarrow> bool" where
  "outcome m s P E \<longleftrightarrow> (case m s of (Inl e, s') \<Rightarrow> E e | (Inr x, s') \<Rightarrow> P x s')"

lemma outcome_basic [simp]:
  "outcome (ret x) s P E \<longleftrightarrow> P x s"
  "outcome (throw e) s P E \<longleftrightarrow> E e"
  "outcome (lift (Inr x)) s P E \<longleftrightarrow> P x s"
  "outcome (lift (Inl e)) s P E \<longleftrightarrow> E e"
  "outcome (reading g) s P E \<longleftrightarrow> outcome (g s) s P E"
  by (auto simp: outcome_def)

lemma outcome_update [simp]: "outcome (update u) s P E \<longleftrightarrow> P () (u s)"
  by (simp add: outcome_def)

lemma outcome_andthen [simp]:
  "outcome (andthen m f) s P E \<longleftrightarrow> outcome m s (\<lambda>x s'. outcome (f x) s' P E) E"
  by (auto simp: outcome_def andthen_def split: sum.splits prod.splits)

lemma outcome_if: "outcome (if c then m else n) s P E \<longleftrightarrow> (if c then outcome m s P E else outcome n s P E)"
  by simp

lemma outcome_lift: "outcome (lift r) s P E \<longleftrightarrow> (case r of Inl e \<Rightarrow> E e | Inr x \<Rightarrow> P x s)"
  by (simp add: outcome_def split: sum.splits)

lemma outcome_mono:
  "outcome m s P E \<Longrightarrow> (\<And>x s'. P x s' \<Longrightarrow> P' x s') \<Longrightarrow> (\<And>e. E e \<Longrightarrow> E' e) \<Longrightarrow> outcome m s P' E'"
  by (auto simp: outcome_def split: sum.splits prod.splits)

lemma outcome_InrD: "outcome m s P E \<Longrightarrow> m s = (Inr x, s') \<Longrightarrow> P x s'"
  by (simp add: outcome_def)

lemma outcome_InlD: "outcome m s P E \<Longrightarrow> m s = (Inl e, s') \<Longrightarrow> E e"
  by (simp add: outcome_def)

section \<open>Byte slices\<close>

type_synonym bytes = "u8 list"

definition be_int :: "bytes \<Rightarrow> int" where
  "be_int bs = foldl (\<lambda>n b. n * 256 + uint b) 0 bs"

fun le_int :: "bytes \<Rightarrow> int" where
  "le_int [] = 0"
| "le_int (b # bs) = uint b + 256 * le_int bs"

fun le_bytes :: "nat \<Rightarrow> int \<Rightarrow> bytes" where
  "le_bytes 0 n = []"
| "le_bytes (Suc k) n = word_of_int (n mod 256) # le_bytes k (n div 256)"

definition be_bytes :: "nat \<Rightarrow> int \<Rightarrow> bytes" where
  "be_bytes k n = rev (le_bytes k n)"

text \<open>\<open>FillBytes\<close> panics when the magnitude does not fit.\<close>

definition FillBytes :: "int \<Rightarrow> nat \<Rightarrow> bytes res" where
  "FillBytes n k = (if 256 ^ k \<le> \<bar>n\<bar> then Inl (Panic ''buffer too small'') else Inr (be_bytes k \<bar>n\<bar>))"

lemma byte_bounds: "0 \<le> uint (b :: u8)" "uint (b :: u8) < 256"
  using uint_bounded [of b] by simp_all

lemma le_int_bounds: "0 \<le> le_int bs \<and> le_int bs < 256 ^ length bs"
proof (induction bs)
  case (Cons b bs)
  then show ?case using byte_bounds [of b] by simp
qed simp

lemma be_int_append: "be_int (xs @ ys) = be_int xs * 256 ^ length ys + be_int ys"
proof (induction ys rule: rev_induct)
  case (snoc y ys)
  then show ?case by (simp add: be_int_def algebra_simps)
qed (simp add: be_int_def)

lemma be_int_rev: "be_int bs = le_int (rev bs)"
proof (induction bs rule: rev_induct)
  case (snoc b bs)
  then show ?case by (simp add: be_int_def)
qed (simp add: be_int_def)

lemma be_int_bounds: "0 \<le> be_int bs \<and> be_int bs < 256 ^ length bs"
  using le_int_bounds [of "rev bs"] by (simp add: be_int_rev)

lemma length_le_bytes [simp]: "length (le_bytes k n) = k"
  by (induction k n rule: le_bytes.induct) simp_all

lemma length_be_bytes [simp]: "length (be_bytes k n) = k"
  by (simp add: be_bytes_def)

lemma le_int_le_bytes: "0 \<le> n \<Longrightarrow> n < 256 ^ k \<Longrightarrow> le_int (le_bytes k n) = n"
proof (induction k n rule: le_bytes.induct)
  case (2 k n)
  have "n div 256 < 256 ^ k" using "2.prems" by (simp add: div_less_iff_less_mult mult.commute)
  then have "le_int (le_bytes k (n div 256)) = n div 256" using 2 by simp
  then show ?case by (simp add: uint_word_of_int)
qed simp

lemma be_int_be_bytes: "0 \<le> n \<Longrightarrow> n < 256 ^ k \<Longrightarrow> be_int (be_bytes k n) = n"
  by (simp add: be_int_rev be_bytes_def le_int_le_bytes)

lemma le_bytes_le_int: "le_bytes (length bs) (le_int bs) = bs"
proof (induction bs)
  case (Cons b bs)
  have "(uint b + 256 * le_int bs) mod 256 = uint b" "(uint b + 256 * le_int bs) div 256 = le_int bs"
    using byte_bounds [of b] by simp_all
  then show ?case using Cons by simp
qed simp

lemma be_bytes_be_int: "be_bytes (length bs) (be_int bs) = bs"
  using le_bytes_le_int [of "rev bs"] by (simp add: be_bytes_def be_int_rev)

lemma be_int_inject: "length xs = length ys \<Longrightarrow> be_int xs = be_int ys \<longleftrightarrow> xs = ys"
  by (metis be_bytes_be_int)

end
