(* ===== verification/Evm_Types.thy ===== *)
theory Evm_Types
  imports Proc
begin

text \<open>
  The data that EVM code of the repository exchanges with its RPC client: hashes and addresses
  as byte slices, the block header of \<open>go/evm/block_header.go\<close>, and the fields of go-ethereum's
  \<open>types.Log\<close> that the sources read.
\<close>

type_synonym Hash = bytes
type_synonym Address = bytes

definition empty_hash :: Hash where
  "empty_hash = replicate 32 0"

definition empty_address :: Address where
  "empty_address = replicate 20 0"

record BlockHeader =
  hNumber :: u64
  hHash :: Hash

record Log =
  lAddress :: Address
  lTopics :: "Hash list"
  lData :: bytes
  lBlockNumber :: u64
  lTxHash :: Hash
  lTxIndex :: u64
  lBlockHash :: Hash
  lIndex :: u64
  lRemoved :: bool

end
