(* ===== verification/Tick_Bitmap.thy ===== *)
theory Tick_Bitmap
  imports Prelude
begin

text \<open>
  Bitmaps of initialized ticks. A word holds one bit for each of 256 consecutive multiples of the tick spacing;
  the EVM and Sui venues look for the next initialized tick in one word at a time, with the same loop
  (\<open>nextTick\<close> in their \<open>state_cache.go\<close>).
\<close>

section \<open>The search\<close>

text \<open>The bit loop of \<open>nextTick\<close>: downwards when selling token 0, upwards otherwise.\<close>

function scan_bits :: "int \<Rightarrow> bool \<Rightarrow> int \<Rightarrow> int option" where
  "scan_bits bitmap zero i =
     (if i < 0 \<or> i > 255 then None
      else if bit bitmap (nat i) then Some i
      else scan_bits bitmap zero (if zero then i - 1 else i + 1))"
  by auto
termination
  by (relation "measure (\<lambda>(bitmap, zero, i). nat (if zero then i + 1 else 256 - i))") auto

definition compress :: "int \<Rightarrow> int \<Rightarrow> int" where
  "compress tick spacing =
     (let c = i32 (tick sdiv spacing) in if tick < 0 \<and> tick smod spacing \<noteq> 0 then i32 (c - 1) else c)"

text \<open>What the search makes of the word and the bit it starts at.\<close>

definition found_tick :: "int \<Rightarrow> bool \<Rightarrow> int \<Rightarrow> int \<Rightarrow> int \<Rightarrow> int \<times> bool" where
  "found_tick bitmap zero word b spacing =
     (case scan_bits bitmap zero b of
        Some i \<Rightarrow> (i32 (i32 (i32 (word * 256) + i) * spacing), True)
      | None \<Rightarrow> (i32 (i32 (i32 (word * 256) + (if zero then 0 else 255)) * spacing), False))"

section \<open>Marked ticks\<close>

text \<open>The ticks that the words of a bitmap mark as initialized.\<close>

definition marked :: "(int \<rightharpoonup> int) \<Rightarrow> int \<Rightarrow> int \<Rightarrow> bool" where
  "marked words sp x \<longleftrightarrow> sp dvd x \<and>
     (case words (x div sp div 256) of None \<Rightarrow> False
      | Some w \<Rightarrow> bit w (nat (x div sp mod 256)))"

declare scan_bits.simps [simp del]

lemma scan_bits_down:
  "i \<le> 255 \<Longrightarrow> case scan_bits bm True i of
     Some j \<Rightarrow> 0 \<le> j \<and> j \<le> i \<and> bit bm (nat j) \<and> (\<forall>k. j < k \<and> k \<le> i \<longrightarrow> \<not> bit bm (nat k))
   | None \<Rightarrow> \<forall>k. 0 \<le> k \<and> k \<le> i \<longrightarrow> \<not> bit bm (nat k)"
proof (induction bm True i rule: scan_bits.induct)
  case (1 bm i)
  show ?case
  proof (cases "i < 0 \<or> bit bm (nat i)")
    case True
    then show ?thesis using "1.prems" by (auto simp: scan_bits.simps [of bm True i])
  next
    case False
    then have step: "scan_bits bm True i = scan_bits bm True (i - 1)"
      using "1.prems" by (simp add: scan_bits.simps [of bm True i])
    have le: "k \<le> i \<longleftrightarrow> k \<le> i - 1 \<or> k = i" for k by linarith
    show ?thesis using "1.hyps" "1.prems" False unfolding step by (auto simp: le split: option.splits)
  qed
qed

lemma scan_bits_up:
  "0 \<le> i \<Longrightarrow> case scan_bits bm False i of
     Some j \<Rightarrow> i \<le> j \<and> j \<le> 255 \<and> bit bm (nat j) \<and> (\<forall>k. i \<le> k \<and> k < j \<longrightarrow> \<not> bit bm (nat k))
   | None \<Rightarrow> \<forall>k. i \<le> k \<and> k \<le> 255 \<longrightarrow> \<not> bit bm (nat k)"
proof (induction bm False i rule: scan_bits.induct)
  case (1 bm i)
  show ?case
  proof (cases "i > 255 \<or> bit bm (nat i)")
    case True
    then show ?thesis using "1.prems" by (auto simp: scan_bits.simps [of bm False i])
  next
    case False
    then have step: "scan_bits bm False i = scan_bits bm False (i + 1)"
      using "1.prems" by (simp add: scan_bits.simps [of bm False i])
    have le: "i \<le> k \<longleftrightarrow> i + 1 \<le> k \<or> k = i" for k by linarith
    show ?thesis using "1.hyps" "1.prems" False unfolding step by (auto simp: le split: option.splits)
  qed
qed

lemma compress_eq:
  assumes "0 < sp" and "\<bar>tick\<bar> \<le> 2000000"
  shows "compress tick sp = tick div sp" and "\<bar>tick div sp\<bar> \<le> 2000001"
proof -
  have n: "tick sdiv sp = (if tick < 0 \<and> tick smod sp \<noteq> 0 then tick div sp + 1 else tick div sp)"
    using go_floor_div_eq [OF assms(1), of tick] by (auto simp: go_floor_div_def split: if_splits)
  have "- 2000000 div sp \<le> tick div sp" "tick div sp \<le> 2000000 div sp"
    using assms by (auto intro!: zdiv_mono1)
  moreover have "2000000 div sp < 2000001" "- 2000000 \<le> - 2000000 div sp"
    using assms(1) by (simp_all add: div_less_iff_less_mult le_div_iff_mult_le)
  ultimately show b: "\<bar>tick div sp\<bar> \<le> 2000001" by linarith
  then show "compress tick sp = tick div sp" by (auto simp: compress_def n Let_def)
qed

text \<open>Positions in the bitmap: the word and the bit of a compressed tick.\<close>

lemma bitmap_position: "drop_bit 8 c = c div (256::int)" "c AND 255 = c mod (256::int)"
proof -
  show "drop_bit 8 c = c div 256" by (simp add: drop_bit_eq_div)
  have "c AND mask 8 = c mod 2 ^ 8" by (simp only: take_bit_eq_mask [symmetric] take_bit_eq_mod)
  then show "c AND 255 = c mod 256" by (simp add: mask_eq_exp_minus_1)
qed

lemma marked_multiple:
  "0 < sp \<Longrightarrow> 0 \<le> j \<Longrightarrow> j < 256 \<Longrightarrow> marked words sp ((w * 256 + j) * sp) \<longleftrightarrow>
     (case words w of None \<Rightarrow> False | Some bm \<Rightarrow> bit bm (nat j))"
proof -
  assume a: "0 < sp" "0 \<le> j" "j < 256"
  then have "(w * 256 + j) * sp div sp = w * 256 + j" by simp
  moreover have "(w * 256 + j) div 256 = w" "(w * 256 + j) mod 256 = j" using a by simp_all
  ultimately show ?thesis by (simp only: marked_def dvd_triv_right simp_thms)
qed

definition nearest :: "(int \<rightharpoonup> int) \<Rightarrow> int \<Rightarrow> int \<Rightarrow> bool \<Rightarrow> int \<Rightarrow> bool \<Rightarrow> bool" where
  "nearest words sp tick zero next initialized \<longleftrightarrow>
     sp dvd next \<and> (if zero then next \<le> tick else tick < next) \<and> \<bar>next - tick\<bar> \<le> 256 * sp
     \<and> (initialized \<longleftrightarrow> marked words sp next)
     \<and> (\<forall>x. (if zero then next < x \<and> x \<le> tick else tick < x \<and> x < next) \<longrightarrow> \<not> marked words sp x)"

lemma nearest_down:
  assumes sp: "0 < sp" and tick: "tick div sp = w * 256 + b" "0 \<le> b" "b < 256"
    and bm: "words w = Some bm"
    and r: "r = (case scan_bits bm True b of Some i \<Rightarrow> ((w * 256 + i) * sp, True)
                 | None \<Rightarrow> (w * 256 * sp, False))"
  shows "nearest words sp tick True (fst r) (snd r)"
proof -
  define sp' where "sp' = sp"
  have t: "(w * 256 + b) * sp' \<le> tick" "tick < (w * 256 + b + 1) * sp'"
    using div_mult_le [OF sp, of tick] less_div_mult [OF sp, of tick] tick by (simp_all add: sp'_def)
  obtain j where j: "0 \<le> j" "j \<le> b" "fst r = (w * 256 + j) * sp'" "snd r \<longleftrightarrow> bit bm (nat j)"
    "\<forall>k. j < k \<and> k \<le> b \<longrightarrow> \<not> bit bm (nat k)"
  proof (cases "scan_bits bm True b")
    case None
    then have "\<forall>k. 0 \<le> k \<and> k \<le> b \<longrightarrow> \<not> bit bm (nat k)" using scan_bits_down [of b bm] tick by simp
    then show ?thesis using None r tick(2) by (intro that [of 0]) (auto simp: sp'_def)
  next
    case (Some i)
    then show ?thesis using scan_bits_down [of b bm] tick r by (intro that [of i]) (auto simp: sp'_def)
  qed
  have set: "marked words sp ((w * 256 + k) * sp') \<longleftrightarrow> bit bm (nat k)" if "0 \<le> k" "k < 256" for k
    using marked_multiple [OF sp that] bm by (simp add: sp'_def)
  have le: "(w * 256 + j) * sp' \<le> (w * 256 + b) * sp'" using j sp by (simp add: sp'_def mult_right_mono)
  have "(w * 256 + b + 1) * sp' \<le> (w * 256 + j + 256) * sp'"
    using j tick sp by (intro mult_right_mono) (simp_all add: sp'_def)
  then have dist: "tick - fst r \<le> 256 * sp'" using t j(3) by (simp add: algebra_simps)
  have none: "\<not> marked words sp x" if x: "fst r < x" "x \<le> tick" for x
  proof
    assume ts: "marked words sp x"
    then obtain y where y: "x = y * sp'" by (auto simp: marked_def sp'_def dvd_def mult.commute)
    have "w * 256 + j < y" using x(1) sp unfolding j(3) y by (simp add: sp'_def mult_less_cancel_right)
    moreover have "y * sp' < (w * 256 + b + 1) * sp'" using x(2) t(2) y by linarith
    then have "y < w * 256 + b + 1" using sp by (simp add: sp'_def mult_less_cancel_right)
    ultimately have k: "0 \<le> y - w * 256" "y - w * 256 < 256" "j < y - w * 256" "y - w * 256 \<le> b"
      using j tick by linarith+
    then show False using set [OF k(1,2)] ts y j(5) by auto
  qed
  have "fst r \<le> tick" using le t j(3) by linarith
  moreover have "snd r \<longleftrightarrow> marked words sp (fst r)" using set [of j] j tick by auto
  ultimately show ?thesis
    using dist none j(3) sp by (auto simp: nearest_def sp'_def)
qed

lemma nearest_up:
  assumes sp: "0 < sp" and tick: "tick div sp + 1 = w * 256 + b" "0 \<le> b" "b < 256"
    and bm: "words w = Some bm"
    and r: "r = (case scan_bits bm False b of Some i \<Rightarrow> ((w * 256 + i) * sp, True)
                 | None \<Rightarrow> ((w * 256 + 255) * sp, False))"
  shows "nearest words sp tick False (fst r) (snd r)"
proof -
  define sp' where "sp' = sp"
  have td: "tick div sp' = w * 256 + b - 1" using tick by (simp add: sp'_def)
  have t: "(w * 256 + b - 1) * sp' \<le> tick" "tick < (w * 256 + b) * sp'"
    using div_mult_le [OF sp, of tick] less_div_mult [OF sp, of tick] td by (simp_all add: sp'_def)
  obtain j where j: "b \<le> j" "j \<le> 255" "fst r = (w * 256 + j) * sp'" "snd r \<longleftrightarrow> bit bm (nat j)"
    "\<forall>k. b \<le> k \<and> k < j \<longrightarrow> \<not> bit bm (nat k)"
  proof (cases "scan_bits bm False b")
    case None
    then have unset: "\<forall>k. b \<le> k \<and> k \<le> 255 \<longrightarrow> \<not> bit bm (nat k)"
      using scan_bits_up [of b bm] tick by simp
    then have "\<not> bit bm (nat 255)" using tick(3) by (auto dest: spec [of _ 255])
    with unset show ?thesis using None r tick(2,3) by (intro that [of 255]) (auto simp: sp'_def)
  next
    case (Some i)
    then show ?thesis using scan_bits_up [of b bm] tick r by (intro that [of i]) (auto simp: sp'_def)
  qed
  have set: "marked words sp ((w * 256 + k) * sp') \<longleftrightarrow> bit bm (nat k)" if "0 \<le> k" "k < 256" for k
    using marked_multiple [OF sp that] bm by (simp add: sp'_def)
  have le: "(w * 256 + b) * sp' \<le> (w * 256 + j) * sp'" using j sp by (simp add: sp'_def mult_right_mono)
  have "(w * 256 + j) * sp' \<le> (w * 256 + b - 1 + 256) * sp'"
    using j tick sp by (intro mult_right_mono) (simp_all add: sp'_def)
  then have dist: "fst r - tick \<le> 256 * sp'" using t j(3) by (simp add: algebra_simps)
  have none: "\<not> marked words sp x" if x: "tick < x" "x < fst r" for x
  proof
    assume ts: "marked words sp x"
    then obtain y where y: "x = y * sp'" by (auto simp: marked_def sp'_def dvd_def mult.commute)
    have "y < w * 256 + j" using x(2) sp unfolding j(3) y by (simp add: sp'_def mult_less_cancel_right)
    moreover have "(w * 256 + b - 1) * sp' < y * sp'" using x(1) t(1) y by linarith
    then have "w * 256 + b - 1 < y" using sp by (simp add: sp'_def mult_less_cancel_right)
    ultimately have k: "0 \<le> y - w * 256" "y - w * 256 < 256" "b \<le> y - w * 256" "y - w * 256 < j"
      using j tick by linarith+
    then show False using set [OF k(1,2)] ts y j(5) by auto
  qed
  have "tick < fst r" using le t j(3) by linarith
  moreover have "snd r \<longleftrightarrow> marked words sp (fst r)" using set [of j] j tick by auto
  ultimately show ?thesis
    using dist none j(3) sp by (auto simp: nearest_def sp'_def)
qed


text \<open>
  The search from a tick within the bounds of any venue: no \<open>int32\<close> operation wraps, the word it reads is close
  to zero, and the tick it finds is the nearest one in the direction of the swap.
\<close>

definition start_bit :: "int \<Rightarrow> bool \<Rightarrow> int \<Rightarrow> int" where
  "start_bit tick zero spacing =
     (let compressed = compress tick spacing in if \<not> zero then i32 (compressed + 1) else compressed)"

lemma start_bit_eq:
  assumes "0 < sp" and "\<bar>tick\<bar> \<le> 2000000"
  shows "start_bit tick zero sp = (if zero then tick div sp else tick div sp + 1)"
    and "\<bar>drop_bit 8 (start_bit tick zero sp)\<bar> \<le> 2000002"
proof -
  note c = compress_eq [OF assms]
  show eq: "start_bit tick zero sp = (if zero then tick div sp else tick div sp + 1)"
    using c by (simp add: start_bit_def Let_def abs_le_iff)
  have "\<bar>start_bit tick zero sp\<bar> \<le> 2000002" using c(2) by (auto simp: eq)
  moreover have "start_bit tick zero sp = drop_bit 8 (start_bit tick zero sp) * 256 + start_bit tick zero sp mod 256"
    by (simp add: bitmap_position)
  moreover have "0 \<le> start_bit tick zero sp mod 256" "start_bit tick zero sp mod 256 < 256" by simp_all
  ultimately show "\<bar>drop_bit 8 (start_bit tick zero sp)\<bar> \<le> 2000002" by (auto simp: abs_le_iff)
qed

lemma found_tick_nearest:
  assumes sp: "0 < sp" "sp \<le> 1000000" and tick: "\<bar>tick\<bar> \<le> 2000000"
    and bm: "words (drop_bit 8 (start_bit tick zero sp)) = Some bm"
    and r: "found_tick bm zero (drop_bit 8 (start_bit tick zero sp)) (start_bit tick zero sp AND 255) sp = (next, initialized)"
  shows "nearest words sp tick zero next initialized"
proof -
  define c where "c = start_bit tick zero sp"
  define w where "w = drop_bit 8 c"
  define j where "j = c AND 255"
  have c: "c = (if zero then tick div sp else tick div sp + 1)" and wb: "\<bar>w\<bar> \<le> 2000002"
    using start_bit_eq [OF sp(1) tick, of zero] by (simp_all add: c_def w_def)
  have cw: "c = w * 256 + j" and j: "0 \<le> j" "j < 256" by (simp_all add: w_def j_def bitmap_position)
  have "tick div sp * sp \<le> tick" "tick < (tick div sp + 1) * sp"
    using div_mult_le [OF sp(1), of tick] less_div_mult [OF sp(1), of tick] by simp_all
  then have cdiv: "\<bar>c * sp\<bar> \<le> 4000000" using tick sp by (auto simp: c algebra_simps abs_le_iff)
  have prod: "\<bar>(w * 256 + i) * sp\<bar> \<le> 4000000 + 255 * 1000000" if "0 \<le> i" "i < 256" for i
  proof -
    have "(w * 256 + i) * sp = c * sp + (i - j) * sp" by (simp add: cw algebra_simps)
    moreover have "\<bar>(i - j) * sp\<bar> \<le> 255 * 1000000"
      using that j sp by (subst abs_mult, intro mult_mono) auto
    ultimately show ?thesis using cdiv by linarith
  qed
  have at: "i32 (i32 (i32 (w * 256) + i) * sp) = (w * 256 + i) * sp" if "0 \<le> i" "i < 256" for i
  proof -
    have "i32 (w * 256) = w * 256" using wb by (intro i32_id) (auto simp: abs_le_iff)
    moreover have "i32 (w * 256 + i) = w * 256 + i" using wb that by (intro i32_id) (auto simp: abs_le_iff)
    moreover have "i32 ((w * 256 + i) * sp) = (w * 256 + i) * sp"
      using prod [OF that] by (intro i32_id) (auto simp: abs_le_iff)
    ultimately show ?thesis by simp
  qed
  have r': "found_tick bm zero w j sp = (next, initialized)" using r by (simp add: c_def w_def j_def)
  have bm': "words w = Some bm" using bm by (simp add: c_def w_def)
  show ?thesis
  proof (cases zero)
    case True
    have "(next, initialized) = (case scan_bits bm True j of Some i \<Rightarrow> ((w * 256 + i) * sp, True)
               | None \<Rightarrow> (w * 256 * sp, False))"
      using scan_bits_down [of j bm] j at at [of 0] True r' by (auto simp: found_tick_def split: option.splits)
    from nearest_down [where words = words and tick = tick, OF sp(1) _ j bm' this] show ?thesis using cw c True by simp
  next
    case False
    have "(next, initialized) = (case scan_bits bm False j of Some i \<Rightarrow> ((w * 256 + i) * sp, True)
               | None \<Rightarrow> ((w * 256 + 255) * sp, False))"
      using scan_bits_up [of j bm] j at at [of 255] False r' by (auto simp: found_tick_def split: option.splits)
    from nearest_up [where words = words and tick = tick, OF sp(1) _ j bm' this] show ?thesis using cw c False by simp
  qed
qed

end
