(* ===== verification/V3_Pool.thy ===== *)
theory V3_Pool
  imports V3_Step Evm_Types Tick_Bitmap
begin

text \<open>
  \<open>go/venues/uniswap/v3\<close>: the pool snapshot and the local swap simulation over it
  (\<open>state_cache.go\<close>: \<open>read\<close>, \<open>nextTick\<close>, \<open>liquidityNet\<close>, \<open>storeTickDetails\<close>, \<open>quote\<close>;
  \<open>quote_gross.go\<close>, \<open>quote_fee.go\<close>).

  The snapshot's maps are caches that \<open>quote\<close> fills through the RPC client while it runs, so
  \<open>quote\<close> is a procedure on the snapshot and on the read budget. A nil map and an empty one
  read alike, and the code creates each map before it writes to it; both are the empty map here.
  The environment holds what is outside the repository: the first four bytes of Keccak-256, the
  answer of \<open>CallContract\<close> for call data at a block, and the context, as the error it reports
  in each turn of the loop.
\<close>

section \<open>State\<close>

record poolSnapshot =
  windowCenter :: int
  windowCaptured :: bool
  sHeader :: BlockHeader
  observed :: int
  received :: int
  sPrice :: int
  sLiquidity :: int
  sTick :: int
  sSpacing :: int
  words :: "int \<rightharpoonup> int"
  ticks :: "int \<rightharpoonup> int"
  gross :: "int \<rightharpoonup> int"

record Env =
  selector :: "string \<Rightarrow> bytes"
  callContract :: "bytes \<Rightarrow> u64 \<Rightarrow> bytes res"
  ctxErr :: "nat \<Rightarrow> failure option"

text \<open>The procedures of this theory work on a snapshot and the remaining read budget.\<close>

type_synonym ('z, 'a) pool_proc = "('z poolSnapshot_scheme \<times> int, 'a) proc"

section \<open>Reading through the cache\<close>

definition errStateReadBudget :: failure where
  "errStateReadBudget = Sentinel ''rpc_budget=exhausted''"

definition encode_arg :: "int option \<Rightarrow> bytes res" where
  "encode_arg arg =
     (case arg of None \<Rightarrow> Inr []
      | Some a \<Rightarrow> FillBytes (if a < 0 then a + power2 256 else a) 32)"

definition read :: "Env \<Rightarrow> string \<Rightarrow> int option \<Rightarrow> ('z, bytes) pool_proc" where
  "read env sig arg =
     reading (\<lambda>(s, budget).
       if budget \<le> 0 then throw errStateReadBudget
       else andthen (update (\<lambda>(s, budget). (s, budget - 1))) (\<lambda>_.
            andthen (lift (encode_arg arg)) (\<lambda>word.
            lift (callContract env (selector env sig @ word) (hNumber (sHeader s))))))"

definition bitmap_at :: "Env \<Rightarrow> int \<Rightarrow> ('z, int) pool_proc" where
  "bitmap_at env word =
     reading (\<lambda>(s, budget). case words s word of
       Some b \<Rightarrow> ret b
     | None \<Rightarrow>
         andthen (read env ''tickBitmap(int16)'' (Some word)) (\<lambda>data.
           if length data \<noteq> 32 then throw (Fail ''result=invalid'')
           else andthen (update (\<lambda>(s, budget). (s\<lparr>words := (words s)(word \<mapsto> be_int data)\<rparr>, budget)))
                  (\<lambda>_. ret (be_int data))))"

definition nextTick :: "Env \<Rightarrow> int \<Rightarrow> bool \<Rightarrow> ('z, int \<times> bool) pool_proc" where
  "nextTick env tick zero =
     reading (\<lambda>(s, budget).
       if sSpacing s = 0 then throw (Panic ''division by zero'')
       else
         (let compressed = compress tick (sSpacing s);
              compressed = (if \<not> zero then i32 (compressed + 1) else compressed);
              word = drop_bit 8 compressed;
              b = compressed AND 255
          in andthen (bitmap_at env word) (\<lambda>bitmap. ret (
               case scan_bits bitmap zero b of
                 Some i \<Rightarrow> (i32 (i32 (i32 (word * 256) + i) * sSpacing s), True)
               | None \<Rightarrow> (i32 (i32 (i32 (word * 256) + (if zero then 0 else 255)) * sSpacing s), False)))))"

definition storeTickDetails :: "'z poolSnapshot_scheme \<Rightarrow> int \<Rightarrow> bytes \<Rightarrow> (int \<times> 'z poolSnapshot_scheme) res" where
  "storeTickDetails s tick data =
     (if length data \<noteq> 256 \<or> be_int (drop 224 data) \<noteq> 1 then Inl (Fail ''result=invalid'')
      else
        (let n = be_int (take 32 (drop 32 data));
             n = (if bit n 255 then n - power2 256 else n)
         in if n < - power2 127 \<or> n \<ge> power2 127 then Inl (Fail ''liquidity_net=out_of_range'')
            else Inr (n, s\<lparr>gross := (gross s)(tick \<mapsto> be_int (take 32 data)), ticks := (ticks s)(tick \<mapsto> n)\<rparr>)))"

definition liquidityNet :: "Env \<Rightarrow> int \<Rightarrow> ('z, int) pool_proc" where
  "liquidityNet env tick =
     reading (\<lambda>(s, budget). case ticks s tick of
       Some n \<Rightarrow> ret n
     | None \<Rightarrow>
         andthen (read env ''ticks(int24)'' (Some tick)) (\<lambda>data.
         reading (\<lambda>(s, budget).
           andthen (lift (storeTickDetails s tick data)) (\<lambda>(n, s').
           andthen (update (\<lambda>(_, budget). (s', budget))) (\<lambda>_. ret n)))))"

section \<open>The swap simulation\<close>

text \<open>
  \<open>quote_loop k\<close> is the loop with \<open>k\<close> of its 2048 turns left. \<open>feeTotal\<close> is accumulated
  beside the result; callers that pass no accumulator ignore it.
\<close>

definition next_target :: "bool \<Rightarrow> int \<Rightarrow> int \<times> int" where
  "next_target zero next =
     (let target = sqrtAtTick next;
          limit = (if zero then sqrtAtTick minTick + 1 else sqrtAtTick maxTick - 1)
      in ((if zero \<and> target < limit \<or> \<not> zero \<and> target > limit then limit else target), limit))"

definition cross_tick :: "Env \<Rightarrow> bool \<Rightarrow> int \<Rightarrow> bool \<Rightarrow> int \<Rightarrow> ('z, int) pool_proc" where
  "cross_tick env zero next initialized l =
     (if initialized then
        andthen (liquidityNet env next) (\<lambda>net.
          let l = (if zero then l - net else l + net)
          in if l < 0 \<or> BitLen_gt l 128 then throw (Fail ''liquidity=out_of_range'') else ret l)
      else ret l)"

primrec quote_loop :: "nat \<Rightarrow> Env \<Rightarrow> u32 \<Rightarrow> bool \<Rightarrow> bool \<Rightarrow> int \<Rightarrow> int \<Rightarrow> int \<Rightarrow> int \<Rightarrow> int \<Rightarrow> int
  \<Rightarrow> ('z, int \<times> int) pool_proc"
where
  "quote_loop 0 env fee zero input remaining result p l tick feeTotal =
     throw (Fail ''liquidity_or_step_budget=insufficient'')"
| "quote_loop (Suc k) env fee zero input remaining result p l tick feeTotal =
     (if remaining \<le> 0 then throw (Fail ''liquidity_or_step_budget=insufficient'')
      else case ctxErr env (2048 - Suc k) of Some e \<Rightarrow> throw e
      | None \<Rightarrow>
        andthen (nextTick env tick zero) (\<lambda>(next, initialized).
        let next = max minTick (min maxTick next);
            (target, limit) = next_target zero next
        in andthen (lift (calculateStep p target l remaining fee input zero)) (\<lambda>step.
        let feeTotal = feeTotal + fee_amount step;
            cost = in_amount step + fee_amount step;
            (remaining, result) =
              (if input then (remaining - cost, result + out_amount step)
               else (remaining - out_amount step, result + cost));
            p = price step
        in if remaining < 0 \<or> BitLen_gt result 256 then throw (Fail ''amount=out_of_range'')
           else if remaining = 0 then ret (result, feeTotal)
           else if p = limit then throw (Fail ''liquidity_or_step_budget=insufficient'')
           else if p = sqrtAtTick next then
             andthen (cross_tick env zero next initialized l) (\<lambda>l.
             quote_loop k env fee zero input remaining result p l
               (if zero then i32 (next - 1) else next) feeTotal)
           else throw (Fail ''incomplete_step=invalid''))))"

definition quote :: "Env \<Rightarrow> u32 \<Rightarrow> int \<Rightarrow> bool \<Rightarrow> bool \<Rightarrow> ('z, int \<times> int) pool_proc" where
  "quote env fee amount zero input =
     reading (\<lambda>(s, budget).
       quote_loop 2048 env fee zero input amount 0 (sPrice s) (sLiquidity s) (sTick s) 0)"

section \<open>The cache only grows, and answers again without the network\<close>

definition extends :: "'z poolSnapshot_scheme \<Rightarrow> 'z poolSnapshot_scheme \<Rightarrow> bool" where
  "extends s s' \<longleftrightarrow>
     s'\<lparr>words := Map.empty, ticks := Map.empty, gross := Map.empty\<rparr> = s\<lparr>words := Map.empty, ticks := Map.empty, gross := Map.empty\<rparr>
     \<and> words s \<subseteq>\<^sub>m words s' \<and> ticks s \<subseteq>\<^sub>m ticks s'"

lemma extends_fields:
  "extends s s' \<Longrightarrow> sSpacing s' = sSpacing s \<and> sPrice s' = sPrice s \<and> sLiquidity s' = sLiquidity s
     \<and> sTick s' = sTick s \<and> sHeader s' = sHeader s"
  by (cases s; cases s') (simp add: extends_def)

lemma extends_refl [simp]: "extends s s"
  by (simp add: extends_def)

lemma extends_trans: "extends s s' \<Longrightarrow> extends s' s'' \<Longrightarrow> extends s s''"
  unfolding extends_def by (auto intro: map_le_trans)

lemma extends_words: "extends s s' \<Longrightarrow> words s w = Some b \<Longrightarrow> words s' w = Some b"
  unfolding extends_def map_le_def by (metis domI)

lemma extends_ticks: "extends s s' \<Longrightarrow> ticks s w = Some b \<Longrightarrow> ticks s' w = Some b"
  unfolding extends_def map_le_def by (metis domI)

text \<open>
  \<open>replays m m'\<close>: when \<open>m\<close> succeeds it has only added to the caches, has not overdrawn the
  budget, and \<open>m'\<close> gives the same result on the snapshot it leaves (and on any larger one)
  without touching snapshot or budget.
\<close>

definition replays :: "('z, 'a) pool_proc \<Rightarrow> ('z, 'a) pool_proc \<Rightarrow> bool" where
  "replays m m' \<longleftrightarrow> (\<forall>s b x s1 b1. m (s, b) = (Inr x, (s1, b1)) \<longrightarrow>
     extends s s1 \<and> b1 \<le> b \<and> min b 0 \<le> b1 \<and> (\<forall>s2 b2. extends s1 s2 \<longrightarrow> m' (s2, b2) = (Inr x, (s2, b2))))"

lemma replaysD:
  assumes "replays m m'" and "m (s, b) = (Inr x, (s1, b1))"
  shows "extends s s1" and "b1 \<le> b" and "min b 0 \<le> b1"
    and "extends s1 s2 \<Longrightarrow> m' (s2, b2) = (Inr x, (s2, b2))"
  using assms unfolding replays_def by blast+

lemma replays_ret [simp]: "replays (ret x) (ret x)"
  by (simp add: replays_def)

lemma replays_throw [simp]: "replays (throw e) m"
  by (simp add: replays_def)

lemma replays_lift [simp]: "replays (lift r) (lift r)"
  by (simp add: replays_def)

lemma replays_andthen:
  assumes m: "replays m m'" and f: "\<And>x. replays (f x) (f' x)"
  shows "replays (andthen m f) (andthen m' f')"
  unfolding replays_def
proof (intro allI impI)
  fix s b x s1 b1
  assume "andthen m f (s, b) = (Inr x, (s1, b1))"
  then obtain y s0 b0 where 1: "m (s, b) = (Inr y, (s0, b0))" and 2: "f y (s0, b0) = (Inr x, (s1, b1))"
    by (auto simp: andthen_eq_Inr)
  note m1 = replaysD [OF m 1] and f1 = replaysD [OF f 2]
  have "andthen m' f' (s2, b2) = (Inr x, (s2, b2))" if "extends s1 s2" for s2 b2
    using m1(4) [OF extends_trans [OF f1(1) that]] f1(4) [OF that] by (simp add: andthen_Inr)
  then show "extends s s1 \<and> b1 \<le> b \<and> min b 0 \<le> b1
      \<and> (\<forall>s2 b2. extends s1 s2 \<longrightarrow> andthen m' f' (s2, b2) = (Inr x, (s2, b2)))"
    using m1(1-3) f1(1-3) extends_trans by auto
qed

lemma replays_if [intro]: "(P \<Longrightarrow> replays m m') \<Longrightarrow> (\<not> P \<Longrightarrow> replays n n') \<Longrightarrow> replays (if P then m else n) (if P then m' else n')"
  by simp

lemma replays_prod:
  "(\<And>x y. replays (f x y) (f' x y)) \<Longrightarrow> replays (case z of (x, y) \<Rightarrow> f x y) (case z of (x, y) \<Rightarrow> f' x y)"
  by (cases z) simp

lemma read_InrD:
  "read env sig arg (s, b) = (Inr data, (s1, b1)) \<Longrightarrow> s1 = s \<and> 0 < b \<and> b1 = b - 1"
  by (auto simp: read_def andthen_eq_Inr split: if_splits)

lemma bitmap_at_replays: "replays (bitmap_at env w) (bitmap_at env' w)"
  unfolding replays_def
proof (intro allI impI)
  fix s b x s1 b1
  assume run: "bitmap_at env w (s, b) = (Inr x, (s1, b1))"
  have "extends s s1 \<and> b1 \<le> b \<and> min b 0 \<le> b1 \<and> words s1 w = Some x"
  proof (cases "words s w")
    case None
    then show ?thesis
      using run by (auto simp: bitmap_at_def andthen_eq_Inr extends_def map_le_def dest!: read_InrD split: if_splits)
  next
    case (Some y)
    then show ?thesis using run by (simp add: bitmap_at_def)
  qed
  then show "extends s s1 \<and> b1 \<le> b \<and> min b 0 \<le> b1
      \<and> (\<forall>s2 b2. extends s1 s2 \<longrightarrow> bitmap_at env' w (s2, b2) = (Inr x, (s2, b2)))"
    using extends_words by (fastforce simp: bitmap_at_def)
qed

lemma nextTick_replays:
  "replays (nextTick env tick zero :: ('z, int \<times> bool) pool_proc) (nextTick env' tick zero)"
  unfolding replays_def
proof (intro allI impI)
  fix s :: "'z poolSnapshot_scheme" and b x s1 b1
  assume run: "nextTick env tick zero (s, b) = (Inr x, (s1, b1))"
  define body :: "Env \<Rightarrow> int \<Rightarrow> ('z, int \<times> bool) pool_proc" where "body = (\<lambda>e sp. let compressed = compress tick sp;
       compressed = (if \<not> zero then i32 (compressed + 1) else compressed);
       word = drop_bit 8 compressed; b = compressed AND 255
     in andthen (bitmap_at e word) (\<lambda>bitmap. ret (case scan_bits bitmap zero b of
          Some i \<Rightarrow> (i32 (i32 (i32 (word * 256) + i) * sp), True)
        | None \<Rightarrow> (i32 (i32 (i32 (word * 256) + (if zero then 0 else 255)) * sp), False))))"
  have nt: "nextTick e tick zero (s', b') = body e (sSpacing s') (s', b')" if "sSpacing s' \<noteq> 0" for e s' b'
    using that by (simp add: nextTick_def body_def)
  have sp: "sSpacing s \<noteq> 0" using run by (auto simp: nextTick_def)
  have r: "replays (body env sp) (body env' sp)" for sp
    unfolding body_def Let_def by (intro replays_andthen bitmap_at_replays replays_ret)
  have "body env (sSpacing s) (s, b) = (Inr x, (s1, b1))" using run nt [OF sp] by simp
  note d = replaysD [OF r this]
  have "nextTick env' tick zero (s2, b2) = (Inr x, (s2, b2))" if "extends s1 s2" for s2 b2
    using d(4) [OF that] extends_fields [OF extends_trans [OF d(1) that]] nt sp by simp
  then show "extends s s1 \<and> b1 \<le> b \<and> min b 0 \<le> b1
      \<and> (\<forall>s2 b2. extends s1 s2 \<longrightarrow> nextTick env' tick zero (s2, b2) = (Inr x, (s2, b2)))"
    using d(1-3) by blast
qed

lemma storeTickDetails_extends:
  "storeTickDetails s tick data = Inr (n, s') \<Longrightarrow> ticks s tick = None \<Longrightarrow> extends s s' \<and> ticks s' tick = Some n"
  by (auto simp: storeTickDetails_def extends_def map_le_def Let_def split: if_splits)

lemma liquidityNet_replays: "replays (liquidityNet env tick) (liquidityNet env' tick)"
  unfolding replays_def
proof (intro allI impI)
  fix s b x s1 b1
  assume run: "liquidityNet env tick (s, b) = (Inr x, (s1, b1))"
  have "extends s s1 \<and> b1 \<le> b \<and> min b 0 \<le> b1 \<and> ticks s1 tick = Some x"
  proof (cases "ticks s tick")
    case None
    then show ?thesis
      using run by (auto simp: liquidityNet_def andthen_eq_Inr dest!: read_InrD storeTickDetails_extends)
  next
    case (Some y)
    then show ?thesis using run by (simp add: liquidityNet_def)
  qed
  then show "extends s s1 \<and> b1 \<le> b \<and> min b 0 \<le> b1
      \<and> (\<forall>s2 b2. extends s1 s2 \<longrightarrow> liquidityNet env' tick (s2, b2) = (Inr x, (s2, b2)))"
    using extends_ticks by (fastforce simp: liquidityNet_def)
qed

lemma cross_tick_replays: "replays (cross_tick env zero nx ini l) (cross_tick env' zero nx ini l)"
  unfolding cross_tick_def Let_def
  by (intro replays_if replays_andthen replays_ret replays_throw liquidityNet_replays)

lemma quote_loop_replays:
  assumes "\<And>n. ctxErr env' n = None"
  shows "replays (quote_loop k env fee zero input r res p l tick ft)
           (quote_loop k env' fee zero input r res p l tick ft)"
proof (induction k arbitrary: r res p l tick ft)
  case (Suc k)
  show ?case
  proof (cases "ctxErr env (2048 - Suc k)")
    case None
    then show ?thesis
      unfolding quote_loop.simps Let_def assms None option.case
      by (intro replays_if replays_prod replays_andthen replays_ret replays_throw replays_lift
          nextTick_replays cross_tick_replays Suc.IH)
  next
    case (Some e)
    then show ?thesis
      unfolding quote_loop.simps Some option.case by (intro replays_if replays_throw)
  qed
qed (simp only: quote_loop.simps replays_throw)

section \<open>The next tick\<close>

text \<open>The ticks that the bitmap words of a snapshot mark as initialized.\<close>

definition tick_set :: "'z poolSnapshot_scheme \<Rightarrow> int \<Rightarrow> bool" where
  "tick_set s = marked (words s) (sSpacing s)"

definition next_ok :: "'z poolSnapshot_scheme \<Rightarrow> int \<Rightarrow> bool \<Rightarrow> int \<Rightarrow> bool \<Rightarrow> bool" where
  "next_ok s = nearest (words s) (sSpacing s)"

text \<open>
  Errors of a sound run: not a panic, and not the internal consistency error of the loop. The
  environment is assumed not to panic itself.
\<close>

definition clean :: "failure \<Rightarrow> bool" where
  "clean e \<longleftrightarrow> e \<noteq> Fail ''incomplete_step=invalid'' \<and> (case e of Panic _ \<Rightarrow> False | _ \<Rightarrow> True)"

definition env_clean :: "Env \<Rightarrow> bool" where
  "env_clean env \<longleftrightarrow> (\<forall>d n e. callContract env d n = Inl e \<longrightarrow> clean e) \<and> (\<forall>n e. ctxErr env n = Some e \<longrightarrow> clean e)"

lemma clean_simps [simp]: "clean (Fail r) \<longleftrightarrow> r \<noteq> ''incomplete_step=invalid''" "clean (Sentinel r)" "\<not> clean (Panic r)"
  by (simp_all add: clean_def)

lemma encode_arg_ok: "\<bar>a\<bar> < 2 ^ 255 \<Longrightarrow> \<exists>w. encode_arg (Some a) = Inr w"
  by (auto simp: encode_arg_def FillBytes_def power2_eq)

lemma read_outcome:
  assumes "env_clean env" and "\<bar>a\<bar> < 2 ^ 255"
  shows "outcome (read env sig (Some a)) (s, b) (\<lambda>_ (s', b'). s' = s) clean"
  using encode_arg_ok [OF assms(2)] assms(1)
  by (auto simp: read_def errStateReadBudget_def outcome_lift env_clean_def split: sum.splits)

lemma bitmap_at_outcome:
  assumes "env_clean env" and "\<bar>w\<bar> < 2 ^ 255"
  shows "outcome (bitmap_at env w) (s, b) (\<lambda>bm (s', b'). words s' w = Some bm \<and> extends s s') clean"
proof (cases "words s w")
  case None
  have "outcome (read env ''tickBitmap(int16)'' (Some w)) (s, b) (\<lambda>_ (s', b'). s' = s) clean"
    using assms by (rule read_outcome)
  then have "outcome (read env ''tickBitmap(int16)'' (Some w)) (s, b)
     (\<lambda>data z. outcome (if length data \<noteq> 32 then throw (Fail ''result=invalid'')
         else andthen (update (\<lambda>(s, budget). (s\<lparr>words := (words s)(w \<mapsto> be_int data)\<rparr>, budget)))
                (\<lambda>_. ret (be_int data))) z (\<lambda>bm (s', b'). words s' w = Some bm \<and> extends s s') clean) clean"
    by (rule outcome_mono) (auto simp: None extends_def map_le_def)
  then show ?thesis by (simp add: bitmap_at_def None)
next
  case (Some y)
  then show ?thesis by (simp add: bitmap_at_def)
qed

lemma storeTickDetails_outcome:
  "case storeTickDetails s tick data of Inl e \<Rightarrow> clean e
   | Inr (n, s') \<Rightarrow> ticks s tick = None \<longrightarrow> extends s s'"
  by (auto simp: storeTickDetails_def extends_def map_le_def Let_def)

lemma liquidityNet_outcome:
  assumes "env_clean env" and "\<bar>tick\<bar> < 2 ^ 255"
  shows "outcome (liquidityNet env tick) (s, b) (\<lambda>n (s', b'). extends s s') clean"
proof (cases "ticks s tick")
  case None
  have "outcome (read env ''ticks(int24)'' (Some tick)) (s, b) (\<lambda>_ (s', b'). s' = s) clean"
    using assms by (rule read_outcome)
  then show ?thesis
    unfolding liquidityNet_def using storeTickDetails_outcome [of s tick] None
    by (fastforce simp: outcome_lift elim!: outcome_mono split: sum.splits prod.splits)
next
  case (Some y)
  then show ?thesis by (simp add: liquidityNet_def)
qed

lemma cross_tick_outcome:
  assumes "env_clean env" and "\<bar>tick\<bar> < 2 ^ 255" and "0 \<le> l" and "l < 2 ^ 128"
  shows "outcome (cross_tick env zero tick ini l) (s, b) (\<lambda>l' (s', b'). extends s s' \<and> 0 \<le> l' \<and> l' < 2 ^ 128) clean"
proof (cases ini)
  case True
  then show ?thesis
    using assms(3,4) unfolding cross_tick_def
    by (auto simp: BitLen_gt_def Let_def intro!: outcome_mono [OF liquidityNet_outcome [OF assms(1,2)]])
next
  case False
  then show ?thesis using assms by (simp add: cross_tick_def)
qed

lemma nextTick_outcome:
  assumes env: "env_clean env" and sp: "0 < sSpacing s" "sSpacing s \<le> 32767" and tick: "\<bar>tick\<bar> \<le> 887273"
  shows "outcome (nextTick env tick zero) (s, b)
    (\<lambda>(next, initialized) (s', b'). extends s s' \<and> next_ok s' tick zero next initialized) clean"
proof -
  let ?sp = "sSpacing s"
  let ?c = "start_bit tick zero ?sp"
  let ?w = "drop_bit 8 ?c"
  let ?res = "\<lambda>bm. found_tick bm zero ?w (?c AND 255) ?sp"
  have tick': "\<bar>tick\<bar> \<le> 2000000" using tick by simp
  have run: "nextTick env tick zero (s, b) = andthen (bitmap_at env ?w) (\<lambda>bm. ret (?res bm)) (s, b)"
    using sp by (simp add: nextTick_def start_bit_def found_tick_def Let_def)
  have "outcome (andthen (bitmap_at env ?w) (\<lambda>bm. ret (?res bm))) (s, b)
    (\<lambda>(next, initialized) (s', b'). extends s s' \<and> next_ok s' tick zero next initialized) clean"
    unfolding outcome_andthen
  proof (rule outcome_mono [OF bitmap_at_outcome [OF env]])
    show "\<bar>?w\<bar> < 2 ^ 255" using start_bit_eq(2) [OF sp(1) tick', of zero] by simp
    fix bm z
    assume "case z of (s', b') \<Rightarrow> words s' ?w = Some bm \<and> extends s s'"
    then obtain s' b' where z: "z = (s', b')" "words s' ?w = Some bm" "extends s s'" by (cases z) auto
    obtain nx ini where r: "?res bm = (nx, ini)" by (cases "?res bm")
    have "nearest (words s') ?sp tick zero nx ini"
      using sp by (intro found_tick_nearest [where words = "words s'", OF _ _ tick' z(2) r]) simp_all
    then show "outcome (ret (?res bm)) z (\<lambda>(next, initialized) (s', b'). extends s s' \<and> next_ok s' tick zero next initialized) clean"
      using z r extends_fields [OF z(3)] by (simp add: next_ok_def nearest_def)
  qed simp
  then show ?thesis unfolding outcome_def run .
qed

text \<open>
  C5. Finding the next tick (\<open>nextTick\<close>): whatever the RPC client answers, a successful search
  returns a multiple of the tick spacing strictly on the right side of the current tick and at
  most one bitmap word away, flags it exactly when its bit is set in the (possibly just read)
  bitmap, and no initialized tick lies in between. No \<open>int32\<close> product wraps.
\<close>

theorem nextTick_correct:
  assumes "0 < sSpacing s" and "sSpacing s \<le> 32767" and "\<bar>tick\<bar> \<le> 887273"
    and "nextTick env tick zero (s, b) = (Inr (next, initialized), (s', b'))" and "env_clean env"
  shows "sSpacing s dvd next \<and> (if zero then next \<le> tick else tick < next) \<and> \<bar>next - tick\<bar> \<le> 256 * sSpacing s
    \<and> (initialized \<longleftrightarrow> tick_set s' next)
    \<and> (\<forall>x. (if zero then next < x \<and> x \<le> tick else tick < x \<and> x < next) \<longrightarrow> \<not> tick_set s' x)
    \<and> words s \<subseteq>\<^sub>m words s'"
proof -
  have e: "extends s s'" and n: "next_ok s' tick zero next initialized"
    using outcome_InrD [OF nextTick_outcome [OF assms(5,1,2,3)] assms(4)] by simp_all
  have "sSpacing s' = sSpacing s" "words s \<subseteq>\<^sub>m words s'" using extends_fields [OF e] e by (simp_all add: extends_def)
  then show ?thesis using n unfolding next_ok_def tick_set_def nearest_def by simp
qed

section \<open>Soundness of the simulation\<close>

text \<open>Price, tick and liquidity between two turns of the loop.\<close>

definition loop_inv :: "int \<Rightarrow> int \<Rightarrow> int \<Rightarrow> bool" where
  "loop_inv p l tick \<longleftrightarrow> sqrtAtTick minTick < p \<and> p < sqrtAtTick maxTick
     \<and> minTick \<le> tick \<and> tick < maxTick \<and> sqrtAtTick tick \<le> p \<and> p \<le> sqrtAtTick (tick + 1)
     \<and> 0 \<le> l \<and> l < 2 ^ 128"

lemma next_target_ok:
  assumes inv: "loop_inv p l tick" and nxt: "if zero then next0 \<le> tick else tick < next0"
    and nx: "next = max minTick (min maxTick next0)" and t: "next_target zero next = (target, limit)"
  shows "0 < target" and "if zero then target \<le> p else p \<le> target"
    and "target \<noteq> limit \<Longrightarrow> target = sqrtAtTick next \<and> minTick < next \<and> next < maxTick"
    and "sqrtAtTick minTick < target" and "target < sqrtAtTick maxTick"
    and "limit = (if zero then sqrtAtTick minTick + 1 else sqrtAtTick maxTick - 1)"
proof -
  have rng: "minTick \<le> next" "next \<le> maxTick" using nx by simp_all
  have dir: "if zero then next \<le> tick else tick + 1 \<le> next"
    using nxt nx inv by (auto simp: loop_inv_def)
  have tk: "minTick \<le> tick" "tick + 1 \<le> maxTick" using inv by (simp_all add: loop_inv_def)
  have mono: "if zero then sqrtAtTick next \<le> p else p \<le> sqrtAtTick next"
  proof (cases zero)
    case True
    then show ?thesis using sqrtAtTick_le [of "next" tick] dir rng tk inv by (simp add: loop_inv_def)
  next
    case False
    then show ?thesis using sqrtAtTick_le [of "tick + 1" "next"] dir rng tk inv by (simp add: loop_inv_def)
  qed
  have lim: "limit = (if zero then sqrtAtTick minTick + 1 else sqrtAtTick maxTick - 1)"
    using t by (simp add: next_target_def Let_def)
  have tgt: "target = (if zero then max (sqrtAtTick next) limit else min (sqrtAtTick next) limit)"
    using t lim by (auto simp: next_target_def Let_def)
  have pp: "sqrtAtTick minTick + 1 \<le> p" "p \<le> sqrtAtTick maxTick - 1"
    using inv by (auto simp: loop_inv_def)
  have r: "sqrtAtTick minTick \<le> sqrtAtTick next" "sqrtAtTick next \<le> sqrtAtTick maxTick"
    using sqrtAtTick_le rng by simp_all
  show "limit = (if zero then sqrtAtTick minTick + 1 else sqrtAtTick maxTick - 1)" by (fact lim)
  show "if zero then target \<le> p else p \<le> target" using tgt lim mono pp by (cases zero) simp_all
  show lo: "sqrtAtTick minTick < target" and hi: "target < sqrtAtTick maxTick"
    using tgt lim r mono pp by (cases zero; simp)+
  then show "0 < target" by (simp add: sqrtAtTick_min)
  assume "target \<noteq> limit"
  then have eq: "target = sqrtAtTick next" using tgt by (simp split: if_splits)
  moreover from eq lo hi have "next \<noteq> minTick" "next \<noteq> maxTick" by auto
  ultimately show "target = sqrtAtTick next \<and> minTick < next \<and> next < maxTick" using rng by simp
qed

lemma loop_inv_crossed:
  assumes "minTick < next" and "next < maxTick" and "0 \<le> l" and "l < 2 ^ 128"
  shows "loop_inv (sqrtAtTick next) l (if zero then i32 (next - 1) else next)"
proof -
  have "sqrtAtTick minTick < sqrtAtTick next" "sqrtAtTick next < sqrtAtTick maxTick"
    using sqrtAtTick_less assms by simp_all
  moreover have "sqrtAtTick next \<le> sqrtAtTick (next + 1)" "sqrtAtTick (next - 1) \<le> sqrtAtTick next"
    using sqrtAtTick_le [of "next" "next + 1"] sqrtAtTick_le [of "next - 1" "next"] assms by simp_all
  moreover have "i32 (next - 1) = next - 1" using assms by (intro i32_id) simp_all
  ultimately show ?thesis using assms by (auto simp: loop_inv_def)
qed

definition quote_post :: "u32 \<Rightarrow> bool \<Rightarrow> bool \<Rightarrow> int \<Rightarrow> int \<Rightarrow> int \<Rightarrow> int \<Rightarrow> bool" where
  "quote_post fee zero input p0 amount result ft \<longleftrightarrow>
     0 \<le> ft \<and> (if input then ft \<le> amount \<and> 0 \<le> result \<and> amount * uint fee \<le> ft * 1000000
                   \<and> fair Q96 zero p0 (amount - ft) result
                else ft \<le> result \<and> result * uint fee \<le> ft * 1000000 \<and> fair Q96 zero p0 (result - ft) amount)"

definition carried :: "u32 \<Rightarrow> bool \<Rightarrow> bool \<Rightarrow> int \<Rightarrow> int \<Rightarrow> int \<Rightarrow> int \<Rightarrow> int \<Rightarrow> int \<Rightarrow> bool" where
  "carried fee zero input p0 amount p r result ft \<longleftrightarrow>
     (\<exists>i out. totals Q96 zero input p0 amount p r i out ft \<and> (i + ft) * uint fee \<le> ft * 1000000
        \<and> result = (if input then out else i + ft))"

lemma carried_start: "0 < p \<Longrightarrow> 0 \<le> amount \<Longrightarrow> carried fee zero input p amount p amount 0 0"
  unfolding carried_def using totals_start [of p amount] by (intro exI [of _ 0]) simp

lemma carried_done: "carried fee zero input p0 amount p 0 result ft \<Longrightarrow> quote_post fee zero input p0 amount result ft"
  unfolding carried_def
  by (cases input) (auto simp: quote_post_def dest: v3.totals_done simp: totals_def)

lemma carried_step:
  assumes car: "carried fee zero input p0 amount p r result ft" and p0: "0 < p0" and f: "fee_ok fee"
    and pre: "step_pre p t l r zero" and run: "calculateStep p t l r fee input zero = Inr st"
  shows "carried fee zero input p0 amount (price st)
      (if input then r - (in_amount st + fee_amount st) else r - out_amount st)
      (if input then result + out_amount st else result + (in_amount st + fee_amount st)) (ft + fee_amount st)"
    and "price st \<noteq> t \<Longrightarrow> (if input then r - (in_amount st + fee_amount st) else r - out_amount st) = 0"
proof -
  obtain i out where tot: "totals Q96 zero input p0 amount p r i out ft"
    and rate: "(i + ft) * uint fee \<le> ft * 1000000" and result: "result = (if input then out else i + ft)"
    using car by (auto simp: carried_def)
  have v: "v3_step p t l r fee zero input = Inr (in_amount st, out_amount st, price st, fee_amount st)"
    by (simp add: v3_step_def run)
  have "(in_amount st + fee_amount st) * uint fee \<le> fee_amount st * 1000000"
    using calculateStep_facts [OF f pre, of input] run by (auto simp: step_facts_def)
  with rate have "((i + in_amount st) + (ft + fee_amount st)) * uint fee \<le> (ft + fee_amount st) * 1000000"
    by (simp add: algebra_simps)
  with v3.totals_step(1) [OF tot p0 f pre v] result
  show "carried fee zero input p0 amount (price st)
      (if input then r - (in_amount st + fee_amount st) else r - out_amount st)
      (if input then result + out_amount st else result + (in_amount st + fee_amount st)) (ft + fee_amount st)"
    unfolding carried_def
    by (intro exI [of _ "i + in_amount st"] exI [of _ "out + out_amount st"]) auto
  show "price st \<noteq> t \<Longrightarrow> (if input then r - (in_amount st + fee_amount st) else r - out_amount st) = 0"
    by (rule v3.totals_step(2) [OF tot p0 f pre v])
qed

lemma quote_loop_outcome:
  fixes s :: "'z poolSnapshot_scheme"
  assumes env: "env_clean env" and f: "fee_ok fee" and p0: "0 < p0"
  shows "0 < sSpacing s \<Longrightarrow> sSpacing s \<le> 32767 \<Longrightarrow> loop_inv p l tick \<Longrightarrow> carried fee zero input p0 amount p r result ft \<Longrightarrow>
    outcome (quote_loop k env fee zero input r result p l tick ft) (s, b)
      (\<lambda>(res, fees) _. quote_post fee zero input p0 amount res fees) clean"
proof (induction k arbitrary: s b r result p l tick ft)
  case (Suc k)
  note sp = Suc.prems(1,2) and inv = Suc.prems(3) and car = Suc.prems(4)
  show ?case
  proof (cases "r \<le> 0 \<or> ctxErr env (2048 - Suc k) \<noteq> None")
    case True
    then show ?thesis using env by (auto simp: env_clean_def)
  next
    case False
    have tick: "\<bar>tick\<bar> \<le> 887273" using inv by (auto simp: loop_inv_def)
    let ?post = "\<lambda>(res, fees) _. quote_post fee zero input p0 amount res fees"
    define rest :: "int \<times> bool \<Rightarrow> ('z, int \<times> int) pool_proc" where "rest = (\<lambda>(next, initialized).
        let next = max minTick (min maxTick next);
            (target, limit) = next_target zero next
        in andthen (lift (calculateStep p target l r fee input zero)) (\<lambda>step.
        let feeTotal = ft + fee_amount step;
            cost = in_amount step + fee_amount step;
            (remaining, result) =
              (if input then (r - cost, result + out_amount step)
               else (r - out_amount step, result + cost));
            p = price step
        in if remaining < 0 \<or> BitLen_gt result 256 then throw (Fail ''amount=out_of_range'')
           else if remaining = 0 then ret (result, feeTotal)
           else if p = limit then throw (Fail ''liquidity_or_step_budget=insufficient'')
           else if p = sqrtAtTick next then
             andthen (cross_tick env zero next initialized l) (\<lambda>l.
             quote_loop k env fee zero input remaining result p l
               (if zero then i32 (next - 1) else next) feeTotal)
           else throw (Fail ''incomplete_step=invalid'')))"
    have run: "quote_loop (Suc k) env fee zero input r result p l tick ft
        = andthen (nextTick env tick zero) rest"
      using False by (simp add: rest_def not_le)
    have "outcome (rest (next0, initialized)) (s', b') ?post clean"
      if ext: "extends s s'" and nok: "next_ok s' tick zero next0 initialized" for next0 initialized s' b'
    proof -
      define nx where "nx = max minTick (min maxTick next0)"
      obtain t lim where tl: "next_target zero nx = (t, lim)" by (cases "next_target zero nx")
      have dir: "if zero then next0 \<le> tick else tick < next0" using nok by (simp add: next_ok_def nearest_def)
      note tgt = next_target_ok [OF inv dir nx_def tl]
      have pre: "step_pre p t l r zero"
        using tgt(1,2) inv car by (auto simp: step_pre_def loop_inv_def carried_def totals_def)
      obtain st where st: "calculateStep p t l r fee input zero = Inr st"
        using calculateStep_facts [OF f pre] by blast
      define r' where "r' = (if input then r - (in_amount st + fee_amount st) else r - out_amount st)"
      define res' where "res' = (if input then result + out_amount st else result + (in_amount st + fee_amount st))"
      have car': "carried fee zero input p0 amount (price st) r' res' (ft + fee_amount st)"
        and hit: "price st \<noteq> t \<Longrightarrow> r' = 0"
        using carried_step [OF car p0 f pre st] unfolding r'_def res'_def by blast+
      have pair: "(if input then (r - (in_amount st + fee_amount st), result + out_amount st)
               else (r - out_amount st, result + (in_amount st + fee_amount st))) = (r', res')"
        by (simp add: r'_def res'_def)
      have rest: "rest (next0, initialized) =
          (if r' < 0 \<or> BitLen_gt res' 256 then throw (Fail ''amount=out_of_range'')
           else if r' = 0 then ret (res', ft + fee_amount st)
           else if price st = lim then throw (Fail ''liquidity_or_step_budget=insufficient'')
           else if price st = sqrtAtTick nx then
             andthen (cross_tick env zero nx initialized l) (\<lambda>l.
             quote_loop k env fee zero input r' res' (price st) l
               (if zero then i32 (nx - 1) else nx) (ft + fee_amount st))
           else throw (Fail ''incomplete_step=invalid''))"
        unfolding rest_def prod.case Let_def nx_def [symmetric] tl st andthen_simps pair by (rule refl)
      show ?thesis
      proof (cases "r' < 0 \<or> BitLen_gt res' 256 \<or> r' = 0 \<or> price st = lim")
        case True
        moreover have "quote_post fee zero input p0 amount res' (ft + fee_amount st)" if "r' = 0"
          by (rule carried_done [OF car' [unfolded that]])
        ultimately show ?thesis unfolding rest by (elim disjE) simp_all
      next
        case False
        then have "price st = t" "t \<noteq> lim" using hit by auto
        then have nx: "price st = sqrtAtTick nx" "minTick < nx" "nx < maxTick" using tgt(3) by auto
        have sp': "0 < sSpacing s'" "sSpacing s' \<le> 32767" using sp extends_fields [OF ext] by simp_all
        have cross: "outcome (quote_loop k env fee zero input r' res' (price st) l'
               (if zero then i32 (nx - 1) else nx) (ft + fee_amount st)) (s'', b'') ?post clean"
          if l': "0 \<le> l'" "l' < 2 ^ 128" and ext': "extends s' s''" for l' s'' b''
          using Suc.IH [OF _ _ loop_inv_crossed [OF nx(2,3) l', of zero] car' [unfolded nx(1)]]
            sp' extends_fields [OF ext'] unfolding nx(1) by simp
        have l: "0 \<le> l" "l < 2 ^ 128" using inv by (simp_all add: loop_inv_def)
        have tb: "\<bar>nx\<bar> < 2 ^ 255" using nx by (simp add: abs_less_iff)
        have "outcome (andthen (cross_tick env zero nx initialized l) (\<lambda>l.
             quote_loop k env fee zero input r' res' (price st) l
               (if zero then i32 (nx - 1) else nx) (ft + fee_amount st))) (s', b') ?post clean"
          unfolding outcome_andthen
        proof (rule outcome_mono [OF cross_tick_outcome [OF env tb l]])
          fix l' :: int and z :: "'z poolSnapshot_scheme \<times> int"
          assume z: "case z of (s'', b'') \<Rightarrow> extends s' s'' \<and> 0 \<le> l' \<and> l' < 2 ^ 128"
          obtain s'' b'' where eq: "z = (s'', b'')" by (cases z)
          show "outcome (quote_loop k env fee zero input r' res' (price st) l'
               (if zero then i32 (nx - 1) else nx) (ft + fee_amount st)) z ?post clean"
            unfolding eq by (rule cross) (use z eq in auto)
        qed simp
        then show ?thesis using False nx(1) unfolding rest by simp
      qed
    qed
    then show ?thesis
      unfolding run outcome_andthen
      by (intro outcome_mono [OF nextTick_outcome [OF env sp tick]]) auto
  qed
qed simp

text \<open>A snapshot that a pool can be in: price strictly inside its tick, and within the price range.\<close>

definition sane :: "'z poolSnapshot_scheme \<Rightarrow> bool" where
  "sane s \<longleftrightarrow> 0 < sSpacing s \<and> sSpacing s \<le> 32767 \<and> loop_inv (sPrice s) (sLiquidity s) (sTick s)"

lemma quote_outcome:
  assumes "env_clean env" and "fee < 1000000" and "sane s" and "0 \<le> amount"
  shows "outcome (quote env fee amount zero input) (s, b)
     (\<lambda>(res, ft) _. quote_post fee zero input (sPrice s) amount res ft) clean"
proof -
  have p: "0 < sPrice s" and inv: "loop_inv (sPrice s) (sLiquidity s) (sTick s)"
    and sp: "0 < sSpacing s" "sSpacing s \<le> 32767"
    using assms(3) by (auto simp: sane_def loop_inv_def sqrtAtTick_min)
  have f: "fee_ok fee" using assms(2) by (simp add: fee_ok_def)
  show ?thesis
    unfolding quote_def outcome_basic prod.case
    by (rule quote_loop_outcome [OF assms(1) f p sp inv carried_start [OF p assms(4)]])
qed

text \<open>
  C6. A local quote (\<open>quote\<close>) never promises more than the pool can give. For a consistent
  snapshot, a fee below 100% and any answers of the RPC client, an exact input quote that
  succeeds consumes the amount exactly, its fee is at least the pool's rate of the amount, and
  the output is not worth more, at the price the swap starts from, than the input net of the
  fee; symmetrically for an exact output. A quote that fails fails with an error value: it never panics,
  and the consistency check that guards the loop ("incomplete_step") is never reached.
\<close>

theorem quote_sound:
  assumes "env_clean env" and "fee < 1000000" and "sane s" and "0 \<le> amount"
  shows "case fst (quote env fee amount zero input (s, budget)) of
     Inr (result, feeTotal) \<Rightarrow>
       0 \<le> feeTotal \<and>
       (if input then feeTotal \<le> amount \<and> 0 \<le> result \<and> amount * uint fee \<le> feeTotal * 1000000
           \<and> (if zero then result * (2 ^ 96)\<^sup>2 \<le> (amount - feeTotal) * (sPrice s)\<^sup>2
              else result * (sPrice s)\<^sup>2 \<le> (amount - feeTotal) * (2 ^ 96)\<^sup>2)
        else feeTotal \<le> result \<and> result * uint fee \<le> feeTotal * 1000000
           \<and> (if zero then amount * (2 ^ 96)\<^sup>2 \<le> (result - feeTotal) * (sPrice s)\<^sup>2
              else amount * (sPrice s)\<^sup>2 \<le> (result - feeTotal) * (2 ^ 96)\<^sup>2))
   | Inl e \<Rightarrow> e \<noteq> Fail ''incomplete_step=invalid'' \<and> \<not> panics (Inl e :: int res)"
proof -
  obtain r z where rz: "quote env fee amount zero input (s, budget) = (r, z)" by (metis surj_pair)
  note out = quote_outcome [OF assms, of zero input budget, unfolded outcome_def rz, simplified]
  show ?thesis
  proof (cases r)
    case (Inl e)
    with out have "clean e" by simp
    with Inl rz show ?thesis by (auto simp: clean_def panics_def split: failure.splits)
  next
    case (Inr x)
    then obtain res ft where x: "r = Inr (res, ft)" by (cases x) simp
    then have "quote_post fee zero input (sPrice s) amount res ft" using out by simp
    then show ?thesis unfolding rz x quote_post_def fair_def fst_conv sum.case prod.case .
  qed
qed

text \<open>
  Quotes are reproducible without the network. What a successful \<open>quote\<close> leaves in the
  snapshot is enough: the same quote on it gives the same result with no read budget, whatever
  the RPC client would answer now, and changes nothing. The budget is never overdrawn
  and the caches only grow. This is what lets a retained snapshot answer \<open>QuoteRetainedPair\<close>.
\<close>

lemma quote_reproducible:
  assumes "quote env fee amount zero input (s, b) = (Inr r, (s', b'))"
    and "\<And>n. ctxErr env' n = None"
  shows "quote env' fee amount zero input (s', b2) = (Inr r, (s', b2))
    \<and> b' \<le> b \<and> min b 0 \<le> b' \<and> words s \<subseteq>\<^sub>m words s' \<and> ticks s \<subseteq>\<^sub>m ticks s'"
proof -
  have run: "quote_loop 2048 env fee zero input amount 0 (sPrice s) (sLiquidity s) (sTick s) 0 (s, b) = (Inr r, (s', b'))"
    using assms(1) by (simp add: quote_def)
  note rep = replaysD [OF quote_loop_replays [OF assms(2)] run]
  have "quote env' fee amount zero input (s', b2) = (Inr r, (s', b2))"
    using rep(4) [OF extends_refl] extends_fields [OF rep(1)] by (simp add: quote_def)
  then show ?thesis using rep(1-3) by (simp add: extends_def)
qed

section \<open>Witnesses\<close>

text \<open>A pool at price 1 with one interval of liquidity and a client that always fails.\<close>

definition offline :: Env where
  "offline = \<lparr>selector = (\<lambda>_. [0, 0, 0, 0]), callContract = (\<lambda>_ _. Inl (Fail ''rpc=down'')), ctxErr = (\<lambda>_. None)\<rparr>"

definition sample_pool :: poolSnapshot where
  "sample_pool = \<lparr>windowCenter = 0, windowCaptured = False, sHeader = \<lparr>hNumber = 7, hHash = empty_hash\<rparr>,
     observed = 0, received = 0, sPrice = 2 ^ 96 + 2 ^ 80, sLiquidity = 10 ^ 18, sTick = 0, sSpacing = 60,
     words = (\<lambda>w. if w = 0 then Some 2 else if w = - 1 then Some (2 ^ 255) else None),
     ticks = [60 \<mapsto> - (10 ^ 18), - 60 \<mapsto> 10 ^ 18], gross = [60 \<mapsto> 10 ^ 18, - 60 \<mapsto> 10 ^ 18]\<rparr>"

lemma offline_clean: "env_clean offline"
  by (simp add: env_clean_def offline_def)

lemma sample_sane: "sane sample_pool"
  by (simp add: sane_def loop_inv_def sample_pool_def sqrtAtTick_0 sqrtAtTick_1 sqrtAtTick_min sqrtAtTick_max)

lemma quote_one_turn:
  assumes "nextTick env (sTick s) zero (s, b) = (Inr (nx, ini), z)" and "ctxErr env 0 = None" and "0 < amount"
    and "next_target zero (max minTick (min maxTick nx)) = (t, lim)"
    and "calculateStep (sPrice s) t (sLiquidity s) amount fee input zero = Inr st"
    and "(if input then in_amount st + fee_amount st else out_amount st) = amount"
    and "\<not> BitLen_gt (if input then out_amount st else in_amount st + fee_amount st) 256"
  shows "quote env fee amount zero input (s, b)
    = (Inr (if input then out_amount st else in_amount st + fee_amount st, fee_amount st), z)"
proof -
  have two: "(2048 :: nat) = Suc 2047" by simp
  have cut: "(2048 - Suc 2047 :: nat) = 0" by simp
  show ?thesis
    using assms unfolding quote_def proc_simps prod.case two quote_loop.simps cut
    by (cases input) (simp_all add: andthen_Inr Let_def)
qed

lemma sample_next_up: "nextTick offline 0 False (sample_pool, b) = (Inr (60, True), (sample_pool, b))"
proof -
  have scan: "scan_bits 2 False 1 = Some 1" and cmp: "compress 0 60 = 0" and word: "drop_bit 8 (1::int) = 0"
    and bits: "(1::int) AND 255 = 1"
    by code_simp+
  have "words sample_pool 0 = Some 2" "sSpacing sample_pool = 60" by (simp_all add: sample_pool_def)
  then show ?thesis by (simp add: nextTick_def bitmap_at_def scan cmp word bits)
qed

lemma sample_next_down: "nextTick offline 0 True (sample_pool, b) = (Inr (0, False), (sample_pool, b))"
proof -
  have scan: "scan_bits 2 True 0 = None" and cmp: "compress 0 60 = 0" by code_simp+
  have "words sample_pool 0 = Some 2" "sSpacing sample_pool = 60" by (simp_all add: sample_pool_def)
  then show ?thesis by (simp add: nextTick_def bitmap_at_def scan cmp)
qed

lemma sample_bid:
  "quote offline 3000 1000000 False True (sample_pool, b) = (Inr (996969, 3000), (sample_pool, b))"
  "quote offline 0 1000000 False True (sample_pool, b) = (Inr (999969, 0), (sample_pool, b))"
proof -
  have t: "next_target False 60 = (sqrtAtTick 60, sqrtAtTick maxTick - 1)" by code_simp
  have 1: "calculateStep (2 ^ 96 + 2 ^ 80) (sqrtAtTick 60) (10 ^ 18) 1000000 3000 True False
      = Inr \<lparr>price = 79229371440162942700745378056, in_amount = 997000, out_amount = 996969, fee_amount = 3000\<rparr>"
    by code_simp
  have 2: "calculateStep (2 ^ 96 + 2 ^ 80) (sqrtAtTick 60) (10 ^ 18) 1000000 0 True False
      = Inr \<lparr>price = 79229371440163180385232920849, in_amount = 1000000, out_amount = 999969, fee_amount = 0\<rparr>"
    by code_simp
  note turn = quote_one_turn [of offline sample_pool False b 60 True "(sample_pool, b)" 1000000
      "sqrtAtTick 60" "sqrtAtTick maxTick - 1" _ True]
  show "quote offline 3000 1000000 False True (sample_pool, b) = (Inr (996969, 3000), (sample_pool, b))"
    using turn [of 3000] 1 t sample_next_up by (simp add: sample_pool_def offline_def BitLen_gt_def)
  show "quote offline 0 1000000 False True (sample_pool, b) = (Inr (999969, 0), (sample_pool, b))"
    using turn [of 0] 2 t sample_next_up by (simp add: sample_pool_def offline_def BitLen_gt_def)
qed

lemma sample_ask:
  "quote offline 3000 1000000 True False (sample_pool, b) = (Inr (1002979, 3009), (sample_pool, b))"
  "quote offline 0 1000000 True False (sample_pool, b) = (Inr (999970, 0), (sample_pool, b))"
proof -
  have t: "next_target True 0 = (sqrtAtTick 0, sqrtAtTick minTick + 1)" by code_simp
  have 1: "calculateStep (2 ^ 96 + 2 ^ 80) (sqrtAtTick 0) (10 ^ 18) 1000000 3000 False True
      = Inr \<lparr>price = 79229371440004724060204392174, in_amount = 999970, out_amount = 1000000, fee_amount = 3009\<rparr>"
    by code_simp
  have 2: "calculateStep (2 ^ 96 + 2 ^ 80) (sqrtAtTick 0) (10 ^ 18) 1000000 0 False True
      = Inr \<lparr>price = 79229371440004724060204392174, in_amount = 999970, out_amount = 1000000, fee_amount = 0\<rparr>"
    by code_simp
  note turn = quote_one_turn [of offline sample_pool True b 0 False "(sample_pool, b)" 1000000
      "sqrtAtTick 0" "sqrtAtTick minTick + 1" _ False]
  show "quote offline 3000 1000000 True False (sample_pool, b) = (Inr (1002979, 3009), (sample_pool, b))"
    using turn [of 3000] 1 t sample_next_down by (simp add: sample_pool_def offline_def BitLen_gt_def)
  show "quote offline 0 1000000 True False (sample_pool, b) = (Inr (999970, 0), (sample_pool, b))"
    using turn [of 0] 2 t sample_next_down by (simp add: sample_pool_def offline_def BitLen_gt_def)
qed

theorem nextTick_correct_witness: "(60::int) dvd 60 \<and> tick_set sample_pool 60"
  using nextTick_correct [OF _ _ _ sample_next_up [of 0] offline_clean] by (simp add: sample_pool_def)

theorem quote_sound_witness:
  "996969 * (2 ^ 96 + 2 ^ 80)\<^sup>2 \<le> (1000000 - 3000) * ((2 ^ 96)\<^sup>2 :: int)"
  using quote_sound [OF offline_clean _ sample_sane, of 3000 1000000 False True 0] sample_bid(1) [of 0]
  by (simp add: sample_pool_def)

lemma quote_reproducible_witness:
  "quote offline 3000 1000000 False True (sample_pool, - 5) = (Inr (996969, 3000), (sample_pool, - 5))"
  using quote_reproducible [OF sample_bid(1), of offline] by (simp add: offline_def)

section \<open>Quotes of a frozen snapshot\<close>

text \<open>
  \<open>QuoteSnapshot\<close> methods work on a private clone with a zero read budget. The first context
  check is the argument \<open>ctx\<close>. \<open>retainedQuoteError\<close> only rewords an exhausted budget into
  missing coverage and keeps the sentinel, so it is the identity on \<open>failure\<close>.
\<close>

record GrossPair =
  gpBidAmountOut :: int
  gpAskAmountIn :: int
  gpBidFeeAmount :: int
  gpAskFeeAmount :: int

record GrossExactInput =
  geAmountOut :: int
  geNetAmountOut :: int
  geFeeAmount :: int

definition frozen :: "failure option \<Rightarrow> poolSnapshot option \<Rightarrow> int option \<Rightarrow> (poolSnapshot \<Rightarrow> int \<Rightarrow> 'a res) \<Rightarrow> 'a res" where
  "frozen ctx retained amount calc =
     (case amount of None \<Rightarrow> Inl (Fail ''amount=out_of_range'')
      | Some a \<Rightarrow>
        if a \<le> 0 \<or> BitLen_gt a 255 then Inl (Fail ''amount=out_of_range'')
        else case ctx of Some e \<Rightarrow> Inl e
        | None \<Rightarrow> (case retained of None \<Rightarrow> Inl (Fail ''snapshot=null'') | Some s \<Rightarrow> calc s a))"

definition QuoteGrossPair :: "Env \<Rightarrow> failure option \<Rightarrow> u32 \<Rightarrow> poolSnapshot option \<Rightarrow> int option \<Rightarrow> bool \<Rightarrow> GrossPair res" where
  "QuoteGrossPair env ctx fee retained amount baseIsToken0 =
     frozen ctx retained amount (\<lambda>s a. fst (
       andthen (quote env fee a baseIsToken0 True) (\<lambda>(_, bidFee).
       andthen (quote env fee a (\<not> baseIsToken0) False) (\<lambda>(_, askFee).
       andthen (update (\<lambda>(s, _). (s, 0))) (\<lambda>_.
       andthen (quote env 0 a baseIsToken0 True) (\<lambda>(bid, _).
       andthen (quote env 0 a (\<not> baseIsToken0) False) (\<lambda>(ask, _).
       ret \<lparr>gpBidAmountOut = bid, gpAskAmountIn = ask, gpBidFeeAmount = bidFee, gpAskFeeAmount = askFee\<rparr>))))) (s, 0)))"

definition QuoteGrossExactInput :: "Env \<Rightarrow> failure option \<Rightarrow> u32 \<Rightarrow> poolSnapshot option \<Rightarrow> int option \<Rightarrow> bool \<Rightarrow> GrossExactInput res" where
  "QuoteGrossExactInput env ctx fee retained amount inputIsToken0 =
     frozen ctx retained amount (\<lambda>s a. fst (
       andthen (quote env fee a inputIsToken0 True) (\<lambda>(net, feeAmount).
       andthen (update (\<lambda>(s, _). (s, 0))) (\<lambda>_.
       andthen (quote env 0 a inputIsToken0 True) (\<lambda>(bid, _).
       ret \<lparr>geAmountOut = bid, geNetAmountOut = net, geFeeAmount = feeAmount\<rparr>))) (s, 0)))"

definition SwapFeePPM :: "u32 \<Rightarrow> poolSnapshot option \<Rightarrow> u32 res" where
  "SwapFeePPM fee retained =
     (case retained of None \<Rightarrow> Inl (Fail ''snapshot=null'')
      | Some s \<Rightarrow> if (ucast fee :: u64) \<ge> 1000000 then Inl (Fail ''fee=out_of_range'') else Inr (ucast (ucast fee :: u64)))"

lemma SwapFeePPM_ok: "SwapFeePPM fee (Some s) = (if fee_ok fee then Inr fee else Inl (Fail ''fee=out_of_range''))"
proof -
  have u: "uint (ucast fee :: u64) = uint fee" by (simp add: uint_up_ucast is_up)
  have "ucast (ucast fee :: u64) = fee" by (simp add: ucast_up_ucast_id is_up)
  then show ?thesis by (auto simp: SwapFeePPM_def fee_ok_def word_le_def word_less_def u)
qed

lemma quote_InrD:
  assumes "env_clean env" and "fee < 1000000" and "sane s" and "0 \<le> amount"
    and run: "quote env fee amount zero input (s, b) = (Inr (res, ft), z)"
  shows "quote_post fee zero input (sPrice s) amount res ft" and "sane (fst z)" and "sPrice (fst z) = sPrice s"
proof -
  obtain s' b' where z: "z = (s', b')" by (cases z)
  show "quote_post fee zero input (sPrice s) amount res ft"
    using outcome_InrD [OF quote_outcome [OF assms(1-4)] run] by simp
  have loop: "quote_loop 2048 env fee zero input amount 0 (sPrice s) (sLiquidity s) (sTick s) 0 (s, b) = (Inr (res, ft), (s', b'))"
    using run z by (simp add: quote_def)
  have "\<And>n. ctxErr (env\<lparr>ctxErr := \<lambda>_. None\<rparr>) n = None" by simp
  from replaysD(1) [OF quote_loop_replays [OF this] loop] have "extends s s'" .
  then show "sane (fst z)" "sPrice (fst z) = sPrice s"
    using assms(3) extends_fields [of s s'] by (simp_all add: z sane_def)
qed

lemma fair_bid_ask:
  assumes "0 < p" and "fair Q96 zero p a bid" and "fair Q96 (\<not> zero) p ask a"
  shows "bid \<le> ask"
proof (cases zero)
  case True
  then have "bid * Q96\<^sup>2 \<le> ask * Q96\<^sup>2" using assms unfolding fair_def by auto
  then show ?thesis by (simp add: mult_le_cancel_right)
next
  case False
  then have "bid * p\<^sup>2 \<le> ask * p\<^sup>2"
    using assms order_trans [of "bid * p\<^sup>2" "a * Q96\<^sup>2" "ask * p\<^sup>2"] unfolding fair_def by simp
  then show ?thesis using assms(1) by (simp add: mult_le_cancel_right)
qed

text \<open>
  C7. Bid and ask of a frozen snapshot (\<open>QuoteGrossPair\<close>) never cross, even before fees: what
  selling the base amount pays is at most what buying the same amount costs. The two fees
  are at least the pool's rate.
\<close>

theorem QuoteGrossPair_no_crossing:
  assumes "env_clean env" and "fee < 1000000" and "sane s"
    and "QuoteGrossPair env ctx fee (Some s) (Some a) baseIsToken0 = Inr g"
  shows "gpBidAmountOut g \<le> gpAskAmountIn g \<and> 0 \<le> gpBidFeeAmount g \<and> 0 \<le> gpAskFeeAmount g
    \<and> a * uint fee \<le> gpBidFeeAmount g * 1000000"
proof -
  let ?z = baseIsToken0
  have a: "0 < a"
    using assms(4) by (auto simp: QuoteGrossPair_def frozen_def split: if_splits option.splits)
  then have a0: "0 \<le> a" by simp
  from assms(4) obtain n1 bf z1 n2 af z2 bid f3 z3 ask f4 z4 where
      1: "quote env fee a ?z True (s, 0) = (Inr (n1, bf), z1)"
      and 2: "quote env fee a (\<not> ?z) False z1 = (Inr (n2, af), z2)"
      and 3: "quote env 0 a ?z True (fst z2, 0) = (Inr (bid, f3), z3)"
      and 4: "quote env 0 a (\<not> ?z) False z3 = (Inr (ask, f4), z4)"
      and g: "g = \<lparr>gpBidAmountOut = bid, gpAskAmountIn = ask, gpBidFeeAmount = bf, gpAskFeeAmount = af\<rparr>"
  proof -
    define run :: "(poolSnapshot \<times> int, GrossPair) proc" where "run = andthen (quote env fee a ?z True) (\<lambda>(_, bidFee).
       andthen (quote env fee a (\<not> ?z) False) (\<lambda>(_, askFee).
       andthen (update (\<lambda>(s, _). (s, 0))) (\<lambda>_.
       andthen (quote env 0 a ?z True) (\<lambda>(bid, _).
       andthen (quote env 0 a (\<not> ?z) False) (\<lambda>(ask, _).
       ret \<lparr>gpBidAmountOut = bid, gpAskAmountIn = ask, gpBidFeeAmount = bidFee, gpAskFeeAmount = askFee\<rparr>)))))"
    have "fst (run (s, 0)) = Inr g"
      using assms(4) by (auto simp: QuoteGrossPair_def frozen_def run_def split: if_splits option.splits)
    then obtain z where "run (s, 0) = (Inr g, z)" by (metis prod.collapse)
    then show ?thesis
      unfolding run_def by (fastforce simp: case_prod_beta intro: that)
  qed
  obtain s1 b1 where z1: "z1 = (s1, b1)" by (cases z1)
  obtain s3 b3 where z3: "z3 = (s3, b3)" by (cases z3)
  note q1 = quote_InrD [OF assms(1,2,3) a0 1]
  note q2 = quote_InrD [OF assms(1,2) q1(2) [unfolded z1 fst_conv] a0 2 [unfolded z1]]
  have zero_fee: "(0 :: u32) < 1000000" by simp
  note q3 = quote_InrD [OF assms(1) zero_fee q2(2) a0 3]
  note q4 = quote_InrD [OF assms(1) zero_fee q3(2) [unfolded z3 fst_conv] a0 4 [unfolded z3]]
  have p: "0 < sPrice s" using assms(3) by (auto simp: sane_def loop_inv_def sqrtAtTick_min)
  have same: "sPrice (fst z2) = sPrice s" "sPrice s3 = sPrice s"
    using q1(3) q2(3) q3(3) by (simp_all add: z1 z3)
  have "fair Q96 ?z (sPrice s) (a - f3) bid" "0 \<le> f3"
    using q3(1) by (simp_all add: quote_post_def same)
  then have "fair Q96 ?z (sPrice s) a bid" by (auto intro: fair_le)
  moreover have "fair Q96 (\<not> ?z) (sPrice s) (ask - f4) a" "0 \<le> f4"
    using q4(1) by (simp_all add: quote_post_def same)
  then have "fair Q96 (\<not> ?z) (sPrice s) ask a" by (auto intro: fair_le)
  ultimately have "bid \<le> ask" by (rule fair_bid_ask [OF p])
  then show ?thesis using q1(1) q2(1) by (simp add: g quote_post_def)
qed

theorem QuoteGrossPair_no_crossing_witness:
  "\<exists>g. QuoteGrossPair offline None 3000 (Some sample_pool) (Some 1000000) False = Inr g \<and> gpBidAmountOut g \<le> gpAskAmountIn g"
proof -
  have "QuoteGrossPair offline None 3000 (Some sample_pool) (Some 1000000) False
      = Inr \<lparr>gpBidAmountOut = 999969, gpAskAmountIn = 999970, gpBidFeeAmount = 3000, gpAskFeeAmount = 3009\<rparr>"
    by (simp add: QuoteGrossPair_def frozen_def BitLen_gt_def andthen_def sample_bid sample_ask)
  from QuoteGrossPair_no_crossing [OF offline_clean _ sample_sane this] this show ?thesis by simp
qed

end
