(* ===== verification/Evm_Observation.thy ===== *)
theory Evm_Observation
  imports Evm_Types "HOL-Library.AList"
begin

text \<open>
  \<open>go/internal/evmobservation\<close>: the bounded journal of applied logs (\<open>journal.go\<close>) and the proof
  that an idle pool has not missed a log (\<open>progress.go\<close>).

  A Go map is an association list with distinct keys; a range over the map visits it in the
  order of the list, and every statement below holds for every list, hence for every order.
  SHA-256 and the RPC client are parameters. \<open>readFailure\<close> is a constructor of the error type,
  because \<open>Run\<close> tests for it.
\<close>

section \<open>A bounded journal\<close>

text \<open>
  What the clients of a bounded first-in first-out table rely on. The table of applied logs and
  the table of live notifications in the venue packages both meet this contract.
\<close>

definition most_recent :: "nat \<Rightarrow> 'a list \<Rightarrow> 'a list" where
  "most_recent limit xs = drop (length xs - limit) xs"

locale bounded_table =
  fixes limit :: nat
    and inv :: "'j \<Rightarrow> bool"
    and keys :: "'j \<Rightarrow> 'k list"
    and lookup :: "'j \<Rightarrow> 'k \<rightharpoonup> 'v"
    and add :: "'k \<Rightarrow> 'v \<Rightarrow> 'j \<Rightarrow> 'j"
  assumes limit_pos: "0 < limit"
    and inv_keys: "inv j \<Longrightarrow> distinct (keys j) \<and> set (keys j) = dom (lookup j) \<and> length (keys j) \<le> limit"
    and inv_add: "inv j \<Longrightarrow> inv (add k v j)"
    and keys_add: "inv j \<Longrightarrow> lookup j k = None \<Longrightarrow>
          keys (add k v j) = (if length (keys j) = limit then tl (keys j) else keys j) @ [k]"
    and lookup_add: "inv j \<Longrightarrow> lookup j k = None \<Longrightarrow>
          lookup (add k v j) k' = (if k' = k then Some v else if k' \<in> set (keys (add k v j)) then lookup j k' else None)"
begin

lemma add_found: "inv j \<Longrightarrow> lookup j k = None \<Longrightarrow> lookup (add k v j) k = Some v"
  by (simp add: lookup_add)

text \<open>Adding new identities one after the other keeps exactly the most recent ones.\<close>

lemma inv_fold: "inv j \<Longrightarrow> inv (fold (\<lambda>(k, v). add k v) kvs j)"
  by (induction kvs arbitrary: j) (auto simp: inv_add)

lemma recent_snoc:
  "length (most_recent limit xs) \<le> limit" 
  "most_recent limit (xs @ [x]) = (if length (most_recent limit xs) = limit then tl (most_recent limit xs) else most_recent limit xs) @ [x]"
proof -
  show "length (most_recent limit xs) \<le> limit" by (simp add: most_recent_def)
  show "most_recent limit (xs @ [x]) = (if length (most_recent limit xs) = limit then tl (most_recent limit xs) else most_recent limit xs) @ [x]"
  proof (cases "limit \<le> length xs")
    case True
    then have "Suc (length xs) - limit = Suc (length xs - limit)" by simp
    with True limit_pos show ?thesis by (simp add: most_recent_def tl_drop drop_Suc)
  next
    case False
    then show ?thesis by (simp add: most_recent_def)
  qed
qed

lemma keys_fold:
  assumes "inv j" and "keys j = most_recent limit ks0" and "distinct (ks0 @ map fst kvs)"
  shows "keys (fold (\<lambda>(k, v). add k v) kvs j) = most_recent limit (ks0 @ map fst kvs)"
  using assms
proof (induction kvs arbitrary: j ks0)
  case Nil
  then show ?case by simp
next
  case (Cons kv kvs)
  obtain k v where kv: "kv = (k, v)" by (cases kv)
  have "k \<notin> set (keys j)"
    using Cons.prems set_drop_subset [of _ ks0] by (auto simp: kv most_recent_def)
  then have new: "lookup j k = None" using inv_keys [OF Cons.prems(1)] by auto
  have "keys (add k v j) = most_recent limit (ks0 @ [k])"
    using keys_add [OF Cons.prems(1) new, of v] Cons.prems(2) recent_snoc(2) [of ks0 k] by simp
  then show ?case
    using Cons.IH [OF inv_add [OF Cons.prems(1)], of k v "ks0 @ [k]"] Cons.prems(3) kv by simp
qed

lemma lookup_fold:
  assumes "inv j" and "keys j = most_recent limit (map fst kvs0)" and "distinct (map fst (kvs0 @ kvs))"
    and "\<And>k. lookup j k = (if k \<in> set (keys j) then map_of kvs0 k else None)"
  shows "lookup (fold (\<lambda>(k, v). add k v) kvs j) k =
     (if k \<in> set (most_recent limit (map fst (kvs0 @ kvs))) then map_of (kvs0 @ kvs) k else None)"
  using assms
proof (induction kvs arbitrary: j kvs0)
  case Nil
  then show ?case by simp
next
  case (Cons kv kvs)
  obtain x v where kv: "kv = (x, v)" by (cases kv)
  have x: "x \<notin> set (map fst kvs0)" using Cons.prems(3) kv by simp
  then have "x \<notin> set (keys j)"
    using Cons.prems(2) set_drop_subset [of _ "map fst kvs0"] by (auto simp: most_recent_def)
  then have new: "lookup j x = None" using inv_keys [OF Cons.prems(1)] by auto
  have ks: "keys (add x v j) = most_recent limit (map fst (kvs0 @ [(x, v)]))"
    using keys_add [OF Cons.prems(1) new, of v] Cons.prems(2) recent_snoc(2) [of "map fst kvs0" x] by simp
  have look: "lookup (add x v j) y = (if y \<in> set (keys (add x v j)) then map_of (kvs0 @ [(x, v)]) y else None)" for y
  proof -
    have "x \<in> set (keys (add x v j))" using keys_add [OF Cons.prems(1) new, of v] by simp
    moreover have "y \<in> set (keys j)" if "y \<in> set (keys (add x v j))" "y \<noteq> x"
      using that keys_add [OF Cons.prems(1) new, of v] by (cases "keys j") (auto split: if_splits)
    moreover have "map_of kvs0 x = None" using x by (simp add: map_of_eq_None_iff)
    ultimately show ?thesis
      using Cons.prems(4) [of y] lookup_add [OF Cons.prems(1) new, of v y]
      by (auto simp: map_add_def split: option.splits)
  qed
  show ?case
    using Cons.IH [OF inv_add [OF Cons.prems(1)], of x v "kvs0 @ [(x, v)]"] ks look Cons.prems(3) kv by simp
qed

end

section \<open>journal.go\<close>

type_synonym logKey = "u64 \<times> Hash \<times> u64"
type_synonym Evidence = "(logKey \<times> bytes) list"

record Journal =
  seen :: Evidence
  queue :: "logKey list"

definition key_of :: "Log \<Rightarrow> logKey" where
  "key_of log = (lBlockNumber log, lBlockHash log, lIndex log)"

definition fingerprint :: "(bytes \<Rightarrow> bytes) \<Rightarrow> Log \<Rightarrow> bytes" where
  "fingerprint sha256 log =
     sha256 (lAddress log @ lTxHash log @ be_bytes 8 (uint (lTxIndex log))
       @ be_bytes 8 (int (length (lTopics log))) @ concat (lTopics log) @ lData log)"

definition journal_add :: "logKey \<Rightarrow> bytes \<Rightarrow> Journal \<Rightarrow> Journal" where
  "journal_add key digest j =
     (let j = (if map_of (seen j) key = None then
                 (let j = (if length (queue j) = 4096
                           then j\<lparr>seen := AList.delete (hd (queue j)) (seen j), queue := tl (queue j)\<rparr> else j)
                  in j\<lparr>queue := queue j @ [key]\<rparr>)
               else j)
      in j\<lparr>seen := AList.update key digest (seen j)\<rparr>)"

definition Record :: "(bytes \<Rightarrow> bytes) \<Rightarrow> Log \<Rightarrow> Journal \<Rightarrow> Journal" where
  "Record sha256 log j = (if lRemoved log then j else journal_add (key_of log) (fingerprint sha256 log) j)"

definition contains :: "(bytes \<Rightarrow> bytes) \<Rightarrow> Evidence \<Rightarrow> Log \<Rightarrow> bool" where
  "contains sha256 e log \<longleftrightarrow> map_of e (key_of log) = Some (fingerprint sha256 log)"

definition empty_journal :: Journal where
  "empty_journal = \<lparr>seen = [], queue = []\<rparr>"

definition journal_inv :: "Journal \<Rightarrow> bool" where
  "journal_inv j \<longleftrightarrow> distinct (map fst (seen j)) \<and> distinct (queue j)
     \<and> set (queue j) = fst ` set (seen j) \<and> length (queue j) \<le> 4096"

lemma map_of_delete: "map_of (AList.delete k al) = (map_of al)(k := None)"
  by (simp add: AList.delete_conv')

lemma map_of_update: "map_of (AList.update k v al) = (map_of al)(k \<mapsto> v)"
  by (simp add: AList.update_conv')

lemma journal_add_inv:
  assumes "journal_inv j"
  shows "journal_inv (journal_add k v j)"
proof (cases "map_of (seen j) k")
  case (Some d)
  then have "k \<in> fst ` set (seen j)" by (metis domI dom_map_of_conv_image_fst)
  with Some assms show ?thesis
    by (auto simp: journal_add_def journal_inv_def Let_def AList.distinct_update AList.update_keys
        map_of_update dom_map_of_conv_image_fst [symmetric])
next
  case None
  then have new: "k \<notin> fst ` set (seen j)" by (simp add: map_of_eq_None_iff)
  show ?thesis
  proof (cases "length (queue j) = 4096")
    case True
    then obtain q qs where q: "queue j = q # qs" by (cases "queue j") auto
    have "distinct (q # qs)" "set (q # qs) = fst ` set (seen j)" "distinct (map fst (seen j))" "Suc (length qs) = 4096"
      using assms q True by (simp_all add: journal_inv_def)
    moreover have "fst ` set (AList.delete q (seen j)) = set qs"
      using calculation by (auto simp: AList.delete_keys dom_map_of_conv_image_fst [symmetric] map_of_delete)
    ultimately show ?thesis
      using None new q True
      by (auto simp: journal_add_def journal_inv_def Let_def AList.distinct_update AList.distinct_delete
          dom_map_of_conv_image_fst [symmetric] map_of_update)
  next
    case False
    then show ?thesis
      using None new assms
      by (auto simp: journal_add_def journal_inv_def Let_def AList.distinct_update
          dom_map_of_conv_image_fst [symmetric] map_of_update)
  qed
qed

lemma journal_add_new:
  assumes "journal_inv j" and "map_of (seen j) k = None"
  shows "queue (journal_add k v j) = (if length (queue j) = 4096 then tl (queue j) else queue j) @ [k]"
    and "map_of (seen (journal_add k v j)) =
      (if length (queue j) = 4096 then (map_of (seen j))(hd (queue j) := None) else map_of (seen j))(k \<mapsto> v)"
  using assms(2) by (simp_all add: journal_add_def Let_def map_of_update map_of_delete)

interpretation journal: bounded_table 4096 journal_inv queue "\<lambda>j. map_of (seen j)" journal_add
proof
  show "(0::nat) < 4096" by simp
  fix j k v k'
  assume inv: "journal_inv j"
  then show "distinct (queue j) \<and> set (queue j) = dom (map_of (seen j)) \<and> length (queue j) \<le> 4096"
    by (simp add: journal_inv_def dom_map_of_conv_image_fst)
  then have dom: "distinct (queue j)" "set (queue j) = dom (map_of (seen j))" by simp_all
  show "journal_inv (journal_add k v j)" using inv by (rule journal_add_inv)
  assume new: "map_of (seen j) k = None"
  show "queue (journal_add k v j) = (if length (queue j) = 4096 then tl (queue j) else queue j) @ [k]"
    by (rule journal_add_new(1) [OF inv new])
  show "map_of (seen (journal_add k v j)) k' =
     (if k' = k then Some v else if k' \<in> set (queue (journal_add k v j)) then map_of (seen j) k' else None)"
  proof (cases "length (queue j) = 4096")
    case True
    then obtain q qs where q: "queue j = q # qs" by (cases "queue j") auto
    show ?thesis
      using dom new True q unfolding journal_add_new [OF inv new] by (auto simp: domIff fun_eq_iff)
  next
    case False
    then show ?thesis using dom new unfolding journal_add_new [OF inv new] by (auto simp: domIff fun_eq_iff)
  qed
qed

section \<open>progress.go\<close>

record Cursor =
  cBlock :: u64
  cHash :: Hash
  cIndex :: u64
  cHasLog :: bool

record ObsState =
  oBaseline :: Cursor
  oCursor :: Cursor
  oEpoch :: u64
  oRevision :: u64
  oReceivedAt :: int

record Progress =
  pState :: ObsState
  pAt :: int

definition ConfirmedAt :: "Progress \<Rightarrow> ObsState \<Rightarrow> int" where
  "ConfirmedAt p state =
     (if pState p = state \<and> pAt p > oReceivedAt state then pAt p else oReceivedAt state)"

text \<open>\<open>HeaderByNumber\<close> is asked three times; its answers may differ, so it takes the number of the call.\<close>

record ProofRPC =
  LatestHeader :: "BlockHeader res"
  HeaderByNumber :: "nat \<Rightarrow> u64 \<Rightarrow> BlockHeader res"
  FilterLogs :: "u64 \<Rightarrow> u64 \<Rightarrow> Log list res"
  ctxEnd :: "failure option"

datatype proof_error = ReadFailure string | Inconsistent string

definition evidence_read :: "'a res \<Rightarrow> proof_error + 'a" where
  "evidence_read r = (case r of Inl _ \<Rightarrow> Inl (ReadFailure ''rpc'') | Inr x \<Rightarrow> Inr x)"

definition check_header :: "ProofRPC \<Rightarrow> nat \<Rightarrow> u64 \<Rightarrow> Hash \<Rightarrow> proof_error + unit" where
  "check_header rpc call number hash =
     ebind (evidence_read (HeaderByNumber rpc call number)) (\<lambda>h.
     ensure (\<not> (hNumber h \<noteq> number \<or> hHash h \<noteq> hash)) (Inconsistent ''block_hash=mismatch'') (Inr ()))"

text \<open>The loop over the filtered logs: \<open>Inr None\<close> is the early return without progress.\<close>

fun check_logs :: "(bytes \<Rightarrow> bytes) \<Rightarrow> Evidence \<Rightarrow> Cursor \<Rightarrow> u64 \<Rightarrow> u64 \<Rightarrow> Log list \<Rightarrow> Evidence
  \<Rightarrow> proof_error + Evidence option"
where
  "check_logs sha applied cursor from head [] canonical = Inr (Some canonical)"
| "check_logs sha applied cursor from head (log # logs) canonical =
     (if lRemoved log \<or> lBlockHash log = empty_hash \<or> lBlockNumber log < from \<or> lBlockNumber log > head
      then Inl (Inconsistent ''log=invalid'')
      else if lBlockNumber log = cBlock cursor \<and> lBlockHash log \<noteq> cHash cursor
      then Inl (Inconsistent ''block_hash=mismatch'')
      else if \<not> contains sha applied log then Inr None
      else check_logs sha applied cursor from head logs
             (AList.update (key_of log) (fingerprint sha log) canonical))"

fun check_applied :: "Evidence \<Rightarrow> u64 \<Rightarrow> u64 \<Rightarrow> Evidence \<Rightarrow> proof_error + bool" where
  "check_applied canonical from head [] = Inr True"
| "check_applied canonical from head ((key, digest) # rest) =
     (if fst key > head then Inr False
      else if fst key \<ge> from \<and> map_of canonical key \<noteq> Some digest
      then Inl (Inconsistent ''applied_log=mismatch'')
      else check_applied canonical from head rest)"

definition zero_cursor :: Cursor where
  "zero_cursor = \<lparr>cBlock = 0, cHash = empty_hash, cIndex = 0, cHasLog = False\<rparr>"

text \<open>The part of \<open>Prove\<close> that follows the choice of the range.\<close>

definition prove_range :: "(bytes \<Rightarrow> bytes) \<Rightarrow> ProofRPC \<Rightarrow> Cursor \<Rightarrow> Evidence \<Rightarrow> BlockHeader \<Rightarrow> u64
  \<Rightarrow> proof_error + (Cursor \<times> bool)" where
  "prove_range sha rpc cursor applied head from =
     ebind (evidence_read (FilterLogs rpc from (hNumber head))) (\<lambda>logs.
     ebind (check_logs sha applied cursor from (hNumber head) logs []) (\<lambda>found. case found of
       None \<Rightarrow> Inr (zero_cursor, False)
     | Some canonical \<Rightarrow>
         ebind (check_applied canonical from (hNumber head) applied) (\<lambda>all.
         if \<not> all then Inr (zero_cursor, False)
         else ebind (check_header rpc 1 (cBlock cursor) (cHash cursor)) (\<lambda>_.
              ebind (check_header rpc 2 (hNumber head) (hHash head)) (\<lambda>_.
              case ctxEnd rpc of
                Some _ \<Rightarrow> Inl (ReadFailure ''context'')
              | None \<Rightarrow> Inr (\<lparr>cBlock = hNumber head, cHash = hHash head, cIndex = 0, cHasLog = False\<rparr>, True))))))"

definition Prove :: "(bytes \<Rightarrow> bytes) \<Rightarrow> ProofRPC \<Rightarrow> Address list \<Rightarrow> Cursor \<Rightarrow> Evidence \<Rightarrow> proof_error + (Cursor \<times> bool)" where
  "Prove sha rpc addresses cursor applied =
     ensure (\<not> (cHash cursor = empty_hash \<or> addresses = [])) (Inconsistent ''input=invalid'') (
     ebind (evidence_read (LatestHeader rpc)) (\<lambda>head.
     ensure (\<not> hHash head = empty_hash) (Inconsistent ''head=invalid'') (
     ensure (\<not> hNumber head < cBlock cursor) (ReadFailure ''head=behind'') (
     ebind (check_header rpc 0 (cBlock cursor) (cHash cursor)) (\<lambda>_.
     ensure (\<not> (hNumber head = cBlock cursor \<and> hHash head \<noteq> cHash cursor)) (Inconsistent ''block_hash=mismatch'') (
     if hNumber head = cBlock cursor \<and> \<not> cHasLog cursor then Inr (cursor, False)
     else ensure (\<not> hNumber head - cBlock cursor > 1024) (Inconsistent ''range=too_long'') (
            prove_range sha rpc cursor applied head
              (if cHasLog cursor then cBlock cursor else cBlock cursor + 1))))))))"

definition continuesProof :: "ObsState \<Rightarrow> ObsState \<Rightarrow> Evidence \<Rightarrow> Evidence \<Rightarrow> Cursor \<Rightarrow> bool" where
  "continuesProof previous current before after frontier =
     (if cHash frontier = empty_hash \<or> oBaseline previous \<noteq> oBaseline current \<or> oEpoch previous \<noteq> oEpoch current
         \<or> oRevision previous \<noteq> oRevision current \<or> oReceivedAt current < oReceivedAt previous
      then False
      else if (if oCursor previous = oCursor current then oReceivedAt previous \<noteq> oReceivedAt current
               else cBlock (oCursor current) \<le> cBlock frontier \<or> cBlock (oCursor current) < cBlock (oCursor previous)
                 \<or> (cBlock (oCursor current) = cBlock (oCursor previous)
                     \<and> (cHash (oCursor current) \<noteq> cHash (oCursor previous) \<or> \<not> cHasLog (oCursor current)
                         \<or> (cHasLog (oCursor previous) \<and> cIndex (oCursor current) \<le> cIndex (oCursor previous)))))
      then False
      else (\<forall>(key, digest) \<in> set after. fst key \<le> cBlock frontier \<longrightarrow> map_of before key = Some digest))"

definition Record_all :: "(bytes \<Rightarrow> bytes) \<Rightarrow> Log list \<Rightarrow> Journal" where
  "Record_all sha256 logs = fold (Record sha256) logs empty_journal"

lemma fold_Record:
  "\<forall>log \<in> set logs. \<not> lRemoved log \<Longrightarrow> fold (Record sha) logs j =
     fold (\<lambda>(k, v). journal_add k v) (map (\<lambda>log. (key_of log, fingerprint sha log)) logs) j"
  by (induction logs arbitrary: j) (auto simp: Record_def)

text \<open>
  The journal is bounded and complete for what it still holds: after recording any
  sequence of different logs it knows exactly the most recent 4096 of them, each with its own
  content, in order of arrival; older ones are evicted first.
\<close>

lemma journal_recent:
  assumes "distinct (map key_of logs)" and "\<forall>log \<in> set logs. \<not> lRemoved log"
  shows "queue (Record_all sha logs) = drop (length logs - 4096) (map key_of logs)
    \<and> (\<forall>log \<in> set logs. contains sha (seen (Record_all sha logs)) log
           \<longleftrightarrow> key_of log \<in> set (drop (length logs - 4096) (map key_of logs)))"
proof -
  define kvs where "kvs = map (\<lambda>log. (key_of log, fingerprint sha log)) logs"
  have keys: "map fst kvs = map key_of logs" by (simp add: kvs_def)
  have all: "Record_all sha logs = fold (\<lambda>(k, v). journal_add k v) kvs empty_journal"
    unfolding Record_all_def kvs_def by (rule fold_Record [OF assms(2)])
  have inv: "journal_inv empty_journal" by (simp add: journal_inv_def empty_journal_def)
  have none: "queue empty_journal = most_recent 4096 (map fst ([] :: (logKey \<times> bytes) list))"
    by (simp add: empty_journal_def most_recent_def)
  have dist: "distinct ([] @ map fst kvs)" "distinct (map fst ([] @ kvs))" using assms(1) by (simp_all add: keys)
  have q: "queue (Record_all sha logs) = drop (length logs - 4096) (map key_of logs)"
    using journal.keys_fold [OF inv, of "[]" kvs] none dist by (simp add: all keys most_recent_def)
  have look: "map_of (seen empty_journal) k = (if k \<in> set (queue empty_journal) then map_of [] k else None)" for k
    by (simp add: empty_journal_def)
  have "contains sha (seen (Record_all sha logs)) log \<longleftrightarrow> key_of log \<in> set (drop (length logs - 4096) (map key_of logs))"
    if "log \<in> set logs" for log
  proof -
    have "map_of kvs (key_of log) = Some (fingerprint sha log)"
      using that dist(1) by (intro map_of_is_SomeI) (auto simp: kvs_def)
    then show ?thesis
      using journal.lookup_fold [OF inv none dist(2) look, of "key_of log"]
      by (auto simp: contains_def all keys most_recent_def)
  qed
  with q show ?thesis by blast
qed

text \<open>
  One turn of the loop of \<open>Run\<close>, after the timer fired. The inputs are what the turn observes:
  the two reads of the owner's state (nothing when inactive), the proof, and whether the context
  ended during it. The outcome is what the turn does next; \<open>Wait\<close> and \<open>Publish\<close> carry the delay
  the timer is reset to.
\<close>

record RunState =
  rPrevious :: ObsState
  rEvidence :: Evidence
  rFrontier :: Cursor
  rRetryDelay :: int

datatype run_outcome = Wait int | Publish ObsState int | Done | Failed string

definition zero_state :: ObsState where
  "zero_state = \<lparr>oBaseline = zero_cursor, oCursor = zero_cursor, oEpoch = 0, oRevision = 0, oReceivedAt = 0\<rparr>"

definition run_start :: "int \<Rightarrow> RunState" where
  "run_start interval =
     \<lparr>rPrevious = zero_state, rEvidence = [], rFrontier = zero_cursor, rRetryDelay = interval\<rparr>"

definition run_turn :: "int \<Rightarrow> (Cursor \<Rightarrow> Evidence \<Rightarrow> proof_error + (Cursor \<times> bool)) \<Rightarrow> (ObsState \<times> Evidence) option
  \<Rightarrow> bool \<Rightarrow> (ObsState \<times> Evidence) option \<Rightarrow> RunState \<Rightarrow> RunState \<times> run_outcome" where
  "run_turn interval prove read1 ctxDone read2 rs =
     (case read1 of
        None \<Rightarrow> (rs\<lparr>rPrevious := zero_state\<rparr>, Wait interval)
      | Some (state, applied) \<Rightarrow>
          (let frontier = (if continuesProof (rPrevious rs) state (rEvidence rs) applied (rFrontier rs)
                           then rFrontier rs else oBaseline state);
               rs = rs\<lparr>rFrontier := frontier, rPrevious := state, rEvidence := applied\<rparr>
           in if cBlock (oCursor state) < cBlock (oBaseline state) then (rs, Failed ''position=behind_baseline'')
              else
                (let result = prove frontier applied
                 in if ctxDone then (rs, Done)
                    else case result of
                      Inl (ReadFailure _) \<Rightarrow>
                        ((if read2 = None then rs\<lparr>rPrevious := zero_state\<rparr> else rs)
                           \<lparr>rRetryDelay := min (rRetryDelay rs * 2) (12 * interval)\<rparr>, Wait (rRetryDelay rs))
                    | _ \<Rightarrow>
                        (case read2 of
                           None \<Rightarrow> (rs\<lparr>rPrevious := zero_state\<rparr>, Wait interval)
                         | Some (current, currentEvidence) \<Rightarrow>
                             if current \<noteq> state then
                               (case result of
                                  Inr (nxt, True) \<Rightarrow>
                                    (if continuesProof state current applied currentEvidence nxt
                                     then rs\<lparr>rFrontier := nxt\<rparr> else rs, Wait interval)
                                | _ \<Rightarrow> (rs, Wait interval))
                             else (case result of
                                 Inl (Inconsistent e) \<Rightarrow> (rs, Failed e)
                               | Inr (nxt, True) \<Rightarrow> (rs\<lparr>rRetryDelay := interval, rFrontier := nxt\<rparr>, Publish state interval)
                               | _ \<Rightarrow> (rs\<lparr>rRetryDelay := interval\<rparr>, Wait interval))))))"

section \<open>What a proof establishes\<close>

lemma evidence_read_Inr [simp]: "evidence_read r = Inr x \<longleftrightarrow> r = Inr x"
  by (auto simp: evidence_read_def split: sum.splits)

lemma check_header_ok [simp]:
  "check_header rpc n number hash = Inr u \<longleftrightarrow> (\<exists>h. HeaderByNumber rpc n number = Inr h \<and> hNumber h = number \<and> hHash h = hash)"
  by (auto simp: check_header_def ebind_eq_Inr)

lemma check_logs_ok:
  "check_logs sha applied cursor from head logs can = Inr (Some can') \<Longrightarrow> log \<in> set logs \<Longrightarrow>
     \<not> lRemoved log \<and> from \<le> lBlockNumber log \<and> lBlockNumber log \<le> head \<and> contains sha applied log
     \<and> (lBlockNumber log = cBlock cursor \<longrightarrow> lBlockHash log = cHash cursor)"
  by (induction logs arbitrary: can) (auto split: if_splits)

lemma check_logs_canonical:
  "check_logs sha applied cursor from head logs can = Inr (Some can') \<Longrightarrow> map_of can' k = Some d \<Longrightarrow>
     map_of can k = Some d \<or> (\<exists>log \<in> set logs. key_of log = k \<and> fingerprint sha log = d)"
proof (induction logs arbitrary: can)
  case (Cons log logs)
  then have "check_logs sha applied cursor from head logs (AList.update (key_of log) (fingerprint sha log) can) = Inr (Some can')"
    by (auto split: if_splits)
  from Cons.IH [OF this Cons.prems(2)] show ?case by (cases "k = key_of log") (auto simp: map_of_update)
qed simp

lemma check_applied_ok:
  "check_applied can from head applied = Inr True \<Longrightarrow> (k, d) \<in> set applied \<Longrightarrow>
     fst k \<le> head \<and> (from \<le> fst k \<longrightarrow> map_of can k = Some d)"
  by (induction can "from" head applied rule: check_applied.induct) (auto split: if_splits)

text \<open>
  C8. When \<open>Prove\<close> reports progress, the new position is the chain head, at most 1024 blocks
  ahead of the old one, and the applied evidence on that range is exactly the evidence of the
  logs the node returned for it: every one of them was applied with the same content,
  and nothing else was. The old position was canonical both before and after the logs were read,
  and so was the head afterwards.
\<close>

theorem Prove_sound:
  assumes "Prove sha rpc addresses cursor applied = Inr (nxt, True)"
  shows "\<exists>head logs h0 h1 h2. LatestHeader rpc = Inr head
    \<and> FilterLogs rpc (if cHasLog cursor then cBlock cursor else cBlock cursor + 1) (hNumber head) = Inr logs
    \<and> nxt = \<lparr>cBlock = hNumber head, cHash = hHash head, cIndex = 0, cHasLog = False\<rparr>
    \<and> cBlock cursor \<le> hNumber head \<and> uint (hNumber head) - uint (cBlock cursor) \<le> 1024
    \<and> (\<forall>log \<in> set logs. \<not> lRemoved log \<and> contains sha applied log
         \<and> (if cHasLog cursor then cBlock cursor else cBlock cursor + 1) \<le> lBlockNumber log \<and> lBlockNumber log \<le> hNumber head)
    \<and> (\<forall>(k, d) \<in> set applied. fst k \<le> hNumber head
         \<and> ((if cHasLog cursor then cBlock cursor else cBlock cursor + 1) \<le> fst k
              \<longrightarrow> (\<exists>log \<in> set logs. key_of log = k \<and> fingerprint sha log = d)))
    \<and> HeaderByNumber rpc 0 (cBlock cursor) = Inr h0 \<and> hHash h0 = cHash cursor
    \<and> HeaderByNumber rpc 1 (cBlock cursor) = Inr h1 \<and> hHash h1 = cHash cursor
    \<and> HeaderByNumber rpc 2 (hNumber head) = Inr h2 \<and> hHash h2 = hHash head"
proof -
  define start where "start = (if cHasLog cursor then cBlock cursor else cBlock cursor + 1)"
  obtain head h0 where head: "LatestHeader rpc = Inr head" and le: "cBlock cursor \<le> hNumber head"
    and h0: "HeaderByNumber rpc 0 (cBlock cursor) = Inr h0" "hHash h0 = cHash cursor"
    and near: "\<not> hNumber head - cBlock cursor > 1024"
    and range: "prove_range sha rpc cursor applied head start = Inr (nxt, True)"
    using assms by (auto simp: Prove_def start_def ebind_eq_Inr not_less split: if_splits)
  obtain logs can h1 h2 where logs: "FilterLogs rpc start (hNumber head) = Inr logs"
    and found: "check_logs sha applied cursor start (hNumber head) logs [] = Inr (Some can)"
    and all: "check_applied can start (hNumber head) applied = Inr True"
    and h1: "HeaderByNumber rpc 1 (cBlock cursor) = Inr h1" "hHash h1 = cHash cursor"
    and h2: "HeaderByNumber rpc 2 (hNumber head) = Inr h2" "hHash h2 = hHash head"
    and nxt: "nxt = \<lparr>cBlock = hNumber head, cHash = hHash head, cIndex = 0, cHasLog = False\<rparr>"
    using range by (auto simp: prove_range_def ebind_eq_Inr split: option.splits if_splits)
  have dist: "uint (hNumber head) - uint (cBlock cursor) \<le> 1024"
    using near uint_sub_u64 [OF le] by (simp add: word_less_def)
  have a: "\<forall>(k, d) \<in> set applied. fst k \<le> hNumber head \<and> (start \<le> fst k \<longrightarrow> (\<exists>log \<in> set logs. key_of log = k \<and> fingerprint sha log = d))"
    using check_applied_ok [OF all] check_logs_canonical [OF found] by fastforce
  have l: "\<forall>log \<in> set logs. \<not> lRemoved log \<and> contains sha applied log \<and> start \<le> lBlockNumber log \<and> lBlockNumber log \<le> hNumber head"
    using check_logs_ok [OF found] by blast
  show ?thesis
    using head logs nxt le dist a l h0 h1 h2 unfolding start_def by blast
qed

text \<open>
  C9. \<open>Run\<close> publishes a confirmation only for the very state that was read both before and
  after a proof that advanced; the proof started from that state's own baseline, or from a
  frontier that \<open>continuesProof\<close> carried over. Between turns it waits at least one interval and
  at most twelve, whatever fails.
\<close>

theorem run_turn_safe:
  assumes "run_turn interval (Prove sha rpc addresses) read1 ctxDone read2 rs = (rs', out)"
    and "0 < interval" and "interval \<le> rRetryDelay rs" and "rRetryDelay rs \<le> 12 * interval"
  shows "interval \<le> rRetryDelay rs' \<and> rRetryDelay rs' \<le> 12 * interval
    \<and> (case out of
         Wait w \<Rightarrow> interval \<le> w \<and> w \<le> 12 * interval
       | Publish st w \<Rightarrow> w = interval \<and> (\<exists>ev ev2 frontier.
            read1 = Some (st, ev) \<and> read2 = Some (st, ev2)
            \<and> Prove sha rpc addresses frontier ev = Inr (rFrontier rs', True)
            \<and> (frontier = oBaseline st \<or>
               (frontier = rFrontier rs \<and> continuesProof (rPrevious rs) st (rEvidence rs) ev frontier)))
       | _ \<Rightarrow> True)"
  using assms
  by (auto simp: run_turn_def Let_def split: option.splits sum.splits proof_error.splits if_splits bool.splits)
    blast+

section \<open>Witnesses\<close>

definition some_hash :: "nat \<Rightarrow> Hash" where
  "some_hash n = replicate 32 (of_nat n)"

definition sample_cursor :: Cursor where
  "sample_cursor = \<lparr>cBlock = 100, cHash = some_hash 100, cIndex = 3, cHasLog = True\<rparr>"

definition sample_log :: Log where
  "sample_log = \<lparr>lAddress = replicate 20 9, lTopics = [some_hash 1], lData = [1, 2], lBlockNumber = 100,
     lTxHash = some_hash 2, lTxIndex = 0, lBlockHash = some_hash 100, lIndex = 3, lRemoved = False\<rparr>"

definition sample_rpc :: ProofRPC where
  "sample_rpc = \<lparr>LatestHeader = Inr \<lparr>hNumber = 102, hHash = some_hash 102\<rparr>,
     HeaderByNumber = (\<lambda>_ n. Inr \<lparr>hNumber = n, hHash = some_hash (unat n)\<rparr>),
     FilterLogs = (\<lambda>from to. Inr [sample_log]), ctxEnd = None\<rparr>"

definition sample_evidence :: Evidence where
  "sample_evidence = seen (Record (\<lambda>x. x) sample_log empty_journal)"

definition sample_next :: Cursor where
  "sample_next = \<lparr>cBlock = 102, cHash = some_hash 102, cIndex = 0, cHasLog = False\<rparr>"

lemma sample_proof:
  "Prove (\<lambda>x. x) sample_rpc [replicate 20 9] sample_cursor sample_evidence = Inr (sample_next, True)"
  by code_simp

theorem Prove_sound_witness: "cBlock sample_cursor \<le> cBlock sample_next"
  using Prove_sound [OF sample_proof] by (auto simp: sample_next_def)

definition sample_state :: ObsState where
  "sample_state = \<lparr>oBaseline = sample_cursor, oCursor = sample_cursor, oEpoch = 1, oRevision = 0, oReceivedAt = 50\<rparr>"

lemma sample_turn:
  "snd (run_turn 5 (Prove (\<lambda>x. x) sample_rpc [replicate 20 9]) (Some (sample_state, sample_evidence)) False
     (Some (sample_state, sample_evidence)) (run_start 5)) = Publish sample_state 5"
  by code_simp

theorem run_turn_safe_witness:
  "\<exists>frontier. \<exists>n. Prove (\<lambda>x. x) sample_rpc [replicate 20 9] frontier sample_evidence = Inr (n, True)"
  using run_turn_safe [of 5 "\<lambda>x. x" sample_rpc "[replicate 20 9]" "Some (sample_state, sample_evidence)" False
      "Some (sample_state, sample_evidence)" "run_start 5", OF prod.collapse [symmetric]]
  unfolding sample_turn by (auto simp: run_start_def)

lemma journal_recent_witness: "queue (Record_all (\<lambda>x. x) [sample_log]) = [key_of sample_log]"
  using journal_recent [of "[sample_log]" "\<lambda>x. x"] by (simp add: sample_log_def)

end
