(* ===== verification/V3_Retained.thy ===== *)
theory V3_Retained
  imports V3_Pool Evm_Observation
begin

text \<open>
  \<open>go/venues/uniswap/v3\<close>: the retained snapshot, which pool logs keep up to date between
  captures (\<open>swap.go\<close>, \<open>retained_quote.go\<close>, \<open>retained_log_order.go\<close>, \<open>initial_price.go\<close>, and
  \<open>bitmapWord\<close>, \<open>retainedNeedsCapture\<close> of \<open>retained_subscription.go\<close>).

  Keccak-256 and go-ethereum's ABI decoder are parameters. \<open>common.Hash\<close> and \<open>common.Address\<close>
  values are byte slices of 32 and 20 bytes.
\<close>

section \<open>Event decoding\<close>

record AbiEnv =
  keccak :: "string \<Rightarrow> Hash"
  unpackSwap :: "bytes \<Rightarrow> (int \<times> int \<times> int \<times> int \<times> int) res"

record Swap =
  swPoolAddress :: Address
  swSender :: Address
  swRecipient :: Address
  swAmount0 :: int
  swAmount1 :: int
  swSqrtPriceX96 :: int
  swLiquidity :: int
  swTick :: int
  swBlockNumber :: u64
  swBlockHash :: Hash
  swTransactionHash :: Hash
  swTransactionIndex :: u64
  swLogIndex :: u64
  swRemoved :: bool

definition hasCanonicalUnsignedPadding :: "bytes \<Rightarrow> nat \<Rightarrow> bool" where
  "hasCanonicalUnsignedPadding word bitSize =
     (let valueLength = bitSize div 8
      in length word = 32 \<and> take (32 - valueLength) word = replicate (32 - valueLength) 0)"

definition hasCanonicalSignedPadding :: "bytes \<Rightarrow> nat \<Rightarrow> bool" where
  "hasCanonicalSignedPadding word bitSize =
     (if length word \<noteq> 32 then False
      else
        (let start = 32 - bitSize div 8;
             padding = (if (word ! start) AND 0x80 \<noteq> 0 then 0xff else 0)
         in list_all (\<lambda>value. value = padding) (take start word)))"

definition indexedAddress :: "Hash \<Rightarrow> Address res" where
  "indexedAddress topic =
     (if take 12 topic \<noteq> replicate 12 0 then Inl (Fail ''topic=invalid'') else Inr (drop 12 topic))"

definition slice :: "bytes \<Rightarrow> nat \<Rightarrow> nat \<Rightarrow> bytes" where
  "slice data a b = take (b - a) (drop a data)"

definition decodeSwapData :: "AbiEnv \<Rightarrow> bytes \<Rightarrow> (int \<times> int \<times> int \<times> int \<times> int) res" where
  "decodeSwapData env data =
     (if length data \<noteq> 160 then Inl (Fail ''data=invalid'')
      else if \<not> hasCanonicalSignedPadding (slice data 0 32) 256 \<or> \<not> hasCanonicalSignedPadding (slice data 32 64) 256
      then Inl (Fail ''amounts=invalid'')
      else if \<not> hasCanonicalUnsignedPadding (slice data 64 96) 160 then Inl (Fail ''sqrt_price_x96=invalid'')
      else if \<not> hasCanonicalUnsignedPadding (slice data 96 128) 128 then Inl (Fail ''liquidity=invalid'')
      else if \<not> hasCanonicalSignedPadding (slice data 128 160) 24 then Inl (Fail ''tick=invalid'')
      else ebind (unpackSwap env data) (\<lambda>(amount0, amount1, sqrtPrice, liquidity, tick).
             if tick < - (2 ^ 63) \<or> tick \<ge> 2 ^ 63 then Inl (Fail ''tick=invalid'')
             else Inr (amount0, amount1, sqrtPrice, liquidity, i32 tick)))"

definition swapEventSignatureHash :: "AbiEnv \<Rightarrow> Hash" where
  "swapEventSignatureHash env = keccak env ''Swap(address,address,int256,int256,uint160,uint128,int24)''"

definition DecodeSwapLog :: "AbiEnv \<Rightarrow> Log \<Rightarrow> Swap res" where
  "DecodeSwapLog env log =
     (if lAddress log = empty_address then Inl (Fail ''pool_address=empty'')
      else if length (lTopics log) \<noteq> 3 then Inl (Fail ''topics=invalid'')
      else if lTopics log ! 0 \<noteq> swapEventSignatureHash env then Inl (Fail ''event_signature=invalid'')
      else
        ebind (indexedAddress (lTopics log ! 1)) (\<lambda>sender.
        ebind (indexedAddress (lTopics log ! 2)) (\<lambda>recipient.
        ebind (decodeSwapData env (lData log)) (\<lambda>(amount0, amount1, sqrtPrice, liquidity, tick).
        Inr \<lparr>swPoolAddress = lAddress log, swSender = sender, swRecipient = recipient, swAmount0 = amount0,
             swAmount1 = amount1, swSqrtPriceX96 = sqrtPrice, swLiquidity = liquidity, swTick = tick,
             swBlockNumber = lBlockNumber log, swBlockHash = lBlockHash log, swTransactionHash = lTxHash log,
             swTransactionIndex = lTxIndex log, swLogIndex = lIndex log, swRemoved = lRemoved log\<rparr>))))"

section \<open>Liquidity events\<close>

definition mintSignature :: string where
  "mintSignature = ''Mint(address,address,int24,int24,uint128,uint256,uint256)''"

definition burnSignature :: string where
  "burnSignature = ''Burn(address,int24,int24,uint128,uint256,uint256)''"

definition signedTick :: "Hash \<Rightarrow> int" where
  "signedTick word =
     (let value = be_int word; value = (if bit value 255 then value - power2 256 else value) in i32 value)"

text \<open>One turn of the loop over the two boundary ticks.\<close>

definition retain_tick :: "bool \<Rightarrow> int \<Rightarrow> bool \<Rightarrow> int \<Rightarrow> 'z poolSnapshot_scheme \<Rightarrow> 'z poolSnapshot_scheme res" where
  "retain_tick mint delta isLower tick s =
     (let compressed = i32 (tick sdiv sSpacing s);
          wordIndex = drop_bit 8 compressed;
          b = nat (compressed mod 256);
          word = words s wordIndex;
          unset = (case word of None \<Rightarrow> False | Some w \<Rightarrow> \<not> bit w b)
      in if unset \<and> \<not> mint then Inl (Fail ''tick=uninitialized'')
         else
           (case (if unset then (Some 0, Some 0) else (gross s tick, ticks s tick)) of
              (Some g, Some n) \<Rightarrow>
                (let g = g + delta
                 in if g < 0 \<or> BitLen_gt g 128 then Inl (Fail ''liquidity_gross=out_of_range'')
                    else
                      (let n = (if isLower then n + delta else n - delta)
                       in if n < - power2 127 \<or> n \<ge> power2 127 then Inl (Fail ''liquidity_net=out_of_range'')
                          else Inr (s\<lparr>gross := (gross s)(tick \<mapsto> g), ticks := (ticks s)(tick \<mapsto> n),
                                 words := (case word of None \<Rightarrow> words s
                                   | Some w \<Rightarrow> (words s)(wordIndex \<mapsto> (if g = 0 then unset_bit b w else set_bit b w)))\<rparr>)))
            | _ \<Rightarrow>
                Inr (s\<lparr>ticks := (ticks s)(tick := None), gross := (gross s)(tick := None),
                       words := (case word of None \<Rightarrow> words s
                         | Some w \<Rightarrow> if mint then (words s)(wordIndex \<mapsto> set_bit b w) else words s)\<rparr>)))"

text \<open>The first half of \<open>applyRetainedLiquidity\<close>: kind, range and amount of the event.\<close>

definition decode_liquidity :: "AbiEnv \<Rightarrow> int \<Rightarrow> Log \<Rightarrow> (bool \<times> int \<times> int \<times> int) res" where
  "decode_liquidity env spacing log =
     (let mint = (lTopics log ! 0 = keccak env mintSignature);
          offset = (if mint then 32 else 0);
          size = (if mint then 128 else 96)
      in if length (lTopics log) \<noteq> 4 \<or> length (lData log) \<noteq> size then Inl (Fail ''event=invalid'')
         else if \<not> hasCanonicalSignedPadding (lTopics log ! 2) 24 \<or> \<not> hasCanonicalSignedPadding (lTopics log ! 3) 24
              \<or> \<not> hasCanonicalUnsignedPadding (slice (lData log) offset (offset + 32)) 128
         then Inl (Fail ''padding=invalid'')
         else
           (let lower = signedTick (lTopics log ! 2); upper = signedTick (lTopics log ! 3)
            in if spacing \<le> 0 \<or> lower \<ge> upper \<or> lower < - 887272 \<or> upper > 887272
                  \<or> lower smod spacing \<noteq> 0 \<or> upper smod spacing \<noteq> 0
               then Inl (Fail ''tick_range=invalid'')
               else Inr (mint, lower, upper, be_int (slice (lData log) offset (offset + 32)))))"

definition applyRetainedLiquidity :: "AbiEnv \<Rightarrow> poolSnapshot \<Rightarrow> Log \<Rightarrow> poolSnapshot res" where
  "applyRetainedLiquidity env s log =
     ebind (decode_liquidity env (sSpacing s) log) (\<lambda>(mint, lower, upper, amount).
       if amount = 0 then Inr s
       else
         (let delta = (if mint then amount else - amount)
          in ebind (if sTick s \<ge> lower \<and> sTick s < upper
                    then (let liquidity = sLiquidity s + delta
                          in if liquidity < 0 \<or> BitLen_gt liquidity 128
                             then Inl (Fail ''liquidity=out_of_range'')
                             else Inr (s\<lparr>sLiquidity := liquidity\<rparr>))
                    else Inr s) (\<lambda>s.
             ebind (retain_tick mint delta True lower s) (\<lambda>s.
             retain_tick mint delta False upper s))))"

section \<open>Applying logs to the cache\<close>

record StateCache =
  retained :: "poolSnapshot option"
  retainedBlock :: u64
  retainedHash :: Hash
  retainedIndex :: u64
  retainedHasLog :: bool
  observationJournal :: Journal

text \<open>Events that change nothing a quote depends on.\<close>

definition neutralSignatures :: "string list" where
  "neutralSignatures =
     [''Collect(address,address,int24,int24,uint128,uint128)'',
      ''CollectProtocol(address,address,uint128,uint128)'',
      ''SetFeeProtocol(uint8,uint8,uint8,uint8)'',
      ''IncreaseObservationCardinalityNext(uint16,uint16)'',
      ''Flash(address,address,uint256,uint256,uint256,uint256)'']"

definition retained_event :: "AbiEnv \<Rightarrow> poolSnapshot \<Rightarrow> Log \<Rightarrow> poolSnapshot res" where
  "retained_event env s log =
     (let topic = lTopics log ! 0
      in if topic = swapEventSignatureHash env then
           ebind (DecodeSwapLog env log) (\<lambda>swap.
             Inr (s\<lparr>sPrice := swSqrtPriceX96 swap, sLiquidity := swLiquidity swap, sTick := swTick swap\<rparr>))
         else if topic = keccak env mintSignature \<or> topic = keccak env burnSignature then
           applyRetainedLiquidity env s log
         else if topic \<in> set (map (keccak env) neutralSignatures) then Inr s
         else Inl (Fail ''unsupported event''))"

text \<open>The ordering checks of replay: \<open>Inr False\<close> skips a log that the baseline already contains.\<close>

definition replay_check :: "StateCache \<Rightarrow> poolSnapshot \<Rightarrow> Log \<Rightarrow> bool res" where
  "replay_check c s log =
     (let baseline = sHeader s
      in if lBlockNumber log < hNumber baseline then Inr False
         else if lBlockNumber log = hNumber baseline then
           (if lBlockHash log \<noteq> hHash baseline then Inl (Fail ''baseline hash mismatch'') else Inr False)
         else if retainedHasLog c \<and> lBlockNumber log < retainedBlock c then Inl (Fail ''block order regression'')
         else if retainedHasLog c \<and> lBlockNumber log = retainedBlock c \<and> lBlockHash log \<noteq> retainedHash c
         then Inl (Fail ''stream block hash mismatch'')
         else if retainedHasLog c \<and> lBlockNumber log = retainedBlock c \<and> lIndex log \<le> retainedIndex c
         then Inl (Fail ''duplicate or out of order log'')
         else Inr True)"

definition applyRetainedLogMode :: "(bytes \<Rightarrow> bytes) \<Rightarrow> AbiEnv \<Rightarrow> Log \<Rightarrow> bool \<Rightarrow> int \<Rightarrow> (StateCache, unit) proc" where
  "applyRetainedLogMode sha env log live at_time =
     (let fail = (\<lambda>reason. andthen (update (\<lambda>c. c\<lparr>retained := None\<rparr>)) (\<lambda>_. throw (Fail reason)))
      in if lRemoved log then (if live then ret () else fail ''removed log'')
         else if lBlockHash log = empty_hash then fail ''missing block hash''
         else reading (\<lambda>c. case retained c of
           None \<Rightarrow> fail ''missing snapshot''
         | Some s \<Rightarrow>
             (case (if live then Inr True else replay_check c s log) of
                Inl e \<Rightarrow> andthen (update (\<lambda>c. c\<lparr>retained := None\<rparr>)) (\<lambda>_. throw e)
              | Inr False \<Rightarrow> ret ()
              | Inr True \<Rightarrow>
                  (if lTopics log = [] then fail ''missing event topics''
                   else case retained_event env s log of
                     Inl e \<Rightarrow> andthen (update (\<lambda>c. c\<lparr>retained := None\<rparr>)) (\<lambda>_. throw e)
                   | Inr s' \<Rightarrow>
                       update (\<lambda>c. c\<lparr>retained := Some (if at_time > received s' then s'\<lparr>received := at_time\<rparr> else s'),
                         retainedBlock := lBlockNumber log, retainedHash := lBlockHash log,
                         retainedIndex := lIndex log, retainedHasLog := True,
                         observationJournal := Record sha log (observationJournal c)\<rparr>)))))"

definition applyRetainedLog :: "(bytes \<Rightarrow> bytes) \<Rightarrow> AbiEnv \<Rightarrow> Log \<Rightarrow> int \<Rightarrow> (StateCache, unit) proc" where
  "applyRetainedLog sha env log at_time = applyRetainedLogMode sha env log False at_time"

definition applyLiveRetainedLog :: "(bytes \<Rightarrow> bytes) \<Rightarrow> AbiEnv \<Rightarrow> Log \<Rightarrow> int \<Rightarrow> (StateCache, unit) proc" where
  "applyLiveRetainedLog sha env log at_time =
     (if lRemoved log then ret ()
      else reading (\<lambda>previous c. case applyRetainedLogMode sha env log True at_time c of
             (Inl e, c') \<Rightarrow> (Inl e, c'\<lparr>retained := retained previous\<rparr>)
           | (Inr u, c') \<Rightarrow> (Inr u, c')))"

section \<open>The snapshot follows the pool\<close>

text \<open>
  The state of the contract is a gross and a net liquidity for every tick. A snapshot agrees
  with it when every net and gross amount it knows is right, no known bitmap bit is clear
  for a tick in use, and every set bit whose net it knows belongs to a tick in use. (After a
  burn of a tick whose amounts were never read, the code leaves the bit set: the tick stays
  unavailable until it is captured again.)
\<close>

definition agrees :: "(int \<Rightarrow> int) \<Rightarrow> (int \<Rightarrow> int) \<Rightarrow> 'z poolSnapshot_scheme \<Rightarrow> bool" where
  "agrees g n s \<longleftrightarrow>
     (\<forall>w b i. words s w = Some b \<longrightarrow> 0 \<le> i \<longrightarrow> i < 256 \<longrightarrow>
        (\<not> bit b (nat i) \<longrightarrow> g ((w * 256 + i) * sSpacing s) = 0)
        \<and> (bit b (nat i) \<longrightarrow> ticks s ((w * 256 + i) * sSpacing s) \<noteq> None \<longrightarrow> g ((w * 256 + i) * sSpacing s) \<noteq> 0))
     \<and> (\<forall>t x. ticks s t = Some x \<longrightarrow> n t = x) \<and> (\<forall>t x. gross s t = Some x \<longrightarrow> g t = x)"

lemma agrees_bit:
  assumes "agrees g n s" and "words s w = Some b" and "0 \<le> i" and "i < 256"
  shows "\<not> bit b (nat i) \<Longrightarrow> g ((w * 256 + i) * sSpacing s) = 0"
    and "bit b (nat i) \<Longrightarrow> ticks s ((w * 256 + i) * sSpacing s) \<noteq> None \<Longrightarrow> g ((w * 256 + i) * sSpacing s) \<noteq> 0"
  using assms unfolding agrees_def by blast+

lemma agrees_known:
  assumes "agrees g n s"
  shows "ticks s t = Some x \<Longrightarrow> n t = x" and "gross s t = Some y \<Longrightarrow> g t = y"
  using assms unfolding agrees_def by blast+

text \<open>Replacing the knowledge about one tick: entries elsewhere keep agreeing.\<close>

lemma agrees_update:
  assumes ag: "agrees g n s" and sp: "0 < sSpacing s" and k: "0 \<le> k" "k < 256" and t: "tick = (v * 256 + k) * sSpacing s"
    and s': "sSpacing s' = sSpacing s" "ticks s' = (ticks s)(tick := tn)" "gross s' = (gross s)(tick := tg)"
    and words: "words s' = (case words s v of None \<Rightarrow> words s | Some b \<Rightarrow> (words s)(v \<mapsto> b'))"
    and b': "\<And>b j. words s v = Some b \<Longrightarrow> j \<noteq> nat k \<Longrightarrow> bit b' j \<longleftrightarrow> bit b j"
    and here: "words s v \<noteq> None \<Longrightarrow> (\<not> bit b' (nat k) \<longrightarrow> gt = 0) \<and> (bit b' (nat k) \<longrightarrow> tn \<noteq> None \<longrightarrow> gt \<noteq> 0)"
    and tn: "\<And>x. tn = Some x \<Longrightarrow> nt = x" and tg: "\<And>x. tg = Some x \<Longrightarrow> gt = x"
  shows "agrees (g(tick := gt)) (n(tick := nt)) s'"
  unfolding agrees_def
proof (intro conjI allI impI)
  fix w b i :: int
  assume w: "words s' w = Some b" and i: "0 \<le> i" "i < 256"
  define u where "u = (w * 256 + i) * sSpacing s"
  have inj: "u = tick \<longleftrightarrow> w = v \<and> i = k"
  proof
    assume "u = tick"
    then have eq: "w * 256 + i = v * 256 + k" using sp by (simp add: u_def t)
    then have "(w * 256 + i) div 256 = (v * 256 + k) div 256" by simp
    then have "w = v" using i k by simp
    with eq show "w = v \<and> i = k" by simp
  qed (simp add: u_def t)
  have sp': "(w * 256 + i) * sSpacing s' = u" by (simp add: u_def s')
  have both: "(\<not> bit b (nat i) \<longrightarrow> (g(tick := gt)) u = 0) \<and> (bit b (nat i) \<longrightarrow> ticks s' u \<noteq> None \<longrightarrow> (g(tick := gt)) u \<noteq> 0)"
  proof (cases "u = tick")
    case True
    then have "w = v" "i = k" using inj by simp_all
    moreover from this w words have "words s v \<noteq> None" "b = b'" by (auto split: option.splits)
    ultimately show ?thesis using here True by (simp add: s')
  next
    case False
    then have "w \<noteq> v \<or> i \<noteq> k" using inj by simp
    obtain b0 where b0: "words s w = Some b0" "bit b (nat i) \<longleftrightarrow> bit b0 (nat i)"
    proof (cases "w = v")
      case True
      with w words obtain b1 where "words s v = Some b1" "b = b'" by (auto split: option.splits)
      moreover have "nat i \<noteq> nat k" using True \<open>w \<noteq> v \<or> i \<noteq> k\<close> i k by simp
      ultimately show ?thesis using b' that True by blast
    next
      case False
      with w words have "words s w = Some b" by (auto split: option.splits)
      then show ?thesis using that by blast
    qed
    then show ?thesis using agrees_bit [OF ag b0(1) i] False by (simp add: s' u_def)
  qed
  from both show "\<not> bit b (nat i) \<Longrightarrow> (g(tick := gt)) ((w * 256 + i) * sSpacing s') = 0" unfolding sp' by blast
  from both show "bit b (nat i) \<Longrightarrow> ticks s' ((w * 256 + i) * sSpacing s') \<noteq> None
      \<Longrightarrow> (g(tick := gt)) ((w * 256 + i) * sSpacing s') \<noteq> 0" unfolding sp' by blast
next
  fix t' x :: int
  assume "ticks s' t' = Some x"
  then show "(n(tick := nt)) t' = x" using agrees_known(1) [OF ag] tn by (auto simp: s' split: if_splits)
next
  fix t' x :: int
  assume "gross s' t' = Some x"
  then show "(g(tick := gt)) t' = x" using agrees_known(2) [OF ag] tg by (auto simp: s' split: if_splits)
qed

lemma retain_tick_agrees:
  assumes ag: "agrees g n s" and sp: "0 < sSpacing s" and dvd: "sSpacing s dvd tick" and rng: "\<bar>tick\<bar> \<le> 887272"
    and chain: "g tick = 0 \<Longrightarrow> n tick = 0" "0 \<le> g tick"
    and g': "0 \<le> g tick + delta" "g tick + delta < 2 ^ 128"
    and n': "- (2 ^ 127) \<le> n tick + (if isLower then delta else - delta)" "n tick + (if isLower then delta else - delta) < 2 ^ 127"
    and delta: "if mint then 0 < delta else delta < 0"
  shows "\<exists>s'. retain_tick mint delta isLower tick s = Inr s' \<and> sSpacing s' = sSpacing s \<and> sTick s' = sTick s
    \<and> sLiquidity s' = sLiquidity s \<and> sPrice s' = sPrice s
    \<and> agrees (g(tick := g tick + delta)) (n(tick := n tick + (if isLower then delta else - delta))) s'"
proof -
  define c where "c = tick div sSpacing s"
  define v where "v = c div 256"
  define k where "k = c mod 256"
  have k: "0 \<le> k" "k < 256" by (simp_all add: k_def)
  have tick: "tick = (v * 256 + k) * sSpacing s" using dvd by (simp add: v_def k_def c_def)
  have cb: "\<bar>c\<bar> \<le> 2000001" using compress_eq(2) [OF sp, of tick] rng by (simp add: c_def)
  have "tick sdiv sSpacing s = c"
  proof -
    have "go_floor_div tick (sSpacing s) = c" using go_floor_div_eq [OF sp] by (simp add: c_def)
    moreover have "tick smod sSpacing s = 0" using smod_eq_0_iff [OF sp] dvd by simp
    ultimately show ?thesis by (simp add: go_floor_div_def)
  qed
  then have comp: "i32 (tick sdiv sSpacing s) = c" using cb by (simp add: abs_le_iff)
  have wi: "drop_bit 8 c = v" by (simp add: bitmap_position v_def)
  have bn: "nat (c mod 256) = nat k" by (simp add: k_def)
  let ?gt = "g tick + delta"
  let ?nt = "n tick + (if isLower then delta else - delta)"
  have rt: "retain_tick mint delta isLower tick s =
     (let word = words s v; b = nat k; unset = (case word of None \<Rightarrow> False | Some w \<Rightarrow> \<not> bit w b)
      in if unset \<and> \<not> mint then Inl (Fail ''tick=uninitialized'')
         else (case (if unset then (Some 0, Some 0) else (gross s tick, ticks s tick)) of
              (Some x, Some y) \<Rightarrow>
                (let x = x + delta
                 in if x < 0 \<or> BitLen_gt x 128 then Inl (Fail ''liquidity_gross=out_of_range'')
                    else
                      (let y = (if isLower then y + delta else y - delta)
                       in if y < - power2 127 \<or> y \<ge> power2 127 then Inl (Fail ''liquidity_net=out_of_range'')
                          else Inr (s\<lparr>gross := (gross s)(tick \<mapsto> x), ticks := (ticks s)(tick \<mapsto> y),
                                 words := (case word of None \<Rightarrow> words s
                                   | Some w \<Rightarrow> (words s)(v \<mapsto> (if x = 0 then unset_bit b w else set_bit b w)))\<rparr>)))
            | _ \<Rightarrow>
                Inr (s\<lparr>ticks := (ticks s)(tick := None), gross := (gross s)(tick := None),
                       words := (case word of None \<Rightarrow> words s
                         | Some w \<Rightarrow> if mint then (words s)(v \<mapsto> set_bit b w) else words s)\<rparr>)))"
    by (simp only: retain_tick_def comp Let_def wi bn)
  text \<open>A clear bit means the tick is not in use, so only a mint can touch it.\<close>
  define unset where "unset \<longleftrightarrow> (case words s v of None \<Rightarrow> False | Some w \<Rightarrow> \<not> bit w (nat k))"
  have unset0: "g tick = 0 \<and> n tick = 0 \<and> mint" if unset
    using that agrees_bit(1) [OF ag _ k, of v] chain g' delta unfolding unset_def tick [symmetric]
    by (auto split: option.splits if_splits)
  show ?thesis
  proof (cases "unset \<or> (gross s tick \<noteq> None \<and> ticks s tick \<noteq> None)")
    case True
    then have look: "(if unset then (Some 0, Some 0) else (gross s tick, ticks s tick)) = (Some (g tick), Some (n tick))"
      using unset0 agrees_known [OF ag, of tick] by auto
    define s' where "s' = s\<lparr>gross := (gross s)(tick \<mapsto> ?gt), ticks := (ticks s)(tick \<mapsto> ?nt),
      words := (case words s v of None \<Rightarrow> words s
         | Some w \<Rightarrow> (words s)(v \<mapsto> (if ?gt = 0 then unset_bit (nat k) w else set_bit (nat k) w)))\<rparr>"
    have nt: "(if isLower then n tick + delta else n tick - delta) = ?nt" by simp
    have ok: "\<not> (?gt < 0 \<or> BitLen_gt ?gt 128)" "\<not> (?nt < - power2 127 \<or> ?nt \<ge> power2 127)"
      using g' n' by (auto simp: BitLen_gt_def power2_eq)
    have "retain_tick mint delta isLower tick s = Inr s'"
      unfolding rt Let_def unset_def [symmetric] look prod.case option.case nt s'_def
      using unset0 ok by auto
    moreover have "agrees (g(tick := ?gt)) (n(tick := ?nt)) s'"
      by (rule agrees_update [OF ag sp k tick, of s' "Some ?nt" "Some ?gt"
            "if ?gt = 0 then unset_bit (nat k) (the (words s v)) else set_bit (nat k) (the (words s v))"])
        (auto simp: s'_def bit_unset_bit_iff bit_set_bit_iff split: option.splits)
    ultimately show ?thesis by (intro exI [of _ s']) (simp add: s'_def)
  next
    case False
    define s' where "s' = s\<lparr>ticks := (ticks s)(tick := None), gross := (gross s)(tick := None),
      words := (case words s v of None \<Rightarrow> words s
         | Some w \<Rightarrow> if mint then (words s)(v \<mapsto> set_bit (nat k) w) else words s)\<rparr>"
    have "retain_tick mint delta isLower tick s = Inr s'"
      using False unfolding rt Let_def unset_def [symmetric] s'_def by (auto split: option.splits)
    moreover have "agrees (g(tick := ?gt)) (n(tick := ?nt)) s'"
      using False
      by (intro agrees_update [OF ag sp k tick, of s' None None
            "if mint then set_bit (nat k) (the (words s v)) else the (words s v)"])
        (auto simp: s'_def unset_def bit_set_bit_iff fun_eq_iff split: option.splits if_splits)
    ultimately show ?thesis by (intro exI [of _ s']) (simp add: s'_def)
  qed
qed

lemma agrees_liquidity [simp]: "agrees g n (s\<lparr>sLiquidity := x\<rparr>) \<longleftrightarrow> agrees g n s"
  by (simp add: agrees_def)

lemma decode_liquidity_Inr:
  "decode_liquidity env spacing log = Inr (mint, lower, upper, amount) \<Longrightarrow>
     0 < spacing \<and> lower < upper \<and> - 887272 \<le> lower \<and> upper \<le> 887272 \<and> spacing dvd lower \<and> spacing dvd upper
     \<and> 0 \<le> amount"
  using be_int_bounds by (auto simp: decode_liquidity_def Let_def smod_eq_0_iff split: if_splits)

definition signed_delta :: "bool \<Rightarrow> int \<Rightarrow> int" where
  "signed_delta mint amount = (if mint then amount else - amount)"

text \<open>What a valid event needs of the contract, at one of its two ticks.\<close>

definition tick_valid :: "(int \<Rightarrow> int) \<Rightarrow> (int \<Rightarrow> int) \<Rightarrow> int \<Rightarrow> int \<Rightarrow> int \<Rightarrow> bool" where
  "tick_valid g n t delta netDelta \<longleftrightarrow> (g t = 0 \<longrightarrow> n t = 0) \<and> 0 \<le> g t \<and> 0 \<le> g t + delta \<and> g t + delta < 2 ^ 128
     \<and> - (2 ^ 127) \<le> n t + netDelta \<and> n t + netDelta < 2 ^ 127"


section \<open>Order of replayed logs\<close>

text \<open>Positions of applied logs, and when one is strictly later than another.\<close>

definition later :: "StateCache \<Rightarrow> u64 \<times> u64 \<Rightarrow> bool" where
  "later c pos \<longleftrightarrow>
     (case retained c of None \<Rightarrow> False | Some s \<Rightarrow> hNumber (sHeader s) < fst pos)
     \<and> (retainedHasLog c \<longrightarrow> retainedBlock c < fst pos \<or> retainedBlock c = fst pos \<and> retainedIndex c < snd pos)"

lemma replay_check_True:
  "retained c = Some s \<Longrightarrow> replay_check c s log = Inr True \<Longrightarrow> later c (lBlockNumber log, lIndex log)"
  by (auto simp: replay_check_def later_def Let_def not_le not_less split: if_splits)

lemma retained_event_header:
  "retained_event env s log = Inr s' \<Longrightarrow> sHeader s' = sHeader s"
proof -
  have rt: "retain_tick m d l t s1 = Inr s2 \<Longrightarrow> sHeader s2 = sHeader s1" for m d l t s1 s2
    by (auto simp: retain_tick_def Let_def split: option.splits if_splits prod.splits)
  have liq: "applyRetainedLiquidity env s log = Inr s' \<Longrightarrow> sHeader s' = sHeader s"
    by (auto simp: applyRetainedLiquidity_def Let_def dest!: rt split: if_splits)
  show "retained_event env s log = Inr s' \<Longrightarrow> sHeader s' = sHeader s"
    using liq by (auto simp: retained_event_def Let_def split: if_splits)
qed


text \<open>
  Live logs never lose a usable snapshot (\<open>applyLiveRetainedLog\<close>): a cancellation changes
  nothing, and a log that cannot be applied leaves the whole cache as it was.
\<close>

lemma applyLiveRetainedLog_safe:
  "case applyLiveRetainedLog sha env log t c of
     (Inl e, c') \<Rightarrow> c' = c
   | (Inr _, c') \<Rightarrow> (if lRemoved log then c' = c else \<exists>s s'. retained c = Some s \<and> retained_event env s log = Inr s'
        \<and> c' = c\<lparr>retained := Some (s'\<lparr>received := max t (received s')\<rparr>), retainedBlock := lBlockNumber log,
             retainedHash := lBlockHash log, retainedIndex := lIndex log, retainedHasLog := True,
             observationJournal := Record sha log (observationJournal c)\<rparr>)"
proof (cases "lRemoved log \<or> lBlockHash log = empty_hash \<or> retained c = None \<or> lTopics log = []")
  case True
  then show ?thesis
    by (auto simp: applyLiveRetainedLog_def applyRetainedLogMode_def Let_def split: option.splits)
next
  case False
  then obtain s where s: "retained c = Some s" by auto
  have max: "(if t > received s' then s'\<lparr>received := t\<rparr> else s') = s'\<lparr>received := max t (received s')\<rparr>" for s'
    by (simp add: max_def)
  show ?thesis
    using False s
    by (cases "retained_event env s log")
      (simp_all add: applyLiveRetainedLog_def applyRetainedLogMode_def Let_def max)
qed

section \<open>Live notifications\<close>

type_synonym retainedLogKey = "u64 \<times> u64 \<times> Hash \<times> bool"

record retainedLogOrder =
  oSeen :: "(retainedLogKey \<times> Log) list"
  oQueue :: "retainedLogKey list"

definition live_key :: "Log \<Rightarrow> retainedLogKey" where
  "live_key log = (lBlockNumber log, lIndex log, lBlockHash log, lRemoved log)"

definition order_add :: "retainedLogKey \<Rightarrow> Log \<Rightarrow> retainedLogOrder \<Rightarrow> retainedLogOrder" where
  "order_add key log ord =
     (let ord = (if length (oQueue ord) = 4096
                 then ord\<lparr>oSeen := AList.delete (hd (oQueue ord)) (oSeen ord), oQueue := tl (oQueue ord)\<rparr> else ord)
      in ord\<lparr>oSeen := AList.update key log (oSeen ord), oQueue := oQueue ord @ [key]\<rparr>)"

definition same_log :: "Log \<Rightarrow> Log \<Rightarrow> bool" where
  "same_log previous log \<longleftrightarrow> lAddress previous = lAddress log \<and> lTxHash previous = lTxHash log
     \<and> lTxIndex previous = lTxIndex log \<and> lTopics previous = lTopics log \<and> lData previous = lData log"

definition accept :: "Log \<Rightarrow> (retainedLogOrder, bool) proc" where
  "accept log =
     (if lBlockHash log = empty_hash then throw (Fail ''missing block hash'')
      else if lTopics log = [] then throw (Fail ''missing event topics'')
      else reading (\<lambda>ord. case map_of (oSeen ord) (live_key log) of
        Some previous \<Rightarrow> (if same_log previous log then ret True else throw (Fail ''log content conflict''))
      | None \<Rightarrow> andthen (update (order_add (live_key log) log)) (\<lambda>_. ret False)))"

definition order_inv :: "retainedLogOrder \<Rightarrow> bool" where
  "order_inv ord \<longleftrightarrow> distinct (map fst (oSeen ord)) \<and> distinct (oQueue ord)
     \<and> set (oQueue ord) = dom (map_of (oSeen ord)) \<and> length (oQueue ord) \<le> 4096"

lemma order_add_new:
  "oQueue (order_add k v ord) = (if length (oQueue ord) = 4096 then tl (oQueue ord) else oQueue ord) @ [k]"
  "map_of (oSeen (order_add k v ord)) =
     (if length (oQueue ord) = 4096 then (map_of (oSeen ord))(hd (oQueue ord) := None) else map_of (oSeen ord))(k \<mapsto> v)"
  by (simp_all add: order_add_def Let_def map_of_update map_of_delete)

text \<open>\<open>accept\<close> adds only new keys, so the contract's invariant is stated for them.\<close>

definition order_insert :: "retainedLogKey \<Rightarrow> Log \<Rightarrow> retainedLogOrder \<Rightarrow> retainedLogOrder" where
  "order_insert k v ord = (if map_of (oSeen ord) k = None then order_add k v ord else ord)"

lemma order_add_inv:
  assumes inv: "order_inv ord" and new: "map_of (oSeen ord) k = None"
  shows "order_inv (order_add k v ord)"
proof (cases "length (oQueue ord) = 4096")
  case True
  then obtain q qs where q: "oQueue ord = q # qs" by (cases "oQueue ord") auto
  have "distinct (q # qs)" "set (q # qs) = dom (map_of (oSeen ord))" "distinct (map fst (oSeen ord))"
    using inv q by (simp_all add: order_inv_def)
  then show ?thesis
    using True q new order_add_new [of k v ord]
    by (auto simp: order_inv_def order_add_def Let_def AList.distinct_update AList.distinct_delete map_of_update map_of_delete)
next
  case False
  then show ?thesis
    using inv new order_add_new [of k v ord]
    by (auto simp: order_inv_def order_add_def Let_def AList.distinct_update map_of_update)
qed

interpretation live_order: bounded_table 4096 order_inv oQueue "\<lambda>ord. map_of (oSeen ord)" order_insert
proof
  show "(0::nat) < 4096" by simp
  fix ord k v k'
  assume inv: "order_inv ord"
  then show "distinct (oQueue ord) \<and> set (oQueue ord) = dom (map_of (oSeen ord)) \<and> length (oQueue ord) \<le> 4096"
    by (simp add: order_inv_def)
  then have dom: "distinct (oQueue ord)" "set (oQueue ord) = dom (map_of (oSeen ord))" by simp_all
  show "order_inv (order_insert k v ord)" using inv order_add_inv by (simp add: order_insert_def)
  assume new: "map_of (oSeen ord) k = None"
  show "oQueue (order_insert k v ord) = (if length (oQueue ord) = 4096 then tl (oQueue ord) else oQueue ord) @ [k]"
    using new by (simp add: order_insert_def order_add_new)
  show "map_of (oSeen (order_insert k v ord)) k' =
     (if k' = k then Some v else if k' \<in> set (oQueue (order_insert k v ord)) then map_of (oSeen ord) k' else None)"
  proof (cases "oQueue ord")
    case Nil
    then show ?thesis using dom new by (auto simp: order_insert_def order_add_new domIff)
  next
    case (Cons q qs)
    then show ?thesis using dom new by (auto simp: order_insert_def order_add_new domIff fun_eq_iff)
  qed
qed

text \<open>
  A live notification is delivered once (\<open>accept\<close>): when it is accepted, or recognised as
  a duplicate, the same notification is a duplicate from then on, the table stays bounded
  and consistent, and "not a duplicate" is answered only for an identity (block, index, hash, removed flag)
  that is not in the table.
\<close>

lemma accept_once:
  assumes "order_inv ord" and "accept log ord = (Inr duplicate, ord')"
  shows "order_inv ord' \<and> accept log ord' = (Inr True, ord')
    \<and> (duplicate \<longleftrightarrow> live_key log \<in> set (oQueue ord)) \<and> live_key log \<in> set (oQueue ord')"
proof -
  have ok: "lBlockHash log \<noteq> empty_hash" "lTopics log \<noteq> []"
    using assms(2) by (auto simp: accept_def split: if_splits)
  show ?thesis
  proof (cases "map_of (oSeen ord) (live_key log)")
    case None
    then have "duplicate = False" "ord' = order_insert (live_key log) log ord"
      using assms(2) ok by (auto simp: accept_def order_insert_def)
    moreover have "live_key log \<notin> set (oQueue ord)"
      using live_order.inv_keys [OF assms(1)] None by auto
    moreover have "map_of (oSeen (order_insert (live_key log) log ord)) (live_key log) = Some log"
      by (rule live_order.add_found [OF assms(1) None])
    ultimately show ?thesis
      using ok live_order.inv_add [OF assms(1)] live_order.inv_keys
      by (auto simp: accept_def same_log_def)
  next
    case (Some previous)
    then have "duplicate" "ord' = ord" "same_log previous log"
      using assms(2) ok by (auto simp: accept_def split: if_splits)
    moreover have "live_key log \<in> set (oQueue ord)"
      using live_order.inv_keys [OF assms(1)] Some by auto
    ultimately show ?thesis using ok Some assms(1) by (simp add: accept_def)
  qed
qed

section \<open>Coverage of the window around the price\<close>

definition bitmapWord :: "int \<Rightarrow> int \<Rightarrow> int res" where
  "bitmapWord tick spacing =
     (if spacing = 0 then Inl (Panic ''division by zero'') else Inr (drop_bit 8 (compress tick spacing)))"

text \<open>The words of the window, from \<open>center - 1\<close> to \<open>center + 1\<close>, clipped to the tick range.\<close>

definition window_words :: "int \<Rightarrow> int \<Rightarrow> int \<Rightarrow> int list" where
  "window_words center minWord maxWord = [max (i32 (center - 1)) minWord .. min (i32 (center + 1)) maxWord]"

definition word_covered :: "'z poolSnapshot_scheme \<Rightarrow> int \<Rightarrow> bool" where
  "word_covered s w \<longleftrightarrow>
     (case words s w of None \<Rightarrow> False
      | Some b \<Rightarrow> list_all (\<lambda>i. bit b i \<longrightarrow> ticks s (i32 (i32 (i32 (w * 256) + int i) * sSpacing s)) \<noteq> None) [0..<256])"

definition retainedNeedsCapture :: "'z poolSnapshot_scheme option \<Rightarrow> bool res" where
  "retainedNeedsCapture cached =
     (case cached of None \<Rightarrow> Inr True
      | Some s \<Rightarrow>
          ebind (bitmapWord (sTick s) (sSpacing s)) (\<lambda>center.
          if windowCaptured s \<and> center \<noteq> windowCenter s then Inr True
          else ebind (bitmapWord (- 887272) (sSpacing s)) (\<lambda>minWord.
               ebind (bitmapWord 887272 (sSpacing s)) (\<lambda>maxWord.
               Inr (\<not> list_all (word_covered s) (window_words center minWord maxWord))))))"

section \<open>The initial price\<close>

record InitialPriceSnapshot =
  ipBlockNumber :: u64
  ipBlockHash :: Hash
  ipCapturedAt :: "int option"
  ipSqrtPriceX96 :: "int option"
  ipTick :: int

text \<open>The zero time is \<open>None\<close>. The state is the cache's \<open>initialPrice\<close> field.\<close>

definition StoreInitialPrice :: "InitialPriceSnapshot \<Rightarrow> (InitialPriceSnapshot option, unit) proc" where
  "StoreInitialPrice s =
     (if ipBlockHash s = empty_hash \<or> ipCapturedAt s = None then throw (Fail ''block_metadata=invalid'')
      else case ipSqrtPriceX96 s of None \<Rightarrow> throw (Fail ''slot0=invalid'')
      | Some p \<Rightarrow>
          if p \<le> 0 \<or> BitLen_gt p 160 \<or> ipTick s < - 887272 \<or> ipTick s > 887272
          then throw (Fail ''slot0=invalid'')
          else update (\<lambda>_. Some s))"

definition InitialPrice :: "(InitialPriceSnapshot option, InitialPriceSnapshot option) proc" where
  "InitialPrice = reading (\<lambda>stored. ret stored)"

section \<open>Witnesses\<close>

definition sample_abi :: AbiEnv where
  "sample_abi = \<lparr>keccak = (\<lambda>s. replicate 32 (of_nat (length s))),
     unpackSwap = (\<lambda>d. Inr (0, 0, be_int (slice d 64 96), be_int (slice d 96 128), 0))\<rparr>"

definition sample_mint_log :: Log where
  "sample_mint_log = \<lparr>lAddress = replicate 20 1,
     lTopics = [keccak sample_abi mintSignature, replicate 32 1, replicate 31 255 @ [196], replicate 31 0 @ [60]],
     lData = replicate 63 0 @ [100] @ replicate 64 0, lBlockNumber = 9, lTxHash = some_hash 3, lTxIndex = 0,
     lBlockHash = some_hash 9, lIndex = 4, lRemoved = False\<rparr>"

lemma sample_decoded: "decode_liquidity sample_abi 60 sample_mint_log = Inr (True, - 60, 60, 100)"
  by code_simp

definition sample_gross :: "int \<Rightarrow> int" where
  "sample_gross t = (if t = 60 \<or> t = - 60 then 10 ^ 18 else 0)"

definition sample_net :: "int \<Rightarrow> int" where
  "sample_net t = (if t = 60 then - (10 ^ 18) else if t = - 60 then 10 ^ 18 else 0)"

lemma sample_agrees: "agrees sample_gross sample_net sample_pool"
proof -
  have b2: "bit (2::int) i \<longleftrightarrow> i = 1" for i using bit_exp_iff [where 'a = int, of 1 i] by auto
  have b255: "bit (2 ^ 255 :: int) i \<longleftrightarrow> i = 255" for i by (simp only: bit_exp_iff) auto
  have n: "nat i = 1 \<longleftrightarrow> i = 1" "nat i = 255 \<longleftrightarrow> i = 255" for i by auto
  show ?thesis
    unfolding agrees_def sample_pool_def
    by (auto simp: sample_gross_def sample_net_def b2 b255 [simplified] n split: if_splits)
qed


lemma accept_once_witness:
  "accept sample_mint_log (snd (accept sample_mint_log \<lparr>oSeen = [], oQueue = []\<rparr>))
     = (Inr True, snd (accept sample_mint_log \<lparr>oSeen = [], oQueue = []\<rparr>))"
proof -
  have "fst (accept sample_mint_log \<lparr>oSeen = [], oQueue = []\<rparr>) = Inr False" by code_simp
  then have run: "accept sample_mint_log \<lparr>oSeen = [], oQueue = []\<rparr>
      = (Inr False, snd (accept sample_mint_log \<lparr>oSeen = [], oQueue = []\<rparr>))"
    by (metis prod.collapse)
  have "order_inv \<lparr>oSeen = [], oQueue = []\<rparr>" by (simp add: order_inv_def)
  from accept_once [OF this run] show ?thesis by simp
qed

end
