(* ===== verification/Raydium_Math.thy ===== *)
theory Raydium_Math
  imports Tick_Ratio Swap_Curve Proc
begin

text \<open>
  \<open>go/solana/raydium/clmm/math.go\<close>: Q64 arithmetic of Raydium's concentrated liquidity program:
  tick to price and back, amounts, the exact input step with the fee taken on either side, and
  the matching of limit orders. Amounts are \<open>uint64\<close> words; a \<open>big.Int\<close> read with \<open>Uint64\<close> keeps
  its low 64 bits (\<open>u64_of\<close>).
\<close>

section \<open>Definitions\<close>

definition feeRateDenominator :: u64 where "feeRateDenominator = 1000000"

abbreviation rayMinTick :: int where "rayMinTick \<equiv> - 443636"
abbreviation rayMaxTick :: int where "rayMaxTick \<equiv> 443636"
abbreviation q64 :: int where "q64 \<equiv> 2 ^ 64"

definition maxUint128 :: int where "maxUint128 = push_bit 128 1 - 1"

definition tickMultipliers :: "int list" where
  "tickMultipliers =
     [0xfffcb933bd6fb800, 0xfff97272373d4000, 0xfff2e50f5f657000,
      0xffe5caca7e10f000, 0xffcb9843d60f7000, 0xff973b41fa98e800,
      0xff2ea16466c9b000, 0xfe5dee046a9a3800, 0xfcbe86c7900bb000,
      0xf987a7253ac65800, 0xf3392b0822bb6000, 0xe7159475a2caf000,
      0xd097f3bdfd2f2000, 0xa9f746462d9f8000, 0x70d869a156f31c00,
      0x31be135f97ed3200, 0x09aa508b5b85a500, 0x005d6af8dedc582c,
      0x00002216e584f5fa]"

record swapStep =
  sqrtPriceNext :: int
  amountIn :: u64
  amountOut :: u64
  feeAmount :: u64

record limitOrderMatch =
  lmAmountIn :: u64
  lmAmountOut :: u64
  lmFeeAmount :: u64
  lmOrdersRemain :: bool

definition divCeil :: "int \<Rightarrow> int \<Rightarrow> int res" where
  "divCeil numerator denominator = quo_rem_up numerator denominator"

definition mulDivFloor64 :: "u64 \<Rightarrow> u64 \<Rightarrow> u64 \<Rightarrow> u64 res" where
  "mulDivFloor64 v m d = ebind (big_Div (uint v * uint m) (uint d)) (\<lambda>r. Inr (u64_of r))"

definition mulDivCeil64 :: "u64 \<Rightarrow> u64 \<Rightarrow> u64 \<Rightarrow> u64 res" where
  "mulDivCeil64 v m d = ebind (divCeil (uint v * uint m) (uint d)) (\<lambda>r. Inr (u64_of r))"

definition limitOrderOutput :: "u64 \<Rightarrow> int \<Rightarrow> bool \<Rightarrow> int res" where
  "limitOrderOutput amount token0PriceX64 zeroForOne =
     (if zeroForOne then big_Div (uint amount * token0PriceX64) q64
      else big_Div (push_bit 64 (uint amount)) token0PriceX64)"

definition limitOrderInput :: "u64 \<Rightarrow> int \<Rightarrow> bool \<Rightarrow> int res" where
  "limitOrderInput amount token0PriceX64 zeroForOne =
     (if zeroForOne then divCeil (uint amount * token0PriceX64) q64
      else divCeil (push_bit 64 (uint amount)) token0PriceX64)"

text \<open>The last part of the match: the fee on the output, and whether orders remain.\<close>

definition finish_match :: "u32 \<Rightarrow> bool \<Rightarrow> u64 \<Rightarrow> limitOrderMatch \<Rightarrow> limitOrderMatch res" where
  "finish_match feeRate feeOnInput totalOrders result =
     (let consumedGrossOutput = lmAmountOut result
      in ebind (if feeOnInput then Inr result
                else ebind (mulDivCeil64 (lmAmountOut result) (ucast feeRate) feeRateDenominator) (\<lambda>fee.
                     if fee > lmAmountOut result then Inl (Fail ''fee_amount=out_of_range'')
                     else Inr (result\<lparr>lmFeeAmount := fee, lmAmountOut := lmAmountOut result - fee\<rparr>))) (\<lambda>result.
         Inr (result\<lparr>lmOrdersRemain := consumedGrossOutput < totalOrders\<rparr>)))"

text \<open>The match itself, once the price and the orders have been validated.\<close>

definition match_orders :: "u64 \<Rightarrow> int \<Rightarrow> int \<Rightarrow> u32 \<Rightarrow> bool \<Rightarrow> bool \<Rightarrow> limitOrderMatch res" where
  "match_orders amountRemaining totalOrders token0PriceX64 feeRate zeroForOne feeOnInput =
     ebind (if feeOnInput then
              ebind (mulDivCeil64 amountRemaining (ucast feeRate) feeRateDenominator) (\<lambda>fee.
              if fee > amountRemaining then Inl (Fail ''fee_amount=out_of_range'')
              else Inr (fee, amountRemaining - fee))
            else Inr (0, amountRemaining)) (\<lambda>(feeAmt, amountForOrder).
     ebind (limitOrderOutput amountForOrder token0PriceX64 zeroForOne) (\<lambda>matchedOutput.
     ebind (if matchedOutput > totalOrders then
              ebind (limitOrderInput (u64_of totalOrders) token0PriceX64 (\<not> zeroForOne)) (\<lambda>needed.
              if \<not> IsUint64 needed then Inl (Fail ''amount_in=out_of_range'')
              else
                ebind (if feeOnInput
                       then mulDivCeil64 (u64_of needed) (ucast feeRate) (feeRateDenominator - ucast feeRate)
                       else Inr feeAmt) (\<lambda>fee.
                Inr \<lparr>lmAmountIn = u64_of needed, lmAmountOut = u64_of totalOrders,
                     lmFeeAmount = fee, lmOrdersRemain = False\<rparr>))
            else if \<not> IsUint64 matchedOutput then Inl (Fail ''amount_out=out_of_range'')
            else Inr \<lparr>lmAmountIn = amountForOrder, lmAmountOut = u64_of matchedOutput,
                      lmFeeAmount = feeAmt, lmOrdersRemain = False\<rparr>) (\<lambda>result.
     finish_match feeRate feeOnInput (u64_of totalOrders) result)))"

definition computeExactInputLimitOrderMatch ::
  "int option \<Rightarrow> u64 \<Rightarrow> u64 \<Rightarrow> u64 \<Rightarrow> u32 \<Rightarrow> bool \<Rightarrow> bool \<Rightarrow> limitOrderMatch res" where
  "computeExactInputLimitOrderMatch sqrtPrice amountRemaining ordersAmount partFilled feeRate zeroForOne feeOnInput =
     (case sqrtPrice of None \<Rightarrow> Inl (Fail ''sqrt_price=invalid'')
      | Some sqrtPrice \<Rightarrow>
        if sqrtPrice \<le> 0 then Inl (Fail ''sqrt_price=invalid'')
        else if ucast feeRate \<ge> feeRateDenominator then Inl (Fail ''fee_rate=out_of_range'')
        else
          (let totalOrders = uint ordersAmount + uint partFilled
           in if \<not> IsUint64 totalOrders then Inl (Fail ''orders_amount=out_of_range'')
              else if amountRemaining = 0 \<or> totalOrders = 0
              then Inr \<lparr>lmAmountIn = 0, lmAmountOut = 0, lmFeeAmount = 0, lmOrdersRemain = totalOrders > 0\<rparr>
              else
                (let priceNumerator = (if zeroForOne then sqrtPrice * sqrtPrice else sqrtPrice * sqrtPrice + (q64 - 1));
                     token0PriceX64 = drop_bit 64 priceNumerator
                 in if token0PriceX64 \<le> 0 \<or> BitLen_gt token0PriceX64 128 then Inl (Fail ''price=out_of_range'')
                    else
                      match_orders amountRemaining totalOrders token0PriceX64 feeRate zeroForOne feeOnInput)))"

definition ray_ratio :: "int \<Rightarrow> int" where
  "ray_ratio n = factor_loop 64 0 n tickMultipliers q64"

definition sqrtPriceAtTick :: "int \<Rightarrow> int res" where
  "sqrtPriceAtTick tick =
     (if tick < rayMinTick \<or> tick > rayMaxTick then Inl (Fail ''tick=out_of_range'')
      else
        (let absTick = (if tick < 0 then - tick else tick);
             ratio = ray_ratio absTick
         in if tick > 0 then big_Div maxUint128 ratio else Inr ratio))"

text \<open>
  The binary search of \<open>tickAtSqrtPrice\<close>, with fuel: \<open>None\<close> means that it has not returned
  within \<open>fuel\<close> turns (\<open>tick_search_correct\<close> shows that 20 turns always suffice).
\<close>

fun tick_search :: "nat \<Rightarrow> int \<Rightarrow> int \<Rightarrow> int \<Rightarrow> int res option" where
  "tick_search fuel p low high =
     (if low < high then
        (case fuel of 0 \<Rightarrow> None
         | Suc k \<Rightarrow>
            (let middle = i32 (low + i32 (i32 (high - low) + 1) sdiv 2)
             in case sqrtPriceAtTick middle of
                  Inl _ \<Rightarrow> Some (Inl (Panic ''nil dereference''))
                | Inr middlePrice \<Rightarrow>
                    if middlePrice \<le> p then tick_search k p middle high
                    else tick_search k p low (i32 (middle - 1))))
      else Some (Inr low))"

declare tick_search.simps [simp del]

definition tickAtSqrtPrice :: "int \<Rightarrow> int res" where
  "tickAtSqrtPrice p =
     ebind (sqrtPriceAtTick rayMinTick) (\<lambda>minimum.
     ebind (sqrtPriceAtTick rayMaxTick) (\<lambda>maximum.
     if p < minimum \<or> p \<ge> maximum then Inl (Fail ''sqrt_price=out_of_range'')
     else case tick_search 20 p rayMinTick rayMaxTick of
            None \<Rightarrow> Inl (Panic ''no termination'') | Some r \<Rightarrow> r))"

definition deltaAmounts :: "int \<Rightarrow> int \<Rightarrow> int \<Rightarrow> bool \<Rightarrow> (u64 \<times> u64) res" where
  "deltaAmounts a b liquidity zeroForOne =
     (if a \<le> 0 \<or> b \<le> 0 \<or> liquidity < 0 then Inl (Fail ''value=invalid'')
      else
        (let (low, high) = (if a > b then (b, a) else (a, b));
             amount1X64 = liquidity * (high - low);
             product = low * high
         in ebind (if zeroForOne
                   then ebind (divCeil (push_bit 64 amount1X64) product) (\<lambda>i. Inr (i, drop_bit 64 amount1X64))
                   else ebind (divCeil amount1X64 q64) (\<lambda>i.
                        ebind (big_Div (push_bit 64 amount1X64) product) (\<lambda>out. Inr (i, out)))) (\<lambda>(i, out).
            if \<not> IsUint64 i \<or> \<not> IsUint64 out then Inl (Fail ''amount=out_of_range'')
            else Inr (u64_of i, u64_of out))))"

definition nextSqrtPriceFromInput :: "int \<Rightarrow> int \<Rightarrow> u64 \<Rightarrow> bool \<Rightarrow> int res" where
  "nextSqrtPriceFromInput current liquidity amount zeroForOne =
     (if liquidity \<le> 0 then Inl (Fail ''liquidity=empty'')
      else if amount = 0 then Inr current
      else if zeroForOne then
        (let numerator = push_bit 64 liquidity;
             denominator = numerator + uint amount * current
         in divCeil (numerator * current) denominator)
      else ebind (big_Div (push_bit 64 (uint amount)) liquidity) (\<lambda>quotient. Inr (current + quotient)))"

text \<open>The second half of the step: the fee, on the input or on the output.\<close>

definition step_fee :: "u64 \<Rightarrow> u32 \<Rightarrow> bool \<Rightarrow> bool \<Rightarrow> swapStep \<Rightarrow> swapStep res" where
  "step_fee amountRemaining feeRate feeOnInput reachesTarget result =
     (if feeOnInput then
        (if \<not> reachesTarget then
           (if amountIn result > amountRemaining then Inl (Fail ''amount_in=out_of_range'')
            else Inr (result\<lparr>feeAmount := amountRemaining - amountIn result\<rparr>))
         else ebind (mulDivCeil64 (amountIn result) (ucast feeRate) (feeRateDenominator - ucast feeRate)) (\<lambda>fee.
              Inr (result\<lparr>feeAmount := fee\<rparr>)))
      else
        ebind (mulDivCeil64 (amountOut result) (ucast feeRate) feeRateDenominator) (\<lambda>fee.
        if fee > amountOut result then Inl (Fail ''fee_amount=out_of_range'')
        else
          (let result = result\<lparr>feeAmount := fee, amountOut := amountOut result - fee\<rparr>
           in Inr (if \<not> reachesTarget then result\<lparr>amountIn := amountRemaining\<rparr> else result))))"

definition computeExactInputStep :: "int \<Rightarrow> int \<Rightarrow> int \<Rightarrow> u64 \<Rightarrow> u32 \<Rightarrow> bool \<Rightarrow> bool \<Rightarrow> swapStep res" where
  "computeExactInputStep current target liquidity amountRemaining feeRate zeroForOne feeOnInput =
     (if (ucast feeRate :: u64) \<ge> feeRateDenominator then Inl (Fail ''fee_rate=out_of_range'')
      else
        ebind (if feeOnInput then mulDivFloor64 amountRemaining (feeRateDenominator - ucast feeRate) feeRateDenominator
               else Inr amountRemaining) (\<lambda>amountForPrice.
        let maximum = deltaAmounts target current liquidity zeroForOne
        in case maximum of
             Inr (maxIn, maxOut) \<Rightarrow>
               if amountForPrice \<ge> maxIn
               then step_fee amountRemaining feeRate feeOnInput True
                      \<lparr>sqrtPriceNext = target, amountIn = maxIn, amountOut = maxOut, feeAmount = 0\<rparr>
               else
                 ebind (nextSqrtPriceFromInput current liquidity amountForPrice zeroForOne) (\<lambda>next.
                 ebind (deltaAmounts next current liquidity zeroForOne) (\<lambda>(i, out).
                 step_fee amountRemaining feeRate feeOnInput False
                   \<lparr>sqrtPriceNext = next, amountIn = i, amountOut = out, feeAmount = 0\<rparr>))
           | Inl _ \<Rightarrow>
               ebind (nextSqrtPriceFromInput current liquidity amountForPrice zeroForOne) (\<lambda>next.
               ebind (deltaAmounts next current liquidity zeroForOne) (\<lambda>(i, out).
               step_fee amountRemaining feeRate feeOnInput False
                 \<lparr>sqrtPriceNext = next, amountIn = i, amountOut = out, feeAmount = 0\<rparr>))))"

section \<open>Ticks and prices\<close>

lemma ray_check: "falling_check 1000000 49 64 tickMultipliers (2 ^ 64)"
  by code_simp

lemma ray_least: "least_ratio 64 tickMultipliers (2 ^ 64) = 76162531"
  by code_simp

lemma ray_small: "\<forall>f \<in> set tickMultipliers. f \<le> 2 ^ 64"
  by (simp add: tickMultipliers_def)

lemma ray_length: "length tickMultipliers = 19"
  by (simp add: tickMultipliers_def)

interpretation ray: falling_ticks 64 tickMultipliers 1000000 49
  by unfold_locales (simp_all add: ray_check [simplified] ray_least [simplified] ray_length)

lemma ray_ratio_bounds: "76162531 \<le> ray_ratio n" "ray_ratio n \<le> 2 ^ 64"
  using ray.ratio_ge [of n] ray.ratio_le [OF ray_small, of n] by (simp_all add: ray_ratio_def ray_least [simplified])

lemma ray_ratio_step: "0 \<le> m \<Longrightarrow> m < 443636 \<Longrightarrow> ray_ratio (m + 1) + 1 \<le> ray_ratio m"
  using ray.ratio_diff [of m 1] by (simp add: ray_ratio_def ray_length ray_least [simplified])

lemma ray_inverse_step:
  assumes "0 \<le> m" and "m < 443636"
  shows "maxUint128 div ray_ratio m + 1 \<le> maxUint128 div ray_ratio (m + 1)"
proof -
  have "(1 + 1) * (1000000 + 49 - 19) * ray_ratio (m + 1) \<le> (1 + 1) * (1000000 + 49 - 19) * 2 ^ 64"
    using ray_ratio_bounds(2) by (intro mult_left_mono) auto
  also have "\<dots> \<le> (49 - 19) * maxUint128" by (simp add: maxUint128_def)
  finally show ?thesis
    using ray.inverse_diff [of m maxUint128 1] assms
    by (simp add: ray_ratio_def ray_length ray_least [simplified] maxUint128_def)
qed

text \<open>The price at a tick of the range, without the error result.\<close>

definition ray_sqrt :: "int \<Rightarrow> int" where
  "ray_sqrt t = (if t > 0 then maxUint128 div ray_ratio t else ray_ratio (- t))"

lemma sqrtPriceAtTick_eq:
  "rayMinTick \<le> t \<Longrightarrow> t \<le> rayMaxTick \<Longrightarrow> sqrtPriceAtTick t = Inr (ray_sqrt t)"
  using ray_ratio_bounds(1) [of t]
  by (auto simp: sqrtPriceAtTick_def ray_sqrt_def big_Div_pos Let_def)

lemma ray_ratio_0: "ray_ratio 0 = 2 ^ 64"
  by code_simp

lemma ray_sqrt_1: "ray_sqrt 1 = 18447666387855957090"
  by code_simp

lemma ray_sqrt_step:
  assumes "rayMinTick \<le> t" and "t < rayMaxTick"
  shows "ray_sqrt t < ray_sqrt (t + 1)"
proof (cases t "0::int" rule: linorder_cases)
  case less
  then show ?thesis using ray_ratio_step [of "- t - 1"] assms by (simp add: ray_sqrt_def)
next
  case equal
  then show ?thesis using ray_sqrt_1 by (simp add: ray_sqrt_def ray_ratio_0)
next
  case greater
  then show ?thesis using ray_inverse_step [of t] assms by (simp add: ray_sqrt_def)
qed

lemma ray_sqrt_less: "rayMinTick \<le> a \<Longrightarrow> a < b \<Longrightarrow> b \<le> rayMaxTick \<Longrightarrow> ray_sqrt a < ray_sqrt b"
  using int_step_strict_mono [of rayMinTick rayMaxTick ray_sqrt a b] ray_sqrt_step by blast

lemma ray_sqrt_pos: "rayMinTick \<le> t \<Longrightarrow> t \<le> rayMaxTick \<Longrightarrow> 0 < ray_sqrt t"
  using ray_ratio_bounds [of t] ray_ratio_bounds [of "- t"]
  by (auto simp: ray_sqrt_def pos_imp_zdiv_pos_iff maxUint128_def)

text \<open>The search: the interval halves, and keeps the answer inside.\<close>

lemma tick_search_correct:
  assumes "rayMinTick \<le> low" and "low \<le> high" and "high \<le> rayMaxTick" and "high - low < 2 ^ k"
    and "ray_sqrt low \<le> p" and "\<And>t. high < t \<Longrightarrow> t \<le> rayMaxTick \<Longrightarrow> p < ray_sqrt t"
  shows "\<exists>t. tick_search k p low high = Some (Inr t) \<and> low \<le> t \<and> t \<le> high \<and> ray_sqrt t \<le> p
    \<and> (\<forall>t'. t < t' \<longrightarrow> t' \<le> rayMaxTick \<longrightarrow> p < ray_sqrt t')"
  using assms
proof (induction k arbitrary: low high)
  case 0
  then show ?case by (simp add: tick_search.simps)
next
  case (Suc k)
  show ?case
  proof (cases "low < high")
    case False
    then show ?thesis using Suc.prems by (auto simp: tick_search.simps)
  next
    case True
    define m where "m = low + (high - low + 1) div 2"
    have m: "low < m" "m \<le> high" using True by (auto simp: m_def)
    have "(high - low + 1) sdiv 2 = (high - low + 1) div 2" using True by (intro sdiv_nonneg) auto
    then have mid: "i32 (low + i32 (i32 (high - low) + 1) sdiv 2) = m" "i32 (m - 1) = m - 1"
      using Suc.prems(1,3) True m by (simp_all add: m_def)
    have price: "sqrtPriceAtTick m = Inr (ray_sqrt m)" using Suc.prems(1,3) m by (intro sqrtPriceAtTick_eq) auto
    have step: "tick_search (Suc k) p low high = (if ray_sqrt m \<le> p then tick_search k p m high else tick_search k p low (m - 1))"
      using True by (simp add: tick_search.simps [of "Suc k"] mid price Let_def)
    have half: "high - m < 2 ^ k" "m - 1 - low < 2 ^ k" using Suc.prems(4) by (simp_all add: m_def)
    show ?thesis
    proof (cases "ray_sqrt m \<le> p")
      case True
      then show ?thesis
        using Suc.IH [of m high] Suc.prems m half step by (auto intro: order_trans less_imp_le)
    next
      case False
      have later: "p < ray_sqrt t" if "m - 1 < t" "t \<le> rayMaxTick" for t
        using False ray_sqrt_less [of m t] that Suc.prems(1) m by (cases "t = m") auto
      show ?thesis
        using Suc.IH [of low "m - 1"] Suc.prems m half step False later by fastforce
    qed
  qed
qed

lemma tickAtSqrtPrice_found:
  assumes "ray_sqrt rayMinTick \<le> p" and "p < ray_sqrt rayMaxTick"
  shows "\<exists>t. tickAtSqrtPrice p = Inr t \<and> rayMinTick \<le> t \<and> t < rayMaxTick \<and> ray_sqrt t \<le> p \<and> p < ray_sqrt (t + 1)"
proof -
  have top: "p < ray_sqrt t" if "rayMaxTick < t" "t \<le> rayMaxTick" for t using that by simp
  obtain t where t: "tick_search 20 p rayMinTick rayMaxTick = Some (Inr t)" "rayMinTick \<le> t" "t \<le> rayMaxTick"
    "ray_sqrt t \<le> p" "\<forall>t'. t < t' \<longrightarrow> t' \<le> rayMaxTick \<longrightarrow> p < ray_sqrt t'"
    using tick_search_correct [of rayMinTick rayMaxTick 20 p, OF _ _ _ _ assms(1) top] by auto
  have "t \<noteq> rayMaxTick" using t(4) assms(2) by auto
  with t(3) have lt: "t < rayMaxTick" by simp
  moreover have "tickAtSqrtPrice p = Inr t"
    using assms t(1) by (simp add: tickAtSqrtPrice_def sqrtPriceAtTick_eq)
  ultimately show ?thesis using t by auto
qed

lemma tickAtSqrtPrice_refused:
  "p < ray_sqrt rayMinTick \<or> ray_sqrt rayMaxTick \<le> p \<Longrightarrow> tickAtSqrtPrice p = Inl (Fail ''sqrt_price=out_of_range'')"
  by (auto simp: tickAtSqrtPrice_def sqrtPriceAtTick_eq)

text \<open>
  C12. Price to tick (\<open>tickAtSqrtPrice\<close>) inverts tick to price: for every price from that of
  the lowest tick up to (and excluding) that of the highest, the binary search returns, within 20
  turns, the one tick whose price is at most the given price while the price of the next tick is above it;
  every other price is refused. Tick to price is strictly increasing over the range, rounding included.
\<close>

theorem tickAtSqrtPrice_correct:
  "if ray_sqrt rayMinTick \<le> p \<and> p < ray_sqrt rayMaxTick
   then \<exists>t a b. tickAtSqrtPrice p = Inr t \<and> rayMinTick \<le> t \<and> t < rayMaxTick
     \<and> sqrtPriceAtTick t = Inr a \<and> sqrtPriceAtTick (t + 1) = Inr b \<and> a \<le> p \<and> p < b \<and> a < b
   else tickAtSqrtPrice p = Inl (Fail ''sqrt_price=out_of_range'')"
proof (cases "ray_sqrt rayMinTick \<le> p \<and> p < ray_sqrt rayMaxTick")
  case True
  then obtain t where t: "tickAtSqrtPrice p = Inr t" "rayMinTick \<le> t" "t < rayMaxTick" "ray_sqrt t \<le> p" "p < ray_sqrt (t + 1)"
    using tickAtSqrtPrice_found by blast
  then have "sqrtPriceAtTick t = Inr (ray_sqrt t)" "sqrtPriceAtTick (t + 1) = Inr (ray_sqrt (t + 1))"
    by (simp_all add: sqrtPriceAtTick_eq)
  then show ?thesis using True t by auto
next
  case False
  then show ?thesis using tickAtSqrtPrice_refused [of p] by auto
qed

theorem tickAtSqrtPrice_correct_witness: "\<exists>t. tickAtSqrtPrice (2 ^ 64 + 12345) = Inr t \<and> t < 443636"
proof -
  have "ray_sqrt rayMinTick \<le> 2 ^ 64 + 12345 \<and> 2 ^ 64 + 12345 < ray_sqrt rayMaxTick" by code_simp
  then show ?thesis using tickAtSqrtPrice_correct [of "2 ^ 64 + 12345"] by auto
qed

end
