(* ===== verification/Raydium_Step.thy ===== *)
theory Raydium_Step
  imports Raydium_Math
begin

text \<open>
  Correctness of Raydium's exact input step and limit order match (\<open>Raydium_Math\<close>): the step is
  an instance of the contract \<open>swap_step\<close>, whichever side the fee is taken on, although its
  amounts are confined to \<open>uint64\<close> and the target may be too far away to be valued in them.
\<close>

section \<open>Fees\<close>

lemma uint_ucast_rate [simp]: "uint (ucast (f :: u32) :: u64) = uint f"
  using uint_bounded [of f] by (simp add: unsigned_ucast_eq take_bit_int_eq_self)

lemma rate_out_of_range: "(feeRateDenominator \<le> (ucast (f :: u32) :: u64)) \<longleftrightarrow> 1000000 \<le> uint f"
  by (simp add: word_le_def feeRateDenominator_def)

lemma uint_denominator [simp]: "uint feeRateDenominator = 1000000"
  by (simp add: feeRateDenominator_def)

lemma uint_rate_rest: "uint (f :: u32) < 1000000 \<Longrightarrow> uint (feeRateDenominator - ucast f :: u64) = 1000000 - uint f"
  by (subst uint_sub_u64) (simp_all add: word_le_def)

lemma u64_of_bound: "0 \<le> n \<Longrightarrow> n \<le> uint (r :: u64) \<Longrightarrow> uint (u64_of n) = n"
  using uint64_bounds [of r] by (intro uint_u64_of) (simp add: IsUint64_def)

lemma mulDivCeil64_eq: "0 < uint d \<Longrightarrow> mulDivCeil64 v m d = Inr (u64_of (cdiv (uint v * uint m) (uint d)))"
  by (simp add: mulDivCeil64_def divCeil_def quo_rem_up_pos)

lemma mulDivFloor64_eq: "0 < uint d \<Longrightarrow> mulDivFloor64 v m d = Inr (u64_of (uint v * uint m div uint d))"
  by (simp add: mulDivFloor64_def big_Div_pos)

lemma share_le:
  fixes v f :: int
  assumes "0 \<le> v" "0 \<le> f" "f \<le> 1000000"
  shows "0 \<le> cdiv (v * f) 1000000" and "cdiv (v * f) 1000000 \<le> v" and "v * f \<le> cdiv (v * f) 1000000 * 1000000"
  using assms cdiv_mult_ge [of 1000000 "v * f"]
  by (auto simp: cdiv_le_iff cdiv_nonneg intro: mult_left_mono)

text \<open>The fee on the output, rounded up, never exceeds it.\<close>

lemma output_fee:
  assumes "uint (f :: u32) < 1000000"
  obtains fee where "mulDivCeil64 out (ucast f) feeRateDenominator = Inr fee"
    "uint fee = cdiv (uint out * uint f) 1000000" "fee \<le> out" "uint out * uint f \<le> uint fee * 1000000"
proof -
  note s = share_le [of "uint out" "uint f"]
  have u: "uint (u64_of (cdiv (uint out * uint f) 1000000)) = cdiv (uint out * uint f) 1000000"
    using s assms uint64_bounds [of out] by (intro u64_of_bound [of _ out]) simp_all
  then show thesis using that s assms by (simp add: mulDivCeil64_eq word_le_def)
qed

text \<open>What is left of the input for the price, and the fee on top of an amount that fits in it.\<close>

lemma input_rest:
  fixes r :: u64
  assumes "uint (f :: u32) < 1000000"
  obtains a where "mulDivFloor64 r (feeRateDenominator - ucast f) feeRateDenominator = Inr a"
    "uint a = uint r * (1000000 - uint f) div 1000000" "a \<le> r"
proof -
  have "uint r * (1000000 - uint f) \<le> uint r * 1000000"
    using uint64_bounds [of r] by (intro mult_left_mono) simp_all
  then have b: "uint r * (1000000 - uint f) div 1000000 \<le> uint r"
    using zdiv_mono1 [of _ _ 1000000] by fastforce
  have "0 \<le> uint r * (1000000 - uint f) div 1000000"
    using assms uint64_bounds [of r] by (simp add: pos_imp_zdiv_nonneg_iff)
  with b have "uint (u64_of (uint r * (1000000 - uint f) div 1000000)) = uint r * (1000000 - uint f) div 1000000"
    by (intro u64_of_bound)
  then show thesis using that b assms by (simp add: mulDivFloor64_eq uint_rate_rest word_le_def)
qed

lemma input_fee:
  fixes r :: u64
  assumes f: "uint (f :: u32) < 1000000" and i: "uint i \<le> uint r * (1000000 - uint f) div 1000000"
  obtains fee where "mulDivCeil64 i (ucast f) (feeRateDenominator - ucast f) = Inr fee"
    "uint i + uint fee \<le> uint r" "(uint i + uint fee) * uint f \<le> uint fee * 1000000"
proof -
  let ?c = "cdiv (uint i * uint f) (1000000 - uint f)"
  have le: "uint i + ?c \<le> uint r" using f i by (intro fee_total_le) simp_all
  have nn: "0 \<le> ?c" using f uint64_bounds [of i] by (intro cdiv_nonneg) simp_all
  have u: "uint (u64_of ?c) = ?c"
    using le nn uint64_bounds(1) [of i] by (intro u64_of_bound [of _ r]) linarith+
  have "uint i * uint f \<le> ?c * (1000000 - uint f)" using f by (intro cdiv_mult_ge) simp
  then have "(uint i + ?c) * uint f \<le> ?c * 1000000" by (simp add: algebra_simps)
  then show thesis using that le u f by (simp add: mulDivCeil64_eq uint_rate_rest)
qed

section \<open>Amounts and prices\<close>

definition fits :: "int \<Rightarrow> int \<Rightarrow> int \<Rightarrow> bool \<Rightarrow> bool" where
  "fits p t l zero \<longleftrightarrow> IsUint64 (amt q64 p t l zero True) \<and> IsUint64 (amt q64 p t l (\<not> zero) False)"

lemma deltaAmounts_amt:
  assumes "0 < a" "0 < b" "0 \<le> l"
  shows "deltaAmounts a b l zero =
    (if fits b a l zero then Inr (u64_of (amt q64 b a l zero True), u64_of (amt q64 b a l (\<not> zero) False))
     else Inl (Fail ''amount=out_of_range''))"
proof -
  have low: "\<bar>b - a\<bar> = (if a > b then a - b else b - a)" by simp
  have prod: "0 < a * b" using assms by simp
  have nn: "0 \<le> l * \<bar>b - a\<bar>" using assms by simp
  show ?thesis
    using assms prod nn
    by (cases "a > b"; cases zero)
       (auto simp: deltaAmounts_def fits_def amt_def cnum_def cden_def divCeil_def quo_rem_up_pos big_Div_pos
          push_bit_eq_mult drop_bit_eq_div Let_def mult_ac abs_minus_commute [of b a])
qed

lemma nextSqrtPriceFromInput_move:
  assumes "0 < p" "0 < l"
  shows "nextSqrtPriceFromInput p l a zero = Inr (move_in q64 p l (uint a) zero)"
proof (cases "a = 0")
  case True
  have "cdiv (q64 * l * p) (q64 * l) = p" using assms by (intro cdiv_mult_self) simp
  then show ?thesis using True assms by (simp add: nextSqrtPriceFromInput_def move_in_def)
next
  case False
  have "0 < q64 * l + uint a * p" using assms by (simp add: add_pos_nonneg)
  then show ?thesis
    using False assms
    by (simp add: nextSqrtPriceFromInput_def move_in_def divCeil_def quo_rem_up_pos big_Div_pos
        push_bit_eq_mult Let_def mult_ac)
qed

section \<open>The step\<close>

lemma step_input_case:
  assumes f: "uint f < 1000000" and i: "uint (amountIn st) \<le> uint r * (1000000 - uint f) div 1000000"
  obtains fee where "step_fee r f True reached st = Inr (st\<lparr>feeAmount := fee\<rparr>)"
    "uint (amountIn st) + uint fee \<le> uint r" "\<not> reached \<Longrightarrow> uint (amountIn st) + uint fee = uint r"
    "(uint (amountIn st) + uint fee) * uint f \<le> uint fee * 1000000"
proof (cases reached)
  case True
  obtain fee where "mulDivCeil64 (amountIn st) (ucast f) (feeRateDenominator - ucast f) = Inr fee"
    "uint (amountIn st) + uint fee \<le> uint r"
    "(uint (amountIn st) + uint fee) * uint f \<le> uint fee * 1000000"
    using input_fee [OF f i] by metis
  then show thesis using that [of fee] True by (simp add: step_fee_def)
next
  case False
  have "uint (amountIn st) * 1000000 \<le> uint r * (1000000 - uint f)" using i by (simp add: le_div_iff_mult_le)
  then have share: "uint r * uint f \<le> (uint r - uint (amountIn st)) * 1000000" by (simp add: algebra_simps)
  have "0 \<le> uint r * uint f" by simp
  then have "0 \<le> (uint r - uint (amountIn st)) * 1000000" using share by (rule order_trans)
  then have le: "amountIn st \<le> r" by (simp add: word_le_def)
  then show thesis using that [of "r - amountIn st"] False share by (simp add: step_fee_def uint_sub_u64 not_less)
qed

lemma step_output_case:
  assumes f: "uint f < 1000000"
  obtains fee where "step_fee r f False reached st =
      Inr (st\<lparr>feeAmount := fee, amountOut := amountOut st - fee, amountIn := if reached then amountIn st else r\<rparr>)"
    "uint (amountOut st - fee) + uint fee = uint (amountOut st)"
    "uint (amountOut st) * uint f \<le> uint fee * 1000000"
proof -
  obtain fee where fee: "mulDivCeil64 (amountOut st) (ucast f) feeRateDenominator = Inr fee"
    "fee \<le> amountOut st" "uint (amountOut st) * uint f \<le> uint fee * 1000000"
    using output_fee [OF f] by metis
  then show thesis using that [of fee] by (simp add: step_fee_def uint_sub_u64 not_less Let_def)
qed

text \<open>Input and output of a step before the fee on the output.\<close>

definition spent :: "bool \<Rightarrow> swapStep \<Rightarrow> int" where
  "spent feeOnInput st = (if feeOnInput then uint (amountIn st) + uint (feeAmount st) else uint (amountIn st))"

definition gross_out :: "bool \<Rightarrow> swapStep \<Rightarrow> int" where
  "gross_out feeOnInput st = (if feeOnInput then uint (amountOut st) else uint (amountOut st) + uint (feeAmount st))"

definition ray_facts :: "int \<Rightarrow> int \<Rightarrow> u64 \<Rightarrow> u32 \<Rightarrow> bool \<Rightarrow> bool \<Rightarrow> swapStep \<Rightarrow> bool" where
  "ray_facts p t r f zero onIn st \<longleftrightarrow>
     toward zero p t (sqrtPriceNext st) \<and> spent onIn st \<le> uint r \<and> (sqrtPriceNext st \<noteq> t \<longrightarrow> spent onIn st = uint r)
     \<and> fair q64 zero p (uint (amountIn st)) (gross_out onIn st)
     \<and> (if onIn then spent onIn st else gross_out onIn st) * uint f \<le> uint (feeAmount st) * 1000000"

text \<open>The part after the price and the amounts are known.\<close>

lemma step_fee_facts:
  assumes f: "uint f < 1000000" and a: "uint a \<le> uint r" "onIn \<Longrightarrow> uint a = uint r * (1000000 - uint f) div 1000000"
    and q: "0 < p" "0 < q" "0 \<le> l" "toward zero p t q" "reached \<longleftrightarrow> q = t"
    and i: "amt q64 p q l zero True \<le> uint a" and fit: "fits p q l zero"
  shows "\<exists>st. step_fee r f onIn reached \<lparr>sqrtPriceNext = q, amountIn = u64_of (amt q64 p q l zero True),
      amountOut = u64_of (amt q64 p q l (\<not> zero) False), feeAmount = 0\<rparr> = Inr st \<and> ray_facts p t r f zero onIn st"
proof -
  let ?st = "\<lparr>sqrtPriceNext = q, amountIn = u64_of (amt q64 p q l zero True),
      amountOut = u64_of (amt q64 p q l (\<not> zero) False), feeAmount = 0\<rparr>"
  have u: "uint (amountIn ?st) = amt q64 p q l zero True" "uint (amountOut ?st) = amt q64 p q l (\<not> zero) False"
    using fit by (simp_all add: fits_def uint_u64_of)
  have dir: "if zero then q \<le> p else p \<le> q" using q(4) by (simp add: toward_def split: if_splits)
  have fair: "fair q64 zero p (uint (amountIn ?st)) (uint (amountOut ?st))"
    unfolding u using q dir by (intro amt_fair) simp_all
  show ?thesis
  proof (cases onIn)
    case True
    have "uint (amountIn ?st) \<le> uint r * (1000000 - uint f) div 1000000" using u i a(2) True by simp
    from step_input_case [OF f this, of reached] obtain fee where
      "step_fee r f True reached ?st = Inr (?st\<lparr>feeAmount := fee\<rparr>)" "uint (amountIn ?st) + uint fee \<le> uint r"
      "\<not> reached \<Longrightarrow> uint (amountIn ?st) + uint fee = uint r"
      "(uint (amountIn ?st) + uint fee) * uint f \<le> uint fee * 1000000" by metis
    then show ?thesis using fair q True by (simp add: ray_facts_def spent_def gross_out_def)
  next
    case False
    from step_output_case [OF f, of r reached ?st] obtain fee where
      run: "step_fee r f False reached ?st = Inr (?st\<lparr>feeAmount := fee, amountOut := amountOut ?st - fee,
          amountIn := if reached then amountIn ?st else r\<rparr>)"
      and fee: "uint (amountOut ?st - fee) + uint fee = uint (amountOut ?st)"
      "uint (amountOut ?st) * uint f \<le> uint fee * 1000000" by metis
    have le: "uint (amountIn ?st) \<le> uint r" using u i a(1) by linarith
    from fair le have "fair q64 zero p (uint r) (uint (amountOut ?st))" by (rule fair_le) simp
    with fair le have "fair q64 zero p (uint (if reached then amountIn ?st else r)) (uint (amountOut ?st))"
      "uint (if reached then amountIn ?st else r) \<le> uint r" by (simp_all split del: if_split cong del: if_weak_cong) (simp_all split: if_splits)
    then show ?thesis using run fee q False
      by (simp only: ray_facts_def spent_def gross_out_def swapStep.simps) (simp add: split: if_splits)
  qed
qed

lemma computeExactInputStep_cases:
  assumes pos: "0 < p" "0 < t" "0 \<le> l" and dir: "if zero then t \<le> p else p \<le> t" and f: "uint f < 1000000"
  shows "computeExactInputStep p t l r f zero onIn = Inl (Fail ''amount=out_of_range'') \<and> \<not> fits p t l zero
    \<or> (\<exists>st. computeExactInputStep p t l r f zero onIn = Inr st \<and> ray_facts p t r f zero onIn st)"
proof -
  obtain a where a: "(if onIn then mulDivFloor64 r (feeRateDenominator - ucast f) feeRateDenominator else Inr r) = Inr a"
    "uint a \<le> uint r" "onIn \<Longrightarrow> uint a = uint r * (1000000 - uint f) div 1000000"
  proof (cases onIn)
    case True
    obtain b where "mulDivFloor64 r (feeRateDenominator - ucast f) feeRateDenominator = Inr b"
      "uint b = uint r * (1000000 - uint f) div 1000000" "b \<le> r" using input_rest [OF f] by metis
    then show thesis using that [of b] True by (simp add: word_le_def)
  next
    case False
    then show thesis using that [of r] by simp
  qed
  have nn: "0 \<le> uint a" by simp
  let ?C = "computeExactInputStep p t l r f zero onIn"
  show ?thesis
  proof (cases "fits p t l zero \<and> amt q64 p t l zero True \<le> uint a")
    case True
    then have "?C = step_fee r f onIn True \<lparr>sqrtPriceNext = t, amountIn = u64_of (amt q64 p t l zero True),
        amountOut = u64_of (amt q64 p t l (\<not> zero) False), feeAmount = 0\<rparr>"
      using a pos f by (simp add: computeExactInputStep_def rate_out_of_range deltaAmounts_amt fits_def uint_u64_of
          word_le_def not_le split del: if_split)
    moreover have "toward zero p t t" using dir by (simp add: toward_def)
    ultimately show ?thesis
      using step_fee_facts [OF f a(2,3), where p = p and q = t and l = l and zero = zero and t = t and reached = True] True pos by simp
  next
    case False
    define q where "q = move_in q64 p l (uint a) zero"
    have l: "0 < l"
    proof (rule ccontr)
      assume "\<not> 0 < l"
      then have "l = 0" using pos by simp
      then show False using False nn by (simp add: fits_def IsUint64_def)
    qed
    have run: "?C = ebind (if fits p q l zero then Inr (u64_of (amt q64 p q l zero True), u64_of (amt q64 p q l (\<not> zero) False))
          else Inl (Fail ''amount=out_of_range'')) (\<lambda>(i, out). step_fee r f onIn False
            \<lparr>sqrtPriceNext = q, amountIn = i, amountOut = out, feeAmount = 0\<rparr>)" (is "_ = ?rest")
    proof -
      have q: "0 < q" unfolding q_def using pos l nn by (intro move_in_amt) simp_all
      have move: "nextSqrtPriceFromInput p l a zero = Inr q"
        unfolding q_def using pos l by (intro nextSqrtPriceFromInput_move)
      have "?C = (case deltaAmounts t p l zero of
             Inr (maxIn, maxOut) \<Rightarrow>
               if a \<ge> maxIn
               then step_fee r f onIn True \<lparr>sqrtPriceNext = t, amountIn = maxIn, amountOut = maxOut, feeAmount = 0\<rparr>
               else ?rest
           | Inl _ \<Rightarrow> ?rest)"
        using a pos l f q
        by (simp add: computeExactInputStep_def rate_out_of_range move deltaAmounts_amt [of q p] not_le
            cong: if_cong sum.case_cong split del: if_split)
      then show ?thesis
        using False pos by (auto simp: deltaAmounts_amt fits_def uint_u64_of word_le_def)
    qed
    have q: "0 < q" "if zero then q \<le> p else p \<le> q" "amt q64 p q l zero True \<le> uint a"
      unfolding q_def using pos l nn by (intro move_in_amt; simp)+
    show ?thesis
    proof (cases "amt q64 p t l zero True \<le> uint a")
      case le: True
      with False have "\<not> fits p t l zero" by simp
      moreover have "IsUint64 (amt q64 p t l zero True)"
        using le pos uint64_bounds [of a] by (simp add: IsUint64_def amt_nonneg)
      ultimately have big: "2 ^ 64 \<le> amt q64 p t l (\<not> zero) False"
        using pos amt_nonneg [of q64 p t l "\<not> zero" False] by (simp add: fits_def IsUint64_def)
      have "if zero then q \<le> t else t \<le> q"
        unfolding q_def using pos l nn dir le by (intro move_in_past) simp_all
      then have "if zero then q \<le> t \<and> t \<le> p else p \<le> t \<and> t \<le> q" using dir by (simp split: if_splits)
      then have "amt q64 p t l (\<not> zero) False \<le> amt q64 p q l (\<not> zero) False"
        using pos q l by (intro amt_down_further) simp_all
      with big have "\<not> fits p q l zero" by (simp add: fits_def IsUint64_def)
      then show ?thesis using run \<open>\<not> fits p t l zero\<close> by simp
    next
      case less: False
      have tw: "toward zero p t q" "q \<noteq> t"
        unfolding q_def using pos l nn dir less by (intro move_in_less; simp)+
      show ?thesis
      proof (cases "fits p q l zero")
        case True
        then show ?thesis
          using step_fee_facts [OF f a(2,3), where p = p and q = q and l = l and zero = zero and t = t and reached = False] run pos q tw by simp
      next
        case False
        have "amt q64 p q l (\<not> zero) False \<le> amt q64 p t l (\<not> zero) False"
          using pos q tw l by (intro amt_down_further [of _ _ _ _ _ zero]) (auto simp: toward_def split: if_splits)
        moreover have "IsUint64 (amt q64 p q l zero True)"
          using q pos uint64_bounds [of a] by (simp add: IsUint64_def amt_nonneg)
        ultimately have "\<not> fits p t l zero"
          using False pos q amt_nonneg [of q64 p q l "\<not> zero" False] by (auto simp: fits_def IsUint64_def)
        then show ?thesis using run False by simp
      qed
    qed
  qed
qed

text \<open>The contract of the swap loops; an exact output step does not exist in this program.\<close>

definition ray_rate :: "u32 \<times> bool \<Rightarrow> bool" where
  "ray_rate = (\<lambda>(f, onIn). uint f < 1000000)"

definition ray_step :: "int \<Rightarrow> int \<Rightarrow> int \<Rightarrow> int \<Rightarrow> u32 \<times> bool \<Rightarrow> bool \<Rightarrow> bool \<Rightarrow> (int \<times> int \<times> int \<times> int) res" where
  "ray_step p t l r = (\<lambda>(f, onIn) zero input.
     if input \<and> IsUint64 r then
       ebind (computeExactInputStep p t l (u64_of r) f zero onIn) (\<lambda>st.
         Inr (uint (amountIn st), gross_out onIn st, sqrtPriceNext st, spent onIn st - uint (amountIn st)))
     else Inl (Fail ''unsupported''))"

interpretation ray: swap_step q64 ray_rate ray_step
proof
  show "(0::int) < q64" by simp
  fix rate p t l r zero input res
  assume ok: "ray_rate rate" and pre: "step_pre p t l r zero" and run: "ray_step p t l r rate zero input = Inr res"
  obtain f onIn where rate: "rate = (f, onIn)" by (cases rate)
  have input: "input" "IsUint64 r" using run rate by (auto simp: ray_step_def split: if_splits)
  then obtain st where st: "computeExactInputStep p t l (u64_of r) f zero onIn = Inr st"
    "res = (uint (amountIn st), gross_out onIn st, sqrtPriceNext st, spent onIn st - uint (amountIn st))"
    using run rate by (auto simp: ray_step_def)
  then have "ray_facts p t (u64_of r) f zero onIn st"
    using computeExactInputStep_cases [of p t l zero f "u64_of r" onIn] pre ok rate
    by (auto simp: step_pre_def ray_rate_def)
  then show "step_post q64 p t r zero input res"
    using st input by (auto simp: step_post_def ray_facts_def uint_u64_of spent_def gross_out_def)
qed

text \<open>
  C13. Raydium's exact input step (\<open>computeExactInputStep\<close>), for a positive price, a target on
  the right side of it and non-negative liquidity. With a fee rate of 100% or more it is refused. Otherwise
  it either succeeds or reports \<open>amount=out_of_range\<close>, the latter only if the amounts
  to the target do not fit in \<open>uint64\<close>; it never panics. On success the price moves
  toward the target and not past it; what is consumed (with the fee, where the fee is on the
  input) stays within the remaining amount and is all of it if the target is not reached; the output before the
  fee on it is not worth more than the input at the starting price; the fee is at least its share.
\<close>

theorem computeExactInputStep_correct:
  assumes "0 < p" and "0 < t" and "0 \<le> l" and "if zero then t \<le> p else p \<le> t"
  shows "case computeExactInputStep p t l r f zero onIn of
      Inl e \<Rightarrow> e = Fail ''fee_rate=out_of_range'' \<and> 1000000 \<le> uint f
        \<or> e = Fail ''amount=out_of_range'' \<and> (\<exists>e'. deltaAmounts t p l zero = Inl e')
    | Inr st \<Rightarrow> uint f < 1000000
        \<and> (if zero then t \<le> sqrtPriceNext st \<and> sqrtPriceNext st \<le> p else p \<le> sqrtPriceNext st \<and> sqrtPriceNext st \<le> t)
        \<and> spent onIn st \<le> uint r \<and> (sqrtPriceNext st \<noteq> t \<longrightarrow> spent onIn st = uint r)
        \<and> (if zero then gross_out onIn st * (2 ^ 64)\<^sup>2 \<le> uint (amountIn st) * p\<^sup>2
           else gross_out onIn st * p\<^sup>2 \<le> uint (amountIn st) * (2 ^ 64)\<^sup>2)
        \<and> (if onIn then spent onIn st else gross_out onIn st) * uint f \<le> uint (feeAmount st) * 1000000"
proof (cases "uint f < 1000000")
  case True
  note c = computeExactInputStep_cases [OF assms True, of r onIn]
  have "fits p t l zero \<or> (\<exists>e'. deltaAmounts t p l zero = Inl e')"
    using assms by (simp add: deltaAmounts_amt)
  with c True show ?thesis
    unfolding ray_facts_def toward_def fair_def by auto
next
  case False
  then have "computeExactInputStep p t l r f zero onIn = Inl (Fail ''fee_rate=out_of_range'')"
    by (simp add: computeExactInputStep_def rate_out_of_range)
  with False show ?thesis by simp
qed

theorem computeExactInputStep_correct_witness:
  "\<exists>st. computeExactInputStep (2 ^ 64) (2 ^ 64 - 2 ^ 50) (10 ^ 15) 1000000 2500 True False = Inr st \<and> spent False st \<le> 1000000"
proof -
  have run: "deltaAmounts (2 ^ 64 - 2 ^ 50) (2 ^ 64) (10 ^ 15) True = Inr (61038881768, 61035156250)"
    by code_simp
  show ?thesis
    using computeExactInputStep_correct [where p = "2 ^ 64" and t = "2 ^ 64 - 2 ^ 50" and l = "10 ^ 15"
        and zero = True and f = 2500 and r = 1000000 and onIn = False] run
    by (auto split: sum.splits)
qed

section \<open>Limit orders\<close>

definition lm_spent :: "bool \<Rightarrow> limitOrderMatch \<Rightarrow> int" where
  "lm_spent onIn m = (if onIn then uint (lmAmountIn m) + uint (lmFeeAmount m) else uint (lmAmountIn m))"

definition lm_gross :: "bool \<Rightarrow> limitOrderMatch \<Rightarrow> int" where
  "lm_gross onIn m = (if onIn then uint (lmAmountOut m) else uint (lmAmountOut m) + uint (lmFeeAmount m))"

text \<open>\<open>P\<close> is the price of token 0 in token 1, times \<open>2 ^ 64\<close>: the rates of the exchange.\<close>

definition lo_out :: "int \<Rightarrow> bool \<Rightarrow> int \<Rightarrow> int" where
  "lo_out P zero a = (if zero then a * P div q64 else a * q64 div P)"

definition lo_in :: "int \<Rightarrow> bool \<Rightarrow> int \<Rightarrow> int" where
  "lo_in P zero out = (if zero then cdiv (out * q64) P else cdiv (out * P) q64)"

lemma limitOrderOutput_eq: "0 < P \<Longrightarrow> limitOrderOutput a P zero = Inr (lo_out P zero (uint a))"
  by (simp add: limitOrderOutput_def lo_out_def big_Div_pos push_bit_eq_mult)

lemma limitOrderInput_eq: "0 < P \<Longrightarrow> limitOrderInput a P (\<not> zero) = Inr (lo_in P zero (uint a))"
  by (simp add: limitOrderInput_def lo_in_def divCeil_def quo_rem_up_pos push_bit_eq_mult)

lemma lo_nonneg: "0 < P \<Longrightarrow> 0 \<le> a \<Longrightarrow> 0 \<le> lo_out P zero a" "0 < P \<Longrightarrow> 0 \<le> a \<Longrightarrow> 0 \<le> lo_in P zero a"
  by (simp_all add: lo_out_def lo_in_def pos_imp_zdiv_nonneg_iff cdiv_nonneg)

text \<open>An input whose output is at least what is on offer covers what the offer costs.\<close>

lemma lo_in_le: "0 < P \<Longrightarrow> t \<le> lo_out P zero a \<Longrightarrow> lo_in P zero t \<le> a"
  by (simp add: lo_out_def lo_in_def cdiv_le_iff le_div_iff_mult_le split: if_splits)

lemma lo_fair:
  assumes P: "0 < P" "if zero then P * q64 \<le> p\<^sup>2 else p\<^sup>2 \<le> P * q64" and nn: "0 \<le> i" "0 \<le> out"
    and le: "out \<le> lo_out P zero i \<or> lo_in P zero out \<le> i"
  shows "fair q64 zero p i out"
proof (cases zero)
  case True
  have "out * q64 \<le> i * P" using le P True by (auto simp: lo_out_def lo_in_def cdiv_le_iff le_div_iff_mult_le)
  then have "out * q64 * q64 \<le> i * P * q64" by (intro mult_right_mono) simp_all
  also have "\<dots> \<le> i * p\<^sup>2" using P True nn mult_left_mono [of "P * q64" "p\<^sup>2" i] by (simp add: mult_ac)
  finally show ?thesis using True by (simp add: fair_def power2_eq_square)
next
  case False
  have "out * P \<le> i * q64" using le P False by (auto simp: lo_out_def lo_in_def cdiv_le_iff le_div_iff_mult_le)
  then have "out * P * q64 \<le> i * q64 * q64" by (rule mult_right_mono) simp
  moreover have "out * p\<^sup>2 \<le> out * P * q64"
    using P False nn mult_left_mono [of "p\<^sup>2" "P * q64" out] by (simp add: mult.assoc)
  ultimately have "out * p\<^sup>2 \<le> i * q64 * q64" by (rule order_trans [rotated])
  then show ?thesis using False by (simp add: fair_def power2_eq_square)
qed

definition lm_facts :: "int \<Rightarrow> u64 \<Rightarrow> int \<Rightarrow> u32 \<Rightarrow> bool \<Rightarrow> bool \<Rightarrow> limitOrderMatch \<Rightarrow> bool" where
  "lm_facts p r offer f zero onIn m \<longleftrightarrow>
     lm_gross onIn m \<le> offer \<and> (lmOrdersRemain m \<longleftrightarrow> lm_gross onIn m < offer)
     \<and> lm_spent onIn m \<le> uint r \<and> (lmOrdersRemain m \<longrightarrow> lm_spent onIn m = uint r)
     \<and> fair q64 zero p (uint (lmAmountIn m)) (lm_gross onIn m)
     \<and> (if onIn then lm_spent onIn m else lm_gross onIn m) * uint f \<le> uint (lmFeeAmount m) * 1000000"

text \<open>The fee is settled last: on the output, or, having been set aside, on the input.\<close>

lemma finish_match_facts:
  assumes f: "uint f < 1000000" and offer: "IsUint64 offer" and out: "uint (lmAmountOut m) \<le> offer"
    and fair: "fair q64 zero p (uint (lmAmountIn m)) (uint (lmAmountOut m))"
    and onIn: "onIn \<Longrightarrow> uint (lmAmountIn m) + uint (lmFeeAmount m) \<le> uint r
      \<and> (uint (lmAmountIn m) + uint (lmFeeAmount m)) * uint f \<le> uint (lmFeeAmount m) * 1000000
      \<and> (uint (lmAmountOut m) < offer \<longrightarrow> uint (lmAmountIn m) + uint (lmFeeAmount m) = uint r)"
    and onOut: "\<not> onIn \<Longrightarrow> uint (lmAmountIn m) \<le> uint r \<and> (uint (lmAmountOut m) < offer \<longrightarrow> uint (lmAmountIn m) = uint r)"
  shows "\<exists>m'. finish_match f onIn (u64_of offer) m = Inr m' \<and> lm_facts p r offer f zero onIn m'"
proof (cases onIn)
  case True
  have "finish_match f onIn (u64_of offer) m = Inr (m\<lparr>lmOrdersRemain := uint (lmAmountOut m) < offer\<rparr>)"
    using True offer by (simp add: finish_match_def word_less_def uint_u64_of Let_def)
  then show ?thesis using True onIn fair out by (simp add: lm_facts_def lm_spent_def lm_gross_def)
next
  case False
  obtain fee where fee: "mulDivCeil64 (lmAmountOut m) (ucast f) feeRateDenominator = Inr fee"
    "fee \<le> lmAmountOut m" "uint (lmAmountOut m) * uint f \<le> uint fee * 1000000"
    using output_fee [OF f] by metis
  have "finish_match f onIn (u64_of offer) m = Inr (m\<lparr>lmFeeAmount := fee, lmAmountOut := lmAmountOut m - fee,
      lmOrdersRemain := uint (lmAmountOut m) < offer\<rparr>)"
    using False offer fee
    by (simp add: finish_match_def word_less_def uint_u64_of Let_def not_less) (simp only: word_le_def)
  then show ?thesis using False onOut fair out fee
    by (simp add: lm_facts_def lm_spent_def lm_gross_def uint_sub_u64)
qed

text \<open>The fee set aside before matching.\<close>

lemma set_aside:
  fixes r :: u64
  assumes f: "uint (f :: u32) < 1000000"
  obtains fee where "mulDivCeil64 r (ucast f) feeRateDenominator = Inr fee" "fee \<le> r"
    "uint (r - fee) + uint fee = uint r" "uint (r - fee) \<le> uint r * (1000000 - uint f) div 1000000"
    "uint r * uint f \<le> uint fee * 1000000"
proof -
  obtain fee where fee: "mulDivCeil64 r (ucast f) feeRateDenominator = Inr fee" "fee \<le> r"
    "uint r * uint f \<le> uint fee * 1000000"
    using output_fee [OF f] by metis
  moreover from fee(2) have sub: "uint (r - fee) = uint r - uint fee" by (rule uint_sub_u64)
  moreover have "uint (r - fee) * 1000000 \<le> uint r * (1000000 - uint f)" using fee(3) sub by (simp add: algebra_simps)
  ultimately show thesis using that [of fee] by (simp add: le_div_iff_mult_le)
qed

lemma match_facts:
  assumes f: "uint f < 1000000" and offer: "IsUint64 offer" and P: "0 < P"
    and Pp: "if zero then P * q64 \<le> p\<^sup>2 else p\<^sup>2 \<le> P * q64"
  shows "\<exists>m. match_orders r offer P f zero onIn = Inr m \<and> lm_facts p r offer f zero onIn m"
proof -
  obtain fee a where sa: "(if onIn then ebind (mulDivCeil64 r (ucast f) feeRateDenominator) (\<lambda>fee.
        if fee > r then Inl (Fail ''fee_amount=out_of_range'') else Inr (fee, r - fee)) else Inr (0, r)) = Inr (fee, a)" "uint a \<le> uint r"
    "onIn \<Longrightarrow> uint a + uint fee = uint r \<and> uint a \<le> uint r * (1000000 - uint f) div 1000000
      \<and> uint r * uint f \<le> uint fee * 1000000" "\<not> onIn \<Longrightarrow> a = r"
  proof (cases onIn)
    case True
    obtain fee where "mulDivCeil64 r (ucast f) feeRateDenominator = Inr fee" "fee \<le> r"
      "uint (r - fee) + uint fee = uint r" "uint (r - fee) \<le> uint r * (1000000 - uint f) div 1000000"
      "uint r * uint f \<le> uint fee * 1000000" using set_aside [OF f] by metis
    then show thesis using that [of fee "r - fee"] True by (simp add: uint_sub_u64 not_less)
  next
    case False
    then show thesis using that [of 0 r] by simp
  qed
  have t0: "0 \<le> offer" and a0: "0 \<le> uint a" using offer by (simp_all add: IsUint64_def)
  show ?thesis
  proof (cases "lo_out P zero (uint a) > offer")
    case True
    then have le: "lo_in P zero offer \<le> uint a" using lo_in_le [OF P, of offer zero "uint a"] by simp
    have n0: "0 \<le> lo_in P zero offer" using P t0 by (rule lo_nonneg)
    have u: "IsUint64 (lo_in P zero offer)" using le n0 uint64_bounds [of a] by (simp add: IsUint64_def)
    define fee' where "fee' = (if onIn then u64_of (cdiv (lo_in P zero offer * uint f) (1000000 - uint f)) else fee)"
    define m where "m = \<lparr>lmAmountIn = u64_of (lo_in P zero offer), lmAmountOut = u64_of offer,
                      lmFeeAmount = fee', lmOrdersRemain = False\<rparr>"
    have run: "match_orders r offer P f zero onIn = finish_match f onIn (u64_of offer) m"
      using True sa(1) P u offer f
      by (simp add: match_orders_def limitOrderOutput_eq limitOrderInput_eq uint_u64_of fee'_def m_def mulDivCeil64_eq uint_rate_rest)
    have onIn: "uint (lmAmountIn m) + uint (lmFeeAmount m) \<le> uint r
        \<and> (uint (lmAmountIn m) + uint (lmFeeAmount m)) * uint f \<le> uint (lmFeeAmount m) * 1000000" if onIn
    proof -
      have "uint (lmAmountIn m) \<le> uint r * (1000000 - uint f) div 1000000"
        using sa(3) that le u by (simp add: m_def uint_u64_of)
      from input_fee [OF f this] obtain c where
        "mulDivCeil64 (lmAmountIn m) (ucast f) (feeRateDenominator - ucast f) = Inr c"
        "uint (lmAmountIn m) + uint c \<le> uint r" "(uint (lmAmountIn m) + uint c) * uint f \<le> uint c * 1000000" by metis
      moreover from this(1) have "c = lmFeeAmount m"
        using that f u by (simp add: mulDivCeil64_eq uint_rate_rest m_def fee'_def uint_u64_of)
      ultimately show ?thesis by simp
    qed
    have "fair q64 zero p (uint (lmAmountIn m)) (uint (lmAmountOut m))"
      using u offer n0 t0 P Pp by (intro lo_fair [of P]) (simp_all add: m_def uint_u64_of)
    then show ?thesis
      unfolding run using onIn sa(2) le u offer
      by (intro finish_match_facts [OF f offer]) (auto simp: m_def uint_u64_of)
  next
    case False
    have n0: "0 \<le> lo_out P zero (uint a)" using P a0 by (rule lo_nonneg)
    have u: "IsUint64 (lo_out P zero (uint a))" using False n0 offer by (simp add: IsUint64_def)
    define m where "m = \<lparr>lmAmountIn = a, lmAmountOut = u64_of (lo_out P zero (uint a)),
                      lmFeeAmount = fee, lmOrdersRemain = False\<rparr>"
    have run: "match_orders r offer P f zero onIn = finish_match f onIn (u64_of offer) m"
      using False sa(1) P u by (simp add: match_orders_def limitOrderOutput_eq m_def)
    have "fair q64 zero p (uint (lmAmountIn m)) (uint (lmAmountOut m))"
      using u n0 P Pp by (intro lo_fair [of P]) (simp_all add: m_def uint_u64_of)
    then show ?thesis
      unfolding run using False sa(2-4) u
      by (intro finish_match_facts [OF f offer]) (auto simp: m_def uint_u64_of)
  qed
qed

lemma match_cases:
  "case computeExactInputLimitOrderMatch sp r orders part f zero onIn of
      Inl e \<Rightarrow> (sp = None \<or> (\<exists>p. sp = Some p \<and> p \<le> 0)) \<and> e = Fail ''sqrt_price=invalid''
        \<or> 1000000 \<le> uint f \<and> e = Fail ''fee_rate=out_of_range''
        \<or> 2 ^ 64 \<le> uint orders + uint part \<and> e = Fail ''orders_amount=out_of_range''
        \<or> e = Fail ''price=out_of_range''
    | Inr m \<Rightarrow> (\<exists>p. sp = Some p \<and> 0 < p \<and> lm_facts p r (uint orders + uint part) f zero onIn m)"
proof (cases "(\<exists>p. sp = Some p \<and> 0 < p) \<and> uint f < 1000000 \<and> IsUint64 (uint orders + uint part)
      \<and> r \<noteq> 0 \<and> uint orders + uint part \<noteq> 0")
  case True
  then obtain p where p: "sp = Some p" "0 < p" by auto
  let ?offer = "uint orders + uint part"
  define P where "P = drop_bit 64 (if zero then p * p else p * p + (q64 - 1))"
  show ?thesis
  proof (cases "P \<le> 0 \<or> BitLen_gt P 128")
    case bad: True
    then have "computeExactInputLimitOrderMatch sp r orders part f zero onIn = Inl (Fail ''price=out_of_range'')"
      using True p by (simp add: computeExactInputLimitOrderMatch_def rate_out_of_range P_def)
    then show ?thesis by simp
  next
    case False
    then have P: "0 < P" by simp
    have "if zero then P * q64 \<le> p\<^sup>2 else p\<^sup>2 \<le> P * q64"
      using div_mult_le [of q64 "p * p"] less_div_mult [of q64 "p * p + (q64 - 1)"]
      by (auto simp: P_def drop_bit_eq_div power2_eq_square algebra_simps)
    from match_facts [OF _ _ P this, where f = f and offer = ?offer and onIn = onIn and r = r] True obtain m where
      "computeExactInputLimitOrderMatch sp r orders part f zero onIn = Inr m" "lm_facts p r ?offer f zero onIn m"
      using p False by (auto simp: computeExactInputLimitOrderMatch_def rate_out_of_range P_def Let_def)
    then show ?thesis using p by simp
  qed
next
  case False
  have "0 \<le> uint orders" "0 \<le> uint part" by simp_all
  then show ?thesis using False
    by (auto simp: computeExactInputLimitOrderMatch_def rate_out_of_range lm_facts_def lm_spent_def lm_gross_def IsUint64_def Let_def
        split: option.splits)
qed


text \<open>
  Matching a limit order (\<open>computeExactInputLimitOrderMatch\<close>). The refusals are exactly:
  no positive price, a fee rate of 100% or more, orders beyond \<open>uint64\<close>, a price outside
  128 bits. In every other case it succeeds; its remaining range checks never fire. The match never takes
  more than the orders on offer nor more than the remaining input; if orders remain then
  all of the input is used (so that the caller's \<open>limit_order_progress\<close> check cannot fire); the
  rate is never better than the price of the tick; the fee is at least its share.
\<close>

lemma computeExactInputLimitOrderMatch_correct:
  "case computeExactInputLimitOrderMatch sp r orders part f zero onIn of
      Inl e \<Rightarrow> (sp = None \<or> (\<exists>p. sp = Some p \<and> p \<le> 0)) \<and> e = Fail ''sqrt_price=invalid''
        \<or> 1000000 \<le> uint f \<and> e = Fail ''fee_rate=out_of_range''
        \<or> 2 ^ 64 \<le> uint orders + uint part \<and> e = Fail ''orders_amount=out_of_range''
        \<or> e = Fail ''price=out_of_range''
    | Inr m \<Rightarrow> (\<exists>p. sp = Some p \<and> 0 < p \<and> lm_facts p r (uint orders + uint part) f zero onIn m)"
  by (rule match_cases)

end
