(* ===== verification/Solana_Arrays.thy ===== *)
theory Solana_Arrays
  imports Proc
begin

text \<open>
  Shared parts of the Solana quote clients: accounts and their snapshots
  (\<open>go/solana/account.go\<close>), the selection of arrays within a budget
  (\<open>go/solana/quote_arrays.go\<close>), and the adaptive loop \<open>QuoteExactInputsWithSlot\<close>, which
  \<open>raydium/clmm\<close> and \<open>meteora/dlmm\<close> spell out alike: fetch a snapshot, quote from it, and on a missing array
  fetch a larger snapshot, at most five times.

  The loop is written over a record of the venue's functions. The network is a function of the
  number of the attempt; every list of addresses asked of it is kept in the state.
\<close>

section \<open>Accounts\<close>

type_synonym address = bytes

definition IsZero :: "address \<Rightarrow> bool" where
  "IsZero a \<longleftrightarrow> a = replicate 32 0"

record Account =
  Owner :: address
  Data :: bytes

record AccountSnapshot =
  Slot :: u64
  Accounts :: "Account option list"

text \<open>
  Errors of a quote: the client's own (\<open>Rejected\<close>), \<open>QuoteArrayRequiredError\<close> with its address, and
  whatever the account provider reported.
\<close>

datatype quote_error = Rejected failure | ArrayRequired address | Provider string

type_synonym 'a qres = "quote_error + 'a"
type_synonym accounts = "address \<Rightarrow> Account option qres"

definition own :: "'a res \<Rightarrow> 'a qres" where
  "own r = (case r of Inl e \<Rightarrow> Inl (Rejected e) | Inr x \<Rightarrow> Inr x)"

abbreviation reject :: "string \<Rightarrow> 'a qres" where
  "reject s \<equiv> Inl (Rejected (Fail s))"

lemma own_simps [simp]: "own (Inr x) = Inr x" "own (Inl e) = Inl (Rejected e)"
  by (simp_all add: own_def)

lemma own_eq_Inr [simp]: "own r = Inr x \<longleftrightarrow> r = Inr x"
  by (simp add: own_def split: sum.splits)

definition slice :: "bytes \<Rightarrow> nat \<Rightarrow> nat \<Rightarrow> bytes" where
  "slice d a b = take (b - a) (drop a d)"

definition read_u16 :: "bytes \<Rightarrow> nat \<Rightarrow> u16" where "read_u16 d a = word_of_int (le_int (slice d a (a + 2)))"
definition read_u32 :: "bytes \<Rightarrow> nat \<Rightarrow> u32" where "read_u32 d a = word_of_int (le_int (slice d a (a + 4)))"
definition read_u64 :: "bytes \<Rightarrow> nat \<Rightarrow> u64" where "read_u64 d a = word_of_int (le_int (slice d a (a + 8)))"
definition read_i32 :: "bytes \<Rightarrow> nat \<Rightarrow> int" where "read_i32 d a = i32 (le_int (slice d a (a + 4)))"
definition read_i64 :: "bytes \<Rightarrow> nat \<Rightarrow> int" where "read_i64 d a = sint (read_u64 d a)"

text \<open>\<open>newSnapshotAccounts\<close> and the provider it makes: unknown addresses require an array.\<close>

definition snapshot_accounts :: "address list \<Rightarrow> AccountSnapshot option \<Rightarrow> accounts qres" where
  "snapshot_accounts addresses s =
     (case s of None \<Rightarrow> reject ''snapshot=invalid''
      | Some s \<Rightarrow>
          if length (Accounts s) \<noteq> length addresses then reject ''snapshot=invalid''
          else Inr (\<lambda>a. case map_of (rev (zip addresses (Accounts s))) a of
                     None \<Rightarrow> Inl (ArrayRequired a) | Some x \<Rightarrow> Inr x))"

section \<open>Array selection\<close>

definition NormalizeQuoteArrayCounts :: "int \<Rightarrow> int \<Rightarrow> (int \<times> int) res" where
  "NormalizeQuoteArrayCounts initial maximum =
     (let initial = (if initial = 0 then 5 else initial);
          maximum = (if maximum = 0 then 16 else maximum)
      in if initial < 1 \<or> maximum < 1 \<or> initial > maximum \<or> maximum > 32
         then Inl (Fail ''counts=out_of_range'')
         else Inr (initial, maximum))"

definition keep_relevant :: "address list \<Rightarrow> address \<Rightarrow> address list \<Rightarrow> address list" where
  "keep_relevant candidates a selected =
     (if a \<in> set candidates \<and> a \<notin> set selected then selected @ [a] else selected)"

definition SelectQuoteArrays :: "address list \<Rightarrow> address list \<Rightarrow> int \<Rightarrow> address list" where
  "SelectQuoteArrays candidates previous initial =
     fold (keep_relevant candidates) previous
       (take (nat (min (max initial 0) (int (length candidates)))) candidates)"

definition add_new :: "'a \<Rightarrow> 'a list \<Rightarrow> 'a list" where
  "add_new a xs = (if a \<in> set xs then xs else xs @ [a])"

text \<open>The interleaving of the directions in \<open>quoteArrayCandidates\<close>.\<close>

definition interleave :: "address list list \<Rightarrow> address list" where
  "interleave groups =
     fold (\<lambda>depth. fold (\<lambda>g cs. if depth < length g then add_new (g ! depth) cs else cs) groups) [0..<16] []"

lemma distinct_add_new [simp]: "distinct xs \<Longrightarrow> distinct (add_new a xs)"
  by (simp add: add_new_def)

lemma set_add_new [simp]: "set (add_new a xs) = insert a (set xs)"
  by (auto simp: add_new_def)

lemma fold_add_new: "distinct xs \<Longrightarrow> distinct (fold add_new as xs)"
  "set (fold add_new as xs) = set as \<union> set xs"
  by (induction as arbitrary: xs) auto

lemma fold_keep_relevant:
  "distinct s \<Longrightarrow> distinct (fold (keep_relevant cs) ps s)"
  "set (fold (keep_relevant cs) ps s) = set s \<union> (set ps \<inter> set cs)"
  by (induction ps arbitrary: s) (auto simp: keep_relevant_def)

lemma SelectQuoteArrays_distinct: "distinct candidates \<Longrightarrow> distinct (SelectQuoteArrays candidates previous initial)"
  by (simp add: SelectQuoteArrays_def fold_keep_relevant)

lemma SelectQuoteArrays_subset: "set (SelectQuoteArrays candidates previous initial) \<subseteq> set candidates"
  by (auto simp: SelectQuoteArrays_def fold_keep_relevant dest: in_set_takeD)

lemma SelectQuoteArrays_keeps: "set previous \<inter> set candidates \<subseteq> set (SelectQuoteArrays candidates previous initial)"
  by (auto simp: SelectQuoteArrays_def fold_keep_relevant)

lemma interleave_inner:
  "distinct cs \<Longrightarrow> distinct (fold (\<lambda>g cs. if depth < length g then add_new (g ! depth) cs else cs) groups cs)"
  "set (fold (\<lambda>g cs. if depth < length g then add_new (g ! depth) cs else cs) groups cs)
     = {g ! depth | g. g \<in> set groups \<and> depth < length g} \<union> set cs"
  by (induction groups arbitrary: cs) auto

lemma interleave_outer:
  "distinct cs \<Longrightarrow> distinct (fold (\<lambda>depth. fold (\<lambda>g cs. if depth < length g then add_new (g ! depth) cs else cs) groups) ds cs)"
  "set (fold (\<lambda>depth. fold (\<lambda>g cs. if depth < length g then add_new (g ! depth) cs else cs) groups) ds cs)
     = {g ! d | g d. g \<in> set groups \<and> d \<in> set ds \<and> d < length g} \<union> set cs"
  by (induction ds arbitrary: cs) (auto simp: interleave_inner)

lemma distinct_interleave: "distinct (interleave groups)"
  by (simp add: interleave_def interleave_outer)

lemma set_interleave: "\<forall>g \<in> set groups. length g \<le> 16 \<Longrightarrow> set (interleave groups) = \<Union> (set ` set groups)"
  unfolding interleave_def by (force simp: interleave_outer in_set_conv_nth)

section \<open>The adaptive loop\<close>

record ('pool, 'req, 'quote) venue =
  base_of :: "'pool \<Rightarrow> address list"
  arrays_of :: "'pool \<Rightarrow> 'req \<Rightarrow> address list qres"
  refresh_of :: "accounts \<Rightarrow> 'pool qres"
  quote_of :: "accounts \<Rightarrow> 'req \<Rightarrow> 'quote qres"

record 'pool quote_cache =
  asked :: "address list list"
  remembered :: "'pool option"

fun array_groups :: "('pool \<Rightarrow> 'req \<Rightarrow> address list qres) \<Rightarrow> 'pool \<Rightarrow> 'req list \<Rightarrow> address list list qres" where
  "array_groups arrays pool [] = Inr []"
| "array_groups arrays pool (r # rs) =
     ebind (arrays pool r) (\<lambda>g. ebind (array_groups arrays pool rs) (\<lambda>gs. Inr (g # gs)))"

definition quoteArrayCandidates ::
  "('pool, 'req, 'quote) venue \<Rightarrow> 'pool \<Rightarrow> 'req list \<Rightarrow> (address list \<times> address list) qres" where
  "quoteArrayCandidates v pool requests =
     ebind (array_groups (arrays_of v) pool requests) (\<lambda>groups. Inr (base_of v pool, interleave groups))"

text \<open>Quotes in request order, or the addresses of the arrays that were missing.\<close>

fun quote_requests :: "('req \<Rightarrow> 'quote qres) \<Rightarrow> 'req list \<Rightarrow> ('quote list \<times> address list) qres" where
  "quote_requests q [] = Inr ([], [])"
| "quote_requests q (r # rs) =
     (case q r of
        Inr x \<Rightarrow> ebind (quote_requests q rs) (\<lambda>(xs, needed). Inr (x # xs, needed))
      | Inl (ArrayRequired a) \<Rightarrow> ebind (quote_requests q rs) (\<lambda>(xs, needed). Inr (xs, a # needed))
      | Inl e \<Rightarrow> Inl e)"

text \<open>One attempt: a finished batch, or the refreshed pool and the arrays to ask for next.\<close>

definition attempt ::
  "('pool, 'req, 'quote) venue \<Rightarrow> (address list \<Rightarrow> AccountSnapshot option qres) \<Rightarrow> int \<Rightarrow> int \<Rightarrow> 'req list
   \<Rightarrow> 'pool \<Rightarrow> address list \<Rightarrow> 'pool quote_cache
   \<Rightarrow> (('pool \<times> address list) + (u64 \<times> 'quote list)) qres \<times> 'pool quote_cache" where
  "attempt v fetch initial maximum requests pool selected cache =
     (case quoteArrayCandidates v pool requests of Inl e \<Rightarrow> (Inl e, cache)
      | Inr (base, candidates) \<Rightarrow>
        (let selected = SelectQuoteArrays candidates selected initial
         in if int (length selected) > maximum then (Inl (Rejected (Sentinel ''ErrQuoteArrayLimit'')), cache)
            else
              (let addresses = base @ selected; cache = cache\<lparr>asked := asked cache @ [addresses]\<rparr>
               in case fetch addresses of Inl e \<Rightarrow> (Inl e, cache)
                  | Inr snapshot \<Rightarrow>
                    (case ebind (snapshot_accounts addresses snapshot) (\<lambda>accounts.
                          ebind (refresh_of v accounts) (\<lambda>refreshed.
                          ebind (quote_requests (quote_of v accounts) requests) (\<lambda>(quotes, needed).
                          Inr (refreshed, quotes, needed)))) of
                       Inl e \<Rightarrow> (Inl e, cache)
                     | Inr (refreshed, quotes, needed) \<Rightarrow>
                         if needed = [] then (Inr (Inr (Slot (the snapshot), quotes)), cache\<lparr>remembered := Some refreshed\<rparr>)
                         else
                           (let retained = filter (\<lambda>a. a \<notin> set (take (nat (min initial (int (length candidates)))) candidates)) selected
                            in case quoteArrayCandidates v refreshed requests of Inl e \<Rightarrow> (Inl e, cache)
                               | Inr (_, candidates) \<Rightarrow>
                                   (let selected = fold add_new needed (SelectQuoteArrays candidates retained initial)
                                    in if int (length selected) > maximum
                                       then (Inl (Rejected (Sentinel ''ErrQuoteArrayLimit'')), cache)
                                       else (Inr (Inl (refreshed, selected)), cache)))))))"

fun attempts ::
  "('pool, 'req, 'quote) venue \<Rightarrow> (nat \<Rightarrow> bool) \<Rightarrow> (nat \<Rightarrow> address list \<Rightarrow> AccountSnapshot option qres) \<Rightarrow> int \<Rightarrow> int
   \<Rightarrow> 'req list \<Rightarrow> nat \<Rightarrow> 'pool \<Rightarrow> address list \<Rightarrow> 'pool quote_cache \<Rightarrow> (u64 \<times> 'quote list) qres \<times> 'pool quote_cache" where
  "attempts v cancelled fetch initial maximum requests 0 pool selected cache =
     (Inl (Rejected (Sentinel ''ErrQuoteSnapshotLimit'')), cache)"
| "attempts v cancelled fetch initial maximum requests (Suc left) pool selected cache =
     (if cancelled left then (Inl (Provider ''context''), cache)
      else case attempt v (fetch left) initial maximum requests pool selected cache of
        (Inl e, cache) \<Rightarrow> (Inl e, cache)
      | (Inr (Inr batch), cache) \<Rightarrow> (Inr batch, cache)
      | (Inr (Inl (pool, selected)), cache) \<Rightarrow>
          attempts v cancelled fetch initial maximum requests left pool selected cache)"

definition QuoteExactInputsWithSlot ::
  "('pool, 'req, 'quote) venue \<Rightarrow> (nat \<Rightarrow> bool) \<Rightarrow> (nat \<Rightarrow> address list \<Rightarrow> AccountSnapshot option qres) \<Rightarrow> int \<Rightarrow> int
   \<Rightarrow> 'pool option \<Rightarrow> 'req list \<Rightarrow> 'pool quote_cache \<Rightarrow> (u64 \<times> 'quote list) qres \<times> 'pool quote_cache" where
  "QuoteExactInputsWithSlot v cancelled fetch initialCount maxCount configured requests cache =
     (if requests = [] then (reject ''requests=empty'', cache)
      else case configured of None \<Rightarrow> (reject ''pool=invalid'', cache)
      | Some configured \<Rightarrow>
          (case NormalizeQuoteArrayCounts initialCount maxCount of Inl e \<Rightarrow> (Inl (Rejected e), cache)
           | Inr (initial, maximum) \<Rightarrow>
               attempts v cancelled fetch initial maximum requests 5
                 (case remembered cache of None \<Rightarrow> configured | Some p \<Rightarrow> p) [] cache))"

section \<open>What the loop guarantees\<close>

lemma quote_requests_complete:
  "quote_requests q rs = Inr (xs, []) \<Longrightarrow> list_all2 (\<lambda>r x. q r = Inr x) rs xs"
proof (induction rs arbitrary: xs)
  case (Cons r rs)
  then show ?case by (auto split: sum.splits quote_error.splits)
qed simp

lemma quote_requests_needed:
  "quote_requests q rs = Inr (xs, needed) \<Longrightarrow> a \<in> set needed \<Longrightarrow> \<exists>r \<in> set rs. q r = Inl (ArrayRequired a)"
proof (induction rs arbitrary: xs needed)
  case (Cons r rs)
  then show ?case by (fastforce split: sum.splits quote_error.splits)
qed simp

lemma NormalizeQuoteArrayCounts_bounds:
  "NormalizeQuoteArrayCounts a b = Inr (initial, maximum) \<Longrightarrow> 1 \<le> initial \<and> initial \<le> maximum \<and> maximum \<le> 32"
  by (auto simp: NormalizeQuoteArrayCounts_def Let_def split: if_splits)

text \<open>A list of addresses asked of the network.\<close>

definition modest :: "('pool, 'req, 'quote) venue \<Rightarrow> int \<Rightarrow> address list \<Rightarrow> bool" where
  "modest v maximum as \<longleftrightarrow> (\<exists>p sel. as = base_of v p @ sel \<and> distinct sel \<and> int (length sel) \<le> maximum)"

definition from_snapshot ::
  "('pool, 'req, 'quote) venue \<Rightarrow> AccountSnapshot option \<Rightarrow> address list \<Rightarrow> 'req list \<Rightarrow> u64 \<times> 'quote list \<Rightarrow> bool" where
  "from_snapshot v s as requests = (\<lambda>(slot, quotes). \<exists>snap accounts. s = Some snap \<and> slot = Slot snap
     \<and> snapshot_accounts as s = Inr accounts \<and> list_all2 (\<lambda>r x. quote_of v accounts r = Inr x) requests quotes)"

lemma attempt_cases:
  assumes "attempt v fetch initial maximum requests pool selected cache = (r, cache')"
  shows "(\<exists>new. asked cache' = asked cache @ new \<and> length new \<le> 1 \<and> (\<forall>as \<in> set new. modest v maximum as)
      \<and> (case r of Inl e \<Rightarrow> remembered cache' = remembered cache
         | Inr (Inl _) \<Rightarrow> remembered cache' = remembered cache
         | Inr (Inr batch) \<Rightarrow> \<exists>s as. new = [as] \<and> fetch as = Inr s \<and> from_snapshot v s as requests batch))"
proof (cases "quoteArrayCandidates v pool requests")
  case (Inl e)
  then show ?thesis using assms by (auto simp: attempt_def)
next
  case (Inr bc)
  obtain base candidates where bc: "bc = (base, candidates)" by (cases bc)
  then have base: "base = base_of v pool" "distinct candidates"
    using Inr by (auto simp: quoteArrayCandidates_def distinct_interleave)
  let ?sel = "SelectQuoteArrays candidates selected initial"
  have modest: "int (length ?sel) \<le> maximum \<Longrightarrow> modest v maximum (base @ ?sel)"
    unfolding modest_def using base SelectQuoteArrays_distinct by metis
  show ?thesis
  proof (cases "fetch (base @ ?sel)")
    case (Inl e)
    then show ?thesis using assms Inr bc modest by (auto simp: attempt_def Let_def split: if_splits)
  next
    case fetch: (Inr s)
    show ?thesis
    proof (cases "snapshot_accounts (base @ ?sel) s")
      case (Inl e)
      then show ?thesis using assms Inr bc modest fetch by (auto simp: attempt_def Let_def split: if_splits)
    next
      case acc: (Inr accounts)
      then obtain snap where snap: "s = Some snap" by (cases s) (simp_all add: snapshot_accounts_def)
      show ?thesis
      proof (cases "ebind (refresh_of v accounts) (\<lambda>refreshed.
                ebind (quote_requests (quote_of v accounts) requests) (\<lambda>(quotes, needed).
                Inr (refreshed, quotes, needed)))")
        case (Inl e)
        then show ?thesis using assms Inr bc modest fetch acc by (auto simp: attempt_def Let_def split: if_splits)
      next
        case run: (Inr t)
        obtain refreshed quotes needed where t: "t = (refreshed, quotes, needed)" by (cases t)
        then have q: "quote_requests (quote_of v accounts) requests = Inr (quotes, needed)"
          using run by (auto simp: ebind_eq_Inr)
        show ?thesis
        proof (cases "needed = []")
          case True
          then have "list_all2 (\<lambda>r x. quote_of v accounts r = Inr x) requests quotes"
            using q quote_requests_complete by fastforce
          then have "from_snapshot v s (base @ ?sel) requests (Slot snap, quotes)"
            using acc snap by (simp add: from_snapshot_def)
          then show ?thesis
            using assms Inr bc modest fetch acc run t True snap
            by (auto simp: attempt_def Let_def split: if_splits)
        next
          case False
          then show ?thesis using assms Inr bc modest fetch acc run t
            by (cases "quoteArrayCandidates v refreshed requests")
               (auto simp: attempt_def Let_def split: if_splits prod.splits)
        qed
      qed
    qed
  qed
qed

lemma attempts_cases:
  assumes "attempts v cancelled fetch initial maximum requests left pool selected cache = (r, cache')"
  shows "\<exists>new. asked cache' = asked cache @ new \<and> length new \<le> left \<and> (\<forall>as \<in> set new. modest v maximum as)
      \<and> (case r of Inl e \<Rightarrow> remembered cache' = remembered cache
         | Inr batch \<Rightarrow> \<exists>k s. new \<noteq> [] \<and> fetch k (last new) = Inr s \<and> from_snapshot v s (last new) requests batch)"
  using assms
proof (induction left arbitrary: pool selected cache)
  case 0
  then show ?case by auto
next
  case (Suc left)
  show ?case
  proof (cases "cancelled left")
    case True
    then show ?thesis using Suc.prems by auto
  next
    case False
    obtain o1 c1 where one: "attempt v (fetch left) initial maximum requests pool selected cache = (o1, c1)"
      by (cases "attempt v (fetch left) initial maximum requests pool selected cache")
    obtain new where new: "asked c1 = asked cache @ new" "length new \<le> 1" "\<forall>as \<in> set new. modest v maximum as"
      "case o1 of Inl e \<Rightarrow> remembered c1 = remembered cache | Inr (Inl _) \<Rightarrow> remembered c1 = remembered cache
         | Inr (Inr batch) \<Rightarrow> \<exists>s as. new = [as] \<and> fetch left as = Inr s \<and> from_snapshot v s as requests batch"
      using attempt_cases [OF one] by auto
    show ?thesis
    proof (cases "\<exists>pool' selected'. o1 = Inr (Inl (pool', selected'))")
      case True
      then obtain pool' selected' where o1: "o1 = Inr (Inl (pool', selected'))" by auto
      then have "attempts v cancelled fetch initial maximum requests left pool' selected' c1 = (r, cache')"
        using Suc.prems False one by simp
      from Suc.IH [OF this] obtain more where more: "asked cache' = asked c1 @ more" "length more \<le> left"
        "\<forall>as \<in> set more. modest v maximum as"
        "case r of Inl e \<Rightarrow> remembered cache' = remembered c1
         | Inr batch \<Rightarrow> \<exists>k s. more \<noteq> [] \<and> fetch k (last more) = Inr s \<and> from_snapshot v s (last more) requests batch"
        by auto
      show ?thesis
        by (rule exI [of _ "new @ more"]) (use new more o1 in \<open>auto split: sum.splits\<close>)
    next
      case no: False
      show ?thesis
      proof (cases o1)
        case (Inl e)
        then show ?thesis using Suc.prems False one new by (intro exI [of _ new]) auto
      next
        case (Inr b)
        then obtain batch where b: "o1 = Inr (Inr batch)" using no by (cases b) auto
        then obtain s as where last: "new = [as]" "fetch left as = Inr s" "from_snapshot v s as requests batch"
          using new(4) by auto
        have "r = Inr batch" "cache' = c1" using Suc.prems False one b by simp_all
        then show ?thesis using new last by (intro exI [of _ new]) auto
      qed
    qed
  qed
qed

text \<open>
  C14. The adaptive loop \<open>QuoteExactInputsWithSlot\<close> for any venue and any network: at most five
  snapshots are fetched, each for the venue's base accounts and at most 32 distinct arrays; a batch that is
  returned has one quote per request, all of them computed from the accounts of the last snapshot
  fetched and reported with its slot; an error leaves the remembered pool as it was.
\<close>

theorem QuoteExactInputsWithSlot_bounded:
  assumes "QuoteExactInputsWithSlot v cancelled fetch a b configured requests cache = (r, cache')"
  shows "\<exists>new. asked cache' = asked cache @ new \<and> length new \<le> 5
      \<and> (\<forall>as \<in> set new. \<exists>p sel. as = base_of v p @ sel \<and> distinct sel \<and> length sel \<le> 32)
      \<and> (case r of Inl e \<Rightarrow> remembered cache' = remembered cache
         | Inr (slot, quotes) \<Rightarrow> \<exists>k snap accounts. new \<noteq> [] \<and> fetch k (last new) = Inr (Some snap) \<and> Slot snap = slot
             \<and> snapshot_accounts (last new) (Some snap) = Inr accounts
             \<and> list_all2 (\<lambda>request quote. quote_of v accounts request = Inr quote) requests quotes)"
proof (cases "requests = [] \<or> configured = None \<or> (\<exists>e. NormalizeQuoteArrayCounts a b = Inl e)")
  case True
  then have "cache' = cache \<and> (\<exists>e. r = Inl e)"
    using assms by (cases configured) (auto simp: QuoteExactInputsWithSlot_def split: if_splits)
  then show ?thesis by (intro exI [of _ "[]"]) auto
next
  case False
  then obtain pool n where pool: "configured = Some pool" and n: "NormalizeQuoteArrayCounts a b = Inr n" "requests \<noteq> []"
    by (cases "NormalizeQuoteArrayCounts a b") auto
  obtain initial maximum where norm: "n = (initial, maximum)" by (cases n)
  obtain start where "attempts v cancelled fetch initial maximum requests 5 start [] cache = (r, cache')"
    using assms pool n norm by (auto simp: QuoteExactInputsWithSlot_def)
  from attempts_cases [OF this] obtain new where new: "asked cache' = asked cache @ new" "length new \<le> 5"
    "\<forall>as \<in> set new. modest v maximum as"
    "case r of Inl e \<Rightarrow> remembered cache' = remembered cache
         | Inr batch \<Rightarrow> \<exists>k s. new \<noteq> [] \<and> fetch k (last new) = Inr s \<and> from_snapshot v s (last new) requests batch"
    by auto
  have "\<exists>p sel. as = base_of v p @ sel \<and> distinct sel \<and> length sel \<le> 32" if "as \<in> set new" for as
    using new(3) that NormalizeQuoteArrayCounts_bounds [of a b initial maximum] n norm by (fastforce simp: modest_def)
  then show ?thesis
    using new by (intro exI [of _ new]) (auto simp: from_snapshot_def split: sum.splits)
qed

text \<open>A venue whose quote is the account itself, and a network that knows every account as absent.\<close>

definition echo_venue :: "(unit, address, Account option) venue" where
  "echo_venue = \<lparr>base_of = \<lambda>_. [], arrays_of = \<lambda>_ r. Inr [r], refresh_of = \<lambda>_. Inr (), quote_of = \<lambda>acc r. acc r\<rparr>"

definition absent_network :: "nat \<Rightarrow> address list \<Rightarrow> AccountSnapshot option qres" where
  "absent_network k as = Inr (Some \<lparr>Slot = 7, Accounts = map (\<lambda>_. None) as\<rparr>)"

theorem QuoteExactInputsWithSlot_bounded_witness:
  "\<exists>new. asked (snd (QuoteExactInputsWithSlot echo_venue (\<lambda>_. False) absent_network 0 0 (Some ()) [[1], [2]]
       \<lparr>asked = [], remembered = None\<rparr>)) = new \<and> length new \<le> 5"
  using QuoteExactInputsWithSlot_bounded [OF prod.collapse [symmetric],
      of echo_venue "\<lambda>_. False" absent_network 0 0 "Some ()" "[[1], [2]]" "\<lparr>asked = [], remembered = None\<rparr>"] by auto

section \<open>The loop makes progress\<close>

text \<open>
  What the loop relies on: a venue lists at most 16 arrays for a request, and an array that its
  quote misses is missing from the snapshot and among those listed for the refreshed pool.
\<close>

locale array_demand =
  fixes v :: "('pool, 'req, 'quote) venue"
  assumes few: "arrays_of v p r = Inr g \<Longrightarrow> length g \<le> 16"
    and missing: "(\<And>x e. acc x = Inl e \<Longrightarrow> e = ArrayRequired x) \<Longrightarrow> quote_of v acc r = Inl (ArrayRequired a)
      \<Longrightarrow> acc a = Inl (ArrayRequired a)"
    and listed: "(\<And>x e. acc x = Inl e \<Longrightarrow> e = ArrayRequired x)
      \<Longrightarrow> (\<And>x e. x \<in> set (base_of v q) \<Longrightarrow> acc x \<noteq> Inl e) \<Longrightarrow> quote_of v acc r = Inl (ArrayRequired a)
      \<Longrightarrow> refresh_of v acc = Inr p \<Longrightarrow> arrays_of v p r = Inr g \<Longrightarrow> a \<in> set g"
begin

lemma candidates_all:
  assumes "quoteArrayCandidates v p requests = Inr (b, cs)" and "r \<in> set requests"
  shows "\<exists>g. arrays_of v p r = Inr g \<and> set g \<subseteq> set cs"
proof -
  obtain groups where groups: "array_groups (arrays_of v) p requests = Inr groups" "cs = interleave groups"
    using assms(1) by (auto simp: quoteArrayCandidates_def)
  have "\<exists>g. arrays_of v p r = Inr g \<and> g \<in> set groups"
    using groups(1) assms(2) by (induction requests arbitrary: groups) auto
  moreover have "\<forall>g \<in> set gs. length g \<le> 16" if "array_groups (arrays_of v) p rs = Inr gs" for rs gs
    using that by (induction rs arbitrary: gs) (auto dest: few)
  from this [OF groups(1)] have "\<forall>g \<in> set groups. length g \<le> 16" .
  ultimately show ?thesis using groups(2) by (auto simp: set_interleave)
qed

lemma snapshot_missing:
  "snapshot_accounts as s = Inr acc \<Longrightarrow> acc x = Inl e \<Longrightarrow> e = ArrayRequired x"
  "snapshot_accounts as s = Inr acc \<Longrightarrow> acc x = Inl e \<Longrightarrow> x \<notin> set as"
proof -
  assume run: "snapshot_accounts as s = Inr acc" and e: "acc x = Inl e"
  then obtain snap where s: "s = Some snap" by (cases s) (simp_all add: snapshot_accounts_def)
  have len: "length (Accounts snap) = length as"
    and acc: "acc = (\<lambda>a. case map_of (rev (zip as (Accounts snap))) a of None \<Rightarrow> Inl (ArrayRequired a) | Some x \<Rightarrow> Inr x)"
    using run s by (simp_all add: snapshot_accounts_def split: if_splits)
  from acc e have none: "map_of (rev (zip as (Accounts snap))) x = None" "e = ArrayRequired x"
    by (simp_all split: option.splits)
  have "fst ` set (zip as (Accounts snap)) = set as" using len by (metis map_fst_zip set_map)
  then show "x \<notin> set as" using none(1) by (simp add: map_of_eq_None_iff)
  show "e = ArrayRequired x" by (fact none(2))
qed

lemma attempt_demand:
  assumes "attempt v fetch initial maximum requests pool selected cache = (Inr (Inl (p, sel)), cache')"
  shows "\<exists>as N. asked cache' = asked cache @ [as] \<and> N \<noteq> {} \<and> N \<inter> set as = {} \<and> N \<subseteq> set sel
    \<and> (\<forall>b cs. quoteArrayCandidates v p requests = Inr (b, cs) \<longrightarrow> N \<subseteq> set cs)"
proof -
  obtain base candidates where bc: "quoteArrayCandidates v pool requests = Inr (base, candidates)"
    using assms by (auto simp: attempt_def split: sum.splits)
  define as where "as = base @ SelectQuoteArrays candidates selected initial"
  obtain s where fetch: "fetch as = Inr s"
    using assms bc by (auto simp: attempt_def Let_def as_def split: sum.splits if_splits)
  obtain t where run: "ebind (snapshot_accounts as s) (\<lambda>accounts. ebind (refresh_of v accounts) (\<lambda>refreshed.
      ebind (quote_requests (quote_of v accounts) requests) (\<lambda>(quotes, needed). Inr (refreshed, quotes, needed)))) = Inr t"
    using assms bc fetch by (auto simp: attempt_def Let_def as_def split: sum.splits if_splits)
  then obtain acc p' quotes needed where acc: "snapshot_accounts as s = Inr acc" "refresh_of v acc = Inr p'"
    "quote_requests (quote_of v acc) requests = Inr (quotes, needed)" "t = (p', quotes, needed)" by auto
  have out: "needed \<noteq> [] \<and> p' = p \<and> set needed \<subseteq> set sel \<and> asked cache' = asked cache @ [as]"
    using assms bc fetch run acc(4)
    by (auto simp: attempt_def Let_def as_def [symmetric] fold_add_new split: sum.splits if_splits prod.splits)
  have need: "\<exists>r \<in> set requests. quote_of v acc r = Inl (ArrayRequired a)" if "a \<in> set needed" for a
    using quote_requests_needed [OF acc(3) that] .
  note only = snapshot_missing(1) [OF acc(1)]
  have gone: "a \<notin> set as" if "a \<in> set needed" for a
    using need [OF that] missing [OF only] snapshot_missing(2) [OF acc(1)] by blast
  have "set needed \<subseteq> set cs" if cands: "quoteArrayCandidates v p requests = Inr (b, cs)" for b cs
  proof
    fix a assume "a \<in> set needed"
    then obtain r where r: "r \<in> set requests" "quote_of v acc r = Inl (ArrayRequired a)" using need by blast
    obtain g where g: "arrays_of v p r = Inr g" "set g \<subseteq> set cs" using candidates_all [OF cands r(1)] by blast
    have "acc x \<noteq> Inl e" if "x \<in> set (base_of v pool)" for x e
      using that snapshot_missing(2) [OF acc(1), of x e] bc by (auto simp: as_def quoteArrayCandidates_def)
    then show "a \<in> set cs" using listed [OF only _ r(2)] acc(2) out g by blast
  qed
  then show ?thesis using out gone by (intro exI [of _ as] exI [of _ "set needed"]) auto
qed

lemma attempt_asks:
  assumes "attempt v fetch initial maximum requests pool selected cache = (r, cache')"
    and "asked cache' = asked cache @ [as]" and "N \<subseteq> set selected"
    and "\<forall>b cs. quoteArrayCandidates v pool requests = Inr (b, cs) \<longrightarrow> N \<subseteq> set cs"
  shows "N \<subseteq> set as"
proof (cases "quoteArrayCandidates v pool requests")
  case (Inl e)
  then show ?thesis using assms(1,2) by (simp add: attempt_def)
next
  case (Inr bc)
  obtain base candidates where bc: "bc = (base, candidates)" by (cases bc)
  have "as = base @ SelectQuoteArrays candidates selected initial"
    using assms(1,2) Inr bc by (auto simp: attempt_def Let_def split: sum.splits if_splits prod.splits)
  then show ?thesis
    using SelectQuoteArrays_keeps [of selected candidates initial] assms(3,4) Inr bc by auto
qed

lemma attempts_progress:
  assumes "attempts v cancelled fetch initial maximum requests left pool selected cache = (r, cache')"
    and "N \<subseteq> set selected" and "\<forall>b cs. quoteArrayCandidates v pool requests = Inr (b, cs) \<longrightarrow> N \<subseteq> set cs"
  shows "\<exists>new. asked cache' = asked cache @ new \<and> successively (\<lambda>as bs. \<exists>a \<in> set bs. a \<notin> set as) new
    \<and> (new \<noteq> [] \<longrightarrow> N \<subseteq> set (hd new))"
  using assms
proof (induction left arbitrary: pool selected cache N)
  case 0
  then show ?case by auto
next
  case (Suc left)
  show ?case
  proof (cases "cancelled left")
    case True
    then show ?thesis using Suc.prems by auto
  next
    case False
    obtain o1 c1 where one: "attempt v (fetch left) initial maximum requests pool selected cache = (o1, c1)"
      by (cases "attempt v (fetch left) initial maximum requests pool selected cache")
    obtain new where new: "asked c1 = asked cache @ new" "length new \<le> 1" using attempt_cases [OF one] by auto
    have N: "N \<subseteq> set as" if "new = [as]" for as
      using attempt_asks [OF one _ Suc.prems(2,3)] new(1) that by simp
    show ?thesis
    proof (cases "\<exists>pool' selected'. o1 = Inr (Inl (pool', selected'))")
      case True
      then obtain p s where o1: "o1 = Inr (Inl (p, s))" by auto
      from attempt_demand [OF one [unfolded o1]] obtain as N' where d: "asked c1 = asked cache @ [as]" "N' \<noteq> {}"
        "N' \<inter> set as = {}" "N' \<subseteq> set s" "\<forall>b cs. quoteArrayCandidates v p requests = Inr (b, cs) \<longrightarrow> N' \<subseteq> set cs" by blast
      have "attempts v cancelled fetch initial maximum requests left p s c1 = (r, cache')"
        using Suc.prems(1) False one o1 by simp
      from Suc.IH [OF this d(4,5)] obtain more where more: "asked cache' = asked c1 @ more"
        "successively (\<lambda>as bs. \<exists>a \<in> set bs. a \<notin> set as) more" "more \<noteq> [] \<longrightarrow> N' \<subseteq> set (hd more)" by blast
      have "successively (\<lambda>as bs. \<exists>a \<in> set bs. a \<notin> set as) (as # more)"
        using more d(2,3) by (cases more) auto
      then show ?thesis using d(1) more(1) new(1) N by (intro exI [of _ "as # more"]) auto
    next
      case no: False
      then have "cache' = c1"
        using Suc.prems(1) False one by (auto split: sum.splits)
      then show ?thesis using new N by (intro exI [of _ new]) (cases new; auto)
    qed
  qed
qed

lemma QuoteExactInputsWithSlot_grows:
  assumes "QuoteExactInputsWithSlot v cancelled fetch a b configured requests cache = (r, cache')"
  shows "\<exists>new. asked cache' = asked cache @ new \<and> successively (\<lambda>as bs. \<exists>x \<in> set bs. x \<notin> set as) new"
proof (cases "requests = [] \<or> configured = None \<or> (\<exists>e. NormalizeQuoteArrayCounts a b = Inl e)")
  case True
  then have "cache' = cache"
    using assms by (cases configured) (auto simp: QuoteExactInputsWithSlot_def split: if_splits)
  then show ?thesis by (intro exI [of _ "[]"]) auto
next
  case False
  then obtain pool n where n: "configured = Some pool" "NormalizeQuoteArrayCounts a b = Inr n" "requests \<noteq> []"
    by (cases "NormalizeQuoteArrayCounts a b") auto
  obtain start where "attempts v cancelled fetch (fst n) (snd n) requests 5 start [] cache = (r, cache')"
    using assms n by (cases n) (auto simp: QuoteExactInputsWithSlot_def)
  from attempts_progress [OF this, of "{}"] show ?thesis by auto
qed

end

end
