(* ===== verification/Raydium_Client.thy ===== *)
theory Raydium_Client
  imports Raydium_Step Solana_Arrays
begin

text \<open>
  \<open>go/solana/raydium/clmm/client.go\<close>: decoding of the accounts, discovery of the tick arrays from
  the pool's bitmap, and the simulation of an exact input swap over them (\<open>quoteExactInput\<close>).
  The account provider and \<open>FindProgramAddress\<close> of the Solana SDK are parameters.
\<close>

section \<open>Accounts\<close>

record Pool =
  Address :: address
  AMMConfig_addr :: address
  pool_owner :: address
  Token0Mint :: address
  Token1Mint :: address
  Token0Vault :: address
  Token1Vault :: address
  Observation :: address
  Token0Decimals :: u8
  Token1Decimals :: u8
  TickSpacing :: u16
  Liquidity :: bytes
  SqrtPriceX64 :: bytes
  CurrentTick :: int
  Status :: u8
  FeeOn :: u8
  OpenTime :: u64
  pool_epoch :: u64
  TickArrayBitmap :: "u64 list"
  DynamicFee :: bool

record AMMConfig =
  config_address :: address
  Bump :: u8
  Index :: u16
  config_owner :: address
  ProtocolFeeRate :: u32
  TradeFeeRate :: u32
  config_spacing :: u16
  FundFeeRate :: u32
  FundOwner :: address

record Tick =
  tick_index :: int
  LiquidityNet :: bytes
  LiquidityGross :: bytes
  FeeGrowthOutside0X64 :: bytes
  FeeGrowthOutside1X64 :: bytes
  RewardGrowthsOutsideX64 :: "bytes list"
  OrderPhase :: u64
  OrdersAmount :: u64
  PartFilledOrdersRemaining :: u64
  UnfilledRatioX64 :: bytes

record TickArray =
  array_address :: address
  array_pool :: address
  StartTickIndex :: int
  Ticks :: "Tick list"
  InitializedTickCount :: u8
  array_epoch :: u64

record Quote =
  quote_pool :: address
  InputMint :: address
  OutputMint :: address
  AmountIn :: u64
  AmountOut :: u64
  TradeFee :: u64
  quote_price :: bytes
  EndTick :: int
  TickArraysUsed :: nat

definition poolDiscriminator :: bytes where
  "poolDiscriminator = [0xf7, 0xed, 0xe3, 0xf5, 0xd7, 0xc3, 0xde, 0x46]"

definition configDiscriminator :: bytes where
  "configDiscriminator = [0xda, 0xf4, 0x21, 0x68, 0xcb, 0xcb, 0x2b, 0x6f]"

definition tickArrayDiscriminator :: bytes where
  "tickArrayDiscriminator = [0xc0, 0x9b, 0x55, 0xcd, 0x31, 0xf9, 0x81, 0x2a]"

definition allZero :: "bytes \<Rightarrow> bool" where
  "allZero value \<longleftrightarrow> list_all (\<lambda>b. b = 0) value"

definition unsigned128LE :: "bytes \<Rightarrow> int" where
  "unsigned128LE value = be_int (rev value)"

definition signed128LE :: "bytes \<Rightarrow> int" where
  "signed128LE value =
     (if value ! 15 AND 0x80 \<noteq> 0 then unsigned128LE value - push_bit 128 1 else unsigned128LE value)"

definition decodePool :: "address \<Rightarrow> bytes \<Rightarrow> Pool qres" where
  "decodePool a data =
     (if length data \<noteq> 1544 then reject ''data_length=invalid''
      else if take 8 data \<noteq> poolDiscriminator then reject ''discriminator=invalid''
      else
        (let pool = \<lparr>Address = a, AMMConfig_addr = slice data 9 41, pool_owner = slice data 41 73, Token0Mint = slice data 73 105,
               Token1Mint = slice data 105 137, Token0Vault = slice data 137 169, Token1Vault = slice data 169 201,
               Observation = slice data 201 233, Token0Decimals = data ! 233, Token1Decimals = data ! 234, TickSpacing = read_u16 data 235, Liquidity = slice data 237 253, SqrtPriceX64 = slice data 253 269,
               CurrentTick = read_i32 data 269, Status = data ! 389, FeeOn = data ! 390,
               OpenTime = read_u64 data 1080, pool_epoch = read_u64 data 1088,
               TickArrayBitmap = map (\<lambda>i. read_u64 data (904 + i * 8)) [0..<16],
               DynamicFee = \<not> allZero (slice data 1096 1176)\<rparr>
         in if IsZero (AMMConfig_addr pool) \<or> IsZero (Token0Mint pool) \<or> IsZero (Token1Mint pool)
               \<or> IsZero (Token0Vault pool) \<or> IsZero (Token1Vault pool) then reject ''required_address=empty''
            else if TickSpacing pool = 0 then reject ''tick_spacing=empty''
            else if FeeOn pool > 2 then reject ''fee_on=invalid''
            else Inr pool))"

definition decodeAMMConfig :: "address \<Rightarrow> bytes \<Rightarrow> AMMConfig qres" where
  "decodeAMMConfig a data =
     (if length data \<noteq> 117 then reject ''data_length=invalid''
      else if take 8 data \<noteq> configDiscriminator then reject ''discriminator=invalid''
      else
        (let config = \<lparr>config_address = a, Bump = data ! 8, Index = read_u16 data 9,
               config_owner = slice data 11 43, ProtocolFeeRate = read_u32 data 43, TradeFeeRate = read_u32 data 47,
               config_spacing = read_u16 data 51, FundFeeRate = read_u32 data 53,
               FundOwner = slice data 61 93\<rparr>
         in if config_spacing config = 0 then reject ''tick_spacing=empty'' else Inr config))"

definition decodeTick :: "bytes \<Rightarrow> nat \<Rightarrow> Tick" where
  "decodeTick data i =
     (let offset = 44 + i * 168
      in \<lparr>tick_index = read_i32 data offset, LiquidityNet = slice data (offset + 4) (offset + 20),
          LiquidityGross = slice data (offset + 20) (offset + 36),
          FeeGrowthOutside0X64 = slice data (offset + 36) (offset + 52),
          FeeGrowthOutside1X64 = slice data (offset + 52) (offset + 68),
          RewardGrowthsOutsideX64 = map (\<lambda>k. slice data (offset + 68 + k * 16) (offset + 84 + k * 16)) [0..<3],
          OrderPhase = read_u64 data (offset + 116), OrdersAmount = read_u64 data (offset + 124),
          PartFilledOrdersRemaining = read_u64 data (offset + 132),
          UnfilledRatioX64 = slice data (offset + 140) (offset + 156)\<rparr>)"

definition decodeTickArray :: "address \<Rightarrow> bytes \<Rightarrow> TickArray qres" where
  "decodeTickArray a data =
     (if length data \<noteq> 10240 then reject ''data_length=invalid''
      else if take 8 data \<noteq> tickArrayDiscriminator then reject ''discriminator=invalid''
      else Inr \<lparr>array_address = a, array_pool = slice data 8 40, StartTickIndex = read_i32 data 40,
                Ticks = map (decodeTick data) [0..<60], InitializedTickCount = data ! 10124,
                array_epoch = read_u64 data 10125\<rparr>)"

text \<open>\<open>tickArrayAddress\<close>: the seeds of the program address; \<open>derive\<close> is the SDK's derivation.\<close>

type_synonym finder = "bytes list \<Rightarrow> address \<Rightarrow> address res"

definition tickArrayAddress :: "finder \<Rightarrow> address \<Rightarrow> address \<Rightarrow> int \<Rightarrow> address qres" where
  "tickArrayAddress derive programID poolAddress startTickIndex =
     own (derive [map (\<lambda>c. of_nat (of_char c)) ''tick_array'', poolAddress, be_bytes 4 (startTickIndex mod 2 ^ 32)] programID)"

definition readTickArray :: "finder \<Rightarrow> accounts \<Rightarrow> address \<Rightarrow> Pool \<Rightarrow> int \<Rightarrow> TickArray qres" where
  "readTickArray derive accounts programID pool start =
     ebind (tickArrayAddress derive programID (Address pool) start) (\<lambda>a.
     ebind (accounts a) (\<lambda>account.
     case account of None \<Rightarrow> reject ''tick_array_account=null''
     | Some account \<Rightarrow>
         if Owner account \<noteq> programID then reject ''tick_array_owner=invalid''
         else ebind (decodeTickArray a (Data account)) (\<lambda>tickArray.
           if array_pool tickArray \<noteq> Address pool \<or> StartTickIndex tickArray \<noteq> start
           then reject ''tick_array_identity=invalid'' else Inr tickArray)))"

definition refreshPool :: "accounts \<Rightarrow> address \<Rightarrow> Pool \<Rightarrow> Pool qres" where
  "refreshPool accounts programID configured =
     ebind (accounts (Address configured)) (\<lambda>account.
     case account of None \<Rightarrow> reject ''pool_account=null''
     | Some account \<Rightarrow>
         if Owner account \<noteq> programID then reject ''pool_owner=invalid''
         else ebind (decodePool (Address configured) (Data account)) (\<lambda>pool.
           if AMMConfig_addr pool \<noteq> AMMConfig_addr configured \<or> Token0Mint pool \<noteq> Token0Mint configured
              \<or> Token1Mint pool \<noteq> Token1Mint configured
           then reject ''pool_identity=invalid'' else Inr pool))"

section \<open>Ticks in the direction of the swap\<close>

definition initialized :: "Tick \<Rightarrow> bool" where
  "initialized tick \<longleftrightarrow> \<not> allZero (LiquidityGross tick) \<or> OrdersAmount tick \<noteq> 0 \<or> PartFilledOrdersRemaining tick \<noteq> 0"

definition initializedTicks :: "TickArray \<Rightarrow> int \<Rightarrow> bool \<Rightarrow> Tick list" where
  "initializedTicks array currentTick zeroForOne =
     (if zeroForOne then filter (\<lambda>tick. tick_index tick \<le> currentTick \<and> initialized tick) (rev (Ticks array))
      else filter (\<lambda>tick. tick_index tick > currentTick \<and> initialized tick) (Ticks array))"

text \<open>The walk over the bitmap; at most 1024 positions remain, so it always ends.\<close>

function bitmap_walk :: "u64 list \<Rightarrow> int \<Rightarrow> bool \<Rightarrow> nat \<Rightarrow> int \<Rightarrow> int list \<Rightarrow> int list \<times> bool" where
  "bitmap_walk bitmap tickCount zeroForOne limit position result =
     (if 0 \<le> position \<and> position < 1024 \<and> length result < limit then
        bitmap_walk bitmap tickCount zeroForOne limit (if zeroForOne then position - 1 else position + 1)
          (if bit (bitmap ! nat (position div 64)) (nat (position mod 64))
           then result @ [i32 ((position - 512) * tickCount)] else result)
      else (result, position < 0 \<or> position \<ge> 1024))"
  by pat_completeness auto
termination
  by (relation "measure (\<lambda>(_, _, zero, _, position, _). nat (if zero then position + 1 else 1024 - position))") auto

declare bitmap_walk.simps [simp del]

definition initializedTickArrayStarts :: "Pool \<Rightarrow> bool \<Rightarrow> nat \<Rightarrow> int list \<times> bool" where
  "initializedTickArrayStarts pool zeroForOne limit =
     (let tickCount = i32 (uint (TickSpacing pool) * 60);
          current = go_floor_div (CurrentTick pool) tickCount
      in bitmap_walk (TickArrayBitmap pool) tickCount zeroForOne limit (i32 (current + 512)) [])"

section \<open>The swap\<close>

record progress =
  sqrt_price :: int
  active_liquidity :: int
  current_tick :: int
  remaining :: u64
  total_out :: u64
  total_fee :: u64

text \<open>Taking a step's (or a match's) amounts into the totals, with the overflow checks.\<close>

definition account_for :: "bool \<Rightarrow> u64 \<Rightarrow> u64 \<Rightarrow> u64 \<Rightarrow> progress \<Rightarrow> progress qres" where
  "account_for feeOnInput amtIn amtOut fee st =
     ebind (if feeOnInput then
              if u64_add_overflows amtIn fee then reject ''amount=out_of_range'' else Inr (amtIn + fee)
            else Inr amtIn) (\<lambda>consumed.
     if consumed > remaining st \<or> u64_add_overflows (total_out st) amtOut \<or> u64_add_overflows (total_fee st) fee
     then reject ''amount=out_of_range''
     else Inr (st\<lparr>remaining := remaining st - consumed, total_out := total_out st + amtOut,
                  total_fee := total_fee st + fee\<rparr>))"

datatype outcome = Done progress | Going progress

definition cross_tick :: "bool \<Rightarrow> Tick \<Rightarrow> progress \<Rightarrow> outcome qres" where
  "cross_tick zeroForOne tick st =
     (let delta = (if zeroForOne then - signed128LE (LiquidityNet tick) else signed128LE (LiquidityNet tick));
          liquidity = active_liquidity st + delta
      in if liquidity < 0 \<or> BitLen_gt liquidity 128 then reject ''liquidity=out_of_range''
         else
           (let st = st\<lparr>active_liquidity := liquidity,
                        current_tick := if zeroForOne then i32 (tick_index tick - 1) else tick_index tick\<rparr>
            in Inr (if remaining st = 0 then Done st else Going st)))"

text \<open>At the tick's price: its limit orders first, then its crossing.\<close>

definition fill_orders :: "u32 \<Rightarrow> bool \<Rightarrow> bool \<Rightarrow> Tick \<Rightarrow> int \<Rightarrow> progress \<Rightarrow> outcome qres" where
  "fill_orders feeRate zeroForOne feeOnInput tick target st =
     (if OrdersAmount tick \<noteq> 0 \<or> PartFilledOrdersRemaining tick \<noteq> 0 then
        ebind (own (computeExactInputLimitOrderMatch (Some target) (remaining st) (OrdersAmount tick)
                      (PartFilledOrdersRemaining tick) feeRate zeroForOne feeOnInput)) (\<lambda>m.
        ebind (account_for feeOnInput (lmAmountIn m) (lmAmountOut m) (lmFeeAmount m) st) (\<lambda>st.
        if lmOrdersRemain m then
          (let st = st\<lparr>current_tick := if zeroForOne then tick_index tick else i32 (tick_index tick - 1)\<rparr>
           in if remaining st \<noteq> 0 then reject ''limit_order_progress=invalid'' else Inr (Done st))
        else cross_tick zeroForOne tick st))
      else cross_tick zeroForOne tick st)"

text \<open>One tick of \<open>quoteExactInput\<close>: the step up to it, its limit orders, its crossing.\<close>

definition visit_tick :: "u32 \<Rightarrow> bool \<Rightarrow> bool \<Rightarrow> Tick \<Rightarrow> progress \<Rightarrow> outcome qres" where
  "visit_tick feeRate zeroForOne feeOnInput tick st =
     ebind (own (sqrtPriceAtTick (tick_index tick))) (\<lambda>target.
     ebind (own (computeExactInputStep (sqrt_price st) target (active_liquidity st) (remaining st) feeRate zeroForOne feeOnInput)) (\<lambda>step.
     ebind (account_for feeOnInput (amountIn step) (amountOut step) (feeAmount step) st) (\<lambda>st.
     let st = st\<lparr>sqrt_price := sqrtPriceNext step\<rparr>
     in if remaining st = 0 \<and> sqrt_price st \<noteq> target then
          ebind (own (tickAtSqrtPrice (sqrt_price st))) (\<lambda>endTick. Inr (Done (st\<lparr>current_tick := endTick\<rparr>)))
        else if sqrt_price st \<noteq> target then reject ''swap_progress=invalid''
        else fill_orders feeRate zeroForOne feeOnInput tick target st)))"

fun visit_ticks :: "u32 \<Rightarrow> bool \<Rightarrow> bool \<Rightarrow> Tick list \<Rightarrow> progress \<Rightarrow> outcome qres" where
  "visit_ticks feeRate zeroForOne feeOnInput [] st = Inr (Going st)"
| "visit_ticks feeRate zeroForOne feeOnInput (t # ts) st =
     ebind (visit_tick feeRate zeroForOne feeOnInput t st) (\<lambda>r. case r of
        Done st \<Rightarrow> Inr (Done st)
      | Going st \<Rightarrow> visit_ticks feeRate zeroForOne feeOnInput ts st)"

fun visit_arrays :: "(int \<Rightarrow> TickArray qres) \<Rightarrow> u32 \<Rightarrow> bool \<Rightarrow> bool \<Rightarrow> int list \<Rightarrow> nat \<Rightarrow> progress \<Rightarrow> (progress \<times> nat) qres" where
  "visit_arrays arrays feeRate zeroForOne feeOnInput [] used st = Inl (Rejected (Sentinel ''ErrQuoteArrayRange''))"
| "visit_arrays arrays feeRate zeroForOne feeOnInput (start # starts) used st =
     ebind (arrays start) (\<lambda>array.
     ebind (visit_ticks feeRate zeroForOne feeOnInput (initializedTicks array (current_tick st) zeroForOne) st) (\<lambda>r. case r of
        Done st \<Rightarrow> Inr (st, used + 1)
      | Going st \<Rightarrow> visit_arrays arrays feeRate zeroForOne feeOnInput starts (used + 1) st))"

definition makeQuote :: "address \<Rightarrow> address \<Rightarrow> address \<Rightarrow> u64 \<Rightarrow> u64 \<Rightarrow> u64 \<Rightarrow> int \<Rightarrow> int \<Rightarrow> nat \<Rightarrow> Quote qres" where
  "makeQuote pool inputMint outputMint amount out tradeFee p tick arraysUsed =
     ebind (own (FillBytes p 16)) (\<lambda>bigEndian.
       Inr \<lparr>quote_pool = pool, InputMint = inputMint, OutputMint = outputMint, AmountIn = amount, AmountOut = out,
            TradeFee = tradeFee, quote_price = rev bigEndian, EndTick = tick, TickArraysUsed = arraysUsed\<rparr>)"

definition fee_on_input :: "Pool \<Rightarrow> bool \<Rightarrow> bool" where
  "fee_on_input pool zeroForOne \<longleftrightarrow>
     FeeOn pool = 0 \<or> (FeeOn pool = 1 \<and> zeroForOne) \<or> (FeeOn pool = 2 \<and> \<not> zeroForOne)"

text \<open>The part of \<open>quoteExactInput\<close> after the refresh; a missing entry of \<open>c.configs\<close> is the zero value.\<close>

definition quote_pool_state :: "(int \<Rightarrow> TickArray qres) \<Rightarrow> (address \<Rightarrow> AMMConfig option) \<Rightarrow> Pool \<Rightarrow> address \<Rightarrow> u64 \<Rightarrow> Quote qres" where
  "quote_pool_state arrays configs pool inputMint amount =
     (let zeroForOne = (inputMint = Token0Mint pool)
      in if \<not> zeroForOne \<and> inputMint \<noteq> Token1Mint pool then reject ''input_mint=invalid''
         else if DynamicFee pool then reject ''dynamic_fee=unsupported''
         else
           (let feeRate = (case configs (AMMConfig_addr pool) of None \<Rightarrow> 0 | Some c \<Rightarrow> TradeFeeRate c);
                outputMint = (if zeroForOne then Token1Mint pool else Token0Mint pool);
                st = \<lparr>sqrt_price = unsigned128LE (SqrtPriceX64 pool), active_liquidity = unsigned128LE (Liquidity pool),
                      current_tick = CurrentTick pool, remaining = amount, total_out = 0, total_fee = 0\<rparr>
            in ebind (visit_arrays arrays feeRate zeroForOne (fee_on_input pool zeroForOne)
                       (fst (initializedTickArrayStarts pool zeroForOne 16)) 0 st) (\<lambda>(st, used).
               makeQuote (Address pool) inputMint outputMint amount (total_out st) (total_fee st)
                 (sqrt_price st) (current_tick st) used)))"

definition quoteExactInput ::
  "finder \<Rightarrow> accounts \<Rightarrow> address \<Rightarrow> (address \<Rightarrow> AMMConfig option) \<Rightarrow> Pool option \<Rightarrow> address \<Rightarrow> u64 \<Rightarrow> Quote qres" where
  "quoteExactInput derive accounts programID configs configured inputMint amount =
     (if amount = 0 then reject ''amount_in=empty''
      else case configured of None \<Rightarrow> reject ''pool=invalid''
      | Some configured \<Rightarrow>
          ebind (refreshPool accounts programID configured) (\<lambda>pool.
            quote_pool_state (readTickArray derive accounts programID pool) configs pool inputMint amount))"

section \<open>What the swap keeps\<close>

text \<open>Errors that the checks of the code can never report on consistent data.\<close>

definition expected :: "quote_error \<Rightarrow> bool" where
  "expected e \<longleftrightarrow> (case e of
      Rejected (Panic _) \<Rightarrow> False
    | Rejected (Fail r) \<Rightarrow> r \<noteq> ''swap_progress=invalid'' \<and> r \<noteq> ''limit_order_progress=invalid''
    | _ \<Rightarrow> True)"

definition fee_in :: "bool \<Rightarrow> progress \<Rightarrow> int" where
  "fee_in onIn st = (if onIn then uint (total_fee st) else 0)"

definition out_total :: "bool \<Rightarrow> progress \<Rightarrow> int" where
  "out_total onIn st = (if onIn then uint (total_out st) else uint (total_out st) + uint (total_fee st))"

lemma money_updates [simp]:
  "fee_in onIn (st\<lparr>sqrt_price := p\<rparr>) = fee_in onIn st" "out_total onIn (st\<lparr>sqrt_price := p\<rparr>) = out_total onIn st"
  "fee_in onIn (st\<lparr>current_tick := k\<rparr>) = fee_in onIn st" "out_total onIn (st\<lparr>current_tick := k\<rparr>) = out_total onIn st"
  "fee_in onIn (st\<lparr>active_liquidity := l\<rparr>) = fee_in onIn st" "out_total onIn (st\<lparr>active_liquidity := l\<rparr>) = out_total onIn st"
  by (simp_all add: fee_in_def out_total_def)

definition books :: "bool \<Rightarrow> bool \<Rightarrow> int \<Rightarrow> u64 \<Rightarrow> progress \<Rightarrow> bool" where
  "books zero onIn p0 amount st \<longleftrightarrow>
     totals q64 zero True p0 (uint amount) (sqrt_price st) (uint (remaining st))
       (uint amount - uint (remaining st) - fee_in onIn st) (out_total onIn st) (fee_in onIn st)"

text \<open>The price is on the right side of every tick still ahead.\<close>

definition ahead :: "bool \<Rightarrow> progress \<Rightarrow> bool" where
  "ahead zero st \<longleftrightarrow> (\<forall>t. rayMinTick \<le> t \<longrightarrow> t \<le> rayMaxTick \<longrightarrow>
     (if zero then t \<le> current_tick st \<longrightarrow> ray_sqrt t \<le> sqrt_price st
      else current_tick st < t \<longrightarrow> sqrt_price st \<le> ray_sqrt t))"

definition swap_inv :: "bool \<Rightarrow> bool \<Rightarrow> int \<Rightarrow> u64 \<Rightarrow> progress \<Rightarrow> bool" where
  "swap_inv zero onIn p0 amount st \<longleftrightarrow>
     books zero onIn p0 amount st \<and> ahead zero st \<and> 0 \<le> active_liquidity st \<and> active_liquidity st < 2 ^ 128
     \<and> sqrt_price st < 2 ^ 128"

definition swap_done :: "bool \<Rightarrow> bool \<Rightarrow> int \<Rightarrow> u64 \<Rightarrow> progress \<Rightarrow> bool" where
  "swap_done zero onIn p0 amount st \<longleftrightarrow> books zero onIn p0 amount st \<and> remaining st = 0 \<and> sqrt_price st < 2 ^ 128"

lemma account_for_Inr:
  assumes "account_for onIn i out fee st = Inr st'"
  shows "uint (remaining st') = uint (remaining st) - (if onIn then uint i + uint fee else uint i)"
    and "uint (total_out st') = uint (total_out st) + uint out"
    and "uint (total_fee st') = uint (total_fee st) + uint fee"
    and "sqrt_price st' = sqrt_price st" "active_liquidity st' = active_liquidity st" "current_tick st' = current_tick st"
    and "(if onIn then uint i + uint fee else uint i) \<le> uint (remaining st)"
proof -
  obtain c where c: "if onIn then \<not> u64_add_overflows i fee \<and> c = i + fee else c = i" "c \<le> remaining st"
    "\<not> u64_add_overflows (total_out st) out" "\<not> u64_add_overflows (total_fee st) fee"
    "st' = st\<lparr>remaining := remaining st - c, total_out := total_out st + out, total_fee := total_fee st + fee\<rparr>"
    using assms by (auto simp: account_for_def not_less split: if_splits)
  have u: "uint c = (if onIn then uint i + uint fee else uint i)" using c(1) by (auto simp: uint_add_u64)
  have "uint c \<le> uint (remaining st)" using c(2) by (simp only: word_le_def)
  with c u show "uint (remaining st') = uint (remaining st) - (if onIn then uint i + uint fee else uint i)"
    "uint (total_out st') = uint (total_out st) + uint out" "uint (total_fee st') = uint (total_fee st) + uint fee"
    "sqrt_price st' = sqrt_price st" "active_liquidity st' = active_liquidity st" "current_tick st' = current_tick st"
    "(if onIn then uint i + uint fee else uint i) \<le> uint (remaining st)"
    by (simp_all add: uint_sub_u64 uint_add_u64)
qed

lemma account_for_Inl: "account_for onIn i out fee st = Inl e \<Longrightarrow> e = Rejected (Fail ''amount=out_of_range'')"
  by (auto simp: account_for_def ebind_def split: sum.splits if_splits)

text \<open>The step of the swap, seen by the books.\<close>

lemma books_step:
  assumes b: "books zero onIn p0 amount st" and p0: "0 < p0" and l: "0 \<le> active_liquidity st" "active_liquidity st < 2 ^ 128"
    and t: "0 < target" "if zero then target \<le> sqrt_price st else sqrt_price st \<le> target"
    and run: "computeExactInputStep (sqrt_price st) target (active_liquidity st) (remaining st) f zero onIn = Inr step"
    and acc: "account_for onIn (amountIn step) (amountOut step) (feeAmount step) st = Inr st'"
  shows "books zero onIn p0 amount (st'\<lparr>sqrt_price := sqrtPriceNext step\<rparr>)"
    and "sqrtPriceNext step \<noteq> target \<Longrightarrow> remaining st' = 0"
    and "toward zero (sqrt_price st) target (sqrtPriceNext step)"
proof -
  note a = account_for_Inr [OF acc]
  have p: "0 < sqrt_price st" using b by (simp add: books_def totals_def)
  have rate: "ray_rate (f, onIn)"
    using run by (auto simp: ray_rate_def computeExactInputStep_def rate_out_of_range split: if_splits)
  have pre: "step_pre (sqrt_price st) target (active_liquidity st) (uint (remaining st)) zero"
    using p t l by (simp add: step_pre_def)
  have one: "ray_step (sqrt_price st) target (active_liquidity st) (uint (remaining st)) (f, onIn) zero True
      = Inr (uint (amountIn step), gross_out onIn step, sqrtPriceNext step, spent onIn step - uint (amountIn step))"
    using run by (simp add: ray_step_def u64_of_def)
  have rem: "uint (remaining st') = uint (remaining st) - spent onIn step" using a(1) by (simp add: spent_def)
  have "totals q64 zero True p0 (uint amount) (sqrtPriceNext step) (uint (remaining st) - spent onIn step)
      (uint amount - uint (remaining st) - fee_in onIn st + uint (amountIn step)) (out_total onIn st + gross_out onIn step)
      (fee_in onIn st + (spent onIn step - uint (amountIn step)))"
    using ray.totals_step(1) [OF b [unfolded books_def] p0 rate pre one] by simp
  moreover have e: "fee_in onIn st + (spent onIn step - uint (amountIn step)) = fee_in onIn st'"
    "out_total onIn st + gross_out onIn step = out_total onIn st'" "uint (remaining st) - spent onIn step = uint (remaining st')"
    using a rem by (simp_all add: fee_in_def out_total_def spent_def gross_out_def)
  moreover from e have "uint amount - uint (remaining st) - fee_in onIn st + uint (amountIn step)
      = uint amount - uint (remaining st') - fee_in onIn st'" by linarith
  ultimately have "totals q64 zero True p0 (uint amount) (sqrtPriceNext step) (uint (remaining st'))
      (uint amount - uint (remaining st') - fee_in onIn st') (out_total onIn st') (fee_in onIn st')"
    by (simp only: e)
  then show "books zero onIn p0 amount (st'\<lparr>sqrt_price := sqrtPriceNext step\<rparr>)"
    by (simp add: books_def)
  show "toward zero (sqrt_price st) target (sqrtPriceNext step)"
    using ray.totals_step(3) [OF b [unfolded books_def] p0 rate pre one] .
  show "remaining st' = 0" if "sqrtPriceNext step \<noteq> target"
  proof -
    have "uint (remaining st') = 0"
      using ray.totals_step(2) [OF b [unfolded books_def] p0 rate pre one that] rem by simp
    then show ?thesis by (simp add: uint_0_iff)
  qed
qed

lemma books_match:
  assumes b: "books zero onIn p0 amount st" and p0: "0 < p0"
    and m: "lm_facts (sqrt_price st) (remaining st) offer f zero onIn m"
    and acc: "account_for onIn (lmAmountIn m) (lmAmountOut m) (lmFeeAmount m) st = Inr st'"
  shows "books zero onIn p0 amount st'" and "lmOrdersRemain m \<Longrightarrow> remaining st' = 0"
proof -
  note a = account_for_Inr [OF acc]
  let ?i = "uint (lmAmountIn m)" and ?f = "lm_spent onIn m - uint (lmAmountIn m)"
  have f0: "0 \<le> ?f" "0 \<le> lm_gross onIn m" by (simp_all add: lm_spent_def lm_gross_def)
  have "totals q64 zero True p0 (uint amount) (sqrt_price st) (uint (remaining st) - (?i + ?f))
      (uint amount - uint (remaining st) - fee_in onIn st + ?i) (out_total onIn st + lm_gross onIn m) (fee_in onIn st + ?f)"
    using m f0 by (intro totals_exchange [OF b [unfolded books_def] p0]) (simp_all add: lm_facts_def)
  moreover have e: "fee_in onIn st + ?f = fee_in onIn st'" "out_total onIn st + lm_gross onIn m = out_total onIn st'"
    "uint (remaining st) - (?i + ?f) = uint (remaining st')"
    using a by (simp_all add: fee_in_def out_total_def lm_spent_def lm_gross_def)
  moreover from e have "uint amount - uint (remaining st) - fee_in onIn st + ?i = uint amount - uint (remaining st') - fee_in onIn st'"
    by linarith
  ultimately show "books zero onIn p0 amount st'" by (simp only: books_def a(4))
  show "remaining st' = 0" if "lmOrdersRemain m"
  proof -
    have "uint (remaining st') = 0"
      using m that a(1) by (simp add: lm_facts_def lm_spent_def split: if_splits)
    then show ?thesis by (simp add: uint_0_iff)
  qed
qed

section \<open>One tick\<close>

lemma sqrtPriceAtTick_Inr:
  assumes "sqrtPriceAtTick t = Inr p"
  shows "rayMinTick \<le> t" "t \<le> rayMaxTick" "p = ray_sqrt t"
proof -
  show r: "rayMinTick \<le> t" "t \<le> rayMaxTick" using assms by (auto simp: sqrtPriceAtTick_def split: if_splits)
  show "p = ray_sqrt t" using assms sqrtPriceAtTick_eq [OF r] by simp
qed

lemma sqrtPriceAtTick_Inl: "sqrtPriceAtTick t = Inl e \<Longrightarrow> expected (Rejected e)"
  using sqrtPriceAtTick_eq [of t] by (cases "rayMinTick \<le> t \<and> t \<le> rayMaxTick") (auto simp: sqrtPriceAtTick_def expected_def)

lemma ray_sqrt_mono: "rayMinTick \<le> a \<Longrightarrow> a \<le> b \<Longrightarrow> b \<le> rayMaxTick \<Longrightarrow> ray_sqrt a \<le> ray_sqrt b"
  using ray_sqrt_less [of a b] by (cases "a = b") auto

lemma ray_sqrt_top: "ray_sqrt rayMaxTick < 2 ^ 128"
  by code_simp

lemma ray_sqrt_bound: "rayMinTick \<le> t \<Longrightarrow> t \<le> rayMaxTick \<Longrightarrow> ray_sqrt t < 2 ^ 128"
  using ray_sqrt_mono [of t rayMaxTick] ray_sqrt_top by simp

lemma tickAtSqrtPrice_Inl: "tickAtSqrtPrice p = Inl e \<Longrightarrow> expected (Rejected e)"
  using tickAtSqrtPrice_found [of p] tickAtSqrtPrice_refused [of p]
  by (cases "ray_sqrt rayMinTick \<le> p \<and> p < ray_sqrt rayMaxTick") (auto simp: expected_def)

definition tick_post :: "bool \<Rightarrow> bool \<Rightarrow> int \<Rightarrow> u64 \<Rightarrow> Tick \<Rightarrow> outcome qres \<Rightarrow> bool" where
  "tick_post zero onIn p0 amount tick r \<longleftrightarrow> (case r of
      Inl e \<Rightarrow> expected e
    | Inr (Done st) \<Rightarrow> swap_done zero onIn p0 amount st
    | Inr (Going st) \<Rightarrow> swap_inv zero onIn p0 amount st
        \<and> current_tick st = (if zero then tick_index tick - 1 else tick_index tick))"

lemma books_pos: "books zero onIn p0 amount st \<Longrightarrow> 0 < sqrt_price st"
  by (simp add: books_def totals_def)

text \<open>Crossing leaves the books alone; the tick crossed is now behind.\<close>

lemma cross_tick_post:
  assumes "books zero onIn p0 amount st" and t: "rayMinTick \<le> tick_index tick" "tick_index tick \<le> rayMaxTick"
    and p: "sqrt_price st = ray_sqrt (tick_index tick)"
  shows "tick_post zero onIn p0 amount tick (cross_tick zero tick st)"
proof -
  have "books zero onIn p0 amount (st\<lparr>active_liquidity := l, current_tick := k\<rparr>)" for l k
    using assms(1) by (simp add: books_def)
  moreover have "ahead zero (st\<lparr>active_liquidity := l, current_tick := if zero then tick_index tick - 1 else tick_index tick\<rparr>)" for l
    unfolding ahead_def using p ray_sqrt_mono [of _ "tick_index tick"] ray_sqrt_mono [of "tick_index tick"] t by auto
  moreover have "i32 (tick_index tick - 1) = tick_index tick - 1" using t by simp
  ultimately show ?thesis
    using ray_sqrt_bound [OF t] p
    by (auto simp: cross_tick_def tick_post_def Let_def swap_inv_def swap_done_def expected_def BitLen_gt_def)
qed

lemma step_Inl:
  assumes "computeExactInputStep p t l r f zero onIn = Inl e" and "0 < p" "0 < t" "0 \<le> l" "if zero then t \<le> p else p \<le> t"
  shows "expected (Rejected e)"
proof (cases "uint f < 1000000")
  case True
  then show ?thesis using computeExactInputStep_cases [OF assms(2-5) True, of r onIn] assms(1) by (auto simp: expected_def)
next
  case False
  then show ?thesis using assms(1) by (auto simp: computeExactInputStep_def rate_out_of_range expected_def)
qed

lemma fill_orders_post:
  assumes b: "books zero onIn p0 amount st" and p0: "0 < p0" and t: "rayMinTick \<le> tick_index tick" "tick_index tick \<le> rayMaxTick"
    and p: "sqrt_price st = ray_sqrt (tick_index tick)"
  shows "tick_post zero onIn p0 amount tick (fill_orders f zero onIn tick (sqrt_price st) st)"
proof (cases "OrdersAmount tick \<noteq> 0 \<or> PartFilledOrdersRemaining tick \<noteq> 0")
  case False
  then show ?thesis using cross_tick_post [OF b t p] by (simp add: fill_orders_def)
next
  case orders: True
  note cases = match_cases [where sp = "Some (sqrt_price st)" and r = "remaining st" and orders = "OrdersAmount tick"
      and part = "PartFilledOrdersRemaining tick" and f = f and zero = zero and onIn = onIn]
  show ?thesis
  proof (cases "computeExactInputLimitOrderMatch (Some (sqrt_price st)) (remaining st) (OrdersAmount tick)
                  (PartFilledOrdersRemaining tick) f zero onIn")
    case (Inl e)
    then have "expected (Rejected e)" using cases by (auto simp: expected_def)
    then show ?thesis using orders Inl by (simp add: fill_orders_def tick_post_def)
  next
    case m: (Inr m)
    then have facts: "lm_facts (sqrt_price st) (remaining st)
        (uint (OrdersAmount tick) + uint (PartFilledOrdersRemaining tick)) f zero onIn m"
      using cases by simp
    show ?thesis
    proof (cases "account_for onIn (lmAmountIn m) (lmAmountOut m) (lmFeeAmount m) st")
      case (Inl e)
      then show ?thesis using account_for_Inl [OF Inl] orders m by (simp add: fill_orders_def tick_post_def expected_def)
    next
      case acc: (Inr st')
      note a = account_for_Inr [OF acc] and b' = books_match [OF b p0 facts acc]
      have p': "sqrt_price st' = ray_sqrt (tick_index tick)" using a(4) p by simp
      show ?thesis
      proof (cases "lmOrdersRemain m")
        case True
        have "swap_done zero onIn p0 amount (st'\<lparr>current_tick := k\<rparr>)" for k
          using b'(1) b'(2) [OF True] ray_sqrt_bound [OF t] p' by (simp add: swap_done_def books_def)
        then show ?thesis using orders m acc True b'(2) [OF True] by (simp add: fill_orders_def tick_post_def Let_def)
      next
        case False
        then show ?thesis using orders m acc cross_tick_post [OF b'(1) t p'] by (simp add: fill_orders_def)
      qed
    qed
  qed
qed

lemma visit_tick_post:
  assumes inv: "swap_inv zero onIn p0 amount st" and p0: "0 < p0"
    and dir: "if zero then tick_index tick \<le> current_tick st else current_tick st < tick_index tick"
  shows "tick_post zero onIn p0 amount tick (visit_tick f zero onIn tick st)"
proof (cases "sqrtPriceAtTick (tick_index tick)")
  case (Inl e)
  then show ?thesis using sqrtPriceAtTick_Inl by (simp add: visit_tick_def tick_post_def)
next
  case target: (Inr target)
  note t = sqrtPriceAtTick_Inr [OF target]
  have b: "books zero onIn p0 amount st" and l: "0 \<le> active_liquidity st" "active_liquidity st < 2 ^ 128"
    and top: "sqrt_price st < 2 ^ 128" using inv by (simp_all add: swap_inv_def)
  have tpos: "0 < target" using t ray_sqrt_pos by simp
  have tdir: "if zero then target \<le> sqrt_price st else sqrt_price st \<le> target"
    using inv dir t by (auto simp: swap_inv_def ahead_def)
  show ?thesis
  proof (cases "computeExactInputStep (sqrt_price st) target (active_liquidity st) (remaining st) f zero onIn")
    case (Inl e)
    then show ?thesis using step_Inl [OF Inl books_pos [OF b] tpos l(1) tdir] target by (simp add: visit_tick_def tick_post_def)
  next
    case step: (Inr step)
    show ?thesis
    proof (cases "account_for onIn (amountIn step) (amountOut step) (feeAmount step) st")
      case (Inl e)
      then show ?thesis using account_for_Inl [OF Inl] target step by (simp add: visit_tick_def tick_post_def expected_def)
    next
      case acc: (Inr st1)
      define st2 where "st2 = st1\<lparr>sqrt_price := sqrtPriceNext step\<rparr>"
      have b2: "books zero onIn p0 amount st2" and rem: "sqrtPriceNext step \<noteq> target \<Longrightarrow> remaining st1 = 0"
        and tw: "toward zero (sqrt_price st) target (sqrtPriceNext step)"
        using books_step [OF b p0 l tpos tdir step acc] by (simp_all add: st2_def)
      show ?thesis
      proof (cases "sqrtPriceNext step = target")
        case True
        then show ?thesis using target step acc fill_orders_post [OF b2 p0 t(1,2)] t(3)
          by (simp add: visit_tick_def st2_def)
      next
        case False
        have "sqrt_price st2 < 2 ^ 128"
          using tw top ray_sqrt_bound [OF t(1,2)] t(3) by (auto simp: st2_def toward_def split: if_splits)
        then have fin: "swap_done zero onIn p0 amount (st2\<lparr>current_tick := k\<rparr>)" for k
          using b2 rem [OF False] by (simp add: swap_done_def books_def st2_def)
        show ?thesis
          using tickAtSqrtPrice_Inl [of "sqrtPriceNext step"] fin target step acc False rem [OF False]
          by (cases "tickAtSqrtPrice (sqrtPriceNext step)") (simp_all add: visit_tick_def tick_post_def st2_def)
      qed
    qed
  qed
qed

section \<open>All ticks, all arrays\<close>

definition in_order :: "bool \<Rightarrow> Tick list \<Rightarrow> bool" where
  "in_order zero ts \<longleftrightarrow> sorted_wrt (\<lambda>a b. if zero then tick_index b < tick_index a else tick_index a < tick_index b) ts"

lemma visit_ticks_post:
  assumes "swap_inv zero onIn p0 amount st" and "0 < p0" and "in_order zero ts"
    and "\<forall>t \<in> set ts. if zero then tick_index t \<le> current_tick st else current_tick st < tick_index t"
  shows "case visit_ticks f zero onIn ts st of Inl e \<Rightarrow> expected e
    | Inr (Done st') \<Rightarrow> swap_done zero onIn p0 amount st' | Inr (Going st') \<Rightarrow> swap_inv zero onIn p0 amount st'"
  using assms
proof (induction ts arbitrary: st)
  case Nil
  then show ?case by simp
next
  case (Cons t ts)
  have post: "tick_post zero onIn p0 amount t (visit_tick f zero onIn t st)"
    using Cons.prems by (intro visit_tick_post) auto
  show ?case
  proof (cases "visit_tick f zero onIn t st")
    case (Inl e)
    then show ?thesis using post by (simp add: tick_post_def)
  next
    case (Inr r)
    show ?thesis
    proof (cases r)
      case (Done st')
      then show ?thesis using post Inr by (simp add: tick_post_def)
    next
      case (Going st')
      then have st': "swap_inv zero onIn p0 amount st'"
        "current_tick st' = (if zero then tick_index t - 1 else tick_index t)"
        using post Inr by (simp_all add: tick_post_def)
      have "\<forall>u \<in> set ts. if zero then tick_index u \<le> current_tick st' else current_tick st' < tick_index u"
        using Cons.prems(3) st'(2) by (auto simp: in_order_def)
      moreover have "in_order zero ts" using Cons.prems(3) by (simp add: in_order_def)
      ultimately show ?thesis using Cons.IH [OF st'(1) Cons.prems(2)] Inr Going by simp
    qed
  qed
qed

text \<open>
  What the program keeps of its tick arrays: an initialized tick sits in the slot of its index.
\<close>

definition regular :: "int \<Rightarrow> TickArray \<Rightarrow> bool" where
  "regular spacing array \<longleftrightarrow> (\<forall>i < length (Ticks array). initialized (Ticks array ! i) \<longrightarrow>
     tick_index (Ticks array ! i) = StartTickIndex array + int i * spacing)"

lemma initializedTicks_order:
  assumes "regular spacing array" and "0 < spacing"
  shows "in_order zero (initializedTicks array k zero)"
proof -
  let ?P = "\<lambda>a b. initialized a \<longrightarrow> initialized b \<longrightarrow> tick_index a < tick_index b"
  have "?P (Ticks array ! i) (Ticks array ! j)" if "i < j" "j < length (Ticks array)" for i j
    using assms that by (auto simp: regular_def)
  then have "sorted_wrt ?P (Ticks array)" by (simp add: sorted_wrt_iff_nth_less)
  then have "sorted_wrt ?P (filter initialized (Ticks array))" by (rule sorted_wrt_filter)
  then have base: "sorted_wrt (\<lambda>a b. tick_index a < tick_index b) (filter initialized (Ticks array))"
    by (rule sorted_wrt_mono_rel [rotated]) auto
  have split: "initializedTicks array k zero = filter (\<lambda>t. if zero then tick_index t \<le> k else k < tick_index t)
      (if zero then rev (filter initialized (Ticks array)) else filter initialized (Ticks array))"
    by (simp add: initializedTicks_def rev_filter filter_filter conj_commute cong: conj_cong)
  show ?thesis
    unfolding split in_order_def using base
    by (cases zero) (simp_all only: if_True if_False sorted_wrt_filter sorted_wrt_rev)
qed

lemma initializedTicks_side:
  "\<forall>t \<in> set (initializedTicks array k zero). if zero then tick_index t \<le> k else k < tick_index t"
  by (auto simp: initializedTicks_def)

lemma visit_arrays_post:
  assumes "swap_inv zero onIn p0 amount st" and "0 < p0" and spacing: "0 < spacing"
    and arrays: "\<And>s a. arrays s = Inr a \<Longrightarrow> regular spacing a" "\<And>s e. arrays s = Inl e \<Longrightarrow> expected e"
  shows "case visit_arrays arrays f zero onIn starts used st of Inl e \<Rightarrow> expected e
    | Inr (st', _) \<Rightarrow> swap_done zero onIn p0 amount st'"
  using assms(1)
proof (induction starts arbitrary: st used)
  case Nil
  then show ?case by (simp add: expected_def)
next
  case (Cons s ss)
  show ?case
  proof (cases "arrays s")
    case (Inl e)
    then show ?thesis using arrays(2) by simp
  next
    case (Inr a)
    have "case visit_ticks f zero onIn (initializedTicks a (current_tick st) zero) st of Inl e \<Rightarrow> expected e
      | Inr (Done st') \<Rightarrow> swap_done zero onIn p0 amount st' | Inr (Going st') \<Rightarrow> swap_inv zero onIn p0 amount st'"
      using Cons.prems assms(2) initializedTicks_order [OF arrays(1) [OF Inr] spacing] initializedTicks_side
      by (rule visit_ticks_post)
    then show ?thesis using Inr Cons.IH
      by (cases "visit_ticks f zero onIn (initializedTicks a (current_tick st) zero) st") (auto split: outcome.splits)
  qed
qed

section \<open>Decoded accounts\<close>

lemma length_slice: "b \<le> length d \<Longrightarrow> length (slice d a b) = b - a"
  by (simp add: slice_def)

lemma decodePool_Inr:
  assumes "decodePool a d = Inr pool"
  shows "Address pool = a" "length (Liquidity pool) = 16" "length (SqrtPriceX64 pool) = 16" "0 < uint (TickSpacing pool)"
proof -
  have len: "length d = 1544" using assms by (simp add: decodePool_def split: if_splits)
  have "TickSpacing pool \<noteq> 0" using assms by (auto simp: decodePool_def Let_def split: if_splits)
  then have "uint (TickSpacing pool) \<noteq> 0" by (simp add: uint_0_iff)
  moreover have "0 \<le> uint (TickSpacing pool)" by simp
  ultimately show "0 < uint (TickSpacing pool)" by linarith
  show "Address pool = a" "length (Liquidity pool) = 16" "length (SqrtPriceX64 pool) = 16"
    using assms len by (auto simp: decodePool_def Let_def length_slice split: if_splits)
qed

lemma decodePool_Inl: "decodePool a d = Inl e \<Longrightarrow> expected e \<and> (\<forall>x. e \<noteq> ArrayRequired x)"
  by (auto simp: decodePool_def Let_def expected_def split: if_splits)

lemma unsigned128LE_bounds: "length v = 16 \<Longrightarrow> 0 \<le> unsigned128LE v \<and> unsigned128LE v < 2 ^ 128"
  using be_int_bounds [of "rev v"] by (simp add: unsigned128LE_def)

lemma refreshPool_Inr:
  assumes "refreshPool accounts programID configured = Inr pool"
  shows "Address pool = Address configured" "length (Liquidity pool) = 16" "length (SqrtPriceX64 pool) = 16"
    "0 < uint (TickSpacing pool)"
  using assms decodePool_Inr by (auto simp: refreshPool_def split: option.splits if_splits)

lemma makeQuote_Inr: "0 \<le> p \<Longrightarrow> p < 2 ^ 128 \<Longrightarrow> makeQuote a i out n m t p k u
    = Inr \<lparr>quote_pool = a, InputMint = i, OutputMint = out, AmountIn = n, AmountOut = m, TradeFee = t,
           quote_price = rev (be_bytes 16 p), EndTick = k, TickArraysUsed = u\<rparr>"
  by (simp add: makeQuote_def FillBytes_def)

text \<open>The result of the walk is ordered and bounded, so the arrays are visited in the swap's direction.\<close>

lemma bitmap_walk_length: "length result \<le> limit \<Longrightarrow> length (fst (bitmap_walk bm n zero limit position result)) \<le> limit"
proof (induction bm n zero limit position result rule: bitmap_walk.induct)
  case (1 bm n zero limit position result)
  show ?case
  proof (cases "0 \<le> position \<and> position < 1024 \<and> length result < limit")
    case True
    then show ?thesis using 1 by (subst bitmap_walk.simps) auto
  next
    case False
    then show ?thesis using 1(2) by (subst bitmap_walk.simps) auto
  qed
qed

lemma length_starts: "length (fst (initializedTickArrayStarts pool zero limit)) \<le> limit"
  by (simp add: initializedTickArrayStarts_def bitmap_walk_length Let_def)

lemma readTickArray_Inl:
  assumes "readTickArray derive accounts programID pool s = Inl e"
    and "\<And>a e. accounts a = Inl e \<Longrightarrow> expected e" and "\<And>x y e. derive x y = Inl e \<Longrightarrow> expected (Rejected e)"
  shows "expected e"
  using assms
  by (auto simp: readTickArray_def tickArrayAddress_def decodeTickArray_def expected_def own_def ebind_def Let_def
      split: sum.splits option.splits if_splits)

section \<open>The quote\<close>

lemma quote_pool_state_cases:
  fixes pool mint amount
  defines "zero \<equiv> mint = Token0Mint pool" and "p0 \<equiv> unsigned128LE (SqrtPriceX64 pool)"
  assumes len: "length (Liquidity pool) = 16" "length (SqrtPriceX64 pool) = 16" and spacing: "0 < uint (TickSpacing pool)"
    and tick: "rayMinTick \<le> CurrentTick pool" "CurrentTick pool < rayMaxTick"
    and p: "ray_sqrt (CurrentTick pool) \<le> p0" "p0 \<le> ray_sqrt (CurrentTick pool + 1)"
    and arrays: "\<And>s a. arrays s = Inr a \<Longrightarrow> regular (uint (TickSpacing pool)) a" "\<And>s e. arrays s = Inl e \<Longrightarrow> expected e"
  shows "case quote_pool_state arrays configs pool mint amount of Inl e \<Rightarrow> expected e
    | Inr q \<Rightarrow> AmountIn q = amount \<and> (\<exists>st. swap_done zero (fee_on_input pool zero) p0 amount st
        \<and> AmountOut q = total_out st \<and> TradeFee q = total_fee st \<and> quote_price q = rev (be_bytes 16 (sqrt_price st)))"
proof -
  let ?st = "\<lparr>sqrt_price = p0, active_liquidity = unsigned128LE (Liquidity pool),
      current_tick = CurrentTick pool, remaining = amount, total_out = 0, total_fee = 0\<rparr>"
  let ?onIn = "fee_on_input pool zero"
  have pos: "0 < p0" using p(1) ray_sqrt_pos [of "CurrentTick pool"] tick by simp
  have "ahead zero ?st"
    unfolding ahead_def using p tick ray_sqrt_mono [of _ "CurrentTick pool"] ray_sqrt_mono [of "CurrentTick pool + 1"]
    by (auto intro: order_trans)
  moreover have "books zero ?onIn p0 amount ?st"
    using pos by (simp add: books_def fee_in_def out_total_def totals_start)
  moreover have "p0 < 2 ^ 128" unfolding p0_def using unsigned128LE_bounds [OF len(2)] by simp
  ultimately have inv: "swap_inv zero ?onIn p0 amount ?st"
    using unsigned128LE_bounds [OF len(1)] by (simp add: swap_inv_def)
  let ?f = "case configs (AMMConfig_addr pool) of None \<Rightarrow> 0 | Some c \<Rightarrow> TradeFeeRate c"
  define V where "V = visit_arrays arrays ?f zero ?onIn (fst (initializedTickArrayStarts pool zero 16)) 0 ?st"
  have post: "case V of Inl e \<Rightarrow> expected e | Inr (st', _) \<Rightarrow> swap_done zero ?onIn p0 amount st'"
    unfolding V_def using inv pos spacing arrays by (rule visit_arrays_post)
  have run: "quote_pool_state arrays configs pool mint amount =
     (if \<not> zero \<and> mint \<noteq> Token1Mint pool then reject ''input_mint=invalid''
      else if DynamicFee pool then reject ''dynamic_fee=unsupported''
      else ebind V (\<lambda>(st, used).
             makeQuote (Address pool) mint (if zero then Token1Mint pool else Token0Mint pool) amount (total_out st) (total_fee st)
               (sqrt_price st) (current_tick st) used))"
    unfolding quote_pool_state_def Let_def zero_def p0_def V_def ..
  show ?thesis
  proof (cases V)
    case (Inl e)
    then show ?thesis using post run by (simp add: expected_def)
  next
    case (Inr r)
    obtain st used where r: "r = (st, used)" by (cases r)
    have fin: "swap_done zero ?onIn p0 amount st" using post Inr r by simp
    then have "0 \<le> sqrt_price st" "sqrt_price st < 2 ^ 128" using books_pos [of zero ?onIn p0 amount st] by (auto simp: swap_done_def)
    then show ?thesis using run Inr r fin by (auto simp: makeQuote_Inr expected_def)
  qed
qed


definition sample_ray_pool :: Pool where
  "sample_ray_pool = \<lparr>Address = [1], AMMConfig_addr = [2], pool_owner = [], Token0Mint = [3], Token1Mint = [4],
     Token0Vault = [5], Token1Vault = [6], Observation = [], Token0Decimals = 6, Token1Decimals = 6, TickSpacing = 1,
     Liquidity = le_bytes 16 (10 ^ 12), SqrtPriceX64 = le_bytes 16 (2 ^ 64), CurrentTick = 0, Status = 0, FeeOn = 0,
     OpenTime = 0, pool_epoch = 0, TickArrayBitmap = (replicate 16 0)[8 := 1], DynamicFee = False\<rparr>"

definition sample_ray_tick :: "bool \<Rightarrow> int \<Rightarrow> Tick" where
  "sample_ray_tick on k = \<lparr>tick_index = k, LiquidityNet = replicate 16 0, LiquidityGross = (if on then [1] else [0]),
     FeeGrowthOutside0X64 = [], FeeGrowthOutside1X64 = [], RewardGrowthsOutsideX64 = [], OrderPhase = 0, OrdersAmount = 0,
     PartFilledOrdersRemaining = 0, UnfilledRatioX64 = []\<rparr>"

definition sample_ray_arrays :: "int \<Rightarrow> TickArray qres" where
  "sample_ray_arrays s = Inr \<lparr>array_address = [], array_pool = [1], StartTickIndex = s,
     Ticks = map (\<lambda>i. sample_ray_tick (i = 10) (s + int i)) [0..<60], InitializedTickCount = 1, array_epoch = 0\<rparr>"


end
