(* ===== verification/Raydium_Venue.thy ===== *)
theory Raydium_Venue
  imports Raydium_Client
begin

text \<open>
  The Raydium client as a venue of the adaptive quote loop (\<open>Solana_Arrays\<close>):
  \<open>quoteSnapshotAddresses\<close> of \<open>go/solana/raydium/clmm/client.go\<close> lists the arrays of a request,
  \<open>quoteExactInput\<close> on a snapshot reports the array it misses.
\<close>

section \<open>Definitions\<close>

fun collect_arrays :: "(int \<Rightarrow> address qres) \<Rightarrow> int list \<Rightarrow> address list \<Rightarrow> address list qres" where
  "collect_arrays derived [] addresses = Inr addresses"
| "collect_arrays derived (start # starts) addresses =
     ebind (derived start) (\<lambda>a. collect_arrays derived starts (add_new a addresses))"

type_synonym request = "address \<times> u64"

fun request_addresses :: "finder \<Rightarrow> address \<Rightarrow> Pool \<Rightarrow> request list \<Rightarrow> address list \<Rightarrow> address list qres" where
  "request_addresses derive programID pool [] addresses = Inr addresses"
| "request_addresses derive programID pool ((mint, amount) # requests) addresses =
     (if amount = 0 then reject ''amount_in=empty''
      else if mint \<noteq> Token0Mint pool \<and> mint \<noteq> Token1Mint pool then reject ''input_mint=invalid''
      else ebind (collect_arrays (tickArrayAddress derive programID (Address pool))
                    (fst (initializedTickArrayStarts pool (mint = Token0Mint pool) 16)) addresses)
             (request_addresses derive programID pool requests))"

definition quoteSnapshotAddresses :: "finder \<Rightarrow> address \<Rightarrow> Pool \<Rightarrow> request list \<Rightarrow> address list qres" where
  "quoteSnapshotAddresses derive programID pool requests =
     request_addresses derive programID pool requests [Address pool]"

definition raydium_venue ::
  "finder \<Rightarrow> address \<Rightarrow> (address \<Rightarrow> AMMConfig option) \<Rightarrow> Pool \<Rightarrow> (Pool, request, Quote) venue" where
  "raydium_venue derive programID configs configured =
     \<lparr>base_of = \<lambda>pool. [Address pool],
      arrays_of = \<lambda>pool r. ebind (quoteSnapshotAddresses derive programID pool [r]) (\<lambda>as. Inr (drop 1 as)),
      refresh_of = \<lambda>accounts. refreshPool accounts programID configured,
      quote_of = \<lambda>accounts (mint, amount). quoteExactInput derive accounts programID configs (Some configured) mint amount\<rparr>"

section \<open>Which arrays are listed\<close>

lemma collect_arrays_Inr:
  "collect_arrays derived starts as = Inr as' \<Longrightarrow>
     (\<exists>new. as' = as @ new \<and> length new \<le> length starts) \<and> (\<forall>s \<in> set starts. \<exists>a \<in> set as'. derived s = Inr a)"
proof (induction starts arbitrary: as)
  case (Cons s ss)
  then obtain a where a: "derived s = Inr a" "collect_arrays derived ss (add_new a as) = Inr as'" by auto
  from Cons.IH [OF a(2)] obtain new where new: "as' = add_new a as @ new" "length new \<le> length ss"
    "\<forall>s \<in> set ss. \<exists>a \<in> set as'. derived s = Inr a" by auto
  then show ?case
    using a(1) by (cases "a \<in> set as") (auto simp: add_new_def)
qed simp

lemma raydium_arrays:
  assumes "arrays_of (raydium_venue derive programID configs configured) pool (mint, amount) = Inr g"
  shows "length g \<le> 16"
    and "\<forall>s \<in> set (fst (initializedTickArrayStarts pool (mint = Token0Mint pool) 16)).
           \<exists>a \<in> set (Address pool # g). tickArrayAddress derive programID (Address pool) s = Inr a"
proof -
  let ?starts = "fst (initializedTickArrayStarts pool (mint = Token0Mint pool) 16)"
  obtain as where "collect_arrays (tickArrayAddress derive programID (Address pool)) ?starts [Address pool] = Inr as" "g = drop 1 as"
    using assms by (auto simp: raydium_venue_def quoteSnapshotAddresses_def split: if_splits)
  then show "length g \<le> 16"
    "\<forall>s \<in> set ?starts. \<exists>a \<in> set (Address pool # g). tickArrayAddress derive programID (Address pool) s = Inr a"
    using collect_arrays_Inr [of _ ?starts "[Address pool]" as] length_starts [of pool "mint = Token0Mint pool" 16] by fastforce+
qed

section \<open>Which array is missed\<close>

lemma own_missing [simp]: "own r \<noteq> Inl (ArrayRequired a)"
  by (simp add: own_def split: sum.splits)

lemma visit_ticks_missing: "visit_ticks f zero onIn ts st \<noteq> Inl (ArrayRequired a)"
proof (induction ts arbitrary: st)
  case (Cons t ts)
  have "cross_tick zero tick st \<noteq> Inl (ArrayRequired a)" for tick st
    by (simp add: cross_tick_def Let_def)
  moreover have acc: "account_for onIn i out fee st \<noteq> Inl (ArrayRequired a)" for i out fee st
    using account_for_Inl by fastforce
  ultimately have "fill_orders f zero onIn tick p st \<noteq> Inl (ArrayRequired a)" for tick p st
    by (auto simp: fill_orders_def ebind_def Let_def split: sum.splits)
  then have "visit_tick f zero onIn tick st \<noteq> Inl (ArrayRequired a)" for tick st
    by (auto simp: visit_tick_def ebind_def Let_def split: sum.splits) (metis acc own_missing)+
  then show ?case using Cons by (auto simp: ebind_def split: sum.splits outcome.splits)
qed simp

lemma readTickArray_missing:
  "readTickArray derive accounts programID pool s = Inl (ArrayRequired a) \<Longrightarrow>
     \<exists>x. tickArrayAddress derive programID (Address pool) s = Inr x \<and> accounts x = Inl (ArrayRequired a)"
  by (auto simp: readTickArray_def ebind_def decodeTickArray_def tickArrayAddress_def
      split: sum.splits option.splits if_splits)

lemma visit_arrays_missing:
  "visit_arrays arrays f zero onIn starts used st = Inl (ArrayRequired a) \<Longrightarrow> \<exists>s \<in> set starts. arrays s = Inl (ArrayRequired a)"
proof (induction starts arbitrary: used st)
  case (Cons s ss)
  then show ?case
    using visit_ticks_missing by (fastforce simp: ebind_def split: sum.splits outcome.splits)
qed simp

lemma makeQuote_missing: "makeQuote p i out n m t q k u \<noteq> Inl (ArrayRequired a)"
  by (cases "FillBytes q 16") (simp_all add: makeQuote_def)

lemma quoteExactInput_missing:
  assumes only: "\<And>x e. accounts x = Inl e \<Longrightarrow> e = ArrayRequired x"
    and run: "quoteExactInput derive accounts programID configs (Some configured) mint amount = Inl (ArrayRequired a)"
  shows "accounts a = Inl (ArrayRequired a)"
    and "refreshPool accounts programID configured = Inr pool \<Longrightarrow>
      \<exists>s \<in> set (fst (initializedTickArrayStarts pool (mint = Token0Mint pool) 16)).
        tickArrayAddress derive programID (Address pool) s = Inr a"
proof -
  have two: "refreshPool accounts programID configured = Inl (ArrayRequired a) \<or>
      (\<exists>pool. refreshPool accounts programID configured = Inr pool \<and>
        quote_pool_state (readTickArray derive accounts programID pool) configs pool mint amount = Inl (ArrayRequired a))"
    using run by (auto simp: quoteExactInput_def ebind_def split: sum.splits if_splits)
  have refresh: "accounts a = Inl (ArrayRequired a)" if "refreshPool accounts programID configured = Inl (ArrayRequired a)"
    using that only decodePool_Inl
    by (fastforce simp: refreshPool_def ebind_def split: sum.splits option.splits if_splits)
  have arrays: "\<exists>s \<in> set (fst (initializedTickArrayStarts pool (mint = Token0Mint pool) 16)).
        tickArrayAddress derive programID (Address pool) s = Inr a \<and> accounts a = Inl (ArrayRequired a)"
    if "quote_pool_state (readTickArray derive accounts programID pool) configs pool mint amount = Inl (ArrayRequired a)" for pool
  proof -
    from that obtain f onIn st where "visit_arrays (readTickArray derive accounts programID pool) f (mint = Token0Mint pool) onIn
        (fst (initializedTickArrayStarts pool (mint = Token0Mint pool) 16)) 0 st = Inl (ArrayRequired a)"
      using makeQuote_missing by (fastforce simp: quote_pool_state_def Let_def ebind_def split: sum.splits if_splits)
    from visit_arrays_missing [OF this] obtain s where
      s: "s \<in> set (fst (initializedTickArrayStarts pool (mint = Token0Mint pool) 16))"
      "readTickArray derive accounts programID pool s = Inl (ArrayRequired a)" by blast
    from readTickArray_missing [OF s(2)] obtain x where
      "tickArrayAddress derive programID (Address pool) s = Inr x" "accounts x = Inl (ArrayRequired a)" by blast
    with only [of x] s(1) show ?thesis by auto
  qed
  show "accounts a = Inl (ArrayRequired a)" using two refresh arrays by blast
  show "\<exists>s \<in> set (fst (initializedTickArrayStarts pool (mint = Token0Mint pool) 16)).
        tickArrayAddress derive programID (Address pool) s = Inr a"
    if "refreshPool accounts programID configured = Inr pool"
    using two that arrays by auto
qed

interpretation raydium: array_demand "raydium_venue derive programID configs configured"
  for derive programID configs configured
proof
  fix pool r g
  assume "arrays_of (raydium_venue derive programID configs configured) pool r = Inr g"
  then show "length g \<le> 16" using raydium_arrays(1) by (cases r) auto
next
  fix accounts r a
  assume only: "\<And>x e. accounts x = Inl e \<Longrightarrow> e = ArrayRequired x"
    and "quote_of (raydium_venue derive programID configs configured) accounts r = Inl (ArrayRequired a)"
  then show "accounts a = Inl (ArrayRequired a)"
    by (cases r) (auto simp: raydium_venue_def intro: quoteExactInput_missing(1))
next
  fix accounts r a pool g
  assume only: "\<And>x e. accounts x = Inl e \<Longrightarrow> e = ArrayRequired x"
    and q: "quote_of (raydium_venue derive programID configs configured) accounts r = Inl (ArrayRequired a)"
    and refresh: "refresh_of (raydium_venue derive programID configs configured) accounts = Inr pool"
    and g: "arrays_of (raydium_venue derive programID configs configured) pool r = Inr g"
  obtain mint amount where r: "r = (mint, amount)" by (cases r)
  have q': "quoteExactInput derive accounts programID configs (Some configured) mint amount = Inl (ArrayRequired a)"
    and refresh': "refreshPool accounts programID configured = Inr pool"
    using q refresh r by (simp_all add: raydium_venue_def)
  obtain s where s: "s \<in> set (fst (initializedTickArrayStarts pool (mint = Token0Mint pool) 16))"
    "tickArrayAddress derive programID (Address pool) s = Inr a"
    using quoteExactInput_missing(2) [OF only q' refresh'] by blast
  have "a \<in> set (Address pool # g)" using raydium_arrays(2) [OF g [unfolded r]] s by auto
  moreover have "a \<noteq> Address pool"
  proof
    assume "a = Address pool"
    then have "accounts (Address configured) = Inl (ArrayRequired a)"
      using quoteExactInput_missing(1) [OF only q'] refreshPool_Inr(1) [OF refresh'] by simp
    with refresh' show False by (simp add: refreshPool_def)
  qed
  ultimately show "a \<in> set g" by simp
qed

text \<open>
  The adaptive loop on Raydium makes progress: every snapshot it fetches after the first asks
  for an array that the one before did not contain.
\<close>

lemma raydium_quotes_progress:
  assumes "QuoteExactInputsWithSlot (raydium_venue derive programID configs configured) cancelled fetch a b
      (Some configured) requests cache = (r, cache')"
  shows "\<exists>new. asked cache' = asked cache @ new
    \<and> (\<forall>i. Suc i < length new \<longrightarrow> (\<exists>x \<in> set (new ! Suc i). x \<notin> set (new ! i)))"
  using raydium.QuoteExactInputsWithSlot_grows [OF assms] by (auto simp: successively_conv_nth)

lemma raydium_quotes_progress_witness:
  "\<exists>new. asked (snd (QuoteExactInputsWithSlot (raydium_venue (\<lambda>_ p. Inr p) [9] (\<lambda>_. None) sample_ray_pool) (\<lambda>_. False)
       (\<lambda>k as. Inr (Some \<lparr>Slot = 7, Accounts = map (\<lambda>_. None) as\<rparr>)) 0 0 (Some sample_ray_pool) [([4], 1)]
       \<lparr>asked = [], remembered = None\<rparr>)) = new
     \<and> (\<forall>i. Suc i < length new \<longrightarrow> (\<exists>x \<in> set (new ! Suc i). x \<notin> set (new ! i)))"
  using raydium_quotes_progress [OF prod.collapse [symmetric], of "\<lambda>_ p. Inr p" "[9]" "\<lambda>_. None" sample_ray_pool "\<lambda>_. False"
      "\<lambda>k as. Inr (Some \<lparr>Slot = 7, Accounts = map (\<lambda>_. None) as\<rparr>)" 0 0 "[([4], 1)]" "\<lparr>asked = [], remembered = None\<rparr>"]
  by auto

end
