(* ===== verification/Go_Text.thy ===== *)
theory Go_Text
  imports Prelude
begin

text \<open>
  Go strings as lists of bytes (\<open>char\<close>), and the functions of \<open>strings\<close>, \<open>unicode/utf8\<close> and
  \<open>math/big\<close> on them that the repository uses. \<open>TrimSpace\<close> removes the byte sequences of
  all Unicode white space; \<open>RuneCountInString\<close> counts an invalid byte as one rune.
\<close>

section \<open>Bytes\<close>

abbreviation byte_of :: "char \<Rightarrow> nat" where "byte_of c \<equiv> of_char c"

fun drop_prefix :: "'a list \<Rightarrow> 'a list \<Rightarrow> 'a list option" where
  "drop_prefix [] s = Some s"
| "drop_prefix (p # ps) (c # s) = (if p = c then drop_prefix ps s else None)"
| "drop_prefix (p # ps) [] = None"

definition HasPrefix :: "'a list \<Rightarrow> 'a list \<Rightarrow> bool" where
  "HasPrefix s p \<longleftrightarrow> take (length p) s = p"

section \<open>White space\<close>

text \<open>The encodings of the white space runes of Unicode.\<close>

definition space_codes :: "string list" where
  "space_codes =
     [[CHR 0x09], [CHR 0x0A], [CHR 0x0B], [CHR 0x0C], [CHR 0x0D], [CHR 0x20],
      [CHR 0xC2, CHR 0x85], [CHR 0xC2, CHR 0xA0], [CHR 0xE1, CHR 0x9A, CHR 0x80]]
     @ map (\<lambda>c. [CHR 0xE2, CHR 0x80, c])
         [CHR 0x80, CHR 0x81, CHR 0x82, CHR 0x83, CHR 0x84, CHR 0x85, CHR 0x86, CHR 0x87, CHR 0x88,
          CHR 0x89, CHR 0x8A, CHR 0xA8, CHR 0xA9, CHR 0xAF]
     @ [[CHR 0xE2, CHR 0x81, CHR 0x9F], [CHR 0xE3, CHR 0x80, CHR 0x80]]"

fun first_match :: "string list \<Rightarrow> string \<Rightarrow> string option" where
  "first_match [] s = None"
| "first_match (p # ps) s = (case drop_prefix p s of Some r \<Rightarrow> Some r | None \<Rightarrow> first_match ps s)"

fun trim_codes :: "string list \<Rightarrow> nat \<Rightarrow> string \<Rightarrow> string" where
  "trim_codes ps 0 s = s"
| "trim_codes ps (Suc k) s = (case first_match ps s of Some r \<Rightarrow> trim_codes ps k r | None \<Rightarrow> s)"

text \<open>Every match is at least one byte long, so as many rounds as bytes suffice.\<close>

definition TrimSpace :: "string \<Rightarrow> string" where
  "TrimSpace s =
     (let l = trim_codes space_codes (length s) s
      in rev (trim_codes (map rev space_codes) (length l) (rev l)))"

section \<open>Runes\<close>

definition cont :: "nat \<Rightarrow> nat \<Rightarrow> char \<Rightarrow> bool" where
  "cont lo hi c \<longleftrightarrow> lo \<le> byte_of c \<and> byte_of c \<le> hi"

text \<open>The width of the first rune; an invalid encoding is one byte wide.\<close>

fun rune_width :: "string \<Rightarrow> nat" where
  "rune_width [] = 0"
| "rune_width (a # s) =
     (let n = byte_of a;
          tail = cont 0x80 0xBF;
          two = (\<lambda>lo hi. case s of b # _ \<Rightarrow> cont lo hi b | _ \<Rightarrow> False);
          three = (\<lambda>lo hi. case s of b # c # _ \<Rightarrow> cont lo hi b \<and> tail c | _ \<Rightarrow> False);
          four = (\<lambda>lo hi. case s of b # c # d # _ \<Rightarrow> cont lo hi b \<and> tail c \<and> tail d | _ \<Rightarrow> False)
      in if 0xC2 \<le> n \<and> n \<le> 0xDF then (if two 0x80 0xBF then 2 else 1)
         else if n = 0xE0 then (if three 0xA0 0xBF then 3 else 1)
         else if n = 0xED then (if three 0x80 0x9F then 3 else 1)
         else if 0xE1 \<le> n \<and> n \<le> 0xEF then (if three 0x80 0xBF then 3 else 1)
         else if n = 0xF0 then (if four 0x90 0xBF then 4 else 1)
         else if 0xF1 \<le> n \<and> n \<le> 0xF3 then (if four 0x80 0xBF then 4 else 1)
         else if n = 0xF4 then (if four 0x80 0x8F then 4 else 1)
         else 1)"

lemma rune_width_pos [simp]: "s \<noteq> [] \<Longrightarrow> 0 < rune_width s"
  by (cases s) (simp_all add: Let_def)

function RuneCount :: "string \<Rightarrow> nat" where
  "RuneCount s = (if s = [] then 0 else Suc (RuneCount (drop (rune_width s) s)))"
  by pat_completeness auto
termination by (relation "measure length") (auto simp: diff_less_mono2)

declare RuneCount.simps [simp del]

text \<open>The runes of a string, each as its bytes, and the classes the code asks for.\<close>

function runes :: "string \<Rightarrow> string list" where
  "runes s = (if s = [] then [] else take (rune_width s) s # runes (drop (rune_width s) s))"
  by pat_completeness auto
termination by (relation "measure length") (auto simp: diff_less_mono2)

declare runes.simps [simp del]

definition valid_rune :: "string \<Rightarrow> bool" where
  "valid_rune r \<longleftrightarrow> 1 < length r \<or> list_all (\<lambda>c. byte_of c < 0x80) r"

definition ValidString :: "string \<Rightarrow> bool" where
  "ValidString s \<longleftrightarrow> list_all valid_rune (runes s)"

definition IsSpace :: "string \<Rightarrow> bool" where
  "IsSpace r \<longleftrightarrow> r \<in> set space_codes"

definition IsControl :: "string \<Rightarrow> bool" where
  "IsControl r \<longleftrightarrow>
     (case r of [c] \<Rightarrow> byte_of c < 0x20 \<or> byte_of c = 0x7F
      | [b, c] \<Rightarrow> byte_of b = 0xC2 \<and> byte_of c < 0xA0
      | _ \<Rightarrow> False)"

lemma length_runes: "length (runes s) = RuneCount s"
  by (induction s rule: runes.induct) (simp add: runes.simps RuneCount.simps)

lemma concat_runes: "concat (runes s) = s"
  by (induction s rule: runes.induct) (subst runes.simps, simp)

section \<open>Splitting\<close>

fun split_on :: "char \<Rightarrow> string \<Rightarrow> string list" where
  "split_on c [] = [[]]"
| "split_on c (x # xs) =
     (if x = c then [] # split_on c xs
      else case split_on c xs of [] \<Rightarrow> [[x]] | p # ps \<Rightarrow> (x # p) # ps)"

lemma split_on_none: "c \<notin> set s \<Longrightarrow> split_on c s = [s]"
  by (induction s) auto

lemma split_on_one: "c \<notin> set s \<Longrightarrow> split_on c (s @ c # t) = s # split_on c t"
  by (induction s) auto

section \<open>Decimal digits\<close>

definition is_digit :: "char \<Rightarrow> bool" where
  "is_digit c \<longleftrightarrow> 48 \<le> byte_of c \<and> byte_of c \<le> 57"

definition digit_char :: "nat \<Rightarrow> char" where
  "digit_char n = char_of (n + 48)"

abbreviation zero_char :: char where "zero_char \<equiv> CHR ''0''"

text \<open>\<open>SetString(s, 10)\<close> on a string of digits, and \<open>String\<close>.\<close>

definition read_digits :: "string \<Rightarrow> nat" where
  "read_digits s = foldl (\<lambda>n c. 10 * n + (byte_of c - 48)) 0 s"

fun show_digits :: "nat \<Rightarrow> string" where
  "show_digits n = (if n < 10 then [digit_char n] else show_digits (n div 10) @ [digit_char (n mod 10)])"

declare show_digits.simps [simp del]

lemma byte_digit [simp]: "n < 10 \<Longrightarrow> byte_of (digit_char n) = n + 48"
  by (simp add: digit_char_def)

lemma is_digit_digit_char [simp]: "n < 10 \<Longrightarrow> is_digit (digit_char n)"
  by (simp add: is_digit_def)

lemma digit_char_0: "digit_char 0 = zero_char"
  by code_simp

lemma digit_char_zero: "n < 10 \<Longrightarrow> digit_char n = zero_char \<longleftrightarrow> n = 0"
proof
  assume "n < 10" and "digit_char n = zero_char"
  then have "byte_of (digit_char n) = byte_of zero_char" by simp
  then show "n = 0" using \<open>n < 10\<close> by simp
qed (simp add: digit_char_0)

lemma read_digits_simps [simp]:
  "read_digits [] = 0" "read_digits [c] = byte_of c - 48"
  by (simp_all add: read_digits_def)

lemma read_digits_append: "read_digits (xs @ ys) = read_digits xs * 10 ^ length ys + read_digits ys"
  by (induction ys rule: rev_induct) (simp_all add: read_digits_def algebra_simps)

lemma read_digits_Cons: "read_digits (c # s) = (byte_of c - 48) * 10 ^ length s + read_digits s"
  using read_digits_append [of "[c]" s] by simp

lemma read_digits_zeros: "read_digits (replicate k zero_char) = 0"
  by (induction k) (simp_all add: read_digits_Cons)

lemma read_digits_strip: "read_digits (dropWhile (\<lambda>c. c = zero_char) s) = read_digits s"
  by (induction s) (simp_all add: read_digits_Cons)

lemma read_digits_less: "list_all is_digit s \<Longrightarrow> read_digits s < 10 ^ length s"
proof (induction s rule: rev_induct)
  case (snoc c s)
  then have "byte_of c \<le> 57" by (simp add: is_digit_def)
  then have "byte_of c - 48 \<le> 9" by linarith
  then show ?case using snoc by (simp add: read_digits_append)
qed simp

lemma read_show_digits [simp]: "read_digits (show_digits n) = n"
proof (induction n rule: show_digits.induct)
  case (1 n)
  then show ?case by (subst show_digits.simps) (simp add: read_digits_append)
qed

lemma digits_show [simp]: "list_all is_digit (show_digits n)"
proof (induction n rule: show_digits.induct)
  case (1 n)
  then show ?case by (subst show_digits.simps) simp
qed

lemma show_digits_nonempty [simp]: "show_digits n \<noteq> []"
  by (subst show_digits.simps) simp

lemma hd_show_digits: "0 < n \<Longrightarrow> hd (show_digits n) \<noteq> zero_char"
proof (induction n rule: show_digits.induct)
  case (1 n)
  then show ?case by (subst show_digits.simps) (auto simp: digit_char_zero hd_append)
qed

lemma div10_less: "(n::nat) div 10 < m \<longleftrightarrow> n < 10 * m"
  by linarith

lemma length_show_digits: "0 < k \<Longrightarrow> length (show_digits n) \<le> k \<longleftrightarrow> n < 10 ^ k"
proof (induction n arbitrary: k rule: show_digits.induct)
  case (1 n)
  show ?case
  proof (cases "n < 10")
    case True
    moreover have "(10::nat) \<le> 10 ^ k" using 1(2) by (cases k) simp_all
    ultimately show ?thesis using 1(2) by (subst show_digits.simps) simp
  next
    case False
    then obtain j where k: "k = Suc j" using 1(2) by (cases k) auto
    show ?thesis
    proof (cases j)
      case 0
      have "show_digits n = show_digits (n div 10) @ [digit_char (n mod 10)]" using False by (subst show_digits.simps) simp
      then show ?thesis using k 0 False show_digits_nonempty [of "n div 10"] by (cases "show_digits (n div 10)") auto
    next
      case (Suc i)
      have "length (show_digits n) \<le> k \<longleftrightarrow> length (show_digits (n div 10)) \<le> j"
        using False k by (subst show_digits.simps) simp
      also have "\<dots> \<longleftrightarrow> n div 10 < 10 ^ j" using 1(1) [OF False] Suc by simp
      also have "\<dots> \<longleftrightarrow> n < 10 * 10 ^ j" by (rule div10_less)
      also have "\<dots> \<longleftrightarrow> n < 10 ^ k" using k by simp
      finally show ?thesis .
    qed
  qed
qed

text \<open>A digit string without leading zeros is the printed form of its value.\<close>

lemma show_read_digits:
  "s \<noteq> [] \<Longrightarrow> list_all is_digit s \<Longrightarrow> hd s \<noteq> zero_char \<Longrightarrow> show_digits (read_digits s) = s"
proof (induction s rule: rev_induct)
  case (snoc c s)
  have c: "byte_of c - 48 < 10" "digit_char (byte_of c - 48) = c" using snoc.prems by (auto simp: is_digit_def digit_char_def)
  show ?case
  proof (cases "s = []")
    case True
    then show ?thesis using c by (subst show_digits.simps) simp
  next
    case False
    then have IH: "show_digits (read_digits s) = s" using snoc by simp
    have "read_digits s \<noteq> 0"
    proof
      assume "read_digits s = 0"
      then have "show_digits 0 = s" using IH by simp
      then have "s = [zero_char]" by (subst (asm) show_digits.simps) (simp add: digit_char_0)
      then show False using snoc.prems by simp
    qed
    then have "\<not> read_digits s * 10 + (byte_of c - 48) < 10" by simp
    then show ?thesis using IH c by (subst show_digits.simps) (simp add: read_digits_append)
  qed
qed simp

text \<open>White space neither starts nor ends with a printable ASCII character.\<close>

definition plain :: "char \<Rightarrow> bool" where
  "plain c \<longleftrightarrow> 0x20 < byte_of c \<and> byte_of c < 0x7F"

lemma digit_plain: "is_digit c \<Longrightarrow> plain c"
  by (simp add: is_digit_def plain_def)

lemma first_match_none: "\<forall>p \<in> set ps. p \<noteq> [] \<and> hd p \<noteq> c \<Longrightarrow> first_match ps (c # s) = None"
proof (induction ps)
  case (Cons p ps)
  then show ?case by (cases p) auto
qed simp

lemma space_ends: "\<forall>p \<in> set space_codes. p \<noteq> [] \<and> \<not> plain (hd p)"
  "\<forall>p \<in> set (map rev space_codes). p \<noteq> [] \<and> \<not> plain (hd p)"
  by (simp_all add: space_codes_def plain_def)

lemma trim_plain:
  assumes "s \<noteq> []" and "plain (hd s)" and "\<forall>p \<in> set ps. p \<noteq> [] \<and> \<not> plain (hd p)"
  shows "trim_codes ps k s = s"
proof -
  have "first_match ps s = None" using assms first_match_none [of ps "hd s" "tl s"] by (cases s) auto
  then show ?thesis by (cases k) simp_all
qed

lemma TrimSpace_plain: "s \<noteq> [] \<Longrightarrow> plain (hd s) \<Longrightarrow> plain (last s) \<Longrightarrow> TrimSpace s = s"
  using trim_plain [of s space_codes "length s"] trim_plain [of "rev s" "map rev space_codes" "length s"] space_ends
  by (simp add: TrimSpace_def hd_rev)

lemma TrimSpace_digits: "s \<noteq> [] \<Longrightarrow> is_digit (hd s) \<Longrightarrow> is_digit (last s) \<Longrightarrow> TrimSpace s = s"
  by (simp add: TrimSpace_plain digit_plain)

text \<open>ASCII text has one rune for each byte.\<close>

lemma runes_ascii: "list_all (\<lambda>c. byte_of c < 0x80) s \<Longrightarrow> runes s = map (\<lambda>c. [c]) s"
  by (induction s) (simp_all add: runes.simps Let_def)

lemma RuneCount_ascii: "list_all (\<lambda>c. byte_of c < 0x80) s \<Longrightarrow> RuneCount s = length s"
  by (simp add: runes_ascii flip: length_runes)

lemma plain_ascii: "list_all plain s \<Longrightarrow> list_all (\<lambda>c. byte_of c < 0x80) s"
  by (auto simp: list_all_iff plain_def)

lemma plain_not_space: "plain c \<Longrightarrow> \<not> IsSpace [c]"
  using space_ends(1) by (auto simp: IsSpace_def)

lemma plain_not_control: "plain c \<Longrightarrow> \<not> IsControl [c]"
  by (simp add: IsControl_def plain_def)

lemma plain_valid: "list_all plain s \<Longrightarrow> ValidString s"
  unfolding ValidString_def runes_ascii [OF plain_ascii]
  by (auto simp: valid_rune_def list_all_iff plain_def)

end
