(* ===== verification/Core_Amount.thy ===== *)
theory Core_Amount
  imports Go_Text
begin

text \<open>
  \<open>go/core/amount.go\<close>: decimal amounts of an asset and integer amounts of its base unit, and the
  conversions between them. Both are strings; the integers between are \<open>big.Int\<close> values.
\<close>

section \<open>Definitions\<close>

definition AmountMaxAssetDecimals :: nat where "AmountMaxAssetDecimals = 77"
definition AmountMaxInputLength :: nat where "AmountMaxInputLength = 128"
definition AmountMaxBaseUnitDigits :: nat where "AmountMaxBaseUnitDigits = 78"

type_synonym DecimalAmount = string
type_synonym BaseUnitAmount = string

definition isAmountDigits :: "string \<Rightarrow> bool" where
  "isAmountDigits s \<longleftrightarrow> s \<noteq> [] \<and> list_all is_digit s"

definition TrimLeft0 :: "string \<Rightarrow> string" where
  "TrimLeft0 s = dropWhile (\<lambda>c. c = zero_char) s"

definition TrimRight0 :: "string \<Rightarrow> string" where
  "TrimRight0 s = rev (TrimLeft0 (rev s))"

definition parseDecimalAmountParts :: "string \<Rightarrow> u8 \<Rightarrow> (string \<times> string) res" where
  "parseDecimalAmountParts v decimals =
     (let s = TrimSpace v
      in if s = [] then Inl (Fail ''decimal_amount=empty'')
         else if length s > AmountMaxInputLength then Inl (Fail ''decimal_amount=too long'')
         else if HasPrefix s ''+'' \<or> HasPrefix s ''-'' \<or> CHR ''e'' \<in> set s \<or> CHR ''E'' \<in> set s
         then Inl (Fail ''decimal_amount'')
         else
           (let parts = split_on (CHR ''.'') s
            in if length parts > 2 then Inl (Fail ''decimal_amount'')
               else if parts ! 0 = [] then Inl (Fail ''decimal_amount'')
               else if length parts = 2 \<and> parts ! 1 = [] then Inl (Fail ''decimal_amount'')
               else
                 (let intPart = parts ! 0; fracPart = (if length parts = 2 then parts ! 1 else [])
                  in if length fracPart > unat decimals then Inl (Fail ''amount decimals exceed asset decimals'')
                     else if \<not> isAmountDigits (intPart @ fracPart) then Inl (Fail ''decimal_amount'')
                     else Inr (intPart, fracPart))))"

definition ToBaseUnitInt :: "DecimalAmount \<Rightarrow> u8 \<Rightarrow> int res" where
  "ToBaseUnitInt a decimals =
     (if unat decimals > AmountMaxAssetDecimals then Inl (Fail ''decimals'')
      else
        ebind (parseDecimalAmountParts a decimals) (\<lambda>(intPart, fracPart).
        let fracPart = fracPart @ replicate (unat decimals - length fracPart) zero_char;
            s = TrimLeft0 (intPart @ fracPart)
        in if s = [] then Inl (Fail ''amount must be greater than zero'')
           else if length s > AmountMaxBaseUnitDigits then Inl (Fail ''base_unit_amount=too long'')
           else
             (let n = int (read_digits s)
              in if n \<le> 0 then Inl (Fail ''decimal_amount'') else Inr n)))"

definition ToBaseUnits :: "DecimalAmount \<Rightarrow> u8 \<Rightarrow> BaseUnitAmount res" where
  "ToBaseUnits a decimals = ebind (ToBaseUnitInt a decimals) (\<lambda>n. Inr (show_digits (nat n)))"

definition normalizeBaseUnitAmountString :: "string \<Rightarrow> string res" where
  "normalizeBaseUnitAmountString v =
     (let s = TrimSpace v
      in if s = [] then Inl (Fail ''base_unit_amount=empty'')
         else if length s > AmountMaxInputLength then Inl (Fail ''base_unit_amount=too long'')
         else if HasPrefix s ''+'' \<or> HasPrefix s ''-'' then Inl (Fail ''base_unit_amount'')
         else if \<not> isAmountDigits s then Inl (Fail ''base_unit_amount'')
         else
           (let s = TrimLeft0 s
            in if s = [] then Inl (Fail ''amount must be greater than zero'')
               else if length s > AmountMaxBaseUnitDigits then Inl (Fail ''base_unit_amount=too long'')
               else Inr s))"

definition BaseUnit_Int :: "BaseUnitAmount \<Rightarrow> int res" where
  "BaseUnit_Int a =
     ebind (normalizeBaseUnitAmountString a) (\<lambda>s.
     let n = int (read_digits s) in if n \<le> 0 then Inl (Fail ''base_unit_amount'') else Inr n)"

definition FormatBaseUnitInt :: "int option \<Rightarrow> u8 \<Rightarrow> DecimalAmount res" where
  "FormatBaseUnitInt amount decimals =
     (if unat decimals > AmountMaxAssetDecimals then Inl (Fail ''decimals'')
      else case amount of None \<Rightarrow> Inl (Fail ''base_unit_amount=null'')
      | Some amount \<Rightarrow>
          if amount \<le> 0 then Inl (Fail ''amount must be greater than zero'')
          else
            (let s = show_digits (nat amount)
             in if length s > AmountMaxBaseUnitDigits then Inl (Fail ''base_unit_amount=too long'')
                else
                  (let d = unat decimals
                   in if d = 0 then Inr s
                      else
                        (let s = (if length s \<le> d then replicate (d - length s + 1) zero_char @ s else s);
                             intPart = take (length s - d) s;
                             fracPart = TrimRight0 (drop (length s - d) s)
                         in if fracPart = [] then Inr intPart else Inr (intPart @ ''.'' @ fracPart)))))"

definition ToDecimal :: "BaseUnitAmount \<Rightarrow> u8 \<Rightarrow> DecimalAmount res" where
  "ToDecimal a decimals = ebind (BaseUnit_Int a) (\<lambda>n. FormatBaseUnitInt (Some n) decimals)"

lemmas amount_defs = AmountMaxAssetDecimals_def AmountMaxInputLength_def AmountMaxBaseUnitDigits_def
  isAmountDigits_def TrimLeft0_def TrimRight0_def parseDecimalAmountParts_def ToBaseUnitInt_def ToBaseUnits_def
  Let_def HasPrefix_def is_digit_def TrimSpace_digits read_digits_def

section \<open>Trimming zeros\<close>

lemma read_TrimLeft0 [simp]: "read_digits (TrimLeft0 s) = read_digits s"
  by (simp add: TrimLeft0_def read_digits_strip)

lemma TrimLeft0_hd: "TrimLeft0 s \<noteq> [] \<Longrightarrow> hd (TrimLeft0 s) \<noteq> zero_char"
  using hd_dropWhile [of "\<lambda>c. c = zero_char" s] by (simp add: TrimLeft0_def)

lemma TrimLeft0_digits: "list_all is_digit s \<Longrightarrow> list_all is_digit (TrimLeft0 s)"
  by (induction s) (auto simp: TrimLeft0_def)

lemma TrimRight0_split: "\<exists>k. s = TrimRight0 s @ replicate k zero_char"
proof (induction s rule: rev_induct)
  case (snoc c s)
  then obtain k where k: "s = TrimRight0 s @ replicate k zero_char" by blast
  show ?case
  proof (cases "c = zero_char")
    case True
    then have "TrimRight0 (s @ [c]) = TrimRight0 s" by (simp add: TrimRight0_def TrimLeft0_def)
    moreover have "s @ [zero_char] = TrimRight0 s @ replicate (Suc k) zero_char"
      using k by (metis append.assoc replicate_append_same replicate_Suc)
    ultimately show ?thesis using True by metis
  next
    case False
    then have "TrimRight0 (s @ [c]) = s @ [c]" by (simp add: TrimRight0_def TrimLeft0_def)
    then show ?thesis by (intro exI [of _ 0]) simp
  qed
qed (simp add: TrimRight0_def TrimLeft0_def)

lemma TrimRight0_last: "TrimRight0 s \<noteq> [] \<Longrightarrow> last (TrimRight0 s) \<noteq> zero_char"
  using TrimLeft0_hd [of "rev s"] by (simp add: TrimRight0_def last_rev)

lemma digit_zero [simp]: "is_digit zero_char"
  by (simp add: is_digit_def)

lemma digits_zeros [simp]: "list_all is_digit (replicate k zero_char)"
  by (simp add: list_all_iff is_digit_def)

lemma digit_not_dot [simp]: "is_digit c \<Longrightarrow> c \<noteq> CHR ''.''"
  by (auto simp: is_digit_def)

lemma digits_no_dot: "list_all is_digit s \<Longrightarrow> CHR ''.'' \<notin> set s"
  by (auto simp: list_all_iff is_digit_def)

text \<open>A decimal with digits on both sides of the point parses into its parts.\<close>

lemma parse_parts:
  assumes i: "list_all is_digit i" "i \<noteq> []" and f: "list_all is_digit f" "length f \<le> unat d"
    and len: "length i + 1 + length f \<le> AmountMaxInputLength"
    and s: "s = (if f = [] then i else i @ ''.'' @ f)"
  shows "parseDecimalAmountParts s d = Inr (i, f)"
proof -
  have ends: "s \<noteq> []" "is_digit (hd s)" "is_digit (last s)"
    using i f s by (auto simp: list_all_iff)
  then have trim: "TrimSpace s = s" by (rule TrimSpace_digits)
  have chars: "set s \<subseteq> {c. is_digit c} \<union> {CHR ''.''}" using i f s by (auto simp: list_all_iff)
  then have e: "CHR ''e'' \<notin> set s" "CHR ''E'' \<notin> set s" by (auto simp: is_digit_def)
  have pm: "\<not> HasPrefix s ''+''" "\<not> HasPrefix s ''-''"
    using ends by (cases s; auto simp: HasPrefix_def is_digit_def)+
  have parts: "split_on (CHR ''.'') s = (if f = [] then [i] else [i, f])"
    using digits_no_dot [OF i(1)] digits_no_dot [OF f(1)] s by (simp add: split_on_none split_on_one)
  have "length s \<le> AmountMaxInputLength" using len s by auto
  moreover have "isAmountDigits (i @ f)" using i f by (simp add: isAmountDigits_def)
  ultimately show ?thesis
    using ends(1) trim e pm parts i(2) f(2)
    by (cases "f = []") (simp_all add: parseDecimalAmountParts_def Let_def)
qed

lemma parse_Inr:
  assumes "parseDecimalAmountParts s d = Inr (i, f)"
  shows "list_all is_digit i" "list_all is_digit f" "length f \<le> unat d" "i \<noteq> []"
  using assms by (auto simp: parseDecimalAmountParts_def Let_def isAmountDigits_def split: if_splits)

section \<open>Values\<close>

lemma to_base_value:
  assumes "ToBaseUnitInt a decimals = Inr n"
  shows "\<exists>i f. parseDecimalAmountParts a decimals = Inr (i, f) \<and> length f \<le> unat decimals
    \<and> n = int (read_digits i * 10 ^ unat decimals + read_digits f * 10 ^ (unat decimals - length f))
    \<and> 0 < n \<and> n < 10 ^ AmountMaxBaseUnitDigits"
proof -
  obtain i f where p: "parseDecimalAmountParts a decimals = Inr (i, f)"
    using assms by (auto simp: ToBaseUnitInt_def split: if_splits)
  note d = parse_Inr [OF p]
  let ?s = "TrimLeft0 (i @ f @ replicate (unat decimals - length f) zero_char)"
  have run: "n = int (read_digits ?s)" "0 < n" "length ?s \<le> AmountMaxBaseUnitDigits"
    using assms p by (auto simp: ToBaseUnitInt_def Let_def split: if_splits)
  have "list_all is_digit ?s"
    using d by (intro TrimLeft0_digits) simp
  then have "read_digits ?s < 10 ^ length ?s" by (rule read_digits_less)
  also have "\<dots> \<le> 10 ^ AmountMaxBaseUnitDigits" using run(3) by (intro power_increasing) simp_all
  finally have "n < 10 ^ AmountMaxBaseUnitDigits" using run(1) by (metis of_nat_less_iff of_nat_numeral of_nat_power)
  moreover have "read_digits ?s = read_digits i * 10 ^ unat decimals + read_digits f * 10 ^ (unat decimals - length f)"
    using d(3) by (simp add: read_digits_append read_digits_zeros algebra_simps flip: power_add)
  with run(1) have "n = int (read_digits i * 10 ^ unat decimals + read_digits f * 10 ^ (unat decimals - length f))"
    by (simp only:)
  ultimately show ?thesis using p d(3) run(2) by blast
qed

lemma value_bounds: "ToBaseUnitInt a decimals = Inr n \<Longrightarrow> 0 < n \<and> n < 10 ^ AmountMaxBaseUnitDigits"
  using to_base_value by blast



lemma to_base_units:
  assumes p: "parseDecimalAmountParts a d = Inr (i, f)" and d: "unat d \<le> AmountMaxAssetDecimals"
    and n: "read_digits i * 10 ^ unat d + read_digits f * 10 ^ (unat d - length f) = n" "0 < n" "n < 10 ^ AmountMaxBaseUnitDigits"
  shows "ToBaseUnitInt a d = Inr (int n)"
proof -
  note r = parse_Inr [OF p]
  let ?t = "i @ f @ replicate (unat d - length f) zero_char"
  have v: "read_digits ?t = n"
    using n(1) r(3) by (simp add: read_digits_append read_digits_zeros algebra_simps flip: power_add)
  have dig: "list_all is_digit (TrimLeft0 ?t)"
    using r by (intro TrimLeft0_digits) simp
  have ne: "TrimLeft0 ?t \<noteq> []"
  proof
    assume "TrimLeft0 ?t = []"
    then have "read_digits (TrimLeft0 ?t) = 0" by simp
    then show False using v n(2) by simp
  qed
  have "show_digits n = TrimLeft0 ?t"
    using show_read_digits [OF ne dig TrimLeft0_hd [OF ne]] v by simp
  then have "length (TrimLeft0 ?t) \<le> AmountMaxBaseUnitDigits"
    using length_show_digits [of AmountMaxBaseUnitDigits n] n(3) by (simp add: AmountMaxBaseUnitDigits_def)
  then show ?thesis using p d ne v n(2) by (simp add: ToBaseUnitInt_def Let_def)
qed

section \<open>Round trips\<close>

lemma format_parts:
  assumes n: "0 < n" "n < 10 ^ AmountMaxBaseUnitDigits" and d: "unat d \<le> AmountMaxAssetDecimals"
  shows "\<exists>i f. FormatBaseUnitInt (Some (int n)) d = Inr (if f = [] then i else i @ ''.'' @ f)
    \<and> list_all is_digit i \<and> i \<noteq> [] \<and> list_all is_digit f \<and> length i + length f \<le> AmountMaxBaseUnitDigits
    \<and> length f \<le> unat d \<and> n = read_digits i * 10 ^ unat d + read_digits f * 10 ^ (unat d - length f)"
proof -
  have len: "length (show_digits n) \<le> AmountMaxBaseUnitDigits"
    using length_show_digits [of AmountMaxBaseUnitDigits n] n(2) by (simp add: AmountMaxBaseUnitDigits_def)
  show ?thesis
  proof (cases "unat d = 0")
    case True
    then have "FormatBaseUnitInt (Some (int n)) d = Inr (show_digits n)"
      using n len d by (simp add: FormatBaseUnitInt_def Let_def)
    then show ?thesis using True len by (intro exI [of _ "show_digits n"] exI [of _ "[]"]) simp
  next
    case False
    define s where "s = (if length (show_digits n) \<le> unat d
      then replicate (unat d - length (show_digits n) + 1) zero_char @ show_digits n else show_digits n)"
    define i where "i = take (length s - unat d) s"
    define g where "g = drop (length s - unat d) s"
    have s: "unat d < length s" "list_all is_digit s" "length s \<le> AmountMaxBaseUnitDigits"
      using len d by (simp_all add: s_def AmountMaxBaseUnitDigits_def AmountMaxAssetDecimals_def)
    have val: "read_digits s = n"
      by (simp add: s_def read_digits_append read_digits_zeros del: replicate_Suc)
    obtain k where k: "g = TrimRight0 g @ replicate k zero_char" using TrimRight0_split by blast
    have lens: "length g = unat d" "length i = length s - unat d" using s(1) by (simp_all add: g_def i_def)
    have "length g = length (TrimRight0 g) + k" using k by (metis length_append length_replicate)
    then have kd: "k = unat d - length (TrimRight0 g)" "length (TrimRight0 g) \<le> unat d" using lens by simp_all
    have dig: "list_all is_digit i" "list_all is_digit g"
      using s(2) by (auto simp: i_def g_def list_all_iff dest: in_set_takeD in_set_dropD)
    have digf: "list_all is_digit (TrimRight0 g)" using dig(2) k by (metis list_all_append)
    have "s = i @ g" by (simp add: i_def g_def)
    then have "n = read_digits i * 10 ^ unat d + read_digits g" using val lens by (simp add: read_digits_append)
    moreover have "read_digits g = read_digits (TrimRight0 g) * 10 ^ (unat d - length (TrimRight0 g))"
      using k kd by (metis add.right_neutral length_replicate read_digits_append read_digits_zeros)
    moreover have "FormatBaseUnitInt (Some (int n)) d =
        Inr (if TrimRight0 g = [] then i else i @ ''.'' @ TrimRight0 g)"
      using n len d False by (simp add: FormatBaseUnitInt_def Let_def s_def [symmetric] i_def g_def)
    moreover have "i \<noteq> []" using s(1) lens by auto
    ultimately show ?thesis
      using dig(1) digf kd(2) s(1,3) lens(2) by (intro exI [of _ i] exI [of _ "TrimRight0 g"]) simp
  qed
qed

lemma format_parse:
  assumes "0 < n" and "n < 10 ^ AmountMaxBaseUnitDigits" and "unat decimals \<le> AmountMaxAssetDecimals"
  shows "\<exists>s. FormatBaseUnitInt (Some n) decimals = Inr s \<and> ToBaseUnitInt s decimals = Inr n"
proof -
  have n: "0 < nat n" "int (nat n) = n" using assms(1) by simp_all
  have b: "nat n < 10 ^ AmountMaxBaseUnitDigits" using assms(1,2) by (simp add: nat_less_iff)
  obtain i f where *: "FormatBaseUnitInt (Some (int (nat n))) decimals = Inr (if f = [] then i else i @ ''.'' @ f)"
    "list_all is_digit i" "i \<noteq> []" "list_all is_digit f" "length i + length f \<le> AmountMaxBaseUnitDigits"
    "length f \<le> unat decimals" "nat n = read_digits i * 10 ^ unat decimals + read_digits f * 10 ^ (unat decimals - length f)"
    using format_parts [OF n(1) b assms(3)] by (elim exE conjE) (rule that)
  have "length i + 1 + length f \<le> AmountMaxInputLength"
    using *(5) by (simp add: AmountMaxBaseUnitDigits_def AmountMaxInputLength_def)
  then show ?thesis
    using parse_parts [OF *(2,3,4,6) _ refl] to_base_units [OF _ assms(3) *(7) [symmetric] n(1) b] *(1) n(2) by auto
qed

text \<open>
  C17. Print and parse (\<open>FormatBaseUnitInt\<close>, \<open>ToBaseUnitInt\<close>): every positive amount of
  at most 78 digits is printed at every supported number of decimals, and the printed text parses
  back to the same amount at the same decimals.
\<close>

theorem format_then_parse:
  assumes "0 < n" and "n < 10 ^ AmountMaxBaseUnitDigits" and "unat decimals \<le> AmountMaxAssetDecimals"
  shows "\<exists>s. FormatBaseUnitInt (Some n) decimals = Inr s \<and> ToBaseUnitInt s decimals = Inr n"
  using format_parse [OF assms] .

theorem format_then_parse_witness:
  "\<exists>s. FormatBaseUnitInt (Some 1050000) 6 = Inr s \<and> ToBaseUnitInt s 6 = Inr 1050000"
  by (rule format_then_parse) (simp_all add: AmountMaxAssetDecimals_def AmountMaxBaseUnitDigits_def)

lemma BaseUnit_Int_show:
  assumes "0 < n" and "n < 10 ^ AmountMaxBaseUnitDigits"
  shows "BaseUnit_Int (show_digits n) = Inr (int n)"
proof -
  let ?s = "show_digits n"
  have len: "length ?s \<le> AmountMaxBaseUnitDigits"
    using length_show_digits [of AmountMaxBaseUnitDigits n] assms(2) by (simp add: AmountMaxBaseUnitDigits_def)
  have ends: "is_digit (hd ?s)" "is_digit (last ?s)"
    using digits_show [of n] show_digits_nonempty [of n] by (metis hd_in_set last_in_set list_all_iff)+
  have trim: "TrimSpace ?s = ?s" by (rule TrimSpace_digits [OF show_digits_nonempty ends])
  have pm: "\<not> HasPrefix ?s ''+''" "\<not> HasPrefix ?s ''-''"
    using ends(1) by (cases ?s; auto simp: HasPrefix_def is_digit_def)+
  have zeros: "TrimLeft0 ?s = ?s"
    using hd_show_digits [OF assms(1)] by (cases ?s) (simp_all add: TrimLeft0_def)
  show ?thesis
    using assms trim pm zeros len
    by (simp add: BaseUnit_Int_def normalizeBaseUnitAmountString_def isAmountDigits_def Let_def
        AmountMaxBaseUnitDigits_def AmountMaxInputLength_def)
qed

text \<open>
  Through the string types: an accepted decimal amount converts to a base unit amount
  (\<open>ToBaseUnits\<close>) that converts back to a decimal amount (\<open>ToDecimal\<close>), which converts to the same
  base unit amount again. Neither direction ever refuses what the other produced.
\<close>

lemma ToBaseUnits_stable:
  assumes "ToBaseUnits a decimals = Inr b"
  shows "\<exists>s. ToDecimal b decimals = Inr s \<and> ToBaseUnits s decimals = Inr b"
proof -
  obtain n where n: "ToBaseUnitInt a decimals = Inr n" "b = show_digits (nat n)"
    using assms by (auto simp: ToBaseUnits_def)
  have d: "unat decimals \<le> AmountMaxAssetDecimals" using n(1) by (auto simp: ToBaseUnitInt_def split: if_splits)
  have b: "0 < n" "n < 10 ^ AmountMaxBaseUnitDigits"
    using value_bounds [OF n(1)] by simp_all
  have "BaseUnit_Int b = Inr n"
    using BaseUnit_Int_show [of "nat n"] b n(2) by (simp add: nat_less_iff)
  then show ?thesis
    using format_parse [OF b d] n(2) by (auto simp: ToDecimal_def ToBaseUnits_def)
qed

lemma ToBaseUnits_stable_witness: "\<exists>s. ToDecimal ''105'' 2 = Inr s \<and> ToBaseUnits s 2 = Inr ''105''"
proof -
  have "show_digits 105 = ''105''"
    using show_read_digits [of "''105''"] by (simp add: is_digit_def read_digits_def)
  then have "ToBaseUnits ''01.05'' 2 = Inr ''105''" by (simp add: amount_defs)
  then show ?thesis by (rule ToBaseUnits_stable)
qed

end
