(* ===== verification/Core_Registry.thy ===== *)
theory Core_Registry
  imports Go_Text
begin

text \<open>
  \<open>go/core\<close>: chains, networks and tokens with their validation, the registries of assets and of
  deposit policies with their built in entries, and the two tests of confirmation depth.
  A pointer that may be nil is an option. A registry is a map from keys to values: \<open>Register\<close>
  stores a copy and \<open>Get\<close> returns a copy, so no caller shares memory with the registry. The
  read-write lock around the map makes each of them atomic.
\<close>

section \<open>Chains, networks and tokens\<close>

type_synonym Chain = string
type_synonym ChainFamily = string
type_synonym Network = string
type_synonym Token = string

definition ChainEthereum :: Chain where "ChainEthereum = ''ethereum''"
definition ChainBase :: Chain where "ChainBase = ''base''"
definition ChainRobinhood :: Chain where "ChainRobinhood = ''robinhood''"
definition ChainBNB :: Chain where "ChainBNB = ''bnb''"
definition ChainPolygon :: Chain where "ChainPolygon = ''polygon''"
definition ChainAvalanche :: Chain where "ChainAvalanche = ''avalanche''"
definition ChainSolana :: Chain where "ChainSolana = ''solana''"
definition ChainSui :: Chain where "ChainSui = ''sui''"

lemmas chain_defs = ChainEthereum_def ChainBase_def ChainRobinhood_def ChainBNB_def ChainPolygon_def
  ChainAvalanche_def ChainSolana_def ChainSui_def

definition Chain_IsValid :: "Chain \<Rightarrow> bool" where
  "Chain_IsValid c \<longleftrightarrow> c \<in> set [ChainEthereum, ChainBase, ChainRobinhood, ChainBNB, ChainPolygon,
     ChainAvalanche, ChainSolana, ChainSui]"

definition Chain_Validate :: "Chain \<Rightarrow> unit res" where
  "Chain_Validate c =
     (if c = [] then Inl (Fail ''chain=empty'')
      else if length c > 16 then Inl (Fail ''chain=too long'')
      else if \<not> Chain_IsValid c then Inl (Fail ''chain'')
      else Inr ())"

definition ChainFamilyEVM :: ChainFamily where "ChainFamilyEVM = ''evm''"
definition ChainFamilySolana :: ChainFamily where "ChainFamilySolana = ''solana''"
definition ChainFamilySui :: ChainFamily where "ChainFamilySui = ''sui''"

definition ChainFamily_IsValid :: "ChainFamily \<Rightarrow> bool" where
  "ChainFamily_IsValid f \<longleftrightarrow> f \<in> set [ChainFamilyEVM, ChainFamilySolana, ChainFamilySui]"

definition ChainFamily_Validate :: "ChainFamily \<Rightarrow> unit res" where
  "ChainFamily_Validate f =
     (if f = [] then Inl (Fail ''chain_family=empty'')
      else if length f > 16 then Inl (Fail ''chain_family=too long'')
      else if \<not> ChainFamily_IsValid f then Inl (Fail ''chain_family'')
      else Inr ())"

definition ResolveChainFamily :: "Chain \<Rightarrow> ChainFamily res" where
  "ResolveChainFamily c =
     ebind (Chain_Validate c) (\<lambda>_.
       if c \<in> set [ChainEthereum, ChainBase, ChainBNB, ChainPolygon, ChainAvalanche, ChainRobinhood]
       then Inr ChainFamilyEVM
       else if c = ChainSolana then Inr ChainFamilySolana
       else if c = ChainSui then Inr ChainFamilySui
       else Inl (Fail ''chain''))"

definition NetworkMainnet :: Network where "NetworkMainnet = ''mainnet''"
definition NetworkTestnet :: Network where "NetworkTestnet = ''testnet''"
definition NetworkDevnet :: Network where "NetworkDevnet = ''devnet''"
definition NetworkSepolia :: Network where "NetworkSepolia = ''sepolia''"
definition NetworkAmoy :: Network where "NetworkAmoy = ''amoy''"

lemmas network_defs = NetworkMainnet_def NetworkTestnet_def NetworkDevnet_def NetworkSepolia_def NetworkAmoy_def

text \<open>A network is any short text without white space and control characters.\<close>

definition Network_Validate :: "Network \<Rightarrow> unit res" where
  "Network_Validate n =
     (if n = [] then Inl (Fail ''network=empty'')
      else if length n > 16 then Inl (Fail ''network=too_long'')
      else if \<not> ValidString n \<or> list_ex (\<lambda>r. IsSpace r \<or> IsControl r) (runes n)
      then Inl (Fail ''network=invalid'')
      else Inr ())"

definition Network_IsValid :: "Network \<Rightarrow> bool" where
  "Network_IsValid n \<longleftrightarrow> Network_Validate n = Inr ()"

definition TokenAVAX :: Token where "TokenAVAX = ''AVAX''"
definition TokenBNB :: Token where "TokenBNB = ''BNB''"
definition TokenETH :: Token where "TokenETH = ''ETH''"
definition TokenJPYC :: Token where "TokenJPYC = ''JPYC''"
definition TokenPOL :: Token where "TokenPOL = ''POL''"
definition TokenSOL :: Token where "TokenSOL = ''SOL''"
definition TokenSUI :: Token where "TokenSUI = ''SUI''"
definition TokenUSDC :: Token where "TokenUSDC = ''USDC''"
definition TokenUSDT :: Token where "TokenUSDT = ''USDT''"

lemmas token_defs = TokenAVAX_def TokenBNB_def TokenETH_def TokenJPYC_def TokenPOL_def TokenSOL_def
  TokenSUI_def TokenUSDC_def TokenUSDT_def

definition Token_IsValid :: "Token \<Rightarrow> bool" where
  "Token_IsValid t \<longleftrightarrow> t \<in> set [TokenAVAX, TokenBNB, TokenETH, TokenJPYC, TokenPOL, TokenSOL, TokenSUI,
     TokenUSDC, TokenUSDT]"

definition Token_Validate :: "Token \<Rightarrow> unit res" where
  "Token_Validate t =
     (if t = [] then Inl (Fail ''token=empty'')
      else if length t > 16 then Inl (Fail ''token=too long'')
      else if \<not> Token_IsValid t then Inl (Fail ''token'')
      else Inr ())"

section \<open>Assets\<close>

record Asset =
  Chain :: Chain
  Network :: Network
  Token :: Token
  Decimals :: u8
  Name :: string
  IsNative :: bool
  TokenRef :: "string option"

record AssetKey =
  KChain :: Chain
  KNetwork :: Network
  KToken :: Token

type_synonym AssetRegistry = "(AssetKey \<rightharpoonup> Asset) option"

definition NewAsset :: "Chain \<Rightarrow> Network \<Rightarrow> Token \<Rightarrow> u8 \<Rightarrow> string \<Rightarrow> bool \<Rightarrow> Asset option" where
  "NewAsset c n t decimals name isNative =
     Some \<lparr>Chain = c, Network = n, Token = t, Decimals = decimals, Name = name, IsNative = isNative, TokenRef = None\<rparr>"

definition NewAssetRegistry :: AssetRegistry where "NewAssetRegistry = Some Map.empty"

definition WithTokenRef :: "Asset option \<Rightarrow> string \<Rightarrow> Asset option" where
  "WithTokenRef a ref = (case a of None \<Rightarrow> None | Some a \<Rightarrow> Some (a\<lparr>TokenRef := Some ref\<rparr>))"

definition Asset_Key :: "Asset option \<Rightarrow> AssetKey" where
  "Asset_Key a = (case a of None \<Rightarrow> \<lparr>KChain = [], KNetwork = [], KToken = []\<rparr>
     | Some a \<Rightarrow> \<lparr>KChain = Asset.Chain a, KNetwork = Asset.Network a, KToken = Asset.Token a\<rparr>)"

definition Asset_Validate :: "Asset option \<Rightarrow> unit res" where
  "Asset_Validate asset =
     (case asset of None \<Rightarrow> Inl (Fail ''asset=null'')
      | Some a \<Rightarrow>
          ebind (Chain_Validate (Asset.Chain a)) (\<lambda>_.
          ebind (Network_Validate (Asset.Network a)) (\<lambda>_.
          ebind (Token_Validate (Asset.Token a)) (\<lambda>_.
          if Decimals a > 77 then Inl (Fail ''decimals'')
          else if TrimSpace (Name a) = [] then Inl (Fail ''name=empty'')
          else if RuneCount (TrimSpace (Name a)) > 64 then Inl (Fail ''name=too long'')
          else if IsNative a then
            (if TokenRef a \<noteq> None then Inl (Fail ''native asset must not have token_address'') else Inr ())
          else case TokenRef a of None \<Rightarrow> Inl (Fail ''token_address=empty'')
          | Some ref \<Rightarrow>
              (let tokenAddress = TrimSpace ref
               in if tokenAddress = [] then Inl (Fail ''token_address=empty'')
                  else if RuneCount tokenAddress > 255 then Inl (Fail ''token_address=too long'')
                  else Inr ())))))"

definition AssetRegistry_Get :: "AssetRegistry \<Rightarrow> Chain \<Rightarrow> Network \<Rightarrow> Token \<Rightarrow> Asset res" where
  "AssetRegistry_Get r c n t =
     (case r of None \<Rightarrow> Inl (Fail ''asset_registry=null'')
      | Some m \<Rightarrow>
          (case m \<lparr>KChain = c, KNetwork = n, KToken = t\<rparr> of
             None \<Rightarrow> Inl (Fail ''asset=not found'') | Some a \<Rightarrow> Inr a))"

text \<open>Operations that change a registry return it beside the error, nil when there is none.\<close>

definition AssetRegistry_Register :: "AssetRegistry \<Rightarrow> Asset option \<Rightarrow> AssetRegistry \<times> failure option" where
  "AssetRegistry_Register r asset =
     (case r of None \<Rightarrow> (None, Some (Fail ''asset_registry=null''))
      | Some m \<Rightarrow>
          (case Asset_Validate asset of Inl e \<Rightarrow> (Some m, Some e)
           | Inr _ \<Rightarrow>
               (case asset of None \<Rightarrow> (Some m, Some (Panic ''nil asset''))
                | Some cp \<Rightarrow> (Some (m(Asset_Key (Some cp) \<mapsto> cp)), None))))"

fun register_assets :: "AssetRegistry \<Rightarrow> Asset option list \<Rightarrow> AssetRegistry \<times> failure option" where
  "register_assets r [] = (r, None)"
| "register_assets r (asset # assets) =
     (case AssetRegistry_Register r asset of (r', Some e) \<Rightarrow> (r', Some e) | (r', None) \<Rightarrow> register_assets r' assets)"

definition AssetRegistry_RegisterAll :: "AssetRegistry \<Rightarrow> Asset option list \<Rightarrow> AssetRegistry \<times> failure option" where
  "AssetRegistry_RegisterAll r assets =
     (case r of None \<Rightarrow> (None, Some (Fail ''asset_registry=null'')) | Some _ \<Rightarrow> register_assets r assets)"

definition buildDefaultAssets :: "Asset option list" where
  "buildDefaultAssets =
    [NewAsset ChainEthereum NetworkMainnet TokenETH 18 ''Ether'' True,
     WithTokenRef (NewAsset ChainEthereum NetworkMainnet TokenUSDC 6 ''USD Coin'' False) ''0xA0b86991c6218b36c1d19D4a2e9Eb0cE3606eB48'',
     NewAsset ChainEthereum NetworkSepolia TokenETH 18 ''Ether'' True,
     WithTokenRef (NewAsset ChainEthereum NetworkSepolia TokenUSDC 6 ''USD Coin'' False) ''0x1c7D4B196Cb0C7B01d743Fbc6116a902379C7238'',
     NewAsset ChainBase NetworkMainnet TokenETH 18 ''Ether'' True,
     WithTokenRef (NewAsset ChainBase NetworkMainnet TokenUSDC 6 ''USD Coin'' False) ''0x833589fCD6eDb6E08f4c7C32D4f71b54bdA02913'',
     NewAsset ChainBase NetworkSepolia TokenETH 18 ''Ether'' True,
     WithTokenRef (NewAsset ChainBase NetworkSepolia TokenUSDC 6 ''USD Coin'' False) ''0x036CbD53842c5426634e7929541eC2318f3dCF7e'',
     NewAsset ChainBNB NetworkMainnet TokenBNB 18 ''BNB'' True,
     NewAsset ChainPolygon NetworkMainnet TokenPOL 18 ''POL'' True,
     WithTokenRef (NewAsset ChainPolygon NetworkMainnet TokenUSDC 6 ''USD Coin'' False) ''0x3c499c542cEF5E3811e1192ce70d8cC03d5c3359'',
     WithTokenRef (NewAsset ChainPolygon NetworkMainnet TokenJPYC 18 ''JPY Coin'' False) ''0xE7C3D8C9a439feDe00D2600032D5dB0Be71C3c29'',
     NewAsset ChainPolygon NetworkAmoy TokenPOL 18 ''POL'' True,
     WithTokenRef (NewAsset ChainPolygon NetworkAmoy TokenUSDC 6 ''USD Coin'' False) ''0x41E94Eb019C0762f9Bfcf9Fb1E58725BfB0e7582'',
     WithTokenRef (NewAsset ChainPolygon NetworkAmoy TokenJPYC 18 ''JPY Coin'' False) ''0xE7C3D8C9a439feDe00D2600032D5dB0Be71C3c29'',
     NewAsset ChainAvalanche NetworkMainnet TokenAVAX 18 ''Avalanche'' True,
     NewAsset ChainSolana NetworkMainnet TokenSOL 9 ''Solana'' True,
     NewAsset ChainSolana NetworkDevnet TokenSOL 9 ''Solana'' True,
     NewAsset ChainSui NetworkMainnet TokenSUI 9 ''Sui'' True,
     NewAsset ChainSui NetworkTestnet TokenSUI 9 ''Sui'' True,
     NewAsset ChainSui NetworkDevnet TokenSUI 9 ''Sui'' True]"

definition WithDefaultAssets :: "AssetRegistry \<Rightarrow> AssetRegistry \<times> failure option" where
  "WithDefaultAssets r =
     (case r of None \<Rightarrow> (None, Some (Fail ''asset_registry=null''))
      | Some _ \<Rightarrow> AssetRegistry_RegisterAll r buildDefaultAssets)"

section \<open>Deposit policies\<close>

record DepositPolicy =
  PChain :: Chain
  PNetwork :: Network
  PToken :: Token
  RequiredConfirmations :: u64

record DepositPolicyKey =
  DChain :: Chain
  DNetwork :: Network
  DToken :: Token

type_synonym DepositPolicyRegistry = "(DepositPolicyKey \<rightharpoonup> DepositPolicy) option"

definition NewDepositPolicy :: "Chain \<Rightarrow> Network \<Rightarrow> Token \<Rightarrow> u64 \<Rightarrow> DepositPolicy option" where
  "NewDepositPolicy c n t requiredConfirmations =
     Some \<lparr>PChain = c, PNetwork = n, PToken = t, RequiredConfirmations = requiredConfirmations\<rparr>"

definition NewDepositPolicyRegistry :: DepositPolicyRegistry where "NewDepositPolicyRegistry = Some Map.empty"

definition DepositPolicy_IsConfirmed :: "DepositPolicy option \<Rightarrow> u64 \<Rightarrow> u64 \<Rightarrow> bool" where
  "DepositPolicy_IsConfirmed p latestBlockNumber txBlockNumber =
     (case p of None \<Rightarrow> False
      | Some p \<Rightarrow>
          if RequiredConfirmations p = 0 then False
          else if latestBlockNumber < txBlockNumber then False
          else latestBlockNumber - txBlockNumber + 1 \<ge> RequiredConfirmations p)"

definition DepositPolicy_Key :: "DepositPolicy option \<Rightarrow> DepositPolicyKey" where
  "DepositPolicy_Key p = (case p of None \<Rightarrow> \<lparr>DChain = [], DNetwork = [], DToken = []\<rparr>
     | Some p \<Rightarrow> \<lparr>DChain = PChain p, DNetwork = PNetwork p, DToken = PToken p\<rparr>)"

definition DepositPolicy_Validate :: "DepositPolicy option \<Rightarrow> unit res" where
  "DepositPolicy_Validate policy =
     (case policy of None \<Rightarrow> Inl (Fail ''deposit_policy=null'')
      | Some p \<Rightarrow>
          ebind (Chain_Validate (PChain p)) (\<lambda>_.
          ebind (Network_Validate (PNetwork p)) (\<lambda>_.
          ebind (Token_Validate (PToken p)) (\<lambda>_.
          if RequiredConfirmations p = 0 then Inl (Fail ''required_confirmations=0'') else Inr ()))))"

definition DepositPolicyRegistry_Get ::
    "DepositPolicyRegistry \<Rightarrow> Chain \<Rightarrow> Network \<Rightarrow> Token \<Rightarrow> DepositPolicy res" where
  "DepositPolicyRegistry_Get r c n t =
     (case r of None \<Rightarrow> Inl (Fail ''deposit_policy_registry=null'')
      | Some m \<Rightarrow>
          (case m \<lparr>DChain = c, DNetwork = n, DToken = t\<rparr> of
             None \<Rightarrow> Inl (Fail ''deposit_policy=not found'') | Some p \<Rightarrow> Inr p))"

definition DepositPolicyRegistry_Register ::
    "DepositPolicyRegistry \<Rightarrow> DepositPolicy option \<Rightarrow> DepositPolicyRegistry \<times> failure option" where
  "DepositPolicyRegistry_Register r policy =
     (case r of None \<Rightarrow> (None, Some (Fail ''deposit_policy_registry=null''))
      | Some m \<Rightarrow>
          (case DepositPolicy_Validate policy of Inl e \<Rightarrow> (Some m, Some e)
           | Inr _ \<Rightarrow>
               (case policy of None \<Rightarrow> (Some m, Some (Panic ''nil policy''))
                | Some cp \<Rightarrow> (Some (m(DepositPolicy_Key (Some cp) \<mapsto> cp)), None))))"

fun register_policies ::
    "DepositPolicyRegistry \<Rightarrow> DepositPolicy option list \<Rightarrow> DepositPolicyRegistry \<times> failure option" where
  "register_policies r [] = (r, None)"
| "register_policies r (policy # policies) =
     (case DepositPolicyRegistry_Register r policy of
        (r', Some e) \<Rightarrow> (r', Some e) | (r', None) \<Rightarrow> register_policies r' policies)"

definition DepositPolicyRegistry_RegisterAll ::
    "DepositPolicyRegistry \<Rightarrow> DepositPolicy option list \<Rightarrow> DepositPolicyRegistry \<times> failure option" where
  "DepositPolicyRegistry_RegisterAll r policies =
     (case r of None \<Rightarrow> (None, Some (Fail ''deposit_policy_registry=null''))
      | Some _ \<Rightarrow> register_policies r policies)"

definition buildDefaultDepositPolicies :: "DepositPolicy option list" where
  "buildDefaultDepositPolicies =
    [NewDepositPolicy ChainEthereum NetworkMainnet TokenETH 12,
     NewDepositPolicy ChainEthereum NetworkMainnet TokenUSDC 12,
     NewDepositPolicy ChainEthereum NetworkSepolia TokenETH 12,
     NewDepositPolicy ChainEthereum NetworkSepolia TokenUSDC 12,
     NewDepositPolicy ChainBase NetworkMainnet TokenETH 12,
     NewDepositPolicy ChainBase NetworkMainnet TokenUSDC 12,
     NewDepositPolicy ChainBase NetworkSepolia TokenETH 12,
     NewDepositPolicy ChainBase NetworkSepolia TokenUSDC 12,
     NewDepositPolicy ChainBNB NetworkMainnet TokenBNB 15,
     NewDepositPolicy ChainPolygon NetworkMainnet TokenPOL 12,
     NewDepositPolicy ChainPolygon NetworkMainnet TokenUSDC 12,
     NewDepositPolicy ChainPolygon NetworkMainnet TokenJPYC 12,
     NewDepositPolicy ChainPolygon NetworkAmoy TokenPOL 12,
     NewDepositPolicy ChainPolygon NetworkAmoy TokenUSDC 12,
     NewDepositPolicy ChainPolygon NetworkAmoy TokenJPYC 12,
     NewDepositPolicy ChainAvalanche NetworkMainnet TokenAVAX 20,
     NewDepositPolicy ChainSolana NetworkMainnet TokenSOL 32,
     NewDepositPolicy ChainSui NetworkMainnet TokenSUI 1,
     NewDepositPolicy ChainSui NetworkTestnet TokenSUI 1,
     NewDepositPolicy ChainSui NetworkDevnet TokenSUI 1]"

definition WithDefaultDepositPolicies :: "DepositPolicyRegistry \<Rightarrow> DepositPolicyRegistry \<times> failure option" where
  "WithDefaultDepositPolicies r =
     (case r of None \<Rightarrow> (None, Some (Fail ''deposit_policy_registry=null''))
      | Some _ \<Rightarrow> DepositPolicyRegistry_RegisterAll r buildDefaultDepositPolicies)"

section \<open>Confirmation policies\<close>

record ConfirmationPolicy =
  CChain :: Chain
  CNetwork :: Network
  CRequired :: u64

text \<open>The loop of \<open>ResolveConfirmationPolicy\<close>: the threshold collected so far, zero for none.\<close>

fun collect_threshold :: "Chain \<Rightarrow> Network \<Rightarrow> u64 \<Rightarrow> DepositPolicy option list \<Rightarrow> u64 res" where
  "collect_threshold c n r [] = Inr r"
| "collect_threshold c n r (d # ds) =
     (case d of None \<Rightarrow> Inl (Panic ''nil policy'')
      | Some d \<Rightarrow>
          if PChain d \<noteq> c \<or> PNetwork d \<noteq> n then collect_threshold c n r ds
          else if r \<noteq> 0 \<and> r \<noteq> RequiredConfirmations d then Inl (Fail ''token thresholds differ'')
          else collect_threshold c n (RequiredConfirmations d) ds)"

definition ResolveConfirmationPolicy :: "Chain \<Rightarrow> Network \<Rightarrow> ConfirmationPolicy res" where
  "ResolveConfirmationPolicy c n =
     ebind (collect_threshold c n 0 buildDefaultDepositPolicies) (\<lambda>r.
     let r = (if c = ChainRobinhood \<and> n = NetworkMainnet then 12 else r)
     in if r = 0 then Inl (Fail ''policy=invalid'')
        else Inr \<lparr>CChain = c, CNetwork = n, CRequired = r\<rparr>)"

definition ConfirmationPolicy_IsConfirmed :: "ConfirmationPolicy \<Rightarrow> u64 \<Rightarrow> u64 \<Rightarrow> bool" where
  "ConfirmationPolicy_IsConfirmed p latest position \<longleftrightarrow>
     CRequired p > 0 \<and> latest \<ge> position \<and> latest - position \<ge> CRequired p - 1"

section \<open>The contract of a registry\<close>

text \<open>
  Both registries are clients of one contract: an entry that validates is stored under its key, one
  that does not leaves the registry as it was, and registering a list stops at the first error.
\<close>

locale registry =
  fixes validate :: "'v option \<Rightarrow> unit res"
    and key :: "'v \<Rightarrow> 'k"
    and register :: "('k \<rightharpoonup> 'v) option \<Rightarrow> 'v option \<Rightarrow> ('k \<rightharpoonup> 'v) option \<times> failure option"
    and register_all :: "('k \<rightharpoonup> 'v) option \<Rightarrow> 'v option list \<Rightarrow> ('k \<rightharpoonup> 'v) option \<times> failure option"
  assumes nil_refused: "\<not> isl (validate v) \<Longrightarrow> v \<noteq> None"
    and accepted: "\<not> isl (validate (Some a)) \<Longrightarrow> register (Some m) (Some a) = (Some (m(key a \<mapsto> a)), None)"
    and refused: "isl (validate v) \<Longrightarrow> register (Some m) v = (Some m, Some (projl (validate v)))"
    and all_Nil: "register_all (Some m) [] = (Some m, None)"
    and all_Cons: "register_all (Some m) (v # vs) =
      (case register (Some m) v of (r, Some e) \<Rightarrow> (r, Some e) | (r, None) \<Rightarrow> register_all r vs)"
begin

definition accepted_prefix :: "'v option list \<Rightarrow> 'v list" where
  "accepted_prefix vs = map the (takeWhile (\<lambda>v. \<not> isl (validate v)) vs)"

definition entries :: "'v list \<Rightarrow> 'k \<rightharpoonup> 'v" where
  "entries as = map_of (rev (map (\<lambda>a. (key a, a)) as))"

definition holds_valid :: "('k \<rightharpoonup> 'v) \<Rightarrow> bool" where
  "holds_valid m \<longleftrightarrow> (\<forall>k a. m k = Some a \<longrightarrow> key a = k \<and> \<not> isl (validate (Some a)))"

lemma register_all_prefix:
  "register_all (Some m) vs =
    (Some (m ++ entries (accepted_prefix vs)),
     case dropWhile (\<lambda>v. \<not> isl (validate v)) vs of [] \<Rightarrow> None | v # _ \<Rightarrow> Some (projl (validate v)))"
proof (induction vs arbitrary: m)
  case Nil
  then show ?case by (simp add: all_Nil accepted_prefix_def entries_def)
next
  case (Cons v vs)
  show ?case
  proof (cases "isl (validate v)")
    case True
    then show ?thesis by (simp add: all_Cons refused accepted_prefix_def entries_def)
  next
    case False
    then obtain a where v: "v = Some a" using nil_refused by blast
    have "m ++ entries (a # as) = m(key a \<mapsto> a) ++ entries as" for as
      by (simp add: entries_def)
    with False v show ?thesis by (simp add: all_Cons accepted Cons.IH accepted_prefix_def del: fun_upd_apply)
  qed
qed

lemma entries_in: "entries as k = Some a \<Longrightarrow> a \<in> set as \<and> key a = k"
  by (auto simp: entries_def dest!: map_of_SomeD)

lemma prefix_valid: "a \<in> set (accepted_prefix vs) \<Longrightarrow> \<not> isl (validate (Some a))"
  using nil_refused by (fastforce simp: accepted_prefix_def dest: set_takeWhileD)

lemma holds_valid_empty: "holds_valid Map.empty"
  by (simp add: holds_valid_def)

lemma register_all_valid:
  assumes "holds_valid m" and "register_all (Some m) vs = (r, e)"
  shows "\<exists>m'. r = Some m' \<and> holds_valid m'"
  using assms prefix_valid entries_in
  by (fastforce simp: register_all_prefix holds_valid_def map_add_Some_iff)

lemma all_accepted:
  "list_all (\<lambda>v. \<not> isl (validate v)) vs \<Longrightarrow> register_all (Some m) vs = (Some (m ++ entries (map the vs)), None)"
proof -
  assume "list_all (\<lambda>v. \<not> isl (validate v)) vs"
  then have "takeWhile (\<lambda>v. \<not> isl (validate v)) vs = vs" and "dropWhile (\<lambda>v. \<not> isl (validate v)) vs = []"
    by (simp_all add: list_all_iff)
  then show ?thesis by (simp only: register_all_prefix accepted_prefix_def list.case)
qed

end

interpretation assets: registry Asset_Validate "\<lambda>a. Asset_Key (Some a)" AssetRegistry_Register AssetRegistry_RegisterAll
proof unfold_locales
  fix v
  show "\<not> isl (Asset_Validate v) \<Longrightarrow> v \<noteq> None" by (cases v) (simp_all add: Asset_Validate_def)
next
  fix a m
  assume "\<not> isl (Asset_Validate (Some a))"
  then show "AssetRegistry_Register (Some m) (Some a) = (Some (m(Asset_Key (Some a) \<mapsto> a)), None)"
    by (cases "Asset_Validate (Some a)") (simp_all add: AssetRegistry_Register_def)
next
  fix v m
  assume "isl (Asset_Validate v)"
  then show "AssetRegistry_Register (Some m) v = (Some m, Some (projl (Asset_Validate v)))"
    by (cases "Asset_Validate v") (simp_all add: AssetRegistry_Register_def)
next
  fix m v vs
  have "\<exists>m' e. AssetRegistry_Register (Some m) v = (Some m', e)"
    by (auto simp: AssetRegistry_Register_def split: sum.splits option.splits)
  then show "AssetRegistry_RegisterAll (Some m) (v # vs) = (case AssetRegistry_Register (Some m) v of
      (r, Some e) \<Rightarrow> (r, Some e) | (r, None) \<Rightarrow> AssetRegistry_RegisterAll r vs)"
    by (auto simp: AssetRegistry_RegisterAll_def split: option.splits)
qed (simp add: AssetRegistry_RegisterAll_def)

interpretation policies: registry DepositPolicy_Validate "\<lambda>p. DepositPolicy_Key (Some p)"
  DepositPolicyRegistry_Register DepositPolicyRegistry_RegisterAll
proof unfold_locales
  fix v
  show "\<not> isl (DepositPolicy_Validate v) \<Longrightarrow> v \<noteq> None" by (cases v) (simp_all add: DepositPolicy_Validate_def)
next
  fix a m
  assume "\<not> isl (DepositPolicy_Validate (Some a))"
  then show "DepositPolicyRegistry_Register (Some m) (Some a) = (Some (m(DepositPolicy_Key (Some a) \<mapsto> a)), None)"
    by (cases "DepositPolicy_Validate (Some a)") (simp_all add: DepositPolicyRegistry_Register_def)
next
  fix v m
  assume "isl (DepositPolicy_Validate v)"
  then show "DepositPolicyRegistry_Register (Some m) v = (Some m, Some (projl (DepositPolicy_Validate v)))"
    by (cases "DepositPolicy_Validate v") (simp_all add: DepositPolicyRegistry_Register_def)
next
  fix m v vs
  have "\<exists>m' e. DepositPolicyRegistry_Register (Some m) v = (Some m', e)"
    by (auto simp: DepositPolicyRegistry_Register_def split: sum.splits option.splits)
  then show "DepositPolicyRegistry_RegisterAll (Some m) (v # vs) = (case DepositPolicyRegistry_Register (Some m) v of
      (r, Some e) \<Rightarrow> (r, Some e) | (r, None) \<Rightarrow> DepositPolicyRegistry_RegisterAll r vs)"
    by (auto simp: DepositPolicyRegistry_RegisterAll_def split: option.splits)
qed (simp add: DepositPolicyRegistry_RegisterAll_def)

lemma Network_Validate_plain: "n \<noteq> [] \<Longrightarrow> length n \<le> 16 \<Longrightarrow> list_all plain n \<Longrightarrow> Network_Validate n = Inr ()"
  by (simp add: Network_Validate_def plain_valid runes_ascii plain_ascii list_ex_iff)
    (auto simp: list_all_iff plain_not_space plain_not_control)

lemma networks_valid [simp]:
  "Network_Validate NetworkMainnet = Inr ()" "Network_Validate NetworkTestnet = Inr ()"
  "Network_Validate NetworkDevnet = Inr ()" "Network_Validate NetworkSepolia = Inr ()"
  "Network_Validate NetworkAmoy = Inr ()"
  by (rule Network_Validate_plain; simp add: network_defs plain_def)+

lemma Chain_Validate_iff: "Chain_Validate c = Inr () \<longleftrightarrow> Chain_IsValid c"
  by (auto simp: Chain_Validate_def Chain_IsValid_def chain_defs)

lemma Token_Validate_iff: "Token_Validate t = Inr () \<longleftrightarrow> Token_IsValid t"
  by (auto simp: Token_Validate_def Token_IsValid_def token_defs)

lemma default_names [simp]:
  "Chain_Validate ChainEthereum = Inr ()" "Chain_Validate ChainBase = Inr ()" "Chain_Validate ChainBNB = Inr ()"
  "Chain_Validate ChainPolygon = Inr ()" "Chain_Validate ChainAvalanche = Inr ()"
  "Chain_Validate ChainSolana = Inr ()" "Chain_Validate ChainSui = Inr ()"
  "Token_Validate TokenETH = Inr ()" "Token_Validate TokenUSDC = Inr ()" "Token_Validate TokenBNB = Inr ()"
  "Token_Validate TokenPOL = Inr ()" "Token_Validate TokenJPYC = Inr ()" "Token_Validate TokenAVAX = Inr ()"
  "Token_Validate TokenSOL = Inr ()" "Token_Validate TokenSUI = Inr ()"
  by (simp_all add: Chain_Validate_iff Token_Validate_iff Chain_IsValid_def Token_IsValid_def)

text \<open>Names and references of printable characters are accepted as they stand.\<close>

definition plain_text :: "nat \<Rightarrow> string \<Rightarrow> bool" where
  "plain_text k s \<longleftrightarrow> s \<noteq> [] \<and> length s \<le> k \<and> plain (hd s) \<and> plain (last s) \<and> list_all (\<lambda>c. byte_of c < 0x80) s"

lemma plain_text_kept:
  assumes "plain_text k s"
  shows "TrimSpace s = s" "s \<noteq> []" "RuneCount s \<le> k"
  using assms by (simp_all add: plain_text_def TrimSpace_plain RuneCount_ascii)

lemma native_valid:
  "\<lbrakk>Chain_Validate c = Inr (); Network_Validate n = Inr (); Token_Validate t = Inr (); d \<le> 77; plain_text 64 s\<rbrakk>
    \<Longrightarrow> Asset_Validate (NewAsset c n t d s True) = Inr ()"
  by (simp add: Asset_Validate_def NewAsset_def plain_text_kept leD not_less)

lemma token_valid:
  "\<lbrakk>Chain_Validate c = Inr (); Network_Validate n = Inr (); Token_Validate t = Inr (); d \<le> 77; plain_text 64 s;
    plain_text 255 r\<rbrakk>
    \<Longrightarrow> Asset_Validate (WithTokenRef (NewAsset c n t d s False) r) = Inr ()"
  by (simp add: Asset_Validate_def NewAsset_def WithTokenRef_def plain_text_kept leD not_less Let_def)

lemma default_assets_valid: "list_all (\<lambda>a. \<not> isl (Asset_Validate a)) buildDefaultAssets"
  by (simp add: buildDefaultAssets_def native_valid token_valid plain_text_def plain_def)

lemma policy_valid:
  "\<lbrakk>Chain_Validate c = Inr (); Network_Validate n = Inr (); Token_Validate t = Inr (); k \<noteq> 0\<rbrakk>
    \<Longrightarrow> DepositPolicy_Validate (NewDepositPolicy c n t k) = Inr ()"
  by (simp add: DepositPolicy_Validate_def NewDepositPolicy_def)

lemma default_policies_valid: "list_all (\<lambda>p. \<not> isl (DepositPolicy_Validate p)) buildDefaultDepositPolicies"
  by (simp add: buildDefaultDepositPolicies_def policy_valid)

section \<open>Properties\<close>

text \<open>
  Batches (\<open>RegisterAll\<close>): the assets before the first invalid one are stored under their keys, a
  later one replacing an earlier one with the same key; nothing else changes; and the error is that of the
  first invalid asset, or nil when all are valid.
\<close>

lemma AssetRegistry_RegisterAll_correct:
  "AssetRegistry_RegisterAll (Some m) vs =
    (Some (m ++ map_of (rev (map (\<lambda>v. (Asset_Key v, the v)) (takeWhile (\<lambda>v. \<not> isl (Asset_Validate v)) vs)))),
     case dropWhile (\<lambda>v. \<not> isl (Asset_Validate v)) vs of [] \<Rightarrow> None | v # _ \<Rightarrow> Some (projl (Asset_Validate v)))"
proof -
  have "map (\<lambda>a. (Asset_Key (Some a), a)) (map the (takeWhile (\<lambda>v. \<not> isl (Asset_Validate v)) vs))
      = map (\<lambda>v. (Asset_Key v, the v)) (takeWhile (\<lambda>v. \<not> isl (Asset_Validate v)) vs)"
    using assets.nil_refused by (fastforce dest: set_takeWhileD)
  then show ?thesis
    unfolding assets.register_all_prefix assets.entries_def assets.accepted_prefix_def by (simp only:)
qed

lemma get_valid:
  assumes "AssetRegistry_Get (foldl (\<lambda>r vs. fst (AssetRegistry_RegisterAll r vs)) NewAssetRegistry batches) c n t = Inr a"
  shows "Asset.Chain a = c \<and> Asset.Network a = n \<and> Asset.Token a = t \<and> Asset_Validate (Some a) = Inr ()"
proof -
  have inv: "\<exists>m'. foldl (\<lambda>r vs. fst (AssetRegistry_RegisterAll r vs)) (Some m) batches = Some m' \<and> assets.holds_valid m'"
    if "assets.holds_valid m" for m
    using that
  proof (induction batches arbitrary: m)
    case (Cons vs batches)
    then show ?case using assets.register_all_valid [OF Cons.prems] by (metis foldl_Cons prod.collapse)
  qed simp
  from inv [OF assets.holds_valid_empty] obtain m where
    m: "foldl (\<lambda>r vs. fst (AssetRegistry_RegisterAll r vs)) NewAssetRegistry batches = Some m" "assets.holds_valid m"
    by (auto simp: NewAssetRegistry_def)
  have "m \<lparr>KChain = c, KNetwork = n, KToken = t\<rparr> = Some a"
    using assms m(1) by (auto simp: AssetRegistry_Get_def split: option.splits)
  then have "Asset_Key (Some a) = \<lparr>KChain = c, KNetwork = n, KToken = t\<rparr> \<and> \<not> isl (Asset_Validate (Some a))"
    using m(2) by (simp add: assets.holds_valid_def)
  then show ?thesis by (cases "Asset_Validate (Some a)") (auto simp: Asset_Key_def)
qed

lemma default_assets_run:
  "AssetRegistry_RegisterAll (Some m) buildDefaultAssets = (Some (m ++ assets.entries (map the buildDefaultAssets)), None)"
  by (rule assets.all_accepted [OF default_assets_valid])

lemma default_policies_run:
  "DepositPolicyRegistry_RegisterAll (Some m) buildDefaultDepositPolicies =
    (Some (m ++ policies.entries (map the buildDefaultDepositPolicies)), None)"
  by (rule policies.all_accepted [OF default_policies_valid])

text \<open>
  A registry only ever holds valid assets under their own keys: whatever batches, valid or
  not, have been registered since \<open>NewAssetRegistry\<close>, an asset that \<open>Get\<close> returns has the chain, network
  and token asked for and passes \<open>Validate\<close>.
\<close>

lemma AssetRegistry_invariant:
  assumes "AssetRegistry_Get (foldl (\<lambda>r vs. fst (AssetRegistry_RegisterAll r vs)) NewAssetRegistry batches) c n t = Inr a"
  shows "Asset.Chain a = c \<and> Asset.Network a = n \<and> Asset.Token a = t \<and> Asset_Validate (Some a) = Inr ()"
  using get_valid [OF assms] .

lemma AssetRegistry_invariant_witness:
  "\<exists>a. AssetRegistry_Get (fst (AssetRegistry_RegisterAll NewAssetRegistry buildDefaultAssets))
      ChainBase NetworkMainnet TokenUSDC = Inr a \<and> Asset.Token a = TokenUSDC"
proof -
  have "\<not> isl (AssetRegistry_Get (Some (assets.entries (map the buildDefaultAssets))) ChainBase NetworkMainnet TokenUSDC)"
    unfolding assets.entries_def by code_simp
  then obtain a where a: "AssetRegistry_Get (fst (AssetRegistry_RegisterAll NewAssetRegistry buildDefaultAssets))
      ChainBase NetworkMainnet TokenUSDC = Inr a"
    using default_assets_run [of Map.empty] by (cases "AssetRegistry_Get (Some (assets.entries (map the buildDefaultAssets))) ChainBase NetworkMainnet TokenUSDC")
      (auto simp: NewAssetRegistry_def)
  then have "Asset.Token a = TokenUSDC"
    using AssetRegistry_invariant [of "[buildDefaultAssets]" ChainBase NetworkMainnet TokenUSDC a] by simp
  with a show ?thesis by blast
qed

lemma default_tables:
  "list_all (\<lambda>p. case p of None \<Rightarrow> False | Some p \<Rightarrow>
      \<not> isl (AssetRegistry_Get (Some (assets.entries (map the buildDefaultAssets))) (PChain p) (PNetwork p) (PToken p))
      \<and> DepositPolicyRegistry_Get (Some (policies.entries (map the buildDefaultDepositPolicies)))
          (PChain p) (PNetwork p) (PToken p) = Inr p
      \<and> ResolveConfirmationPolicy (PChain p) (PNetwork p) =
          Inr \<lparr>CChain = PChain p, CNetwork = PNetwork p, CRequired = RequiredConfirmations p\<rparr>)
    buildDefaultDepositPolicies"
  unfolding assets.entries_def policies.entries_def by code_simp

lemma collect_none:
  "list_all (\<lambda>d. case d of None \<Rightarrow> False | Some d \<Rightarrow> PChain d \<noteq> c \<or> PNetwork d \<noteq> n) ds
    \<Longrightarrow> collect_threshold c n r ds = Inr r"
  by (induction ds) (auto split: option.splits)

lemma resolve_cases:
  "(\<exists>p \<in> set buildDefaultDepositPolicies. \<exists>d. p = Some d \<and> PChain d = c \<and> PNetwork d = n)
    \<or> ResolveConfirmationPolicy c n =
        (if c = ChainRobinhood \<and> n = NetworkMainnet then Inr \<lparr>CChain = c, CNetwork = n, CRequired = 12\<rparr>
         else Inl (Fail ''policy=invalid''))"
proof (cases "list_all (\<lambda>d. case d of None \<Rightarrow> False | Some d \<Rightarrow> PChain d \<noteq> c \<or> PNetwork d \<noteq> n) buildDefaultDepositPolicies")
  case True
  then show ?thesis using collect_none [OF True, of 0] by (auto simp: ResolveConfirmationPolicy_def Let_def)
next
  case False
  have "list_all (\<lambda>p. p \<noteq> None) buildDefaultDepositPolicies"
    by (simp add: buildDefaultDepositPolicies_def NewDepositPolicy_def)
  then show ?thesis using False by (fastforce simp: list_all_iff split: option.splits)
qed

text \<open>
  The built in tables fit together: both default registries are built without an error; every
  default deposit policy is found under its own key, and its asset is registered; and the
  confirmation policy of its chain and network requires exactly the same depth, so the thresholds of the tokens
  of one network never differ. A chain and network without a deposit policy has no confirmation policy
  either, except for the main network of Robinhood.
\<close>

lemma default_registries:
  "\<exists>ra rp. WithDefaultAssets NewAssetRegistry = (ra, None)
    \<and> WithDefaultDepositPolicies NewDepositPolicyRegistry = (rp, None)
    \<and> list_all (\<lambda>p. case p of None \<Rightarrow> False | Some p \<Rightarrow>
        \<not> isl (AssetRegistry_Get ra (PChain p) (PNetwork p) (PToken p))
        \<and> DepositPolicyRegistry_Get rp (PChain p) (PNetwork p) (PToken p) = Inr p
        \<and> ResolveConfirmationPolicy (PChain p) (PNetwork p) =
            Inr \<lparr>CChain = PChain p, CNetwork = PNetwork p, CRequired = RequiredConfirmations p\<rparr>)
      buildDefaultDepositPolicies
    \<and> (\<forall>c n. (\<exists>p \<in> set buildDefaultDepositPolicies. \<exists>d. p = Some d \<and> PChain d = c \<and> PNetwork d = n)
        \<or> ResolveConfirmationPolicy c n =
            (if c = ChainRobinhood \<and> n = NetworkMainnet then Inr \<lparr>CChain = c, CNetwork = n, CRequired = 12\<rparr>
             else Inl (Fail ''policy=invalid'')))"
proof -
  have "WithDefaultAssets NewAssetRegistry = (Some (assets.entries (map the buildDefaultAssets)), None)"
    by (simp add: WithDefaultAssets_def NewAssetRegistry_def default_assets_run)
  moreover have "WithDefaultDepositPolicies NewDepositPolicyRegistry =
      (Some (policies.entries (map the buildDefaultDepositPolicies)), None)"
    by (simp add: WithDefaultDepositPolicies_def NewDepositPolicyRegistry_def default_policies_run)
  ultimately show ?thesis using default_tables resolve_cases by blast
qed

text \<open>
  C18. Confirmation depth (\<open>IsConfirmed\<close> of both policies): on the natural numbers that the words denote, a
  confirmation policy accepts exactly when the block lies at least the required number of blocks deep,
  counting itself; a deposit policy with the same threshold accepts exactly the same blocks,
  but for block 0 seen from the last block number of 64 bits, where its addition wraps.
\<close>

theorem IsConfirmed_depth:
  "(ConfirmationPolicy_IsConfirmed \<lparr>CChain = c, CNetwork = n, CRequired = r\<rparr> latest tx \<longleftrightarrow>
      0 < unat r \<and> unat tx \<le> unat latest \<and> unat r \<le> unat latest - unat tx + 1)
    \<and> (DepositPolicy_IsConfirmed (NewDepositPolicy c n t r) latest tx \<longleftrightarrow>
      ConfirmationPolicy_IsConfirmed \<lparr>CChain = c, CNetwork = n, CRequired = r\<rparr> latest tx
      \<and> \<not> (tx = 0 \<and> latest = - 1))"
proof -
  show ?thesis
  proof (cases "r = 0 \<or> latest < tx")
    case True
    then show ?thesis
      by (auto simp: ConfirmationPolicy_IsConfirmed_def DepositPolicy_IsConfirmed_def NewDepositPolicy_def
          word_less_nat_alt word_le_nat_alt)
  next
    case False
    then have le: "tx \<le> latest" and r: "0 < r" "0 < unat r" by (simp_all add: word_gt_0 unat_gt_0 linorder_not_less)
    have d: "unat (latest - tx) = unat latest - unat tx" using le by (simp add: unat_sub)
    have c: "ConfirmationPolicy_IsConfirmed \<lparr>CChain = c, CNetwork = n, CRequired = r\<rparr> latest tx
        \<longleftrightarrow> unat r \<le> unat latest - unat tx + 1"
      using r le d by (auto simp: ConfirmationPolicy_IsConfirmed_def word_le_nat_alt unat_minus_one)
    have p: "DepositPolicy_IsConfirmed (NewDepositPolicy c n t r) latest tx \<longleftrightarrow> unat r \<le> unat (latest - tx + 1)"
      using False by (simp add: DepositPolicy_IsConfirmed_def NewDepositPolicy_def word_le_nat_alt)
    have "unat latest < 2 ^ 64" using unsigned_less [of latest] by simp
    have m: "unat (- 1 :: u64) = 2 ^ 64 - 1" by (simp add: unsigned_minus_1_eq_mask mask_eq_exp_minus_1)
    show ?thesis
    proof (cases "latest - tx = - 1")
      case True
      then have e: "unat latest - unat tx = unat (- 1 :: u64)" using d by simp
      have "a - b = k - 1 \<Longrightarrow> a < k \<Longrightarrow> 1 < k \<Longrightarrow> b = 0 \<and> a = k - 1" for a b k :: nat by arith
      from this [OF e [unfolded m] \<open>unat latest < 2 ^ 64\<close>]
      have "unat tx = 0" "unat latest = unat (- 1 :: u64)" unfolding m by simp_all
      then have "tx = 0" "latest = - 1" by (simp_all only: unat_eq_0 word_unat_eq_iff)
      then show ?thesis using True r c p le by (simp add: word_le_nat_alt)
    next
      case False
      then have "1 + (latest - tx) \<noteq> 0" by (simp add: add_eq_0_iff eq_commute [of "- 1"])
      from unatSuc [OF this] have "unat (latest - tx + 1) = unat latest - unat tx + 1"
        using d by (simp add: add.commute)
      moreover have "\<not> (tx = 0 \<and> latest = - 1)" using False by auto
      ultimately show ?thesis using c p r le by (simp add: word_le_nat_alt)
    qed
  qed
qed

end
