(* ===== verification/DLMM_Math.thy ===== *)
theory DLMM_Math
  imports Solana_Arrays
begin

text \<open>
  \<open>go/solana/meteora/dlmm\<close>, the arithmetic: the fee formulas of \<open>math.go\<close> and the exchange within one bin
  of \<open>client.go\<close> (\<open>quoteBinExactInput\<close> and its helpers).
  A bin trades at one price, a fixed point number with 64 fractional bits. It is filled in layers: the
  liquidity of the market makers first, then the processed and the open limit orders.
\<close>

section \<open>Data\<close>

record StaticParameters =
  BaseFactor :: u16
  FilterPeriod :: u16
  DecayPeriod :: u16
  ReductionFactor :: u16
  VariableFeeControl :: u32
  MaxVolatilityAccumulator :: u32
  MinBinID :: int
  MaxBinID :: int
  ProtocolShare :: u16
  BaseFeePowerFactor :: u8
  FunctionType :: u8
  CollectFeeMode :: u8

record VariableParameters =
  VolatilityAccumulator :: u32
  VolatilityReference :: u32
  IndexReference :: int
  LastUpdateTimestamp :: int

record Pool =
  Address :: address
  Parameters :: StaticParameters
  Variable :: VariableParameters
  PairType :: u8
  ActiveBinID :: int
  BinStep :: u16
  Status :: u8
  ActivationType :: u8
  TokenXMint :: address
  TokenYMint :: address
  ReserveX :: address
  ReserveY :: address
  Oracle :: address
  RewardMints :: "address list"
  BinArrayBitmap :: "u64 list"
  LastUpdatedAt :: int
  ActivationPoint :: u64
  PreActivationDuration :: u64
  Creator :: address
  TokenXProgramFlag :: u8
  TokenYProgramFlag :: u8
  Version :: u8

record Bin =
  AmountX :: u64
  AmountY :: u64
  bin_price :: bytes
  LiquiditySupply :: bytes
  FulfilledOrderAmountX :: u64
  FulfilledOrderAmountY :: u64
  LimitOrderFeeAskSide :: u64
  LimitOrderFeeBidSide :: u64
  FeeAmountXPerTokenStored :: bytes
  FeeAmountYPerTokenStored :: bytes
  OpenOrderAmount :: u64
  TotalProcessingOrderAmount :: u64
  ProcessedOrderRemainingAmount :: u64
  OrderAge :: u32
  LimitOrderAskSide :: u8

section \<open>Fees\<close>

definition basisPointMax :: u64 where "basisPointMax = 10000"
definition feePrecision :: u64 where "feePrecision = 1000000000"
definition maxFeeRate :: u64 where "maxFeeRate = 100000000"
definition limitOrderFeeShare :: int where "limitOrderFeeShare = 5000"

definition i64 :: "int \<Rightarrow> int" where
  "i64 n = (n + 2 ^ 63) mod 2 ^ 64 - 2 ^ 63"

definition divCeil :: "int \<Rightarrow> int \<Rightarrow> int res" where
  "divCeil numerator denominator = quo_rem_up numerator denominator"

definition uint128LE :: "bytes \<Rightarrow> int" where
  "uint128LE v = be_int (rev v)"

definition updateFeeReferences :: "Pool \<Rightarrow> int \<Rightarrow> Pool res" where
  "updateFeeReferences pool timestamp =
     (if timestamp < 0 then Inl (Fail ''timestamp=out_of_range'')
      else
        (let v = Variable pool;
             elapsed = i64 (timestamp - LastUpdateTimestamp v);
             elapsed = (if elapsed < 0 then 0 else elapsed)
         in if elapsed \<ge> uint (FilterPeriod (Parameters pool)) then
              (let v = v\<lparr>IndexReference := ActiveBinID pool\<rparr>;
                   v = (if elapsed < uint (DecayPeriod (Parameters pool))
                        then v\<lparr>VolatilityReference := ucast ((ucast (VolatilityAccumulator v) :: u64)
                                 * ucast (ReductionFactor (Parameters pool)) div basisPointMax)\<rparr>
                        else v\<lparr>VolatilityReference := 0\<rparr>)
               in Inr (pool\<lparr>Variable := v\<rparr>))
            else Inr pool))"

definition updateVolatilityAccumulator :: "Pool \<Rightarrow> Pool" where
  "updateVolatilityAccumulator pool =
     (let v = Variable pool;
          delta = i64 (IndexReference v - ActiveBinID pool);
          delta = (if delta < 0 then i64 (- delta) else delta);
          volatility = (ucast (VolatilityReference v) :: u64) + word_of_int delta * basisPointMax;
          volatility = (if volatility > ucast (MaxVolatilityAccumulator (Parameters pool))
                        then ucast (MaxVolatilityAccumulator (Parameters pool)) else volatility)
      in pool\<lparr>Variable := v\<lparr>VolatilityAccumulator := ucast volatility\<rparr>\<rparr>)"

text \<open>The loop that multiplies the power of ten, with the rounds that are left.\<close>

fun power_loop :: "nat \<Rightarrow> u64 \<Rightarrow> u64 res" where
  "power_loop 0 pow = Inr pow"
| "power_loop (Suc k) pow =
     (if pow > NOT 0 div 10 then Inl (Fail ''base_fee=out_of_range'') else power_loop k (pow * 10))"

definition totalFeeRate :: "Pool \<Rightarrow> u64 res" where
  "totalFeeRate pool =
     ebind (power_loop (unat (BaseFeePowerFactor (Parameters pool))) 1) (\<lambda>pow.
     let base = uint (BaseFactor (Parameters pool)) * uint (BinStep pool) * 10 * uint pow
     in ebind (if VariableFeeControl (Parameters pool) > 0 then
                 (let crossed = uint ((ucast (VolatilityAccumulator (Variable pool)) :: u64) * ucast (BinStep pool))
                  in divCeil (crossed * crossed * uint (VariableFeeControl (Parameters pool))) 100000000000)
               else Inr 0) (\<lambda>variable.
        let rate = base + variable
        in if rate > uint maxFeeRate then Inr maxFeeRate
           else if \<not> IsUint64 rate then Inl (Fail ''fee_rate=out_of_range'')
           else Inr (u64_of rate)))"

definition feeFromIncludedAmount :: "u64 \<Rightarrow> u64 \<Rightarrow> u64 res" where
  "feeFromIncludedAmount amount feeRate =
     ebind (divCeil (uint amount * uint feeRate) (uint feePrecision)) (\<lambda>fee.
     if \<not> IsUint64 fee then Inl (Fail ''fee=out_of_range'') else Inr (u64_of fee))"

definition feeFromExcludedAmount :: "u64 \<Rightarrow> u64 \<Rightarrow> u64 res" where
  "feeFromExcludedAmount amount feeRate =
     (if feeRate \<ge> feePrecision then Inl (Fail ''fee_rate=out_of_range'')
      else
        ebind (divCeil (uint amount * uint feeRate) (uint (feePrecision - feeRate))) (\<lambda>fee.
        if \<not> IsUint64 fee then Inl (Fail ''fee=out_of_range'') else Inr (u64_of fee)))"

section \<open>The exchange in a bin\<close>

definition amountOutAtBin :: "u64 \<Rightarrow> int \<Rightarrow> bool \<Rightarrow> u64 res" where
  "amountOutAtBin amountIn price swapForY =
     ebind (if swapForY then Inr (drop_bit 64 (uint amountIn * price))
            else if price = 0 then Inl (Fail ''price=empty'')
            else big_Div (push_bit 64 (uint amountIn)) price) (\<lambda>result.
     if \<not> IsUint64 result then Inl (Fail ''amount_out=out_of_range'') else Inr (u64_of result))"

definition amountInAtBin :: "u64 \<Rightarrow> int \<Rightarrow> bool \<Rightarrow> u64 res" where
  "amountInAtBin amountOut price swapForY =
     ebind (if swapForY then
              if price = 0 then Inl (Fail ''price=empty'') else divCeil (push_bit 64 (uint amountOut)) price
            else divCeil (uint amountOut * price) (push_bit 64 1)) (\<lambda>result.
     if \<not> IsUint64 result then Inl (Fail ''amount_in=out_of_range'') else Inr (u64_of result))"

text \<open>What is left of the amount, what the layer took of it, and what it gave.\<close>

definition fillBinLayer :: "u64 \<Rightarrow> u64 \<Rightarrow> int \<Rightarrow> bool \<Rightarrow> (u64 \<times> u64 \<times> u64) res" where
  "fillBinLayer amount maxOut price swapForY =
     (if maxOut = 0 then Inr (amount, 0, 0)
      else
        ebind (amountInAtBin maxOut price swapForY) (\<lambda>maxIn.
        if amount \<ge> maxIn then Inr (amount - maxIn, maxIn, maxOut)
        else ebind (amountOutAtBin amount price swapForY) (\<lambda>out. Inr (0, amount, out))))"

definition addFillAmounts :: "u64 \<Rightarrow> u64 \<Rightarrow> u64 \<Rightarrow> u64 \<Rightarrow> (u64 \<times> u64) res" where
  "addFillAmounts amountIn amountOut deltaIn deltaOut =
     (if u64_add_overflows amountIn deltaIn \<or> u64_add_overflows amountOut deltaOut
      then Inl (Fail ''amount=out_of_range'') else Inr (amountIn + deltaIn, amountOut + deltaOut))"

definition limitOrderAmounts :: "Bin \<Rightarrow> bool \<Rightarrow> u64 \<times> u64" where
  "limitOrderAmounts bin swapForY =
     (let isAskSide = (LimitOrderAskSide bin \<noteq> 0)
      in if (swapForY \<and> \<not> isAskSide) \<or> (\<not> swapForY \<and> isAskSide)
         then (OpenOrderAmount bin, ProcessedOrderRemainingAmount bin) else (0, 0))"

definition binMaxOutput :: "Bin \<Rightarrow> bool \<Rightarrow> bool \<Rightarrow> u64" where
  "binMaxOutput bin swapForY supportLimitOrder =
     (let result = (if swapForY then AmountY bin else AmountX bin)
      in if \<not> supportLimitOrder then result
         else
           (let (openOrder, processedOrder) = limitOrderAmounts bin swapForY
            in if u64_add_overflows result openOrder then NOT 0
               else
                 (let result = result + openOrder
                  in if u64_add_overflows result processedOrder then NOT 0 else result + processedOrder)))"

definition splitProtocolFee :: "u64 \<Rightarrow> u16 \<Rightarrow> u64 \<Rightarrow> u64 \<Rightarrow> u64 res" where
  "splitProtocolFee tradingFee protocolShare mmAmountIn totalAmountIn =
     (if totalAmountIn = 0 \<or> tradingFee = 0 then Inr 0
      else
        ebind (big_Div (uint tradingFee * uint mmAmountIn + uint (totalAmountIn - 1)) (uint totalAmountIn)) (\<lambda>mmFeeValue.
        if \<not> IsUint64 mmFeeValue then Inl (Fail ''amount=out_of_range'')
        else
          (let mmFee = u64_of mmFeeValue;
               limitOrderFee = tradingFee - mmFee
           in ebind (big_Div (uint limitOrderFee * limitOrderFeeShare) (uint basisPointMax)) (\<lambda>limitOrderUserFeeValue.
              let limitOrderProtocolFee = limitOrderFee - u64_of limitOrderUserFeeValue
              in ebind (big_Div (uint mmFee * uint protocolShare) (uint basisPointMax)) (\<lambda>mmProtocolFeeValue.
                 let mmProtocolFee = u64_of mmProtocolFeeValue
                 in if u64_add_overflows limitOrderProtocolFee mmProtocolFee then Inl (Fail ''amount=out_of_range'')
                    else Inr (limitOrderProtocolFee + mmProtocolFee))))))"

text \<open>The two layers of limit orders, after the market makers' layer left something.\<close>

definition fill_limit_orders ::
    "Bin \<Rightarrow> int \<Rightarrow> bool \<Rightarrow> u64 \<Rightarrow> u64 \<Rightarrow> u64 \<Rightarrow> (u64 \<times> u64) res" where
  "fill_limit_orders bin price swapForY remaining consumedExcluded grossOut =
     (let (openOrder, processedOrder) = limitOrderAmounts bin swapForY
      in ebind (fillBinLayer remaining processedOrder price swapForY) (\<lambda>(remaining, layerIn, layerOut).
         ebind (addFillAmounts consumedExcluded grossOut layerIn layerOut) (\<lambda>(consumedExcluded, grossOut).
         if remaining > 0 then
           ebind (fillBinLayer remaining openOrder price swapForY) (\<lambda>(remaining, layerIn, layerOut).
           addFillAmounts consumedExcluded grossOut layerIn layerOut)
         else Inr (consumedExcluded, grossOut))))"

text \<open>Input consumed with its fee, output after its fee, the fee, and the protocol's part of it.\<close>

definition quoteBinExactInput ::
    "u64 \<Rightarrow> Bin \<Rightarrow> int \<Rightarrow> u64 \<Rightarrow> u16 \<Rightarrow> bool \<Rightarrow> bool \<Rightarrow> bool \<Rightarrow> (u64 \<times> u64 \<times> u64 \<times> u64) res" where
  "quoteBinExactInput amountIn bin price feeRate protocolShare swapForY supportLimitOrder feeOnInput =
     ebind (if feeOnInput then
              ebind (feeFromIncludedAmount amountIn feeRate) (\<lambda>fee.
                if fee > amountIn then Inl (Fail ''fee=out_of_range'') else Inr (amountIn - fee))
            else Inr amountIn) (\<lambda>available.
     ebind (fillBinLayer available (if swapForY then AmountY bin else AmountX bin) price swapForY)
       (\<lambda>(remaining, mmAmountIn, grossOut).
     ebind (if supportLimitOrder \<and> remaining > 0
            then fill_limit_orders bin price swapForY remaining mmAmountIn grossOut
            else Inr (mmAmountIn, grossOut)) (\<lambda>(consumedExcluded, grossOut).
     ebind (if feeOnInput then
              (case feeFromExcludedAmount consumedExcluded feeRate of
                 Inl _ \<Rightarrow> Inl (Fail ''amount=out_of_range'')
               | Inr fee \<Rightarrow>
                   if u64_add_overflows consumedExcluded fee then Inl (Fail ''amount=out_of_range'')
                   else Inr (consumedExcluded + fee, grossOut, fee))
            else
              ebind (feeFromIncludedAmount grossOut feeRate) (\<lambda>fee.
                if fee > grossOut then Inl (Fail ''fee=out_of_range'')
                else Inr (consumedExcluded, grossOut - fee, fee))) (\<lambda>(consumed, out, fee).
     ebind (splitProtocolFee fee protocolShare mmAmountIn consumedExcluded) (\<lambda>protocolFee.
     Inr (consumed, out, fee, protocolFee))))))"

definition poolSupportsLimitOrders :: "Pool \<Rightarrow> bool" where
  "poolSupportsLimitOrders pool =
     (if FunctionType (Parameters pool) = 2 then True
      else if FunctionType (Parameters pool) = 1 then False
      else IsZero (RewardMints pool ! 0) \<and> IsZero (RewardMints pool ! 1))"

section \<open>Fees are what the rate says\<close>

lemma constants [simp]: "uint basisPointMax = 10000" "uint feePrecision = 1000000000" "uint maxFeeRate = 100000000"
  by (simp_all add: basisPointMax_def feePrecision_def maxFeeRate_def)

lemma divCeil_pos: "0 \<le> n \<Longrightarrow> 0 < d \<Longrightarrow> divCeil n d = Inr (cdiv n d)"
  by (simp add: divCeil_def quo_rem_up_pos)

lemma uint_le: "a \<le> b \<longleftrightarrow> uint a \<le> uint (b::u64)"
  by (simp add: word_le_def)

lemma uint_less: "a < b \<longleftrightarrow> uint a < uint (b::u64)"
  by (simp add: word_less_def)

lemma uint_pos: "0 < a \<longleftrightarrow> 0 < uint (a::u64)"
  by (simp add: uint_less)

lemma cdiv_fraction_le: "0 \<le> a \<Longrightarrow> r \<le> d \<Longrightarrow> 0 < d \<Longrightarrow> cdiv (a * r) d \<le> a"
  by (simp add: cdiv_le_iff mult_left_mono)

lemma fee_included:
  assumes "uint r \<le> 1000000000"
  shows "\<exists>f. feeFromIncludedAmount a r = Inr f \<and> uint f = cdiv (uint a * uint r) 1000000000 \<and> uint f \<le> uint a"
proof -
  have "cdiv (uint a * uint r) 1000000000 \<le> uint a" using assms by (intro cdiv_fraction_le) simp_all
  moreover have "0 \<le> cdiv (uint a * uint r) 1000000000" by (intro cdiv_nonneg) simp_all
  ultimately have "IsUint64 (cdiv (uint a * uint r) 1000000000)"
    using uint64_bounds [of a] by (simp add: IsUint64_def)
  then show ?thesis
    using \<open>cdiv _ _ \<le> _\<close> by (simp add: feeFromIncludedAmount_def divCeil_pos u64_simps)
qed

lemma fee_excluded:
  assumes "uint r < 1000000000"
  shows "feeFromExcludedAmount a r =
     (if 2 ^ 64 \<le> cdiv (uint a * uint r) (1000000000 - uint r) then Inl (Fail ''fee=out_of_range'')
      else Inr (u64_of (cdiv (uint a * uint r) (1000000000 - uint r))))"
proof -
  have le: "r \<le> feePrecision" "\<not> feePrecision \<le> r" using assms by (simp_all add: uint_le)
  then have "uint (feePrecision - r) = 1000000000 - uint r" by (simp add: uint_sub_u64)
  moreover have "0 \<le> cdiv (uint a * uint r) (1000000000 - uint r)" using assms by (intro cdiv_nonneg) simp_all
  ultimately show ?thesis using assms le by (simp add: feeFromExcludedAmount_def divCeil_pos IsUint64_def)
qed

section \<open>One layer\<close>

definition fair_at :: "bool \<Rightarrow> int \<Rightarrow> int \<Rightarrow> int \<Rightarrow> bool" where
  "fair_at y price i out \<longleftrightarrow> (if y then out * 2 ^ 64 \<le> i * price else out * price \<le> i * 2 ^ 64)"

lemma fair_at_add: "fair_at y p i out \<Longrightarrow> fair_at y p i' out' \<Longrightarrow> fair_at y p (i + i') (out + out')"
  by (auto simp: fair_at_def algebra_simps split: if_splits)

lemma fair_at_less: "fair_at y p i out \<Longrightarrow> 0 \<le> p \<Longrightarrow> out' \<le> out \<Longrightarrow> fair_at y p i out'"
  by (auto simp: fair_at_def split: if_splits elim: order_trans [rotated] intro: mult_right_mono)

lemma fair_at_0 [simp]: "fair_at y p 0 0"
  by (simp add: fair_at_def)

lemma amount_in:
  assumes "0 < price" and "amountInAtBin m price y = Inr i"
  shows "fair_at y price (uint i) (uint m)" "0 < uint m \<Longrightarrow> 0 < uint i"
    "j < uint i \<Longrightarrow> \<not> fair_at y price j (uint m)"
proof -
  have s: "push_bit 64 (uint m) = uint m * 2 ^ 64" "push_bit 64 1 = (2 ^ 64 :: int)" by (simp_all add: push_bit_eq_mult)
  have i: "uint i = (if y then cdiv (uint m * 2 ^ 64) price else cdiv (uint m * price) (2 ^ 64))"
    using assms by (auto simp: amountInAtBin_def s divCeil_pos uint_u64_of split: if_splits)
  show "fair_at y price (uint i) (uint m)"
    using assms(1) cdiv_mult_ge [of price "uint m * 2 ^ 64"] cdiv_mult_ge [of "2 ^ 64" "uint m * price"]
    by (cases y) (simp_all add: i fair_at_def)
  show "0 < uint m \<Longrightarrow> 0 < uint i"
    using assms(1) by (cases y) (simp_all add: i cdiv_pos)
  show "j < uint i \<Longrightarrow> \<not> fair_at y price j (uint m)"
    using assms(1) by (cases y) (simp_all add: i fair_at_def less_cdiv_iff not_le)
qed

lemma amount_out:
  assumes "0 < price" and "amountOutAtBin i price y = Inr out"
  shows "fair_at y price (uint i) (uint out)" "\<not> fair_at y price (uint i) (uint out + 1)"
proof -
  have s: "push_bit 64 (uint i) = uint i * 2 ^ 64" "drop_bit 64 (uint i * price) = uint i * price div 2 ^ 64"
    by (simp_all add: push_bit_eq_mult drop_bit_eq_div)
  have out: "uint out = (if y then uint i * price div 2 ^ 64 else uint i * 2 ^ 64 div price)"
    using assms by (auto simp: amountOutAtBin_def s big_Div_pos uint_u64_of split: if_splits)
  show "fair_at y price (uint i) (uint out)" "\<not> fair_at y price (uint i) (uint out + 1)"
    using assms(1) div_mult_le [of price "uint i * 2 ^ 64"] div_mult_le [of "2 ^ 64" "uint i * price"]
      less_div_mult [of price "uint i * 2 ^ 64"] less_div_mult [of "2 ^ 64" "uint i * price"]
    by (cases y; simp add: out fair_at_def not_le)+
qed

text \<open>The layer trades fairly, gives at most what it has, and is emptied when something is left.\<close>

definition layer_facts :: "bool \<Rightarrow> int \<Rightarrow> u64 \<Rightarrow> u64 \<Rightarrow> u64 \<Rightarrow> u64 \<Rightarrow> u64 \<Rightarrow> bool" where
  "layer_facts y price amount m rem i out \<longleftrightarrow>
     uint rem + uint i = uint amount \<and> uint out \<le> uint m \<and> fair_at y price (uint i) (uint out)
     \<and> (out = m \<or> (uint rem = 0 \<and> \<not> fair_at y price (uint i) (uint out + 1)))"


lemma fill_layer:
  assumes p: "0 < price" and run: "fillBinLayer amount m price y = Inr (rem, i, out)"
  shows "layer_facts y price amount m rem i out"
proof (cases "m = 0")
  case True
  then show ?thesis using run by (simp add: fillBinLayer_def layer_facts_def)
next
  case False
  then obtain maxIn where maxIn: "amountInAtBin m price y = Inr maxIn"
    using run by (auto simp: fillBinLayer_def)
  show ?thesis
  proof (cases "amount \<ge> maxIn")
    case True
    then show ?thesis using run False maxIn amount_in [OF p maxIn]
      by (auto simp: fillBinLayer_def layer_facts_def uint_sub_u64)
  next
    case part: False
    then have o: "amountOutAtBin amount price y = Inr out" "rem = 0" "i = amount"
      using run False maxIn by (auto simp: fillBinLayer_def)
    have "uint amount < uint maxIn" using part by (simp add: uint_le)
    have "\<not> fair_at y price (uint amount) (uint m)"
      using amount_in(3) [OF p maxIn] part by (simp add: uint_le)
    then have "uint out < uint m" using amount_out(1) [OF p o(1)] fair_at_less [of y price "uint amount" "uint out" "uint m"] p
      by (meson less_imp_le not_le)
    then show ?thesis using o amount_out [OF p o(1)] by (simp add: layer_facts_def)
  qed
qed

lemma fill_layer_Inl: "0 < price \<Longrightarrow> fillBinLayer amount m price y = Inl e \<Longrightarrow> \<exists>r. e = Fail r"
  by (auto simp: fillBinLayer_def amountInAtBin_def amountOutAtBin_def big_Div_def divCeil_def quo_rem_up_def ebind_def
      split: sum.splits if_splits)

section \<open>One bin\<close>

text \<open>The protocol's part never exceeds the fee, so it never overflows.\<close>

lemma split_protocol:
  assumes share: "uint share \<le> 10000" and mm: "uint mm \<le> uint whole"
  shows "\<exists>p. splitProtocolFee fee share mm whole = Inr p \<and> uint p \<le> uint fee"
proof (cases "whole = 0 \<or> fee = 0")
  case True
  then show ?thesis by (auto simp: splitProtocolFee_def)
next
  case False
  then have w: "0 < uint whole" "0 < uint fee" by (simp_all add: uint_pos [symmetric] word_gt_0)
  then have w1: "uint (whole - 1) = uint whole - 1" using uint_sub_u64 [of 1 whole] by (simp add: uint_le)
  define m where "m = (uint fee * uint mm + (uint whole - 1)) div uint whole"
  have "uint fee * uint mm \<le> uint fee * uint whole" using mm by (simp add: mult_left_mono)
  then have "uint fee * uint mm + (uint whole - 1) < (uint fee + 1) * uint whole" by (simp only: distrib_right)
  then have "m < uint fee + 1" unfolding m_def using w by (simp only: div_less_iff_less_mult)
  then have m: "0 \<le> m" "m \<le> uint fee" using w by (simp_all add: m_def pos_imp_zdiv_nonneg_iff)
  then have mu: "IsUint64 m" using uint64_bounds [of fee] by (simp add: IsUint64_def)
  then have um: "uint (u64_of m) = m" by (rule uint_u64_of)
  define l where "l = uint fee - m"
  have ul: "uint (fee - u64_of m) = l" using m um by (simp add: uint_sub_u64 uint_le l_def)
  define h where "h = l * limitOrderFeeShare div 10000"
  have h: "0 \<le> h" "h \<le> l" using m by (simp_all add: h_def l_def limitOrderFeeShare_def)
  have "h < 2 ^ 64" using h m uint64_bounds [of fee] by (simp add: l_def)
  then have uh: "uint (u64_of h) = h" using h by (intro uint_u64_of) (simp add: IsUint64_def)
  define q where "q = m * uint share div 10000"
  have "m * uint share \<le> m * 10000" using share m by (intro mult_left_mono) simp_all
  then have "m * uint share < (m + 1) * 10000" by (rule le_less_trans) simp
  then have "q < m + 1" unfolding q_def by (simp add: div_less_iff_less_mult)
  moreover have "0 \<le> q" unfolding q_def using m(1) by (intro pos_imp_zdiv_nonneg_iff [THEN iffD2] mult_nonneg_nonneg) simp_all
  ultimately have q: "0 \<le> q" "q \<le> m" by simp_all
  then have uq: "uint (u64_of q) = q" using m uint64_bounds [of fee] by (intro uint_u64_of) (simp add: IsUint64_def)
  have lh: "uint (fee - u64_of m - u64_of h) = l - h" using ul uh h uint_sub_u64 [of "u64_of h" "fee - u64_of m"] by (simp add: uint_le)
  have "l - h + q \<le> uint fee" using h q by (simp add: l_def)
  then have "\<not> u64_add_overflows (fee - u64_of m - u64_of h) (u64_of q)"
    using lh uq uint64_bounds [of fee] by (simp add: u64_add_overflows_iff)
  moreover from this have "uint (fee - u64_of m - u64_of h + u64_of q) \<le> uint fee"
    using lh uq \<open>l - h + q \<le> uint fee\<close> by (simp add: uint_add_u64)
  moreover have "big_Div (uint fee * uint mm + uint (whole - 1)) (uint whole) = Inr m"
    using w by (simp add: big_Div_pos w1 m_def)
  ultimately show ?thesis
    using False mu um ul
    by (simp add: splitProtocolFee_def Let_def big_Div_pos h_def [symmetric] q_def [symmetric])
qed

lemma add_fill:
  "addFillAmounts a b c d = Inr (a', b') \<Longrightarrow> uint a' = uint a + uint c \<and> uint b' = uint b + uint d"
  "addFillAmounts a b c d = Inl e \<Longrightarrow> e = Fail ''amount=out_of_range''"
  by (auto simp: addFillAmounts_def uint_add_u64 split: if_splits)

lemma layerE:
  assumes "0 < price" and "fillBinLayer amount m price y = Inr (rem, i, out)"
  shows "uint rem + uint i = uint amount" "uint i \<le> uint amount" "uint out \<le> uint m" "fair_at y price (uint i) (uint out)"
  using fill_layer [OF assms] uint64_bounds(1) [of rem] unfolding layer_facts_def by linarith+

text \<open>What a direction can take out of a bin.\<close>

definition bin_depth :: "Bin \<Rightarrow> bool \<Rightarrow> bool \<Rightarrow> int" where
  "bin_depth bin y orders = uint (if y then AmountY bin else AmountX bin)
     + (if orders then uint (fst (limitOrderAmounts bin y)) + uint (snd (limitOrderAmounts bin y)) else 0)"

lemma limit_orders:
  assumes p: "0 < price" and run: "fill_limit_orders bin price y rem c g = Inr (c', g')"
    and f: "fair_at y price (uint c) (uint g)"
  shows "fair_at y price (uint c') (uint g')" "uint c \<le> uint c'" "uint c' \<le> uint c + uint rem"
    "uint g' \<le> uint g + uint (fst (limitOrderAmounts bin y)) + uint (snd (limitOrderAmounts bin y))"
proof -
  obtain opn dn where o: "limitOrderAmounts bin y = (opn, dn)" by (cases "limitOrderAmounts bin y")
  obtain r1 i1 o1 c1 g1 where one: "fillBinLayer rem dn price y = Inr (r1, i1, o1)"
    "addFillAmounts c g i1 o1 = Inr (c1, g1)"
    using run o by (auto simp: fill_limit_orders_def)
  note l1 = layerE [OF p one(1)] and a1 = add_fill(1) [OF one(2)]
  have f1: "fair_at y price (uint c1) (uint g1)" using f l1(4) a1 fair_at_add by metis
  have "fair_at y price (uint c') (uint g') \<and> uint c \<le> uint c' \<and> uint c' \<le> uint c + uint rem
    \<and> uint g' \<le> uint g + uint opn + uint dn"
  proof (cases "r1 > 0")
    case False
    then have "c' = c1" "g' = g1" using run o one by (simp_all add: fill_limit_orders_def)
    then show ?thesis using f1 l1(2,3) a1 uint64_bounds(1) [of i1] uint64_bounds(1) [of opn]
      by (elim conjE, hypsubst, intro conjI) (assumption | linarith)+
  next
    case True
    then obtain r2 i2 o2 where two: "fillBinLayer r1 opn price y = Inr (r2, i2, o2)" "addFillAmounts c1 g1 i2 o2 = Inr (c', g')"
      using run o one by (auto simp: fill_limit_orders_def)
    note l2 = layerE [OF p two(1)] and a2 = add_fill(1) [OF two(2)]
    have "fair_at y price (uint c') (uint g')" using f1 l2(4) a2 fair_at_add by metis
    then show ?thesis using l1(1,3) a1 l2(2,3) a2 uint64_bounds(1) [of i1] uint64_bounds(1) [of i2]
      by (elim conjE, intro conjI) (assumption | linarith)+
  qed
  then show "fair_at y price (uint c') (uint g')" "uint c \<le> uint c'" "uint c' \<le> uint c + uint rem"
    "uint g' \<le> uint g + uint (fst (limitOrderAmounts bin y)) + uint (snd (limitOrderAmounts bin y))"
    using o by simp_all
qed

lemma limit_orders_Inl: "0 < price \<Longrightarrow> fill_limit_orders bin price y rem c g = Inl e \<Longrightarrow> \<exists>r. e = Fail r"
  using fill_layer_Inl add_fill(2)
  by (fastforce simp: fill_limit_orders_def ebind_def split: prod.splits sum.splits if_splits)

text \<open>Paying the fee on top of what was left after it never exceeds the amount.\<close>

lemma fee_round_trip:
  fixes a r P e :: int
  assumes "0 \<le> a" "0 \<le> r" "r < P" "0 \<le> e" "e \<le> a - cdiv (a * r) P"
  shows "e + cdiv (e * r) (P - r) \<le> a"
proof -
  have P: "0 < P" using assms by simp
  have "e * P \<le> (a - cdiv (a * r) P) * P" using assms(5) P by (simp add: mult_right_mono)
  also have "\<dots> \<le> a * P - a * r" using cdiv_mult_ge [OF P, of "a * r"] by (simp add: left_diff_distrib)
  finally have "e * r \<le> (a - e) * (P - r)" by (simp add: algebra_simps)
  then have "cdiv (e * r) (P - r) \<le> a - e" using assms(3) by (simp add: cdiv_le_iff)
  then show ?thesis by simp
qed

lemma quote_bin:
  assumes p: "0 < price" and rate: "uint rate < 1000000000" and share: "uint share \<le> 10000"
  shows "case quoteBinExactInput amount bin price rate share y orders onIn of
      Inl e \<Rightarrow> \<exists>r. e = Fail r
    | Inr (consumed, out, fee, prot) \<Rightarrow>
        uint consumed \<le> uint amount \<and> uint prot \<le> uint fee
        \<and> (let paid = uint consumed - (if onIn then uint fee else 0); got = uint out + (if onIn then 0 else uint fee)
           in 0 \<le> paid \<and> paid \<le> uint amount - (if onIn then cdiv (uint amount * uint rate) 1000000000 else 0)
              \<and> fair_at y price paid got \<and> got \<le> bin_depth bin y orders
              \<and> uint fee = (if onIn then cdiv (paid * uint rate) (1000000000 - uint rate)
                            else cdiv (got * uint rate) 1000000000))"
proof -
  obtain f0 where f0: "feeFromIncludedAmount amount rate = Inr f0" "uint f0 = cdiv (uint amount * uint rate) 1000000000"
    "uint f0 \<le> uint amount" using fee_included [of rate amount] rate by auto
  define avail where "avail = (if onIn then amount - f0 else amount)"
  have av: "uint avail = (if onIn then uint amount - uint f0 else uint amount)"
    using f0(3) by (simp add: avail_def uint_sub_u64 uint_le)
  have first: "(if onIn then ebind (feeFromIncludedAmount amount rate) (\<lambda>fee.
      if fee > amount then Inl (Fail ''fee=out_of_range'') else Inr (amount - fee)) else Inr amount) = Inr avail"
    using f0 by (simp add: avail_def uint_less)
  show ?thesis
  proof (cases "fillBinLayer avail (if y then AmountY bin else AmountX bin) price y")
    case (Inl e)
    then show ?thesis using fill_layer_Inl [OF p Inl] first by (auto simp: quoteBinExactInput_def)
  next
    case (Inr t)
    obtain rem mm g where t: "t = (rem, mm, g)" by (cases t)
    note l = layerE [OF p Inr [unfolded t]]
    define L where "L = (if orders \<and> rem > 0 then fill_limit_orders bin price y rem mm g else Inr (mm, g))"
    show ?thesis
    proof (cases L)
      case e: (Inl e)
      then have "\<exists>r. e = Fail r" using limit_orders_Inl [OF p, of bin y rem mm g e] by (simp add: L_def split: if_splits)
      then show ?thesis using first Inr t e by (auto simp: quoteBinExactInput_def L_def)
    next
      case cg: (Inr cg)
      obtain c gg where c: "cg = (c, gg)" by (cases cg)
      have depth: "uint (if y then AmountY bin else AmountX bin) \<le> bin_depth bin y orders"
        by (simp add: bin_depth_def)
      have facts: "fair_at y price (uint c) (uint gg)" "uint mm \<le> uint c" "uint c \<le> uint avail" "uint gg \<le> bin_depth bin y orders"
      proof -
        have "fair_at y price (uint c) (uint gg) \<and> uint mm \<le> uint c \<and> uint c \<le> uint avail \<and> uint gg \<le> bin_depth bin y orders"
        proof (cases "orders \<and> rem > 0")
          case True
          then have "fill_limit_orders bin price y rem mm g = Inr (c, gg)" using cg c by (simp add: L_def)
          note k = limit_orders [OF p this l(4)]
          have "uint gg \<le> bin_depth bin y orders"
            unfolding bin_depth_def using k(4) l(3) True by simp
          moreover have "uint c \<le> uint avail" using k(3) l(1) by linarith
          ultimately show ?thesis using k(1,2) by simp
        next
          case False
          then have "c = mm" "gg = g" using cg c by (simp_all add: L_def split: if_splits)
          then show ?thesis using l depth by simp
        qed
        then show "fair_at y price (uint c) (uint gg)" "uint mm \<le> uint c" "uint c \<le> uint avail"
          "uint gg \<le> bin_depth bin y orders" by blast+
      qed
      have run: "quoteBinExactInput amount bin price rate share y orders onIn =
         ebind (if onIn then
              (case feeFromExcludedAmount c rate of Inl _ \<Rightarrow> Inl (Fail ''amount=out_of_range'')
               | Inr fee \<Rightarrow> if u64_add_overflows c fee then Inl (Fail ''amount=out_of_range'') else Inr (c + fee, gg, fee))
            else ebind (feeFromIncludedAmount gg rate) (\<lambda>fee.
                if fee > gg then Inl (Fail ''fee=out_of_range'') else Inr (c, gg - fee, fee))) (\<lambda>(consumed, out, fee).
         ebind (splitProtocolFee fee share mm c) (\<lambda>protocolFee. Inr (consumed, out, fee, protocolFee)))"
        using first Inr t cg c by (simp add: quoteBinExactInput_def L_def)
      show ?thesis
      proof (cases onIn)
        case False
        obtain f where f: "feeFromIncludedAmount gg rate = Inr f" "uint f = cdiv (uint gg * uint rate) 1000000000" "uint f \<le> uint gg"
          using fee_included [of rate gg] rate by auto
        obtain q where q: "splitProtocolFee f share mm c = Inr q" "uint q \<le> uint f" using split_protocol [OF share facts(2)] by blast
        show ?thesis using run False f q facts av
          by (simp add: uint_less uint_sub_u64 uint_le Let_def f0(2))
      next
        case True
        show ?thesis
        proof (cases "2 ^ 64 \<le> cdiv (uint c * uint rate) (1000000000 - uint rate)")
          case big: True
          then show ?thesis using run True by (simp add: fee_excluded [OF rate])
        next
          case small: False
          define f where "f = u64_of (cdiv (uint c * uint rate) (1000000000 - uint rate))"
          have "0 \<le> cdiv (uint c * uint rate) (1000000000 - uint rate)" using rate by (intro cdiv_nonneg) simp_all
          then have uf: "uint f = cdiv (uint c * uint rate) (1000000000 - uint rate)"
            using small by (simp add: f_def uint_u64_of IsUint64_def)
          have le: "uint c + uint f \<le> uint amount"
            unfolding uf using rate facts(3) f0(2) av True by (intro fee_round_trip) simp_all
          then have no: "\<not> u64_add_overflows c f" using uint64_bounds [of amount] by (simp add: u64_add_overflows_iff)
          obtain q where q: "splitProtocolFee f share mm c = Inr q" "uint q \<le> uint f" using split_protocol [OF share facts(2)] by blast
          show ?thesis using run True small no le q facts uf av f0(2)
            by (simp add: fee_excluded [OF rate] f_def [symmetric] uint_add_u64 Let_def)
        qed
      qed
    qed
  qed
qed

section \<open>The rate\<close>

lemma widen32 [simp]: "uint (ucast (a :: u32) :: u64) = uint a"
  using uint_bounded [of a] by (simp add: unsigned_ucast_eq take_bit_int_eq_self)

lemma widen16 [simp]: "uint (ucast (a :: u16) :: u64) = uint a"
  using uint_bounded [of a] by (simp add: unsigned_ucast_eq take_bit_int_eq_self)

lemma narrow32: "v \<le> (ucast (m :: u32) :: u64) \<Longrightarrow> (ucast v :: u32) \<le> m"
proof -
  assume "v \<le> (ucast m :: u64)"
  then have "uint v \<le> uint m" by (simp add: word_le_def)
  moreover from this have "uint (ucast v :: u32) = uint v"
    using uint_bounded [of m] by (simp add: unsigned_ucast_eq take_bit_int_eq_self)
  ultimately show ?thesis by (simp add: word_le_def)
qed

lemma power_loop_eq:
  "0 < p \<Longrightarrow> power_loop k p =
     (if uint p * 10 ^ k < 2 ^ 64 then Inr (u64_of (uint p * 10 ^ k)) else Inl (Fail ''base_fee=out_of_range''))"
proof (induction k arbitrary: p)
  case 0
  then show ?case using uint64_bounds [of p] by (simp add: u64_of_def)
next
  case (Suc k)
  have top: "uint (NOT 0 div 10 :: u64) = 1844674407370955161" by code_simp
  show ?case
  proof (cases "p > NOT 0 div 10")
    case True
    then have "1844674407370955161 < uint p" using top by (simp only: uint_less)
    then have "2 ^ 64 \<le> uint p * 10" by simp
    also have "\<dots> \<le> uint p * 10 * 10 ^ k" using mult_left_mono [of 1 "10 ^ k" "uint p * 10"] by simp
    finally show ?thesis using True by simp
  next
    case False
    then have "uint p \<le> 1844674407370955161" using top by (simp only: uint_less not_less)
    then have u: "uint (p * 10) = uint p * 10" by (simp add: uint_word_ariths)
    then have "0 < p * 10" using Suc.prems by (simp add: uint_pos)
    from Suc.IH [OF this] show ?thesis using False u by (simp add: mult.assoc)
  qed
qed

lemma ten_power: "10 ^ k < (18446744073709551616 :: int) \<longleftrightarrow> k \<le> 19"
proof
  assume "k \<le> 19"
  then have "(10::int) ^ k \<le> 10 ^ 19" by (intro power_increasing) simp_all
  then show "10 ^ k < (18446744073709551616 :: int)" by simp
next
  assume *: "10 ^ k < (18446744073709551616 :: int)"
  show "k \<le> 19"
  proof (rule ccontr)
    assume "\<not> k \<le> 19"
    then have "(10::int) ^ 20 \<le> 10 ^ k" by (intro power_increasing) simp_all
    with * show False by simp
  qed
qed

definition fee_rate_spec :: "Pool \<Rightarrow> int" where
  "fee_rate_spec pool = min 100000000
     (uint (BaseFactor (Parameters pool)) * uint (BinStep pool) * 10 * 10 ^ unat (BaseFeePowerFactor (Parameters pool))
      + cdiv ((uint (VolatilityAccumulator (Variable pool)) * uint (BinStep pool))\<^sup>2
              * uint (VariableFeeControl (Parameters pool))) 100000000000)"

lemma fee_rate:
  "totalFeeRate pool =
     (if unat (BaseFeePowerFactor (Parameters pool)) \<le> 19 then Inr (u64_of (fee_rate_spec pool))
      else Inl (Fail ''base_fee=out_of_range''))"
proof (cases "unat (BaseFeePowerFactor (Parameters pool)) \<le> 19")
  case False
  then show ?thesis by (simp add: totalFeeRate_def power_loop_eq ten_power)
next
  case True
  let ?k = "unat (BaseFeePowerFactor (Parameters pool))"
  have pow: "power_loop ?k 1 = Inr (u64_of (10 ^ ?k))" "uint (u64_of (10 ^ ?k)) = 10 ^ ?k"
    using True ten_power [of ?k] by (simp_all add: power_loop_eq uint_u64_of IsUint64_def)
  let ?va = "VolatilityAccumulator (Variable pool)" and ?bs = "BinStep pool"
  have b: "0 \<le> uint ?va" "uint ?va < 2 ^ 32" "0 \<le> uint ?bs" "uint ?bs < 2 ^ 16"
    using uint_bounded [of ?va] uint_bounded [of ?bs] by simp_all
  have "uint ?va * uint ?bs < 2 ^ 32 * 2 ^ 16" using b by (intro mult_strict_mono) simp_all
  then have crossed: "uint ((ucast ?va :: u64) * ucast ?bs) = uint ?va * uint ?bs"
    using b by (simp add: uint_word_ariths)
  let ?n = "(uint ?va * uint ?bs)\<^sup>2 * uint (VariableFeeControl (Parameters pool))"
  have var: "(if VariableFeeControl (Parameters pool) > 0 then divCeil (uint ?va * uint ?bs * (uint ?va * uint ?bs)
      * uint (VariableFeeControl (Parameters pool))) 100000000000 else Inr 0) = Inr (cdiv ?n 100000000000)"
    by (cases "VariableFeeControl (Parameters pool) = 0") (simp_all add: divCeil_pos word_gt_0 power2_eq_square)
  define rate where "rate = uint (BaseFactor (Parameters pool)) * uint (BinStep pool) * 10 * 10 ^ ?k + cdiv ?n 100000000000"
  have run: "totalFeeRate pool = (if rate > uint maxFeeRate then Inr maxFeeRate
      else if \<not> IsUint64 rate then Inl (Fail ''fee_rate=out_of_range'') else Inr (u64_of rate))"
    unfolding totalFeeRate_def pow(1) ebind_simps Let_def pow(2) crossed var rate_def ..
  have "0 \<le> rate" by (simp add: rate_def cdiv_nonneg)
  moreover have "fee_rate_spec pool = min 100000000 rate" by (simp add: fee_rate_spec_def rate_def)
  moreover have "maxFeeRate = u64_of 100000000" by (simp add: maxFeeRate_def u64_of_def)
  ultimately show ?thesis using run True by (simp add: IsUint64_def min_def)
qed

lemma fee_rate_bound: "totalFeeRate pool = Inr r \<Longrightarrow> uint r \<le> 100000000"
proof -
  assume "totalFeeRate pool = Inr r"
  then have r: "r = u64_of (fee_rate_spec pool)" by (simp add: fee_rate split: if_splits)
  have "0 \<le> fee_rate_spec pool" "fee_rate_spec pool \<le> 100000000" by (simp_all add: fee_rate_spec_def cdiv_nonneg)
  then show ?thesis by (simp add: r uint_u64_of IsUint64_def)
qed

lemma volatility_bound:
  "VolatilityAccumulator (Variable (updateVolatilityAccumulator pool)) \<le> MaxVolatilityAccumulator (Parameters pool)"
proof -
  show ?thesis by (auto simp: updateVolatilityAccumulator_def Let_def not_less intro: narrow32)
qed

section \<open>Dust\<close>

lemma dust:
  assumes p: "0 < price" and rate: "0 < uint rate" "uint rate < 1000000000" and share: "uint share \<le> 10000"
  shows "case quoteBinExactInput 1 b price rate share y orders True of
      Inl e \<Rightarrow> \<exists>r. e = Fail r | Inr (consumed, out, fee, prot) \<Rightarrow> consumed = 0 \<and> out = 0 \<and> fee = 0 \<and> prot = 0"
proof (cases "quoteBinExactInput 1 b price rate share y orders True")
  case (Inl e)
  then show ?thesis using quote_bin [OF p rate(2) share, where amount = 1 and bin = b and y = y and orders = orders and onIn = True] by simp
next
  case (Inr t)
  obtain c o1 f q where t: "t = (c, o1, f, q)" by (cases t)
  have one: "cdiv (uint rate) 1000000000 = 1"
    using rate by (simp add: order_eq_iff cdiv_le_iff) (use less_cdiv_iff [of 1000000000 0 "uint rate"] in simp)
  define paid where "paid = uint c - uint f"
  have facts: "uint q \<le> uint f" "0 \<le> paid" "paid \<le> 0" "fair_at y price paid (uint o1)"
    "uint f = cdiv (paid * uint rate) (1000000000 - uint rate)"
    using quote_bin [OF p rate(2) share, where amount = 1 and bin = b and y = y and orders = orders and onIn = True] Inr t one by (simp_all add: paid_def Let_def)
  then have z: "paid = 0" by simp
  then have f: "uint f = 0" using facts(5) by simp
  moreover have "uint c = 0" using z f by (simp add: paid_def)
  moreover have "uint q = 0" using facts(1) f uint64_bounds(1) [of q] by linarith
  moreover have "uint o1 = 0"
  proof -
    have "uint o1 \<le> 0" using facts(4) z p by (cases y) (simp_all add: fair_at_def mult_le_0_iff)
    then show ?thesis using uint64_bounds(1) [of o1] by linarith
  qed
  ultimately show ?thesis using Inr t by (simp add: uint_0_iff)
qed

section \<open>Properties\<close>

text \<open>
  The fee rate (\<open>totalFeeRate\<close>): the sum of the base fee and the variable fee, rounded up, and at
  most ten percent. It fails exactly when the power of ten of the base fee does not fit 64 bits; no other
  intermediate value wraps.
\<close>

lemma totalFeeRate_correct:
  "totalFeeRate pool =
     (if unat (BaseFeePowerFactor (Parameters pool)) \<le> 19
      then Inr (u64_of (min 100000000
        (uint (BaseFactor (Parameters pool)) * uint (BinStep pool) * 10 * 10 ^ unat (BaseFeePowerFactor (Parameters pool))
         + cdiv ((uint (VolatilityAccumulator (Variable pool)) * uint (BinStep pool))\<^sup>2
                 * uint (VariableFeeControl (Parameters pool))) 100000000000)))
      else Inl (Fail ''base_fee=out_of_range''))"
  using fee_rate [of pool] unfolding fee_rate_spec_def .

text \<open>
  C19. The exchange in a bin (\<open>quoteBinExactInput\<close>), at any positive price, any rate below one and any share of
  the protocol up to one: it never panics; it consumes at most the amount, gives at most the bin's liquidity and
  limit orders, and never more than the price is worth; the fee is exactly the rate of what was
  exchanged, rounded up, taken from the output or added to the input; the protocol's
  part never exceeds it.
\<close>

theorem quoteBinExactInput_correct:
  assumes "0 < price" and "uint rate < 1000000000" and "uint share \<le> 10000"
  shows "case quoteBinExactInput amount bin price rate share y orders onIn of
      Inl e \<Rightarrow> \<exists>r. e = Fail r
    | Inr (consumed, out, fee, prot) \<Rightarrow>
        uint consumed \<le> uint amount \<and> uint prot \<le> uint fee
        \<and> (let paid = uint consumed - (if onIn then uint fee else 0); got = uint out + (if onIn then 0 else uint fee)
           in 0 \<le> paid \<and> (if y then got * 2 ^ 64 \<le> paid * price else got * price \<le> paid * 2 ^ 64)
              \<and> got \<le> bin_depth bin y orders
              \<and> uint fee = (if onIn then cdiv (paid * uint rate) (1000000000 - uint rate)
                            else cdiv (got * uint rate) 1000000000))"
  using quote_bin [OF assms, where amount = amount and bin = bin and y = y and orders = orders and onIn = onIn]
  by (auto simp: fair_at_def Let_def split: sum.splits)

definition sample_bin :: Bin where
  "sample_bin = \<lparr>AmountX = 1000000, AmountY = 1000000, bin_price = le_bytes 16 (2 ^ 64), LiquiditySupply = [],
     FulfilledOrderAmountX = 0, FulfilledOrderAmountY = 0, LimitOrderFeeAskSide = 0, LimitOrderFeeBidSide = 0,
     FeeAmountXPerTokenStored = [], FeeAmountYPerTokenStored = [], OpenOrderAmount = 500, TotalProcessingOrderAmount = 0,
     ProcessedOrderRemainingAmount = 0, OrderAge = 0, LimitOrderAskSide = 0\<rparr>"

theorem quoteBinExactInput_correct_witness:
  "quoteBinExactInput 1001 sample_bin (2 ^ 64) 1000000 2500 True True True = Inr (1000, 999, 1, 0)
   \<and> (999::int) * 2 ^ 64 \<le> (1000 - 1) * 2 ^ 64"
proof -
  have run: "quoteBinExactInput 1001 sample_bin (2 ^ 64) 1000000 2500 True True True = Inr (1000, 999, 1, 0)"
    by code_simp
  then show ?thesis
    using quoteBinExactInput_correct [where price = "2 ^ 64" and rate = 1000000 and share = 2500 and amount = 1001
        and bin = sample_bin and y = True and orders = True and onIn = True]
    by simp
qed

text \<open>
  Dust: with a fee on the input, a bin consumes nothing of an amount of one unit. Since a bin may
  leave one unit unspent even when it is far from empty (as the witness of the previous property does with 1001
  units at a rate of 0.1 percent), the walk over the bins then runs through all remaining bins
  without spending it.
\<close>

lemma quoteBinExactInput_dust:
  assumes "0 < price" and "0 < uint rate" and "uint rate < 1000000000" and "uint share \<le> 10000"
  shows "case quoteBinExactInput 1 b price rate share y orders True of
      Inl e \<Rightarrow> \<exists>r. e = Fail r | Inr (consumed, out, fee, prot) \<Rightarrow> consumed = 0 \<and> out = 0 \<and> fee = 0 \<and> prot = 0"
  using dust [OF assms] .

lemma quoteBinExactInput_dust_witness:
  "quoteBinExactInput 1 sample_bin (2 ^ 64) 1000000 2500 True True True = Inr (0, 0, 0, 0)"
proof -
  have "\<not> isl (quoteBinExactInput 1 sample_bin (2 ^ 64) 1000000 2500 True True True)" by code_simp
  then show ?thesis
    using quoteBinExactInput_dust [where price = "2 ^ 64" and rate = 1000000 and share = 2500
        and b = sample_bin and y = True and orders = True]
    by (auto split: sum.splits prod.splits)
qed

end
