(* ===== verification/DLMM_Client.thy ===== *)
theory DLMM_Client
  imports DLMM_Math
begin

text \<open>
  \<open>go/solana/meteora/dlmm/client.go\<close>: decoding of pools and bin arrays, the search for initialized arrays,
  the clock, and the simulation of an exact input swap from bin to bin (\<open>quoteExactInput\<close>).
  The account provider and \<open>FindProgramAddress\<close> of the Solana SDK are parameters.
\<close>

section \<open>Accounts\<close>

record BinArray =
  array_address :: address
  Index :: int
  array_version :: u8
  array_pool :: address
  Bins :: "Bin list"

record Quote =
  quote_pool :: address
  InputMint :: address
  OutputMint :: address
  AmountIn :: u64
  AmountOut :: u64
  TradeFee :: u64
  ProtocolFee :: u64
  EndActiveBin :: int
  BinArraysUsed :: nat

record clockState =
  clock_slot :: u64
  timestamp :: int

definition binArraySize :: int where "binArraySize = 70"
definition bitmapCenter :: int where "bitmapCenter = 512"

definition lbPairDiscriminator :: bytes where
  "lbPairDiscriminator = [33, 11, 49, 98, 181, 101, 177, 13]"

definition binArrayDiscriminator :: bytes where
  "binArrayDiscriminator = [92, 142, 92, 220, 5, 148, 70, 181]"

definition decodePool :: "address \<Rightarrow> bytes \<Rightarrow> Pool qres" where
  "decodePool a data =
     (if length data \<noteq> 904 then reject ''data_length=invalid''
      else if take 8 data \<noteq> lbPairDiscriminator then reject ''discriminator=invalid''
      else
        (let p = \<lparr>BaseFactor = read_u16 data 8, FilterPeriod = read_u16 data 10, DecayPeriod = read_u16 data 12,
               ReductionFactor = read_u16 data 14, VariableFeeControl = read_u32 data 16,
               MaxVolatilityAccumulator = read_u32 data 20, MinBinID = read_i32 data 24, MaxBinID = read_i32 data 28,
               ProtocolShare = read_u16 data 32, BaseFeePowerFactor = data ! 34, FunctionType = data ! 35,
               CollectFeeMode = data ! 36\<rparr>;
             v = \<lparr>VolatilityAccumulator = read_u32 data 40, VolatilityReference = read_u32 data 44,
               IndexReference = read_i32 data 48, LastUpdateTimestamp = read_i64 data 56\<rparr>;
             pool = \<lparr>Address = a, Parameters = p, Variable = v, PairType = data ! 75, ActiveBinID = read_i32 data 76,
               BinStep = read_u16 data 80, Status = data ! 82, ActivationType = data ! 86,
               TokenXMint = slice data 88 120, TokenYMint = slice data 120 152, ReserveX = slice data 152 184,
               ReserveY = slice data 184 216, Oracle = slice data 552 584,
               RewardMints = [slice data 280 312, slice data 416 448],
               BinArrayBitmap = map (\<lambda>i. read_u64 data (584 + i * 8)) [0..<16],
               LastUpdatedAt = read_i64 data 712, ActivationPoint = read_u64 data 816,
               PreActivationDuration = read_u64 data 824, Creator = slice data 848 880,
               TokenXProgramFlag = data ! 880, TokenYProgramFlag = data ! 881, Version = data ! 882\<rparr>
         in if IsZero (TokenXMint pool) \<or> IsZero (TokenYMint pool) \<or> IsZero (ReserveX pool) \<or> IsZero (ReserveY pool)
            then reject ''required_address=empty''
            else if BinStep pool = 0 then reject ''bin_step=empty''
            else if ActiveBinID pool < MinBinID p \<or> ActiveBinID pool > MaxBinID p then reject ''active_bin_id=out_of_range''
            else if Status pool > 1 \<or> PairType pool > 3 \<or> ActivationType pool > 1 \<or> FunctionType p > 2
                 \<or> CollectFeeMode p > 1 \<or> TokenXProgramFlag pool > 1 \<or> TokenYProgramFlag pool > 1
            then reject ''enum_value=invalid''
            else if ProtocolShare p > 2500 then reject ''protocol_share=out_of_range''
            else Inr pool))"

definition decodeBin :: "bytes \<Rightarrow> nat \<Rightarrow> Bin" where
  "decodeBin data i =
     (let offset = 56 + i * 144
      in \<lparr>AmountX = read_u64 data offset, AmountY = read_u64 data (offset + 8),
          bin_price = slice data (offset + 16) (offset + 32), LiquiditySupply = slice data (offset + 32) (offset + 48),
          FulfilledOrderAmountX = read_u64 data (offset + 48), FulfilledOrderAmountY = read_u64 data (offset + 56),
          LimitOrderFeeAskSide = read_u64 data (offset + 64), LimitOrderFeeBidSide = read_u64 data (offset + 72),
          FeeAmountXPerTokenStored = slice data (offset + 80) (offset + 96),
          FeeAmountYPerTokenStored = slice data (offset + 96) (offset + 112),
          OpenOrderAmount = read_u64 data (offset + 112), TotalProcessingOrderAmount = read_u64 data (offset + 120),
          ProcessedOrderRemainingAmount = read_u64 data (offset + 128), OrderAge = read_u32 data (offset + 136),
          LimitOrderAskSide = data ! (offset + 140)\<rparr>)"

definition decodeBinArray :: "address \<Rightarrow> bytes \<Rightarrow> BinArray qres" where
  "decodeBinArray a data =
     (if length data \<noteq> 10136 then reject ''data_length=invalid''
      else if take 8 data \<noteq> binArrayDiscriminator then reject ''discriminator=invalid''
      else Inr \<lparr>array_address = a, Index = read_i64 data 8, array_version = data ! 16, array_pool = slice data 24 56,
                Bins = map (decodeBin data) [0..<70]\<rparr>)"

type_synonym finder = "bytes list \<Rightarrow> address \<Rightarrow> address res"

definition binArrayAddress :: "finder \<Rightarrow> address \<Rightarrow> address \<Rightarrow> int \<Rightarrow> address qres" where
  "binArrayAddress derive programID poolAddress index =
     own (derive [map (\<lambda>c. of_nat (of_char c)) ''bin_array'', poolAddress, le_bytes 8 (index mod 2 ^ 64)] programID)"

definition readBinArray :: "finder \<Rightarrow> accounts \<Rightarrow> address \<Rightarrow> Pool \<Rightarrow> int \<Rightarrow> BinArray qres" where
  "readBinArray derive accounts programID pool index =
     ebind (binArrayAddress derive programID (Address pool) index) (\<lambda>a.
     ebind (accounts a) (\<lambda>account.
     case account of None \<Rightarrow> reject ''bin_array_account=invalid''
     | Some account \<Rightarrow>
         if Owner account \<noteq> programID then reject ''bin_array_account=invalid''
         else ebind (decodeBinArray a (Data account)) (\<lambda>binArray.
           if array_pool binArray \<noteq> Address pool \<or> Index binArray \<noteq> index
           then reject ''bin_array_identity=invalid'' else Inr binArray)))"

definition refreshPool :: "accounts \<Rightarrow> address \<Rightarrow> Pool \<Rightarrow> Pool qres" where
  "refreshPool accounts programID configured =
     ebind (accounts (Address configured)) (\<lambda>account.
     case account of None \<Rightarrow> reject ''pool_account=invalid''
     | Some account \<Rightarrow>
         if Owner account \<noteq> programID then reject ''pool_account=invalid''
         else ebind (decodePool (Address configured) (Data account)) (\<lambda>pool.
           if TokenXMint pool \<noteq> TokenXMint configured \<or> TokenYMint pool \<noteq> TokenYMint configured
           then reject ''pool_identity=invalid'' else Inr pool))"

definition clock :: "accounts \<Rightarrow> address \<Rightarrow> clockState qres" where
  "clock accounts clockSysvarAddress =
     ebind (accounts clockSysvarAddress) (\<lambda>account.
     case account of None \<Rightarrow> reject ''clock_account=null''
     | Some account \<Rightarrow>
         if length (Data account) < 40 then reject ''data_length=too_short''
         else Inr \<lparr>clock_slot = read_u64 (Data account) 0, timestamp = read_i64 (Data account) 32\<rparr>)"

section \<open>Arrays in the direction of the swap\<close>

definition floorDiv :: "int \<Rightarrow> int \<Rightarrow> int" where
  "floorDiv v divisor = go_floor_div v divisor"

function index_walk :: "u64 list \<Rightarrow> bool \<Rightarrow> nat \<Rightarrow> int \<Rightarrow> int list \<Rightarrow> int list" where
  "index_walk bitmap swapForY limit position result =
     (if 0 \<le> position \<and> position < 1024 \<and> length result < limit then
        index_walk bitmap swapForY limit (if swapForY then position - 1 else position + 1)
          (if bit (bitmap ! nat (position div 64)) (nat (position mod 64)) then result @ [position - bitmapCenter] else result)
      else result)"
  by pat_completeness auto
termination
  by (relation "measure (\<lambda>(_, y, _, position, _). nat (if y then position + 1 else 1024 - position))") auto

declare index_walk.simps [simp del]

definition initializedBinArrayIndexes :: "Pool \<Rightarrow> bool \<Rightarrow> nat \<Rightarrow> int list" where
  "initializedBinArrayIndexes pool swapForY limit =
     index_walk (BinArrayBitmap pool) swapForY limit (floorDiv (ActiveBinID pool) binArraySize + bitmapCenter) []"

fun read_arrays :: "(int \<Rightarrow> BinArray qres) \<Rightarrow> int list \<Rightarrow> BinArray list qres" where
  "read_arrays arrays [] = Inr []"
| "read_arrays arrays (i # is) = ebind (arrays i) (\<lambda>a. ebind (read_arrays arrays is) (\<lambda>as. Inr (a # as)))"

definition BinArraysForQuote :: "finder \<Rightarrow> accounts \<Rightarrow> address \<Rightarrow> Pool option \<Rightarrow> address \<Rightarrow> int \<Rightarrow> BinArray list qres" where
  "BinArraysForQuote derive accounts programID configured inputMint limit =
     (case configured of None \<Rightarrow> reject ''pool=invalid''
      | Some configured \<Rightarrow>
          if limit \<le> 0 then reject ''limit=out_of_range''
          else ebind (refreshPool accounts programID configured) (\<lambda>pool.
            let swapForY = (inputMint = TokenXMint pool)
            in if \<not> swapForY \<and> inputMint \<noteq> TokenYMint pool then reject ''input_mint=invalid''
               else read_arrays (readBinArray derive accounts programID pool)
                      (initializedBinArrayIndexes pool swapForY (nat limit))))"

section \<open>The swap\<close>

record walk =
  wpool :: Pool
  remaining :: u64
  amountOut :: u64
  tradeFee :: u64
  protocolFee :: u64

text \<open>One bin: its exchange at the rate of the volatility reached, added to the totals.\<close>

definition visit_bin :: "bool \<Rightarrow> bool \<Rightarrow> bool \<Rightarrow> Bin \<Rightarrow> walk \<Rightarrow> walk qres" where
  "visit_bin swapForY supportLimitOrder feeOnInput bin w =
     (if binMaxOutput bin swapForY supportLimitOrder > 0 then
        (let price = uint128LE (bin_price bin)
         in if price = 0 then reject ''stored_bin_price=empty''
            else
              (let pool = updateVolatilityAccumulator (wpool w)
               in ebind (own (totalFeeRate pool)) (\<lambda>feeRate.
                  ebind (own (quoteBinExactInput (remaining w) bin price feeRate (ProtocolShare (Parameters pool))
                                swapForY supportLimitOrder feeOnInput)) (\<lambda>(consumed, output, fee, protocolDelta).
                  if consumed > remaining w \<or> u64_add_overflows (amountOut w) output \<or> u64_add_overflows (tradeFee w) fee
                  then reject ''amount=out_of_range''
                  else if u64_add_overflows (protocolFee w) protocolDelta then reject ''protocol_fee=out_of_range''
                  else Inr \<lparr>wpool = pool, remaining = remaining w - consumed, amountOut = amountOut w + output,
                            tradeFee = tradeFee w + fee, protocolFee = protocolFee w + protocolDelta\<rparr>))))
      else Inr w)"

definition move_on :: "bool \<Rightarrow> walk \<Rightarrow> walk" where
  "move_on swapForY w =
     (if remaining w > 0
      then w\<lparr>wpool := (wpool w)\<lparr>ActiveBinID := i32 (if swapForY then ActiveBinID (wpool w) - 1 else ActiveBinID (wpool w) + 1)\<rparr>\<rparr>
      else w)"

definition lowerBinID :: "BinArray \<Rightarrow> int" where
  "lowerBinID array = i32 (i32 (Index array) * binArraySize)"

definition upperBinID :: "BinArray \<Rightarrow> int" where
  "upperBinID array = i32 (i32 (lowerBinID array + binArraySize) - 1)"

lemma visit_bin_active: "visit_bin y orders onIn bin w = Inr w' \<Longrightarrow> ActiveBinID (wpool w') = ActiveBinID (wpool w)"
  by (auto simp: visit_bin_def updateVolatilityAccumulator_def Let_def split: if_splits)

definition bins_left :: "bool \<Rightarrow> BinArray \<Rightarrow> walk \<Rightarrow> nat" where
  "bins_left y array w =
     (if ActiveBinID (wpool w) \<ge> lowerBinID array \<and> ActiveBinID (wpool w) \<le> upperBinID array \<and> remaining w > 0
      then nat (if y then ActiveBinID (wpool w) - lowerBinID array + 1 else upperBinID array - ActiveBinID (wpool w) + 1) else 0)"

lemma upper_of_lowest: "lowerBinID array = - (2 ^ 31) \<Longrightarrow> upperBinID array = - (2 ^ 31) + 69"
  by (simp add: upperBinID_def binArraySize_def)

lemma bins_left_less:
  assumes a: "ActiveBinID (wpool w) \<ge> lowerBinID array" "ActiveBinID (wpool w) \<le> upperBinID array" "remaining w > 0"
    and run: "visit_bin y orders onIn bin w = Inr w'"
  shows "bins_left y array (move_on y w') < bins_left y array w"
proof -
  let ?a = "ActiveBinID (wpool w)" and ?l = "lowerBinID array" and ?u = "upperBinID array"
  have range: "- 2147483648 \<le> ?l" "?l < 2147483648" "?u < 2147483648" "- 2147483648 \<le> ?u"
    by (simp_all add: lowerBinID_def upperBinID_def i32_range)
  have now: "bins_left y array w = nat (if y then ?a - ?l + 1 else ?u - ?a + 1)" "0 < bins_left y array w"
    using a by (simp_all add: bins_left_def)
  show ?thesis
  proof (cases "remaining w' = 0")
    case True
    then show ?thesis using now(2) by (simp add: bins_left_def move_on_def)
  next
    case False
    let ?b = "i32 (if y then ?a - 1 else ?a + 1)"
    have moved: "ActiveBinID (wpool (move_on y w')) = ?b" "remaining (move_on y w') = remaining w'"
      using False visit_bin_active [OF run] by (simp_all add: move_on_def word_gt_0)
    have "?b = (if y then ?a - 1 else ?a + 1) \<or> \<not> (?l \<le> ?b \<and> ?b \<le> ?u)"
    proof (cases "- 2147483648 \<le> (if y then ?a - 1 else ?a + 1) \<and> (if y then ?a - 1 else ?a + 1) < 2147483648")
      case True
      then show ?thesis by simp
    next
      case wrap: False
      show ?thesis
      proof (cases y)
        case True
        then have "?a = - 2147483648" "?l = - (2 ^ 31)" using wrap a range by auto
        then show ?thesis using True upper_of_lowest by (simp add: i32_def)
      next
        case False
        then have "?a = 2147483647" "?u = 2147483647" using wrap a range by auto
        moreover from this have "?l \<noteq> - 2147483648" using upper_of_lowest [of array] by auto
        ultimately show ?thesis using False range by (simp add: i32_def)
      qed
    qed
    then show ?thesis using moved now a by (auto simp: bins_left_def)
  qed
qed

function walk_bins :: "bool \<Rightarrow> bool \<Rightarrow> bool \<Rightarrow> BinArray \<Rightarrow> walk \<Rightarrow> walk qres" where
  "walk_bins swapForY supportLimitOrder feeOnInput array w =
     (if ActiveBinID (wpool w) \<ge> lowerBinID array \<and> ActiveBinID (wpool w) \<le> upperBinID array \<and> remaining w > 0 then
        ebind (visit_bin swapForY supportLimitOrder feeOnInput (Bins array ! nat (ActiveBinID (wpool w) - lowerBinID array)) w)
          (\<lambda>w. walk_bins swapForY supportLimitOrder feeOnInput array (move_on swapForY w))
      else Inr w)"
  by pat_completeness auto
termination by (relation "measure (\<lambda>(y, _, _, array, w). bins_left y array w)") (auto intro: bins_left_less)

declare walk_bins.simps [simp del]

text \<open>
  All arrays, as many as listed. Entering an array that does not hold the active bin, the walk starts at its
  near end.
\<close>

definition enter_array :: "bool \<Rightarrow> BinArray \<Rightarrow> walk \<Rightarrow> walk" where
  "enter_array swapForY array w =
     (if ActiveBinID (wpool w) < lowerBinID array \<or> ActiveBinID (wpool w) > upperBinID array
      then w\<lparr>wpool := (wpool w)\<lparr>ActiveBinID := if swapForY then upperBinID array else lowerBinID array\<rparr>\<rparr>
      else w)"

definition bitmap_extension :: "Pool \<Rightarrow> bool \<Rightarrow> bool" where
  "bitmap_extension pool swapForY \<longleftrightarrow>
     (swapForY \<and> floorDiv (MinBinID (Parameters pool)) binArraySize < - bitmapCenter)
     \<or> (\<not> swapForY \<and> floorDiv (MaxBinID (Parameters pool)) binArraySize \<ge> bitmapCenter)"

fun walk_arrays :: "(int \<Rightarrow> BinArray qres) \<Rightarrow> bool \<Rightarrow> bool \<Rightarrow> bool \<Rightarrow> int list \<Rightarrow> nat \<Rightarrow> walk \<Rightarrow> (walk \<times> nat) qres" where
  "walk_arrays arrays swapForY supportLimitOrder feeOnInput [] used w =
     (if bitmap_extension (wpool w) swapForY then reject ''bitmap_extension=required''
      else Inl (Rejected (Sentinel ''ErrQuoteArrayRange'')))"
| "walk_arrays arrays swapForY supportLimitOrder feeOnInput (start # starts) used w =
     ebind (arrays start) (\<lambda>array.
     ebind (walk_bins swapForY supportLimitOrder feeOnInput array (enter_array swapForY array w)) (\<lambda>w.
     if remaining w = 0 then Inr (w, used + 1)
     else walk_arrays arrays swapForY supportLimitOrder feeOnInput starts (used + 1) w))"

text \<open>Trading has not started yet.\<close>

definition pending :: "Pool \<Rightarrow> clockState \<Rightarrow> bool" where
  "pending pool c \<longleftrightarrow>
     (PairType pool = 1 \<or> PairType pool = 2)
     \<and> ((ActivationType pool = 0 \<and> clock_slot c < ActivationPoint pool)
        \<or> (ActivationType pool = 1 \<and> word_of_int (timestamp c) < ActivationPoint pool))"

text \<open>The part of \<open>quoteExactInput\<close> after the clock.\<close>

definition quote_pool_state :: "(int \<Rightarrow> BinArray qres) \<Rightarrow> Pool \<Rightarrow> clockState \<Rightarrow> bool \<Rightarrow> address \<Rightarrow> u64 \<Rightarrow> Quote qres" where
  "quote_pool_state arrays pool c swapForY inputMint amountIn =
     (if timestamp c < 0 then reject ''clock_timestamp=out_of_range''
      else if pending pool c then reject ''pool_activation=pending''
      else if PairType pool > 3 \<or> ActivationType pool > 1 then reject ''pool_configuration=invalid''
      else
        ebind (own (updateFeeReferences pool (timestamp c))) (\<lambda>pool.
        let starts = initializedBinArrayIndexes pool swapForY 16;
            feeOnInput = (CollectFeeMode (Parameters pool) = 0 \<or> \<not> swapForY)
        in ebind (walk_arrays arrays swapForY (poolSupportsLimitOrders pool) feeOnInput starts 0
                   \<lparr>wpool = pool, remaining = amountIn, amountOut = 0, tradeFee = 0, protocolFee = 0\<rparr>) (\<lambda>(w, used).
           Inr \<lparr>quote_pool = Address pool, InputMint = inputMint,
                OutputMint = (if swapForY then TokenYMint pool else TokenXMint pool), AmountIn = amountIn,
                AmountOut = amountOut w, TradeFee = tradeFee w, ProtocolFee = protocolFee w,
                EndActiveBin = ActiveBinID (wpool w), BinArraysUsed = used\<rparr>)))"

definition quoteExactInput ::
    "finder \<Rightarrow> accounts \<Rightarrow> address \<Rightarrow> address \<Rightarrow> Pool option \<Rightarrow> address \<Rightarrow> u64 \<Rightarrow> Quote qres" where
  "quoteExactInput derive accounts clockSysvarAddress programID configured inputMint amountIn =
     (if amountIn = 0 then reject ''amount_in=empty''
      else case configured of None \<Rightarrow> reject ''pool=invalid''
      | Some configured \<Rightarrow>
          ebind (refreshPool accounts programID configured) (\<lambda>pool.
          if Status pool \<noteq> 0 then reject ''pool_status=invalid''
          else if TokenXProgramFlag pool \<noteq> 0 \<or> TokenYProgramFlag pool \<noteq> 0 then reject ''token_2022=unsupported''
          else if CollectFeeMode (Parameters pool) > 1 then reject ''collect_fee_mode=invalid''
          else
            (let swapForY = (inputMint = TokenXMint pool)
             in if \<not> swapForY \<and> inputMint \<noteq> TokenYMint pool then reject ''input_mint=invalid''
                else ebind (clock accounts clockSysvarAddress) (\<lambda>c.
                  quote_pool_state (readBinArray derive accounts programID pool) pool c swapForY inputMint amountIn))))"

section \<open>What the walk keeps\<close>

definition no_panic :: "quote_error \<Rightarrow> bool" where
  "no_panic e \<longleftrightarrow> (case e of Rejected (Panic _) \<Rightarrow> False | _ \<Rightarrow> True)"

text \<open>
  The books of the walk: what was paid for the output, fees on the input left out, and what was got, fees on
  the output included, are at best worth the price \<open>P\<close>.
\<close>

definition paid_for :: "bool \<Rightarrow> u64 \<Rightarrow> walk \<Rightarrow> int" where
  "paid_for onIn amount w = uint amount - uint (remaining w) - (if onIn then uint (tradeFee w) else 0)"

definition got_for :: "bool \<Rightarrow> walk \<Rightarrow> int" where
  "got_for onIn w = uint (amountOut w) + (if onIn then 0 else uint (tradeFee w))"

definition books :: "bool \<Rightarrow> bool \<Rightarrow> int \<Rightarrow> u64 \<Rightarrow> walk \<Rightarrow> bool" where
  "books y onIn P amount w \<longleftrightarrow>
     0 \<le> paid_for onIn amount w \<and> uint (protocolFee w) \<le> uint (tradeFee w)
     \<and> fair_at y P (paid_for onIn amount w) (got_for onIn w)
     \<and> uint (ProtocolShare (Parameters (wpool w))) \<le> 10000"

definition price_bound :: "bool \<Rightarrow> int \<Rightarrow> Bin \<Rightarrow> bool" where
  "price_bound y P b \<longleftrightarrow> (if y then uint128LE (bin_price b) \<le> P else P \<le> uint128LE (bin_price b))"

definition array_bound :: "bool \<Rightarrow> int \<Rightarrow> BinArray \<Rightarrow> bool" where
  "array_bound y P a \<longleftrightarrow> length (Bins a) = 70 \<and> list_all (price_bound y P) (Bins a)"

lemma fair_at_bound:
  assumes "fair_at y p i out" "0 \<le> i" "0 \<le> out" "if y then p \<le> P else P \<le> p"
  shows "fair_at y P i out"
  using assms mult_left_mono [of p P i] mult_left_mono [of P p out]
  by (auto simp: fair_at_def split: if_splits)

lemma uint128LE_nonneg: "0 \<le> uint128LE v"
  by (simp add: uint128LE_def be_int_bounds)

lemma books_active [simp]:
  "books y onIn P amount (w\<lparr>wpool := (wpool w)\<lparr>ActiveBinID := k\<rparr>\<rparr>) = books y onIn P amount w"
  by (simp add: books_def paid_for_def got_for_def)

lemma books_move [simp]: "books y onIn P amount (move_on y w) = books y onIn P amount w"
  by (simp add: move_on_def)

lemma books_enter [simp]: "books y onIn P amount (enter_array y a w) = books y onIn P amount w"
  by (simp add: enter_array_def)

lemma visit_bin_books:
  assumes b: "books y onIn P amount w" and bound: "price_bound y P bin"
  shows "case visit_bin y orders onIn bin w of Inl e \<Rightarrow> no_panic e | Inr w' \<Rightarrow> books y onIn P amount w'"
proof (cases "binMaxOutput bin y orders > 0 \<and> uint128LE (bin_price bin) \<noteq> 0")
  case False
  then show ?thesis using b by (auto simp: visit_bin_def no_panic_def)
next
  case True
  let ?p = "uint128LE (bin_price bin)" and ?pool = "updateVolatilityAccumulator (wpool w)"
  have p: "0 < ?p" using True uint128LE_nonneg [of "bin_price bin"] by simp
  have par: "Parameters ?pool = Parameters (wpool w)" by (simp add: updateVolatilityAccumulator_def Let_def)
  show ?thesis
  proof (cases "totalFeeRate ?pool")
    case (Inl e)
    then have "e = Fail ''base_fee=out_of_range''" by (simp add: fee_rate split: if_splits)
    then show ?thesis using True Inl by (simp add: visit_bin_def Let_def no_panic_def)
  next
    case rate: (Inr r)
    have r: "uint r < 1000000000" using fee_rate_bound [OF rate] by simp
    have share: "uint (ProtocolShare (Parameters ?pool)) \<le> 10000" using b par by (simp add: books_def)
    note q = quote_bin [OF p r share, where amount = "remaining w" and bin = bin and y = y and orders = orders and onIn = onIn]
    show ?thesis
    proof (cases "quoteBinExactInput (remaining w) bin ?p r (ProtocolShare (Parameters ?pool)) y orders onIn")
      case (Inl e)
      then show ?thesis using True rate q by (auto simp: visit_bin_def Let_def no_panic_def)
    next
      case (Inr t)
      obtain c o1 f g where t: "t = (c, o1, f, g)" by (cases t)
      define i where "i = uint c - (if onIn then uint f else 0)"
      define got where "got = uint o1 + (if onIn then 0 else uint f)"
      have facts: "uint c \<le> uint (remaining w)" "uint g \<le> uint f" "0 \<le> i" "fair_at y ?p i got"
      proof -
        note q' = q [unfolded Inr t sum.case prod.case Let_def, folded i_def got_def]
        show "uint c \<le> uint (remaining w)" using q' by (elim conjE) assumption
        show "uint g \<le> uint f" using q' by (elim conjE) assumption
        show "0 \<le> i" using q' by (elim conjE) assumption
        show "fair_at y ?p i got" using q' by (elim conjE) assumption
      qed
      have "fair_at y P i got" 
        using bound by (intro fair_at_bound [OF facts(4,3)]) (simp_all add: got_def price_bound_def)
      moreover note b [unfolded books_def]
      ultimately have sum: "fair_at y P (paid_for onIn amount w + i) (got_for onIn w + got)" "0 \<le> paid_for onIn amount w + i"
        using fair_at_add facts(3) by auto
      have "books y onIn P amount \<lparr>wpool = ?pool, remaining = remaining w - c, amountOut = amountOut w + o1,
          tradeFee = tradeFee w + f, protocolFee = protocolFee w + g\<rparr>" (is "books y onIn P amount ?w")
        if "\<not> u64_add_overflows (amountOut w) o1" "\<not> u64_add_overflows (tradeFee w) f" "\<not> u64_add_overflows (protocolFee w) g"
      proof -
        have "paid_for onIn amount ?w = paid_for onIn amount w + i" "got_for onIn ?w = got_for onIn w + got"
          using that facts(1) by (simp_all add: paid_for_def got_for_def i_def got_def uint_add_u64 uint_sub_u64 uint_le)
        then show ?thesis using sum that facts(2) b par by (simp add: books_def uint_add_u64)
      qed
      then show ?thesis using True rate Inr t by (simp add: visit_bin_def Let_def no_panic_def)
    qed
  qed
qed

lemma upper_le: "upperBinID array \<le> lowerBinID array + 69"
proof -
  let ?l = "lowerBinID array"
  have l: "- 2147483648 \<le> ?l" "?l < 2147483648" by (simp_all add: lowerBinID_def i32_range)
  show ?thesis
  proof (cases "?l + 70 < 2147483648")
    case True
    then show ?thesis using l by (simp add: upperBinID_def binArraySize_def)
  next
    case False
    have wrap: "i32 n = n - 4294967296" if "2147483648 \<le> n" "n < 4294967296" for n
    proof -
      have "(n - 2147483648 + 4294967296) mod 4294967296 = (n - 2147483648) mod 4294967296" by (rule mod_add_self2)
      also have "\<dots> = n - 2147483648" using that by (intro mod_pos_pos_trivial) simp_all
      finally show ?thesis by (simp add: i32_def add.commute)
    qed
    have "i32 (?l + 70) = ?l + 70 - 4294967296" using False l by (intro wrap) simp_all
    then have u: "upperBinID array = i32 (?l + 69 - 4294967296)" by (simp add: upperBinID_def binArraySize_def)
    show ?thesis
    proof (cases "?l + 70 = 2147483648")
      case True
      then have "?l = 2147483578" by simp
      then show ?thesis using u by (simp add: i32_def)
    next
      case other: False
      then have "upperBinID array = ?l + 69 - 4294967296" unfolding u using False l by (intro i32_id) simp_all
      then show ?thesis by simp
    qed
  qed
qed

lemma walk_bins_books:
  assumes "books y onIn P amount w" and "array_bound y P array"
  shows "case walk_bins y orders onIn array w of Inl e \<Rightarrow> no_panic e | Inr w' \<Rightarrow> books y onIn P amount w'"
  using assms
proof (induction y orders onIn array w rule: walk_bins.induct)
  case (1 y orders onIn array w)
  let ?in = "ActiveBinID (wpool w) \<ge> lowerBinID array \<and> ActiveBinID (wpool w) \<le> upperBinID array \<and> remaining w > 0"
  let ?b = "Bins array ! nat (ActiveBinID (wpool w) - lowerBinID array)"
  show ?case
  proof (cases ?in)
    case False
    then have "walk_bins y orders onIn array w = Inr w" by (subst walk_bins.simps) (simp only: if_False)
    then show ?thesis using 1(2) by simp
  next
    case True
    have "upperBinID array \<le> lowerBinID array + 69" by (rule upper_le)
    then have "nat (ActiveBinID (wpool w) - lowerBinID array) < 70" using True by auto
    then have "price_bound y P ?b" using 1(3) by (simp add: array_bound_def list_all_length)
    from visit_bin_books [OF 1(2) this, of orders] show ?thesis
      using 1(1) 1(3) True by (subst walk_bins.simps) (cases "visit_bin y orders onIn ?b w"; simp)
  qed
qed

lemma walk_arrays_books:
  assumes "books y onIn P amount w" and "\<And>s a. arrays s = Inr a \<Longrightarrow> array_bound y P a"
    and "\<And>s e. arrays s = Inl e \<Longrightarrow> no_panic e"
  shows "case walk_arrays arrays y orders onIn starts used w of Inl e \<Rightarrow> no_panic e
    | Inr (w', n) \<Rightarrow> books y onIn P amount w' \<and> remaining w' = 0"
  using assms(1)
proof (induction starts arbitrary: used w)
  case Nil
  then show ?case by (simp add: no_panic_def)
next
  case (Cons s ss)
  show ?case
  proof (cases "arrays s")
    case (Inl e)
    then show ?thesis using assms(3) by simp
  next
    case (Inr a)
    have "books y onIn P amount (enter_array y a w)" using Cons.prems by simp
    from walk_bins_books [OF this assms(2) [OF Inr], of orders] show ?thesis
      using Inr Cons.IH by (cases "walk_bins y orders onIn a (enter_array y a w)") simp_all
  qed
qed

section \<open>Which arrays are visited\<close>

definition bitmap_bit :: "u64 list \<Rightarrow> int \<Rightarrow> bool" where
  "bitmap_bit bitmap position \<longleftrightarrow> bit (bitmap ! nat (position div 64)) (nat (position mod 64))"

definition positions :: "bool \<Rightarrow> int \<Rightarrow> int list" where
  "positions y p = (if 0 \<le> p \<and> p < 1024 then (if y then rev [0..p] else [p..1023]) else [])"

lemma positions_step: "0 \<le> p \<Longrightarrow> p < 1024 \<Longrightarrow> positions y p = p # positions y (if y then p - 1 else p + 1)"
  using upto_rec2 [of 0 p] upto_rec1 [of p 1023] by (auto simp: positions_def)

lemma index_walk_eq:
  "index_walk bitmap y limit p result =
     result @ take (limit - length result) (map (\<lambda>k. k - bitmapCenter) (filter (bitmap_bit bitmap) (positions y p)))"
proof (induction bitmap y limit p result rule: index_walk.induct)
  case (1 bitmap y limit p result)
  show ?case
  proof (cases "0 \<le> p \<and> p < 1024 \<and> length result < limit")
    case False
    have "index_walk bitmap y limit p result = result" using False by (subst index_walk.simps) (simp only: if_False)
    moreover have "positions y p = [] \<or> limit - length result = 0" using False by (auto simp: positions_def)
    ultimately show ?thesis by auto
  next
    case True
    then obtain n where n: "limit - length result = Suc n" "limit - Suc (length result) = n"
      by (metis Suc_diff_Suc)
    have pos: "positions y p = p # positions y (if y then p - 1 else p + 1)" using True by (intro positions_step) auto
    have "index_walk bitmap y limit p result = index_walk bitmap y limit (if y then p - 1 else p + 1)
        (if bitmap_bit bitmap p then result @ [p - bitmapCenter] else result)"
      using True by (subst index_walk.simps) (simp only: if_True bitmap_bit_def simp_thms)
    also have "\<dots> = (if bitmap_bit bitmap p then result @ [p - bitmapCenter] else result)
        @ take (limit - length (if bitmap_bit bitmap p then result @ [p - bitmapCenter] else result))
            (map (\<lambda>k. k - bitmapCenter) (filter (bitmap_bit bitmap) (positions y (if y then p - 1 else p + 1))))"
      using 1 [OF True] by (simp only: bitmap_bit_def [symmetric])
    finally show ?thesis unfolding pos using n by (cases "bitmap_bit bitmap p") simp_all
  qed
qed

text \<open>
  The search for arrays (\<open>initializedBinArrayIndexes\<close>) lists, nearest first in the direction of the swap, the
  initialized arrays among those the bitmap covers, from the array of the active bin on and no more than the limit;
  a pool whose active array lies outside the bitmap has none.
\<close>

lemma initializedBinArrayIndexes_correct:
  "initializedBinArrayIndexes pool y limit =
     (let start = ActiveBinID pool div 70
      in if start < - 512 \<or> 511 < start then []
         else take limit (filter (\<lambda>k. bit (BinArrayBitmap pool ! nat ((k + 512) div 64)) (nat ((k + 512) mod 64)))
           (if y then rev [- 512..start] else [start..511])))"
proof -
  let ?s = "ActiveBinID pool div 70"
  have shift: "map (\<lambda>k. k - 512) [a..b] = [a - 512..b - 512]" for a b :: int
    by (induction "nat (b - a + 1)" arbitrary: a) (simp_all add: upto_rec1 upto.simps)
  have "initializedBinArrayIndexes pool y limit =
      take limit (map (\<lambda>k. k - 512) (filter (bitmap_bit (BinArrayBitmap pool)) (positions y (?s + 512))))"
    by (simp add: initializedBinArrayIndexes_def index_walk_eq floorDiv_def go_floor_div_eq binArraySize_def bitmapCenter_def)
  also have "map (\<lambda>k. k - 512) (filter (bitmap_bit (BinArrayBitmap pool)) (positions y (?s + 512)))
      = filter (\<lambda>k. bitmap_bit (BinArrayBitmap pool) (k + 512)) (map (\<lambda>k. k - 512) (positions y (?s + 512)))"
    by (simp add: filter_map comp_def)
  also have "map (\<lambda>k. k - 512) (positions y (?s + 512))
      = (if ?s < - 512 \<or> 511 < ?s then [] else if y then rev [- 512..?s] else [?s..511])"
    using shift [of 0 "?s + 512"] shift [of "?s + 512" 1023] by (auto simp: positions_def rev_map [symmetric])
  finally show ?thesis by (simp add: Let_def bitmap_bit_def)
qed

section \<open>The quote\<close>

lemma updateFeeReferences_Inr:
  assumes "0 \<le> t"
  shows "\<exists>p. updateFeeReferences pool t = Inr p \<and> Parameters p = Parameters pool \<and> Address p = Address pool"
  using assms by (simp add: updateFeeReferences_def Let_def)

lemma dlmm_quote_pool_state_cases:
  assumes share: "uint (ProtocolShare (Parameters pool)) \<le> 10000"
    and arrays: "\<And>s a. arrays s = Inr a \<Longrightarrow> array_bound y P a" "\<And>s e. arrays s = Inl e \<Longrightarrow> no_panic e"
  shows "case quote_pool_state arrays pool c y mint amount of Inl e \<Rightarrow> no_panic e
    | Inr q \<Rightarrow> AmountIn q = amount \<and> quote_pool q = Address pool
        \<and> (\<exists>w. books y (CollectFeeMode (Parameters pool) = 0 \<or> \<not> y) P amount w \<and> remaining w = 0
            \<and> AmountOut q = amountOut w \<and> TradeFee q = tradeFee w \<and> ProtocolFee q = protocolFee w)"
proof (cases "timestamp c < 0 \<or> pending pool c \<or> PairType pool > 3 \<or> ActivationType pool > 1")
  case True
  then show ?thesis by (auto simp: quote_pool_state_def no_panic_def)
next
  case False
  then obtain p where p: "updateFeeReferences pool (timestamp c) = Inr p" "Parameters p = Parameters pool" "Address p = Address pool"
    using updateFeeReferences_Inr [of "timestamp c" pool] by auto
  let ?onIn = "CollectFeeMode (Parameters pool) = 0 \<or> \<not> y"
  let ?w = "\<lparr>wpool = p, remaining = amount, amountOut = 0, tradeFee = 0, protocolFee = 0\<rparr>"
  have "books y ?onIn P amount ?w" using share p(2) by (simp add: books_def paid_for_def got_for_def)
  from walk_arrays_books [OF this arrays]
  have post: "case walk_arrays arrays y (poolSupportsLimitOrders p) ?onIn (initializedBinArrayIndexes p y 16) 0 ?w of
      Inl e \<Rightarrow> no_panic e | Inr (w', n) \<Rightarrow> books y ?onIn P amount w' \<and> remaining w' = 0" .
  then show ?thesis using False p
    by (cases "walk_arrays arrays y (poolSupportsLimitOrders p) ?onIn (initializedBinArrayIndexes p y 16) 0 ?w")
      (auto simp: quote_pool_state_def Let_def)
qed


definition sample_dlmm_pool :: Pool where
  "sample_dlmm_pool = \<lparr>Address = [1],
     Parameters = \<lparr>BaseFactor = 10000, FilterPeriod = 30, DecayPeriod = 600, ReductionFactor = 5000, VariableFeeControl = 40000,
       MaxVolatilityAccumulator = 350000, MinBinID = - 1000, MaxBinID = 1000, ProtocolShare = 500, BaseFeePowerFactor = 0,
       FunctionType = 1, CollectFeeMode = 0\<rparr>,
     Variable = \<lparr>VolatilityAccumulator = 0, VolatilityReference = 0, IndexReference = 5, LastUpdateTimestamp = 0\<rparr>,
     PairType = 0, ActiveBinID = 5, BinStep = 10, Status = 0, ActivationType = 0, TokenXMint = [3], TokenYMint = [4],
     ReserveX = [5], ReserveY = [6], Oracle = [], RewardMints = [[], []], BinArrayBitmap = (replicate 16 0)[8 := 1],
     LastUpdatedAt = 0, ActivationPoint = 0, PreActivationDuration = 0, Creator = [], TokenXProgramFlag = 0,
     TokenYProgramFlag = 0, Version = 0\<rparr>"

definition sample_dlmm_arrays :: "int \<Rightarrow> BinArray qres" where
  "sample_dlmm_arrays s = Inr \<lparr>array_address = [], Index = s, array_version = 0, array_pool = [1], Bins = replicate 70 sample_bin\<rparr>"


text \<open>
  Dust in practice: one array with plenty of liquidity, a fee of 0.1 percent. 1002 units are quoted; 1001 units leave
  one unit that no bin takes, and the quote fails as if the pool had run out of arrays.
\<close>

lemma dust_quote_fails:
  "quote_pool_state sample_dlmm_arrays sample_dlmm_pool \<lparr>clock_slot = 0, timestamp = 0\<rparr> True [3] 1001
     = Inl (Rejected (Sentinel ''ErrQuoteArrayRange''))"
  "\<not> isl (quote_pool_state sample_dlmm_arrays sample_dlmm_pool \<lparr>clock_slot = 0, timestamp = 0\<rparr> True [3] 1002)"
  by code_simp+

end
