(* ===== verification/DLMM_Venue.thy ===== *)
theory DLMM_Venue
  imports DLMM_Client
begin

text \<open>
  The Meteora client as a venue of the adaptive quote loop (\<open>Solana_Arrays\<close>): \<open>quoteSnapshotAddresses\<close>
  and \<open>QuoteExactInputsWithSlot\<close> of \<open>go/solana/meteora/dlmm/client.go\<close>. The base accounts of a snapshot are
  the pool and the clock.
\<close>

section \<open>Definitions\<close>

fun collect_arrays :: "(int \<Rightarrow> address qres) \<Rightarrow> int list \<Rightarrow> address list \<Rightarrow> address list qres" where
  "collect_arrays derived [] addresses = Inr addresses"
| "collect_arrays derived (index # indexes) addresses =
     ebind (derived index) (\<lambda>a. collect_arrays derived indexes (add_new a addresses))"

type_synonym request = "address \<times> u64"

fun request_addresses :: "finder \<Rightarrow> address \<Rightarrow> Pool \<Rightarrow> request list \<Rightarrow> address list \<Rightarrow> address list qres" where
  "request_addresses derive programID pool [] addresses = Inr addresses"
| "request_addresses derive programID pool ((mint, amount) # requests) addresses =
     (if amount = 0 then reject ''amount_in=empty''
      else if mint \<noteq> TokenXMint pool \<and> mint \<noteq> TokenYMint pool then reject ''input_mint=invalid''
      else ebind (collect_arrays (binArrayAddress derive programID (Address pool))
                    (initializedBinArrayIndexes pool (mint = TokenXMint pool) 16) addresses)
             (request_addresses derive programID pool requests))"

text \<open>The list starts with the pool and the clock, whatever they are.\<close>

definition quoteSnapshotAddresses :: "finder \<Rightarrow> address \<Rightarrow> address \<Rightarrow> Pool \<Rightarrow> request list \<Rightarrow> address list qres" where
  "quoteSnapshotAddresses derive clockSysvarAddress programID pool requests =
     request_addresses derive programID pool requests [Address pool, clockSysvarAddress]"

definition dlmm_venue :: "finder \<Rightarrow> address \<Rightarrow> address \<Rightarrow> Pool \<Rightarrow> (Pool, request, Quote) venue" where
  "dlmm_venue derive clockSysvarAddress programID configured =
     \<lparr>base_of = \<lambda>pool. [Address pool, clockSysvarAddress],
      arrays_of = \<lambda>pool r. ebind (quoteSnapshotAddresses derive clockSysvarAddress programID pool [r]) (\<lambda>as. Inr (drop 2 as)),
      refresh_of = \<lambda>accounts. refreshPool accounts programID configured,
      quote_of = \<lambda>accounts (mint, amount).
        quoteExactInput derive accounts clockSysvarAddress programID (Some configured) mint amount\<rparr>"

definition dlmm_QuoteExactInputsWithSlot ::
  "finder \<Rightarrow> address \<Rightarrow> address \<Rightarrow> (nat \<Rightarrow> bool) \<Rightarrow> (nat \<Rightarrow> address list \<Rightarrow> AccountSnapshot option qres) \<Rightarrow> int \<Rightarrow> int
   \<Rightarrow> Pool \<Rightarrow> request list \<Rightarrow> Pool quote_cache \<Rightarrow> (u64 \<times> Quote list) qres \<times> Pool quote_cache" where
  "dlmm_QuoteExactInputsWithSlot derive clockSysvarAddress programID cancelled fetch initialCount maxCount configured requests cache =
     QuoteExactInputsWithSlot (dlmm_venue derive clockSysvarAddress programID configured) cancelled fetch initialCount maxCount
       (Some configured) requests cache"

section \<open>Which arrays are listed\<close>

lemma dlmm_collect_Inr:
  "collect_arrays derived indexes as = Inr as' \<Longrightarrow>
     (\<exists>new. as' = as @ new \<and> length new \<le> length indexes) \<and> (\<forall>s \<in> set indexes. \<exists>a \<in> set as'. derived s = Inr a)"
proof (induction indexes arbitrary: as)
  case (Cons s ss)
  then obtain a where a: "derived s = Inr a" "collect_arrays derived ss (add_new a as) = Inr as'" by auto
  from Cons.IH [OF a(2)] obtain new where new: "as' = add_new a as @ new" "length new \<le> length ss"
    "\<forall>s \<in> set ss. \<exists>a \<in> set as'. derived s = Inr a" by auto
  then show ?case using a(1) by (cases "a \<in> set as") (auto simp: add_new_def)
qed simp

lemma length_indexes: "length (initializedBinArrayIndexes pool y limit) \<le> limit"
  by (simp add: initializedBinArrayIndexes_def index_walk_eq)

lemma dlmm_arrays:
  assumes "arrays_of (dlmm_venue derive clk programID configured) pool (mint, amount) = Inr g"
  shows "length g \<le> 16"
    and "\<forall>s \<in> set (initializedBinArrayIndexes pool (mint = TokenXMint pool) 16).
           \<exists>a \<in> set (Address pool # clk # g). binArrayAddress derive programID (Address pool) s = Inr a"
proof -
  let ?starts = "initializedBinArrayIndexes pool (mint = TokenXMint pool) 16"
  obtain as where "collect_arrays (binArrayAddress derive programID (Address pool)) ?starts [Address pool, clk] = Inr as" "g = drop 2 as"
    using assms by (auto simp: dlmm_venue_def quoteSnapshotAddresses_def split: if_splits)
  then show "length g \<le> 16"
    "\<forall>s \<in> set ?starts. \<exists>a \<in> set (Address pool # clk # g). binArrayAddress derive programID (Address pool) s = Inr a"
    using dlmm_collect_Inr [of _ ?starts "[Address pool, clk]" as] length_indexes [of pool "mint = TokenXMint pool" 16]
    by fastforce+
qed

section \<open>Which array is missed\<close>

lemma dlmm_own_missing [simp]: "own r \<noteq> Inl (ArrayRequired a)"
  by (simp add: own_def split: sum.splits)

lemma visit_bin_missing: "visit_bin y orders onIn b w \<noteq> Inl (ArrayRequired a)"
  by (auto simp: visit_bin_def ebind_def Let_def split: sum.splits)

lemma walk_bins_missing: "walk_bins y orders onIn array w \<noteq> Inl (ArrayRequired a)"
proof (induction y orders onIn array w rule: walk_bins.induct)
  case (1 y orders onIn array w)
  show ?case
    using 1 visit_bin_missing
    by (subst walk_bins.simps) (auto simp: ebind_def split: sum.splits)
qed

lemma walk_arrays_missing:
  "walk_arrays arrays y orders onIn starts used w = Inl (ArrayRequired a) \<Longrightarrow> \<exists>s \<in> set starts. arrays s = Inl (ArrayRequired a)"
proof (induction starts arbitrary: used w)
  case (Cons s ss)
  then show ?case
    using walk_bins_missing by (fastforce simp: ebind_def split: sum.splits if_splits)
qed (simp split: if_splits)

lemma readBinArray_missing:
  "readBinArray derive accounts programID pool s = Inl (ArrayRequired a) \<Longrightarrow>
     \<exists>x. binArrayAddress derive programID (Address pool) s = Inr x \<and> accounts x = Inl (ArrayRequired a)"
  by (auto simp: readBinArray_def ebind_def decodeBinArray_def binArrayAddress_def split: sum.splits option.splits if_splits)

lemma dlmm_decodePool_Inl: "decodePool a d \<noteq> Inl (ArrayRequired x)"
  by (simp add: decodePool_def Let_def)

lemma dlmm_refreshPool_Inr: "refreshPool accounts programID configured = Inr pool \<Longrightarrow> Address pool = Address configured"
  by (auto simp: refreshPool_def decodePool_def Let_def split: option.splits if_splits)

lemma quote_state_missing:
  assumes "quote_pool_state arrays pool c y mint amount = Inl (ArrayRequired a)"
  shows "\<exists>s \<in> set (initializedBinArrayIndexes pool y 16). arrays s = Inl (ArrayRequired a)"
proof -
  have same: "initializedBinArrayIndexes p y 16 = initializedBinArrayIndexes pool y 16"
    if "updateFeeReferences pool (timestamp c) = Inr p" for p
    using that by (auto simp: updateFeeReferences_def initializedBinArrayIndexes_def Let_def split: if_splits)
  obtain p where p: "updateFeeReferences pool (timestamp c) = Inr p"
    and q: "\<exists>orders onIn used w. walk_arrays arrays y orders onIn (initializedBinArrayIndexes p y 16) used w = Inl (ArrayRequired a)"
    using assms by (cases "updateFeeReferences pool (timestamp c)")
      (auto simp: quote_pool_state_def ebind_def Let_def split: sum.splits if_splits)
  then show ?thesis using walk_arrays_missing same [OF p] by metis
qed

lemma dlmm_quote_missing:
  assumes only: "\<And>x e. accounts x = Inl e \<Longrightarrow> e = ArrayRequired x"
    and run: "quoteExactInput derive accounts clk programID (Some configured) mint amount = Inl (ArrayRequired a)"
  shows "accounts a = Inl (ArrayRequired a)"
    and "refreshPool accounts programID configured = Inr pool \<Longrightarrow> (\<And>e. accounts clk \<noteq> Inl e) \<Longrightarrow>
      \<exists>s \<in> set (initializedBinArrayIndexes pool (mint = TokenXMint pool) 16).
        binArrayAddress derive programID (Address pool) s = Inr a"
proof -
  have three: "refreshPool accounts programID configured = Inl (ArrayRequired a)
      \<or> clock accounts clk = Inl (ArrayRequired a)
      \<or> (\<exists>pool c. refreshPool accounts programID configured = Inr pool \<and> quote_pool_state
          (readBinArray derive accounts programID pool) pool c (mint = TokenXMint pool) mint amount = Inl (ArrayRequired a))"
    using run by (auto simp: quoteExactInput_def ebind_def Let_def split: sum.splits if_splits)
  have refresh: "accounts a = Inl (ArrayRequired a)" if "refreshPool accounts programID configured = Inl (ArrayRequired a)"
    using that only dlmm_decodePool_Inl by (fastforce simp: refreshPool_def ebind_def split: sum.splits option.splits if_splits)
  have clock: "\<exists>x. x = clk \<and> accounts clk = Inl (ArrayRequired a)" if "clock accounts clk = Inl (ArrayRequired a)"
    using that by (auto simp: clock_def ebind_def split: sum.splits option.splits if_splits)
  have arrays: "\<exists>s \<in> set (initializedBinArrayIndexes pool (mint = TokenXMint pool) 16).
        binArrayAddress derive programID (Address pool) s = Inr a \<and> accounts a = Inl (ArrayRequired a)"
    if "quote_pool_state (readBinArray derive accounts programID pool) pool c (mint = TokenXMint pool) mint amount
        = Inl (ArrayRequired a)" for pool c
    using quote_state_missing [OF that] readBinArray_missing only by blast
  show "accounts a = Inl (ArrayRequired a)" using three refresh clock arrays only by blast
  show "\<exists>s \<in> set (initializedBinArrayIndexes pool (mint = TokenXMint pool) 16).
        binArrayAddress derive programID (Address pool) s = Inr a"
    if "refreshPool accounts programID configured = Inr pool" "\<And>e. accounts clk \<noteq> Inl e"
    using three that arrays clock by auto
qed

interpretation dlmm: array_demand "dlmm_venue derive clk programID configured"
  for derive clk programID configured
proof
  fix pool r g
  assume "arrays_of (dlmm_venue derive clk programID configured) pool r = Inr g"
  then show "length g \<le> 16" using dlmm_arrays(1) by (cases r) auto
next
  fix accounts r a
  assume only: "\<And>x e. accounts x = Inl e \<Longrightarrow> e = ArrayRequired x"
    and "quote_of (dlmm_venue derive clk programID configured) accounts r = Inl (ArrayRequired a)"
  then show "accounts a = Inl (ArrayRequired a)"
    by (cases r) (auto simp: dlmm_venue_def intro: dlmm_quote_missing(1))
next
  fix accounts q r a pool g
  assume only: "\<And>x e. accounts x = Inl e \<Longrightarrow> e = ArrayRequired x"
    and base: "\<And>x e. x \<in> set (base_of (dlmm_venue derive clk programID configured) q) \<Longrightarrow> accounts x \<noteq> Inl e"
    and quote: "quote_of (dlmm_venue derive clk programID configured) accounts r = Inl (ArrayRequired a)"
    and refresh: "refresh_of (dlmm_venue derive clk programID configured) accounts = Inr pool"
    and g: "arrays_of (dlmm_venue derive clk programID configured) pool r = Inr g"
  obtain mint amount where r: "r = (mint, amount)" by (cases r)
  have q': "quoteExactInput derive accounts clk programID (Some configured) mint amount = Inl (ArrayRequired a)"
    and refresh': "refreshPool accounts programID configured = Inr pool"
    using quote refresh r by (simp_all add: dlmm_venue_def)
  have clk: "accounts clk \<noteq> Inl e" for e using base by (simp add: dlmm_venue_def)
  obtain s where s: "s \<in> set (initializedBinArrayIndexes pool (mint = TokenXMint pool) 16)"
    "binArrayAddress derive programID (Address pool) s = Inr a"
    using dlmm_quote_missing(2) [OF only q' refresh' clk] by blast
  have gone: "accounts a = Inl (ArrayRequired a)" using dlmm_quote_missing(1) [OF only q'] .
  have "a \<in> set (Address pool # clk # g)" using dlmm_arrays(2) [OF g [unfolded r]] s by auto
  moreover have "a \<noteq> clk" using gone clk by auto
  moreover have "a \<noteq> Address pool"
    using gone refresh' dlmm_refreshPool_Inr [OF refresh'] by (auto simp: refreshPool_def)
  ultimately show "a \<in> set g" by simp
qed

text \<open>
  The adaptive loop on Meteora makes progress: every snapshot it fetches after the first asks for an array that
  the one before did not contain.
\<close>

lemma dlmm_quotes_progress:
  assumes "dlmm_QuoteExactInputsWithSlot derive clk programID cancelled fetch a b configured requests cache = (r, cache')"
  shows "\<exists>new. asked cache' = asked cache @ new
    \<and> (\<forall>i. Suc i < length new \<longrightarrow> (\<exists>x \<in> set (new ! Suc i). x \<notin> set (new ! i)))"
  using dlmm.QuoteExactInputsWithSlot_grows [OF assms [unfolded dlmm_QuoteExactInputsWithSlot_def]]
  by (auto simp: successively_conv_nth)

lemma dlmm_quotes_progress_witness:
  "\<exists>new. asked (snd (dlmm_QuoteExactInputsWithSlot (\<lambda>_ p. Inr p) [7] [9] (\<lambda>_. False)
       (\<lambda>k as. Inr (Some \<lparr>Slot = 7, Accounts = map (\<lambda>_. None) as\<rparr>)) 0 0 sample_dlmm_pool [([4], 1)]
       \<lparr>asked = [], remembered = None\<rparr>)) = new
     \<and> (\<forall>i. Suc i < length new \<longrightarrow> (\<exists>x \<in> set (new ! Suc i). x \<notin> set (new ! i)))"
  using dlmm_quotes_progress [OF prod.collapse [symmetric], of "\<lambda>_ p. Inr p" "[7]" "[9]" "\<lambda>_. False"
      "\<lambda>k as. Inr (Some \<lparr>Slot = 7, Accounts = map (\<lambda>_. None) as\<rparr>)" 0 0 sample_dlmm_pool "[([4], 1)]" "\<lparr>asked = [], remembered = None\<rparr>"]
  by auto

end
