(* ===== verification/Cetus_Math.thy ===== *)
theory Cetus_Math
  imports Tick_Ratio
begin

text \<open>
  \<open>go/venues/cetus/clmm\<close>: the tick to price conversion of \<open>tick_math.go\<close>, which the Cetus, Turbos, Bluefin and
  Momentum packages carry word for word, the words of the tick bitmap (\<open>Word\<close> of
  \<open>go/internal/suiwindow/window.go\<close>), and the tick window of \<open>retained_window.go\<close>.
  Prices are fixed point numbers with 64 fractional bits.
\<close>

section \<open>Definitions\<close>

definition positive_factors :: "int list" where
  "positive_factors =
     [79232123823359799118286999567, 79236085330515764027303304731, 79244008939048815603706035061, 79259858533276714757314932305,
      79291567232598584799939703904, 79355022692464371645785046466, 79482085999252804386437311141, 79736823300114093921829183326,
      80248749790819932309965073892, 81282483887344747381513967011, 83390072131320151908154831281, 87770609709833776024991924138,
      97234110755111693312479820773, 119332217159966728226237229890, 179736315981702064433883588727, 407748233172238350107850275304,
      2098478828474011932436660412517, 55581415166113811149459800483533, 38992368544603139932233054999993551]"

definition negative_factors :: "int list" where
  "negative_factors =
     [18445821805675392311, 18444899583751176498, 18443055278223354162, 18439367220385604838,
      18431993317065449817, 18417254355718160513, 18387811781193591352, 18329067761203520168,
      18212142134806087854, 17980523815641551639, 17526086738831147013, 16651378430235024244,
      15030750278693429944, 12247334978882834399, 8131365268884726200, 3584323654723342297,
      696457651847595233, 26294789957452057, 37481735321082]"

definition sqrtAtTick :: "int \<Rightarrow> int" where
  "sqrtAtTick tick =
     (let negative = tick < 0; n = \<bar>tick\<bar>; shift = (if negative then 64 else 96);
          factors = (if negative then negative_factors else positive_factors);
          v = factor_loop shift 0 n factors (push_bit shift 1)
      in if negative then v else drop_bit 32 v)"

abbreviation lowestTick :: int where "lowestTick \<equiv> - 443636"
abbreviation highestTick :: int where "highestTick \<equiv> 443636"

definition Word :: "int \<Rightarrow> int \<Rightarrow> int" where
  "Word tick spacing = drop_bit 8 (go_floor_div tick spacing)"

record tickWindow =
  center :: int
  spacing :: int
  first :: int
  last :: int
  lower :: int
  upper :: int

definition newTickWindow :: "int \<Rightarrow> int \<Rightarrow> tickWindow res" where
  "newTickWindow tick spc =
     (if spc \<le> 0 \<or> spc > 443636 \<or> tick < - 443636 \<or> tick > 443636 then Inl (Fail ''parameters=out_of_range'')
      else
        (let c = Word tick spc;
             f = max (i32 (c - 1) * 256) (- 443636 sdiv spc);
             l = min (i32 (c + 2) * 256 - 1) (443636 sdiv spc)
         in Inr \<lparr>center = c, spacing = spc, first = i32 (f * spc), last = i32 (l * spc),
                 lower = i32 (max (- 443636) (i32 (c - 1) * 256 * spc)),
                 upper = i32 (min 443636 (i32 (c + 2) * 256 * spc))\<rparr>))"

section \<open>Prices move with the tick\<close>

lemma neg_check: "falling_check 1000000 49 64 negative_factors (2 ^ 64)"
  by code_simp

lemma neg_least: "least_ratio 64 negative_factors (2 ^ 64) = 76162531"
  by code_simp

lemma neg_length: "length negative_factors = 19"
  by (simp add: negative_factors_def)

interpretation neg: falling_ticks 64 negative_factors 1000000 49
  by unfold_locales (simp_all add: neg_check [simplified] neg_least [simplified] neg_length)

lemma pos_check: "rising_check 1000000 49 96 positive_factors (2 ^ 96)"
  by code_simp

lemma pos_least: "least_ratio 96 positive_factors (2 ^ 96) = 2 ^ 96"
  by code_simp

lemma pos_length: "length positive_factors = 19"
  by (simp add: positive_factors_def)

interpretation pos: rising_ticks 96 positive_factors 1000000 49
  by unfold_locales (simp_all add: pos_check [simplified] pos_least [simplified] pos_length)

lemma sqrtAtTick_below: "t < 0 \<Longrightarrow> sqrtAtTick t = factor_loop 64 0 (- t) negative_factors (2 ^ 64)"
  by (simp add: sqrtAtTick_def Let_def push_bit_eq_mult)

lemma sqrtAtTick_above: "0 \<le> t \<Longrightarrow> sqrtAtTick t = factor_loop 96 0 t positive_factors (2 ^ 96) div 2 ^ 32"
  by (simp add: sqrtAtTick_def Let_def push_bit_eq_mult drop_bit_eq_div)

lemma cetus_sqrt_minus_1: "sqrtAtTick (- 1) = 18445821805675392311"
  by code_simp

lemma cetus_sqrt_0: "sqrtAtTick 0 = 18446744073709551616"
  by code_simp

lemma cetus_sqrt_lowest: "sqrtAtTick lowestTick = 4295048016"
  by code_simp

lemma cetus_sqrt_highest: "sqrtAtTick highestTick = 79226673515401279992447579055"
  by code_simp

lemma cetus_sqrt_step:
  assumes "lowestTick \<le> t" and "t < highestTick"
  shows "sqrtAtTick t < sqrtAtTick (t + 1)"
proof -
  consider "t < - 1" | "t = - 1" | "0 \<le> t" by linarith
  then show ?thesis
  proof cases
    case 1
    then show ?thesis
      using neg.ratio_diff [of "- t - 1" 1] assms
      by (simp add: sqrtAtTick_below neg_length neg_least [simplified])
  next
    case 2
    then show ?thesis by (simp add: cetus_sqrt_minus_1 cetus_sqrt_0)
  next
    case 3
    then have "factor_loop 96 0 t positive_factors (2 ^ 96) + 2 ^ 32 \<le> factor_loop 96 0 (t + 1) positive_factors (2 ^ 96)"
      using pos.ratio_diff [of t "2 ^ 32"] assms by (simp add: pos_length pos_least [simplified])
    then have "(factor_loop 96 0 t positive_factors (2 ^ 96) + 2 ^ 32) div 2 ^ 32
        \<le> factor_loop 96 0 (t + 1) positive_factors (2 ^ 96) div 2 ^ 32" by (rule zdiv_mono1) simp
    with 3 show ?thesis by (simp add: sqrtAtTick_above)
  qed
qed

lemma cetus_sqrt_less: "lowestTick \<le> a \<Longrightarrow> a < b \<Longrightarrow> b \<le> highestTick \<Longrightarrow> sqrtAtTick a < sqrtAtTick b"
  using int_step_strict_mono [of lowestTick highestTick sqrtAtTick a b] cetus_sqrt_step by blast

lemma cetus_sqrt_le: "lowestTick \<le> a \<Longrightarrow> a \<le> b \<Longrightarrow> b \<le> highestTick \<Longrightarrow> sqrtAtTick a \<le> sqrtAtTick b"
  using cetus_sqrt_less [of a b] by (cases "a = b") auto

text \<open>
  Tick to price on Sui (\<open>sqrtAtTick\<close> of Cetus, Turbos, Bluefin and Momentum): strictly increasing on the whole
  range of ticks, across the change of tables at zero and in spite of all roundings, and bounded by exactly
  the two prices that \<open>localNext\<close> accepts.
\<close>

lemma cetus_sqrtAtTick_strict_mono:
  assumes "lowestTick \<le> a" and "a < b" and "b \<le> highestTick"
  shows "4295048016 \<le> sqrtAtTick a \<and> sqrtAtTick a < sqrtAtTick b \<and> sqrtAtTick b \<le> 79226673515401279992447579055"
  using cetus_sqrt_less [OF assms] cetus_sqrt_le [of lowestTick a] cetus_sqrt_le [of b highestTick] assms
  by (simp add: cetus_sqrt_lowest cetus_sqrt_highest)

lemma cetus_sqrtAtTick_strict_mono_witness:
  "sqrtAtTick (- 1) < sqrtAtTick 0 \<and> sqrtAtTick 0 \<le> 79226673515401279992447579055"
  using cetus_sqrtAtTick_strict_mono [of "- 1" 0] by simp

end
