(* ===== verification/Cetus_Quote.thy ===== *)
theory Cetus_Quote
  imports Cetus_Math Swap_Curve
begin

text \<open>
  \<open>go/venues/cetus/clmm/local_quote.go\<close>: the exact integer quote of a swap from a detached snapshot of pool
  and ticks, in either direction, for an exact input or an exact output. A \<open>*big.Int\<close> that the code tests for
  nil is an option.
\<close>

section \<open>One interval\<close>

definition localDiv :: "int \<Rightarrow> int \<Rightarrow> bool \<Rightarrow> int res" where
  "localDiv n d up = (if up then quo_rem_up n d else big_Quo n d)"

definition localDelta :: "int \<Rightarrow> int \<Rightarrow> int \<Rightarrow> bool \<Rightarrow> bool \<Rightarrow> int res" where
  "localDelta a b l tokenA up =
     (let diff = \<bar>a - b\<bar>; n = l * diff
      in if tokenA then localDiv (push_bit 64 n) (a * b) up else localDiv n (push_bit 64 1) up)"

definition localNext :: "int \<Rightarrow> int \<Rightarrow> int \<Rightarrow> bool \<Rightarrow> bool \<Rightarrow> int res" where
  "localNext price l amount a2b exactInput =
     ebind (if a2b = exactInput then
              (let lq = push_bit 64 l; product = price * amount;
                   d = (if exactInput then lq + product else lq - product)
               in if d \<le> 0 then Inl (Fail ''denominator=out_of_range'') else localDiv (lq * price) d True)
            else
              ebind (localDiv (push_bit 64 amount) l (\<not> exactInput)) (\<lambda>delta.
              Inr (if exactInput then price + delta else price - delta))) (\<lambda>next.
     if next < 4295048016 \<or> next > 79226673515401279992447579055 then Inl (Fail ''price=out_of_range'') else Inr next)"

text \<open>Input, output, next price and fee of a step.\<close>

definition localStep :: "int \<Rightarrow> int \<Rightarrow> int \<Rightarrow> int \<Rightarrow> u64 \<Rightarrow> bool \<Rightarrow> bool \<Rightarrow> (int \<times> int \<times> int \<times> int) res" where
  "localStep price target l remaining feeRate a2b exactInput =
     (let denom = uint (1000000 - feeRate)
      in if exactInput then
           ebind (localDiv (remaining * denom) 1000000 False) (\<lambda>available.
           ebind (localDelta price target l a2b True) (\<lambda>i.
           ebind (if available < i then
                    ebind (localNext price l available a2b True) (\<lambda>next. Inr (available, next, remaining - available))
                  else
                    ebind (localDiv (i * uint feeRate) denom True) (\<lambda>fee. Inr (i, target, fee))) (\<lambda>(i, next, fee).
           ebind (localDelta price next l (\<not> a2b) False) (\<lambda>out. Inr (i, out, next, fee)))))
         else
           ebind (localDelta price target l (\<not> a2b) False) (\<lambda>out.
           ebind (if remaining < out then
                    ebind (localNext price l remaining a2b False) (\<lambda>next. Inr (remaining, next))
                  else Inr (out, target)) (\<lambda>(out, next).
           ebind (localDelta price next l a2b True) (\<lambda>i.
           ebind (localDiv (i * uint feeRate) denom True) (\<lambda>fee. Inr (i, out, next, fee))))))"

section \<open>The quote\<close>

record Pool =
  CurrentSqrtPrice :: "int option"
  CurrentTickIndex :: int
  Liquidity :: "int option"
  FeeRate :: u64
  Paused :: bool

record Tick =
  Index :: int
  SqrtPrice :: "int option"
  LiquidityNet :: "int option"

record LocalSnapshot =
  snap_pool :: Pool
  Ticks :: "Tick list"
  window :: "tickWindow option"

record QuoteResult =
  AmountIn :: u64
  AmountOut :: u64
  FeeAmount :: u64
  quoted_rate :: u64
  AfterSqrtPrice :: int

definition state_invalid :: "Pool \<Rightarrow> u64 \<Rightarrow> bool" where
  "state_invalid p amount \<longleftrightarrow>
     amount = 0 \<or> Paused p \<or> FeeRate p \<ge> 1000000 \<or> CurrentSqrtPrice p = None \<or> Liquidity p = None
     \<or> the (CurrentSqrtPrice p) \<le> 0 \<or> the (Liquidity p) < 0 \<or> BitLen_gt (the (Liquidity p)) 128"

text \<open>The boundaries of the window are ticks without liquidity unless they are initialized.\<close>

definition add_boundary :: "int \<Rightarrow> Tick list \<Rightarrow> Tick list" where
  "add_boundary b ticks =
     (if list_ex (\<lambda>t. Index t = b) ticks then ticks
      else ticks @ [\<lparr>Index = b, SqrtPrice = Some (sqrtAtTick b), LiquidityNet = Some 0\<rparr>])"

definition window_ticks :: "Pool \<Rightarrow> Tick list \<Rightarrow> tickWindow option \<Rightarrow> Tick list res" where
  "window_ticks p ticks w =
     (case w of None \<Rightarrow> Inr ticks
      | Some w \<Rightarrow>
          if CurrentTickIndex p < lower w \<or> CurrentTickIndex p \<ge> upper w
             \<or> the (CurrentSqrtPrice p) < sqrtAtTick (lower w) \<or> the (CurrentSqrtPrice p) > sqrtAtTick (upper w)
          then Inl (Sentinel ''ErrCoverage'')
          else Inr (add_boundary (upper w) (add_boundary (lower w) ticks)))"

text \<open>The check of the sorted ticks, each with the one before it.\<close>

fun check_ticks :: "Tick option \<Rightarrow> Tick list \<Rightarrow> unit res" where
  "check_ticks prev [] = Inr ()"
| "check_ticks prev (t # ts) =
     (if Index t < - 443636 \<or> Index t > 443636 \<or> SqrtPrice t = None \<or> the (SqrtPrice t) \<le> 0
         \<or> LiquidityNet t = None \<or> BitLen_gt (the (LiquidityNet t)) 128
      then Inl (Fail ''tick=invalid'')
      else if (case prev of None \<Rightarrow> False
               | Some q \<Rightarrow> Index q = Index t \<or> the (SqrtPrice q) \<ge> the (SqrtPrice t))
      then Inl (Fail ''tick_order=invalid'')
      else check_ticks (Some t) ts)"

record swap =
  price :: int
  liq :: int
  remaining :: int
  totalIn :: int
  totalOut :: int
  totalFee :: int

definition cross :: "bool \<Rightarrow> int \<Rightarrow> Tick \<Rightarrow> swap \<Rightarrow> swap res" where
  "cross a2b target t st =
     (if price st = target then
        (let l = (if a2b then liq st - the (LiquidityNet t) else liq st + the (LiquidityNet t))
         in if l < 0 \<or> BitLen_gt l 128 then Inl (Fail ''liquidity=out_of_range'') else Inr (st\<lparr>liq := l\<rparr>))
      else Inr st)"

definition pass_interval :: "u64 \<Rightarrow> bool \<Rightarrow> bool \<Rightarrow> int \<Rightarrow> swap \<Rightarrow> swap res" where
  "pass_interval feeRate a2b exactInput target st =
     (if liq st = 0 then Inr (st\<lparr>price := target\<rparr>)
      else
        ebind (localStep (price st) target (liq st) (remaining st) feeRate a2b exactInput) (\<lambda>(i, out, next, fee).
        let used = (if exactInput then i + fee else out)
        in if used > remaining st then Inl (Fail ''consumption=out_of_range'')
           else Inr (st\<lparr>remaining := remaining st - used, totalIn := totalIn st + i + fee, totalOut := totalOut st + out,
                        totalFee := totalFee st + fee, price := next\<rparr>)))"

fun walk_ticks :: "int \<Rightarrow> u64 \<Rightarrow> bool \<Rightarrow> bool \<Rightarrow> Tick list \<Rightarrow> swap \<Rightarrow> swap res" where
  "walk_ticks current feeRate a2b exactInput [] st = Inr st"
| "walk_ticks current feeRate a2b exactInput (t # ts) st =
     (if (a2b \<and> Index t > current) \<or> (\<not> a2b \<and> Index t \<le> current)
      then walk_ticks current feeRate a2b exactInput ts st
      else
        (let target = the (SqrtPrice t)
         in if (a2b \<and> target > price st) \<or> (\<not> a2b \<and> target < price st) then Inl (Fail ''tick_price=invalid'')
            else
              ebind (pass_interval feeRate a2b exactInput target st) (\<lambda>st.
              if remaining st = 0 then Inr st
              else ebind (cross a2b target t st) (walk_ticks current feeRate a2b exactInput ts))))"

definition makeResult :: "Pool \<Rightarrow> tickWindow option \<Rightarrow> swap \<Rightarrow> QuoteResult res" where
  "makeResult p w st =
     (if remaining st \<noteq> 0 then (if w \<noteq> None then Inl (Sentinel ''ErrCoverage'') else Inl (Fail ''liquidity=insufficient''))
      else if \<not> IsUint64 (totalIn st) \<or> \<not> IsUint64 (totalOut st) \<or> \<not> IsUint64 (totalFee st) \<or> totalOut st = 0
      then Inl (Fail ''amount=out_of_range'')
      else Inr \<lparr>AmountIn = u64_of (totalIn st - totalFee st), AmountOut = u64_of (totalOut st),
                FeeAmount = u64_of (totalFee st), quoted_rate = FeeRate p, AfterSqrtPrice = price st\<rparr>)"

definition Quote :: "LocalSnapshot \<Rightarrow> u64 \<Rightarrow> bool \<Rightarrow> bool \<Rightarrow> QuoteResult res" where
  "Quote s amount a2b exactInput =
     (let p = snap_pool s
      in if state_invalid p amount then Inl (Fail ''state=invalid'')
         else
           ebind (window_ticks p (Ticks s) (window s)) (\<lambda>ticks.
           let ticks = sort_key Index ticks
           in ebind (check_ticks None ticks) (\<lambda>_.
              ebind (walk_ticks (CurrentTickIndex p) (FeeRate p) a2b exactInput (if a2b then rev ticks else ticks)
                       \<lparr>price = the (CurrentSqrtPrice p), liq = the (Liquidity p), remaining = uint amount,
                        totalIn = 0, totalOut = 0, totalFee = 0\<rparr>) (\<lambda>st.
              makeResult p (window s) st))))"

section \<open>The step keeps to the curve\<close>

abbreviation Q64 :: int where "Q64 \<equiv> 2 ^ 64"

definition cetus_fee :: "u64 \<Rightarrow> bool" where
  "cetus_fee f \<longleftrightarrow> f < 1000000"

lemma cetus_fee_uint: "cetus_fee f \<Longrightarrow> 0 \<le> uint f \<and> uint f < 1000000 \<and> uint (1000000 - f) = 1000000 - uint f"
  by (simp add: cetus_fee_def word_less_def uint_sub_if')

lemma localDiv_pos: "0 \<le> n \<Longrightarrow> 0 < d \<Longrightarrow> localDiv n d up = Inr (if up then cdiv n d else n div d)"
  by (simp add: localDiv_def quo_rem_up_pos big_Quo_pos)

lemma localDelta_amt: "0 < a \<Longrightarrow> 0 < b \<Longrightarrow> 0 \<le> l \<Longrightarrow> localDelta a b l t up = Inr (amt Q64 a b l t up)"
  by (simp add: localDelta_def Let_def localDiv_pos amt_def cnum_def cden_def push_bit_eq_mult abs_minus_commute mult.commute)

lemma localNext_in:
  assumes "0 < p" "0 < l" "0 \<le> a"
  shows "localNext p l a zero True = (let q = move_in Q64 p l a zero
    in if q < 4295048016 \<or> q > 79226673515401279992447579055 then Inl (Fail ''price=out_of_range'') else Inr q)"
proof -
  have "0 < Q64 * l + a * p" using assms by (simp add: add_pos_nonneg)
  then show ?thesis using assms
    by (simp add: localNext_def move_in_def Let_def localDiv_pos push_bit_eq_mult mult_ac)
qed

lemma localNext_out:
  assumes "0 < p" "0 < l" "0 \<le> a" and d: "zero \<or> 0 < Q64 * l - a * p"
  shows "localNext p l a zero False = (let q = move_out Q64 p l a zero
    in if q < 4295048016 \<or> q > 79226673515401279992447579055 then Inl (Fail ''price=out_of_range'') else Inr q)"
proof (cases zero)
  case True
  then show ?thesis using assms by (simp add: localNext_def move_out_def Let_def localDiv_pos push_bit_eq_mult mult_ac)
next
  case False
  then have "\<not> push_bit 64 l - p * a \<le> 0" using d by (simp add: push_bit_eq_mult mult_ac)
  then show ?thesis using False assms
    by (simp add: localNext_def move_out_def Let_def localDiv_pos push_bit_eq_mult mult_ac)
qed

lemma localStep_in:
  assumes f: "cetus_fee f" and pre: "step_pre p t l r zero"
    and run: "localStep p t l r f zero True = Inr (i, out, q, fee)"
  shows "step_post Q64 p t r zero True (i, out, q, fee)"
proof -
  have pos: "0 < p" "0 < t" "0 \<le> l" "0 \<le> r" and dir: "if zero then t \<le> p else p \<le> t" using pre by (simp_all add: step_pre_def)
  note u = cetus_fee_uint [OF f]
  define a where "a = r * (1000000 - uint f) div 1000000"
  have a: "0 \<le> a" using u pos by (simp add: a_def pos_imp_zdiv_nonneg_iff)
  have ar: "a \<le> r"
  proof -
    have "r * (1000000 - uint f) \<le> r * 1000000" using u pos by (intro mult_left_mono) simp_all
    then have "r * (1000000 - uint f) < (r + 1) * 1000000" by (rule le_less_trans) simp
    then have "a < r + 1" by (simp add: a_def div_less_iff_less_mult)
    then show ?thesis by simp
  qed
  have av: "localDiv (r * uint (1000000 - f)) 1000000 False = Inr a"
    using u pos by (simp add: localDiv_pos a_def)
  show ?thesis
  proof (cases "a < amt Q64 p t l zero True")
    case True
    then have l: "0 < l" using a pos by (cases "l = 0") auto
    let ?q = "move_in Q64 p l a zero"
    note m = move_in_amt [OF _ pos(1) l a, of Q64 zero] and ml = move_in_less [OF _ pos(1) l a pos(2) dir True]
    have q: "0 < ?q" "if zero then ?q \<le> p else p \<le> ?q" "amt Q64 p ?q l zero True \<le> a" "toward zero p t ?q"
      using m ml by simp_all
    have "fair Q64 zero p (amt Q64 p ?q l zero True) (amt Q64 p ?q l (\<not> zero) False)"
      using pos q(1,2) by (intro amt_fair) simp_all
    then have "fair Q64 zero p a (amt Q64 p ?q l (\<not> zero) False)" using q(3) by (rule fair_le) simp
    moreover have "i = a" "out = amt Q64 p ?q l (\<not> zero) False" "q = ?q" "fee = r - a"
      using run True pos l a av q(1)
      by (auto simp: localStep_def Let_def localDelta_amt localNext_in split: if_splits)
    ultimately show ?thesis using a ar q pos by (simp add: step_post_def amt_nonneg)
  next
    case False
    define n where "n = amt Q64 p t l zero True"
    have n: "0 \<le> n" "n \<le> a" using pos False by (simp_all add: n_def amt_nonneg)
    have c: "0 \<le> cdiv (n * uint f) (1000000 - uint f)" using n u by (intro cdiv_nonneg) simp_all
    have "n + cdiv (n * uint f) (1000000 - uint f) \<le> r" using n(2) u by (intro fee_total_le) (simp_all add: a_def)
    moreover have "fair Q64 zero p n (amt Q64 p t l (\<not> zero) False)"
      unfolding n_def using pos dir by (intro amt_fair) simp_all
    moreover have "i = n" "out = amt Q64 p t l (\<not> zero) False" "q = t" "fee = cdiv (n * uint f) (1000000 - uint f)"
      using run False pos av n u by (auto simp: localStep_def Let_def localDelta_amt localDiv_pos n_def)
    ultimately show ?thesis using n c dir pos by (simp add: step_post_def amt_nonneg toward_def)
  qed
qed

lemma localStep_out:
  assumes f: "cetus_fee f" and pre: "step_pre p t l r zero"
    and run: "localStep p t l r f zero False = Inr (i, out, q, fee)"
  shows "step_post Q64 p t r zero False (i, out, q, fee)"
proof -
  have pos: "0 < p" "0 < t" "0 \<le> l" "0 \<le> r" and dir: "if zero then t \<le> p else p \<le> t" using pre by (simp_all add: step_pre_def)
  note u = cetus_fee_uint [OF f]
  have charge: "localDiv (n * uint f) (uint (1000000 - f)) True = Inr (cdiv (n * uint f) (1000000 - uint f))
      \<and> 0 \<le> cdiv (n * uint f) (1000000 - uint f)" if "0 \<le> n" for n
    using that u by (simp add: localDiv_pos cdiv_nonneg)
  show ?thesis
  proof (cases "r < amt Q64 p t l (\<not> zero) False")
    case True
    then have l: "0 < l" using pos by (cases "l = 0") auto
    let ?q = "move_out Q64 p l r zero"
    have q: "0 < ?q" "toward zero p t ?q" "r \<le> amt Q64 p ?q l (\<not> zero) False" "zero \<or> 0 < Q64 * l - r * p"
      using move_out_amt [OF _ pos(1) l pos(4,2) dir True] by simp_all
    then have d: "if zero then ?q \<le> p else p \<le> ?q" by (simp add: toward_def split: if_splits)
    define n where "n = amt Q64 p ?q l zero True"
    have n: "0 \<le> n" using pos q(1) by (simp add: n_def amt_nonneg)
    have "fair Q64 zero p n (amt Q64 p ?q l (\<not> zero) False)"
      unfolding n_def using pos q(1) d by (intro amt_fair) simp_all
    then have "fair Q64 zero p n r" by (rule fair_le [OF _ order_refl q(3)])
    moreover have "i = n" "out = r" "q = ?q" "fee = cdiv (n * uint f) (1000000 - uint f)"
      using run True pos l q charge [OF n]
      by (auto simp: localStep_def Let_def localDelta_amt localNext_out n_def split: if_splits)
    ultimately show ?thesis using n charge [OF n] q pos by (simp add: step_post_def)
  next
    case False
    define n where "n = amt Q64 p t l zero True"
    have n: "0 \<le> n" using pos by (simp add: n_def amt_nonneg)
    have "fair Q64 zero p n (amt Q64 p t l (\<not> zero) False)"
      unfolding n_def using pos dir by (intro amt_fair) simp_all
    moreover have "i = n" "out = amt Q64 p t l (\<not> zero) False" "q = t" "fee = cdiv (n * uint f) (1000000 - uint f)"
      using run False pos charge [OF n] by (auto simp: localStep_def Let_def localDelta_amt n_def)
    ultimately show ?thesis using n charge [OF n] dir pos False by (simp add: step_post_def amt_nonneg toward_def)
  qed
qed

interpretation cetus: swap_step Q64 cetus_fee localStep
proof
  fix f p t l r zero input res
  assume f: "cetus_fee f" and pre: "step_pre p t l r zero" and run: "localStep p t l r f zero input = Inr res"
  obtain i out q fee where res: "res = (i, out, q, fee)" by (cases res)
  show "step_post Q64 p t r zero input res"
    using localStep_in [OF f pre] localStep_out [OF f pre] run res by (cases input) auto
qed simp


lemma localStep_no_panic:
  assumes f: "cetus_fee f" and pre: "step_pre p t l r zero" and l: "0 < l"
  shows "\<not> panics (localStep p t l r f zero input)"
proof -
  have pos: "0 < p" "0 < t" "0 \<le> l" "0 \<le> r" and dir: "if zero then t \<le> p else p \<le> t" using pre by (simp_all add: step_pre_def)
  note u = cetus_fee_uint [OF f]
  define a where "a = r * (1000000 - uint f) div 1000000"
  have a: "0 \<le> a" using u pos by (simp add: a_def pos_imp_zdiv_nonneg_iff)
  have av: "localDiv (r * uint (1000000 - f)) 1000000 False = Inr a" using u pos by (simp add: localDiv_pos a_def)
  have charge: "localDiv (n * uint f) (uint (1000000 - f)) True = Inr (cdiv (n * uint f) (1000000 - uint f))" if "0 \<le> n" for n
    using that u by (simp add: localDiv_pos)
  have n: "0 \<le> amt Q64 p t l zero True" using pos by (simp add: amt_nonneg)
  have in_q: "0 < move_in Q64 p l a zero" using move_in_amt(1) [OF _ pos(1) l a, of Q64 zero] by simp
  show ?thesis
  proof (cases input)
    case True
    then show ?thesis using pos l a av charge [OF n] in_q
      by (auto simp: localStep_def Let_def localDelta_amt localNext_in panics_ebind)
  next
    case False
    show ?thesis
    proof (cases "r < amt Q64 p t l (\<not> zero) False")
      case True
      note m = move_out_amt [OF _ pos(1) l pos(4,2) dir True]
      let ?q = "move_out Q64 p l r zero"
      have q: "0 < ?q" "zero \<or> 0 < Q64 * l - r * p" using m(1,4) by simp_all
      then have "0 \<le> amt Q64 p ?q l zero True" using pos by (simp add: amt_nonneg)
      then show ?thesis using False True pos l q charge
        by (auto simp: localStep_def Let_def localDelta_amt localNext_out panics_ebind)
    next
      case reached: False
      then show ?thesis using False pos charge [OF n]
        by (auto simp: localStep_def Let_def localDelta_amt panics_ebind)
    qed
  qed
qed

section \<open>The walk keeps the books\<close>

definition swap_books :: "bool \<Rightarrow> bool \<Rightarrow> int \<Rightarrow> int \<Rightarrow> swap \<Rightarrow> bool" where
  "swap_books a2b exactInput p0 amount st \<longleftrightarrow>
     totals Q64 a2b exactInput p0 amount (price st) (remaining st) (totalIn st - totalFee st) (totalOut st) (totalFee st)
     \<and> 0 \<le> liq st \<and> liq st < 2 ^ 128"

lemma pass_interval_books:
  assumes b: "swap_books a2b input p0 amount st" and p0: "0 < p0" and f: "cetus_fee f"
    and t: "0 < target" "if a2b then target \<le> price st else price st \<le> target"
  shows "case pass_interval f a2b input target st of Inl e \<Rightarrow> \<not> panics (Inl e :: unit res)
    | Inr st' \<Rightarrow> swap_books a2b input p0 amount st'"
proof (cases "liq st = 0")
  case True
  then have "swap_books a2b input p0 amount (st\<lparr>price := target\<rparr>)"
    using b t by (auto simp: swap_books_def totals_def split: if_splits)
  then show ?thesis using True by (simp add: pass_interval_def)
next
  case False
  have tot: "totals Q64 a2b input p0 amount (price st) (remaining st) (totalIn st - totalFee st) (totalOut st) (totalFee st)"
    and l: "0 < liq st" "liq st < 2 ^ 128" using b False by (auto simp: swap_books_def)
  have pre: "step_pre (price st) target (liq st) (remaining st) a2b"
    using tot l t by (simp add: step_pre_def totals_def)
  show ?thesis
  proof (cases "localStep (price st) target (liq st) (remaining st) f a2b input")
    case (Inl e)
    then show ?thesis using localStep_no_panic [OF f pre l(1), of input] False by (simp add: pass_interval_def panics_def)
  next
    case (Inr r)
    obtain i out q fee where r: "r = (i, out, q, fee)" by (cases r)
    note s = cetus.totals_step(1) [OF tot p0 f pre Inr [unfolded r]]
    have e: "totalIn st + i - totalFee st = totalIn st - totalFee st + i" by simp
    have "swap_books a2b input p0 amount (st\<lparr>remaining := remaining st - (if input then i + fee else out),
        totalIn := totalIn st + i + fee, totalOut := totalOut st + out, totalFee := totalFee st + fee, price := q\<rparr>)"
      using s l by (cases input) (simp_all add: swap_books_def e)
    then show ?thesis using Inr r False by (simp add: pass_interval_def Let_def)
  qed
qed

lemma cross_books:
  assumes "swap_books a2b input p0 amount st"
  shows "case cross a2b target t st of Inl e \<Rightarrow> \<not> panics (Inl e :: unit res) | Inr st' \<Rightarrow> swap_books a2b input p0 amount st'"
  using assms by (auto simp: cross_def Let_def swap_books_def BitLen_gt_def)

lemma walk_books:
  assumes "swap_books a2b input p0 amount st" and "0 < p0" and "cetus_fee f" and "\<forall>t \<in> set ts. 0 < the (SqrtPrice t)"
  shows "case walk_ticks k f a2b input ts st of Inl e \<Rightarrow> \<not> panics (Inl e :: unit res)
    | Inr st' \<Rightarrow> swap_books a2b input p0 amount st'"
  using assms(1,4)
proof (induction ts arbitrary: st)
  case (Cons t ts)
  let ?target = "the (SqrtPrice t)"
  show ?case
  proof (cases "(a2b \<and> Index t > k) \<or> (\<not> a2b \<and> Index t \<le> k)")
    case True
    then show ?thesis using Cons by simp
  next
    case here: False
    show ?thesis
    proof (cases "(a2b \<and> ?target > price st) \<or> (\<not> a2b \<and> ?target < price st)")
      case True
      then show ?thesis using here by (cases a2b) (simp_all add: Let_def)
    next
      case False
      then have dir: "if a2b then ?target \<le> price st else price st \<le> ?target" by auto
      have run: "walk_ticks k f a2b input (t # ts) st = ebind (pass_interval f a2b input ?target st) (\<lambda>st.
          if remaining st = 0 then Inr st else ebind (cross a2b ?target t st) (walk_ticks k f a2b input ts))"
        using here False by (simp only: walk_ticks.simps Let_def if_False)
      have pass: "case pass_interval f a2b input ?target st of Inl e \<Rightarrow> \<not> panics (Inl e :: unit res)
          | Inr st' \<Rightarrow> swap_books a2b input p0 amount st'"
        using Cons.prems by (intro pass_interval_books [OF _ assms(2,3) _ dir]) simp_all
      show ?thesis
      proof (cases "pass_interval f a2b input ?target st")
        case (Inl e)
        then show ?thesis using run pass by simp
      next
        case (Inr st')
        then have b: "swap_books a2b input p0 amount st'" using pass by simp
        show ?thesis
        proof (cases "remaining st' = 0")
          case True
          then show ?thesis using run Inr b by simp
        next
          case more: False
          show ?thesis using run Inr more cross_books [OF b, of ?target t] Cons.IH Cons.prems(2)
            by (cases "cross a2b ?target t st'") simp_all
        qed
      qed
    qed
  qed
qed simp

lemma check_ticks_pos: "check_ticks prev ts = Inr () \<Longrightarrow> \<forall>t \<in> set ts. 0 < the (SqrtPrice t)"
  by (induction ts arbitrary: prev) (auto split: if_splits)

lemma check_ticks_Inl: "check_ticks prev ts = Inl e \<Longrightarrow> \<not> panics (Inl e :: unit res)"
  by (induction ts arbitrary: prev) (auto split: if_splits)

lemma window_ticks_Inl: "window_ticks p ts w = Inl e \<Longrightarrow> \<not> panics (Inl e :: unit res)"
  by (auto simp: window_ticks_def panics_def split: option.splits if_splits)

lemma makeResult_books:
  assumes b: "swap_books a2b input p0 (uint amount) st"
  shows "case makeResult p w st of Inl e \<Rightarrow> \<not> panics (Inl e :: unit res)
    | Inr q \<Rightarrow> uint (if input then AmountIn q else AmountOut q) + (if input then uint (FeeAmount q) else 0) = uint amount
        \<and> fair Q64 a2b p0 (uint (AmountIn q)) (uint (AmountOut q)) \<and> 0 < uint (AmountOut q)
        \<and> (if a2b then AfterSqrtPrice q \<le> p0 else p0 \<le> AfterSqrtPrice q)"
proof (cases "makeResult p w st")
  case (Inl e)
  then show ?thesis by (auto simp: makeResult_def panics_def split: if_splits)
next
  case (Inr q)
  have tot: "totals Q64 a2b input p0 (uint amount) (price st) (remaining st) (totalIn st - totalFee st) (totalOut st) (totalFee st)"
    using b by (simp add: swap_books_def)
  have q: "remaining st = 0" "IsUint64 (totalIn st)" "IsUint64 (totalOut st)" "IsUint64 (totalFee st)" "totalOut st \<noteq> 0"
    "q = \<lparr>AmountIn = u64_of (totalIn st - totalFee st), AmountOut = u64_of (totalOut st),
                FeeAmount = u64_of (totalFee st), quoted_rate = FeeRate p, AfterSqrtPrice = price st\<rparr>"
    using Inr by (auto simp: makeResult_def split: if_splits)
  have i: "IsUint64 (totalIn st - totalFee st)" using tot q(2,4) by (auto simp: IsUint64_def totals_def)
  show ?thesis using Inr tot q i by (auto simp: uint_u64_of totals_def split: if_splits)
qed

lemma quote_cases:
  "case Quote s amount a2b input of Inl e \<Rightarrow> \<not> panics (Inl e :: unit res)
    | Inr q \<Rightarrow> (let p0 = the (CurrentSqrtPrice (snap_pool s)) in 0 < p0
        \<and> uint (if input then AmountIn q else AmountOut q) + (if input then uint (FeeAmount q) else 0) = uint amount
        \<and> fair Q64 a2b p0 (uint (AmountIn q)) (uint (AmountOut q)) \<and> 0 < uint (AmountOut q)
        \<and> (if a2b then AfterSqrtPrice q \<le> p0 else p0 \<le> AfterSqrtPrice q))"
proof (cases "state_invalid (snap_pool s) amount")
  case True
  then show ?thesis by (simp add: Quote_def)
next
  case False
  let ?pool = "snap_pool s"
  let ?start = "the (CurrentSqrtPrice ?pool)"
  let ?st = "\<lparr>price = ?start, liq = the (Liquidity ?pool), remaining = uint amount, totalIn = 0, totalOut = 0, totalFee = 0\<rparr>"
  have pos: "0 < ?start" "0 \<le> the (Liquidity ?pool)" "the (Liquidity ?pool) < 2 ^ 128" "cetus_fee (FeeRate ?pool)"
    using False by (auto simp: state_invalid_def BitLen_gt_def cetus_fee_def not_le)
  then have b: "swap_books a2b input ?start (uint amount) ?st" by (simp add: swap_books_def totals_start)
  show ?thesis
  proof (cases "window_ticks ?pool (Ticks s) (window s)")
    case (Inl e)
    then show ?thesis using False window_ticks_Inl by (simp add: Quote_def Let_def)
  next
    case (Inr ts)
    let ?ts = "sort_key Index ts"
    show ?thesis
    proof (cases "check_ticks None ?ts")
      case (Inl e)
      then show ?thesis using False Inr check_ticks_Inl by (simp add: Quote_def Let_def)
    next
      case ok: (Inr x)
      have "\<forall>t \<in> set (if a2b then rev ?ts else ?ts). 0 < the (SqrtPrice t)"
        using check_ticks_pos [of None ?ts] ok by (cases x) auto
      note walk = walk_books [OF b pos(1,4) this, of "CurrentTickIndex ?pool"]
      define W where "W = walk_ticks (CurrentTickIndex ?pool) (FeeRate ?pool) a2b input (if a2b then rev ?ts else ?ts) ?st"
      have run: "Quote s amount a2b input = ebind W (makeResult ?pool (window s))"
        using False Inr ok by (simp add: Quote_def Let_def W_def)
      show ?thesis
      proof (cases W)
        case (Inl e)
        then show ?thesis using run walk by (simp add: W_def)
      next
        case fin: (Inr st)
        then have "swap_books a2b input ?start (uint amount) st" using walk by (simp add: W_def)
        from makeResult_books [OF this, of ?pool "window s"] show ?thesis
          using run fin pos(1) by (cases "makeResult ?pool (window s) st") (simp_all only: ebind_simps sum.case Let_def simp_thms, auto)
      qed
    qed
  qed
qed

text \<open>
  C24. Cetus' local quote (\<open>LocalSnapshot.Quote\<close>), for every snapshot, amount, direction and mode, with or without a
  window of known ticks, and no assumption on them: it never divides by zero or follows nil. A quote consumes
  exactly the amount (input and fee, or output), pays something, is never better than the price of the
  snapshot, and moves the price in the direction of the swap.
\<close>

theorem cetus_Quote_sound:
  "case Quote s amount a2b exactInput of Inl e \<Rightarrow> \<not> panics (Inl e :: unit res)
    | Inr q \<Rightarrow> (let p0 = the (CurrentSqrtPrice (snap_pool s)); i = uint (AmountIn q); out = uint (AmountOut q) in
        0 < p0 \<and> 0 < out \<and> (if exactInput then i + uint (FeeAmount q) = uint amount else out = uint amount)
        \<and> (if a2b then out * (2 ^ 64)\<^sup>2 \<le> i * p0\<^sup>2 \<and> AfterSqrtPrice q \<le> p0
            else out * p0\<^sup>2 \<le> i * (2 ^ 64)\<^sup>2 \<and> p0 \<le> AfterSqrtPrice q))"
  using quote_cases [where s = s and amount = amount and a2b = a2b and input = exactInput]
  by (cases a2b; cases exactInput) (auto simp: fair_def Let_def split: sum.splits)

text \<open>
  Bid and ask of a snapshot do not cross: selling an amount never yields more than buying the same amount
  costs, fees left out on both sides.
\<close>

lemma cetus_quotes_no_crossing:
  assumes "Quote s amount a2b True = Inr bid" and "Quote s amount (\<not> a2b) False = Inr ask"
  shows "AmountOut bid \<le> AmountIn ask"
proof -
  let ?start = "the (CurrentSqrtPrice (snap_pool s))"
  have b: "0 < ?start" "uint (AmountIn bid) + uint (FeeAmount bid) = uint amount"
    "fair Q64 a2b ?start (uint (AmountIn bid)) (uint (AmountOut bid))"
    using quote_cases [where s = s and amount = amount and a2b = a2b and input = True] assms(1) by (simp_all add: Let_def)
  have a: "uint (AmountOut ask) = uint amount" "fair Q64 (\<not> a2b) ?start (uint (AmountIn ask)) (uint (AmountOut ask))"
    using quote_cases [where s = s and amount = amount and a2b = "\<not> a2b" and input = False] assms(2) by (cases a2b; simp add: Let_def)+
  have n: "uint (AmountIn bid) \<le> uint amount" using b(2) uint64_bounds(1) [of "FeeAmount bid"] by linarith
  have "uint (AmountOut bid) \<le> uint (AmountIn ask)"
  proof (cases a2b)
    case True
    have "uint (AmountOut bid) * Q64\<^sup>2 \<le> uint (AmountIn bid) * ?start\<^sup>2" using b(3) True by (simp add: fair_def)
    also have "\<dots> \<le> uint amount * ?start\<^sup>2" using n by (intro mult_right_mono) simp_all
    also have "\<dots> \<le> uint (AmountIn ask) * Q64\<^sup>2" using a True by (simp add: fair_def)
    finally show ?thesis by simp
  next
    case False
    have "uint (AmountOut bid) * ?start\<^sup>2 \<le> uint (AmountIn bid) * Q64\<^sup>2" using b(3) False by (simp add: fair_def)
    also have "\<dots> \<le> uint amount * Q64\<^sup>2" using n by (intro mult_right_mono) simp_all
    also have "\<dots> \<le> uint (AmountIn ask) * ?start\<^sup>2" using a False by (simp add: fair_def)
    finally show ?thesis using b(1) by (simp add: mult_le_cancel_right)
  qed
  then show ?thesis by (simp add: word_le_def)
qed

definition sample_cetus :: LocalSnapshot where
  "sample_cetus = \<lparr>snap_pool = \<lparr>CurrentSqrtPrice = Some (2 ^ 64), CurrentTickIndex = 0, Liquidity = Some (10 ^ 12),
     FeeRate = 2500, Paused = False\<rparr>,
     Ticks = [\<lparr>Index = 100, SqrtPrice = Some (sqrtAtTick 100), LiquidityNet = Some (- (10 ^ 12))\<rparr>,
              \<lparr>Index = - 100, SqrtPrice = Some (sqrtAtTick (- 100)), LiquidityNet = Some (10 ^ 12)\<rparr>],
     window = None\<rparr>"

lemma cetus_quotes_no_crossing_witness:
  "\<exists>bid ask. Quote sample_cetus 1000000 True True = Inr bid \<and> Quote sample_cetus 1000000 False False = Inr ask
     \<and> AmountOut bid \<le> AmountIn ask"
proof -
  have "\<not> isl (Quote sample_cetus 1000000 True True)" "\<not> isl (Quote sample_cetus 1000000 False False)" by code_simp+
  then obtain bid ask where r: "Quote sample_cetus 1000000 True True = Inr bid" "Quote sample_cetus 1000000 False False = Inr ask"
    by (metis isl_def sum.exhaust)
  then show ?thesis using cetus_quotes_no_crossing [of sample_cetus 1000000 True bid ask] by simp
qed

end
