(* ===== verification/Bcs.thy ===== *)
theory Bcs
  imports Proc Go_Text
begin

text \<open>
  \<open>go/sui/transaction_bcs_primitives.go\<close>: the writer and the reader of Binary Canonical Serialization.

  Both keep their first error and ignore every later call. A writer is therefore its data or its error
  (\<open>bytes res\<close>), and a reader is a \<open>proc\<close> on the bytes from its position on: what the Go code reads after an
  error is zero values that no caller returns. The contract of a reader and its encoding is the locale
  \<open>codec\<close>; it is interpreted on every primitive here and on every transaction part later.
\<close>

section \<open>The writer\<close>

abbreviation maxTransactionElements :: nat where "maxTransactionElements \<equiv> 65536"
abbreviation maxMoveTypeDepth :: nat where "maxMoveTypeDepth \<equiv> 64"

definition maxTransactionDataSize :: nat where
  "maxTransactionDataSize = 1048576"

type_synonym writer = "bytes res"

definition raw :: "bytes \<Rightarrow> writer \<Rightarrow> writer" where
  "raw value w =
     ebind w (\<lambda>data. if int (length value) > int maxTransactionDataSize - int (length data)
       then Inl (Fail ''data=too_long'') else Inr (data @ value))"

lemma drop7_less: "128 \<le> v \<Longrightarrow> unat (drop_bit 7 v) < unat (v :: u32)"
  unfolding unat_drop_bit_eq by (simp add: drop_bit_eq_div word_le_nat_alt)

function put_uleb :: "u32 \<Rightarrow> writer \<Rightarrow> writer" where
  "put_uleb value w =
     (if value \<ge> 128 then put_uleb (drop_bit 7 value) (raw [ucast value OR 128] w) else raw [ucast value] w)"
  by pat_completeness auto
termination
  by (relation "measure (\<lambda>(v, w). unat v)") (auto intro: drop7_less)

definition put_u16 :: "u16 \<Rightarrow> writer \<Rightarrow> writer" where
  "put_u16 value = raw (le_bytes 2 (uint value))"

definition put_u64 :: "u64 \<Rightarrow> writer \<Rightarrow> writer" where
  "put_u64 value = raw (le_bytes 8 (uint value))"

definition put_bytes :: "bytes \<Rightarrow> writer \<Rightarrow> writer" where
  "put_bytes value w = raw value (put_uleb (word_of_nat (length value)) w)"

text \<open>A string is written as its bytes.\<close>

definition string_bytes :: "string \<Rightarrow> bytes" where
  "string_bytes s = List.map of_char s"

definition bytes_string :: "bytes \<Rightarrow> string" where
  "bytes_string bs = List.map (\<lambda>b. char_of (uint b)) bs"

definition put_text :: "string \<Rightarrow> writer \<Rightarrow> writer" where
  "put_text value = put_bytes (string_bytes value)"

section \<open>The reader\<close>

type_synonym 'a reader = "(bytes, 'a) proc"

definition read_raw :: "nat \<Rightarrow> bytes reader" where
  "read_raw n =
     reading (\<lambda>rest. if n > length rest then throw (Fail ''data=too_short'')
       else andthen (update (drop n)) (\<lambda>_. ret (take n rest)))"

definition read_byte :: "u8 reader" where
  "read_byte = andthen (read_raw 1) (\<lambda>value. ret (hd value))"

text \<open>At most five bytes, the last of which is at most 15, and no leading zero group.\<close>

fun uleb_loop :: "nat \<Rightarrow> nat \<Rightarrow> u32 \<Rightarrow> u32 reader" where
  "uleb_loop 0 i value = throw (Fail ''uleb128=invalid'')"
| "uleb_loop (Suc k) i value =
     andthen read_byte (\<lambda>b.
       if i = 4 \<and> b > 15 then throw (Fail ''uleb128=out_of_range'')
       else
         (let value = value OR push_bit (7 * i) (ucast (b AND 127))
          in if b AND 128 = 0 then (if i > 0 \<and> b = 0 then throw (Fail ''uleb128=non_canonical'') else ret value)
             else uleb_loop k (Suc i) value))"

definition read_uleb :: "u32 reader" where
  "read_uleb = uleb_loop 5 0 0"

definition read_length :: "nat \<Rightarrow> nat reader" where
  "read_length limit =
     andthen read_uleb (\<lambda>value. reading (\<lambda>rest.
       if unat value > limit \<or> unat value > length rest then throw (Fail ''length=out_of_range'') else ret (unat value)))"

definition read_u16 :: "u16 reader" where
  "read_u16 = andthen (read_raw 2) (\<lambda>value. ret (word_of_int (le_int value)))"

definition read_u64 :: "u64 reader" where
  "read_u64 = andthen (read_raw 8) (\<lambda>value. ret (word_of_int (le_int value)))"

definition read_bytes :: "bytes reader" where
  "read_bytes = andthen (read_length maxTransactionDataSize) read_raw"

definition read_text :: "string reader" where
  "read_text = andthen read_bytes (\<lambda>value.
     if \<not> ValidString (bytes_string value) then throw (Fail ''string=invalid'') else ret (bytes_string value))"

definition read_address :: "bytes reader" where
  "read_address = read_raw 32"

primrec read_many :: "nat \<Rightarrow> 'a reader \<Rightarrow> 'a list reader" where
  "read_many 0 r = ret []"
| "read_many (Suc n) r = andthen r (\<lambda>x. andthen (read_many n r) (\<lambda>xs. ret (x # xs)))"

text \<open>A slice: its length, then its elements.\<close>

definition read_slice :: "'a reader \<Rightarrow> 'a list reader" where
  "read_slice r = andthen (read_length maxTransactionElements) (\<lambda>n. read_many n r)"

definition put_slice :: "('a \<Rightarrow> writer \<Rightarrow> writer) \<Rightarrow> 'a list \<Rightarrow> writer \<Rightarrow> writer" where
  "put_slice put xs w = fold put xs (put_uleb (word_of_nat (length xs)) w)"

section \<open>What is written\<close>

lemma raw_raw [simp]: "raw b (raw a w) = raw (a @ b) w"
  by (cases w) (auto simp: raw_def)

function uleb_bytes :: "u32 \<Rightarrow> bytes" where
  "uleb_bytes value = (if value \<ge> 128 then (ucast value OR 128) # uleb_bytes (drop_bit 7 value) else [ucast value])"
  by pat_completeness auto
termination
  by (relation "measure unat") (auto intro: drop7_less)

declare put_uleb.simps [simp del] uleb_bytes.simps [simp del]

lemma put_uleb_raw: "put_uleb v w = raw (uleb_bytes v) w"
proof (induction v w rule: put_uleb.induct)
  case (1 v w)
  then show ?case by (subst put_uleb.simps, subst uleb_bytes.simps) simp
qed

lemma put_bytes_raw: "put_bytes v w = raw (uleb_bytes (word_of_nat (length v)) @ v) w"
  by (simp add: put_bytes_def put_uleb_raw)

lemma put_text_raw: "put_text v w = raw (uleb_bytes (word_of_nat (length v)) @ string_bytes v) w"
  by (simp add: put_text_def put_bytes_raw string_bytes_def)

lemma fold_raw: "(\<And>x w. x \<in> set xs \<Longrightarrow> put x w = raw (e x) w) \<Longrightarrow> fold put xs (raw a w) = raw (a @ concat (List.map e xs)) w"
  by (induction xs arbitrary: a) simp_all

lemma put_slice_raw:
  "(\<And>x w. x \<in> set xs \<Longrightarrow> put x w = raw (e x) w)
   \<Longrightarrow> put_slice put xs w = raw (uleb_bytes (word_of_nat (length xs)) @ concat (List.map e xs)) w"
  by (simp add: put_slice_def put_uleb_raw fold_raw)

lemma raw_start: "raw bs (Inr []) = (if length bs \<le> maxTransactionDataSize then Inr bs else Inl (Fail ''data=too_long''))"
  by (simp add: raw_def)

section \<open>Readers undo writers\<close>

text \<open>
  A reader takes exactly the encodings of the values in \<open>ok\<close>, each in one way, and leaves what follows.
\<close>

locale codec =
  fixes read :: "'a reader" and enc :: "'a \<Rightarrow> bytes" and ok :: "'a \<Rightarrow> bool"
  assumes reads: "ok x \<Longrightarrow> read (enc x @ rest) = (Inr x, rest)"
    and sound: "read bs = (Inr x, rest) \<Longrightarrow> ok x \<and> bs = enc x @ rest"
begin

lemma enc_inject: "ok x \<Longrightarrow> ok y \<Longrightarrow> enc x @ r = enc y @ s \<longleftrightarrow> x = y \<and> r = s"
  by (metis reads Pair_inject sum.inject(2))

lemma soundE:
  assumes "read bs = (Inr x, rest)"
  obtains "ok x" and "bs = enc x @ rest"
  using sound [OF assms] by blast

lemma many_reads: "list_all ok xs \<Longrightarrow> read_many (length xs) read (concat (List.map enc xs) @ rest) = (Inr xs, rest)"
  by (induction xs) (simp_all add: reads andthen_cases)

lemma many_sound:
  "read_many n read bs = (Inr xs, rest) \<Longrightarrow> length xs = n \<and> list_all ok xs \<and> bs = concat (List.map enc xs) @ rest"
proof (induction n arbitrary: bs xs)
  case (Suc n)
  then show ?case by (auto dest!: sound)
qed simp

end

locale item_codec = codec +
  assumes nonempty: "ok x \<Longrightarrow> enc x \<noteq> []"
begin

lemma count_le: "list_all ok xs \<Longrightarrow> length xs \<le> length (concat (List.map enc xs))"
proof (induction xs)
  case (Cons x xs)
  then have "enc x \<noteq> []" using nonempty by simp
  then show ?case using Cons by (cases "enc x") simp_all
qed simp

end

lemma read_raw_eq: "read_raw n bs = (if n \<le> length bs then (Inr (take n bs), drop n bs) else (Inl (Fail ''data=too_short''), bs))"
  by (simp add: read_raw_def)

lemma raw_codec: "codec (read_raw n) (\<lambda>v. v) (\<lambda>v. length v = n)"
  by unfold_locales (auto simp: read_raw_eq split: if_splits)

interpretation address: item_codec read_address "\<lambda>v. v" "\<lambda>v. length v = 32"
  unfolding read_address_def item_codec_def by (auto simp: raw_codec item_codec_axioms_def)

lemma read_byte_eq: "read_byte bs = (case bs of [] \<Rightarrow> (Inl (Fail ''data=too_short''), []) | b # rest \<Rightarrow> (Inr b, rest))"
  by (simp add: read_byte_def andthen_cases read_raw_eq split: list.splits)

interpretation u16: item_codec read_u16 "\<lambda>v. le_bytes 2 (uint v)" "\<lambda>_. True"
proof unfold_locales
  show "read_u16 (le_bytes 2 (uint x) @ rest) = (Inr x, rest)" for x :: u16 and rest
    using uint_bounded [of x] by (simp add: read_u16_def andthen_cases read_raw_eq le_int_le_bytes)
next
  fix bs x rest
  assume "read_u16 bs = (Inr x, rest)"
  then have x: "2 \<le> length bs" "x = word_of_int (le_int (take 2 bs))" "rest = drop 2 bs"
    by (auto simp: read_u16_def read_raw_eq split: if_splits)
  then have "length (take 2 bs) = 2" by simp
  then have "uint x = le_int (take 2 bs)" "le_bytes 2 (le_int (take 2 bs)) = take 2 bs"
    using x(2) le_int_bounds [of "take 2 bs"] le_bytes_le_int [of "take 2 bs"] by (simp_all add: uint_word_of_int)
  then show "True \<and> bs = le_bytes 2 (uint x) @ rest" using x(3) by simp
qed (metis length_le_bytes list.size(3) zero_neq_numeral)

interpretation u64: item_codec read_u64 "\<lambda>v. le_bytes 8 (uint v)" "\<lambda>_. True"
proof unfold_locales
  show "read_u64 (le_bytes 8 (uint x) @ rest) = (Inr x, rest)" for x :: u64 and rest
    using uint_bounded [of x] by (simp add: read_u64_def andthen_cases read_raw_eq le_int_le_bytes)
next
  fix bs x rest
  assume "read_u64 bs = (Inr x, rest)"
  then have x: "8 \<le> length bs" "x = word_of_int (le_int (take 8 bs))" "rest = drop 8 bs"
    by (auto simp: read_u64_def read_raw_eq split: if_splits)
  then have "length (take 8 bs) = 8" by simp
  then have "uint x = le_int (take 8 bs)" "le_bytes 8 (le_int (take 8 bs)) = take 8 bs"
    using x(2) le_int_bounds [of "take 8 bs"] le_bytes_le_int [of "take 8 bs"] by (simp_all add: uint_word_of_int)
  then show "True \<and> bs = le_bytes 8 (uint x) @ rest" using x(3) by simp
qed (metis length_le_bytes list.size(3) zero_neq_numeral)

section \<open>Canonical length prefixes\<close>

lemma small_bits: "v < 128 \<Longrightarrow> bit (v :: u32) n \<Longrightarrow> n < 7"
proof (rule ccontr)
  assume v: "v < 128" "bit v n" and "\<not> n < 7"
  then have "(2::nat) ^ 7 \<le> 2 ^ n" by (intro power_increasing) simp_all
  then have "unat v < 2 ^ n" using v(1) by (simp add: word_less_nat_alt)
  then have "\<not> bit (unat v) n" by (simp add: bit_iff_odd)
  then show False using v(2) by (simp add: bit_unsigned_iff)
qed

lemma bit_7: "bit (127 :: u8) n \<longleftrightarrow> n < 7" "bit (128 :: u8) n \<longleftrightarrow> n = 7"
proof -
  have "(127 :: u8) = mask 7" "(128 :: u8) = push_bit 7 1" by (simp_all add: mask_eq_exp_minus_1 push_bit_eq_mult)
  then show "bit (127 :: u8) n \<longleftrightarrow> n < 7" "bit (128 :: u8) n \<longleftrightarrow> n = 7"
    by (simp_all only: bit_mask_iff bit_push_bit_iff bit_1_iff) auto
qed

lemmas seven_bits = bit_and_iff bit_or_iff bit_7 bit_ucast_iff bit_take_bit_iff bit_push_bit_iff bit_drop_bit_eq o_apply

lemma more_byte:
  fixes v :: u32
  shows "(ucast v OR 128 :: u8) AND 128 \<noteq> 0" "ucast ((ucast v OR 128 :: u8) AND 127) = take_bit 7 v"
proof -
  have "bit ((ucast v OR 128 :: u8) AND 128) 7" by (simp only: seven_bits) simp
  then show "(ucast v OR 128 :: u8) AND 128 \<noteq> 0" by force
  show "ucast ((ucast v OR 128 :: u8) AND 127) = take_bit 7 v"
  proof (rule bit_eqI)
    fix n
    show "bit (ucast ((ucast v OR 128 :: u8) AND 127) :: u32) n \<longleftrightarrow> bit (take_bit 7 v) n"
      by (simp only: seven_bits) auto
  qed
qed

lemma last_byte:
  fixes v :: u32
  assumes "v < 128"
  shows "(ucast v :: u8) AND 128 = 0" "ucast ((ucast v :: u8) AND 127) = v" "ucast v = (0 :: u8) \<longleftrightarrow> v = 0"
proof -
  have "bit ((ucast v :: u8) AND 128) n \<longleftrightarrow> bit 0 n" for n
    using small_bits [OF assms, of n] by (simp only: seven_bits) auto
  then show "(ucast v :: u8) AND 128 = 0" by (rule bit_eqI)
  have "bit (ucast ((ucast v :: u8) AND 127) :: u32) n \<longleftrightarrow> bit v n" for n
    using small_bits [OF assms, of n] by (simp only: seven_bits) auto
  then show a: "ucast ((ucast v :: u8) AND 127) = v" by (rule bit_eqI)
  show "ucast v = (0 :: u8) \<longleftrightarrow> v = 0" using a by auto
qed

lemma split7: "take_bit 7 v OR push_bit 7 (drop_bit 7 v) = (v :: u32)"
proof (rule bit_eqI)
  fix n assume "possible_bit TYPE(32 word) n"
  then show "bit (take_bit 7 v OR push_bit 7 (drop_bit 7 v)) n \<longleftrightarrow> bit v n"
    by (cases "n < 7") (simp_all add: seven_bits possible_bit_def)
qed

lemma push7: "push_bit (7 * Suc i) v = push_bit (7 * i) (push_bit 7 (v :: u32))"
  by (simp add: push_bit_push_bit add.commute)

lemma uleb_loop_reads:
  "i + k = 5 \<Longrightarrow> 0 < k \<Longrightarrow> v \<noteq> 0 \<or> i = 0 \<Longrightarrow> unat v < 2 ^ (32 - 7 * i)
   \<Longrightarrow> uleb_loop k i acc (uleb_bytes v @ rest) = (Inr (acc OR push_bit (7 * i) v), rest)"
proof (induction k arbitrary: i acc v)
  case (Suc k)
  have last: "unat v < 16" if "i = 4" using Suc.prems that by simp
  show ?case
  proof (cases "v \<ge> 128")
    case True
    then have i: "i \<noteq> 4" using last by (auto simp: word_le_nat_alt)
    then have k: "0 < k" "Suc i + k = 5" using Suc.prems by auto
    let ?v = "drop_bit 7 v"
    have nz: "?v \<noteq> 0"
      using True by (simp add: drop_bit_eq_div word_le_nat_alt unat_div flip: unat_0_iff)
    have bound: "unat ?v < 2 ^ (32 - 7 * Suc i)"
    proof -
      have e: "32 - 7 * i = (32 - 7 * Suc i) + 7" using k Suc.prems by simp
      have "unat ?v = unat v div 2 ^ 7" unfolding unat_drop_bit_eq by (simp add: drop_bit_eq_div)
      then show ?thesis using Suc.prems(4) unfolding e by (simp add: power_add less_mult_imp_div_less)
    qed
    have "uleb_loop k (Suc i) (acc OR push_bit (7 * i) (take_bit 7 v)) (uleb_bytes ?v @ rest)
        = (Inr ((acc OR push_bit (7 * i) (take_bit 7 v)) OR push_bit (7 * Suc i) ?v), rest)"
      using k nz bound by (intro Suc.IH) simp_all
    also have "(acc OR push_bit (7 * i) (take_bit 7 v)) OR push_bit (7 * Suc i) ?v = acc OR push_bit (7 * i) v"
      by (simp only: push7 or.assoc push_bit_or [symmetric] split7)
    finally show ?thesis using True i
      by (subst uleb_bytes.simps) (simp add: andthen_cases read_byte_eq more_byte Let_def)
  next
    case False
    then have v: "v < 128" by simp
    have "\<not> (i = 4 \<and> (ucast v :: u8) > 15)"
    proof
      assume a: "i = 4 \<and> (ucast v :: u8) > 15"
      then have "unat v < 16" using last by simp
      moreover from this have "unat (ucast v :: u8) = unat v" by (simp add: unsigned_ucast_eq take_bit_nat_eq_self)
      ultimately show False using a by (simp add: word_less_nat_alt)
    qed
    then show ?thesis using v last_byte [OF v] Suc.prems(3)
      by (subst uleb_bytes.simps) (auto simp: andthen_cases read_byte_eq Let_def)
  qed
qed simp

lemma byte_low: "(b :: u8) AND 128 = 0 \<Longrightarrow> b AND 127 = b"
proof (rule bit_eqI)
  fix n assume z: "b AND 128 = 0" and "possible_bit TYPE(8 word) n"
  then have "n < 8" by (simp add: possible_bit_def)
  moreover have "\<not> bit (b AND 128) 7" using z by simp
  then have "\<not> bit b 7" by (simp only: seven_bits) simp
  ultimately show "bit (b AND 127) n \<longleftrightarrow> bit b n" by (simp only: seven_bits) (cases "n = 7"; auto)
qed

lemma byte_high: "(b :: u8) AND 128 \<noteq> 0 \<Longrightarrow> (b AND 127) OR 128 = b"
proof (rule bit_eqI)
  fix n assume z: "b AND 128 \<noteq> 0" and "possible_bit TYPE(8 word) n"
  then have n: "n < 8" by (simp add: possible_bit_def)
  have "bit b 7"
  proof (rule ccontr)
    assume c: "\<not> bit b 7"
    have "b AND 128 = 0" by (rule bit_eqI) (use c in \<open>simp only: seven_bits, auto\<close>)
    then show False using z by simp
  qed
  then show "bit ((b AND 127) OR 128) n \<longleftrightarrow> bit b n" using n by (simp only: seven_bits) (cases "n = 7"; auto)
qed

lemma ucast_byte: "ucast (ucast (b :: u8) :: u32) = b"
  by (rule bit_eqI) (simp only: bit_ucast_iff possible_bit_def, auto)

lemma glue7:
  fixes w :: u32 and b :: u8
  assumes "unat w < 2 ^ 25" and "b AND 128 \<noteq> 0"
  defines "v \<equiv> ucast (b AND 127) OR push_bit 7 w"
  shows "drop_bit 7 v = w" "take_bit 7 v = ucast (b AND 127)" "ucast v OR 128 = b"
proof -
  have high: "\<not> bit w n" if "25 \<le> n" for n
  proof
    assume "bit w n"
    then have "bit (unat w) n" by (simp add: bit_unsigned_iff bit_imp_le_length possible_bit_def)
    moreover have "(2::nat) ^ 25 \<le> 2 ^ n" using that by (intro power_increasing) simp_all
    ultimately show False using assms(1) by (simp add: bit_iff_odd)
  qed
  show "drop_bit 7 v = w"
  proof (rule bit_eqI)
    fix n assume "possible_bit TYPE(32 word) n"
    then show "bit (drop_bit 7 v) n \<longleftrightarrow> bit w n"
      using high [of n] unfolding v_def by (simp only: seven_bits possible_bit_def) (cases "n < 25"; auto)
  qed
  show "take_bit 7 v = ucast (b AND 127)"
    unfolding v_def by (rule bit_eqI) (simp only: seven_bits, auto)
  have "ucast v OR 128 = (b AND 127) OR 128"
  proof (rule bit_eqI)
    fix n assume "possible_bit TYPE(8 word) n"
    then show "bit ((ucast v :: u8) OR 128) n \<longleftrightarrow> bit ((b AND 127) OR 128) n"
      unfolding v_def by (simp only: seven_bits possible_bit_def) (cases "n < 7"; auto)
  qed
  then show "ucast v OR 128 = b" using byte_high [OF assms(2)] by simp
qed

lemma uleb_loop_sound:
  "i + k = 5 \<Longrightarrow> uleb_loop k i acc bs = (Inr x, rest)
   \<Longrightarrow> \<exists>v. bs = uleb_bytes v @ rest \<and> x = acc OR push_bit (7 * i) v \<and> unat v < 2 ^ (32 - 7 * i) \<and> (0 < i \<longrightarrow> v \<noteq> 0)"
proof (induction k arbitrary: i acc bs)
  case (Suc k)
  obtain b bs' where bs: "bs = b # bs'" using Suc.prems(2) by (cases bs) (auto simp: andthen_cases read_byte_eq)
  let ?acc = "acc OR push_bit (7 * i) (ucast (b AND 127))"
  have b15: "\<not> (i = 4 \<and> b > 15)"
    using Suc.prems(2) bs by (auto simp: andthen_cases read_byte_eq)
  show ?case
  proof (cases "b AND 128 = 0")
    case True
    then have low: "b AND 127 = b" by (rule byte_low)
    let ?v = "ucast b :: u32"
    have x: "x = acc OR push_bit (7 * i) ?v" "rest = bs'" "0 < i \<longrightarrow> b \<noteq> 0"
      using Suc.prems(2) bs b15 True low by (auto simp: andthen_cases read_byte_eq Let_def split: if_splits)
    have u: "unat ?v = unat b" using unsigned_less [of b, where ?'a = nat] by (simp add: unsigned_ucast_eq take_bit_nat_eq_self)
    have "b \<le> 127" using word_and_le1 [of b 127] low by simp
    then have "unat b < 128" by (simp add: word_le_nat_alt)
    then have "unat ?v < 128" using u by simp
    then have "\<not> ?v \<ge> 128" by (simp add: word_le_nat_alt)
    then have "uleb_bytes ?v = [b]" by (subst uleb_bytes.simps) (simp add: ucast_byte)
    moreover have "unat ?v < 2 ^ (32 - 7 * i)"
    proof (cases "i = 4")
      case True
      then show ?thesis using b15 u by (simp add: word_less_nat_alt)
    next
      case False
      then have "(2::nat) ^ 7 \<le> 2 ^ (32 - 7 * i)" using Suc.prems(1) by (intro power_increasing) auto
      then show ?thesis using \<open>unat ?v < 128\<close> by simp
    qed
    moreover have "0 < i \<longrightarrow> ?v \<noteq> 0" using x(3) u by (metis unat_eq_zero)
    ultimately show ?thesis using x low bs by (intro exI [of _ ?v]) simp
  next
    case False
    then have "uleb_loop k (Suc i) ?acc bs' = (Inr x, rest)"
      using Suc.prems(2) bs b15 by (simp add: andthen_cases read_byte_eq Let_def)
    then obtain w where w: "bs' = uleb_bytes w @ rest" "x = ?acc OR push_bit (7 * Suc i) w"
      "unat w < 2 ^ (32 - 7 * Suc i)" "w \<noteq> 0"
      using Suc.IH [of "Suc i" ?acc bs'] Suc.prems(1) by auto
    have "(2::nat) ^ (32 - 7 * Suc i) \<le> 2 ^ 25" by (intro power_increasing) simp_all
    then have w25: "unat w < 2 ^ 25" using w(3) by linarith
    define v :: u32 where "v = ucast (b AND 127) OR push_bit 7 w"
    note g = glue7 [OF w25 False, folded v_def]
    have i: "i < 4" using w(3,4) Suc.prems(1) by (cases "i = 4") (auto simp: unat_eq_zero)
    have "unat (drop_bit 7 v) = unat v div 128" unfolding unat_drop_bit_eq by (simp add: drop_bit_eq_div)
    then have vw: "unat v div 128 = unat w" using g(1) by simp
    have big: "v \<ge> 128"
    proof (rule ccontr)
      assume "\<not> ?thesis"
      then have "unat v < 128" by (simp add: word_le_nat_alt)
      then show False using vw w(4) by (simp add: unat_eq_zero)
    qed
    from big have enc: "uleb_bytes v = b # uleb_bytes w" by (subst uleb_bytes.simps) (simp add: g)
    have e: "(2::nat) ^ (32 - 7 * i) = 2 ^ (32 - 7 * Suc i) * 128"
    proof -
      have d: "32 - 7 * i = (32 - 7 * Suc i) + 7" using i by simp
      show ?thesis unfolding d power_add by simp
    qed
    have "unat v < (unat w + 1) * 128" using vw dividend_less_div_times [of 128 "unat v"] by simp
    also have "\<dots> \<le> 2 ^ (32 - 7 * Suc i) * 128" using w(3) by (intro mult_right_mono) simp_all
    finally have "unat v < 2 ^ (32 - 7 * i)" by (simp only: e)
    moreover have "x = acc OR push_bit (7 * i) v"
      by (simp only: v_def w(2) push7 or.assoc push_bit_or)
    moreover have "bs = uleb_bytes v @ rest" using bs w(1) enc by simp
    moreover have "v \<noteq> 0" using big by auto
    ultimately show ?thesis by blast
  qed
qed simp

lemma uleb_nonempty: "uleb_bytes v \<noteq> []"
  by (subst uleb_bytes.simps) simp

interpretation uleb: item_codec read_uleb uleb_bytes "\<lambda>_. True"
proof unfold_locales
  show "read_uleb (uleb_bytes x @ rest) = (Inr x, rest)" for x rest
    using uleb_loop_reads [of 0 5 x 0 rest] unsigned_less [of x, where ?'a = nat] by (simp add: read_uleb_def)
  show "True \<and> bs = uleb_bytes x @ rest" if "read_uleb bs = (Inr x, rest)" for bs x rest
    using uleb_loop_sound [of 0 5 0 bs x rest] that by (simp add: read_uleb_def)
qed (rule uleb_nonempty)

section \<open>Slices, bytes and text\<close>

lemma read_length_reads:
  "n \<le> limit \<Longrightarrow> limit < 2 ^ 32 \<Longrightarrow> n \<le> length rest
   \<Longrightarrow> read_length limit (uleb_bytes (word_of_nat n) @ rest) = (Inr n, rest)"
  by (simp add: read_length_def andthen_cases uleb.reads unsigned_of_nat take_bit_nat_eq_self)

lemma read_length_sound:
  assumes "read_length limit bs = (Inr n, rest)"
  shows "n \<le> limit \<and> n \<le> length rest \<and> n < 2 ^ 32 \<and> bs = uleb_bytes (word_of_nat n) @ rest"
proof -
  obtain v where v: "read_uleb bs = (Inr v, rest)" "n = unat v" "unat v \<le> limit" "unat v \<le> length rest"
    using assms by (auto simp: read_length_def split: if_splits)
  then show ?thesis using uleb.sound [OF v(1)] unsigned_less [of v, where ?'a = nat] by simp
qed

context item_codec
begin

lemma slice_codec:
  "codec (read_slice read) (\<lambda>xs. uleb_bytes (word_of_nat (length xs)) @ concat (List.map enc xs))
     (\<lambda>xs. length xs \<le> maxTransactionElements \<and> list_all ok xs)"
proof unfold_locales
  fix xs rest
  assume "length xs \<le> maxTransactionElements \<and> list_all ok xs"
  then show "read_slice read ((uleb_bytes (word_of_nat (length xs)) @ concat (List.map enc xs)) @ rest) = (Inr xs, rest)"
    using count_le [of xs] by (simp add: read_slice_def andthen_cases read_length_reads many_reads)
next
  fix bs xs rest
  assume "read_slice read bs = (Inr xs, rest)"
  then obtain n r where "read_length maxTransactionElements bs = (Inr n, r)" "read_many n read r = (Inr xs, rest)"
    by (auto simp: read_slice_def)
  then show "(length xs \<le> maxTransactionElements \<and> list_all ok xs)
      \<and> bs = (uleb_bytes (word_of_nat (length xs)) @ concat (List.map enc xs)) @ rest"
    using read_length_sound many_sound by fastforce
qed

end

definition bytes_enc :: "bytes \<Rightarrow> bytes" where
  "bytes_enc v = uleb_bytes (word_of_nat (length v)) @ v"

interpretation bytes: item_codec read_bytes bytes_enc "\<lambda>v. length v \<le> maxTransactionDataSize"
proof unfold_locales
  show "read_bytes (bytes_enc v @ rest) = (Inr v, rest)" if "length v \<le> maxTransactionDataSize" for v rest
    using that by (simp add: read_bytes_def bytes_enc_def andthen_cases read_length_reads read_raw_eq maxTransactionDataSize_def)
  show "length v \<le> maxTransactionDataSize \<and> bs = bytes_enc v @ rest" if r: "read_bytes bs = (Inr v, rest)" for bs v rest
  proof -
    obtain n r where "read_length maxTransactionDataSize bs = (Inr n, r)" "read_raw n r = (Inr v, rest)"
      using r by (auto simp: read_bytes_def)
    then show ?thesis using read_length_sound by (auto simp: bytes_enc_def read_raw_eq split: if_splits)
  qed
qed (simp add: bytes_enc_def uleb_nonempty)

lemma of_char_word: "(of_char c :: u8) = word_of_int (of_char c)"
  using of_int_of_char [of c, where 'a = u8] by simp

lemma of_char_byte: "uint (of_char c :: u8) = of_char c"
proof -
  have "of_char c = of_char c mod (256 :: int)" using of_char_of [of "of_char c :: int"] by simp
  moreover have "uint (of_char c :: u8) = of_char c mod 256" unfolding of_char_word by (simp add: uint_word_of_int)
  ultimately show ?thesis by metis
qed

lemma byte_of_char: "of_char (char_of (uint b)) = (b :: u8)"
proof -
  have "(of_char (char_of (uint b)) :: u8) = word_of_int (uint b mod 256)" unfolding of_char_word of_char_of ..
  then show ?thesis using byte_bounds [of b] by simp
qed

lemma string_bytes_simps [simp]:
  "length (string_bytes s) = length s" "length (bytes_string bs) = length bs"
  "bytes_string (string_bytes s) = s" "string_bytes (bytes_string bs) = bs"
  by (simp_all add: string_bytes_def bytes_string_def o_def of_char_byte byte_of_char)

definition text_enc :: "string \<Rightarrow> bytes" where
  "text_enc s = bytes_enc (string_bytes s)"

interpretation str: item_codec read_text text_enc "\<lambda>s. ValidString s \<and> length s \<le> maxTransactionDataSize"
proof unfold_locales
  show "read_text (text_enc s @ rest) = (Inr s, rest)" if "ValidString s \<and> length s \<le> maxTransactionDataSize" for s rest
    using that bytes.reads [of "string_bytes s" rest]
    by (simp add: read_text_def text_enc_def andthen_cases)
  show "(ValidString s \<and> length s \<le> maxTransactionDataSize) \<and> bs = text_enc s @ rest"
    if "read_text bs = (Inr s, rest)" for bs s rest
    using that by (auto simp: read_text_def text_enc_def dest!: bytes.sound split: if_splits)
qed (simp add: text_enc_def bytes_enc_def uleb_nonempty)

end
