(* ===== verification/Sui_Type_Tag.thy ===== *)
theory Sui_Type_Tag
  imports Bcs
begin

text \<open>
  \<open>go/sui/address.go\<close> and \<open>go/sui/transaction_type_tag.go\<close>: addresses in hexadecimal, and Move types as text,
  as values and as bytes. A parser is a \<open>proc\<close> on the text from its position on; the depth is counted down
  from \<open>maxMoveTypeDepth\<close>.
\<close>

section \<open>Addresses\<close>

type_synonym Address = bytes

definition zero_address :: Address where
  "zero_address = replicate 32 0"

abbreviation IsZero :: "bytes \<Rightarrow> bool" where "IsZero a \<equiv> a = zero_address"

text \<open>\<open>strings.ToLower\<close> on ASCII. Other bytes stay; none of them, lower case or not, is a hexadecimal digit.\<close>

definition lower_char :: "char \<Rightarrow> char" where
  "lower_char c = (if 65 \<le> byte_of c \<and> byte_of c \<le> 90 then char_of (byte_of c + 32) else c)"

definition ToLower :: "string \<Rightarrow> string" where
  "ToLower s = List.map lower_char s"

definition TrimPrefix :: "string \<Rightarrow> string \<Rightarrow> string" where
  "TrimPrefix s p = (if HasPrefix s p then drop (length p) s else s)"

text \<open>\<open>encoding/hex\<close>.\<close>

definition hex_value :: "char \<Rightarrow> nat option" where
  "hex_value c =
     (let n = byte_of c
      in if 48 \<le> n \<and> n \<le> 57 then Some (n - 48)
         else if 97 \<le> n \<and> n \<le> 102 then Some (n - 87)
         else if 65 \<le> n \<and> n \<le> 70 then Some (n - 55) else None)"

fun DecodeString :: "string \<Rightarrow> bytes option" where
  "DecodeString [] = Some []"
| "DecodeString [c] = None"
| "DecodeString (c # d # s) =
     (case hex_value c of None \<Rightarrow> None | Some h \<Rightarrow>
     (case hex_value d of None \<Rightarrow> None | Some l \<Rightarrow>
     (case DecodeString s of None \<Rightarrow> None | Some bs \<Rightarrow> Some (word_of_nat (16 * h + l) # bs))))"

definition hex_digit :: "nat \<Rightarrow> char" where
  "hex_digit n = char_of (if n < 10 then n + 48 else n + 87)"

definition EncodeToString :: "bytes \<Rightarrow> string" where
  "EncodeToString bs = concat (List.map (\<lambda>b. [hex_digit (unat b div 16), hex_digit (unat b mod 16)]) bs)"

definition ParseAddress :: "string \<Rightarrow> Address res" where
  "ParseAddress value =
     (let value = TrimSpace value
      in if value = [] then Inl (Fail ''address=empty'')
         else
           (let value = TrimPrefix (ToLower value) ''0x''
            in if value = [] \<or> length value > 64 then Inl (Fail ''address=invalid'')
               else
                 (let value = (if length value mod 2 \<noteq> 0 then CHR ''0'' # value else value)
                  in case DecodeString value of None \<Rightarrow> Inl (Fail ''address=invalid'')
                     | Some decoded \<Rightarrow> Inr (replicate (32 - length decoded) 0 @ decoded))))"

definition Address_String :: "Address \<Rightarrow> string" where
  "Address_String a = ''0x'' @ EncodeToString a"

definition NormalizeAddress :: "string \<Rightarrow> string res" where
  "NormalizeAddress value = ebind (ParseAddress value) (\<lambda>a. Inr (Address_String a))"

section \<open>Type tags\<close>

datatype transactionTypeTag =
  Tag (tag_kind: u32) (tag_address: Address) (tag_module: string) (tag_name: string) (parameters: "transactionTypeTag list")

abbreviation plain_tag :: "u32 \<Rightarrow> transactionTypeTag list \<Rightarrow> transactionTypeTag" where
  "plain_tag kind ps \<equiv> Tag kind zero_address [] [] ps"

definition word_char :: "char \<Rightarrow> bool" where
  "word_char c \<longleftrightarrow>
     (97 \<le> byte_of c \<and> byte_of c \<le> 122) \<or> (65 \<le> byte_of c \<and> byte_of c \<le> 90) \<or> is_digit c \<or> c = CHR ''_''"

definition validMoveIdentifier :: "string \<Rightarrow> bool" where
  "validMoveIdentifier value \<longleftrightarrow>
     value \<noteq> [] \<and> length value \<le> 128 \<and> list_all word_char value \<and> \<not> is_digit (hd value)"

subsection \<open>Text\<close>

type_synonym 'a parser = "(string, 'a) proc"

definition skip_space :: "string \<Rightarrow> string" where
  "skip_space = dropWhile (\<lambda>c. c \<in> {CHR '' '', CHR 0x09, CHR 0x0A, CHR 0x0D})"

definition consume :: "string \<Rightarrow> bool parser" where
  "consume value =
     andthen (update skip_space) (\<lambda>_. reading (\<lambda>s.
       if \<not> HasPrefix s value then ret False else andthen (update (drop (length value))) (\<lambda>_. ret True)))"

definition word :: "string parser" where
  "word = andthen (update skip_space) (\<lambda>_. reading (\<lambda>s.
     andthen (update (dropWhile word_char)) (\<lambda>_. ret (takeWhile word_char s))))"

definition primitives :: "string list" where
  "primitives = [''bool'', ''u8'', ''u64'', ''u128'', ''address'', ''signer'', ''vector'', ''struct'', ''u16'', ''u32'', ''u256'']"

definition primitive_kind :: "string \<Rightarrow> nat option" where
  "primitive_kind w = List.find (\<lambda>i. w = primitives ! i \<and> i \<noteq> 7) [0..<11]"

text \<open>The list after \<open><\<close>. Every parameter takes a character at least, so the fuel is the length of the text.\<close>

primrec parse_parameters :: "nat \<Rightarrow> transactionTypeTag parser \<Rightarrow> transactionTypeTag list parser" where
  "parse_parameters 0 p = throw (Panic ''parameters'')"
| "parse_parameters (Suc n) p =
     andthen p (\<lambda>inner.
     andthen (consume ''>'') (\<lambda>closed. if closed then ret [inner] else
     andthen (consume '','') (\<lambda>comma. if \<not> comma then throw (Fail ''type=invalid'') else
     andthen (parse_parameters n p) (\<lambda>inners. ret (inner # inners)))))"

primrec parse :: "nat \<Rightarrow> transactionTypeTag parser" where
  "parse 0 = throw (Fail ''nesting=too_long'')"
| "parse (Suc k) =
     andthen word (\<lambda>w. case primitive_kind w of
       Some i \<Rightarrow>
         if i \<noteq> 6 then ret (plain_tag (word_of_nat i) [])
         else
           andthen (consume ''<'') (\<lambda>opened. if \<not> opened then throw (Fail ''type=invalid'') else
           andthen (parse k) (\<lambda>inner.
           andthen (consume ''>'') (\<lambda>closed. if \<not> closed then throw (Fail ''type=invalid'')
           else ret (plain_tag 6 [inner]))))
     | None \<Rightarrow>
         if \<not> HasPrefix w ''0x'' then throw (Fail ''type=invalid'') else
         andthen (consume ''::'') (\<lambda>sep. if \<not> sep then throw (Fail ''type=invalid'') else
         (case ParseAddress w of Inl _ \<Rightarrow> throw (Fail ''type=invalid'') | Inr a \<Rightarrow>
         andthen word (\<lambda>m. if \<not> validMoveIdentifier m then throw (Fail ''type=invalid'') else
         andthen (consume ''::'') (\<lambda>sep. if \<not> sep then throw (Fail ''type=invalid'') else
         andthen word (\<lambda>n. if \<not> validMoveIdentifier n then throw (Fail ''type=invalid'') else
         andthen (consume ''<'') (\<lambda>opened. if \<not> opened then ret (Tag 7 a m n []) else
         andthen (reading (\<lambda>s. parse_parameters (Suc (length s)) (parse k))) (\<lambda>ps. ret (Tag 7 a m n ps)))))))))"

definition parseTransactionTypeTag :: "string \<Rightarrow> transactionTypeTag res" where
  "parseTransactionTypeTag value =
     (if length value > 4096 then Inl (Fail ''type=too_long'')
      else
        (case parse maxMoveTypeDepth (TrimSpace value) of (Inl e, _) \<Rightarrow> Inl e
         | (Inr tag, rest) \<Rightarrow> if skip_space rest \<noteq> [] then Inl (Fail ''suffix=invalid'') else Inr tag))"

fun all_res :: "'a res list \<Rightarrow> 'a list res" where
  "all_res [] = Inr []"
| "all_res (r # rs) = ebind r (\<lambda>x. ebind (all_res rs) (\<lambda>xs. Inr (x # xs)))"

fun comma_join :: "string list \<Rightarrow> string" where
  "comma_join [] = []"
| "comma_join [s] = s"
| "comma_join (s # ss) = s @ '','' @ comma_join ss"

fun tag_text :: "transactionTypeTag \<Rightarrow> string res" where
  "tag_text (Tag kind a m n ps) =
     (let texts = List.map tag_text ps
      in if kind = 6 then (case texts of [] \<Rightarrow> Inl (Panic ''index out of range'') | r # _ \<Rightarrow> ebind r (\<lambda>s. Inr (''vector<'' @ s @ ''>'')))
         else if kind \<noteq> 7 then
           (if unat kind < 11 then Inr (primitives ! unat kind) else Inl (Panic ''index out of range''))
         else
           ebind (all_res texts) (\<lambda>ss.
           Inr (Address_String a @ ''::'' @ m @ ''::'' @ n @ (if ps \<noteq> [] then ''<'' @ comma_join ss @ ''>'' else []))))"

subsection \<open>Bytes\<close>

lemma put_slice_cong [fundef_cong]:
  "xs = ys \<Longrightarrow> w = v \<Longrightarrow> (\<And>x. x \<in> set ys \<Longrightarrow> f x = g x) \<Longrightarrow> put_slice f xs w = put_slice g ys v"
  by (simp add: put_slice_def cong: fold_cong)

fun put_typeTag :: "transactionTypeTag \<Rightarrow> writer \<Rightarrow> writer" where
  "put_typeTag (Tag kind a m n ps) w =
     (let w = put_uleb kind w;
          w = (if kind = 6 then (case ps of [] \<Rightarrow> Inl (Panic ''index out of range'') | p # _ \<Rightarrow> put_typeTag p w) else w)
      in if kind = 7 then put_slice put_typeTag ps (put_text n (put_text m (raw a w))) else w)"

primrec read_typeTag :: "nat \<Rightarrow> transactionTypeTag reader" where
  "read_typeTag 0 = throw (Fail ''type_nesting=too_long'')"
| "read_typeTag (Suc k) =
     andthen read_uleb (\<lambda>kind.
       if kind \<in> {0, 1, 2, 3, 4, 5, 8, 9, 10} then ret (plain_tag kind [])
       else if kind = 6 then andthen (read_typeTag k) (\<lambda>p. ret (plain_tag 6 [p]))
       else if kind = 7 then
         andthen read_address (\<lambda>a.
         andthen read_text (\<lambda>m.
         andthen read_text (\<lambda>n.
         if \<not> validMoveIdentifier m \<or> \<not> validMoveIdentifier n then throw (Fail ''type_identifier=invalid'')
         else andthen (read_slice (read_typeTag k)) (\<lambda>ps. ret (Tag 7 a m n ps)))))
       else throw (Fail ''type_variant=unsupported''))"

section \<open>Addresses as text\<close>

lemma hex_value_digit: "n < 16 \<Longrightarrow> hex_value (hex_digit n) = Some n"
  by (cases "n < 10") (simp_all add: hex_value_def hex_digit_def Let_def)

lemma hex_digit_char:
  assumes "n < 16"
  shows "lower_char (hex_digit n) = hex_digit n" "word_char (hex_digit n)"
  using assms by (cases "n < 10"; simp add: hex_digit_def lower_char_def word_char_def is_digit_def)+

lemma byte_nibbles: "unat (b :: u8) div 16 < 16" "unat b mod 16 < 16" "16 * (unat b div 16) + unat b mod 16 = unat b"
  using unsigned_less [of b, where ?'a = nat] by (simp_all add: less_mult_imp_div_less)

lemma EncodeToString_simps [simp]:
  "EncodeToString [] = []"
  "EncodeToString (b # bs) = hex_digit (unat b div 16) # hex_digit (unat b mod 16) # EncodeToString bs"
  by (simp_all add: EncodeToString_def)

lemma Decode_Encode [simp]: "DecodeString (EncodeToString bs) = Some bs"
  by (induction bs) (simp_all add: hex_value_digit byte_nibbles)

lemma Encode_chars: "c \<in> set (EncodeToString bs) \<Longrightarrow> lower_char c = c \<and> word_char c"
  by (induction bs) (auto simp: hex_digit_char byte_nibbles)

lemma length_Encode [simp]: "length (EncodeToString bs) = 2 * length bs"
  by (induction bs) simp_all

lemma ToLower_hex: "ToLower (''0x'' @ EncodeToString bs) = ''0x'' @ EncodeToString bs"
proof -
  have "List.map lower_char (EncodeToString bs) = EncodeToString bs"
    using Encode_chars by (intro map_idI) blast
  then show ?thesis by (simp add: ToLower_def lower_char_def)
qed

lemma word_char_plain: "word_char c \<Longrightarrow> plain c"
  by (auto simp: word_char_def plain_def is_digit_def)

lemma Address_String_chars: "list_all word_char (Address_String a)"
  using Encode_chars by (auto simp: Address_String_def list_all_iff word_char_def is_digit_def)

lemma Parse_Address_String [simp]:
  assumes "length a = 32"
  shows "ParseAddress (Address_String a) = Inr a"
proof -
  have ne: "Address_String a \<noteq> []" by (simp add: Address_String_def)
  have "plain c" if "c \<in> set (Address_String a)" for c
    using Address_String_chars that word_char_plain by (auto simp: list_all_iff)
  then have "TrimSpace (Address_String a) = Address_String a"
    using ne by (intro TrimSpace_plain) simp_all
  moreover have "TrimPrefix (ToLower (Address_String a)) ''0x'' = EncodeToString a"
    unfolding Address_String_def ToLower_hex by (simp add: TrimPrefix_def HasPrefix_def)
  moreover have "EncodeToString a \<noteq> []" using assms by (cases a) simp_all
  ultimately show ?thesis using assms ne by (simp add: ParseAddress_def)
qed

lemma length_Decode: "DecodeString s = Some bs \<Longrightarrow> length s = 2 * length bs"
  by (induction s arbitrary: bs rule: DecodeString.induct) (auto split: option.splits)

lemma length_ParseAddress: "ParseAddress v = Inr a \<Longrightarrow> length a = 32"
  by (auto simp: ParseAddress_def Let_def split: if_splits option.splits dest!: length_Decode)

section \<open>Well-formed tags\<close>

fun tag_ok :: "nat \<Rightarrow> transactionTypeTag \<Rightarrow> bool" where
  "tag_ok 0 t \<longleftrightarrow> False"
| "tag_ok (Suc k) (Tag kind a m n ps) \<longleftrightarrow>
     (if kind = 7 then
        length a = 32 \<and> validMoveIdentifier m \<and> validMoveIdentifier n \<and> length ps \<le> maxTransactionElements \<and> list_all (tag_ok k) ps
      else kind < 11 \<and> a = zero_address \<and> m = [] \<and> n = [] \<and> (if kind = 6 then length ps = 1 \<and> list_all (tag_ok k) ps else ps = []))"

fun tag_bytes :: "transactionTypeTag \<Rightarrow> bytes" where
  "tag_bytes (Tag kind a m n ps) =
     uleb_bytes kind @
       (if kind = 7 then a @ text_enc m @ text_enc n @ uleb_bytes (word_of_nat (length ps)) @ concat (List.map tag_bytes ps)
        else concat (List.map tag_bytes ps))"

lemma small_kind: "(kind :: u32) < 11 \<longleftrightarrow> kind \<in> {0, 1, 2, 3, 4, 5, 6, 7, 8, 9, 10}"
proof
  assume "kind < 11"
  define n where "n = unat kind"
  have kind: "kind = word_of_nat n" by (simp add: n_def)
  from \<open>kind < 11\<close> have "n < 11" by (simp add: n_def word_less_nat_alt)
  then have "n \<in> {0, 1, 2, 3, 4, 5, 6, 7, 8, 9, 10}" by (simp only: insert_iff empty_iff) presburger
  then show "kind \<in> {0, 1, 2, 3, 4, 5, 6, 7, 8, 9, 10}" unfolding kind by auto
qed auto

lemma identifier_text: "validMoveIdentifier s \<Longrightarrow> ValidString s \<and> length s \<le> maxTransactionDataSize"
  by (auto simp: validMoveIdentifier_def maxTransactionDataSize_def list_all_iff word_char_plain intro!: plain_valid)

lemma tag_bytes_nonempty: "tag_bytes t \<noteq> []"
  by (cases t) (simp add: uleb_nonempty)

lemma typeTag_codec: "item_codec (read_typeTag k) tag_bytes (tag_ok k)"
proof (induction k)
  case 0
  show ?case by unfold_locales simp_all
next
  case (Suc k)
  note inner = item_codec.axioms(1) [OF Suc]
  note slice = item_codec.slice_codec [OF Suc]
  note slice_reads = codec.reads [OF slice, simplified append_assoc]
  show ?case
  proof unfold_locales
    fix t rest
    assume ok: "tag_ok (Suc k) t"
    obtain kind a m n ps where t: "t = Tag kind a m n ps" by (cases t)
    show "read_typeTag (Suc k) (tag_bytes t @ rest) = (Inr t, rest)"
    proof (cases "kind = 7")
      case True
      then show ?thesis using ok identifier_text [of m] identifier_text [of n]
        by (simp add: t andthen_cases uleb.reads address.reads str.reads slice_reads)
    next
      case False
      show ?thesis
      proof (cases "kind = 6")
        case True
        then obtain p where "ps = [p]" "tag_ok k p" using ok by (auto simp: t length_Suc_conv)
        then show ?thesis using ok True by (simp add: t andthen_cases uleb.reads codec.reads [OF inner])
      next
        case no: False
        then show ?thesis using ok False by (auto simp: t andthen_cases uleb.reads small_kind)
      qed
    qed
  next
    fix bs t rest
    assume "read_typeTag (Suc k) bs = (Inr t, rest)"
    then obtain kind r where kind: "read_uleb bs = (Inr kind, r)" and body:
      "(if kind \<in> {0, 1, 2, 3, 4, 5, 8, 9, 10} then ret (plain_tag kind [])
       else if kind = 6 then andthen (read_typeTag k) (\<lambda>p. ret (plain_tag 6 [p]))
       else if kind = 7 then
         andthen read_address (\<lambda>a.
         andthen read_text (\<lambda>m.
         andthen read_text (\<lambda>n.
         if \<not> validMoveIdentifier m \<or> \<not> validMoveIdentifier n then throw (Fail ''type_identifier=invalid'')
         else andthen (read_slice (read_typeTag k)) (\<lambda>ps. ret (Tag 7 a m n ps)))))
       else throw (Fail ''type_variant=unsupported'')) r = (Inr t, rest)"
      unfolding read_typeTag.simps by blast
    have bs: "bs = uleb_bytes kind @ r" using uleb.sound [OF kind] by simp
    consider "kind \<in> {0, 1, 2, 3, 4, 5, 8, 9, 10}" | "kind = 6" | "kind = 7"
      using body by (auto split: if_splits)
    then show "tag_ok (Suc k) t \<and> bs = tag_bytes t @ rest"
    proof cases
      case 1
      then have "kind \<noteq> 6" "kind \<noteq> 7" "kind < 11" by (auto simp: small_kind)
      then show ?thesis using 1 body bs by auto
    next
      case 2
      then show ?thesis using body bs by (auto dest!: codec.sound [OF inner])
    next
      case 3
      then show ?thesis using body bs
        by (auto split: if_splits dest!: address.sound str.sound codec.sound [OF slice])
    qed
  qed (rule tag_bytes_nonempty)
qed

lemma put_typeTag_raw: "tag_ok k t \<Longrightarrow> put_typeTag t w = raw (tag_bytes t) w"
proof (induction k arbitrary: t w)
  case (Suc k)
  obtain kind a m n ps where t: "t = Tag kind a m n ps" by (cases t)
  show ?case
  proof (cases "kind = 7")
    case True
    then have "put_slice put_typeTag ps v = raw (uleb_bytes (word_of_nat (length ps)) @ concat (List.map tag_bytes ps)) v" for v
      using Suc by (intro put_slice_raw) (auto simp: t list_all_iff)
    then show ?thesis using True
      by (simp add: t Let_def put_uleb_raw put_text_raw text_enc_def bytes_enc_def)
  next
    case False
    then show ?thesis using Suc by (cases ps) (auto simp: t Let_def put_uleb_raw split: if_splits)
  qed
qed simp

section \<open>Text of a tag\<close>

lemma plain_no_space: "plain c \<Longrightarrow> c \<notin> {CHR '' '', CHR 0x09, CHR 0x0A, CHR 0x0D}"
  by (auto simp: plain_def)

lemma skip_plain: "s = [] \<or> plain (hd s) \<Longrightarrow> skip_space s = s"
  unfolding skip_space_def using plain_no_space [of "hd s"] by (cases s) auto

lemma consume_plain:
  "s = [] \<or> plain (hd s) \<Longrightarrow> consume v s = (if HasPrefix s v then (Inr True, drop (length v) s) else (Inr False, s))"
  by (simp add: consume_def andthen_cases skip_plain)

lemma word_run:
  assumes "list_all word_char w" "w \<noteq> []" "rest = [] \<or> \<not> word_char (hd rest)"
  shows "word (w @ rest) = (Inr w, rest)"
proof -
  have "plain (hd (w @ rest))" using assms(1,2) word_char_plain by (cases w) auto
  then have "skip_space (w @ rest) = w @ rest" by (intro skip_plain) simp
  moreover have "takeWhile word_char (w @ rest) = w" "dropWhile word_char (w @ rest) = rest"
    using assms(1,3) by (cases rest; auto simp: takeWhile_append2 dropWhile_append2 list_all_iff)+
  ultimately show ?thesis by (simp add: word_def andthen_cases)
qed

lemma primitive_words:
  "list_all (\<lambda>i. i = 7 \<or> primitive_kind (primitives ! i) = Some i) [0..<11]"
  "list_all (\<lambda>w. list_all word_char w \<and> w \<noteq> [] \<and> hd w \<noteq> CHR ''0'') primitives"
  by code_simp+

lemma primitive_kind_Some: "primitive_kind w = Some i \<Longrightarrow> i < 11 \<and> i \<noteq> 7 \<and> w = primitives ! i"
  by (auto simp: primitive_kind_def find_Some_iff)

lemma primitive_word:
  assumes "i < 11"
  shows "primitives ! i \<noteq> []" "list_all word_char (primitives ! i)" "hd (primitives ! i) \<noteq> CHR ''0''"
    "i \<noteq> 7 \<Longrightarrow> primitive_kind (primitives ! i) = Some i"
proof -
  have "length primitives = 11" by (simp add: primitives_def)
  then have "primitives ! i \<in> set primitives" using assms by (intro nth_mem) simp
  then show "primitives ! i \<noteq> []" "list_all word_char (primitives ! i)" "hd (primitives ! i) \<noteq> CHR ''0''"
    using primitive_words(2) by (auto simp: list_all_iff)
  show "i \<noteq> 7 \<Longrightarrow> primitive_kind (primitives ! i) = Some i"
    using primitive_words(1) assms by (simp only: list_all_iff set_upt) auto
qed

lemma primitive_kind_0x: "hd w = CHR ''0'' \<Longrightarrow> primitive_kind w = None"
  using primitive_word(3) primitive_kind_Some [of w] by (cases "primitive_kind w") auto

definition stops :: "string \<Rightarrow> bool" where
  "stops rest \<longleftrightarrow> rest = [] \<or> hd rest \<in> {CHR ''>'', CHR '',''}"

definition prints :: "nat \<Rightarrow> transactionTypeTag \<Rightarrow> string \<Rightarrow> bool" where
  "prints k t s \<longleftrightarrow> s \<noteq> [] \<and> word_char (hd s) \<and> plain (last s) \<and> (\<forall>rest. stops rest \<longrightarrow> parse k (s @ rest) = (Inr t, rest))"

lemma stops_plain: "stops rest \<Longrightarrow> rest = [] \<or> plain (hd rest)" "stops rest \<Longrightarrow> rest = [] \<or> \<not> word_char (hd rest)"
  by (auto simp: stops_def plain_def word_char_def is_digit_def)

lemma parse_parameters_prints:
  "list_all2 (prints k) ps ss \<Longrightarrow> ps \<noteq> [] \<Longrightarrow> length ps \<le> fuel
   \<Longrightarrow> parse_parameters fuel (parse k) (comma_join ss @ CHR ''>'' # rest) = (Inr ps, rest)"
proof (induction ps ss arbitrary: fuel rule: list_all2_induct)
  case (Cons p ps s ss)
  then obtain f where f: "fuel = Suc f" by (cases fuel) auto
  note parse = Cons.hyps(1) [unfolded prints_def, THEN conjunct2, THEN conjunct2, THEN conjunct2, rule_format]
  show ?case
  proof (cases ps)
    case Nil
    then have "ss = []" using Cons.hyps(2) by simp
    then show ?thesis using Nil f parse [of "CHR ''>'' # rest"]
      by (simp add: andthen_cases stops_def consume_plain plain_def HasPrefix_def)
  next
    case more: (Cons q qs)
    then obtain u us where u: "ss = u # us" using Cons.hyps(2) by (auto simp: list_all2_Cons1)
    have "parse_parameters f (parse k) (comma_join ss @ CHR ''>'' # rest) = (Inr ps, rest)"
      using Cons.IH Cons.prems(2) f more by simp
    then show ?thesis using u f parse [of "CHR '','' # comma_join ss @ CHR ''>'' # rest"]
      by (simp add: andthen_cases stops_def consume_plain plain_def HasPrefix_def)
  qed
qed simp

lemma length_comma_join: "\<forall>s \<in> set ss. s \<noteq> [] \<Longrightarrow> length ss \<le> length (comma_join ss)"
proof (induction ss rule: comma_join.induct)
  case (2 s)
  then show ?case by (cases s) simp_all
qed simp_all

lemma all_res_prints:
  "\<forall>p \<in> set ps. \<exists>s. tag_text p = Inr s \<and> prints k p s \<Longrightarrow> \<exists>ss. all_res (List.map tag_text ps) = Inr ss \<and> list_all2 (prints k) ps ss"
proof (induction ps)
  case (Cons p ps)
  then obtain s ss where "tag_text p = Inr s" "prints k p s" "all_res (List.map tag_text ps) = Inr ss" "list_all2 (prints k) ps ss"
    by auto
  then show ?case by simp
qed simp

lemma hd_append_word: "w \<noteq> [] \<Longrightarrow> list_all word_char w \<Longrightarrow> word_char (hd (w @ s))"
  by (cases w) simp_all

lemma identifier_word: "validMoveIdentifier m \<Longrightarrow> list_all word_char m \<and> m \<noteq> []"
  by (simp add: validMoveIdentifier_def)

lemma last_plain: "w \<noteq> [] \<Longrightarrow> list_all word_char w \<Longrightarrow> plain (last w)"
  using word_char_plain by (auto simp: list_all_iff)

lemma tag_text_prints: "tag_ok k t \<Longrightarrow> \<exists>s. tag_text t = Inr s \<and> prints k t s"
proof (induction k arbitrary: t)
  case (Suc k)
  obtain kind a m n ps where t: "t = Tag kind a m n ps" by (cases t)
  have "\<forall>p \<in> set ps. \<exists>s. tag_text p = Inr s \<and> prints k p s"
    using Suc by (auto simp: t list_all_iff split: if_splits)
  then obtain ss where ss: "all_res (List.map tag_text ps) = Inr ss" "list_all2 (prints k) ps ss"
    using all_res_prints by blast
  consider "kind = 7" | "kind = 6" | "kind \<noteq> 6" "kind \<noteq> 7" by blast
  then show ?case
  proof cases
    case 1
    then have ok: "length a = 32" "validMoveIdentifier m" "validMoveIdentifier n" using Suc.prems by (simp_all add: t)
    note id = identifier_word [OF ok(2)] identifier_word [OF ok(3)]
    let ?A = "Address_String a"
    let ?P = "if ps \<noteq> [] then ''<'' @ comma_join ss @ ''>'' else []"
    let ?s = "?A @ ''::'' @ m @ ''::'' @ n @ ?P"
    have A: "?A \<noteq> []" "hd ?A = CHR ''0''" "HasPrefix ?A ''0x''" by (simp_all add: Address_String_def HasPrefix_def)
    have parse: "parse (Suc k) (?s @ rest) = (Inr t, rest)" if stop: "stops rest" for rest
    proof -
      define r3 where "r3 = ?P @ rest"
      have r3: "r3 = [] \<or> \<not> word_char (hd r3)" "r3 = [] \<or> plain (hd r3)"
        using stops_plain [OF stop] by (auto simp: r3_def word_char_def is_digit_def plain_def)
      have w1: "word (?A @ CHR '':'' # CHR '':'' # m @ CHR '':'' # CHR '':'' # n @ r3) = (Inr ?A, CHR '':'' # CHR '':'' # m @ CHR '':'' # CHR '':'' # n @ r3)"
        using A Address_String_chars by (intro word_run) (simp_all add: word_char_def is_digit_def)
      have w2: "word (m @ CHR '':'' # CHR '':'' # n @ r3) = (Inr m, CHR '':'' # CHR '':'' # n @ r3)"
        using id by (intro word_run) (simp_all add: word_char_def is_digit_def)
      have w3: "word (n @ r3) = (Inr n, r3)"
        using id r3(1) by (intro word_run) simp_all
      have c: "consume ''::'' (CHR '':'' # CHR '':'' # x) = (Inr True, x)" for x
        by (simp add: consume_plain plain_def HasPrefix_def)
      have p: "(case consume ''<'' r3 of (Inl e, s) \<Rightarrow> (Inl e, s) | (Inr opened, s) \<Rightarrow>
          (if \<not> opened then ret (Tag 7 a m n []) else
             andthen (reading (\<lambda>s. parse_parameters (Suc (length s)) (parse k))) (\<lambda>ps. ret (Tag 7 a m n ps))) s) = (Inr t, rest)"
      proof (cases "ps = []")
        case True
        moreover have "\<not> HasPrefix rest ''<''" using stop by (cases rest) (auto simp: stops_def HasPrefix_def)
        ultimately show ?thesis using stops_plain(1) [OF stop] 1 by (simp add: consume_plain t r3_def)
      next
        case False
        have "\<forall>s \<in> set ss. s \<noteq> []" using ss(2) by (auto simp: list_all2_conv_all_nth in_set_conv_nth prints_def)
        then have "length ps \<le> Suc (length (comma_join ss @ CHR ''>'' # rest))"
          using length_comma_join [of ss] list_all2_lengthD [OF ss(2)] by simp
        from parse_parameters_prints [OF ss(2) False this, of rest]
        show ?thesis using False 1
          by (simp add: consume_plain plain_def HasPrefix_def andthen_cases t r3_def del: parse_parameters.simps)
      qed
      have "parse (Suc k) (?A @ CHR '':'' # CHR '':'' # m @ CHR '':'' # CHR '':'' # n @ r3) = (Inr t, rest)"
        unfolding parse.simps andthen_cases [of word] w1
        using p A id ok by (simp add: primitive_kind_0x andthen_cases c w2 w3 identifier_word)
      then show ?thesis by (simp add: r3_def)
    qed
    have "tag_text t = Inr ?s" using 1 ss(1) by (simp add: t)
    moreover have "word_char (hd ?s)" "plain (last ?s)"
      using hd_append_word [OF A(1) Address_String_chars] last_plain [of n] id by (auto simp: plain_def)
    ultimately show ?thesis using parse A(1) by (auto simp: prints_def)
  next
    case 2
    then obtain p where p: "ps = [p]" using Suc.prems by (auto simp: t length_Suc_conv)
    then obtain s where s: "tag_text p = Inr s" "prints k p s" using ss by (auto split: sum.splits)
    have w: "word (''vector'' @ CHR ''<'' # x) = (Inr ''vector'', CHR ''<'' # x)" for x
      by (rule word_run) (simp_all add: word_char_def is_digit_def)
    have v: "primitive_kind ''vector'' = Some 6"
      using primitive_word(4) [of 6] by (simp add: primitives_def)
    have parse: "parse k (s @ CHR ''>'' # rest) = (Inr p, CHR ''>'' # rest)" for rest
      using s(2) by (simp add: prints_def stops_def)
    have "parse (Suc k) (''vector'' @ CHR ''<'' # s @ CHR ''>'' # rest) = (Inr t, rest)" for rest
      unfolding parse.simps andthen_cases [of word] w
      using Suc.prems 2 p by (simp add: v andthen_cases consume_plain plain_def HasPrefix_def parse t)
    then have "prints (Suc k) t (''vector<'' @ s @ ''>'')"
      by (simp add: prints_def word_char_def plain_def del: parse.simps)
    moreover have "tag_text t = Inr (''vector<'' @ s @ ''>'')" using 2 p s(1) by (simp add: t)
    ultimately show ?thesis by blast
  next
    case 3
    let ?w = "primitives ! unat kind"
    have t': "unat kind < 11" "t = plain_tag kind []" using Suc.prems 3 by (auto simp: t word_less_nat_alt)
    have k: "kind = word_of_nat (unat kind)" by simp
    have i: "unat kind \<noteq> 7" "unat kind \<noteq> 6" using 3 k by (metis of_nat_numeral)+
    note w = primitive_word [OF t'(1)]
    have "parse (Suc k) (?w @ rest) = (Inr t, rest)" if "stops rest" for rest
      unfolding parse.simps andthen_cases [of word] word_run [OF w(2,1) stops_plain(2) [OF that]]
      using w(4) i by (simp add: t'(2))
    then have "prints (Suc k) t ?w"
      using hd_append_word [OF w(1,2), of "[]"] last_plain [OF w(1,2)] w(1) by (simp add: prints_def del: parse.simps)
    moreover have "tag_text t = Inr ?w" using 3 t' by simp
    ultimately show ?thesis by blast
  qed
qed simp

section \<open>What the parser accepts\<close>

lemma skip_space_length: "length (skip_space s) \<le> length s"
  by (simp add: skip_space_def length_dropWhile_le)

lemma consume_length: "consume v s = (Inr b, r) \<Longrightarrow> length r \<le> length s"
  using skip_space_length [of s] by (auto simp: consume_def split: if_splits)

lemma word_length: "word s = (Inr w, r) \<Longrightarrow> length w + length r \<le> length s"
proof -
  assume "word s = (Inr w, r)"
  then have "length w + length r = length (skip_space s)"
    by (auto simp: word_def) (metis length_append takeWhile_dropWhile_id)
  then show ?thesis using skip_space_length [of s] by simp
qed

lemma consume_total: "\<exists>b r. consume v s = (Inr b, r)"
  by (auto simp: consume_def)

lemma word_total: "\<exists>w r. word s = (Inr w, r)"
  by (auto simp: word_def)

definition parsed :: "nat \<Rightarrow> string \<Rightarrow> transactionTypeTag res \<times> string \<Rightarrow> bool" where
  "parsed k s out \<longleftrightarrow> (case out of (Inl e, _) \<Rightarrow> \<not> panics (Inl e :: unit res) | (Inr t, r) \<Rightarrow> tag_ok k t \<and> length r < length s)"

lemma parse_parameters_parsed:
  assumes "\<And>s. length s \<le> maxTransactionElements \<Longrightarrow> parsed k s (p s)"
  shows "length s \<le> maxTransactionElements \<Longrightarrow> length s < fuel
    \<Longrightarrow> case parse_parameters fuel p s of (Inl e, _) \<Rightarrow> \<not> panics (Inl e :: unit res)
        | (Inr ps, r) \<Rightarrow> list_all (tag_ok k) ps \<and> length ps + length r \<le> length s \<and> ps \<noteq> []"
proof (induction fuel arbitrary: s)
  case (Suc n)
  note p = assms [OF Suc.prems(1)]
  show ?case
  proof (cases "p s")
    case (Pair out r1)
    show ?thesis
    proof (cases out)
      case (Inl e)
      then show ?thesis using p Pair by (simp add: andthen_cases parsed_def)
    next
      case (Inr t)
      then have t: "tag_ok k t" "length r1 < length s" using p Pair by (simp_all add: parsed_def)
      obtain b r2 where c1: "consume ''>'' r1 = (Inr b, r2)" using consume_total by blast
      show ?thesis
      proof (cases b)
        case True
        then show ?thesis using Pair Inr c1 t consume_length [OF c1] by (simp add: andthen_cases)
      next
        case False
        obtain b' r3 where c2: "consume '','' r2 = (Inr b', r3)" using consume_total by blast
        have r3: "length r3 < length s" using t(2) consume_length [OF c1] consume_length [OF c2] by simp
        note IH = Suc.IH [of r3]
        show ?thesis
        proof (cases b')
          case True
          then show ?thesis using Pair Inr c1 c2 False t r3 IH Suc.prems
            by (cases "parse_parameters n p r3"; cases "fst (parse_parameters n p r3)") (auto simp: andthen_cases)
        next
          case no: False
          then show ?thesis using Pair Inr c1 c2 False by (simp add: andthen_cases)
        qed
      qed
    qed
  qed
qed simp

lemma parse_parsed: "length s \<le> maxTransactionElements \<Longrightarrow> parsed k s (parse k s)"
proof (induction k arbitrary: s)
  case (Suc k)
  obtain w r1 where w: "word s = (Inr w, r1)" using word_total by blast
  have lw: "length w + length r1 \<le> length s" using word_length [OF w] .
  show ?case
  proof (cases "primitive_kind w")
    case (Some i)
    then have i: "i < 11" "i \<noteq> 7" "w \<noteq> []" using primitive_kind_Some [OF Some] primitive_word(1) by auto
    show ?thesis
    proof (cases "i = 6")
      case False
      have "(word_of_nat i :: u32) < 11" "(word_of_nat i :: u32) \<noteq> 7" "(word_of_nat i :: u32) \<noteq> 6"
        using i False by (simp_all add: word_less_nat_alt word_unat_eq_iff unsigned_of_nat take_bit_nat_eq_self)
      then show ?thesis using w Some False lw i by (cases w) (simp_all add: andthen_cases parsed_def)
    next
      case True
      obtain b r2 where c1: "consume ''<'' r1 = (Inr b, r2)" using consume_total by blast
      have l2: "length r2 < length s" using consume_length [OF c1] lw i(3) by (cases w) auto
      then have IH: "parsed k r2 (parse k r2)" using Suc by simp
      obtain out r3 where out: "parse k r2 = (out, r3)" by (cases "parse k r2")
      obtain b' r4 where c2: "consume ''>'' r3 = (Inr b', r4)" using consume_total by blast
      show ?thesis using w Some True c1 IH out c2 l2 consume_length [OF c2]
        by (cases out; cases b; cases b') (auto simp: andthen_cases parsed_def)
    qed
  next
    case None
    show ?thesis
    proof (cases "HasPrefix w ''0x''")
      case False
      then show ?thesis using w None by (simp add: andthen_cases parsed_def)
    next
      case True
      then have l1: "length r1 < length s" using lw by (cases w) (auto simp: HasPrefix_def)
      obtain b r2 where c1: "consume ''::'' r1 = (Inr b, r2)" using consume_total by blast
      obtain m r3 where m: "word r2 = (Inr m, r3)" using word_total by blast
      obtain b2 r4 where c2: "consume ''::'' r3 = (Inr b2, r4)" using consume_total by blast
      obtain n r5 where n: "word r4 = (Inr n, r5)" using word_total by blast
      obtain b3 r6 where c3: "consume ''<'' r5 = (Inr b3, r6)" using consume_total by blast
      have l6: "length r6 < length s"
        using l1 consume_length [OF c1] word_length [OF m] consume_length [OF c2] word_length [OF n] consume_length [OF c3] by linarith
      have ps: "case parse_parameters (Suc (length r6)) (parse k) r6 of (Inl e, _) \<Rightarrow> \<not> panics (Inl e :: unit res)
        | (Inr ps, r) \<Rightarrow> list_all (tag_ok k) ps \<and> length ps + length r \<le> length r6 \<and> ps \<noteq> []"
        using Suc l6 by (intro parse_parameters_parsed) simp_all
      show ?thesis
      proof (cases "b \<and> \<not> isl (ParseAddress w) \<and> validMoveIdentifier m \<and> b2 \<and> validMoveIdentifier n")
        case False
        then show ?thesis using w None True c1 m c2 n
          by (cases "ParseAddress w") (auto simp: andthen_cases parsed_def)
      next
        case ok: True
        then obtain a where a: "ParseAddress w = Inr a" by (cases "ParseAddress w") auto
        have "parse (Suc k) s = andthen (consume ''<'') (\<lambda>opened. if \<not> opened then ret (Tag 7 a m n []) else
         andthen (reading (\<lambda>s. parse_parameters (Suc (length s)) (parse k))) (\<lambda>ps. ret (Tag 7 a m n ps))) r5"
          unfolding parse.simps andthen_cases [of word] w
          using None True c1 m c2 n a ok by (simp add: andthen_cases)
        also have "\<dots> = (if \<not> b3 then (Inr (Tag 7 a m n []), r6)
            else andthen (parse_parameters (Suc (length r6)) (parse k)) (\<lambda>ps. ret (Tag 7 a m n ps)) r6)"
          using c3 by (simp add: andthen_cases)
        finally show ?thesis using ps ok l6 Suc.prems length_ParseAddress [OF a]
          by (cases "parse_parameters (Suc (length r6)) (parse k) r6"; cases "fst (parse_parameters (Suc (length r6)) (parse k) r6)")
             (auto simp: andthen_cases parsed_def simp del: parse_parameters.simps)
      qed
    qed
  qed
qed (simp add: parsed_def)

lemma drop_prefix_length: "drop_prefix p s = Some r \<Longrightarrow> length r \<le> length s"
  by (induction p s arbitrary: r rule: drop_prefix.induct) (auto split: if_splits)

lemma first_match_length: "first_match ps s = Some r \<Longrightarrow> length r \<le> length s"
  by (induction ps) (auto split: option.splits dest: drop_prefix_length)

lemma trim_codes_length: "length (trim_codes ps k s) \<le> length s"
proof (induction k arbitrary: s)
  case (Suc k)
  then show ?case by (auto split: option.splits dest!: first_match_length intro: order_trans)
qed simp

lemma TrimSpace_length: "length (TrimSpace s) \<le> length s"
  unfolding TrimSpace_def Let_def length_rev
  by (rule order_trans [OF trim_codes_length]) (simp add: trim_codes_length)

lemma parse_tag_cases:
  "case parseTransactionTypeTag v of Inl e \<Rightarrow> \<not> panics (Inl e :: unit res) | Inr t \<Rightarrow> tag_ok maxMoveTypeDepth t"
  using parse_parsed [of "TrimSpace v" maxMoveTypeDepth] TrimSpace_length [of v]
  by (auto simp: parseTransactionTypeTag_def parsed_def simp del: parse.simps split: prod.splits sum.splits)

lemma parse_tag_ok: "parseTransactionTypeTag v = Inr t \<Longrightarrow> tag_ok maxMoveTypeDepth t"
  using parse_tag_cases [of v] by simp

lemma parse_tag_text:
  assumes "tag_ok maxMoveTypeDepth t" and "tag_text t = Inr s" and "length s \<le> 4096"
  shows "parseTransactionTypeTag s = Inr t"
proof -
  have p: "prints maxMoveTypeDepth t s" using tag_text_prints [OF assms(1)] assms(2) by auto
  then have "TrimSpace s = s" by (intro TrimSpace_plain) (auto simp: prints_def word_char_plain)
  moreover have "parse maxMoveTypeDepth s = (Inr t, [])" using p by (auto simp: prints_def stops_def dest: spec [of _ "[]"])
  ultimately show ?thesis using assms(3) by (simp add: parseTransactionTypeTag_def skip_space_def)
qed

interpretation type_tag: item_codec "read_typeTag maxMoveTypeDepth" tag_bytes "tag_ok maxMoveTypeDepth"
  by (rule typeTag_codec)

text \<open>
  A Move type that the parser accepts has a canonical text (\<open>text\<close>), for all input strings: the text needs no
  trimming, parses to the same type unless it is longer than the limit, and is therefore its own canonical text;
  a type with more than 64 nested levels, or any malformed text, is an error and never a panic.
\<close>

lemma parseTransactionTypeTag_canonical:
  "case parseTransactionTypeTag v of Inl e \<Rightarrow> \<not> panics (Inl e :: unit res)
    | Inr t \<Rightarrow> \<exists>s. tag_text t = Inr s \<and> TrimSpace s = s
        \<and> parseTransactionTypeTag s = (if length s \<le> 4096 then Inr t else Inl (Fail ''type=too_long''))"
proof (cases "parseTransactionTypeTag v")
  case (Inl e)
  then show ?thesis using parse_tag_cases [of v] by simp
next
  case (Inr t)
  then have ok: "tag_ok maxMoveTypeDepth t" by (rule parse_tag_ok)
  obtain s where s: "tag_text t = Inr s" "prints maxMoveTypeDepth t s" using tag_text_prints [OF ok] by blast
  then have "TrimSpace s = s" by (intro TrimSpace_plain) (auto simp: prints_def word_char_plain)
  moreover have "parseTransactionTypeTag s = (if length s \<le> 4096 then Inr t else Inl (Fail ''type=too_long''))"
    using parse_tag_text [OF ok s(1)] by (simp add: parseTransactionTypeTag_def)
  ultimately show ?thesis using Inr s(1) by simp
qed

end
