(* ===== verification/Sui_Transaction.thy ===== *)
theory Sui_Transaction
  imports Sui_Type_Tag
begin

text \<open>
  \<open>go/sui/programmable_transaction.go\<close>, \<open>coin_commands.go\<close> and the data types and \<open>Validate\<close> of
  \<open>transaction_data.go\<close>: programmable transactions, their validation, and their builder. A nil pointer or
  slice that the code tests is \<open>None\<close>; copies are the identity on values.
\<close>

section \<open>Data\<close>

abbreviation InputKindPure :: u8 where "InputKindPure \<equiv> 1"
abbreviation InputKindImmutableOrOwned :: u8 where "InputKindImmutableOrOwned \<equiv> 2"
abbreviation InputKindShared :: u8 where "InputKindShared \<equiv> 3"
abbreviation InputKindReceiving :: u8 where "InputKindReceiving \<equiv> 4"

abbreviation ArgumentKindGas :: u8 where "ArgumentKindGas \<equiv> 1"
abbreviation ArgumentKindInput :: u8 where "ArgumentKindInput \<equiv> 2"
abbreviation ArgumentKindResult :: u8 where "ArgumentKindResult \<equiv> 3"

abbreviation CommandKindMoveCall :: u8 where "CommandKindMoveCall \<equiv> 1"
abbreviation CommandKindMakeMoveVec :: u8 where "CommandKindMakeMoveVec \<equiv> 2"
abbreviation CommandKindSplitCoins :: u8 where "CommandKindSplitCoins \<equiv> 3"
abbreviation CommandKindMergeCoins :: u8 where "CommandKindMergeCoins \<equiv> 4"
abbreviation CommandKindTransferObjects :: u8 where "CommandKindTransferObjects \<equiv> 5"

record ObjectInput =
  obj_address :: Address
  obj_version :: u64
  obj_digest :: bytes
  obj_mutable :: bool

definition zero_object :: ObjectInput where
  "zero_object = \<lparr>obj_address = zero_address, obj_version = 0, obj_digest = zero_address, obj_mutable = False\<rparr>"

record Input =
  input_kind :: u8
  input_pure :: "bytes option"
  input_object :: ObjectInput

record Argument =
  arg_kind :: u8
  arg_index :: u16
  Subresult :: "u16 option"

record MoveCall =
  call_package :: Address
  call_module :: string
  call_function :: string
  call_types :: "string list"
  call_args :: "Argument list"

record MakeMoveVec =
  vec_type :: string
  vec_elements :: "Argument list"

text \<open>\<open>SplitCoins\<close>, \<open>MergeCoins\<close> and \<open>TransferObjects\<close>: one argument and a list of arguments.\<close>

record CoinCommand =
  coin_main :: Argument
  coin_args :: "Argument list"

record Command =
  cmd_kind :: u8
  cmd_call :: "MoveCall option"
  cmd_vec :: "MakeMoveVec option"
  cmd_split :: "CoinCommand option"
  cmd_merge :: "CoinCommand option"
  cmd_transfer :: "CoinCommand option"

record ProgrammableTransaction =
  Inputs :: "Input list"
  Commands :: "Command list"

record ObjectReference =
  ref_address :: Address
  ref_version :: u64
  ref_digest :: bytes

record GasData =
  Payment :: "ObjectReference list"
  gas_owner :: Address
  gas_price :: u64
  gas_budget :: u64

record TransactionData =
  Transaction :: ProgrammableTransaction
  Sender :: Address
  Gas :: GasData
  ExpirationEpoch :: "u64 option"

definition no_command :: Command where
  "no_command = \<lparr>cmd_kind = 0, cmd_call = None, cmd_vec = None, cmd_split = None, cmd_merge = None, cmd_transfer = None\<rparr>"

section \<open>Validation\<close>

abbreviation okay :: "unit res" where "okay \<equiv> Inr ()"

text \<open>A loop that stops at the first error.\<close>

fun each :: "('a \<Rightarrow> unit res) \<Rightarrow> 'a list \<Rightarrow> unit res" where
  "each f [] = okay"
| "each f (x # xs) = ebind (f x) (\<lambda>_. each f xs)"

definition Argument_validate :: "nat \<Rightarrow> nat \<Rightarrow> Argument \<Rightarrow> unit res" where
  "Argument_validate inputCount commandCount a =
     (if arg_kind a = ArgumentKindGas then
        (if Subresult a \<noteq> None \<or> arg_index a \<noteq> 0 then Inl (Fail ''gas=invalid'') else okay)
      else if arg_kind a = ArgumentKindInput then
        (if unat (arg_index a) \<ge> inputCount \<or> Subresult a \<noteq> None then Inl (Fail ''input=invalid'') else okay)
      else if arg_kind a = ArgumentKindResult then
        (if unat (arg_index a) \<ge> commandCount then Inl (Fail ''result=invalid'') else okay)
      else Inl (Fail ''kind=invalid''))"

definition Input_validate :: "Input \<Rightarrow> unit res" where
  "Input_validate i =
     (if input_kind i = InputKindPure then (if input_pure i = None then Inl (Fail ''pure=null'') else okay)
      else if input_kind i = InputKindImmutableOrOwned \<or> input_kind i = InputKindReceiving then
        (if IsZero (obj_address (input_object i)) \<or> obj_version (input_object i) = 0 \<or> IsZero (obj_digest (input_object i))
         then Inl (Fail ''object=invalid'') else okay)
      else if input_kind i = InputKindShared then
        (if IsZero (obj_address (input_object i)) \<or> obj_version (input_object i) = 0
         then Inl (Fail ''shared_object=invalid'') else okay)
      else Inl (Fail ''kind=invalid''))"

definition MoveCall_validate :: "nat \<Rightarrow> nat \<Rightarrow> MoveCall \<Rightarrow> unit res" where
  "MoveCall_validate inputCount commandCount c =
     (if IsZero (call_package c) then Inl (Fail ''package=empty'')
      else if TrimSpace (call_module c) = [] then Inl (Fail ''module=empty'')
      else if TrimSpace (call_function c) = [] then Inl (Fail ''function=empty'')
      else ebind (each (\<lambda>value. if TrimSpace value = [] then Inl (Fail ''type_argument=empty'') else okay) (call_types c))
        (\<lambda>_. each (Argument_validate inputCount commandCount) (call_args c)))"

definition MakeMoveVec_validate :: "nat \<Rightarrow> nat \<Rightarrow> MakeMoveVec \<Rightarrow> unit res" where
  "MakeMoveVec_validate inputCount commandCount v =
     (if TrimSpace (vec_type v) = [] then Inl (Fail ''element_type=empty'')
      else each (Argument_validate inputCount commandCount) (vec_elements v))"

definition validateCoinCommand :: "nat \<Rightarrow> nat \<Rightarrow> Command \<Rightarrow> unit res" where
  "validateCoinCommand inputCount commandCount c =
     ebind
       (case (if cmd_kind c = CommandKindSplitCoins \<and> cmd_split c \<noteq> None then cmd_split c
              else if cmd_kind c = CommandKindMergeCoins \<and> cmd_merge c \<noteq> None then cmd_merge c
              else if cmd_kind c = CommandKindTransferObjects \<and> cmd_transfer c \<noteq> None then cmd_transfer c
              else None) of
          None \<Rightarrow> Inl (Fail ''variant=invalid'')
        | Some v \<Rightarrow> Inr (coin_main v, coin_args v)) (\<lambda>(main, args).
     if args = [] then Inl (Fail ''arguments=empty'')
     else if length args > 65536 then Inl (Fail ''arguments=too_long'')
     else ebind (Argument_validate inputCount commandCount main) (\<lambda>_.
          each (Argument_validate inputCount commandCount) args))"

definition Command_validate :: "nat \<Rightarrow> nat \<Rightarrow> Command \<Rightarrow> unit res" where
  "Command_validate inputCount commandCount c =
     (let variants = length (filter id [cmd_call c \<noteq> None, cmd_vec c \<noteq> None, cmd_split c \<noteq> None, cmd_merge c \<noteq> None, cmd_transfer c \<noteq> None])
      in if variants \<noteq> 1 then Inl (Fail ''variant=invalid'')
         else if cmd_kind c = CommandKindMoveCall then
           (case cmd_call c of None \<Rightarrow> Inl (Fail ''move_call=invalid'')
            | Some call \<Rightarrow> if cmd_vec c \<noteq> None then Inl (Fail ''move_call=invalid'') else MoveCall_validate inputCount commandCount call)
         else if cmd_kind c = CommandKindMakeMoveVec then
           (case cmd_vec c of None \<Rightarrow> Inl (Fail ''make_move_vec=invalid'')
            | Some v \<Rightarrow> if cmd_call c \<noteq> None then Inl (Fail ''make_move_vec=invalid'') else MakeMoveVec_validate inputCount commandCount v)
         else if cmd_kind c = CommandKindSplitCoins \<or> cmd_kind c = CommandKindMergeCoins \<or> cmd_kind c = CommandKindTransferObjects
         then validateCoinCommand inputCount commandCount c
         else Inl (Fail ''kind=invalid''))"

text \<open>The keys of the map \<open>objectInputs\<close> are the addresses seen so far.\<close>

fun check_inputs :: "Address list \<Rightarrow> Input list \<Rightarrow> unit res" where
  "check_inputs seen [] = okay"
| "check_inputs seen (i # is) =
     ebind (Input_validate i) (\<lambda>_.
       if input_kind i \<noteq> InputKindPure then
         (if obj_address (input_object i) \<in> set seen then Inl (Fail ''object_input=duplicate'')
          else check_inputs (obj_address (input_object i) # seen) is)
       else check_inputs seen is)"

fun check_commands :: "nat \<Rightarrow> nat \<Rightarrow> Command list \<Rightarrow> unit res" where
  "check_commands inputCount i [] = okay"
| "check_commands inputCount i (c # cs) = ebind (Command_validate inputCount i c) (\<lambda>_. check_commands inputCount (Suc i) cs)"

definition Programmable_Validate :: "ProgrammableTransaction \<Rightarrow> unit res" where
  "Programmable_Validate t =
     (if length (Inputs t) > 65536 \<or> length (Commands t) > 65536 then Inl (Fail ''elements=too_long'')
      else if Commands t = [] then Inl (Fail ''commands=empty'')
      else ebind (check_inputs [] (Inputs t)) (\<lambda>_. check_commands (length (Inputs t)) 0 (Commands t)))"

definition Reference_Validate :: "ObjectReference \<Rightarrow> unit res" where
  "Reference_Validate r =
     (if IsZero (ref_address r) \<or> ref_version r = 0 \<or> IsZero (ref_digest r) then Inl (Fail ''object_reference=invalid'') else okay)"

fun check_objects :: "Address list \<Rightarrow> Input list \<Rightarrow> Address list res" where
  "check_objects seen [] = Inr seen"
| "check_objects seen (i # is) =
     (if input_kind i = InputKindPure then
        (if input_object i \<noteq> zero_object \<or> (case input_pure i of None \<Rightarrow> 0 | Some v \<Rightarrow> length v) > maxTransactionDataSize
         then Inl (Fail ''pure_input=invalid'') else check_objects seen is)
      else if input_pure i \<noteq> None \<or> (input_kind i \<noteq> InputKindShared \<and> obj_mutable (input_object i))
              \<or> (input_kind i = InputKindShared \<and> \<not> IsZero (obj_digest (input_object i)))
      then Inl (Fail ''object_input=invalid'')
      else check_objects (obj_address (input_object i) # seen) is)"

fun check_payment :: "Address list \<Rightarrow> ObjectReference list \<Rightarrow> unit res" where
  "check_payment seen [] = okay"
| "check_payment seen (p # ps) =
     ebind (Reference_Validate p) (\<lambda>_.
       if ref_address p \<in> set seen then Inl (Fail ''gas_object=duplicate'') else check_payment (ref_address p # seen) ps)"

definition check_type :: "string \<Rightarrow> unit res" where
  "check_type value = ebind (parseTransactionTypeTag value) (\<lambda>_. okay)"

definition check_command :: "Command \<Rightarrow> unit res" where
  "check_command c =
     ebind (case cmd_call c of None \<Rightarrow> okay
            | Some call \<Rightarrow>
                if \<not> validMoveIdentifier (call_module call) \<or> \<not> validMoveIdentifier (call_function call)
                then Inl (Fail ''move_identifier=invalid'')
                else if length (call_types call) > maxTransactionElements \<or> length (call_args call) > maxTransactionElements
                then Inl (Fail ''move_arguments=too_long'')
                else each check_type (call_types call)) (\<lambda>_.
     case cmd_vec c of None \<Rightarrow> okay
     | Some v \<Rightarrow>
         if length (vec_elements v) > maxTransactionElements then Inl (Fail ''vector_elements=too_long'')
         else check_type (vec_type v))"

definition Data_Validate :: "TransactionData \<Rightarrow> unit res" where
  "Data_Validate t =
     (if IsZero (Sender t) \<or> IsZero (gas_owner (Gas t)) then Inl (Fail ''address=empty'')
      else if gas_price (Gas t) = 0 \<or> gas_budget (Gas t) = 0 then Inl (Fail ''gas=empty'')
      else if Payment (Gas t) = [] then Inl (Fail ''gas_payment=empty'')
      else if length (Payment (Gas t)) > maxTransactionElements then Inl (Fail ''gas_payment=too_long'')
      else
        ebind (Programmable_Validate (Transaction t)) (\<lambda>_.
        ebind (check_objects [] (Inputs (Transaction t))) (\<lambda>seen.
        ebind (check_payment seen (Payment (Gas t))) (\<lambda>_.
        each check_command (Commands (Transaction t))))))"

section \<open>Validation never panics\<close>

lemma each_calm: "(\<And>x. \<not> panics (f x)) \<Longrightarrow> \<not> panics (each f xs)"
  by (induction xs) (simp_all add: panics_ebind)

lemma Argument_validate_calm: "\<not> panics (Argument_validate n k a)"
  by (simp add: Argument_validate_def)

lemma validateCoinCommand_calm: "\<not> panics (validateCoinCommand n k c)"
  by (auto simp: validateCoinCommand_def panics_ebind Argument_validate_calm each_calm split: option.splits)

lemma MoveCall_validate_calm: "\<not> panics (MoveCall_validate n k c)"
  by (auto simp: MoveCall_validate_def panics_ebind each_calm Argument_validate_calm)

lemma MakeMoveVec_validate_calm: "\<not> panics (MakeMoveVec_validate n k v)"
  by (auto simp: MakeMoveVec_validate_def each_calm Argument_validate_calm)

lemma Command_validate_calm: "\<not> panics (Command_validate n k c)"
  by (auto simp: Command_validate_def Let_def MoveCall_validate_calm MakeMoveVec_validate_calm validateCoinCommand_calm split: option.splits)

lemma check_inputs_calm: "\<not> panics (check_inputs seen is)"
  by (induction seen "is" rule: check_inputs.induct) (auto simp: panics_ebind Input_validate_def)

lemma check_commands_calm: "\<not> panics (check_commands n k cs)"
  by (induction n k cs rule: check_commands.induct) (auto simp: panics_ebind Command_validate_calm)

lemma check_objects_calm: "\<not> panics (check_objects seen is)"
  by (induction seen "is" rule: check_objects.induct) auto

lemma check_payment_calm: "\<not> panics (check_payment seen ps)"
  by (induction seen ps rule: check_payment.induct) (auto simp: panics_ebind Reference_Validate_def)

lemma check_command_calm: "\<not> panics (check_command c)"
proof -
  have "\<not> panics (check_type v)" for v
    using parse_tag_cases [of v] by (auto simp: check_type_def panics_ebind panics_def split: sum.splits)
  then show ?thesis by (auto simp: check_command_def panics_ebind each_calm split: option.splits)
qed

lemma Data_Validate_calm: "\<not> panics (Data_Validate t)"
  by (auto simp: Data_Validate_def Programmable_Validate_def panics_ebind check_inputs_calm check_commands_calm check_objects_calm
      check_payment_calm check_command_calm each_calm)

end
