(* ===== verification/Sui_Codec.thy ===== *)
theory Sui_Codec
  imports Sui_Transaction
begin

text \<open>
  \<open>go/sui/transaction_bcs.go\<close> and the codec of \<open>transaction_data.go\<close>: canonical bytes of a transaction.
  \<open>programmable\<close> returns its own error besides the sticky one of the writer, so its result is a writer in an
  error sum.
\<close>

section \<open>Writing\<close>

definition put_object :: "ObjectReference \<Rightarrow> writer \<Rightarrow> writer" where
  "put_object r w = put_bytes (ref_digest r) (put_u64 (ref_version r) (raw (ref_address r) w))"

definition put_argument :: "Argument \<Rightarrow> writer \<Rightarrow> writer" where
  "put_argument a w =
     (if arg_kind a = ArgumentKindGas then put_uleb 0 w
      else if arg_kind a = ArgumentKindInput then put_u16 (arg_index a) (put_uleb 1 w)
      else if arg_kind a = ArgumentKindResult then
        (case Subresult a of None \<Rightarrow> put_u16 (arg_index a) (put_uleb 2 w)
         | Some s \<Rightarrow> put_u16 s (put_u16 (arg_index a) (put_uleb 3 w)))
      else w)"

definition put_arguments :: "Argument list \<Rightarrow> writer \<Rightarrow> writer" where
  "put_arguments = put_slice put_argument"

definition put_input :: "Input \<Rightarrow> writer \<Rightarrow> writer" where
  "put_input i w =
     (if input_kind i = InputKindPure then
        put_bytes (case input_pure i of None \<Rightarrow> [] | Some v \<Rightarrow> v) (put_uleb 0 w)
      else
        (let w = put_uleb 1 w;
             w = (if input_kind i = InputKindImmutableOrOwned then put_uleb 0 w
                  else if input_kind i = InputKindShared then put_uleb 1 w
                  else if input_kind i = InputKindReceiving then put_uleb 2 w else w);
             obj = input_object i
         in if input_kind i = InputKindShared then
              raw [if obj_mutable obj then 1 else 0] (put_u64 (obj_version obj) (raw (obj_address obj) w))
            else put_object \<lparr>ref_address = obj_address obj, ref_version = obj_version obj, ref_digest = obj_digest obj\<rparr> w))"

fun put_types :: "string list \<Rightarrow> writer \<Rightarrow> writer res" where
  "put_types [] w = Inr w"
| "put_types (v # vs) w = ebind (parseTransactionTypeTag v) (\<lambda>tag. put_types vs (put_typeTag tag w))"

definition deref :: "'a option \<Rightarrow> 'a res" where
  "deref p = (case p of None \<Rightarrow> Inl (Panic ''nil dereference'') | Some x \<Rightarrow> Inr x)"

definition put_command :: "Command \<Rightarrow> writer \<Rightarrow> writer res" where
  "put_command c w =
     (if cmd_kind c = CommandKindMoveCall then
        ebind (deref (cmd_call c)) (\<lambda>call.
        ebind (put_types (call_types call)
                 (put_uleb (word_of_nat (length (call_types call)))
                   (put_text (call_function call) (put_text (call_module call) (raw (call_package call) (put_uleb 0 w)))))) (\<lambda>w.
        Inr (put_arguments (call_args call) w)))
      else if cmd_kind c = CommandKindTransferObjects then
        ebind (deref (cmd_transfer c)) (\<lambda>v. Inr (put_argument (coin_main v) (put_arguments (coin_args v) (put_uleb 1 w))))
      else if cmd_kind c = CommandKindSplitCoins then
        ebind (deref (cmd_split c)) (\<lambda>v. Inr (put_arguments (coin_args v) (put_argument (coin_main v) (put_uleb 2 w))))
      else if cmd_kind c = CommandKindMergeCoins then
        ebind (deref (cmd_merge c)) (\<lambda>v. Inr (put_arguments (coin_args v) (put_argument (coin_main v) (put_uleb 3 w))))
      else if cmd_kind c = CommandKindMakeMoveVec then
        ebind (deref (cmd_vec c)) (\<lambda>v.
        ebind (parseTransactionTypeTag (vec_type v)) (\<lambda>tag.
        Inr (put_arguments (vec_elements v) (put_typeTag tag (put_uleb 1 (put_uleb 5 w))))))
      else Inl (Fail ''command=unsupported''))"

fun put_commands :: "Command list \<Rightarrow> writer \<Rightarrow> writer res" where
  "put_commands [] w = Inr w"
| "put_commands (c # cs) w = ebind (put_command c w) (put_commands cs)"

definition put_programmable :: "ProgrammableTransaction \<Rightarrow> writer \<Rightarrow> writer res" where
  "put_programmable t w =
     put_commands (Commands t) (put_uleb (word_of_nat (length (Commands t))) (put_slice put_input (Inputs t) w))"

definition MarshalBCS :: "TransactionData \<Rightarrow> bytes res" where
  "MarshalBCS t =
     ebind (Data_Validate t) (\<lambda>_.
     ebind (put_programmable (Transaction t) (put_uleb 0 (put_uleb 0 (Inr [])))) (\<lambda>w.
     let w = put_slice put_object (Payment (Gas t)) (raw (Sender t) w);
         w = put_u64 (gas_budget (Gas t)) (put_u64 (gas_price (Gas t)) (raw (gas_owner (Gas t)) w))
     in case ExpirationEpoch t of None \<Rightarrow> put_uleb 0 w | Some e \<Rightarrow> put_u64 e (put_uleb 1 w)))"

section \<open>Reading\<close>

definition read_object :: "ObjectReference reader" where
  "read_object =
     andthen read_address (\<lambda>a.
     andthen read_u64 (\<lambda>v.
     andthen read_bytes (\<lambda>d.
     if length d \<noteq> 32 then throw (Fail ''object_digest=invalid'')
     else ret \<lparr>ref_address = a, ref_version = v, ref_digest = d\<rparr>)))"

definition read_argument :: "Argument reader" where
  "read_argument =
     andthen read_uleb (\<lambda>k.
       if k = 0 then ret \<lparr>arg_kind = ArgumentKindGas, arg_index = 0, Subresult = None\<rparr>
       else if k = 1 then andthen read_u16 (\<lambda>i. ret \<lparr>arg_kind = ArgumentKindInput, arg_index = i, Subresult = None\<rparr>)
       else if k = 2 then andthen read_u16 (\<lambda>i. ret \<lparr>arg_kind = ArgumentKindResult, arg_index = i, Subresult = None\<rparr>)
       else if k = 3 then
         andthen read_u16 (\<lambda>i. andthen read_u16 (\<lambda>s.
         ret \<lparr>arg_kind = ArgumentKindResult, arg_index = i, Subresult = Some s\<rparr>))
       else throw (Fail ''argument=unsupported''))"

definition read_arguments :: "Argument list reader" where
  "read_arguments = read_slice read_argument"

definition read_input :: "Input reader" where
  "read_input =
     andthen read_uleb (\<lambda>k.
       if k = 0 then
         andthen read_bytes (\<lambda>v. ret \<lparr>input_kind = InputKindPure, input_pure = Some v, input_object = zero_object\<rparr>)
       else if k = 1 then
         andthen read_uleb (\<lambda>variant.
           if variant = 1 then
             andthen read_address (\<lambda>a.
             andthen read_u64 (\<lambda>v.
             andthen read_byte (\<lambda>mutable.
             if mutable > 1 then throw (Fail ''bool=invalid'')
             else ret \<lparr>input_kind = InputKindShared, input_pure = None,
                    input_object = \<lparr>obj_address = a, obj_version = v, obj_digest = zero_address, obj_mutable = (mutable = 1)\<rparr>\<rparr>)))
           else if variant = 0 \<or> variant = 2 then
             andthen read_object (\<lambda>obj.
             ret \<lparr>input_kind = (if variant = 0 then InputKindImmutableOrOwned else InputKindReceiving), input_pure = None,
                  input_object = \<lparr>obj_address = ref_address obj, obj_version = ref_version obj, obj_digest = ref_digest obj,
                                 obj_mutable = False\<rparr>\<rparr>)
           else throw (Fail ''object_variant=unsupported''))
       else throw (Fail ''input_variant=unsupported''))"

text \<open>A type argument is read as a tag and kept as its text.\<close>

definition read_type :: "string reader" where
  "read_type = andthen (read_typeTag maxMoveTypeDepth) (\<lambda>tag. lift (tag_text tag))"

definition read_command :: "Command reader" where
  "read_command =
     andthen read_uleb (\<lambda>k.
       if k = 0 then
         andthen read_address (\<lambda>p.
         andthen read_text (\<lambda>m.
         andthen read_text (\<lambda>f.
         andthen (read_slice read_type) (\<lambda>ts.
         andthen read_arguments (\<lambda>args.
         ret (no_command\<lparr>cmd_kind := CommandKindMoveCall,
           cmd_call := Some \<lparr>call_package = p, call_module = m, call_function = f, call_types = ts, call_args = args\<rparr>\<rparr>))))))
       else if k = 1 then
         andthen read_arguments (\<lambda>args. andthen read_argument (\<lambda>a.
         ret (no_command\<lparr>cmd_kind := CommandKindTransferObjects, cmd_transfer := Some \<lparr>coin_main = a, coin_args = args\<rparr>\<rparr>)))
       else if k = 2 then
         andthen read_argument (\<lambda>a. andthen read_arguments (\<lambda>args.
         ret (no_command\<lparr>cmd_kind := CommandKindSplitCoins, cmd_split := Some \<lparr>coin_main = a, coin_args = args\<rparr>\<rparr>)))
       else if k = 3 then
         andthen read_argument (\<lambda>a. andthen read_arguments (\<lambda>args.
         ret (no_command\<lparr>cmd_kind := CommandKindMergeCoins, cmd_merge := Some \<lparr>coin_main = a, coin_args = args\<rparr>\<rparr>)))
       else if k = 5 then
         andthen read_uleb (\<lambda>some.
         if some \<noteq> 1 then throw (Fail ''vector_type=unsupported'')
         else
           andthen read_type (\<lambda>t. andthen read_arguments (\<lambda>args.
           ret (no_command\<lparr>cmd_kind := CommandKindMakeMoveVec, cmd_vec := Some \<lparr>vec_type = t, vec_elements = args\<rparr>\<rparr>))))
       else throw (Fail ''command_variant=unsupported''))"

definition read_programmable :: "ProgrammableTransaction reader" where
  "read_programmable =
     andthen (read_slice read_input) (\<lambda>inputs.
     andthen (read_slice read_command) (\<lambda>commands. ret \<lparr>Inputs = inputs, Commands = commands\<rparr>))"

definition read_expiration :: "u64 option reader" where
  "read_expiration =
     andthen read_uleb (\<lambda>k.
       if k = 0 then ret None
       else if k = 1 then andthen read_u64 (\<lambda>e. ret (Some e))
       else throw (Fail ''expiration=unsupported''))"

definition read_data :: "TransactionData reader" where
  "read_data =
     andthen read_uleb (\<lambda>v. if v \<noteq> 0 then throw (Fail ''transaction_version=unsupported'') else
     andthen read_uleb (\<lambda>k. if k \<noteq> 0 then throw (Fail ''transaction_kind=unsupported'') else
     andthen read_programmable (\<lambda>p.
     andthen read_address (\<lambda>sender.
     andthen (read_slice read_object) (\<lambda>payment.
     andthen read_address (\<lambda>owner.
     andthen read_u64 (\<lambda>price.
     andthen read_u64 (\<lambda>budget.
     andthen read_expiration (\<lambda>e.
     ret \<lparr>Transaction = p, Sender = sender,
          Gas = \<lparr>Payment = payment, gas_owner = owner, gas_price = price, gas_budget = budget\<rparr>, ExpirationEpoch = e\<rparr>)))))))))"

definition ParseTransactionData :: "bytes \<Rightarrow> TransactionData res" where
  "ParseTransactionData data =
     (if data = [] \<or> length data > maxTransactionDataSize then Inl (Fail ''data=out_of_range'')
      else
        (case read_data data of (Inl e, _) \<Rightarrow> Inl e
         | (Inr t, rest) \<Rightarrow>
             if rest \<noteq> [] then Inl (Fail ''trailing_data=invalid'')
             else ebind (Data_Validate t) (\<lambda>_. Inr t)))"

section \<open>The language of each reader\<close>

abbreviation word_bytes :: "nat \<Rightarrow> 'a::len word \<Rightarrow> bytes" where "word_bytes n v \<equiv> le_bytes n (uint v)"

abbreviation slice_bytes :: "('a \<Rightarrow> bytes) \<Rightarrow> 'a list \<Rightarrow> bytes" where
  "slice_bytes e xs \<equiv> uleb_bytes (word_of_nat (length xs)) @ concat (List.map e xs)"

abbreviation slice_ok :: "('a \<Rightarrow> bool) \<Rightarrow> 'a list \<Rightarrow> bool" where
  "slice_ok p xs \<equiv> length xs \<le> maxTransactionElements \<and> list_all p xs"

definition object_ok :: "ObjectReference \<Rightarrow> bool" where
  "object_ok r \<longleftrightarrow> length (ref_address r) = 32 \<and> length (ref_digest r) = 32"

definition object_bytes :: "ObjectReference \<Rightarrow> bytes" where
  "object_bytes r = ref_address r @ word_bytes 8 (ref_version r) @ bytes_enc (ref_digest r)"

lemma put_object_raw: "put_object r w = raw (object_bytes r) w"
  by (simp add: put_object_def object_bytes_def put_bytes_raw put_u64_def bytes_enc_def)

interpretation object: item_codec read_object object_bytes object_ok
proof unfold_locales
  show "read_object (object_bytes r @ rest) = (Inr r, rest)" if "object_ok r" for r rest
    using that by (simp add: read_object_def object_bytes_def object_ok_def andthen_cases address.reads u64.reads bytes.reads
        maxTransactionDataSize_def)
  show "object_ok r \<and> bs = object_bytes r @ rest" if "read_object bs = (Inr r, rest)" for bs r rest
    using that by (auto simp: read_object_def object_bytes_def object_ok_def split: if_splits
        dest!: address.sound u64.sound bytes.sound)
qed (auto simp: object_bytes_def object_ok_def)

definition argument_ok :: "Argument \<Rightarrow> bool" where
  "argument_ok a \<longleftrightarrow>
     (arg_kind a = ArgumentKindGas \<and> arg_index a = 0 \<and> Subresult a = None)
     \<or> (arg_kind a = ArgumentKindInput \<and> Subresult a = None) \<or> arg_kind a = ArgumentKindResult"

definition argument_bytes :: "Argument \<Rightarrow> bytes" where
  "argument_bytes a =
     (if arg_kind a = ArgumentKindGas then uleb_bytes 0
      else if arg_kind a = ArgumentKindInput then uleb_bytes 1 @ word_bytes 2 (arg_index a)
      else (case Subresult a of None \<Rightarrow> uleb_bytes 2 @ word_bytes 2 (arg_index a)
         | Some s \<Rightarrow> uleb_bytes 3 @ word_bytes 2 (arg_index a) @ word_bytes 2 s))"

lemma put_argument_raw: "argument_ok a \<Longrightarrow> put_argument a w = raw (argument_bytes a) w"
  by (auto simp: put_argument_def argument_bytes_def argument_ok_def put_uleb_raw put_u16_def split: option.splits)

interpretation argument: item_codec read_argument argument_bytes argument_ok
proof unfold_locales
  show "read_argument (argument_bytes a @ rest) = (Inr a, rest)" if "argument_ok a" for a rest
    using that by (cases a; cases "Subresult a")
      (auto simp: read_argument_def argument_bytes_def argument_ok_def andthen_cases uleb.reads u16.reads)
  show "argument_ok a \<and> bs = argument_bytes a @ rest" if "read_argument bs = (Inr a, rest)" for bs a rest
    using that by (auto simp: read_argument_def argument_bytes_def argument_ok_def split: if_splits
        dest!: uleb.sound u16.sound)
qed (auto simp: argument_bytes_def uleb_nonempty split: option.splits)

interpretation arguments: codec read_arguments "slice_bytes argument_bytes" "slice_ok argument_ok"
  unfolding read_arguments_def by (rule argument.slice_codec)

lemma put_arguments_raw: "list_all argument_ok xs \<Longrightarrow> put_arguments xs w = raw (slice_bytes argument_bytes xs) w"
  unfolding put_arguments_def by (intro put_slice_raw) (auto simp: list_all_iff put_argument_raw)

definition input_ok :: "Input \<Rightarrow> bool" where
  "input_ok i \<longleftrightarrow>
     (let obj = input_object i in
      (input_kind i = InputKindPure \<and> (\<exists>v. input_pure i = Some v \<and> length v \<le> maxTransactionDataSize) \<and> obj = zero_object)
      \<or> (input_pure i = None \<and> length (obj_address obj) = 32 \<and>
          ((input_kind i = InputKindShared \<and> obj_digest obj = zero_address)
           \<or> (input_kind i \<in> {InputKindImmutableOrOwned, InputKindReceiving} \<and> length (obj_digest obj) = 32 \<and> \<not> obj_mutable obj))))"

definition as_reference :: "ObjectInput \<Rightarrow> ObjectReference" where
  "as_reference obj = \<lparr>ref_address = obj_address obj, ref_version = obj_version obj, ref_digest = obj_digest obj\<rparr>"

definition input_bytes :: "Input \<Rightarrow> bytes" where
  "input_bytes i =
     (let obj = input_object i
      in if input_kind i = InputKindPure then uleb_bytes 0 @ bytes_enc (case input_pure i of None \<Rightarrow> [] | Some v \<Rightarrow> v)
         else if input_kind i = InputKindShared then
           uleb_bytes 1 @ uleb_bytes 1 @ obj_address obj @ word_bytes 8 (obj_version obj) @ [if obj_mutable obj then 1 else 0]
         else uleb_bytes 1 @ uleb_bytes (if input_kind i = InputKindImmutableOrOwned then 0 else 2) @ object_bytes (as_reference obj))"

lemma put_input_raw: "input_ok i \<Longrightarrow> put_input i w = raw (input_bytes i) w"
  by (auto simp: put_input_def input_bytes_def input_ok_def Let_def put_uleb_raw put_bytes_raw put_u64_def put_object_raw
      bytes_enc_def as_reference_def)

lemma reference_eta: "\<lparr>ref_address = ref_address r, ref_version = ref_version r, ref_digest = ref_digest r\<rparr> = r"
  by simp

lemma bool_byte: "\<not> 1 < b \<Longrightarrow> b \<noteq> 1 \<Longrightarrow> b = (0 :: u8)"
proof -
  assume "\<not> 1 < b" "b \<noteq> 1"
  then have "unat b \<le> 1" "unat b \<noteq> 1" by (auto simp: word_less_nat_alt word_unat_eq_iff)
  then have "unat b = 0" by linarith
  then show "b = 0" by (simp add: unat_eq_zero)
qed

interpretation inputs: item_codec read_input input_bytes input_ok
proof unfold_locales
  show "read_input (input_bytes i @ rest) = (Inr i, rest)" if "input_ok i" for i rest
    using that by (cases i; cases "input_object i")
      (auto simp: read_input_def input_bytes_def input_ok_def Let_def andthen_cases uleb.reads u64.reads bytes.reads address.reads
        read_byte_eq object.reads object_ok_def as_reference_def)
  show "input_ok i \<and> bs = input_bytes i @ rest" if "read_input bs = (Inr i, rest)" for bs i rest
    using that by (auto simp: read_input_def input_bytes_def input_ok_def Let_def read_byte_eq object_ok_def as_reference_def
        reference_eta bool_byte split: if_splits list.splits dest!: uleb.sound u64.sound bytes.sound address.sound object.sound)
qed (auto simp: input_bytes_def Let_def uleb_nonempty)

definition canonical_type :: "string \<Rightarrow> bool" where
  "canonical_type s \<longleftrightarrow> (\<exists>t. tag_ok maxMoveTypeDepth t \<and> tag_text t = Inr s)"

definition tag_of :: "string \<Rightarrow> transactionTypeTag" where
  "tag_of s = (case fst (parse maxMoveTypeDepth s) of Inr t \<Rightarrow> t | Inl _ \<Rightarrow> plain_tag 0 [])"

lemma tag_of_text:
  assumes "tag_ok maxMoveTypeDepth t" and "tag_text t = Inr s"
  shows "tag_of s = t"
proof -
  obtain u where "tag_text t = Inr u" "prints maxMoveTypeDepth t u" using tag_text_prints [OF assms(1)] by blast
  then have "parse maxMoveTypeDepth (s @ []) = (Inr t, [])" using assms(2) unfolding prints_def stops_def by (metis sum.inject(2))
  then show ?thesis by (simp add: tag_of_def del: parse.simps)
qed

lemma canonical_tag: "canonical_type s \<Longrightarrow> tag_ok maxMoveTypeDepth (tag_of s) \<and> tag_text (tag_of s) = Inr s"
  using tag_of_text by (auto simp: canonical_type_def)

interpretation type_text: item_codec read_type "\<lambda>s. tag_bytes (tag_of s)" canonical_type
proof unfold_locales
  show "read_type (tag_bytes (tag_of s) @ rest) = (Inr s, rest)" if "canonical_type s" for s rest
    using canonical_tag [OF that] by (simp add: read_type_def andthen_cases type_tag.reads del: read_typeTag.simps)
  show "canonical_type s \<and> bs = tag_bytes (tag_of s) @ rest" if "read_type bs = (Inr s, rest)" for bs s rest
  proof -
    obtain t r where "read_typeTag maxMoveTypeDepth bs = (Inr t, r)" "tag_text t = Inr s" "r = rest"
      using \<open>read_type bs = (Inr s, rest)\<close> unfolding read_type_def by (auto simp del: read_typeTag.simps)
    then show ?thesis using type_tag.sound [of bs t r] tag_of_text [of t s] unfolding canonical_type_def by auto
  qed
qed (rule tag_bytes_nonempty)

interpretation types: codec "read_slice read_type" "slice_bytes (\<lambda>s. tag_bytes (tag_of s))" "slice_ok canonical_type"
  by (rule type_text.slice_codec)

abbreviation text_ok :: "string \<Rightarrow> bool" where
  "text_ok s \<equiv> ValidString s \<and> length s \<le> maxTransactionDataSize"

definition call_ok :: "MoveCall \<Rightarrow> bool" where
  "call_ok c \<longleftrightarrow> length (call_package c) = 32 \<and> text_ok (call_module c) \<and> text_ok (call_function c)
     \<and> slice_ok canonical_type (call_types c) \<and> slice_ok argument_ok (call_args c)"

definition call_bytes :: "MoveCall \<Rightarrow> bytes" where
  "call_bytes c = call_package c @ text_enc (call_module c) @ text_enc (call_function c)
     @ slice_bytes (\<lambda>s. tag_bytes (tag_of s)) (call_types c) @ slice_bytes argument_bytes (call_args c)"

definition coin_ok :: "CoinCommand \<Rightarrow> bool" where
  "coin_ok v \<longleftrightarrow> argument_ok (coin_main v) \<and> slice_ok argument_ok (coin_args v)"

definition command_ok :: "Command \<Rightarrow> bool" where
  "command_ok c \<longleftrightarrow>
     (\<exists>call. c = no_command\<lparr>cmd_kind := CommandKindMoveCall, cmd_call := Some call\<rparr> \<and> call_ok call)
     \<or> (\<exists>v. c = no_command\<lparr>cmd_kind := CommandKindMakeMoveVec, cmd_vec := Some v\<rparr>
          \<and> canonical_type (vec_type v) \<and> slice_ok argument_ok (vec_elements v))
     \<or> (\<exists>v. c = no_command\<lparr>cmd_kind := CommandKindSplitCoins, cmd_split := Some v\<rparr> \<and> coin_ok v)
     \<or> (\<exists>v. c = no_command\<lparr>cmd_kind := CommandKindMergeCoins, cmd_merge := Some v\<rparr> \<and> coin_ok v)
     \<or> (\<exists>v. c = no_command\<lparr>cmd_kind := CommandKindTransferObjects, cmd_transfer := Some v\<rparr> \<and> coin_ok v)"

definition command_bytes :: "Command \<Rightarrow> bytes" where
  "command_bytes c =
     (case cmd_call c of Some call \<Rightarrow> uleb_bytes 0 @ call_bytes call | None \<Rightarrow>
     (case cmd_transfer c of Some v \<Rightarrow> uleb_bytes 1 @ slice_bytes argument_bytes (coin_args v) @ argument_bytes (coin_main v) | None \<Rightarrow>
     (case cmd_split c of Some v \<Rightarrow> uleb_bytes 2 @ argument_bytes (coin_main v) @ slice_bytes argument_bytes (coin_args v) | None \<Rightarrow>
     (case cmd_merge c of Some v \<Rightarrow> uleb_bytes 3 @ argument_bytes (coin_main v) @ slice_bytes argument_bytes (coin_args v) | None \<Rightarrow>
     (case cmd_vec c of Some v \<Rightarrow> uleb_bytes 5 @ uleb_bytes 1 @ tag_bytes (tag_of (vec_type v)) @ slice_bytes argument_bytes (vec_elements v)
      | None \<Rightarrow> [])))))"

lemmas flat_reads = arguments.reads [simplified append_assoc] types.reads [simplified append_assoc]

interpretation commands: item_codec read_command command_bytes command_ok
proof unfold_locales
  show "read_command (command_bytes c @ rest) = (Inr c, rest)" if "command_ok c" for c rest
    using that by (auto simp: command_ok_def command_bytes_def call_bytes_def call_ok_def coin_ok_def no_command_def read_command_def
        andthen_cases uleb.reads address.reads str.reads argument.reads type_text.reads flat_reads)
  show "command_ok c \<and> bs = command_bytes c @ rest" if "read_command bs = (Inr c, rest)" for bs c rest
    using that by (auto simp: command_ok_def command_bytes_def call_bytes_def call_ok_def coin_ok_def no_command_def read_command_def
        split: if_splits dest!: uleb.sound address.sound str.sound argument.sound type_text.sound arguments.sound types.sound)
qed (auto simp: command_bytes_def command_ok_def no_command_def uleb_nonempty)

definition programmable_ok :: "ProgrammableTransaction \<Rightarrow> bool" where
  "programmable_ok p \<longleftrightarrow> slice_ok input_ok (Inputs p) \<and> slice_ok command_ok (Commands p)"

definition programmable_bytes :: "ProgrammableTransaction \<Rightarrow> bytes" where
  "programmable_bytes p = slice_bytes input_bytes (Inputs p) @ slice_bytes command_bytes (Commands p)"

lemmas slice_reads =
  codec.reads [OF inputs.slice_codec, simplified append_assoc]
  codec.reads [OF commands.slice_codec, simplified append_assoc]
  codec.reads [OF object.slice_codec, simplified append_assoc]

lemmas slice_sound =
  codec.sound [OF inputs.slice_codec] codec.sound [OF commands.slice_codec] codec.sound [OF object.slice_codec]

interpretation programmable: codec read_programmable programmable_bytes programmable_ok
proof unfold_locales
  show "read_programmable (programmable_bytes p @ rest) = (Inr p, rest)" if "programmable_ok p" for p rest
    using that by (simp add: programmable_ok_def programmable_bytes_def read_programmable_def andthen_cases slice_reads)
  show "programmable_ok p \<and> bs = programmable_bytes p @ rest" if "read_programmable bs = (Inr p, rest)" for bs p rest
    using that by (auto simp: programmable_ok_def programmable_bytes_def read_programmable_def dest!: slice_sound)
qed

definition expiration_bytes :: "u64 option \<Rightarrow> bytes" where
  "expiration_bytes e = (case e of None \<Rightarrow> uleb_bytes 0 | Some v \<Rightarrow> uleb_bytes 1 @ word_bytes 8 v)"

interpretation expiration: codec read_expiration expiration_bytes "\<lambda>_. True"
proof unfold_locales
  show "read_expiration (expiration_bytes e @ rest) = (Inr e, rest)" for e rest
    by (cases e) (simp_all add: expiration_bytes_def read_expiration_def andthen_cases uleb.reads u64.reads)
  show "True \<and> bs = expiration_bytes e @ rest" if "read_expiration bs = (Inr e, rest)" for bs e rest
    using that by (auto simp: expiration_bytes_def read_expiration_def split: if_splits dest!: uleb.sound u64.sound)
qed

definition data_ok :: "TransactionData \<Rightarrow> bool" where
  "data_ok t \<longleftrightarrow> programmable_ok (Transaction t) \<and> length (Sender t) = 32
     \<and> slice_ok object_ok (Payment (Gas t)) \<and> length (gas_owner (Gas t)) = 32"

definition data_bytes :: "TransactionData \<Rightarrow> bytes" where
  "data_bytes t = uleb_bytes 0 @ uleb_bytes 0 @ programmable_bytes (Transaction t) @ Sender t
     @ slice_bytes object_bytes (Payment (Gas t)) @ gas_owner (Gas t) @ word_bytes 8 (gas_price (Gas t))
     @ word_bytes 8 (gas_budget (Gas t)) @ expiration_bytes (ExpirationEpoch t)"

lemma data_eta: "\<lparr>Transaction = Transaction t, Sender = Sender t, Gas = \<lparr>Payment = Payment (Gas t), gas_owner = gas_owner (Gas t),
    gas_price = gas_price (Gas t), gas_budget = gas_budget (Gas t)\<rparr>, ExpirationEpoch = ExpirationEpoch t\<rparr> = t"
  by simp

interpretation data: item_codec read_data data_bytes data_ok
proof unfold_locales
  show "read_data (data_bytes t @ rest) = (Inr t, rest)" if "data_ok t" for t rest
    using that by (simp add: data_ok_def data_bytes_def read_data_def andthen_cases uleb.reads programmable.reads address.reads
        slice_reads u64.reads expiration.reads data_eta)
  show "data_ok t \<and> bs = data_bytes t @ rest" if "read_data bs = (Inr t, rest)" for bs t rest
    using that by (auto simp: data_ok_def data_bytes_def read_data_def split: if_splits
        dest!: uleb.sound programmable.sound address.sound slice_sound u64.sound expiration.sound)
qed (auto simp: data_bytes_def uleb_nonempty)

text \<open>Parsing takes exactly the bytes of the well-formed transactions that validation accepts.\<close>

lemma parse_data:
  "ParseTransactionData d = Inr t
   \<longleftrightarrow> data_ok t \<and> Data_Validate t = okay \<and> d = data_bytes t \<and> length d \<le> maxTransactionDataSize"
proof
  assume p: "ParseTransactionData d = Inr t"
  then obtain rest where r: "read_data d = (Inr t, rest)" "rest = []" "Data_Validate t = okay" "length d \<le> maxTransactionDataSize"
    unfolding ParseTransactionData_def by (auto split: if_splits prod.splits sum.splits)
  then show "data_ok t \<and> Data_Validate t = okay \<and> d = data_bytes t \<and> length d \<le> maxTransactionDataSize"
    using data.sound [OF r(1)] by simp
next
  assume a: "data_ok t \<and> Data_Validate t = okay \<and> d = data_bytes t \<and> length d \<le> maxTransactionDataSize"
  then have "read_data d = (Inr t, [])" using data.reads [of t "[]"] by simp
  then show "ParseTransactionData d = Inr t" using a data.nonempty [of t] by (auto simp: ParseTransactionData_def)
qed

section \<open>Canonical form and what is written\<close>

text \<open>The canonical text of a type argument is the text of its tag.\<close>

definition canon_type :: "string \<Rightarrow> string" where
  "canon_type v = (case parseTransactionTypeTag v of Inl _ \<Rightarrow> v
     | Inr t \<Rightarrow> (case tag_text t of Inl _ \<Rightarrow> v | Inr s \<Rightarrow> s))"

definition canon_command :: "Command \<Rightarrow> Command" where
  "canon_command c = c\<lparr>cmd_call := map_option (\<lambda>call. call\<lparr>call_types := List.map canon_type (call_types call)\<rparr>) (cmd_call c),
     cmd_vec := map_option (\<lambda>v. v\<lparr>vec_type := canon_type (vec_type v)\<rparr>) (cmd_vec c)\<rparr>"

definition canonical :: "TransactionData \<Rightarrow> TransactionData" where
  "canonical t = t\<lparr>Transaction := (Transaction t)\<lparr>Commands := List.map canon_command (Commands (Transaction t))\<rparr>\<rparr>"

lemma canon_type_of_tag:
  assumes "parseTransactionTypeTag v = Inr t"
  shows "tag_text t = Inr (canon_type v)" "canonical_type (canon_type v)" "tag_of (canon_type v) = t" "tag_ok maxMoveTypeDepth t"
proof -
  have ok: "tag_ok maxMoveTypeDepth t" using assms by (rule parse_tag_ok)
  obtain s where s: "tag_text t = Inr s" using tag_text_prints [OF ok] by blast
  then have "canon_type v = s" using assms by (simp add: canon_type_def)
  then show "tag_text t = Inr (canon_type v)" "canonical_type (canon_type v)" "tag_of (canon_type v) = t" "tag_ok maxMoveTypeDepth t"
    using s ok tag_of_text by (auto simp: canonical_type_def)
qed

lemma canon_type_id: "canonical_type s \<Longrightarrow> parseTransactionTypeTag s = Inr t \<Longrightarrow> canon_type s = s"
proof -
  assume "canonical_type s" "parseTransactionTypeTag s = Inr t"
  then obtain u where u: "tag_ok maxMoveTypeDepth u" "tag_text u = Inr s" by (auto simp: canonical_type_def)
  have "length s \<le> 4096" using \<open>parseTransactionTypeTag s = Inr t\<close> by (auto simp: parseTransactionTypeTag_def split: if_splits)
  then have "parseTransactionTypeTag s = Inr u" using parse_tag_text [OF u] by simp
  then show ?thesis using u(2) by (simp add: canon_type_def)
qed

lemma each_okay: "each f xs = okay \<longleftrightarrow> (\<forall>x \<in> set xs. f x = okay)"
  by (induction xs) (auto simp: ebind_eq_Inr)

lemma check_type_okay: "check_type v = okay \<longleftrightarrow> (\<exists>t. parseTransactionTypeTag v = Inr t)"
  by (auto simp: check_type_def ebind_eq_Inr)

lemma put_types_raw:
  "\<forall>v \<in> set vs. check_type v = okay
   \<Longrightarrow> put_types vs (raw b w) = Inr (raw (b @ concat (List.map (\<lambda>s. tag_bytes (tag_of s)) (List.map canon_type vs))) w)"
proof (induction vs arbitrary: b)
  case (Cons v vs)
  then obtain t where t: "parseTransactionTypeTag v = Inr t" by (auto simp: check_type_okay)
  then have "put_typeTag t x = raw (tag_bytes (tag_of (canon_type v))) x" for x
    using canon_type_of_tag [OF t] put_typeTag_raw by simp
  then show ?case using Cons t by simp
qed simp

text \<open>The lengths that Go's array types fix.\<close>

definition shaped :: "TransactionData \<Rightarrow> bool" where
  "shaped t \<longleftrightarrow> length (Sender t) = 32 \<and> length (gas_owner (Gas t)) = 32 \<and> list_all object_ok (Payment (Gas t))
     \<and> list_all (\<lambda>i. length (obj_address (input_object i)) = 32 \<and> length (obj_digest (input_object i)) = 32) (Inputs (Transaction t))
     \<and> list_all (\<lambda>c. case cmd_call c of None \<Rightarrow> True | Some call \<Rightarrow> length (call_package call) = 32) (Commands (Transaction t))"

lemma Argument_validate_ok: "Argument_validate n k a = okay \<Longrightarrow> argument_ok a"
  by (auto simp: Argument_validate_def argument_ok_def split: if_splits)

lemma check_inputs_each: "check_inputs seen is = okay \<Longrightarrow> i \<in> set is \<Longrightarrow> Input_validate i = okay"
  by (induction seen "is" rule: check_inputs.induct) (auto split: if_splits)

lemma check_objects_each:
  "check_objects seen is = Inr s \<Longrightarrow> i \<in> set is \<Longrightarrow>
    (if input_kind i = InputKindPure then input_object i = zero_object \<and> (\<forall>v. input_pure i = Some v \<longrightarrow> length v \<le> maxTransactionDataSize)
     else input_pure i = None \<and> (input_kind i \<noteq> InputKindShared \<longrightarrow> \<not> obj_mutable (input_object i))
       \<and> (input_kind i = InputKindShared \<longrightarrow> obj_digest (input_object i) = zero_address))"
  by (induction seen "is" rule: check_objects.induct) (auto split: if_splits option.splits)

lemma valid_input_ok:
  assumes "Input_validate i = okay" "check_objects seen is = Inr s" "i \<in> set is"
    and "length (obj_address (input_object i)) = 32" "length (obj_digest (input_object i)) = 32"
  shows "input_ok i"
  using check_objects_each [OF assms(2,3)] assms(1,4,5)
  by (auto simp: Input_validate_def input_ok_def Let_def split: if_splits)

lemma check_commands_each: "check_commands n k cs = okay \<Longrightarrow> c \<in> set cs \<Longrightarrow> \<exists>j. Command_validate n j c = okay"
  by (induction n k cs rule: check_commands.induct) auto

lemma valid_arguments_ok: "each (Argument_validate n k) xs = okay \<Longrightarrow> list_all argument_ok xs"
  by (auto simp: each_okay list_all_iff intro: Argument_validate_ok)

lemma valid_coin_ok:
  assumes "validateCoinCommand n k c = okay"
  shows "\<exists>v. coin_ok v \<and>
    ((cmd_kind c = CommandKindSplitCoins \<and> cmd_split c = Some v) \<or> (cmd_kind c = CommandKindMergeCoins \<and> cmd_merge c = Some v)
     \<or> (cmd_kind c = CommandKindTransferObjects \<and> cmd_transfer c = Some v))"
  using assms by (auto simp: validateCoinCommand_def coin_ok_def split: if_splits option.splits
      dest!: valid_arguments_ok Argument_validate_ok)

lemma one_variant:
  assumes "length (filter id [a \<noteq> None, b \<noteq> None, c \<noteq> None, d \<noteq> None, e \<noteq> None]) = 1"
  shows "(\<exists>x. a = Some x \<and> b = None \<and> c = None \<and> d = None \<and> e = None) \<or> (\<exists>x. a = None \<and> b = Some x \<and> c = None \<and> d = None \<and> e = None)
    \<or> (\<exists>x. a = None \<and> b = None \<and> c = Some x \<and> d = None \<and> e = None) \<or> (\<exists>x. a = None \<and> b = None \<and> c = None \<and> d = Some x \<and> e = None)
    \<or> (\<exists>x. a = None \<and> b = None \<and> c = None \<and> d = None \<and> e = Some x)"
  using assms by (cases a; cases b; cases c; cases d; cases e) simp_all

lemma valid_command_cases:
  assumes v: "Command_validate n k c = okay"
  obtains call where "c = no_command\<lparr>cmd_kind := CommandKindMoveCall, cmd_call := Some call\<rparr>" "MoveCall_validate n k call = okay"
    | m where "c = no_command\<lparr>cmd_kind := CommandKindMakeMoveVec, cmd_vec := Some m\<rparr>" "MakeMoveVec_validate n k m = okay"
    | v where "c = no_command\<lparr>cmd_kind := CommandKindSplitCoins, cmd_split := Some v\<rparr>" "coin_ok v"
    | v where "c = no_command\<lparr>cmd_kind := CommandKindMergeCoins, cmd_merge := Some v\<rparr>" "coin_ok v"
    | v where "c = no_command\<lparr>cmd_kind := CommandKindTransferObjects, cmd_transfer := Some v\<rparr>" "coin_ok v"
proof -
  obtain kd ca ve sp me tr where c: "c = \<lparr>cmd_kind = kd, cmd_call = ca, cmd_vec = ve, cmd_split = sp, cmd_merge = me, cmd_transfer = tr\<rparr>"
    by (cases c)
  have one: "length (filter id [ca \<noteq> None, ve \<noteq> None, sp \<noteq> None, me \<noteq> None, tr \<noteq> None]) = 1"
    using v by (simp only: Command_validate_def c Let_def Command.simps split: if_splits) auto
  have kinds: "kd \<in> {CommandKindMoveCall, CommandKindMakeMoveVec} \<or> validateCoinCommand n k c = okay"
    using v one by (auto simp only: Command_validate_def c Let_def Command.simps split: if_splits)
  show thesis
  proof (cases "kd \<in> {CommandKindMoveCall, CommandKindMakeMoveVec}")
    case True
    then consider "kd = CommandKindMoveCall" | "kd = CommandKindMakeMoveVec" by auto
    then show thesis
    proof cases
      case 1
      then obtain call where call: "ca = Some call" "MoveCall_validate n k call = okay"
        using v one by (auto simp: Command_validate_def c split: option.splits if_splits)
      then have "ve = None \<and> sp = None \<and> me = None \<and> tr = None" using one_variant [OF one] by auto
      then show thesis using that(1) [of call] call 1 c by (simp add: no_command_def)
    next
      case 2
      then obtain m where m: "ve = Some m" "MakeMoveVec_validate n k m = okay"
        using v one by (auto simp: Command_validate_def c split: option.splits if_splits)
      then have "ca = None \<and> sp = None \<and> me = None \<and> tr = None" using one_variant [OF one] by auto
      then show thesis using that(2) [of m] m 2 c by (simp add: no_command_def)
    qed
  next
    case False
    then have "validateCoinCommand n k c = okay" using kinds by blast
    then obtain w where w: "coin_ok w" "(kd = CommandKindSplitCoins \<and> sp = Some w) \<or> (kd = CommandKindMergeCoins \<and> me = Some w)
       \<or> (kd = CommandKindTransferObjects \<and> tr = Some w)"
      using valid_coin_ok [of n k c] by (auto simp: c)
    then show thesis using that(3-5) [of w] one_variant [OF one] c by (auto simp: no_command_def)
  qed
qed

lemma valid_command_ok:
  assumes v: "Command_validate n k c = okay" "check_command c = okay"
    and p: "case cmd_call c of None \<Rightarrow> True | Some call \<Rightarrow> length (call_package call) = 32"
  shows "command_ok (canon_command c)"
    "put_command c (raw b w) = Inr (raw (b @ command_bytes (canon_command c)) w)"
proof -
  from v(1) have "command_ok (canon_command c) \<and> put_command c (raw b w) = Inr (raw (b @ command_bytes (canon_command c)) w)"
  proof (cases rule: valid_command_cases)
    case (1 call)
    then have call: "list_all argument_ok (call_args call)" "validMoveIdentifier (call_module call)" "validMoveIdentifier (call_function call)"
      "length (call_types call) \<le> maxTransactionElements" "length (call_args call) \<le> maxTransactionElements"
      "\<forall>s \<in> set (call_types call). check_type s = okay" "length (call_package call) = 32"
      using v(2) p by (auto simp: MoveCall_validate_def check_command_def each_okay no_command_def split: if_splits intro: valid_arguments_ok)
    have "canonical_type (canon_type s)" if "s \<in> set (call_types call)" for s
      using call(6) that canon_type_of_tag by (auto simp: check_type_okay)
    then have "call_ok (call\<lparr>call_types := List.map canon_type (call_types call)\<rparr>)"
      using call identifier_text by (auto simp: call_ok_def list_all_iff)
    moreover have "put_command c (raw b w) = Inr (raw (b @ command_bytes (canon_command c)) w)"
      using 1(1) put_types_raw [OF call(6)] put_arguments_raw [OF call(1)]
      by (simp add: put_command_def deref_def no_command_def canon_command_def command_bytes_def call_bytes_def put_uleb_raw put_text_raw
          text_enc_def bytes_enc_def)
    ultimately show ?thesis using 1(1) by (auto simp: command_ok_def canon_command_def no_command_def)
  next
    case (2 m)
    then have m: "list_all argument_ok (vec_elements m)" "length (vec_elements m) \<le> maxTransactionElements" "check_type (vec_type m) = okay"
      using v(2) by (auto simp: MakeMoveVec_validate_def check_command_def no_command_def split: if_splits intro: valid_arguments_ok)
    then obtain t where t: "parseTransactionTypeTag (vec_type m) = Inr t" by (auto simp: check_type_okay)
    note tag = canon_type_of_tag [OF t]
    show ?thesis using 2(1) m t tag put_typeTag_raw [OF tag(4)]
      by (simp add: command_ok_def canon_command_def no_command_def put_command_def deref_def command_bytes_def put_uleb_raw put_arguments_raw)
  next
    case (3 u)
    then show ?thesis
      by (simp add: command_ok_def canon_command_def no_command_def put_command_def deref_def command_bytes_def coin_ok_def put_uleb_raw
          put_argument_raw put_arguments_raw)
  next
    case (4 u)
    then show ?thesis
      by (simp add: command_ok_def canon_command_def no_command_def put_command_def deref_def command_bytes_def coin_ok_def put_uleb_raw
          put_argument_raw put_arguments_raw)
  next
    case (5 u)
    then show ?thesis
      by (simp add: command_ok_def canon_command_def no_command_def put_command_def deref_def command_bytes_def coin_ok_def put_uleb_raw
          put_argument_raw put_arguments_raw)
  qed
  then show "command_ok (canon_command c)" "put_command c (raw b w) = Inr (raw (b @ command_bytes (canon_command c)) w)"
    by simp_all
qed

lemma put_commands_raw:
  "\<forall>c \<in> set cs. (\<exists>n k. Command_validate n k c = okay) \<and> check_command c = okay
      \<and> (case cmd_call c of None \<Rightarrow> True | Some call \<Rightarrow> length (call_package call) = 32)
   \<Longrightarrow> put_commands cs (raw b w) = Inr (raw (b @ concat (List.map command_bytes (List.map canon_command cs))) w)"
proof (induction cs arbitrary: b)
  case (Cons c cs)
  then obtain n k where "Command_validate n k c = okay" by auto
  then show ?case using Cons valid_command_ok(2) [of n k c b w] by simp
qed simp

lemma Data_Validate_parts:
  assumes "Data_Validate t = okay"
  obtains seen where "check_objects [] (Inputs (Transaction t)) = Inr seen"
    and "\<forall>i \<in> set (Inputs (Transaction t)). Input_validate i = okay"
    and "\<forall>c \<in> set (Commands (Transaction t)). (\<exists>n k. Command_validate n k c = okay) \<and> check_command c = okay"
    and "length (Inputs (Transaction t)) \<le> 65536" "length (Commands (Transaction t)) \<le> 65536" "length (Payment (Gas t)) \<le> 65536"
proof -
  have p: "Programmable_Validate (Transaction t) = okay" "length (Payment (Gas t)) \<le> 65536"
    "each check_command (Commands (Transaction t)) = okay"
    and "\<exists>seen. check_objects [] (Inputs (Transaction t)) = Inr seen"
    using assms by (auto simp: Data_Validate_def split: if_splits)
  then obtain seen where "check_objects [] (Inputs (Transaction t)) = Inr seen" by blast
  moreover have "check_inputs [] (Inputs (Transaction t)) = okay"
    "check_commands (length (Inputs (Transaction t))) 0 (Commands (Transaction t)) = okay"
    "length (Inputs (Transaction t)) \<le> 65536" "length (Commands (Transaction t)) \<le> 65536"
    using p(1) by (auto simp: Programmable_Validate_def split: if_splits)
  ultimately show thesis using that [of seen] p(2,3) check_inputs_each check_commands_each by (simp add: each_okay) blast
qed

lemma Marshal_bytes:
  assumes v: "Data_Validate t = okay" and s: "shaped t"
  shows "data_ok (canonical t)" "MarshalBCS t = raw (data_bytes (canonical t)) (Inr [])"
proof -
  let ?p = "Transaction t"
  obtain seen where o: "check_objects [] (Inputs ?p) = Inr seen" "\<forall>i \<in> set (Inputs ?p). Input_validate i = okay"
    "\<forall>c \<in> set (Commands ?p). (\<exists>n k. Command_validate n k c = okay) \<and> check_command c = okay"
    "length (Inputs ?p) \<le> 65536" "length (Commands ?p) \<le> 65536" "length (Payment (Gas t)) \<le> 65536"
    using v by (rule Data_Validate_parts)
  have inputs: "list_all input_ok (Inputs ?p)"
    using o(2) valid_input_ok [OF _ o(1)] s by (auto simp: list_all_iff shaped_def)
  have commands: "list_all command_ok (List.map canon_command (Commands ?p))"
    using o(3) valid_command_ok(1) s by (fastforce simp: list_all_iff shaped_def)
  have payment: "list_all object_ok (Payment (Gas t))" using s by (simp add: shaped_def)
  show "data_ok (canonical t)"
    using inputs commands payment o(4-6) s by (simp add: data_ok_def canonical_def programmable_ok_def shaped_def)
  have i: "put_slice put_input (Inputs ?p) w = raw (slice_bytes input_bytes (Inputs ?p)) w" for w
    using inputs by (intro put_slice_raw) (auto simp: list_all_iff put_input_raw)
  have g: "put_slice put_object (Payment (Gas t)) w = raw (slice_bytes object_bytes (Payment (Gas t))) w" for w
    by (intro put_slice_raw put_object_raw)
  have c: "put_commands (Commands ?p) (raw b w) = Inr (raw (b @ concat (List.map command_bytes (List.map canon_command (Commands ?p)))) w)" for b w
    using o(3) s by (intro put_commands_raw) (simp add: list_all_iff shaped_def)
  show "MarshalBCS t = raw (data_bytes (canonical t)) (Inr [])"
    using v by (cases "ExpirationEpoch t")
      (simp_all add: MarshalBCS_def put_programmable_def i c g put_uleb_raw put_u64_def Let_def data_bytes_def canonical_def
        programmable_bytes_def expiration_bytes_def)
qed

lemma data_ok_shaped:
  assumes "data_ok t"
  shows "shaped t"
proof -
  have "length (obj_address (input_object i)) = 32 \<and> length (obj_digest (input_object i)) = 32" if "input_ok i" for i
    using that by (auto simp: input_ok_def Let_def zero_object_def zero_address_def)
  moreover have "case cmd_call c of None \<Rightarrow> True | Some call \<Rightarrow> length (call_package call) = 32" if "command_ok c" for c
    using that by (auto simp: command_ok_def no_command_def call_ok_def)
  ultimately show ?thesis using assms by (simp add: data_ok_def shaped_def programmable_ok_def list_all_iff)
qed

lemma canon_command_id:
  assumes "command_ok c" and "check_command c = okay"
  shows "canon_command c = c"
proof -
  have "canon_type s = s" if "canonical_type s" "check_type s = okay" for s
    using that canon_type_id by (auto simp: check_type_okay)
  then have "List.map canon_type ts = ts" if "\<forall>s \<in> set ts. canonical_type s" "\<forall>s \<in> set ts. check_type s = okay" for ts
    using that by (intro map_idI) blast
  then show ?thesis using assms \<open>\<And>s. canonical_type s \<Longrightarrow> check_type s = okay \<Longrightarrow> canon_type s = s\<close>
    by (auto simp: command_ok_def canon_command_def check_command_def no_command_def call_ok_def each_okay list_all_iff
        split: if_splits)
qed

lemma canonical_id:
  assumes "data_ok t" and "Data_Validate t = okay"
  shows "canonical t = t"
proof -
  have "\<forall>c \<in> set (Commands (Transaction t)). canon_command c = c"
    using assms(1) Data_Validate_parts [OF assms(2)] canon_command_id by (auto simp: data_ok_def programmable_ok_def list_all_iff)
  then have "List.map canon_command (Commands (Transaction t)) = Commands (Transaction t)" by (intro map_idI) blast
  then show ?thesis by (simp add: canonical_def)
qed

lemma parse_then_marshal: "ParseTransactionData d = Inr t \<Longrightarrow> MarshalBCS t = Inr d"
  using Marshal_bytes(2) [of t] data_ok_shaped canonical_id by (auto simp: parse_data raw_start)

definition short_types :: "TransactionData \<Rightarrow> bool" where
  "short_types t \<longleftrightarrow> list_all (\<lambda>c. (case cmd_call c of None \<Rightarrow> True | Some call \<Rightarrow> list_all (\<lambda>s. length (canon_type s) \<le> 4096) (call_types call))
     \<and> (case cmd_vec c of None \<Rightarrow> True | Some v \<Rightarrow> length (canon_type (vec_type v)) \<le> 4096)) (Commands (Transaction t))"

lemma check_canon_type:
  "check_type v = okay \<Longrightarrow> check_type (canon_type v) = (if length (canon_type v) \<le> 4096 then okay else Inl (Fail ''type=too_long''))"
proof -
  assume "check_type v = okay"
  then obtain t where t: "parseTransactionTypeTag v = Inr t" by (auto simp: check_type_okay)
  show ?thesis
  proof (cases "length (canon_type v) \<le> 4096")
    case True
    then show ?thesis using parse_tag_text [of t "canon_type v"] canon_type_of_tag [OF t] by (simp add: check_type_def)
  next
    case False
    then show ?thesis by (simp add: check_type_def parseTransactionTypeTag_def)
  qed
qed

lemma each_two:
  "\<forall>x \<in> set xs. f x = (if p x then okay else Inl e) \<Longrightarrow> each f xs = (if list_all p xs then okay else Inl e)"
  by (induction xs) auto

lemma canon_type_trimmed:
  assumes "check_type v = okay"
  shows "TrimSpace (canon_type v) \<noteq> []"
proof -
  obtain t where t: "parseTransactionTypeTag v = Inr t" using assms by (auto simp: check_type_okay)
  have "prints maxMoveTypeDepth t (canon_type v)"
    using tag_text_prints [OF canon_type_of_tag(4) [OF t]] canon_type_of_tag(1) [OF t] by auto
  then show ?thesis by (simp add: prints_def TrimSpace_plain word_char_plain del: parse.simps)
qed

lemma Command_validate_canon:
  assumes "Command_validate n k c = okay" "check_command c = okay"
  shows "Command_validate n k (canon_command c) = okay"
  using assms(1)
proof (cases rule: valid_command_cases)
  case (1 call)
  then have "\<forall>s \<in> set (call_types call). check_type s = okay"
    using assms(2) by (auto simp: check_command_def no_command_def each_okay split: if_splits)
  then have "each (\<lambda>value. if TrimSpace value = [] then Inl (Fail ''type_argument=empty'') else okay) (List.map canon_type (call_types call)) = okay"
    using canon_type_trimmed by (auto simp: each_okay)
  then show ?thesis using 1
    by (auto simp: Command_validate_def canon_command_def no_command_def MoveCall_validate_def split: if_splits)
next
  case (2 m)
  then have "check_type (vec_type m) = okay"
    using assms(2) by (auto simp: check_command_def no_command_def split: if_splits)
  then show ?thesis using 2 canon_type_trimmed
    by (auto simp: Command_validate_def canon_command_def no_command_def MakeMoveVec_validate_def split: if_splits)
qed (use assms(1) in \<open>simp_all add: canon_command_def no_command_def\<close>)

lemma check_commands_canon:
  "check_commands n k cs = okay \<Longrightarrow> \<forall>c \<in> set cs. check_command c = okay \<Longrightarrow> check_commands n k (List.map canon_command cs) = okay"
  by (induction n k cs rule: check_commands.induct) (auto simp: Command_validate_canon)

lemma check_command_canon:
  assumes "check_command c = okay" and "Command_validate n k c = okay"
  shows "check_command (canon_command c)
    = (if (case cmd_call c of None \<Rightarrow> True | Some call \<Rightarrow> list_all (\<lambda>s. length (canon_type s) \<le> 4096) (call_types call))
          \<and> (case cmd_vec c of None \<Rightarrow> True | Some v \<Rightarrow> length (canon_type (vec_type v)) \<le> 4096)
       then okay else Inl (Fail ''type=too_long''))"
  using assms(2)
proof (cases rule: valid_command_cases)
  case (1 call)
  then have t: "\<forall>s \<in> set (call_types call). check_type s = okay"
    and "validMoveIdentifier (call_module call)" "validMoveIdentifier (call_function call)"
      "length (call_types call) \<le> maxTransactionElements" "length (call_args call) \<le> maxTransactionElements"
    using assms(1) by (auto simp: check_command_def no_command_def each_okay split: if_splits)
  moreover have "each check_type (List.map canon_type (call_types call))
      = (if list_all (\<lambda>s. length s \<le> 4096) (List.map canon_type (call_types call)) then okay else Inl (Fail ''type=too_long''))"
    using t check_canon_type by (intro each_two) auto
  ultimately show ?thesis using 1 by (simp add: check_command_def canon_command_def no_command_def list_all_iff)
next
  case (2 m)
  then show ?thesis using assms(1) check_canon_type [of "vec_type m"]
    by (auto simp: check_command_def canon_command_def no_command_def split: if_splits)
qed (simp_all add: check_command_def canon_command_def no_command_def)

lemma each_map: "each f (List.map g xs) = each (\<lambda>x. f (g x)) xs"
  by (induction xs) simp_all

lemma Validate_canonical:
  assumes v: "Data_Validate t = okay"
  shows "Data_Validate (canonical t) = (if short_types t then okay else Inl (Fail ''type=too_long''))"
proof -
  let ?cs = "Commands (Transaction t)"
  have c: "\<forall>c \<in> set ?cs. (\<exists>n k. Command_validate n k c = okay) \<and> check_command c = okay"
    using Data_Validate_parts [OF v] by metis
  define short :: "Command \<Rightarrow> bool" where "short c \<longleftrightarrow> (case cmd_call c of None \<Rightarrow> True | Some call \<Rightarrow> list_all (\<lambda>s. length (canon_type s) \<le> 4096) (call_types call))
     \<and> (case cmd_vec c of None \<Rightarrow> True | Some v \<Rightarrow> length (canon_type (vec_type v)) \<le> 4096)" for c
  have "each (\<lambda>c. check_command (canon_command c)) ?cs = (if list_all short ?cs then okay else Inl (Fail ''type=too_long''))"
    using c check_command_canon unfolding short_def by (intro each_two ballI) blast
  then have e: "each check_command (List.map canon_command ?cs) = (if short_types t then okay else Inl (Fail ''type=too_long''))"
    unfolding short_types_def short_def by (simp only: each_map)
  have "check_commands (length (Inputs (Transaction t))) 0 ?cs = okay"
    using v by (auto simp: Data_Validate_def Programmable_Validate_def split: if_splits)
  then have k: "check_commands (length (Inputs (Transaction t))) 0 (List.map canon_command ?cs) = okay"
    using c by (intro check_commands_canon) auto
  show ?thesis using v e k
    by (auto simp: Data_Validate_def Programmable_Validate_def canonical_def split: if_splits)
qed

lemma marshal_then_parse:
  assumes s: "shaped t" and m: "MarshalBCS t = Inr d"
  shows "ParseTransactionData d = (if short_types t then Inr (canonical t) else Inl (Fail ''type=too_long''))"
proof -
  have v: "Data_Validate t = okay" using m by (cases "Data_Validate t") (auto simp: MarshalBCS_def)
  have d: "d = data_bytes (canonical t)" "length d \<le> maxTransactionDataSize"
    using m Marshal_bytes(2) [OF v s] by (auto simp: raw_start split: if_splits)
  have r: "read_data d = (Inr (canonical t), [])" using data.reads [OF Marshal_bytes(1) [OF v s], of "[]"] d(1) by simp
  have "d \<noteq> []" using data.nonempty [OF Marshal_bytes(1) [OF v s]] d(1) by simp
  then show ?thesis using r d(2) Validate_canonical [OF v] by (simp add: ParseTransactionData_def)
qed

section \<open>No input makes the codec panic\<close>

definition calm :: "'a reader \<Rightarrow> bool" where
  "calm r \<longleftrightarrow> (\<forall>bs. outcome r bs (\<lambda>_ _. True) (\<lambda>e. \<not> panics (Inl e :: unit res)))"

lemma calm_andthen: "calm r \<Longrightarrow> (\<And>x. calm (f x)) \<Longrightarrow> calm (andthen r f)"
  unfolding calm_def outcome_andthen by (blast intro: outcome_mono)

lemma calm_basic [simp]: "calm (ret x)" "calm (throw (Fail e))"
  by (simp_all add: calm_def)

lemma calm_reading: "(\<And>s. calm (f s)) \<Longrightarrow> calm (reading f)"
  by (simp add: calm_def)

lemma calm_if: "(c \<Longrightarrow> calm r) \<Longrightarrow> (\<not> c \<Longrightarrow> calm s) \<Longrightarrow> calm (if c then r else s)"
  by simp

lemma calm_raw: "calm (read_raw n)"
  by (simp add: calm_def read_raw_def)

lemma calm_byte: "calm read_byte"
  unfolding read_byte_def by (intro calm_andthen calm_raw) simp

lemma calm_uleb_loop: "calm (uleb_loop k i v)"
proof (induction k arbitrary: i v)
  case (Suc k)
  then show ?case unfolding uleb_loop.simps Let_def by (intro calm_andthen calm_if calm_byte) simp_all
qed simp

lemma calm_length: "calm (read_length limit)"
  unfolding read_length_def read_uleb_def by (intro calm_andthen calm_uleb_loop calm_reading calm_if) simp_all

lemma calm_many: "calm r \<Longrightarrow> calm (read_many n r)"
  by (induction n) (auto intro!: calm_andthen)

lemma calm_slice: "calm r \<Longrightarrow> calm (read_slice r)"
  unfolding read_slice_def by (intro calm_andthen calm_length calm_many)

lemma calm_words: "calm read_uleb" "calm read_u16" "calm read_u64" "calm read_address" "calm read_bytes" "calm read_text"
  unfolding read_uleb_def read_u16_def read_u64_def read_address_def read_bytes_def read_text_def
  by (intro calm_andthen calm_uleb_loop calm_length calm_raw calm_if; simp)+

lemma calm_typeTag: "calm (read_typeTag k)"
proof (induction k)
  case (Suc k)
  then show ?case unfolding read_typeTag.simps by (intro calm_andthen calm_words calm_slice calm_if) simp_all
qed (unfold read_typeTag.simps, rule calm_basic)

lemma calm_type: "calm read_type"
  unfolding calm_def
proof
  fix bs
  obtain out rest where r: "read_typeTag maxMoveTypeDepth bs = (out, rest)" by (cases "read_typeTag maxMoveTypeDepth bs")
  show "outcome read_type bs (\<lambda>_ _. True) (\<lambda>e. \<not> panics (Inl e :: unit res))"
  proof (cases out)
    case (Inl e)
    then show ?thesis using r calm_typeTag [of maxMoveTypeDepth, unfolded calm_def, rule_format, of bs]
      by (simp add: read_type_def outcome_def andthen_cases del: read_typeTag.simps)
  next
    case (Inr t)
    then obtain s where "tag_text t = Inr s" using type_tag.sound [of bs t rest] tag_text_prints r by blast
    then show ?thesis using r Inr by (simp add: read_type_def outcome_def andthen_cases del: read_typeTag.simps)
  qed
qed

lemma calm_parts: "calm read_object" "calm read_argument" "calm read_arguments" "calm read_input" "calm read_command" "calm read_expiration"
proof -
  show a: "calm read_argument" unfolding read_argument_def by (intro calm_andthen calm_words calm_if) simp_all
  then show as: "calm read_arguments" unfolding read_arguments_def by (rule calm_slice)
  show o: "calm read_object" unfolding read_object_def by (intro calm_andthen calm_words calm_if) simp_all
  then show "calm read_input" unfolding read_input_def by (intro calm_andthen calm_words calm_byte calm_if) simp_all
  show "calm read_command" unfolding read_command_def by (intro calm_andthen calm_words calm_slice calm_type a as calm_if) simp_all
  show "calm read_expiration" unfolding read_expiration_def by (intro calm_andthen calm_words calm_if) simp_all
qed

lemma calm_data: "calm read_data"
  unfolding read_data_def read_programmable_def by (intro calm_andthen calm_words calm_slice calm_parts calm_if) simp_all

lemma Parse_calm: "\<not> panics (ParseTransactionData d)"
proof (cases "read_data d")
  case (Pair out rest)
  have "\<not> panics (Inl e :: TransactionData res)" if "out = Inl e" for e
    using calm_data Pair that by (cases e) (auto simp: calm_def outcome_def dest: spec [of _ d])
  then show ?thesis using Data_Validate_calm Pair
    by (cases out) (simp_all add: ParseTransactionData_def panics_ebind)
qed

lemma Marshal_calm: "shaped t \<Longrightarrow> \<not> panics (MarshalBCS t)"
proof (cases "Data_Validate t")
  case (Inl e)
  then show ?thesis using Data_Validate_calm [of t] by (simp add: MarshalBCS_def panics_def)
next
  case (Inr x)
  moreover assume "shaped t"
  ultimately show ?thesis by (simp add: Marshal_bytes(2) raw_start)
qed

section \<open>The round trips\<close>

text \<open>
  C21. Decoding a Sui transaction (\<open>ParseTransactionData\<close>), for all byte strings: it never panics, and every
  transaction it returns is encoded by \<open>MarshalBCS\<close> into exactly the bytes it came from. So no two byte strings
  stand for one transaction, and a digest computed from the decoded value is the digest of the bytes.
\<close>

theorem ParseTransactionData_canonical:
  "case ParseTransactionData d of Inl e \<Rightarrow> \<not> panics (Inl e :: unit res) | Inr t \<Rightarrow> MarshalBCS t = Inr d"
proof (cases "ParseTransactionData d")
  case (Inl e)
  then show ?thesis using Parse_calm [of d] by (cases e) simp_all
next
  case (Inr t)
  then show ?thesis using parse_then_marshal by simp
qed

text \<open>
  C22. Encoding a Sui transaction (\<open>MarshalBCS\<close>), for every value whose arrays have the lengths of their Go types:
  it never panics, stays within one MiB, and decoding gives the transaction back, its type arguments in canonical
  text. The one exception is a type argument whose canonical text exceeds 4096 characters although the text given
  did not (a short address is printed with 64 digits): such a transaction is encoded, but its own decoder refuses it.
\<close>

theorem MarshalBCS_round_trip:
  assumes "shaped t"
  shows "case MarshalBCS t of Inl e \<Rightarrow> \<not> panics (Inl e :: unit res)
    | Inr d \<Rightarrow> length d \<le> maxTransactionDataSize
        \<and> ParseTransactionData d = (if short_types t then Inr (canonical t) else Inl (Fail ''type=too_long''))"
proof (cases "MarshalBCS t")
  case (Inl e)
  then show ?thesis using Marshal_calm [OF assms] by (cases e) simp_all
next
  case (Inr d)
  then have "Data_Validate t = okay" by (cases "Data_Validate t") (simp_all add: MarshalBCS_def)
  then have "length d \<le> maxTransactionDataSize"
    using Marshal_bytes(2) [OF _ assms] Inr by (auto simp: raw_start split: if_splits)
  then show ?thesis using marshal_then_parse [OF assms Inr] Inr by simp
qed

definition sample_sui :: TransactionData where
  "sample_sui = \<lparr>Transaction = \<lparr>
       Inputs = [\<lparr>input_kind = InputKindPure, input_pure = Some (replicate 32 7), input_object = zero_object\<rparr>],
       Commands = [no_command\<lparr>cmd_kind := CommandKindTransferObjects, cmd_transfer := Some
         \<lparr>coin_main = \<lparr>arg_kind = ArgumentKindInput, arg_index = 0, Subresult = None\<rparr>,
          coin_args = [\<lparr>arg_kind = ArgumentKindGas, arg_index = 0, Subresult = None\<rparr>]\<rparr>\<rparr>]\<rparr>,
     Sender = replicate 32 1,
     Gas = \<lparr>Payment = [\<lparr>ref_address = replicate 32 2, ref_version = 5, ref_digest = replicate 32 3\<rparr>],
       gas_owner = replicate 32 1, gas_price = 1000, gas_budget = 5000000\<rparr>,
     ExpirationEpoch = None\<rparr>"

theorem MarshalBCS_round_trip_witness:
  "shaped sample_sui \<and> (\<exists>d. MarshalBCS sample_sui = Inr d \<and> ParseTransactionData d = Inr sample_sui)"
proof -
  have s: "shaped sample_sui" by (simp add: shaped_def sample_sui_def object_ok_def zero_object_def zero_address_def no_command_def)
  have c: "canonical sample_sui = sample_sui" "short_types sample_sui"
    by (simp_all add: canonical_def canon_command_def short_types_def sample_sui_def no_command_def)
  have z: "replicate 32 7 \<noteq> zero_address" "replicate 32 1 \<noteq> zero_address" "replicate 32 2 \<noteq> zero_address" "replicate 32 3 \<noteq> zero_address"
    by (simp_all add: zero_address_def)
  have v: "Data_Validate sample_sui = okay"
    using z by (simp add: Data_Validate_def sample_sui_def Programmable_Validate_def Input_validate_def Command_validate_def no_command_def
        validateCoinCommand_def Argument_validate_def Reference_Validate_def check_command_def maxTransactionDataSize_def)
  have "length (data_bytes sample_sui) \<le> maxTransactionDataSize"
    by (simp add: data_bytes_def sample_sui_def programmable_bytes_def input_bytes_def command_bytes_def no_command_def bytes_enc_def
        argument_bytes_def object_bytes_def expiration_bytes_def uleb_bytes.simps maxTransactionDataSize_def)
  then obtain d where d: "MarshalBCS sample_sui = Inr d" using Marshal_bytes(2) [OF v s] c by (simp add: raw_start)
  from c show ?thesis using MarshalBCS_round_trip [OF s] s d by auto
qed

end
