(* ===== verification/Sui_Builder.thy ===== *)
theory Sui_Builder
  imports Sui_Transaction
begin

text \<open>
  \<open>ProgrammableTransactionBuilder\<close> of \<open>go/sui/programmable_transaction.go\<close>, \<open>coin_commands.go\<close> and the framework
  calls of \<open>balance.go\<close>. The state is the transaction behind the pointer, \<open>None\<close> for a nil builder.
\<close>

type_synonym builder = "ProgrammableTransaction option"

type_synonym 'a building = "(builder, 'a) proc"

definition with_builder :: "(ProgrammableTransaction \<Rightarrow> 'a building) \<Rightarrow> 'a building" where
  "with_builder f = reading (\<lambda>b. case b of None \<Rightarrow> throw (Fail ''builder=null'') | Some t \<Rightarrow> f t)"

definition NewProgrammableTransactionBuilder :: builder where
  "NewProgrammableTransactionBuilder = Some \<lparr>Inputs = [], Commands = []\<rparr>"

definition input_argument :: "nat \<Rightarrow> Argument" where
  "input_argument index = \<lparr>arg_kind = ArgumentKindInput, arg_index = word_of_nat index, Subresult = None\<rparr>"

definition result_argument :: "nat \<Rightarrow> Argument" where
  "result_argument index = \<lparr>arg_kind = ArgumentKindResult, arg_index = word_of_nat index, Subresult = None\<rparr>"

definition addInput :: "Input \<Rightarrow> Argument building" where
  "addInput i = with_builder (\<lambda>t.
     if length (Inputs t) \<ge> 65536 then throw (Fail ''inputs=too_long'')
     else andthen (update (\<lambda>_. Some (t\<lparr>Inputs := Inputs t @ [i]\<rparr>))) (\<lambda>_. ret (input_argument (length (Inputs t)))))"

definition addCommand :: "Command \<Rightarrow> Argument building" where
  "addCommand c = with_builder (\<lambda>t.
     if length (Commands t) \<ge> 65536 then throw (Fail ''commands=too_long'')
     else andthen (update (\<lambda>_. Some (t\<lparr>Commands := Commands t @ [c]\<rparr>))) (\<lambda>_. ret (result_argument (length (Commands t)))))"

definition build_Pure :: "bytes option \<Rightarrow> Argument building" where
  "build_Pure v = with_builder (\<lambda>_. case v of None \<Rightarrow> throw (Fail ''value=null'')
     | Some v \<Rightarrow> addInput \<lparr>input_kind = InputKindPure, input_pure = Some v, input_object = zero_object\<rparr>)"

text \<open>The first input of an object with the address.\<close>

fun find_object :: "Address \<Rightarrow> nat \<Rightarrow> Input list \<Rightarrow> (nat \<times> Input) option" where
  "find_object a n [] = None"
| "find_object a n (i # is) =
     (if input_kind i = InputKindPure \<or> obj_address (input_object i) \<noteq> a then find_object a (Suc n) is else Some (n, i))"

definition build_Object :: "u8 \<Rightarrow> ObjectInput \<Rightarrow> Argument building" where
  "build_Object kind obj = with_builder (\<lambda>t.
     let input = \<lparr>input_kind = kind, input_pure = None, input_object = obj\<rparr>
     in andthen (lift (Input_validate input)) (\<lambda>_.
        case find_object (obj_address obj) 0 (Inputs t) of
          None \<Rightarrow> addInput input
        | Some (index, existing) \<Rightarrow>
            if input_kind existing \<noteq> kind then throw (Fail ''object_kind=invalid'')
            else if kind = InputKindShared then
              (if obj_version (input_object existing) \<noteq> obj_version obj then throw (Fail ''shared_object_version=invalid'')
               else
                 andthen (if obj_mutable obj
                          then update (\<lambda>_. Some (t\<lparr>Inputs := (Inputs t)[index :=
                            existing\<lparr>input_object := (input_object existing)\<lparr>obj_mutable := True\<rparr>\<rparr>]\<rparr>))
                          else ret ()) (\<lambda>_. ret (input_argument index)))
            else if input_object existing \<noteq> obj then throw (Fail ''object_reference=invalid'')
            else ret (input_argument index)))"

definition build_MoveCall :: "MoveCall \<Rightarrow> Argument building" where
  "build_MoveCall call = with_builder (\<lambda>t.
     andthen (lift (MoveCall_validate (length (Inputs t)) (length (Commands t)) call)) (\<lambda>_.
     addCommand (no_command\<lparr>cmd_kind := CommandKindMoveCall, cmd_call := Some call\<rparr>)))"

definition build_MakeMoveVec :: "MakeMoveVec \<Rightarrow> Argument building" where
  "build_MakeMoveVec v = with_builder (\<lambda>t.
     andthen (lift (MakeMoveVec_validate (length (Inputs t)) (length (Commands t)) v)) (\<lambda>_.
     addCommand (no_command\<lparr>cmd_kind := CommandKindMakeMoveVec, cmd_vec := Some v\<rparr>)))"

definition build_coin :: "Command \<Rightarrow> Argument building" where
  "build_coin c = with_builder (\<lambda>t.
     andthen (lift (Command_validate (length (Inputs t)) (length (Commands t)) c)) (\<lambda>_. addCommand c))"

definition build_SplitCoins :: "CoinCommand \<Rightarrow> Argument building" where
  "build_SplitCoins v = build_coin (no_command\<lparr>cmd_kind := CommandKindSplitCoins, cmd_split := Some v\<rparr>)"

definition build_MergeCoins :: "CoinCommand \<Rightarrow> unit building" where
  "build_MergeCoins v = andthen (build_coin (no_command\<lparr>cmd_kind := CommandKindMergeCoins, cmd_merge := Some v\<rparr>)) (\<lambda>_. ret ())"

definition build_TransferObjects :: "CoinCommand \<Rightarrow> unit building" where
  "build_TransferObjects v = andthen (build_coin (no_command\<lparr>cmd_kind := CommandKindTransferObjects, cmd_transfer := Some v\<rparr>)) (\<lambda>_. ret ())"

definition appendFrameworkMoveCall :: "string \<Rightarrow> string \<Rightarrow> string \<Rightarrow> Argument list \<Rightarrow> Argument building" where
  "appendFrameworkMoveCall m f typeArgument args = with_builder (\<lambda>_.
     let typeArgument = TrimSpace typeArgument
     in if typeArgument = [] then throw (Fail ''coin_type=empty'')
        else andthen (lift (ParseAddress ''0x2'')) (\<lambda>framework.
             build_MoveCall \<lparr>call_package = framework, call_module = m, call_function = f, call_types = [typeArgument], call_args = args\<rparr>))"

definition AppendCoinIntoBalance :: "string \<Rightarrow> Argument \<Rightarrow> Argument building" where
  "AppendCoinIntoBalance coinType coin = appendFrameworkMoveCall ''coin'' ''into_balance'' coinType [coin]"

definition AppendDestroyZeroBalance :: "string \<Rightarrow> Argument \<Rightarrow> unit building" where
  "AppendDestroyZeroBalance coinType balance =
     andthen (appendFrameworkMoveCall ''balance'' ''destroy_zero'' coinType [balance]) (\<lambda>_. ret ())"

definition NestedResult :: "Argument \<Rightarrow> u16 \<Rightarrow> Argument res" where
  "NestedResult result index =
     (if arg_kind result \<noteq> ArgumentKindResult \<or> Subresult result \<noteq> None then Inl (Fail ''result=invalid'')
      else Inr \<lparr>arg_kind = ArgumentKindResult, arg_index = arg_index result, Subresult = Some index\<rparr>)"

definition Build :: "ProgrammableTransaction building" where
  "Build = with_builder (\<lambda>t. andthen (lift (Programmable_Validate t)) (\<lambda>_. ret t))"

section \<open>What a builder holds is valid\<close>

definition addresses :: "Input list \<Rightarrow> Address list" where
  "addresses is = List.map (\<lambda>i. obj_address (input_object i)) (filter (\<lambda>i. input_kind i \<noteq> InputKindPure) is)"

lemma check_inputs_okay:
  "check_inputs seen is = okay \<longleftrightarrow>
     (\<forall>i \<in> set is. Input_validate i = okay) \<and> distinct (addresses is) \<and> set (addresses is) \<inter> set seen = {}"
proof (induction seen "is" rule: check_inputs.induct)
  case (2 seen i "is")
  then show ?case by (cases "Input_validate i"; cases "input_kind i = InputKindPure") (auto simp: addresses_def)
qed (simp add: addresses_def)

lemma check_commands_okay: "check_commands n k cs = okay \<longleftrightarrow> (\<forall>j < length cs. Command_validate n (k + j) (cs ! j) = okay)"
proof (induction n k cs rule: check_commands.induct)
  case (2 n k c cs)
  then show ?case by (cases "Command_validate n k c") (auto simp: All_less_Suc2)
qed simp

definition built :: "ProgrammableTransaction \<Rightarrow> bool" where
  "built t \<longleftrightarrow> length (Inputs t) \<le> 65536 \<and> length (Commands t) \<le> 65536 \<and> check_inputs [] (Inputs t) = okay
     \<and> check_commands (length (Inputs t)) 0 (Commands t) = okay"

lemma Argument_validate_mono:
  "Argument_validate n k a = okay \<Longrightarrow> n \<le> n' \<Longrightarrow> k \<le> k' \<Longrightarrow> Argument_validate n' k' a = okay"
  by (auto simp: Argument_validate_def split: if_splits)

lemma each_mono: "each f xs = okay \<Longrightarrow> (\<And>x. f x = okay \<Longrightarrow> g x = okay) \<Longrightarrow> each g xs = okay"
  by (induction xs) (auto simp: ebind_eq_Inr)

lemma Command_validate_mono:
  assumes "Command_validate n k c = okay" and "n \<le> n'"
  shows "Command_validate n' k c = okay"
proof -
  note a = Argument_validate_mono [OF _ assms(2) order_refl, of k]
  note e = each_mono [of "Argument_validate n k" _ "Argument_validate n' k", OF _ a]
  have b: "m = okay \<Longrightarrow> f () = okay \<Longrightarrow> ebind m f = okay" for m :: "unit res" and f :: "unit \<Rightarrow> unit res" by simp
  show ?thesis using assms(1)
    by (auto simp: Command_validate_def Let_def MoveCall_validate_def MakeMoveVec_validate_def validateCoinCommand_def
        split: if_splits option.splits intro!: b intro: a e)
qed

lemma addresses_append: "addresses (xs @ [i]) = addresses xs @ (if input_kind i = InputKindPure then [] else [obj_address (input_object i)])"
  by (simp add: addresses_def)

lemma built_add_input:
  assumes "built t" "length (Inputs t) < 65536" "Input_validate i = okay"
    and "input_kind i \<noteq> InputKindPure \<Longrightarrow> obj_address (input_object i) \<notin> set (addresses (Inputs t))"
  shows "built (t\<lparr>Inputs := Inputs t @ [i]\<rparr>)"
proof -
  have "check_commands (Suc (length (Inputs t))) 0 (Commands t) = okay"
    using assms(1) Command_validate_mono by (fastforce simp: built_def check_commands_okay)
  then show ?thesis using assms by (auto simp: built_def check_inputs_okay addresses_append)
qed

lemma built_add_command:
  assumes "built t" "length (Commands t) < 65536" "Command_validate (length (Inputs t)) (length (Commands t)) c = okay"
  shows "built (t\<lparr>Commands := Commands t @ [c]\<rparr>)"
  using assms by (auto simp: built_def check_commands_okay nth_append less_Suc_eq)

lemma find_object_None: "find_object a n is = None \<longleftrightarrow> a \<notin> set (addresses is)"
  by (induction a n "is" rule: find_object.induct) (auto simp: addresses_def)

lemma find_object_Some:
  "find_object a n is = Some (k, i) \<Longrightarrow> n \<le> k \<and> k - n < length is \<and> is ! (k - n) = i \<and> input_kind i \<noteq> InputKindPure \<and> obj_address (input_object i) = a"
proof (induction a n "is" rule: find_object.induct)
  case (2 a n i' "is")
  show ?case
  proof (cases "input_kind i' = InputKindPure \<or> obj_address (input_object i') \<noteq> a")
    case True
    then have "Suc n \<le> k" "k - Suc n < length is" "is ! (k - Suc n) = i" "input_kind i \<noteq> InputKindPure" "obj_address (input_object i) = a"
      using 2 by auto
    then show ?thesis by (auto simp: nth_Cons')
  next
    case False
    then show ?thesis using 2(2) by simp
  qed
qed simp

lemma addresses_update:
  "k < length is \<Longrightarrow> input_kind (is ! k) = input_kind i \<Longrightarrow> obj_address (input_object (is ! k)) = obj_address (input_object i)
   \<Longrightarrow> addresses (is[k := i]) = addresses is"
proof (induction "is" arbitrary: k)
  case (Cons x xs)
  then show ?case by (cases k) (auto simp: addresses_def)
qed simp

lemma built_update_input:
  assumes "built t" "k < length (Inputs t)" "Input_validate i = okay"
    and "input_kind (Inputs t ! k) = input_kind i" "obj_address (input_object (Inputs t ! k)) = obj_address (input_object i)"
  shows "built (t\<lparr>Inputs := (Inputs t)[k := i]\<rparr>)"
  using assms addresses_update [OF assms(2,4,5)] set_update_subset_insert [of "Inputs t" k i]
  by (auto simp: built_def check_inputs_okay)

section \<open>Every operation keeps it\<close>

definition keeps :: "('a \<Rightarrow> ProgrammableTransaction \<Rightarrow> bool) \<Rightarrow> 'a building \<Rightarrow> bool" where
  "keeps good m \<longleftrightarrow> (\<forall>t. built t \<longrightarrow> (\<exists>t'. snd (m (Some t)) = Some t' \<and> built t' \<and>
     (case fst (m (Some t)) of Inl e \<Rightarrow> t' = t \<and> \<not> panics (Inl e :: unit res) | Inr a \<Rightarrow> good a t')))"

definition usable :: "Argument \<Rightarrow> ProgrammableTransaction \<Rightarrow> bool" where
  "usable a t \<longleftrightarrow> Argument_validate (length (Inputs t)) (length (Commands t)) a = okay"

lemma with_builder_Some [simp]: "with_builder f (Some t) = f t (Some t)"
  by (simp add: with_builder_def)

lemma usable_input: "n < length (Inputs t) \<Longrightarrow> n < 65536 \<Longrightarrow> usable (input_argument n) t"
  by (simp add: usable_def input_argument_def Argument_validate_def unsigned_of_nat take_bit_nat_eq_self)

lemma usable_result: "n < length (Commands t) \<Longrightarrow> n < 65536 \<Longrightarrow> usable (result_argument n) t"
  by (simp add: usable_def result_argument_def Argument_validate_def unsigned_of_nat take_bit_nat_eq_self)

lemma addInput_cases:
  assumes "built t" "Input_validate i = okay"
    and "input_kind i \<noteq> InputKindPure \<Longrightarrow> obj_address (input_object i) \<notin> set (addresses (Inputs t))"
  shows "\<exists>t'. snd (addInput i (Some t)) = Some t' \<and> built t' \<and>
    (case fst (addInput i (Some t)) of Inl e \<Rightarrow> t' = t \<and> \<not> panics (Inl e :: unit res) | Inr a \<Rightarrow> usable a t')"
  using assms built_add_input [OF assms(1) _ assms(2,3)] by (auto simp: addInput_def intro!: usable_input)

lemma addCommand_cases:
  assumes "built t" "Command_validate (length (Inputs t)) (length (Commands t)) c = okay"
  shows "\<exists>t'. snd (addCommand c (Some t)) = Some t' \<and> built t' \<and>
    (case fst (addCommand c (Some t)) of Inl e \<Rightarrow> t' = t \<and> \<not> panics (Inl e :: unit res) | Inr a \<Rightarrow> usable a t')"
  using assms built_add_command [OF assms(1) _ assms(2)] by (auto simp: addCommand_def intro!: usable_result)

lemma keeps_addCommand:
  assumes "\<And>t. \<not> panics (f t)" and "\<And>t. f t = okay \<Longrightarrow> Command_validate (length (Inputs t)) (length (Commands t)) c = okay"
  shows "keeps usable (with_builder (\<lambda>t. andthen (lift (f t)) (\<lambda>_. addCommand c)))"
  unfolding keeps_def
proof (intro allI impI)
  fix t assume b: "built t"
  show "\<exists>t'. snd (with_builder (\<lambda>t. andthen (lift (f t)) (\<lambda>_. addCommand c)) (Some t)) = Some t' \<and> built t' \<and>
    (case fst (with_builder (\<lambda>t. andthen (lift (f t)) (\<lambda>_. addCommand c)) (Some t)) of Inl e \<Rightarrow> t' = t \<and> \<not> panics (Inl e :: unit res)
     | Inr a \<Rightarrow> usable a t')"
  proof (cases "f t")
    case (Inl e)
    then show ?thesis using b assms(1) [of t] by simp
  next
    case (Inr x)
    then show ?thesis using addCommand_cases [OF b assms(2)] by simp
  qed
qed

lemma one_command [simp]:
  "Command_validate n k (no_command\<lparr>cmd_kind := CommandKindMoveCall, cmd_call := Some call\<rparr>) = MoveCall_validate n k call"
  "Command_validate n k (no_command\<lparr>cmd_kind := CommandKindMakeMoveVec, cmd_vec := Some v\<rparr>) = MakeMoveVec_validate n k v"
  by (simp_all add: Command_validate_def no_command_def)

lemma keeps_commands:
  "keeps usable (build_MoveCall call)" "keeps usable (build_MakeMoveVec v)" "keeps usable (build_coin c)"
  unfolding build_MoveCall_def build_MakeMoveVec_def build_coin_def
  by (intro keeps_addCommand; simp add: MoveCall_validate_calm MakeMoveVec_validate_calm Command_validate_calm)+

lemma keeps_then_unit:
  assumes "keeps usable m"
  shows "keeps (\<lambda>_ _. True) (andthen m (\<lambda>_. ret ()))"
  unfolding keeps_def
proof (intro allI impI)
  fix t assume "built t"
  then obtain t' where t': "snd (m (Some t)) = Some t'" "built t'"
    "case fst (m (Some t)) of Inl e \<Rightarrow> t' = t \<and> \<not> panics (Inl e :: unit res) | Inr a \<Rightarrow> usable a t'"
    using assms unfolding keeps_def by blast
  then show "\<exists>t'. snd (andthen m (\<lambda>_. ret ()) (Some t)) = Some t' \<and> built t' \<and>
    (case fst (andthen m (\<lambda>_. ret ()) (Some t)) of Inl e \<Rightarrow> t' = t \<and> \<not> panics (Inl e :: unit res) | Inr a \<Rightarrow> True)"
    by (cases "m (Some t)"; cases "fst (m (Some t))") (auto simp: andthen_cases)
qed

lemma keeps_Pure: "keeps usable (build_Pure v)"
  unfolding keeps_def
proof (intro allI impI)
  fix t assume b: "built t"
  show "\<exists>t'. snd (build_Pure v (Some t)) = Some t' \<and> built t' \<and>
    (case fst (build_Pure v (Some t)) of Inl e \<Rightarrow> t' = t \<and> \<not> panics (Inl e :: unit res) | Inr a \<Rightarrow> usable a t')"
  proof (cases v)
    case None
    then show ?thesis using b by (simp add: build_Pure_def)
  next
    case (Some x)
    then show ?thesis
      using addInput_cases [OF b, of "\<lparr>input_kind = InputKindPure, input_pure = Some x, input_object = zero_object\<rparr>"]
      by (simp add: build_Pure_def Input_validate_def)
  qed
qed

lemma keeps_Object: "keeps usable (build_Object kind obj)"
  unfolding keeps_def
proof (intro allI impI)
  fix t assume b: "built t"
  let ?i = "\<lparr>input_kind = kind, input_pure = None, input_object = obj\<rparr>"
  let ?a = "obj_address obj"
  show "\<exists>t'. snd (build_Object kind obj (Some t)) = Some t' \<and> built t' \<and>
    (case fst (build_Object kind obj (Some t)) of Inl e \<Rightarrow> t' = t \<and> \<not> panics (Inl e :: unit res) | Inr a \<Rightarrow> usable a t')"
  proof (cases "Input_validate ?i")
    case (Inl e)
    moreover from this have "\<not> panics (Inl e :: unit res)" by (auto simp: Input_validate_def split: if_splits)
    ultimately show ?thesis using b by (simp add: build_Object_def)
  next
    case (Inr u)
    then have valid: "Input_validate ?i = okay" by simp
    show ?thesis
    proof (cases "find_object ?a 0 (Inputs t)")
      case None
      then have "?a \<notin> set (addresses (Inputs t))" by (simp add: find_object_None)
      then show ?thesis using addInput_cases [OF b valid] valid None by (simp add: build_Object_def)
    next
      case (Some p)
      then obtain k i where f: "find_object ?a 0 (Inputs t) = Some (k, i)" by (cases p) auto
      have k: "k < length (Inputs t)" "Inputs t ! k = i" "input_kind i \<noteq> InputKindPure" "obj_address (input_object i) = ?a"
        using find_object_Some [OF f] by auto
      have k16: "k < 65536" using b k(1) by (simp add: built_def)
      have vi: "Input_validate i = okay" using b k(1,2) by (auto simp: built_def check_inputs_okay)
      let ?j = "i\<lparr>input_object := (input_object i)\<lparr>obj_mutable := True\<rparr>\<rparr>"
      have "Input_validate ?j = okay" using vi by (auto simp: Input_validate_def split: if_splits)
      then have "built (t\<lparr>Inputs := (Inputs t)[k := ?j]\<rparr>)" using b k by (intro built_update_input) simp_all
      then show ?thesis using valid f b k(1) k16 by (auto simp: build_Object_def intro!: usable_input)
    qed
  qed
qed

lemma keeps_framework: "keeps usable (appendFrameworkMoveCall m f ty args)"
  unfolding keeps_def
proof (intro allI impI)
  fix t assume b: "built t"
  show "\<exists>t'. snd (appendFrameworkMoveCall m f ty args (Some t)) = Some t' \<and> built t' \<and>
    (case fst (appendFrameworkMoveCall m f ty args (Some t)) of Inl e \<Rightarrow> t' = t \<and> \<not> panics (Inl e :: unit res) | Inr a \<Rightarrow> usable a t')"
  proof (cases "TrimSpace ty = []")
    case True
    then show ?thesis using b by (simp add: appendFrameworkMoveCall_def)
  next
    case False
    show ?thesis
    proof (cases "ParseAddress ''0x2''")
      case (Inl e)
      moreover from this have "\<not> panics (Inl e :: unit res)" by (auto simp: ParseAddress_def Let_def split: if_splits option.splits)
      ultimately show ?thesis using b False by (simp add: appendFrameworkMoveCall_def)
    next
      case (Inr a)
      then show ?thesis using b False
          keeps_commands(1) [of "\<lparr>call_package = a, call_module = m, call_function = f, call_types = [TrimSpace ty], call_args = args\<rparr>"]
        by (simp add: appendFrameworkMoveCall_def keeps_def)
    qed
  qed
qed

section \<open>The builder as a state machine\<close>

text \<open>One call of an operation: the transaction before, what the call returns, the transaction after.\<close>

abbreviation argued :: "Argument res \<Rightarrow> Argument option res" where "argued \<equiv> map_sum id Some"
abbreviation silent :: "unit res \<Rightarrow> Argument option res" where "silent \<equiv> map_sum id (\<lambda>_. None)"

inductive builder_step :: "ProgrammableTransaction \<Rightarrow> Argument option res \<Rightarrow> ProgrammableTransaction \<Rightarrow> bool" where
  pure: "build_Pure v (Some t) = (r, Some t') \<Longrightarrow> builder_step t (argued r) t'"
| object: "build_Object kind obj (Some t) = (r, Some t') \<Longrightarrow> builder_step t (argued r) t'"
| call: "build_MoveCall c (Some t) = (r, Some t') \<Longrightarrow> builder_step t (argued r) t'"
| vec: "build_MakeMoveVec v (Some t) = (r, Some t') \<Longrightarrow> builder_step t (argued r) t'"
| split: "build_SplitCoins v (Some t) = (r, Some t') \<Longrightarrow> builder_step t (argued r) t'"
| merge: "build_MergeCoins v (Some t) = (u, Some t') \<Longrightarrow> builder_step t (silent u) t'"
| transfer: "build_TransferObjects v (Some t) = (u, Some t') \<Longrightarrow> builder_step t (silent u) t'"
| into_balance: "AppendCoinIntoBalance ty a (Some t) = (r, Some t') \<Longrightarrow> builder_step t (argued r) t'"
| destroy_zero: "AppendDestroyZeroBalance ty a (Some t) = (u, Some t') \<Longrightarrow> builder_step t (silent u) t'"

inductive builder_reachable :: "ProgrammableTransaction \<Rightarrow> bool" where
  start: "NewProgrammableTransactionBuilder = Some t \<Longrightarrow> builder_reachable t"
| step: "builder_reachable t \<Longrightarrow> builder_step t r t' \<Longrightarrow> builder_reachable t'"

definition step_kept :: "ProgrammableTransaction \<Rightarrow> Argument option res \<Rightarrow> ProgrammableTransaction \<Rightarrow> bool" where
  "step_kept t r t' \<longleftrightarrow> built t' \<and>
     (case r of Inl e \<Rightarrow> t' = t \<and> \<not> panics (Inl e :: unit res) | Inr None \<Rightarrow> True | Inr (Some a) \<Rightarrow> usable a t')"

lemma keeps_argued: "keeps usable m \<Longrightarrow> built t \<Longrightarrow> m (Some t) = (r, Some t') \<Longrightarrow> step_kept t (argued r) t'"
  unfolding keeps_def step_kept_def by (drule spec [of _ t]) (cases r; simp)

lemma keeps_silent: "keeps (\<lambda>_ _. True) m \<Longrightarrow> built t \<Longrightarrow> m (Some t) = (u, Some t') \<Longrightarrow> step_kept t (silent u) t'"
  unfolding keeps_def step_kept_def by (drule spec [of _ t]) (cases u; simp)

lemma builder_step_kept:
  assumes "builder_step t r t'" and "built t"
  shows "step_kept t r t'"
  using assms
proof (induction rule: builder_step.induct)
  case (split v t r t')
  then show ?case unfolding build_SplitCoins_def by (intro keeps_argued [OF keeps_commands(3)])
next
  case (merge v t u t')
  then show ?case unfolding build_MergeCoins_def by (intro keeps_silent [OF keeps_then_unit [OF keeps_commands(3)]])
next
  case (transfer v t u t')
  then show ?case unfolding build_TransferObjects_def by (intro keeps_silent [OF keeps_then_unit [OF keeps_commands(3)]])
next
  case (into_balance ty a t r t')
  then show ?case unfolding AppendCoinIntoBalance_def by (intro keeps_argued [OF keeps_framework])
next
  case (destroy_zero ty a t u t')
  then show ?case unfolding AppendDestroyZeroBalance_def by (intro keeps_silent [OF keeps_then_unit [OF keeps_framework]])
qed (auto intro: keeps_argued keeps_Pure keeps_Object keeps_commands)

lemma reachable_built: "builder_reachable t \<Longrightarrow> built t"
proof (induction rule: builder_reachable.induct)
  case (start t)
  then show ?case by (auto simp: NewProgrammableTransactionBuilder_def built_def)
next
  case (step t r t')
  then show ?case using builder_step_kept by (simp add: step_kept_def)
qed

lemma Build_built:
  "built t \<Longrightarrow> Build (Some t) = (if Commands t = [] then Inl (Fail ''commands=empty'') else Inr t, Some t)"
  by (simp add: Build_def Programmable_Validate_def built_def)

text \<open>
  C23. Any sequence of calls on a transaction builder, in any order and with any arguments, of which some may fail:
  a call that fails changes nothing, an argument that a call returns is valid in the transaction from then on, and
  \<open>Build\<close> succeeds at every moment at which the transaction has a command.
\<close>

theorem builder_always_builds:
  assumes "builder_reachable t" and "builder_step t r t'"
  shows "(case r of Inl e \<Rightarrow> t' = t \<and> \<not> panics (Inl e :: unit res) | Inr None \<Rightarrow> True
            | Inr (Some a) \<Rightarrow> Argument_validate (length (Inputs t')) (length (Commands t')) a = okay)
    \<and> Build (Some t') = (if Commands t' = [] then Inl (Fail ''commands=empty'') else Inr t', Some t')"
  using builder_step_kept [OF assms(2) reachable_built [OF assms(1)]] Build_built [of t']
  by (auto simp: step_kept_def usable_def split: sum.splits option.splits)

theorem builder_always_builds_witness:
  "\<exists>t t'. builder_step t (Inr (Some (input_argument 0))) t'
     \<and> Build (Some t') = (if Commands t' = [] then Inl (Fail ''commands=empty'') else Inr t', Some t')"
proof -
  let ?t = "\<lparr>Inputs = [], Commands = []\<rparr>"
  let ?i = "\<lparr>input_kind = InputKindPure, input_pure = Some [1], input_object = zero_object\<rparr>"
  have r: "builder_reachable ?t" by (rule builder_reachable.start) (simp add: NewProgrammableTransactionBuilder_def)
  have "build_Pure (Some [1]) (Some ?t) = (Inr (input_argument 0), Some \<lparr>Inputs = [?i], Commands = []\<rparr>)"
    by (simp add: build_Pure_def addInput_def)
  then have "builder_step ?t (argued (Inr (input_argument 0))) \<lparr>Inputs = [?i], Commands = []\<rparr>" by (rule builder_step.pure)
  then have s: "builder_step ?t (Inr (Some (input_argument 0))) \<lparr>Inputs = [?i], Commands = []\<rparr>" by simp
  then show ?thesis using builder_always_builds [OF r s] by blast
qed

end
