(* ===== verification/Tick_Batch.thy ===== *)
theory Tick_Batch
  imports Prelude
begin

text \<open>
  \<open>go/internal/tickbatch/read.go\<close>: \<open>Read\<close> fetches \<open>count\<close> batches with one or two workers that take turns at a
  shared counter. The workers are goroutines, so the model is a step relation: any worker may take its next step at
  any time, a fetch may give any answer that \<open>answers\<close> allows for its batch, and the caller's context may be
  cancelled at any time. A step is what happens under one hold of the mutex.
\<close>

section \<open>Steps\<close>

datatype worker = Idle | Fetching nat | Exited

record 'a batch =
  next_index :: nat
  results :: "'a option list"
  first_error :: "failure option"
  cancelled :: "failure option"
  workers :: "worker list"

definition worker_count :: "nat option \<Rightarrow> nat \<Rightarrow> nat" where
  "worker_count concurrency count =
     min (case concurrency of None \<Rightarrow> 1 | Some n \<Rightarrow> if n \<ge> 2 then 2 else 1) count"

definition batch_start :: "nat option \<Rightarrow> nat \<Rightarrow> 'a batch" where
  "batch_start concurrency count =
     \<lparr>next_index = 0, results = replicate count None, first_error = None, cancelled = None,
      workers = replicate (worker_count concurrency count) Idle\<rparr>"

text \<open>The worker looks for its next batch: it stops after a failure, a cancellation or the last batch.\<close>

definition claim :: "nat \<Rightarrow> nat \<Rightarrow> 'a batch \<Rightarrow> 'a batch" where
  "claim count w b =
     (if first_error b \<noteq> None \<or> cancelled b \<noteq> None \<or> next_index b \<ge> count
      then b\<lparr>workers := (workers b)[w := Exited]\<rparr>
      else b\<lparr>workers := (workers b)[w := Fetching (next_index b)], next_index := Suc (next_index b)\<rparr>)"

definition deliver :: "nat \<Rightarrow> nat \<Rightarrow> 'a res \<Rightarrow> 'a batch \<Rightarrow> 'a batch" where
  "deliver w i answer b =
     (case answer of
        Inl e \<Rightarrow> b\<lparr>workers := (workers b)[w := Exited],
                   first_error := (case first_error b of None \<Rightarrow> Some e | Some f \<Rightarrow> Some f)\<rparr>
      | Inr v \<Rightarrow> b\<lparr>workers := (workers b)[w := Idle], results := (results b)[i := Some v]\<rparr>)"

inductive batch_step :: "(nat \<Rightarrow> 'a res \<Rightarrow> bool) \<Rightarrow> nat \<Rightarrow> 'a batch \<Rightarrow> 'a batch \<Rightarrow> bool"
  for answers :: "nat \<Rightarrow> 'a res \<Rightarrow> bool" and count :: nat
where
  claim_step: "w < length (workers b) \<Longrightarrow> workers b ! w = Idle \<Longrightarrow> batch_step answers count b (claim count w b)"
| deliver_step: "w < length (workers b) \<Longrightarrow> workers b ! w = Fetching i \<Longrightarrow> answers i answer
    \<Longrightarrow> batch_step answers count b (deliver w i answer b)"
| cancel_step: "cancelled b = None \<Longrightarrow> batch_step answers count b (b\<lparr>cancelled := Some e\<rparr>)"

inductive batch_reachable :: "(nat \<Rightarrow> 'a res \<Rightarrow> bool) \<Rightarrow> nat option \<Rightarrow> nat \<Rightarrow> 'a batch \<Rightarrow> bool"
  for answers :: "nat \<Rightarrow> 'a res \<Rightarrow> bool" and concurrency :: "nat option" and count :: nat
where
  start: "batch_reachable answers concurrency count (batch_start concurrency count)"
| move: "batch_reachable answers concurrency count b \<Longrightarrow> batch_step answers count b b'
    \<Longrightarrow> batch_reachable answers concurrency count b'"

text \<open>What \<open>Read\<close> returns once its workers are gone; a result that was never stored is the zero value.\<close>

definition batch_result :: "'a \<Rightarrow> 'a batch \<Rightarrow> 'a list res" where
  "batch_result zero b =
     (case first_error b of Some e \<Rightarrow> Inl e
      | None \<Rightarrow> (case cancelled b of Some e \<Rightarrow> Inl e
                 | None \<Rightarrow> Inr (List.map (\<lambda>r. case r of None \<Rightarrow> zero | Some v \<Rightarrow> v) (results b))))"

definition finished :: "'a batch \<Rightarrow> bool" where
  "finished b \<longleftrightarrow> (\<forall>w \<in> set (workers b). w = Exited)"

inductive_cases batch_stepE: "batch_step answers count b b'"

section \<open>The invariant\<close>

definition batch_inv :: "(nat \<Rightarrow> 'a res \<Rightarrow> bool) \<Rightarrow> nat option \<Rightarrow> nat \<Rightarrow> 'a batch \<Rightarrow> bool" where
  "batch_inv answers concurrency count b \<longleftrightarrow>
     next_index b \<le> count \<and> length (results b) = count \<and> length (workers b) = worker_count concurrency count
     \<and> (\<forall>i v. i < count \<longrightarrow> results b ! i = Some v \<longrightarrow> i < next_index b \<and> answers i (Inr v))
     \<and> (\<forall>e. first_error b = Some e \<longrightarrow> (\<exists>i<count. answers i (Inl e)))
     \<and> (\<forall>w i. w < length (workers b) \<longrightarrow> workers b ! w = Fetching i \<longrightarrow> i < next_index b)
     \<and> (\<forall>i<next_index b. results b ! i = None \<longrightarrow> first_error b = None \<longrightarrow> Fetching i \<in> set (workers b))
     \<and> (\<forall>w \<in> set (workers b). w = Exited \<longrightarrow> first_error b \<noteq> None \<or> cancelled b \<noteq> None \<or> next_index b = count)"

lemma batch_invI:
  assumes "next_index b \<le> count" and "length (results b) = count" and "length (workers b) = worker_count concurrency count"
    and "\<And>i v. i < count \<Longrightarrow> results b ! i = Some v \<Longrightarrow> i < next_index b \<and> answers i (Inr v)"
    and "\<And>e. first_error b = Some e \<Longrightarrow> \<exists>i<count. answers i (Inl e)"
    and "\<And>w i. w < length (workers b) \<Longrightarrow> workers b ! w = Fetching i \<Longrightarrow> i < next_index b"
    and "\<And>i. i < next_index b \<Longrightarrow> results b ! i = None \<Longrightarrow> first_error b = None \<Longrightarrow> Fetching i \<in> set (workers b)"
    and "\<And>w. w \<in> set (workers b) \<Longrightarrow> w = Exited \<Longrightarrow> first_error b \<noteq> None \<or> cancelled b \<noteq> None \<or> next_index b = count"
  shows "batch_inv answers concurrency count b"
  using assms unfolding batch_inv_def by blast

lemma batch_invD:
  assumes "batch_inv answers concurrency count b"
  shows "next_index b \<le> count" and "length (results b) = count" and "length (workers b) = worker_count concurrency count"
    and "i < count \<Longrightarrow> results b ! i = Some v \<Longrightarrow> i < next_index b \<and> answers i (Inr v)"
    and "first_error b = Some e \<Longrightarrow> \<exists>i<count. answers i (Inl e)"
    and "w < length (workers b) \<Longrightarrow> workers b ! w = Fetching i \<Longrightarrow> i < next_index b"
    and "i < next_index b \<Longrightarrow> results b ! i = None \<Longrightarrow> first_error b = None \<Longrightarrow> Fetching i \<in> set (workers b)"
    and "v' \<in> set (workers b) \<Longrightarrow> v' = Exited \<Longrightarrow> first_error b \<noteq> None \<or> cancelled b \<noteq> None \<or> next_index b = count"
  using assms unfolding batch_inv_def by blast+

lemma inv_start: "batch_inv answers concurrency count (batch_start concurrency count)"
  by (rule batch_invI) (auto simp: batch_start_def)

text \<open>Replacing the entry of one worker.\<close>

lemma set_update_cases: "x \<in> set (xs[w := y]) \<Longrightarrow> x = y \<or> x \<in> set xs"
  using set_update_subset_insert [of xs w y] by blast

lemma update_keeps: "x \<in> set xs \<Longrightarrow> w < length xs \<Longrightarrow> xs ! w \<noteq> x \<Longrightarrow> x \<in> set (xs[w := y])"
  by (metis in_set_conv_nth length_list_update nth_list_update_neq)

lemma inv_claim:
  assumes inv: "batch_inv answers concurrency count b" and w: "w < length (workers b)" "workers b ! w = Idle"
  shows "batch_inv answers concurrency count (claim count w b)"
proof (cases "first_error b \<noteq> None \<or> cancelled b \<noteq> None \<or> next_index b \<ge> count")
  case True
  then have c: "claim count w b = b\<lparr>workers := (workers b)[w := Exited]\<rparr>" by (simp add: claim_def)
  show ?thesis
    unfolding c
    by (rule batch_invI; simp)
      (use batch_invD [OF inv] True w in \<open>auto dest: set_update_cases intro: update_keeps simp: nth_list_update split: if_splits\<close>)
next
  case False
  then have c: "claim count w b = b\<lparr>workers := (workers b)[w := Fetching (next_index b)], next_index := Suc (next_index b)\<rparr>"
    by (simp add: claim_def)
  show ?thesis
    unfolding c
    by (rule batch_invI; simp)
      (use batch_invD [OF inv] False w in \<open>auto dest: set_update_cases intro: update_keeps set_update_memI less_SucI
        simp: nth_list_update less_Suc_eq split: if_splits\<close>)
qed

lemma inv_deliver:
  assumes inv: "batch_inv answers concurrency count b" and w: "w < length (workers b)" "workers b ! w = Fetching i"
    and a: "answers i answer"
  shows "batch_inv answers concurrency count (deliver w i answer b)"
proof -
  have i: "i < next_index b" "i < count" using batch_invD(1,6) [OF inv] w by fastforce+
  show ?thesis
  proof (cases answer)
    case (Inl e)
    then have ex: "\<exists>j<count. answers j (Inl e)" using i a by blast
    show ?thesis using Inl
      by (intro batch_invI; simp add: deliver_def)
        (use batch_invD [OF inv] i w ex in \<open>auto dest: set_update_cases intro: update_keeps simp: nth_list_update split: option.splits if_splits\<close>)
  next
    case (Inr v)
    then show ?thesis
      by (intro batch_invI; simp add: deliver_def)
        (use batch_invD [OF inv] i w a in \<open>auto dest: set_update_cases intro: update_keeps simp: nth_list_update split: if_splits\<close>)
  qed
qed

lemma batch_inv_reachable: "batch_reachable answers concurrency count b \<Longrightarrow> batch_inv answers concurrency count b"
proof (induction rule: batch_reachable.induct)
  case start
  show ?case by (rule inv_start)
next
  case (move b b')
  from move.hyps(2) show ?case
  proof (cases rule: batch_step.cases)
    case (claim_step w)
    then show ?thesis using inv_claim [OF move.IH] by simp
  next
    case (deliver_step w i answer)
    then show ?thesis using inv_deliver [OF move.IH] by simp
  next
    case (cancel_step e)
    then show ?thesis using move.IH by (simp add: batch_inv_def)
  qed
qed

section \<open>Results are complete, and every run ends\<close>

lemma worker_count_pos: "0 < count \<Longrightarrow> 0 < worker_count concurrency count"
  by (simp add: worker_count_def split: option.splits)

text \<open>
  C27. A batched read (\<open>tickbatch.Read\<close>), for one or two workers, any interleaving of them, any answers and a
  cancellation at any time: when its workers are gone it returns all results in the order of the batches, each one an
  answer for its own batch, or an error that a fetch or the cancellation gave. It never returns a partial result.
\<close>

theorem batch_result_complete:
  assumes "batch_reachable answers concurrency count b" and "finished b"
  shows "case batch_result zero b of
      Inl e \<Rightarrow> cancelled b = Some e \<or> (\<exists>i<count. answers i (Inl e))
    | Inr xs \<Rightarrow> length xs = count \<and> (\<forall>i<count. answers i (Inr (xs ! i)))"
proof -
  note inv = batch_invD [OF batch_inv_reachable [OF assms(1)]]
  show ?thesis
  proof (cases "first_error b = None \<and> cancelled b = None")
    case False
    then show ?thesis using inv(5) by (auto simp: batch_result_def split: option.splits)
  next
    case True
    have "\<exists>v. results b ! i = Some v" if i: "i < count" for i
    proof (rule ccontr)
      assume "\<not> ?thesis"
      then have none: "results b ! i = None" by simp
      obtain w where w: "w \<in> set (workers b)"
        using worker_count_pos [of count concurrency] i inv(3) by (cases "workers b") auto
      then have "next_index b = count" using inv(8) [OF w] True assms(2) by (auto simp: finished_def)
      then have "Fetching i \<in> set (workers b)" using inv(7) [OF _ none] i True by simp
      then show False using assms(2) by (auto simp: finished_def)
    qed
    then show ?thesis using True inv(2,4) by (fastforce simp: batch_result_def)
  qed
qed

fun weight :: "worker \<Rightarrow> nat" where
  "weight Idle = 1"
| "weight (Fetching i) = 2"
| "weight Exited = 0"

definition work_left :: "nat \<Rightarrow> 'a batch \<Rightarrow> nat" where
  "work_left count b = 2 * (count - next_index b) + sum_list (List.map weight (workers b)) + (if cancelled b = None then 1 else 0)"

lemma weight_update: "w < length xs \<Longrightarrow> sum_list (List.map weight (xs[w := y])) + weight (xs ! w) = sum_list (List.map weight xs) + weight y"
  by (induction xs arbitrary: w) (auto split: nat.splits)

text \<open>
  C28. A batched read ends: while a worker is still there, it has a next step, whatever the others do, and every step
  lowers \<open>work_left\<close>, so that no run takes more than twice the batches, one for each worker, and one.
\<close>

theorem batch_terminates:
  assumes "\<And>i. \<exists>r. answers i r"
  shows "(finished b \<or> (\<exists>b'. batch_step answers count b b'))
    \<and> (\<forall>b'. batch_step answers count b b' \<longrightarrow> work_left count b' < work_left count b)
    \<and> work_left count (batch_start concurrency count) \<le> 2 * count + 3"
proof (intro conjI allI impI)
  show "finished b \<or> (\<exists>b'. batch_step answers count b b')"
  proof (cases "finished b")
    case False
    then obtain w where w: "w < length (workers b)" "workers b ! w \<noteq> Exited" by (auto simp: finished_def in_set_conv_nth)
    then show ?thesis using assms by (cases "workers b ! w") (blast intro: claim_step deliver_step)+
  qed simp
  show "work_left count b' < work_left count b" if "batch_step answers count b b'" for b'
    using that
  proof (cases rule: batch_step.cases)
    case (claim_step w)
    then show ?thesis
      using weight_update [of w "workers b" Exited] weight_update [of w "workers b" "Fetching (next_index b)"]
      by (auto simp: claim_def work_left_def)
  next
    case (deliver_step w i answer)
    then show ?thesis
      using weight_update [of w "workers b" Exited] weight_update [of w "workers b" Idle]
      by (auto simp: deliver_def work_left_def split: sum.splits)
  next
    case (cancel_step e)
    then show ?thesis by (simp add: work_left_def)
  qed
  show "work_left count (batch_start concurrency count) \<le> 2 * count + 3"
    by (auto simp: work_left_def batch_start_def worker_count_def sum_list_replicate split: option.splits)
qed

text \<open>A schedule of workers on fixed answers is one of the runs.\<close>

definition take_turn :: "(nat \<Rightarrow> 'a res) \<Rightarrow> nat \<Rightarrow> nat \<Rightarrow> 'a batch \<Rightarrow> 'a batch" where
  "take_turn f count w b =
     (if w < length (workers b)
      then (case workers b ! w of Idle \<Rightarrow> claim count w b | Fetching i \<Rightarrow> deliver w i (f i) b | Exited \<Rightarrow> b)
      else b)"

lemma take_turn_reachable:
  "batch_reachable (\<lambda>i r. r = f i) concurrency count b \<Longrightarrow> batch_reachable (\<lambda>i r. r = f i) concurrency count (take_turn f count w b)"
  unfolding take_turn_def
  by (auto split: worker.splits intro: batch_reachable.move claim_step deliver_step)

lemma schedule_reachable:
  "batch_reachable (\<lambda>i r. r = f i) concurrency count (fold (take_turn f count) ws (batch_start concurrency count))"
  by (induction ws rule: rev_induct) (simp_all add: batch_reachable.start take_turn_reachable)

definition sample_batch :: "nat batch" where
  "sample_batch = fold (take_turn (\<lambda>i. Inr (10 * i)) 3) [0, 1, 1, 1, 1, 0, 0, 1] (batch_start (Some 2) 3)"

text \<open>Two workers; the second one overtakes the first and fetches the last batch too.\<close>

theorem batch_result_complete_witness: "batch_result 7 sample_batch = Inr [0, 10, 20] \<and> length [0, 10, 20 :: nat] = 3"
proof -
  have r: "batch_result 7 sample_batch = Inr [0, 10, 20]" and f: "finished sample_batch" by code_simp+
  show ?thesis
    using batch_result_complete [OF schedule_reachable [of "\<lambda>i. Inr (10 * i)" "Some 2" 3 "[0, 1, 1, 1, 1, 0, 0, 1]", folded sample_batch_def] f, of 7] r
    by simp
qed

theorem batch_terminates_witness:
  "\<exists>b'. batch_step (\<lambda>i r. r = Inr (10 * i)) 3 (batch_start (Some 2) 3) b' \<and> work_left 3 b' < work_left 3 (batch_start (Some 2) 3 :: nat batch)"
proof -
  have t: "\<exists>r. r = (Inr (10 * i) :: nat res)" for i by simp
  have "\<not> finished (batch_start (Some 2) 3 :: nat batch)" by code_simp
  then show ?thesis
    using batch_terminates [of "\<lambda>i r. r = Inr (10 * i)" "batch_start (Some 2) 3" 3 "Some 2", OF t] by blast
qed

end
