(* ===== verification/Go_Json.thy ===== *)
theory Go_Json
  imports Sui_Type_Tag
begin

text \<open>
  What the Sui venues use of \<open>encoding/json\<close>. A document enters as its syntax tree; a \<open>json.RawMessage\<close> is empty,
  malformed, or such a tree. \<open>struct_of\<close> is \<open>json.Unmarshal\<close> into a Go struct: members are visited in the order of
  the text, a name matches a field when they agree up to the case of ASCII letters (the two non-ASCII letters that
  Unicode folds to \<open>k\<close> and \<open>s\<close> are left out), a repeated member decodes into the same field again, and null leaves
  a field alone unless it is a \<open>RawMessage\<close>. A number is kept as its text.
\<close>

section \<open>Documents\<close>

datatype json =
    JNull
  | JBool bool
  | JNumber string
  | JString string
  | JArray "json list"
  | JObject "(string \<times> json) list"

datatype raw = Missing | Malformed | Raw json

section \<open>Numbers\<close>

text \<open>\<open>SetString(s, 10)\<close>: an optional sign and at least one digit.\<close>

definition unsigned_text :: "string \<Rightarrow> int option" where
  "unsigned_text s = (if s = [] \<or> \<not> list_all is_digit s then None else Some (int (read_digits s)))"

definition SetString :: "string \<Rightarrow> int option" where
  "SetString s =
     (case s of c # ds \<Rightarrow>
        if c = CHR ''-'' then map_option uminus (unsigned_text ds)
        else if c = CHR ''+'' then unsigned_text ds
        else unsigned_text s
      | [] \<Rightarrow> None)"

definition number_text :: "raw \<Rightarrow> string option" where
  "number_text value =
     (case value of Raw (JString s) \<Rightarrow> Some s | Raw JNull \<Rightarrow> Some [] | Raw (JNumber n) \<Rightarrow> Some n | _ \<Rightarrow> None)"

definition jsonUnsigned :: "raw \<Rightarrow> int res" where
  "jsonUnsigned value =
     (case number_text value of None \<Rightarrow> Inl (Fail ''json=invalid'')
      | Some s \<Rightarrow>
          (case SetString s of None \<Rightarrow> Inl (Fail ''number=invalid'')
           | Some n \<Rightarrow> if n < 0 then Inl (Fail ''number=invalid'') else Inr n))"

definition jsonUint64 :: "raw \<Rightarrow> u64 res" where
  "jsonUint64 value =
     (case jsonUnsigned value of Inl e \<Rightarrow> Inl (Fail ''number=invalid'')
      | Inr n \<Rightarrow> if IsUint64 n then Inr (u64_of n) else Inl (Fail ''number=invalid''))"

section \<open>Structs\<close>

text \<open>A decoder updates the value it is given, or finds that the document has another type.\<close>

type_synonym 'a decoder = "json \<Rightarrow> 'a \<Rightarrow> 'a option"

fun member_decoder :: "(string \<times> 'a decoder) list \<Rightarrow> string \<Rightarrow> 'a decoder option" where
  "member_decoder [] k = None"
| "member_decoder ((name, d) # fs) k = (if ToLower k = name then Some d else member_decoder fs k)"

fun decode_members :: "(string \<times> 'a decoder) list \<Rightarrow> (string \<times> json) list \<Rightarrow> 'a \<Rightarrow> 'a option" where
  "decode_members fs [] v = Some v"
| "decode_members fs ((k, j) # kvs) v =
     (case member_decoder fs k of None \<Rightarrow> decode_members fs kvs v
      | Some d \<Rightarrow> (case d j v of None \<Rightarrow> None | Some v \<Rightarrow> decode_members fs kvs v))"

definition struct_of :: "(string \<times> 'a decoder) list \<Rightarrow> 'a decoder" where
  "struct_of fs j v =
     (case j of JNull \<Rightarrow> Some v | JObject kvs \<Rightarrow> decode_members fs kvs v | _ \<Rightarrow> None)"

definition Unmarshal :: "'a decoder \<Rightarrow> raw \<Rightarrow> 'a \<Rightarrow> 'a res" where
  "Unmarshal d value zero =
     (case value of Raw j \<Rightarrow> (case d j zero of None \<Rightarrow> Inl (Fail ''json=invalid'') | Some v \<Rightarrow> Inr v)
      | _ \<Rightarrow> Inl (Fail ''json=invalid''))"

text \<open>Decoders of the field types that occur; \<open>put\<close> stores the field in its struct.\<close>

definition raw_field :: "(raw \<Rightarrow> 'a \<Rightarrow> 'a) \<Rightarrow> 'a decoder" where
  "raw_field put j v = Some (put (Raw j) v)"

definition string_field :: "(string \<Rightarrow> 'a \<Rightarrow> 'a) \<Rightarrow> 'a decoder" where
  "string_field put j v = (case j of JNull \<Rightarrow> Some v | JString s \<Rightarrow> Some (put s v) | _ \<Rightarrow> None)"

definition bool_field :: "(bool \<Rightarrow> 'a \<Rightarrow> 'a) \<Rightarrow> 'a decoder" where
  "bool_field put j v = (case j of JNull \<Rightarrow> Some v | JBool b \<Rightarrow> Some (put b v) | _ \<Rightarrow> None)"

definition uint_field :: "nat \<Rightarrow> (int \<Rightarrow> 'a \<Rightarrow> 'a) \<Rightarrow> 'a decoder" where
  "uint_field width put j v =
     (case j of JNull \<Rightarrow> Some v
      | JNumber s \<Rightarrow>
          (case unsigned_text s of None \<Rightarrow> None | Some n \<Rightarrow> if n < 2 ^ width then Some (put n v) else None)
      | _ \<Rightarrow> None)"

section \<open>Facts\<close>

lemma jsonUnsigned_nonneg: "jsonUnsigned value = Inr n \<Longrightarrow> 0 \<le> n"
  by (auto simp: jsonUnsigned_def split: option.splits if_splits)

lemma jsonUnsigned_calm [simp]: "\<not> panics (jsonUnsigned value)"
  by (simp add: jsonUnsigned_def split: option.splits)

lemma jsonUint64_calm [simp]: "\<not> panics (jsonUint64 value)"
  by (simp add: jsonUint64_def split: sum.splits)

lemma Unmarshal_calm [simp]: "\<not> panics (Unmarshal d value zero)"
  by (simp add: Unmarshal_def split: raw.splits option.splits)

text \<open>The decimal text of a number is read back, as a JSON string or as a JSON number.\<close>

lemma unsigned_text_show: "unsigned_text (show_digits n) = Some (int n)"
  by (simp add: unsigned_text_def)

end
