(* ===== verification/Near_Curve.thy ===== *)
theory Near_Curve
  imports Swap_Curve
begin

text \<open>
  Steps whose input need not be rounded up. Turbos rounds inputs of token B to the nearest unit, so that a step can
  be short of the curve by half a unit; \<open>slack\<close> counts these halves (0 for the venues that round up). The locale
  \<open>near_step\<close> is the contract of such a step, and \<open>near_totals\<close> what a whole swap keeps. \<open>curve_step\<close> is the normal
  form that the steps of the Sui venues have in common, with the roundings as parameters.
\<close>

section \<open>Amounts near the curve\<close>

lemma curve_fair:
  assumes pos: "0 < Q" "0 < p" "0 < q" "0 \<le> l" "0 \<le> x" "0 \<le> k" and dir: "if zero then q \<le> p else p \<le> q"
    and x: "k * cnum Q p q l zero \<le> x * cden Q p q zero"
  shows "fair Q zero p x (k * amt Q p q l (\<not> zero) False)"
proof -
  define out where "out = amt Q p q l (\<not> zero) False"
  have out: "0 \<le> out" "out * cden Q p q (\<not> zero) \<le> cnum Q p q l (\<not> zero)"
    using amt_down_le [OF pos(1-3), of l "\<not> zero"] pos by (simp_all add: out_def amt_nonneg)
  have "fair Q zero p x (k * out)"
  proof (cases zero)
    case True
    have o: "out * Q \<le> l * \<bar>q - p\<bar>" and i: "k * (Q * (l * \<bar>q - p\<bar>)) \<le> x * (p * q)"
      using out x True by (simp_all add: cnum_def cden_def)
    have "k * out * Q\<^sup>2 = k * Q * (out * Q)" by (simp add: power2_eq_square)
    also have "\<dots> \<le> k * Q * (l * \<bar>q - p\<bar>)" using o pos by (intro mult_left_mono) simp_all
    also have "\<dots> \<le> x * (p * q)" using i by (simp add: mult_ac)
    also have "\<dots> \<le> x * (p * p)" using pos dir True by (intro mult_left_mono) simp_all
    finally show ?thesis using True by (simp add: fair_def power2_eq_square)
  next
    case False
    have o: "out * (p * q) \<le> Q * (l * \<bar>q - p\<bar>)" and i: "k * (l * \<bar>q - p\<bar>) \<le> x * Q"
      using out x False by (simp_all add: cnum_def cden_def)
    have "out * p\<^sup>2 \<le> out * (p * q)" using out pos dir False by (auto intro!: mult_left_mono simp: power2_eq_square)
    also note o
    finally have "k * (out * p\<^sup>2) \<le> k * (Q * (l * \<bar>q - p\<bar>))" using pos by (intro mult_left_mono) simp_all
    also have "\<dots> = Q * (k * (l * \<bar>q - p\<bar>))" by simp
    also have "\<dots> \<le> Q * (x * Q)" using i pos by (intro mult_left_mono) simp_all
    finally show ?thesis using False by (simp add: fair_def power2_eq_square mult_ac)
  qed
  then show ?thesis by (simp add: out_def)
qed

definition near_post :: "int \<Rightarrow> int \<Rightarrow> int \<Rightarrow> int \<Rightarrow> int \<Rightarrow> bool \<Rightarrow> bool \<Rightarrow> int \<times> int \<times> int \<times> int \<Rightarrow> bool" where
  "near_post slack Q p t r zero input = (\<lambda>(i, out, q, fee).
     0 \<le> i \<and> 0 \<le> out \<and> 0 \<le> fee \<and> toward zero p t q \<and> fair Q zero p (2 * i + slack) (2 * out)
     \<and> (if input then i + fee \<le> r else out \<le> r)
     \<and> (q \<noteq> t \<longrightarrow> (if input then i + fee = r else out = r)))"

text \<open>The running totals; \<open>n\<close> is the slack of the steps so far.\<close>

definition near_totals :: "int \<Rightarrow> bool \<Rightarrow> bool \<Rightarrow> int \<Rightarrow> int \<Rightarrow> int \<Rightarrow> int \<Rightarrow> int \<Rightarrow> int \<Rightarrow> int \<Rightarrow> int \<Rightarrow> bool" where
  "near_totals Q zero input p0 amount p r tin tout tfee n \<longleftrightarrow>
     0 < p \<and> (if zero then p \<le> p0 else p0 \<le> p) \<and> 0 \<le> r \<and> 0 \<le> tin \<and> 0 \<le> tout \<and> 0 \<le> tfee \<and> 0 \<le> n
     \<and> r = amount - (if input then tin + tfee else tout) \<and> fair Q zero p0 (2 * tin + n) (2 * tout)"

lemma near_totals_start: "0 < p \<Longrightarrow> 0 \<le> amount \<Longrightarrow> near_totals Q zero input p amount p amount 0 0 0 0"
  by (simp add: near_totals_def)

lemma near_totals_price:
  "near_totals Q zero input p0 amount p r tin tout tfee n \<Longrightarrow> 0 < t \<Longrightarrow> (if zero then t \<le> p else p \<le> t)
   \<Longrightarrow> near_totals Q zero input p0 amount t r tin tout tfee n"
  by (auto simp: near_totals_def split: if_splits)

lemma near_totals_weaken:
  "near_totals Q zero input p0 amount p r tin tout tfee n \<Longrightarrow> n \<le> n' \<Longrightarrow> near_totals Q zero input p0 amount p r tin tout tfee n'"
  unfolding near_totals_def by (auto intro: fair_le)

locale near_step =
  fixes slack :: int
    and Q :: int
    and rate_ok :: "'f \<Rightarrow> bool"
    and step :: "int \<Rightarrow> int \<Rightarrow> int \<Rightarrow> int \<Rightarrow> 'f \<Rightarrow> bool \<Rightarrow> bool \<Rightarrow> (int \<times> int \<times> int \<times> int) res"
  assumes scale: "0 < Q" and slack: "0 \<le> slack"
    and post: "rate_ok f \<Longrightarrow> step_pre p t l r zero \<Longrightarrow> 0 < l \<Longrightarrow> step p t l r f zero input = Inr res
                 \<Longrightarrow> near_post slack Q p t r zero input res"
    and calm: "rate_ok f \<Longrightarrow> step_pre p t l r zero \<Longrightarrow> 0 < l \<Longrightarrow> \<not> panics (step p t l r f zero input)"
begin

lemma near_totals_step:
  assumes tot: "near_totals Q zero input p0 amount p r tin tout tfee n" and p0: "0 < p0"
    and ok: "rate_ok f" and pre: "step_pre p t l r zero" "0 < l"
    and run: "step p t l r f zero input = Inr (i, out, q, fee)"
  shows "near_totals Q zero input p0 amount q (if input then r - (i + fee) else r - out)
           (tin + i) (tout + out) (tfee + fee) (n + slack)"
    and "q \<noteq> t \<Longrightarrow> (if input then r - (i + fee) else r - out) = 0"
    and "toward zero p t q" and "0 \<le> i" and "0 \<le> out" and "0 \<le> fee"
proof -
  have P: "0 \<le> i" "0 \<le> out" "0 \<le> fee" "toward zero p t q" "fair Q zero p (2 * i + slack) (2 * out)"
    "if input then i + fee \<le> r else out \<le> r" "q \<noteq> t \<longrightarrow> (if input then i + fee = r else out = r)"
    using post [OF ok pre run] unfolding near_post_def prod.case by blast+
  have T: "if zero then p \<le> p0 else p0 \<le> p" "0 \<le> tin" "0 \<le> tout" "0 \<le> tfee" "0 \<le> n"
    "r = amount - (if input then tin + tfee else tout)" "fair Q zero p0 (2 * tin + n) (2 * tout)"
    using tot unfolding near_totals_def by blast+
  have p: "0 < p" "0 < t" "if zero then t \<le> p else p \<le> t" using pre unfolding step_pre_def by blast+
  have q: "0 < q" "if zero then q \<le> p0 else p0 \<le> q"
    using P(4) p T(1) unfolding toward_def by (simp_all split: if_splits)
  have "if zero then p \<le> p0 else 0 < p0 \<and> p0 \<le> p" using T(1) p0 by (cases zero) simp_all
  then have "fair Q zero p0 (2 * i + slack) (2 * out)" using P slack by (intro fair_later [OF P(5) p(1)]) simp_all
  with T(7) have "fair Q zero p0 ((2 * tin + n) + (2 * i + slack)) (2 * tout + 2 * out)" by (rule fair_add)
  then have fair: "fair Q zero p0 (2 * (tin + i) + (n + slack)) (2 * (tout + out))" by (simp add: algebra_simps)
  have "0 \<le> (if input then r - (i + fee) else r - out)" using P(6) by (cases input) simp_all
  moreover have "(if input then r - (i + fee) else r - out)
       = amount - (if input then (tin + i) + (tfee + fee) else tout + out)"
    using T(6) by (cases input) simp_all
  moreover have "0 \<le> tin + i" "0 \<le> tout + out" "0 \<le> tfee + fee" "0 \<le> n + slack" using P T slack by simp_all
  ultimately show "near_totals Q zero input p0 amount q (if input then r - (i + fee) else r - out)
           (tin + i) (tout + out) (tfee + fee) (n + slack)"
    using q fair unfolding near_totals_def by blast
  show "q \<noteq> t \<Longrightarrow> (if input then r - (i + fee) else r - out) = 0" using P(7) by (cases input) simp_all
  show "toward zero p t q" "0 \<le> i" "0 \<le> out" "0 \<le> fee" by (fact P)+
qed

end

section \<open>The common form of a step\<close>

text \<open>
  \<open>near\<close> is the input between two prices, \<open>keep\<close> says that a step short of its target reports what was available as
  its input, \<open>charge\<close> is the fee on an input, and \<open>ok\<close> the range check of the amount up to the target.
\<close>

definition curve_step :: "int \<Rightarrow> int \<Rightarrow> int \<Rightarrow> (int \<Rightarrow> int \<Rightarrow> int \<Rightarrow> bool \<Rightarrow> int) \<Rightarrow> bool \<Rightarrow> (int \<Rightarrow> int) \<Rightarrow> (int \<Rightarrow> bool)
  \<Rightarrow> int \<Rightarrow> int \<Rightarrow> int \<Rightarrow> int \<Rightarrow> int \<Rightarrow> bool \<Rightarrow> bool \<Rightarrow> (int \<times> int \<times> int \<times> int) res"
where
  "curve_step Q lo hi near keep charge ok p t l r f zero input =
     (let a = r * (1000000 - f) div 1000000
      in if input then
           (let i = near p t l zero; q = move_in Q p l a zero
            in if \<not> ok i then Inl (Fail ''input=out_of_range'')
               else if i \<le> a then Inr (i, amt Q p t l (\<not> zero) False, t, charge i)
               else if q < lo \<or> q > hi then Inl (Fail ''price=out_of_range'')
               else (let i = (if keep then a else near p q l zero) in Inr (i, amt Q p q l (\<not> zero) False, q, r - i)))
         else
           (let out = amt Q p t l (\<not> zero) False; q = move_out Q p l r zero
            in if \<not> ok out then Inl (Fail ''output=out_of_range'')
               else if out \<le> r then (let i = near p t l zero in Inr (i, out, t, charge i))
               else if q < lo \<or> q > hi then Inl (Fail ''price=out_of_range'')
               else (let i = near p q l zero in Inr (i, r, q, charge i))))"

definition near_amount :: "int \<Rightarrow> int \<Rightarrow> (int \<Rightarrow> int \<Rightarrow> int \<Rightarrow> bool \<Rightarrow> int) \<Rightarrow> bool" where
  "near_amount slack Q near \<longleftrightarrow> (\<forall>p q l zero. 0 < p \<longrightarrow> 0 < q \<longrightarrow> 0 \<le> l \<longrightarrow>
     0 \<le> near p q l zero \<and> near p q l zero \<le> amt Q p q l zero True
     \<and> 2 * cnum Q p q l zero \<le> (2 * near p q l zero + slack) * cden Q p q zero)"

definition fair_charge :: "int \<Rightarrow> (int \<Rightarrow> int) \<Rightarrow> bool" where
  "fair_charge f charge \<longleftrightarrow> (\<forall>i\<ge>0. 0 \<le> charge i \<and> charge i \<le> cdiv (i * f) (1000000 - f))"

lemma near_amountD:
  assumes "near_amount slack Q near" and "0 < p" and "0 < q" and "0 \<le> l"
  shows "0 \<le> near p q l zero" and "near p q l zero \<le> amt Q p q l zero True"
    and "2 * cnum Q p q l zero \<le> (2 * near p q l zero + slack) * cden Q p q zero"
  using assms unfolding near_amount_def by blast+

lemma near_fair:
  assumes "near_amount slack Q near" and "0 \<le> slack" and "0 < Q" and "0 < p" and "0 < q" and "0 \<le> l"
    and "if zero then q \<le> p else p \<le> q"
  shows "fair Q zero p (2 * near p q l zero + slack) (2 * amt Q p q l (\<not> zero) False)"
  using near_amountD [OF assms(1,4,5,6), of zero] assms by (intro curve_fair) simp_all

lemma curve_step_post:
  assumes Q: "0 < Q" and near: "near_amount slack Q near" "0 \<le> slack" and f: "0 \<le> f" "f < 1000000" and charge: "fair_charge f charge"
    and pre: "step_pre p t l r zero" and l: "0 < l"
    and run: "curve_step Q lo hi near keep charge ok p t l r f zero input = Inr res"
  shows "near_post slack Q p t r zero input res"
proof -
  have pos: "0 < p" "0 < t" "0 \<le> l" "0 \<le> r" and dir: "if zero then t \<le> p else p \<le> t"
    using pre by (simp_all add: step_pre_def)
  define a where "a = r * (1000000 - f) div 1000000"
  have a: "0 \<le> a" using f pos by (simp add: a_def pos_imp_zdiv_nonneg_iff)
  have ar: "a \<le> r"
  proof -
    have "r * (1000000 - f) \<le> r * 1000000" using f pos by (intro mult_left_mono) simp_all
    then have "r * (1000000 - f) < (r + 1) * 1000000" by (rule le_less_trans) simp
    then have "a < r + 1" by (simp add: a_def div_less_iff_less_mult)
    then show ?thesis by simp
  qed
  note n = near_amountD [OF near(1) pos(1,2,3), of zero]
  have fair_t: "fair Q zero p (2 * near p t l zero + slack) (2 * amt Q p t l (\<not> zero) False)"
    by (rule near_fair [OF near Q pos(1-3) dir])
  have out_t: "0 \<le> amt Q p t l (\<not> zero) False" using Q pos by (simp add: amt_nonneg)
  have toward_t: "toward zero p t t" using dir by (simp add: toward_def)
  have ch: "0 \<le> charge i \<and> charge i \<le> cdiv (i * f) (1000000 - f)" if "0 \<le> i" for i
    using charge that by (simp add: fair_charge_def)
  show ?thesis
  proof (cases input)
    case True
    show ?thesis
    proof (cases "near p t l zero \<le> a")
      case le: True
      have "near p t l zero + charge (near p t l zero) \<le> r"
        using ch [OF n(1)] fee_total_le [OF f le [unfolded a_def]] by linarith
      then show ?thesis using run True le n(1) fair_t out_t toward_t ch [OF n(1)]
        by (auto simp: curve_step_def Let_def a_def [symmetric] near_post_def split: if_splits)
    next
      case False
      then have less: "a < amt Q p t l zero True" using n(2) by linarith
      let ?q = "move_in Q p l a zero"
      note m = move_in_amt [OF Q pos(1) l a, of zero] and ml = move_in_less [OF Q pos(1) l a pos(2) dir less]
      note nq = near_amountD [OF near(1) pos(1) m(1) pos(3), of zero]
      have fq: "fair Q zero p (2 * near p ?q l zero + slack) (2 * amt Q p ?q l (\<not> zero) False)"
        by (rule near_fair [OF near Q pos(1) m(1) pos(3) m(2)])
      have na: "near p ?q l zero \<le> a" using nq(2) m(3) by linarith
      then have fa: "fair Q zero p (2 * a + slack) (2 * amt Q p ?q l (\<not> zero) False)" using fq by (auto intro: fair_le)
      have "0 \<le> amt Q p ?q l (\<not> zero) False" using Q pos m(1) by (simp add: amt_nonneg)
      then show ?thesis using run True False nq(1) na a ar fq fa ml
        by (auto simp: curve_step_def Let_def a_def [symmetric] near_post_def split: if_splits)
    qed
  next
    case False
    show ?thesis
    proof (cases "amt Q p t l (\<not> zero) False \<le> r")
      case True
      then show ?thesis using run False n(1) fair_t out_t toward_t ch [OF n(1)]
        by (auto simp: curve_step_def Let_def near_post_def split: if_splits)
    next
      case more: False
      then have less: "r < amt Q p t l (\<not> zero) False" by simp
      let ?q = "move_out Q p l r zero"
      note m = move_out_amt [OF Q pos(1) l pos(4,2) dir less]
      have d: "if zero then ?q \<le> p else p \<le> ?q" using m(2) by (simp add: toward_def split: if_splits)
      note nq = near_amountD [OF near(1) pos(1) m(1) pos(3), of zero]
      have "fair Q zero p (2 * near p ?q l zero + slack) (2 * amt Q p ?q l (\<not> zero) False)"
        by (rule near_fair [OF near Q pos(1) m(1) pos(3) d])
      then have "fair Q zero p (2 * near p ?q l zero + slack) (2 * r)" using m(3) by (auto intro: fair_le)
      then show ?thesis using run False more nq(1) ch [OF nq(1)] m(2) pos
        by (auto simp: curve_step_def Let_def near_post_def split: if_splits)
    qed
  qed
qed

lemma curve_step_calm: "\<not> panics (curve_step Q lo hi near keep charge ok p t l r f zero input)"
  by (simp add: curve_step_def Let_def)

text \<open>The two roundings of inputs and of fees.\<close>

lemma near_amount_up: "0 < Q \<Longrightarrow> near_amount 0 Q (\<lambda>p q l zero. amt Q p q l zero True)"
  using amt_up_ge by (auto simp: near_amount_def amt_nonneg)

definition half_up :: "int \<Rightarrow> int \<Rightarrow> int" where
  "half_up n d = (n + d div 2) div d"

lemma half_up_bounds:
  assumes "0 \<le> n" and "0 < d"
  shows "0 \<le> half_up n d" and "half_up n d \<le> cdiv n d" and "2 * n \<le> (2 * half_up n d + 1) * d"
proof -
  show "0 \<le> half_up n d" using assms by (simp add: half_up_def pos_imp_zdiv_nonneg_iff)
  have "n \<le> cdiv n d * d" using assms(2) by (rule cdiv_mult_ge)
  moreover have "d div 2 < d" using assms by simp
  ultimately have "n + d div 2 < (cdiv n d + 1) * d" by (simp add: algebra_simps)
  then have "half_up n d < cdiv n d + 1" unfolding half_up_def using assms(2) by (simp only: div_less_iff_less_mult)
  then show "half_up n d \<le> cdiv n d" by simp
  have "n + d div 2 < (half_up n d + 1) * d" unfolding half_up_def using assms(2) by (rule less_div_mult)
  then have "n + d div 2 + 1 \<le> half_up n d * d + d" by (simp add: algebra_simps)
  then have "2 * n + (2 * (d div 2) + 1) + 1 \<le> 2 * (half_up n d * d) + 2 * d" by linarith
  moreover have "d \<le> 2 * (d div 2) + 1" by linarith
  ultimately show "2 * n \<le> (2 * half_up n d + 1) * d" by (simp add: algebra_simps)
qed

lemma fair_charge_up: "0 \<le> f \<Longrightarrow> f < 1000000 \<Longrightarrow> fair_charge f (\<lambda>i. cdiv (i * f) (1000000 - f))"
  by (simp add: fair_charge_def cdiv_nonneg)

lemma fair_charge_half: "0 \<le> f \<Longrightarrow> f < 1000000 \<Longrightarrow> fair_charge f (\<lambda>i. half_up (i * f) (1000000 - f))"
  by (simp add: fair_charge_def half_up_bounds)

end
