(* ===== verification/Sui_Steps.thy ===== *)
theory Sui_Steps
  imports Cetus_Quote Near_Curve
begin

text \<open>
  \<open>local_math.go\<close> of \<open>go/venues/bluefin/spot\<close>, \<open>go/venues/momentum/clmm\<close> and \<open>go/venues/turbos/clmm\<close>: one interval of
  a swap. The packages share the price update with Cetus and differ in the rounding of the fee and of the input,
  in the range of the amounts, and in whether the input is recomputed from the price reached. All three are
  proved equal to one normal form, \<open>curve_step\<close>, and interpreted as the step of the locale \<open>near_step\<close>.
\<close>

section \<open>Bluefin\<close>

definition bluefin_localDiv :: "int \<Rightarrow> int \<Rightarrow> bool \<Rightarrow> int res" where
  "bluefin_localDiv n d up = (if up then quo_rem_up n d else big_Quo n d)"

definition bluefin_localDelta :: "int \<Rightarrow> int \<Rightarrow> int \<Rightarrow> bool \<Rightarrow> bool \<Rightarrow> int res" where
  "bluefin_localDelta a b l tokenA up =
     (let diff = \<bar>a - b\<bar>; n = l * diff
      in if tokenA then bluefin_localDiv (push_bit 64 n) (a * b) up else bluefin_localDiv n (push_bit 64 1) up)"

definition bluefin_localNext :: "int \<Rightarrow> int \<Rightarrow> int \<Rightarrow> bool \<Rightarrow> bool \<Rightarrow> int res" where
  "bluefin_localNext start l amount a2b exactInput =
     ebind (if a2b = exactInput then
              (let lq = push_bit 64 l; product = start * amount;
                   d = (if exactInput then lq + product else lq - product)
               in if d \<le> 0 then Inl (Fail ''denominator=out_of_range'') else bluefin_localDiv (lq * start) d True)
            else
              ebind (bluefin_localDiv (push_bit 64 amount) l (\<not> exactInput)) (\<lambda>delta.
              Inr (if exactInput then start + delta else start - delta))) (\<lambda>next.
     if next < 4295048016 \<or> next > 79226673515401279992447579055 then Inl (Fail ''price=out_of_range'') else Inr next)"

definition bluefin_localFee :: "int \<Rightarrow> u64 \<Rightarrow> int res" where
  "bluefin_localFee input rate = bluefin_localDiv (input * uint rate) (uint (1000000 - rate)) True"

text \<open>Input, output, next price and fee of a step.\<close>

definition bluefin_localStep :: "int \<Rightarrow> int \<Rightarrow> int \<Rightarrow> int \<Rightarrow> u64 \<Rightarrow> bool \<Rightarrow> bool \<Rightarrow> (int \<times> int \<times> int \<times> int) res" where
  "bluefin_localStep start target l rest feeRate a2b exactInput =
     (let denom = uint (1000000 - feeRate)
      in if exactInput then
           ebind (bluefin_localDiv (rest * denom) 1000000 False) (\<lambda>available.
           ebind (bluefin_localDelta start target l a2b True) (\<lambda>i.
           if BitLen_gt i 256 then Inl (Fail ''input=out_of_range'')
           else
             ebind (if available < i then
                      ebind (bluefin_localNext start l available a2b True) (\<lambda>next. Inr (available, next, rest - available))
                    else
                      ebind (bluefin_localFee i feeRate) (\<lambda>fee. Inr (i, target, fee))) (\<lambda>(i, next, fee).
             ebind (bluefin_localDelta start next l (\<not> a2b) False) (\<lambda>out. Inr (i, out, next, fee)))))
         else
           ebind (bluefin_localDelta start target l (\<not> a2b) False) (\<lambda>out.
           if BitLen_gt out 256 then Inl (Fail ''output=out_of_range'')
           else
             ebind (if rest < out then
                      ebind (bluefin_localNext start l rest a2b False) (\<lambda>next. Inr (rest, next))
                    else Inr (out, target)) (\<lambda>(out, next).
             ebind (bluefin_localDelta start next l a2b True) (\<lambda>i.
             ebind (bluefin_localFee i feeRate) (\<lambda>fee. Inr (i, out, next, fee))))))"

section \<open>Momentum\<close>

definition momentum_localDiv :: "int \<Rightarrow> int \<Rightarrow> bool \<Rightarrow> int res" where
  "momentum_localDiv n d up = (if up then quo_rem_up n d else big_Quo n d)"

definition momentum_localDelta :: "int \<Rightarrow> int \<Rightarrow> int \<Rightarrow> bool \<Rightarrow> bool \<Rightarrow> int res" where
  "momentum_localDelta a b l tokenA up =
     (let diff = \<bar>a - b\<bar>; n = l * diff
      in if tokenA then momentum_localDiv (push_bit 64 n) (a * b) up else momentum_localDiv n (push_bit 64 1) up)"

definition momentum_localNext :: "int \<Rightarrow> int \<Rightarrow> int \<Rightarrow> bool \<Rightarrow> bool \<Rightarrow> int res" where
  "momentum_localNext start l amount a2b exactInput =
     ebind (if a2b = exactInput then
              (let lq = push_bit 64 l; product = start * amount;
                   d = (if exactInput then lq + product else lq - product)
               in if d \<le> 0 then Inl (Fail ''denominator=out_of_range'') else momentum_localDiv (lq * start) d True)
            else
              ebind (momentum_localDiv (push_bit 64 amount) l (\<not> exactInput)) (\<lambda>delta.
              Inr (if exactInput then start + delta else start - delta))) (\<lambda>next.
     if next < 4295048016 \<or> next > 79226673515401279992447579055 then Inl (Fail ''price=out_of_range'') else Inr next)"

definition momentum_localFee :: "int \<Rightarrow> u64 \<Rightarrow> int res" where
  "momentum_localFee input rate =
     (let denominator = uint (1000000 - rate) in big_Quo (input * uint rate + drop_bit 1 denominator) denominator)"

definition momentum_localStep :: "int \<Rightarrow> int \<Rightarrow> int \<Rightarrow> int \<Rightarrow> u64 \<Rightarrow> bool \<Rightarrow> bool \<Rightarrow> (int \<times> int \<times> int \<times> int) res" where
  "momentum_localStep start target l rest feeRate a2b exactInput =
     (let denom = uint (1000000 - feeRate)
      in if exactInput then
           ebind (momentum_localDiv (rest * denom) 1000000 False) (\<lambda>available.
           ebind (momentum_localDelta start target l a2b True) (\<lambda>i.
           if \<not> IsUint64 i then Inl (Fail ''input=out_of_range'')
           else
             ebind (if available < i then
                      ebind (momentum_localNext start l available a2b True) (\<lambda>next. Inr (next, rest - available))
                    else
                      ebind (momentum_localFee i feeRate) (\<lambda>fee. Inr (target, fee))) (\<lambda>(next, fee).
             ebind (momentum_localDelta start next l a2b True) (\<lambda>i.
             ebind (momentum_localDelta start next l (\<not> a2b) False) (\<lambda>out.
             Inr (i, out, next, if next \<noteq> target then rest - i else fee))))))
         else
           ebind (momentum_localDelta start target l (\<not> a2b) False) (\<lambda>out.
           if \<not> IsUint64 out then Inl (Fail ''output=out_of_range'')
           else
             ebind (if rest < out then
                      ebind (momentum_localNext start l rest a2b False) (\<lambda>next. Inr (rest, next))
                    else Inr (out, target)) (\<lambda>(out, next).
             ebind (momentum_localDelta start next l a2b True) (\<lambda>i.
             ebind (momentum_localFee i feeRate) (\<lambda>fee. Inr (i, out, next, fee))))))"

section \<open>Turbos\<close>

definition turbos_localDiv :: "int \<Rightarrow> int \<Rightarrow> bool \<Rightarrow> int res" where
  "turbos_localDiv n d up = (if up then quo_rem_up n d else big_Quo n d)"

text \<open>Amounts of token B are rounded to the nearest unit, not up.\<close>

definition turbos_localDelta :: "int \<Rightarrow> int \<Rightarrow> int \<Rightarrow> bool \<Rightarrow> bool \<Rightarrow> int res" where
  "turbos_localDelta a b l tokenA up =
     (let diff = \<bar>a - b\<bar>; n = l * diff
      in if tokenA then turbos_localDiv (push_bit 64 n) (a * b) up
         else (let d = push_bit 64 1; n = (if up then n + drop_bit 1 d else n) in turbos_localDiv n d False))"

definition turbos_localNext :: "int \<Rightarrow> int \<Rightarrow> int \<Rightarrow> bool \<Rightarrow> bool \<Rightarrow> int res" where
  "turbos_localNext start l amount a2b exactInput =
     ebind (if a2b = exactInput then
              (let lq = push_bit 64 l; product = start * amount;
                   d = (if exactInput then lq + product else lq - product)
               in if d \<le> 0 then Inl (Fail ''denominator=out_of_range'') else turbos_localDiv (lq * start) d True)
            else
              ebind (turbos_localDiv (push_bit 64 amount) l (\<not> exactInput)) (\<lambda>delta.
              Inr (if exactInput then start + delta else start - delta))) (\<lambda>next.
     if next < 4295048016 \<or> next > 79226673515401279992447579055 then Inl (Fail ''price=out_of_range'') else Inr next)"

definition turbos_localFee :: "int \<Rightarrow> u64 \<Rightarrow> int res" where
  "turbos_localFee input rate =
     (let denominator = uint (1000000 - rate) in big_Quo (input * uint rate + drop_bit 1 denominator) denominator)"

definition turbos_localStep :: "int \<Rightarrow> int \<Rightarrow> int \<Rightarrow> int \<Rightarrow> u64 \<Rightarrow> bool \<Rightarrow> bool \<Rightarrow> (int \<times> int \<times> int \<times> int) res" where
  "turbos_localStep start target l rest feeRate a2b exactInput =
     (let denom = uint (1000000 - feeRate)
      in if exactInput then
           ebind (turbos_localDiv (rest * denom) 1000000 False) (\<lambda>available.
           ebind (turbos_localDelta start target l a2b True) (\<lambda>i.
           if BitLen_gt i 128 then Inl (Fail ''input=out_of_range'')
           else
             ebind (if available < i then turbos_localNext start l available a2b True
                    else ebind (turbos_localFee i feeRate) (\<lambda>fee. Inr target)) (\<lambda>next.
             ebind (turbos_localDelta start next l a2b True) (\<lambda>i.
             ebind (if next \<noteq> target then Inr (rest - i) else turbos_localFee i feeRate) (\<lambda>fee.
             ebind (turbos_localDelta start next l (\<not> a2b) False) (\<lambda>out. Inr (i, out, next, fee)))))))
         else
           ebind (turbos_localDelta start target l (\<not> a2b) False) (\<lambda>out.
           if BitLen_gt out 128 then Inl (Fail ''output=out_of_range'')
           else
             ebind (if rest < out then turbos_localNext start l rest a2b False else Inr target) (\<lambda>next.
             ebind (turbos_localDelta start next l (\<not> a2b) False) (\<lambda>out.
             let out = (if out > rest then rest else out)
             in ebind (turbos_localDelta start next l a2b True) (\<lambda>i.
                ebind (turbos_localFee i feeRate) (\<lambda>fee. Inr (i, out, next, fee)))))))"

section \<open>The steps in their common form\<close>

text \<open>The parts that the packages share are those of Cetus.\<close>

lemma bluefin_parts: "bluefin_localDiv = localDiv" "bluefin_localDelta = localDelta" "bluefin_localNext = localNext"
  by (simp_all add: fun_eq_iff bluefin_localDiv_def localDiv_def bluefin_localDelta_def localDelta_def
      bluefin_localNext_def localNext_def Let_def)

lemma momentum_parts: "momentum_localDiv = localDiv" "momentum_localDelta = localDelta" "momentum_localNext = localNext"
  by (simp_all add: fun_eq_iff momentum_localDiv_def localDiv_def momentum_localDelta_def localDelta_def
      momentum_localNext_def localNext_def Let_def)

lemma turbos_parts: "turbos_localDiv = localDiv" "turbos_localNext = localNext"
  by (simp_all add: fun_eq_iff turbos_localDiv_def localDiv_def turbos_localNext_def localNext_def Let_def)

definition turbos_near :: "int \<Rightarrow> int \<Rightarrow> int \<Rightarrow> bool \<Rightarrow> int" where
  "turbos_near p q l zero = (if zero then amt Q64 p q l True True else half_up (l * \<bar>q - p\<bar>) Q64)"

lemma turbos_near_amount: "near_amount 1 Q64 turbos_near"
  unfolding near_amount_def
proof (intro allI impI)
  fix p q l :: int and zero :: bool
  assume a: "0 < p" "0 < q" "0 \<le> l"
  show "0 \<le> turbos_near p q l zero \<and> turbos_near p q l zero \<le> amt Q64 p q l zero True
      \<and> 2 * cnum Q64 p q l zero \<le> (2 * turbos_near p q l zero + 1) * cden Q64 p q zero"
  proof (cases zero)
    case True
    have "2 * cnum Q64 p q l True \<le> 2 * (amt Q64 p q l True True * cden Q64 p q True)"
      using amt_up_ge [of Q64 p q l True] a by simp
    also have "\<dots> \<le> (2 * amt Q64 p q l True True + 1) * cden Q64 p q True"
      using cden_pos [of Q64 p q True] a by (simp add: algebra_simps)
    finally show ?thesis using True a by (simp add: turbos_near_def amt_nonneg)
  next
    case False
    have n: "0 \<le> l * \<bar>q - p\<bar>" using a by simp
    show ?thesis
      using False half_up_bounds [OF n, of Q64] by (simp add: turbos_near_def amt_def cnum_def cden_def)
  qed
qed

lemma turbos_localDelta_up: "0 < a \<Longrightarrow> 0 < b \<Longrightarrow> 0 \<le> l \<Longrightarrow> turbos_localDelta a b l t True = Inr (turbos_near a b l t)"
  by (simp add: turbos_localDelta_def turbos_parts turbos_near_def Let_def localDiv_pos amt_def cnum_def cden_def
      half_up_def push_bit_eq_mult drop_bit_eq_div abs_minus_commute mult.commute)

lemma turbos_localDelta_down: "0 < a \<Longrightarrow> 0 < b \<Longrightarrow> 0 \<le> l \<Longrightarrow> turbos_localDelta a b l t False = Inr (amt Q64 a b l t False)"
  by (simp add: turbos_localDelta_def turbos_parts Let_def localDiv_pos amt_def cnum_def cden_def
      push_bit_eq_mult abs_minus_commute mult.commute)

lemma fee_half:
  assumes "cetus_fee f" and "0 \<le> i"
  shows "big_Quo (i * uint f + drop_bit 1 (uint (1000000 - f))) (uint (1000000 - f)) = Inr (half_up (i * uint f) (1000000 - uint f))"
  using cetus_fee_uint [OF assms(1)] assms(2) by (simp add: big_Quo_pos half_up_def drop_bit_eq_div pos_imp_zdiv_nonneg_iff)

lemma bluefin_fee: "cetus_fee f \<Longrightarrow> 0 \<le> i \<Longrightarrow> bluefin_localFee i f = Inr (cdiv (i * uint f) (1000000 - uint f))"
  using cetus_fee_uint [of f] by (simp add: bluefin_localFee_def bluefin_parts localDiv_pos)

lemma momentum_fee: "cetus_fee f \<Longrightarrow> 0 \<le> i \<Longrightarrow> momentum_localFee i f = Inr (half_up (i * uint f) (1000000 - uint f))"
  using fee_half by (simp add: momentum_localFee_def Let_def)

lemma turbos_fee: "cetus_fee f \<Longrightarrow> 0 \<le> i \<Longrightarrow> turbos_localFee i f = Inr (half_up (i * uint f) (1000000 - uint f))"
  using fee_half by (simp add: turbos_localFee_def Let_def)

abbreviation lowPrice :: int where "lowPrice \<equiv> 4295048016"
abbreviation highPrice :: int where "highPrice \<equiv> 79226673515401279992447579055"

text \<open>What is available to move the price, and the facts that all three proofs use.\<close>

lemma step_facts:
  assumes f: "cetus_fee f" and pre: "step_pre p t l r zero" and l: "0 < l"
  defines "a \<equiv> r * (1000000 - uint f) div 1000000"
  shows "localDiv (r * uint (1000000 - f)) 1000000 False = Inr a"
    and "\<not> amt Q64 p t l zero True \<le> a \<Longrightarrow> 0 < move_in Q64 p l a zero \<and> move_in Q64 p l a zero \<noteq> t"
    and "\<not> amt Q64 p t l (\<not> zero) False \<le> r \<Longrightarrow> 0 < move_out Q64 p l r zero
           \<and> r \<le> amt Q64 p (move_out Q64 p l r zero) l (\<not> zero) False"
    and "localNext p l a zero True = (let q = move_in Q64 p l a zero
           in if q < lowPrice \<or> q > highPrice then Inl (Fail ''price=out_of_range'') else Inr q)"
    and "\<not> amt Q64 p t l (\<not> zero) False \<le> r \<Longrightarrow> localNext p l r zero False = (let q = move_out Q64 p l r zero
           in if q < lowPrice \<or> q > highPrice then Inl (Fail ''price=out_of_range'') else Inr q)"
    and "0 < p" and "0 < t" and "0 \<le> l"
proof -
  have pos: "0 < p" "0 < t" "0 \<le> l" "0 \<le> r" and dir: "if zero then t \<le> p else p \<le> t" using pre by (simp_all add: step_pre_def)
  note u = cetus_fee_uint [OF f]
  have a: "0 \<le> a" using u pos by (simp add: a_def pos_imp_zdiv_nonneg_iff)
  show "localDiv (r * uint (1000000 - f)) 1000000 False = Inr a" using u pos by (simp add: localDiv_pos a_def)
  show "0 < move_in Q64 p l a zero \<and> move_in Q64 p l a zero \<noteq> t" if "\<not> amt Q64 p t l zero True \<le> a"
    using move_in_amt(1) [OF _ pos(1) l a, of Q64 zero] move_in_less [OF _ pos(1) l a pos(2) dir, of Q64] that by simp
  show "localNext p l a zero True = (let q = move_in Q64 p l a zero
           in if q < lowPrice \<or> q > highPrice then Inl (Fail ''price=out_of_range'') else Inr q)"
    by (rule localNext_in [OF pos(1) l a])
  assume "\<not> amt Q64 p t l (\<not> zero) False \<le> r"
  then have m: "0 < move_out Q64 p l r zero" "r \<le> amt Q64 p (move_out Q64 p l r zero) l (\<not> zero) False" "zero \<or> 0 < Q64 * l - r * p"
    using move_out_amt [OF _ pos(1) l pos(4,2) dir, of Q64] by simp_all
  then show "0 < move_out Q64 p l r zero \<and> r \<le> amt Q64 p (move_out Q64 p l r zero) l (\<not> zero) False" by simp
  show "localNext p l r zero False = (let q = move_out Q64 p l r zero
           in if q < lowPrice \<or> q > highPrice then Inl (Fail ''price=out_of_range'') else Inr q)"
    by (rule localNext_out [OF pos(1) l pos(4) m(3)])
qed (use pre in \<open>simp_all add: step_pre_def\<close>)

lemma bluefin_curve:
  assumes f: "cetus_fee f" and pre: "step_pre p t l r zero" and l: "0 < l"
  shows "bluefin_localStep p t l r f zero input =
    curve_step Q64 lowPrice highPrice (\<lambda>p q l zero. amt Q64 p q l zero True) True (\<lambda>i. cdiv (i * uint f) (1000000 - uint f))
      (\<lambda>i. \<not> BitLen_gt i 256) p t l r (uint f) zero input"
proof -
  note s = step_facts [OF f pre l]
  show ?thesis
    using s f l
    by (simp add: bluefin_localStep_def curve_step_def bluefin_parts Let_def localDelta_amt bluefin_fee amt_nonneg not_le)
qed

lemma momentum_curve:
  assumes f: "cetus_fee f" and pre: "step_pre p t l r zero" and l: "0 < l"
  shows "momentum_localStep p t l r f zero input =
    curve_step Q64 lowPrice highPrice (\<lambda>p q l zero. amt Q64 p q l zero True) False (\<lambda>i. half_up (i * uint f) (1000000 - uint f))
      IsUint64 p t l r (uint f) zero input"
proof -
  note s = step_facts [OF f pre l]
  show ?thesis
    using s f l
    by (simp add: momentum_localStep_def curve_step_def momentum_parts Let_def localDelta_amt momentum_fee amt_nonneg not_le)
qed

lemma turbos_curve:
  assumes f: "cetus_fee f" and pre: "step_pre p t l r zero" and l: "0 < l"
  shows "turbos_localStep p t l r f zero input =
    curve_step Q64 lowPrice highPrice turbos_near False (\<lambda>i. half_up (i * uint f) (1000000 - uint f))
      (\<lambda>i. \<not> BitLen_gt i 128) p t l r (uint f) zero input"
proof -
  note s = step_facts [OF f pre l]
  have n: "0 \<le> turbos_near p q l zero" "turbos_near p q l zero \<le> amt Q64 p q l zero True" if "0 < q" for q
    using near_amountD [OF turbos_near_amount s(6) that s(8)] by blast+
  have m: "0 < move_in Q64 p l (r * (1000000 - uint f) div 1000000) zero \<and> move_in Q64 p l (r * (1000000 - uint f) div 1000000) zero \<noteq> t"
    if "\<not> turbos_near p t l zero \<le> r * (1000000 - uint f) div 1000000"
    using s(2) n(2) [OF s(7)] that by linarith
  show ?thesis
  proof (cases input)
    case True
    then show ?thesis using s(1,4,6-8) m n f
      by (simp add: turbos_localStep_def curve_step_def turbos_parts Let_def turbos_localDelta_up turbos_localDelta_down turbos_fee not_le)
  next
    case False
    show ?thesis
    proof (cases "amt Q64 p t l (\<not> zero) False \<le> r")
      case True
      then show ?thesis using False s(6-8) n f
        by (simp add: turbos_localStep_def curve_step_def turbos_parts Let_def turbos_localDelta_up turbos_localDelta_down turbos_fee)
    next
      case more: False
      show ?thesis using False more s(3,5) [OF more] s(6-8) n f
        by (auto simp: turbos_localStep_def curve_step_def turbos_parts Let_def turbos_localDelta_up turbos_localDelta_down turbos_fee)
    qed
  qed
qed

lemma half_charge: "cetus_fee f \<Longrightarrow> fair_charge (uint f) (\<lambda>i. half_up (i * uint f) (1000000 - uint f))"
  using cetus_fee_uint [of f] by (intro fair_charge_half) simp_all

lemma up_charge: "cetus_fee f \<Longrightarrow> fair_charge (uint f) (\<lambda>i. cdiv (i * uint f) (1000000 - uint f))"
  using cetus_fee_uint [of f] by (intro fair_charge_up) simp_all

lemma cetus_fee_bounds: "cetus_fee f \<Longrightarrow> 0 \<le> uint f" "cetus_fee f \<Longrightarrow> uint f < 1000000"
  using cetus_fee_uint [of f] by simp_all

interpretation bluefin: near_step 0 Q64 cetus_fee bluefin_localStep
proof
  fix f p t l r zero input res
  assume a: "cetus_fee f" "step_pre p t l r zero" "0 < l"
  show "\<not> panics (bluefin_localStep p t l r f zero input)" unfolding bluefin_curve [OF a] by (rule curve_step_calm)
  assume "bluefin_localStep p t l r f zero input = Inr res"
  then show "near_post 0 Q64 p t r zero input res"
    unfolding bluefin_curve [OF a]
    by (intro curve_step_post [OF _ near_amount_up _ cetus_fee_bounds [OF a(1)] up_charge [OF a(1)] a(2,3)]) simp_all
qed simp_all

interpretation momentum: near_step 0 Q64 cetus_fee momentum_localStep
proof
  fix f p t l r zero input res
  assume a: "cetus_fee f" "step_pre p t l r zero" "0 < l"
  show "\<not> panics (momentum_localStep p t l r f zero input)" unfolding momentum_curve [OF a] by (rule curve_step_calm)
  assume "momentum_localStep p t l r f zero input = Inr res"
  then show "near_post 0 Q64 p t r zero input res"
    unfolding momentum_curve [OF a]
    by (intro curve_step_post [OF _ near_amount_up _ cetus_fee_bounds [OF a(1)] half_charge [OF a(1)] a(2,3)]) simp_all
qed simp_all

interpretation turbos: near_step 1 Q64 cetus_fee turbos_localStep
proof
  fix f p t l r zero input res
  assume a: "cetus_fee f" "step_pre p t l r zero" "0 < l"
  show "\<not> panics (turbos_localStep p t l r f zero input)" unfolding turbos_curve [OF a] by (rule curve_step_calm)
  assume "turbos_localStep p t l r f zero input = Inr res"
  then show "near_post 1 Q64 p t r zero input res"
    unfolding turbos_curve [OF a]
    by (intro curve_step_post [OF _ turbos_near_amount _ cetus_fee_bounds [OF a(1)] half_charge [OF a(1)] a(2,3)]) simp_all
qed simp_all

end
