(* ===== verification/Sui_Cache.thy ===== *)
theory Sui_Cache
  imports Go_Json Sui_Steps Tick_Bitmap
begin

text \<open>
  \<open>state_cache.go\<close> of \<open>go/venues/turbos/clmm\<close>, \<open>go/venues/momentum/clmm\<close> and \<open>go/venues/bluefin/spot\<close>: the quote of
  a swap from a cached pool whose bitmap words and ticks are read on demand. The three packages differ in the step
  of one interval (\<open>Sui_Steps\<close>), in the protocol's share of the fee, and in that only Turbos stops when the
  liquidity runs out; these are the parameters of \<open>walk\<close>, and everything else is one definition for all three.

  Quotes read through the cache, so they are procedures on the cached state and the number of reads made so far;
  the reader may answer every read differently. A retained state makes no reads.
\<close>

section \<open>State\<close>

text \<open>
  The pool as far as the cache reads it. Prices and liquidity are never nil in a captured pool. \<open>rate\<close> is the fee in
  millionths (\<open>Fee\<close> in Turbos, \<open>FeeRate\<close> in the others); Bluefin keeps tick and spacing beside the pool.
\<close>

record sui_pool =
  coin_types :: "string list"
  sqrt_price :: int
  liquidity :: int
  tick_index :: int
  tick_spacing :: u32
  rate :: u64
  unlocked :: bool

record Position =
  pos_kind :: string
  pos_sequence :: u64
  pos_digest :: string
  pos_index :: "u64 option"

record quoteState =
  position :: "Position option"
  received :: int
  retainedOnly :: bool
  pool :: sui_pool
  version :: u64
  state_digest :: string
  checkpoint :: u64
  captured :: int
  bitmap_id :: Address
  ticks_id :: Address
  keyType :: string
  protocolRate :: u64
  words :: "int \<rightharpoonup> int"
  nets :: "int \<rightharpoonup> int"

record Reader =
  DynamicValues :: "nat \<Rightarrow> Address \<Rightarrow> u64 \<Rightarrow> (string \<times> bytes) list \<Rightarrow> raw list res"
  ctx_err :: "nat \<Rightarrow> failure option"

type_synonym 'a cache_proc = "(quoteState \<times> nat, 'a) proc"

definition ErrCoverage :: failure where
  "ErrCoverage = Sentinel ''coverage=insufficient''"

section \<open>Reading through the cache\<close>

text \<open>The key of a dynamic field: an \<open>int32\<close> in little endian two's complement.\<close>

definition index_key :: "int \<Rightarrow> bytes" where
  "index_key index = le_bytes 4 (index mod 2 ^ 32)"

definition field :: "Reader \<Rightarrow> Address \<Rightarrow> int \<Rightarrow> raw cache_proc" where
  "field env parent index =
     reading (\<lambda>(s, n).
       if retainedOnly s then throw ErrCoverage
       else
         andthen (update (\<lambda>(s, n). (s, n + 1))) (\<lambda>_.
         andthen (lift (DynamicValues env n parent (checkpoint s) [(keyType s, index_key index)])) (\<lambda>vals.
         case vals of [v] \<Rightarrow> ret v | _ \<Rightarrow> throw (Fail ''values=invalid''))))"

definition word_value :: "raw \<Rightarrow> int res" where
  "word_value value =
     ebind (if value = Missing then Inr 0 else jsonUnsigned value) (\<lambda>bits.
     if BitLen_gt bits 256 then Inl (Fail ''word=out_of_range'') else Inr bits)"

definition word_at :: "Reader \<Rightarrow> int \<Rightarrow> int cache_proc" where
  "word_at env w =
     reading (\<lambda>(s, n). case words s w of
       Some bits \<Rightarrow> ret bits
     | None \<Rightarrow>
         andthen (field env (bitmap_id s) w) (\<lambda>value.
         andthen (lift (word_value value)) (\<lambda>bits.
         andthen (update (\<lambda>(s, n). (s\<lparr>words := (words s)(w \<mapsto> bits)\<rparr>, n))) (\<lambda>_. ret bits))))"

definition nextTick :: "Reader \<Rightarrow> int \<Rightarrow> bool \<Rightarrow> (int \<times> bool) cache_proc" where
  "nextTick env tick down =
     reading (\<lambda>(s, n).
       let spacing = i32 (uint (tick_spacing (pool s)))
       in if spacing = 0 then throw (Panic ''division by zero'')
          else
            (let compressed = compress tick spacing;
                 compressed = (if \<not> down then i32 (compressed + 1) else compressed);
                 word = drop_bit 8 compressed; b = compressed AND 255
             in andthen (word_at env word) (\<lambda>bits.
                let (next, found) = found_tick bits down word b spacing
                in ret (if next < - 443636 then (- 443636, False)
                        else if next > 443636 then (443636, False)
                        else (next, found)))))"

text \<open>A net liquidity is an unsigned 128 bit number that is read as two's complement.\<close>

definition signed_net :: "int \<Rightarrow> int res" where
  "signed_net n =
     (if BitLen_gt n 128 then Inl (Fail ''liquidity=out_of_range'')
      else Inr (if bit n 127 then n - 2 ^ 128 else n))"

definition net_decoder :: "raw decoder" where
  "net_decoder = struct_of [(''liquidity_net'', struct_of [(''bits'', raw_field (\<lambda>r _. r))])]"

definition net_value :: "raw \<Rightarrow> int res" where
  "net_value value = ebind (Unmarshal net_decoder value Missing) (\<lambda>bits. ebind (jsonUnsigned bits) signed_net)"

definition net :: "Reader \<Rightarrow> int \<Rightarrow> int cache_proc" where
  "net env tick =
     reading (\<lambda>(s, n). case nets s tick of
       Some v \<Rightarrow> ret v
     | None \<Rightarrow>
         andthen (field env (ticks_id s) tick) (\<lambda>value.
         if value = Missing then throw (Fail ''tick=null'')
         else
           andthen (lift (net_value value)) (\<lambda>v.
           andthen (update (\<lambda>(s, n). (s\<lparr>nets := (nets s)(tick \<mapsto> v)\<rparr>, n))) (\<lambda>_. ret v))))"

section \<open>The quote\<close>

type_synonym sui_step = "int \<Rightarrow> int \<Rightarrow> int \<Rightarrow> int \<Rightarrow> u64 \<Rightarrow> bool \<Rightarrow> bool \<Rightarrow> (int \<times> int \<times> int \<times> int) res"

record leg =
  at_price :: int
  at_liq :: int
  at_tick :: int
  to_fill :: int
  input_sum :: int
  output_sum :: int
  fee_sum :: int
  protocol_sum :: int

definition next_price :: "bool \<Rightarrow> int \<Rightarrow> int \<Rightarrow> int" where
  "next_price down limit boundary =
     (if down \<and> boundary < limit \<or> \<not> down \<and> boundary > limit then limit else boundary)"

text \<open>What one step makes of the running sums.\<close>

definition book :: "u64 \<Rightarrow> bool \<Rightarrow> int \<times> int \<times> int \<times> int \<Rightarrow> leg \<Rightarrow> leg res" where
  "book protocol exact = (\<lambda>(i, out, newPrice, fee) st.
     if \<not> IsUint64 i \<or> \<not> IsUint64 out \<or> \<not> IsUint64 fee then Inl (Fail ''amount=out_of_range'')
     else
       (let used = (if exact then i + fee else out)
        in if used > to_fill st then Inl (Fail ''consumption=out_of_range'')
           else
             ebind (big_Quo (fee * uint protocol) 1000000) (\<lambda>share.
             Inr (st\<lparr>to_fill := to_fill st - used, input_sum := input_sum st + i + fee, output_sum := output_sum st + out,
                     fee_sum := fee_sum st + fee, protocol_sum := protocol_sum st + share, at_price := newPrice\<rparr>))))"

definition cross_boundary :: "Reader \<Rightarrow> bool \<Rightarrow> int \<Rightarrow> bool \<Rightarrow> leg \<Rightarrow> leg cache_proc" where
  "cross_boundary env down next initialized st =
     andthen (if initialized then
                andthen (net env next) (\<lambda>v.
                let l = (if down then at_liq st - v else at_liq st + v)
                in if l < 0 \<or> BitLen_gt l 128 then throw (Fail ''liquidity=out_of_range'') else ret l)
              else ret (at_liq st)) (\<lambda>l.
     ret (st\<lparr>at_liq := l, at_tick := (if down then i32 (next - 1) else next)\<rparr>))"

text \<open>\<open>walk k\<close> is the loop with \<open>k\<close> of its 2048 turns left.\<close>

primrec walk :: "nat \<Rightarrow> Reader \<Rightarrow> sui_step \<Rightarrow> bool \<Rightarrow> u64 \<Rightarrow> u64 \<Rightarrow> bool \<Rightarrow> bool \<Rightarrow> int \<Rightarrow> leg \<Rightarrow> leg cache_proc" where
  "walk 0 env step dry fee protocol down exact limit st =
     (if \<not> (to_fill st > 0 \<and> at_price st \<noteq> limit) then ret st
      else case ctx_err env 2048 of Some e \<Rightarrow> throw e | None \<Rightarrow> throw (Fail ''steps=out_of_range''))"
| "walk (Suc k) env step dry fee protocol down exact limit st =
     (if \<not> (to_fill st > 0 \<and> at_price st \<noteq> limit) then ret st
      else case ctx_err env (2048 - Suc k) of Some e \<Rightarrow> throw e
      | None \<Rightarrow>
        andthen (nextTick env (at_tick st) down) (\<lambda>(next, initialized).
        let boundary = sqrtAtTick next; target = next_price down limit boundary
        in andthen (lift (if at_liq st > 0 then step (at_price st) target (at_liq st) (to_fill st) fee down exact
                          else Inr (0, 0, target, 0))) (\<lambda>result.
           andthen (lift (book protocol exact result st)) (\<lambda>st.
           if at_price st = boundary then
             andthen (cross_boundary env down next initialized st) (\<lambda>st.
             if dry \<and> at_liq st = 0 then ret st
             else walk k env step dry fee protocol down exact limit st)
           else ret st))))"

definition validU128 :: "int option \<Rightarrow> bool" where
  "validU128 v \<longleftrightarrow> (case v of None \<Rightarrow> False | Some n \<Rightarrow> n > 0 \<and> \<not> BitLen_gt n 128)"

definition limit_invalid :: "quoteState \<Rightarrow> bool \<Rightarrow> int option \<Rightarrow> bool" where
  "limit_invalid s down limit \<longleftrightarrow>
     \<not> validU128 limit \<or> the limit < sqrtAtTick (- 443636) \<or> the limit > sqrtAtTick 443636
     \<or> down \<and> the limit \<ge> sqrt_price (pool s) \<or> \<not> down \<and> the limit \<le> sqrt_price (pool s)"

definition start_leg :: "quoteState \<Rightarrow> int \<Rightarrow> leg" where
  "start_leg s amount = \<lparr>at_price = sqrt_price (pool s), at_liq = liquidity (pool s), at_tick = tick_index (pool s), to_fill = amount,
     input_sum = 0, output_sum = 0, fee_sum = 0, protocol_sum = 0\<rparr>"

definition filled :: "leg \<Rightarrow> leg res" where
  "filled st =
     (if to_fill st \<noteq> 0 then Inl ErrCoverage
      else if \<not> IsUint64 (input_sum st) \<or> \<not> IsUint64 (output_sum st) \<or> \<not> IsUint64 (fee_sum st) \<or> output_sum st = 0
      then Inl (Fail ''amount=out_of_range'')
      else Inr st)"

record turbosQuote =
  tq_in :: int
  tq_out :: int
  tq_fee :: u64
  tq_protocol :: u64
  tq_after :: int

definition turbos_quote :: "Reader \<Rightarrow> int option \<Rightarrow> bool \<Rightarrow> bool \<Rightarrow> int option \<Rightarrow> turbosQuote cache_proc" where
  "turbos_quote env amount down exact limit =
     reading (\<lambda>(s, n).
       if \<not> validU128 amount \<or> \<not> IsUint64 (the amount) \<or> limit_invalid s down limit then throw (Fail ''parameters=invalid'')
       else
         andthen (walk 2048 env turbos_localStep True (rate (pool s)) (protocolRate s) down exact (the limit) (start_leg s (the amount))) (\<lambda>st.
         andthen (lift (filled st)) (\<lambda>st.
         ret \<lparr>tq_in = input_sum st, tq_out = output_sum st, tq_fee = u64_of (fee_sum st),
               tq_protocol = u64_of (protocol_sum st), tq_after = at_price st\<rparr>)))"

record momentumQuote =
  mq_fee :: u64
  mq_after :: int
  mq_in :: u64
  mq_out :: u64

text \<open>Momentum counts no protocol share; with the rate 0 the sum stays 0.\<close>

definition momentum_quote :: "Reader \<Rightarrow> u64 \<Rightarrow> bool \<Rightarrow> bool \<Rightarrow> int option \<Rightarrow> momentumQuote cache_proc" where
  "momentum_quote env amount down exact limit =
     reading (\<lambda>(s, n).
       if amount = 0 \<or> limit_invalid s down limit then throw (Fail ''parameters=invalid'')
       else
         andthen (walk 2048 env momentum_localStep False (rate (pool s)) 0 down exact (the limit) (start_leg s (uint amount))) (\<lambda>st.
         andthen (lift (filled st)) (\<lambda>st.
         ret \<lparr>mq_fee = u64_of (fee_sum st), mq_after = at_price st, mq_in = u64_of (input_sum st), mq_out = u64_of (output_sum st)\<rparr>)))"

record bluefinQuote =
  bq_in :: u64
  bq_out :: u64
  bq_protocol :: u64
  bq_fee :: u64
  bq_after :: int

definition bluefin_quote :: "Reader \<Rightarrow> u64 \<Rightarrow> bool \<Rightarrow> bool \<Rightarrow> int option \<Rightarrow> bluefinQuote cache_proc" where
  "bluefin_quote env amount down exact limit =
     reading (\<lambda>(s, n).
       if amount = 0 \<or> limit_invalid s down limit then throw (Fail ''parameters=invalid'')
       else
         andthen (walk 2048 env bluefin_localStep False (rate (pool s)) (protocolRate s) down exact (the limit) (start_leg s (uint amount))) (\<lambda>st.
         andthen (lift (filled st)) (\<lambda>st.
         ret \<lparr>bq_in = u64_of (input_sum st), bq_out = u64_of (output_sum st), bq_protocol = u64_of (protocol_sum st),
               bq_fee = u64_of (fee_sum st - protocol_sum st), bq_after = at_price st\<rparr>)))"

section \<open>Reading only adds to the cache\<close>

definition calm :: "failure \<Rightarrow> bool" where
  "calm e \<longleftrightarrow> (case e of Panic _ \<Rightarrow> False | _ \<Rightarrow> True)"

lemma calm_simps [simp]: "calm (Fail r)" "calm (Sentinel r)" "\<not> calm (Panic r)"
  by (simp_all add: calm_def)

lemma calm_res: "panics (Inl e) \<longleftrightarrow> \<not> calm e"
  by (cases e) simp_all

lemma calmD: "\<not> panics m \<Longrightarrow> m = Inl e \<Longrightarrow> calm e"
  by (simp add: calm_res)

definition reader_calm :: "Reader \<Rightarrow> bool" where
  "reader_calm env \<longleftrightarrow> (\<forall>n p c ks. \<not> panics (DynamicValues env n p c ks)) \<and> (\<forall>n e. ctx_err env n = Some e \<longrightarrow> calm e)"

definition grown :: "quoteState \<Rightarrow> quoteState \<Rightarrow> bool" where
  "grown s s' \<longleftrightarrow> s'\<lparr>words := Map.empty, nets := Map.empty\<rparr> = s\<lparr>words := Map.empty, nets := Map.empty\<rparr>
     \<and> words s \<subseteq>\<^sub>m words s' \<and> nets s \<subseteq>\<^sub>m nets s'"

lemma grown_refl [simp]: "grown s s"
  by (simp add: grown_def)

lemma grown_trans: "grown s s' \<Longrightarrow> grown s' s'' \<Longrightarrow> grown s s''"
  unfolding grown_def by (auto intro: map_le_trans)

lemma grown_pool: "grown s s' \<Longrightarrow> pool s' = pool s"
  by (cases s; cases s') (simp add: grown_def)

lemma grown_word: "words s w = None \<Longrightarrow> grown s (s\<lparr>words := (words s)(w \<mapsto> b)\<rparr>)"
  by (auto simp: grown_def map_le_def)

lemma grown_net: "nets s w = None \<Longrightarrow> grown s (s\<lparr>nets := (nets s)(w \<mapsto> b)\<rparr>)"
  by (auto simp: grown_def map_le_def)

lemma ErrCoverage_calm [simp]: "calm ErrCoverage"
  by (simp add: ErrCoverage_def)

lemma field_outcome:
  assumes "reader_calm env"
  shows "outcome (field env parent index) (s, n) (\<lambda>_ (s', n'). s' = s) calm"
proof -
  have "\<not> panics (DynamicValues env n parent (checkpoint s) [(keyType s, index_key index)])"
    using assms by (simp add: reader_calm_def)
  then show ?thesis
    by (cases "DynamicValues env n parent (checkpoint s) [(keyType s, index_key index)]")
      (auto simp: field_def calm_res split: list.splits)
qed

lemma word_value_calm: "\<not> panics (word_value value)"
  by (simp add: word_value_def panics_ebind)

lemma word_at_outcome:
  assumes "reader_calm env"
  shows "outcome (word_at env w) (s, n) (\<lambda>b (s', n'). words s' w = Some b \<and> grown s s') calm"
proof (cases "words s w")
  case None
  have "outcome (field env (bitmap_id s) w) (s, n)
     (\<lambda>value z. outcome (andthen (lift (word_value value)) (\<lambda>bits.
         andthen (update (\<lambda>(s, n). (s\<lparr>words := (words s)(w \<mapsto> bits)\<rparr>, n))) (\<lambda>_. ret bits))) z
        (\<lambda>b (s', n'). words s' w = Some b \<and> grown s s') calm) calm"
    by (rule outcome_mono [OF field_outcome [OF assms]])
      (use None in \<open>auto simp: outcome_lift grown_word split: sum.splits dest: calmD [OF word_value_calm]\<close>)
  then show ?thesis by (simp add: word_at_def None)
next
  case (Some b)
  then show ?thesis by (simp add: word_at_def)
qed

lemma signed_net_calm: "\<not> panics (signed_net n)"
  by (simp add: signed_net_def)

lemma net_value_calm: "\<not> panics (net_value value)"
  by (simp add: net_value_def panics_ebind signed_net_calm)

lemma net_outcome:
  assumes "reader_calm env"
  shows "outcome (net env tick) (s, n) (\<lambda>v (s', n'). nets s' tick = Some v \<and> grown s s') calm"
proof (cases "nets s tick")
  case None
  have "outcome (field env (ticks_id s) tick) (s, n)
     (\<lambda>value z. outcome (if value = Missing then throw (Fail ''tick=null'') else
         andthen (lift (net_value value)) (\<lambda>v.
         andthen (update (\<lambda>(s, n). (s\<lparr>nets := (nets s)(tick \<mapsto> v)\<rparr>, n))) (\<lambda>_. ret v))) z
        (\<lambda>v (s', n'). nets s' tick = Some v \<and> grown s s') calm) calm"
    by (rule outcome_mono [OF field_outcome [OF assms]])
      (use None in \<open>auto simp: outcome_lift grown_net split: sum.splits dest: calmD [OF net_value_calm]\<close>)
  then show ?thesis by (simp add: net_def None)
next
  case (Some v)
  then show ?thesis by (simp add: net_def)
qed

text \<open>The tick that the search returns, inside the range of ticks.\<close>

definition next_found :: "(int \<rightharpoonup> int) \<Rightarrow> int \<Rightarrow> int \<Rightarrow> bool \<Rightarrow> int \<Rightarrow> bool \<Rightarrow> bool" where
  "next_found ws sp tick down next initialized \<longleftrightarrow>
     lowestTick \<le> next \<and> next \<le> highestTick \<and> (if down then next \<le> tick else tick < next)
     \<and> (initialized \<longrightarrow> marked ws sp next)
     \<and> (\<forall>x. lowestTick \<le> x \<longrightarrow> x \<le> highestTick \<longrightarrow> (if down then next < x \<and> x \<le> tick else tick < x \<and> x < next) \<longrightarrow> \<not> marked ws sp x)"

lemma nearest_clamped:
  assumes n: "nearest ws sp tick down next0 found" and tick: "if down then lowestTick \<le> tick else tick < highestTick"
    and r: "(next, initialized) = (if next0 < - 443636 then (- 443636, False) else if next0 > 443636 then (443636, False) else (next0, found))"
    and up: "if down then tick \<le> highestTick else lowestTick - 1 \<le> tick"
  shows "next_found ws sp tick down next initialized"
  using assms by (auto simp: nearest_def next_found_def split: if_splits)

lemma cached_nextTick_outcome:
  assumes env: "reader_calm env" and sp: "0 < uint (tick_spacing (pool s))" "uint (tick_spacing (pool s)) \<le> 443636"
    and tick: "if down then lowestTick \<le> tick \<and> tick \<le> highestTick else lowestTick - 1 \<le> tick \<and> tick < highestTick"
  shows "outcome (nextTick env tick down) (s, n)
    (\<lambda>(next, initialized) (s', n'). grown s s' \<and> next_found (words s') (uint (tick_spacing (pool s))) tick down next initialized) calm"
proof -
  let ?sp = "uint (tick_spacing (pool s))"
  let ?c = "start_bit tick down ?sp"
  let ?w = "drop_bit 8 ?c"
  let ?res = "\<lambda>bm. found_tick bm down ?w (?c AND 255) ?sp"
  let ?clamp = "\<lambda>r. case r of (next, found) \<Rightarrow> if next < - 443636 then (- 443636, False) else if next > 443636 then (443636, False) else (next, found)"
  have tick': "\<bar>tick\<bar> \<le> 2000000" using tick by (cases down) auto
  have i: "i32 ?sp = ?sp" "?sp \<noteq> 0" using sp by (simp_all add: i32_id)
  have run: "nextTick env tick down (s, n) = andthen (word_at env ?w) (\<lambda>bm. ret (?clamp (?res bm))) (s, n)"
    unfolding nextTick_def by (simp add: i start_bit_def Let_def case_prod_beta)
  have "outcome (andthen (word_at env ?w) (\<lambda>bm. ret (?clamp (?res bm)))) (s, n)
    (\<lambda>(next, initialized) (s', n'). grown s s' \<and> next_found (words s') ?sp tick down next initialized) calm"
    unfolding outcome_andthen
  proof (rule outcome_mono [OF word_at_outcome [OF env]])
    fix bm z
    assume "case z of (s', n') \<Rightarrow> words s' ?w = Some bm \<and> grown s s'"
    then obtain s' n' where z: "z = (s', n')" "words s' ?w = Some bm" "grown s s'" by (cases z) auto
    obtain nx ini where r: "?res bm = (nx, ini)" by (cases "?res bm")
    have "nearest (words s') ?sp tick down nx ini"
      using sp by (intro found_tick_nearest [where words = "words s'", OF _ _ tick' z(2) r]) simp_all
    then have "next_found (words s') ?sp tick down (fst (?clamp (nx, ini))) (snd (?clamp (nx, ini)))"
      by (rule nearest_clamped) (use tick in \<open>cases down; simp\<close>)+
    then show "outcome (ret (?clamp (?res bm))) z
        (\<lambda>(next, initialized) (s', n'). grown s s' \<and> next_found (words s') ?sp tick down next initialized) calm"
      using z r by (simp add: case_prod_beta)
  qed simp
  then show ?thesis unfolding outcome_def run .
qed

section \<open>The walk keeps the books\<close>

definition leg_ok :: "bool \<Rightarrow> bool \<Rightarrow> int \<Rightarrow> int \<Rightarrow> int \<Rightarrow> int \<Rightarrow> leg \<Rightarrow> bool" where
  "leg_ok down exact limit p0 amount m st \<longleftrightarrow>
     near_totals Q64 down exact p0 amount (at_price st) (to_fill st) (input_sum st - fee_sum st) (output_sum st) (fee_sum st) m
     \<and> 0 \<le> at_liq st \<and> at_liq st < 2 ^ 128 \<and> 0 \<le> protocol_sum st \<and> protocol_sum st \<le> fee_sum st
     \<and> (if down then limit \<le> at_price st else at_price st \<le> limit)"

definition leg_at :: "bool \<Rightarrow> int \<Rightarrow> leg \<Rightarrow> bool" where
  "leg_at down limit st \<longleftrightarrow> (at_price st \<noteq> limit \<longrightarrow>
     (if down then lowestTick \<le> at_tick st \<and> at_tick st \<le> highestTick \<and> sqrtAtTick (at_tick st) \<le> at_price st
      else lowestTick - 1 \<le> at_tick st \<and> at_tick st < highestTick \<and> at_price st \<le> sqrtAtTick (at_tick st + 1)))"

definition limit_ok :: "int \<Rightarrow> bool" where
  "limit_ok limit \<longleftrightarrow> sqrtAtTick lowestTick \<le> limit \<and> limit \<le> sqrtAtTick highestTick"

lemma sqrt_pos: "lowestTick \<le> t \<Longrightarrow> t \<le> highestTick \<Longrightarrow> 0 < sqrtAtTick t"
  using cetus_sqrt_le [of lowestTick t] by (simp add: cetus_sqrt_lowest)

lemma next_price_ok:
  assumes st: "leg_ok down exact limit p0 amount m st" "leg_at down limit st" and going: "at_price st \<noteq> limit" and lim: "limit_ok limit"
    and nf: "next_found ws sp (at_tick st) down next initialized"
  defines "t \<equiv> next_price down limit (sqrtAtTick next)"
  shows "0 < t" and "if down then t \<le> at_price st else at_price st \<le> t" and "if down then limit \<le> t else t \<le> limit"
proof -
  have b: "lowestTick \<le> next" "next \<le> highestTick" "if down then next \<le> at_tick st else at_tick st + 1 \<le> next"
    using nf by (auto simp: next_found_def)
  have pos: "0 < sqrtAtTick next" "0 < limit" using sqrt_pos [OF b(1,2)] lim by (simp_all add: limit_ok_def cetus_sqrt_lowest)
  have at: "if down then lowestTick \<le> at_tick st \<and> at_tick st \<le> highestTick \<and> sqrtAtTick (at_tick st) \<le> at_price st
      else lowestTick - 1 \<le> at_tick st \<and> at_tick st < highestTick \<and> at_price st \<le> sqrtAtTick (at_tick st + 1)"
    using st(2) going by (simp add: leg_at_def)
  have side: "if down then sqrtAtTick next \<le> at_price st else at_price st \<le> sqrtAtTick next"
  proof (cases down)
    case True
    then show ?thesis using at b cetus_sqrt_le [of "next" "at_tick st"] by simp
  next
    case False
    then show ?thesis using at b cetus_sqrt_le [of "at_tick st + 1" "next"] by simp
  qed
  then show "0 < t" "if down then t \<le> at_price st else at_price st \<le> t" "if down then limit \<le> t else t \<le> limit"
    using st(1) pos by (cases down; simp add: t_def next_price_def leg_ok_def)+
qed

lemma fee_share_le: "0 \<le> fee \<Longrightarrow> 0 \<le> p \<Longrightarrow> p \<le> 1000000 \<Longrightarrow> 0 \<le> fee * p div 1000000 \<and> fee * p div 1000000 \<le> (fee::int)"
proof -
  assume a: "0 \<le> fee" "0 \<le> p" "p \<le> 1000000"
  then have "fee * p \<le> fee * 1000000" by (intro mult_left_mono) simp_all
  then have "fee * p div 1000000 \<le> fee * 1000000 div 1000000" by (intro zdiv_mono1) simp_all
  then show ?thesis using a by (simp add: pos_imp_zdiv_nonneg_iff)
qed

lemma book_outcome:
  assumes tot: "near_totals Q64 down exact p0 amount q (if exact then r - (i + fee) else r - out) (tin + i) (tout + out) (tfee + fee) m"
    and st: "to_fill st = r" "input_sum st - fee_sum st = tin" "output_sum st = tout" "fee_sum st = tfee"
      "0 \<le> at_liq st" "at_liq st < 2 ^ 128" "0 \<le> protocol_sum st" "protocol_sum st \<le> fee_sum st"
    and fee: "0 \<le> fee" and share: "uint protocol \<le> 1000000"
    and q: "if down then limit \<le> q else q \<le> limit"
  shows "case book protocol exact (i, out, q, fee) st of Inl e \<Rightarrow> calm e
    | Inr st' \<Rightarrow> leg_ok down exact limit p0 amount m st' \<and> at_price st' = q \<and> at_tick st' = at_tick st"
proof -
  have s: "big_Quo (fee * uint protocol) 1000000 = Inr (fee * uint protocol div 1000000)"
    using fee by (intro big_Quo_pos) simp_all
  have b: "0 \<le> fee * uint protocol div 1000000" "fee * uint protocol div 1000000 \<le> fee"
    using fee_share_le [OF fee _ share] by simp_all
  show ?thesis
    using tot st b q by (cases exact) (auto simp: book_def s Let_def leg_ok_def algebra_simps)
qed

lemma cross_outcome:
  assumes env: "reader_calm env" and st: "leg_ok down exact limit p0 amount m st" and p: "at_price st = sqrtAtTick next"
    and b: "lowestTick \<le> next" "next \<le> highestTick" and lim: "limit_ok limit"
  shows "outcome (cross_boundary env down next initialized st) (s, n)
    (\<lambda>st' (s', n'). leg_ok down exact limit p0 amount m st' \<and> leg_at down limit st' \<and> grown s s') calm"
proof -
  have there: "leg_at down limit (st\<lparr>at_liq := l, at_tick := (if down then i32 (next - 1) else next)\<rparr>)" for l
  proof -
    have e: "i32 (next - 1) = next - 1" using b by simp
    have "if down then limit \<le> sqrtAtTick next else sqrtAtTick next \<le> limit" using st p by (auto simp: leg_ok_def split: if_splits)
    then have "sqrtAtTick next \<noteq> limit \<Longrightarrow> if down then next \<noteq> lowestTick else next \<noteq> highestTick"
      using lim by (auto simp: limit_ok_def split: if_splits)
    then show ?thesis
      using p b e cetus_sqrt_le [of "next - 1" "next"] cetus_sqrt_le [of "next" "next + 1"]
      by (cases down) (auto simp: leg_at_def)
  qed
  have ok: "leg_ok down exact limit p0 amount m (st\<lparr>at_liq := l, at_tick := t\<rparr>)" if "0 \<le> l" "l < 2 ^ 128" for l t
    using st that by (simp add: leg_ok_def)
  show ?thesis
  proof (cases initialized)
    case True
    let ?cross = "\<lambda>v. let l = (if down then at_liq st - v else at_liq st + v)
                in if l < 0 \<or> BitLen_gt l 128 then throw (Fail ''liquidity=out_of_range'') else ret l"
    let ?post = "\<lambda>st' (s', n'). leg_ok down exact limit p0 amount m st' \<and> leg_at down limit st' \<and> grown s s'"
    have "outcome (?cross v) z (\<lambda>l z'. ?post (st\<lparr>at_liq := l, at_tick := (if down then i32 (next - 1) else next)\<rparr>) z') calm"
      if "case z of (s', n') \<Rightarrow> grown s s'" for v z
      using that ok there unfolding Let_def by (cases z; cases down) (auto simp: BitLen_gt_def)
    then show ?thesis
      unfolding cross_boundary_def outcome_andthen using True
      by (auto intro!: outcome_mono [OF net_outcome [OF env]])
  next
    case False
    then show ?thesis using ok [of "at_liq st"] st there [of "at_liq st"] by (simp add: cross_boundary_def leg_ok_def outcome_def)
  qed
qed

text \<open>A venue of this cache: a step near the curve, in Q64 prices, for fees below one.\<close>

locale sui_venue = near_step slack Q64 cetus_fee step
  for slack :: int and step :: sui_step
begin

lemma turn_outcome:
  assumes st: "leg_ok down exact limit p0 amount m st" "leg_at down limit st" and going: "at_price st \<noteq> limit" and lim: "limit_ok limit"
    and nf: "next_found ws sp (at_tick st) down next initialized" and p0: "0 < p0" and fee: "cetus_fee fee" and share: "uint protocol \<le> 1000000"
  shows "outcome (andthen (lift (if at_liq st > 0 then step (at_price st) (next_price down limit (sqrtAtTick next)) (at_liq st) (to_fill st) fee down exact
                          else Inr (0, 0, next_price down limit (sqrtAtTick next), 0))) (\<lambda>result. lift (book protocol exact result st))) z
    (\<lambda>st' z'. z' = z \<and> leg_ok down exact limit p0 amount (m + slack) st' \<and> at_tick st' = at_tick st) calm"
proof -
  let ?t = "next_price down limit (sqrtAtTick next)"
  note t = next_price_ok [OF st going lim nf]
  have tot: "near_totals Q64 down exact p0 amount (at_price st) (to_fill st) (input_sum st - fee_sum st) (output_sum st) (fee_sum st) m"
    and l: "0 \<le> at_liq st" "at_liq st < 2 ^ 128" and pr: "0 \<le> protocol_sum st" "protocol_sum st \<le> fee_sum st"
    using st(1) by (simp_all add: leg_ok_def)
  have books: "case book protocol exact (i, out, q, f) st of Inl e \<Rightarrow> calm e
      | Inr st' \<Rightarrow> leg_ok down exact limit p0 amount (m + slack) st' \<and> at_tick st' = at_tick st"
    if n: "near_totals Q64 down exact p0 amount q (if exact then to_fill st - (i + f) else to_fill st - out)
        (input_sum st - fee_sum st + i) (output_sum st + out) (fee_sum st + f) (m + slack)"
      and f: "0 \<le> f" and q: "if down then limit \<le> q else q \<le> limit" for i out q f
    using book_outcome [OF n refl refl refl refl l pr f share q] by (auto split: sum.splits)
  show ?thesis
  proof (cases "at_liq st > 0")
    case False
    have "near_totals Q64 down exact p0 amount ?t (to_fill st) (input_sum st - fee_sum st) (output_sum st) (fee_sum st) m"
      by (rule near_totals_price [OF tot t(1,2)])
    then have "near_totals Q64 down exact p0 amount ?t (to_fill st) (input_sum st - fee_sum st) (output_sum st) (fee_sum st) (m + slack)"
      by (rule near_totals_weaken) (use slack in simp)
    then show ?thesis using False books [of ?t 0 0 0] t(3) by (cases exact) (auto simp: outcome_def split: sum.splits)
  next
    case True
    have pre: "step_pre (at_price st) ?t (at_liq st) (to_fill st) down"
      using t(1,2) l tot by (simp add: step_pre_def near_totals_def)
    show ?thesis
    proof (cases "step (at_price st) ?t (at_liq st) (to_fill st) fee down exact")
      case (Inl e)
      then show ?thesis using True calm [OF fee pre True, of exact] by (simp add: calm_res)
    next
      case (Inr r)
      obtain i out q f where r: "r = (i, out, q, f)" by (cases r)
      note n = near_totals_step [OF tot p0 fee pre True Inr [unfolded r]]
      have "if down then limit \<le> q else q \<le> limit" using n(3) t(3) by (auto simp: toward_def split: if_splits)
      from books [OF n(1,6) this] show ?thesis using True Inr r by (auto simp: outcome_def split: sum.splits)
    qed
  qed
qed

end

lemma outcome_then:
  "outcome (andthen m f) s Q E \<Longrightarrow> (\<And>x s'. Q x s' \<Longrightarrow> outcome (g x) s' P E) \<Longrightarrow> outcome (andthen m (\<lambda>r. andthen (f r) g)) s P E"
  by (fastforce simp: outcome_def andthen_def split: sum.splits prod.splits)

lemma leg_ok_weaken: "leg_ok down exact limit p0 amount m st \<Longrightarrow> m \<le> m' \<Longrightarrow> leg_ok down exact limit p0 amount m' st"
  unfolding leg_ok_def by (blast intro: near_totals_weaken)

context sui_venue begin

lemma walk_outcome:
  assumes env: "reader_calm env" and lim: "limit_ok limit" and p0: "0 < p0" and fee: "cetus_fee fee" and share: "uint protocol \<le> 1000000"
    and sp: "0 < uint (tick_spacing (pool s0))" "uint (tick_spacing (pool s0)) \<le> 443636"
  shows "grown s0 s \<Longrightarrow> leg_ok down exact limit p0 amount m st \<Longrightarrow> leg_at down limit st \<Longrightarrow>
    outcome (walk k env step dry fee protocol down exact limit st) (s, n)
      (\<lambda>st' (s', n'). leg_ok down exact limit p0 amount (m + slack * int k) st' \<and> grown s0 s') calm"
proof (induction k arbitrary: s n m st)
  case 0
  then show ?case using env by (auto simp: reader_calm_def outcome_def split: option.splits)
next
  case (Suc k)
  note ext = Suc.prems(1) and st = Suc.prems(2,3)
  let ?post = "\<lambda>m st' (s', n'). leg_ok down exact limit p0 amount m st' \<and> grown s0 s'"
  have le: "m \<le> m + slack * int (Suc k)" "m + slack \<le> m + slack * int (Suc k)" using slack by (simp_all add: algebra_simps)
  show ?case
  proof (cases "to_fill st > 0 \<and> at_price st \<noteq> limit")
    case False
    then show ?thesis using ext leg_ok_weaken [OF st(1) le(1)] by (simp only: walk.simps if_False if_True simp_thms outcome_basic) simp
  next
    case going: True
    show ?thesis
    proof (cases "ctx_err env (2048 - Suc k)")
      case (Some e)
      then show ?thesis using going env by (simp add: reader_calm_def outcome_def)
    next
      case None
      define rest where "rest = (\<lambda>(next, initialized).
        let boundary = sqrtAtTick next; target = next_price down limit boundary
        in andthen (lift (if at_liq st > 0 then step (at_price st) target (at_liq st) (to_fill st) fee down exact
                          else Inr (0, 0, target, 0))) (\<lambda>result.
           andthen (lift (book protocol exact result st)) (\<lambda>st.
           if at_price st = boundary then
             andthen (cross_boundary env down next initialized st) (\<lambda>st.
             if dry \<and> at_liq st = 0 then ret st
             else walk k env step dry fee protocol down exact limit st)
           else ret st)))"
      have run: "walk (Suc k) env step dry fee protocol down exact limit st = andthen (nextTick env (at_tick st) down) rest"
        using going None by (simp add: rest_def)
      have tick: "if down then lowestTick \<le> at_tick st \<and> at_tick st \<le> highestTick else lowestTick - 1 \<le> at_tick st \<and> at_tick st < highestTick"
        using st(2) going by (auto simp: leg_at_def split: if_splits)
      have sp': "0 < uint (tick_spacing (pool s))" "uint (tick_spacing (pool s)) \<le> 443636" using sp grown_pool [OF ext] by simp_all
      have "outcome (rest (next, initialized)) (s', n') (?post (m + slack * int (Suc k))) calm"
        if g: "grown s s'" and nf: "next_found (words s') (uint (tick_spacing (pool s))) (at_tick st) down next initialized"
        for "next" initialized s' n'
      proof -
        note g0 = grown_trans [OF ext g]
        have b: "lowestTick \<le> next" "next \<le> highestTick" using nf by (simp_all add: next_found_def)
        have tail: "outcome (if at_price st' = sqrtAtTick next then
             andthen (cross_boundary env down next initialized st') (\<lambda>st.
             if dry \<and> at_liq st = 0 then ret st
             else walk k env step dry fee protocol down exact limit st)
           else ret st') (s', n') (?post (m + slack * int (Suc k))) calm"
          if ok: "leg_ok down exact limit p0 amount (m + slack) st'" for st'
        proof (cases "at_price st' = sqrtAtTick next")
          case False
          then show ?thesis using leg_ok_weaken [OF ok le(2)] g0 by (simp add: outcome_def)
        next
          case True
          have "outcome (if dry \<and> at_liq st'' = 0 then ret st'' else walk k env step dry fee protocol down exact limit st'') z
              (?post (m + slack * int (Suc k))) calm"
            if "case z of (s'', n'') \<Rightarrow> leg_ok down exact limit p0 amount (m + slack) st'' \<and> leg_at down limit st'' \<and> grown s' s''" for st'' z
          proof -
            obtain s'' n'' where z: "z = (s'', n'')" by (cases z)
            have st'': "leg_ok down exact limit p0 amount (m + slack) st''" "leg_at down limit st''" "grown s0 s''"
              using that z grown_trans [OF g0] by auto
            show ?thesis
            proof (cases "dry \<and> at_liq st'' = 0")
              case True
              then show ?thesis using leg_ok_weaken [OF st''(1) le(2)] st''(3) z by (simp add: outcome_def)
            next
              case False
              have "m + slack + slack * int k = m + slack * int (Suc k)" by (simp add: algebra_simps)
              then show ?thesis using Suc.IH [OF st''(3,1,2)] False z by (simp only: if_False)
            qed
          qed
          then show ?thesis
            unfolding if_P [OF True] outcome_andthen by (rule outcome_mono [OF cross_outcome [OF env ok True b lim]])
        qed
        have p: "at_price st \<noteq> limit" using going by simp
        note t = turn_outcome [OF st p lim nf p0 fee share, where z = "(s', n')"]
        show ?thesis
          unfolding rest_def prod.case Let_def by (rule outcome_then [OF t]) (use tail in blast)
      qed
      then show ?thesis
        unfolding run outcome_andthen
        by (intro outcome_mono [OF cached_nextTick_outcome [OF env sp' tick]]) auto
    qed
  qed
qed

end

section \<open>Quotes are sound\<close>

text \<open>
  What a captured pool satisfies: the ranges that \<open>capturePool\<close> checks, and the tick that belongs to the price, as
  the pools on the chain keep it.
\<close>

definition cache_ok :: "quoteState \<Rightarrow> bool" where
  "cache_ok s \<longleftrightarrow> (let p = pool s in
     0 < uint (tick_spacing p) \<and> uint (tick_spacing p) \<le> 443636 \<and> rate p < 1000000 \<and> protocolRate s \<le> 1000000
     \<and> 0 \<le> liquidity p \<and> liquidity p < 2 ^ 128 \<and> - 443636 \<le> tick_index p \<and> tick_index p \<le> 443636
     \<and> sqrtAtTick (tick_index p) \<le> sqrt_price p
     \<and> (if tick_index p = 443636 then sqrt_price p = sqrtAtTick 443636 else sqrt_price p \<le> sqrtAtTick (tick_index p + 1)))"

lemma cache_okD:
  assumes "cache_ok s"
  shows "0 < uint (tick_spacing (pool s))" "uint (tick_spacing (pool s)) \<le> 443636" "cetus_fee (rate (pool s))"
    "uint (protocolRate s) \<le> 1000000" "0 < sqrt_price (pool s)"
proof -
  have "sqrtAtTick (tick_index (pool s)) \<le> sqrt_price (pool s)" "lowestTick \<le> tick_index (pool s)" "tick_index (pool s) \<le> highestTick"
    using assms by (simp_all add: cache_ok_def Let_def)
  then show "0 < sqrt_price (pool s)" using sqrt_pos [of "tick_index (pool s)"] by simp
qed (use assms in \<open>simp_all add: cache_ok_def Let_def cetus_fee_def word_le_def\<close>)

lemma start_leg_ok:
  assumes s: "cache_ok s" and a: "0 \<le> amount" and l: "\<not> limit_invalid s down limit"
  shows "leg_ok down exact (the limit) (sqrt_price (pool s)) amount 0 (start_leg s amount)"
    and "leg_at down (the limit) (start_leg s amount)" and "limit_ok (the limit)"
proof -
  have lim: "sqrtAtTick lowestTick \<le> the limit" "the limit \<le> sqrtAtTick highestTick"
    "if down then the limit < sqrt_price (pool s) else sqrt_price (pool s) < the limit"
    using l by (auto simp: limit_invalid_def not_le split: if_splits)
  then show "limit_ok (the limit)" by (simp add: limit_ok_def)
  show "leg_ok down exact (the limit) (sqrt_price (pool s)) amount 0 (start_leg s amount)"
    using lim(3) s cache_okD(5) [OF s] near_totals_start [OF cache_okD(5) [OF s] a]
    by (cases down) (simp_all add: leg_ok_def start_leg_def cache_ok_def Let_def)
  show "leg_at down (the limit) (start_leg s amount)"
    using lim s by (cases down) (auto simp: leg_at_def start_leg_def cache_ok_def Let_def split: if_splits)
qed

definition fill_ok :: "int \<Rightarrow> bool \<Rightarrow> bool \<Rightarrow> int \<Rightarrow> int \<Rightarrow> int \<Rightarrow> leg \<Rightarrow> bool" where
  "fill_ok slack down exact limit p0 amount st \<longleftrightarrow>
     (let i = input_sum st - fee_sum st in
      0 \<le> i \<and> 0 < output_sum st \<and> IsUint64 (input_sum st) \<and> IsUint64 (output_sum st) \<and> IsUint64 (fee_sum st)
      \<and> 0 \<le> protocol_sum st \<and> protocol_sum st \<le> fee_sum st
      \<and> (if exact then input_sum st = amount else output_sum st = amount)
      \<and> (if down then output_sum st * (2 ^ 64)\<^sup>2 \<le> (i + 1024 * slack) * p0\<^sup>2 \<and> limit \<le> at_price st \<and> at_price st \<le> p0
          else output_sum st * p0\<^sup>2 \<le> (i + 1024 * slack) * (2 ^ 64)\<^sup>2 \<and> p0 \<le> at_price st \<and> at_price st \<le> limit))"

lemma filled_ok:
  assumes "leg_ok down exact limit p0 amount (2048 * slack) st"
  shows "case filled st of Inl e \<Rightarrow> calm e | Inr st' \<Rightarrow> st' = st \<and> fill_ok slack down exact limit p0 amount st"
proof -
  have e: "2 * (input_sum st - fee_sum st) + 2048 * slack = 2 * (input_sum st - fee_sum st + 1024 * slack)" by simp
  show ?thesis
    using assms by (auto simp: filled_def leg_ok_def near_totals_def fair_def fill_ok_def Let_def e IsUint64_def algebra_simps
        split: if_splits)
qed

context sui_venue begin

lemma fill_outcome:
  assumes s: "cache_ok s" and env: "reader_calm env" and a: "0 \<le> amount" and l: "\<not> limit_invalid s down limit"
    and share: "uint protocol \<le> 1000000"
  shows "outcome (andthen (walk 2048 env step dry (rate (pool s)) protocol down exact (the limit) (start_leg s amount))
      (\<lambda>st. lift (filled st))) (s, n)
    (\<lambda>st (s', n'). fill_ok slack down exact (the limit) (sqrt_price (pool s)) amount st \<and> grown s s') calm"
proof -
  note st = start_leg_ok [OF s a l]
  have "outcome (walk 2048 env step dry (rate (pool s)) protocol down exact (the limit) (start_leg s amount)) (s, n)
      (\<lambda>st' (s', n'). leg_ok down exact (the limit) (sqrt_price (pool s)) amount (0 + slack * int 2048) st' \<and> grown s s') calm"
    by (rule walk_outcome [OF env st(3) cache_okD(5) [OF s] cache_okD(3) [OF s] share cache_okD(1,2) [OF s] grown_refl st(1,2)])
  moreover have "outcome (lift (filled st')) z
      (\<lambda>st (s', n'). fill_ok slack down exact (the limit) (sqrt_price (pool s)) amount st \<and> grown s s') calm"
    if "case z of (s', n') \<Rightarrow> leg_ok down exact (the limit) (sqrt_price (pool s)) amount (0 + slack * int 2048) st' \<and> grown s s'" for st' z
  proof -
    have ok: "leg_ok down exact (the limit) (sqrt_price (pool s)) amount (2048 * slack) st'" using that by (cases z) (simp add: mult.commute)
    show ?thesis using filled_ok [OF ok] that by (cases z) (auto simp: outcome_lift split: sum.splits)
  qed
  ultimately show ?thesis unfolding outcome_andthen by (rule outcome_mono)
qed

end

interpretation turbos_venue: sui_venue 1 turbos_localStep by unfold_locales
interpretation momentum_venue: sui_venue 0 momentum_localStep by unfold_locales
interpretation bluefin_venue: sui_venue 0 bluefin_localStep by unfold_locales

lemma u64_of_uint [simp]: "u64_of (uint a) = a"
  by (simp add: u64_of_def)

lemma ret_outcome:
  "outcome m z P E \<Longrightarrow> case andthen m (\<lambda>x. ret (g x)) z of (Inl e, _) \<Rightarrow> E e | (Inr q, z') \<Rightarrow> \<exists>x. q = g x \<and> P x z'"
  by (auto simp: outcome_def andthen_def split: sum.splits prod.splits)

text \<open>The sums of a filled quote as the words that the result reports.\<close>

lemma fill_ok_words:
  assumes "fill_ok slack down exact limit p0 amount st"
  shows "uint (u64_of (input_sum st)) = input_sum st" "uint (u64_of (output_sum st)) = output_sum st"
    "uint (u64_of (fee_sum st)) = fee_sum st" "uint (u64_of (protocol_sum st)) = protocol_sum st"
    "uint (u64_of (fee_sum st - protocol_sum st)) = fee_sum st - protocol_sum st"
  using assms by (auto simp: fill_ok_def Let_def IsUint64_def intro!: uint_u64_of)

context sui_venue begin

lemma venue_quote:
  assumes "cache_ok s" and "reader_calm env" and "0 \<le> amount" and "\<not> limit_invalid s down limit" and "uint protocol \<le> 1000000"
  shows "case andthen (walk 2048 env step dry (rate (pool s)) protocol down exact (the limit) (start_leg s amount))
      (\<lambda>st. andthen (lift (filled st)) (\<lambda>st. ret (g st))) (s, n) of
      (Inl e, _) \<Rightarrow> calm e
    | (Inr x, (s', _)) \<Rightarrow> \<exists>st. x = g st \<and> fill_ok slack down exact (the limit) (sqrt_price (pool s)) amount st \<and> grown s s'"
  using ret_outcome [OF fill_outcome [where n = n and dry = dry and exact = exact, OF assms], of g]
  by (auto simp: andthen_def split: sum.splits prod.splits)

end

lemma turbos_quote_spec:
  assumes "cache_ok s" and "reader_calm env"
  shows "case turbos_quote env amount down exact limit (s, n) of
      (Inl e, _) \<Rightarrow> \<not> panics (Inl e :: unit res)
    | (Inr q, (s', _)) \<Rightarrow>
        (let i = tq_in q - uint (tq_fee q); p0 = sqrt_price (pool s) in
         0 \<le> i \<and> 0 < tq_out q \<and> (if exact then tq_in q else tq_out q) = the amount \<and> tq_protocol q \<le> tq_fee q
         \<and> (if down then tq_out q * (2 ^ 64)\<^sup>2 \<le> (i + 1024) * p0\<^sup>2 \<and> the limit \<le> tq_after q \<and> tq_after q \<le> p0
             else tq_out q * p0\<^sup>2 \<le> (i + 1024) * (2 ^ 64)\<^sup>2 \<and> p0 \<le> tq_after q \<and> tq_after q \<le> the limit)
         \<and> pool s' = pool s \<and> words s \<subseteq>\<^sub>m words s' \<and> nets s \<subseteq>\<^sub>m nets s')"
proof (cases "\<not> validU128 amount \<or> \<not> IsUint64 (the amount) \<or> limit_invalid s down limit")
  case True
  then show ?thesis by (auto simp: turbos_quote_def)
next
  case False
  let ?q = "\<lambda>st. \<lparr>tq_in = input_sum st, tq_out = output_sum st, tq_fee = u64_of (fee_sum st), tq_protocol = u64_of (protocol_sum st), tq_after = at_price st\<rparr>"
  have a: "0 \<le> the amount" and l: "\<not> limit_invalid s down limit" and p: "uint (protocolRate s) \<le> 1000000" using False assms(1) by (simp_all add: IsUint64_def cache_okD)
  obtain q s' n' where Q: "turbos_quote env amount down exact limit (s, n) = (q, (s', n'))" by (metis prod.exhaust)
  have r: "case q of Inl e \<Rightarrow> calm e
      | Inr x \<Rightarrow> \<exists>st. x = ?q st \<and> fill_ok 1 down exact (the limit) (sqrt_price (pool s)) (the amount) st \<and> grown s s'"
    using turbos_venue.venue_quote [where dry = True and exact = exact and n = n and g = ?q, OF assms a l p] Q False
    by (simp add: turbos_quote_def split: sum.splits)
  show ?thesis
  proof (cases q)
    case (Inl e)
    then show ?thesis using r Q by (simp add: calm_res)
  next
    case (Inr x)
    then obtain st where st: "x = ?q st" "fill_ok 1 down exact (the limit) (sqrt_price (pool s)) (the amount) st" "grown s s'" using r by auto
    show ?thesis
      using st(2,3) fill_ok_words [OF st(2)] grown_pool [OF st(3)]
      by (auto simp: Q Inr st(1) fill_ok_def Let_def word_le_def grown_def split: if_splits)
  qed
qed


text \<open>
  Momentum's cached quote, whatever the reader answers: it never divides by zero or follows nil. A quote consumes
  exactly the amount, pays something, keeps the price between the limit and the start, and what is paid without the
  fee is never worth less than what is received at the start price, although fees are rounded to the nearest unit.
\<close>

lemma momentum_quote_sound:
  assumes "cache_ok s" and "reader_calm env"
  shows "case momentum_quote env amount down exact limit (s, n) of
      (Inl e, _) \<Rightarrow> \<not> panics (Inl e :: unit res)
    | (Inr q, (s', _)) \<Rightarrow>
        (let i = uint (mq_in q) - uint (mq_fee q); out = uint (mq_out q); p0 = sqrt_price (pool s) in
         0 \<le> i \<and> 0 < out \<and> (if exact then mq_in q else mq_out q) = amount
         \<and> (if down then out * (2 ^ 64)\<^sup>2 \<le> i * p0\<^sup>2 \<and> the limit \<le> mq_after q \<and> mq_after q \<le> p0
             else out * p0\<^sup>2 \<le> i * (2 ^ 64)\<^sup>2 \<and> p0 \<le> mq_after q \<and> mq_after q \<le> the limit)
         \<and> pool s' = pool s \<and> words s \<subseteq>\<^sub>m words s' \<and> nets s \<subseteq>\<^sub>m nets s')"
proof (cases "amount = 0 \<or> limit_invalid s down limit")
  case True
  then show ?thesis by (auto simp: momentum_quote_def)
next
  case False
  let ?q = "\<lambda>st. \<lparr>mq_fee = u64_of (fee_sum st), mq_after = at_price st, mq_in = u64_of (input_sum st), mq_out = u64_of (output_sum st)\<rparr>"
  have a: "0 \<le> uint amount" and l: "\<not> limit_invalid s down limit" and p: "uint (0::u64) \<le> 1000000" using False assms(1) by (simp_all add: IsUint64_def cache_okD)
  obtain q s' n' where Q: "momentum_quote env amount down exact limit (s, n) = (q, (s', n'))" by (metis prod.exhaust)
  have r: "case q of Inl e \<Rightarrow> calm e
      | Inr x \<Rightarrow> \<exists>st. x = ?q st \<and> fill_ok 0 down exact (the limit) (sqrt_price (pool s)) (uint amount) st \<and> grown s s'"
    using momentum_venue.venue_quote [where dry = False and exact = exact and n = n and g = ?q, OF assms a l p] Q False
    by (simp add: momentum_quote_def split: sum.splits)
  show ?thesis
  proof (cases q)
    case (Inl e)
    then show ?thesis using r Q by (simp add: calm_res)
  next
    case (Inr x)
    then obtain st where st: "x = ?q st" "fill_ok 0 down exact (the limit) (sqrt_price (pool s)) (uint amount) st" "grown s s'" using r by auto
    show ?thesis
      using st(2,3) fill_ok_words [OF st(2)] grown_pool [OF st(3)]
      by (auto simp: Q Inr st(1) fill_ok_def Let_def word_le_def grown_def split: if_splits)
  qed
qed

text \<open>
  Bluefin's cached quote, whatever the reader answers: it never divides by zero or follows nil. A quote consumes
  exactly the amount, pays something, keeps the price between the limit and the start, and what is paid without fee
  and protocol share, which are reported separately, is never worth less than what is received at the start price.
\<close>

lemma bluefin_quote_sound:
  assumes "cache_ok s" and "reader_calm env"
  shows "case bluefin_quote env amount down exact limit (s, n) of
      (Inl e, _) \<Rightarrow> \<not> panics (Inl e :: unit res)
    | (Inr q, (s', _)) \<Rightarrow>
        (let i = uint (bq_in q) - uint (bq_fee q) - uint (bq_protocol q); out = uint (bq_out q); p0 = sqrt_price (pool s) in
         0 \<le> i \<and> 0 < out \<and> (if exact then bq_in q else bq_out q) = amount
         \<and> (if down then out * (2 ^ 64)\<^sup>2 \<le> i * p0\<^sup>2 \<and> the limit \<le> bq_after q \<and> bq_after q \<le> p0
             else out * p0\<^sup>2 \<le> i * (2 ^ 64)\<^sup>2 \<and> p0 \<le> bq_after q \<and> bq_after q \<le> the limit)
         \<and> pool s' = pool s \<and> words s \<subseteq>\<^sub>m words s' \<and> nets s \<subseteq>\<^sub>m nets s')"
proof (cases "amount = 0 \<or> limit_invalid s down limit")
  case True
  then show ?thesis by (auto simp: bluefin_quote_def)
next
  case False
  let ?q = "\<lambda>st. \<lparr>bq_in = u64_of (input_sum st), bq_out = u64_of (output_sum st), bq_protocol = u64_of (protocol_sum st),
       bq_fee = u64_of (fee_sum st - protocol_sum st), bq_after = at_price st\<rparr>"
  have a: "0 \<le> uint amount" and l: "\<not> limit_invalid s down limit" and p: "uint (protocolRate s) \<le> 1000000" using False assms(1) by (simp_all add: IsUint64_def cache_okD)
  obtain q s' n' where Q: "bluefin_quote env amount down exact limit (s, n) = (q, (s', n'))" by (metis prod.exhaust)
  have r: "case q of Inl e \<Rightarrow> calm e
      | Inr x \<Rightarrow> \<exists>st. x = ?q st \<and> fill_ok 0 down exact (the limit) (sqrt_price (pool s)) (uint amount) st \<and> grown s s'"
    using bluefin_venue.venue_quote [where dry = False and exact = exact and n = n and g = ?q, OF assms a l p] Q False
    by (simp add: bluefin_quote_def split: sum.splits)
  show ?thesis
  proof (cases q)
    case (Inl e)
    then show ?thesis using r Q by (simp add: calm_res)
  next
    case (Inr x)
    then obtain st where st: "x = ?q st" "fill_ok 0 down exact (the limit) (sqrt_price (pool s)) (uint amount) st" "grown s s'" using r by auto
    show ?thesis
      using st(2,3) fill_ok_words [OF st(2)] grown_pool [OF st(3)]
      by (auto simp: Q Inr st(1) fill_ok_def Let_def word_le_def grown_def split: if_splits)
  qed
qed

section \<open>Retained states quote offline\<close>

text \<open>
  \<open>offline s m m'\<close>: on the state \<open>s\<close>, \<open>m\<close> and \<open>m'\<close> give the same result for any number of reads made before, make no
  read and leave the state as it is.
\<close>

definition offline :: "quoteState \<Rightarrow> 'a cache_proc \<Rightarrow> 'a cache_proc \<Rightarrow> bool" where
  "offline s m m' \<longleftrightarrow> (\<exists>r. \<forall>n. m (s, n) = (r, (s, n)) \<and> m' (s, n) = (r, (s, n)))"

lemma offline_basic [intro!]: "offline s (ret x) (ret x)" "offline s (throw e) (throw e)" "offline s (lift r) (lift r)"
  by (auto simp: offline_def)

lemma offline_andthen:
  assumes m: "offline s m m'" and f: "\<And>x. offline s (f x) (f' x)"
  shows "offline s (andthen m f) (andthen m' f')"
proof -
  obtain r where r: "\<forall>n. m (s, n) = (r, (s, n)) \<and> m' (s, n) = (r, (s, n))" using m by (auto simp: offline_def)
  show ?thesis
  proof (cases r)
    case (Inl e)
    then show ?thesis using r by (auto simp: offline_def andthen_def)
  next
    case (Inr x)
    then show ?thesis using r f [of x] by (auto simp: offline_def andthen_def)
  qed
qed

lemma offline_if: "(c \<Longrightarrow> offline s m m') \<Longrightarrow> (\<not> c \<Longrightarrow> offline s n n') \<Longrightarrow> offline s (if c then m else n) (if c then m' else n')"
  by simp

lemma offline_prod: "(\<And>x y. offline s (f x y) (f' x y)) \<Longrightarrow> offline s (case z of (x, y) \<Rightarrow> f x y) (case z of (x, y) \<Rightarrow> f' x y)"
  by (cases z) simp

lemma offline_start: "(\<And>s'. s' = s \<Longrightarrow> offline s (f s') (f' s')) \<Longrightarrow> offline s (reading (\<lambda>(s, n). f s)) (reading (\<lambda>(s, n). f' s))"
  by (simp add: offline_def)

lemma field_offline: "retainedOnly s \<Longrightarrow> offline s (field env p i) (field env' p i)"
  by (auto simp: offline_def field_def)

lemma word_at_offline: "retainedOnly s \<Longrightarrow> offline s (word_at env w) (word_at env' w)"
  by (cases "words s w") (auto simp: offline_def word_at_def andthen_def field_def)

lemma net_offline: "retainedOnly s \<Longrightarrow> offline s (net env t) (net env' t)"
  by (cases "nets s t") (auto simp: offline_def net_def andthen_def field_def)

lemma nextTick_offline: "retainedOnly s \<Longrightarrow> offline s (nextTick env t d) (nextTick env' t d)"
  unfolding nextTick_def Let_def
  by (intro offline_start offline_if offline_andthen offline_prod offline_basic word_at_offline)

lemma cross_boundary_offline: "retainedOnly s \<Longrightarrow> offline s (cross_boundary env d t i st) (cross_boundary env' d t i st)"
  unfolding cross_boundary_def Let_def by (intro offline_andthen offline_if offline_basic net_offline)

lemma walk_offline:
  assumes "retainedOnly s" and "ctx_err env' = ctx_err env"
  shows "offline s (walk k env step dry fee protocol down exact limit st) (walk k env' step dry fee protocol down exact limit st)"
proof (induction k arbitrary: st)
  case 0
  show ?case unfolding walk.simps assms(2) by (cases "ctx_err env 2048") (auto intro: offline_if)
next
  case (Suc k)
  show ?case
  proof (cases "ctx_err env (2048 - Suc k)")
    case None
    then show ?thesis
      unfolding walk.simps Let_def assms(2) None option.case
      by (intro offline_if offline_prod offline_andthen offline_basic nextTick_offline cross_boundary_offline Suc.IH assms(1))
  next
    case (Some e)
    then show ?thesis unfolding walk.simps assms(2) Some option.case by (intro offline_if offline_basic)
  qed
qed

text \<open>
  Quotes on a retained state are calculations: whatever the reader would answer, and however many reads were made
  before, the result is the same, no read is made, and the state stays as it is.
\<close>

lemma retained_quotes_offline:
  assumes "retainedOnly s" and "ctx_err env' = ctx_err env"
  shows "\<exists>t m b. \<forall>n. turbos_quote env amount down exact limit (s, n) = (t, (s, n)) \<and> turbos_quote env' amount down exact limit (s, n) = (t, (s, n))
     \<and> momentum_quote env a down exact limit (s, n) = (m, (s, n)) \<and> momentum_quote env' a down exact limit (s, n) = (m, (s, n))
     \<and> bluefin_quote env a down exact limit (s, n) = (b, (s, n)) \<and> bluefin_quote env' a down exact limit (s, n) = (b, (s, n))"
proof -
  note w = walk_offline [OF assms]
  have "offline s (turbos_quote env amount down exact limit) (turbos_quote env' amount down exact limit)"
    unfolding turbos_quote_def by (intro offline_start offline_if offline_andthen offline_basic w)
  moreover have "offline s (momentum_quote env a down exact limit) (momentum_quote env' a down exact limit)"
    unfolding momentum_quote_def by (intro offline_start offline_if offline_andthen offline_basic w)
  moreover have "offline s (bluefin_quote env a down exact limit) (bluefin_quote env' a down exact limit)"
    unfolding bluefin_quote_def by (intro offline_start offline_if offline_andthen offline_basic w)
  ultimately show ?thesis unfolding offline_def by blast
qed

definition sample_sui :: quoteState where
  "sample_sui = \<lparr>position = None, received = 0, retainedOnly = True,
     pool = \<lparr>coin_types = [], sqrt_price = 2 ^ 64, liquidity = 10 ^ 12, tick_index = 0, tick_spacing = 60, rate = 3000, unlocked = True\<rparr>,
     version = 7, state_digest = [], checkpoint = 5, captured = 0, bitmap_id = zero_address, ticks_id = zero_address, keyType = [],
     protocolRate = 200000, words = [0 \<mapsto> 2, - 1 \<mapsto> 2 ^ 255], nets = [60 \<mapsto> - 400000000000, - 60 \<mapsto> 400000000000]\<rparr>"

definition sample_reader :: Reader where
  "sample_reader = \<lparr>DynamicValues = (\<lambda>n p c ks. Inl (Fail ''transport'')), ctx_err = (\<lambda>n. None)\<rparr>"

lemma sample_sui_ok: "cache_ok sample_sui" "reader_calm sample_reader" "retainedOnly sample_sui"
proof -
  show "cache_ok sample_sui" by code_simp
  show "reader_calm sample_reader" by (simp add: reader_calm_def sample_reader_def)
  show "retainedOnly sample_sui" by (simp add: sample_sui_def)
qed


lemma momentum_quote_sound_witness:
  "case momentum_quote sample_reader 1000000 False True (Some (2 ^ 65)) (sample_sui, 0) of (Inl e, _) \<Rightarrow> False
    | (Inr q, (s', _)) \<Rightarrow> 2 ^ 64 < mq_after q \<and> mq_after q \<le> 2 ^ 65 \<and> mq_in q = 1000000 \<and> 0 < mq_out q \<and> pool s' = pool sample_sui"
proof -
  have "case momentum_quote sample_reader 1000000 False True (Some (2 ^ 65)) (sample_sui, 0) of (Inl e, _) \<Rightarrow> False | (Inr q, _) \<Rightarrow> 2 ^ 64 < mq_after q" by code_simp
  then show ?thesis
    using momentum_quote_sound [where amount = "1000000" and down = False and exact = True and limit = "Some (2 ^ 65)" and n = 0, OF sample_sui_ok(1,2)]
    by (auto simp: Let_def split: prod.splits sum.splits) (simp add: word_less_def)
qed

lemma bluefin_quote_sound_witness:
  "case bluefin_quote sample_reader 1000000 False True (Some (2 ^ 65)) (sample_sui, 0) of (Inl e, _) \<Rightarrow> False
    | (Inr q, (s', _)) \<Rightarrow> 2 ^ 64 < bq_after q \<and> bq_after q \<le> 2 ^ 65 \<and> bq_in q = 1000000 \<and> 0 < bq_out q \<and> pool s' = pool sample_sui"
proof -
  have "case bluefin_quote sample_reader 1000000 False True (Some (2 ^ 65)) (sample_sui, 0) of (Inl e, _) \<Rightarrow> False | (Inr q, _) \<Rightarrow> 2 ^ 64 < bq_after q" by code_simp
  then show ?thesis
    using bluefin_quote_sound [where amount = "1000000" and down = False and exact = True and limit = "Some (2 ^ 65)" and n = 0, OF sample_sui_ok(1,2)]
    by (auto simp: Let_def split: prod.splits sum.splits) (simp add: word_less_def)
qed

lemma retained_quotes_offline_witness:
  "\<exists>t m b. \<forall>n. turbos_quote sample_reader (Some 5000000000) False True (Some (sqrtAtTick 200)) (sample_sui, n) = (t, (sample_sui, n))
     \<and> momentum_quote sample_reader 5000000000 False True (Some (sqrtAtTick 200)) (sample_sui, n) = (m, (sample_sui, n))
     \<and> bluefin_quote sample_reader 5000000000 False True (Some (sqrtAtTick 200)) (sample_sui, n) = (b, (sample_sui, n))"
  using retained_quotes_offline [OF sample_sui_ok(3) refl [of "ctx_err sample_reader"], where amount = "Some 5000000000"
      and a = 5000000000 and down = False and exact = True and limit = "Some (sqrtAtTick 200)"]
  by blast

end
