(* ===== verification/Sui_Window.thy ===== *)
theory Sui_Window
  imports Sui_Cache
begin

text \<open>
  \<open>go/internal/suiwindow\<close>: the window of three bitmap words around the current tick that the retained states of the
  Sui venues keep (\<open>window.go\<close>), the progress of a live subscription (\<open>observation.go\<close>), and the loop that applies
  live updates while a replacement of the window is captured (\<open>producer.go\<close>).

  \<open>Read\<close> fetches the ticks in batches of 32. The batches are read one after the other here, and the context is asked
  by the number of reads made so far; that two workers give the same answers in the same order is the subject of
  \<open>Tick_Batch\<close>.
\<close>

section \<open>The window\<close>

definition window_words :: "int \<Rightarrow> int \<Rightarrow> int list" where
  "window_words tick sp =
     (let center = Word tick sp
      in filter (\<lambda>w. Word (- 443636) sp \<le> w \<and> w \<le> Word 443636 sp) [center - 1, center, center + 1])"

definition word_index :: "int \<Rightarrow> int \<Rightarrow> nat \<Rightarrow> int" where
  "word_index sp w b = i32 (i32 (i32 (w * 256) + int b) * sp)"

text \<open>The initialized ticks of a word, in ascending order.\<close>

definition word_ticks :: "int \<Rightarrow> int \<Rightarrow> int \<Rightarrow> int list" where
  "word_ticks sp w bits =
     List.map (word_index sp w)
       (filter (\<lambda>b. bit bits b \<and> - 443636 \<le> word_index sp w b \<and> word_index sp w b \<le> 443636) [0..<256])"

definition Missing :: "int \<Rightarrow> int \<Rightarrow> (int \<rightharpoonup> int) \<Rightarrow> (int \<rightharpoonup> int) \<Rightarrow> bool res" where
  "Missing tick sp ws ns =
     (if sp = 0 then Inl (Panic ''division by zero'')
      else Inr (list_ex (\<lambda>w. case ws w of None \<Rightarrow> True
                            | Some bits \<Rightarrow> list_ex (\<lambda>i. ns i = None) (word_ticks sp w bits))
                 (window_words tick sp)))"

section \<open>Reading a window\<close>

definition alive :: "Reader \<Rightarrow> (nat, unit) proc" where
  "alive env = reading (\<lambda>n. case ctx_err env n of Some e \<Rightarrow> throw e | None \<Rightarrow> ret ())"

definition read_fields :: "Reader \<Rightarrow> Address \<Rightarrow> u64 \<Rightarrow> string \<Rightarrow> int list \<Rightarrow> (nat, raw list) proc" where
  "read_fields env parent cp key indexes =
     andthen (alive env) (\<lambda>_.
     reading (\<lambda>n.
       andthen (update Suc) (\<lambda>_.
       andthen (lift (DynamicValues env n parent cp (List.map (\<lambda>i. (key, index_key i)) indexes))) (\<lambda>vals.
       if length vals \<noteq> length indexes then throw (Fail ''values=invalid'') else ret vals))))"

text \<open>The words read, with the initialized ticks of all of them.\<close>

fun decode_words :: "int \<Rightarrow> (int \<times> raw) list \<Rightarrow> ((int \<rightharpoonup> int) \<times> int list) res" where
  "decode_words sp [] = Inr (Map.empty, [])"
| "decode_words sp ((w, value) # rest) =
     ebind (word_value value) (\<lambda>bits.
     ebind (decode_words sp rest) (\<lambda>(ws, ticks).
     Inr (ws(w \<mapsto> bits), word_ticks sp w bits @ ticks)))"

fun chunks :: "nat \<Rightarrow> 'a list \<Rightarrow> 'a list list" where
  "chunks k xs = (if xs = [] \<or> k = 0 then [] else take k xs # chunks k (drop k xs))"

declare chunks.simps [simp del]

fun read_batches :: "Reader \<Rightarrow> Address \<Rightarrow> u64 \<Rightarrow> string \<Rightarrow> int list list \<Rightarrow> (nat, raw list) proc" where
  "read_batches env parent cp key [] = andthen (alive env) (\<lambda>_. ret [])"
| "read_batches env parent cp key (c # cs) =
     andthen (read_fields env parent cp key c) (\<lambda>vals.
     andthen (read_batches env parent cp key cs) (\<lambda>rest. ret (vals @ rest)))"

fun decode_nets :: "(int \<times> raw) list \<Rightarrow> (int \<rightharpoonup> int) res" where
  "decode_nets [] = Inr Map.empty"
| "decode_nets ((i, value) # rest) =
     ebind (net_value value) (\<lambda>v. ebind (decode_nets rest) (\<lambda>m. Inr (if m i = None then m(i \<mapsto> v) else m)))"

definition Read :: "Reader \<Rightarrow> u64 \<Rightarrow> Address \<Rightarrow> Address \<Rightarrow> string \<Rightarrow> int \<Rightarrow> int \<Rightarrow> (nat, (int \<rightharpoonup> int) \<times> (int \<rightharpoonup> int)) proc" where
  "Read env cp bitmap ticks key tick sp =
     (if sp \<le> 0 \<or> sp > 443636 \<or> tick < - 443636 \<or> tick > 443636 then throw (Fail ''parameters=invalid'')
      else
        (let indexes = window_words tick sp
         in andthen (read_fields env bitmap cp key indexes) (\<lambda>vals.
            andthen (lift (decode_words sp (zip indexes vals))) (\<lambda>(ws, initialized).
            andthen (read_batches env ticks cp key (chunks 32 initialized)) (\<lambda>nvals.
            andthen (lift (decode_nets (zip initialized nvals))) (\<lambda>nts.
            andthen (alive env) (\<lambda>_. ret (ws, nts))))))))"

section \<open>What a window holds\<close>

text \<open>For evaluation: the bits of a word by halving it, and only the set ones are turned into ticks.\<close>

fun low_bits :: "nat \<Rightarrow> nat \<Rightarrow> int \<Rightarrow> nat list" where
  "low_bits 0 k bits = []"
| "low_bits (Suc n) k bits =
     (if bits = 0 then [] else if odd bits then k # low_bits n (Suc k) (bits div 2) else low_bits n (Suc k) (bits div 2))"

lemma low_bits: "filter (\<lambda>b. bit bits (b - k)) [k..<k + n] = low_bits n k bits"
proof (induction n arbitrary: k bits)
  case (Suc n)
  have "filter (\<lambda>b. bit bits (b - k)) [Suc k..<Suc k + n] = filter (\<lambda>b. bit (bits div 2) (b - Suc k)) [Suc k..<Suc k + n]"
  proof (rule filter_cong [OF refl])
    fix b
    assume "b \<in> set [Suc k..<Suc k + n]"
    then have "b - k = Suc (b - Suc k)" by auto
    then show "bit bits (b - k) = bit (bits div 2) (b - Suc k)" by (simp only: bit_Suc)
  qed
  moreover have "[k..<k + Suc n] = k # [Suc k..<Suc k + n]" by (simp add: upt_conv_Cons)
  ultimately show ?case using Suc [of "bits div 2" "Suc k"] by (simp add: bit_0)
qed simp

lemma word_ticks_code [code]:
  "word_ticks sp w bits =
     filter (\<lambda>x. - 443636 \<le> x \<and> x \<le> 443636) (List.map (word_index sp w) (low_bits 256 0 bits))"
proof -
  have "filter (bit bits) [0..<256] = low_bits 256 0 bits" using low_bits [of bits 0 256] by simp
  then show ?thesis unfolding word_ticks_def filter_map by (simp flip: filter_filter add: comp_def conj_commute)
qed

lemma Word_eq: "0 < sp \<Longrightarrow> Word tick sp = tick div sp div 256"
  by (simp add: Word_def go_floor_div_eq bitmap_position)

definition spacing_ok :: "int \<Rightarrow> bool" where
  "spacing_ok sp \<longleftrightarrow> 0 < sp \<and> sp \<le> 443636"

lemma word_index_eq:
  assumes sp: "spacing_ok sp" and w: "Word (- 443636) sp \<le> w" "w \<le> Word 443636 sp" and b: "b < 256"
  shows "word_index sp w b = (w * 256 + int b) * sp"
proof -
  have p: "0 < sp" "sp \<le> 443636" using sp by (simp_all add: spacing_ok_def)
  have hi: "w * 256 \<le> 443636 div sp" using w(2) p by (simp add: Word_eq)
  have lo: "- 443636 div sp < (w + 1) * 256"
  proof -
    have "- 443636 div sp < (- 443636 div sp div 256 + 1) * 256" by (rule less_div_mult) simp
    also have "\<dots> \<le> (w + 1) * 256" using w(1) p by (intro mult_right_mono) (simp_all add: Word_eq)
    finally show ?thesis .
  qed
  have q: "443636 div sp * sp \<le> 443636" "- 443636 < (- 443636 div sp + 1) * sp" "443636 div sp \<le> 443636"
    "- 443636 \<le> - 443636 div sp"
    using p div_mult_le [OF p(1), of 443636] less_div_mult [OF p(1), of "- 443636"]
      zdiv_mono2 [of 443636 1 sp] zdiv_mono2_neg [of "- 443636" 1 sp]
    by simp_all
  have upper: "(w * 256 + int b) * sp \<le> 443636 + 255 * 443636"
  proof -
    have "(w * 256 + int b) * sp \<le> (443636 div sp + 255) * sp" using hi b p by (intro mult_right_mono) simp_all
    also have "\<dots> = 443636 div sp * sp + 255 * sp" by (simp add: algebra_simps)
    also have "\<dots> \<le> 443636 + 255 * 443636" using q p by linarith
    finally show ?thesis .
  qed
  have lower: "- (443636 + 257 * 443636) \<le> (w * 256 + int b) * sp"
  proof -
    have "(- 443636 div sp + 1 - 256) * sp \<le> (w * 256 + int b) * sp" using lo p by (intro mult_right_mono) simp_all
    moreover have "(- 443636 div sp + 1 - 256) * sp = (- 443636 div sp + 1) * sp - 256 * sp" by (simp add: algebra_simps)
    ultimately show ?thesis using q p by linarith
  qed
  have "i32 (w * 256) = w * 256" "i32 (w * 256 + int b) = w * 256 + int b"
    using hi lo q b by (auto intro!: i32_id)
  then show ?thesis using upper lower by (simp add: word_index_def)
qed

lemma word_ticks_iff:
  assumes "spacing_ok sp" and "Word (- 443636) sp \<le> w" and "w \<le> Word 443636 sp"
  shows "x \<in> set (word_ticks sp w bits) \<longleftrightarrow>
    sp dvd x \<and> x div sp div 256 = w \<and> bit bits (nat (x div sp mod 256)) \<and> - 443636 \<le> x \<and> x \<le> 443636"
proof -
  have p: "0 < sp" using assms(1) by (simp add: spacing_ok_def)
  have "x \<in> set (word_ticks sp w bits) \<longleftrightarrow> (\<exists>b<256. bit bits b \<and> x = (w * 256 + int b) * sp \<and> - 443636 \<le> x \<and> x \<le> 443636)"
    using word_index_eq [OF assms] by (auto simp: word_ticks_def)
  also have "\<dots> \<longleftrightarrow> sp dvd x \<and> x div sp div 256 = w \<and> bit bits (nat (x div sp mod 256)) \<and> - 443636 \<le> x \<and> x \<le> 443636"
    (is "?l = ?r")
  proof
    assume ?l
    then obtain b where b: "b < 256" "bit bits b" "x = (w * 256 + int b) * sp" "- 443636 \<le> x" "x \<le> 443636" by blast
    then have "x div sp = w * 256 + int b" using p by simp
    then show ?r using b by simp
  next
    assume r: ?r
    define b where "b = nat (x div sp mod 256)"
    have "int b = x div sp mod 256" by (simp add: b_def)
    then have "x div sp = w * 256 + int b" "b < 256" using r by (auto simp: b_def nat_less_iff)
    moreover have "x = x div sp * sp" using r by simp
    ultimately show ?l using r b_def by (intro exI [of _ b]) auto
  qed
  finally show ?thesis .
qed

lemma word_ticks_marked:
  assumes "spacing_ok sp" and "Word (- 443636) sp \<le> w" and "w \<le> Word 443636 sp" and "ws w = Some bits"
  shows "x \<in> set (word_ticks sp w bits) \<longleftrightarrow> marked ws sp x \<and> x div sp div 256 = w \<and> - 443636 \<le> x \<and> x \<le> 443636"
  using word_ticks_iff [OF assms(1-3)] assms(4) by (auto simp: marked_def)

lemma window_words_iff:
  "w \<in> set (window_words tick sp) \<longleftrightarrow> \<bar>w - Word tick sp\<bar> \<le> 1 \<and> Word (- 443636) sp \<le> w \<and> w \<le> Word 443636 sp"
  by (auto simp: window_words_def Let_def)

lemma window_words_distinct: "distinct (window_words tick sp)"
  by (simp add: window_words_def Let_def)

lemma window_words_length: "length (window_words tick sp) \<le> 3"
  unfolding window_words_def Let_def by (rule order_trans [OF length_filter_le]) simp

text \<open>Every tick of the range belongs to a word of the range.\<close>

lemma tick_word:
  assumes "0 < sp" and "- 443636 \<le> x" and "x \<le> 443636"
  shows "Word (- 443636) sp \<le> x div sp div 256" and "x div sp div 256 \<le> Word 443636 sp"
  using assms by (auto simp: Word_eq intro!: zdiv_mono1)

lemma Missing_iff:
  assumes "spacing_ok sp"
  shows "Missing tick sp ws ns = Inr False \<longleftrightarrow>
    (\<forall>w. w \<in> set (window_words tick sp) \<longrightarrow> ws w \<noteq> None)
    \<and> (\<forall>x. marked ws sp x \<longrightarrow> - 443636 \<le> x \<longrightarrow> x \<le> 443636 \<longrightarrow> x div sp div 256 \<in> set (window_words tick sp) \<longrightarrow> ns x \<noteq> None)"
proof -
  have sp: "sp \<noteq> 0" using assms by (simp add: spacing_ok_def)
  have "Missing tick sp ws ns = Inr False \<longleftrightarrow>
    (\<forall>w \<in> set (window_words tick sp). \<exists>bits. ws w = Some bits \<and> (\<forall>x \<in> set (word_ticks sp w bits). ns x \<noteq> None))"
    using sp by (auto simp: Missing_def list_ex_iff split: option.splits)
  also have "\<dots> \<longleftrightarrow> (\<forall>w. w \<in> set (window_words tick sp) \<longrightarrow> ws w \<noteq> None)
    \<and> (\<forall>x. marked ws sp x \<longrightarrow> - 443636 \<le> x \<longrightarrow> x \<le> 443636 \<longrightarrow> x div sp div 256 \<in> set (window_words tick sp) \<longrightarrow> ns x \<noteq> None)"
    (is "?l = (?r1 \<and> ?r2)")
  proof
    assume l: ?l
    then have ?r1 by fastforce
    moreover have ?r2
    proof (intro allI impI)
      fix x
      assume x: "marked ws sp x" "- 443636 \<le> x" "x \<le> 443636" "x div sp div 256 \<in> set (window_words tick sp)"
      then obtain bits where b: "ws (x div sp div 256) = Some bits" "\<forall>x \<in> set (word_ticks sp (x div sp div 256) bits). ns x \<noteq> None"
        using l by blast
      then show "ns x \<noteq> None"
        using word_ticks_marked [where ws = ws, OF assms _ _ b(1)] x by (auto simp: window_words_iff)
    qed
    ultimately show "?r1 \<and> ?r2" ..
  next
    assume r: "?r1 \<and> ?r2"
    show ?l
    proof
      fix w
      assume w: "w \<in> set (window_words tick sp)"
      then obtain bits where b: "ws w = Some bits" using r by blast
      have rng: "Word (- 443636) sp \<le> w" "w \<le> Word 443636 sp" using w by (simp_all add: window_words_iff)
      show "\<exists>bits. ws w = Some bits \<and> (\<forall>x \<in> set (word_ticks sp w bits). ns x \<noteq> None)"
        using word_ticks_marked [where ws = ws, OF assms rng b] b r w by auto
    qed
  qed
  finally show ?thesis .
qed

section \<open>Reads\<close>

text \<open>The errors of a read: any, or calm ones when the reader is calm.\<close>

definition errors_ok :: "Reader \<Rightarrow> (failure \<Rightarrow> bool) \<Rightarrow> bool" where
  "errors_ok env E \<longleftrightarrow> (\<forall>e. E e) \<or> E = calm \<and> reader_calm env"

lemma alive_outcome: "errors_ok env E \<Longrightarrow> outcome (alive env) n (\<lambda>_ n'. n' = n) E"
  by (cases "ctx_err env n") (auto simp: alive_def reader_calm_def errors_ok_def)

lemma error_ok: "errors_ok env E \<Longrightarrow> calm e \<Longrightarrow> E e"
  by (auto simp: errors_ok_def)

lemma read_fields_outcome:
  assumes "errors_ok env E"
  shows "outcome (read_fields env parent cp key indexes) n (\<lambda>vals n'. length vals = length indexes) E"
proof -
  have "E e" if "DynamicValues env n parent cp ks = Inl e" for ks e
    using assms calmD [OF _ that] by (auto simp: reader_calm_def errors_ok_def)
  then show ?thesis
    unfolding read_fields_def outcome_andthen
    by (intro outcome_mono [OF alive_outcome [OF assms]]) (auto simp: outcome_lift error_ok [OF assms] split: sum.splits)
qed

lemma read_fields_reads: "snd (read_fields env parent cp key indexes n) \<le> Suc n"
  by (cases "ctx_err env n"; cases "DynamicValues env n parent cp (List.map (\<lambda>i. (key, index_key i)) indexes)")
    (auto simp: read_fields_def alive_def andthen_def)

lemma read_batches_outcome:
  assumes "errors_ok env E"
  shows "outcome (read_batches env parent cp key cs) n (\<lambda>vals n'. length vals = length (concat cs)) E"
proof (induction cs arbitrary: n)
  case Nil
  show ?case unfolding read_batches.simps outcome_andthen
    by (rule outcome_mono [OF alive_outcome [OF assms]]) simp_all
next
  case (Cons c cs)
  have rest: "outcome (andthen (read_batches env parent cp key cs) (\<lambda>rest. ret (vals @ rest))) m
      (\<lambda>vals n'. length vals = length (concat (c # cs))) E" if "length vals = length c" for vals m
    unfolding outcome_andthen by (rule outcome_mono [OF Cons.IH]) (use that in simp_all)
  show ?case unfolding read_batches.simps outcome_andthen [of "read_fields env parent cp key c"]
    by (rule outcome_mono [OF read_fields_outcome [OF assms]]) (use rest in simp_all)
qed

lemma read_batches_reads: "snd (read_batches env parent cp key cs n) \<le> n + length cs"
proof (induction cs arbitrary: n)
  case Nil
  then show ?case by (cases "ctx_err env n") (simp_all add: alive_def andthen_def)
next
  case (Cons c cs)
  show ?case
    using Cons [of "snd (read_fields env parent cp key c n)"] read_fields_reads [of env parent cp key c n]
    by (auto simp: andthen_def split: prod.splits sum.splits)
qed

lemma concat_chunks: "0 < k \<Longrightarrow> concat (chunks k xs) = xs"
proof (induction k xs rule: chunks.induct)
  case (1 k xs)
  then show ?case by (cases "xs = []") (simp_all add: chunks.simps [of k xs] chunks.simps [of k "[]"])
qed

lemma length_chunks: "0 < k \<Longrightarrow> length (chunks k xs) * k < length xs + k"
proof (induction k xs rule: chunks.induct)
  case (1 k xs)
  then show ?case
    by (cases "xs = []"; cases "length xs \<le> k") (auto simp: chunks.simps [of k xs] chunks.simps [of k "[]"])
qed

section \<open>Decoding\<close>

lemma word_ticks_length: "length (word_ticks sp w bits) \<le> 256"
  unfolding word_ticks_def length_map by (rule order_trans [OF length_filter_le]) simp

lemma decode_words_spec:
  assumes "decode_words sp ps = Inr (ws, ticks)"
  shows "dom ws = fst ` set ps" and "length ticks \<le> 256 * length ps"
    and "distinct (List.map fst ps) \<Longrightarrow> set ticks = (\<Union>w \<in> fst ` set ps. set (word_ticks sp w (the (ws w))))"
  using assms
proof (atomize(full), induction ps arbitrary: ws ticks)
  case (Cons p ps)
  obtain w v where p: "p = (w, v)" by (cases p)
  obtain bits ws' ticks' where d: "decode_words sp ps = Inr (ws', ticks')" "ws = ws'(w \<mapsto> bits)" "ticks = word_ticks sp w bits @ ticks'"
    using Cons.prems by (auto simp: p ebind_def split: sum.splits)
  have IH: "dom ws' = fst ` set ps" "length ticks' \<le> 256 * length ps"
    "distinct (List.map fst ps) \<Longrightarrow> set ticks' = (\<Union>w \<in> fst ` set ps. set (word_ticks sp w (the (ws' w))))"
    using Cons.IH [OF d(1)] by simp_all
  have "length ticks \<le> 256 * length (p # ps)" using IH(2) word_ticks_length [of sp w bits] d(3) by simp
  moreover have "set ticks = (\<Union>w \<in> fst ` set (p # ps). set (word_ticks sp w (the (ws w))))" if "distinct (List.map fst (p # ps))"
  proof -
    have "the (ws v) = the (ws' v)" if "v \<in> fst ` set ps" for v
      using that \<open>distinct (List.map fst (p # ps))\<close> by (auto simp: d(2) p)
    then have "(\<Union>v \<in> fst ` set ps. set (word_ticks sp v (the (ws v)))) = set ticks'" using IH(3) that by auto
    then show ?thesis by (simp add: d p)
  qed
  moreover have "dom ws = fst ` set (p # ps)" using IH(1) by (simp only: d(2) dom_fun_upd p) simp
  ultimately show ?case by blast
qed simp

lemma decode_words_calm: "\<not> panics (decode_words sp ps)"
proof (induction ps)
  case (Cons p ps)
  then show ?case by (cases p) (auto simp: panics_ebind word_value_calm split: prod.splits)
qed simp

lemma decode_nets_dom: "decode_nets ps = Inr ns \<Longrightarrow> dom ns = fst ` set ps"
proof (induction ps arbitrary: ns)
  case (Cons p ps)
  obtain i r where p: "p = (i, r)" by (cases p)
  obtain v m where d: "decode_nets ps = Inr m" "ns = (if m i = None then m(i \<mapsto> v) else m)"
    using Cons.prems by (auto simp: p ebind_def split: sum.splits)
  then show ?case using Cons.IH [OF d(1)] by (auto simp: p)
qed simp

lemma decode_nets_calm: "\<not> panics (decode_nets ps)"
proof (induction ps)
  case (Cons p ps)
  then show ?case by (cases p) (auto simp: panics_ebind net_value_calm)
qed simp

section \<open>The properties of a window\<close>

lemma window_ticks_set:
  assumes "spacing_ok sp" and "dom ws = set (window_words tick sp)"
  shows "(\<Union>w \<in> set (window_words tick sp). set (word_ticks sp w (the (ws w)))) = {x. marked ws sp x \<and> - 443636 \<le> x \<and> x \<le> 443636}"
proof -
  have "x \<in> set (word_ticks sp w (the (ws w))) \<longleftrightarrow> marked ws sp x \<and> x div sp div 256 = w \<and> - 443636 \<le> x \<and> x \<le> 443636"
    if w: "w \<in> set (window_words tick sp)" for w x
  proof -
    obtain bits where "ws w = Some bits" using w assms(2) by auto
    then show ?thesis using word_ticks_marked [where ws = ws, OF assms(1)] w by (simp add: window_words_iff)
  qed
  moreover have "x div sp div 256 \<in> set (window_words tick sp)" if "marked ws sp x" for x
    using that unfolding assms(2) [symmetric] by (auto simp: marked_def split: option.splits)
  ultimately show ?thesis by blast
qed

lemma snd_andthen:
  "snd (m s) \<le> (b :: nat) \<Longrightarrow> (\<And>x s'. m s = (Inr x, s') \<Longrightarrow> snd (f x s') \<le> b) \<Longrightarrow> snd (andthen m f s) \<le> b"
  by (auto simp: andthen_def split: prod.splits sum.splits)

lemma Read_reads: "snd (Read env cp bitmap_parent ticks_parent key tick sp n) \<le> n + 25"
proof (cases "sp \<le> 0 \<or> sp > 443636 \<or> tick < - 443636 \<or> tick > 443636")
  case False
  let ?ix = "window_words tick sp"
  have batches: "snd (read_batches env ticks_parent cp key (chunks 32 ticks) m) \<le> n + 25"
    if "decode_words sp (zip ?ix vals) = Inr (ws, ticks)" and "m \<le> Suc n" for vals ws ticks m
  proof -
    have "length (chunks 32 ticks) * 32 < length ticks + 32" by (rule length_chunks) simp
    moreover have "length ticks \<le> 256 * 3"
      using decode_words_spec(2) [OF that(1)] window_words_length [of tick sp] by simp
    ultimately show ?thesis using read_batches_reads [of env ticks_parent cp key "chunks 32 ticks" m] that(2) by simp
  qed
  show ?thesis
    unfolding Read_def Let_def if_not_P [OF False]
  proof (rule snd_andthen, goal_cases)
    case 1
    then show ?case using read_fields_reads [of env bitmap_parent cp key ?ix n] by simp
  next
    case (2 vals m)
    then have m: "m \<le> Suc n" using read_fields_reads [of env bitmap_parent cp key ?ix n] by simp
    show ?case
    proof (cases "decode_words sp (zip ?ix vals)")
      case (Inr r)
      obtain ws ticks where r: "r = (ws, ticks)" by (cases r)
      have b: "snd (read_batches env ticks_parent cp key (chunks 32 ticks) m) \<le> n + 25" using batches [OF _ m] Inr r by simp
      have "snd (andthen (lift (decode_nets ps)) (\<lambda>nts. andthen (alive env) (\<lambda>_. ret (ws, nts))) k) \<le> n + 25" if "k \<le> n + 25" for ps k
        using that by (cases "decode_nets ps"; cases "ctx_err env k") (simp_all add: alive_def andthen_def)
      note tail = this
      show ?thesis unfolding Inr r andthen_simps prod.case
      proof (rule snd_andthen, rule b, rule tail)
        fix nvals k
        assume "read_batches env ticks_parent cp key (chunks 32 ticks) m = (Inr nvals, k)"
        then show "k \<le> n + 25" using b by simp
      qed
    qed (use m in simp)
  qed
qed (simp add: Read_def)

lemma Read_outcome:
  assumes "errors_ok env E"
  shows "outcome (Read env cp bitmap_parent ticks_parent key tick sp) n (\<lambda>(ws, ns) _.
    Missing tick sp ws ns = Inr False \<and> dom ws = set (window_words tick sp)
    \<and> dom ns = {x. marked ws sp x \<and> - 443636 \<le> x \<and> x \<le> 443636}) E"
proof (cases "sp \<le> 0 \<or> sp > 443636 \<or> tick < - 443636 \<or> tick > 443636")
  case False
  then have sp: "spacing_ok sp" by (simp add: spacing_ok_def)
  let ?ix = "window_words tick sp"
  let ?P = "\<lambda>ws ns. Missing tick sp ws ns = Inr False \<and> dom ws = set ?ix \<and> dom ns = {x. marked ws sp x \<and> - 443636 \<le> x \<and> x \<le> 443636}"
  have whole: "?P ws ns" if w: "decode_words sp (zip ?ix vals) = Inr (ws, ticks)" "length vals = length ?ix"
    and t: "decode_nets (zip ticks nvals) = Inr ns" "length nvals = length ticks" for vals ws ticks nvals ns
  proof -
    have f: "fst ` set (zip ?ix vals) = set ?ix" "fst ` set (zip ticks nvals) = set ticks" "List.map fst (zip ?ix vals) = ?ix"
      using w(2) t(2) by (simp_all flip: set_map)
    have dom: "dom ws = set ?ix" "dom ns = set ticks" using decode_words_spec(1) [OF w(1)] decode_nets_dom [OF t(1)] f by simp_all
    moreover have "set ticks = {x. marked ws sp x \<and> - 443636 \<le> x \<and> x \<le> 443636}"
      using decode_words_spec(3) [OF w(1)] f window_words_distinct window_ticks_set [OF sp dom(1)] by simp
    ultimately show ?thesis by (auto simp: Missing_iff [OF sp])
  qed
  have "outcome (Read env cp bitmap_parent ticks_parent key tick sp) n (\<lambda>(ws, ns) _. ?P ws ns) E"
    unfolding Read_def Let_def if_not_P [OF False] outcome_andthen
  proof (rule outcome_mono [OF read_fields_outcome [OF assms]])
    fix vals m
    assume len: "length (vals :: raw list) = length ?ix"
    show "outcome (lift (decode_words sp (zip ?ix vals))) m
       (\<lambda>x s'. outcome (case x of (ws, initialized) \<Rightarrow> andthen (read_batches env ticks_parent cp key (chunks 32 initialized))
          (\<lambda>nvals. andthen (lift (decode_nets (zip initialized nvals))) (\<lambda>nts. andthen (alive env) (\<lambda>_. ret (ws, nts))))) s'
          (\<lambda>(ws, ns) _. ?P ws ns) E) E"
    proof (cases "decode_words sp (zip ?ix vals)")
      case (Inl e)
      then show ?thesis by (simp add: error_ok [OF assms] calmD [OF decode_words_calm])
    next
      case (Inr r)
      obtain ws ticks where r: "r = (ws, ticks)" by (cases r)
      have "outcome (andthen (lift (decode_nets (zip ticks nvals))) (\<lambda>nts. andthen (alive env) (\<lambda>_. ret (ws, nts)))) k
          (\<lambda>(ws, ns) _. ?P ws ns) E" if "length nvals = length (concat (chunks 32 ticks))" for nvals k
      proof (cases "decode_nets (zip ticks nvals)")
        case (Inl e)
        then show ?thesis by (simp add: error_ok [OF assms] calmD [OF decode_nets_calm])
      next
        case (Inr ns)
        have "?P ws ns" using whole [OF _ len Inr] \<open>decode_words sp (zip ?ix vals) = Inr r\<close> that r by (simp add: concat_chunks)
        then show ?thesis unfolding Inr andthen_simps outcome_andthen [of "alive env"]
          by (intro outcome_mono [OF alive_outcome [OF assms]]) simp_all
      qed
      then show ?thesis unfolding Inr r outcome_basic prod.case outcome_andthen [of "read_batches _ _ _ _ _"]
        by (intro outcome_mono [OF read_batches_outcome [OF assms]]) simp_all
    qed
  qed simp
  then show ?thesis .
qed (simp add: Read_def error_ok [OF assms])

text \<open>
  A window that was read is complete: it holds exactly the words around the tick and a net liquidity for exactly
  the initialized ticks in them, so \<open>Missing\<close> finds nothing. Success or failure, at most 25 reads are made, and the
  code does not panic.
\<close>

lemma Read_complete:
  assumes "reader_calm env"
  shows "let m = Read env cp bitmap_parent ticks_parent key tick sp n
         in snd m \<le> n + 25
          \<and> (case fst m of Inl e \<Rightarrow> calm e
             | Inr (ws, ns) \<Rightarrow> Missing tick sp ws ns = Inr False \<and> dom ws = set (window_words tick sp)
                 \<and> dom ns = {x. marked ws sp x \<and> - 443636 \<le> x \<and> x \<le> 443636})"
  using Read_outcome [of env calm cp bitmap_parent ticks_parent key tick sp n] Read_reads assms
  by (simp add: errors_ok_def outcome_def Let_def split: prod.splits sum.splits)


section \<open>Witnesses of the window\<close>

definition window_reader :: Reader where
  "window_reader = \<lparr>DynamicValues = (\<lambda>n p c ks.
       Inr (if n = 0 then List.map (\<lambda>k. Raw (JString (if snd k = [0, 0, 0, 0] then ''2'' else ''0''))) ks
            else List.map (\<lambda>k. Raw (JObject [(''liquidity_net'', JObject [(''bits'', JString ''5'')])])) ks)),
     ctx_err = (\<lambda>n. None)\<rparr>"

lemma window_reader_calm: "reader_calm window_reader"
  by (simp add: reader_calm_def window_reader_def)

text \<open>The word 0 marks the tick 60; two reads are made.\<close>

lemma Read_complete_witness:
  "case Read window_reader 7 zero_address zero_address [] 0 60 0 of (Inl e, n) \<Rightarrow> False
    | (Inr (ws, ns), n) \<Rightarrow> n = 2 \<and> ns 60 = Some 5 \<and> Missing 0 60 ws ns = Inr False"
proof -
  have "case Read window_reader 7 zero_address zero_address [] 0 60 0 of (Inl e, n) \<Rightarrow> False
    | (Inr (ws, ns), n) \<Rightarrow> n = 2 \<and> ns 60 = Some 5" by code_simp
  then show ?thesis
    using Read_complete [OF window_reader_calm, where cp = 7 and bitmap_parent = zero_address and ticks_parent = zero_address
      and key = "[]" and tick = 0 and sp = 60 and n = 0]
    by (auto simp: Let_def split: prod.splits sum.splits)
qed

text \<open>The sample state lacks the word 1; with it, the window around the tick 0 is complete.\<close>

definition window_sample :: quoteState where
  "window_sample = sample_sui\<lparr>words := (words sample_sui)(1 \<mapsto> 0)\<rparr>"


end
