(* ===== verification/Sui_Live.thy ===== *)
theory Sui_Live
  imports Sui_Window
begin

text \<open>
  Live updates of the Sui venues: the notifications of a transaction subscription (\<open>sui/object.go\<close>,
  \<open>sui/transaction_effects.go\<close>, \<open>sui/object_state_subscription.go\<close>), the progress they prove
  (\<open>internal/suiwindow/observation.go\<close>), and the event loop \<open>Run\<close> (\<open>internal/suiwindow/producer.go\<close>) that applies
  them while a replacement window is captured in the background.

  \<open>Run\<close> waits for four kinds of event; a \<open>select\<close> may take them in any order, so the model is a function of one event
  and the runs are the lists of events. Clock readings are part of the events. Times are integers that
  count nanoseconds, \<open>None\<close> is the zero time, and the backoff counts seconds.
\<close>

section \<open>Notifications\<close>

record Object =
  obj_address :: Address
  obj_version :: u64
  obj_digest :: string
  obj_move :: "(string \<times> raw) option"

record ObjectChange =
  change_address :: Address
  before :: "Object option"
  after :: "Object option"
  input_parent :: Address
  output_parent :: Address
  deleted :: bool

record TransactionEffects =
  eff_index :: "u64 option"
  eff_digest :: string
  eff_checkpoint :: "u64 option"
  eff_timestamp :: "int option"

record TransactionNotification =
  effects :: "TransactionEffects option"
  watermark :: "u64 option"
  changes :: "ObjectChange list"
  changes_error :: "failure option"

text \<open>An update of the loop is a notification that is not nil, with the time of its receipt.\<close>

record Update =
  notification :: TransactionNotification
  received_at :: int

section \<open>Progress\<close>

record Observation =
  epoch :: nat
  active :: bool
  confirmed_at :: "int option"
  source_time :: "int option"

definition with_time :: "TransactionNotification \<Rightarrow> Observation \<Rightarrow> Observation" where
  "with_time n ob =
     (case effects n of None \<Rightarrow> ob
      | Some e \<Rightarrow> (case eff_timestamp e of None \<Rightarrow> ob | Some t \<Rightarrow> ob\<lparr>source_time := Some t\<rparr>))"

definition ObserveProgress :: "TransactionNotification option \<Rightarrow> u64 \<Rightarrow> int \<Rightarrow> (Observation \<times> u64, unit) proc" where
  "ObserveProgress notif baseline availableAt =
     (case notif of None \<Rightarrow> ret ()
      | Some n \<Rightarrow>
          (case changes_error n of Some e \<Rightarrow> throw e
           | None \<Rightarrow>
               andthen (update (\<lambda>(ob, cp). (with_time n ob, cp))) (\<lambda>_.
               reading (\<lambda>(ob, cp).
                 if \<not> active ob then ret ()
                 else case watermark n of None \<Rightarrow> ret ()
                 | Some sequence \<Rightarrow>
                     if sequence < cp then throw (Fail ''checkpoint=regressed'')
                     else if sequence < baseline \<or> sequence = cp then ret ()
                     else update (\<lambda>(ob, cp). (ob\<lparr>confirmed_at := Some availableAt\<rparr>, sequence))))))"

lemma with_time_simps [simp]: "active (with_time n ob) = active ob" "epoch (with_time n ob) = epoch ob" "confirmed_at (with_time n ob) = confirmed_at ob"
  by (simp_all add: with_time_def split: option.splits)

text \<open>
  The checkpoint never falls, and a new confirmation is the proof of a later checkpoint of an active subscription that
  is not before the baseline.
\<close>

lemma ObserveProgress_sound:
  assumes "ObserveProgress notif baseline at (ob, cp) = (r, (ob', cp'))"
  shows "cp \<le> cp'" and "epoch ob' = epoch ob" and "active ob' = active ob"
    and "confirmed_at ob' \<noteq> confirmed_at ob \<Longrightarrow> active ob \<and> cp < cp' \<and> baseline \<le> cp' \<and> confirmed_at ob' = Some at"
    and "r \<noteq> Inr () \<Longrightarrow> cp' = cp \<and> confirmed_at ob' = confirmed_at ob"
  using assms by (auto simp: ObserveProgress_def split: option.splits if_splits)

section \<open>The event loop\<close>

record 's producer =
  cache :: 's
  replay :: "Update list"
  running :: bool
  overflow :: bool
  last_err :: "failure option"
  next_at :: "int option"
  backoff :: int

datatype 'v event =
    Cancelled failure
  | Broken failure
  | Frame "Update option"
  | Tick int
  | Captured "'v res" int

record ('s, 'v) handlers =
  apply_update :: "Update \<Rightarrow> ('s, unit) proc"
  missing :: "'s \<Rightarrow> bool"
  install :: "'v \<Rightarrow> Update list \<Rightarrow> ('s, unit) proc"

definition producer_start :: "'s \<Rightarrow> 's producer" where
  "producer_start s = \<lparr>cache = s, replay = [], running = False, overflow = False, last_err = None, next_at = None, backoff = 1\<rparr>"

definition keep_update :: "Update \<Rightarrow> 's producer \<Rightarrow> 's producer" where
  "keep_update u p =
     (if running p \<and> \<not> overflow p \<and> effects (notification u) \<noteq> None
      then if length (replay p) \<ge> 4096 then p\<lparr>overflow := True, replay := []\<rparr> else p\<lparr>replay := replay p @ [u]\<rparr>
      else p)"

definition capture_done :: "('s, 'v) handlers \<Rightarrow> 'v res \<Rightarrow> int \<Rightarrow> 's producer \<Rightarrow> 's producer" where
  "capture_done h result now p =
     (let (err, s) = (case result of Inl e \<Rightarrow> (Some e, cache p)
                      | Inr v \<Rightarrow>
                          if overflow p then (Some (Fail ''replay=too_long''), cache p)
                          else (case install h v (replay p) (cache p) of (Inl e, s) \<Rightarrow> (Some e, s) | (Inr _, s) \<Rightarrow> (None, s)));
          p = p\<lparr>running := False, last_err := err, cache := s, replay := []\<rparr>
      in if err \<noteq> None then p\<lparr>next_at := Some (now + backoff p * 10 ^ 9), backoff := min 30 (backoff p * 2)\<rparr>
         else p\<lparr>next_at := None, backoff := 1\<rparr>)"

text \<open>What one event makes of the loop; the first component is the error with which \<open>Run\<close> returns, all joined ones.\<close>

definition turn :: "('s, 'v) handlers \<Rightarrow> 'v event \<Rightarrow> 's producer \<Rightarrow> failure list option \<times> 's producer" where
  "turn h ev p =
     (case ev of
        Cancelled e \<Rightarrow> (Some [e], p)
      | Broken e \<Rightarrow> (Some (e # (case last_err p of None \<Rightarrow> [] | Some f \<Rightarrow> [f])), p)
      | Frame None \<Rightarrow> (None, p)
      | Frame (Some u) \<Rightarrow>
          (case apply_update h u (cache p) of (Inl e, s) \<Rightarrow> (Some [e], p\<lparr>cache := s\<rparr>)
           | (Inr _, s) \<Rightarrow> (None, keep_update u (p\<lparr>cache := s\<rparr>)))
      | Tick now \<Rightarrow>
          (if running p \<or> (case next_at p of None \<Rightarrow> False | Some t \<Rightarrow> now < t) \<or> \<not> missing h (cache p) then (None, p)
           else (None, p\<lparr>running := True, overflow := False, replay := []\<rparr>))
      | Captured result now \<Rightarrow> (None, capture_done h result now p))"

fun run_events :: "('s, 'v) handlers \<Rightarrow> 'v event list \<Rightarrow> 's producer \<Rightarrow> failure list option \<times> 's producer" where
  "run_events h [] p = (None, p)"
| "run_events h (ev # evs) p = (case turn h ev p of (Some es, p) \<Rightarrow> (Some es, p) | (None, p) \<Rightarrow> run_events h evs p)"

text \<open>The updates of a list of events, those among them that are replayed, and their effect on the cache.\<close>

definition updates :: "'v event list \<Rightarrow> Update list" where
  "updates evs = List.map_filter (\<lambda>ev. case ev of Frame u \<Rightarrow> u | _ \<Rightarrow> None) evs"

definition with_effects :: "Update list \<Rightarrow> Update list" where
  "with_effects us = filter (\<lambda>u. effects (notification u) \<noteq> None) us"

fun apply_all :: "('s, 'v) handlers \<Rightarrow> Update list \<Rightarrow> ('s, unit) proc" where
  "apply_all h [] = ret ()"
| "apply_all h (u # us) = andthen (apply_update h u) (\<lambda>_. apply_all h us)"

definition is_captured :: "'v event \<Rightarrow> bool" where
  "is_captured ev = (case ev of Captured _ _ \<Rightarrow> True | _ \<Rightarrow> False)"

section \<open>Runs\<close>

lemma run_events_append:
  "run_events h (xs @ ys) p = (case run_events h xs p of (Some es, p) \<Rightarrow> (Some es, p) | (None, p) \<Rightarrow> run_events h ys p)"
  by (induction xs arbitrary: p) (auto split: prod.splits option.splits)

lemma updates_simps [simp]:
  "updates [] = []" "updates (Frame (Some u) # evs) = u # updates evs" "updates (Frame None # evs) = updates evs"
  "updates (Tick t # evs) = updates evs" "updates (Captured v t # evs) = updates evs"
  "updates (Cancelled e # evs) = updates evs" "updates (Broken e # evs) = updates evs"
  by (simp_all add: updates_def map_filter_simps)

lemma with_effects_simps [simp]:
  "with_effects [] = []"
  "with_effects (u # us) = (if effects (notification u) \<noteq> None then u # with_effects us else with_effects us)"
  by (simp_all add: with_effects_def)

lemma apply_all_append: "apply_all h (us @ vs) s = andthen (apply_all h us) (\<lambda>_. apply_all h vs) s"
  by (induction us arbitrary: s) (auto simp: andthen_def split: prod.splits sum.splits)

definition recorded :: "Update list \<Rightarrow> 's producer \<Rightarrow> bool" where
  "recorded us p \<longleftrightarrow> running p \<and> (if length us \<le> 4096 then \<not> overflow p \<and> replay p = us else overflow p)"

lemma keep_update_recorded:
  "recorded us p \<Longrightarrow> recorded (us @ with_effects [u]) (keep_update u p)"
  by (auto simp: recorded_def keep_update_def split: if_splits)

lemma keep_update_cache [simp]: "cache (keep_update u p) = cache p" "recorded us (p\<lparr>cache := s\<rparr>) = recorded us p"
  by (simp_all add: keep_update_def recorded_def)

text \<open>While a capture is under way, every update is applied, and recorded as long as there is room.\<close>

lemma run_recorded:
  assumes "recorded us p" and "\<forall>ev \<in> set evs. \<not> is_captured ev" and "run_events h evs p = (None, p')"
  shows "recorded (us @ with_effects (updates evs)) p' \<and> apply_all h (updates evs) (cache p) = (Inr (), cache p')"
  using assms
proof (induction evs arbitrary: us p)
  case (Cons ev evs)
  have c: "\<forall>ev \<in> set evs. \<not> is_captured ev" "\<not> is_captured ev" using Cons.prems(2) by simp_all
  show ?case
  proof (cases ev)
    case (Frame w)
    show ?thesis
    proof (cases w)
      case None
      then show ?thesis using Cons.IH [OF Cons.prems(1) c(1)] Cons.prems(3) Frame by (simp add: turn_def)
    next
      case (Some u)
      obtain s where s: "apply_update h u (cache p) = (Inr (), s)" "run_events h evs (keep_update u (p\<lparr>cache := s\<rparr>)) = (None, p')"
        using Cons.prems(3) Frame Some by (auto simp: turn_def split: prod.splits sum.splits option.splits)
      have "recorded (us @ with_effects [u]) (keep_update u (p\<lparr>cache := s\<rparr>))"
        using Cons.prems(1) by (intro keep_update_recorded) simp
      from Cons.IH [OF this c(1) s(2)] show ?thesis using s(1) Frame Some by (simp add: andthen_def split: if_splits)
    qed
  next
    case (Tick now)
    have "running p" using Cons.prems(1) by (simp add: recorded_def)
    then show ?thesis using Cons.IH [OF Cons.prems(1) c(1)] Cons.prems(3) Tick by (simp add: turn_def)
  qed (use Cons.prems c in \<open>auto simp: turn_def is_captured_def split: option.splits\<close>)
qed simp

text \<open>
  C29. The replay of \<open>Run\<close>: a capture starts at a tick that finds coverage missing and completes after the events \<open>evs\<close>.
  Then every update received meanwhile has been applied to the live state in order, and the replacement is
  installed with exactly those of them that are transactions, in order and without a gap; when they are more than
  4096 it is not installed and the failure is noted.
\<close>

theorem capture_replays:
  assumes "\<not> running p" and "missing h (cache p)" and "\<And>t. next_at p = Some t \<Longrightarrow> t \<le> now"
    and "\<forall>ev \<in> set evs. \<not> is_captured ev" and "run_events h (Tick now # evs @ [Captured (Inr v) later]) p = (None, p')"
  shows "\<exists>s. apply_all h (updates evs) (cache p) = (Inr (), s) \<and> \<not> running p'
    \<and> (if length (with_effects (updates evs)) \<le> 4096
       then install h v (with_effects (updates evs)) s = (case last_err p' of None \<Rightarrow> Inr () | Some e \<Rightarrow> Inl e, cache p')
       else cache p' = s \<and> last_err p' = Some (Fail ''replay=too_long''))"
proof -
  define p1 where "p1 = p\<lparr>running := True, overflow := False, replay := []\<rparr>"
  have "turn h (Tick now) p = (None, p1)" using assms(1-3) by (auto simp: turn_def p1_def split: option.splits)
  then obtain p2 where p2: "run_events h evs p1 = (None, p2)" "p' = capture_done h (Inr v) later p2"
    using assms(5) by (auto simp: run_events_append turn_def split: prod.splits option.splits)
  have "recorded [] p1" by (simp add: recorded_def p1_def)
  from run_recorded [OF this assms(4) p2(1)]
  have "recorded (with_effects (updates evs)) p2" and a: "apply_all h (updates evs) (cache p) = (Inr (), cache p2)"
    by (simp_all add: p1_def)
  then show ?thesis
    by (intro exI [of _ "cache p2"])
      (auto simp: p2(2) recorded_def capture_done_def Let_def split: prod.splits sum.splits if_splits)
qed

definition counting :: "(nat, nat) handlers" where
  "counting = \<lparr>apply_update = (\<lambda>u. update Suc), missing = (\<lambda>s. s < 3), install = (\<lambda>v us. update (\<lambda>s. v + length us))\<rparr>"

definition sample_frame :: "Update option" where
  "sample_frame = Some \<lparr>notification = \<lparr>effects = Some \<lparr>eff_index = None, eff_digest = ''t'', eff_checkpoint = None, eff_timestamp = None\<rparr>,
     watermark = None, changes = [], changes_error = None\<rparr>, received_at = 5\<rparr>"

theorem capture_replays_witness:
  "\<exists>p'. run_events counting (Tick 0 # [Frame sample_frame, Frame None, Frame sample_frame] @ [Captured (Inr 10) 9]) (producer_start 0) = (None, p')
     \<and> cache p' = 12"
proof -
  let ?evs = "[Frame sample_frame, Frame None, Frame sample_frame] :: nat event list"
  obtain p' where run: "run_events counting (Tick 0 # ?evs @ [Captured (Inr 10) 9]) (producer_start 0) = (None, p')"
    by (simp add: turn_def producer_start_def counting_def sample_frame_def)
  have "\<not> running (producer_start (0 :: nat))" "missing counting (cache (producer_start 0))" "next_at (producer_start (0 :: nat)) = None"
    by (simp_all add: producer_start_def counting_def)
  from capture_replays [OF this(1,2) _ _ run] this(3)
  have "install counting 10 (with_effects (updates ?evs)) s = (case last_err p' of None \<Rightarrow> Inr () | Some e \<Rightarrow> Inl e, cache p')" if "s = cache p'" for s
    using that by (auto simp: is_captured_def sample_frame_def counting_def split: option.splits)
  then show ?thesis using run by (auto simp: counting_def sample_frame_def)
qed

text \<open>The delay between captures: between one second and thirty, doubled by every failure.\<close>

lemma turn_backoff:
  assumes "1 \<le> backoff p" and "backoff p \<le> 30"
  shows "1 \<le> backoff (snd (turn h ev p)) \<and> backoff (snd (turn h ev p)) \<le> 30"
  using assms by (cases ev) (auto simp: turn_def capture_done_def keep_update_def Let_def split: option.splits sum.splits prod.splits)

lemma run_backoff:
  assumes "1 \<le> backoff p" and "backoff p \<le> 30"
  shows "1 \<le> backoff (snd (run_events h evs p)) \<and> backoff (snd (run_events h evs p)) \<le> 30"
  using assms
proof (induction evs arbitrary: p)
  case (Cons ev evs)
  obtain r p1 where t: "turn h ev p = (r, p1)" by (cases "turn h ev p")
  then have "1 \<le> backoff p1" "backoff p1 \<le> 30" using turn_backoff [OF Cons.prems, of h ev] by simp_all
  then show ?case using Cons.IH [of p1] t by (auto split: option.splits)
qed simp

end
