(* ===== verification/Sui_Pool.thy ===== *)
theory Sui_Pool
  imports Sui_Live
begin

text \<open>
  Pool objects of Turbos, Momentum and Bluefin: \<open>ParsePool\<close> (\<open>clmm.go\<close>, \<open>spot.go\<close>) reads the Move object of a pool, and
  \<open>capturePool\<close> (\<open>state_cache.go\<close>) checks its ranges and makes an empty cached state of it. A Move object is its type
  and its JSON contents.
\<close>

section \<open>Type arguments\<close>

definition IndexByte :: "string \<Rightarrow> char \<Rightarrow> nat option" where
  "IndexByte s c = (let i = length (takeWhile (\<lambda>d. d \<noteq> c) s) in if i < length s then Some i else None)"

definition LastIndexByte :: "string \<Rightarrow> char \<Rightarrow> nat option" where
  "LastIndexByte s c = map_option (\<lambda>i. length s - 1 - i) (IndexByte (rev s) c)"

text \<open>The arguments between the outer brackets; commas inside nested brackets do not separate.\<close>

fun split_arguments :: "int \<Rightarrow> string \<Rightarrow> string \<Rightarrow> string list" where
  "split_arguments depth cur [] = [TrimSpace (rev cur)]"
| "split_arguments depth cur (c # s) =
     (let depth = (if c = CHR ''<'' then depth + 1 else if c = CHR ''>'' then depth - 1 else depth)
      in if c = CHR '','' \<and> depth = 0 then TrimSpace (rev cur) # split_arguments depth [] s
         else split_arguments depth (c # cur) s)"

definition moveTypeArguments :: "string \<Rightarrow> string list res" where
  "moveTypeArguments value =
     (case (IndexByte value (CHR ''<''), LastIndexByte value (CHR ''>'')) of
        (Some i, Some j) \<Rightarrow>
          if j \<le> i then Inl (Fail ''move_type=invalid'')
          else Inr (split_arguments 0 [] (take (j - i - 1) (drop (i + 1) value)))
      | _ \<Rightarrow> Inl (Fail ''move_type=invalid''))"

fun Contains :: "string \<Rightarrow> string \<Rightarrow> bool" where
  "Contains [] p = (p = [])"
| "Contains (c # s) p = (HasPrefix (c # s) p \<or> Contains s p)"

text \<open>\<open>strings.Cut(s, ''::'')\<close>: what precedes the separator.\<close>

fun before_colons :: "string \<Rightarrow> string option" where
  "before_colons [] = None"
| "before_colons (c # s) = (if HasPrefix (c # s) ''::'' then Some [] else map_option (\<lambda>r. c # r) (before_colons s))"

section \<open>ParsePool\<close>

record Pool = sui_pool +
  pool_address :: Address
  initial_version :: u64
  coin_a :: u64
  coin_b :: u64

text \<open>The arguments of a \<open>pool::Pool\<close>, as many as the venue has.\<close>

definition pool_types :: "nat \<Rightarrow> string \<Rightarrow> string list res" where
  "pool_types k typ =
     (case moveTypeArguments typ of Inl e \<Rightarrow> Inl (Fail ''move_type=invalid'')
      | Inr types \<Rightarrow>
          if length types \<noteq> k \<or> \<not> Contains typ ''::pool::Pool<'' then Inl (Fail ''move_type=invalid'') else Inr types)"

definition parse_object :: "Object option \<Rightarrow> (Object \<Rightarrow> string \<Rightarrow> raw \<Rightarrow> 'a res) \<Rightarrow> 'a res" where
  "parse_object obj f =
     (case obj of None \<Rightarrow> Inl (Fail ''object=null'')
      | Some ob \<Rightarrow> (case obj_move ob of None \<Rightarrow> Inl (Fail ''object=null'') | Some (typ, json) \<Rightarrow> f ob typ json))"

record turbos_value =
  tv_coin_a :: raw
  tv_coin_b :: raw
  tv_sqrt :: raw
  tv_liquidity :: raw
  tv_tick :: int
  tv_spacing :: int
  tv_fee :: int
  tv_unlocked :: bool

definition turbos_zero :: turbos_value where
  "turbos_zero = \<lparr>tv_coin_a = raw.Missing, tv_coin_b = raw.Missing, tv_sqrt = raw.Missing, tv_liquidity = raw.Missing,
     tv_tick = 0, tv_spacing = 0, tv_fee = 0, tv_unlocked = False\<rparr>"

definition turbos_decoder :: "turbos_value decoder" where
  "turbos_decoder = struct_of
     [(''coin_a'', raw_field (\<lambda>r v. v\<lparr>tv_coin_a := r\<rparr>)), (''coin_b'', raw_field (\<lambda>r v. v\<lparr>tv_coin_b := r\<rparr>)),
      (''sqrt_price'', raw_field (\<lambda>r v. v\<lparr>tv_sqrt := r\<rparr>)), (''liquidity'', raw_field (\<lambda>r v. v\<lparr>tv_liquidity := r\<rparr>)),
      (''tick_current_index'', struct_of [(''bits'', uint_field 32 (\<lambda>n v. v\<lparr>tv_tick := n\<rparr>))]),
      (''tick_spacing'', uint_field 32 (\<lambda>n v. v\<lparr>tv_spacing := n\<rparr>)), (''fee'', uint_field 32 (\<lambda>n v. v\<lparr>tv_fee := n\<rparr>)),
      (''unlocked'', bool_field (\<lambda>b v. v\<lparr>tv_unlocked := b\<rparr>))]"

definition turbos_ParsePool :: "Object option \<Rightarrow> Pool res" where
  "turbos_ParsePool obj = parse_object obj (\<lambda>ob typ json.
     ebind (pool_types 3 typ) (\<lambda>types.
     ebind (Unmarshal turbos_decoder json turbos_zero) (\<lambda>v.
     ebind (jsonUint64 (tv_coin_a v)) (\<lambda>a.
     ebind (jsonUint64 (tv_coin_b v)) (\<lambda>b.
     ebind (jsonUnsigned (tv_sqrt v)) (\<lambda>sqrt.
     ebind (jsonUnsigned (tv_liquidity v)) (\<lambda>liq.
     Inr \<lparr>coin_types = types, sqrt_price = sqrt, liquidity = liq, tick_index = i32 (tv_tick v),
           tick_spacing = word_of_int (tv_spacing v), rate = word_of_int (tv_fee v), unlocked = tv_unlocked v,
           pool_address = obj_address ob, initial_version = obj_version ob, coin_a = a, coin_b = b\<rparr>)))))))"

record momentum_value =
  mv_reserve_x :: raw
  mv_reserve_y :: raw
  mv_sqrt :: raw
  mv_liquidity :: raw
  mv_tick :: raw
  mv_fee :: raw
  mv_spacing :: int

definition momentum_zero :: momentum_value where
  "momentum_zero = \<lparr>mv_reserve_x = raw.Missing, mv_reserve_y = raw.Missing, mv_sqrt = raw.Missing, mv_liquidity = raw.Missing,
     mv_tick = raw.Missing, mv_fee = raw.Missing, mv_spacing = 0\<rparr>"

definition momentum_decoder :: "momentum_value decoder" where
  "momentum_decoder = struct_of
     [(''reserve_x'', raw_field (\<lambda>r v. v\<lparr>mv_reserve_x := r\<rparr>)), (''reserve_y'', raw_field (\<lambda>r v. v\<lparr>mv_reserve_y := r\<rparr>)),
      (''sqrt_price'', raw_field (\<lambda>r v. v\<lparr>mv_sqrt := r\<rparr>)), (''liquidity'', raw_field (\<lambda>r v. v\<lparr>mv_liquidity := r\<rparr>)),
      (''tick_index'', struct_of [(''bits'', raw_field (\<lambda>r v. v\<lparr>mv_tick := r\<rparr>))]),
      (''swap_fee_rate'', raw_field (\<lambda>r v. v\<lparr>mv_fee := r\<rparr>)), (''tick_spacing'', uint_field 32 (\<lambda>n v. v\<lparr>mv_spacing := n\<rparr>))]"

definition momentum_ParsePool :: "Object option \<Rightarrow> Pool res" where
  "momentum_ParsePool obj = parse_object obj (\<lambda>ob typ json.
     ebind (pool_types 2 typ) (\<lambda>types.
     ebind (Unmarshal momentum_decoder json momentum_zero) (\<lambda>v.
     ebind (jsonUint64 (mv_reserve_x v)) (\<lambda>a.
     ebind (jsonUint64 (mv_reserve_y v)) (\<lambda>b.
     ebind (jsonUnsigned (mv_sqrt v)) (\<lambda>sqrt.
     ebind (jsonUnsigned (mv_liquidity v)) (\<lambda>liq.
     ebind (jsonUint64 (mv_fee v)) (\<lambda>fee.
     ebind (jsonUint64 (mv_tick v)) (\<lambda>tick.
     if uint tick > 2 ^ 32 - 1 then Inl (Fail ''tick_index=invalid'')
     else Inr \<lparr>coin_types = types, sqrt_price = sqrt, liquidity = liq, tick_index = i32 (uint tick),
           tick_spacing = word_of_int (mv_spacing v), rate = fee, unlocked = True,
           pool_address = obj_address ob, initial_version = obj_version ob, coin_a = a, coin_b = b\<rparr>)))))))))"

record bluefin_value =
  bv_coin_a :: raw
  bv_coin_b :: raw
  bv_sqrt :: raw
  bv_liquidity :: raw
  bv_fee :: raw
  bv_paused :: bool

definition bluefin_zero :: bluefin_value where
  "bluefin_zero = \<lparr>bv_coin_a = raw.Missing, bv_coin_b = raw.Missing, bv_sqrt = raw.Missing, bv_liquidity = raw.Missing,
     bv_fee = raw.Missing, bv_paused = False\<rparr>"

definition bluefin_decoder :: "bluefin_value decoder" where
  "bluefin_decoder = struct_of
     [(''coin_a'', raw_field (\<lambda>r v. v\<lparr>bv_coin_a := r\<rparr>)), (''coin_b'', raw_field (\<lambda>r v. v\<lparr>bv_coin_b := r\<rparr>)),
      (''current_sqrt_price'', raw_field (\<lambda>r v. v\<lparr>bv_sqrt := r\<rparr>)), (''liquidity'', raw_field (\<lambda>r v. v\<lparr>bv_liquidity := r\<rparr>)),
      (''fee_rate'', raw_field (\<lambda>r v. v\<lparr>bv_fee := r\<rparr>)), (''is_paused'', bool_field (\<lambda>b v. v\<lparr>bv_paused := b\<rparr>))]"

text \<open>A Bluefin pool has no tick or spacing of its own; \<open>capturePool\<close> reads them from another part of the object.\<close>

definition bluefin_ParsePool :: "Object option \<Rightarrow> Pool res" where
  "bluefin_ParsePool obj = parse_object obj (\<lambda>ob typ json.
     ebind (pool_types 2 typ) (\<lambda>types.
     ebind (Unmarshal bluefin_decoder json bluefin_zero) (\<lambda>v.
     ebind (jsonUint64 (bv_coin_a v)) (\<lambda>a.
     ebind (jsonUint64 (bv_coin_b v)) (\<lambda>b.
     ebind (jsonUnsigned (bv_sqrt v)) (\<lambda>sqrt.
     ebind (jsonUnsigned (bv_liquidity v)) (\<lambda>liq.
     ebind (jsonUint64 (bv_fee v)) (\<lambda>fee.
     Inr \<lparr>coin_types = types, sqrt_price = sqrt, liquidity = liq, tick_index = 0,
           tick_spacing = 0, rate = fee, unlocked = \<not> bv_paused v,
           pool_address = obj_address ob, initial_version = obj_version ob, coin_a = a, coin_b = b\<rparr>))))))))"

section \<open>capturePool\<close>

definition price_invalid :: "int \<Rightarrow> int \<Rightarrow> bool" where
  "price_invalid l p \<longleftrightarrow>
     l < 0 \<or> BitLen_gt l 128 \<or> p < sqrtAtTick (- 443636) \<or> p > sqrtAtTick 443636"

definition grid_invalid :: "int \<Rightarrow> int \<Rightarrow> bool" where
  "grid_invalid sp tick \<longleftrightarrow> sp = 0 \<or> sp > 443636 \<or> tick < - 443636 \<or> tick > 443636"

definition captured_state :: "Object \<Rightarrow> sui_pool \<Rightarrow> u64 \<Rightarrow> u64 \<Rightarrow> int \<Rightarrow> Address \<Rightarrow> Address \<Rightarrow> string \<Rightarrow> quoteState" where
  "captured_state ob p protocol cp now bm ts key =
     \<lparr>position = None, received = 0, retainedOnly = False, pool = p, version = obj_version ob, state_digest = obj_digest ob,
      checkpoint = cp, captured = now, bitmap_id = bm, ticks_id = ts, keyType = key, protocolRate = protocol,
      words = Map.empty, nets = Map.empty\<rparr>"

definition package_key :: "string \<Rightarrow> string res" where
  "package_key typ =
     (case before_colons typ of None \<Rightarrow> Inl (Fail ''type=invalid'') | Some pkg \<Rightarrow> Inr (pkg @ ''::i32::I32''))"

definition turbos_fields :: "(string \<times> int) decoder" where
  "turbos_fields = struct_of
     [(''tick_map'', struct_of [(''id'', string_field (\<lambda>s (_, p). (s, p)))]), (''fee_protocol'', uint_field 64 (\<lambda>n (s, _). (s, n)))]"

definition turbos_capturePool :: "int \<Rightarrow> Object option \<Rightarrow> u64 \<Rightarrow> quoteState res" where
  "turbos_capturePool now obj cp =
     ebind (turbos_ParsePool obj) (\<lambda>p.
     parse_object obj (\<lambda>ob typ json.
       if grid_invalid (uint (tick_spacing p)) (tick_index p) \<or> rate p \<ge> 1000000 \<or> price_invalid (liquidity p) (sqrt_price p)
       then Inl (Fail ''state=invalid'')
       else
         ebind (Unmarshal turbos_fields json ([], 0)) (\<lambda>(id, protocol).
         if \<not> unlocked p \<or> protocol > 1000000 then Inl (Fail ''trading=invalid'')
         else
           ebind (ParseAddress id) (\<lambda>bm.
           ebind (package_key typ) (\<lambda>key.
           Inr (captured_state ob (sui_pool.truncate p) (word_of_int protocol) cp now bm (obj_address ob) key))))))"

definition momentum_fields :: "(string \<times> string) decoder" where
  "momentum_fields = struct_of
     [(''ticks'', struct_of [(''id'', string_field (\<lambda>s (_, b). (s, b)))]),
      (''tick_bitmap'', struct_of [(''id'', string_field (\<lambda>s (t, _). (t, s)))])]"

definition momentum_capturePool :: "int \<Rightarrow> Object option \<Rightarrow> u64 \<Rightarrow> quoteState res" where
  "momentum_capturePool now obj cp =
     ebind (momentum_ParsePool obj) (\<lambda>p.
     parse_object obj (\<lambda>ob typ json.
       if grid_invalid (uint (tick_spacing p)) (tick_index p) \<or> rate p \<ge> 1000000 \<or> price_invalid (liquidity p) (sqrt_price p)
       then Inl (Fail ''state=invalid'')
       else
         ebind (Unmarshal momentum_fields json ([], [])) (\<lambda>(tid, bid).
         ebind (ParseAddress tid) (\<lambda>ts.
         ebind (ParseAddress bid) (\<lambda>bm.
         ebind (package_key typ) (\<lambda>key.
         Inr (captured_state ob (sui_pool.truncate p) 0 cp now bm ts key)))))))"

record bluefin_fields =
  bf_spacing :: int
  bf_ticks :: string
  bf_bitmap :: string
  bf_index :: raw
  bf_protocol :: raw

definition bluefin_fields_zero :: bluefin_fields where
  "bluefin_fields_zero = \<lparr>bf_spacing = 0, bf_ticks = [], bf_bitmap = [], bf_index = raw.Missing, bf_protocol = raw.Missing\<rparr>"

definition bluefin_fields_decoder :: "bluefin_fields decoder" where
  "bluefin_fields_decoder = struct_of
     [(''ticks_manager'', struct_of
        [(''tick_spacing'', uint_field 32 (\<lambda>n v. v\<lparr>bf_spacing := n\<rparr>)),
         (''ticks'', struct_of [(''id'', string_field (\<lambda>s v. v\<lparr>bf_ticks := s\<rparr>))]),
         (''bitmap'', struct_of [(''id'', string_field (\<lambda>s v. v\<lparr>bf_bitmap := s\<rparr>))])]),
      (''current_tick_index'', struct_of [(''bits'', raw_field (\<lambda>r v. v\<lparr>bf_index := r\<rparr>))]),
      (''protocol_fee_share'', raw_field (\<lambda>r v. v\<lparr>bf_protocol := r\<rparr>))]"

definition bluefinPoolPackage :: string where
  "bluefinPoolPackage = ''0x3492c874c1e3b3e2984e8c41b589e642d4d0a5d6459e5a9cfc2d52fd7c89c267''"

definition integerKeyType :: string where
  "integerKeyType = ''0x714a63a0dba6da4f017b42d5d0fb78867f18bcde904868e51d951a5a6f5b7f57::i32::I32''"

definition bluefin_capturePool :: "int \<Rightarrow> Object option \<Rightarrow> u64 \<Rightarrow> quoteState res" where
  "bluefin_capturePool now obj cp =
     parse_object obj (\<lambda>ob typ json.
       if \<not> HasPrefix typ (bluefinPoolPackage @ ''::pool::Pool<'') then Inl (Fail ''deployment=unsupported'')
       else
         ebind (bluefin_ParsePool obj) (\<lambda>p.
         if rate p \<ge> 1000000 \<or> price_invalid (liquidity p) (sqrt_price p) then Inl (Fail ''state=invalid'')
         else
           ebind (Unmarshal bluefin_fields_decoder json bluefin_fields_zero) (\<lambda>v.
           ebind (jsonUint64 (bf_index v)) (\<lambda>index.
           ebind (jsonUint64 (bf_protocol v)) (\<lambda>protocol.
           let tick = i32 (uint index)
           in if \<not> unlocked p \<or> protocol > 1000000 \<or> uint index > 2 ^ 32 - 1 \<or> grid_invalid (bf_spacing v) tick
              then Inl (Fail ''state=invalid'')
              else
                ebind (ParseAddress (bf_bitmap v)) (\<lambda>bm.
                ebind (ParseAddress (bf_ticks v)) (\<lambda>ts.
                Inr (captured_state ob ((sui_pool.truncate p)\<lparr>tick_index := tick, tick_spacing := word_of_int (bf_spacing v)\<rparr>)
                       protocol cp now bm ts integerKeyType))))))))"

end
