(* ===== verification/Sui_Retained.thy ===== *)
theory Sui_Retained
  imports Sui_Pool
begin

text \<open>
  The retained states of Turbos, Momentum and Bluefin: \<open>Warm\<close> (\<open>warm.go\<close>) captures a pool with its window of ticks,
  \<open>applyRetainedObjects\<close> and \<open>QuoteRetainedPair\<close> (\<open>retained_quote.go\<close>) keep it current from a live subscription and
  quote on it, and \<open>installRetainedWindow\<close> (\<open>retained_window.go\<close>) replaces it by a newer capture. What the three packages
  do differently is a \<open>venue\<close>.

  The cache holds the snapshots it published, the newest first; the code hands each to an observer. A mutex makes the
  operations atomic; only \<open>ObserveCheckpoint\<close> runs beside a capture, so the floor that others observed is part of the
  environment, as are the answers of the reader and the clock, all indexed by the number of reads made so far.
\<close>

section \<open>State\<close>

record Checkpoint =
  cp_sequence :: u64
  cp_digest :: string
  cp_time :: "int option"

record QuoteSnapshot =
  snap_observation :: Observation
  snap_pool :: Address
  snap_state :: quoteState
  snap_head :: Checkpoint

record StateCache =
  retained :: "quoteState option"
  retainedHead :: Checkpoint
  retainedRunning :: bool
  retainedScope :: "Address list option"
  stateObservation :: Observation
  observationCheckpoint :: u64
  accepted :: Checkpoint
  cache_pool :: Address
  maxAge :: int
  floor_seq :: u64
  cached_state :: "quoteState option"
  published :: "QuoteSnapshot option list"

record StateReader = Reader +
  LatestCheckpoint :: "nat \<Rightarrow> Checkpoint res"
  CheckpointBySequenceNumber :: "(nat \<Rightarrow> u64 \<Rightarrow> Checkpoint res) option"
  ObjectAtCheckpoint :: "nat \<Rightarrow> Address \<Rightarrow> u64 \<Rightarrow> Object option res"
  clock :: "nat \<Rightarrow> int"
  observed :: "nat \<Rightarrow> u64"

record venue =
  capture_pool :: "int \<Rightarrow> Object option \<Rightarrow> u64 \<Rightarrow> quoteState res"
  trading :: "StateReader \<Rightarrow> Address \<Rightarrow> quoteState \<Rightarrow> (nat, unit) proc"
  has_scope :: bool
  orphan :: "Address \<Rightarrow> quoteState \<Rightarrow> ObjectChange \<Rightarrow> bool res"
  retain_change :: "Address \<Rightarrow> quoteState \<Rightarrow> ObjectChange \<Rightarrow> (int \<rightharpoonup> int) \<times> (int \<rightharpoonup> int) \<Rightarrow> ((int \<rightharpoonup> int) \<times> (int \<rightharpoonup> int)) res"

definition no_checkpoint :: Checkpoint where
  "no_checkpoint = \<lparr>cp_sequence = 0, cp_digest = [], cp_time = None\<rparr>"

definition NewStateCache :: "Address \<Rightarrow> int \<Rightarrow> StateCache res" where
  "NewStateCache pool_id age =
     (if IsZero pool_id \<or> age \<le> 0 then Inl (Fail ''parameters=invalid'')
      else Inr \<lparr>retained = None, retainedHead = no_checkpoint, retainedRunning = False, retainedScope = None,
                stateObservation = \<lparr>epoch = 0, active = False, confirmed_at = None, source_time = None\<rparr>,
                observationCheckpoint = 0, accepted = no_checkpoint, cache_pool = pool_id, maxAge = age, floor_seq = 0,
                cached_state = None, published = []\<rparr>)"

definition ObserveCheckpoint :: "u64 \<Rightarrow> StateCache \<Rightarrow> StateCache" where
  "ObserveCheckpoint cp c = (if cp \<le> floor_seq c then c else c\<lparr>floor_seq := cp\<rparr>)"

definition captureQuoteSnapshotLocked :: "StateCache \<Rightarrow> QuoteSnapshot option" where
  "captureQuoteSnapshotLocked c =
     map_option (\<lambda>s. \<lparr>snap_observation = stateObservation c, snap_pool = cache_pool c, snap_state = s, snap_head = retainedHead c\<rparr>) (retained c)"

definition publish :: "StateCache \<Rightarrow> StateCache" where
  "publish c = c\<lparr>published := captureQuoteSnapshotLocked c # published c\<rparr>"

section \<open>Applying changed objects\<close>

definition normalizeMovePath :: "string \<Rightarrow> string res" where
  "normalizeMovePath value =
     (let trimmed = TrimSpace value;
          addr = (case before_colons trimmed of None \<Rightarrow> trimmed | Some p \<Rightarrow> p)
      in ebind (ParseAddress addr) (\<lambda>a. Inr (Address_String a @ drop (length addr) trimmed)))"

definition NormalizeMoveType :: "string \<Rightarrow> string res" where
  "NormalizeMoveType value =
     (case normalizeMovePath value of Inl e \<Rightarrow> Inl (Fail ''move_type=invalid'')
      | Inr t \<Rightarrow> if Contains t ''::'' then Inr t else Inl (Fail ''move_type=invalid''))"

definition field_prefix :: string where
  "field_prefix = ''0x0000000000000000000000000000000000000000000000000000000000000002::dynamic_field::Field<''"

definition move_of :: "Object option \<Rightarrow> (string \<times> raw) res" where
  "move_of obj =
     (case obj of None \<Rightarrow> Inl (Fail ''object=null'')
      | Some ob \<Rightarrow> (case obj_move ob of None \<Rightarrow> Inl (Fail ''object=null'') | Some m \<Rightarrow> Inr m))"

text \<open>Indexed liquidity fields are told from other children of the pool by the type of their key.\<close>

definition retainedIndexField :: "Object option \<Rightarrow> string \<Rightarrow> bool res" where
  "retainedIndexField obj key =
     ebind (move_of obj) (\<lambda>(mtype, _).
     ebind (NormalizeMoveType mtype) (\<lambda>typ.
     if \<not> HasPrefix typ field_prefix then Inr False
     else
       ebind (moveTypeArguments typ) (\<lambda>args.
       if length args \<noteq> 2 then Inl (Fail ''type_arguments=invalid'')
       else if \<not> Contains (args ! 0) ''::'' then Inr False
       else ebind (NormalizeMoveType (args ! 0)) (\<lambda>k. ebind (NormalizeMoveType key) (\<lambda>expected. Inr (k = expected))))))"

definition field_decoder :: "(raw \<times> raw) decoder" where
  "field_decoder = struct_of
     [(''name'', struct_of [(''bits'', raw_field (\<lambda>r (_, v). (r, v)))]), (''value'', raw_field (\<lambda>r (k, _). (k, r)))]"

text \<open>One changed field: a word of the bitmap, 0 when it was removed, or a tick.\<close>

definition store_field :: "bool \<Rightarrow> bool \<Rightarrow> bool \<Rightarrow> raw \<Rightarrow> (int \<rightharpoonup> int) \<times> (int \<rightharpoonup> int) \<Rightarrow> ((int \<rightharpoonup> int) \<times> (int \<rightharpoonup> int)) res" where
  "store_field named in_bitmap remove json = (\<lambda>(ws, ns).
     ebind (Unmarshal field_decoder json (raw.Missing, raw.Missing)) (\<lambda>(bits, value).
     if named \<and> (bits = raw.Missing \<or> bits = Raw JNull) then Inl (Fail ''name_bits=null'')
     else
       ebind (jsonUnsigned bits) (\<lambda>index.
       if BitLen_gt index 32 then Inl (Fail ''index=out_of_range'')
       else
         (let key = i32 index in
          if in_bitmap then
            ebind (if remove then Inr 0 else jsonUnsigned value) (\<lambda>w.
            if BitLen_gt w 256 then Inl (Fail ''word=out_of_range'') else Inr (ws(key \<mapsto> w), ns))
          else if remove then Inr (ws, ns(key := None))
          else ebind (net_value value) (\<lambda>v. Inr (ws, ns(key \<mapsto> v)))))))"

definition leaves :: "quoteState \<Rightarrow> ObjectChange \<Rightarrow> bool" where
  "leaves old ch \<longleftrightarrow> (input_parent ch = bitmap_id old \<or> input_parent ch = ticks_id old) \<and> output_parent ch \<noteq> input_parent ch"

definition touches :: "Address \<Rightarrow> quoteState \<Rightarrow> ObjectChange \<Rightarrow> bool" where
  "touches pool_id old ch \<longleftrightarrow>
     input_parent ch \<in> {bitmap_id old, ticks_id old, pool_id} \<or> output_parent ch \<in> {bitmap_id old, ticks_id old, pool_id}"

definition turbos_orphan :: "Address \<Rightarrow> quoteState \<Rightarrow> ObjectChange \<Rightarrow> bool res" where
  "turbos_orphan pool_id old ch =
     (if touches pool_id old ch
      then retainedIndexField (if deleted ch \<or> leaves old ch then before ch else after ch) (keyType old)
      else Inr False)"

definition turbos_retain_change :: "Address \<Rightarrow> quoteState \<Rightarrow> ObjectChange \<Rightarrow> (int \<rightharpoonup> int) \<times> (int \<rightharpoonup> int) \<Rightarrow> ((int \<rightharpoonup> int) \<times> (int \<rightharpoonup> int)) res" where
  "turbos_retain_change pool_id old ch acc =
     (let remove = deleted ch \<or> leaves old ch;
          parent = (if remove then input_parent ch else output_parent ch);
          obj = (if remove then before ch else after ch)
      in if parent \<noteq> bitmap_id old \<and> parent \<noteq> ticks_id old then Inr acc
         else
           ebind (move_of obj) (\<lambda>(_, json).
           ebind (retainedIndexField obj (keyType old)) (\<lambda>indexed.
           if \<not> indexed then Inr acc else store_field True (parent = bitmap_id old) remove json acc)))"

definition bluefin_orphan :: "Address \<Rightarrow> quoteState \<Rightarrow> ObjectChange \<Rightarrow> bool res" where
  "bluefin_orphan pool_id old ch = Inr (touches pool_id old ch)"

definition bluefin_retain_change :: "Address \<Rightarrow> quoteState \<Rightarrow> ObjectChange \<Rightarrow> (int \<rightharpoonup> int) \<times> (int \<rightharpoonup> int) \<Rightarrow> ((int \<rightharpoonup> int) \<times> (int \<rightharpoonup> int)) res" where
  "bluefin_retain_change pool_id old ch acc =
     (let remove = deleted ch \<or> leaves old ch;
          parent = (if remove then input_parent ch else output_parent ch);
          obj = (if remove then before ch else after ch)
      in if parent \<noteq> bitmap_id old \<and> parent \<noteq> ticks_id old then Inr acc
         else ebind (move_of obj) (\<lambda>(_, json). store_field False (parent = bitmap_id old) remove json acc))"

text \<open>
  Momentum switches trading off with fields of the pool whose key is a byte string, which JSON holds in base64 or as
  an array of numbers.
\<close>

definition base64_value :: "char \<Rightarrow> nat option" where
  "base64_value c =
     (let n = byte_of c in
      if byte_of (CHR ''A'') \<le> n \<and> n \<le> byte_of (CHR ''Z'') then Some (n - byte_of (CHR ''A''))
      else if byte_of (CHR ''a'') \<le> n \<and> n \<le> byte_of (CHR ''z'') then Some (n - byte_of (CHR ''a'') + 26)
      else if is_digit c then Some (n - byte_of (CHR ''0'') + 52)
      else if c = CHR ''+'' then Some 62 else if c = CHR ''/'' then Some 63 else None)"

fun base64_quanta :: "nat option list \<Rightarrow> string option" where
  "base64_quanta [] = Some []"
| "base64_quanta [Some a, Some b] = Some [char_of (a * 4 + b div 16)]"
| "base64_quanta [Some a, Some b, Some c] = Some [char_of (a * 4 + b div 16), char_of (b mod 16 * 16 + c div 4)]"
| "base64_quanta (Some a # Some b # Some c # Some d # rest) =
     map_option (\<lambda>r. char_of (a * 4 + b div 16) # char_of (b mod 16 * 16 + c div 4) # char_of (c mod 4 * 64 + d) # r) (base64_quanta rest)"
| "base64_quanta _ = None"

definition base64_decode :: "string \<Rightarrow> string option" where
  "base64_decode text =
     (let s = filter (\<lambda>c. c \<noteq> CHR 0x0A \<and> c \<noteq> CHR 0x0D) text;
          body = (if length s \<ge> 4 \<and> drop (length s - 2) s = ''=='' then take (length s - 2) s
                  else if length s \<ge> 4 \<and> List.last s = CHR ''='' then take (length s - 1) s else s)
      in if length s mod 4 \<noteq> 0 then None else base64_quanta (List.map base64_value body))"

definition byte_element :: "json \<Rightarrow> char option" where
  "byte_element j =
     (case j of JNull \<Rightarrow> Some (char_of (0 :: nat))
      | JNumber s \<Rightarrow> (case unsigned_text s of None \<Rightarrow> None | Some n \<Rightarrow> if n \<le> 255 then Some (char_of (nat n)) else None)
      | _ \<Rightarrow> None)"

definition bytes_field :: "raw \<Rightarrow> string res" where
  "bytes_field value =
     (case value of
        Raw JNull \<Rightarrow> Inr []
      | Raw (JString s) \<Rightarrow> (case base64_decode s of None \<Rightarrow> Inl (Fail ''json=invalid'') | Some b \<Rightarrow> Inr b)
      | Raw (JArray js) \<Rightarrow>
          (if list_ex (\<lambda>j. byte_element j = None) js then Inl (Fail ''json=invalid'') else Inr (List.map (\<lambda>j. the (byte_element j)) js))
      | _ \<Rightarrow> Inl (Fail ''json=invalid''))"

definition config_decoder :: "(raw \<times> raw) decoder" where
  "config_decoder = struct_of [(''name'', raw_field (\<lambda>r (_, v). (r, v))), (''value'', raw_field (\<lambda>r (k, _). (k, r)))]"

definition config_change :: "Object option \<Rightarrow> unit res" where
  "config_change obj =
     ebind (move_of obj) (\<lambda>(mtype, json).
     ebind (NormalizeMoveType mtype) (\<lambda>typ.
     if \<not> HasPrefix typ (field_prefix @ ''vector<u8>,'') then Inr ()
     else
       ebind (Unmarshal config_decoder json (raw.Missing, raw.Missing)) (\<lambda>(name, _).
       ebind (bytes_field name) (\<lambda>key.
       if key = ''pause'' \<or> key = ''trading_enabled'' then Inl (Fail ''trading_configuration=changed'') else Inr ()))))"

definition momentum_retain_change :: "Address \<Rightarrow> quoteState \<Rightarrow> ObjectChange \<Rightarrow> (int \<rightharpoonup> int) \<times> (int \<rightharpoonup> int) \<Rightarrow> ((int \<rightharpoonup> int) \<times> (int \<rightharpoonup> int)) res" where
  "momentum_retain_change pool_id old ch acc =
     (let remove = deleted ch \<or> leaves old ch \<or> input_parent ch = pool_id \<and> output_parent ch \<noteq> input_parent ch;
          parent = (if remove then input_parent ch else output_parent ch);
          obj = (if remove then before ch else after ch)
      in if parent \<noteq> bitmap_id old \<and> parent \<noteq> ticks_id old
         then if parent = pool_id then ebind (config_change obj) (\<lambda>_. Inr acc) else Inr acc
         else ebind (move_of obj) (\<lambda>(_, json). store_field False (parent = bitmap_id old) remove json acc))"

text \<open>The state after a transaction that changed the pool, none when the version is not a later one.\<close>

fun first_orphan :: "(ObjectChange \<Rightarrow> bool res) \<Rightarrow> ObjectChange list \<Rightarrow> unit res" where
  "first_orphan f [] = Inr ()"
| "first_orphan f (ch # chs) = ebind (f ch) (\<lambda>b. if b then Inl (Fail ''pool_change=missing'') else first_orphan f chs)"

fun retain_changes :: "venue \<Rightarrow> Address \<Rightarrow> quoteState \<Rightarrow> ObjectChange list \<Rightarrow> (int \<rightharpoonup> int) \<times> (int \<rightharpoonup> int) \<Rightarrow> ((int \<rightharpoonup> int) \<times> (int \<rightharpoonup> int)) res" where
  "retain_changes v pool_id old [] acc = Inr acc"
| "retain_changes v pool_id old (ch # chs) acc =
     ebind (retain_change v pool_id old ch acc) (\<lambda>acc. retain_changes v pool_id old chs acc)"

definition next_state :: "venue \<Rightarrow> int \<Rightarrow> Address \<Rightarrow> quoteState \<Rightarrow> ObjectChange list \<Rightarrow> ObjectChange \<Rightarrow> quoteState option res" where
  "next_state v now pool_id old chs changed =
     (case after changed of None \<Rightarrow> Inl (Fail ''pool=deleted'')
      | Some ob \<Rightarrow>
          if obj_version ob < version old then Inr None
          else if obj_version ob = version old
          then if obj_digest ob \<noteq> state_digest old then Inl (Fail ''digest=mismatch'') else Inr None
          else
            ebind (capture_pool v now (Some ob) (checkpoint old)) (\<lambda>fresh.
            if bitmap_id fresh \<noteq> bitmap_id old \<or> ticks_id fresh \<noteq> ticks_id old \<or> keyType fresh \<noteq> keyType old
               \<or> take 2 (coin_types (pool fresh)) \<noteq> take 2 (coin_types (pool old))
            then Inl (Fail ''configuration=changed'')
            else
              ebind (retain_changes v pool_id old chs (words old, nets old)) (\<lambda>(ws, ns).
              Inr (Some (fresh\<lparr>words := ws, nets := ns, retainedOnly := True, captured := captured old, received := received old\<rparr>)))))"

definition placed :: "TransactionEffects \<Rightarrow> u64 \<Rightarrow> int \<Rightarrow> quoteState \<Rightarrow> quoteState" where
  "placed e cp at s = s\<lparr>position := Some \<lparr>pos_kind = ''transaction'', pos_sequence = cp, pos_digest = eff_digest e, pos_index = eff_index e\<rparr>,
     received := max at (received s)\<rparr>"

definition retain_objects :: "venue \<Rightarrow> int \<Rightarrow> StateCache \<Rightarrow> TransactionNotification option \<Rightarrow> int \<Rightarrow> quoteState option res" where
  "retain_objects v now c notif at =
     (case notif of None \<Rightarrow> Inl (Fail ''state=null'')
      | Some n \<Rightarrow>
          (case effects n of
             None \<Rightarrow> (case changes_error n of Some e \<Rightarrow> Inl e | None \<Rightarrow> Inr (retained c))
           | Some e \<Rightarrow>
               (case (retained c, eff_checkpoint e) of
                  (Some old, Some cp) \<Rightarrow>
                    if cp \<le> cp_sequence (retainedHead c) then Inr (Some old)
                    else
                      (case List.find (\<lambda>ch. change_address ch = cache_pool c) (changes n) of
                         None \<Rightarrow> ebind (first_orphan (orphan v (cache_pool c) old) (changes n)) (\<lambda>_. Inr (Some old))
                       | Some changed \<Rightarrow>
                           ebind (next_state v now (cache_pool c) old (changes n) changed) (\<lambda>next.
                           Inr (Some (case next of None \<Rightarrow> old | Some s \<Rightarrow> placed e cp at s))))
                | _ \<Rightarrow> Inl (Fail ''state=null''))))"

definition applyRetainedObjects :: "venue \<Rightarrow> int \<Rightarrow> TransactionNotification option \<Rightarrow> int \<Rightarrow> (StateCache, unit) proc" where
  "applyRetainedObjects v now notif at c =
     (let (r, c) = (case retain_objects v now c notif at of Inl e \<Rightarrow> (Inl e, c) | Inr s \<Rightarrow> (Inr (), c\<lparr>retained := s\<rparr>));
          (r, c) = (if r = Inr () \<and> \<not> Option.is_none (retained c)
                    then (case ObserveProgress notif (cp_sequence (retainedHead c)) now (stateObservation c, observationCheckpoint c) of
                            (r, (ob, k)) \<Rightarrow> (r, c\<lparr>stateObservation := ob, observationCheckpoint := k\<rparr>))
                    else (r, c));
          c = (if r \<noteq> Inr () then c\<lparr>retained := None\<rparr> else c)
      in (r, publish c))"

section \<open>Capturing\<close>

type_synonym 'a retained_proc = "(StateCache \<times> nat, 'a) proc"

definition on_reads :: "(nat, 'a) proc \<Rightarrow> 'a retained_proc" where
  "on_reads m = (\<lambda>(c, n). case m n of (r, n) \<Rightarrow> (r, (c, n)))"

definition on_state :: "'a cache_proc \<Rightarrow> 'a retained_proc" where
  "on_state m = (\<lambda>(c, n). case cached_state c of None \<Rightarrow> (Inl (Panic ''nil state''), (c, n))
     | Some s \<Rightarrow> (case m (s, n) of (r, (s, n)) \<Rightarrow> (r, (c\<lparr>cached_state := Some s\<rparr>, n))))"

definition on_cache :: "(StateCache \<Rightarrow> StateCache) \<Rightarrow> unit retained_proc" where
  "on_cache f = update (\<lambda>(c, n). (f c, n))"

definition ErrStateChanged :: failure where
  "ErrStateChanged = Sentinel ''quote state changed''"

definition one_read :: "(nat \<Rightarrow> 'a res) \<Rightarrow> (nat, 'a) proc" where
  "one_read f = reading (\<lambda>n. andthen (update Suc) (\<lambda>_. lift (f n)))"

definition QuoteCheckpoint :: "StateReader \<Rightarrow> u64 \<Rightarrow> (nat, Checkpoint) proc" where
  "QuoteCheckpoint env low =
     andthen (one_read (LatestCheckpoint env)) (\<lambda>head.
     if cp_sequence head \<ge> low then ret head
     else case CheckpointBySequenceNumber env of
            None \<Rightarrow> throw ErrStateChanged
          | Some f \<Rightarrow>
              andthen (one_read (\<lambda>n. f n low)) (\<lambda>head.
              if cp_sequence head \<noteq> low then throw (Fail ''sequence_number=mismatch'') else ret head))"

definition cur_floor :: "StateReader \<Rightarrow> StateCache \<Rightarrow> nat \<Rightarrow> u64" where
  "cur_floor env c n = max (floor_seq c) (observed env n)"

definition too_old :: "StateReader \<Rightarrow> StateCache \<Rightarrow> nat \<Rightarrow> int \<Rightarrow> bool" where
  "too_old env c n t \<longleftrightarrow> clock env n - t > maxAge c"

definition earlier :: "int \<Rightarrow> int option \<Rightarrow> bool" where
  "earlier t other \<longleftrightarrow> (case other of None \<Rightarrow> False | Some u \<Rightarrow> t < u)"

definition head_check :: "StateReader \<Rightarrow> StateCache \<Rightarrow> nat \<Rightarrow> Checkpoint \<Rightarrow> unit res" where
  "head_check env c n head =
     (case cp_time head of None \<Rightarrow> Inl (Fail ''checkpoint=invalid'')
      | Some t \<Rightarrow>
          if too_old env c n t then Inl (Fail ''checkpoint=invalid'')
          else if cp_sequence head < cur_floor env c n then Inl ErrStateChanged
          else if cp_sequence head < cp_sequence (accepted c) \<or> earlier t (cp_time (accepted c)) then Inl (Fail ''checkpoint=regressed'')
          else if cp_sequence head = cp_sequence (accepted c) \<and> cp_digest head \<noteq> cp_digest (accepted c)
          then Inl (Fail ''checkpoint_digest=mismatch'')
          else Inr ())"

definition captureWindow :: "StateReader \<Rightarrow> quoteState \<Rightarrow> (nat, quoteState) proc" where
  "captureWindow env s =
     andthen (Read (Reader.truncate env) (checkpoint s) (bitmap_id s) (ticks_id s) (keyType s) (tick_index (pool s)) (i32 (uint (tick_spacing (pool s))))) (\<lambda>(ws, ns).
     ret (s\<lparr>words := ws, nets := ns\<rparr>))"

definition stale :: "StateReader \<Rightarrow> StateCache \<Rightarrow> nat \<Rightarrow> Object \<Rightarrow> bool" where
  "stale env c n ob \<longleftrightarrow>
     (case cached_state c of None \<Rightarrow> True
      | Some s \<Rightarrow> obj_version ob \<noteq> version s \<or> obj_digest ob \<noteq> state_digest s \<or> too_old env c n (captured s))"

definition recapture :: "venue \<Rightarrow> StateReader \<Rightarrow> Object \<Rightarrow> u64 \<Rightarrow> unit retained_proc" where
  "recapture v env ob seq =
     reading (\<lambda>(c, n).
     andthen (lift (capture_pool v (clock env n) (Some ob) seq)) (\<lambda>s.
     andthen (on_reads (trading v env (cache_pool c) s)) (\<lambda>_.
     andthen (on_reads (captureWindow env s)) (\<lambda>s. on_cache (\<lambda>c. c\<lparr>cached_state := Some s\<rparr>)))))"

text \<open>The part that \<open>Warm\<close> and \<open>QuotePair\<close> share: a head, the pool object at it, and a cached state of that object.\<close>

definition acquire :: "venue \<Rightarrow> StateReader \<Rightarrow> (Checkpoint \<times> Object \<times> int) retained_proc" where
  "acquire v env =
     reading (\<lambda>(c, n).
     andthen (on_reads (QuoteCheckpoint env (cur_floor env c n))) (\<lambda>head.
     reading (\<lambda>(c, n).
     andthen (lift (head_check env c n head)) (\<lambda>_.
     andthen (on_reads (one_read (\<lambda>n. ObjectAtCheckpoint env n (cache_pool c) (cp_sequence head)))) (\<lambda>obj.
     reading (\<lambda>(c, n).
     case obj of None \<Rightarrow> throw (Fail ''object=invalid'')
     | Some ob \<Rightarrow>
         if obj_address ob \<noteq> cache_pool c \<or> obj_version ob = 0 then throw (Fail ''object=invalid'')
         else
           andthen (if stale env c n ob then recapture v env ob (cp_sequence head) else ret ()) (\<lambda>_.
           ret (head, ob, clock env n))))))))"

text \<open>The second look at the clock and the floor, after the reads.\<close>

definition still_current :: "StateReader \<Rightarrow> Checkpoint \<Rightarrow> unit retained_proc" where
  "still_current env head =
     reading (\<lambda>(c, n).
     case ctx_err env n of Some e \<Rightarrow> throw e
     | None \<Rightarrow>
         if cp_sequence head < cur_floor env c n \<or> (case cp_time head of None \<Rightarrow> True | Some t \<Rightarrow> too_old env c n t)
            \<or> (case cached_state c of None \<Rightarrow> True | Some s \<Rightarrow> too_old env c n (captured s))
         then throw ErrStateChanged else ret ())"

definition scope_changed :: "StateCache \<Rightarrow> quoteState \<Rightarrow> bool" where
  "scope_changed c s \<longleftrightarrow> (case retainedScope c of None \<Rightarrow> False | Some ids \<Rightarrow> ids \<noteq> [bitmap_id s, ticks_id s])"

text \<open>The detached copy that is retained makes no reads.\<close>

definition retain_state :: "Checkpoint \<Rightarrow> int \<Rightarrow> StateCache \<Rightarrow> StateCache" where
  "retain_state head at c =
     (case cached_state c of None \<Rightarrow> c
      | Some s \<Rightarrow> publish (c\<lparr>cached_state := Some (s\<lparr>received := at\<rparr>), retained := Some (s\<lparr>received := at, retainedOnly := True\<rparr>), retainedHead := head\<rparr>))"

definition Warm :: "venue \<Rightarrow> StateReader \<Rightarrow> unit retained_proc" where
  "Warm v env =
     andthen (acquire v env) (\<lambda>(head, ob, at).
     andthen (still_current env head) (\<lambda>_.
     andthen (on_cache (\<lambda>c. c\<lparr>accepted := head\<rparr>)) (\<lambda>_.
     reading (\<lambda>(c, n).
       case cached_state c of None \<Rightarrow> throw (Panic ''nil state'')
       | Some s \<Rightarrow> if has_scope v \<and> scope_changed c s then throw (Fail ''subscription_scope=changed'') else on_cache (retain_state head at)))))"

section \<open>Quoting\<close>

record 'a pair_params =
  bid_pool :: Address
  ask_pool :: Address
  bid_in :: 'a
  ask_out :: 'a
  bid_down :: bool
  ask_down :: bool
  bid_limit :: "int option"
  ask_limit :: "int option"

record 'q pair_result =
  pair_received :: int
  pair_bid :: 'q
  pair_ask :: 'q
  pair_checkpoint :: u64
  pair_version :: u64
  pair_digest :: string
  pair_time :: "int option"

type_synonym ('a, 'q) quoter = "Reader \<Rightarrow> 'a \<Rightarrow> bool \<Rightarrow> bool \<Rightarrow> int option \<Rightarrow> 'q cache_proc"

definition pair_invalid :: "StateCache \<Rightarrow> 'a pair_params \<Rightarrow> bool" where
  "pair_invalid c p \<longleftrightarrow> bid_pool p \<noteq> cache_pool c \<or> ask_pool p \<noteq> cache_pool c \<or> bid_down p = ask_down p"

definition QuotePair :: "venue \<Rightarrow> ('a, 'q) quoter \<Rightarrow> StateReader \<Rightarrow> 'a pair_params \<Rightarrow> 'q pair_result retained_proc" where
  "QuotePair v q env p =
     reading (\<lambda>(c, n).
     if pair_invalid c p then throw (Fail ''parameters=invalid'')
     else
       andthen (acquire v env) (\<lambda>(head, ob, at).
       andthen (on_state (q (Reader.truncate env) (bid_in p) (bid_down p) True (bid_limit p))) (\<lambda>bid.
       andthen (on_state (q (Reader.truncate env) (ask_out p) (ask_down p) False (ask_limit p))) (\<lambda>ask.
       andthen (still_current env head) (\<lambda>_.
       andthen (on_cache (\<lambda>c. retain_state head at (c\<lparr>accepted := head\<rparr>))) (\<lambda>_.
       ret \<lparr>pair_received = at, pair_bid = bid, pair_ask = ask, pair_checkpoint = cp_sequence head,
             pair_version = obj_version ob, pair_digest = obj_digest ob, pair_time = cp_time head\<rparr>))))))"

definition QuoteRetainedPair :: "('a, 'q) quoter \<Rightarrow> Reader \<Rightarrow> StateCache \<Rightarrow> 'a pair_params \<Rightarrow> nat \<Rightarrow> 'q pair_result res" where
  "QuoteRetainedPair q env c p n =
     (if pair_invalid c p then Inl (Fail ''parameters=invalid'')
      else case ctx_err env n of Some e \<Rightarrow> Inl e
      | None \<Rightarrow>
          (case retained c of None \<Rightarrow> Inl (Fail ''snapshot=null'')
           | Some s \<Rightarrow>
               fst (andthen (q env (bid_in p) (bid_down p) True (bid_limit p)) (\<lambda>bid.
                    andthen (q env (ask_out p) (ask_down p) False (ask_limit p)) (\<lambda>ask.
                    reading (\<lambda>(s, n).
                    case ctx_err env n of Some e \<Rightarrow> throw e
                    | None \<Rightarrow>
                        ret \<lparr>pair_received = received s, pair_bid = bid, pair_ask = ask, pair_checkpoint = cp_sequence (retainedHead c),
                              pair_version = version s, pair_digest = state_digest s, pair_time = cp_time (retainedHead c)\<rparr>))) (s, n))))"

section \<open>Replacing the window\<close>

definition retainedCoverageMissing :: "StateCache \<Rightarrow> bool" where
  "retainedCoverageMissing c =
     (case retained c of None \<Rightarrow> False
      | Some s \<Rightarrow> Missing (tick_index (pool s)) (i32 (uint (tick_spacing (pool s)))) (words s) (nets s) = Inr True)"

definition candidate_floor :: "StateCache \<Rightarrow> quoteState \<Rightarrow> u64" where
  "candidate_floor c s =
     (case position s of None \<Rightarrow> cp_sequence (retainedHead c) | Some p \<Rightarrow> max (pos_sequence p) (cp_sequence (retainedHead c)))"

definition captureRetainedWindow :: "venue \<Rightarrow> StateReader \<Rightarrow> StateCache \<Rightarrow> (nat, StateCache) proc" where
  "captureRetainedWindow v env c =
     (case retained c of None \<Rightarrow> throw (Fail ''state=null'')
      | Some s \<Rightarrow>
          andthen (lift (NewStateCache (cache_pool c) (maxAge c))) (\<lambda>candidate n.
          case Warm v env (ObserveCheckpoint (candidate_floor c s) candidate, n) of
            (Inl e, (_, n)) \<Rightarrow> (Inl e, n) | (Inr _, (candidate, n)) \<Rightarrow> (Inr candidate, n)))"

fun replay_updates :: "venue \<Rightarrow> int \<Rightarrow> Update list \<Rightarrow> (StateCache, unit) proc" where
  "replay_updates v now [] = ret ()"
| "replay_updates v now (u # us) =
     andthen (applyRetainedObjects v now (Some (notification u)) (received_at u)) (\<lambda>_. replay_updates v now us)"

definition installRetainedWindow :: "venue \<Rightarrow> int \<Rightarrow> StateCache \<Rightarrow> Update list \<Rightarrow> (StateCache, unit) proc" where
  "installRetainedWindow v now candidate us =
     (if Option.is_none (retained candidate) then throw (Fail ''snapshot=null'')
      else
        (case replay_updates v now us candidate of
           (Inl e, _) \<Rightarrow> throw e
         | (Inr _, candidate) \<Rightarrow>
             reading (\<lambda>c.
             case (retained c, retained candidate) of
               (Some old, Some next) \<Rightarrow>
                 if version next < version old \<or> cp_sequence (retainedHead candidate) < cp_sequence (retainedHead c)
                 then throw (Fail ''position=regressed'')
                 else if version next = version old \<and> state_digest next \<noteq> state_digest old then throw (Fail ''digest=mismatch'')
                 else update (\<lambda>c. publish (c\<lparr>retained := Some next, retainedHead := retainedHead candidate\<rparr>))
             | _ \<Rightarrow> throw (Fail ''state=null''))))"

section \<open>The subscription\<close>

text \<open>
  \<open>RunRetained\<close> around its event loop: what it does before subscribing, after the initialization, and when it returns.
  Only Turbos withdraws the retained state of an earlier subscription.
\<close>

definition withdraw :: "venue \<Rightarrow> StateCache \<Rightarrow> StateCache" where
  "withdraw v c = (if has_scope v then c\<lparr>retained := None, retainedScope := None\<rparr> else c)"

definition retain_begin :: "venue \<Rightarrow> (StateCache, unit) proc" where
  "retain_begin v = reading (\<lambda>c.
     if retainedRunning c then throw (Fail ''subscription=active'')
     else update (\<lambda>c. publish (withdraw v (c\<lparr>retainedRunning := True,
            stateObservation := \<lparr>epoch = Suc (epoch (stateObservation c)), active = False, confirmed_at = None, source_time = None\<rparr>,
            observationCheckpoint := 0\<rparr>))))"

definition retain_initialized :: "int \<Rightarrow> StateCache \<Rightarrow> StateCache" where
  "retain_initialized now c =
     (let ob = (stateObservation c)\<lparr>active := True, confirmed_at := Some now\<rparr>;
          ob = (if Option.is_none (retained c) then ob else ob\<lparr>source_time := cp_time (retainedHead c)\<rparr>)
      in publish (c\<lparr>stateObservation := ob\<rparr>))"

definition retain_end :: "venue \<Rightarrow> StateCache \<Rightarrow> StateCache" where
  "retain_end v c = publish (withdraw v (c\<lparr>retainedRunning := False, stateObservation := (stateObservation c)\<lparr>active := False\<rparr>\<rparr>))"

text \<open>A live update; when it cannot be applied, later quotes must include its checkpoint.\<close>

definition retain_update :: "venue \<Rightarrow> int \<Rightarrow> Update \<Rightarrow> (StateCache, unit) proc" where
  "retain_update v now u c =
     (case applyRetainedObjects v now (Some (notification u)) (received_at u) c of
        (Inl e, c) \<Rightarrow>
          (Inl e, case effects (notification u) of None \<Rightarrow> c
                  | Some ef \<Rightarrow> (case eff_checkpoint ef of None \<Rightarrow> c | Some cp \<Rightarrow> ObserveCheckpoint cp c))
      | (Inr _, c) \<Rightarrow> (Inr (), c))"

definition retained_handlers :: "venue \<Rightarrow> int \<Rightarrow> (StateCache, StateCache) handlers" where
  "retained_handlers v now =
     \<lparr>apply_update = retain_update v now, missing = retainedCoverageMissing, install = installRetainedWindow v now\<rparr>"

section \<open>The venues\<close>

definition checkTrading :: "StateReader \<Rightarrow> Address \<Rightarrow> quoteState \<Rightarrow> (nat, unit) proc" where
  "checkTrading env pool_id s =
     andthen (one_read (\<lambda>n. DynamicValues env n pool_id (checkpoint s)
       [(''vector<u8>'', 5 # List.map of_char ''pause''), (''vector<u8>'', 15 # List.map of_char ''trading_enabled'')])) (\<lambda>vals.
     case vals of
       [pause, trade] \<Rightarrow>
         andthen (lift (if pause = raw.Missing then Inr False else Unmarshal (bool_field (\<lambda>b _. b)) pause False)) (\<lambda>paused.
         andthen (lift (if trade = raw.Missing then Inr True else Unmarshal (bool_field (\<lambda>b _. b)) trade False)) (\<lambda>enabled.
         if paused \<or> \<not> enabled then throw (Fail ''trading=disabled'') else ret ()))
     | _ \<Rightarrow> throw (Fail ''fields=invalid''))"

definition turbos_venue :: venue where
  "turbos_venue = \<lparr>capture_pool = turbos_capturePool, trading = (\<lambda>env pool_id s. ret ()), has_scope = True,
     orphan = turbos_orphan, retain_change = turbos_retain_change\<rparr>"

definition momentum_venue :: venue where
  "momentum_venue = \<lparr>capture_pool = momentum_capturePool, trading = checkTrading, has_scope = False,
     orphan = bluefin_orphan, retain_change = momentum_retain_change\<rparr>"

definition bluefin_venue :: venue where
  "bluefin_venue = \<lparr>capture_pool = bluefin_capturePool, trading = (\<lambda>env pool_id s. ret ()), has_scope = False,
     orphan = bluefin_orphan, retain_change = bluefin_retain_change\<rparr>"

section \<open>The operations of each venue\<close>

text \<open>The three packages repeat the operations above; these are the instances of Momentum and Bluefin, as their files have them.\<close>

definition momentum_Warm :: "StateReader \<Rightarrow> unit retained_proc" where
  "momentum_Warm = Warm momentum_venue"

definition momentum_QuotePair :: "StateReader \<Rightarrow> u64 pair_params \<Rightarrow> momentumQuote pair_result retained_proc" where
  "momentum_QuotePair = QuotePair momentum_venue momentum_quote"

definition momentum_QuoteRetainedPair :: "Reader \<Rightarrow> StateCache \<Rightarrow> u64 pair_params \<Rightarrow> nat \<Rightarrow> momentumQuote pair_result res" where
  "momentum_QuoteRetainedPair = QuoteRetainedPair momentum_quote"

definition momentum_applyRetainedObjects :: "int \<Rightarrow> TransactionNotification option \<Rightarrow> int \<Rightarrow> (StateCache, unit) proc" where
  "momentum_applyRetainedObjects = applyRetainedObjects momentum_venue"

definition momentum_captureRetainedWindow :: "StateReader \<Rightarrow> StateCache \<Rightarrow> (nat, StateCache) proc" where
  "momentum_captureRetainedWindow = captureRetainedWindow momentum_venue"

definition momentum_installRetainedWindow :: "int \<Rightarrow> StateCache \<Rightarrow> Update list \<Rightarrow> (StateCache, unit) proc" where
  "momentum_installRetainedWindow = installRetainedWindow momentum_venue"

definition momentum_RunRetained :: "int \<Rightarrow> StateCache event list \<Rightarrow> StateCache producer \<Rightarrow> failure list option \<times> StateCache producer" where
  "momentum_RunRetained now = run_events (retained_handlers momentum_venue now)"

definition bluefin_Warm :: "StateReader \<Rightarrow> unit retained_proc" where
  "bluefin_Warm = Warm bluefin_venue"

definition bluefin_QuotePair :: "StateReader \<Rightarrow> u64 pair_params \<Rightarrow> bluefinQuote pair_result retained_proc" where
  "bluefin_QuotePair = QuotePair bluefin_venue bluefin_quote"

definition bluefin_QuoteRetainedPair :: "Reader \<Rightarrow> StateCache \<Rightarrow> u64 pair_params \<Rightarrow> nat \<Rightarrow> bluefinQuote pair_result res" where
  "bluefin_QuoteRetainedPair = QuoteRetainedPair bluefin_quote"

definition bluefin_applyRetainedObjects :: "int \<Rightarrow> TransactionNotification option \<Rightarrow> int \<Rightarrow> (StateCache, unit) proc" where
  "bluefin_applyRetainedObjects = applyRetainedObjects bluefin_venue"

definition bluefin_captureRetainedWindow :: "StateReader \<Rightarrow> StateCache \<Rightarrow> (nat, StateCache) proc" where
  "bluefin_captureRetainedWindow = captureRetainedWindow bluefin_venue"

definition bluefin_installRetainedWindow :: "int \<Rightarrow> StateCache \<Rightarrow> Update list \<Rightarrow> (StateCache, unit) proc" where
  "bluefin_installRetainedWindow = installRetainedWindow bluefin_venue"

definition bluefin_RunRetained :: "int \<Rightarrow> StateCache event list \<Rightarrow> StateCache producer \<Rightarrow> failure list option \<times> StateCache producer" where
  "bluefin_RunRetained now = run_events (retained_handlers bluefin_venue now)"

end
