(* ===== verification/Sui_Retained_Inv.thy ===== *)
theory Sui_Retained_Inv
  imports Sui_Retained
begin

text \<open>
  What the retained caches of \<open>Sui_Retained\<close> promise. The locale \<open>retained_venue\<close> is the contract that a venue's parser
  and its decoder of changed objects keep; it is interpreted on Turbos, Momentum and Bluefin. Inside it every
  operation is shown to keep the invariant of the cache, and rule induction over all operations gives the properties.
\<close>

section \<open>What a venue promises\<close>

text \<open>The ranges that \<open>capturePool\<close> checks.\<close>

definition in_range :: "quoteState \<Rightarrow> bool" where
  "in_range s \<longleftrightarrow> (let p = pool s in
     0 < uint (tick_spacing p) \<and> uint (tick_spacing p) \<le> 443636 \<and> rate p < 1000000 \<and> protocolRate s \<le> 1000000
     \<and> 0 \<le> liquidity p \<and> liquidity p < 2 ^ 128 \<and> - 443636 \<le> tick_index p \<and> tick_index p \<le> 443636
     \<and> sqrtAtTick (- 443636) \<le> sqrt_price p \<and> sqrt_price p \<le> sqrtAtTick 443636)"

definition fresh_of :: "Object option \<Rightarrow> u64 \<Rightarrow> quoteState \<Rightarrow> bool" where
  "fresh_of obj cp s \<longleftrightarrow> in_range s \<and> \<not> retainedOnly s \<and> checkpoint s = cp
     \<and> (\<exists>ob. obj = Some ob \<and> version s = obj_version ob \<and> state_digest s = obj_digest ob)"

locale retained_venue =
  fixes v :: venue
  assumes capture_fresh: "\<And>now obj cp s. capture_pool v now obj cp = Inr s \<Longrightarrow> fresh_of obj cp s"
    and capture_calm: "\<And>now obj cp. \<not> panics (capture_pool v now obj cp)"
    and orphan_calm: "\<And>a old ch. \<not> panics (orphan v a old ch)"
    and change_calm: "\<And>a old ch acc. \<not> panics (retain_change v a old ch acc)"

lemma ebind_Inr: "ebind m f = Inr y \<longleftrightarrow> (\<exists>x. m = Inr x \<and> f x = Inr y)"
  by (cases m) (simp_all add: ebind_def)

lemma parse_object_Inr:
  "parse_object obj f = Inr y \<longleftrightarrow> (\<exists>ob typ js. obj = Some ob \<and> obj_move ob = Some (typ, js) \<and> f ob typ js = Inr y)"
  by (auto simp: parse_object_def split: option.splits)

lemma parse_object_calm: "(\<And>ob typ js. \<not> panics (f ob typ js)) \<Longrightarrow> \<not> panics (parse_object obj f)"
  by (auto simp: parse_object_def split: option.splits)

lemma captured_in_range:
  assumes "\<not> grid_invalid (uint (tick_spacing p)) (tick_index p)" and "\<not> 1000000 \<le> rate p"
    and "\<not> price_invalid (liquidity p) (sqrt_price p)" and "protocol \<le> 1000000"
  shows "fresh_of (Some ob) cp (captured_state ob p protocol cp now bm ts key)"
  using assms uint_ge_0 [of "tick_spacing p"]
  by (auto simp: fresh_of_def in_range_def captured_state_def grid_invalid_def price_invalid_def BitLen_gt_def Let_def not_le not_less order_le_less)

text \<open>Decoders that keep a property of the value they fill.\<close>

definition preserves :: "('a \<Rightarrow> bool) \<Rightarrow> 'a decoder \<Rightarrow> bool" where
  "preserves P d \<longleftrightarrow> (\<forall>j x y. P x \<longrightarrow> d j x = Some y \<longrightarrow> P y)"

lemma member_decoder_mem: "member_decoder fs k = Some d \<Longrightarrow> d \<in> snd ` set fs"
  by (induction fs) (auto split: if_splits)

lemma decode_members_preserves:
  assumes "\<forall>d \<in> snd ` set fs. preserves P d"
  shows "P x \<Longrightarrow> decode_members fs kvs x = Some y \<Longrightarrow> P y"
proof (induction kvs arbitrary: x)
  case (Cons kv kvs)
  obtain k j where kv: "kv = (k, j)" by (cases kv)
  show ?case
  proof (cases "member_decoder fs k")
    case None
    then show ?thesis using Cons kv by simp
  next
    case (Some d)
    then obtain z where z: "d j x = Some z" "decode_members fs kvs z = Some y" using Cons.prems kv by (auto split: option.splits)
    moreover have "preserves P d" using assms member_decoder_mem [OF Some] by blast
    ultimately show ?thesis using Cons by (auto simp: preserves_def)
  qed
qed simp

lemma preserves_struct:
  assumes "\<forall>d \<in> snd ` set fs. preserves P d"
  shows "preserves P (struct_of fs)"
  unfolding preserves_def [of P "struct_of fs"] struct_of_def
  by (auto split: json.splits elim: decode_members_preserves [OF assms, rotated])

lemma unsigned_text_nonneg: "unsigned_text s = Some n \<Longrightarrow> 0 \<le> n"
  by (auto simp: unsigned_text_def split: if_splits)

lemma preserves_fields:
  "(\<And>s x. P x \<Longrightarrow> P (put s x)) \<Longrightarrow> preserves P (string_field put)"
  "(\<And>n x. 0 \<le> n \<Longrightarrow> P x \<Longrightarrow> P (put' n x)) \<Longrightarrow> preserves P (uint_field k put')"
  "(\<And>r x. P x \<Longrightarrow> P (put'' r x)) \<Longrightarrow> preserves P (raw_field put'')"
  by (auto simp: preserves_def string_field_def uint_field_def raw_field_def dest: unsigned_text_nonneg split: json.splits option.splits if_splits)

lemma Unmarshal_preserves: "preserves P d \<Longrightarrow> P x \<Longrightarrow> Unmarshal d js x = Inr y \<Longrightarrow> P y"
  by (auto simp: Unmarshal_def preserves_def split: raw.splits option.splits)

lemma turbos_fields_nonneg:
  assumes "Unmarshal turbos_fields js ([], 0) = Inr (a, b)"
  shows "0 \<le> b"
proof -
  have "preserves (\<lambda>x. 0 \<le> snd x) turbos_fields"
    unfolding turbos_fields_def by (auto intro!: preserves_struct preserves_fields)
  from Unmarshal_preserves [OF this _ assms] show ?thesis by simp
qed

lemma bluefin_fields_nonneg:
  assumes "Unmarshal bluefin_fields_decoder js bluefin_fields_zero = Inr x"
  shows "0 \<le> bf_spacing x"
proof -
  have "preserves (\<lambda>x. 0 \<le> bf_spacing x) bluefin_fields_decoder"
    unfolding bluefin_fields_decoder_def by (auto intro!: preserves_struct preserves_fields)
  from Unmarshal_preserves [OF this _ assms] show ?thesis by (simp add: bluefin_fields_zero_def)
qed

lemma turbos_fresh: "turbos_capturePool now obj cp = Inr s \<Longrightarrow> fresh_of obj cp s"
  unfolding turbos_capturePool_def
  by (auto simp: ebind_Inr parse_object_Inr sui_pool.defs word_le_def uint_word_of_int dest!: turbos_fields_nonneg split: if_splits intro!: captured_in_range)

lemma momentum_fresh: "momentum_capturePool now obj cp = Inr s \<Longrightarrow> fresh_of obj cp s"
  unfolding momentum_capturePool_def
  by (auto simp: ebind_Inr parse_object_Inr sui_pool.defs split: if_splits intro!: captured_in_range)

lemma bluefin_fresh: "bluefin_capturePool now obj cp = Inr s \<Longrightarrow> fresh_of obj cp s"
  unfolding bluefin_capturePool_def
  by (auto simp: ebind_Inr parse_object_Inr sui_pool.defs grid_invalid_def uint_word_of_int Let_def dest!: bluefin_fields_nonneg split: if_splits intro!: captured_in_range)

lemma retained_calm_parts [simp]:
  "\<not> panics (ParseAddress a)" "\<not> panics (moveTypeArguments t)" "\<not> panics (pool_types k t)" "\<not> panics (package_key t)"
  "\<not> panics (move_of obj)" "\<not> panics (normalizeMovePath t)" "\<not> panics (NormalizeMoveType t)" "\<not> panics (bytes_field r)"
proof -
  show pa: "\<not> panics (ParseAddress a)" for a by (auto simp: ParseAddress_def Let_def split: option.splits)
  show "\<not> panics (moveTypeArguments t)" by (simp add: moveTypeArguments_def split: option.splits)
  show "\<not> panics (pool_types k t)" by (simp add: pool_types_def split: sum.splits)
  show "\<not> panics (package_key t)" by (simp add: package_key_def split: option.splits)
  show "\<not> panics (move_of obj)" by (simp add: move_of_def split: option.splits)
  show "\<not> panics (normalizeMovePath t)" by (simp add: normalizeMovePath_def Let_def panics_ebind pa)
  show "\<not> panics (NormalizeMoveType t)" by (simp add: NormalizeMoveType_def split: sum.splits)
  show "\<not> panics (bytes_field r)" by (simp add: bytes_field_def split: raw.splits json.splits option.splits)
qed

lemma retain_calm [simp]:
  "\<not> panics (retainedIndexField obj key)" "\<not> panics (store_field named b remove js acc)" "\<not> panics (config_change obj)"
  by (auto simp: retainedIndexField_def store_field_def config_change_def panics_ebind net_value_calm Let_def split: prod.splits)

lemma capture_calms:
  "\<not> panics (turbos_capturePool now obj cp)" "\<not> panics (momentum_capturePool now obj cp)" "\<not> panics (bluefin_capturePool now obj cp)"
proof -
  have p: "\<not> panics (turbos_ParsePool obj)" "\<not> panics (momentum_ParsePool obj)" "\<not> panics (bluefin_ParsePool obj)" for obj
    unfolding turbos_ParsePool_def momentum_ParsePool_def bluefin_ParsePool_def
    by (intro parse_object_calm; simp add: panics_ebind)+
  show "\<not> panics (turbos_capturePool now obj cp)" "\<not> panics (momentum_capturePool now obj cp)" "\<not> panics (bluefin_capturePool now obj cp)"
    unfolding turbos_capturePool_def momentum_capturePool_def bluefin_capturePool_def
    by (auto simp: panics_ebind p parse_object_def Let_def split: option.splits prod.splits)
qed

interpretation turbos_retained: retained_venue turbos_venue
  by unfold_locales
    (auto simp: turbos_venue_def turbos_fresh capture_calms turbos_orphan_def turbos_retain_change_def Let_def panics_ebind split: prod.splits)

interpretation momentum_retained: retained_venue momentum_venue
  by unfold_locales
    (auto simp: momentum_venue_def momentum_fresh capture_calms bluefin_orphan_def momentum_retain_change_def Let_def panics_ebind split: prod.splits)

interpretation bluefin_retained: retained_venue bluefin_venue
  by unfold_locales
    (auto simp: bluefin_venue_def bluefin_fresh capture_calms bluefin_orphan_def bluefin_retain_change_def Let_def panics_ebind split: prod.splits)

section \<open>Quotes only fill the cache\<close>

definition keeps :: "'a cache_proc \<Rightarrow> bool" where
  "keeps m \<longleftrightarrow> (\<forall>s n. grown s (fst (snd (m (s, n)))))"

lemma keeps_basic: "keeps (ret x)" "keeps (throw e)" "keeps (lift r)"
  by (simp_all add: keeps_def)

lemma keeps_andthen:
  assumes "keeps m" and "\<And>x. keeps (f x)"
  shows "keeps (andthen m f)"
  unfolding keeps_def
proof (intro allI)
  fix s n
  obtain r s' n' where m: "m (s, n) = (r, (s', n'))" by (cases "m (s, n)") auto
  have "grown s (fst (snd (m (s, n))))" using assms(1) by (simp add: keeps_def)
  then have "grown s s'" using m by simp
  moreover have "grown s' (fst (snd (f x (s', n'))))" for x using assms(2) by (simp add: keeps_def)
  ultimately show "grown s (fst (snd (andthen m f (s, n))))" using m by (auto simp: andthen_def split: sum.splits intro: grown_trans)
qed

lemma keeps_reading: "(\<And>z. keeps (g z)) \<Longrightarrow> keeps (reading g)"
  by (simp add: keeps_def)

lemma keeps_if: "(b \<Longrightarrow> keeps m) \<Longrightarrow> (\<not> b \<Longrightarrow> keeps m') \<Longrightarrow> keeps (if b then m else m')"
  by simp

lemma keeps_prod: "(\<And>a b. keeps (f a b)) \<Longrightarrow> keeps (case p of (a, b) \<Rightarrow> f a b)"
  by (cases p) simp

lemma keeps_option: "keeps m \<Longrightarrow> (\<And>x. keeps (f x)) \<Longrightarrow> keeps (case z of None \<Rightarrow> m | Some x \<Rightarrow> f x)"
  by (cases z) simp_all

lemmas keeps_intros = keeps_basic keeps_andthen keeps_reading keeps_if keeps_prod keeps_option

lemma field_state: "fst (snd (field env parent index (s, n))) = s"
  by (simp add: field_def andthen_def split: sum.splits list.splits)

lemma word_at_keeps: "keeps (word_at env w)"
  unfolding keeps_def
proof (intro allI)
  fix s n
  show "grown s (fst (snd (word_at env w (s, n))))"
    using field_state [of env "bitmap_id s" w s n]
    by (cases "words s w") (auto simp: word_at_def andthen_def grown_word split: prod.splits sum.splits)
qed

lemma net_keeps: "keeps (net env t)"
  unfolding keeps_def
proof (intro allI)
  fix s n
  show "grown s (fst (snd (net env t (s, n))))"
    using field_state [of env "ticks_id s" t s n]
    by (cases "nets s t") (auto simp: net_def andthen_def grown_net split: prod.splits sum.splits if_splits)
qed

lemma nextTick_keeps: "keeps (nextTick env t d)"
  unfolding nextTick_def Let_def by (intro keeps_intros word_at_keeps)

lemma cross_boundary_keeps: "keeps (cross_boundary env d t i st)"
  unfolding cross_boundary_def Let_def by (intro keeps_intros net_keeps)

lemma walk_keeps: "keeps (walk k env step dry fee protocol down exact limit st)"
proof (induction k arbitrary: st)
  case 0
  show ?case unfolding walk.simps by (intro keeps_intros)
next
  case (Suc k)
  show ?case unfolding walk.simps Let_def by (intro keeps_intros nextTick_keeps cross_boundary_keeps Suc.IH)
qed

lemma quotes_keep: "keeps (turbos_quote env a d e l)" "keeps (momentum_quote env b d e l)" "keeps (bluefin_quote env b d e l)"
  unfolding turbos_quote_def momentum_quote_def bluefin_quote_def by (intro keeps_intros walk_keeps)+

lemma grown_in_range: "grown s s' \<Longrightarrow> in_range s \<Longrightarrow> in_range s'"
  by (cases s; cases s') (simp add: grown_def in_range_def)

section \<open>Captured states\<close>

definition complete :: "quoteState \<Rightarrow> bool" where
  "complete s \<longleftrightarrow> Missing (tick_index (pool s)) (i32 (uint (tick_spacing (pool s)))) (words s) (nets s) = Inr False"

definition state_ok :: "quoteState \<Rightarrow> bool" where
  "state_ok s \<longleftrightarrow> in_range s \<and> complete s"

lemma in_range_spacing: "in_range s \<Longrightarrow> spacing_ok (uint (tick_spacing (pool s))) \<and> i32 (uint (tick_spacing (pool s))) = uint (tick_spacing (pool s))"
  by (simp add: in_range_def spacing_ok_def Let_def i32_id)

lemma grown_complete:
  assumes "grown s s'" and "in_range s" and "complete s"
  shows "complete s'"
proof -
  note sp = in_range_spacing [OF assms(2)]
  have p: "pool s' = pool s" using grown_pool [OF assms(1)] .
  have le: "words s \<subseteq>\<^sub>m words s'" "nets s \<subseteq>\<^sub>m nets s'" using assms(1) by (simp_all add: grown_def)
  let ?tick = "tick_index (pool s)" and ?sp = "uint (tick_spacing (pool s))"
  have m: "Missing ?tick ?sp (words s) (nets s) = Inr False" using assms(3) sp by (simp add: complete_def)
  have w: "words s' w = words s w" if "w \<in> set (window_words ?tick ?sp)" for w
    using m that le(1) unfolding Missing_iff [OF conjunct1 [OF sp]] by (auto simp: map_le_def dom_def)
  have "marked (words s') ?sp x \<longleftrightarrow> marked (words s) ?sp x" if "x div ?sp div 256 \<in> set (window_words ?tick ?sp)" for x
    using w [OF that] by (simp add: marked_def)
  then have "Missing ?tick ?sp (words s') (nets s') = Inr False"
    using m w le(2) unfolding Missing_iff [OF conjunct1 [OF sp]] by (auto simp: map_le_def dom_def)
  then show ?thesis using sp by (simp add: complete_def p)
qed

lemma captureWindow_complete:
  assumes "captureWindow env s n = (Inr s', n')" and "in_range s"
  shows "state_ok s' \<and> version s' = version s \<and> state_digest s' = state_digest s"
proof -
  obtain ws ns where r: "Read (Reader.truncate env) (checkpoint s) (bitmap_id s) (ticks_id s) (keyType s) (tick_index (pool s))
      (i32 (uint (tick_spacing (pool s)))) n = (Inr (ws, ns), n')" and s': "s' = s\<lparr>words := ws, nets := ns\<rparr>"
    using assms(1) by (auto simp: captureWindow_def)
  have "errors_ok (Reader.truncate env) (\<lambda>_. True)" by (simp add: errors_ok_def)
  from outcome_InrD [OF Read_outcome [OF this] r] have "complete s'" by (simp add: complete_def s')
  then show ?thesis using assms(2) by (simp add: s' state_ok_def in_range_def)
qed

context retained_venue
begin

lemma recapture_state:
  assumes "recapture v env ob seq (c, n) = (r, (c', n'))"
  shows "case r of Inl e \<Rightarrow> c' = c
    | Inr _ \<Rightarrow> \<exists>s. c' = c\<lparr>cached_state := Some s\<rparr> \<and> state_ok s \<and> version s = obj_version ob \<and> state_digest s = obj_digest ob"
proof -
  consider (cap) e where "capture_pool v (clock env n) (Some ob) seq = Inl e" | (ok) s where "capture_pool v (clock env n) (Some ob) seq = Inr s"
    by (cases "capture_pool v (clock env n) (Some ob) seq") auto
  then show ?thesis
  proof cases
    case cap
    then show ?thesis using assms by (auto simp: recapture_def)
  next
    case ok
    obtain t n1 where t: "trading v env (cache_pool c) s n = (t, n1)" by (cases "trading v env (cache_pool c) s n")
    obtain w n2 where w: "captureWindow env s n1 = (w, n2)" by (cases "captureWindow env s n1")
    have f: "fresh_of (Some ob) seq s" using capture_fresh [OF ok] .
    show ?thesis
    proof (cases "t = Inr ()")
      case False
      then show ?thesis using assms ok t by (cases t) (auto simp: recapture_def andthen_def on_reads_def)
    next
      case True
      then show ?thesis using assms ok t w captureWindow_complete [of env s n1 _ n2] f
        by (cases w) (auto simp: recapture_def andthen_def on_reads_def on_cache_def fresh_of_def)
    qed
  qed
qed

end

lemma on_reads_state: "on_reads m (c, n) = (r, (c', n')) \<longleftrightarrow> c' = c \<and> m n = (r, n')"
  by (auto simp: on_reads_def split: prod.splits)

definition cached_ok :: "StateCache \<Rightarrow> bool" where
  "cached_ok c \<longleftrightarrow> (\<forall>s. cached_state c = Some s \<longrightarrow> state_ok s)"

text \<open>Caches that agree but for the cached state.\<close>

definition same_but_cached :: "StateCache \<Rightarrow> StateCache \<Rightarrow> bool" where
  "same_but_cached c c' \<longleftrightarrow> (\<exists>x. c' = c\<lparr>cached_state := x\<rparr>)"

lemma same_but_cached_refl [simp]: "same_but_cached c c" "same_but_cached c (c\<lparr>cached_state := x\<rparr>)"
proof -
  show "same_but_cached c c" unfolding same_but_cached_def by (rule exI [of _ "cached_state c"]) simp
  show "same_but_cached c (c\<lparr>cached_state := x\<rparr>)" unfolding same_but_cached_def by blast
qed

lemma same_but_cached_trans: "same_but_cached c c' \<Longrightarrow> same_but_cached c' c'' \<Longrightarrow> same_but_cached c c''"
  by (auto simp: same_but_cached_def)

lemma same_but_cachedD:
  assumes "same_but_cached c c'"
  shows "retained c' = retained c" "retainedHead c' = retainedHead c" "published c' = published c" "stateObservation c' = stateObservation c"
    "cache_pool c' = cache_pool c" "accepted c' = accepted c" "retainedScope c' = retainedScope c" "captureQuoteSnapshotLocked c' = captureQuoteSnapshotLocked c"
  using assms by (auto simp: same_but_cached_def captureQuoteSnapshotLocked_def)

context retained_venue
begin

lemma acquire_state:
  assumes run: "acquire v env (c, n) = (r, (c', n'))" and ok: "cached_ok c"
  shows "same_but_cached c c' \<and> cached_ok c'
    \<and> (case r of Inl e \<Rightarrow> True
       | Inr (head, ob, at) \<Rightarrow> cp_sequence (accepted c) \<le> cp_sequence head \<and> floor_seq c \<le> cp_sequence head
           \<and> (\<exists>s. cached_state c' = Some s \<and> state_ok s \<and> version s = obj_version ob \<and> state_digest s = obj_digest ob))"
proof -
  obtain h n1 where h: "QuoteCheckpoint env (cur_floor env c n) n = (h, n1)" by (cases "QuoteCheckpoint env (cur_floor env c n) n")
  show ?thesis
  proof (cases "\<exists>head. h = Inr head \<and> head_check env c n1 head = Inr ()")
    case False
    then show ?thesis using run h ok
      by (cases h) (auto simp: acquire_def andthen_def on_reads_def split: sum.splits)
  next
    case True
    then obtain head where head: "h = Inr head" "head_check env c n1 head = Inr ()" by blast
    then have le: "cp_sequence (accepted c) \<le> cp_sequence head" "floor_seq c \<le> cp_sequence head"
      by (auto simp: head_check_def cur_floor_def not_less split: option.splits if_splits)
    let ?obj = "ObjectAtCheckpoint env n1 (cache_pool c) (cp_sequence head)"
    show ?thesis
    proof (cases "\<exists>ob. ?obj = Inr (Some ob) \<and> obj_address ob = cache_pool c \<and> obj_version ob \<noteq> 0")
      case False
      then show ?thesis using run h head ok
        by (cases ?obj) (auto simp: acquire_def andthen_def on_reads_def one_read_def split: option.splits if_splits)
    next
      case True
      then obtain ob where ob: "?obj = Inr (Some ob)" "obj_address ob = cache_pool c" "obj_version ob \<noteq> 0" by blast
      show ?thesis
      proof (cases "stale env c (Suc n1) ob")
        case False
        then have "\<exists>s. cached_state c = Some s \<and> state_ok s \<and> version s = obj_version ob \<and> state_digest s = obj_digest ob"
          using ok by (auto simp: stale_def cached_ok_def split: option.splits)
        then show ?thesis using run h head ok ob le False
          by (auto simp: acquire_def andthen_def on_reads_def one_read_def)
      next
        case True
        obtain q c2 n2 where q: "recapture v env ob (cp_sequence head) (c, Suc n1) = (q, (c2, n2))"
          by (cases "recapture v env ob (cp_sequence head) (c, Suc n1)") auto
        note s = recapture_state [OF q]
        have end_: "r = (case q of Inl e \<Rightarrow> Inl e | Inr _ \<Rightarrow> Inr (head, ob, clock env (Suc n1)))" "c' = c2"
          using run h head ob True q by (auto simp: acquire_def andthen_def on_reads_def one_read_def split: sum.splits)
        show ?thesis
        proof (cases q)
          case (Inl e)
          then show ?thesis using s end_ ok by simp
        next
          case (Inr u)
          then show ?thesis using s end_ le by (auto simp: cached_ok_def)
        qed
      qed
    qed
  qed
qed

lemma still_current_state: "still_current env head (c, n) = (r, z) \<Longrightarrow> z = (c, n)"
  by (auto simp: still_current_def split: option.splits if_splits)

end

section \<open>The invariant\<close>

text \<open>
  What the cache retains has the checked ranges and makes no reads, and the newest snapshot that was published is what
  is retained now: an observer never works on withdrawn or replaced inputs.
\<close>

definition current :: "StateCache \<Rightarrow> bool" where
  "current c \<longleftrightarrow> (case published c of [] \<Rightarrow> retained c = None | snap # _ \<Rightarrow> snap = captureQuoteSnapshotLocked c)"

definition retained_ok :: "StateCache \<Rightarrow> bool" where
  "retained_ok c \<longleftrightarrow> (\<forall>s. retained c = Some s \<longrightarrow> in_range s \<and> retainedOnly s)"

definition cache_inv :: "StateCache \<Rightarrow> bool" where
  "cache_inv c \<longleftrightarrow> current c \<and> retained_ok c \<and> cached_ok c"

lemma capture_published [simp]: "captureQuoteSnapshotLocked (c\<lparr>published := ps\<rparr>) = captureQuoteSnapshotLocked c"
  by (simp add: captureQuoteSnapshotLocked_def)

lemma current_publish [simp]: "current (publish c)"
  by (simp add: current_def publish_def)

lemma publish_simps [simp]:
  "retained (publish c) = retained c" "cached_state (publish c) = cached_state c" "retainedHead (publish c) = retainedHead c"
  "accepted (publish c) = accepted c" "cache_pool (publish c) = cache_pool c" "floor_seq (publish c) = floor_seq c"
  by (simp_all add: publish_def)

lemma same_inv: "same_but_cached c c' \<Longrightarrow> cached_ok c' \<Longrightarrow> cache_inv c \<Longrightarrow> cache_inv c'"
  by (auto simp: cache_inv_def current_def retained_ok_def same_but_cachedD split: list.splits)

lemma new_inv: "NewStateCache a age = Inr c \<Longrightarrow> cache_inv c"
  by (auto simp: NewStateCache_def cache_inv_def current_def retained_ok_def cached_ok_def split: if_splits)

lemma observe_inv: "cache_inv c \<Longrightarrow> cache_inv (ObserveCheckpoint cp c)"
  by (simp add: ObserveCheckpoint_def cache_inv_def current_def retained_ok_def cached_ok_def captureQuoteSnapshotLocked_def split: list.splits)

lemma in_range_update [simp]: "in_range (s\<lparr>received := t\<rparr>) = in_range s" "in_range (s\<lparr>received := t, retainedOnly := b\<rparr>) = in_range s"
  "complete (s\<lparr>received := t\<rparr>) = complete s" "complete (s\<lparr>received := t, retainedOnly := b\<rparr>) = complete s"
  by (simp_all add: in_range_def complete_def)

lemma accepted_inv [simp]: "cache_inv (c\<lparr>accepted := h\<rparr>) = cache_inv c"
  by (simp add: cache_inv_def current_def retained_ok_def cached_ok_def captureQuoteSnapshotLocked_def split: list.splits)

lemma retain_state_inv: "cache_inv c \<Longrightarrow> cache_inv (retain_state head at c)"
  by (auto simp: retain_state_def cache_inv_def retained_ok_def cached_ok_def state_ok_def split: option.splits)

context retained_venue
begin

lemma Warm_state:
  assumes run: "Warm v env (c, n) = (r, (c', n'))" and inv: "cache_inv c"
  shows "cache_inv c' \<and> (r = Inr () \<longrightarrow> (\<exists>s. retained c' = Some s \<and> state_ok s \<and> retainedOnly s \<and> retainedHead c' = accepted c'
    \<and> cp_sequence (accepted c) \<le> cp_sequence (accepted c') \<and> floor_seq c \<le> cp_sequence (accepted c') \<and> published c' = captureQuoteSnapshotLocked c' # published c))"
proof -
  obtain a c1 n1 where a: "acquire v env (c, n) = (a, (c1, n1))" by (cases "acquire v env (c, n)") auto
  have ok: "cached_ok c" using inv by (simp add: cache_inv_def)
  note st = acquire_state [OF a ok]
  have inv1: "cache_inv c1" using st inv same_inv by blast
  show ?thesis
  proof (cases a)
    case (Inl e)
    then show ?thesis using run a inv1 by (auto simp: Warm_def andthen_def)
  next
    case (Inr x)
    obtain head ob at where x: "x = (head, ob, at)" by (cases x)
    obtain s where s: "cached_state c1 = Some s" "state_ok s" "cp_sequence (accepted c) \<le> cp_sequence head" "floor_seq c \<le> cp_sequence head"
      using st Inr x by auto
    obtain b z where Pair: "still_current env head (c1, n1) = (b, z)" by (cases "still_current env head (c1, n1)")
    have z: "z = (c1, n1)" using still_current_state [OF Pair] .
    show ?thesis
    proof (cases b)
        case (Inl e)
        then show ?thesis using run a \<open>a = Inr x\<close> x Pair z inv1 by (auto simp: Warm_def andthen_def on_cache_def)
      next
        case (Inr u)
        then show ?thesis using run a \<open>a = Inr x\<close> x Pair z inv1 s st retain_state_inv [of "c1\<lparr>accepted := head\<rparr>" head at]
          by (auto simp: Warm_def andthen_def on_cache_def retain_state_def publish_def state_ok_def same_but_cachedD captureQuoteSnapshotLocked_def split: if_splits)
    qed
  qed
qed

lemma QuotePair_state:
  assumes run: "QuotePair v q env p (c, n) = (r, (c', n'))" and inv: "cache_inv c"
    and keep: "\<And>env a d e l. keeps (q env a d e l)"
  shows "cache_inv c'"
proof (cases "pair_invalid c p")
  case True
  then show ?thesis using run inv by (simp add: QuotePair_def)
next
  case False
  have step: "same_but_cached c0 c1 \<and> cached_ok c1" if "on_state m (c0, k) = (x, (c1, k1))" "keeps m" "cached_ok c0" for m c0 k x c1 k1
  proof (cases "cached_state c0")
    case None
    then show ?thesis using that by (simp add: on_state_def)
  next
    case (Some s)
    obtain y s1 k2 where m: "m (s, k) = (y, (s1, k2))" by (cases "m (s, k)") auto
    have "grown s (fst (snd (m (s, k))))" using that(2) by (simp add: keeps_def)
    then have "grown s s1" using m by simp
    moreover have "state_ok s" using that(3) Some by (simp add: cached_ok_def)
    ultimately have "state_ok s1" using grown_in_range grown_complete by (auto simp: state_ok_def)
    then show ?thesis using that(1) Some m by (auto simp: on_state_def cached_ok_def)
  qed
  obtain a c1 n1 where a: "acquire v env (c, n) = (a, (c1, n1))" by (cases "acquire v env (c, n)") auto
  have "cached_ok c" using inv by (simp add: cache_inv_def)
  note st = acquire_state [OF a this]
  have inv1: "cache_inv c1" using st inv same_inv by blast
  show ?thesis
  proof (cases a)
    case (Inl e)
    then show ?thesis using run a inv1 False by (simp add: QuotePair_def andthen_def)
  next
    case (Inr x)
    obtain head ob at where x: "x = (head, ob, at)" by (cases x)
    obtain b c2 n2 where b: "on_state (q (Reader.truncate env) (bid_in p) (bid_down p) True (bid_limit p)) (c1, n1) = (b, (c2, n2))"
      by (cases "on_state (q (Reader.truncate env) (bid_in p) (bid_down p) True (bid_limit p)) (c1, n1)") auto
    have inv2: "cache_inv c2" using step [OF b keep] st inv1 same_inv by blast
    obtain k c3 n3 where k: "on_state (q (Reader.truncate env) (ask_out p) (ask_down p) False (ask_limit p)) (c2, n2) = (k, (c3, n3))"
      by (cases "on_state (q (Reader.truncate env) (ask_out p) (ask_down p) False (ask_limit p)) (c2, n2)") auto
    have inv3: "cache_inv c3" using step [OF k keep] inv2 same_inv by (auto simp: cache_inv_def)
    obtain w z where w: "still_current env head (c3, n3) = (w, z)" by (cases "still_current env head (c3, n3)")
    have z: "z = (c3, n3)" using still_current_state [OF w] .
    show ?thesis
      using run a False Inr x b k w z inv2 inv3 retain_state_inv [of "c3\<lparr>accepted := head\<rparr>" head at]
      by (auto simp: QuotePair_def andthen_def on_cache_def split: sum.splits)
  qed
qed

end

text \<open>What an update may make of a retained state: itself, or a later version of the same pool at the same baseline.\<close>

definition advances :: "quoteState \<Rightarrow> quoteState \<Rightarrow> bool" where
  "advances s s' \<longleftrightarrow> s' = s \<or> version s < version s' \<and> in_range s' \<and> retainedOnly s' \<and> checkpoint s' = checkpoint s
     \<and> bitmap_id s' = bitmap_id s \<and> ticks_id s' = ticks_id s \<and> keyType s' = keyType s \<and> received s \<le> received s'
     \<and> captured s' = captured s"

lemma advances_trans: "advances s s' \<Longrightarrow> advances s' s'' \<Longrightarrow> advances s s''"
  by (auto simp: advances_def)

lemma advances_ok: "advances s s' \<Longrightarrow> in_range s \<and> retainedOnly s \<Longrightarrow> in_range s' \<and> retainedOnly s'"
  by (auto simp: advances_def)

lemma in_range_placed [simp]: "in_range (placed e cp at s) = in_range s"
  "in_range (s\<lparr>words := ws, nets := ns, retainedOnly := b, captured := t, received := u\<rparr>) = in_range s"
  by (simp_all add: placed_def in_range_def)

context retained_venue
begin

lemma next_state_advances:
  assumes "next_state v now a old chs changed = Inr (Some s)"
  shows "advances old (placed e cp at s) \<and> version old < version (placed e cp at s)"
proof -
  obtain ob fresh ws ns where f: "after changed = Some ob" "\<not> obj_version ob < version old" "obj_version ob \<noteq> version old"
    "capture_pool v now (Some ob) (checkpoint old) = Inr fresh"
    "bitmap_id fresh = bitmap_id old" "ticks_id fresh = ticks_id old" "keyType fresh = keyType old"
    "s = fresh\<lparr>words := ws, nets := ns, retainedOnly := True, captured := captured old, received := received old\<rparr>"
    using assms by (auto simp: next_state_def ebind_Inr split: option.splits if_splits)
  then show ?thesis using capture_fresh [OF f(4)] by (auto simp: advances_def fresh_of_def placed_def in_range_def)
qed

lemma retain_objects_advances:
  assumes "retain_objects v now c notif at = Inr (Some s')"
  shows "\<exists>s. retained c = Some s \<and> advances s s'"
  using assms by (auto simp: retain_objects_def ebind_Inr advances_def [of s' s'] dest: next_state_advances split: option.splits if_splits)

lemma change_list_calm: "\<not> panics (retain_changes v a old chs acc)"
  by (induction chs arbitrary: acc) (simp_all add: panics_ebind change_calm)

lemma first_orphan_calm: "\<not> panics (first_orphan (orphan v a old) chs)"
  by (induction chs) (simp_all add: panics_ebind orphan_calm)

lemma next_state_calm: "\<not> panics (next_state v now a old chs changed)"
  by (auto simp: next_state_def panics_ebind capture_calm change_list_calm split: option.splits)

end

text \<open>A notification whose errors are those of the client, which are not panics.\<close>

definition notif_calm :: "TransactionNotification option \<Rightarrow> bool" where
  "notif_calm notif \<longleftrightarrow> (\<forall>n e. notif = Some n \<longrightarrow> changes_error n = Some e \<longrightarrow> calm e)"

lemma ObserveProgress_calm: "notif_calm notif \<Longrightarrow> ObserveProgress notif b at z = (Inl e, z') \<Longrightarrow> calm e"
  by (cases z) (auto simp: ObserveProgress_def notif_calm_def split: option.splits if_splits)

context retained_venue
begin

lemma retain_objects_calm: "notif_calm notif \<Longrightarrow> retain_objects v now c notif at = Inl e \<Longrightarrow> calm e"
  using calmD [OF next_state_calm] calmD [OF first_orphan_calm]
  by (auto simp: retain_objects_def notif_calm_def ebind_def split: option.splits if_splits sum.splits)

lemma apply_state:
  assumes run: "applyRetainedObjects v now notif at c = (r, c')"
  shows "current c'" and "cached_state c' = cached_state c" and "retainedHead c' = retainedHead c" and "cache_pool c' = cache_pool c"
    and "accepted c' = accepted c"
    and "r \<noteq> Inr () \<Longrightarrow> retained c' = None"
    and "retained c' = Some s' \<Longrightarrow> \<exists>s. retained c = Some s \<and> advances s s'"
    and "notif_calm notif \<Longrightarrow> r = Inl e \<Longrightarrow> calm e"
proof -
  let ?c1 = "case retain_objects v now c notif at of Inl e \<Rightarrow> c | Inr s \<Rightarrow> c\<lparr>retained := s\<rparr>"
  let ?p = "ObserveProgress notif (cp_sequence (retainedHead c)) now (stateObservation c, observationCheckpoint c)"
  obtain pr ob k where p: "?p = (pr, (ob, k))" by (cases ?p) auto
  have u: "(r :: unit res) = Inr ()" if "r = Inr u" for r u using that by simp
  show "current c'" "cached_state c' = cached_state c" "retainedHead c' = retainedHead c" "cache_pool c' = cache_pool c" "accepted c' = accepted c"
    using run p by (auto simp: applyRetainedObjects_def Let_def split: sum.splits if_splits prod.splits)
  show "r \<noteq> Inr () \<Longrightarrow> retained c' = None"
    using run p by (auto simp: applyRetainedObjects_def Let_def split: sum.splits if_splits prod.splits)
  show "retained c' = Some s' \<Longrightarrow> \<exists>s. retained c = Some s \<and> advances s s'"
    using run p retain_objects_advances [of now c notif at s']
    by (auto simp: applyRetainedObjects_def Let_def split: sum.splits if_splits prod.splits)
  show "notif_calm notif \<Longrightarrow> r = Inl e \<Longrightarrow> calm e"
    using run p retain_objects_calm [of notif now c at e] ObserveProgress_calm [of notif _ now _ e]
    by (auto simp: applyRetainedObjects_def Let_def split: sum.splits if_splits prod.splits)
qed

lemma apply_inv:
  assumes "applyRetainedObjects v now notif at c = (r, c')" and "cache_inv c"
  shows "cache_inv c'"
proof -
  note st = apply_state [OF assms(1)]
  have "in_range s \<and> retainedOnly s" if kept: "retained c' = Some s" for s
  proof -
    obtain s0 where "retained c = Some s0" "advances s0 s" using st(7) [OF kept] by blast
    then show ?thesis using assms(2) by (auto simp: cache_inv_def retained_ok_def dest: advances_ok)
  qed
  then show ?thesis using st(1,2) assms(2) by (simp add: cache_inv_def retained_ok_def cached_ok_def)
qed

end

context retained_venue
begin

lemma replay_inv: "replay_updates v now us c = (r, c') \<Longrightarrow> cache_inv c \<Longrightarrow> cache_inv c'"
proof (induction us arbitrary: c)
  case (Cons u us)
  obtain x c1 where a: "applyRetainedObjects v now (Some (notification u)) (received_at u) c = (x, c1)"
    by (cases "applyRetainedObjects v now (Some (notification u)) (received_at u) c")
  then show ?case using Cons apply_inv [OF a] by (cases x) (auto simp: andthen_def)
qed simp

lemma install_state:
  assumes run: "installRetainedWindow v now candidate us c = (r, c')" and inv: "cache_inv candidate" "cache_inv c"
  shows "cache_inv c'" and "r \<noteq> Inr () \<Longrightarrow> c' = c"
    and "r = Inr () \<Longrightarrow> \<exists>old next. retained c = Some old \<and> retained c' = Some next \<and> version old \<le> version next
           \<and> (version next = version old \<longrightarrow> state_digest next = state_digest old)
           \<and> cp_sequence (retainedHead c) \<le> cp_sequence (retainedHead c')"
proof -
  obtain x cand where x: "replay_updates v now us candidate = (x, cand)" by (cases "replay_updates v now us candidate")
  have cand: "retained_ok cand" using replay_inv [OF x inv(1)] by (simp add: cache_inv_def)
  show "cache_inv c'"
    using run x inv(2) cand by (auto simp: installRetainedWindow_def cache_inv_def retained_ok_def cached_ok_def split: if_splits sum.splits option.splits)
  show "r \<noteq> Inr () \<Longrightarrow> c' = c"
    using run x by (auto simp: installRetainedWindow_def split: if_splits sum.splits option.splits)
  show "r = Inr () \<Longrightarrow> \<exists>old next. retained c = Some old \<and> retained c' = Some next \<and> version old \<le> version next
           \<and> (version next = version old \<longrightarrow> state_digest next = state_digest old)
           \<and> cp_sequence (retainedHead c) \<le> cp_sequence (retainedHead c')"
    using run x by (auto simp: installRetainedWindow_def not_less split: if_splits sum.splits option.splits)
qed

lemma update_inv: "retain_update v now u c = (r, c') \<Longrightarrow> cache_inv c \<Longrightarrow> cache_inv c'"
  by (auto simp: retain_update_def observe_inv dest: apply_inv split: prod.splits sum.splits option.splits)

lemma subscription_inv:
  assumes "cache_inv c"
  shows "retain_begin v c = (r, c') \<Longrightarrow> cache_inv c'" and "cache_inv (retain_initialized now c)" and "cache_inv (retain_end v c)"
  using assms by (auto simp: retain_begin_def retain_initialized_def retain_end_def withdraw_def cache_inv_def retained_ok_def cached_ok_def Let_def split: if_splits)

end

section \<open>Every run\<close>

text \<open>The caches that any sequence of operations can make, with any readers and failures included.\<close>

inductive retained_reach :: "venue \<Rightarrow> ('a, 'q) quoter \<Rightarrow> StateCache \<Rightarrow> bool" for v :: venue and q :: "('a, 'q) quoter" where
  new: "NewStateCache a age = Inr c \<Longrightarrow> retained_reach v q c"
| seen: "retained_reach v q c \<Longrightarrow> retained_reach v q (ObserveCheckpoint cp c)"
| warmed: "retained_reach v q c \<Longrightarrow> Warm v env (c, n) = (r, (c', n')) \<Longrightarrow> retained_reach v q c'"
| quoted: "retained_reach v q c \<Longrightarrow> QuotePair v q env p (c, n) = (r, (c', n')) \<Longrightarrow> retained_reach v q c'"
| begun: "retained_reach v q c \<Longrightarrow> retain_begin v c = (r, c') \<Longrightarrow> retained_reach v q c'"
| initialized: "retained_reach v q c \<Longrightarrow> retained_reach v q (retain_initialized now c)"
| updated: "retained_reach v q c \<Longrightarrow> retain_update v now u c = (r, c') \<Longrightarrow> retained_reach v q c'"
| installed: "retained_reach v q c \<Longrightarrow> retained_reach v q candidate \<Longrightarrow> installRetainedWindow v now candidate us c = (r, c') \<Longrightarrow> retained_reach v q c'"
| ended: "retained_reach v q c \<Longrightarrow> retained_reach v q (retain_end v c)"

context retained_venue
begin

lemma reach_inv:
  assumes "retained_reach v q c" and keep: "\<And>env a d e l. keeps (q env a d e l)"
  shows "cache_inv c"
  using assms(1)
proof (induction rule: retained_reach.induct)
  case (warmed c env n r c' n')
  then show ?case using Warm_state by blast
next
  case (quoted c env p n r c' n')
  from QuotePair_state [where q = q, OF quoted.hyps(2) quoted.IH keep] show ?case .
next
  case (installed c candidate now us r c')
  then show ?case using install_state(1) by blast
next
  case (new a age c)
  then show ?case by (rule new_inv)
next
  case (seen c cp)
  then show ?case by (intro observe_inv)
next
  case (begun c r c')
  then show ?case using subscription_inv(1) by blast
next
  case (initialized c now)
  then show ?case by (intro subscription_inv(2))
next
  case (updated c now u r c')
  then show ?case using update_inv by blast
next
  case (ended c)
  then show ?case by (intro subscription_inv(3))
qed

end

definition venue_reach :: "venue \<Rightarrow> StateCache \<Rightarrow> bool" where
  "venue_reach v c \<longleftrightarrow> v = turbos_venue \<and> retained_reach v turbos_quote c \<or> v = momentum_venue \<and> retained_reach v momentum_quote c
     \<or> v = bluefin_venue \<and> retained_reach v bluefin_quote c"

lemma venue_reach_inv: "venue_reach v c \<Longrightarrow> retained_venue v \<and> cache_inv c"
  unfolding venue_reach_def
  using turbos_retained.reach_inv momentum_retained.reach_inv bluefin_retained.reach_inv quotes_keep
    turbos_retained.retained_venue_axioms momentum_retained.retained_venue_axioms bluefin_retained.retained_venue_axioms
  by metis

text \<open>
  C30. After any sequence of captures, quotes, live updates, replacements and subscriptions, on any of the three venues
  and whatever the readers answer: what is retained is in the ranges that quotes rely on and makes no reads, and the
  newest published snapshot is the one of what is retained now, so that an observer never keeps a withdrawn state.
\<close>

theorem retained_invariant:
  assumes "venue_reach v c"
  shows "(\<forall>s. retained c = Some s \<longrightarrow> in_range s \<and> retainedOnly s)
    \<and> (published c = [] \<longrightarrow> retained c = None) \<and> (\<forall>snap rest. published c = snap # rest \<longrightarrow> snap = captureQuoteSnapshotLocked c)"
  using venue_reach_inv [OF assms] by (auto simp: cache_inv_def current_def retained_ok_def split: list.splits)

text \<open>
  A live update on a reachable cache never panics and never goes back: what is retained afterwards is what was
  retained before, or a later version of the same pool at the same baseline with an input time that is not earlier;
  an update that fails withdraws the retained state.
\<close>

lemma live_update_advances:
  assumes "venue_reach v c" and "notif_calm (Some (notification u))" and "retain_update v now u c = (r, c')"
  shows "(\<forall>e. r = Inl e \<longrightarrow> calm e \<and> retained c' = None) \<and> retainedHead c' = retainedHead c
    \<and> (\<forall>s'. retained c' = Some s' \<longrightarrow> (\<exists>s. retained c = Some s \<and> advances s s'))"
proof -
  have ven: "retained_venue v" using venue_reach_inv [OF assms(1)] by blast
  obtain x c1 where a: "applyRetainedObjects v now (Some (notification u)) (received_at u) c = (x, c1)"
    by (cases "applyRetainedObjects v now (Some (notification u)) (received_at u) c")
  note st = retained_venue.apply_state [OF ven a]
  have keep: "retained (ObserveCheckpoint cp c1) = retained c1" "retainedHead (ObserveCheckpoint cp c1) = retainedHead c1" for cp
    by (simp_all add: ObserveCheckpoint_def)
  have "r = x" "retained c' = retained c1" "retainedHead c' = retainedHead c1"
    using assms(3) a keep by (auto simp: retain_update_def split: sum.splits option.splits)
  then show ?thesis using st(3,6,7,8) assms(2) by auto
qed


text \<open>
  A replacement never goes back: it is installed only when it is not of an earlier version or baseline and, at the
  same version, has the same digest; otherwise the cache stays as it is.
\<close>

lemma install_never_regresses:
  assumes "venue_reach v c" and "venue_reach v candidate" and "installRetainedWindow v now candidate us c = (r, c')"
  shows "(r \<noteq> Inr () \<longrightarrow> c' = c)
    \<and> (r = Inr () \<longrightarrow> (\<exists>old next. retained c = Some old \<and> retained c' = Some next \<and> version old \<le> version next
         \<and> (version next = version old \<longrightarrow> state_digest next = state_digest old)
         \<and> cp_sequence (retainedHead c) \<le> cp_sequence (retainedHead c')))"
proof -
  have "retained_venue v" "cache_inv candidate" "cache_inv c" using venue_reach_inv assms(1,2) by blast+
  from retained_venue.install_state(2,3) [OF this(1) assms(3) this(2,3)] show ?thesis by blast
qed

section \<open>Quotes on what is retained\<close>

text \<open>The tick of a pool belongs to its price; the pools on the chain keep it so, and \<open>capturePool\<close> does not check it.\<close>

definition priced :: "quoteState \<Rightarrow> bool" where
  "priced s \<longleftrightarrow> (let p = pool s in sqrtAtTick (tick_index p) \<le> sqrt_price p
     \<and> (if tick_index p = 443636 then sqrt_price p = sqrtAtTick 443636 else sqrt_price p \<le> sqrtAtTick (tick_index p + 1)))"

lemma in_range_cache_ok: "in_range s \<Longrightarrow> priced s \<Longrightarrow> cache_ok s"
  by (simp add: in_range_def priced_def cache_ok_def Let_def)

lemma grown_priced: "grown s s' \<Longrightarrow> priced s \<Longrightarrow> priced s'"
  by (simp add: priced_def grown_pool)

text \<open>The exchange of a leg against the price at the start, without the fee.\<close>

definition leg_fair :: "bool \<Rightarrow> int \<Rightarrow> turbosQuote \<Rightarrow> bool" where
  "leg_fair down p0 q \<longleftrightarrow> 0 < tq_out q \<and> 0 \<le> tq_in q
     \<and> (if down then tq_out q * (2 ^ 64)\<^sup>2 \<le> (tq_in q + 1024) * p0\<^sup>2 else tq_out q * p0\<^sup>2 \<le> (tq_in q + 1024) * (2 ^ 64)\<^sup>2)"

lemma turbos_leg:
  assumes "cache_ok s" and "reader_calm env"
  shows "case turbos_quote env amount down exact limit (s, n) of (Inl e, _) \<Rightarrow> calm e
    | (Inr q, (s', _)) \<Rightarrow> leg_fair down (sqrt_price (pool s)) q \<and> (if exact then tq_in q else tq_out q) = the amount \<and> grown s s'"
proof -
  obtain r s' n' where t: "turbos_quote env amount down exact limit (s, n) = (r, (s', n'))"
    by (cases "turbos_quote env amount down exact limit (s, n)") auto
  have "grown s (fst (snd (turbos_quote env amount down exact limit (s, n))))"
    using quotes_keep(1) [of env amount down exact limit] by (simp add: keeps_def)
  then have g: "grown s s'" using t by simp
  show ?thesis
  proof (cases r)
    case (Inl e)
    then show ?thesis using turbos_quote_spec [where amount = amount and down = down and exact = exact and limit = limit and n = n, OF assms] t by (simp add: calm_res)
  next
    case (Inr q)
    define f where "f = uint (tq_fee q)"
    have f: "0 \<le> f" by (simp add: f_def)
    define P where "P = (sqrt_price (pool s))\<^sup>2"
    have P: "0 \<le> P" by (simp add: P_def)
    define Q where "Q = (2 ^ 64 :: int)\<^sup>2"
    have sound: "0 \<le> tq_in q - f" "0 < tq_out q" "(if exact then tq_in q else tq_out q) = the amount"
      "if down then tq_out q * Q \<le> (tq_in q - f + 1024) * P else tq_out q * P \<le> (tq_in q - f + 1024) * Q"
      using turbos_quote_spec [where amount = amount and down = down and exact = exact and limit = limit and n = n, OF assms] t Inr
      by (auto simp: Let_def f_def P_def Q_def split: if_splits)
    have "(tq_in q - f + 1024) * P \<le> (tq_in q + 1024) * P" using f P by (intro mult_right_mono) simp_all
    moreover have "(tq_in q - f + 1024) * Q \<le> (tq_in q + 1024) * Q" using f by (intro mult_right_mono) (simp_all add: Q_def)
    ultimately have "leg_fair down (sqrt_price (pool s)) q"
      using sound f unfolding leg_fair_def P_def [symmetric] Q_def [symmetric] by (simp split: if_splits)
    moreover note sound(3)
    ultimately show ?thesis using t Inr g by simp
  qed
qed

lemma legs_no_gain:
  assumes "leg_fair down p0 b" and "leg_fair (\<not> down) p0 a" and "0 < p0"
  shows "tq_out b * tq_out a \<le> (tq_in b + 1024) * (tq_in a + 1024)"
proof -
  define P where "P = p0\<^sup>2"
  define Q where "Q = (2 ^ 64 :: int)\<^sup>2"
  have pos: "0 < P" "0 < Q" using assms(3) by (simp_all add: P_def Q_def)
  obtain x y u w where d: "down \<and> x = tq_out b \<and> y = tq_in b + 1024 \<and> u = tq_out a \<and> w = tq_in a + 1024
      \<or> \<not> down \<and> x = tq_out a \<and> y = tq_in a + 1024 \<and> u = tq_out b \<and> w = tq_in b + 1024"
    by (cases down) auto
  then have le: "x * Q \<le> y * P" "u * P \<le> w * Q" and nn: "0 \<le> y" "0 \<le> u"
    using assms(1,2) by (auto simp: leg_fair_def P_def Q_def)
  have "x * Q * (u * P) \<le> y * P * (w * Q)" by (rule mult_mono [OF le]) (use pos nn in simp_all)
  then have "x * u * (P * Q) \<le> y * w * (P * Q)" by (simp add: algebra_simps)
  then have "x * u \<le> y * w" using pos by simp
  then show ?thesis using d by (auto simp: mult.commute)
qed

text \<open>
  C32. A pair of quotes on a reachable Turbos cache, whose pool keeps its tick with its price, makes no panic. When both
  quotes are given, the bid spends exactly its input, the ask pays exactly its output, they belong to the head at which
  the state was captured, and trading one way and back gains nothing but the roundings: the product of the outputs is
  at most that of the inputs, each with the 1024 units of all its steps.
\<close>

theorem turbos_pair_no_gain:
  assumes "venue_reach turbos_venue c" and "reader_calm env" and "\<And>s. retained c = Some s \<Longrightarrow> priced s"
  shows "case QuoteRetainedPair turbos_quote env c p n of Inl e \<Rightarrow> calm e
    | Inr r \<Rightarrow> tq_in (pair_bid r) = the (bid_in p) \<and> tq_out (pair_ask r) = the (ask_out p)
        \<and> pair_checkpoint r = cp_sequence (retainedHead c)
        \<and> tq_out (pair_bid r) * tq_out (pair_ask r) \<le> (tq_in (pair_bid r) + 1024) * (tq_in (pair_ask r) + 1024)"
proof (cases "pair_invalid c p \<or> ctx_err env n \<noteq> None \<or> retained c = None")
  case True
  then show ?thesis using assms(2) by (auto simp: QuoteRetainedPair_def reader_calm_def split: option.splits)
next
  case False
  then obtain s where s: "retained c = Some s" by auto
  have ok: "cache_ok s"
    using s venue_reach_inv [OF assms(1)] assms(3) by (auto simp: cache_inv_def retained_ok_def intro: in_range_cache_ok)
  obtain rb s1 n1 where b: "turbos_quote env (bid_in p) (bid_down p) True (bid_limit p) (s, n) = (rb, (s1, n1))"
    by (cases "turbos_quote env (bid_in p) (bid_down p) True (bid_limit p) (s, n)") auto
  note lb = turbos_leg [where amount = "bid_in p" and down = "bid_down p" and exact = True and limit = "bid_limit p" and n = n, OF ok assms(2), unfolded b]
  show ?thesis
  proof (cases rb)
    case (Inl e)
    then show ?thesis using False s b lb by (simp add: QuoteRetainedPair_def andthen_def)
  next
    case (Inr qb)
    have "grown s s1" using lb Inr by simp
    then have ok1: "cache_ok s1" "sqrt_price (pool s1) = sqrt_price (pool s)"
      using s venue_reach_inv [OF assms(1)] assms(3)
      by (auto simp: cache_inv_def retained_ok_def grown_pool intro: in_range_cache_ok grown_priced grown_in_range)
    obtain ra s2 n2 where a: "turbos_quote env (ask_out p) (ask_down p) False (ask_limit p) (s1, n1) = (ra, (s2, n2))"
      by (cases "turbos_quote env (ask_out p) (ask_down p) False (ask_limit p) (s1, n1)") auto
    note la = turbos_leg [where amount = "ask_out p" and down = "ask_down p" and exact = False and limit = "ask_limit p" and n = n1, OF ok1(1) assms(2), unfolded a]
    show ?thesis
    proof (cases ra)
      case (Inl e)
      then show ?thesis using False s b lb a la Inr by (simp add: QuoteRetainedPair_def andthen_def)
    next
      case (Inr qa)
      have "ask_down p = (\<not> bid_down p)" using False by (auto simp: pair_invalid_def)
      then have "tq_out qb * tq_out qa \<le> (tq_in qb + 1024) * (tq_in qa + 1024)"
        using legs_no_gain [OF _ _ cache_okD(5) [OF ok], of "bid_down p" qb qa] lb la \<open>rb = Inr qb\<close> Inr ok1(2) by simp
      then show ?thesis using False s b lb a la \<open>rb = Inr qb\<close> Inr assms(2)
        by (auto simp: QuoteRetainedPair_def andthen_def reader_calm_def split: option.splits)
    qed
  qed
qed

section \<open>A Turbos pool\<close>

definition sample_id :: Address where
  "sample_id = replicate 31 0 @ [9]"

definition sample_map_id :: Address where
  "sample_map_id = replicate 31 0 @ [7]"

definition sample_object :: "u64 \<Rightarrow> string \<Rightarrow> Object" where
  "sample_object ver root = \<lparr>obj_address = sample_id, obj_version = ver, obj_digest = ''d'',
     obj_move = Some (''0x91::pool::Pool<0x2::a::A,0x2::b::B,0x2::f::F>'', Raw (JObject
       [(''coin_a'', JString ''5''), (''coin_b'', JString ''6''), (''sqrt_price'', JString root), (''liquidity'', JString ''1000000000000''),
        (''tick_current_index'', JObject [(''bits'', JNumber ''0'')]), (''tick_spacing'', JNumber ''60''), (''fee'', JNumber ''3000''),
        (''unlocked'', JBool True), (''tick_map'', JObject [(''id'', JString ''0x7'')]), (''fee_protocol'', JNumber ''200000'')]))\<rparr>"

definition sample_env :: StateReader where
  "sample_env = \<lparr>DynamicValues = (\<lambda>n p c ks.
       Inr (List.map (\<lambda>k. if p = sample_map_id then Raw (JString (if snd k = [0, 0, 0, 0] then ''2'' else ''0''))
              else Raw (JObject [(''liquidity_net'', JObject [(''bits'', JString ''5'')])])) ks)),
     ctx_err = (\<lambda>n. None),
     LatestCheckpoint = (\<lambda>n. Inr \<lparr>cp_sequence = 7, cp_digest = ''h'', cp_time = Some 100\<rparr>), CheckpointBySequenceNumber = None,
     ObjectAtCheckpoint = (\<lambda>n a c. Inr (Some (sample_object 3 ''18446744073709551616''))), clock = (\<lambda>n. 150), observed = (\<lambda>n. 0)\<rparr>"

definition empty_cache :: StateCache where
  "empty_cache = (case NewStateCache sample_id 1000 of Inl e \<Rightarrow> undefined | Inr c \<Rightarrow> c)"

definition warm_cache :: StateCache where
  "warm_cache = fst (snd (Warm turbos_venue sample_env (empty_cache, 0)))"

definition sample_state :: quoteState where
  "sample_state = \<lparr>position = None, received = 0, retainedOnly = False,
     pool = \<lparr>coin_types = [''0x2::a::A'', ''0x2::b::B'', ''0x2::f::F''], sqrt_price = 18446744073709551616, liquidity = 1000000000000,
       tick_index = 0, tick_spacing = 60, rate = 3000, unlocked = True\<rparr>,
     version = 3, state_digest = ''d'', checkpoint = 7, captured = 150, bitmap_id = sample_map_id, ticks_id = sample_id,
     keyType = ''0x91::i32::I32'', protocolRate = 200000, words = Map.empty, nets = Map.empty\<rparr>"

lemmas number_simps = jsonUint64_def jsonUnsigned_def number_text_def SetString_def unsigned_text_def read_digits_def is_digit_def

lemma sample_types: "pool_types 3 ''0x91::pool::Pool<0x2::a::A,0x2::b::B,0x2::f::F>'' = Inr [''0x2::a::A'', ''0x2::b::B'', ''0x2::f::F'']"
  "package_key ''0x91::pool::Pool<0x2::a::A,0x2::b::B,0x2::f::F>'' = Inr ''0x91::i32::I32''"
  by code_simp+

lemma sample_address: "ParseAddress ''0x7'' = Inr sample_map_id"
  by code_simp

lemmas decoder_simps = Unmarshal_def struct_of_def raw_field_def bool_field_def uint_field_def string_field_def ToLower_def lower_char_def

lemma sample_parse:
  "turbos_ParsePool (Some (sample_object ver ''18446744073709551616'')) = Inr (sui_pool.extend (pool sample_state)
     \<lparr>pool_address = sample_id, initial_version = ver, coin_a = 5, coin_b = 6\<rparr>)"
  by (simp add: turbos_ParsePool_def sample_object_def parse_object_def sample_types ebind_def turbos_decoder_def decoder_simps number_simps
      turbos_zero_def sample_state_def sui_pool.defs i32_id IsUint64_def u64_of_def)

lemma sample_capture_at: "turbos_capturePool now (Some (sample_object ver ''18446744073709551616'')) k
    = Inr (sample_state\<lparr>version := ver, checkpoint := k, captured := now\<rparr>)"
proof -
  have p: "\<not> price_invalid 1000000000000 18446744073709551616" by code_simp
  show ?thesis
    unfolding turbos_capturePool_def sample_parse ebind_def sum.case
    by (simp add: sample_object_def parse_object_def turbos_fields_def decoder_simps number_simps sample_types sample_address p ebind_def
        sample_state_def captured_state_def sui_pool.defs grid_invalid_def)
qed

lemma sample_capture: "turbos_capturePool 150 (Some (sample_object 3 ''18446744073709551616'')) 7 = Inr sample_state"
  by (simp add: sample_capture_at) (simp add: sample_state_def)

definition sample_filled :: quoteState where
  "sample_filled = sample_state\<lparr>words := [1 \<mapsto> 0, 0 \<mapsto> 2, - 1 \<mapsto> 0], nets := [60 \<mapsto> 5]\<rparr>"

lemma sample_window: "captureWindow sample_env sample_state n = (Inr sample_filled, n + 2)"
proof -
  have w: "window_words 0 60 = [- 1, 0, 1]" "word_ticks 60 (- 1) 0 = []" "word_ticks 60 0 2 = [60]" "word_ticks 60 1 0 = []"
    "index_key (- 1) \<noteq> [0, 0, 0, 0]" "index_key 0 = [0, 0, 0, 0]" "index_key 1 \<noteq> [0, 0, 0, 0]" "sample_id \<noteq> sample_map_id"
    by code_simp+
  show ?thesis
    by (simp add: captureWindow_def Read_def Let_def read_fields_def alive_def sample_env_def Reader.defs sample_state_def sample_filled_def w andthen_def
        word_value_def number_simps ebind_def chunks.simps i32_id net_value_def net_decoder_def decoder_simps signed_net_def BitLen_gt_def)
qed

abbreviation "sample_head \<equiv> \<lparr>cp_sequence = 7, cp_digest = ''h'', cp_time = Some 100\<rparr>"

lemma sample_not_zero: "\<not> IsZero sample_id"
  by code_simp

lemma warm_run:
  "Warm turbos_venue sample_env (empty_cache, 0) = (Inr (), (warm_cache, 4))"
  "warm_cache = retain_state sample_head 150 (empty_cache\<lparr>cached_state := Some sample_filled, accepted := sample_head\<rparr>)"
proof -
  have env: "LatestCheckpoint sample_env k = Inr sample_head" "ObjectAtCheckpoint sample_env k a c = Inr (Some (sample_object 3 ''18446744073709551616''))"
    "clock sample_env k = 150" "observed sample_env k = 0" "ctx_err sample_env k = None" for k a c
    by (simp_all add: sample_env_def)
  have cache: "floor_seq empty_cache = 0" "cached_state empty_cache = None" "cache_pool empty_cache = sample_id" "maxAge empty_cache = 1000"
    "accepted empty_cache = no_checkpoint" "retainedScope empty_cache = None"
    using sample_not_zero by (simp_all add: empty_cache_def NewStateCache_def)
  have venue: "capture_pool turbos_venue = turbos_capturePool" "trading turbos_venue = (\<lambda>e a s. ret ())"
    by (simp_all add: turbos_venue_def)
  have ob: "obj_address (sample_object 3 t) = sample_id" "obj_version (sample_object 3 t) = 3" for t by (simp_all add: sample_object_def)
  have filled: "captured sample_filled = 150" by (simp add: sample_filled_def sample_state_def)
  have a: "acquire turbos_venue sample_env (empty_cache, 0) =
      (Inr (sample_head, sample_object 3 ''18446744073709551616'', 150), (empty_cache\<lparr>cached_state := Some sample_filled\<rparr>, 4))"
    by (simp add: acquire_def andthen_def on_reads_def QuoteCheckpoint_def one_read_def head_check_def cur_floor_def too_old_def earlier_def
        stale_def recapture_def on_cache_def env cache venue ob sample_capture sample_window no_checkpoint_def)
  have w: "Warm turbos_venue sample_env (empty_cache, 0) =
      (Inr (), (retain_state sample_head 150 (empty_cache\<lparr>cached_state := Some sample_filled, accepted := sample_head\<rparr>), 4))"
    by (simp add: Warm_def andthen_def a still_current_def on_cache_def env cur_floor_def too_old_def cache filled scope_changed_def)
  then show "warm_cache = retain_state sample_head 150 (empty_cache\<lparr>cached_state := Some sample_filled, accepted := sample_head\<rparr>)"
    by (simp add: warm_cache_def)
  with w show "Warm turbos_venue sample_env (empty_cache, 0) = (Inr (), (warm_cache, 4))" by simp
qed

lemma empty_reach: "venue_reach turbos_venue empty_cache"
proof -
  have "NewStateCache sample_id 1000 = Inr empty_cache" using sample_not_zero by (simp add: empty_cache_def NewStateCache_def)
  then show ?thesis unfolding venue_reach_def by (blast intro: retained_reach.new)
qed

lemma warm_reach: "venue_reach turbos_venue warm_cache"
  using empty_reach warm_run(1) unfolding venue_reach_def by (auto intro: retained_reach.warmed simp: turbos_venue_def momentum_venue_def bluefin_venue_def)


definition sample_kept :: quoteState where
  "sample_kept = sample_filled\<lparr>received := 150, retainedOnly := True\<rparr>"

lemma warm_retained: "retained warm_cache = Some sample_kept" "retainedHead warm_cache = sample_head"
  "cache_pool warm_cache = sample_id" "stateObservation warm_cache = \<lparr>epoch = 0, active = False, confirmed_at = None, source_time = None\<rparr>"
  "observationCheckpoint warm_cache = 0"
  using sample_not_zero
  by (simp_all add: warm_run(2) retain_state_def publish_def empty_cache_def NewStateCache_def sample_kept_def sample_filled_def sample_state_def)

theorem retained_invariant_witness: "in_range sample_kept \<and> retainedOnly sample_kept \<and> hd (published warm_cache) = captureQuoteSnapshotLocked warm_cache"
  using retained_invariant [OF warm_reach] by (cases "published warm_cache") (auto simp: warm_retained)

text \<open>A transaction that makes version 4 of the pool.\<close>

definition sample_update :: Update where
  "sample_update = \<lparr>notification =
     \<lparr>effects = Some \<lparr>eff_index = Some 2, eff_digest = ''t'', eff_checkpoint = Some 8, eff_timestamp = Some 170\<rparr>, watermark = Some 8,
      changes = [\<lparr>change_address = sample_id, before = Some (sample_object 3 ''18446744073709551616''),
        after = Some (sample_object 4 ''18446744073709551616''), input_parent = replicate 32 0, output_parent = replicate 32 0, deleted = False\<rparr>],
      changes_error = None\<rparr>, received_at = 180\<rparr>"

lemma updated_run: "\<exists>c' s'. retain_update turbos_venue 190 sample_update warm_cache = (Inr (), c') \<and> retained c' = Some s' \<and> version s' = 4"
proof -
  have z: "replicate 32 0 \<noteq> sample_map_id" "replicate 32 0 \<noteq> sample_id" by code_simp+
  have d: "obj_digest (sample_object 4 t) = ''d''" "obj_version (sample_object 4 t) = 4" for t by (simp_all add: sample_object_def)
  have v: "capture_pool turbos_venue = turbos_capturePool" "retain_change turbos_venue = turbos_retain_change" by (simp_all add: turbos_venue_def)
  show ?thesis
    by (simp add: retain_update_def sample_update_def applyRetainedObjects_def retain_objects_def warm_retained next_state_def v d sample_capture_at ebind_def
        turbos_retain_change_def leaves_def z placed_def ObserveProgress_def with_time_def andthen_def publish_def sample_kept_def sample_filled_def sample_state_def)
qed

lemma live_update_advances_witness:
  "\<exists>c' s'. retain_update turbos_venue 190 sample_update warm_cache = (Inr (), c') \<and> retained c' = Some s' \<and> version s' = 4
     \<and> advances sample_kept s'"
proof -
  obtain c' s' where u: "retain_update turbos_venue 190 sample_update warm_cache = (Inr (), c')" "retained c' = Some s'" "version s' = 4"
    using updated_run by blast
  have "notif_calm (Some (notification sample_update))" by (simp add: notif_calm_def sample_update_def)
  from live_update_advances [OF warm_reach this u(1)] show ?thesis using u warm_retained(1) by auto
qed

lemma install_never_regresses_witness:
  "\<exists>c'. installRetainedWindow turbos_venue 190 warm_cache [] warm_cache = (Inr (), c') \<and> cp_sequence (retainedHead warm_cache) \<le> cp_sequence (retainedHead c')"
proof -
  obtain c' where i: "installRetainedWindow turbos_venue 190 warm_cache [] warm_cache = (Inr (), c')"
    by (simp add: installRetainedWindow_def warm_retained)
  from install_never_regresses [OF warm_reach warm_reach i] i show ?thesis by auto
qed

definition sample_pair :: "int option pair_params" where
  "sample_pair = \<lparr>bid_pool = sample_id, ask_pool = sample_id, bid_in = Some 1000000, ask_out = Some 900000, bid_down = False, ask_down = True,
     bid_limit = Some (sqrtAtTick 200), ask_limit = Some (sqrtAtTick (- 200))\<rparr>"

theorem turbos_pair_no_gain_witness:
  "case QuoteRetainedPair turbos_quote (Reader.truncate sample_env) warm_cache sample_pair 0 of Inl e \<Rightarrow> False
    | Inr r \<Rightarrow> tq_in (pair_bid r) = 1000000 \<and> tq_out (pair_ask r) = 900000 \<and> pair_checkpoint r = 7
        \<and> tq_out (pair_bid r) * tq_out (pair_ask r) \<le> (tq_in (pair_bid r) + 1024) * (tq_in (pair_ask r) + 1024)"
proof -
  have priced: "\<And>s. retained warm_cache = Some s \<Longrightarrow> priced s"
  proof -
    have "priced sample_kept" by code_simp
    then show "\<And>s. retained warm_cache = Some s \<Longrightarrow> priced s" using warm_retained(1) by auto
  qed
  have calm: "reader_calm (Reader.truncate sample_env)" by (auto simp: reader_calm_def sample_env_def Reader.defs)
  let ?c = "empty_cache\<lparr>retained := Some sample_kept, retainedHead := sample_head, cache_pool := sample_id\<rparr>"
  have "QuoteRetainedPair turbos_quote (Reader.truncate sample_env) warm_cache sample_pair 0
      = QuoteRetainedPair turbos_quote (Reader.truncate sample_env) ?c sample_pair 0"
    by (simp add: QuoteRetainedPair_def pair_invalid_def warm_retained cong: option.case_cong)
  moreover have "\<not> isl (QuoteRetainedPair turbos_quote (Reader.truncate sample_env) ?c sample_pair 0)"
    by code_simp
  ultimately show ?thesis
    using turbos_pair_no_gain [OF warm_reach calm priced, where p = sample_pair and n = 0]
    by (auto simp: sample_pair_def warm_retained split: sum.splits)
qed

end
