(* ===== verification/Raydium_Cpmm.thy ===== *)
theory Raydium_Cpmm
  imports Solana_Arrays
begin

text \<open>
  \<open>go/solana/raydium/cpmm/client.go\<close>: the constant product pools of Raydium. Decoding of the accounts, the exact
  input quote over the reserves, discovery of the configured pools, and quotes from one account snapshot.

  The account provider is a parameter; the addresses of the programs, which the code decodes from base58 text, are
  arguments of the functions that use them.
\<close>

section \<open>Accounts\<close>

record Pool =
  Address :: address
  AMMConfig :: address
  Token0Vault :: address
  Token1Vault :: address
  Token0Mint :: address
  Token1Mint :: address
  Token0Program :: address
  Token1Program :: address
  Status :: u8
  Token0Decimals :: u8
  Token1Decimals :: u8
  ProtocolFees0 :: u64
  ProtocolFees1 :: u64
  FundFees0 :: u64
  FundFees1 :: u64
  CreatorFeeOn :: u8
  CreatorFeeEnabled :: bool
  CreatorFees0 :: u64
  CreatorFees1 :: u64

record ammConfig =
  tradeFeeRate :: u64
  protocolFeeRate :: u64
  fundFeeRate :: u64
  creatorFeeRate :: u64

record Quote =
  PoolAddress :: address
  InputMint :: address
  OutputMint :: address
  AmountIn :: u64
  AmountOut :: u64
  TradeFee :: u64
  CreatorFee :: u64

definition poolDiscriminator :: bytes where
  "poolDiscriminator = [0xf7, 0xed, 0xe3, 0xf5, 0xd7, 0xc3, 0xde, 0x46]"

definition configDiscriminator :: bytes where
  "configDiscriminator = [0xda, 0xf4, 0x21, 0x68, 0xcb, 0xcb, 0x2b, 0x6f]"

text \<open>The offset runs over the data: 8 + 10 * 32 bytes of addresses, then single bytes from 328 and words from 341.\<close>

definition decodePool :: "address \<Rightarrow> bytes \<Rightarrow> Pool res" where
  "decodePool a data =
     (if length data \<noteq> 637 then Inl (Fail ''data_length=invalid'')
      else if take 8 data \<noteq> poolDiscriminator then Inl (Fail ''discriminator=invalid'')
      else
        (let addr = (\<lambda>k. slice data (8 + 32 * k) (40 + 32 * k));
             p = \<lparr>Address = a, AMMConfig = addr 0, Token0Vault = addr 2, Token1Vault = addr 3, Token0Mint = addr 5, Token1Mint = addr 6,
                  Token0Program = addr 7, Token1Program = addr 8, Status = data ! 329, Token0Decimals = data ! 331,
                  Token1Decimals = data ! 332, ProtocolFees0 = read_u64 data 341, ProtocolFees1 = read_u64 data 349,
                  FundFees0 = read_u64 data 357, FundFees1 = read_u64 data 365, CreatorFeeOn = data ! 389,
                  CreatorFeeEnabled = (data ! 390 \<noteq> 0), CreatorFees0 = read_u64 data 397, CreatorFees1 = read_u64 data 405\<rparr>
         in if IsZero (AMMConfig p) \<or> IsZero (Token0Vault p) \<or> IsZero (Token1Vault p) \<or> IsZero (Token0Mint p) \<or> IsZero (Token1Mint p)
            then Inl (Fail ''required_address=empty'')
            else if CreatorFeeOn p > 2 then Inl (Fail ''creator_fee_on=invalid'')
            else Inr p))"

definition decodeAMMConfig :: "Account option \<Rightarrow> ammConfig res" where
  "decodeAMMConfig account =
     (case account of None \<Rightarrow> Inl (Fail ''account=null'')
      | Some account \<Rightarrow>
          (let d = Data account
           in if length d \<noteq> 236 then Inl (Fail ''data_length=invalid'')
              else if take 8 d \<noteq> configDiscriminator then Inl (Fail ''discriminator=invalid'')
              else Inr \<lparr>tradeFeeRate = read_u64 d 12, protocolFeeRate = read_u64 d 20, fundFeeRate = read_u64 d 28,
                        creatorFeeRate = read_u64 d 108\<rparr>))"

definition decodeTokenAmount :: "Account option \<Rightarrow> u64 res" where
  "decodeTokenAmount account =
     (case account of None \<Rightarrow> Inl (Fail ''account=null'')
      | Some account \<Rightarrow>
          if length (Data account) < 72 then Inl (Fail ''data_length=too_short'') else Inr (read_u64 (Data account) 64))"

section \<open>The quote\<close>

definition feeDenominator :: u64 where
  "feeDenominator = 1000000"

definition ceilMulDiv :: "u64 \<Rightarrow> u64 \<Rightarrow> u64 \<Rightarrow> u64 \<times> bool" where
  "ceilMulDiv n numerator denominator =
     (if denominator = 0 then (0, False)
      else (let q = (uint n * uint numerator + uint (denominator - 1)) div uint denominator in (u64_of q, IsUint64 q)))"

fun sum_loop :: "u64 \<Rightarrow> u64 list \<Rightarrow> u64 option" where
  "sum_loop acc [] = Some acc"
| "sum_loop acc (x # xs) = (if x > NOT 0 - acc then None else sum_loop (acc + x) xs)"

definition checkedSum :: "u64 list \<Rightarrow> u64 option" where
  "checkedSum xs = sum_loop 0 xs"

definition creator_share :: "u64 \<Rightarrow> u64 \<Rightarrow> u64 \<Rightarrow> bool \<Rightarrow> u64 res" where
  "creator_share totalFee creatorRate totalRate onInput =
     (if onInput \<and> creatorRate > 0
      then ebind (big_Div (uint totalFee * uint creatorRate) (uint totalRate)) (\<lambda>q. Inr (u64_of q)) else Inr 0)"

definition take_creator_fee :: "u64 \<Rightarrow> u64 \<Rightarrow> (u64 \<times> u64) res" where
  "take_creator_fee amountOut creatorRate =
     (let (fee, ok) = ceilMulDiv amountOut creatorRate feeDenominator
      in if \<not> ok \<or> fee \<ge> amountOut then Inl (Fail ''output_after_creator_fee=empty'') else Inr (amountOut - fee, fee))"

definition quote :: "u64 \<Rightarrow> u64 \<Rightarrow> u64 \<Rightarrow> u64 \<Rightarrow> u64 \<Rightarrow> bool \<Rightarrow> (u64 \<times> u64 \<times> u64) res" where
  "quote amountIn reserveIn reserveOut tradeRate creatorRate creatorOnInput =
     (if reserveIn = 0 \<or> reserveOut = 0 \<or> tradeRate \<ge> feeDenominator \<or> creatorRate \<ge> feeDenominator
         \<or> tradeRate > feeDenominator - creatorRate
      then Inl (Fail ''reserves_or_fees=invalid'')
      else
        (let totalRate = (if creatorOnInput then tradeRate + creatorRate else tradeRate);
             (totalFee, ok) = ceilMulDiv amountIn totalRate feeDenominator
         in if \<not> ok \<or> totalFee \<ge> amountIn then Inl (Fail ''amount_after_fees=empty'')
            else
              ebind (creator_share totalFee creatorRate totalRate creatorOnInput) (\<lambda>creatorFee.
              (let tradeFee = totalFee - creatorFee;
                   effective = amountIn - totalFee
               in ebind (big_Div (uint effective * uint reserveOut) (uint reserveIn + uint effective)) (\<lambda>raw.
                  if \<not> IsUint64 raw \<or> raw = 0 then Inl (Fail ''amount_out=invalid'')
                  else if \<not> creatorOnInput \<and> creatorRate > 0
                  then ebind (take_creator_fee (u64_of raw) creatorRate) (\<lambda>(amountOut, fee). Inr (amountOut, tradeFee, fee))
                  else Inr (u64_of raw, tradeFee, creatorFee))))))"

section \<open>The client\<close>

type_synonym provider = "address \<Rightarrow> Account option res"

text \<open>
  \<open>newSnapshotAccounts\<close>: the provider over a snapshot; an address that it does not hold has no account. A nil account does
  not replace what an earlier entry of the same address gave.
\<close>

definition newSnapshotAccounts :: "address list \<Rightarrow> AccountSnapshot option \<Rightarrow> provider res" where
  "newSnapshotAccounts addresses snapshot =
     (case snapshot of None \<Rightarrow> Inl (Fail ''snapshot=invalid'')
      | Some s \<Rightarrow>
          if length (Accounts s) \<noteq> length addresses then Inl (Fail ''snapshot=invalid'')
          else Inr (\<lambda>a. Inr (map_of (rev (List.map_filter (\<lambda>(a, acc). map_option (\<lambda>x. (a, x)) acc) (zip addresses (Accounts s)))) a)))"

definition creator_on_input :: "Pool \<Rightarrow> bool \<Rightarrow> bool" where
  "creator_on_input p zeroForOne \<longleftrightarrow>
     CreatorFeeOn p = 0 \<or> (CreatorFeeOn p = 1 \<and> zeroForOne) \<or> (CreatorFeeOn p = 2 \<and> \<not> zeroForOne)"

definition read_vaults :: "provider \<Rightarrow> address \<Rightarrow> address \<Rightarrow> u64 \<Rightarrow> u64 \<Rightarrow> (u64 \<times> u64) res" where
  "read_vaults accounts inputVault outputVault feesIn feesOut =
     ebind (accounts inputVault) (\<lambda>inAccount.
     ebind (accounts outputVault) (\<lambda>outAccount.
     ebind (decodeTokenAmount inAccount) (\<lambda>inAmount.
     ebind (decodeTokenAmount outAccount) (\<lambda>outAmount.
     if inAmount < feesIn \<or> outAmount < feesOut then Inl (Fail ''vault_amount=invalid'')
     else Inr (inAmount - feesIn, outAmount - feesOut)))))"

definition owned :: "address \<Rightarrow> string \<Rightarrow> Account option \<Rightarrow> Account res" where
  "owned programID name account =
     (case account of None \<Rightarrow> Inl (Fail (name @ ''_account=null''))
      | Some account \<Rightarrow> if Owner account \<noteq> programID then Inl (Fail (name @ ''_owner=invalid'')) else Inr account)"

definition quote_pool :: "provider \<Rightarrow> Pool \<Rightarrow> ammConfig \<Rightarrow> address \<Rightarrow> address \<Rightarrow> u64 \<Rightarrow> Quote res" where
  "quote_pool accounts pool config poolAddress inputMint amountIn =
     (let zeroForOne = (inputMint = Token0Mint pool)
      in if \<not> zeroForOne \<and> inputMint \<noteq> Token1Mint pool then Inl (Fail ''input_mint=invalid'')
         else
           (case checkedSum [ProtocolFees0 pool, FundFees0 pool, CreatorFees0 pool] of
              None \<Rightarrow> Inl (Fail ''token_0_fees=out_of_range'')
            | Some fees0 \<Rightarrow>
                (case checkedSum [ProtocolFees1 pool, FundFees1 pool, CreatorFees1 pool] of
                   None \<Rightarrow> Inl (Fail ''token_1_fees=out_of_range'')
                 | Some fees1 \<Rightarrow>
                     (let (inputVault, outputVault, outputMint, feesIn, feesOut) =
                            (if zeroForOne then (Token0Vault pool, Token1Vault pool, Token1Mint pool, fees0, fees1)
                             else (Token1Vault pool, Token0Vault pool, Token0Mint pool, fees1, fees0))
                      in ebind (read_vaults accounts inputVault outputVault feesIn feesOut) (\<lambda>(reserveIn, reserveOut).
                         (let creatorRate = (if CreatorFeeEnabled pool then creatorFeeRate config else 0)
                          in ebind (quote amountIn reserveIn reserveOut (tradeFeeRate config) creatorRate (creator_on_input pool zeroForOne))
                               (\<lambda>(amountOut, tradeFee, creatorFee).
                               Inr \<lparr>PoolAddress = poolAddress, InputMint = inputMint, OutputMint = outputMint, AmountIn = amountIn,
                                    AmountOut = amountOut, TradeFee = tradeFee, CreatorFee = creatorFee\<rparr>)))))))"

definition quoteExactInput :: "provider \<Rightarrow> address \<Rightarrow> (address \<rightharpoonup> Pool) \<Rightarrow> address \<Rightarrow> address \<Rightarrow> u64 \<Rightarrow> Quote res" where
  "quoteExactInput accounts programID pools poolAddress inputMint amountIn =
     (if amountIn = 0 then Inl (Fail ''amount_in=empty'')
      else if pools poolAddress = None then Inl (Fail ''pool=not_found'')
      else
        ebind (accounts poolAddress) (\<lambda>poolAccount.
        ebind (owned programID ''pool'' poolAccount) (\<lambda>poolAccount.
        ebind (decodePool poolAddress (Data poolAccount)) (\<lambda>pool.
        if Status pool AND 4 \<noteq> 0 then Inl (Fail ''pool swap disabled'')
        else
          ebind (accounts (AMMConfig pool)) (\<lambda>configAccount.
          ebind (owned programID ''amm_config'' configAccount) (\<lambda>configAccount.
          ebind (decodeAMMConfig (Some configAccount)) (\<lambda>config.
          quote_pool accounts pool config poolAddress inputMint amountIn)))))))"

type_synonym request = "address \<times> u64"

fun check_requests :: "Pool \<Rightarrow> request list \<Rightarrow> unit res" where
  "check_requests pool [] = Inr ()"
| "check_requests pool ((mint, amount) # rs) =
     (if amount = 0 then Inl (Fail ''amount_in=empty'')
      else if mint \<noteq> Token0Mint pool \<and> mint \<noteq> Token1Mint pool then Inl (Fail ''input_mint=invalid'')
      else check_requests pool rs)"

fun quote_each :: "provider \<Rightarrow> address \<Rightarrow> (address \<rightharpoonup> Pool) \<Rightarrow> address \<Rightarrow> request list \<Rightarrow> Quote list res" where
  "quote_each accounts programID pools poolAddress [] = Inr []"
| "quote_each accounts programID pools poolAddress ((mint, amount) # rs) =
     ebind (quoteExactInput accounts programID pools poolAddress mint amount) (\<lambda>q.
     ebind (quote_each accounts programID pools poolAddress rs) (\<lambda>qs. Inr (q # qs)))"

definition pool_addresses :: "Pool \<Rightarrow> address list" where
  "pool_addresses pool = [Address pool, AMMConfig pool, Token0Vault pool, Token1Vault pool]"

definition QuoteExactInputsWithSlot ::
    "(address list \<Rightarrow> AccountSnapshot option res) \<Rightarrow> address \<Rightarrow> (address \<rightharpoonup> Pool) \<Rightarrow> address \<Rightarrow> request list \<Rightarrow> (u64 \<times> Quote list) res" where
  "QuoteExactInputsWithSlot snapshots programID pools poolAddress requests =
     (if requests = [] then Inl (Fail ''requests=empty'')
      else case pools poolAddress of None \<Rightarrow> Inl (Fail ''pool=invalid'')
      | Some pool \<Rightarrow>
          ebind (check_requests pool requests) (\<lambda>_.
          ebind (snapshots (pool_addresses pool)) (\<lambda>snapshot.
          ebind (newSnapshotAccounts (pool_addresses pool) snapshot) (\<lambda>accounts.
          ebind (quote_each accounts programID pools poolAddress requests) (\<lambda>quotes.
          case snapshot of None \<Rightarrow> Inl (Panic ''nil snapshot'') | Some s \<Rightarrow> Inr (Slot s, quotes))))))"

text \<open>\<open>NewClient\<close>: the pools in the order of the configuration, each discovered once.\<close>

fun discover :: "provider \<Rightarrow> address \<Rightarrow> address \<Rightarrow> address list \<Rightarrow> (address \<times> Pool) list \<Rightarrow> (address \<times> Pool) list res" where
  "discover accounts programID tokenProgram [] found = Inr found"
| "discover accounts programID tokenProgram (a # as) found =
     (if IsZero a then Inl (Fail ''pool=empty'')
      else if a \<in> fst ` set found then Inl (Fail ''pool=invalid'')
      else
        ebind (accounts a) (\<lambda>account.
        ebind (owned programID ''pool'' account) (\<lambda>account.
        ebind (decodePool a (Data account)) (\<lambda>pool.
        if Token0Program pool \<noteq> tokenProgram \<or> Token1Program pool \<noteq> tokenProgram then Inl (Fail ''token_program=unsupported'')
        else discover accounts programID tokenProgram as (found @ [(a, pool)])))))"

definition NewClient :: "address \<Rightarrow> address \<Rightarrow> provider option \<Rightarrow> address \<Rightarrow> address list \<Rightarrow> (address \<times> (address \<times> Pool) list) res" where
  "NewClient mainnetProgram tokenProgram accounts programID pools =
     (case accounts of None \<Rightarrow> Inl (Fail ''accounts=null'')
      | Some accounts \<Rightarrow>
          (let programID = (if IsZero programID then mainnetProgram else programID)
           in if pools = [] then Inl (Fail ''pools=empty'')
              else ebind (discover accounts programID tokenProgram pools []) (\<lambda>found. Inr (programID, found))))"

definition Pools :: "(address \<times> Pool) list \<Rightarrow> Pool list" where
  "Pools found = List.map snd found"

section \<open>The arithmetic\<close>

lemma feeDenominator_uint [simp]: "uint feeDenominator = 1000000"
  by (simp add: feeDenominator_def)

lemma ceilMulDiv_fee:
  "ceilMulDiv n m feeDenominator = (u64_of (cdiv (uint n * uint m) 1000000), IsUint64 (cdiv (uint n * uint m) 1000000))"
proof -
  have up: "(k + 999999) div 1000000 = cdiv k 1000000" for k :: int
  proof (rule antisym)
    show "(k + 999999) div 1000000 \<le> cdiv k 1000000"
      using cdiv_mult_ge [of 1000000 k] div_less_iff_less_mult [of 1000000 "k + 999999" "cdiv k 1000000 + 1"] by simp
    show "cdiv k 1000000 \<le> (k + 999999) div 1000000"
      using less_div_mult [of 1000000 "k + 999999"] by (simp add: cdiv_le_iff)
  qed
  have "uint (feeDenominator - 1) = 999999" "feeDenominator \<noteq> 0" by (simp_all add: feeDenominator_def)
  then show ?thesis by (simp add: ceilMulDiv_def Let_def up)
qed

text \<open>A fee of less than the whole is at most the amount, so it fits.\<close>

lemma part_fee:
  assumes "0 \<le> r" "r \<le> 1000000" "0 \<le> (n :: int)"
  shows "0 \<le> cdiv (n * r) 1000000 \<and> cdiv (n * r) 1000000 \<le> n"
  using assms mult_left_mono [of r 1000000 n] by (simp add: cdiv_le_iff cdiv_nonneg)

lemma part_fee_u64: "0 \<le> r \<Longrightarrow> r \<le> 1000000 \<Longrightarrow> IsUint64 (cdiv (uint (n :: u64) * r) 1000000)"
  using part_fee [of r "uint n"] uint64_bounds [of n] by (simp add: IsUint64_def)

text \<open>What remains of an amount after a fee never falls when the amount grows.\<close>

lemma after_fee_mono:
  assumes "0 \<le> r" "r \<le> 1000000" "(m :: int) \<le> n"
  shows "m - cdiv (m * r) 1000000 \<le> n - cdiv (n * r) 1000000"
proof -
  have "n * r = m * r + (n - m) * r" by (simp add: algebra_simps)
  also have "\<dots> \<le> m * r + (n - m) * 1000000" using assms by (intro add_left_mono mult_left_mono) simp_all
  also have "\<dots> \<le> (cdiv (m * r) 1000000 + (n - m)) * 1000000" using cdiv_mult_ge [of 1000000 "m * r"] by (simp add: algebra_simps)
  finally have "cdiv (n * r) 1000000 \<le> cdiv (m * r) 1000000 + (n - m)" by (simp add: cdiv_le_iff)
  then show ?thesis by simp
qed

text \<open>The quote on integers, with the fees of both kinds written as what is left after them.\<close>

definition valid_pool :: "u64 \<Rightarrow> u64 \<Rightarrow> u64 \<Rightarrow> u64 \<Rightarrow> bool" where
  "valid_pool x y t c \<longleftrightarrow> 0 < uint x \<and> 0 < uint y \<and> uint t < 1000000 \<and> uint c < 1000000 \<and> uint t + uint c \<le> 1000000"

definition after_fee :: "int \<Rightarrow> int \<Rightarrow> int" where
  "after_fee r n = n - cdiv (n * r) 1000000"

definition curve_out :: "int \<Rightarrow> int \<Rightarrow> int \<Rightarrow> int" where
  "curve_out x y e = e * y div (x + e)"

definition input_rate :: "u64 \<Rightarrow> u64 \<Rightarrow> bool \<Rightarrow> int" where
  "input_rate t c on_input = (if on_input then uint t + uint c else uint t)"

definition output_rate :: "u64 \<Rightarrow> bool \<Rightarrow> int" where
  "output_rate c on_input = (if on_input then 0 else uint c)"

lemma valid_pool_iff:
  "valid_pool x y t c \<longleftrightarrow> \<not> (x = 0 \<or> y = 0 \<or> t \<ge> feeDenominator \<or> c \<ge> feeDenominator \<or> t > feeDenominator - c)"
proof -
  have "x = 0 \<longleftrightarrow> \<not> 0 < uint x" "y = 0 \<longleftrightarrow> \<not> 0 < uint y"
    using uint64_bounds [of x] uint64_bounds [of y] by (simp_all add: word_uint_eq_iff linorder_not_less order_antisym_conv)
  moreover have "t > feeDenominator - c \<longleftrightarrow> uint t + uint c > 1000000" if "\<not> c \<ge> feeDenominator"
    using that by (auto simp: word_less_def word_le_def uint_sub_u64)
  ultimately show ?thesis by (auto simp: valid_pool_def word_le_def)
qed

lemma rates_ok: "valid_pool x y t c \<Longrightarrow> 0 \<le> input_rate t c on_input \<and> input_rate t c on_input \<le> 1000000
    \<and> 0 \<le> output_rate c on_input \<and> output_rate c on_input \<le> 1000000"
  using uint64_bounds [of t] uint64_bounds [of c] by (auto simp: valid_pool_def input_rate_def output_rate_def)

lemma total_rate: "valid_pool x y t c \<Longrightarrow> uint (if on_input then t + c else t) = input_rate t c on_input"
  by (auto simp: valid_pool_def input_rate_def uint_plus_if')

lemma curve_out_bounds:
  assumes "0 < x" "0 < y" "0 \<le> e"
  shows "0 \<le> curve_out x y e \<and> curve_out x y e < y \<and> curve_out x y e * (x + e) \<le> e * y"
proof -
  have "e * y < y * (x + e)" using assms by (simp add: algebra_simps)
  then have "curve_out x y e < y" unfolding curve_out_def using assms by (simp add: div_less_iff_less_mult)
  moreover have "0 \<le> curve_out x y e" unfolding curve_out_def using assms by (intro div_int_pos_iff [THEN iffD2]) simp
  moreover have "curve_out x y e * (x + e) \<le> e * y" unfolding curve_out_def using assms by (intro div_mult_le) simp
  ultimately show ?thesis by simp
qed

lemma curve_out_mono:
  assumes "0 < x" "0 < y" "0 \<le> e" "e \<le> e'"
  shows "curve_out x y e \<le> curve_out x y e'"
proof -
  have "curve_out x y e * (x + e') \<le> e' * y"
  proof -
    have "curve_out x y e * (x + e') = curve_out x y e * (x + e) + curve_out x y e * (e' - e)" by (simp add: algebra_simps)
    also have "\<dots> \<le> e * y + y * (e' - e)"
      using curve_out_bounds [OF assms(1-3)] assms(4) by (intro add_mono mult_right_mono) simp_all
    finally show ?thesis by (simp add: algebra_simps)
  qed
  then show ?thesis unfolding curve_out_def [of x y e'] using assms by (simp add: le_div_iff_mult_le)
qed

text \<open>The fees of a quote: the share of the creator is taken from the fee on the input, or from the output.\<close>

definition creator_fee :: "u64 \<Rightarrow> u64 \<Rightarrow> bool \<Rightarrow> int \<Rightarrow> int \<Rightarrow> int" where
  "creator_fee t c on_input fee raw =
     (if on_input then (if 0 < uint c then fee * uint c div (uint t + uint c) else 0) else raw - after_fee (uint c) raw)"

lemma creator_share_value:
  assumes v: "valid_pool x y t c" and fee: "0 \<le> fee" "fee < 2 ^ 64"
  shows "creator_share (u64_of fee) c (if on_input then t + c else t) on_input
      = Inr (u64_of (if on_input then creator_fee t c True fee raw else 0))
    \<and> 0 \<le> (if on_input then creator_fee t c True fee raw else 0) \<and> (if on_input then creator_fee t c True fee raw else 0) \<le> fee"
proof (cases "on_input \<and> c > 0")
  case True
  define C where "C = uint c"
  define T where "T = uint t + uint c"
  have r: "uint (t + c) = T" using total_rate [OF v, of True] by (simp add: input_rate_def T_def)
  have c: "0 < C" "C \<le> T" using True uint64_bounds [of t] by (simp_all add: C_def T_def word_less_def)
  have pos: "0 < T" using c by simp
  have "fee * C div T \<le> fee * T div T" using c fee pos by (intro zdiv_mono1 mult_left_mono) simp_all
  then have le: "fee * C div T \<le> fee" using pos by simp
  have nn: "0 \<le> fee * C div T" using c fee pos by (simp add: pos_imp_zdiv_nonneg_iff)
  have f: "uint (u64_of fee) = fee" using fee by (simp add: u64_of_def uint_word_of_int)
  have "creator_share (u64_of fee) c (t + c) True = Inr (u64_of (fee * C div T))"
    using True pos by (simp add: creator_share_def f r big_Div_pos C_def)
  then show ?thesis using True le nn c unfolding T_def C_def by (simp add: creator_fee_def)
next
  case False
  then show ?thesis using fee by (auto simp: creator_share_def creator_fee_def word_less_def u64_of_def)
qed

text \<open>
  The exact input quote of a constant product pool, on integers: the fee is taken off the input, the curve gives the
  output for what remains, and the fee of the creator is taken off it when it is not on the input. The quote fails
  exactly when the rates or reserves are invalid or one of the three amounts is not positive; it never overflows.
\<close>

lemma quote_value:
  "quote amount x y t c on_input =
     (let e = after_fee (input_rate t c on_input) (uint amount);
          raw = curve_out (uint x) (uint y) e;
          out = after_fee (output_rate c on_input) raw;
          cf = creator_fee t c on_input (uint amount - e) raw
      in if \<not> valid_pool x y t c then Inl (Fail ''reserves_or_fees=invalid'')
         else if e \<le> 0 then Inl (Fail ''amount_after_fees=empty'')
         else if raw = 0 then Inl (Fail ''amount_out=invalid'')
         else if out \<le> 0 then Inl (Fail ''output_after_creator_fee=empty'')
         else Inr (u64_of out, u64_of (uint amount - e - (if on_input then cf else 0)), u64_of cf))"
proof (cases "valid_pool x y t c")
  case False
  then show ?thesis unfolding valid_pool_iff by (simp add: quote_def Let_def valid_pool_iff)
next
  case True
  have guard: "x \<noteq> 0" "y \<noteq> 0" "\<not> t \<ge> feeDenominator" "\<not> c \<ge> feeDenominator" "\<not> t > feeDenominator - c"
    using True unfolding valid_pool_iff by blast+
  define r where "r = input_rate t c on_input"
  define fee where "fee = cdiv (uint amount * r) 1000000"
  define e where "e = uint amount - fee"
  define raw where "raw = curve_out (uint x) (uint y) e"
  have r: "0 \<le> r" "r \<le> 1000000" "0 \<le> uint c" "uint c \<le> 1000000"
    using rates_ok [OF True] True by (simp_all add: r_def valid_pool_def)
  have fee: "0 \<le> fee" "fee \<le> uint amount" "IsUint64 fee" "fee < 2 ^ 64"
    using part_fee [OF r(1,2), of "uint amount"] part_fee_u64 [OF r(1,2), of amount] by (simp_all add: fee_def IsUint64_def)
  have ce: "ceilMulDiv amount (if on_input then t + c else t) feeDenominator = (u64_of fee, True)"
    using fee(3) by (simp add: ceilMulDiv_fee total_rate [OF True] r_def [symmetric] fee_def)
  have uf: "uint (u64_of fee) = fee" using fee(3) by (simp add: uint_u64_of)
  have e: "after_fee r (uint amount) = e" by (simp add: after_fee_def e_def fee_def)
  have ge: "u64_of fee \<ge> amount \<longleftrightarrow> e \<le> 0" by (simp add: word_le_def uf e_def)
  have xy: "0 < uint x" "0 < uint y" using True by (simp_all add: valid_pool_def)
  show ?thesis
  proof (cases "e \<le> 0")
    case True
    then show ?thesis using \<open>valid_pool x y t c\<close> ge ce e guard unfolding r_def
      by (simp add: quote_def Let_def)
  next
    case False
    have ue: "uint (amount - u64_of fee) = e" using False ge uf by (simp add: uint_sub_u64 e_def)
    have raw: "0 \<le> raw" "raw < uint y" "IsUint64 raw" using curve_out_bounds [OF xy, of e] False uint64_bounds [of y]
      by (simp_all add: raw_def IsUint64_def)
    have curve: "big_Div (e * uint y) (uint x + e) = Inr raw"
      using False xy by (simp add: big_Div_pos raw_def curve_out_def)
    obtain s where s: "creator_share (u64_of fee) c (if on_input then t + c else t) on_input = Inr (u64_of s)" "0 \<le> s" "s \<le> fee"
        "s = (if on_input then creator_fee t c True fee raw else 0)"
      using creator_share_value [OF \<open>valid_pool x y t c\<close> fee(1,4), of on_input raw] by blast
    have trade: "u64_of fee - u64_of s = u64_of (fee - s)"
      by (simp add: u64_of_def)
    have base: "quote amount x y t c on_input =
       (if raw = 0 then Inl (Fail ''amount_out=invalid'')
        else if \<not> on_input \<and> c > 0
        then ebind (take_creator_fee (u64_of raw) c) (\<lambda>(amountOut, f). Inr (amountOut, u64_of (fee - s), f))
        else Inr (u64_of raw, u64_of (fee - s), u64_of s))"
      using guard False ge ce s(1) curve raw(3) trade
      by (simp add: quote_def Let_def ue)
    have spent: "uint amount - e = fee" by (simp add: e_def)
    show ?thesis
    proof (cases "\<not> on_input \<and> c > 0")
      case True
      define f where "f = cdiv (raw * uint c) 1000000"
      have f: "0 \<le> f" "f \<le> raw" "IsUint64 f" using part_fee [OF r(3,4) raw(1)] raw(3) by (auto simp: f_def IsUint64_def)
      have u: "uint (u64_of raw) = raw" "uint (u64_of f) = f" using raw(3) f(3) by (simp_all add: uint_u64_of)
      have "take_creator_fee (u64_of raw) c = (if raw - f \<le> 0 then Inl (Fail ''output_after_creator_fee=empty'') else Inr (u64_of (raw - f), u64_of f))"
        using f by (simp add: take_creator_fee_def ceilMulDiv_fee u f_def [symmetric] word_le_def) (simp add: u64_of_def)
      then show ?thesis using base True \<open>valid_pool x y t c\<close> False e s(4) spent unfolding r_def
        by (simp add: Let_def after_fee_def [of "uint c"] output_rate_def raw_def [symmetric] f_def [symmetric] creator_fee_def)
    next
      case no_output_fee: False
      have c0: "uint c = 0" if "\<not> on_input" using that no_output_fee by (simp add: word_neq_0_conv [symmetric])
      have o: "output_rate c on_input = 0" using c0 by (simp add: output_rate_def)
      have "after_fee 0 raw = raw" by (simp add: after_fee_def)
      moreover have "creator_fee t c on_input fee raw = s" using c0 s(4) by (simp add: creator_fee_def after_fee_def)
      moreover have "raw \<le> 0 \<longleftrightarrow> raw = 0" using raw(1) by simp
      moreover have "(if on_input then s else 0) = s" using s(4) by simp
      ultimately show ?thesis using base no_output_fee \<open>valid_pool x y t c\<close> False e spent o s(4) unfolding r_def
        by (cases on_input) (simp_all add: Let_def raw_def [symmetric])
    qed
  qed
qed

text \<open>
  C33. The quote of a constant product pool is the curve on integers between two fees that are rounded up: it fails
  exactly when rates or reserves are invalid or what remains at one of the three stages is not positive, with the
  error of that stage, and no step of its 64 bit arithmetic wraps or divides by zero.
\<close>

theorem cpmm_quote_exact:
  "quote amount x y t c on_input =
     (let e = after_fee (input_rate t c on_input) (uint amount);
          raw = curve_out (uint x) (uint y) e;
          out = after_fee (output_rate c on_input) raw;
          cf = creator_fee t c on_input (uint amount - e) raw
      in if \<not> valid_pool x y t c then Inl (Fail ''reserves_or_fees=invalid'')
         else if e \<le> 0 then Inl (Fail ''amount_after_fees=empty'')
         else if raw = 0 then Inl (Fail ''amount_out=invalid'')
         else if out \<le> 0 then Inl (Fail ''output_after_creator_fee=empty'')
         else Inr (u64_of out, u64_of (uint amount - e - (if on_input then cf else 0)), u64_of cf))"
  by (rule quote_value)

lemma quote_accepts:
  assumes "quote amount x y t c on_input = Inr (out, tf, cf)"
  shows "valid_pool x y t c" and "0 < after_fee (input_rate t c on_input) (uint amount)"
    and "uint out = after_fee (output_rate c on_input) (curve_out (uint x) (uint y) (after_fee (input_rate t c on_input) (uint amount)))"
    and "0 < uint out"
proof -
  define e where "e = after_fee (input_rate t c on_input) (uint amount)"
  define raw where "raw = curve_out (uint x) (uint y) e"
  define out' where "out' = after_fee (output_rate c on_input) raw"
  have q: "valid_pool x y t c" "0 < e" "raw \<noteq> 0" "0 < out'" "out = u64_of out'"
    using assms unfolding quote_value Let_def unfolding e_def [symmetric] unfolding raw_def [symmetric] unfolding out'_def [symmetric]
    by (auto split: if_splits)
  have xy: "0 < uint x" "0 < uint y" using q(1) by (simp_all add: valid_pool_def)
  have "out' \<le> raw" "raw < uint y"
    using part_fee [of "output_rate c on_input" raw] rates_ok [OF q(1), of on_input] curve_out_bounds [OF xy, of e] q(2)
    by (simp_all add: out'_def after_fee_def raw_def)
  then have "IsUint64 out'" using q(4) uint64_bounds [of y] by (simp add: IsUint64_def)
  then show "valid_pool x y t c" "0 < after_fee (input_rate t c on_input) (uint amount)"
    "uint out = after_fee (output_rate c on_input) (curve_out (uint x) (uint y) (after_fee (input_rate t c on_input) (uint amount)))" "0 < uint out"
    using q by (simp_all add: e_def raw_def out'_def uint_u64_of)
qed

text \<open>What a quote gives is on the curve or below it, so the product of the reserves never falls.\<close>

lemma quote_fair:
  assumes "quote amount x y t c on_input = Inr (out, tf, cf)"
  shows "0 < uint out" and "uint out < uint y" and "uint out * (uint x + uint amount) \<le> uint amount * uint y"
    and "uint x * uint y \<le> (uint x + uint amount) * (uint y - uint out)"
proof -
  note a = quote_accepts [OF assms]
  define e where "e = after_fee (input_rate t c on_input) (uint amount)"
  have e: "0 < e" "e \<le> uint amount"
    using a(2) part_fee [of "input_rate t c on_input" "uint amount"] rates_ok [OF a(1), of on_input] by (simp_all add: e_def after_fee_def)
  have xy: "0 < uint x" "0 < uint y" using a(1) by (simp_all add: valid_pool_def)
  have raw: "curve_out (uint x) (uint y) e \<le> curve_out (uint x) (uint y) (uint amount)" using e xy by (intro curve_out_mono) simp_all
  note b = curve_out_bounds [OF xy, of "uint amount"]
  have le: "uint out \<le> curve_out (uint x) (uint y) (uint amount)"
    using a(3) raw part_fee [of "output_rate c on_input" "curve_out (uint x) (uint y) e"] rates_ok [OF a(1), of on_input]
      curve_out_bounds [OF xy, of e] e by (simp add: after_fee_def e_def)
  show "0 < uint out" "uint out < uint y" using a(4) le b e by simp_all
  have "uint out * (uint x + uint amount) \<le> curve_out (uint x) (uint y) (uint amount) * (uint x + uint amount)"
    using le by (intro mult_right_mono) simp_all
  then show f: "uint out * (uint x + uint amount) \<le> uint amount * uint y" using b e by simp
  then show "uint x * uint y \<le> (uint x + uint amount) * (uint y - uint out)" by (simp add: algebra_simps)
qed

lemma after_fee_monotone: "0 \<le> r \<Longrightarrow> r \<le> 1000000 \<Longrightarrow> m \<le> n \<Longrightarrow> after_fee r m \<le> after_fee r n"
  by (simp add: after_fee_def after_fee_mono)

lemma quote_monotone:
  assumes "quote amount x y t c on_input = Inr (out, tf, cf)" and "uint amount \<le> uint amount'"
  shows "\<exists>out' tf' cf'. quote amount' x y t c on_input = Inr (out', tf', cf') \<and> uint out \<le> uint out'"
proof -
  note a = quote_accepts [OF assms(1)]
  note r = rates_ok [OF a(1), of on_input]
  have xy: "0 < uint x" "0 < uint y" using a(1) by (simp_all add: valid_pool_def)
  have e: "after_fee (input_rate t c on_input) (uint amount) \<le> after_fee (input_rate t c on_input) (uint amount')"
    using r assms(2) by (intro after_fee_monotone) simp_all
  define raw where "raw = curve_out (uint x) (uint y) (after_fee (input_rate t c on_input) (uint amount))"
  define raw' where "raw' = curve_out (uint x) (uint y) (after_fee (input_rate t c on_input) (uint amount'))"
  have raw: "raw \<le> raw'" unfolding raw_def raw'_def using xy e a(2) by (intro curve_out_mono) simp_all
  then have out: "after_fee (output_rate c on_input) raw \<le> after_fee (output_rate c on_input) raw'"
    using r by (intro after_fee_monotone) simp_all
  have "after_fee (output_rate c on_input) 0 = 0" by (simp add: after_fee_def)
  then have "raw' \<noteq> 0" using a(3,4) out by (auto simp: raw_def [symmetric])
  then have "\<exists>out' tf' cf'. quote amount' x y t c on_input = Inr (out', tf', cf')"
    using a e out unfolding quote_value Let_def unfolding raw_def [symmetric] raw'_def [symmetric] by simp
  then obtain out' tf' cf' where q: "quote amount' x y t c on_input = Inr (out', tf', cf')" by blast
  have "uint out \<le> uint out'" using a(3) quote_accepts(3) [OF q] out by (simp add: raw_def raw'_def)
  then show ?thesis using q by blast
qed

section \<open>Quotes from one snapshot\<close>

text \<open>The reserves that the accounts of a provider hold for a pool: the balances of the vaults less the fees that are not theirs.\<close>

definition reserves :: "provider \<Rightarrow> address \<Rightarrow> Pool \<Rightarrow> u64 \<Rightarrow> u64 \<Rightarrow> bool" where
  "reserves accounts poolAddress pool r0 r1 \<longleftrightarrow>
     (\<exists>acc acc0 acc1 a0 a1 f0 f1.
        accounts poolAddress = Inr (Some acc) \<and> decodePool poolAddress (Data acc) = Inr pool
      \<and> accounts (Token0Vault pool) = Inr acc0 \<and> decodeTokenAmount acc0 = Inr a0
      \<and> accounts (Token1Vault pool) = Inr acc1 \<and> decodeTokenAmount acc1 = Inr a1
      \<and> checkedSum [ProtocolFees0 pool, FundFees0 pool, CreatorFees0 pool] = Some f0
      \<and> checkedSum [ProtocolFees1 pool, FundFees1 pool, CreatorFees1 pool] = Some f1
      \<and> r0 = a0 - f0 \<and> r1 = a1 - f1)"

lemma reserves_unique:
  "reserves accounts pa pool r0 r1 \<Longrightarrow> reserves accounts pa pool' r0' r1' \<Longrightarrow> pool' = pool \<and> r0' = r0 \<and> r1' = r1"
  unfolding reserves_def by (elim exE conjE) auto

definition rates :: "provider \<Rightarrow> Pool \<Rightarrow> u64 \<Rightarrow> u64 \<Rightarrow> bool" where
  "rates accounts pool t c \<longleftrightarrow>
     (\<exists>acc config. accounts (AMMConfig pool) = Inr acc \<and> decodeAMMConfig acc = Inr config
      \<and> t = tradeFeeRate config \<and> c = (if CreatorFeeEnabled pool then creatorFeeRate config else 0))"

lemma rates_unique: "rates accounts pool t c \<Longrightarrow> rates accounts pool t' c' \<Longrightarrow> t' = t \<and> c' = c"
  by (auto simp: rates_def)

lemma owned_Inr [simp]: "owned p s account = Inr a \<longleftrightarrow> account = Some a \<and> Owner a = p"
  by (auto simp: owned_def split: option.splits)

lemma read_vaults_Inr:
  "read_vaults accounts v w f g = Inr (x, y) \<longleftrightarrow>
     (\<exists>acc acc' a b. accounts v = Inr acc \<and> accounts w = Inr acc' \<and> decodeTokenAmount acc = Inr a \<and> decodeTokenAmount acc' = Inr b
       \<and> f \<le> a \<and> g \<le> b \<and> x = a - f \<and> y = b - g)"
  by (auto simp: read_vaults_def ebind_eq_Inr not_less)

definition quoted :: "Quote \<Rightarrow> Pool \<Rightarrow> u64 \<Rightarrow> u64 \<Rightarrow> u64 \<Rightarrow> u64 \<Rightarrow> bool" where
  "quoted q pool r0 r1 t c \<longleftrightarrow>
     (InputMint q = Token0Mint pool \<or> InputMint q = Token1Mint pool)
   \<and> (\<exists>tf cf. quote (AmountIn q) (if InputMint q = Token0Mint pool then r0 else r1) (if InputMint q = Token0Mint pool then r1 else r0) t c
         (creator_on_input pool (InputMint q = Token0Mint pool)) = Inr (AmountOut q, tf, cf))"

lemma quoteExactInput_Inr:
  assumes "quoteExactInput accounts programID pools poolAddress mint amount = Inr q"
  shows "\<exists>pool r0 r1 t c. reserves accounts poolAddress pool r0 r1 \<and> rates accounts pool t c \<and> quoted q pool r0 r1 t c"
    and "InputMint q = mint" and "AmountIn q = amount"
proof -
  obtain acc pool cacc config where acc: "accounts poolAddress = Inr (Some acc)" "decodePool poolAddress (Data acc) = Inr pool"
      "accounts (AMMConfig pool) = Inr (Some cacc)" "decodeAMMConfig (Some cacc) = Inr config"
      and q: "quote_pool accounts pool config poolAddress mint amount = Inr q"
    using assms unfolding quoteExactInput_def by (auto split: if_splits)
  obtain f0 f1 where f: "checkedSum [ProtocolFees0 pool, FundFees0 pool, CreatorFees0 pool] = Some f0"
      "checkedSum [ProtocolFees1 pool, FundFees1 pool, CreatorFees1 pool] = Some f1"
    using q unfolding quote_pool_def by (auto simp: Let_def split: if_splits option.splits)
  define t c where "t = tradeFeeRate config" and "c = (if CreatorFeeEnabled pool then creatorFeeRate config else 0)"
  have rates: "rates accounts pool t c" using acc by (auto simp: rates_def t_def c_def)
  show "InputMint q = mint" "AmountIn q = amount"
    using q f unfolding quote_pool_def by (auto simp: Let_def split: if_splits)
  show "\<exists>pool r0 r1 t c. reserves accounts poolAddress pool r0 r1 \<and> rates accounts pool t c \<and> quoted q pool r0 r1 t c"
  proof (cases "mint = Token0Mint pool")
    case True
    obtain x y where v: "read_vaults accounts (Token0Vault pool) (Token1Vault pool) f0 f1 = Inr (x, y)" and qt: "quoted q pool x y t c"
      using q True f unfolding quote_pool_def t_def c_def quoted_def by (auto simp: Let_def)
    have "reserves accounts poolAddress pool x y" using v acc f unfolding read_vaults_Inr reserves_def by blast
    then show ?thesis using qt rates by blast
  next
    case False
    obtain x y where v: "read_vaults accounts (Token1Vault pool) (Token0Vault pool) f1 f0 = Inr (x, y)" and qt: "quoted q pool y x t c"
      using q False f unfolding quote_pool_def t_def c_def quoted_def by (auto simp: Let_def split: if_splits)
    have "reserves accounts poolAddress pool y x" using v acc f unfolding read_vaults_Inr reserves_def by blast
    then show ?thesis using qt rates by blast
  qed
qed

lemma quote_each_Inr:
  "quote_each accounts programID pools poolAddress rs = Inr qs \<Longrightarrow>
     length qs = length rs \<and> (\<forall>i < length rs. quoteExactInput accounts programID pools poolAddress (fst (rs ! i)) (snd (rs ! i)) = Inr (qs ! i))"
proof (induction rs arbitrary: qs)
  case (Cons r rs)
  obtain mint amount where r: "r = (mint, amount)" by (cases r)
  then obtain q qs' where q: "quoteExactInput accounts programID pools poolAddress mint amount = Inr q"
      "quote_each accounts programID pools poolAddress rs = Inr qs'" "qs = q # qs'"
    using Cons.prems by auto
  show ?case
    using Cons.IH [OF q(2)] q r by (auto simp: nth_Cons split: nat.splits)
qed simp

lemma opposite_quotes:
  assumes "quote a x y t c i = Inr (out, tf, cf)" and "quote b y x t c j = Inr (out', tf', cf')"
  shows "uint out * uint out' < uint a * uint b"
proof -
  have X: "0 < uint x" "0 < uint y" using quote_accepts(1) [OF assms(1)] by (simp_all add: valid_pool_def)
  note f = quote_fair [OF assms(1)] quote_fair [OF assms(2)]
  have ab: "0 < uint a" "0 < uint b" using f(1,3,5,7) X
    by (smt (verit) mult_nonneg_nonneg mult_pos_pos uint_nonnegative zero_less_mult_iff)+
  have "(uint out * (uint x + uint a)) * (uint out' * (uint y + uint b)) \<le> (uint a * uint y) * (uint b * uint x)"
    by (rule mult_mono [OF f(3,7)]) (use X ab in simp_all)
  then have "(uint out * uint out') * ((uint x + uint a) * (uint y + uint b)) \<le> (uint a * uint b) * (uint x * uint y)"
    by (simp add: algebra_simps)
  also have "\<dots> < (uint a * uint b) * ((uint x + uint a) * (uint y + uint b))"
    using X ab by (intro mult_strict_left_mono mult_strict_mono) simp_all
  finally show ?thesis using X ab by (simp add: mult_less_cancel_right)
qed

lemma quoted_pair:
  assumes "quoted q pool r0 r1 t c" and "quoted q' pool r0 r1 t c"
  shows "InputMint q \<noteq> InputMint q' \<Longrightarrow> uint (AmountOut q) * uint (AmountOut q') < uint (AmountIn q) * uint (AmountIn q')"
    and "InputMint q = InputMint q' \<Longrightarrow> uint (AmountIn q) \<le> uint (AmountIn q') \<Longrightarrow> uint (AmountOut q) \<le> uint (AmountOut q')"
proof -
  show "uint (AmountOut q) * uint (AmountOut q') < uint (AmountIn q) * uint (AmountIn q')" if "InputMint q \<noteq> InputMint q'"
    using assms that unfolding quoted_def by (auto dest: opposite_quotes)
  assume m: "InputMint q = InputMint q'" "uint (AmountIn q) \<le> uint (AmountIn q')"
  then show "uint (AmountOut q) \<le> uint (AmountOut q')"
    using assms unfolding quoted_def by (auto dest!: quote_monotone [OF _ m(2)])
qed

text \<open>
  C34. Quotes of one batch, whatever the accounts hold: they answer the requests in order, more of a token never buys
  less of the other, and trading one way and back always loses, since the product of the outputs is less than the
  product of the inputs.
\<close>

theorem cpmm_batch_no_gain:
  assumes "QuoteExactInputsWithSlot snapshots programID pools poolAddress requests = Inr (slot, qs)"
  shows "List.map (\<lambda>q. (InputMint q, AmountIn q)) qs = requests
    \<and> (\<forall>q \<in> set qs. \<forall>q' \<in> set qs.
         if InputMint q = InputMint q' then uint (AmountIn q) \<le> uint (AmountIn q') \<longrightarrow> uint (AmountOut q) \<le> uint (AmountOut q')
         else uint (AmountOut q) * uint (AmountOut q') < uint (AmountIn q) * uint (AmountIn q'))"
proof -
  obtain accounts where e: "quote_each accounts programID pools poolAddress requests = Inr qs"
    using assms unfolding QuoteExactInputsWithSlot_def by (auto split: if_splits option.splits)
  note each = quote_each_Inr [OF e]
  have "List.map (\<lambda>q. (InputMint q, AmountIn q)) qs = requests"
    using each quoteExactInput_Inr(2,3) by (intro nth_equalityI) (auto simp: prod_eq_iff)
  moreover have ex: "\<exists>pool r0 r1 t c. reserves accounts poolAddress pool r0 r1 \<and> rates accounts pool t c \<and> quoted q pool r0 r1 t c" if "q \<in> set qs" for q
    using that each quoteExactInput_Inr(1) unfolding in_set_conv_nth by metis
  moreover have "if InputMint q = InputMint q' then uint (AmountIn q) \<le> uint (AmountIn q') \<longrightarrow> uint (AmountOut q) \<le> uint (AmountOut q')
      else uint (AmountOut q) * uint (AmountOut q') < uint (AmountIn q) * uint (AmountIn q')" if q: "q \<in> set qs" "q' \<in> set qs" for q q'
  proof -
    obtain pool r0 r1 t c where a: "reserves accounts poolAddress pool r0 r1" "rates accounts pool t c" "quoted q pool r0 r1 t c"
      using ex [OF q(1)] by blast
    have b: "quoted q' pool r0 r1 t c" using ex [OF q(2)] a(1,2) reserves_unique [OF a(1)] rates_unique [OF a(2)] by blast
    show ?thesis using quoted_pair [OF a(3) b] by simp
  qed
  ultimately show ?thesis by blast
qed

section \<open>No panics\<close>

lemma quote_calm [simp]: "\<not> panics (quote amount x y t c on_input)"
  by (simp add: quote_value Let_def)

lemma decode_calm [simp]: "\<not> panics (decodePool a d)" "\<not> panics (decodeAMMConfig account)" "\<not> panics (decodeTokenAmount account)"
  "\<not> panics (owned p s account)"
  by (simp_all add: decodePool_def decodeAMMConfig_def decodeTokenAmount_def owned_def Let_def split: option.splits)

definition calm_provider :: "provider \<Rightarrow> bool" where
  "calm_provider accounts \<longleftrightarrow> (\<forall>a. \<not> panics (accounts a))"

lemma quoteExactInput_calm: "calm_provider accounts \<Longrightarrow> \<not> panics (quoteExactInput accounts programID pools poolAddress mint amount)"
  by (auto simp: quoteExactInput_def quote_pool_def read_vaults_def calm_provider_def Let_def panics_ebind split: option.splits)

lemma quote_each_calm: "calm_provider accounts \<Longrightarrow> \<not> panics (quote_each accounts programID pools poolAddress rs)"
  by (induction rs) (auto simp: panics_ebind quoteExactInput_calm)

lemma check_requests_calm [simp]: "\<not> panics (check_requests pool rs)"
  by (induction rs) (auto split: if_splits)

lemma snapshot_calm: "newSnapshotAccounts addresses s = Inr accounts \<Longrightarrow> calm_provider accounts \<and> s \<noteq> None"
  by (auto simp: newSnapshotAccounts_def calm_provider_def split: option.splits if_splits)

lemma newSnapshotAccounts_calm [simp]: "\<not> panics (newSnapshotAccounts addresses s)"
  by (simp add: newSnapshotAccounts_def split: option.splits)

lemma QuoteExactInputsWithSlot_calm:
  "(\<And>as. \<not> panics (snapshots as)) \<Longrightarrow> \<not> panics (QuoteExactInputsWithSlot snapshots programID pools poolAddress requests)"
  by (auto simp: QuoteExactInputsWithSlot_def panics_ebind quote_each_calm dest: snapshot_calm split: option.splits)

section \<open>A pool\<close>

definition cpmm_addr :: "u8 \<Rightarrow> address" where
  "cpmm_addr n = replicate 31 0 @ [n]"

definition cpmm_pool_account :: Account where
  "cpmm_pool_account = \<lparr>Owner = cpmm_addr 1, Data = poolDiscriminator
     @ concat (List.map cpmm_addr [2, 0, 3, 4, 0, 5, 6, 7, 7, 0]) @ [0, 0, 9, 9, 6] @ replicate 56 0 @ [0, 1] @ replicate 246 0\<rparr>"

definition cpmm_config_account :: Account where
  "cpmm_config_account = \<lparr>Owner = cpmm_addr 1, Data = configDiscriminator
     @ replicate 4 0 @ [0xc4, 0x09] @ replicate 94 0 @ [0xf4, 0x01] @ replicate 126 0\<rparr>"

definition cpmm_vault :: "bytes \<Rightarrow> Account" where
  "cpmm_vault amount = \<lparr>Owner = cpmm_addr 7, Data = replicate 64 0 @ amount\<rparr>"

definition cpmm_snapshot :: "address list \<Rightarrow> AccountSnapshot option res" where
  "cpmm_snapshot addresses = Inr (Some \<lparr>Slot = 77, Accounts = [Some cpmm_pool_account, Some cpmm_config_account,
     Some (cpmm_vault [0, 0, 0, 0, 1, 0, 0, 0]), Some (cpmm_vault [0, 0, 0, 0, 4, 0, 0, 0])]\<rparr>)"

definition cpmm_pools :: "address \<rightharpoonup> Pool" where
  "cpmm_pools a = (if a = cpmm_addr 8 then (case decodePool a (Data cpmm_pool_account) of Inl e \<Rightarrow> None | Inr p \<Rightarrow> Some p) else None)"

definition cpmm_pool :: Pool where
  "cpmm_pool = \<lparr>Address = cpmm_addr 8, AMMConfig = cpmm_addr 2, Token0Vault = cpmm_addr 3, Token1Vault = cpmm_addr 4,
     Token0Mint = cpmm_addr 5, Token1Mint = cpmm_addr 6, Token0Program = cpmm_addr 7, Token1Program = cpmm_addr 7, Status = 0,
     Token0Decimals = 9, Token1Decimals = 6, ProtocolFees0 = 0, ProtocolFees1 = 0, FundFees0 = 0, FundFees1 = 0,
     CreatorFeeOn = 0, CreatorFeeEnabled = True, CreatorFees0 = 0, CreatorFees1 = 0\<rparr>"

lemma cpmm_decoded: "decodePool (cpmm_addr 8) (Data cpmm_pool_account) = Inr cpmm_pool"
  by code_simp

lemma cpmm_config: "decodeAMMConfig (Some cpmm_config_account) = Inr \<lparr>tradeFeeRate = 2500, protocolFeeRate = 0, fundFeeRate = 0, creatorFeeRate = 500\<rparr>"
  by code_simp

lemma cpmm_amounts: "decodeTokenAmount (Some (cpmm_vault [0, 0, 0, 0, 1, 0, 0, 0])) = Inr 4294967296"
    "decodeTokenAmount (Some (cpmm_vault [0, 0, 0, 0, 4, 0, 0, 0])) = Inr 17179869184"
  by code_simp+

lemma cpmm_accounts:
  "\<exists>accounts. newSnapshotAccounts (pool_addresses cpmm_pool) (Some \<lparr>Slot = 77, Accounts = [Some cpmm_pool_account, Some cpmm_config_account,
     Some (cpmm_vault [0, 0, 0, 0, 1, 0, 0, 0]), Some (cpmm_vault [0, 0, 0, 0, 4, 0, 0, 0])]\<rparr>) = Inr accounts
   \<and> accounts (cpmm_addr 8) = Inr (Some cpmm_pool_account) \<and> accounts (cpmm_addr 2) = Inr (Some cpmm_config_account)
   \<and> accounts (cpmm_addr 3) = Inr (Some (cpmm_vault [0, 0, 0, 0, 1, 0, 0, 0])) \<and> accounts (cpmm_addr 4) = Inr (Some (cpmm_vault [0, 0, 0, 0, 4, 0, 0, 0]))"
  by (simp add: newSnapshotAccounts_def pool_addresses_def cpmm_pool_def cpmm_addr_def map_filter_simps)

lemma cpmm_quotes:
  "quote 1000000 4294967296 17179869184 2500 500 True = Inr (3987074, 2500, 500)"
  "quote 3900000 17179869184 4294967296 2500 500 True = Inr (971855, 9750, 1950)"
  by code_simp+

lemma cpmm_run:
  "\<exists>q q'. QuoteExactInputsWithSlot cpmm_snapshot (cpmm_addr 1) cpmm_pools (cpmm_addr 8) [(cpmm_addr 5, 1000000), (cpmm_addr 6, 3900000)]
     = Inr (77, [q, q']) \<and> AmountOut q = 3987074 \<and> AmountOut q' = 971855"
proof -
  obtain accounts where acc: "newSnapshotAccounts (pool_addresses cpmm_pool) (Some \<lparr>Slot = 77, Accounts = [Some cpmm_pool_account, Some cpmm_config_account,
     Some (cpmm_vault [0, 0, 0, 0, 1, 0, 0, 0]), Some (cpmm_vault [0, 0, 0, 0, 4, 0, 0, 0])]\<rparr>) = Inr accounts"
    "accounts (cpmm_addr 8) = Inr (Some cpmm_pool_account)" "accounts (cpmm_addr 2) = Inr (Some cpmm_config_account)"
    "accounts (cpmm_addr 3) = Inr (Some (cpmm_vault [0, 0, 0, 0, 1, 0, 0, 0]))" "accounts (cpmm_addr 4) = Inr (Some (cpmm_vault [0, 0, 0, 0, 4, 0, 0, 0]))"
    using cpmm_accounts by blast
  have ne: "cpmm_addr 5 \<noteq> cpmm_addr 6" "cpmm_addr 6 \<noteq> cpmm_addr 5" by (simp_all add: cpmm_addr_def)
  have own: "Owner cpmm_pool_account = cpmm_addr 1" "Owner cpmm_config_account = cpmm_addr 1"
    by (simp_all add: cpmm_pool_account_def cpmm_config_account_def)
  have pools: "cpmm_pools (cpmm_addr 8) = Some cpmm_pool" by (simp add: cpmm_pools_def cpmm_decoded)
  have p: "Status cpmm_pool AND 4 = 0" "AMMConfig cpmm_pool = cpmm_addr 2" "Token0Vault cpmm_pool = cpmm_addr 3" "Token1Vault cpmm_pool = cpmm_addr 4"
    "Token0Mint cpmm_pool = cpmm_addr 5" "Token1Mint cpmm_pool = cpmm_addr 6" "CreatorFeeEnabled cpmm_pool"
    "creator_on_input cpmm_pool z" "checkedSum [ProtocolFees0 cpmm_pool, FundFees0 cpmm_pool, CreatorFees0 cpmm_pool] = Some 0"
    "checkedSum [ProtocolFees1 cpmm_pool, FundFees1 cpmm_pool, CreatorFees1 cpmm_pool] = Some 0" for z
    by (simp_all add: cpmm_pool_def creator_on_input_def checkedSum_def)
  show ?thesis
    by (simp add: QuoteExactInputsWithSlot_def cpmm_snapshot_def pools acc quoteExactInput_def cpmm_decoded quote_pool_def
        read_vaults_def cpmm_config cpmm_amounts cpmm_quotes owned_def own p ne)
qed

theorem cpmm_batch_no_gain_witness:
  "\<exists>q q'. QuoteExactInputsWithSlot cpmm_snapshot (cpmm_addr 1) cpmm_pools (cpmm_addr 8) [(cpmm_addr 5, 1000000), (cpmm_addr 6, 3900000)]
     = Inr (77, [q, q']) \<and> uint (AmountOut q) * uint (AmountOut q') < 1000000 * 3900000"
proof -
  obtain q q' where run: "QuoteExactInputsWithSlot cpmm_snapshot (cpmm_addr 1) cpmm_pools (cpmm_addr 8) [(cpmm_addr 5, 1000000), (cpmm_addr 6, 3900000)] = Inr (77, [q, q'])"
    using cpmm_run by blast
  have "cpmm_addr 5 \<noteq> cpmm_addr 6" by (simp add: cpmm_addr_def)
  then show ?thesis using cpmm_batch_no_gain [OF run] run by auto
qed

end
