(* ===== verification/Solana_Retained.thy ===== *)
theory Solana_Retained
  imports Solana_Arrays "HOL-Library.AList"
begin

text \<open>
  \<open>go/solana/account_state.go\<close>: the accounts that a cache retains from its streams, each with the slot and the time of its
  last accepted payload. The Go map is an association list without duplicate keys, in the order of one possible
  iteration; what \<open>Freeze\<close> computes does not depend on that order. Times are integers, \<open>None\<close> is the zero time.
\<close>

section \<open>State\<close>

record LiveAccount = Account +
  account_id :: address
  Lamports :: u64
  Executable :: bool

record RetainedAccount =
  ra_account :: LiveAccount
  ra_slot :: u64
  ra_observed :: int

type_synonym AccountState = "(address \<times> RetainedAccount) list"

record FrozenAccountState =
  ReceivedAt :: "int option"
  FrozenAccounts :: AccountState
  frozen_slot :: u64
  ObservedAt :: "int option"

record AccountUpdate =
  update_slot :: u64
  update_account :: "LiveAccount option"

section \<open>Operations\<close>

definition put :: "LiveAccount \<Rightarrow> u64 \<Rightarrow> int \<Rightarrow> AccountState \<Rightarrow> AccountState" where
  "put account slot at s = AList.update (account_id account) \<lparr>ra_account = account, ra_slot = slot, ra_observed = at\<rparr> s"

definition newer :: "AccountState \<Rightarrow> LiveAccount \<Rightarrow> u64 \<Rightarrow> RetainedAccount option" where
  "newer s account slot =
     (case map_of s (account_id account) of None \<Rightarrow> None
      | Some previous \<Rightarrow> if ra_slot previous \<ge> slot then Some previous else None)"

definition seed_one :: "u64 \<Rightarrow> int \<Rightarrow> LiveAccount option \<Rightarrow> AccountState \<Rightarrow> AccountState" where
  "seed_one slot at account s =
     (case account of None \<Rightarrow> s
      | Some account \<Rightarrow> (case newer s account slot of Some _ \<Rightarrow> s | None \<Rightarrow> put account slot at s))"

definition Seed :: "LiveAccount option list \<Rightarrow> u64 \<Rightarrow> int \<Rightarrow> AccountState \<Rightarrow> AccountState" where
  "Seed accounts slot at s = fold (seed_one slot at) accounts s"

definition window_one :: "AccountState \<Rightarrow> u64 \<Rightarrow> int \<Rightarrow> LiveAccount option \<Rightarrow> AccountState \<Rightarrow> AccountState" where
  "window_one s slot at account next =
     (case account of None \<Rightarrow> next
      | Some account \<Rightarrow>
          (case newer s account slot of Some previous \<Rightarrow> AList.update (account_id account) previous next
           | None \<Rightarrow> put account slot at next))"

definition SeedWindow :: "LiveAccount option list \<Rightarrow> u64 \<Rightarrow> int \<Rightarrow> AccountState \<Rightarrow> AccountState" where
  "SeedWindow accounts slot at s = fold (window_one s slot at) accounts []"

definition keeps_previous :: "bool \<Rightarrow> LiveAccount \<Rightarrow> u64 \<Rightarrow> int \<Rightarrow> RetainedAccount \<Rightarrow> bool" where
  "keeps_previous receiptOrder account slot at previous \<longleftrightarrow>
     (\<not> receiptOrder \<and> ra_slot previous > slot) \<or> (receiptOrder \<and> at < ra_observed previous)
   \<or> (ra_slot previous = slot \<and> ra_account previous = account)"

definition apply_update :: "bool \<Rightarrow> AccountUpdate option \<Rightarrow> int \<Rightarrow> (AccountState, unit) proc" where
  "apply_update receiptOrder upd at =
     (case upd of None \<Rightarrow> throw (Fail ''dependency=null'')
      | Some u \<Rightarrow>
          (case update_account u of None \<Rightarrow> throw (Fail ''dependency=null'')
           | Some account \<Rightarrow>
               if IsZero (account_id account) then throw (Fail ''address=empty'')
               else if update_slot u = 0 then throw (Fail ''slot=empty'')
               else reading (\<lambda>s.
                 case map_of s (account_id account) of
                   Some previous \<Rightarrow>
                     if keeps_previous receiptOrder account (update_slot u) at previous then ret ()
                     else update (put account (update_slot u) at)
                 | None \<Rightarrow> update (put account (update_slot u) at))))"

definition Apply :: "AccountUpdate option \<Rightarrow> int \<Rightarrow> (AccountState, unit) proc" where
  "Apply upd at = apply_update False upd at"

definition ApplyReceived :: "AccountUpdate option \<Rightarrow> int \<Rightarrow> (AccountState, unit) proc" where
  "ApplyReceived upd at = apply_update True upd at"

definition freeze_one :: "RetainedAccount \<Rightarrow> int option \<times> u64 \<times> int option \<Rightarrow> int option \<times> u64 \<times> int option" where
  "freeze_one a = (\<lambda>(received, slot, observed).
     ((case received of None \<Rightarrow> Some (ra_observed a) | Some t \<Rightarrow> if ra_observed a > t then Some (ra_observed a) else Some t),
      (if slot = 0 \<or> ra_slot a < slot then ra_slot a else slot),
      (case observed of None \<Rightarrow> Some (ra_observed a) | Some t \<Rightarrow> if ra_observed a < t then Some (ra_observed a) else Some t)))"

definition Freeze :: "AccountState \<Rightarrow> FrozenAccountState" where
  "Freeze s =
     (let (received, slot, observed) = fold (\<lambda>(_, a). freeze_one a) s (None, 0, None)
      in \<lparr>ReceivedAt = received, FrozenAccounts = s, frozen_slot = slot, ObservedAt = observed\<rparr>)"

definition Reset :: "AccountState \<Rightarrow> AccountState" where
  "Reset s = []"

section \<open>Well-formed states\<close>

text \<open>No duplicate keys, every account under its own address, and no empty slot.\<close>

definition retained_ok :: "AccountState \<Rightarrow> bool" where
  "retained_ok s \<longleftrightarrow> distinct (List.map fst s) \<and> (\<forall>a r. map_of s a = Some r \<longrightarrow> account_id (ra_account r) = a \<and> ra_slot r \<noteq> 0)"

lemma map_of_put: "map_of (put account slot at s) = (map_of s)(account_id account \<mapsto> \<lparr>ra_account = account, ra_slot = slot, ra_observed = at\<rparr>)"
  by (simp add: put_def update_conv')

lemma retained_ok_put [simp]: "retained_ok s \<Longrightarrow> slot \<noteq> 0 \<Longrightarrow> retained_ok (put account slot at s)"
  unfolding retained_ok_def by (simp add: map_of_put) (simp add: put_def distinct_update)

lemma retained_ok_find: "retained_ok s \<Longrightarrow> map_of s a = Some r \<Longrightarrow> account_id (ra_account r) = a \<and> ra_slot r \<noteq> 0"
  by (simp add: retained_ok_def)

lemma retained_ok_Seed [simp]: "retained_ok s \<Longrightarrow> slot \<noteq> 0 \<Longrightarrow> retained_ok (Seed accounts slot at s)"
  unfolding Seed_def
  by (induction accounts arbitrary: s) (auto simp: seed_one_def split: option.splits)

lemma retained_ok_apply: "retained_ok s \<Longrightarrow> apply_update o' upd at s = (r, s') \<Longrightarrow> retained_ok s'"
  by (auto simp: apply_update_def split: option.splits if_splits)

text \<open>The slot of an account never falls by seeding or by applying in slot order.\<close>

definition not_older :: "AccountState \<Rightarrow> AccountState \<Rightarrow> bool" where
  "not_older s s' \<longleftrightarrow> (\<forall>a r. map_of s a = Some r \<longrightarrow> (\<exists>r'. map_of s' a = Some r' \<and> ra_slot r \<le> ra_slot r'))"

lemma not_older_refl [simp]: "not_older s s"
  by (simp add: not_older_def)

lemma not_older_trans: "not_older s t \<Longrightarrow> not_older t u \<Longrightarrow> not_older s u"
  unfolding not_older_def by (meson order_trans)

lemma not_older_put: "(\<And>r. map_of s (account_id account) = Some r \<Longrightarrow> ra_slot r \<le> slot) \<Longrightarrow> not_older s (put account slot at s)"
  by (auto simp: not_older_def map_of_put)

lemma not_older_seed_one: "not_older s (seed_one slot at account s)"
  by (auto simp: seed_one_def newer_def intro: not_older_put split: option.splits if_splits)

lemma not_older_Seed: "not_older s (Seed accounts slot at s)"
  unfolding Seed_def by (induction accounts arbitrary: s) (auto intro: not_older_trans not_older_seed_one)

lemma not_older_Apply: "Apply upd at s = (r, s') \<Longrightarrow> not_older s s'"
  by (auto simp: Apply_def apply_update_def keeps_previous_def not_less intro: not_older_put split: option.splits if_splits)

text \<open>After seeding, every account of the seed is retained at its slot or a later one.\<close>

lemma seed_one_has: "seed_one slot at (Some account) s = s' \<Longrightarrow> \<exists>r. map_of s' (account_id account) = Some r \<and> slot \<le> ra_slot r"
  by (auto simp: seed_one_def newer_def map_of_put split: option.splits if_splits)

lemma Seed_has:
  "Some account \<in> set accounts \<Longrightarrow> \<exists>r. map_of (Seed accounts slot at s) (account_id account) = Some r \<and> slot \<le> ra_slot r"
proof (induction accounts arbitrary: s)
  case (Cons b bs)
  have step: "Seed (b # bs) slot at s = Seed bs slot at (seed_one slot at b s)" by (simp add: Seed_def)
  show ?case
  proof (cases "b = Some account")
    case True
    obtain r where "map_of (seed_one slot at b s) (account_id account) = Some r" "slot \<le> ra_slot r"
      using seed_one_has [of slot at account s] True by blast
    then show ?thesis using not_older_Seed [of "seed_one slot at b s" bs slot at] unfolding step not_older_def by (meson order_trans)
  next
    case False
    then show ?thesis using Cons unfolding step by simp
  qed
qed simp

section \<open>What is frozen\<close>

lemma freeze_fold:
  assumes "fold (\<lambda>(_, a). freeze_one a) s (received, slot, observed) = (received', slot', observed')" and "\<forall>(a, r) \<in> set s. ra_slot r \<noteq> 0"
  shows "((slot \<noteq> 0 \<longrightarrow> slot' \<le> slot) \<and> (\<forall>(a, r) \<in> set s. slot' \<le> ra_slot r)
      \<and> (slot' = slot \<and> (slot \<noteq> 0 \<or> s = []) \<or> slot' \<in> (ra_slot \<circ> snd) ` set s))
    \<and> (\<forall>t. observed = Some t \<longrightarrow> (\<exists>t'. observed' = Some t' \<and> t' \<le> t)) \<and> (\<forall>(a, r) \<in> set s. \<exists>t'. observed' = Some t' \<and> t' \<le> ra_observed r)
    \<and> (\<forall>t. received = Some t \<longrightarrow> (\<exists>t'. received' = Some t' \<and> t \<le> t')) \<and> (\<forall>(a, r) \<in> set s. \<exists>t'. received' = Some t' \<and> ra_observed r \<le> t')"
  using assms
proof (induction s arbitrary: received slot observed)
  case (Cons x xs)
  obtain a r where x: "x = (a, r)" by (cases x)
  obtain rc sl ob where f: "freeze_one r (received, slot, observed) = (rc, sl, ob)" by (cases "freeze_one r (received, slot, observed)")
  have run: "fold (\<lambda>(_, a). freeze_one a) xs (rc, sl, ob) = (received', slot', observed')" "\<forall>(a, r) \<in> set xs. ra_slot r \<noteq> 0" "ra_slot r \<noteq> 0"
    using Cons.prems f x by auto
  have sl: "sl = (if slot = 0 \<or> ra_slot r < slot then ra_slot r else slot)" using f by (simp add: freeze_one_def)
  note IH = Cons.IH [OF run(1,2)]
  have "(slot \<noteq> 0 \<longrightarrow> slot' \<le> slot) \<and> (\<forall>(a, r) \<in> set (x # xs). slot' \<le> ra_slot r)
      \<and> (slot' = slot \<and> (slot \<noteq> 0 \<or> x # xs = []) \<or> slot' \<in> (ra_slot \<circ> snd) ` set (x # xs))"
    using IH sl run(3) x by (auto split: if_splits)
  moreover have "\<exists>t. ob = Some t \<and> t \<le> ra_observed r \<and> (\<forall>u. observed = Some u \<longrightarrow> t \<le> u)"
    using f by (auto simp: freeze_one_def split: option.splits)
  then obtain t where t: "ob = Some t" "t \<le> ra_observed r" "\<And>u. observed = Some u \<Longrightarrow> t \<le> u" by blast
  obtain t' where t': "observed' = Some t'" "t' \<le> t" using IH t(1) by blast
  have "(\<forall>t. observed = Some t \<longrightarrow> (\<exists>t'. observed' = Some t' \<and> t' \<le> t)) \<and> (\<forall>(a, r) \<in> set (x # xs). \<exists>t'. observed' = Some t' \<and> t' \<le> ra_observed r)"
    using IH t t' x by (auto intro: order_trans)
  moreover have "\<exists>t. rc = Some t \<and> ra_observed r \<le> t \<and> (\<forall>u. received = Some u \<longrightarrow> u \<le> t)"
    using f by (auto simp: freeze_one_def split: option.splits)
  then obtain u where u: "rc = Some u" "ra_observed r \<le> u" "\<And>v. received = Some v \<Longrightarrow> v \<le> u" by blast
  obtain u' where u': "received' = Some u'" "u \<le> u'" using IH u(1) by blast
  have "(\<forall>t. received = Some t \<longrightarrow> (\<exists>t'. received' = Some t' \<and> t \<le> t')) \<and> (\<forall>(a, r) \<in> set (x # xs). \<exists>t'. received' = Some t' \<and> ra_observed r \<le> t')"
    using IH u u' x by (auto intro: order_trans)
  ultimately show ?case unfolding case_prod_unfold by (elim conjE, intro conjI)
qed simp

text \<open>The slot and time of a frozen state are those of its oldest parts, the receipt that of the newest.\<close>

lemma Freeze_bounds:
  assumes "retained_ok s"
  shows "FrozenAccounts (Freeze s) = s" and "\<And>a r. map_of s a = Some r \<Longrightarrow> frozen_slot (Freeze s) \<le> ra_slot r"
    and "s \<noteq> [] \<Longrightarrow> \<exists>a r. map_of s a = Some r \<and> frozen_slot (Freeze s) = ra_slot r"
    and "\<And>a r. map_of s a = Some r \<Longrightarrow> (\<exists>t. ObservedAt (Freeze s) = Some t \<and> t \<le> ra_observed r) \<and> (\<exists>t. ReceivedAt (Freeze s) = Some t \<and> ra_observed r \<le> t)"
proof -
  obtain rc sl ob where f: "fold (\<lambda>(_, a). freeze_one a) s (None, 0, None) = (rc, sl, ob)"
    by (cases "fold (\<lambda>(_, a). freeze_one a) s (None, 0, None)") auto
  have F: "Freeze s = \<lparr>ReceivedAt = rc, FrozenAccounts = s, frozen_slot = sl, ObservedAt = ob\<rparr>" by (simp add: Freeze_def f)
  have d: "distinct (List.map fst s)" using assms by (simp add: retained_ok_def)
  have nz: "\<forall>(a, r) \<in> set s. ra_slot r \<noteq> 0" using assms d by (auto simp: retained_ok_def)
  note ff = freeze_fold [OF f nz]
  show "FrozenAccounts (Freeze s) = s" by (simp add: F)
  show "\<And>a r. map_of s a = Some r \<Longrightarrow> frozen_slot (Freeze s) \<le> ra_slot r" using ff by (auto simp: F dest!: map_of_SomeD)
  show "\<And>a r. map_of s a = Some r \<Longrightarrow> (\<exists>t. ObservedAt (Freeze s) = Some t \<and> t \<le> ra_observed r) \<and> (\<exists>t. ReceivedAt (Freeze s) = Some t \<and> ra_observed r \<le> t)"
    using ff by (auto simp: F dest!: map_of_SomeD)
  assume "s \<noteq> []"
  then obtain a r where ar: "(a, r) \<in> set s" by (cases s) auto
  then have "sl \<noteq> 0 \<or> sl \<in> (ra_slot \<circ> snd) ` set s" using ff nz by auto
  then have "sl \<in> (ra_slot \<circ> snd) ` set s" using ff \<open>s \<noteq> []\<close> by auto
  then show "\<exists>a r. map_of s a = Some r \<and> frozen_slot (Freeze s) = ra_slot r" using d by (force simp: F)
qed

end
