(* ===== verification/Cpmm_Cache.thy ===== *)
theory Cpmm_Cache
  imports Raydium_Cpmm Solana_Retained "HOL-Library.List_Lexorder"
begin

text \<open>
  The state cache of the constant product pools (\<open>go/solana/raydium/cpmm\<close>: \<open>state_cache.go\<close>, \<open>warm.go\<close>, \<open>state_check.go\<close>,
  \<open>retained_quote.go\<close>, \<open>quote_snapshot.go\<close>). One goroutine per account watches its stream; quotes, captures and checks hold
  the mutex \<open>refresh\<close> one after the other and the mutex \<open>mu\<close> only at their start and at their end. So such an operation is
  two critical sections with any number of watch events between them, and the events that happen in between are an argument
  of the operation. The account provider, the clock, the cancellation of the context, the text of addresses and the hash of
  \<open>CheckState\<close> are parameters. Times are integers.
\<close>

section \<open>State\<close>

record cache_config =
  program :: address
  client_pools :: "address \<rightharpoonup> Pool"
  cache_pool :: address
  addresses :: "address list"
  maxAge :: int

record LiveSnapshot =
  live_slot :: u64
  live_accounts :: "LiveAccount option list"

record StateCache =
  generation :: u64
  checkedKey :: string
  minimumSlot :: u64
  connected :: nat
  running :: bool
  cached :: "(u64 \<times> LiveAccount list) option"
  observed_at :: int
  retained :: AccountState
  published :: "FrozenAccountState option list"

definition NewStateCache :: "address \<Rightarrow> (address \<rightharpoonup> Pool) \<Rightarrow> address \<Rightarrow> int \<Rightarrow> (cache_config \<times> StateCache) res" where
  "NewStateCache programID pools pool age =
     (case pools pool of None \<Rightarrow> Inl (Fail ''pool=invalid'')
      | Some p \<Rightarrow>
          if age \<le> 0 then Inl (Fail ''max_age=out_of_range'')
          else Inr (\<lparr>program = programID, client_pools = pools, cache_pool = pool,
                     addresses = [pool, AMMConfig p, Token0Vault p, Token1Vault p], maxAge = age\<rparr>,
                    \<lparr>generation = 0, checkedKey = [], minimumSlot = 0, connected = 0, running = False, cached = None, observed_at = 0,
                     retained = [], published = []\<rparr>))"

definition visible :: "cache_config \<Rightarrow> StateCache \<Rightarrow> FrozenAccountState option" where
  "visible cfg c =
     (if connected c \<noteq> length (addresses cfg) \<or> FrozenAccounts (Freeze (retained c)) = [] then None else Some (Freeze (retained c)))"

definition publish :: "cache_config \<Rightarrow> StateCache \<Rightarrow> StateCache" where
  "publish cfg c = c\<lparr>published := visible cfg c # published c\<rparr>"

definition invalidate :: "cache_config \<Rightarrow> u64 \<Rightarrow> StateCache \<Rightarrow> StateCache" where
  "invalidate cfg slot c =
     (let c = (if connected c = 0 then c\<lparr>retained := Reset (retained c)\<rparr> else c);
          c = c\<lparr>generation := generation c + 1, cached := None\<rparr>
      in publish cfg (if slot > minimumSlot c then c\<lparr>minimumSlot := slot\<rparr> else c))"

section \<open>Watching the accounts\<close>

datatype watch_event =
    Connected
  | Received address "AccountUpdate option" int
  | Notified u64
  | Disconnected

text \<open>An event that fails ends its watch, whose deferred function is the event \<open>Disconnected\<close>.\<close>

definition watch :: "cache_config \<Rightarrow> watch_event \<Rightarrow> (StateCache, unit) proc" where
  "watch cfg ev =
     (case ev of
        Connected \<Rightarrow> update (\<lambda>c. invalidate cfg 0 (c\<lparr>connected := Suc (connected c)\<rparr>))
      | Disconnected \<Rightarrow> update (\<lambda>c. invalidate cfg 0 (c\<lparr>connected := connected c - 1\<rparr>))
      | Notified slot \<Rightarrow> if slot = 0 then throw (Fail ''slot=empty'') else update (invalidate cfg slot)
      | Received a upd at \<Rightarrow>
          (case upd of None \<Rightarrow> throw (Fail ''account=invalid'')
           | Some u \<Rightarrow>
               (case update_account u of None \<Rightarrow> throw (Fail ''account=invalid'')
                | Some account \<Rightarrow>
                    if account_id account \<noteq> a then throw (Fail ''account=invalid'')
                    else (\<lambda>c. case Apply upd at (retained c) of
                           (Inl e, r) \<Rightarrow> (Inl e, c\<lparr>retained := r\<rparr>)
                         | (Inr _, r) \<Rightarrow> (Inr (), invalidate cfg (update_slot u) (c\<lparr>retained := r\<rparr>))))))"

definition watched :: "cache_config \<Rightarrow> watch_event list \<Rightarrow> StateCache \<Rightarrow> StateCache" where
  "watched cfg evs c = fold (\<lambda>ev c. snd (watch cfg ev c)) evs c"

section \<open>Quotes, captures and checks\<close>

record call =
  ctx_before :: "failure option"
  ctx_after :: "failure option"
  at_start :: int
  fetched :: "LiveSnapshot option res"
  at_fetch :: int
  during :: "watch_event list"

fun all_present :: "LiveAccount option list \<Rightarrow> LiveAccount list res" where
  "all_present [] = Inr []"
| "all_present (a # as) =
     (case a of None \<Rightarrow> Inl (Fail ''account=null'') | Some x \<Rightarrow> ebind (all_present as) (\<lambda>xs. Inr (x # xs)))"

definition refresh :: "cache_config \<Rightarrow> u64 \<Rightarrow> LiveSnapshot option res \<Rightarrow> (u64 \<times> LiveAccount list) res" where
  "refresh cfg low answer =
     ebind answer (\<lambda>s.
     case s of None \<Rightarrow> Inl (Fail ''snapshot=invalid'')
     | Some s \<Rightarrow>
         if length (live_accounts s) \<noteq> length (addresses cfg) then Inl (Fail ''snapshot=invalid'')
         else if live_slot s = 0 then Inl (Fail ''slot=empty'')
         else if live_slot s < low then Inl (Fail ''snapshot behind observed state'')
         else ebind (all_present (live_accounts s)) (\<lambda>as. Inr (live_slot s, as)))"

definition reusable :: "cache_config \<Rightarrow> StateCache \<Rightarrow> int \<Rightarrow> bool" where
  "reusable cfg c now \<longleftrightarrow> cached c \<noteq> None \<and> connected c = length (addresses cfg) \<and> now - observed_at c < maxAge cfg"

text \<open>The snapshot to calculate from and its time: what is cached, or a new one that is not behind what was observed.\<close>

definition acquire :: "cache_config \<Rightarrow> StateCache \<Rightarrow> call \<Rightarrow> ((u64 \<times> LiveAccount list) \<times> int) res" where
  "acquire cfg c k =
     (case cached c of
        Some s \<Rightarrow> if reusable cfg c (at_start k) then Inr (s, observed_at c)
                  else ebind (refresh cfg (minimumSlot c) (fetched k)) (\<lambda>s. Inr (s, at_fetch k))
      | None \<Rightarrow> ebind (refresh cfg (minimumSlot c) (fetched k)) (\<lambda>s. Inr (s, at_fetch k)))"

definition snapshot_of :: "u64 \<times> LiveAccount list \<Rightarrow> AccountSnapshot" where
  "snapshot_of s = \<lparr>Slot = fst s, Accounts = List.map (\<lambda>a. Some (Account.truncate a)) (snd s)\<rparr>"

definition commit :: "cache_config \<Rightarrow> u64 \<Rightarrow> u64 \<times> LiveAccount list \<Rightarrow> int \<Rightarrow> (StateCache, unit) proc" where
  "commit cfg gen s at = reading (\<lambda>c.
     if gen \<noteq> generation c then throw (Sentinel ''quote state changed'')
     else update (\<lambda>c.
       let c = publish cfg (c\<lparr>cached := Some s, retained := Seed (List.map Some (snd s)) (fst s) at (retained c)\<rparr>);
           c = (if fst s > minimumSlot c then c\<lparr>minimumSlot := fst s\<rparr> else c)
       in c\<lparr>observed_at := at\<rparr>))"

record CachedQuote =
  quote_slot :: u64
  quote_list :: "Quote list"
  quote_received :: "int option"
  quote_observed :: "int option"

definition quotes_of :: "cache_config \<Rightarrow> provider \<Rightarrow> request list \<Rightarrow> Quote list res" where
  "quotes_of cfg accounts requests = quote_each accounts (program cfg) (client_pools cfg) (cache_pool cfg) requests"

definition cancelled :: "call \<Rightarrow> failure option" where
  "cancelled k = (case ctx_before k of Some e \<Rightarrow> Some e | None \<Rightarrow> ctx_after k)"

definition QuoteExactInputs :: "cache_config \<Rightarrow> call \<Rightarrow> request list \<Rightarrow> (StateCache, CachedQuote) proc" where
  "QuoteExactInputs cfg k requests = (\<lambda>c0.
     let c1 = watched cfg (during k) c0
     in (case ctx_before k of Some e \<Rightarrow> (Inl e, c1)
         | None \<Rightarrow>
             if requests = [] then (Inl (Fail ''requests=empty''), c1)
             else case ctx_after k of Some e \<Rightarrow> (Inl e, c1)
             | None \<Rightarrow>
                 (case ebind (acquire cfg c0 k) (\<lambda>(s, at).
                       ebind (newSnapshotAccounts (addresses cfg) (Some (snapshot_of s))) (\<lambda>accounts.
                       ebind (quotes_of cfg accounts requests) (\<lambda>qs. Inr (s, at, qs)))) of
                    Inl e \<Rightarrow> (Inl e, c1)
                  | Inr (s, at, qs) \<Rightarrow>
                      andthen (commit cfg (generation c0) s at)
                        (\<lambda>_. ret \<lparr>quote_slot = fst s, quote_list = qs, quote_received = None, quote_observed = Some at\<rparr>) c1)))"

definition Warm :: "cache_config \<Rightarrow> call \<Rightarrow> (StateCache, unit) proc" where
  "Warm cfg k = (\<lambda>c0.
     let c1 = watched cfg (during k) c0
     in (case cancelled k of Some e \<Rightarrow> (Inl e, c1)
         | None \<Rightarrow>
             (case ebind (acquire cfg c0 k) (\<lambda>(s, at).
                   ebind (newSnapshotAccounts (addresses cfg) (Some (snapshot_of s))) (\<lambda>_. Inr (s, at))) of
                Inl e \<Rightarrow> (Inl e, c1)
              | Inr (s, at) \<Rightarrow> commit cfg (generation c0) s at c1)))"

record Check =
  Revision :: u64
  Key :: string
  Position :: u64
  CheckedAt :: int

text \<open>The check reads the accounts in the order of the addresses' text, and stores them in the cache's own order.\<close>

definition check_answer :: "u64 \<Rightarrow> address list \<Rightarrow> LiveSnapshot option res \<Rightarrow> (u64 \<times> LiveAccount list) res" where
  "check_answer low ordered answer =
     ebind answer (\<lambda>s.
     case s of None \<Rightarrow> Inl (Fail ''snapshot=invalid'')
     | Some s \<Rightarrow>
         if live_slot s = 0 \<or> live_slot s < low \<or> length (live_accounts s) \<noteq> length ordered then Inl (Fail ''snapshot=invalid'')
         else ebind (all_present (live_accounts s)) (\<lambda>as. Inr (live_slot s, as)))"

definition in_order :: "address list \<Rightarrow> address list \<Rightarrow> LiveAccount list \<Rightarrow> LiveAccount list" where
  "in_order ordered order as = List.map_filter (map_of (rev (zip ordered as))) order"

definition CheckState :: "(address \<Rightarrow> string) \<Rightarrow> ((string \<times> LiveAccount) list \<Rightarrow> string) \<Rightarrow> cache_config \<Rightarrow> call \<Rightarrow> (StateCache, Check) proc" where
  "CheckState text_of hash cfg k = (\<lambda>c0.
     let c1 = watched cfg (during k) c0;
         ordered = sort_key (\<lambda>a. List.map of_char (text_of a) :: nat list) (addresses cfg)
     in (case ctx_before k of Some e \<Rightarrow> (Inl e, c1)
         | None \<Rightarrow>
             (case check_answer (minimumSlot c0) ordered (fetched k) of Inl e \<Rightarrow> (Inl e, c1)
              | Inr (slot, as) \<Rightarrow>
                  (case ctx_after k of Some e \<Rightarrow> (Inl e, c1)
                   | None \<Rightarrow>
                       if generation c0 \<noteq> generation c1 then (Inl (Sentinel ''quote state changed''), c1)
                       else
                         (let key = hash (zip (List.map text_of ordered) as)
                          in (Inr \<lparr>Revision = generation c0, Key = key, Position = slot, CheckedAt = at_start k\<rparr>,
                              c1\<lparr>cached := Some (slot, in_order ordered (addresses cfg) as), observed_at := at_start k, checkedKey := key,
                                 minimumSlot := slot\<rparr>))))))"

definition CheckCurrent :: "StateCache \<Rightarrow> Check \<Rightarrow> bool" where
  "CheckCurrent c check \<longleftrightarrow> Key check \<noteq> [] \<and> Position check \<noteq> 0 \<and> generation c = Revision check"

section \<open>Retained quotes\<close>

definition frozen_provider :: "FrozenAccountState \<Rightarrow> provider" where
  "frozen_provider f = (\<lambda>a. Inr (map_option (\<lambda>r. Account.truncate (ra_account r)) (map_of (FrozenAccounts f) a)))"

definition quote_frozen :: "cache_config \<Rightarrow> FrozenAccountState \<Rightarrow> failure option \<Rightarrow> failure option \<Rightarrow> request list \<Rightarrow> CachedQuote res" where
  "quote_frozen cfg f before after requests =
     (case before of Some e \<Rightarrow> Inl e
      | None \<Rightarrow>
          if requests = [] then Inl (Fail ''requests=empty'')
          else if FrozenAccounts f = [] then Inl (Fail ''snapshot=null'')
          else
            ebind (quotes_of cfg (frozen_provider f) requests) (\<lambda>qs.
            case after of Some e \<Rightarrow> Inl e
            | None \<Rightarrow> Inr \<lparr>quote_slot = frozen_slot f, quote_list = qs, quote_received = ReceivedAt f, quote_observed = ObservedAt f\<rparr>))"

definition QuoteRetainedExactInputs :: "cache_config \<Rightarrow> StateCache \<Rightarrow> failure option \<Rightarrow> failure option \<Rightarrow> request list \<Rightarrow> CachedQuote res" where
  "QuoteRetainedExactInputs cfg c before after requests = quote_frozen cfg (Freeze (retained c)) before after requests"

definition QuoteSnapshot_QuoteExactInputs :: "cache_config \<Rightarrow> FrozenAccountState \<Rightarrow> failure option \<Rightarrow> failure option \<Rightarrow> request list \<Rightarrow> CachedQuote res" where
  "QuoteSnapshot_QuoteExactInputs cfg f before after requests = quote_frozen cfg f before after requests"

section \<open>Steps\<close>

inductive cache_step :: "cache_config \<Rightarrow> StateCache \<Rightarrow> StateCache \<Rightarrow> bool" for cfg :: cache_config where
  watch_step: "watch cfg ev c = (r, c') \<Longrightarrow> cache_step cfg c c'"
| quote_step: "length (during k) < 2 ^ 64 \<Longrightarrow> QuoteExactInputs cfg k requests c = (q, c') \<Longrightarrow> cache_step cfg c c'"
| warm_step: "length (during k) < 2 ^ 64 \<Longrightarrow> Warm cfg k c = (w, c') \<Longrightarrow> cache_step cfg c c'"
| check_step: "length (during k) < 2 ^ 64 \<Longrightarrow> CheckState text_of hash cfg k c = (x, c') \<Longrightarrow> cache_step cfg c c'"

definition cache_reachable :: "cache_config \<Rightarrow> StateCache \<Rightarrow> bool" where
  "cache_reachable cfg c \<longleftrightarrow> (\<exists>programID pools pool age c0. NewStateCache programID pools pool age = Inr (cfg, c0) \<and> (cache_step cfg)\<^sup>*\<^sup>* c0 c)"

definition cache_ok :: "cache_config \<Rightarrow> StateCache \<Rightarrow> bool" where
  "cache_ok cfg c \<longleftrightarrow> retained_ok (retained c) \<and> (\<forall>s. cached c = Some s \<longrightarrow> fst s = minimumSlot c \<and> fst s \<noteq> 0)
     \<and> (published c \<noteq> [] \<longrightarrow> hd (published c) = visible cfg c)"

lemma visible_cong: "connected c' = connected c \<Longrightarrow> retained c' = retained c \<Longrightarrow> visible cfg c' = visible cfg c"
  by (simp add: visible_def)

lemma cpmm_publish_simps [simp]: "generation (publish cfg c) = generation c" "minimumSlot (publish cfg c) = minimumSlot c"
  "connected (publish cfg c) = connected c" "cached (publish cfg c) = cached c" "retained (publish cfg c) = retained c"
  "published (publish cfg c) = visible cfg c # published c"
  by (simp_all add: publish_def)

lemma invalidate_facts:
  "generation (invalidate cfg slot c) = generation c + 1" "cached (invalidate cfg slot c) = None"
  "minimumSlot (invalidate cfg slot c) = max (minimumSlot c) slot"
  "retained (invalidate cfg slot c) = (if connected c = 0 then [] else retained c)"
  "hd (published (invalidate cfg slot c)) = visible cfg (invalidate cfg slot c)"
  by (auto simp: invalidate_def Let_def Reset_def max_def intro!: visible_cong [symmetric])

lemma invalidate_ok: "retained_ok (retained c) \<Longrightarrow> cache_ok cfg (invalidate cfg slot c)"
  by (simp add: cache_ok_def invalidate_facts) (simp add: retained_ok_def)

text \<open>An event is refused and changes nothing, or invalidates what is cached.\<close>

lemma watch_cases:
  assumes "watch cfg ev c = (r, c')"
  shows "c' = c \<or> (\<exists>d slot. c' = invalidate cfg slot d \<and> generation d = generation c \<and> minimumSlot d = minimumSlot c
           \<and> (retained_ok (retained c) \<longrightarrow> retained_ok (retained d)))"
proof (cases ev)
  case (Received a upd at)
  have same: "r' = retained c" if "Apply upd at (retained c) = (Inl e, r')" for e r'
    using that by (auto simp: Apply_def apply_update_def split: option.splits if_splits)
  show ?thesis
  proof (cases "\<exists>u account. upd = Some u \<and> update_account u = Some account \<and> account_id account = a")
    case True
    then obtain u account where u: "upd = Some u" "update_account u = Some account" "account_id account = a" by blast
    obtain x d where ap: "Apply upd at (retained c) = (x, d)" by (cases "Apply upd at (retained c)")
    show ?thesis
    proof (cases x)
      case (Inl e)
      then show ?thesis using assms Received u ap same [of e d] by (simp add: watch_def)
    next
      case (Inr y)
      have "c' = invalidate cfg (update_slot u) (c\<lparr>retained := d\<rparr>)" using assms Received u ap Inr by (simp add: watch_def)
      moreover have "retained_ok (retained c) \<Longrightarrow> retained_ok d" using ap retained_ok_apply unfolding Apply_def by blast
      ultimately show ?thesis by (intro disjI2 exI [of _ "c\<lparr>retained := d\<rparr>"] exI [of _ "update_slot u"]) simp
    qed
  next
    case False
    then show ?thesis using assms Received by (auto simp: watch_def split: option.splits)
  qed
next
  case Connected
  then show ?thesis using assms by (intro disjI2 exI [of _ "c\<lparr>connected := Suc (connected c)\<rparr>"] exI [of _ 0]) (simp add: watch_def)
next
  case Disconnected
  then show ?thesis using assms by (intro disjI2 exI [of _ "c\<lparr>connected := connected c - 1\<rparr>"] exI [of _ 0]) (simp add: watch_def)
next
  case (Notified slot)
  then show ?thesis using assms by (auto simp: watch_def split: if_splits)
qed

lemma watch_ok: "cache_ok cfg c \<Longrightarrow> watch cfg ev c = (r, c') \<Longrightarrow> cache_ok cfg c' \<and> minimumSlot c \<le> minimumSlot c'"
  using watch_cases [of cfg ev c r c'] invalidate_ok by (auto simp: invalidate_facts) (auto simp: cache_ok_def)

lemma watched_Cons [simp]: "watched cfg (ev # evs) c = watched cfg evs (snd (watch cfg ev c))"
  by (simp add: watched_def)

lemma watched_Nil [simp]: "watched cfg [] c = c"
  by (simp add: watched_def)

lemma watched_ok: "cache_ok cfg c \<Longrightarrow> cache_ok cfg (watched cfg evs c) \<and> minimumSlot c \<le> minimumSlot (watched cfg evs c)"
proof (induction evs arbitrary: c)
  case (Cons ev evs)
  have "cache_ok cfg (snd (watch cfg ev c)) \<and> minimumSlot c \<le> minimumSlot (snd (watch cfg ev c))"
    using watch_ok [OF Cons.prems] by (cases "watch cfg ev c") auto
  then show ?case using Cons.IH [of "snd (watch cfg ev c)"] by auto
qed simp

text \<open>The generation counts what was invalidated, so it is unchanged only if nothing was.\<close>

lemma watched_generation:
  "\<exists>n \<le> length evs. generation (watched cfg evs c) = generation c + of_nat n \<and> (n = 0 \<longrightarrow> watched cfg evs c = c)"
proof (induction evs arbitrary: c)
  case (Cons ev evs)
  obtain r c1 where w: "watch cfg ev c = (r, c1)" by (cases "watch cfg ev c")
  obtain n where n: "n \<le> length evs" "generation (watched cfg evs c1) = generation c1 + of_nat n" "n = 0 \<longrightarrow> watched cfg evs c1 = c1"
    using Cons.IH by blast
  consider "c1 = c" | "generation c1 = generation c + 1" using watch_cases [OF w] by (auto simp: invalidate_facts)
  then show ?case
  proof cases
    case 1
    then show ?thesis using n w by (intro exI [of _ n]) simp
  next
    case 2
    then show ?thesis using n w by (intro exI [of _ "Suc n"]) simp
  qed
qed simp

lemma watched_same:
  assumes "length evs < 2 ^ 64" and "generation (watched cfg evs c) = generation c"
  shows "watched cfg evs c = c"
proof -
  obtain n where n: "n \<le> length evs" "generation (watched cfg evs c) = generation c + of_nat n" "n = 0 \<longrightarrow> watched cfg evs c = c"
    using watched_generation by blast
  then have "(of_nat n :: u64) = 0" using assms(2) by simp
  then have "2 ^ 64 dvd n" by (simp add: word_of_nat_eq_0_iff)
  then have "n = 0" using n(1) assms(1) dvd_imp_le [of "2 ^ 64" n] by (cases n) auto
  then show ?thesis using n(3) by simp
qed

text \<open>What is acquired is never behind the slots observed before.\<close>

lemma refresh_slot: "refresh cfg low answer = Inr s \<Longrightarrow> low \<le> fst s \<and> fst s \<noteq> 0"
  by (auto simp: refresh_def not_less split: option.splits if_splits)

lemma acquire_slot: "cache_ok cfg c \<Longrightarrow> acquire cfg c k = Inr (s, at) \<Longrightarrow> minimumSlot c \<le> fst s \<and> fst s \<noteq> 0"
  by (cases s) (auto simp: acquire_def cache_ok_def dest: refresh_slot split: option.splits if_splits)

lemma commit_cases:
  assumes "commit cfg (generation c0) s at (watched cfg evs c0) = (r, c')" and "length evs < 2 ^ 64"
    and "cache_ok cfg c0" and "minimumSlot c0 \<le> fst s" and "fst s \<noteq> 0"
  shows "cache_ok cfg c' \<and> minimumSlot c0 \<le> minimumSlot c'"
    and "r = Inr () \<Longrightarrow> watched cfg evs c0 = c0 \<and> minimumSlot c' = fst s \<and> cached c' = Some s"
proof -
  have "(cache_ok cfg c' \<and> minimumSlot c0 \<le> minimumSlot c')
      \<and> (r = Inr () \<longrightarrow> watched cfg evs c0 = c0 \<and> minimumSlot c' = fst s \<and> cached c' = Some s)"
  proof (cases "generation (watched cfg evs c0) = generation c0")
    case True
    have same: "watched cfg evs c0 = c0" using watched_same [OF assms(2) True] .
    define d where "d = publish cfg (c0\<lparr>cached := Some s, retained := Seed (List.map Some (snd s)) (fst s) at (retained c0)\<rparr>)"
    have c': "r = Inr ()" "c' = (if fst s > minimumSlot d then d\<lparr>minimumSlot := fst s\<rparr> else d)\<lparr>observed_at := at\<rparr>"
      using assms(1) True same by (auto simp: commit_def d_def Let_def)
    have d: "minimumSlot d = minimumSlot c0" "cached d = Some s" "published d = visible cfg d # published c0"
      by (simp_all add: d_def publish_def visible_def)
    have e: "connected c' = connected d" "retained c' = retained d" "published c' = published d"
      using c'(2) by (cases "fst s > minimumSlot d"; simp)+
    have ok: "retained_ok (retained d)" using assms(3,5) by (simp add: d_def cache_ok_def)
    have "minimumSlot c' = fst s" using c'(2) d(1) assms(4) by (cases "fst s > minimumSlot d") simp_all
    moreover have "cached c' = Some s" using c'(2) d(2) by (cases "fst s > minimumSlot d") simp_all
    moreover have "hd (published c') = visible cfg c'" using d(3) e(3) visible_cong [OF e(1,2), of cfg] by simp
    ultimately show ?thesis using ok e c'(1) assms(4,5) same by (simp add: cache_ok_def)
  next
    case False
    then have "c' = watched cfg evs c0" "r \<noteq> Inr ()" using assms(1) by (auto simp: commit_def)
    then show ?thesis using watched_ok [OF assms(3)] by blast
  qed
  then show "cache_ok cfg c' \<and> minimumSlot c0 \<le> minimumSlot c'"
    and "r = Inr () \<Longrightarrow> watched cfg evs c0 = c0 \<and> minimumSlot c' = fst s \<and> cached c' = Some s" by blast+
qed

section \<open>What a cache answers\<close>

lemma quote_commits:
  assumes "QuoteExactInputs cfg k requests c = (r, c')" and "length (during k) < 2 ^ 64" and "cache_ok cfg c"
  shows "cache_ok cfg c' \<and> minimumSlot c \<le> minimumSlot c'"
    and "r = Inr q \<Longrightarrow> watched cfg (during k) c = c \<and> minimumSlot c' = quote_slot q
      \<and> (\<exists>s accounts. cached c' = Some s \<and> newSnapshotAccounts (addresses cfg) (Some (snapshot_of s)) = Inr accounts
           \<and> quotes_of cfg accounts requests = Inr (quote_list q))"
proof -
  define calc where "calc = ebind (acquire cfg c k) (\<lambda>(s, at).
      ebind (newSnapshotAccounts (addresses cfg) (Some (snapshot_of s))) (\<lambda>accounts.
      ebind (quotes_of cfg accounts requests) (\<lambda>qs. Inr (s, at, qs))))"
  have early: "(cache_ok cfg c' \<and> minimumSlot c \<le> minimumSlot c')" if "c' = watched cfg (during k) c"
    using watched_ok [OF assms(3)] that by blast
  consider e where "c' = watched cfg (during k) c" "r = Inl e"
    | s at qs where "calc = Inr (s, at, qs)" "andthen (commit cfg (generation c) s at)
          (\<lambda>_. ret \<lparr>quote_slot = fst s, quote_list = qs, quote_received = None, quote_observed = Some at\<rparr>) (watched cfg (during k) c) = (r, c')"
    using assms(1) unfolding QuoteExactInputs_def Let_def calc_def [symmetric]
    by (cases calc) (auto split: option.splits if_splits)
  then have "(cache_ok cfg c' \<and> minimumSlot c \<le> minimumSlot c')
    \<and> (\<forall>q. r = Inr q \<longrightarrow> watched cfg (during k) c = c \<and> minimumSlot c' = quote_slot q
      \<and> (\<exists>s accounts. cached c' = Some s \<and> newSnapshotAccounts (addresses cfg) (Some (snapshot_of s)) = Inr accounts
           \<and> quotes_of cfg accounts requests = Inr (quote_list q)))"
  proof cases
    case 1
    then show ?thesis using early by simp
  next
    case 2
    obtain accounts where acc: "acquire cfg c k = Inr (s, at)" "newSnapshotAccounts (addresses cfg) (Some (snapshot_of s)) = Inr accounts"
        "quotes_of cfg accounts requests = Inr qs"
      using 2(1) by (auto simp: calc_def)
    note slot = acquire_slot [OF assms(3) acc(1)]
    obtain x d where x: "commit cfg (generation c) s at (watched cfg (during k) c) = (x, d)"
      by (cases "commit cfg (generation c) s at (watched cfg (during k) c)")
    note cc = commit_cases [OF x assms(2,3)]
    show ?thesis
    proof (cases x)
      case (Inl e)
      then show ?thesis using 2(2) x cc(1) slot by (auto simp: andthen_def)
    next
      case (Inr y)
      then show ?thesis using 2(2) x cc slot acc by (auto simp: andthen_def)
    qed
  qed
  then show "cache_ok cfg c' \<and> minimumSlot c \<le> minimumSlot c'"
    and "r = Inr q \<Longrightarrow> watched cfg (during k) c = c \<and> minimumSlot c' = quote_slot q
      \<and> (\<exists>s accounts. cached c' = Some s \<and> newSnapshotAccounts (addresses cfg) (Some (snapshot_of s)) = Inr accounts
           \<and> quotes_of cfg accounts requests = Inr (quote_list q))" by blast+
qed

lemma warm_commits:
  assumes "Warm cfg k c = (r, c')" and "length (during k) < 2 ^ 64" and "cache_ok cfg c"
  shows "cache_ok cfg c' \<and> minimumSlot c \<le> minimumSlot c'"
proof -
  define calc where "calc = ebind (acquire cfg c k) (\<lambda>(s, at).
      ebind (newSnapshotAccounts (addresses cfg) (Some (snapshot_of s))) (\<lambda>_. Inr (s, at)))"
  consider "c' = watched cfg (during k) c"
    | s at where "calc = Inr (s, at)" "commit cfg (generation c) s at (watched cfg (during k) c) = (r, c')"
    using assms(1) unfolding Warm_def Let_def calc_def [symmetric] by (cases calc) (auto split: option.splits)
  then show ?thesis
  proof cases
    case 1
    then show ?thesis using watched_ok [OF assms(3)] by blast
  next
    case 2
    then have "acquire cfg c k = Inr (s, at)" by (auto simp: calc_def)
    from acquire_slot [OF assms(3) this] commit_cases(1) [OF 2(2) assms(2,3)] show ?thesis by blast
  qed
qed

lemma check_cases:
  assumes "CheckState text_of hash cfg k c = (r, c')"
    and ordered: "ordered = sort_key (\<lambda>a. List.map of_char (text_of a) :: nat list) (addresses cfg)"
  obtains (refused) e where "c' = watched cfg (during k) c" "r = Inl e"
  | (passed) slot as where "check_answer (minimumSlot c) ordered (fetched k) = Inr (slot, as)" "generation c = generation (watched cfg (during k) c)"
      "c' = (watched cfg (during k) c)\<lparr>cached := Some (slot, in_order ordered (addresses cfg) as), observed_at := at_start k,
              checkedKey := hash (zip (List.map text_of ordered) as), minimumSlot := slot\<rparr>"
      "r = Inr \<lparr>Revision = generation c, Key = hash (zip (List.map text_of ordered) as), Position = slot, CheckedAt = at_start k\<rparr>"
proof -
  note run = assms(1) [unfolded CheckState_def Let_def, folded ordered]
  show ?thesis
  proof (cases "ctx_before k")
    case (Some e)
    then show ?thesis using run by (intro that(1) [of e]) simp_all
  next
    case None
    show ?thesis
    proof (cases "check_answer (minimumSlot c) ordered (fetched k)")
      case (Inl e)
      then show ?thesis using run None by (intro that(1) [of e]) simp_all
    next
      case (Inr z)
      obtain slot as where z: "z = (slot, as)" by (cases z)
      show ?thesis
      proof (cases "ctx_after k")
        case (Some e)
        then show ?thesis using run None Inr z by (intro that(1) [of e]) simp_all
      next
        case after: None
        show ?thesis
        proof (cases "generation c = generation (watched cfg (during k) c)")
          case True
          then show ?thesis using run None Inr z after by (intro that(2) [of slot as]) simp_all
        next
          case False
          then show ?thesis using run None Inr z after by (intro that(1) [of "Sentinel ''quote state changed''"]) simp_all
        qed
      qed
    qed
  qed
qed

lemma check_commits:
  assumes "CheckState text_of hash cfg k c = (r, c')" and "length (during k) < 2 ^ 64" and "cache_ok cfg c"
  shows "cache_ok cfg c' \<and> minimumSlot c \<le> minimumSlot c'"
    and "r = Inr chk \<Longrightarrow> watched cfg (during k) c = c \<and> Revision chk = generation c \<and> generation c' = generation c \<and> Position chk = minimumSlot c'"
proof -
  define ordered where "ordered = sort_key (\<lambda>a. List.map of_char (text_of a) :: nat list) (addresses cfg)"
  have slot: "minimumSlot c \<le> slot \<and> slot \<noteq> 0" if "check_answer (minimumSlot c) ordered (fetched k) = Inr (slot, as)" for slot as
    using that by (auto simp: check_answer_def not_less split: option.splits if_splits)
  have "(cache_ok cfg c' \<and> minimumSlot c \<le> minimumSlot c')
    \<and> (r = Inr chk \<longrightarrow> watched cfg (during k) c = c \<and> Revision chk = generation c \<and> generation c' = generation c \<and> Position chk = minimumSlot c')"
    using assms(1) ordered_def
  proof (cases rule: check_cases)
    case refused
    then show ?thesis using watched_ok [OF assms(3)] by auto
  next
    case (passed slot as)
    have same: "watched cfg (during k) c = c" using watched_same [OF assms(2) passed(2) [symmetric]] .
    have "visible cfg c' = visible cfg c" using passed(3) same by (simp add: visible_def)
    moreover have "published c' = published c" "retained c' = retained c" "cached c' = Some (slot, in_order ordered (addresses cfg) as)"
      "minimumSlot c' = slot" "generation c' = generation c"
      using passed(3) same by simp_all
    ultimately show ?thesis using passed(4) same slot [OF passed(1)] assms(3) by (auto simp: cache_ok_def)
  qed
  then show "cache_ok cfg c' \<and> minimumSlot c \<le> minimumSlot c'"
    and "r = Inr chk \<Longrightarrow> watched cfg (during k) c = c \<and> Revision chk = generation c \<and> generation c' = generation c \<and> Position chk = minimumSlot c'"
    by blast+
qed

lemma cache_step_ok: "cache_step cfg c c' \<Longrightarrow> cache_ok cfg c \<Longrightarrow> cache_ok cfg c' \<and> minimumSlot c \<le> minimumSlot c'"
proof (induction rule: cache_step.induct)
  case (watch_step ev c r c')
  then show ?case using watch_ok by blast
next
  case (quote_step k requests c q c')
  show ?case using quote_commits(1) [OF quote_step(2,1,3)] .
next
  case (warm_step k c w c')
  show ?case using warm_commits [OF warm_step(2,1,3)] .
next
  case (check_step k text_of hash c x c')
  show ?case using check_commits(1) [OF check_step(2,1,3)] .
qed

lemma cache_steps_ok: "(cache_step cfg)\<^sup>*\<^sup>* c c' \<Longrightarrow> cache_ok cfg c \<Longrightarrow> cache_ok cfg c' \<and> minimumSlot c \<le> minimumSlot c'"
  by (induction rule: rtranclp_induct) (auto dest: cache_step_ok intro: order_trans)

lemma cache_reachable_ok: "cache_reachable cfg c \<Longrightarrow> cache_ok cfg c"
proof -
  assume "cache_reachable cfg c"
  then obtain programID pools pool age c0 where n: "NewStateCache programID pools pool age = Inr (cfg, c0)" "(cache_step cfg)\<^sup>*\<^sup>* c0 c"
    unfolding cache_reachable_def by blast
  have "cache_ok cfg c0" using n(1) by (auto simp: NewStateCache_def cache_ok_def retained_ok_def split: option.splits if_splits)
  then show "cache_ok cfg c" using cache_steps_ok [OF n(2)] by blast
qed



section \<open>A cache\<close>

definition live :: "u8 \<Rightarrow> Account \<Rightarrow> LiveAccount" where
  "live n a = Account.extend a \<lparr>account_id = cpmm_addr n, Lamports = 5, Executable = False\<rparr>"

lemma live_simps [simp]: "Account.truncate (live n a) = a" "account_id (live n a) = cpmm_addr n"
  by (simp_all add: live_def Account.defs)

definition cpmm_live :: "LiveAccount list" where
  "cpmm_live = [live 8 cpmm_pool_account, live 2 cpmm_config_account, live 3 (cpmm_vault [0, 0, 0, 0, 1, 0, 0, 0]), live 4 (cpmm_vault [0, 0, 0, 0, 4, 0, 0, 0])]"

definition cpmm_call :: "u64 \<Rightarrow> call" where
  "cpmm_call slot = \<lparr>ctx_before = None, ctx_after = None, at_start = 10, fetched = Inr (Some \<lparr>live_slot = slot, live_accounts = List.map Some cpmm_live\<rparr>),
     at_fetch = 12, during = []\<rparr>"

definition cpmm_cfg :: cache_config where
  "cpmm_cfg = \<lparr>program = cpmm_addr 1, client_pools = cpmm_pools, cache_pool = cpmm_addr 8,
     addresses = [cpmm_addr 8, cpmm_addr 2, cpmm_addr 3, cpmm_addr 4], maxAge = 1000\<rparr>"

definition cpmm_empty :: StateCache where
  "cpmm_empty = \<lparr>generation = 0, checkedKey = [], minimumSlot = 0, connected = 0, running = False, cached = None, observed_at = 0,
     retained = [], published = []\<rparr>"

lemma cpmm_pool_of: "cpmm_pools (cpmm_addr 8) = Some cpmm_pool"
  by (simp add: cpmm_pools_def cpmm_decoded)

lemma cpmm_new: "NewStateCache (cpmm_addr 1) cpmm_pools (cpmm_addr 8) 1000 = Inr (cpmm_cfg, cpmm_empty)"
  by (simp add: NewStateCache_def cpmm_pool_of cpmm_cfg_def cpmm_empty_def) (simp add: cpmm_pool_def)

text \<open>A call on any cache that is not ahead of the slot gives the quote.\<close>

lemma cpmm_calc:
  "\<exists>accounts q. newSnapshotAccounts (addresses cpmm_cfg) (Some (snapshot_of (slot, cpmm_live))) = Inr accounts
     \<and> quotes_of cpmm_cfg accounts [(cpmm_addr 5, 1000000)] = Inr [q] \<and> AmountOut q = 3987074"
proof -
  have snap: "snapshot_of (slot, cpmm_live) = \<lparr>Slot = slot, Accounts = [Some cpmm_pool_account, Some cpmm_config_account,
     Some (cpmm_vault [0, 0, 0, 0, 1, 0, 0, 0]), Some (cpmm_vault [0, 0, 0, 0, 4, 0, 0, 0])]\<rparr>"
    by (simp add: snapshot_of_def cpmm_live_def)
  obtain accounts where acc: "newSnapshotAccounts (addresses cpmm_cfg) (Some (snapshot_of (slot, cpmm_live))) = Inr accounts"
    "accounts (cpmm_addr 8) = Inr (Some cpmm_pool_account)" "accounts (cpmm_addr 2) = Inr (Some cpmm_config_account)"
    "accounts (cpmm_addr 3) = Inr (Some (cpmm_vault [0, 0, 0, 0, 1, 0, 0, 0]))" "accounts (cpmm_addr 4) = Inr (Some (cpmm_vault [0, 0, 0, 0, 4, 0, 0, 0]))"
    unfolding snap by (simp add: newSnapshotAccounts_def cpmm_cfg_def cpmm_addr_def map_filter_simps)
  have own: "Owner cpmm_pool_account = cpmm_addr 1" "Owner cpmm_config_account = cpmm_addr 1"
    by (simp_all add: cpmm_pool_account_def cpmm_config_account_def)
  have p: "Status cpmm_pool AND 4 = 0" "AMMConfig cpmm_pool = cpmm_addr 2" "Token0Vault cpmm_pool = cpmm_addr 3" "Token1Vault cpmm_pool = cpmm_addr 4"
    "Token0Mint cpmm_pool = cpmm_addr 5" "Token1Mint cpmm_pool = cpmm_addr 6" "CreatorFeeEnabled cpmm_pool"
    "creator_on_input cpmm_pool z" "checkedSum [ProtocolFees0 cpmm_pool, FundFees0 cpmm_pool, CreatorFees0 cpmm_pool] = Some 0"
    "checkedSum [ProtocolFees1 cpmm_pool, FundFees1 cpmm_pool, CreatorFees1 cpmm_pool] = Some 0" for z
    by (simp_all add: cpmm_pool_def creator_on_input_def checkedSum_def)
  have cfg: "program cpmm_cfg = cpmm_addr 1" "client_pools cpmm_cfg = cpmm_pools" "cache_pool cpmm_cfg = cpmm_addr 8" by (simp_all add: cpmm_cfg_def)
  have "\<exists>q. quotes_of cpmm_cfg accounts [(cpmm_addr 5, 1000000)] = Inr [q] \<and> AmountOut q = 3987074"
    by (simp add: quotes_of_def cfg cpmm_pool_of acc quoteExactInput_def cpmm_decoded quote_pool_def read_vaults_def cpmm_config cpmm_amounts
        cpmm_quotes owned_def own p)
  then show ?thesis using acc(1) by blast
qed

lemma cpmm_call_runs:
  assumes "connected c = 0" "minimumSlot c \<le> slot" "slot \<noteq> 0"
  shows "\<exists>q c'. QuoteExactInputs cpmm_cfg (cpmm_call slot) [(cpmm_addr 5, 1000000)] c = (Inr q, c') \<and> connected c' = 0 \<and> quote_slot q = slot"
proof -
  have "length (addresses cpmm_cfg) = 4" by (simp add: cpmm_cfg_def)
  then have a: "acquire cpmm_cfg c (cpmm_call slot) = Inr ((slot, cpmm_live), 12)"
    using assms by (auto simp: acquire_def reusable_def cpmm_call_def refresh_def cpmm_live_def split: option.splits)
  obtain accounts q where "newSnapshotAccounts (addresses cpmm_cfg) (Some (snapshot_of (slot, cpmm_live))) = Inr accounts"
      "quotes_of cpmm_cfg accounts [(cpmm_addr 5, 1000000)] = Inr [q]"
    using cpmm_calc by blast
  then show ?thesis
    using assms a by (simp add: QuoteExactInputs_def Let_def) (simp add: cpmm_call_def commit_def Let_def publish_def andthen_def)
qed



end
