(* ===== verification/V4_Pool.thy ===== *)
theory V4_Pool
  imports V3_Pool
begin

text \<open>
  \<open>go/venues/uniswap/v4\<close>: the local swap simulation of \<open>local_math.go\<close> and \<open>state_cache.go\<close>. The singleton
  contract of v4 is read through \<open>StateView\<close>, by pool id, and its step differs from the one of v3 in what it
  books when the amount runs out. Names that both packages use carry a 4 here. \<open>ceilDiv\<close>, \<open>sqrtAtTick\<close>,
  \<open>amountDelta\<close> and \<open>nextPrice\<close> of \<open>local_math.go\<close> are, up to the words of their errors, those of v3
  (\<open>CL_Math\<close>, \<open>V3_Step\<close>). The theorems are stated by refinement: the simulation of a v4 pool is the simulation of
  a v3 pool behind an adapter that answers in the format of v3.
\<close>

section \<open>One step\<close>

definition calculateStep4 :: "int \<Rightarrow> int \<Rightarrow> int \<Rightarrow> int \<Rightarrow> u32 \<Rightarrow> bool \<Rightarrow> bool \<Rightarrow> localStep res" where
  "calculateStep4 p target l remaining fee input zero =
     ebind (if input then big_Quo (remaining * uint (1000000 - fee)) 1000000 else Inr remaining) (\<lambda>available.
     ebind (amountDelta p target l (zero = input) input) (\<lambda>needed.
     ebind (if available < needed then nextPrice p l available zero input else Inr target) (\<lambda>next.
     ebind (amountDelta p next l zero True) (\<lambda>i.
     ebind (amountDelta p next l (\<not> zero) False) (\<lambda>out.
     let i = (if available < needed \<and> input then available else i);
         out = (if available < needed \<and> \<not> input then remaining else out)
     in ebind (if input \<and> available < needed then Inr (remaining - i)
               else ceilDiv (i * uint fee) (uint (1000000 - fee))) (\<lambda>charged.
        Inr \<lparr>price = next, in_amount = i, out_amount = out, fee_amount = charged\<rparr>))))))"

section \<open>State and reading\<close>

record poolSnapshot4 = poolSnapshot +
  fees :: "u32 \<times> u32"

definition directed_fee :: "bool \<Rightarrow> poolSnapshot4 \<Rightarrow> u32" where
  "directed_fee zero s = (if zero then fst (fees s) else snd (fees s))"

text \<open>The environment is the one of v3; the id of the pool precedes the argument of every call.\<close>

definition read4 :: "Env \<Rightarrow> Hash \<Rightarrow> string \<Rightarrow> int option \<Rightarrow> ('z, bytes) pool_proc" where
  "read4 env poolID sig arg =
     reading (\<lambda>(s, budget).
       if budget \<le> 0 then throw errStateReadBudget
       else andthen (update (\<lambda>(s, budget). (s, budget - 1))) (\<lambda>_.
            andthen (lift (encode_arg arg)) (\<lambda>word.
            lift (callContract env (selector env sig @ poolID @ word) (hNumber (sHeader s))))))"

definition bitmap_at4 :: "Env \<Rightarrow> Hash \<Rightarrow> int \<Rightarrow> ('z, int) pool_proc" where
  "bitmap_at4 env poolID word =
     reading (\<lambda>(s, budget). case words s word of
       Some b \<Rightarrow> ret b
     | None \<Rightarrow>
         andthen (read4 env poolID ''getTickBitmap(bytes32,int16)'' (Some word)) (\<lambda>data.
           if length data \<noteq> 32 then throw (Fail ''result=invalid'')
           else andthen (update (\<lambda>(s, budget). (s\<lparr>words := (words s)(word \<mapsto> be_int data)\<rparr>, budget)))
                  (\<lambda>_. ret (be_int data))))"

definition nextTick4 :: "Env \<Rightarrow> Hash \<Rightarrow> int \<Rightarrow> bool \<Rightarrow> ('z, int \<times> bool) pool_proc" where
  "nextTick4 env poolID tick zero =
     reading (\<lambda>(s, budget).
       if sSpacing s = 0 then throw (Panic ''division by zero'')
       else
         (let compressed = compress tick (sSpacing s);
              compressed = (if \<not> zero then i32 (compressed + 1) else compressed);
              word = drop_bit 8 compressed;
              b = compressed AND 255
          in andthen (bitmap_at4 env poolID word) (\<lambda>bitmap. ret (
               case scan_bits bitmap zero b of
                 Some i \<Rightarrow> (i32 (i32 (i32 (word * 256) + i) * sSpacing s), True)
               | None \<Rightarrow> (i32 (i32 (i32 (word * 256) + (if zero then 0 else 255)) * sSpacing s), False)))))"

definition storeTickDetails4 :: "'z poolSnapshot_scheme \<Rightarrow> int \<Rightarrow> bytes \<Rightarrow> (int \<times> 'z poolSnapshot_scheme) res" where
  "storeTickDetails4 s tick data =
     (if length data \<noteq> 64 \<or> be_int (take 32 data) = 0 \<or> BitLen_gt (be_int (take 32 data)) 128
      then Inl (Fail ''result=invalid'')
      else
        (let n = be_int (take 32 (drop 32 data));
             n = (if bit n 255 then n - power2 256 else n)
         in if n < - power2 127 \<or> n \<ge> power2 127 then Inl (Fail ''liquidity_net=out_of_range'')
            else Inr (n, s\<lparr>gross := (gross s)(tick \<mapsto> be_int (take 32 data)), ticks := (ticks s)(tick \<mapsto> n)\<rparr>)))"

definition liquidityNet4 :: "Env \<Rightarrow> Hash \<Rightarrow> int \<Rightarrow> ('z, int) pool_proc" where
  "liquidityNet4 env poolID tick =
     reading (\<lambda>(s, budget). case ticks s tick of
       Some n \<Rightarrow> ret n
     | None \<Rightarrow>
         andthen (read4 env poolID ''getTickLiquidity(bytes32,int24)'' (Some tick)) (\<lambda>data.
         reading (\<lambda>(s, budget).
           andthen (lift (storeTickDetails4 s tick data)) (\<lambda>(n, s').
           andthen (update (\<lambda>(_, budget). (s', budget))) (\<lambda>_. ret n)))))"

section \<open>The swap simulation\<close>

definition cross_tick4 :: "Env \<Rightarrow> Hash \<Rightarrow> bool \<Rightarrow> int \<Rightarrow> bool \<Rightarrow> int \<Rightarrow> ('z, int) pool_proc" where
  "cross_tick4 env poolID zero next initialized l =
     (if initialized then
        andthen (liquidityNet4 env poolID next) (\<lambda>net.
          let l = (if zero then l - net else l + net)
          in if l < 0 \<or> BitLen_gt l 128 then throw (Fail ''liquidity=out_of_range'') else ret l)
      else ret l)"

primrec quote_loop4 :: "nat \<Rightarrow> Env \<Rightarrow> Hash \<Rightarrow> bool \<Rightarrow> bool \<Rightarrow> int \<Rightarrow> int \<Rightarrow> int \<Rightarrow> int \<Rightarrow> int \<Rightarrow> int
  \<Rightarrow> (poolSnapshot4 \<times> int, int \<times> int) proc"
where
  "quote_loop4 0 env poolID zero input remaining result p l tick feeTotal =
     throw (Fail ''liquidity_or_step_budget=insufficient'')"
| "quote_loop4 (Suc k) env poolID zero input remaining result p l tick feeTotal =
     (if remaining \<le> 0 then throw (Fail ''liquidity_or_step_budget=insufficient'')
      else case ctxErr env (2048 - Suc k) of Some e \<Rightarrow> throw e
      | None \<Rightarrow>
        andthen (nextTick4 env poolID tick zero) (\<lambda>(next, initialized).
        let next = max minTick (min maxTick next);
            (target, limit) = next_target zero next
        in andthen (reading (\<lambda>(s, budget). lift (calculateStep4 p target l remaining (directed_fee zero s) input zero))) (\<lambda>step.
        let feeTotal = feeTotal + fee_amount step;
            cost = in_amount step + fee_amount step;
            (remaining, result) =
              (if input then (remaining - cost, result + out_amount step)
               else (remaining - out_amount step, result + cost));
            p = price step
        in if remaining < 0 \<or> BitLen_gt result 256 then throw (Fail ''amount=out_of_range'')
           else if remaining = 0 then ret (result, feeTotal)
           else if p = limit then throw (Fail ''liquidity_or_step_budget=insufficient'')
           else if p = sqrtAtTick next then
             andthen (cross_tick4 env poolID zero next initialized l) (\<lambda>l.
             quote_loop4 k env poolID zero input remaining result p l
               (if zero then i32 (next - 1) else next) feeTotal)
           else throw (Fail ''incomplete_step=invalid''))))"

definition quote4 :: "Env \<Rightarrow> Hash \<Rightarrow> int \<Rightarrow> bool \<Rightarrow> bool \<Rightarrow> (poolSnapshot4 \<times> int, int \<times> int) proc" where
  "quote4 env poolID amount zero input =
     reading (\<lambda>(s, budget).
       quote_loop4 2048 env poolID zero input amount 0 (sPrice s) (sLiquidity s) (sTick s) 0)"

section \<open>The adapter\<close>

text \<open>
  A contract of v3 that answers like the pool of v4: \<open>ticks\<close> returns eight words, of which the first two are gross and net
  liquidity and the last is 1 for an initialized tick.
\<close>

definition widen :: "bytes \<Rightarrow> bytes" where
  "widen data =
     (if length data \<noteq> 64 \<or> be_int (take 32 data) = 0 \<or> BitLen_gt (be_int (take 32 data)) 128 then []
      else data @ replicate 191 0 @ [1])"

definition as_v3 :: "Env \<Rightarrow> Hash \<Rightarrow> Env" where
  "as_v3 env poolID =
     \<lparr>selector = (\<lambda>sig. if sig = ''ticks(int24)'' then 1 # selector env ''getTickLiquidity(bytes32,int24)'' @ poolID
                      else 0 # selector env ''getTickBitmap(bytes32,int16)'' @ poolID),
      callContract = (\<lambda>data n. case callContract env (tl data) n of Inl e \<Rightarrow> Inl e
                      | Inr answer \<Rightarrow> Inr (if hd data = 1 then widen answer else answer)),
      ctxErr = ctxErr env\<rparr>"

lemma andthen_assoc: "andthen (andthen m f) g = andthen m (\<lambda>x. andthen (f x) g)"
  by (auto simp: andthen_def fun_eq_iff split: sum.splits prod.splits)

lemma read_as_v3:
  "read (as_v3 env poolID) ''tickBitmap(int16)'' arg = read4 env poolID ''getTickBitmap(bytes32,int16)'' arg"
  "read (as_v3 env poolID) ''ticks(int24)'' arg
     = andthen (read4 env poolID ''getTickLiquidity(bytes32,int24)'' arg) (\<lambda>data. ret (widen data))"
  by (auto simp: read_def read4_def as_v3_def fun_eq_iff andthen_def proc_simps split: sum.splits prod.splits)

lemma be_int_zeros: "be_int (replicate n 0 @ [1]) = 1"
proof -
  have "foldl (\<lambda>k b. k * 256 + uint b) 0 (replicate n (0 :: u8)) = 0" by (induction n) simp_all
  then show ?thesis by (simp add: be_int_def)
qed

lemma store_widen: "storeTickDetails s tick (widen data) = storeTickDetails4 s tick data"
  by (auto simp: storeTickDetails_def storeTickDetails4_def widen_def be_int_zeros Let_def)

lemma bitmap_at_as_v3: "bitmap_at (as_v3 env poolID) w = bitmap_at4 env poolID w"
  by (simp add: bitmap_at_def bitmap_at4_def read_as_v3 cong: option.case_cong)

lemma nextTick_as_v3: "nextTick (as_v3 env poolID) tick zero = nextTick4 env poolID tick zero"
  unfolding nextTick_def nextTick4_def bitmap_at_as_v3 by (rule refl)

lemma liquidityNet_as_v3: "liquidityNet (as_v3 env poolID) tick = liquidityNet4 env poolID tick"
  by (simp add: liquidityNet_def liquidityNet4_def read_as_v3 store_widen andthen_assoc reading_def cong: option.case_cong)

lemma cross_tick_as_v3: "cross_tick (as_v3 env poolID) zero t ini l = cross_tick4 env poolID zero t ini l"
  by (simp add: cross_tick_def cross_tick4_def liquidityNet_as_v3)

lemma as_v3_clean: "env_clean env \<Longrightarrow> env_clean (as_v3 env poolID)"
  by (auto simp: env_clean_def as_v3_def split: sum.splits)

lemma as_v3_ctxErr [simp]: "ctxErr (as_v3 env poolID) = ctxErr env"
  by (simp add: as_v3_def)

section \<open>The two steps\<close>

text \<open>
  Both steps move the price equally and exchange the same total. When an exact input runs out before the target, v3 books
  what the rounding of the price left over as fee, v4 as input.
\<close>

definition same_step :: "u32 \<Rightarrow> bool \<Rightarrow> localStep \<Rightarrow> localStep \<Rightarrow> bool" where
  "same_step fee input st st4 \<longleftrightarrow> price st4 = price st \<and> out_amount st4 = out_amount st
     \<and> in_amount st4 + fee_amount st4 = in_amount st + fee_amount st \<and> fee_amount st4 \<le> fee_amount st
     \<and> 0 \<le> fee_amount st4 \<and> (in_amount st4 + fee_amount st4) * uint fee \<le> fee_amount st4 * 1000000
     \<and> (input \<or> st4 = st)"

lemma same_step_reached:
  assumes f: "fee_ok fee" and pre: "step_pre p t l r zero"
    and le: "amt Q96 p t l (zero = input) input \<le> (if input then r * (1000000 - uint fee) div 1000000 else r)"
  shows "\<exists>st. calculateStep p t l r fee input zero = Inr st \<and> calculateStep4 p t l r fee input zero = Inr st
     \<and> same_step fee input st st"
proof -
  have pos: "0 < p" "0 < t" "0 \<le> l" "0 \<le> r" using pre by (simp_all add: step_pre_def)
  define i where "i = amt Q96 p t l zero True"
  have i: "0 \<le> i" using pos by (simp add: i_def amt_nonneg)
  note fee = reached_fee [OF f i] and u = fee_ok_uint [OF f]
  have av: "big_Quo (r * uint (1000000 - fee)) 1000000 = Inr (r * (1000000 - uint fee) div 1000000)"
    using u pos by (simp add: big_Quo_pos)
  let ?st = "\<lparr>price = t, in_amount = i, out_amount = amt Q96 p t l (\<not> zero) False,
             fee_amount = cdiv (i * uint fee) (1000000 - uint fee)\<rparr>"
  have "calculateStep p t l r fee input zero = Inr ?st" "calculateStep4 p t l r fee input zero = Inr ?st"
    using pos le av fee(1)
    by (cases input; simp add: calculateStep_def calculateStep4_def amountDelta_amt i_def Let_def)+
  then show ?thesis using fee by (simp add: same_step_def)
qed

lemma same_step_input:
  assumes f: "fee_ok fee" and pre: "step_pre p t l r zero"
    and less: "r * (1000000 - uint fee) div 1000000 < amt Q96 p t l zero True"
  shows "\<exists>st st4. calculateStep p t l r fee True zero = Inr st \<and> calculateStep4 p t l r fee True zero = Inr st4
     \<and> same_step fee True st st4"
proof -
  have pos: "0 < p" "0 < t" "0 \<le> l" "0 \<le> r" "if zero then t \<le> p else p \<le> t" "l < 2 ^ 128"
    using pre by (simp_all add: step_pre_def)
  define a where "a = r * (1000000 - uint fee) div 1000000"
  note u = fee_ok_uint [OF f]
  have a: "0 \<le> a" using u pos by (simp add: a_def pos_imp_zdiv_nonneg_iff)
  have l: "0 < l" using less a pos by (cases "l = 0") (auto simp: a_def)
  obtain q where q: "nextPrice p l a zero True = Inr q" "0 < q" "q \<noteq> t" "amt Q96 p q l zero True \<le> a"
    using nextPrice_input [OF pos(1,2) l a pos(6,5)] less by (auto simp: a_def)
  have a6: "a * 1000000 \<le> r * (1000000 - uint fee)"
    unfolding a_def by (simp add: le_div_iff_mult_le [symmetric])
  have "0 \<le> r * uint fee" using pos u by simp
  then have "a \<le> r" using a6 by (simp add: algebra_simps)
  have av: "big_Quo (r * uint (1000000 - fee)) 1000000 = Inr a"
    using u pos by (simp add: big_Quo_pos a_def)
  let ?st = "\<lambda>i. \<lparr>price = q, in_amount = i, out_amount = amt Q96 p q l (\<not> zero) False, fee_amount = r - i\<rparr>"
  have "calculateStep p t l r fee True zero = Inr (?st (amt Q96 p q l zero True))"
    "calculateStep4 p t l r fee True zero = Inr (?st a)"
    using pos less av q by (simp_all add: calculateStep_def calculateStep4_def amountDelta_amt a_def Let_def)
  then show ?thesis using q(4) a6 \<open>a \<le> r\<close> by (simp add: same_step_def algebra_simps)
qed

lemma same_step_output:
  assumes f: "fee_ok fee" and pre: "step_pre p t l r zero"
    and less: "r < amt Q96 p t l (\<not> zero) False"
  shows "\<exists>st. calculateStep p t l r fee False zero = Inr st \<and> calculateStep4 p t l r fee False zero = Inr st
     \<and> same_step fee False st st"
proof -
  have pos: "0 < p" "0 < t" "0 \<le> l" "0 \<le> r" "if zero then t \<le> p else p \<le> t"
    using pre by (simp_all add: step_pre_def)
  have l: "0 < l" using less pos by (cases "l = 0") auto
  obtain q where q: "nextPrice p l r zero False = Inr q" "0 < q" "r \<le> amt Q96 p q l (\<not> zero) False"
    using nextPrice_output [OF pos(1,2) l pos(4,5) less] by auto
  define i where "i = amt Q96 p q l zero True"
  have i: "0 \<le> i" using pos q by (simp add: i_def amt_nonneg)
  note fee = reached_fee [OF f i]
  let ?st = "\<lparr>price = q, in_amount = i, out_amount = r, fee_amount = cdiv (i * uint fee) (1000000 - uint fee)\<rparr>"
  have "calculateStep p t l r fee False zero = Inr ?st" "calculateStep4 p t l r fee False zero = Inr ?st"
    using pos less fee(1) q by (auto simp: calculateStep_def calculateStep4_def amountDelta_amt i_def Let_def)
  then show ?thesis using fee by (simp add: same_step_def)
qed

lemma same_step:
  assumes "fee_ok fee" and "step_pre p t l r zero"
  obtains st st4 where "calculateStep p t l r fee input zero = Inr st"
    and "calculateStep4 p t l r fee input zero = Inr st4" and "same_step fee input st st4"
  using same_step_reached [OF assms, of input] same_step_input [OF assms] same_step_output [OF assms] that
  by (cases input) (fastforce simp: not_le)+

section \<open>The two simulations\<close>

text \<open>Two procedures that leave the same state and fail alike, and whose results are related.\<close>

definition same_run :: "('a \<Rightarrow> 'b \<Rightarrow> bool) \<Rightarrow> ('s, 'a) proc \<Rightarrow> ('s, 'b) proc \<Rightarrow> 's \<Rightarrow> bool" where
  "same_run R m m' z \<longleftrightarrow> snd (m z) = snd (m' z) \<and>
     (case (fst (m z), fst (m' z)) of (Inl e, Inl e') \<Rightarrow> e = e' | (Inr x, Inr y) \<Rightarrow> R x y | _ \<Rightarrow> False)"

lemma same_run_basic [simp]:
  "same_run R (ret x) (ret y) z \<longleftrightarrow> R x y" "same_run R (throw e) (throw e') z \<longleftrightarrow> e = e'"
  by (simp_all add: same_run_def)

lemma same_run_andthen:
  assumes "\<And>x z'. m z = (Inr x, z') \<Longrightarrow> same_run R (f x) (f' x) z'"
  shows "same_run R (andthen m f) (andthen m f') z"
  using assms unfolding same_run_def andthen_cases by (cases "m z") (auto split: sum.splits)

text \<open>The fees that the two simulations have booked.\<close>

definition same_fees :: "u32 \<Rightarrow> bool \<Rightarrow> int \<Rightarrow> int \<Rightarrow> int \<Rightarrow> int \<Rightarrow> bool" where
  "same_fees fee input amount r ft ft4 \<longleftrightarrow> 0 \<le> ft4 \<and> ft4 \<le> ft
     \<and> (if input then (amount - r) * uint fee \<le> ft4 * 1000000 else ft4 = ft)"

lemma same_fees_step:
  assumes "same_fees fee input amount r ft ft4" and "same_step fee input st st4"
  shows "same_fees fee input amount (if input then r - (in_amount st + fee_amount st) else r - out_amount st)
     (ft + fee_amount st) (ft4 + fee_amount st4)"
proof (cases input)
  case True
  define c where "c = in_amount st + fee_amount st"
  have "in_amount st4 + fee_amount st4 = c" using assms by (simp add: same_step_def c_def)
  moreover have "(in_amount st4 + fee_amount st4) * uint fee \<le> fee_amount st4 * 1000000"
    using assms(2) unfolding same_step_def by blast
  ultimately have "c * uint fee \<le> fee_amount st4 * 1000000" by simp
  moreover have "(amount - r) * uint fee \<le> ft4 * 1000000" using assms True by (simp add: same_fees_def)
  ultimately have "(amount - (r - c)) * uint fee \<le> (ft4 + fee_amount st4) * 1000000"
    by (simp add: algebra_simps)
  then show ?thesis using assms True unfolding c_def [symmetric] by (simp add: same_fees_def same_step_def)
next
  case False
  then show ?thesis using assms by (simp add: same_fees_def same_step_def)
qed

text \<open>One turn of the loop: the steps are the same, and so is everything that is decided by them.\<close>

definition turn :: "bool \<Rightarrow> bool \<Rightarrow> int \<Rightarrow> int \<Rightarrow> int \<Rightarrow> int \<Rightarrow> int
  \<Rightarrow> (int \<Rightarrow> int \<Rightarrow> int \<Rightarrow> int \<Rightarrow> ('s, int \<times> int) proc) \<Rightarrow> localStep \<Rightarrow> ('s, int \<times> int) proc" where
  "turn zero input next limit remaining result feeTotal go step =
     (let feeTotal = feeTotal + fee_amount step;
          cost = in_amount step + fee_amount step;
          (remaining, result) =
            (if input then (remaining - cost, result + out_amount step)
             else (remaining - out_amount step, result + cost));
          p = price step
      in if remaining < 0 \<or> BitLen_gt result 256 then throw (Fail ''amount=out_of_range'')
         else if remaining = 0 then ret (result, feeTotal)
         else if p = limit then throw (Fail ''liquidity_or_step_budget=insufficient'')
         else if p = sqrtAtTick next then go remaining result p feeTotal
         else throw (Fail ''incomplete_step=invalid''))"

lemma quote_loop_turn:
  "quote_loop (Suc k) env fee zero input r result p l tick ft =
     (if r \<le> 0 then throw (Fail ''liquidity_or_step_budget=insufficient'')
      else case ctxErr env (2048 - Suc k) of Some e \<Rightarrow> throw e
      | None \<Rightarrow>
        andthen (nextTick env tick zero) (\<lambda>(next, ini).
        let next = max minTick (min maxTick next); (target, limit) = next_target zero next
        in andthen (lift (calculateStep p target l r fee input zero))
             (turn zero input next limit r result ft (\<lambda>r result p ft.
                andthen (cross_tick env zero next ini l) (\<lambda>l.
                quote_loop k env fee zero input r result p l (if zero then i32 (next - 1) else next) ft)))))"
  unfolding quote_loop.simps turn_def Let_def by (rule refl)

lemma quote_loop4_turn:
  "quote_loop4 (Suc k) env poolID zero input r result p l tick ft =
     (if r \<le> 0 then throw (Fail ''liquidity_or_step_budget=insufficient'')
      else case ctxErr env (2048 - Suc k) of Some e \<Rightarrow> throw e
      | None \<Rightarrow>
        andthen (nextTick4 env poolID tick zero) (\<lambda>(next, ini).
        let next = max minTick (min maxTick next); (target, limit) = next_target zero next
        in andthen (reading (\<lambda>(s, budget). lift (calculateStep4 p target l r (directed_fee zero s) input zero)))
             (turn zero input next limit r result ft (\<lambda>r result p ft.
                andthen (cross_tick4 env poolID zero next ini l) (\<lambda>l.
                quote_loop4 k env poolID zero input r result p l (if zero then i32 (next - 1) else next) ft)))))"
  unfolding quote_loop4.simps turn_def Let_def by (rule refl)

text \<open>What is left, the result and the price after a step.\<close>

definition rest_of :: "bool \<Rightarrow> int \<Rightarrow> localStep \<Rightarrow> int" where
  "rest_of input r st = (if input then r - (in_amount st + fee_amount st) else r - out_amount st)"

definition result_of :: "bool \<Rightarrow> int \<Rightarrow> localStep \<Rightarrow> int" where
  "result_of input result st = (if input then result + out_amount st else result + (in_amount st + fee_amount st))"

lemma same_turn:
  assumes st: "same_step fee input st st4" and ft: "same_fees fee input amount r ft ft4"
    and hit: "price st \<noteq> t \<Longrightarrow> rest_of input r st = 0"
    and go: "price st = t \<Longrightarrow> t \<noteq> lim \<Longrightarrow> t = sqrtAtTick nx \<Longrightarrow>
        same_fees fee input amount (rest_of input r st) (ft + fee_amount st) (ft4 + fee_amount st4) \<Longrightarrow>
        same_run R (go (rest_of input r st) (result_of input result st) t (ft + fee_amount st))
          (go4 (rest_of input r st) (result_of input result st) t (ft4 + fee_amount st4)) z"
    and R: "\<And>x ft ft4. same_fees fee input amount 0 ft ft4 \<Longrightarrow> R (x, ft) (x, ft4)"
  shows "same_run R (turn zero input nx lim r result ft go st) (turn zero input nx lim r result ft4 go4 st4) z"
proof -
  have f: "same_fees fee input amount (rest_of input r st) (ft + fee_amount st) (ft4 + fee_amount st4)"
    using same_fees_step [OF ft st] by (simp add: rest_of_def)
  have eq: "price st4 = price st" "out_amount st4 = out_amount st" "in_amount st4 + fee_amount st4 = in_amount st + fee_amount st"
    using st by (simp_all add: same_step_def)
  have pair: "(if input then (r - (in_amount st + fee_amount st), result + out_amount st)
      else (r - out_amount st, result + (in_amount st + fee_amount st))) = (rest_of input r st, result_of input result st)"
    by (simp add: rest_of_def result_of_def)
  show ?thesis
  proof (cases "rest_of input r st < 0 \<or> BitLen_gt (result_of input result st) 256 \<or> rest_of input r st = 0")
    case True
    then show ?thesis using f R unfolding turn_def eq Let_def pair by auto
  next
    case False
    then have "price st = t" using hit by auto
    then show ?thesis using False f go unfolding turn_def eq Let_def pair by auto
  qed
qed

lemma extends_fee: "extends s s' \<Longrightarrow> directed_fee zero s' = directed_fee zero s"
  by (cases s; cases s') (simp add: extends_def directed_fee_def)

lemma quote_loop_same:
  fixes s :: poolSnapshot4
  assumes env: "env_clean env" and f: "fee_ok fee" and p0: "0 < p0"
  shows "0 < sSpacing s \<Longrightarrow> sSpacing s \<le> 32767 \<Longrightarrow> directed_fee zero s = fee \<Longrightarrow> loop_inv p l tick \<Longrightarrow>
    carried fee zero input p0 amount p r result ft \<Longrightarrow> same_fees fee input amount r ft ft4 \<Longrightarrow>
    same_run (\<lambda>(x, f3) (y, f4). x = y \<and> same_fees fee input amount 0 f3 f4)
      (quote_loop k (as_v3 env poolID) fee zero input r result p l tick ft)
      (quote_loop4 k env poolID zero input r result p l tick ft4) (s, b)"
proof (induction k arbitrary: s b r result p l tick ft ft4)
  case (Suc k)
  note sp = Suc.prems(1,2) and fee = Suc.prems(3) and inv = Suc.prems(4) and car = Suc.prems(5) and fts = Suc.prems(6)
  let ?R = "\<lambda>(x, f3) (y, f4). x = y \<and> same_fees fee input amount 0 f3 f4"
  note env3 = as_v3_clean [OF env, of poolID]
  have tick: "\<bar>tick\<bar> \<le> 887273" using inv by (auto simp: loop_inv_def)
  have after: "same_run ?R
      (let next = max minTick (min maxTick next0); (target, limit) = next_target zero next
       in andthen (lift (calculateStep p target l r fee input zero))
            (turn zero input next limit r result ft (\<lambda>r result p ft.
               andthen (cross_tick (as_v3 env poolID) zero next ini l) (\<lambda>l.
               quote_loop k (as_v3 env poolID) fee zero input r result p l (if zero then i32 (next - 1) else next) ft))))
      (let next = max minTick (min maxTick next0); (target, limit) = next_target zero next
       in andthen (reading (\<lambda>(s, budget). lift (calculateStep4 p target l r (directed_fee zero s) input zero)))
            (turn zero input next limit r result ft4 (\<lambda>r result p ft.
               andthen (cross_tick4 env poolID zero next ini l) (\<lambda>l.
               quote_loop4 k env poolID zero input r result p l (if zero then i32 (next - 1) else next) ft)))) (s', b')"
    if ext: "extends s s'" and nok: "next_ok s' tick zero next0 ini" for next0 ini s' b'
  proof -
    define nx where "nx = max minTick (min maxTick next0)"
    obtain t lim where tl: "next_target zero nx = (t, lim)" by (cases "next_target zero nx")
    have dir: "if zero then next0 \<le> tick else tick < next0" using nok by (simp add: next_ok_def nearest_def)
    note tgt = next_target_ok [OF inv dir nx_def tl]
    have pre: "step_pre p t l r zero"
      using tgt(1,2) inv car by (auto simp: step_pre_def loop_inv_def carried_def totals_def)
    obtain st st4 where st: "calculateStep p t l r fee input zero = Inr st" "calculateStep4 p t l r fee input zero = Inr st4"
      "same_step fee input st st4" by (rule same_step [OF f pre])
    note step = carried_step [OF car p0 f pre st(1)]
    have fee': "directed_fee zero s' = fee" using extends_fee [OF ext] fee by simp
    have l: "0 \<le> l" "l < 2 ^ 128" using inv by (simp_all add: loop_inv_def)
    have "minTick \<le> nx" "nx \<le> maxTick" by (simp_all add: nx_def)
    then have tb: "\<bar>nx\<bar> < 2 ^ 255" by (simp add: abs_less_iff)
    have "same_run ?R
        (turn zero input nx lim r result ft (\<lambda>r result p ft. andthen (cross_tick (as_v3 env poolID) zero nx ini l) (\<lambda>l.
           quote_loop k (as_v3 env poolID) fee zero input r result p l (if zero then i32 (nx - 1) else nx) ft)) st)
        (turn zero input nx lim r result ft4 (\<lambda>r result p ft. andthen (cross_tick4 env poolID zero nx ini l) (\<lambda>l.
           quote_loop4 k env poolID zero input r result p l (if zero then i32 (nx - 1) else nx) ft)) st4) (s', b')"
    proof (rule same_turn [OF st(3) fts])
      show "price st \<noteq> t \<Longrightarrow> rest_of input r st = 0" using step(2) by (simp add: rest_of_def)
      assume at: "price st = t" "t \<noteq> lim"
        and fts': "same_fees fee input amount (rest_of input r st) (ft + fee_amount st) (ft4 + fee_amount st4)"
      then have nx: "t = sqrtAtTick nx" "minTick < nx" "nx < maxTick" using tgt(3) by auto
      have car': "carried fee zero input p0 amount t (rest_of input r st) (result_of input result st) (ft + fee_amount st)"
        using step(1) unfolding rest_of_def result_of_def at(1) .
      show "same_run ?R
          (andthen (cross_tick (as_v3 env poolID) zero nx ini l) (\<lambda>l. quote_loop k (as_v3 env poolID) fee zero input
             (rest_of input r st) (result_of input result st) t l (if zero then i32 (nx - 1) else nx) (ft + fee_amount st)))
          (andthen (cross_tick4 env poolID zero nx ini l) (\<lambda>l. quote_loop4 k env poolID zero input
             (rest_of input r st) (result_of input result st) t l (if zero then i32 (nx - 1) else nx) (ft4 + fee_amount st4)))
          (s', b')"
        unfolding cross_tick_as_v3
      proof (rule same_run_andthen)
        fix l' z
        assume cross: "cross_tick4 env poolID zero nx ini l (s', b') = (Inr l', z)"
        obtain s'' b'' where z: "z = (s'', b'')" by (cases z)
        have ext': "extends s' s''" and l': "0 \<le> l'" "l' < 2 ^ 128"
          using outcome_InrD [OF cross_tick_outcome [OF env3 tb l] cross [folded cross_tick_as_v3, unfolded z]] by simp_all
        note ext'' = extends_trans [OF ext ext']
        show "same_run ?R (quote_loop k (as_v3 env poolID) fee zero input (rest_of input r st) (result_of input result st) t l'
              (if zero then i32 (nx - 1) else nx) (ft + fee_amount st))
            (quote_loop4 k env poolID zero input (rest_of input r st) (result_of input result st) t l'
              (if zero then i32 (nx - 1) else nx) (ft4 + fee_amount st4)) z"
          unfolding z
          by (rule Suc.IH [OF _ _ _ loop_inv_crossed [OF nx(2,3) l', of zero, folded nx(1)] car' fts'])
            (use sp fee extends_fields [OF ext''] extends_fee [OF ext''] in auto)
      qed
    qed simp
    then show ?thesis
      unfolding Let_def nx_def [symmetric] tl prod.case st(1) andthen_simps
      by (simp add: same_run_def st(2) fee')
  qed
  show ?case
  proof (cases "r \<le> 0 \<or> ctxErr env (2048 - Suc k) \<noteq> None")
    case True
    then show ?thesis unfolding quote_loop_turn quote_loop4_turn by (auto simp: same_run_def)
  next
    case False
    then show ?thesis
      unfolding quote_loop_turn quote_loop4_turn nextTick_as_v3 as_v3_ctxErr
      using outcome_InrD [OF nextTick_outcome [OF env3 sp tick]] after
      by (auto simp: nextTick_as_v3 intro!: same_run_andthen)
  qed
qed simp

lemma quote4_same:
  assumes "env_clean env" and "directed_fee zero s < 1000000" and "sane s" and "0 \<le> amount"
  shows "same_run (\<lambda>(x, ft) (y, ft4). x = y \<and> same_fees (directed_fee zero s) input amount 0 ft ft4)
     (quote (as_v3 env poolID) (directed_fee zero s) amount zero input) (quote4 env poolID amount zero input) (s, b)"
proof -
  have p: "0 < sPrice s" and inv: "loop_inv (sPrice s) (sLiquidity s) (sTick s)"
    and sp: "0 < sSpacing s" "sSpacing s \<le> 32767"
    using assms(3) by (auto simp: sane_def loop_inv_def sqrtAtTick_min)
  have f: "fee_ok (directed_fee zero s)" using assms(2) by (simp add: fee_ok_def)
  have ft: "same_fees (directed_fee zero s) input amount amount 0 0" by (simp add: same_fees_def)
  from quote_loop_same [OF assms(1) f p sp refl inv carried_start [OF p assms(4)] ft, of 2048 poolID b]
  show ?thesis unfolding quote_def quote4_def by (simp add: same_run_def)
qed

section \<open>Results\<close>

text \<open>
  C37. The local quote of a v4 pool (\<open>quote\<close> of v4) refines the one of v3: on a consistent snapshot, with the same answers of the
  node, both read the same state and leave the same snapshot and budget, and either fail with the same error or give the
  same amount. Only the fee that is reported can differ, and only for an exact input, where v3 counts as fee what rounding leaves.
\<close>

theorem quote4_refines_v3:
  assumes "env_clean env" and "directed_fee zero s < 1000000" and "sane s" and "0 \<le> amount"
  shows "case (quote (as_v3 env poolID) (directed_fee zero s) amount zero input (s, budget), quote4 env poolID amount zero input (s, budget)) of
     ((Inr (result, feeTotal), z), (Inr (result4, feeTotal4), z4)) \<Rightarrow>
       result4 = result \<and> z4 = z \<and> feeTotal4 \<le> feeTotal \<and> (input \<or> feeTotal4 = feeTotal)
   | ((Inl e, z), (Inl e4, z4)) \<Rightarrow> e4 = e \<and> z4 = z
   | _ \<Rightarrow> False"
  using quote4_same [OF assms, of input poolID budget]
  by (cases input) (auto simp: same_run_def same_fees_def split: prod.splits sum.splits)

definition quote_ok :: "u32 \<Rightarrow> bool \<Rightarrow> bool \<Rightarrow> int \<Rightarrow> int \<Rightarrow> int \<Rightarrow> int \<Rightarrow> bool" where
  "quote_ok fee zero input p amount result ft \<longleftrightarrow> 0 \<le> ft \<and>
     (if input then 0 \<le> result \<and> amount * uint fee \<le> ft * 1000000 \<and> fair Q96 zero p amount result
      else ft \<le> result \<and> result * uint fee \<le> ft * 1000000 \<and> fair Q96 zero p (result - ft) amount)"

lemma quote4_ok:
  assumes "env_clean env" and "directed_fee zero s < 1000000" and "sane s" and "0 \<le> amount"
  shows "outcome (quote4 env poolID amount zero input) (s, b)
     (\<lambda>(res, ft) (s', b'). quote_ok (directed_fee zero s) zero input (sPrice s) amount res ft \<and> extends s s') clean"
proof -
  let ?fee = "directed_fee zero s"
  obtain r z where r: "quote (as_v3 env poolID) ?fee amount zero input (s, b) = (r, z)" by (metis surj_pair)
  note same = quote4_same [OF assms, of input poolID b, unfolded same_run_def r fst_conv snd_conv]
  note out = quote_outcome [OF as_v3_clean [OF assms(1)] assms(2-4), of poolID zero input b, unfolded outcome_def r, simplified]
  show ?thesis
  proof (cases r)
    case (Inl e)
    then show ?thesis using out same
      by (auto simp: outcome_def split: prod.splits sum.splits)
  next
    case (Inr x)
    obtain res ft where x: "x = (res, ft)" by (cases x)
    obtain ft4 where q: "quote4 env poolID amount zero input (s, b) = (Inr (res, ft4), z)" "same_fees ?fee input amount 0 ft ft4"
      using same Inr x by (cases "quote4 env poolID amount zero input (s, b)") (auto split: sum.splits)
    have post: "quote_post ?fee zero input (sPrice s) amount res ft" using out Inr x by simp
    have "fair Q96 zero (sPrice s) amount res" if input
      using post that by (auto simp: quote_post_def intro: fair_le)
    then have ok: "quote_ok ?fee zero input (sPrice s) amount res ft4"
      using q(2) post by (auto simp: quote_ok_def quote_post_def same_fees_def)
    have none: "\<And>n. ctxErr (env\<lparr>ctxErr := \<lambda>_. None\<rparr>) n = None" by simp
    obtain s' b' where z: "z = (s', b')" by (cases z)
    have "quote_loop 2048 (as_v3 env poolID) ?fee zero input amount 0 (sPrice s) (sLiquidity s) (sTick s) 0 (s, b) = (Inr x, (s', b'))"
      using r Inr z by (simp add: quote_def)
    from replaysD(1) [OF quote_loop_replays [OF none] this] show ?thesis
      using ok q(1) z by (simp add: outcome_def)
  qed
qed

text \<open>
  The local quote of a v4 pool (\<open>quote\<close> of v4) never promises more than the pool can give: on a consistent snapshot
  with a fee below 100%, whatever the node answers, an exact input quote that succeeds charges at least the fee rate of
  the amount and its output is worth at most the amount at the price the swap starts from; an exact
  output quote costs at least the worth of the output plus a fee of at least the rate of the whole. A quote that fails
  fails with an error value, and never with the loop's consistency error.
\<close>

lemma quote4_sound:
  assumes "env_clean env" and "directed_fee zero s < 1000000" and "sane s" and "0 \<le> amount"
  shows "case fst (quote4 env poolID amount zero input (s, budget)) of
     Inr (result, feeTotal) \<Rightarrow>
       0 \<le> feeTotal \<and>
       (if input then 0 \<le> result \<and> amount * uint (directed_fee zero s) \<le> feeTotal * 1000000
           \<and> (if zero then result * (2 ^ 96)\<^sup>2 \<le> amount * (sPrice s)\<^sup>2
              else result * (sPrice s)\<^sup>2 \<le> amount * (2 ^ 96)\<^sup>2)
        else feeTotal \<le> result \<and> result * uint (directed_fee zero s) \<le> feeTotal * 1000000
           \<and> (if zero then amount * (2 ^ 96)\<^sup>2 \<le> (result - feeTotal) * (sPrice s)\<^sup>2
              else amount * (sPrice s)\<^sup>2 \<le> (result - feeTotal) * (2 ^ 96)\<^sup>2))
   | Inl e \<Rightarrow> e \<noteq> Fail ''incomplete_step=invalid'' \<and> \<not> panics (Inl e :: int res)"
proof -
  obtain r z where rz: "quote4 env poolID amount zero input (s, budget) = (r, z)" by (metis surj_pair)
  note out = quote4_ok [OF assms, of poolID input budget, unfolded outcome_def rz, simplified]
  show ?thesis
  proof (cases r)
    case (Inl e)
    with out have "clean e" by simp
    with Inl rz show ?thesis by (auto simp: clean_def panics_def split: failure.splits)
  next
    case (Inr x)
    then obtain res ft where x: "r = Inr (res, ft)" by (cases x) simp
    then have "quote_ok (directed_fee zero s) zero input (sPrice s) amount res ft" using out by (cases z) simp
    then show ?thesis unfolding rz x quote_ok_def fair_def fst_conv sum.case prod.case .
  qed
qed

section \<open>Witnesses\<close>

definition sample_pool4 :: poolSnapshot4 where
  "sample_pool4 = \<lparr>windowCenter = 0, windowCaptured = False, sHeader = \<lparr>hNumber = 7, hHash = empty_hash\<rparr>,
     observed = 0, received = 0, sPrice = 2 ^ 96 + 2 ^ 80, sLiquidity = 10 ^ 18, sTick = 0, sSpacing = 60,
     words = (\<lambda>w. if w = 0 then Some 2 else if w = - 1 then Some (2 ^ 255) else None),
     ticks = [60 \<mapsto> - (10 ^ 18), - 60 \<mapsto> 10 ^ 18], gross = [60 \<mapsto> 10 ^ 18, - 60 \<mapsto> 10 ^ 18], fees = (3000, 500)\<rparr>"

lemma sample_sane4: "sane sample_pool4"
  by (simp add: sane_def loop_inv_def sample_pool4_def sqrtAtTick_0 sqrtAtTick_1 sqrtAtTick_min sqrtAtTick_max)

lemma sample_fee4: "directed_fee True sample_pool4 = 3000" "directed_fee False sample_pool4 = 500"
  by (simp_all add: directed_fee_def sample_pool4_def)

lemma sample_next4: "nextTick env 0 False (sample_pool4, b) = (Inr (60, True), (sample_pool4, b))"
proof -
  have scan: "scan_bits 2 False 1 = Some 1" and cmp: "compress 0 60 = 0" and word: "drop_bit 8 (1::int) = 0"
    and bits: "(1::int) AND 255 = 1"
    by code_simp+
  have "words sample_pool4 0 = Some 2" "sSpacing sample_pool4 = 60" by (simp_all add: sample_pool4_def)
  then show ?thesis by (simp add: nextTick_def bitmap_at_def scan cmp word bits)
qed

lemma sample_bid4:
  "quote (as_v3 offline poolID) (directed_fee False sample_pool4) 1000000 False True (sample_pool4, b)
     = (Inr (999469, 500), (sample_pool4, b))"
proof -
  have t: "next_target False 60 = (sqrtAtTick 60, sqrtAtTick maxTick - 1)" by code_simp
  have 1: "calculateStep (2 ^ 96 + 2 ^ 80) (sqrtAtTick 60) (10 ^ 18) 1000000 500 True False
      = Inr \<lparr>price = 79229371440163140771151663717, in_amount = 999500, out_amount = 999469, fee_amount = 500\<rparr>"
    by code_simp
  show ?thesis
    using quote_one_turn [of "as_v3 offline poolID" sample_pool4 False b 60 True "(sample_pool4, b)" 1000000
      "sqrtAtTick 60" "sqrtAtTick maxTick - 1" 500 True] 1 t sample_next4
    by (simp add: sample_fee4) (simp add: sample_pool4_def offline_def BitLen_gt_def)
qed

lemma sample_quote4: "\<exists>ft. quote4 offline poolID 1000000 False True (sample_pool4, b) = (Inr (999469, ft), (sample_pool4, b)) \<and> ft \<le> 500"
proof -
  have "directed_fee False sample_pool4 < 1000000" by (simp add: sample_fee4)
  from quote4_same [OF offline_clean this sample_sane4, where amount = 1000000 and input = True and poolID = poolID and b = b]
  show ?thesis
    by (cases "quote4 offline poolID 1000000 False True (sample_pool4, b)")
      (auto simp: same_run_def sample_bid4 same_fees_def split: sum.splits)
qed

theorem quote4_refines_v3_witness:
  "\<exists>ft. quote4 offline [] 1000000 False True (sample_pool4, 0) = (Inr (999469, ft), (sample_pool4, 0)) \<and> ft \<le> 500"
  using quote4_refines_v3 [OF offline_clean _ sample_sane4, where zero = False and amount = 1000000 and poolID = "[]"
      and input = True and budget = 0]
  by (auto simp: sample_bid4 [unfolded sample_fee4] sample_fee4 split: prod.splits sum.splits)

lemma quote4_sound_witness: "999469 * (2 ^ 96 + 2 ^ 80)\<^sup>2 \<le> (1000000 :: int) * (2 ^ 96)\<^sup>2"
proof -
  obtain ft where "quote4 offline [] 1000000 False True (sample_pool4, 0) = (Inr (999469, ft), (sample_pool4, 0))"
    using sample_quote4 by blast
  then show ?thesis
    using quote4_sound [OF offline_clean _ sample_sane4, where zero = False and amount = 1000000 and poolID = "[]"
      and input = True and budget = 0]
    by (simp add: sample_fee4 sample_pool4_def)
qed

end
