(* ===== verification/V4_Cache.thy ===== *)
theory V4_Cache
  imports V4_Pool V3_Retained
begin

text \<open>
  \<open>go/venues/uniswap/v4\<close>: the fees of a pool (\<open>pool_fee.go\<close>), the capture of a snapshot, the state cache and its watch
  (\<open>state_cache.go\<close>), the check of a previous quote (\<open>state_check.go\<close>), quotes of frozen inputs (\<open>quote_gross.go\<close>,
  \<open>quote_fee.go\<close>, \<open>retained_quote.go\<close>, \<open>quote_snapshot.go\<close>) and the logs that keep retained inputs up to date
  (\<open>retained_quote.go\<close>). A quote holds the gate from start to end and the mutex \<open>mu\<close> only at its two ends, so it is two
  critical sections with any number of log events between them, which are an argument of the operation.
  Keccak-256, the node, the clock, the cancellation of the context and the order in which Go ranges over a map
  are parameters. Times are integers.
\<close>

unbundle bit_operations_syntax

section \<open>Fees\<close>

record Rates =
  Token0ToToken1 :: u32
  Token1ToToken0 :: u32

definition combine_fee :: "u32 \<Rightarrow> u32 \<Rightarrow> u32" where
  "combine_fee lpFee p = p + lpFee - ucast ((ucast p :: u64) * ucast lpFee div 1000000)"

definition CombinePoolFees :: "u32 \<Rightarrow> u32 \<Rightarrow> Rates res" where
  "CombinePoolFees lpFee protocolFee =
     (if lpFee > 1000000 \<or> drop_bit 24 protocolFee \<noteq> 0 \<or> protocolFee AND 0xfff > 1000 \<or> drop_bit 12 protocolFee > 1000
      then Inl (Fail ''rate=out_of_range'')
      else Inr \<lparr>Token0ToToken1 = combine_fee lpFee (protocolFee AND 0xfff),
                Token1ToToken0 = combine_fee lpFee (drop_bit 12 protocolFee)\<rparr>)"

definition UintWord :: "bytes \<Rightarrow> int \<Rightarrow> int res" where
  "UintWord raw maximum =
     (if length raw \<noteq> 32 then Inl (Fail ''data=invalid'')
      else if \<not> IsUint64 (be_int raw) \<or> be_int raw > maximum then Inl (Fail ''value=out_of_range'')
      else Inr (be_int raw))"

definition DecodeProtocolFee :: "AbiEnv \<Rightarrow> Log \<Rightarrow> u32 res" where
  "DecodeProtocolFee env log =
     (if lRemoved log \<or> length (lTopics log) \<noteq> 2 \<or> length (lData log) \<noteq> 32
         \<or> lTopics log ! 0 \<noteq> keccak env ''ProtocolFeeUpdated(bytes32,uint24)''
      then Inl (Fail ''event=invalid'')
      else ebind (UintWord (lData log) (2 ^ 24 - 1)) (\<lambda>v.
           ebind (CombinePoolFees 0 (word_of_int v)) (\<lambda>_. Inr (word_of_int v))))"

definition ReadPoolFees :: "(bytes \<Rightarrow> bytes res) \<Rightarrow> Hash \<Rightarrow> Address \<Rightarrow> u32 \<Rightarrow> Rates res" where
  "ReadPoolFees getSlot0 poolID hooks lpFee =
     (if hooks \<noteq> empty_address \<or> lpFee > 1000000 then Inl (Sentinel ''unsupported pool fee configuration'')
      else if poolID = empty_hash then Inl (Fail ''pool_id=empty'')
      else
        ebind (getSlot0 poolID) (\<lambda>raw.
        if length raw \<noteq> 128 \<or> be_int (take 32 raw) = 0 \<or> BitLen_gt (be_int (take 32 raw)) 160 then Inl (Fail ''slot0=invalid'')
        else
          ebind (UintWord (take 32 (drop 64 raw)) (2 ^ 24 - 1)) (\<lambda>protocol.
          ebind (UintWord (drop 96 raw) 1000000) (\<lambda>lp.
          if word_of_int lp \<noteq> lpFee then Inl (Fail ''lp_fee=mismatch'')
          else CombinePoolFees lpFee (word_of_int protocol)))))"

text \<open>The loop over the two directions, in \<open>capture\<close> and in \<open>applyRetainedLogMode\<close>.\<close>

definition packed_fees :: "u32 \<Rightarrow> int \<Rightarrow> (u32 \<times> u32) res" where
  "packed_fees lpFee protocol =
     (let packed = word_of_int protocol :: u32
      in if packed AND 0xfff > 1000 \<or> drop_bit 12 packed > 1000 then Inl (Fail ''protocol_fee=out_of_range'')
         else Inr (combine_fee lpFee (packed AND 0xfff), combine_fee lpFee (drop_bit 12 packed)))"

section \<open>State\<close>

record PoolConfig =
  PoolManager :: Address
  StateView :: Address
  Currency0 :: Address
  Currency1 :: Address
  Hooks :: Address
  Fee :: u32
  TickSpacing :: int

record cache_config4 =
  pool :: Address
  poolID :: Hash
  lp_fee :: u32
  key_spacing :: int
  maxAge :: int

record StateCache4 =
  generation :: u64
  active :: bool
  running :: bool
  floor_block :: u64
  floorHash :: Hash
  covered :: BlockHeader
  verificationEpoch :: u64
  snapshot :: "poolSnapshot4 option"
  cachedGeneration :: u64
  retained4 :: "poolSnapshot4 option"
  retainedBlock4 :: u64
  retainedHash4 :: Hash
  retainedIndex4 :: u64
  retainedHasLog4 :: bool
  journal4 :: Journal

text \<open>Addresses have equal lengths, so \<open>bytes.Compare\<close> orders them as numbers. The hooks are the zero address in the key.\<close>

definition NewStateCache4 :: "(bytes \<Rightarrow> Hash) \<Rightarrow> PoolConfig \<Rightarrow> int \<Rightarrow> (cache_config4 \<times> StateCache4) res" where
  "NewStateCache4 keccak256 config age =
     (if PoolManager config = empty_address \<or> StateView config = empty_address
         \<or> be_int (Currency0 config) \<ge> be_int (Currency1 config) \<or> TickSpacing config < 1 \<or> TickSpacing config > 32767 \<or> age \<le> 0
      then Inl (Fail ''configuration=invalid'')
      else if Hooks config \<noteq> empty_address \<or> Fee config \<ge> 1000000 then Inl (Fail ''hooks_or_fee=unsupported'')
      else
        (let encoded = replicate 12 0 @ Currency0 config @ replicate 12 0 @ Currency1 config
                       @ be_bytes 32 (uint (Fee config)) @ be_bytes 32 (TickSpacing config) @ replicate 32 0
         in Inr (\<lparr>pool = PoolManager config, poolID = keccak256 encoded, lp_fee = Fee config,
                  key_spacing = TickSpacing config, maxAge = age\<rparr>,
                 \<lparr>generation = 0, active = False, running = False, floor_block = 0, floorHash = empty_hash,
                  covered = \<lparr>hNumber = 0, hHash = empty_hash\<rparr>, verificationEpoch = 0, snapshot = None, cachedGeneration = 0,
                  retained4 = None, retainedBlock4 = 0, retainedHash4 = empty_hash, retainedIndex4 = 0, retainedHasLog4 = False,
                  journal4 = empty_journal\<rparr>)))"

section \<open>Capturing a snapshot\<close>

text \<open>
  One call of a public operation: the environment of v3's reads, the two header reads (\<open>byNumber\<close> is also told which of the
  reads of the operation it answers), the times at which the clock is read, the errors of the context, and the log events that
  arrive between the critical sections.
\<close>

datatype watch_event4 = Started | Subscribed | Notified Log | Stopped

record call4 =
  call_env :: Env
  latest :: "BlockHeader res"
  byNumber :: "nat \<Rightarrow> u64 \<Rightarrow> BlockHeader res"
  at_start :: int
  at_observed :: int
  at_received :: int
  at_end :: int
  ctx_gate :: "failure option"
  ctx_late :: "failure option"
  during :: "watch_event4 list"

definition errStateChanged :: failure where
  "errStateChanged = Sentinel ''quote state changed''"

definition signedWord :: "bytes \<Rightarrow> int" where
  "signedWord data = (let n = be_int data in if bit n 255 then n - power2 256 else n)"

definition capture_header :: "call4 \<Rightarrow> u64 \<Rightarrow> Hash \<Rightarrow> BlockHeader res" where
  "capture_header k floor hash =
     ebind (latest k) (\<lambda>header.
     if hHash header = empty_hash then Inl (Fail ''block_hash=empty'')
     else if hNumber header < floor then
       (if hash = empty_hash then Inl errStateChanged
        else
          ebind (byNumber k 0 floor) (\<lambda>header.
          if hNumber header \<noteq> floor \<or> hHash header \<noteq> hash then Inl (Fail ''block=mismatch'') else Inr header))
     else Inr header)"

definition decode_slot0 :: "u32 \<Rightarrow> bytes \<Rightarrow> (int \<times> int \<times> u32 \<times> u32) res" where
  "decode_slot0 lpFee data =
     (if length data \<noteq> 128 then Inl (Fail ''slot0=invalid'')
      else
        (let price = be_int (take 32 data); tick = signedWord (take 32 (drop 32 data));
             protocol = be_int (take 32 (drop 64 data)); lp = be_int (drop 96 data)
         in if tick < - 887272 \<or> tick > 887272 \<or> price < sqrtAtTick (- 887272) \<or> price \<ge> sqrtAtTick 887272
               \<or> BitLen_gt protocol 24 \<or> \<not> IsUint64 lp \<or> lp \<noteq> uint lpFee
            then Inl (Fail ''slot0=invalid'')
            else ebind (packed_fees lpFee protocol) (\<lambda>fees. Inr (price, tick, fees))))"

definition decode_active_liquidity :: "bytes \<Rightarrow> int res" where
  "decode_active_liquidity data =
     (if length data \<noteq> 32 \<or> BitLen_gt (be_int data) 128 then Inl (Fail ''liquidity=out_of_range'') else Inr (be_int data))"

definition fresh_snapshot :: "call4 \<Rightarrow> BlockHeader \<Rightarrow> poolSnapshot4" where
  "fresh_snapshot k header =
     \<lparr>windowCenter = 0, windowCaptured = False, sHeader = header, observed = at_observed k, received = 0, sPrice = 0,
      sLiquidity = 0, sTick = 0, sSpacing = 0, words = Map.empty, ticks = Map.empty, gross = Map.empty, fees = (0, 0)\<rparr>"

definition capture4 :: "cache_config4 \<Rightarrow> call4 \<Rightarrow> u64 \<Rightarrow> Hash \<Rightarrow> (int, poolSnapshot4) proc" where
  "capture4 cfg k floor hash budget =
     (case capture_header k floor hash of Inl e \<Rightarrow> (Inl e, budget)
      | Inr header \<Rightarrow>
          (case (andthen (read4 (call_env k) (poolID cfg) ''getSlot0(bytes32)'' None) (\<lambda>data.
                 andthen (lift (decode_slot0 (lp_fee cfg) data)) (\<lambda>(price, tick, fs).
                 andthen (read4 (call_env k) (poolID cfg) ''getLiquidity(bytes32)'' None) (\<lambda>data.
                 andthen (lift (decode_active_liquidity data)) (\<lambda>l.
                 reading (\<lambda>(s, _). ret (s\<lparr>sPrice := price, sTick := tick, fees := fs, sLiquidity := l,
                   sSpacing := key_spacing cfg, received := at_received k\<rparr>))))))) (fresh_snapshot k header, budget) of
             (r, (_, budget)) \<Rightarrow> (r, budget)))"

section \<open>Watching the logs\<close>

text \<open>
  \<open>run\<close> without a bootstrap: \<open>Started\<close> takes the running flag, \<open>Subscribed\<close> and the deferred \<open>Stopped\<close> invalidate, and so does every
  log of the pool except those of the block that the last verified snapshot was taken at.
\<close>

definition watch4 :: "cache_config4 \<Rightarrow> watch_event4 \<Rightarrow> (StateCache4, unit) proc" where
  "watch4 cfg ev =
     (case ev of
        Started \<Rightarrow> reading (\<lambda>c. if running c then throw (Fail ''subscription=active'') else update (\<lambda>c. c\<lparr>running := True\<rparr>))
      | Subscribed \<Rightarrow> update (\<lambda>c. c\<lparr>active := True, floorHash := empty_hash, generation := generation c + 1\<rparr>)
      | Stopped \<Rightarrow>
          update (\<lambda>c. c\<lparr>active := False, floorHash := empty_hash, generation := generation c + 1, running := False\<rparr>)
      | Notified log \<Rightarrow>
          (if lAddress log \<noteq> pool cfg \<or> length (lTopics log) < 2 \<or> lTopics log ! 1 \<noteq> poolID cfg then ret ()
           else update (\<lambda>c.
             if \<not> lRemoved log \<and> lBlockHash log \<noteq> empty_hash \<and> lBlockNumber log = hNumber (covered c)
                \<and> lBlockHash log = hHash (covered c)
             then c
             else
               (let c = c\<lparr>generation := generation c + 1\<rparr>;
                    c = (if lBlockNumber log \<ge> floor_block c
                         then c\<lparr>floor_block := lBlockNumber log, floorHash := lBlockHash log\<rparr> else c)
                in if lRemoved log then c\<lparr>verificationEpoch := verificationEpoch c + 1, floorHash := empty_hash\<rparr> else c))))"

definition watched4 :: "cache_config4 \<Rightarrow> watch_event4 list \<Rightarrow> StateCache4 \<Rightarrow> StateCache4" where
  "watched4 cfg evs c = fold (\<lambda>ev c. snd (watch4 cfg ev c)) evs c"

section \<open>A pair of quotes\<close>

record LocalPair4 =
  BidAmountOut :: int
  AskAmountIn :: int
  pairBlockNumber :: u64
  pairBlockHash :: Hash
  pairReceivedAt :: int
  pairObservedAt :: int

definition reusable4 :: "cache_config4 \<Rightarrow> call4 \<Rightarrow> StateCache4 \<Rightarrow> poolSnapshot4 option" where
  "reusable4 cfg k c =
     (case snapshot c of None \<Rightarrow> None
      | Some s \<Rightarrow> if \<not> active c \<or> generation c \<noteq> cachedGeneration c \<or> at_start k - observed s \<ge> maxAge cfg then None else Some s)"

definition verify_block :: "call4 \<Rightarrow> nat \<Rightarrow> BlockHeader \<Rightarrow> unit res" where
  "verify_block k n h =
     ebind (byNumber k n (hNumber h)) (\<lambda>header.
     if hNumber header \<noteq> hNumber h \<or> hHash header \<noteq> hHash h then Inl (Fail ''block_hash=mismatch'') else Inr ())"

text \<open>The work between the two critical sections, from the state that the first one saw.\<close>

definition calculate_pair :: "cache_config4 \<Rightarrow> call4 \<Rightarrow> StateCache4 \<Rightarrow> int \<Rightarrow> bool \<Rightarrow> (poolSnapshot4 \<times> int \<times> int) res" where
  "calculate_pair cfg k c amount baseIsToken0 =
     (let hash = (if active c then floorHash c else empty_hash);
          got = (case reusable4 cfg k c of Some s \<Rightarrow> (Inr s, 64) | None \<Rightarrow> capture4 cfg k (floor_block c) hash 64)
      in ebind (fst got) (\<lambda>s.
         if hNumber (sHeader s) < floor_block c then Inl errStateChanged
         else
           (case quote4 (call_env k) (poolID cfg) amount baseIsToken0 True (s, snd got) of (Inl e, _) \<Rightarrow> Inl e
            | (Inr (bid, _), z) \<Rightarrow>
                (case quote4 (call_env k) (poolID cfg) amount (\<not> baseIsToken0) False z of (Inl e, _) \<Rightarrow> Inl e
                 | (Inr (ask, _), (s, budget)) \<Rightarrow>
                     ebind (if budget < 64 then verify_block k 1 (sHeader s) else Inr ()) (\<lambda>_. Inr (s, bid, ask))))))"

definition QuotePair4 :: "cache_config4 \<Rightarrow> call4 \<Rightarrow> int option \<Rightarrow> bool \<Rightarrow> (StateCache4, LocalPair4) proc" where
  "QuotePair4 cfg k amount baseIsToken0 = (\<lambda>c0.
     let c1 = watched4 cfg (during k) c0; gen = generation c0
     in (case amount of None \<Rightarrow> (Inl (Fail ''amount=out_of_range''), c1)
         | Some a \<Rightarrow>
             if a \<le> 0 \<or> BitLen_gt a 128 then (Inl (Fail ''amount=out_of_range''), c1)
             else case ctx_gate k of Some e \<Rightarrow> (Inl e, c1)
             | None \<Rightarrow>
                 (case calculate_pair cfg k c0 a baseIsToken0 of Inl e \<Rightarrow> (Inl e, c1\<lparr>snapshot := None\<rparr>)
                  | Inr (s, bid, ask) \<Rightarrow>
                      (let changed = (gen \<noteq> generation c1);
                           c2 = (if changed then c1
                                 else c1\<lparr>covered := sHeader s, retained4 := Some s, retainedBlock4 := hNumber (sHeader s),
                                         retainedHash4 := hHash (sHeader s), retainedHasLog4 := False\<rparr>)
                       in if changed \<or> at_end k - observed s \<ge> maxAge cfg then (Inl errStateChanged, c2\<lparr>snapshot := None\<rparr>)
                          else (Inr \<lparr>BidAmountOut = bid, AskAmountIn = ask, pairBlockNumber = hNumber (sHeader s),
                                     pairBlockHash = hHash (sHeader s), pairReceivedAt = received s, pairObservedAt = observed s\<rparr>,
                                c2\<lparr>snapshot := Some s, cachedGeneration := gen\<rparr>)))))"

section \<open>Checking a previous quote\<close>

record Check4 =
  Revision4 :: u64
  Key4 :: string
  Position4 :: u64
  CheckedAt4 :: int

record check_env =
  ranging :: "(int \<rightharpoonup> int) \<Rightarrow> int list"
  digest :: "u64 \<Rightarrow> poolSnapshot4 \<Rightarrow> string res"

text \<open>Reading again every bitmap word and every initialized tick that the previous quote used.\<close>

fun read_words :: "Env \<Rightarrow> Hash \<Rightarrow> int list \<Rightarrow> (poolSnapshot4 \<times> int, unit) proc" where
  "read_words env pid [] = ret ()"
| "read_words env pid (w # ws) =
     andthen (read4 env pid ''getTickBitmap(bytes32,int16)'' (Some w)) (\<lambda>data.
     if length data \<noteq> 32 then throw (Fail ''bitmap=invalid'')
     else andthen (update (\<lambda>(s, budget). (s\<lparr>words := (words s)(w \<mapsto> be_int data)\<rparr>, budget))) (\<lambda>_. read_words env pid ws))"

fun read_ticks :: "Env \<Rightarrow> Hash \<Rightarrow> int list \<Rightarrow> (poolSnapshot4 \<times> int, unit) proc" where
  "read_ticks env pid [] = ret ()"
| "read_ticks env pid (t # ts) =
     reading (\<lambda>(s, budget).
       if sSpacing s = 0 then throw (Panic ''division by zero'')
       else
         (let compressed = compress t (sSpacing s)
          in case words s (drop_bit 8 compressed) of
               None \<Rightarrow> read_ticks env pid ts
             | Some word \<Rightarrow>
                 if \<not> bit word (nat (compressed AND 255)) then read_ticks env pid ts
                 else andthen (liquidityNet4 env pid t) (\<lambda>_. read_ticks env pid ts)))"

definition refreshed :: "cache_config4 \<Rightarrow> check_env \<Rightarrow> call4 \<Rightarrow> StateCache4 \<Rightarrow> poolSnapshot4 res" where
  "refreshed cfg ce k c =
     (case capture4 cfg k (floor_block c) (floorHash c) 256 of (Inl e, _) \<Rightarrow> Inl e
      | (Inr fresh, budget) \<Rightarrow>
          (case snapshot c of None \<Rightarrow> Inr fresh
           | Some old \<Rightarrow>
               if hNumber (sHeader fresh) < hNumber (sHeader old) then Inl (Fail ''block=regressed'')
               else
                 (case andthen (read_words (call_env k) (poolID cfg) (ranging ce (words old)))
                         (\<lambda>_. read_ticks (call_env k) (poolID cfg) (ranging ce (ticks old))) (fresh, budget) of
                    (Inl e, _) \<Rightarrow> Inl e
                  | (Inr _, (s, _)) \<Rightarrow> Inr s)))"

text \<open>Whether the block of the previous quote has been replaced.\<close>

definition reorganised :: "call4 \<Rightarrow> BlockHeader \<Rightarrow> poolSnapshot4 option \<Rightarrow> bool res" where
  "reorganised k header previous =
     (case previous of None \<Rightarrow> Inr False
      | Some old \<Rightarrow>
          ebind (if hNumber (sHeader old) \<noteq> hNumber header
                 then ebind (byNumber k 2 (hNumber (sHeader old))) (\<lambda>canonical.
                      if hNumber canonical \<noteq> hNumber (sHeader old) then Inl (Fail ''number=mismatch'') else Inr canonical)
                 else Inr header) (\<lambda>canonical. Inr (hHash canonical \<noteq> hHash (sHeader old))))"

definition CheckState4 :: "cache_config4 \<Rightarrow> check_env \<Rightarrow> call4 \<Rightarrow> (StateCache4, Check4) proc" where
  "CheckState4 cfg ce k = (\<lambda>c0.
     let c1 = watched4 cfg (during k) c0; gen = generation c0
     in (case ctx_gate k of Some e \<Rightarrow> (Inl e, c1)
         | None \<Rightarrow>
             (case ebind (refreshed cfg ce k c0) (\<lambda>fresh.
                   ebind (byNumber k 1 (hNumber (sHeader fresh))) (\<lambda>header.
                   if hHash header \<noteq> hHash (sHeader fresh) \<or> hNumber header \<noteq> hNumber (sHeader fresh)
                   then Inl (Fail ''block_hash=mismatch'')
                   else case ctx_late k of Some e \<Rightarrow> Inl e
                   | None \<Rightarrow> ebind (reorganised k header (snapshot c0)) (\<lambda>reorg. Inr (fresh, reorg)))) of
                Inl e \<Rightarrow> (Inl e, c1\<lparr>snapshot := None\<rparr>)
              | Inr (fresh, reorg) \<Rightarrow>
                  if gen \<noteq> generation c1 then (Inl errStateChanged, c1\<lparr>snapshot := None\<rparr>)
                  else
                    (let c2 = (if reorg then c1\<lparr>verificationEpoch := verificationEpoch c1 + 1\<rparr> else c1)
                     in case digest ce (verificationEpoch c2) fresh of Inl e \<Rightarrow> (Inl e, c2\<lparr>snapshot := None\<rparr>)
                        | Inr key \<Rightarrow>
                            (Inr \<lparr>Revision4 = gen, Key4 = key, Position4 = hNumber (sHeader fresh), CheckedAt4 = at_start k\<rparr>,
                             c2\<lparr>snapshot := Some fresh, covered := sHeader fresh, cachedGeneration := gen\<rparr>)))))"

definition CheckCurrent4 :: "StateCache4 \<Rightarrow> Check4 \<Rightarrow> bool" where
  "CheckCurrent4 c check \<longleftrightarrow> Key4 check \<noteq> [] \<and> Position4 check \<noteq> 0 \<and> generation c = Revision4 check"

section \<open>Quotes of frozen inputs\<close>

text \<open>
  Quotes of frozen inputs run on a clone with no read budget. \<open>before\<close> and \<open>after\<close> are what the context reports.
\<close>

definition frozen4 :: "failure option \<Rightarrow> poolSnapshot4 option \<Rightarrow> int option \<Rightarrow> (poolSnapshot4 \<Rightarrow> int \<Rightarrow> 'a res) \<Rightarrow> 'a res" where
  "frozen4 before inputs amount calc =
     (case amount of None \<Rightarrow> Inl (Fail ''amount=out_of_range'')
      | Some a \<Rightarrow>
        if a \<le> 0 \<or> BitLen_gt a 128 then Inl (Fail ''amount=out_of_range'')
        else case before of Some e \<Rightarrow> Inl e
        | None \<Rightarrow> (case inputs of None \<Rightarrow> Inl (Fail ''snapshot=null'') | Some s \<Rightarrow> calc s a))"

definition QuoteRetainedPair4 :: "Env \<Rightarrow> Hash \<Rightarrow> failure option \<Rightarrow> failure option \<Rightarrow> poolSnapshot4 option \<Rightarrow> int option \<Rightarrow> bool \<Rightarrow> LocalPair4 res" where
  "QuoteRetainedPair4 env pid before after inputs amount baseIsToken0 =
     frozen4 before inputs amount (\<lambda>s a. fst (
       andthen (quote4 env pid a baseIsToken0 True) (\<lambda>(bid, _).
       andthen (quote4 env pid a (\<not> baseIsToken0) False) (\<lambda>(ask, _).
       case after of Some e \<Rightarrow> throw e
       | None \<Rightarrow> ret \<lparr>BidAmountOut = bid, AskAmountIn = ask, pairBlockNumber = hNumber (sHeader s), pairBlockHash = hHash (sHeader s),
                     pairReceivedAt = received s, pairObservedAt = observed s\<rparr>)) (s, 0)))"

definition no_fees :: "(poolSnapshot4 \<times> int, unit) proc" where
  "no_fees = update (\<lambda>(s, _). (s\<lparr>fees := (0, 0)\<rparr>, 0))"

text \<open>The calculation without fees is made with an empty cache, hence with the zero pool id; it never reads.\<close>

definition QuoteGrossPair4 :: "Env \<Rightarrow> failure option \<Rightarrow> poolSnapshot4 option \<Rightarrow> int option \<Rightarrow> bool \<Rightarrow> GrossPair res" where
  "QuoteGrossPair4 env before inputs amount baseIsToken0 =
     frozen4 before inputs amount (\<lambda>s a. fst (
       andthen (quote4 env empty_hash a baseIsToken0 True) (\<lambda>(_, bidFee).
       andthen (quote4 env empty_hash a (\<not> baseIsToken0) False) (\<lambda>(_, askFee).
       andthen no_fees (\<lambda>_.
       andthen (quote4 env empty_hash a baseIsToken0 True) (\<lambda>(bid, _).
       andthen (quote4 env empty_hash a (\<not> baseIsToken0) False) (\<lambda>(ask, _).
       ret \<lparr>gpBidAmountOut = bid, gpAskAmountIn = ask, gpBidFeeAmount = bidFee, gpAskFeeAmount = askFee\<rparr>))))) (s, 0)))"

definition QuoteGrossExactInput4 :: "Env \<Rightarrow> failure option \<Rightarrow> poolSnapshot4 option \<Rightarrow> int option \<Rightarrow> bool \<Rightarrow> GrossExactInput res" where
  "QuoteGrossExactInput4 env before inputs amount inputIsToken0 =
     frozen4 before inputs amount (\<lambda>s a. fst (
       andthen (quote4 env empty_hash a inputIsToken0 True) (\<lambda>(net, feeAmount).
       andthen no_fees (\<lambda>_.
       andthen (quote4 env empty_hash a inputIsToken0 True) (\<lambda>(bid, _).
       ret \<lparr>geAmountOut = bid, geNetAmountOut = net, geFeeAmount = feeAmount\<rparr>))) (s, 0)))"

definition SwapFeePPM4 :: "poolSnapshot4 option \<Rightarrow> bool \<Rightarrow> u32 res" where
  "SwapFeePPM4 inputs inputIsToken0 =
     (case inputs of None \<Rightarrow> Inl (Fail ''snapshot=null'')
      | Some s \<Rightarrow>
          (let fee = ucast (directed_fee inputIsToken0 s) :: u64
           in if fee \<ge> 1000000 then Inl (Fail ''fee=out_of_range'') else Inr (ucast fee)))"

section \<open>Applying logs\<close>

text \<open>
  What \<open>applyRetainedLiquidity\<close> does at the two boundary ticks is, line by line, the loop of v3: \<open>retain_tick\<close>.
  The order of live notifications (\<open>retained_log_order.go\<close>) is the one of \<open>V3_Retained\<close> too.
\<close>

definition swapSignature4 :: string where
  "swapSignature4 = ''Swap(bytes32,address,int128,int128,uint160,uint128,int24,uint24)''"

definition decode_modify :: "int \<Rightarrow> Log \<Rightarrow> (int \<times> int \<times> int) res" where
  "decode_modify spacing log =
     (if length (lTopics log) \<noteq> 3 \<or> length (lData log) \<noteq> 128 then Inl (Fail ''event=invalid'')
      else
        (let lower = signedWord (slice (lData log) 0 32); upper = signedWord (slice (lData log) 32 64);
             delta = signedWord (slice (lData log) 64 96)
         in if lower < - 887272 \<or> upper > 887272 \<or> lower \<ge> upper \<or> spacing \<le> 0 then Inl (Fail ''tick_range=invalid'')
            else if lower smod spacing \<noteq> 0 \<or> upper smod spacing \<noteq> 0 \<or> delta < - power2 127 \<or> delta \<ge> power2 127
            then Inl (Fail ''range=invalid'')
            else Inr (lower, upper, delta)))"

definition applyRetainedLiquidity4 :: "poolSnapshot4 \<Rightarrow> Log \<Rightarrow> poolSnapshot4 res" where
  "applyRetainedLiquidity4 s log =
     ebind (decode_modify (sSpacing s) log) (\<lambda>(lower, upper, delta).
       if delta = 0 then Inr s
       else
         (let mint = (delta > 0)
          in ebind (if sTick s \<ge> lower \<and> sTick s < upper
                    then (let liquidity = sLiquidity s + delta
                          in if liquidity < 0 \<or> BitLen_gt liquidity 128 then Inl (Fail ''liquidity=out_of_range'')
                             else Inr (s\<lparr>sLiquidity := liquidity\<rparr>))
                    else Inr s) (\<lambda>s.
             ebind (retain_tick mint delta True lower s) (\<lambda>s.
             retain_tick mint delta False upper s))))"

definition apply_swap4 :: "poolSnapshot4 \<Rightarrow> Log \<Rightarrow> poolSnapshot4 res" where
  "apply_swap4 s log =
     (if length (lTopics log) \<noteq> 3 \<or> length (lData log) \<noteq> 192 then Inl (Fail ''invalid swap encoding'')
      else
        (let price = be_int (slice (lData log) 64 96); liquidity = be_int (slice (lData log) 96 128);
             tick = signedWord (slice (lData log) 128 160); fee = be_int (slice (lData log) 160 192)
         in if price < sqrtAtTick (- 887272) \<or> price \<ge> sqrtAtTick 887272 \<or> BitLen_gt liquidity 128
               \<or> tick < - 887272 \<or> tick > 887272 \<or> \<not> IsUint64 fee
            then Inl (Fail ''invalid swap fields'')
            else if fee \<noteq> uint (fst (fees s)) \<and> fee \<noteq> uint (snd (fees s)) then Inl (Fail ''swap fee mismatch'')
            else Inr (s\<lparr>sPrice := price, sLiquidity := liquidity, sTick := tick\<rparr>)))"

definition apply_protocol_fee4 :: "u32 \<Rightarrow> poolSnapshot4 \<Rightarrow> Log \<Rightarrow> poolSnapshot4 res" where
  "apply_protocol_fee4 lpFee s log =
     (if length (lTopics log) \<noteq> 2 \<or> length (lData log) \<noteq> 32 then Inl (Fail ''invalid protocol fee encoding'')
      else if BitLen_gt (be_int (lData log)) 24 then Inl (Fail ''invalid protocol fee width'')
      else ebind (packed_fees lpFee (be_int (lData log))) (\<lambda>fs. Inr (s\<lparr>fees := fs\<rparr>)))"

definition retained_event4 :: "AbiEnv \<Rightarrow> u32 \<Rightarrow> poolSnapshot4 \<Rightarrow> Log \<Rightarrow> poolSnapshot4 res" where
  "retained_event4 env lpFee s log =
     (let topic = lTopics log ! 0
      in if topic = keccak env swapSignature4 then apply_swap4 s log
         else if topic = keccak env ''ModifyLiquidity(bytes32,address,int24,int24,int256,bytes32)'' then applyRetainedLiquidity4 s log
         else if topic = keccak env ''ProtocolFeeUpdated(bytes32,uint24)'' then apply_protocol_fee4 lpFee s log
         else if topic = keccak env ''Donate(bytes32,address,uint256,uint256)'' then
           (if length (lTopics log) \<noteq> 3 \<or> length (lData log) \<noteq> 64 then Inl (Fail ''invalid donate encoding'') else Inr s)
         else Inl (Fail ''unsupported event''))"

definition replay_check4 :: "StateCache4 \<Rightarrow> poolSnapshot4 \<Rightarrow> Log \<Rightarrow> bool res" where
  "replay_check4 c s log =
     (let baseline = sHeader s
      in if lBlockNumber log < hNumber baseline then Inr False
         else if lBlockNumber log = hNumber baseline then
           (if lBlockHash log \<noteq> hHash baseline then Inl (Fail ''baseline block hash mismatch'') else Inr False)
         else if retainedHasLog4 c \<and> (lBlockNumber log < retainedBlock4 c \<or>
                lBlockNumber log = retainedBlock4 c \<and> (lBlockHash log \<noteq> retainedHash4 c \<or> lIndex log \<le> retainedIndex4 c))
         then Inl (Fail ''out of order or conflicting log'')
         else Inr True)"

definition applyRetainedLogMode4 :: "(bytes \<Rightarrow> bytes) \<Rightarrow> AbiEnv \<Rightarrow> u32 \<Rightarrow> Log \<Rightarrow> bool \<Rightarrow> int \<Rightarrow> (StateCache4, unit) proc" where
  "applyRetainedLogMode4 sha env lpFee log live at_time =
     (let fail = (\<lambda>e. andthen (update (\<lambda>c. c\<lparr>retained4 := None\<rparr>)) (\<lambda>_. throw e))
      in if live \<and> lRemoved log then ret ()
         else if lRemoved log \<or> lBlockHash log = empty_hash then fail (Fail ''invalid log position'')
         else reading (\<lambda>c. case retained4 c of
           None \<Rightarrow> fail (Fail ''missing snapshot'')
         | Some s \<Rightarrow>
             (case (if live then Inr True else replay_check4 c s log) of
                Inl e \<Rightarrow> fail e
              | Inr False \<Rightarrow> ret ()
              | Inr True \<Rightarrow>
                  (if lTopics log = [] then fail (Fail ''missing event topics'')
                   else case retained_event4 env lpFee s log of
                     Inl e \<Rightarrow> fail e
                   | Inr s' \<Rightarrow>
                       update (\<lambda>c. c\<lparr>retained4 := Some (if at_time > received s' then s'\<lparr>received := at_time\<rparr> else s'),
                         retainedBlock4 := lBlockNumber log, retainedHash4 := lBlockHash log,
                         retainedIndex4 := lIndex log, retainedHasLog4 := True,
                         journal4 := Record sha log (journal4 c)\<rparr>)))))"

definition applyRetainedLog4 :: "(bytes \<Rightarrow> bytes) \<Rightarrow> AbiEnv \<Rightarrow> u32 \<Rightarrow> Log \<Rightarrow> int \<Rightarrow> (StateCache4, unit) proc" where
  "applyRetainedLog4 sha env lpFee log at_time = applyRetainedLogMode4 sha env lpFee log False at_time"

definition applyLiveRetainedLog4 :: "(bytes \<Rightarrow> bytes) \<Rightarrow> AbiEnv \<Rightarrow> u32 \<Rightarrow> Log \<Rightarrow> int \<Rightarrow> (StateCache4, unit) proc" where
  "applyLiveRetainedLog4 sha env lpFee log at_time =
     (if lRemoved log then ret ()
      else reading (\<lambda>previous c. case applyRetainedLogMode4 sha env lpFee log True at_time c of
             (Inl e, c') \<Rightarrow> (Inl e, c'\<lparr>retained4 := retained4 previous\<rparr>)
           | (Inr u, c') \<Rightarrow> (Inr u, c')))"

section \<open>The fee of a direction\<close>

lemma uint_combine:
  assumes "uint f \<le> 1000000" and "uint p \<le> 1000"
  shows "uint (combine_fee f p) = 1000000 - (1000000 - uint p) * (1000000 - uint f) div 1000000"
proof -
  have ux: "uint (ucast x :: u64) = uint x" for x :: u32 by (simp add: uint_up_ucast is_up)
  have pf: "0 \<le> uint p * uint f" by simp
  have "uint p * uint f \<le> 1000 * 1000000" using assms by (intro mult_mono) simp_all
  then have small: "uint p * uint f \<le> 1000000000" by simp
  have share: "uint (ucast p * ucast f div 1000000 :: u64) = uint p * uint f div 1000000"
    using pf small by (simp add: uint_div uint_mult_lem ux uint_word_ariths take_bit_int_eq_self)
  define q where "q = uint p * uint f div 1000000"
  have q: "0 \<le> q" "q \<le> 1000" unfolding q_def using pf small by (simp_all add: pos_imp_zdiv_nonneg_iff)
  have low: "uint (ucast (ucast p * ucast f div 1000000 :: u64) :: u32) = q"
    using q share by (simp add: unsigned_ucast_eq take_bit_int_eq_self q_def)
  have "uint p * uint f \<le> 1000000 * uint p" using mult_left_mono [OF assms(1), of "uint p"] by (simp add: mult.commute)
  then have "q \<le> uint p" unfolding q_def by simp
  then have qp: "q \<le> uint p + uint f" by (simp add: add_increasing2)
  have sum: "uint (p + f) = uint p + uint f" using assms by (simp add: uint_plus_if')
  have "uint (combine_fee f p) = uint p + uint f - q"
    unfolding combine_fee_def using qp sum low by (simp add: uint_sub_if' combine_fee_def)
  moreover have "(1000000 - uint p) * (1000000 - uint f) = uint p * uint f + (1000000 - uint p - uint f) * 1000000"
    by (simp add: algebra_simps)
  then have "(1000000 - uint p) * (1000000 - uint f) div 1000000 = q + (1000000 - uint p - uint f)"
    unfolding q_def by (simp only: div_mult_self1)
  ultimately show ?thesis by simp
qed

definition fee_of :: "u32 \<Rightarrow> u32 \<Rightarrow> bool" where
  "fee_of lpFee fee \<longleftrightarrow> (\<exists>p. uint p \<le> 1000 \<and> fee = combine_fee lpFee p)"

lemma fee_of_bounds:
  assumes "fee_of f fee" and "uint f \<le> 999998"
  shows "fee < 1000000"
proof -
  obtain p where p: "uint p \<le> 1000" "fee = combine_fee f p" using assms(1) by (auto simp: fee_of_def)
  have "999000 * 2 \<le> (1000000 - uint p) * (1000000 - uint f)" using p assms(2) by (intro mult_mono) simp_all
  then have "1 \<le> (1000000 - uint p) * (1000000 - uint f) div 1000000" by (simp add: le_div_iff_mult_le)
  then show ?thesis using uint_combine [of f p] p assms(2) by (simp add: word_less_def)
qed

lemma packed_fees_of: "packed_fees f protocol = Inr fs \<Longrightarrow> fee_of f (fst fs) \<and> fee_of f (snd fs)"
  by (auto simp: packed_fees_def fee_of_def Let_def word_less_def not_less split: if_splits)

text \<open>
  The fee of a direction (\<open>CombinePoolFees\<close>) is the compound of the two cuts: of a million units, the protocol takes its
  share and the liquidity providers take theirs of the rest, and what is left over is rounded down against the trader.
  No \<open>uint32\<close> product or difference wraps. It is at least the LP fee, and below 100% unless the
  two cuts leave nothing of a million, which with the contract's limit of 1000 for the protocol needs an LP fee above 999998.
\<close>

lemma CombinePoolFees_compound:
  assumes "CombinePoolFees lpFee protocolFee = Inr r"
  shows "uint (Token0ToToken1 r) = 1000000 - (1000000 - uint (protocolFee AND 0xfff)) * (1000000 - uint lpFee) div 1000000
    \<and> uint (Token1ToToken0 r) = 1000000 - (1000000 - uint (drop_bit 12 protocolFee)) * (1000000 - uint lpFee) div 1000000
    \<and> lpFee \<le> Token0ToToken1 r \<and> lpFee \<le> Token1ToToken0 r
    \<and> (lpFee > 999998 \<or> Token0ToToken1 r < 1000000 \<and> Token1ToToken0 r < 1000000)"
proof -
  have ok: "uint lpFee \<le> 1000000" "uint (protocolFee AND 0xfff) \<le> 1000" "uint (drop_bit 12 protocolFee) \<le> 1000"
    and r: "r = \<lparr>Token0ToToken1 = combine_fee lpFee (protocolFee AND 0xfff), Token1ToToken0 = combine_fee lpFee (drop_bit 12 protocolFee)\<rparr>"
    using assms by (auto simp: CombinePoolFees_def word_less_def not_less split: if_splits)
  have ge: "lpFee \<le> combine_fee lpFee p" if "uint p \<le> 1000" for p
  proof -
    have "(1000000 - uint p) * (1000000 - uint lpFee) \<le> 1000000 * (1000000 - uint lpFee)"
      using ok(1) by (intro mult_right_mono) simp_all
    then have "(1000000 - uint p) * (1000000 - uint lpFee) div 1000000 \<le> 1000000 - uint lpFee"
      using zdiv_mono1 [of _ "1000000 * (1000000 - uint lpFee)" 1000000] by simp
    then show ?thesis using uint_combine [OF ok(1) that] by (simp add: word_le_def)
  qed
  have lt: "combine_fee lpFee p < 1000000" if "uint p \<le> 1000" "\<not> lpFee > 999998" for p
    using fee_of_bounds [of lpFee "combine_fee lpFee p"] that by (auto simp: fee_of_def word_less_def not_less)
  show ?thesis
    using uint_combine [OF ok(1,2)] uint_combine [OF ok(1,3)] ge [OF ok(2)] ge [OF ok(3)] lt [OF ok(2)] lt [OF ok(3)]
    by (auto simp: r)
qed

lemma CombinePoolFees_compound_witness:
  "CombinePoolFees 3000 4097000 = Inr \<lparr>Token0ToToken1 = 3997, Token1ToToken0 = 3997\<rparr>
     \<and> 3000 \<le> (3997 :: u32)"
proof -
  have run: "CombinePoolFees 3000 4097000 = Inr \<lparr>Token0ToToken1 = 3997, Token1ToToken0 = 3997\<rparr>" by code_simp
  from CombinePoolFees_compound [OF this] run show ?thesis by simp
qed

text \<open>An LP fee of 999999 with any protocol fee gives 100%, which the constructor of the cache means to exclude.\<close>

lemma full_fee: "combine_fee 999999 1 = 1000000"
  by code_simp

text \<open>With such a fee, an exact output makes the step divide by zero.\<close>

lemma full_fee_panics:
  "calculateStep4 (2 ^ 96) (2 ^ 96 - 2 ^ 80) (10 ^ 18) 1000 (combine_fee 999999 1) False True = Inl (Panic ''division by zero'')"
  by code_simp

section \<open>Quotes are reproducible\<close>

lemma storeTickDetails4_extends:
  "storeTickDetails4 s tick data = Inr (n, s') \<Longrightarrow> ticks s tick = None \<Longrightarrow> extends s s' \<and> ticks s' tick = Some n"
  by (auto simp: storeTickDetails4_def extends_def map_le_def Let_def split: if_splits)

lemma step4_replays:
  "replays (reading (\<lambda>(s, budget). lift (calculateStep4 p t l r (directed_fee zero s) input zero)))
     (reading (\<lambda>(s, budget). lift (calculateStep4 p t l r (directed_fee zero s) input zero)))"
  by (auto simp: replays_def extends_fee)

lemma quote_loop4_replays:
  assumes "\<And>n. ctxErr env' n = None"
  shows "replays (quote_loop4 k env pid zero input r res p l tick ft) (quote_loop4 k env' pid' zero input r res p l tick ft)"
proof (induction k arbitrary: r res p l tick ft)
  case (Suc k)
  have ctx: "ctxErr env' n = None" for n by (rule assms)
  note next_replays = nextTick_replays [of "as_v3 env pid" tick zero "as_v3 env' pid'", unfolded nextTick_as_v3]
  have cross: "replays (cross_tick4 env pid zero t ini l) (cross_tick4 env' pid' zero t ini l)" for t ini l
    using cross_tick_replays [of "as_v3 env pid" zero t ini l "as_v3 env' pid'"] unfolding cross_tick_as_v3 .
  show ?case
  proof (cases "ctxErr env (2048 - Suc k)")
    case None
    then show ?thesis
      unfolding quote_loop4.simps Let_def ctx None option.case
      by (intro replays_if replays_prod replays_andthen replays_ret replays_throw replays_lift next_replays cross
          step4_replays Suc.IH)
  next
    case (Some e)
    then show ?thesis unfolding quote_loop4.simps Some option.case by (intro replays_if replays_throw)
  qed
qed (simp only: quote_loop4.simps replays_throw)

lemma quote4_replays:
  assumes run: "quote4 env pid amount zero input (s, b) = (Inr r, (s', b'))"
  shows "extends s s'" and "b' \<le> b"
    and "(\<And>n. ctxErr env' n = None) \<Longrightarrow> extends s' s2 \<Longrightarrow> quote4 env' pid' amount zero input (s2, b2) = (Inr r, (s2, b2))"
proof -
  have none: "\<And>n. ctxErr (env\<lparr>ctxErr := \<lambda>_. None\<rparr>) n = None" by simp
  have loop: "quote_loop4 2048 env pid zero input amount 0 (sPrice s) (sLiquidity s) (sTick s) 0 (s, b) = (Inr r, (s', b'))"
    using run by (simp add: quote4_def)
  show ext: "extends s s'" and "b' \<le> b" using replaysD(1,2) [OF quote_loop4_replays [OF none] loop] .
  assume "\<And>n. ctxErr env' n = None" and e2: "extends s' s2"
  then show "quote4 env' pid' amount zero input (s2, b2) = (Inr r, (s2, b2))"
    using replaysD(4) [OF quote_loop4_replays loop e2, of env'] extends_fields [OF extends_trans [OF ext e2]]
    by (simp add: quote4_def)
qed

section \<open>The watch\<close>

lemma watch4_cases:
  "generation (snd (watch4 cfg ev c)) = generation c + 1
   \<or> (\<exists>f. snd (watch4 cfg ev c) = c\<lparr>running := f\<rparr>)"
proof (cases ev)
  case Started
  show ?thesis
  proof (cases "running c")
    case True
    then show ?thesis using Started by (intro disjI2 exI [of _ True]) (simp add: watch4_def)
  next
    case False
    then show ?thesis using Started by (intro disjI2 exI [of _ True]) (simp add: watch4_def)
  qed
next
  case (Notified log)
  then show ?thesis by (auto simp: watch4_def Let_def intro: exI [of _ "running c"])
qed (simp_all add: watch4_def)

lemma watch4_keeps:
  "snapshot (snd (watch4 cfg ev c)) = snapshot c \<and> retained4 (snd (watch4 cfg ev c)) = retained4 c
   \<and> cachedGeneration (snd (watch4 cfg ev c)) = cachedGeneration c"
  by (auto simp: watch4_def Let_def split: watch_event4.splits)

lemma watched4_Cons [simp]: "watched4 cfg (ev # evs) c = watched4 cfg evs (snd (watch4 cfg ev c))"
  by (simp add: watched4_def)

lemma watched4_Nil [simp]: "watched4 cfg [] c = c"
  by (simp add: watched4_def)

lemma watched4_keeps:
  "snapshot (watched4 cfg evs c) = snapshot c \<and> retained4 (watched4 cfg evs c) = retained4 c
   \<and> cachedGeneration (watched4 cfg evs c) = cachedGeneration c"
  by (induction evs arbitrary: c) (auto simp: watch4_keeps)

text \<open>The generation counts what was invalidated, so it is unchanged only if nothing was.\<close>

lemma watched4_generation:
  "\<exists>n \<le> length evs. generation (watched4 cfg evs c) = generation c + of_nat n
     \<and> (n = 0 \<longrightarrow> (\<exists>f. watched4 cfg evs c = c\<lparr>running := f\<rparr>))"
proof (induction evs arbitrary: c)
  case Nil
  have "c = c\<lparr>running := running c\<rparr>" by simp
  then show ?case by (intro exI [of _ 0]) (auto intro: exI [of _ "running c"])
next
  case (Cons ev evs)
  let ?c = "snd (watch4 cfg ev c)"
  obtain n where n: "n \<le> length evs" "generation (watched4 cfg evs ?c) = generation ?c + of_nat n"
    "n = 0 \<longrightarrow> (\<exists>f. watched4 cfg evs ?c = ?c\<lparr>running := f\<rparr>)"
    using Cons.IH by blast
  consider "generation ?c = generation c + 1" | f where "?c = c\<lparr>running := f\<rparr>" using watch4_cases by blast
  then show ?case
  proof cases
    case 1
    then show ?thesis using n by (intro exI [of _ "Suc n"]) simp
  next
    case 2
    then show ?thesis using n by (intro exI [of _ n]) auto
  qed
qed

lemma watched4_same:
  assumes "length evs < 2 ^ 64" and "generation (watched4 cfg evs c) = generation c"
  obtains f where "watched4 cfg evs c = c\<lparr>running := f\<rparr>"
proof -
  obtain n where n: "n \<le> length evs" "generation (watched4 cfg evs c) = generation c + of_nat n"
    "n = 0 \<longrightarrow> (\<exists>f. watched4 cfg evs c = c\<lparr>running := f\<rparr>)"
    using watched4_generation by blast
  then have "(of_nat n :: u64) = 0" using assms(2) by simp
  then have "2 ^ 64 dvd n" by (simp add: word_of_nat_eq_0_iff)
  then have "n = 0" using n(1) assms(1) dvd_imp_le [of "2 ^ 64" n] by (cases n) auto
  then show thesis using n(3) that by blast
qed

section \<open>What a snapshot always satisfies\<close>

definition snapshot_ok :: "cache_config4 \<Rightarrow> poolSnapshot4 \<Rightarrow> bool" where
  "snapshot_ok cfg s \<longleftrightarrow> fee_of (lp_fee cfg) (fst (fees s)) \<and> fee_of (lp_fee cfg) (snd (fees s))
     \<and> sSpacing s = key_spacing cfg \<and> sqrtAtTick minTick \<le> sPrice s \<and> sPrice s < sqrtAtTick maxTick
     \<and> minTick \<le> sTick s \<and> sTick s \<le> maxTick \<and> 0 \<le> sLiquidity s \<and> sLiquidity s < 2 ^ 128"

lemma directed_fee_ok: "snapshot_ok cfg s \<Longrightarrow> lp_fee cfg \<le> 999998 \<Longrightarrow> directed_fee zero s < 1000000"
  using fee_of_bounds [of "lp_fee cfg"] by (auto simp: snapshot_ok_def directed_fee_def word_le_def)

lemma read4_Inr: "read4 env pid sig arg (s, b) = (Inr data, (s', b')) \<Longrightarrow> s' = s \<and> 0 < b \<and> b' = b - 1"
  by (auto simp: read4_def andthen_eq_Inr split: if_splits)

lemma decode_slot0_Inr:
  "decode_slot0 lpFee data = Inr (pr, tick, fs) \<Longrightarrow> fee_of lpFee (fst fs) \<and> fee_of lpFee (snd fs)
     \<and> sqrtAtTick minTick \<le> pr \<and> pr < sqrtAtTick maxTick \<and> minTick \<le> tick \<and> tick \<le> maxTick"
  by (auto simp: decode_slot0_def Let_def not_le dest: packed_fees_of split: if_splits)

lemma decode_active_liquidity_Inr: "decode_active_liquidity data = Inr l \<Longrightarrow> 0 \<le> l \<and> l < 2 ^ 128"
  using be_int_bounds [of data] by (auto simp: decode_active_liquidity_def BitLen_gt_def split: if_splits)

lemma capture_header_floor: "capture_header k floor hash = Inr h \<Longrightarrow> floor \<le> hNumber h"
  by (auto simp: capture_header_def not_less split: if_splits)

lemma capture4_Inr:
  assumes "capture4 cfg k floor hash b = (Inr s, b')"
  shows "snapshot_ok cfg s" and "floor \<le> hNumber (sHeader s)" and "b' = b - 2" and "words s = Map.empty" and "ticks s = Map.empty"
    and "observed s = at_observed k" and "capture_header k floor hash = Inr (sHeader s)"
proof -
  obtain h where h: "capture_header k floor hash = Inr h"
    using assms by (auto simp: capture4_def split: sum.splits)
  obtain z where run: "andthen (read4 (call_env k) (poolID cfg) ''getSlot0(bytes32)'' None) (\<lambda>data.
                 andthen (lift (decode_slot0 (lp_fee cfg) data)) (\<lambda>(price, tick, fs).
                 andthen (read4 (call_env k) (poolID cfg) ''getLiquidity(bytes32)'' None) (\<lambda>data.
                 andthen (lift (decode_active_liquidity data)) (\<lambda>l.
                 reading (\<lambda>(s, _). ret (s\<lparr>sPrice := price, sTick := tick, fees := fs, sLiquidity := l,
                   sSpacing := key_spacing cfg, received := at_received k\<rparr>)))))) (fresh_snapshot k h, b) = (Inr s, (z, b'))"
    using assms h by (auto simp: capture4_def split: prod.splits)
  then obtain d0 d1 pr tick fs l where
      d0: "decode_slot0 (lp_fee cfg) d0 = Inr (pr, tick, fs)" and d1: "decode_active_liquidity d1 = Inr l"
      and s: "s = (fresh_snapshot k h)\<lparr>sPrice := pr, sTick := tick, fees := fs, sLiquidity := l,
                   sSpacing := key_spacing cfg, received := at_received k\<rparr>" "b' = b - 2"
    by (auto dest!: read4_Inr)
  show "snapshot_ok cfg s" using decode_slot0_Inr [OF d0] decode_active_liquidity_Inr [OF d1] by (simp add: snapshot_ok_def s)
  show "floor \<le> hNumber (sHeader s)" using capture_header_floor [OF h] by (simp add: s fresh_snapshot_def)
  show "b' = b - 2" "words s = Map.empty" "ticks s = Map.empty" "observed s = at_observed k"
    "capture_header k floor hash = Inr (sHeader s)"
    using h by (simp_all add: s fresh_snapshot_def)
qed

lemma snapshot_ok_extends: "extends s s' \<Longrightarrow> snapshot_ok cfg s' = snapshot_ok cfg s"
proof -
  assume ext: "extends s s'"
  have "fees s' = fees s" using ext by (cases s; cases s') (simp add: extends_def)
  then show ?thesis using extends_fields [OF ext] by (simp add: snapshot_ok_def)
qed

definition cache4_ok :: "cache_config4 \<Rightarrow> StateCache4 \<Rightarrow> bool" where
  "cache4_ok cfg c \<longleftrightarrow> (\<forall>s. snapshot c = Some s \<longrightarrow> snapshot_ok cfg s) \<and> (\<forall>s. retained4 c = Some s \<longrightarrow> snapshot_ok cfg s)"

lemma watched4_ok [simp]: "cache4_ok cfg (watched4 cfg' evs c) = cache4_ok cfg c"
  by (simp add: cache4_ok_def watched4_keeps)

text \<open>What the calculation of a pair establishes.\<close>

lemma calculate_pair_Inr:
  assumes run: "calculate_pair cfg k c a base = Inr (s, bid, ask)" and ok: "cache4_ok cfg c"
  obtains s0 b0 s1 b1 b2 fb fa
    where "quote4 (call_env k) (poolID cfg) a base True (s0, b0) = (Inr (bid, fb), (s1, b1))"
    and "quote4 (call_env k) (poolID cfg) a (\<not> base) False (s1, b1) = (Inr (ask, fa), (s, b2))"
    and "snapshot_ok cfg s0" and "floor_block c \<le> hNumber (sHeader s0)"
    and "b2 < 64 \<Longrightarrow> verify_block k 1 (sHeader s) = Inr ()"
proof -
  define got where "got = (case reusable4 cfg k c of Some s \<Rightarrow> (Inr s, 64)
    | None \<Rightarrow> capture4 cfg k (floor_block c) (if active c then floorHash c else empty_hash) 64)"
  obtain s0 b0 where got: "got = (Inr s0, b0)" and low: "floor_block c \<le> hNumber (sHeader s0)"
    using run unfolding calculate_pair_def Let_def got_def [symmetric] by (cases got) (auto simp: not_less split: if_splits)
  have s0: "snapshot_ok cfg s0"
  proof (cases "reusable4 cfg k c")
    case None
    then show ?thesis using got capture4_Inr(1) by (auto simp: got_def)
  next
    case (Some s')
    then have "snapshot c = Some s'" by (auto simp: reusable4_def split: option.splits if_splits)
    then show ?thesis using ok got Some by (simp add: cache4_ok_def got_def)
  qed
  have "\<exists>s1 b1 b2 fb fa. quote4 (call_env k) (poolID cfg) a base True (s0, b0) = (Inr (bid, fb), (s1, b1))
      \<and> quote4 (call_env k) (poolID cfg) a (\<not> base) False (s1, b1) = (Inr (ask, fa), (s, b2))
      \<and> (b2 < 64 \<longrightarrow> verify_block k 1 (sHeader s) = Inr ())"
    using run low unfolding calculate_pair_def Let_def got_def [symmetric] got
    by (auto simp: not_less [symmetric] split: prod.splits sum.splits if_splits)
  then show thesis using that s0 low by blast
qed

text \<open>Two quotes of the same snapshot never cross.\<close>

lemma quote4_pair_fair:
  assumes env: "env_clean env" and fee: "\<And>z. directed_fee z s < 1000000" and s: "sane s" and a: "0 \<le> a"
    and bid: "quote4 env pid a base True (s, b) = (Inr (bid, fb), (s1, b1))"
    and ask: "quote4 env pid a (\<not> base) False (s1, b1) = (Inr (ask, fa), (s2, b2))"
  shows "bid \<le> ask \<and> 0 \<le> fb \<and> 0 \<le> fa \<and> a * uint (directed_fee base s) \<le> fb * 1000000"
proof -
  note e1 = quote4_replays(1) [OF bid]
  have s1: "sane s1" and fee1: "directed_fee (\<not> base) s1 < 1000000" and price: "sPrice s1 = sPrice s"
    using s fee extends_fields [OF e1] extends_fee [OF e1] by (auto simp: sane_def)
  note q1 = outcome_InrD [OF quote4_ok [OF env fee s a] bid]
  note q2 = outcome_InrD [OF quote4_ok [OF env fee1 s1 a] ask]
  have "fair Q96 (\<not> base) (sPrice s) (ask - fa) a" "0 \<le> fa" using q2 by (simp_all add: quote_ok_def price)
  then have "fair Q96 (\<not> base) (sPrice s) ask a" by (auto intro: fair_le)
  moreover have "fair Q96 base (sPrice s) a bid" using q1 by (simp add: quote_ok_def)
  moreover have "0 < sPrice s" using s by (auto simp: sane_def loop_inv_def sqrtAtTick_min)
  ultimately have "bid \<le> ask" using fair_bid_ask by blast
  then show ?thesis using q1 q2 by (simp add: quote_ok_def)
qed

lemma QuotePair4_Inr:
  assumes run: "QuotePair4 cfg k amount base c = (Inr pair, c')" and few: "length (during k) < 2 ^ 64"
  obtains a s bid ask f where "amount = Some a" and "0 < a" and "\<not> BitLen_gt a 128"
    and "calculate_pair cfg k c a base = Inr (s, bid, ask)"
    and "c' = c\<lparr>running := f, covered := sHeader s, retained4 := Some s, retainedBlock4 := hNumber (sHeader s),
      retainedHash4 := hHash (sHeader s), retainedHasLog4 := False, snapshot := Some s, cachedGeneration := generation c\<rparr>"
    and "pair = \<lparr>BidAmountOut = bid, AskAmountIn = ask, pairBlockNumber = hNumber (sHeader s),
      pairBlockHash = hHash (sHeader s), pairReceivedAt = received s, pairObservedAt = observed s\<rparr>"
    and "at_end k - observed s < maxAge cfg"
proof -
  obtain a s bid ask where ok: "amount = Some a" "0 < a" "\<not> BitLen_gt a 128" "calculate_pair cfg k c a base = Inr (s, bid, ask)"
    "generation (watched4 cfg (during k) c) = generation c" "at_end k - observed s < maxAge cfg"
    and out: "c' = (watched4 cfg (during k) c)\<lparr>covered := sHeader s, retained4 := Some s, retainedBlock4 := hNumber (sHeader s),
      retainedHash4 := hHash (sHeader s), retainedHasLog4 := False, snapshot := Some s, cachedGeneration := generation c\<rparr>"
    "pair = \<lparr>BidAmountOut = bid, AskAmountIn = ask, pairBlockNumber = hNumber (sHeader s),
      pairBlockHash = hHash (sHeader s), pairReceivedAt = received s, pairObservedAt = observed s\<rparr>"
    using run by (auto simp: QuotePair4_def Let_def split: option.splits if_splits sum.splits prod.splits)
  obtain f where "watched4 cfg (during k) c = c\<lparr>running := f\<rparr>" by (rule watched4_same [OF few ok(5)])
  with out(1) ok out(2) that show thesis by simp
qed


text \<open>
  A published pair of a v4 pool never crosses: when the LP fee is at most 99.9998% and the inputs are a state that a pool can be in,
  what selling the base amount pays is at most what buying it costs.
\<close>

lemma QuotePair4_no_crossing:
  assumes "QuotePair4 cfg k amount base c = (Inr pair, c')" and "length (during k) < 2 ^ 64" and "cache4_ok cfg c"
    and "env_clean (call_env k)" and "lp_fee cfg \<le> 999998" and "retained4 c' = Some s" and "sane s"
  shows "BidAmountOut pair \<le> AskAmountIn pair"
proof -
  obtain a s' bid ask f where q: "amount = Some a" "0 < a" "\<not> BitLen_gt a 128" "calculate_pair cfg k c a base = Inr (s', bid, ask)"
    and c': "c' = c\<lparr>running := f, covered := sHeader s', retained4 := Some s', retainedBlock4 := hNumber (sHeader s'),
      retainedHash4 := hHash (sHeader s'), retainedHasLog4 := False, snapshot := Some s', cachedGeneration := generation c\<rparr>"
    and pair: "pair = \<lparr>BidAmountOut = bid, AskAmountIn = ask, pairBlockNumber = hNumber (sHeader s'),
      pairBlockHash = hHash (sHeader s'), pairReceivedAt = received s', pairObservedAt = observed s'\<rparr>"
    by (rule QuotePair4_Inr [OF assms(1,2)])
  obtain s0 b0 s1 b1 b2 fb fa
    where bid: "quote4 (call_env k) (poolID cfg) a base True (s0, b0) = (Inr (bid, fb), (s1, b1))"
    and ask: "quote4 (call_env k) (poolID cfg) a (\<not> base) False (s1, b1) = (Inr (ask, fa), (s', b2))"
    and s0: "snapshot_ok cfg s0"
    by (rule calculate_pair_Inr [OF q(4) assms(3)])
  have ext: "extends s0 s'" using extends_trans quote4_replays(1) [OF bid] quote4_replays(1) [OF ask] by blast
  have "s' = s" using assms(6) c' by simp
  then have sane: "sane s0" using assms(7) extends_fields [OF ext] by (simp add: sane_def)
  have fee: "directed_fee z s0 < 1000000" for z
    by (rule directed_fee_ok [OF s0 assms(5)])
  have "0 \<le> a" using q(2) by simp
  from quote4_pair_fair [OF assms(4) fee sane this bid ask] show ?thesis by (simp add: pair)
qed

section \<open>The retained inputs follow the pool\<close>

lemma retain_tick_fields:
  "retain_tick m d l t s = Inr s' \<Longrightarrow> fees s' = fees s \<and> sSpacing s' = sSpacing s \<and> sPrice s' = sPrice s \<and> sTick s' = sTick s
     \<and> sLiquidity s' = sLiquidity s \<and> sHeader s' = sHeader s"
  by (auto simp: retain_tick_def Let_def split: option.splits if_splits prod.splits)

lemma decode_modify_Inr:
  "decode_modify spacing log = Inr (lower, upper, delta) \<Longrightarrow>
     0 < spacing \<and> lower < upper \<and> - 887272 \<le> lower \<and> upper \<le> 887272 \<and> spacing dvd lower \<and> spacing dvd upper"
  by (auto simp: decode_modify_def Let_def smod_eq_0_iff split: if_splits)

text \<open>
  Retained inputs of a v4 pool follow the contract (\<open>applyRetainedLiquidity\<close> of v4): if they agree with the contract's gross and net
  liquidity at every tick and a \<open>ModifyLiquidity\<close> event that the contract can have emitted is applied, there is no error
  and they agree with the liquidity after the event; the active liquidity changes by the delta exactly when the
  current tick is in the range, and price, tick and fees do not change.
\<close>

lemma applyRetainedLiquidity4_tracks:
  assumes "agrees g n s" and "decode_modify (sSpacing s) log = Inr (lower, upper, delta)"
    and "tick_valid g n lower delta delta" and "tick_valid g n upper delta (- delta)"
    and "0 \<le> sLiquidity s + delta" and "sLiquidity s + delta < 2 ^ 128"
  shows "\<exists>s'. applyRetainedLiquidity4 s log = Inr s'
    \<and> agrees (g(lower := g lower + delta, upper := g upper + delta)) (n(lower := n lower + delta, upper := n upper - delta)) s'
    \<and> sLiquidity s' = sLiquidity s + (if lower \<le> sTick s \<and> sTick s < upper then delta else 0)
    \<and> sPrice s' = sPrice s \<and> sTick s' = sTick s \<and> fees s' = fees s"
proof (cases "delta = 0")
  case True
  then show ?thesis using assms(1,2) by (simp add: applyRetainedLiquidity4_def)
next
  case False
  have dec: "0 < sSpacing s" "lower < upper" "- 887272 \<le> lower" "upper \<le> 887272" "sSpacing s dvd lower" "sSpacing s dvd upper"
    using decode_modify_Inr [OF assms(2)] by simp_all
  have mint: "if delta > 0 then 0 < delta else delta < 0" using False by simp
  define s0 where "s0 = (if sTick s \<ge> lower \<and> sTick s < upper then s\<lparr>sLiquidity := sLiquidity s + delta\<rparr> else s)"
  have s0: "agrees g n s0" "sSpacing s0 = sSpacing s" "sTick s0 = sTick s" "sPrice s0 = sPrice s" "fees s0 = fees s"
    "sLiquidity s0 = sLiquidity s + (if lower \<le> sTick s \<and> sTick s < upper then delta else 0)"
    using assms(1) by (simp_all add: s0_def)
  have rng: "\<bar>lower\<bar> \<le> 887272" "\<bar>upper\<bar> \<le> 887272" using dec by simp_all
  obtain s1 where s1: "retain_tick (delta > 0) delta True lower s0 = Inr s1"
    "agrees (g(lower := g lower + delta)) (n(lower := n lower + delta)) s1"
    using retain_tick_agrees [OF s0(1) _ _ rng(1), of delta True "delta > 0"] assms(3) dec mint s0(2)
    by (auto simp: tick_valid_def)
  note f1 = retain_tick_fields [OF s1(1)]
  let ?g = "g(lower := g lower + delta)" and ?n = "n(lower := n lower + delta)"
  have at: "?g upper = g upper" "?n upper = n upper" using dec by simp_all
  obtain s2 where s2: "retain_tick (delta > 0) delta False upper s1 = Inr s2"
    "agrees (?g(upper := ?g upper + delta)) (?n(upper := ?n upper + - delta)) s2"
    using retain_tick_agrees [OF s1(2) _ _ rng(2), of delta False "delta > 0"] assms(4) dec mint s0(2) f1
    by (auto simp: tick_valid_def)
  note f2 = retain_tick_fields [OF s2(1)]
  have "applyRetainedLiquidity4 s log = Inr s2"
    using False assms(2,5,6) s1(1) s2(1)
    by (auto simp: applyRetainedLiquidity4_def Let_def s0_def BitLen_gt_def split: if_splits)
  then show ?thesis using s0 f1 f2 s2(2) unfolding at by (intro exI [of _ s2]) simp
qed

lemma apply_swap4_ok: "apply_swap4 s log = Inr s' \<Longrightarrow> snapshot_ok cfg s \<Longrightarrow> snapshot_ok cfg s' \<and> sHeader s' = sHeader s"
  using be_int_bounds [of "slice (lData log) 96 128"]
  by (auto simp: apply_swap4_def Let_def snapshot_ok_def BitLen_gt_def split: if_splits)

lemma apply_protocol_fee4_ok:
  "apply_protocol_fee4 (lp_fee cfg) s log = Inr s' \<Longrightarrow> snapshot_ok cfg s \<Longrightarrow> snapshot_ok cfg s' \<and> sHeader s' = sHeader s"
  by (auto simp: apply_protocol_fee4_def snapshot_ok_def dest: packed_fees_of split: if_splits)

lemma applyRetainedLiquidity4_ok:
  assumes run: "applyRetainedLiquidity4 s log = Inr s'" and ok: "snapshot_ok cfg s"
  shows "snapshot_ok cfg s' \<and> sHeader s' = sHeader s"
proof -
  obtain lower upper delta where dec: "decode_modify (sSpacing s) log = Inr (lower, upper, delta)"
    using run by (auto simp: applyRetainedLiquidity4_def)
  show ?thesis
  proof (cases "delta = 0")
    case True
    then show ?thesis using dec run ok by (simp add: applyRetainedLiquidity4_def)
  next
    case False
    define s0 where "s0 = (if sTick s \<ge> lower \<and> sTick s < upper then s\<lparr>sLiquidity := sLiquidity s + delta\<rparr> else s)"
    obtain s1 where s1: "retain_tick (delta > 0) delta True lower s0 = Inr s1"
      and s2: "retain_tick (delta > 0) delta False upper s1 = Inr s'"
      and l: "sTick s \<ge> lower \<and> sTick s < upper \<Longrightarrow> 0 \<le> sLiquidity s + delta \<and> sLiquidity s + delta < 2 ^ 128"
      using run dec False by (auto simp: applyRetainedLiquidity4_def Let_def BitLen_gt_def s0_def split: if_splits)
    have "snapshot_ok cfg s0 \<and> sHeader s0 = sHeader s" using l ok by (auto simp: snapshot_ok_def s0_def)
    then show ?thesis using retain_tick_fields [OF s1] retain_tick_fields [OF s2] by (simp add: snapshot_ok_def)
  qed
qed

lemma retained_event4_ok:
  assumes "snapshot_ok cfg s" and "retained_event4 env (lp_fee cfg) s log = Inr s'"
  shows "snapshot_ok cfg s' \<and> sHeader s' = sHeader s"
  using assms apply_swap4_ok apply_protocol_fee4_ok applyRetainedLiquidity4_ok
  unfolding retained_event4_def Let_def by (auto split: if_splits)

section \<open>Every cache\<close>

text \<open>Snapshots that differ only in what they have cached of the pool.\<close>

definition same_core :: "poolSnapshot4 \<Rightarrow> poolSnapshot4 \<Rightarrow> bool" where
  "same_core s s' \<longleftrightarrow> s'\<lparr>words := Map.empty, ticks := Map.empty, gross := Map.empty\<rparr>
     = s\<lparr>words := Map.empty, ticks := Map.empty, gross := Map.empty\<rparr>"

lemma same_core_trans: "same_core s s' \<Longrightarrow> same_core s' s'' \<Longrightarrow> same_core s s''"
  by (simp add: same_core_def)

lemma same_core_extends: "extends s s' \<Longrightarrow> same_core s s'"
  by (simp add: extends_def same_core_def)

lemma same_core_ok: "same_core s s' \<Longrightarrow> snapshot_ok cfg s' = snapshot_ok cfg s \<and> sHeader s' = sHeader s"
  by (cases s; cases s') (simp add: same_core_def snapshot_ok_def)

lemma liquidityNet4_extends: "liquidityNet4 env pid t (s, b) = (Inr n, (s', b')) \<Longrightarrow> extends s s'"
  using replaysD(1) [OF liquidityNet_replays [of "as_v3 env pid" t env]] by (simp add: liquidityNet_as_v3)

lemma read_words_core: "read_words env pid ws (s, b) = (Inr u, (s', b')) \<Longrightarrow> same_core s s'"
proof (induction ws arbitrary: s b)
  case Nil
  then show ?case by (simp add: same_core_def)
next
  case (Cons w ws)
  then obtain data b1 where "read_words env pid ws (s\<lparr>words := (words s)(w \<mapsto> be_int data)\<rparr>, b1) = (Inr u, (s', b'))"
    by (auto dest!: read4_Inr split: if_splits)
  from Cons.IH [OF this] show ?case by (simp add: same_core_def)
qed

lemma read_ticks_core: "read_ticks env pid ts (s, b) = (Inr u, (s', b')) \<Longrightarrow> same_core s s'"
proof (induction ts arbitrary: s b)
  case Nil
  then show ?case by (simp add: same_core_def)
next
  case (Cons t ts)
  show ?case
  proof (cases "read_ticks env pid (t # ts) (s, b) = read_ticks env pid ts (s, b)")
    case True
    then show ?thesis using Cons by simp
  next
    case False
    then obtain n s1 b1 where "liquidityNet4 env pid t (s, b) = (Inr n, (s1, b1))" "read_ticks env pid ts (s1, b1) = (Inr u, (s', b'))"
      using Cons.prems by (auto simp: Let_def split: option.splits if_splits)
    then show ?thesis using Cons.IH same_core_trans same_core_extends [OF liquidityNet4_extends] by blast
  qed
qed

lemma refreshed_ok: "refreshed cfg ce k c = Inr s \<Longrightarrow> snapshot_ok cfg s \<and> floor_block c \<le> hNumber (sHeader s)"
  by (fastforce simp: refreshed_def same_core_ok dest: capture4_Inr(1,2) same_core_trans read_words_core read_ticks_core
      split: prod.splits sum.splits option.splits if_splits)

lemma QuotePair4_ok:
  assumes "cache4_ok cfg c" and "QuotePair4 cfg k amount base c = (r, c')"
  shows "cache4_ok cfg c'"
proof -
  have calc: "snapshot_ok cfg s" if run: "calculate_pair cfg k c a base = Inr (s, bid, ask)" for a s bid ask
  proof -
    obtain s0 b0 s1 b1 b2 fb fa
      where bid: "quote4 (call_env k) (poolID cfg) a base True (s0, b0) = (Inr (bid, fb), (s1, b1))"
      and ask: "quote4 (call_env k) (poolID cfg) a (\<not> base) False (s1, b1) = (Inr (ask, fa), (s, b2))"
      and s0: "snapshot_ok cfg s0" by (rule calculate_pair_Inr [OF run assms(1)])
    show ?thesis
      using snapshot_ok_extends [OF extends_trans [OF quote4_replays(1) [OF bid] quote4_replays(1) [OF ask]]] s0 by simp
  qed
  have w: "cache4_ok cfg (watched4 cfg (during k) c)" using assms(1) by simp
  show ?thesis
    using assms(2) w calc
    by (auto simp: QuotePair4_def Let_def cache4_ok_def split: option.splits if_splits sum.splits prod.splits)
qed

lemma CheckState4_ok:
  assumes "cache4_ok cfg c" and "CheckState4 cfg ce k c = (r, c')"
  shows "cache4_ok cfg c'"
proof -
  have w: "cache4_ok cfg (watched4 cfg (during k) c)" using assms(1) by simp
  show ?thesis
    using assms(2) w refreshed_ok [of cfg ce k c]
    by (auto simp: CheckState4_def Let_def cache4_ok_def split: option.splits if_splits sum.splits prod.splits)
qed

lemma applyRetainedLogMode4_ok:
  "cache4_ok cfg c \<Longrightarrow> applyRetainedLogMode4 sha env (lp_fee cfg) log live t c = (r, c') \<Longrightarrow> cache4_ok cfg c'
     \<and> snapshot c' = snapshot c"
proof -
  assume ok: "cache4_ok cfg c" and run: "applyRetainedLogMode4 sha env (lp_fee cfg) log live t c = (r, c')"
  have gone: "cache4_ok cfg (c\<lparr>retained4 := None\<rparr>)" using ok by (simp add: cache4_ok_def)
  show ?thesis
  proof (cases "lRemoved log \<or> lBlockHash log = empty_hash \<or> retained4 c = None")
    case True
    then show ?thesis using ok gone run by (auto simp: applyRetainedLogMode4_def Let_def split: if_splits)
  next
    case False
    then obtain s where s: "retained4 c = Some s" by auto
    show ?thesis
    proof (cases "if live then Inr True else replay_check4 c s log")
      case (Inl e)
      then show ?thesis using False s gone run by (auto simp: applyRetainedLogMode4_def Let_def)
    next
      case (Inr go)
      show ?thesis
      proof (cases "go \<and> lTopics log \<noteq> []")
        case True
        show ?thesis
        proof (cases "retained_event4 env (lp_fee cfg) s log")
          case (Inl e)
          then show ?thesis using False s True Inr gone run by (auto simp: applyRetainedLogMode4_def Let_def)
        next
          case ev: (Inr s')
          have "snapshot_ok cfg s'" using retained_event4_ok [OF _ ev] ok s by (simp add: cache4_ok_def)
          then have "snapshot_ok cfg (if t > received s' then s'\<lparr>received := t\<rparr> else s')" by (simp add: snapshot_ok_def)
          then show ?thesis using False s True Inr ev ok run by (auto simp: applyRetainedLogMode4_def Let_def cache4_ok_def simp del: if_split)
        qed
      next
        case stop: False
        then show ?thesis using False s Inr ok gone run by (cases go) (auto simp: applyRetainedLogMode4_def Let_def)
      qed
    qed
  qed
qed

lemma applyLiveRetainedLog4_ok:
  assumes "cache4_ok cfg c" and "applyLiveRetainedLog4 sha env (lp_fee cfg) log t c = (r, c')"
  shows "cache4_ok cfg c'"
  using assms applyRetainedLogMode4_ok [OF assms(1), of sha env log True t]
  by (auto simp: applyLiveRetainedLog4_def cache4_ok_def split: if_splits prod.splits sum.splits)

inductive cache_step4 :: "cache_config4 \<Rightarrow> StateCache4 \<Rightarrow> StateCache4 \<Rightarrow> bool" for cfg :: cache_config4 where
  watch_step4: "watch4 cfg ev c = (r, c') \<Longrightarrow> cache_step4 cfg c c'"
| quote_step4: "QuotePair4 cfg k amount base c = (q, c') \<Longrightarrow> cache_step4 cfg c c'"
| check_step4: "CheckState4 cfg ce k c = (x, c') \<Longrightarrow> cache_step4 cfg c c'"
| replay_step4: "applyRetainedLog4 sha env (lp_fee cfg) log t c = (r, c') \<Longrightarrow> cache_step4 cfg c c'"
| live_step4: "applyLiveRetainedLog4 sha env (lp_fee cfg) log t c = (r, c') \<Longrightarrow> cache_step4 cfg c c'"

definition cache_reachable4 :: "cache_config4 \<Rightarrow> StateCache4 \<Rightarrow> bool" where
  "cache_reachable4 cfg c \<longleftrightarrow> (\<exists>keccak256 config age c0. NewStateCache4 keccak256 config age = Inr (cfg, c0) \<and> (cache_step4 cfg)\<^sup>*\<^sup>* c0 c)"

lemma cache_step4_ok: "cache_step4 cfg c c' \<Longrightarrow> cache4_ok cfg c \<Longrightarrow> cache4_ok cfg c'"
proof (induction rule: cache_step4.induct)
  case (watch_step4 ev c r c')
  then show ?case using watched4_ok [of cfg cfg "[ev]" c] by simp
next
  case (quote_step4 k amount base c q c')
  then show ?case using QuotePair4_ok by blast
next
  case (check_step4 ce k c x c')
  then show ?case using CheckState4_ok by blast
next
  case (replay_step4 sha env log t c r c')
  then show ?case using applyRetainedLogMode4_ok unfolding applyRetainedLog4_def by blast
next
  case (live_step4 sha env log t c r c')
  then show ?case using applyLiveRetainedLog4_ok by blast
qed

lemma cache_reachable4_ok:
  assumes "cache_reachable4 cfg c"
  shows "cache4_ok cfg c" and "lp_fee cfg < 1000000" and "1 \<le> key_spacing cfg" and "key_spacing cfg \<le> 32767"
proof -
  obtain keccak256 config age c0 where new: "NewStateCache4 keccak256 config age = Inr (cfg, c0)" and steps: "(cache_step4 cfg)\<^sup>*\<^sup>* c0 c"
    using assms by (auto simp: cache_reachable4_def)
  have "cache4_ok cfg c0" using new by (auto simp: NewStateCache4_def Let_def cache4_ok_def split: if_splits)
  with steps show "cache4_ok cfg c" by (induction rule: rtranclp_induct) (auto intro: cache_step4_ok)
  show "lp_fee cfg < 1000000" "1 \<le> key_spacing cfg" "key_spacing cfg \<le> 32767"
    using new by (auto simp: NewStateCache4_def Let_def split: if_splits)
qed

text \<open>
  Whatever quotes, checks, subscriptions and logs come in whatever order, and whatever the node answers, the inputs that the
  cache of a v4 pool holds are in range: the tick spacing is the one of the pool's key, price, tick and liquidity are values that the contract
  can store, and each direction's fee is the pool's LP fee compounded with a protocol fee within the contract's limit. So
  with an LP fee of at most 99.9998% no quote ever divides by zero for its fee.
\<close>

lemma cache4_inputs_in_range:
  assumes "cache_reachable4 cfg c" and "snapshot c = Some s \<or> retained4 c = Some s"
  shows "1 \<le> sSpacing s \<and> sSpacing s \<le> 32767 \<and> sSpacing s = key_spacing cfg
    \<and> sqrtAtTick minTick \<le> sPrice s \<and> sPrice s < sqrtAtTick maxTick \<and> minTick \<le> sTick s \<and> sTick s \<le> maxTick
    \<and> 0 \<le> sLiquidity s \<and> sLiquidity s < 2 ^ 128
    \<and> (lp_fee cfg > 999998 \<or> directed_fee zero s < 1000000)"
proof -
  note r = cache_reachable4_ok [OF assms(1)]
  have ok: "snapshot_ok cfg s" using r(1) assms(2) by (auto simp: cache4_ok_def)
  moreover have "lp_fee cfg > 999998 \<or> directed_fee zero s < 1000000"
    using directed_fee_ok [OF ok, of zero] by (cases "lp_fee cfg \<le> 999998") auto
  ultimately show ?thesis using r by (simp add: snapshot_ok_def)
qed

section \<open>Witnesses\<close>

text \<open>A node with one pool: a price just above 1, liquidity \<open>10 ^ 18\<close>, LP fee 0.3% and no protocol fee.\<close>

definition sample_slot0 :: bytes where
  "sample_slot0 = be_bytes 32 (2 ^ 96 + 2 ^ 80) @ replicate 64 0 @ be_bytes 32 3000"

definition sample_node :: Env where
  "sample_node = \<lparr>selector = (\<lambda>sig. if sig = ''getSlot0(bytes32)'' then [1] else if sig = ''getLiquidity(bytes32)'' then [2] else [3]),
     callContract = (\<lambda>data _. Inr (if hd data = 1 then sample_slot0 else if hd data = 2 then be_bytes 32 (10 ^ 18) else be_bytes 32 2)),
     ctxErr = (\<lambda>_. None)\<rparr>"

definition sample_block :: BlockHeader where
  "sample_block = \<lparr>hNumber = 7, hHash = replicate 32 1\<rparr>"

definition sample_call :: call4 where
  "sample_call = \<lparr>call_env = sample_node, latest = Inr sample_block,
     byNumber = (\<lambda>_ n. Inr \<lparr>hNumber = n, hHash = replicate 32 1\<rparr>), at_start = 10, at_observed = 11, at_received = 12, at_end = 13,
     ctx_gate = None, ctx_late = None, during = []\<rparr>"

definition sample_config :: PoolConfig where
  "sample_config = \<lparr>PoolManager = replicate 20 1, StateView = replicate 20 2, Currency0 = replicate 20 3, Currency1 = replicate 20 4,
     Hooks = empty_address, Fee = 3000, TickSpacing = 60\<rparr>"

definition sample_cfg :: cache_config4 where
  "sample_cfg = \<lparr>pool = replicate 20 1, poolID = replicate 32 9, lp_fee = 3000, key_spacing = 60, maxAge = 5\<rparr>"

definition sample_new :: StateCache4 where
  "sample_new = \<lparr>generation = 0, active = False, running = False, floor_block = 0, floorHash = empty_hash,
     covered = \<lparr>hNumber = 0, hHash = empty_hash\<rparr>, verificationEpoch = 0, snapshot = None, cachedGeneration = 0,
     retained4 = None, retainedBlock4 = 0, retainedHash4 = empty_hash, retainedIndex4 = 0, retainedHasLog4 = False,
     journal4 = empty_journal\<rparr>"

definition sample_fresh :: poolSnapshot4 where
  "sample_fresh = (fresh_snapshot sample_call sample_block)\<lparr>sPrice := 2 ^ 96 + 2 ^ 80, sTick := 0, fees := (3000, 3000),
     sLiquidity := 10 ^ 18, sSpacing := 60, received := 12\<rparr>"

definition sample_used :: poolSnapshot4 where
  "sample_used = sample_fresh\<lparr>words := [0 \<mapsto> 2]\<rparr>"

lemma sample_new_cache: "NewStateCache4 (\<lambda>_. replicate 32 9) sample_config 5 = Inr (sample_cfg, sample_new)"
proof -
  have "be_int (replicate 20 3) < be_int (replicate 20 4)" "replicate 20 (1 :: u8) \<noteq> empty_address" "replicate 20 (2 :: u8) \<noteq> empty_address"
    by code_simp+
  then show ?thesis
    by (simp add: NewStateCache4_def sample_config_def sample_cfg_def sample_new_def not_le)
qed

lemma sample_reads:
  "0 < b \<Longrightarrow> read4 sample_node pid ''getSlot0(bytes32)'' None (s, b) = (Inr sample_slot0, (s, b - 1))"
  "0 < b \<Longrightarrow> read4 sample_node pid ''getLiquidity(bytes32)'' None (s, b) = (Inr (be_bytes 32 (10 ^ 18)), (s, b - 1))"
  "0 < b \<Longrightarrow> read4 sample_node pid ''getTickBitmap(bytes32,int16)'' (Some 0) (s, b) = (Inr (be_bytes 32 2), (s, b - 1))"
proof -
  have "encode_arg (Some 0) = Inr (replicate 32 0)" by code_simp
  then show "0 < b \<Longrightarrow> read4 sample_node pid ''getSlot0(bytes32)'' None (s, b) = (Inr sample_slot0, (s, b - 1))"
    "0 < b \<Longrightarrow> read4 sample_node pid ''getLiquidity(bytes32)'' None (s, b) = (Inr (be_bytes 32 (10 ^ 18)), (s, b - 1))"
    "0 < b \<Longrightarrow> read4 sample_node pid ''getTickBitmap(bytes32,int16)'' (Some 0) (s, b) = (Inr (be_bytes 32 2), (s, b - 1))"
    by (simp_all add: read4_def encode_arg_def [of None] sample_node_def)
qed

lemma sample_capture4: "capture4 sample_cfg sample_call 0 empty_hash 64 = (Inr sample_fresh, 62)"
proof -
  have slot: "decode_slot0 3000 sample_slot0 = Inr (2 ^ 96 + 2 ^ 80, 0, 3000, 3000)" by code_simp
  have liq: "decode_active_liquidity (be_bytes 32 (10 ^ 18)) = Inr (10 ^ 18)" by code_simp
  have head: "capture_header sample_call 0 empty_hash = Inr sample_block"
  proof -
    have "replicate 32 (1 :: u8) \<noteq> empty_hash" by code_simp
    then show ?thesis by (simp add: capture_header_def sample_call_def sample_block_def)
  qed
  have cfg: "lp_fee sample_cfg = 3000" "key_spacing sample_cfg = 60" "call_env sample_call = sample_node"
    by (simp_all add: sample_cfg_def sample_call_def)
  show ?thesis
    unfolding capture4_def head cfg
    by (simp add: andthen_Inr sample_reads slot liq [simplified] sample_fresh_def) (simp add: sample_call_def)
qed

lemma quote4_one_turn:
  assumes "nextTick4 env pid (sTick s) zero (s, b) = (Inr (nx, ini), z)" and "ctxErr env 0 = None" and "0 < amount"
    and "next_target zero (max minTick (min maxTick nx)) = (t, lim)"
    and "calculateStep4 (sPrice s) t (sLiquidity s) amount (directed_fee zero (fst z)) input zero = Inr st"
    and "(if input then in_amount st + fee_amount st else out_amount st) = amount"
    and "\<not> BitLen_gt (if input then out_amount st else in_amount st + fee_amount st) 256"
  shows "quote4 env pid amount zero input (s, b)
    = (Inr (if input then out_amount st else in_amount st + fee_amount st, fee_amount st), z)"
proof -
  have two: "(2048 :: nat) = Suc 2047" by simp
  have cut: "(2048 - Suc 2047 :: nat) = 0" by simp
  obtain s' b' where z: "z = (s', b')" by (cases z)
  show ?thesis
    using assms unfolding quote4_def proc_simps prod.case two quote_loop4.simps cut
    by (cases input) (simp_all add: andthen_Inr Let_def z)
qed

lemma sample_bid_run:
  "quote4 sample_node (poolID sample_cfg) 1000000 False True (sample_fresh, 62) = (Inr (996969, 3000), (sample_used, 61))"
proof -
  have t: "next_target False 60 = (sqrtAtTick 60, sqrtAtTick maxTick - 1)" by code_simp
  have step: "calculateStep4 (2 ^ 96 + 2 ^ 80) (sqrtAtTick 60) (10 ^ 18) 1000000 3000 True False
      = Inr \<lparr>price = 79229371440162942700745378056, in_amount = 997000, out_amount = 996969, fee_amount = 3000\<rparr>"
    by code_simp
  have facts: "scan_bits 2 False 1 = Some 1" "compress 0 60 = 0" "drop_bit 8 (1::int) = 0" "(1::int) AND 255 = 1"
    "be_int (be_bytes 32 2) = 2"
    by code_simp+
  have "nextTick4 sample_node (poolID sample_cfg) 0 False (sample_fresh, 62) = (Inr (60, True), (sample_used, 61))"
    using facts by (simp add: nextTick4_def bitmap_at4_def andthen_Inr sample_reads sample_used_def sample_fresh_def fresh_snapshot_def)
  then show ?thesis
    using quote4_one_turn [where env = sample_node and pid = "poolID sample_cfg" and s = sample_fresh and zero = False and b = 62
        and nx = 60 and amount = 1000000 and input = True] t step
    by (simp add: sample_fresh_def sample_used_def directed_fee_def sample_node_def BitLen_gt_def)
qed

lemma sample_ask_run:
  "quote4 sample_node (poolID sample_cfg) 1000000 True False (sample_used, 61) = (Inr (1002979, 3009), (sample_used, 61))"
proof -
  have t: "next_target True 0 = (sqrtAtTick 0, sqrtAtTick minTick + 1)" by code_simp
  have step: "calculateStep4 (2 ^ 96 + 2 ^ 80) (sqrtAtTick 0) (10 ^ 18) 1000000 3000 False True
      = Inr \<lparr>price = 79229371440004724060204392174, in_amount = 999970, out_amount = 1000000, fee_amount = 3009\<rparr>"
    by code_simp
  have facts: "scan_bits 2 True 0 = None" "compress 0 60 = 0" by code_simp+
  have fields: "sPrice sample_used = 2 ^ 96 + 2 ^ 80" "sLiquidity sample_used = 10 ^ 18" "sTick sample_used = 0"
    "directed_fee True sample_used = 3000" "words sample_used 0 = Some 2" "sSpacing sample_used = 60" "ctxErr sample_node 0 = None"
    by (simp_all add: sample_used_def sample_fresh_def directed_fee_def sample_node_def)
  have nxt: "nextTick4 sample_node (poolID sample_cfg) (sTick sample_used) True (sample_used, 61) = (Inr (0, False), (sample_used, 61))"
    using facts by (simp add: nextTick4_def bitmap_at4_def fields)
  show ?thesis
    using quote4_one_turn [where input = False and amount = 1000000, OF nxt fields(7) _ _ _, of "sqrtAtTick 0" "sqrtAtTick minTick + 1"
        "\<lparr>price = 79229371440004724060204392174, in_amount = 999970, out_amount = 1000000, fee_amount = 3009\<rparr>"] t step
    by (simp add: fields BitLen_gt_def)
qed

lemma sample_calculate: "calculate_pair sample_cfg sample_call sample_new 1000000 False = Inr (sample_used, 996969, 1002979)"
proof -
  have r: "reusable4 sample_cfg sample_call sample_new = None" by (simp add: reusable4_def sample_new_def)
  have c: "call_env sample_call = sample_node" "active sample_new = False" "floor_block sample_new = 0"
    by (simp_all add: sample_call_def sample_new_def)
  have h: "sHeader sample_fresh = sample_block" "sHeader sample_used = sample_block"
    by (simp_all add: sample_used_def sample_fresh_def fresh_snapshot_def)
  have v: "verify_block sample_call 1 sample_block = Inr ()" by (simp add: verify_block_def sample_call_def sample_block_def)
  show ?thesis by (simp add: calculate_pair_def r c h v [simplified] sample_capture4 sample_bid_run sample_ask_run)
qed

definition sample_after :: StateCache4 where
  "sample_after = sample_new\<lparr>covered := sample_block, retained4 := Some sample_used, retainedBlock4 := 7, retainedHash4 := replicate 32 1,
     retainedHasLog4 := False, snapshot := Some sample_used, cachedGeneration := 0\<rparr>"

lemma sample_pair:
  "QuotePair4 sample_cfg sample_call (Some 1000000) False sample_new
     = (Inr \<lparr>BidAmountOut = 996969, AskAmountIn = 1002979, pairBlockNumber = 7, pairBlockHash = replicate 32 1,
             pairReceivedAt = 12, pairObservedAt = 11\<rparr>, sample_after)"
proof -
  have c: "during sample_call = []" "ctx_gate sample_call = None" "at_end sample_call = 13" "maxAge sample_cfg = 5" "generation sample_new = 0"
    by (simp_all add: sample_call_def sample_cfg_def sample_new_def)
  have u: "sHeader sample_used = sample_block" "observed sample_used = 11" "received sample_used = 12"
    by (simp_all add: sample_used_def sample_fresh_def fresh_snapshot_def sample_call_def)
  show ?thesis
    unfolding QuotePair4_def by (simp add: c u BitLen_gt_def sample_calculate sample_after_def sample_block_def Let_def)
qed

lemma sample_reachable4: "cache_reachable4 sample_cfg sample_new" "cache_reachable4 sample_cfg sample_after"
  using sample_new_cache quote_step4 [OF sample_pair] unfolding cache_reachable4_def by blast+

lemma sample_used_sane: "sane sample_used"
  by (simp add: sane_def loop_inv_def sample_used_def sample_fresh_def sqrtAtTick_0 sqrtAtTick_1 sqrtAtTick_min sqrtAtTick_max)

lemma sample_node_clean: "env_clean sample_node" "\<And>n. ctxErr sample_node n = None"
  by (simp_all add: env_clean_def sample_node_def)


lemma QuotePair4_no_crossing_witness: "(996969 :: int) \<le> 1002979 \<and> retained4 sample_after = Some sample_used"
proof -
  have r: "retained4 sample_after = Some sample_used" by (simp add: sample_after_def)
  have "call_env sample_call = sample_node" "during sample_call = []" "lp_fee sample_cfg \<le> 999998"
    by (simp_all add: sample_call_def sample_cfg_def)
  then show ?thesis
    using QuotePair4_no_crossing [OF sample_pair _ cache_reachable4_ok(1) [OF sample_reachable4(1)] _ _ r sample_used_sane]
      sample_node_clean(1) r by simp
qed

lemma cache4_inputs_in_range_witness:
  "sSpacing sample_used = 60 \<and> directed_fee True sample_used < 1000000 \<and> retained4 sample_after = Some sample_used"
proof -
  have r: "retained4 sample_after = Some sample_used" by (simp add: sample_after_def)
  then show ?thesis
    using cache4_inputs_in_range [OF sample_reachable4(2), of sample_used True] by (simp add: sample_cfg_def)
qed

definition sample_modify_log :: Log where
  "sample_modify_log = \<lparr>lAddress = replicate 20 1, lTopics = [replicate 32 1, replicate 32 2, replicate 32 3],
     lData = (replicate 31 255 @ [196]) @ (replicate 31 0 @ [60]) @ (replicate 31 0 @ [100]) @ replicate 32 0,
     lBlockNumber = 9, lTxHash = replicate 32 3, lTxIndex = 0, lBlockHash = replicate 32 9, lIndex = 4, lRemoved = False\<rparr>"

lemma sample_agrees4: "agrees sample_gross sample_net sample_pool4"
proof -
  have b2: "bit (2::int) i \<longleftrightarrow> i = 1" for i using bit_exp_iff [where 'a = int, of 1 i] by auto
  have b255: "bit (2 ^ 255 :: int) i \<longleftrightarrow> i = 255" for i by (simp only: bit_exp_iff) auto
  have n: "nat i = 1 \<longleftrightarrow> i = 1" "nat i = 255 \<longleftrightarrow> i = 255" for i by auto
  show ?thesis
    unfolding agrees_def sample_pool4_def
    by (auto simp: sample_gross_def sample_net_def b2 b255 [simplified] n split: if_splits)
qed

lemma applyRetainedLiquidity4_tracks_witness:
  "\<exists>s'. applyRetainedLiquidity4 sample_pool4 sample_modify_log = Inr s' \<and> sLiquidity s' = 10 ^ 18 + 100"
proof -
  have dec: "decode_modify (sSpacing sample_pool4) sample_modify_log = Inr (- 60, 60, 100)" by code_simp
  have "sLiquidity sample_pool4 = 10 ^ 18" "sTick sample_pool4 = 0" by (simp_all add: sample_pool4_def)
  with applyRetainedLiquidity4_tracks [OF sample_agrees4 dec] show ?thesis
    by (auto simp: tick_valid_def sample_gross_def sample_net_def)
qed

end
