(* ===== verification/V4_Window.thy ===== *)
theory V4_Window
  imports V4_Cache
begin

text \<open>
  \<open>go/venues/uniswap/v4\<close>: the capture of the three bitmap words around the price with every initialized tick in them
  (\<open>retained_bitmap.go\<close>, \<open>retained_ticks.go\<close>, and \<open>resumeRetainedWindow\<close> of \<open>retained_subscription.go\<close>). A capture that fails keeps the batches it
  has validated and is resumed by the next attempt, so an attempt is a procedure on the progress. \<open>att_batch\<close> is the batch reader, if the
  client has one; \<open>att_ctx\<close> is what the context reports before each batch. Whether the window has to be captured again
  is, word for word, \<open>retainedNeedsCapture\<close> of v3.
\<close>

section \<open>The words of the window\<close>

type_synonym batch_reader = "bytes list \<Rightarrow> u64 \<Rightarrow> (bytes list \<times> failure option list) res"

record attempt =
  att_call :: call4
  att_batch :: "batch_reader option"
  att_ctx :: "nat \<Rightarrow> failure option"

fun encode_all :: "int list \<Rightarrow> bytes list res" where
  "encode_all [] = Inr []"
| "encode_all (a # as) = ebind (encode_arg (Some a)) (\<lambda>b. ebind (encode_all as) (\<lambda>bs. Inr (b # bs)))"

definition first_failure :: "failure option list \<Rightarrow> failure option" where
  "first_failure fs = (case filter (\<lambda>f. f \<noteq> None) fs of [] \<Rightarrow> None | f # _ \<Rightarrow> f)"

definition batch_call :: "batch_reader \<Rightarrow> Env \<Rightarrow> Hash \<Rightarrow> string \<Rightarrow> u64 \<Rightarrow> int list \<Rightarrow> (bytes list \<times> failure option list) res" where
  "batch_call f env pid sig number args =
     ebind (encode_all args) (\<lambda>encoded.
     ebind (f (List.map (\<lambda>a. selector env sig @ pid @ a) encoded) number) (\<lambda>(results, failures).
     if length results \<noteq> length args \<or> length failures \<noteq> length args then Inl (Fail ''results=invalid'')
     else Inr (results, failures)))"

fun read_each :: "Env \<Rightarrow> Hash \<Rightarrow> string \<Rightarrow> int list \<Rightarrow> (poolSnapshot4 \<times> int, bytes list) proc" where
  "read_each env pid sig [] = ret []"
| "read_each env pid sig (a # as) =
     andthen (read4 env pid sig (Some a)) (\<lambda>v. andthen (read_each env pid sig as) (\<lambda>vs. ret (v # vs)))"

definition window_values :: "attempt \<Rightarrow> Hash \<Rightarrow> int list \<Rightarrow> (poolSnapshot4 \<times> int, bytes list) proc" where
  "window_values att pid ws =
     (let env = call_env (att_call att); sig = ''getTickBitmap(bytes32,int16)''
      in case att_batch att of
           None \<Rightarrow> read_each env pid sig ws
         | Some f \<Rightarrow>
             reading (\<lambda>(s, budget).
               if budget < int (length ws) then throw errStateReadBudget
               else
                 andthen (update (\<lambda>(s, budget). (s, budget - int (length ws)))) (\<lambda>_.
                 andthen (lift (batch_call f env pid sig (hNumber (sHeader s)) ws)) (\<lambda>(results, failures).
                 case first_failure failures of Some e \<Rightarrow> throw e | None \<Rightarrow> ret results))))"

definition readBitmapWindow :: "attempt \<Rightarrow> Hash \<Rightarrow> int \<Rightarrow> int \<Rightarrow> (poolSnapshot4 \<times> int, unit) proc" where
  "readBitmapWindow att pid lower upper =
     andthen (window_values att pid [lower..upper]) (\<lambda>values.
     if list_ex (\<lambda>v. length v \<noteq> 32) values then throw (Fail ''result=invalid'')
     else update (\<lambda>(s, budget). (s\<lparr>words := words s ++ map_of (zip [lower..upper] (List.map be_int values))\<rparr>, budget)))"

section \<open>The ticks of the window\<close>

fun window_tick_list :: "poolSnapshot4 \<Rightarrow> int list \<Rightarrow> int list res" where
  "window_tick_list s [] = Inr []"
| "window_tick_list s (w # ws) =
     (case words s w of None \<Rightarrow> Inl (Fail ''bitmap=null'')
      | Some bitmap \<Rightarrow>
          (let found = List.map (\<lambda>i. (w * 256 + int i) * sSpacing s) (filter (bit bitmap) [0..<256])
           in if list_ex (\<lambda>t. t < - 887272 \<or> t > 887272) found then Inl (Fail ''tick=out_of_range'')
              else ebind (window_tick_list s ws) (\<lambda>ts. Inr (found @ ts))))"

definition empty_snapshot :: poolSnapshot4 where
  "empty_snapshot =
     \<lparr>windowCenter = 0, windowCaptured = False, sHeader = \<lparr>hNumber = 0, hHash = empty_hash\<rparr>, observed = 0, received = 0, sPrice = 0,
      sLiquidity = 0, sTick = 0, sSpacing = 0, words = Map.empty, ticks = Map.empty, gross = Map.empty, fees = (0, 0)\<rparr>"

record tick_progress =
  staged :: "poolSnapshot4 option"
  next_tick :: nat

fun store_batch :: "poolSnapshot4 \<Rightarrow> int list \<Rightarrow> bytes list \<Rightarrow> failure option list \<Rightarrow> poolSnapshot4 res" where
  "store_batch s (t # ts) (v # vs) (f # fs) =
     (case f of Some e \<Rightarrow> Inl e
      | None \<Rightarrow> ebind (storeTickDetails4 s t v) (\<lambda>(_, s). store_batch s ts vs fs))"
| "store_batch s _ _ _ = Inr s"

fun store_each :: "Env \<Rightarrow> Hash \<Rightarrow> poolSnapshot4 \<Rightarrow> int list \<Rightarrow> (poolSnapshot4 \<times> int, poolSnapshot4) proc" where
  "store_each env pid st [] = ret st"
| "store_each env pid st (t # ts) =
     andthen (read4 env pid ''getTickLiquidity(bytes32,int24)'' (Some t)) (\<lambda>data.
     andthen (lift (storeTickDetails4 st t data)) (\<lambda>(_, st). store_each env pid st ts))"

text \<open>One batch of at most 32 ticks, into a snapshot of its own.\<close>

definition batch_details :: "attempt \<Rightarrow> Hash \<Rightarrow> int list \<Rightarrow> (poolSnapshot4 \<times> int, poolSnapshot4) proc" where
  "batch_details att pid ts =
     (let env = call_env (att_call att)
      in case att_batch att of
           None \<Rightarrow> store_each env pid empty_snapshot ts
         | Some f \<Rightarrow>
             reading (\<lambda>(s, _).
               andthen (lift (batch_call f env pid ''getTickLiquidity(bytes32,int24)'' (hNumber (sHeader s)) ts)) (\<lambda>(values, failures).
               lift (store_batch empty_snapshot ts values failures))))"

definition keep_batch :: "poolSnapshot4 \<Rightarrow> nat \<Rightarrow> tick_progress \<Rightarrow> tick_progress" where
  "keep_batch st k p =
     p\<lparr>staged := map_option (\<lambda>s. s\<lparr>ticks := ticks s ++ ticks st, gross := gross s ++ gross st\<rparr>) (staged p),
       next_tick := next_tick p + k\<rparr>"

text \<open>The batches from the \<open>n\<close>th on. The progress keeps every batch that was read before an error.\<close>

fun read_batches4 :: "attempt \<Rightarrow> Hash \<Rightarrow> poolSnapshot4 \<Rightarrow> int \<Rightarrow> nat \<Rightarrow> int list list \<Rightarrow> (tick_progress, unit) proc" where
  "read_batches4 att pid s budget n [] = ret ()"
| "read_batches4 att pid s budget n (ts # rest) =
     (case att_ctx att n of Some e \<Rightarrow> throw e
      | None \<Rightarrow>
          (case batch_details att pid ts (s, budget) of (Inl e, _) \<Rightarrow> throw e
           | (Inr st, (_, budget)) \<Rightarrow>
               andthen (update (keep_batch st (length ts))) (\<lambda>_. read_batches4 att pid s budget (Suc n) rest)))"

fun batches_of :: "nat \<Rightarrow> int list \<Rightarrow> int list list" where
  "batches_of k ts = (if ts = [] \<or> k = 0 then [] else take k ts # batches_of k (drop k ts))"

declare batches_of.simps [simp del]

definition resumeWindowTicks :: "attempt \<Rightarrow> Hash \<Rightarrow> int \<Rightarrow> int \<Rightarrow> (poolSnapshot4 \<times> tick_progress, unit) proc" where
  "resumeWindowTicks att pid lower upper =
     reading (\<lambda>(s, p).
       if lower > upper \<or> upper - lower > 2 \<or> sSpacing s \<le> 0 then throw (Fail ''window=invalid'')
       else
         andthen (lift (window_tick_list s [lower..upper])) (\<lambda>all.
         (let p = (case staged p of None \<Rightarrow> p\<lparr>staged := Some empty_snapshot\<rparr> | Some _ \<Rightarrow> p);
              batches = batches_of 32 (drop (next_tick p) all)
          in (\<lambda>_. case andthen (read_batches4 att pid s (int (length all)) 0 batches)
                          (\<lambda>_. case att_ctx att (length batches) of Some e \<Rightarrow> throw e | None \<Rightarrow> ret ()) p of
                     (Inl e, p) \<Rightarrow> (Inl e, (s, p))
                   | (Inr _, p) \<Rightarrow>
                       (case staged p of None \<Rightarrow> (Inr (), (s, p))
                        | Some st \<Rightarrow> (Inr (), (s\<lparr>ticks := ticks s ++ ticks st, gross := gross s ++ gross st\<rparr>, p)))))))"

section \<open>A capture that can be resumed\<close>

record window_capture =
  wc_snapshot :: "poolSnapshot4 option"
  bitmapReady :: bool
  wc_ticks :: tick_progress

definition new_capture :: window_capture where
  "new_capture = \<lparr>wc_snapshot = None, bitmapReady = False, wc_ticks = \<lparr>staged = None, next_tick = 0\<rparr>\<rparr>"

definition verifyRetainedCapture :: "call4 \<Rightarrow> nat \<Rightarrow> (window_capture, unit) proc" where
  "verifyRetainedCapture k n =
     reading (\<lambda>p. case wc_snapshot p of None \<Rightarrow> throw (Panic ''nil pointer'')
       | Some s \<Rightarrow>
           andthen (lift (byNumber k n (hNumber (sHeader s)))) (\<lambda>header.
           if hNumber header \<noteq> hNumber (sHeader s) \<or> hHash header \<noteq> hHash (sHeader s)
           then andthen (update (\<lambda>_. new_capture)) (\<lambda>_. throw (Fail ''block_hash=mismatch''))
           else ret ()))"

definition window_bounds :: "poolSnapshot4 \<Rightarrow> (int \<times> int \<times> int) res" where
  "window_bounds s =
     ebind (bitmapWord (sTick s) (sSpacing s)) (\<lambda>center.
     ebind (bitmapWord (- 887272) (sSpacing s)) (\<lambda>minWord.
     ebind (bitmapWord 887272 (sSpacing s)) (\<lambda>maxWord.
     Inr (center, max (i32 (center - 1)) minWord, min (i32 (center + 1)) maxWord))))"

text \<open>The state that an attempt starts from: a new capture, or the old one if its block is still the same.\<close>

definition begin_capture :: "cache_config4 \<Rightarrow> attempt \<Rightarrow> u64 \<Rightarrow> Hash \<Rightarrow> (window_capture, int) proc" where
  "begin_capture cfg att floor hash =
     reading (\<lambda>p. case wc_snapshot p of
       None \<Rightarrow>
         (case capture4 cfg (att_call att) floor hash 64 of (Inl e, _) \<Rightarrow> throw e
          | (Inr s, budget) \<Rightarrow> andthen (update (\<lambda>p. p\<lparr>wc_snapshot := Some s\<rparr>)) (\<lambda>_. ret budget))
     | Some _ \<Rightarrow> andthen (verifyRetainedCapture (att_call att) 1) (\<lambda>_. ret 64))"

definition fill_bitmap :: "attempt \<Rightarrow> Hash \<Rightarrow> int \<Rightarrow> int \<Rightarrow> int \<Rightarrow> poolSnapshot4 \<Rightarrow> (window_capture, poolSnapshot4) proc" where
  "fill_bitmap att pid lower upper budget s =
     reading (\<lambda>p.
       if bitmapReady p then ret s
       else
         (case readBitmapWindow att pid lower upper (s, budget) of (Inl e, _) \<Rightarrow> throw e
          | (Inr _, (s, _)) \<Rightarrow> andthen (update (\<lambda>p. p\<lparr>wc_snapshot := Some s, bitmapReady := True\<rparr>)) (\<lambda>_. ret s)))"

definition fill_ticks :: "attempt \<Rightarrow> Hash \<Rightarrow> int \<Rightarrow> int \<Rightarrow> poolSnapshot4 \<Rightarrow> (window_capture, unit) proc" where
  "fill_ticks att pid lower upper s =
     (\<lambda>p. case resumeWindowTicks att pid lower upper (s, wc_ticks p) of
            (r, (s, t)) \<Rightarrow> (r, p\<lparr>wc_snapshot := Some s, wc_ticks := t\<rparr>))"

definition resumeRetainedWindow :: "cache_config4 \<Rightarrow> attempt \<Rightarrow> u64 \<Rightarrow> Hash \<Rightarrow> (window_capture, poolSnapshot4) proc" where
  "resumeRetainedWindow cfg att floor hash =
     andthen (begin_capture cfg att floor hash) (\<lambda>budget.
     reading (\<lambda>p. case wc_snapshot p of None \<Rightarrow> throw (Panic ''nil pointer'')
       | Some s \<Rightarrow>
           andthen (lift (window_bounds s)) (\<lambda>(center, lower, upper).
           let s = s\<lparr>windowCenter := center, windowCaptured := True\<rparr>
           in andthen (update (\<lambda>p. p\<lparr>wc_snapshot := Some s\<rparr>)) (\<lambda>_.
              andthen (fill_bitmap att (poolID cfg) lower upper budget s) (\<lambda>s.
              andthen (fill_ticks att (poolID cfg) lower upper s) (\<lambda>_.
              andthen (verifyRetainedCapture (att_call att) 2) (\<lambda>_.
              reading (\<lambda>p. case wc_snapshot p of None \<Rightarrow> throw (Panic ''nil pointer'') | Some s \<Rightarrow> ret s))))))))"

section \<open>What is staged\<close>

definition detailed :: "poolSnapshot4 \<Rightarrow> int \<Rightarrow> bool" where
  "detailed s t \<longleftrightarrow> ticks s t \<noteq> None \<and> gross s t \<noteq> None"

lemma store_detailed:
  "storeTickDetails4 s t v = Inr (n, s') \<Longrightarrow> detailed s' t \<and> (\<forall>u. detailed s u \<longrightarrow> detailed s' u)"
  by (auto simp: storeTickDetails4_def detailed_def Let_def split: if_splits)

lemma store_batch_detailed:
  "store_batch s ts vs fs = Inr s' \<Longrightarrow> length vs = length ts \<Longrightarrow> length fs = length ts \<Longrightarrow>
     (\<forall>t \<in> set ts. detailed s' t) \<and> (\<forall>u. detailed s u \<longrightarrow> detailed s' u)"
proof (induction s ts vs fs rule: store_batch.induct)
  case (1 s t ts v vs f fs)
  then obtain n s1 where "storeTickDetails4 s t v = Inr (n, s1)" "store_batch s1 ts vs fs = Inr s'" "f = None"
    by (auto split: option.splits)
  then show ?case using 1 store_detailed [of s t v n s1] by auto
qed auto

lemma store_each_detailed:
  "store_each env pid st ts (s, b) = (Inr st', (s', b')) \<Longrightarrow> (\<forall>t \<in> set ts. detailed st' t) \<and> (\<forall>u. detailed st u \<longrightarrow> detailed st' u)"
proof (induction ts arbitrary: st s b)
  case (Cons t ts)
  then obtain data b1 n st1 where "storeTickDetails4 st t data = Inr (n, st1)" "store_each env pid st1 ts (s, b1) = (Inr st', (s', b'))"
    by (auto dest!: read4_Inr)
  then show ?case using Cons.IH [of st1 s b1] store_detailed [of st t data n st1] by auto
qed simp

lemma batch_call_lengths: "batch_call f env pid sig n args = Inr (rs, fs) \<Longrightarrow> length rs = length args \<and> length fs = length args"
  by (auto simp: batch_call_def split: if_splits)

lemma batch_details_detailed: "batch_details att pid ts (s, b) = (Inr st, z) \<Longrightarrow> \<forall>t \<in> set ts. detailed st t"
  by (cases z) (auto simp: batch_details_def Let_def dest!: batch_call_lengths store_batch_detailed store_each_detailed split: option.splits)

lemma keep_batch_fields:
  assumes "staged p = Some st0" and "\<forall>t \<in> set ts. detailed st t"
  shows "\<exists>st'. staged (keep_batch st (length ts) p) = Some st' \<and> next_tick (keep_batch st (length ts) p) = next_tick p + length ts
    \<and> (\<forall>t \<in> set ts. detailed st' t) \<and> (\<forall>u. detailed st0 u \<longrightarrow> detailed st' u)"
  using assms by (auto simp: keep_batch_def detailed_def map_add_def split: option.splits)

text \<open>Whatever happens, the progress knows the details of exactly the ticks that it counts.\<close>

lemma read_batches4_progress:
  "read_batches4 att pid s b n bs p = (r, p') \<Longrightarrow> staged p = Some st0 \<Longrightarrow>
     \<exists>k st. k \<le> length (concat bs) \<and> next_tick p' = next_tick p + k \<and> staged p' = Some st
       \<and> (\<forall>t \<in> set (take k (concat bs)). detailed st t) \<and> (\<forall>u. detailed st0 u \<longrightarrow> detailed st u)
       \<and> (r = Inr () \<longrightarrow> k = length (concat bs))"
proof (induction bs arbitrary: b n p st0)
  case Nil
  then show ?case by auto
next
  case (Cons ts bs)
  show ?case
  proof (cases "\<exists>st z. att_ctx att n = None \<and> batch_details att pid ts (s, b) = (Inr st, z)")
    case False
    then have "p' = p \<and> (\<exists>e. r = Inl e)"
      using Cons.prems(1) by (auto split: option.splits prod.splits sum.splits)
    then show ?thesis using Cons.prems(2) by (intro exI [of _ 0] exI [of _ st0]) auto
  next
    case True
    then obtain st s1 b1 where d: "att_ctx att n = None" "batch_details att pid ts (s, b) = (Inr st, (s1, b1))" by auto
    then have run: "read_batches4 att pid s b1 (Suc n) bs (keep_batch st (length ts) p) = (r, p')"
      using Cons.prems(1) by simp
    obtain st1 where st1: "staged (keep_batch st (length ts) p) = Some st1"
      "next_tick (keep_batch st (length ts) p) = next_tick p + length ts"
      "\<forall>t \<in> set ts. detailed st1 t" "\<forall>u. detailed st0 u \<longrightarrow> detailed st1 u"
      using keep_batch_fields [OF Cons.prems(2) batch_details_detailed [OF d(2)]] by blast
    obtain k st2 where "k \<le> length (concat bs)" "next_tick p' = next_tick p + length ts + k" "staged p' = Some st2"
      "\<forall>t \<in> set (take k (concat bs)). detailed st2 t" "\<forall>u. detailed st1 u \<longrightarrow> detailed st2 u"
      "r = Inr () \<longrightarrow> k = length (concat bs)"
      using Cons.IH [OF run st1(1)] st1(2) by auto
    then show ?thesis using st1 by (intro exI [of _ "length ts + k"] exI [of _ st2]) auto
  qed
qed

lemma concat_batches: "0 < k \<Longrightarrow> concat (batches_of k ts) = ts"
proof (induction k ts rule: batches_of.induct)
  case (1 k ts)
  then show ?case by (cases "ts = []") (simp_all add: batches_of.simps [of k ts] batches_of.simps [of k "[]"])
qed

definition staged_ok :: "poolSnapshot4 \<Rightarrow> int list \<Rightarrow> tick_progress \<Rightarrow> bool" where
  "staged_ok s ws t \<longleftrightarrow> (next_tick t = 0 \<and> staged t = None) \<or>
     (\<exists>all st. window_tick_list s ws = Inr all \<and> staged t = Some st \<and> next_tick t \<le> length all
        \<and> (\<forall>x \<in> set (take (next_tick t) all). detailed st x))"

lemma staged_ok_start:
  assumes "staged_ok s ws t" and "window_tick_list s ws = Inr all"
    and "t0 = (case staged t of None \<Rightarrow> t\<lparr>staged := Some empty_snapshot\<rparr> | Some _ \<Rightarrow> t)"
  obtains st where "staged t0 = Some st" and "next_tick t0 = next_tick t" and "next_tick t \<le> length all"
    and "\<forall>x \<in> set (take (next_tick t) all). detailed st x"
  using assms by (auto simp: staged_ok_def)

lemma resumeWindowTicks_progress:
  assumes run: "resumeWindowTicks att pid lower upper (s, t) = (r, (s', t'))" and ok: "staged_ok s [lower..upper] t"
  shows "staged_ok s [lower..upper] t' \<and>
     (if r = Inr () then \<exists>all (st :: poolSnapshot4). window_tick_list s [lower..upper] = Inr all
         \<and> s' = s\<lparr>ticks := ticks s ++ ticks st, gross := gross s ++ gross st\<rparr> \<and> (\<forall>x \<in> set all. detailed s' x)
      else s' = s)"
proof (cases "lower > upper \<or> upper - lower > 2 \<or> sSpacing s \<le> 0 \<or> (\<exists>e. window_tick_list s [lower..upper] = Inl e)")
  case True
  then show ?thesis using run ok by (auto simp: resumeWindowTicks_def split: if_splits)
next
  case False
  then obtain all where all: "window_tick_list s [lower..upper] = Inr all"
    by (cases "window_tick_list s [lower..upper]") auto
  define t0 where "t0 = (case staged t of None \<Rightarrow> t\<lparr>staged := Some empty_snapshot\<rparr> | Some _ \<Rightarrow> t)"
  obtain st0 where t0: "staged t0 = Some st0" "next_tick t0 = next_tick t" "next_tick t \<le> length all"
    "\<forall>x \<in> set (take (next_tick t) all). detailed st0 x"
    by (rule staged_ok_start [OF ok all t0_def])
  define bs where "bs = batches_of 32 (drop (next_tick t0) all)"
  obtain r1 t1 where run1: "read_batches4 att pid s (int (length all)) 0 bs t0 = (r1, t1)"
    by (cases "read_batches4 att pid s (int (length all)) 0 bs t0")
  have cat: "concat bs = drop (next_tick t) all" by (simp add: bs_def concat_batches t0(2))
  obtain k st where k: "k \<le> length all - next_tick t" "next_tick t1 = next_tick t + k" "staged t1 = Some st"
    "\<forall>x \<in> set (take k (drop (next_tick t) all)). detailed st x" "\<forall>u. detailed st0 u \<longrightarrow> detailed st u"
    "r1 = Inr () \<longrightarrow> k = length all - next_tick t"
    using read_batches4_progress [OF run1 t0(1)] t0(2) unfolding cat by auto
  have upto: "\<forall>x \<in> set (take (next_tick t + k) all). detailed st x" using k(4,5) t0(4) by (auto simp: take_add)
  then have ok1: "staged_ok s [lower..upper] t1" using all k t0(3) by (auto simp: staged_ok_def)
  have step: "resumeWindowTicks att pid lower upper (s, t) =
      (case andthen (\<lambda>_. (r1, t1)) (\<lambda>_. case att_ctx att (length bs) of Some e \<Rightarrow> throw e | None \<Rightarrow> ret ()) t0 of
         (Inl e, p) \<Rightarrow> (Inl e, (s, p))
       | (Inr _, p) \<Rightarrow> (case staged p of None \<Rightarrow> (Inr (), (s, p))
            | Some st \<Rightarrow> (Inr (), (s\<lparr>ticks := ticks s ++ ticks st, gross := gross s ++ gross st\<rparr>, p))))"
  proof -
    have "\<not> (lower > upper \<or> upper - lower > 2 \<or> sSpacing s \<le> 0)" using False by simp
    then show ?thesis
      unfolding resumeWindowTicks_def proc_simps prod.case all Let_def t0_def [symmetric] bs_def [symmetric] andthen_simps
      by (simp add: andthen_cases run1)
  qed
  show ?thesis
  proof (cases "r1 = Inr () \<and> att_ctx att (length bs) = None")
    case True
    then have "r = Inr ()" "t' = t1" "s' = s\<lparr>ticks := ticks s ++ ticks st, gross := gross s ++ gross st\<rparr>"
      using run step k(3) by (simp_all add: andthen_def)
    note out = this
    have "\<forall>x \<in> set all. detailed s' x"
      using upto True k(6) t0(3) out(3) by (auto simp: detailed_def map_add_def split: option.splits)
    with all out(3) have "\<exists>all (st :: poolSnapshot4). window_tick_list s [lower..upper] = Inr all
        \<and> s' = s\<lparr>ticks := ticks s ++ ticks st, gross := gross s ++ gross st\<rparr> \<and> (\<forall>x \<in> set all. detailed s' x)" by blast
    then show ?thesis using ok1 out by simp
  next
    case False
    then have "(\<exists>e. r = Inl e) \<and> t' = t1 \<and> s' = s"
      using run step k(3) by (cases r1) (auto simp: andthen_def split: option.splits)
    then show ?thesis using ok1 by auto
  qed
qed

section \<open>What a capture has reached\<close>

definition wc_ok :: "cache_config4 \<Rightarrow> window_capture \<Rightarrow> bool" where
  "wc_ok cfg p \<longleftrightarrow>
     (case wc_snapshot p of None \<Rightarrow> p = new_capture
      | Some s \<Rightarrow> snapshot_ok cfg s \<and>
          (if bitmapReady p
           then windowCaptured s \<and> (\<exists>lower upper. window_bounds s = Inr (windowCenter s, lower, upper)
                  \<and> staged_ok s [lower..upper] (wc_ticks p))
           else wc_ticks p = \<lparr>staged = None, next_tick = 0\<rparr>))"

definition captured_window :: "poolSnapshot4 \<Rightarrow> bool" where
  "captured_window s \<longleftrightarrow> windowCaptured s \<and> (\<exists>lower upper all. window_bounds s = Inr (windowCenter s, lower, upper)
     \<and> window_tick_list s [lower..upper] = Inr all \<and> (\<forall>t \<in> set all. detailed s t))"

lemma wc_ok_new: "wc_ok cfg new_capture"
  by (simp add: wc_ok_def new_capture_def)

lemma window_bounds_cong: "sTick s' = sTick s \<Longrightarrow> sSpacing s' = sSpacing s \<Longrightarrow> window_bounds s' = window_bounds s"
  by (simp add: window_bounds_def)

lemma window_tick_list_cong:
  "words s' = words s \<Longrightarrow> sSpacing s' = sSpacing s \<Longrightarrow> window_tick_list s' ws = window_tick_list s ws"
  by (induction ws) (auto split: option.splits simp: Let_def)

lemma staged_ok_cong: "words s' = words s \<Longrightarrow> sSpacing s' = sSpacing s \<Longrightarrow> staged_ok s' ws t = staged_ok s ws t"
  by (simp add: staged_ok_def window_tick_list_cong [of s' s])

lemma verify_ok:
  assumes "verifyRetainedCapture k n p = (r, p')" and "wc_ok cfg p"
  shows "wc_ok cfg p' \<and> (r = Inr () \<longrightarrow> p' = p)"
  using assms by (auto simp: verifyRetainedCapture_def andthen_def wc_ok_new split: option.splits if_splits sum.splits)

lemma begin_ok:
  assumes "begin_capture cfg att floor hash p = (r, p')" and "wc_ok cfg p"
  shows "wc_ok cfg p' \<and> (\<forall>b. r = Inr b \<longrightarrow> wc_snapshot p' \<noteq> None)"
proof (cases "wc_snapshot p")
  case None
  then have p: "p = new_capture" using assms(2) by (simp add: wc_ok_def)
  obtain r1 b1 where c: "capture4 cfg (att_call att) floor hash 64 = (r1, b1)" by (cases "capture4 cfg (att_call att) floor hash 64")
  show ?thesis
  proof (cases r1)
    case (Inl e)
    then show ?thesis using assms None c by (auto simp: begin_capture_def)
  next
    case (Inr s)
    then have "snapshot_ok cfg s" using capture4_Inr(1) c by blast
    then show ?thesis using assms None c Inr p by (auto simp: begin_capture_def wc_ok_def new_capture_def)
  qed
next
  case (Some s)
  obtain r1 p1 where v: "verifyRetainedCapture (att_call att) 1 p = (r1, p1)" by (cases "verifyRetainedCapture (att_call att) 1 p")
  note verify_ok [OF v assms(2)]
  then show ?thesis using assms(1) Some v by (cases r1) (auto simp: begin_capture_def andthen_def)
qed

lemma mark_ok:
  assumes "wc_ok cfg p" and "wc_snapshot p = Some s" and "window_bounds s = Inr (center, lower, upper)"
  shows "wc_ok cfg (p\<lparr>wc_snapshot := Some (s\<lparr>windowCenter := center, windowCaptured := True\<rparr>)\<rparr>)"
  using assms
  by (auto simp: wc_ok_def snapshot_ok_def window_bounds_cong [of "s\<lparr>windowCenter := center, windowCaptured := True\<rparr>" s]
      staged_ok_cong [of "s\<lparr>windowCenter := center, windowCaptured := True\<rparr>" s])

lemma read_each_state: "read_each env pid sig as (s, b) = (Inr vs, (s', b')) \<Longrightarrow> s' = s"
  by (induction as arbitrary: b vs) (auto dest!: read4_Inr)

lemma window_values_state: "window_values att pid ws (s, b) = (Inr vs, (s', b')) \<Longrightarrow> s' = s"
  by (auto simp: window_values_def Let_def andthen_eq_Inr dest: read_each_state split: option.splits if_splits)

lemma readBitmapWindow_state:
  "readBitmapWindow att pid lower upper (s, b) = (Inr u, (s', b')) \<Longrightarrow> \<exists>m. s' = s\<lparr>words := m\<rparr>"
  by (auto simp: readBitmapWindow_def dest!: window_values_state split: if_splits)

text \<open>The procedures after the marking of the window, on a snapshot whose window is marked.\<close>

definition marked_ok :: "cache_config4 \<Rightarrow> int \<Rightarrow> int \<Rightarrow> window_capture \<Rightarrow> poolSnapshot4 \<Rightarrow> bool" where
  "marked_ok cfg lower upper p s \<longleftrightarrow> wc_ok cfg p \<and> wc_snapshot p = Some s \<and> windowCaptured s
     \<and> window_bounds s = Inr (windowCenter s, lower, upper)"

lemma fill_bitmap_ok:
  assumes run: "fill_bitmap att pid lower upper b s p = (r, p')" and m: "marked_ok cfg lower upper p s"
  shows "wc_ok cfg p' \<and> (\<forall>s'. r = Inr s' \<longrightarrow> marked_ok cfg lower upper p' s' \<and> bitmapReady p')"
proof (cases "bitmapReady p")
  case True
  then show ?thesis using run m by (auto simp: fill_bitmap_def marked_ok_def)
next
  case False
  obtain r1 s1 b1 where rd: "readBitmapWindow att pid lower upper (s, b) = (r1, (s1, b1))"
    by (cases "readBitmapWindow att pid lower upper (s, b)") auto
  show ?thesis
  proof (cases r1)
    case (Inl e)
    then show ?thesis using run m False rd by (auto simp: fill_bitmap_def marked_ok_def)
  next
    case (Inr u)
    obtain w where s1: "s1 = s\<lparr>words := w\<rparr>" using readBitmapWindow_state rd Inr by blast
    have out: "r = Inr s1" "p' = p\<lparr>wc_snapshot := Some s1, bitmapReady := True\<rparr>"
      using run False rd Inr by (simp_all add: fill_bitmap_def)
    have b: "window_bounds s1 = Inr (windowCenter s1, lower, upper)"
      using m window_bounds_cong [of s1 s] by (simp add: marked_ok_def s1)
    have "snapshot_ok cfg s1" "wc_ticks p = \<lparr>staged = None, next_tick = 0\<rparr>" "windowCaptured s1"
      using m False by (auto simp: marked_ok_def wc_ok_def snapshot_ok_def s1)
    with b have "wc_ok cfg p'" by (auto simp: wc_ok_def out staged_ok_def)
    then show ?thesis using b out \<open>windowCaptured s1\<close> by (simp add: marked_ok_def)
  qed
qed

lemma fill_ticks_ok:
  assumes run: "fill_ticks att pid lower upper s p = (r, p')" and m: "marked_ok cfg lower upper p s" and ready: "bitmapReady p"
  shows "wc_ok cfg p' \<and> (r = Inr () \<longrightarrow> (\<exists>s'. wc_snapshot p' = Some s' \<and> captured_window s' \<and> snapshot_ok cfg s'))"
proof -
  obtain s1 t1 where rt: "resumeWindowTicks att pid lower upper (s, wc_ticks p) = (r, (s1, t1))"
    using run by (cases "resumeWindowTicks att pid lower upper (s, wc_ticks p)") (auto simp: fill_ticks_def)
  then have p': "p' = p\<lparr>wc_snapshot := Some s1, wc_ticks := t1\<rparr>" using run by (simp add: fill_ticks_def)
  have st: "staged_ok s [lower..upper] (wc_ticks p)" and ok: "snapshot_ok cfg s" and b: "windowCaptured s"
    "window_bounds s = Inr (windowCenter s, lower, upper)"
    using m ready by (auto simp: marked_ok_def wc_ok_def)
  note pr = resumeWindowTicks_progress [OF rt st]
  show ?thesis
  proof (cases "r = Inr ()")
    case True
    obtain all and sx :: poolSnapshot4 where all: "window_tick_list s [lower..upper] = Inr all"
      and s1: "s1 = s\<lparr>ticks := ticks s ++ ticks sx, gross := gross s ++ gross sx\<rparr>" and det: "\<forall>x \<in> set all. detailed s1 x"
      using pr True by auto
    have b1: "window_bounds s1 = Inr (windowCenter s1, lower, upper)" "windowCaptured s1"
      using b window_bounds_cong [of s1 s] by (simp_all add: s1)
    have t1: "staged_ok s1 [lower..upper] t1" "window_tick_list s1 [lower..upper] = Inr all"
      using pr all staged_ok_cong [of s1 s] window_tick_list_cong [of s1 s] by (simp_all add: s1)
    have ok1: "snapshot_ok cfg s1" using ok by (simp add: snapshot_ok_def s1)
    have "wc_ok cfg p'" using b1 t1(1) ok1 ready by (auto simp: wc_ok_def p')
    moreover have "captured_window s1" using b1 t1(2) det by (auto simp: captured_window_def)
    ultimately show ?thesis using ok1 by (simp add: p')
  next
    case False
    then have "s1 = s" "staged_ok s [lower..upper] t1" using pr by auto
    then show ?thesis using False ok b ready by (auto simp: wc_ok_def p')
  qed
qed

lemma fill_window_ok:
  assumes run: "andthen (fill_bitmap att pid lower upper budget s) (\<lambda>s.
       andthen (fill_ticks att pid lower upper s) (\<lambda>_.
       andthen (verifyRetainedCapture k 2) (\<lambda>_.
       reading (\<lambda>p. case wc_snapshot p of None \<Rightarrow> throw (Panic ''nil pointer'') | Some s \<Rightarrow> ret s)))) p = (r, p')"
    and m: "marked_ok cfg lower upper p s"
  shows "wc_ok cfg p' \<and> (\<forall>s. r = Inr s \<longrightarrow> captured_window s \<and> snapshot_ok cfg s \<and> verify_block k 2 (sHeader s) = Inr ())"
proof -
  obtain r3 p3 where 3: "fill_bitmap att pid lower upper budget s p = (r3, p3)" by (cases "fill_bitmap att pid lower upper budget s p")
  note f3 = fill_bitmap_ok [OF 3 m]
  show ?thesis
  proof (cases r3)
    case (Inl e)
    then show ?thesis using run 3 f3 by (auto simp: andthen_cases)
  next
    case r3: (Inr s3)
    obtain r4 p4 where 4: "fill_ticks att pid lower upper s3 p3 = (r4, p4)" by (cases "fill_ticks att pid lower upper s3 p3")
    have m3: "marked_ok cfg lower upper p3 s3" "bitmapReady p3" using f3 r3 by simp_all
    note f4 = fill_ticks_ok [OF 4 m3]
    obtain r5 p5 where 5: "verifyRetainedCapture k 2 p4 = (r5, p5)" by (cases "verifyRetainedCapture k 2 p4")
    have f5: "wc_ok cfg p5 \<and> (r5 = Inr () \<longrightarrow> p5 = p4)" using verify_ok [OF 5] f4 by blast
    have end_run: "(case r4 of Inl e \<Rightarrow> (Inl e, p4) | Inr _ \<Rightarrow> (case r5 of Inl e \<Rightarrow> (Inl e, p5)
        | Inr _ \<Rightarrow> (case wc_snapshot p5 of None \<Rightarrow> throw (Panic ''nil pointer'') | Some s \<Rightarrow> ret s) p5)) = (r, p')"
      using run 3 r3 4 5 by (simp add: andthen_cases split: sum.splits)
    show ?thesis
    proof (cases "r4 = Inr () \<and> r5 = Inr ()")
      case False
      then show ?thesis using end_run f4 f5 by (cases r4; cases r5) auto
    next
      case True
      obtain s5 where s5: "wc_snapshot p4 = Some s5" "captured_window s5" "snapshot_ok cfg s5" using f4 True by blast
      have "verify_block k 2 (sHeader s5) = Inr ()"
        using 5 True s5(1) by (auto simp: verifyRetainedCapture_def verify_block_def andthen_def split: sum.splits if_splits)
      then show ?thesis using end_run True f5 s5 by auto
    qed
  qed
qed

lemma resumeRetainedWindow_ok:
  assumes run: "resumeRetainedWindow cfg att floor hash p = (r, p')" and ok: "wc_ok cfg p"
  shows "wc_ok cfg p' \<and> (\<forall>s. r = Inr s \<longrightarrow> captured_window s \<and> snapshot_ok cfg s \<and> verify_block (att_call att) 2 (sHeader s) = Inr ())"
proof -
  obtain r1 p1 where 1: "begin_capture cfg att floor hash p = (r1, p1)" by (cases "begin_capture cfg att floor hash p")
  note b = begin_ok [OF 1 ok]
  show ?thesis
  proof (cases r1)
    case (Inl e)
    then show ?thesis using run 1 b by (auto simp: resumeRetainedWindow_def andthen_cases)
  next
    case (Inr budget)
    then obtain s where s: "wc_snapshot p1 = Some s" and ok1: "wc_ok cfg p1" using b by auto
    show ?thesis
    proof (cases "window_bounds s")
      case wb: (Inl e)
      then show ?thesis using run 1 Inr s ok1 by (auto simp: resumeRetainedWindow_def andthen_cases)
    next
      case wb: (Inr x)
      obtain center lower upper where x: "x = (center, lower, upper)" by (cases x)
      define s0 where "s0 = s\<lparr>windowCenter := center, windowCaptured := True\<rparr>"
      have m: "marked_ok cfg lower upper (p1\<lparr>wc_snapshot := Some s0\<rparr>) s0"
        using mark_ok [OF ok1 s wb [unfolded x]] wb window_bounds_cong [of s0 s] by (simp add: marked_ok_def s0_def x)
      show ?thesis
        by (rule fill_window_ok [where att = att and pid = "poolID cfg" and budget = budget, OF _ m])
          (use run 1 Inr s wb x in \<open>simp add: resumeRetainedWindow_def andthen_cases s0_def Let_def\<close>)
    qed
  qed
qed

section \<open>A captured window needs no other capture\<close>

lemma window_tick_list_mem:
  "window_tick_list s ws = Inr all \<Longrightarrow> w \<in> set ws \<Longrightarrow> \<exists>b. words s w = Some b \<and>
     (\<forall>i < 256. bit b i \<longrightarrow> (w * 256 + int i) * sSpacing s \<in> set all \<and> \<bar>(w * 256 + int i) * sSpacing s\<bar> \<le> 887272)"
proof (induction ws arbitrary: all)
  case (Cons v ws)
  then obtain b rest where b: "words s v = Some b" and rest: "window_tick_list s ws = Inr rest"
    and all: "all = List.map (\<lambda>i. (v * 256 + int i) * sSpacing s) (filter (bit b) [0..<256]) @ rest"
    and rng: "\<not> list_ex (\<lambda>t. t < - 887272 \<or> t > 887272) (List.map (\<lambda>i. (v * 256 + int i) * sSpacing s) (filter (bit b) [0..<256]))"
    by (auto simp: Let_def split: option.splits if_splits)
  show ?case
  proof (cases "w = v")
    case True
    then show ?thesis using b rng by (intro exI [of _ b]) (auto simp: all list_ex_iff not_less)
  next
    case False
    then show ?thesis using Cons.IH [OF rest] Cons.prems(2) by (fastforce simp: all)
  qed
qed simp

lemma window_bounds_small:
  assumes "window_bounds s = Inr (c, lower, upper)" and "0 < sSpacing s" and "w \<in> set [lower..upper]"
  shows "\<bar>w\<bar> \<le> 2000001"
proof -
  have small: "\<bar>drop_bit 8 (compress t (sSpacing s))\<bar> \<le> 2000001" if "\<bar>t\<bar> \<le> 2000000" for t
  proof -
    have "\<bar>compress t (sSpacing s)\<bar> \<le> 2000001" using compress_eq [OF assms(2) that] by simp
    then show ?thesis by (simp add: drop_bit_eq_div)
  qed
  have "bitmapWord t (sSpacing s) = Inr (drop_bit 8 (compress t (sSpacing s)))" for t
    using assms(2) by (simp add: bitmapWord_def)
  then have "drop_bit 8 (compress (- 887272) (sSpacing s)) \<le> w" "w \<le> drop_bit 8 (compress 887272 (sSpacing s))"
    using assms by (auto simp: window_bounds_def)
  then show ?thesis using small [of "- 887272"] small [of 887272] by simp
qed

lemma captured_window_needs_none:
  assumes "captured_window s" and sp: "0 < sSpacing s"
  shows "retainedNeedsCapture (Some s) = Inr False"
proof -
  obtain lower upper all where b: "window_bounds s = Inr (windowCenter s, lower, upper)"
    and all: "window_tick_list s [lower..upper] = Inr all" "\<forall>t \<in> set all. detailed s t"
    using assms(1) by (auto simp: captured_window_def)
  have "word_covered s w" if w: "w \<in> set [lower..upper]" for w
  proof -
    obtain bm where bm: "words s w = Some bm" and mem: "\<forall>i < 256. bit bm i \<longrightarrow>
        (w * 256 + int i) * sSpacing s \<in> set all \<and> \<bar>(w * 256 + int i) * sSpacing s\<bar> \<le> 887272"
      using window_tick_list_mem [OF all(1) w] by blast
    have small: "\<bar>w\<bar> \<le> 2000001" by (rule window_bounds_small [OF b sp w])
    have "i32 (i32 (i32 (w * 256) + int i) * sSpacing s) = (w * 256 + int i) * sSpacing s" if i: "i < 256" "bit bm i" for i
    proof -
      have "i32 (w * 256) = w * 256" using small by (intro i32_id) simp_all
      moreover have "i32 (w * 256 + int i) = w * 256 + int i" using small i(1) by (intro i32_id) simp_all
      moreover have "i32 ((w * 256 + int i) * sSpacing s) = (w * 256 + int i) * sSpacing s"
        using mem i by (intro i32_id) (auto simp: abs_le_iff)
      ultimately show ?thesis by simp
    qed
    then show ?thesis using bm mem all(2) by (auto simp: word_covered_def list_all_iff detailed_def)
  qed
  then have "list_all (word_covered s) [lower..upper]" by (simp add: list_all_iff)
  moreover obtain minWord maxWord where "bitmapWord (sTick s) (sSpacing s) = Inr (windowCenter s)"
    "bitmapWord (- 887272) (sSpacing s) = Inr minWord" "bitmapWord 887272 (sSpacing s) = Inr maxWord"
    "lower = max (i32 (windowCenter s - 1)) minWord" "upper = min (i32 (windowCenter s + 1)) maxWord"
    using b by (auto simp: window_bounds_def)
  ultimately show ?thesis by (simp add: retainedNeedsCapture_def window_words_def)
qed

section \<open>Any number of attempts\<close>

text \<open>The attempts of one subscription epoch work on the same progress, one after the other.\<close>

inductive window_attempts :: "cache_config4 \<Rightarrow> window_capture \<Rightarrow> bool" for cfg :: cache_config4 where
  no_attempt: "window_attempts cfg new_capture"
| one_more: "window_attempts cfg p \<Longrightarrow> resumeRetainedWindow cfg att floor hash p = (r, p') \<Longrightarrow> window_attempts cfg p'"

lemma window_attempts_ok: "window_attempts cfg p \<Longrightarrow> wc_ok cfg p"
  by (induction rule: window_attempts.induct) (use wc_ok_new resumeRetainedWindow_ok in blast)+


section \<open>Witness\<close>

text \<open>The node of \<open>V4_Cache\<close> with one tick in the window, read one by one.\<close>

definition window_node :: Env where
  "window_node = \<lparr>selector = (\<lambda>sig. if sig = ''getSlot0(bytes32)'' then [1] else if sig = ''getLiquidity(bytes32)'' then [2]
       else if sig = ''getTickBitmap(bytes32,int16)'' then [3] else [4]),
     callContract = (\<lambda>data _. Inr (if hd data = 1 then sample_slot0 else if hd data = 2 then be_bytes 32 (10 ^ 18)
       else if hd data = 3 then (if last data = 0 then be_bytes 32 2 else be_bytes 32 0)
       else be_bytes 32 (10 ^ 18) @ be_bytes 32 (10 ^ 18))),
     ctxErr = (\<lambda>_. None)\<rparr>"

definition window_attempt :: attempt where
  "window_attempt = \<lparr>att_call = sample_call\<lparr>call_env := window_node\<rparr>, att_batch = None, att_ctx = (\<lambda>_. None)\<rparr>"

lemma window_reads:
  "0 < b \<Longrightarrow> read4 window_node pid ''getSlot0(bytes32)'' None (s, b) = (Inr sample_slot0, (s, b - 1))"
  "0 < b \<Longrightarrow> read4 window_node pid ''getLiquidity(bytes32)'' None (s, b) = (Inr (be_bytes 32 (10 ^ 18)), (s, b - 1))"
  "0 < b \<Longrightarrow> read4 window_node pid ''getTickBitmap(bytes32,int16)'' (Some 0) (s, b) = (Inr (be_bytes 32 2), (s, b - 1))"
  "0 < b \<Longrightarrow> read4 window_node pid ''getTickBitmap(bytes32,int16)'' (Some 1) (s, b) = (Inr (be_bytes 32 0), (s, b - 1))"
  "0 < b \<Longrightarrow> read4 window_node pid ''getTickBitmap(bytes32,int16)'' (Some (- 1)) (s, b) = (Inr (be_bytes 32 0), (s, b - 1))"
  "0 < b \<Longrightarrow> read4 window_node pid ''getTickLiquidity(bytes32,int24)'' (Some 60) (s, b)
     = (Inr (be_bytes 32 (10 ^ 18) @ be_bytes 32 (10 ^ 18)), (s, b - 1))"
proof -
  have e: "encode_arg (Some 0) = Inr (replicate 31 0 @ [0])" "encode_arg (Some 1) = Inr (replicate 31 0 @ [1])"
    "encode_arg (Some (- 1)) = Inr (replicate 31 255 @ [255])" "encode_arg (Some 60) = Inr (replicate 31 0 @ [60])"
    by code_simp+
  show "0 < b \<Longrightarrow> read4 window_node pid ''getSlot0(bytes32)'' None (s, b) = (Inr sample_slot0, (s, b - 1))"
    "0 < b \<Longrightarrow> read4 window_node pid ''getLiquidity(bytes32)'' None (s, b) = (Inr (be_bytes 32 (10 ^ 18)), (s, b - 1))"
    "0 < b \<Longrightarrow> read4 window_node pid ''getTickBitmap(bytes32,int16)'' (Some 0) (s, b) = (Inr (be_bytes 32 2), (s, b - 1))"
    "0 < b \<Longrightarrow> read4 window_node pid ''getTickBitmap(bytes32,int16)'' (Some 1) (s, b) = (Inr (be_bytes 32 0), (s, b - 1))"
    "0 < b \<Longrightarrow> read4 window_node pid ''getTickBitmap(bytes32,int16)'' (Some (- 1)) (s, b) = (Inr (be_bytes 32 0), (s, b - 1))"
    "0 < b \<Longrightarrow> read4 window_node pid ''getTickLiquidity(bytes32,int24)'' (Some 60) (s, b)
     = (Inr (be_bytes 32 (10 ^ 18) @ be_bytes 32 (10 ^ 18)), (s, b - 1))"
    by (simp_all add: read4_def encode_arg_def [of None] e window_node_def)
qed

definition window_start :: poolSnapshot4 where
  "window_start = (fresh_snapshot sample_call sample_block)\<lparr>sPrice := 2 ^ 96 + 2 ^ 80, sTick := 0, fees := (3000, 3000),
     sLiquidity := 10 ^ 18, sSpacing := 60, received := 12, windowCenter := 0, windowCaptured := True\<rparr>"

lemma window_begin:
  "begin_capture sample_cfg window_attempt 0 empty_hash new_capture
     = (Inr 62, new_capture\<lparr>wc_snapshot := Some (window_start\<lparr>windowCaptured := False\<rparr>)\<rparr>)"
proof -
  have slot: "decode_slot0 3000 sample_slot0 = Inr (2 ^ 96 + 2 ^ 80, 0, 3000, 3000)" by code_simp
  have liq: "decode_active_liquidity (be_bytes 32 (10 ^ 18)) = Inr (10 ^ 18)" by code_simp
  have head: "capture_header (att_call window_attempt) 0 empty_hash = Inr sample_block"
  proof -
    have "replicate 32 (1 :: u8) \<noteq> empty_hash" by code_simp
    then show ?thesis by (simp add: capture_header_def window_attempt_def sample_call_def sample_block_def)
  qed
  have cfg: "lp_fee sample_cfg = 3000" "key_spacing sample_cfg = 60" "call_env (att_call window_attempt) = window_node"
    "at_received (att_call window_attempt) = 12" "wc_snapshot new_capture = None"
    "fresh_snapshot (att_call window_attempt) sample_block = fresh_snapshot sample_call sample_block"
    by (simp_all add: sample_cfg_def window_attempt_def sample_call_def new_capture_def fresh_snapshot_def)
  have "capture4 sample_cfg (att_call window_attempt) 0 empty_hash 64 = (Inr (window_start\<lparr>windowCaptured := False\<rparr>), 62)"
    unfolding capture4_def head cfg
    by (simp add: andthen_Inr window_reads slot liq [simplified] window_start_def cfg(6)) (simp add: fresh_snapshot_def)
  then show ?thesis by (simp add: begin_capture_def cfg)
qed

definition window_words4 :: poolSnapshot4 where
  "window_words4 = window_start\<lparr>words := [- 1 \<mapsto> 0, 0 \<mapsto> 2, 1 \<mapsto> 0]\<rparr>"

lemma window_bitmap: "readBitmapWindow window_attempt (poolID sample_cfg) (- 1) 1 (window_start, 62) = (Inr (), (window_words4, 59))"
proof -
  have ws: "[- 1..1] = [- 1, 0, 1 :: int]" by code_simp
  have b: "be_int (be_bytes 32 2) = 2" "be_int (be_bytes 32 0) = 0" by code_simp+
  have env: "call_env (att_call window_attempt) = window_node" "att_batch window_attempt = None" by (simp_all add: window_attempt_def)
  have "words window_start = Map.empty" by (simp add: window_start_def fresh_snapshot_def)
  moreover have "map_of [(- 1 :: int, 0 :: int), (0, 2), (1, 0)] = [- 1 \<mapsto> 0, 0 \<mapsto> 2, 1 \<mapsto> (0 :: int)]" by (simp add: fun_eq_iff)
  ultimately show ?thesis
    by (simp add: readBitmapWindow_def window_values_def env Let_def ws andthen_Inr window_reads b window_words4_def)
qed

lemma window_details:
  "resumeWindowTicks window_attempt (poolID sample_cfg) (- 1) 1 (window_words4, wc_ticks new_capture)
     = (Inr (), (window_words4\<lparr>ticks := [60 \<mapsto> 10 ^ 18], gross := [60 \<mapsto> 10 ^ 18]\<rparr>,
         \<lparr>staged = Some (empty_snapshot\<lparr>ticks := [60 \<mapsto> 10 ^ 18], gross := [60 \<mapsto> 10 ^ 18]\<rparr>), next_tick = 1\<rparr>))"
proof -
  have ws: "[- 1..1] = [- 1, 0, 1 :: int]" by code_simp
  have bits: "filter (bit (0 :: int)) [0..<256] = []" "filter (bit (2 :: int)) [0..<256] = [1]" by code_simp+
  have f: "words window_words4 (- 1) = Some 0" "words window_words4 0 = Some 2" "words window_words4 1 = Some 0" "sSpacing window_words4 = 60"
    "ticks window_words4 = Map.empty" "gross window_words4 = Map.empty"
    by (simp_all add: window_words4_def window_start_def fresh_snapshot_def)
  have all: "window_tick_list window_words4 [- 1..1] = Inr [60]" by (simp add: ws f bits)
  have bs: "batches_of 32 [60 :: int] = [[60]]" by (simp add: batches_of.simps)
  have store: "storeTickDetails4 empty_snapshot 60 (be_bytes 32 1000000000000000000 @ be_bytes 32 1000000000000000000)
      = Inr (10 ^ 18, empty_snapshot\<lparr>gross := [60 \<mapsto> 10 ^ 18], ticks := [60 \<mapsto> 10 ^ 18]\<rparr>)"
  proof -
    have "be_int (be_bytes 32 1000000000000000000) = 10 ^ 18" by code_simp
    moreover have "\<not> bit (10 ^ 18 :: int) 255" "power2 127 > 10 ^ 18" "\<not> BitLen_gt (10 ^ 18) 128" by code_simp+
    moreover have "\<not> 10 ^ 18 < - power2 127" by code_simp
    ultimately show ?thesis by (simp add: storeTickDetails4_def empty_snapshot_def Let_def)
  qed
  have env: "call_env (att_call window_attempt) = window_node" "att_batch window_attempt = None" "att_ctx window_attempt = (\<lambda>_. None)"
    by (simp_all add: window_attempt_def)
  have d: "batch_details window_attempt (poolID sample_cfg) [60] (window_words4, 1)
      = (Inr (empty_snapshot\<lparr>gross := [60 \<mapsto> 10 ^ 18], ticks := [60 \<mapsto> 10 ^ 18]\<rparr>), (window_words4, 0))"
    by (simp add: batch_details_def env Let_def andthen_Inr window_reads store)
  have n: "wc_ticks new_capture = \<lparr>staged = None, next_tick = 0\<rparr>" by (simp add: new_capture_def)
  show ?thesis
    by (simp add: resumeWindowTicks_def f(4) all n bs d env Let_def andthen_cases keep_batch_def) (simp add: empty_snapshot_def f)
qed

definition window_done :: poolSnapshot4 where
  "window_done = window_words4\<lparr>ticks := [60 \<mapsto> 10 ^ 18], gross := [60 \<mapsto> 10 ^ 18]\<rparr>"

lemma window_run: "\<exists>p'. resumeRetainedWindow sample_cfg window_attempt 0 empty_hash new_capture = (Inr window_done, p')"
proof -
  have wb: "window_bounds (window_start\<lparr>windowCaptured := False\<rparr>) = Inr (0, - 1, 1)"
  proof -
    have "bitmapWord 0 60 = Inr 0" "bitmapWord (- 887272) 60 = Inr (- 58)" "bitmapWord 887272 60 = Inr 57" by code_simp+
    moreover have "i32 (0 - 1) = - 1" "i32 (0 + 1) = 1" by code_simp+
    ultimately show ?thesis by (simp add: window_bounds_def window_start_def)
  qed
  have st: "window_start\<lparr>windowCenter := 0, windowCaptured := True\<rparr> = window_start"
    "(window_start\<lparr>windowCaptured := False\<rparr>)\<lparr>windowCenter := 0, windowCaptured := True\<rparr> = window_start"
    by (simp_all add: window_start_def)
  have fb: "fill_bitmap window_attempt (poolID sample_cfg) (- 1) 1 62 window_start (new_capture\<lparr>wc_snapshot := Some window_start\<rparr>)
      = (Inr window_words4, new_capture\<lparr>wc_snapshot := Some window_words4, bitmapReady := True\<rparr>)"
    by (simp add: fill_bitmap_def window_bitmap) (simp add: new_capture_def)
  obtain p3 where ft: "fill_ticks window_attempt (poolID sample_cfg) (- 1) 1 window_words4
      (new_capture\<lparr>wc_snapshot := Some window_words4, bitmapReady := True\<rparr>) = (Inr (), p3)" "wc_snapshot p3 = Some window_done"
    using window_details by (simp add: fill_ticks_def window_done_def)
  have v: "verifyRetainedCapture (att_call window_attempt) 2 p3 = (Inr (), p3)"
  proof -
    have "sHeader window_done = sample_block"
      by (simp add: window_done_def window_words4_def window_start_def fresh_snapshot_def)
    then show ?thesis
      by (simp add: verifyRetainedCapture_def ft(2) window_attempt_def sample_call_def sample_block_def)
  qed
  show ?thesis
    using ft(2) v by (simp add: resumeRetainedWindow_def andthen_Inr window_begin wb st Let_def fb ft(1))
qed


end
