(* ===== verification/V4_Live.thy ===== *)
theory V4_Live
  imports V4_Window
begin

text \<open>
  \<open>go/venues/uniswap/v4/retained_subscription.go\<close>: the loop of \<open>runRetainedSubscription\<close>, which keeps the retained inputs of a pool while its logs
  arrive and window captures run beside it in a goroutine. Each turn of the loop is a step for one of the things that \<open>select\<close>
  can choose. A capture is started by \<open>start_attempt\<close>; its goroutine works on the progress that nobody else touches until its result is received, so its whole
  work is done in the step \<open>captured\<close> that receives the result. When a step is taken (timers and delays), what callbacks answer and
  when logs arrive is arbitrary. \<open>with_events\<close> says whether the caller passed \<open>RetainedEvents\<close>; without them an
  inconsistency ends the loop, with them the inputs are captured again.
\<close>

section \<open>State\<close>

record live_env =
  l_cfg :: cache_config4
  l_abi :: AbiEnv
  l_sha :: "bytes \<Rightarrow> bytes"
  with_events :: bool

record live =
  l_cache :: StateCache4
  l_order :: retainedLogOrder
  l_replay :: "(Log \<times> int) list"
  l_busy :: bool
  l_pending :: bool
  l_epoch :: nat
  l_started :: nat
  l_observed :: u64
  l_floor :: u64
  l_from :: "u64 \<times> Hash"
  l_capture :: "window_capture option"
  l_price_active :: bool

definition retainedReplayLimit :: nat where
  "retainedReplayLimit = 4096"

section \<open>Steps\<close>

text \<open>The part before the loop. A new stream drops the previous inputs, so the first capture is pending.\<close>

definition begin_live :: "live_env \<Rightarrow> StateCache4 \<Rightarrow> retainedLogOrder \<Rightarrow> live res" where
  "begin_live le c ord =
     (if running c then Inl (Fail ''subscription=active'')
      else
        (let c = c\<lparr>running := True, active := True, generation := generation c + 1, floorHash := empty_hash, retained4 := None\<rparr>
         in ebind (retainedNeedsCapture (retained4 c)) (\<lambda>needs.
            Inr \<lparr>l_cache = c, l_order = ord, l_replay = [], l_busy = False, l_pending = needs, l_epoch = 0, l_started = 0,
                 l_observed = 0, l_floor = 0, l_from = (0, empty_hash), l_capture = None, l_price_active = False\<rparr>)))"

definition bump :: "StateCache4 \<Rightarrow> StateCache4" where
  "bump c = c\<lparr>generation := generation c + 1\<rparr>"

definition invalidate_live :: "live \<Rightarrow> live" where
  "invalidate_live l =
     l\<lparr>l_epoch := Suc (l_epoch l), l_floor := l_observed l, l_capture := None, l_replay := [],
       l_cache := bump ((l_cache l)\<lparr>retained4 := None\<rparr>), l_pending := True\<rparr>"

definition start_attempt :: "live \<Rightarrow> live" where
  "start_attempt l =
     (if l_pending l \<and> \<not> l_busy l then
        (let l = (case l_capture l of Some _ \<Rightarrow> l\<lparr>l_from := (l_floor l, empty_hash)\<rparr>
                  | None \<Rightarrow>
                      (let l = l\<lparr>l_capture := Some new_capture, l_from := (l_floor l, empty_hash)\<rparr>
                       in if retained4 (l_cache l) = None then l
                          else l\<lparr>l_from := (retainedBlock4 (l_cache l), retainedHash4 (l_cache l)), l_replay := []\<rparr>))
         in l\<lparr>l_busy := True, l_pending := False, l_started := l_epoch l\<rparr>)
      else l)"

text \<open>The replay of the logs that were received while the capture ran, on a cache of its own.\<close>

definition candidate :: "StateCache4 \<Rightarrow> poolSnapshot4 \<Rightarrow> StateCache4" where
  "candidate c s =
     c\<lparr>retained4 := Some s, retainedBlock4 := hNumber (sHeader s), retainedHash4 := hHash (sHeader s), retainedIndex4 := 0,
       retainedHasLog4 := False, journal4 := empty_journal\<rparr>"

fun replay_logs :: "live_env \<Rightarrow> (Log \<times> int) list \<Rightarrow> (StateCache4, unit) proc" where
  "replay_logs le [] = ret ()"
| "replay_logs le ((log, at) # rest) =
     andthen ((if lTopics log \<noteq> [] \<and> lTopics log ! 0 = keccak (l_abi le) swapSignature4 then applyLiveRetainedLog4 else applyRetainedLog4)
                (l_sha le) (l_abi le) (lp_fee (l_cfg le)) log at) (\<lambda>_. replay_logs le rest)"

definition install :: "StateCache4 \<Rightarrow> StateCache4 \<Rightarrow> StateCache4" where
  "install c cand =
     c\<lparr>retained4 := retained4 cand, journal4 := journal4 cand, retainedBlock4 := retainedBlock4 cand, retainedHash4 := retainedHash4 cand,
       retainedIndex4 := retainedIndex4 cand, retainedHasLog4 := retainedHasLog4 cand\<rparr>"

text \<open>The result of a capture. \<open>Inl\<close> is the error with which the loop returns.\<close>

definition captured :: "live_env \<Rightarrow> attempt \<Rightarrow> live \<Rightarrow> live res" where
  "captured le att l =
     (if \<not> l_busy l then Inr l
      else
        (let l = l\<lparr>l_busy := False\<rparr>
         in if l_started l \<noteq> l_epoch l then Inr l
            else case l_capture l of None \<Rightarrow> Inl (Panic ''nil pointer'')
            | Some p \<Rightarrow>
                (case resumeRetainedWindow (l_cfg le) att (fst (l_from l)) (snd (l_from l)) p of
                   (Inl e, p) \<Rightarrow>
                     (let l = l\<lparr>l_capture := (if wc_snapshot p = None then None else Some p)\<rparr>
                      in if retained4 (l_cache l) = None \<and> \<not> with_events le then Inl e else Inr (l\<lparr>l_pending := True\<rparr>))
                 | (Inr s, _) \<Rightarrow>
                     (let l = l\<lparr>l_capture := None\<rparr>
                      in case replay_logs le (l_replay l) (candidate (l_cache l) s) of
                           (Inl e, _) \<Rightarrow> if with_events le then Inr (invalidate_live l) else Inl e
                         | (Inr _, cand) \<Rightarrow>
                             ebind (retainedNeedsCapture (retained4 cand)) (\<lambda>needs.
                             Inr (l\<lparr>l_replay := [], l_cache := install (l_cache l) cand, l_price_active := True, l_pending := needs\<rparr>))))))"

text \<open>Buffering a log for the capture that runs, or that will have to run.\<close>

definition buffer_log :: "live_env \<Rightarrow> Log \<Rightarrow> int \<Rightarrow> live \<Rightarrow> live res" where
  "buffer_log le log at l =
     (if l_busy l \<or> l_capture l \<noteq> None \<or> (with_events le \<and> retained4 (l_cache l) = None) then
        ebind (if length (l_replay l) \<ge> retainedReplayLimit then
                 (if \<not> with_events le then Inl (Fail ''replay=too_long'')
                  else Inr (l\<lparr>l_epoch := Suc (l_epoch l), l_capture := None, l_replay := [], l_price_active := False,
                              l_cache := bump (l_cache l), l_pending := True\<rparr>))
               else Inr l) (\<lambda>l. Inr (l\<lparr>l_replay := l_replay l @ [(log, at)]\<rparr>))
      else Inr l)"

definition apply_live :: "live_env \<Rightarrow> Log \<Rightarrow> int \<Rightarrow> live \<Rightarrow> live res" where
  "apply_live le log at l =
     (if retained4 (l_cache l) = None then Inr l
      else
        (case applyLiveRetainedLog4 (l_sha le) (l_abi le) (lp_fee (l_cfg le)) log at (l_cache l) of
           (Inl e, c) \<Rightarrow>
             (let l = l\<lparr>l_cache := bump c, l_price_active := False\<rparr>
              in if \<not> with_events le then Inl e else Inr (l\<lparr>l_pending := True\<rparr>))
         | (Inr _, c) \<Rightarrow>
             (let l = l\<lparr>l_cache := c\<rparr>
              in if l_pending l then Inr l
                 else ebind (retainedNeedsCapture (retained4 c)) (\<lambda>needs. Inr (l\<lparr>l_pending := needs\<rparr>)))))"

text \<open>
  A log. \<open>swap_fails\<close> and \<open>removed_fails\<close> are what the callbacks return for it. The checks depend on whether there are callbacks:
  with them a duplicate is dropped and a conflict invalidates, without them a removed log ends the loop.
\<close>

definition received_log :: "live_env \<Rightarrow> failure option \<Rightarrow> failure option \<Rightarrow> Log \<Rightarrow> int \<Rightarrow> live \<Rightarrow> live res" where
  "received_log le swap_fails removed_fails log at l =
     (if lAddress log \<noteq> pool (l_cfg le) \<or> length (lTopics log) < 2 \<or> lTopics log ! 1 \<noteq> poolID (l_cfg le) then Inr l
      else if with_events le then
        (let l = l\<lparr>l_observed := max (l_observed l) (lBlockNumber log)\<rparr>;
             (verdict, ord) = accept log (l_order l);
             l = l\<lparr>l_order := ord\<rparr>;
             swap = (\<not> lRemoved log \<and> lBlockHash log \<noteq> empty_hash \<and> lTopics log ! 0 = keccak (l_abi le) swapSignature4)
         in if verdict = Inr True then Inr l
            else case (if swap then swap_fails else None) of Some e \<Rightarrow> Inl e
            | None \<Rightarrow>
                (case verdict of Inl e \<Rightarrow> Inr (invalidate_live l)
                 | Inr _ \<Rightarrow>
                     if lRemoved log then (case removed_fails of Some e \<Rightarrow> Inl e | None \<Rightarrow> Inr l)
                     else ebind (buffer_log le log at l) (apply_live le log at)))
      else if lRemoved log then Inl (Fail ''removed log'')
      else if lBlockHash log = empty_hash then Inl (Fail ''missing block hash'')
      else ebind (buffer_log le log at l) (apply_live le log at))"

text \<open>A recovery request (\<open>requestRetainedRecovery\<close>) of a quote that found inputs missing.\<close>

definition recover :: "live \<Rightarrow> live" where
  "recover l = l\<lparr>l_pending := True\<rparr>"

definition requestRetainedRecovery :: "live \<Rightarrow> poolSnapshot4 option \<Rightarrow> int \<Rightarrow> int option \<Rightarrow> failure \<Rightarrow> bool" where
  "requestRetainedRecovery l source amount base e \<longleftrightarrow>
     e = errStateReadBudget \<and> running (l_cache l) \<and> retained4 (l_cache l) = source
     \<and> (case base of None \<Rightarrow> False | Some b \<Rightarrow> amount \<le> b)"

inductive live_step :: "live_env \<Rightarrow> live \<Rightarrow> live \<Rightarrow> bool" for le :: live_env where
  start_step: "live_step le l (start_attempt l)"
| captured_step: "captured le att l = Inr l' \<Longrightarrow> live_step le l l'"
| log_step: "received_log le swap_fails removed_fails log at l = Inr l' \<Longrightarrow> live_step le l l'"
| recover_step: "live_step le l (recover l)"

definition live_reachable :: "live_env \<Rightarrow> live \<Rightarrow> bool" where
  "live_reachable le l \<longleftrightarrow> (\<exists>c ord l0. cache_reachable4 (l_cfg le) c \<and> begin_live le c ord = Inr l0 \<and> (live_step le)\<^sup>*\<^sup>* l0 l)"

section \<open>What every step keeps\<close>

definition idle_ok :: "live \<Rightarrow> bool" where
  "idle_ok l \<longleftrightarrow> l_busy l \<or> l_pending l \<or> retainedNeedsCapture (retained4 (l_cache l)) = Inr False"

definition live_ok :: "live_env \<Rightarrow> live \<Rightarrow> bool" where
  "live_ok le l \<longleftrightarrow> cache4_ok (l_cfg le) (l_cache l) \<and> (\<forall>p. l_capture l = Some p \<longrightarrow> wc_ok (l_cfg le) p)
     \<and> (l_busy l \<longrightarrow> l_pending l \<or> l_started l = l_epoch l)
     \<and> (l_busy l \<and> l_started l = l_epoch l \<longrightarrow> l_capture l \<noteq> None)
     \<and> l_started l \<le> l_epoch l \<and> length (l_replay l) \<le> retainedReplayLimit \<and> idle_ok l"

lemma needs_capture_None [simp]: "retainedNeedsCapture None = Inr True"
  by (simp add: retainedNeedsCapture_def)

lemma needs_capture_calm:
  assumes "snapshot_ok cfg s" and "0 < key_spacing cfg"
  shows "\<exists>b. retainedNeedsCapture (Some s) = Inr b"
proof -
  have "sSpacing s \<noteq> 0" using assms by (simp add: snapshot_ok_def)
  then show ?thesis by (auto simp: retainedNeedsCapture_def bitmapWord_def)
qed

lemma cache4_ok_bump [simp]: "cache4_ok cfg (bump c) = cache4_ok cfg c" "retained4 (bump c) = retained4 c"
  by (simp_all add: cache4_ok_def bump_def)

lemma cache4_ok_dropped: "cache4_ok cfg c \<Longrightarrow> cache4_ok cfg (bump (c\<lparr>retained4 := None\<rparr>))"
  by (simp add: cache4_ok_def bump_def)

lemma invalidate_live_ok:
  assumes "live_ok le l"
  shows "live_ok le (invalidate_live l)"
proof -
  have "l_started l < Suc (l_epoch l)" "cache4_ok (l_cfg le) (bump ((l_cache l)\<lparr>retained4 := None\<rparr>))"
    using assms by (simp_all add: live_ok_def cache4_ok_dropped del: cache4_ok_bump)
  then show ?thesis
    by (simp add: live_ok_def invalidate_live_def idle_ok_def retainedReplayLimit_def del: cache4_ok_bump)
qed

lemma start_attempt_ok:
  assumes ok: "live_ok le l"
  shows "live_ok le (start_attempt l)"
proof (cases "l_pending l \<and> \<not> l_busy l")
  case False
  then show ?thesis using ok by (auto simp: start_attempt_def)
next
  case True
  obtain p from_where logs where p: "wc_ok (l_cfg le) p" and logs: "length logs \<le> retainedReplayLimit"
    and l': "start_attempt l = l\<lparr>l_capture := Some p, l_from := from_where, l_replay := logs, l_busy := True, l_pending := False,
      l_started := l_epoch l\<rparr>"
  proof (cases "l_capture l")
    case None
    show thesis
    proof (cases "retained4 (l_cache l) = None")
      case True
      then show thesis
        using that [of new_capture "l_replay l" "(l_floor l, empty_hash)"] ok None \<open>l_pending l \<and> \<not> l_busy l\<close>
        by (simp add: live_ok_def start_attempt_def wc_ok_new Let_def)
    next
      case False
      then obtain s where "retained4 (l_cache l) = Some s" by blast
      then show thesis
        using that [of new_capture "[]" "(retainedBlock4 (l_cache l), retainedHash4 (l_cache l))"] None \<open>l_pending l \<and> \<not> l_busy l\<close>
        by (simp add: start_attempt_def wc_ok_new Let_def)
    qed
  next
    case (Some p)
    then show thesis
      using that [of p "l_replay l" "(l_floor l, empty_hash)"] ok True by (simp add: live_ok_def start_attempt_def Let_def)
  qed
  have "cache4_ok (l_cfg le) (l_cache l)" using ok unfolding live_ok_def by blast
  then show ?thesis using p logs unfolding live_ok_def idle_ok_def l' by simp
qed

lemma replay_logs_ok:
  "cache4_ok (l_cfg le) c \<Longrightarrow> replay_logs le logs c = (r, c') \<Longrightarrow> cache4_ok (l_cfg le) c'"
proof (induction logs arbitrary: c)
  case Nil
  then show ?case by simp
next
  case (Cons x logs)
  obtain log at where x: "x = (log, at)" by (cases x)
  let ?step = "(if lTopics log \<noteq> [] \<and> lTopics log ! 0 = keccak (l_abi le) swapSignature4 then applyLiveRetainedLog4 else applyRetainedLog4)
      (l_sha le) (l_abi le) (lp_fee (l_cfg le)) log at"
  obtain r1 c1 where 1: "?step c = (r1, c1)" by (cases "?step c")
  have ok1: "cache4_ok (l_cfg le) c1"
  proof (cases "lTopics log \<noteq> [] \<and> lTopics log ! 0 = keccak (l_abi le) swapSignature4")
    case True
    show ?thesis using applyLiveRetainedLog4_ok [OF Cons.prems(1) 1 [unfolded if_P [OF True]]] .
  next
    case False
    show ?thesis
      using applyRetainedLogMode4_ok [OF Cons.prems(1) 1 [unfolded if_not_P [OF False] applyRetainedLog4_def]] by (rule conjunct1)
  qed
  show ?case
  proof (cases r1)
    case (Inl e)
    then show ?thesis using 1 ok1 Cons.prems(2) by (simp add: x andthen_cases)
  next
    case (Inr u)
    then have "replay_logs le logs c1 = (r, c')" using 1 Cons.prems(2) by (simp add: x andthen_cases)
    then show ?thesis using Cons.IH [OF ok1] by blast
  qed
qed

lemma stale_ok:
  assumes "live_ok le l" and "l_busy l" and "l_started l \<noteq> l_epoch l"
  shows "live_ok le (l\<lparr>l_busy := False\<rparr>)"
proof -
  have "l_pending l" using assms unfolding live_ok_def by blast
  then show ?thesis using assms(1) unfolding live_ok_def idle_ok_def by simp
qed

lemma captured_ok:
  assumes ok: "live_ok le l" and run: "captured le att l = Inr l'"
  shows "live_ok le l'"
proof (cases "l_busy l \<and> l_started l = l_epoch l")
  case False
  then have "l' = l \<or> l' = l\<lparr>l_busy := False\<rparr> \<and> l_busy l \<and> l_started l \<noteq> l_epoch l"
    using run unfolding captured_def Let_def by (simp split: if_splits)
  then show ?thesis using ok stale_ok by blast
next
  case True
  then obtain p where p: "l_capture l = Some p" and pok: "wc_ok (l_cfg le) p" using ok by (auto simp: live_ok_def)
  obtain r p' where rr: "resumeRetainedWindow (l_cfg le) att (fst (l_from l)) (snd (l_from l)) p = (r, p')"
    by (cases "resumeRetainedWindow (l_cfg le) att (fst (l_from l)) (snd (l_from l)) p")
  note w = resumeRetainedWindow_ok [OF rr pok]
  show ?thesis
  proof (cases r)
    case (Inl e)
    then show ?thesis
      using ok run True p rr w by (auto simp: captured_def Let_def live_ok_def idle_ok_def split: if_splits)
  next
    case (Inr s)
    define l0 where "l0 = l\<lparr>l_busy := False, l_capture := None\<rparr>"
    obtain r1 cand where rp: "replay_logs le (l_replay l) (candidate (l_cache l) s) = (r1, cand)"
      by (cases "replay_logs le (l_replay l) (candidate (l_cache l) s)")
    have "cache4_ok (l_cfg le) (candidate (l_cache l) s)"
      using ok w Inr by (simp add: live_ok_def cache4_ok_def candidate_def)
    note cand = replay_logs_ok [OF this rp]
    show ?thesis
    proof (cases r1)
      case e: (Inl e)
      have "live_ok le (invalidate_live l0)"
        using ok by (auto simp: live_ok_def invalidate_live_def idle_ok_def cache4_ok_def bump_def retainedReplayLimit_def l0_def)
      then show ?thesis using run True p rr Inr rp e by (simp add: captured_def l0_def split: if_splits)
    next
      case u: (Inr u)
      obtain needs where n: "retainedNeedsCapture (retained4 cand) = Inr needs"
        and l': "l' = l0\<lparr>l_replay := [], l_cache := install (l_cache l) cand, l_price_active := True, l_pending := needs\<rparr>"
        using run True p rr Inr rp u by (auto simp: captured_def l0_def)
      have "cache4_ok (l_cfg le) (install (l_cache l) cand)"
        using ok cand by (simp add: live_ok_def cache4_ok_def install_def)
      then show ?thesis using ok n by (simp add: live_ok_def idle_ok_def l' l0_def install_def retainedReplayLimit_def)
    qed
  qed
qed

lemma buffer_log_ok:
  assumes ok: "live_ok le l" and run: "buffer_log le log at l = Inr l'"
  shows "live_ok le l'"
proof (cases "l_busy l \<or> l_capture l \<noteq> None \<or> (with_events le \<and> retained4 (l_cache l) = None)")
  case False
  then have "l' = l" using run by (auto simp: buffer_log_def)
  then show ?thesis using ok by simp
next
  case True
  show ?thesis
  proof (cases "retainedReplayLimit \<le> length (l_replay l)")
    case full: True
    then have l': "l' = l\<lparr>l_epoch := Suc (l_epoch l), l_capture := None, l_price_active := False, l_cache := bump (l_cache l),
        l_pending := True, l_replay := [(log, at)]\<rparr>"
      using run True unfolding buffer_log_def by (simp split: if_splits)
    have "l_started l < Suc (l_epoch l)" using ok by (simp add: live_ok_def)
    then show ?thesis using ok by (simp add: l' live_ok_def idle_ok_def retainedReplayLimit_def)
  next
    case short: False
    then have l': "l' = l\<lparr>l_replay := l_replay l @ [(log, at)]\<rparr>"
      using run True unfolding buffer_log_def by simp
    have "length (l_replay l) < retainedReplayLimit" using short by simp
    then show ?thesis using ok unfolding live_ok_def idle_ok_def l' by simp
  qed
qed

lemma apply_live_ok:
  assumes ok: "live_ok le l" and run: "apply_live le log at l = Inr l'"
  shows "live_ok le l'"
proof (cases "retained4 (l_cache l)")
  case None
  then show ?thesis using assms by (simp add: apply_live_def)
next
  case (Some s)
  obtain r c where al: "applyLiveRetainedLog4 (l_sha le) (l_abi le) (lp_fee (l_cfg le)) log at (l_cache l) = (r, c)"
    by (cases "applyLiveRetainedLog4 (l_sha le) (l_abi le) (lp_fee (l_cfg le)) log at (l_cache l)")
  have c: "cache4_ok (l_cfg le) c" using applyLiveRetainedLog4_ok [OF _ al] ok unfolding live_ok_def by blast
  show ?thesis
  proof (cases r)
    case (Inl e)
    then have "l' = l\<lparr>l_cache := bump c, l_price_active := False, l_pending := True\<rparr>"
      using run unfolding apply_live_def by (simp add: Some al split: if_splits)
    then show ?thesis using ok c unfolding live_ok_def idle_ok_def by simp
  next
    case (Inr u)
    show ?thesis
    proof (cases "l_pending l")
      case True
      then have "l' = l\<lparr>l_cache := c\<rparr>" using run Inr unfolding apply_live_def by (simp add: Some al)
      then show ?thesis using ok c True unfolding live_ok_def idle_ok_def by simp
    next
      case False
      then obtain needs where n: "retainedNeedsCapture (retained4 c) = Inr needs" and l': "l' = l\<lparr>l_cache := c, l_pending := needs\<rparr>"
        using run Inr unfolding apply_live_def by (auto simp: Some al ebind_eq_Inr)
      show ?thesis using ok c False n unfolding live_ok_def idle_ok_def l' by simp
    qed
  qed
qed

lemma both_ok:
  assumes "ebind (buffer_log le log at l) (apply_live le log at) = Inr l'" and "live_ok le l"
  shows "live_ok le l'"
proof -
  obtain l1 where "buffer_log le log at l = Inr l1" and "apply_live le log at l1 = Inr l'"
    using assms(1) unfolding ebind_eq_Inr by blast
  then show ?thesis using assms(2) buffer_log_ok apply_live_ok by metis
qed

lemma received_log_ok:
  assumes ok: "live_ok le l" and run: "received_log le swap_fails removed_fails log at l = Inr l'"
  shows "live_ok le l'"
proof (cases "lAddress log \<noteq> pool (l_cfg le) \<or> length (lTopics log) < 2 \<or> lTopics log ! 1 \<noteq> poolID (l_cfg le)")
  case True
  then have "l' = l" using run unfolding received_log_def by simp
  then show ?thesis using ok by simp
next
  case mine: False
  show ?thesis
  proof (cases "with_events le")
    case False
    then have "ebind (buffer_log le log at l) (apply_live le log at) = Inr l'"
      using run unfolding received_log_def if_not_P [OF mine] by (simp split: if_splits)
    then show ?thesis using ok by (rule both_ok)
  next
    case True
    obtain verdict ord where a: "accept log (l_order l) = (verdict, ord)" by (cases "accept log (l_order l)")
    define l1 where "l1 = l\<lparr>l_observed := max (l_observed l) (lBlockNumber log), l_order := ord\<rparr>"
    have ok1: "live_ok le l1" using ok by (simp add: live_ok_def idle_ok_def l1_def)
    have "l' = l1 \<or> l' = invalidate_live l1 \<or> ebind (buffer_log le log at l1) (apply_live le log at) = Inr l'"
      using run unfolding received_log_def if_not_P [OF mine] if_P [OF True] Let_def
      by (simp add: a flip: l1_def split: if_splits option.splits sum.splits)
    then show ?thesis
      by (elim disjE) (use ok1 in \<open>simp_all add: invalidate_live_ok both_ok\<close>)
  qed
qed

lemma live_step_ok: "live_step le l l' \<Longrightarrow> live_ok le l \<Longrightarrow> live_ok le l'"
proof (induction rule: live_step.induct)
  case (start_step l)
  then show ?case by (rule start_attempt_ok)
next
  case (recover_step l)
  then show ?case by (simp add: live_ok_def idle_ok_def recover_def)
qed (use captured_ok received_log_ok in blast)+

lemma begin_live_ok: "cache4_ok (l_cfg le) c \<Longrightarrow> begin_live le c ord = Inr l \<Longrightarrow> live_ok le l"
  by (auto simp: begin_live_def Let_def live_ok_def idle_ok_def cache4_ok_def retainedReplayLimit_def split: if_splits)

lemma live_reachable_ok: "live_reachable le l \<Longrightarrow> live_ok le l"
proof -
  assume "live_reachable le l"
  then obtain c ord l0 where c: "cache_reachable4 (l_cfg le) c" "begin_live le c ord = Inr l0" and steps: "(live_step le)\<^sup>*\<^sup>* l0 l"
    by (auto simp: live_reachable_def)
  have "live_ok le l0" using begin_live_ok cache_reachable4_ok(1) c by blast
  with steps show ?thesis by (induction rule: rtranclp_induct) (auto intro: live_step_ok)
qed

section \<open>A concrete run\<close>

definition sample_le :: live_env where
  "sample_le = \<lparr>l_cfg = sample_cfg, l_abi = sample_abi, l_sha = (\<lambda>_. []), with_events = False\<rparr>"

definition running_new :: StateCache4 where
  "running_new = sample_new\<lparr>running := True, active := True, generation := 1, floorHash := empty_hash, retained4 := None\<rparr>"

definition live_start :: live where
  "live_start = \<lparr>l_cache = running_new, l_order = \<lparr>oSeen = [], oQueue = []\<rparr>, l_replay = [], l_busy = False, l_pending = True, l_epoch = 0, l_started = 0,
     l_observed = 0, l_floor = 0, l_from = (0, empty_hash), l_capture = None, l_price_active = False\<rparr>"

definition live_done :: live where
  "live_done = live_start\<lparr>l_started := 0, l_pending := False, l_price_active := True,
     l_cache := install running_new (candidate running_new window_done)\<rparr>"

lemma live_run: "live_reachable sample_le live_done"
proof -
  have cfg: "l_cfg sample_le = sample_cfg" "\<not> with_events sample_le" by (simp_all add: sample_le_def)
  have none: "retained4 running_new = None" by (simp add: running_new_def)
  have start: "begin_live sample_le sample_new \<lparr>oSeen = [], oQueue = []\<rparr> = Inr live_start"
    by (simp add: begin_live_def live_start_def running_new_def) (simp add: sample_new_def)
  define l1 where "l1 = live_start\<lparr>l_capture := Some new_capture, l_busy := True, l_pending := False\<rparr>"
  have "start_attempt live_start = l1"
    by (simp add: start_attempt_def Let_def l1_def) (simp add: live_start_def none)
  then have step1: "live_step sample_le live_start l1" using start_step [of sample_le live_start] by simp
  obtain p where run: "resumeRetainedWindow sample_cfg window_attempt 0 empty_hash new_capture = (Inr window_done, p)"
    using window_run by blast
  have needs: "retainedNeedsCapture (Some window_done) = Inr False" by code_simp
  have f: "l_busy l1" "l_started l1 = 0" "l_epoch l1 = 0" "l_capture l1 = Some new_capture" "l_from l1 = (0, empty_hash)" "l_replay l1 = []"
    "l_cache l1 = running_new"
    by (simp_all add: l1_def live_start_def)
  have "captured sample_le window_attempt l1 = Inr (l1\<lparr>l_busy := False, l_capture := None, l_replay := [],
      l_cache := install running_new (candidate running_new window_done), l_price_active := True, l_pending := False\<rparr>)"
    by (simp add: captured_def f cfg run Let_def candidate_def needs)
  moreover have "l1\<lparr>l_busy := False, l_capture := None, l_replay := [], l_cache := install running_new (candidate running_new window_done),
      l_price_active := True, l_pending := False\<rparr> = live_done"
    by (simp add: l1_def live_done_def live_start_def)
  ultimately have "live_step sample_le l1 live_done" by (simp add: captured_step)
  with step1 have steps: "(live_step sample_le)\<^sup>*\<^sup>* live_start live_done" by (meson rtranclp.simps)
  have "cache_reachable4 (l_cfg sample_le) sample_new"
    unfolding cache_reachable4_def cfg using sample_new_cache by blast
  then show ?thesis using start steps unfolding live_reachable_def by blast
qed

text \<open>
  C40. The retained subscription of a v4 pool never rests on missing inputs (\<open>runRetainedSubscription\<close>): in every state that any order of logs,
  capture attempts, results, recovery requests and invalidations reaches, a capture is running, one is pending, or the inputs cover the
  window around the price completely; a running capture whose result would be used still has its progress; the buffer of
  logs for a running capture stays within its limit of 4096; and the inputs are always in range for the pool.
\<close>

theorem retained_loop_never_idle:
  assumes "live_reachable le l"
  shows "(l_busy l \<or> l_pending l \<or> retainedNeedsCapture (retained4 (l_cache l)) = Inr False)
    \<and> \<not> (l_busy l \<and> l_started l = l_epoch l \<and> l_capture l = None)
    \<and> length (l_replay l) \<le> 4096 \<and> cache4_ok (l_cfg le) (l_cache l)"
  using live_reachable_ok [OF assms] unfolding live_ok_def idle_ok_def retainedReplayLimit_def by blast

theorem retained_loop_never_idle_witness:
  "retainedNeedsCapture (retained4 (l_cache live_done)) = Inr False \<and> retained4 (l_cache live_done) = Some window_done
    \<and> cache4_ok sample_cfg (l_cache live_done)"
proof -
  have d: "\<not> l_busy live_done" "\<not> l_pending live_done" "retained4 (l_cache live_done) = Some window_done" "l_cfg sample_le = sample_cfg"
    by (simp_all add: live_done_def live_start_def install_def candidate_def sample_le_def)
  show ?thesis using retained_loop_never_idle [OF live_run] d by simp
qed

end
