(* ===== verification/Spec2Isabelle.thy ===== *)
theory Spec2Isabelle
  imports CL_State V3_Retained Raydium_Venue Core_Amount Core_Registry DLMM_Venue Cetus_Quote Sui_Codec Sui_Builder
    Tick_Batch Sui_Retained_Inv Cpmm_Cache V4_Live
begin

text \<open>
  Verification library of the Go part of \<open>k4k3ru-hub/onchain\<close>: exact local quotes for decentralised exchanges
  on EVM chains, Solana and Sui, the retained state they are computed from, Sui transactions, and the core
  types. The models are translations of the Go functions named in the theories' introductions and
  declared under the same names; this header says how they fit together.

  \<^bold>\<open>Conventions.\<close> A function that returns \<open>(T, error)\<close> is a function into \<open>'a res\<close> (\<open>Prelude\<close>): the error is
  a value, tests with \<open>errors.Is\<close> see a \<open>Sentinel\<close>, and a run time panic (division by zero, nil, index out of
  range, a buffer too small) is the error \<open>Panic\<close>, so that "does not panic" is a theorem and not a
  convention. A \<open>big.Int\<close> is an \<open>int\<close>, a \<open>uint64\<close> and its kin are words, and an \<open>int32\<close> is an \<open>int\<close> that every
  operation wraps with \<open>i32\<close>. Code that mutates an object and may fail is a \<open>proc\<close> (\<open>Proc\<close>), whose state
  survives the error. What the repository does not contain is a parameter: what a node answers, hash
  functions, base58, the clock, the scheduler.

  \<^bold>\<open>Shared arithmetic.\<close> \<open>Tick_Ratio\<close> models the one loop by which all packages turn a tick into a square root
  price, and proves it strictly monotone for every table of factors that passes a finite check (locales
  \<open>falling_ticks\<close> and \<open>rising_ticks\<close>, interpreted on the tables of Uniswap, Raydium and the Sui venues).
  \<open>Swap_Curve\<close> holds the curve between two prices and the locale \<open>swap_step\<close>: the contract of a venue's step
  function, from which the totals of a whole swap follow (amount consumed, never better than the spot price).
  \<open>Tick_Bitmap\<close> is the search for the next initialized tick in words of 256 bits.

  \<^bold>\<open>EVM.\<close> \<open>CL_Math\<close>, \<open>Go_Slices\<close> and \<open>CL_State\<close> model \<open>go/evm/clliquidity\<close>: validation and valuation of the complete
  liquidity state of a pool and its updates, with the refinement of the sorted tick list by the liquidity
  distribution. \<open>V3_Step\<close>, \<open>V3_Pool\<close> and \<open>V3_Retained\<close> model the local quote of \<open>go/venues/uniswap/v3\<close>, the snapshot it
  reads through, and the replay of pool logs that keeps the snapshot equal to the contract's state.
  \<open>Evm_Observation\<close> models \<open>go/internal/evmobservation\<close>, which proves a retained state unchanged.
  \<open>V4_Pool\<close> models the local quote of \<open>go/venues/uniswap/v4\<close> and refines it into the one of v3 by an adapter between the two
  formats of reads. \<open>V4_Cache\<close> holds its fees, its state cache (a quote is two critical sections with any list of log events
  between them), the check of a previous quote, quotes of frozen inputs and the logs that keep retained inputs up to date;
  \<open>V4_Window\<close> the capture of the words around the price, which is resumed after failures; and \<open>V4_Live\<close> the loop of the
  retained subscription as a step relation over what \<open>select\<close> can choose, with the capture of its worker as one step.

  \<^bold>\<open>Solana.\<close> \<open>Solana_Arrays\<close> models the adaptive loop that finds out which array accounts a quote needs, over a
  locale of venues; \<open>Raydium_Math\<close>, \<open>Raydium_Step\<close>, \<open>Raydium_Client\<close>, \<open>Raydium_Venue\<close> and \<open>DLMM_Math\<close>, \<open>DLMM_Client\<close>,
  \<open>DLMM_Venue\<close> are its two venues, from account bytes to quotes. \<open>Raydium_Cpmm\<close> models the constant product pools of
  \<open>go/solana/raydium/cpmm\<close>, whose quotes need no arrays; \<open>Solana_Retained\<close> the account state that
  \<open>go/solana\<close> retains from notifications (never an older slot over a newer one); \<open>Cpmm_Cache\<close> the state cache over both:
  a call holds the lock twice, so its model takes the events that arrive in between as a list, and the lemmas
  say what the generation counter then guarantees of every interleaving.

  \<^bold>\<open>Sui.\<close> \<open>Cetus_Math\<close> and \<open>Cetus_Quote\<close> model the local quote of Cetus. \<open>Bcs\<close>, \<open>Sui_Type_Tag\<close>, \<open>Sui_Transaction\<close>,
  \<open>Sui_Codec\<close> and \<open>Sui_Builder\<close> model \<open>go/sui\<close>: programmable transactions, their validation, their canonical
  encoding (locales \<open>codec\<close> and \<open>item_codec\<close>) and the builder as a step relation. \<open>Sui_Steps\<close> (with \<open>Near_Curve\<close>, which
  bounds the roundings) and \<open>Sui_Cache\<close> (with \<open>Go_Json\<close>, the decoding of JSON fields) model the local quotes of
  Turbos, Momentum and Bluefin over the fields of a pool. \<open>Tick_Batch\<close> models the worker pool of
  \<open>go/internal/tickbatch\<close> as a step relation of all interleavings; \<open>Sui_Window\<close> the three words around the price
  that \<open>go/internal/suiwindow\<close> reads with all their ticks; \<open>Sui_Live\<close> the notifications of a subscription and
  the event loop \<open>Run\<close>, whose runs are lists of events. \<open>Sui_Pool\<close> and \<open>Sui_Retained\<close> model the pool objects and
  the state caches of the three venues: capture at a checkpoint, quotes, live updates, and the replacement
  of the window. What differs between the venues is a record of operations; \<open>Sui_Retained_Inv\<close> states what these
  promise as the locale \<open>retained_venue\<close>, interprets it on each of them, and derives the invariants of every
  cache that any sequence of operations reaches, with readers that may answer anything.

  \<^bold>\<open>Core.\<close> \<open>Go_Text\<close>, \<open>Core_Amount\<close> and \<open>Core_Registry\<close> model \<open>go/core\<close>: text functions, decimal amounts, and the
  registries and policies.
  \<^bold>\<open>Bounds and fuel.\<close> Recursions over a loop's budget carry the code's own bound: 2048 turns of the quote loops,
  five attempts of at most 32 arrays in the adaptive loop, 256 bits of a word, five bytes of a ULEB128
  length, 64 nested Move types. The parser of type parameters takes one more than the length of the text as
  fuel, and a lemma shows that the fuel is never used up. No other fuel occurs. The generation of a state cache is
  a 64-bit counter; that it tells two states apart is used for fewer than \<open>2 ^ 64\<close> events during one call.

  \<^bold>\<open>Not modelled.\<close> Transport (JSON-RPC, gRPC, WebSocket), goroutines that only forward, time stamps that no decision
  reads, command line tools, generated code (gRPC messages, contract bindings), the REST clients, key pairs
  and signatures, and the statistics of \<open>go/evm/ammactivity\<close>. Texts of errors are reduced to their reason.
\<close>

end
